(* ===== verification/Prelude.thy ===== *)
theory Prelude
  imports Main "HOL-Library.Word"
begin

text \<open>
  Shared vocabulary of the development: names for the fixed-width C integers, the errno values
  the code returns, the collections of simplification rules the component theories extend, and
  the generic facts about words used as free-running indices and about arrays viewed as lists.
\<close>

unbundle bit_operations_syntax

section \<open>C integers and error codes\<close>

type_synonym u8 = "8 word"
type_synonym u16 = "16 word"
type_synonym u32 = "32 word"
type_synonym u64 = "64 word"
type_synonym i32 = int

abbreviation (input) ENOENT :: "int" where "ENOENT \<equiv> 2"
abbreviation (input) EINVAL :: "int" where "EINVAL \<equiv> 22"
abbreviation (input) ENODEV :: "int" where "ENODEV \<equiv> 19"
abbreviation (input) ENOTSUP :: "int" where "ENOTSUP \<equiv> 95"
abbreviation (input) EOVERFLOW :: "int" where "EOVERFLOW \<equiv> 75"
abbreviation (input) ENOBUFS :: "int" where "ENOBUFS \<equiv> 105"

named_theorems ring_simps \<open>rules of the ring component\<close>
named_theorems pool_simps \<open>rules of the mempool component\<close>
named_theorems mbuf_simps \<open>rules of the mbuf component\<close>
named_theorems word_nat \<open>rules that move word arithmetic to natural numbers\<close>

section \<open>Words as indices\<close>

lemma unat_and_mask [word_nat]: "unat (x AND mask m) = unat x mod 2 ^ m" for x :: "'a::len word"
  by (simp only: take_bit_eq_mask [symmetric] unsigned_take_bit_eq) (simp add: take_bit_eq_mod)

lemma unat_add_lt [word_nat]:
  "unat x + unat y < 2 ^ LENGTH('a) \<Longrightarrow> unat (x + y) = unat x + unat y" for x y :: "'a::len word"
  by (simp add: unat_word_ariths)

lemma unat_sub_le [word_nat]:
  "unat y \<le> unat x \<Longrightarrow> unat (x - y) = unat x - unat y" for x y :: "'a::len word"
  by (simp add: unat_sub word_le_nat_alt)

lemma unat_inc_below: "x < y \<Longrightarrow> unat (x + 1) = Suc (unat x)" for x y :: "'a::len word"
proof -
  assume "x < y"
  then have "Suc (unat x) \<le> unat y" by (simp add: word_less_nat_alt)
  also have "unat y < 2 ^ LENGTH('a)" by (rule unsigned_less)
  finally show ?thesis by (simp add: unat_word_ariths)
qed

lemma word_block_split:
  fixes n :: "'a::len word"
  shows "unat (n AND NOT m) + unat (n AND m) = unat n"
    and "unat (n AND NOT m) = unat n - unat (n AND m)"
proof -
  have eq: "(n AND m) + (n AND NOT m) = n"
    by (subst disjunctive_add_eq_or) (auto simp: bit_eq_iff bit_simps)
  have le: "unat (n AND m) \<le> unat n" using word_and_le2 word_le_nat_alt by blast
  from eq have "n AND NOT m = n - (n AND m)" by (metis add_diff_cancel_left')
  with le show "unat (n AND NOT m) = unat n - unat (n AND m)" by (simp add: unat_sub_le)
  with le show "unat (n AND NOT m) + unat (n AND m) = unat n" by simp
qed

lemma block_dvd: "2 ^ k dvd unat (n AND NOT (mask k))" for n :: "'a::len word"
  by (simp add: word_block_split(2) unat_and_mask minus_mod_eq_mult_div)

lemma unat_add_mod_pow2:
  fixes x y :: "'a::len word"
  assumes "m \<le> LENGTH('a)"
  shows "unat (x + y) mod 2 ^ m = (unat x + unat y) mod 2 ^ m"
  using assms by (simp add: unat_word_ariths mod_mod_cancel le_imp_power_dvd)

text \<open>Unsigned subtraction of a nearby index: the distance between two free-running counters
  is exact as long as it fits, whether or not the counters have wrapped.\<close>

lemma word_dist_add:
  fixes t h :: "'a::len word"
  assumes "unat (h - t) + unat n < 2 ^ LENGTH('a)"
  shows "unat ((h + n) - t) = unat (h - t) + unat n"
proof -
  have "(h + n) - t = (h - t) + n" by simp
  with assms show ?thesis by (metis unat_add_lt)
qed

lemma word_dist_sub:
  fixes t h :: "'a::len word"
  assumes "unat n \<le> unat (h - t)"
  shows "unat (h - (t + n)) = unat (h - t) - unat n"
proof -
  have "h - (t + n) = (h - t) - n" by simp
  with assms show ?thesis by (metis unat_sub_le)
qed

section \<open>Arrays as lists\<close>

text \<open>Copying \<open>k\<close> consecutive cells from one array into another, one assignment at a time:
  the meaning of a counted C copy loop.\<close>

fun copy_range :: "'a list \<Rightarrow> nat \<Rightarrow> 'a list \<Rightarrow> nat \<Rightarrow> nat \<Rightarrow> 'a list" where
  "copy_range dst d src s 0 = dst"
| "copy_range dst d src s (Suc k) = copy_range (dst[d := src ! s]) (Suc d) src (Suc s) k"

lemma length_copy_range [simp]: "length (copy_range dst d src s k) = length dst"
  by (induction k arbitrary: dst d s) auto

lemma nth_copy_range:
  assumes "d + k \<le> length dst" and "p < length dst"
  shows "copy_range dst d src s k ! p = (if d \<le> p \<and> p < d + k then src ! (s + (p - d)) else dst ! p)"
  using assms
proof (induction k arbitrary: dst d s)
  case (Suc k)
  then have "copy_range (dst[d := src ! s]) (Suc d) src (Suc s) k ! p =
      (if Suc d \<le> p \<and> p < Suc d + k then src ! (Suc s + (p - Suc d)) else dst[d := src ! s] ! p)"
    by simp
  with Suc.prems show ?case by (auto simp: nth_list_update Suc_diff_Suc)
qed auto

lemma copy_range_add:
  "copy_range dst d src s (a + b) = copy_range (copy_range dst d src s a) (d + a) src (s + a) b"
  by (induction a arbitrary: dst d s) auto

text \<open>A C cast of a table of 32-bit words to a table of wider elements: \<open>chunks k\<close> groups
  the words \<open>k\<close> at a time, and \<open>concat\<close> casts back.\<close>

function chunks :: "nat \<Rightarrow> 'a list \<Rightarrow> 'a list list" where
  "chunks k xs = (if k = 0 \<or> length xs < k then [] else take k xs # chunks k (drop k xs))"
  by pat_completeness auto
termination
  by (relation "measure (\<lambda>(k, xs). length xs)") auto

declare chunks.simps [simp del]

lemma chunks_short: "length xs < k \<Longrightarrow> chunks k xs = []"
  by (simp add: chunks.simps)

lemma chunks_Cons: "0 < k \<Longrightarrow> length x = k \<Longrightarrow> chunks k (x @ xs) = x # chunks k xs"
  by (simp add: chunks.simps [of k "x @ xs"])

lemma chunks_concat:
  assumes "0 < k" and "\<forall>x \<in> set xss. length x = k"
  shows "chunks k (concat xss) = xss"
  using assms(2)
proof (induction xss)
  case Nil
  show ?case using assms(1) by (simp add: chunks_short)
next
  case (Cons x xss)
  then show ?case using assms(1) by (simp add: chunks_Cons)
qed

lemma chunks_elem_length: "x \<in> set (chunks k xs) \<Longrightarrow> length x = k"
  by (induction k xs rule: chunks.induct) (subst (asm) (2) chunks.simps, auto split: if_splits)

lemma concat_chunks:
  assumes "0 < k" and "k dvd length xs"
  shows "concat (chunks k xs) = xs"
  using assms
proof (induction k xs rule: chunks.induct)
  case (1 k xs)
  show ?case
  proof (cases "length xs < k")
    case True
    with 1 show ?thesis by (auto simp: chunks.simps [of k xs] dest: nat_dvd_not_less)
  next
    case False
    moreover from 1 have "k dvd length (drop k xs)" by (simp add: dvd_diff_nat)
    ultimately show ?thesis using 1 by (simp add: chunks.simps [of k xs])
  qed
qed

lemma length_chunks: "0 < k \<Longrightarrow> length (chunks k xs) = length xs div k"
proof (induction k xs rule: chunks.induct)
  case (1 k xs)
  then show ?case
    by (auto simp: chunks.simps [of k xs] le_div_geq)
qed

lemma nth_chunks:
  assumes "0 < k" "q < length xs div k"
  shows "chunks k xs ! q = take k (drop (q * k) xs)"
  using assms
proof (induction q arbitrary: xs)
  case 0
  then have "k \<le> length xs" by (metis div_less gr_implies_not0 not_le)
  with 0 show ?case by (simp add: chunks.simps [of k xs])
next
  case (Suc q)
  then have ge: "k \<le> length xs" by (metis div_less not_le not_less_zero)
  with Suc.prems have "q < length (drop k xs) div k" by (simp add: le_div_geq)
  then have "chunks k (drop k xs) ! q = take k (drop (q * k) (drop k xs))" using Suc by blast
  then show ?case using ge Suc.prems(1) by (simp add: chunks.simps [of k xs] add.commute)
qed

lemma concat_chunks_update:
  assumes "0 < k" "k dvd length xs" "q < length xs div k" "length x = k"
  shows "concat ((chunks k xs)[q := x]) = take (q * k) xs @ x @ drop (q * k + k) xs"
  using assms(2,3)
proof (induction q arbitrary: xs)
  case 0
  then have ge: "k \<le> length xs" by (metis div_less gr_implies_not0 not_le)
  with 0 assms(1) show ?case
    by (simp add: chunks.simps [of k xs] concat_chunks dvd_diff_nat)
next
  case (Suc q)
  then have ge: "k \<le> length xs" by (metis div_less not_le not_less_zero)
  with Suc.prems assms(1) have "q < length (drop k xs) div k" "k dvd length (drop k xs)"
    by (simp_all add: le_div_geq dvd_diff_nat)
  then have "concat ((chunks k (drop k xs))[q := x])
      = take (q * k) (drop k xs) @ x @ drop (q * k + k) (drop k xs)"
    using Suc.IH by blast
  then show ?case using ge assms(1)
    by (simp add: chunks.simps [of k xs] take_add add.assoc add.left_commute add.commute)
qed

lemma length_concat_same: "\<forall>x \<in> set xss. length x = k \<Longrightarrow> length (concat xss) = length xss * k"
  by (induction xss) auto

end
