(* ===== verification/Rte_Mempool.thy ===== *)
theory Rte_Mempool
  imports Prelude "HOL-Library.Monad_Syntax"
begin

text \<open>
  The fixed-size object pool of rte\_mempool.h: a per-lcore cache of free objects in front of a
  common pool that a handler (ring, stack, hardware) provides. Objects are addresses. The handler
  is compiled code outside the repository, so its callbacks are the fields of a record the
  operations take as an argument. \<open>None\<close> is an execution that does not return normally: a failed
  RTE\_VERIFY, a call through a null callback, or an access outside an array. The debug build
  (statistics, cookies) is not configured, so those macros are empty.
\<close>

section \<open>Data\<close>

abbreviation (input) RTE_MAX_LCORE :: "nat" where "RTE_MAX_LCORE \<equiv> 128"
abbreviation (input) RTE_MEMPOOL_CACHE_MAX_SIZE :: "u32" where "RTE_MEMPOOL_CACHE_MAX_SIZE \<equiv> 512"
abbreviation (input) RTE_MEMPOOL_MAX_OPS_IDX :: "int" where "RTE_MEMPOOL_MAX_OPS_IDX \<equiv> 16"

record rte_mempool_cache =
  c_size :: u32
  c_flushthresh :: u32
  c_len :: u32
  c_objs :: "u64 list"

record rte_mempool_objhdr =
  oh_next :: u64
  oh_mp :: u64
  oh_iova :: u64

record rte_mempool_memhdr =
  mh_mp :: u64
  mh_addr :: u64
  mh_iova :: u64
  mh_len :: u64
  mh_opaque :: u64

record rte_mempool_info =
  contig_block_size :: u32

text \<open>The pool. \<open>'d\<close> is the handler's own state behind \<open>pool_data\<close>.\<close>

record 'd rte_mempool =
  mp_name :: string
  mp_pool_data :: 'd
  mp_pool_config :: u64
  mp_flags :: u32
  mp_socket_id :: int
  mp_size :: u32
  mp_cache_size :: u32
  mp_elt_size :: u32
  mp_header_size :: u32
  mp_trailer_size :: u32
  mp_private_data_size :: u32
  mp_ops_index :: int
  mp_local_cache :: "rte_mempool_cache list"
  mp_populated_size :: u32
  mp_elt_list :: "u64 list"
  mp_nb_mem_chunks :: u32
  mp_mem_list :: "rte_mempool_memhdr list"

text \<open>The callbacks used by the inline functions. A dequeue writes the objects to the table it is
  given and leaves the rest of the table as it is.\<close>

record 'd rte_mempool_ops =
  op_enqueue :: "'d \<Rightarrow> u64 list \<Rightarrow> u32 \<Rightarrow> ('d \<times> int) option"
  op_dequeue :: "'d \<Rightarrow> u64 list \<Rightarrow> u32 \<Rightarrow> ('d \<times> u64 list \<times> int) option"
  op_get_count :: "'d \<Rightarrow> u32"
  op_dequeue_contig_blocks :: "('d \<Rightarrow> u64 list \<Rightarrow> u32 \<Rightarrow> ('d \<times> u64 list \<times> int) option) option"

section \<open>The handler calls\<close>

definition rte_mempool_get_ops :: "'d rte_mempool_ops list \<Rightarrow> int \<Rightarrow> 'd rte_mempool_ops option" where
  "rte_mempool_get_ops ops_table ops_index =
     (if 0 \<le> ops_index \<and> ops_index < RTE_MEMPOOL_MAX_OPS_IDX \<and> nat ops_index < length ops_table
      then Some (ops_table ! nat ops_index) else None)"

definition rte_mempool_ops_dequeue_bulk ::
    "'d rte_mempool_ops list \<Rightarrow> 'd rte_mempool \<Rightarrow> u64 list \<Rightarrow> u32
      \<Rightarrow> ('d rte_mempool \<times> u64 list \<times> int) option" where
  "rte_mempool_ops_dequeue_bulk ops_table mp obj_table n = do {
     ops \<leftarrow> rte_mempool_get_ops ops_table (mp_ops_index mp);
     (d, obj_table', ret) \<leftarrow> op_dequeue ops (mp_pool_data mp) obj_table n;
     Some (mp\<lparr>mp_pool_data := d\<rparr>, obj_table', ret)
   }"

definition rte_mempool_ops_dequeue_contig_blocks ::
    "'d rte_mempool_ops list \<Rightarrow> 'd rte_mempool \<Rightarrow> u64 list \<Rightarrow> u32
      \<Rightarrow> ('d rte_mempool \<times> u64 list \<times> int) option" where
  "rte_mempool_ops_dequeue_contig_blocks ops_table mp first_obj_table n = do {
     ops \<leftarrow> rte_mempool_get_ops ops_table (mp_ops_index mp);
     dequeue_contig_blocks \<leftarrow> op_dequeue_contig_blocks ops;
     (d, first_obj_table', ret) \<leftarrow> dequeue_contig_blocks (mp_pool_data mp) first_obj_table n;
     Some (mp\<lparr>mp_pool_data := d\<rparr>, first_obj_table', ret)
   }"

definition rte_mempool_ops_enqueue_bulk ::
    "'d rte_mempool_ops list \<Rightarrow> 'd rte_mempool \<Rightarrow> u64 list \<Rightarrow> u32 \<Rightarrow> ('d rte_mempool \<times> int) option" where
  "rte_mempool_ops_enqueue_bulk ops_table mp obj_table n = do {
     ops \<leftarrow> rte_mempool_get_ops ops_table (mp_ops_index mp);
     (d, ret) \<leftarrow> op_enqueue ops (mp_pool_data mp) obj_table n;
     Some (mp\<lparr>mp_pool_data := d\<rparr>, ret)
   }"

section \<open>The per-lcore cache\<close>

definition rte_mempool_default_cache :: "'d rte_mempool \<Rightarrow> u32 \<Rightarrow> nat option" where
  "rte_mempool_default_cache mp lcore_id =
     (if mp_cache_size mp = 0 then None
      else if unat lcore_id \<ge> RTE_MAX_LCORE then None
      else Some (unat lcore_id))"

text \<open>The cache a pointer from \<open>rte_mempool_default_cache\<close> refers to, and writing
  through that pointer; a null pointer has neither.\<close>

definition cache_at :: "'d rte_mempool \<Rightarrow> nat option \<Rightarrow> rte_mempool_cache option" where
  "cache_at mp p = map_option (\<lambda>i. mp_local_cache mp ! i) p"

definition cache_write :: "nat option \<Rightarrow> rte_mempool_cache option \<Rightarrow> 'd rte_mempool \<Rightarrow> 'd rte_mempool" where
  "cache_write p c mp = (case (p, c) of
       (Some i, Some cache) \<Rightarrow> mp\<lparr>mp_local_cache := (mp_local_cache mp)[i := cache]\<rparr>
     | _ \<Rightarrow> mp)"

text \<open>\<open>rte_memcpy\<close> of \<open>n\<close> pointers to offset \<open>off\<close> of an array; \<open>None\<close> when the copy
  leaves either array.\<close>

definition memcpy_objs :: "u64 list \<Rightarrow> nat \<Rightarrow> u64 list \<Rightarrow> nat \<Rightarrow> u64 list option" where
  "memcpy_objs dst off src n =
     (if off + n \<le> length dst \<and> n \<le> length src
      then Some (take off dst @ take n src @ drop (off + n) dst) else None)"

section \<open>Putting objects back\<close>

definition rte_mempool_do_generic_put ::
    "'d rte_mempool_ops list \<Rightarrow> 'd rte_mempool \<Rightarrow> u64 list \<Rightarrow> u32 \<Rightarrow> rte_mempool_cache option
      \<Rightarrow> ('d rte_mempool \<times> rte_mempool_cache option) option" where
  "rte_mempool_do_generic_put ops_table mp obj_table n cache =
     (let ring_enqueue = do {
            (mp', ret) \<leftarrow> rte_mempool_ops_enqueue_bulk ops_table mp obj_table n;
            Some (mp', cache)
          }
      in case cache of
        None \<Rightarrow> ring_enqueue
      | Some cache \<Rightarrow>
          if n > RTE_MEMPOOL_CACHE_MAX_SIZE then ring_enqueue
          else do {
            objs \<leftarrow> memcpy_objs (c_objs cache) (unat (c_len cache)) obj_table (unat n);
            let cache = cache\<lparr>c_objs := objs, c_len := c_len cache + n\<rparr>;
            if c_len cache \<ge> c_flushthresh cache then do {
              (mp', ret) \<leftarrow> rte_mempool_ops_enqueue_bulk ops_table mp
                (drop (unat (c_size cache)) (c_objs cache)) (c_len cache - c_size cache);
              Some (mp', Some (cache\<lparr>c_len := c_size cache\<rparr>))
            } else Some (mp, Some cache)
          })"

definition rte_mempool_generic_put ::
    "'d rte_mempool_ops list \<Rightarrow> 'd rte_mempool \<Rightarrow> u64 list \<Rightarrow> u32 \<Rightarrow> rte_mempool_cache option
      \<Rightarrow> ('d rte_mempool \<times> rte_mempool_cache option) option" where
  "rte_mempool_generic_put ops_table mp obj_table n cache =
     rte_mempool_do_generic_put ops_table mp obj_table n cache"

definition rte_mempool_put_bulk ::
    "'d rte_mempool_ops list \<Rightarrow> u32 \<Rightarrow> 'd rte_mempool \<Rightarrow> u64 list \<Rightarrow> u32 \<Rightarrow> 'd rte_mempool option" where
  "rte_mempool_put_bulk ops_table lcore_id mp obj_table n =
     (let p = rte_mempool_default_cache mp lcore_id in do {
        (mp', cache) \<leftarrow> rte_mempool_generic_put ops_table mp obj_table n (cache_at mp p);
        Some (cache_write p cache mp')
      })"

definition rte_mempool_put ::
    "'d rte_mempool_ops list \<Rightarrow> u32 \<Rightarrow> 'd rte_mempool \<Rightarrow> u64 \<Rightarrow> 'd rte_mempool option" where
  "rte_mempool_put ops_table lcore_id mp obj = rte_mempool_put_bulk ops_table lcore_id mp [obj] 1"

text \<open>Flushing a cache. With a null argument the cache of the calling lcore is flushed, so the
  result is the pool with that cache written back; with a cache of its own the caller gets the
  emptied cache.\<close>

definition cache_flush_one ::
    "'d rte_mempool_ops list \<Rightarrow> rte_mempool_cache option \<Rightarrow> 'd rte_mempool
      \<Rightarrow> ('d rte_mempool \<times> rte_mempool_cache option) option" where
  "cache_flush_one ops_table cache mp = (case cache of
       None \<Rightarrow> Some (mp, cache)
     | Some c \<Rightarrow>
         if c_len c = 0 then Some (mp, cache)
         else do {
           (mp', ret) \<leftarrow> rte_mempool_ops_enqueue_bulk ops_table mp (c_objs c) (c_len c);
           Some (mp', Some (c\<lparr>c_len := 0\<rparr>))
         })"

definition rte_mempool_cache_flush ::
    "'d rte_mempool_ops list \<Rightarrow> u32 \<Rightarrow> rte_mempool_cache option \<Rightarrow> 'd rte_mempool
      \<Rightarrow> ('d rte_mempool \<times> rte_mempool_cache option) option" where
  "rte_mempool_cache_flush ops_table lcore_id cache mp =
     (if cache = None then
        (let p = rte_mempool_default_cache mp lcore_id in do {
           (mp', c) \<leftarrow> cache_flush_one ops_table (cache_at mp p) mp;
           Some (cache_write p c mp', None)
         })
      else cache_flush_one ops_table cache mp)"

section \<open>Getting objects\<close>

text \<open>The loop that pops \<open>n\<close> objects off the cache, newest first.\<close>

fun cache_pop :: "u64 list \<Rightarrow> u32 \<Rightarrow> nat \<Rightarrow> nat \<Rightarrow> u64 list \<Rightarrow> u64 list option" where
  "cache_pop cache_objs len index 0 obj_table = Some obj_table"
| "cache_pop cache_objs len index (Suc n) obj_table =
     (if unat len < length cache_objs \<and> index < length obj_table
      then cache_pop cache_objs (len - 1) (index + 1) n (obj_table[index := cache_objs ! unat len])
      else None)"

definition rte_mempool_do_generic_get ::
    "'d rte_mempool_ops list \<Rightarrow> 'd rte_mempool \<Rightarrow> u64 list \<Rightarrow> u32 \<Rightarrow> rte_mempool_cache option
      \<Rightarrow> ('d rte_mempool \<times> rte_mempool_cache option \<times> u64 list \<times> int) option" where
  "rte_mempool_do_generic_get ops_table mp obj_table n cache =
     (let ring_dequeue = (\<lambda>mp cache. do {
            (mp', obj_table', ret) \<leftarrow> rte_mempool_ops_dequeue_bulk ops_table mp obj_table n;
            Some (mp', cache, obj_table', ret)
          });
          pop = (\<lambda>mp c. do {
            obj_table' \<leftarrow> cache_pop (c_objs c) (c_len c - 1) 0 (unat n) obj_table;
            Some (mp, Some (c\<lparr>c_len := c_len c - n\<rparr>), obj_table', 0)
          })
      in case cache of
        None \<Rightarrow> ring_dequeue mp cache
      | Some c \<Rightarrow>
          if n \<ge> c_size c then ring_dequeue mp cache
          else if c_len c < n then
            (let req = n + (c_size c - c_len c); off = unat (c_len c) in do {
               (mp', tail, ret) \<leftarrow> rte_mempool_ops_dequeue_bulk ops_table mp (drop off (c_objs c)) req;
               let c' = c\<lparr>c_objs := take off (c_objs c) @ tail\<rparr>;
               if ret < 0 then ring_dequeue mp' (Some c')
               else pop mp' (c'\<lparr>c_len := c_len c' + req\<rparr>)
             })
          else pop mp c)"

definition rte_mempool_generic_get ::
    "'d rte_mempool_ops list \<Rightarrow> 'd rte_mempool \<Rightarrow> u64 list \<Rightarrow> u32 \<Rightarrow> rte_mempool_cache option
      \<Rightarrow> ('d rte_mempool \<times> rte_mempool_cache option \<times> u64 list \<times> int) option" where
  "rte_mempool_generic_get ops_table mp obj_table n cache =
     rte_mempool_do_generic_get ops_table mp obj_table n cache"

definition rte_mempool_get_bulk ::
    "'d rte_mempool_ops list \<Rightarrow> u32 \<Rightarrow> 'd rte_mempool \<Rightarrow> u64 list \<Rightarrow> u32
      \<Rightarrow> ('d rte_mempool \<times> u64 list \<times> int) option" where
  "rte_mempool_get_bulk ops_table lcore_id mp obj_table n =
     (let p = rte_mempool_default_cache mp lcore_id in do {
        (mp', cache, obj_table', ret) \<leftarrow> rte_mempool_generic_get ops_table mp obj_table n (cache_at mp p);
        Some (cache_write p cache mp', obj_table', ret)
      })"

definition rte_mempool_get ::
    "'d rte_mempool_ops list \<Rightarrow> u32 \<Rightarrow> 'd rte_mempool \<Rightarrow> u64 list \<Rightarrow> ('d rte_mempool \<times> u64 list \<times> int) option" where
  "rte_mempool_get ops_table lcore_id mp obj_p = rte_mempool_get_bulk ops_table lcore_id mp obj_p 1"

definition rte_mempool_get_contig_blocks ::
    "'d rte_mempool_ops list \<Rightarrow> 'd rte_mempool \<Rightarrow> u64 list \<Rightarrow> u32
      \<Rightarrow> ('d rte_mempool \<times> u64 list \<times> int) option" where
  "rte_mempool_get_contig_blocks ops_table mp first_obj_table n =
     rte_mempool_ops_dequeue_contig_blocks ops_table mp first_obj_table n"

section \<open>Inspection and addresses\<close>

text \<open>\<open>rte_mempool_avail_count\<close> is compiled code outside the repository: an argument.\<close>

definition rte_mempool_full :: "('d rte_mempool \<Rightarrow> u32) \<Rightarrow> 'd rte_mempool \<Rightarrow> bool" where
  "rte_mempool_full rte_mempool_avail_count mp \<longleftrightarrow> rte_mempool_avail_count mp = mp_size mp"

definition rte_mempool_empty :: "('d rte_mempool \<Rightarrow> u32) \<Rightarrow> 'd rte_mempool \<Rightarrow> bool" where
  "rte_mempool_empty rte_mempool_avail_count mp \<longleftrightarrow> rte_mempool_avail_count mp = 0"

text \<open>An object is preceded by its header of three pointers. Headers and pools are found in
  memory by their address.\<close>

abbreviation (input) sizeof_objhdr :: "u64" where "sizeof_objhdr \<equiv> 24"
abbreviation (input) sizeof_mempool :: "u64" where "sizeof_mempool \<equiv> 192"
abbreviation (input) sizeof_cache :: "u64" where "sizeof_cache \<equiv> 12352"

definition rte_mempool_get_header :: "u64 \<Rightarrow> u64" where
  "rte_mempool_get_header obj = obj - sizeof_objhdr"

definition rte_mempool_from_obj :: "(u64 \<rightharpoonup> rte_mempool_objhdr) \<Rightarrow> u64 \<Rightarrow> u64 option" where
  "rte_mempool_from_obj hdrs obj = map_option oh_mp (hdrs (rte_mempool_get_header obj))"

definition rte_mempool_get_trailer ::
    "(u64 \<rightharpoonup> rte_mempool_objhdr) \<Rightarrow> (u64 \<rightharpoonup> 'd rte_mempool) \<Rightarrow> u64 \<Rightarrow> u64 option" where
  "rte_mempool_get_trailer hdrs pools obj = do {
     p \<leftarrow> rte_mempool_from_obj hdrs obj;
     mp \<leftarrow> pools p;
     Some (obj + ucast (mp_elt_size mp))
   }"

definition rte_mempool_virt2iova :: "(u64 \<rightharpoonup> rte_mempool_objhdr) \<Rightarrow> u64 \<Rightarrow> u64 option" where
  "rte_mempool_virt2iova hdrs elt = map_option oh_iova (hdrs (elt - sizeof_objhdr))"

definition RTE_MEMPOOL_HEADER_SIZE :: "u32 \<Rightarrow> u64" where
  "RTE_MEMPOOL_HEADER_SIZE cs = sizeof_mempool + (if cs = 0 then 0 else sizeof_cache * of_nat RTE_MAX_LCORE)"

definition rte_mempool_get_priv :: "u64 \<Rightarrow> 'd rte_mempool \<Rightarrow> u64" where
  "rte_mempool_get_priv mp_addr mp = mp_addr + RTE_MEMPOOL_HEADER_SIZE (mp_cache_size mp)"

end
