(* ===== verification/Rte_Mbuf.thy ===== *)
theory Rte_Mbuf
  imports Rte_Mempool
begin

text \<open>
  Packet buffers (rte\_mbuf.h, rte\_mbuf\_core.h). A packet is a chain of mbufs; an mbuf describes a
  data buffer of its own, of another mbuf (indirect) or of the application (external). Mbufs,
  shared-info blocks, pools and packet bytes live in one memory, \<open>heap\<close>, addressed by 64-bit
  pointers, because the operations alias: detaching an indirect mbuf changes the reference count
  of another. A result of \<open>None\<close> is an execution that does not return normally, including an
  access through a pointer to nothing. Assertions and sanity checks are off in this
  configuration; prefetches have no effect on the result.
\<close>

section \<open>Data\<close>

abbreviation (input) RTE_PKTMBUF_HEADROOM :: "'a::len word" where "RTE_PKTMBUF_HEADROOM \<equiv> 128"
abbreviation (input) RTE_MBUF_PORT_INVALID :: "u16" where "RTE_MBUF_PORT_INVALID \<equiv> 65535"
abbreviation (input) RTE_MBUF_MAX_NB_SEGS :: "nat" where "RTE_MBUF_MAX_NB_SEGS \<equiv> 65535"
abbreviation (input) RTE_PKTMBUF_POOL_F_PINNED_EXT_BUF :: "u32" where "RTE_PKTMBUF_POOL_F_PINNED_EXT_BUF \<equiv> 1"
abbreviation (input) sizeof_mbuf :: "u64" where "sizeof_mbuf \<equiv> 128"
abbreviation (input) sizeof_shinfo :: "u64" where "sizeof_shinfo \<equiv> 24"
abbreviation (input) NULL :: "u64" where "NULL \<equiv> 0"

record rte_mbuf_sched =
  sched_queue_id :: u32
  sched_traffic_class :: u8
  sched_color :: u8
  sched_reserved :: u16

text \<open>The hash union is kept in its \<open>sched\<close> view, which covers all of its eight bytes.\<close>

record rte_mbuf =
  mb_buf_addr :: u64
  mb_buf_iova :: u64
  mb_data_off :: u16
  mb_refcnt :: u16
  mb_nb_segs :: u16
  mb_port :: u16
  mb_ol_flags :: u64
  mb_packet_type :: u32
  mb_pkt_len :: u32
  mb_data_len :: u16
  mb_vlan_tci :: u16
  mb_hash :: rte_mbuf_sched
  mb_vlan_tci_outer :: u16
  mb_buf_len :: u16
  mb_pool :: u64
  mb_next :: u64
  mb_tx_offload :: u64
  mb_shinfo :: u64
  mb_priv_size :: u16
  mb_timesync :: u16
  mb_dynfield1 :: "u32 list"

record rte_mbuf_ext_shared_info =
  sh_free_cb :: u64
  sh_fcb_opaque :: u64
  sh_refcnt :: u16

record rte_pktmbuf_pool_private =
  pp_mbuf_data_room_size :: u16
  pp_mbuf_priv_size :: u16
  pp_flags :: u32

text \<open>The memory. \<open>h_ext_freed\<close> records the calls of external-buffer callbacks (callback, buffer,
  opaque argument): the callbacks themselves are application code.\<close>

record 'd heap =
  h_mbuf :: "u64 \<Rightarrow> rte_mbuf option"
  h_shinfo :: "u64 \<Rightarrow> rte_mbuf_ext_shared_info option"
  h_pool :: "u64 \<Rightarrow> 'd rte_mempool option"
  h_priv :: "u64 \<Rightarrow> rte_pktmbuf_pool_private option"
  h_objhdr :: "u64 \<Rightarrow> rte_mempool_objhdr option"
  h_byte :: "u64 \<Rightarrow> u8 option"
  h_ext_freed :: "(u64 \<times> u64 \<times> u64) list"

text \<open>Reading and writing the bytes of a buffer; an unmapped byte is a fault.\<close>

fun store_bytes :: "u64 \<Rightarrow> u8 list \<Rightarrow> 'd heap \<Rightarrow> 'd heap option" where
  "store_bytes a [] h = Some h"
| "store_bytes a (b # bs) h =
     (if h_byte h a = None then None else store_bytes (a + 1) bs (h\<lparr>h_byte := (h_byte h)(a \<mapsto> b)\<rparr>))"

fun load_bytes :: "u64 \<Rightarrow> nat \<Rightarrow> 'd heap \<Rightarrow> u8 list option" where
  "load_bytes a 0 h = Some []"
| "load_bytes a (Suc n) h = do {b \<leftarrow> h_byte h a; bs \<leftarrow> load_bytes (a + 1) n h; Some (b # bs)}"

definition mbuf_upd :: "(rte_mbuf \<Rightarrow> rte_mbuf) \<Rightarrow> u64 \<Rightarrow> 'd heap \<Rightarrow> 'd heap option" where
  "mbuf_upd f m h = map_option (\<lambda>b. h\<lparr>h_mbuf := (h_mbuf h)(m \<mapsto> f b)\<rparr>) (h_mbuf h m)"

definition shinfo_upd ::
    "(rte_mbuf_ext_shared_info \<Rightarrow> rte_mbuf_ext_shared_info) \<Rightarrow> u64 \<Rightarrow> 'd heap \<Rightarrow> 'd heap option" where
  "shinfo_upd f s h = map_option (\<lambda>b. h\<lparr>h_shinfo := (h_shinfo h)(s \<mapsto> f b)\<rparr>) (h_shinfo h s)"

section \<open>Flags\<close>

abbreviation (input) RTE_MBUF_F_EXTERNAL :: u64 where "RTE_MBUF_F_EXTERNAL \<equiv> push_bit 61 1"
abbreviation (input) RTE_MBUF_F_INDIRECT :: u64 where "RTE_MBUF_F_INDIRECT \<equiv> push_bit 62 1"
abbreviation (input) RTE_MBUF_F_TX_OUTER_UDP_CKSUM :: u64 where "RTE_MBUF_F_TX_OUTER_UDP_CKSUM \<equiv> push_bit 41 1"
abbreviation (input) RTE_MBUF_F_TX_UDP_SEG :: u64 where "RTE_MBUF_F_TX_UDP_SEG \<equiv> push_bit 42 1"
abbreviation (input) RTE_MBUF_F_TX_SEC_OFFLOAD :: u64 where "RTE_MBUF_F_TX_SEC_OFFLOAD \<equiv> push_bit 43 1"
abbreviation (input) RTE_MBUF_F_TX_MACSEC :: u64 where "RTE_MBUF_F_TX_MACSEC \<equiv> push_bit 44 1"
abbreviation (input) RTE_MBUF_F_TX_TUNNEL_MASK :: u64 where "RTE_MBUF_F_TX_TUNNEL_MASK \<equiv> push_bit 45 15"
abbreviation (input) RTE_MBUF_F_TX_QINQ :: u64 where "RTE_MBUF_F_TX_QINQ \<equiv> push_bit 49 1"
abbreviation (input) RTE_MBUF_F_TX_TCP_SEG :: u64 where "RTE_MBUF_F_TX_TCP_SEG \<equiv> push_bit 50 1"
abbreviation (input) RTE_MBUF_F_TX_IEEE1588_TMST :: u64 where "RTE_MBUF_F_TX_IEEE1588_TMST \<equiv> push_bit 51 1"
abbreviation (input) RTE_MBUF_F_TX_L4_MASK :: u64 where "RTE_MBUF_F_TX_L4_MASK \<equiv> push_bit 52 3"
abbreviation (input) RTE_MBUF_F_TX_IP_CKSUM :: u64 where "RTE_MBUF_F_TX_IP_CKSUM \<equiv> push_bit 54 1"
abbreviation (input) RTE_MBUF_F_TX_IPV4 :: u64 where "RTE_MBUF_F_TX_IPV4 \<equiv> push_bit 55 1"
abbreviation (input) RTE_MBUF_F_TX_IPV6 :: u64 where "RTE_MBUF_F_TX_IPV6 \<equiv> push_bit 56 1"
abbreviation (input) RTE_MBUF_F_TX_VLAN :: u64 where "RTE_MBUF_F_TX_VLAN \<equiv> push_bit 57 1"
abbreviation (input) RTE_MBUF_F_TX_OUTER_IP_CKSUM :: u64 where "RTE_MBUF_F_TX_OUTER_IP_CKSUM \<equiv> push_bit 58 1"
abbreviation (input) RTE_MBUF_F_TX_OUTER_IPV4 :: u64 where "RTE_MBUF_F_TX_OUTER_IPV4 \<equiv> push_bit 59 1"
abbreviation (input) RTE_MBUF_F_TX_OUTER_IPV6 :: u64 where "RTE_MBUF_F_TX_OUTER_IPV6 \<equiv> push_bit 60 1"

definition RTE_MBUF_F_TX_OFFLOAD_MASK :: u64 where
  "RTE_MBUF_F_TX_OFFLOAD_MASK =
     RTE_MBUF_F_TX_OUTER_IPV6 OR RTE_MBUF_F_TX_OUTER_IPV4 OR RTE_MBUF_F_TX_OUTER_IP_CKSUM OR
     RTE_MBUF_F_TX_VLAN OR RTE_MBUF_F_TX_IPV6 OR RTE_MBUF_F_TX_IPV4 OR RTE_MBUF_F_TX_IP_CKSUM OR
     RTE_MBUF_F_TX_L4_MASK OR RTE_MBUF_F_TX_IEEE1588_TMST OR RTE_MBUF_F_TX_TCP_SEG OR
     RTE_MBUF_F_TX_QINQ OR RTE_MBUF_F_TX_TUNNEL_MASK OR RTE_MBUF_F_TX_MACSEC OR
     RTE_MBUF_F_TX_SEC_OFFLOAD OR RTE_MBUF_F_TX_UDP_SEG OR RTE_MBUF_F_TX_OUTER_UDP_CKSUM"

definition RTE_MBUF_CLONED :: "rte_mbuf \<Rightarrow> bool" where
  "RTE_MBUF_CLONED mb \<longleftrightarrow> mb_ol_flags mb AND RTE_MBUF_F_INDIRECT \<noteq> 0"

definition RTE_MBUF_HAS_EXTBUF :: "rte_mbuf \<Rightarrow> bool" where
  "RTE_MBUF_HAS_EXTBUF mb \<longleftrightarrow> mb_ol_flags mb AND RTE_MBUF_F_EXTERNAL \<noteq> 0"

definition RTE_MBUF_DIRECT :: "rte_mbuf \<Rightarrow> bool" where
  "RTE_MBUF_DIRECT mb \<longleftrightarrow> mb_ol_flags mb AND (RTE_MBUF_F_INDIRECT OR RTE_MBUF_F_EXTERNAL) = 0"

section \<open>Addresses\<close>

definition rte_pktmbuf_mtod_offset :: "rte_mbuf \<Rightarrow> u64 \<Rightarrow> u64" where
  "rte_pktmbuf_mtod_offset mb o' = mb_buf_addr mb + ucast (mb_data_off mb) + o'"

definition rte_pktmbuf_iova_offset :: "rte_mbuf \<Rightarrow> u64 \<Rightarrow> u64" where
  "rte_pktmbuf_iova_offset mb o' = mb_buf_iova mb + ucast (mb_data_off mb) + o'"

definition rte_mbuf_data_iova :: "rte_mbuf \<Rightarrow> u64" where
  "rte_mbuf_data_iova mb = mb_buf_iova mb + ucast (mb_data_off mb)"

definition rte_mbuf_data_iova_default :: "rte_mbuf \<Rightarrow> u64" where
  "rte_mbuf_data_iova_default mb = mb_buf_iova mb + RTE_PKTMBUF_HEADROOM"

definition rte_mbuf_from_indirect :: "rte_mbuf \<Rightarrow> u64" where
  "rte_mbuf_from_indirect mi = mb_buf_addr mi - (sizeof_mbuf + ucast (mb_priv_size mi))"

definition pool_private :: "'d heap \<Rightarrow> u64 \<Rightarrow> rte_pktmbuf_pool_private option" where
  "pool_private h mp = do {pool \<leftarrow> h_pool h mp; h_priv h (rte_mempool_get_priv mp pool)}"

definition rte_pktmbuf_priv_flags :: "'d heap \<Rightarrow> u64 \<Rightarrow> u32 option" where
  "rte_pktmbuf_priv_flags h mp = map_option pp_flags (pool_private h mp)"

definition rte_pktmbuf_data_room_size :: "'d heap \<Rightarrow> u64 \<Rightarrow> u16 option" where
  "rte_pktmbuf_data_room_size h mp = map_option pp_mbuf_data_room_size (pool_private h mp)"

definition rte_pktmbuf_priv_size :: "'d heap \<Rightarrow> u64 \<Rightarrow> u16 option" where
  "rte_pktmbuf_priv_size h mp = map_option pp_mbuf_priv_size (pool_private h mp)"

definition rte_mbuf_buf_addr :: "'d heap \<Rightarrow> u64 \<Rightarrow> u64 \<Rightarrow> u64 option" where
  "rte_mbuf_buf_addr h mb mp = do {s \<leftarrow> rte_pktmbuf_priv_size h mp; Some (mb + sizeof_mbuf + ucast s)}"

definition rte_mbuf_data_addr_default :: "'d heap \<Rightarrow> u64 \<Rightarrow> u64 option" where
  "rte_mbuf_data_addr_default h mb = do {
     b \<leftarrow> h_mbuf h mb;
     a \<leftarrow> rte_mbuf_buf_addr h mb (mb_pool b);
     Some (a + RTE_PKTMBUF_HEADROOM)
   }"

definition rte_mbuf_to_baddr :: "'d heap \<Rightarrow> u64 \<Rightarrow> u64 option" where
  "rte_mbuf_to_baddr h md = do {b \<leftarrow> h_mbuf h md; rte_mbuf_buf_addr h md (mb_pool b)}"

definition rte_mbuf_to_priv :: "u64 \<Rightarrow> u64" where
  "rte_mbuf_to_priv m = m + sizeof_mbuf"

definition RTE_MBUF_HAS_PINNED_EXTBUF :: "'d heap \<Rightarrow> rte_mbuf \<Rightarrow> bool option" where
  "RTE_MBUF_HAS_PINNED_EXTBUF h mb =
     map_option (\<lambda>f. f AND RTE_PKTMBUF_POOL_F_PINNED_EXT_BUF \<noteq> 0) (rte_pktmbuf_priv_flags h (mb_pool mb))"

section \<open>Reference counts\<close>

text \<open>A change of a count is a 16-bit signed value, so it is added modulo \<open>2\<^sup>1\<^sup>6\<close>. The atomic
  variants first, as configured, then the others.\<close>

definition rte_mbuf_refcnt_read :: "rte_mbuf \<Rightarrow> u16" where
  "rte_mbuf_refcnt_read mb = mb_refcnt mb"

definition rte_mbuf_refcnt_set :: "rte_mbuf \<Rightarrow> u16 \<Rightarrow> rte_mbuf" where
  "rte_mbuf_refcnt_set mb new_value = mb\<lparr>mb_refcnt := new_value\<rparr>"

definition mbuf_refcnt_add :: "rte_mbuf \<Rightarrow> u16 \<Rightarrow> u16 \<times> rte_mbuf" where
  "mbuf_refcnt_add mb value = (let r = mb_refcnt mb + value in (r, mb\<lparr>mb_refcnt := r\<rparr>))"

definition rte_mbuf_refcnt_update :: "rte_mbuf \<Rightarrow> u16 \<Rightarrow> u16 \<times> rte_mbuf" where
  "rte_mbuf_refcnt_update mb value =
     (if rte_mbuf_refcnt_read mb = 1
      then (let value = value + 1 in (value, rte_mbuf_refcnt_set mb value))
      else mbuf_refcnt_add mb value)"

definition mbuf_refcnt_add_nonatomic :: "rte_mbuf \<Rightarrow> u16 \<Rightarrow> u16 \<times> rte_mbuf" where
  "mbuf_refcnt_add_nonatomic mb value =
     (let mb = mb\<lparr>mb_refcnt := mb_refcnt mb + value\<rparr> in (mb_refcnt mb, mb))"

definition mbuf_refcnt_update_nonatomic :: "rte_mbuf \<Rightarrow> u16 \<Rightarrow> u16 \<times> rte_mbuf" where
  "mbuf_refcnt_update_nonatomic mb value = mbuf_refcnt_add_nonatomic mb value"

definition rte_mbuf_ext_refcnt_read :: "rte_mbuf_ext_shared_info \<Rightarrow> u16" where
  "rte_mbuf_ext_refcnt_read shinfo = sh_refcnt shinfo"

definition rte_mbuf_ext_refcnt_set :: "rte_mbuf_ext_shared_info \<Rightarrow> u16 \<Rightarrow> rte_mbuf_ext_shared_info" where
  "rte_mbuf_ext_refcnt_set shinfo new_value = shinfo\<lparr>sh_refcnt := new_value\<rparr>"

definition rte_mbuf_ext_refcnt_update :: "rte_mbuf_ext_shared_info \<Rightarrow> u16 \<Rightarrow> u16 \<times> rte_mbuf_ext_shared_info" where
  "rte_mbuf_ext_refcnt_update shinfo value =
     (if rte_mbuf_ext_refcnt_read shinfo = 1
      then (let value = value + 1 in (value, rte_mbuf_ext_refcnt_set shinfo value))
      else (let r = sh_refcnt shinfo + value in (r, shinfo\<lparr>sh_refcnt := r\<rparr>)))"

text \<open>The same on an mbuf or a shared-info block in memory.\<close>

definition refcnt_update_at :: "u64 \<Rightarrow> u16 \<Rightarrow> 'd heap \<Rightarrow> (u16 \<times> 'd heap) option" where
  "refcnt_update_at m value h = do {
     b \<leftarrow> h_mbuf h m;
     let (r, b') = rte_mbuf_refcnt_update b value;
     Some (r, h\<lparr>h_mbuf := (h_mbuf h)(m \<mapsto> b')\<rparr>)
   }"

definition ext_refcnt_update_at :: "u64 \<Rightarrow> u16 \<Rightarrow> 'd heap \<Rightarrow> (u16 \<times> 'd heap) option" where
  "ext_refcnt_update_at s value h = do {
     b \<leftarrow> h_shinfo h s;
     let (r, b') = rte_mbuf_ext_refcnt_update b value;
     Some (r, h\<lparr>h_shinfo := (h_shinfo h)(s \<mapsto> b')\<rparr>)
   }"

partial_function (option) rte_pktmbuf_refcnt_update :: "u64 \<Rightarrow> u16 \<Rightarrow> 'd heap \<Rightarrow> 'd heap option" where
  "rte_pktmbuf_refcnt_update m v h = do {
     (_, h) \<leftarrow> refcnt_update_at m v h;
     b \<leftarrow> h_mbuf h m;
     if mb_next b \<noteq> NULL then rte_pktmbuf_refcnt_update (mb_next b) v h else Some h
   }"

section \<open>Allocation\<close>

definition mempool_get_at :: "'d rte_mempool_ops list \<Rightarrow> u32 \<Rightarrow> u64 \<Rightarrow> u64 list \<Rightarrow> u32 \<Rightarrow> 'd heap
      \<Rightarrow> (int \<times> u64 list \<times> 'd heap) option" where
  "mempool_get_at ops_table lcore_id mp obj_table n h = do {
     pool \<leftarrow> h_pool h mp;
     (pool', obj_table', ret) \<leftarrow> rte_mempool_get_bulk ops_table lcore_id pool obj_table n;
     Some (ret, obj_table', h\<lparr>h_pool := (h_pool h)(mp \<mapsto> pool')\<rparr>)
   }"

definition mempool_put_at :: "'d rte_mempool_ops list \<Rightarrow> u32 \<Rightarrow> u64 \<Rightarrow> u64 \<Rightarrow> 'd heap \<Rightarrow> 'd heap option" where
  "mempool_put_at ops_table lcore_id mp obj h = do {
     pool \<leftarrow> h_pool h mp;
     pool' \<leftarrow> rte_mempool_put ops_table lcore_id pool obj;
     Some (h\<lparr>h_pool := (h_pool h)(mp \<mapsto> pool')\<rparr>)
   }"

text \<open>The result is the address of the mbuf, or NULL. The uninitialised local \<open>m\<close> whose address
  is passed to the pool is one table entry of arbitrary content.\<close>

definition rte_mbuf_raw_alloc ::
    "'d rte_mempool_ops list \<Rightarrow> u32 \<Rightarrow> u64 \<Rightarrow> 'd heap \<Rightarrow> (u64 \<times> 'd heap) option" where
  "rte_mbuf_raw_alloc ops_table lcore_id mp h = do {
     (ret, tab, h) \<leftarrow> mempool_get_at ops_table lcore_id mp [0] 1 h;
     if ret < 0 then Some (NULL, h) else Some (tab ! 0, h)
   }"

definition rte_mbuf_raw_free :: "'d rte_mempool_ops list \<Rightarrow> u32 \<Rightarrow> u64 \<Rightarrow> 'd heap \<Rightarrow> 'd heap option" where
  "rte_mbuf_raw_free ops_table lcore_id m h = do {
     b \<leftarrow> h_mbuf h m;
     mempool_put_at ops_table lcore_id (mb_pool b) m h
   }"

definition rte_pktmbuf_reset_headroom :: "rte_mbuf \<Rightarrow> rte_mbuf" where
  "rte_pktmbuf_reset_headroom mb = mb\<lparr>mb_data_off := min RTE_PKTMBUF_HEADROOM (mb_buf_len mb)\<rparr>"

definition rte_pktmbuf_reset :: "rte_mbuf \<Rightarrow> rte_mbuf" where
  "rte_pktmbuf_reset mb =
     (rte_pktmbuf_reset_headroom
       (mb\<lparr>mb_next := NULL, mb_pkt_len := 0, mb_tx_offload := 0, mb_vlan_tci := 0, mb_vlan_tci_outer := 0,
          mb_nb_segs := 1, mb_port := RTE_MBUF_PORT_INVALID,
          mb_ol_flags := mb_ol_flags mb AND RTE_MBUF_F_EXTERNAL, mb_packet_type := 0\<rparr>))\<lparr>mb_data_len := 0\<rparr>"

definition rte_pktmbuf_alloc ::
    "'d rte_mempool_ops list \<Rightarrow> u32 \<Rightarrow> u64 \<Rightarrow> 'd heap \<Rightarrow> (u64 \<times> 'd heap) option" where
  "rte_pktmbuf_alloc ops_table lcore_id mp h = do {
     (m, h) \<leftarrow> rte_mbuf_raw_alloc ops_table lcore_id mp h;
     if m \<noteq> NULL then do {h \<leftarrow> mbuf_upd rte_pktmbuf_reset m h; Some (m, h)} else Some (m, h)
   }"

definition reset_nth :: "u64 list \<Rightarrow> u32 \<Rightarrow> 'd heap \<Rightarrow> 'd heap option" where
  "reset_nth mbufs idx h =
     (if unat idx < length mbufs then mbuf_upd rte_pktmbuf_reset (mbufs ! unat idx) h else None)"

text \<open>The loop of the bulk allocation is unrolled by four and entered through a switch at the
  case label \<open>entry\<close>; label 0 is the loop test.\<close>

partial_function (option) alloc_bulk_loop :: "u32 \<Rightarrow> u64 list \<Rightarrow> u32 \<Rightarrow> u32 \<Rightarrow> 'd heap \<Rightarrow> 'd heap option" where
  "alloc_bulk_loop entry mbufs idx count h =
     (if entry = 0 then
        (if idx = count then Some h
         else do {h \<leftarrow> reset_nth mbufs idx h; alloc_bulk_loop 3 mbufs (idx + 1) count h})
      else do {
        h \<leftarrow> reset_nth mbufs idx h;
        alloc_bulk_loop (entry - 1) mbufs (idx + 1) count h
      })"

definition rte_pktmbuf_alloc_bulk ::
    "'d rte_mempool_ops list \<Rightarrow> u32 \<Rightarrow> u64 \<Rightarrow> u64 list \<Rightarrow> u32 \<Rightarrow> 'd heap \<Rightarrow> (int \<times> u64 list \<times> 'd heap) option" where
  "rte_pktmbuf_alloc_bulk ops_table lcore_id pool mbufs count h = do {
     (rc, mbufs, h) \<leftarrow> mempool_get_at ops_table lcore_id pool mbufs count h;
     if rc \<noteq> 0 then Some (rc, mbufs, h)
     else do {h \<leftarrow> alloc_bulk_loop (count mod 4) mbufs 0 count h; Some (0, mbufs, h)}
   }"

section \<open>External and indirect buffers\<close>

definition RTE_PTR_ALIGN_FLOOR :: "u64 \<Rightarrow> u64 \<Rightarrow> u64" where
  "RTE_PTR_ALIGN_FLOOR p align = p AND NOT (align - 1)"

text \<open>The result is the shared-info block (or NULL), the new buffer length and the memory.\<close>

definition rte_pktmbuf_ext_shinfo_init_helper ::
    "u64 \<Rightarrow> u16 \<Rightarrow> u64 \<Rightarrow> u64 \<Rightarrow> 'd heap \<Rightarrow> u64 \<times> u16 \<times> 'd heap" where
  "rte_pktmbuf_ext_shinfo_init_helper buf_addr buf_len free_cb fcb_opaque h =
     (let buf_end = buf_addr + ucast buf_len;
          addr = RTE_PTR_ALIGN_FLOOR (buf_end - sizeof_shinfo) 8
      in if addr \<le> buf_addr then (NULL, buf_len, h)
         else (addr, ucast (addr - buf_addr),
               h\<lparr>h_shinfo := (h_shinfo h)(addr \<mapsto> \<lparr>sh_free_cb = free_cb, sh_fcb_opaque = fcb_opaque, sh_refcnt = 1\<rparr>)\<rparr>))"

definition rte_pktmbuf_attach_extbuf :: "rte_mbuf \<Rightarrow> u64 \<Rightarrow> u64 \<Rightarrow> u16 \<Rightarrow> u64 \<Rightarrow> rte_mbuf" where
  "rte_pktmbuf_attach_extbuf mb buf_addr buf_iova buf_len shinfo =
     mb\<lparr>mb_buf_addr := buf_addr, mb_buf_iova := buf_iova, mb_buf_len := buf_len, mb_data_len := 0, mb_data_off := 0,
        mb_ol_flags := mb_ol_flags mb OR RTE_MBUF_F_EXTERNAL, mb_shinfo := shinfo\<rparr>"

definition rte_mbuf_dynfield_copy :: "rte_mbuf \<Rightarrow> rte_mbuf \<Rightarrow> rte_mbuf" where
  "rte_mbuf_dynfield_copy mdst msrc = mdst\<lparr>mb_dynfield1 := mb_dynfield1 msrc\<rparr>"

definition pktmbuf_copy_hdr :: "rte_mbuf \<Rightarrow> rte_mbuf \<Rightarrow> rte_mbuf" where
  "pktmbuf_copy_hdr mdst msrc =
     rte_mbuf_dynfield_copy
       (mdst\<lparr>mb_port := mb_port msrc, mb_vlan_tci := mb_vlan_tci msrc, mb_vlan_tci_outer := mb_vlan_tci_outer msrc,
          mb_tx_offload := mb_tx_offload msrc, mb_hash := mb_hash msrc, mb_packet_type := mb_packet_type msrc\<rparr>) msrc"

definition rte_pktmbuf_attach :: "u64 \<Rightarrow> u64 \<Rightarrow> 'd heap \<Rightarrow> 'd heap option" where
  "rte_pktmbuf_attach mi m h = do {
     b \<leftarrow> h_mbuf h m;
     h \<leftarrow> (if RTE_MBUF_HAS_EXTBUF b then do {
            (_, h) \<leftarrow> ext_refcnt_update_at (mb_shinfo b) 1 h;
            mbuf_upd (\<lambda>i. i\<lparr>mb_ol_flags := mb_ol_flags b, mb_shinfo := mb_shinfo b\<rparr>) mi h
          } else do {
            (_, h) \<leftarrow> refcnt_update_at (rte_mbuf_from_indirect b) 1 h;
            mbuf_upd (\<lambda>i. i\<lparr>mb_priv_size := mb_priv_size b, mb_ol_flags := mb_ol_flags b OR RTE_MBUF_F_INDIRECT\<rparr>) mi h
          });
     b \<leftarrow> h_mbuf h m;
     mbuf_upd (\<lambda>i. (pktmbuf_copy_hdr i b)\<lparr>mb_data_off := mb_data_off b, mb_data_len := mb_data_len b,
       mb_buf_iova := mb_buf_iova b, mb_buf_addr := mb_buf_addr b, mb_buf_len := mb_buf_len b,
       mb_next := NULL, mb_pkt_len := ucast (mb_data_len b), mb_nb_segs := 1\<rparr>) mi h
   }"

definition pktmbuf_free_extbuf :: "u64 \<Rightarrow> 'd heap \<Rightarrow> 'd heap option" where
  "pktmbuf_free_extbuf m h = do {
     b \<leftarrow> h_mbuf h m;
     (r, h) \<leftarrow> ext_refcnt_update_at (mb_shinfo b) (- 1) h;
     if r = 0 then do {
       s \<leftarrow> h_shinfo h (mb_shinfo b);
       Some (h\<lparr>h_ext_freed := h_ext_freed h @ [(sh_free_cb s, mb_buf_addr b, sh_fcb_opaque s)]\<rparr>)
     } else Some h
   }"

definition pktmbuf_free_direct :: "'d rte_mempool_ops list \<Rightarrow> u32 \<Rightarrow> u64 \<Rightarrow> 'd heap \<Rightarrow> 'd heap option" where
  "pktmbuf_free_direct ops_table lcore_id m h = do {
     b \<leftarrow> h_mbuf h m;
     let md = rte_mbuf_from_indirect b;
     (r, h) \<leftarrow> refcnt_update_at md (- 1) h;
     if r = 0 then do {
       h \<leftarrow> mbuf_upd (\<lambda>d. rte_mbuf_refcnt_set (d\<lparr>mb_next := NULL, mb_nb_segs := 1\<rparr>) 1) md h;
       rte_mbuf_raw_free ops_table lcore_id md h
     } else Some h
   }"

definition rte_pktmbuf_detach :: "'d rte_mempool_ops list \<Rightarrow> u32 \<Rightarrow> u64 \<Rightarrow> 'd heap \<Rightarrow> 'd heap option" where
  "rte_pktmbuf_detach ops_table lcore_id m h = do {
     b \<leftarrow> h_mbuf h m;
     let mp = mb_pool b;
     flags \<leftarrow> (if RTE_MBUF_HAS_EXTBUF b then rte_pktmbuf_priv_flags h mp else Some 0);
     if RTE_MBUF_HAS_EXTBUF b \<and> flags AND RTE_PKTMBUF_POOL_F_PINNED_EXT_BUF \<noteq> 0 then Some h
     else do {
       h \<leftarrow> (if RTE_MBUF_HAS_EXTBUF b then pktmbuf_free_extbuf m h
            else pktmbuf_free_direct ops_table lcore_id m h);
       priv_size \<leftarrow> rte_pktmbuf_priv_size h mp;
       buf_len \<leftarrow> rte_pktmbuf_data_room_size h mp;
       iova \<leftarrow> rte_mempool_virt2iova (h_objhdr h) m;
       let mbuf_size = (ucast (sizeof_mbuf + ucast priv_size) :: u32);
       mbuf_upd (\<lambda>b. (rte_pktmbuf_reset_headroom
         (b\<lparr>mb_priv_size := priv_size, mb_buf_addr := m + ucast mbuf_size, mb_buf_iova := iova + ucast mbuf_size,
            mb_buf_len := buf_len\<rparr>))\<lparr>mb_data_len := 0, mb_ol_flags := 0\<rparr>) m h
     }
   }"

definition pktmbuf_pinned_extbuf_decref :: "u64 \<Rightarrow> 'd heap \<Rightarrow> (bool \<times> 'd heap) option" where
  "pktmbuf_pinned_extbuf_decref m h = do {
     b \<leftarrow> h_mbuf h m;
     h \<leftarrow> mbuf_upd (\<lambda>b. b\<lparr>mb_ol_flags := RTE_MBUF_F_EXTERNAL\<rparr>) m h;
     s \<leftarrow> h_shinfo h (mb_shinfo b);
     if rte_mbuf_ext_refcnt_read s = 1 then Some (False, h)
     else (let r = sh_refcnt s - 1 in
       if r \<noteq> 0 then do {h \<leftarrow> shinfo_upd (\<lambda>s. s\<lparr>sh_refcnt := r\<rparr>) (mb_shinfo b) h; Some (True, h)}
       else do {h \<leftarrow> shinfo_upd (\<lambda>s. rte_mbuf_ext_refcnt_set s 1) (mb_shinfo b) h; Some (False, h)})
   }"

section \<open>Freeing\<close>

text \<open>What both arms of \<open>rte_pktmbuf_prefree_seg\<close> do before they return the mbuf: give up a
  buffer that is not the mbuf's own. The result tells whether the mbuf may be recycled.\<close>

definition prefree_detach :: "'d rte_mempool_ops list \<Rightarrow> u32 \<Rightarrow> u64 \<Rightarrow> 'd heap \<Rightarrow> (bool \<times> 'd heap) option" where
  "prefree_detach ops_table lcore_id m h = do {
     b \<leftarrow> h_mbuf h m;
     if \<not> RTE_MBUF_DIRECT b then do {
       h \<leftarrow> rte_pktmbuf_detach ops_table lcore_id m h;
       b \<leftarrow> h_mbuf h m;
       pinned \<leftarrow> (if RTE_MBUF_HAS_EXTBUF b then RTE_MBUF_HAS_PINNED_EXTBUF h b else Some False);
       if pinned then do {
         (shared, h) \<leftarrow> pktmbuf_pinned_extbuf_decref m h;
         Some (\<not> shared, h)
       } else Some (True, h)
     } else Some (True, h)
   }"

definition unlink_seg :: "rte_mbuf \<Rightarrow> rte_mbuf" where
  "unlink_seg b =
     (let b = (if mb_next b \<noteq> NULL then b\<lparr>mb_next := NULL\<rparr> else b)
      in if mb_nb_segs b \<noteq> 1 then b\<lparr>mb_nb_segs := 1\<rparr> else b)"

definition rte_pktmbuf_prefree_seg ::
    "'d rte_mempool_ops list \<Rightarrow> u32 \<Rightarrow> u64 \<Rightarrow> 'd heap \<Rightarrow> (u64 \<times> 'd heap) option" where
  "rte_pktmbuf_prefree_seg ops_table lcore_id m h = do {
     b \<leftarrow> h_mbuf h m;
     if rte_mbuf_refcnt_read b = 1 then do {
       (free, h) \<leftarrow> prefree_detach ops_table lcore_id m h;
       if \<not> free then Some (NULL, h)
       else do {h \<leftarrow> mbuf_upd unlink_seg m h; Some (m, h)}
     } else do {
       let (r, b') = mbuf_refcnt_add b (- 1);
       let h = h\<lparr>h_mbuf := (h_mbuf h)(m \<mapsto> b')\<rparr>;
       if r = 0 then do {
         (free, h) \<leftarrow> prefree_detach ops_table lcore_id m h;
         if \<not> free then Some (NULL, h)
         else do {h \<leftarrow> mbuf_upd (\<lambda>b. rte_mbuf_refcnt_set (unlink_seg b) 1) m h; Some (m, h)}
       } else Some (NULL, h)
     }
   }"

definition rte_pktmbuf_free_seg :: "'d rte_mempool_ops list \<Rightarrow> u32 \<Rightarrow> u64 \<Rightarrow> 'd heap \<Rightarrow> 'd heap option" where
  "rte_pktmbuf_free_seg ops_table lcore_id m h = do {
     (m, h) \<leftarrow> rte_pktmbuf_prefree_seg ops_table lcore_id m h;
     if m \<noteq> NULL then rte_mbuf_raw_free ops_table lcore_id m h else Some h
   }"

partial_function (option) rte_pktmbuf_free ::
    "'d rte_mempool_ops list \<Rightarrow> u32 \<Rightarrow> u64 \<Rightarrow> 'd heap \<Rightarrow> 'd heap option" where
  "rte_pktmbuf_free ops_table lcore_id m h =
     (if m = NULL then Some h
      else do {
        b \<leftarrow> h_mbuf h m;
        let m_next = mb_next b;
        h \<leftarrow> rte_pktmbuf_free_seg ops_table lcore_id m h;
        rte_pktmbuf_free ops_table lcore_id m_next h
      })"

section \<open>Room in a packet\<close>

definition rte_pktmbuf_headroom :: "rte_mbuf \<Rightarrow> u16" where
  "rte_pktmbuf_headroom mb = mb_data_off mb"

definition rte_pktmbuf_tailroom :: "rte_mbuf \<Rightarrow> u16" where
  "rte_pktmbuf_tailroom mb = mb_buf_len mb - rte_pktmbuf_headroom mb - mb_data_len mb"

partial_function (option) rte_pktmbuf_lastseg :: "'d heap \<Rightarrow> u64 \<Rightarrow> u64 option" where
  "rte_pktmbuf_lastseg h m = do {
     b \<leftarrow> h_mbuf h m;
     if mb_next b \<noteq> NULL then rte_pktmbuf_lastseg h (mb_next b) else Some m
   }"

text \<open>The pointer results are \<open>NULL\<close> when there is no room, as in the code.\<close>

definition rte_pktmbuf_prepend :: "rte_mbuf \<Rightarrow> u16 \<Rightarrow> u64 \<times> rte_mbuf" where
  "rte_pktmbuf_prepend mb len =
     (if len > rte_pktmbuf_headroom mb then (NULL, mb)
      else (let mb = mb\<lparr>mb_data_off := mb_data_off mb - len, mb_data_len := mb_data_len mb + len,
                        mb_pkt_len := mb_pkt_len mb + ucast len\<rparr>
            in (mb_buf_addr mb + ucast (mb_data_off mb), mb)))"

definition rte_pktmbuf_append :: "u64 \<Rightarrow> u16 \<Rightarrow> 'd heap \<Rightarrow> (u64 \<times> 'd heap) option" where
  "rte_pktmbuf_append m len h = do {
     m_last \<leftarrow> rte_pktmbuf_lastseg h m;
     l \<leftarrow> h_mbuf h m_last;
     if len > rte_pktmbuf_tailroom l then Some (NULL, h)
     else do {
       let tail = mb_buf_addr l + ucast (mb_data_off l) + ucast (mb_data_len l);
       h \<leftarrow> mbuf_upd (\<lambda>l. l\<lparr>mb_data_len := mb_data_len l + len\<rparr>) m_last h;
       h \<leftarrow> mbuf_upd (\<lambda>b. b\<lparr>mb_pkt_len := mb_pkt_len b + ucast len\<rparr>) m h;
       Some (tail, h)
     }
   }"

definition rte_pktmbuf_adj :: "rte_mbuf \<Rightarrow> u16 \<Rightarrow> u64 \<times> rte_mbuf" where
  "rte_pktmbuf_adj mb len =
     (if len > mb_data_len mb then (NULL, mb)
      else (let mb = mb\<lparr>mb_data_len := mb_data_len mb - len, mb_data_off := mb_data_off mb + len,
                        mb_pkt_len := mb_pkt_len mb - ucast len\<rparr>
            in (mb_buf_addr mb + ucast (mb_data_off mb), mb)))"

definition rte_pktmbuf_trim :: "u64 \<Rightarrow> u16 \<Rightarrow> 'd heap \<Rightarrow> (int \<times> 'd heap) option" where
  "rte_pktmbuf_trim m len h = do {
     m_last \<leftarrow> rte_pktmbuf_lastseg h m;
     l \<leftarrow> h_mbuf h m_last;
     if len > mb_data_len l then Some (- 1, h)
     else do {
       h \<leftarrow> mbuf_upd (\<lambda>l. l\<lparr>mb_data_len := mb_data_len l - len\<rparr>) m_last h;
       h \<leftarrow> mbuf_upd (\<lambda>b. b\<lparr>mb_pkt_len := mb_pkt_len b - ucast len\<rparr>) m h;
       Some (0, h)
     }
   }"

definition rte_pktmbuf_is_contiguous :: "rte_mbuf \<Rightarrow> bool" where
  "rte_pktmbuf_is_contiguous mb \<longleftrightarrow> mb_nb_segs mb = 1"

text \<open>The slow paths are compiled code outside the repository: arguments.\<close>

definition rte_pktmbuf_read :: "(u32 \<Rightarrow> u32 \<Rightarrow> u64 \<Rightarrow> u64) \<Rightarrow> rte_mbuf \<Rightarrow> u32 \<Rightarrow> u32 \<Rightarrow> u64 \<Rightarrow> u64" where
  "rte_pktmbuf_read slow_read mb off len buf =
     (if off + len \<le> ucast (mb_data_len mb) then rte_pktmbuf_mtod_offset mb (ucast off)
      else slow_read off len buf)"

definition rte_pktmbuf_linearize ::
    "(u64 \<Rightarrow> 'd heap \<Rightarrow> (int \<times> 'd heap) option) \<Rightarrow> u64 \<Rightarrow> 'd heap \<Rightarrow> (int \<times> 'd heap) option" where
  "rte_pktmbuf_linearize slow_linearize m h = do {
     b \<leftarrow> h_mbuf h m;
     if rte_pktmbuf_is_contiguous b then Some (0, h) else slow_linearize m h
   }"

definition rte_pktmbuf_chain :: "u64 \<Rightarrow> u64 \<Rightarrow> 'd heap \<Rightarrow> (int \<times> 'd heap) option" where
  "rte_pktmbuf_chain head tail h = do {
     hb \<leftarrow> h_mbuf h head;
     tb \<leftarrow> h_mbuf h tail;
     if unat (mb_nb_segs hb) + unat (mb_nb_segs tb) > RTE_MBUF_MAX_NB_SEGS then Some (- EOVERFLOW, h)
     else do {
       cur_tail \<leftarrow> rte_pktmbuf_lastseg h head;
       h \<leftarrow> mbuf_upd (\<lambda>b. b\<lparr>mb_next := tail\<rparr>) cur_tail h;
       tb \<leftarrow> h_mbuf h tail;
       h \<leftarrow> mbuf_upd (\<lambda>b. b\<lparr>mb_nb_segs := mb_nb_segs b + mb_nb_segs tb\<rparr>) head h;
       tb \<leftarrow> h_mbuf h tail;
       h \<leftarrow> mbuf_upd (\<lambda>b. b\<lparr>mb_pkt_len := mb_pkt_len b + mb_pkt_len tb\<rparr>) head h;
       h \<leftarrow> mbuf_upd (\<lambda>b. b\<lparr>mb_pkt_len := ucast (mb_data_len b)\<rparr>) tail h;
       Some (0, h)
     }
   }"

section \<open>Transmit offloads and scheduling\<close>

abbreviation (input) RTE_MBUF_L2_LEN_OFS :: nat where "RTE_MBUF_L2_LEN_OFS \<equiv> 0"
abbreviation (input) RTE_MBUF_L3_LEN_OFS :: nat where "RTE_MBUF_L3_LEN_OFS \<equiv> 7"
abbreviation (input) RTE_MBUF_L4_LEN_OFS :: nat where "RTE_MBUF_L4_LEN_OFS \<equiv> 16"
abbreviation (input) RTE_MBUF_TSO_SEGSZ_OFS :: "nat" where "RTE_MBUF_TSO_SEGSZ_OFS \<equiv> 24"
abbreviation (input) RTE_MBUF_OUTL3_LEN_OFS :: nat where "RTE_MBUF_OUTL3_LEN_OFS \<equiv> 40"
abbreviation (input) RTE_MBUF_OUTL2_LEN_OFS :: nat where "RTE_MBUF_OUTL2_LEN_OFS \<equiv> 49"
abbreviation (input) RTE_MBUF_TXOFLD_UNUSED_OFS :: "nat" where "RTE_MBUF_TXOFLD_UNUSED_OFS \<equiv> 56"

definition rte_mbuf_tx_offload :: "u64 \<Rightarrow> u64 \<Rightarrow> u64 \<Rightarrow> u64 \<Rightarrow> u64 \<Rightarrow> u64 \<Rightarrow> u64 \<Rightarrow> u64" where
  "rte_mbuf_tx_offload il2 il3 il4 tso ol3 ol2 unused =
     push_bit RTE_MBUF_L2_LEN_OFS il2 OR push_bit RTE_MBUF_L3_LEN_OFS il3 OR push_bit RTE_MBUF_L4_LEN_OFS il4 OR
     push_bit RTE_MBUF_TSO_SEGSZ_OFS tso OR push_bit RTE_MBUF_OUTL3_LEN_OFS ol3 OR
     push_bit RTE_MBUF_OUTL2_LEN_OFS ol2 OR push_bit RTE_MBUF_TXOFLD_UNUSED_OFS unused"

text \<open>The bit fields of the \<open>tx_offload\<close> union.\<close>

definition tx_l2_len :: "u64 \<Rightarrow> u64" where "tx_l2_len w = take_bit 7 w"
definition tx_l3_len :: "u64 \<Rightarrow> u64" where "tx_l3_len w = take_bit 9 (drop_bit 7 w)"
definition tx_l4_len :: "u64 \<Rightarrow> u64" where "tx_l4_len w = take_bit 8 (drop_bit 16 w)"
definition tx_tso_segsz :: "u64 \<Rightarrow> u64" where "tx_tso_segsz w = take_bit 16 (drop_bit 24 w)"
definition tx_outer_l3_len :: "u64 \<Rightarrow> u64" where "tx_outer_l3_len w = take_bit 9 (drop_bit 40 w)"
definition tx_outer_l2_len :: "u64 \<Rightarrow> u64" where "tx_outer_l2_len w = take_bit 7 (drop_bit 49 w)"

definition rte_validate_tx_offload :: "rte_mbuf \<Rightarrow> int" where
  "rte_validate_tx_offload mb =
     (let ol_flags = mb_ol_flags mb in
      if ol_flags AND RTE_MBUF_F_TX_OFFLOAD_MASK = 0 then 0
      else if ol_flags AND RTE_MBUF_F_TX_IP_CKSUM \<noteq> 0 \<and> ol_flags AND RTE_MBUF_F_TX_IPV6 \<noteq> 0 then - EINVAL
      else if ol_flags AND (RTE_MBUF_F_TX_L4_MASK OR RTE_MBUF_F_TX_TCP_SEG) \<noteq> 0 \<and>
        ol_flags AND (RTE_MBUF_F_TX_IPV4 OR RTE_MBUF_F_TX_IPV6) = 0 then - EINVAL
      else if ol_flags AND RTE_MBUF_F_TX_TCP_SEG \<noteq> 0 \<and>
        (tx_tso_segsz (mb_tx_offload mb) = 0 \<or>
         ol_flags AND RTE_MBUF_F_TX_IPV4 \<noteq> 0 \<and> ol_flags AND RTE_MBUF_F_TX_IP_CKSUM = 0) then - EINVAL
      else if ol_flags AND RTE_MBUF_F_TX_OUTER_IP_CKSUM \<noteq> 0 \<and> ol_flags AND RTE_MBUF_F_TX_OUTER_IPV4 = 0 then - EINVAL
      else 0)"

definition rte_mbuf_sched_queue_get :: "rte_mbuf \<Rightarrow> u32" where
  "rte_mbuf_sched_queue_get mb = sched_queue_id (mb_hash mb)"

definition rte_mbuf_sched_traffic_class_get :: "rte_mbuf \<Rightarrow> u8" where
  "rte_mbuf_sched_traffic_class_get mb = sched_traffic_class (mb_hash mb)"

definition rte_mbuf_sched_color_get :: "rte_mbuf \<Rightarrow> u8" where
  "rte_mbuf_sched_color_get mb = sched_color (mb_hash mb)"

definition rte_mbuf_sched_get :: "rte_mbuf \<Rightarrow> u32 \<times> u8 \<times> u8" where
  "rte_mbuf_sched_get mb =
     (let sched = mb_hash mb in (sched_queue_id sched, sched_traffic_class sched, sched_color sched))"

definition rte_mbuf_sched_queue_set :: "rte_mbuf \<Rightarrow> u32 \<Rightarrow> rte_mbuf" where
  "rte_mbuf_sched_queue_set mb queue_id = mb\<lparr>mb_hash := (mb_hash mb)\<lparr>sched_queue_id := queue_id\<rparr>\<rparr>"

definition rte_mbuf_sched_traffic_class_set :: "rte_mbuf \<Rightarrow> u8 \<Rightarrow> rte_mbuf" where
  "rte_mbuf_sched_traffic_class_set mb traffic_class =
     mb\<lparr>mb_hash := (mb_hash mb)\<lparr>sched_traffic_class := traffic_class\<rparr>\<rparr>"

definition rte_mbuf_sched_color_set :: "rte_mbuf \<Rightarrow> u8 \<Rightarrow> rte_mbuf" where
  "rte_mbuf_sched_color_set mb color = mb\<lparr>mb_hash := (mb_hash mb)\<lparr>sched_color := color\<rparr>\<rparr>"

definition rte_mbuf_sched_set :: "rte_mbuf \<Rightarrow> u32 \<Rightarrow> u8 \<Rightarrow> u8 \<Rightarrow> rte_mbuf" where
  "rte_mbuf_sched_set mb queue_id traffic_class color =
     mb\<lparr>mb_hash := \<lparr>sched_queue_id = queue_id, sched_traffic_class = traffic_class, sched_color = color,
        sched_reserved = 0\<rparr>\<rparr>"

end
