(* ===== verification/Rte_Ring_Elems.thy ===== *)
theory Rte_Ring_Elems
  imports Prelude
begin

text \<open>
  The element store of a ring (rte\_ring\_elem\_pvt.h): the unrolled copy loops that move objects
  between an object table and the table of slots behind the ring structure. The store is a list
  of 32-bit words; the 8-byte and 16-byte variants see it through a cast that groups words.
  The lemmas show that every variant, on the straight and on the wrap-around path, is the
  reference copy \<open>ring_store\<close> / \<open>ring_load\<close> at positions modulo the size.
\<close>

section \<open>Reference copies modulo the ring size\<close>

fun ring_store :: "nat \<Rightarrow> nat \<Rightarrow> 'a list \<Rightarrow> 'a list \<Rightarrow> 'a list" where
  "ring_store sz pos ring [] = ring"
| "ring_store sz pos ring (x # xs) = ring_store sz (Suc pos) (ring[pos mod sz := x]) xs"

definition ring_load :: "nat \<Rightarrow> nat \<Rightarrow> 'a list \<Rightarrow> nat \<Rightarrow> 'a list" where
  "ring_load sz pos ring n = map (\<lambda>j. ring ! ((pos + j) mod sz)) [0..<n]"

lemma length_ring_store [simp]: "length (ring_store sz pos ring xs) = length ring"
  by (induction xs arbitrary: pos ring) auto

lemma length_ring_load [simp]: "length (ring_load sz pos ring n) = n"
  by (simp add: ring_load_def)

lemma ring_load_0 [simp]: "ring_load sz pos ring 0 = []"
  by (simp add: ring_load_def)

lemma ring_load_add:
  "ring_load sz pos ring (a + b) = ring_load sz pos ring a @ ring_load sz (pos + a) ring b"
  by (rule nth_equalityI) (auto simp: ring_load_def nth_append add.assoc)

lemma ring_store_append:
  "ring_store sz pos ring (xs @ ys) = ring_store sz (pos + length xs) (ring_store sz pos ring xs) ys"
  by (induction xs arbitrary: pos ring) auto

lemma mod_sz_distinct:
  fixes pos j j' sz :: nat
  assumes "j < sz" "j' < sz" "(pos + j) mod sz = (pos + j') mod sz"
  shows "j = j'"
proof -
  have aux: "a = b" if "a \<le> b" "b < sz" "(pos + a) mod sz = (pos + b) mod sz" for a b
  proof -
    from that(1,3) have "sz dvd (pos + b) - (pos + a)"
      by (metis mod_eq_dvd_iff_nat nat_add_left_cancel_le)
    with that(1,2) show ?thesis by (auto dest: dvd_imp_le)
  qed
  with assms show ?thesis by (metis nat_le_linear)
qed

lemma nth_ring_store_out:
  "\<forall>j < length xs. p \<noteq> (pos + j) mod sz \<Longrightarrow> ring_store sz pos ring xs ! p = ring ! p"
proof (induction xs arbitrary: pos ring)
  case (Cons x xs)
  from Cons.prems have "\<forall>j < length xs. p \<noteq> (Suc pos + j) mod sz" by auto
  then have "ring_store sz (Suc pos) (ring[pos mod sz := x]) xs ! p = ring[pos mod sz := x] ! p"
    by (rule Cons.IH)
  moreover from Cons.prems have "p \<noteq> pos mod sz" by force
  ultimately show ?case by simp
qed simp

lemma nth_ring_store_in:
  assumes "j < length xs" "length xs \<le> sz" "length ring = sz"
  shows "ring_store sz pos ring xs ! ((pos + j) mod sz) = xs ! j"
  using assms
proof (induction xs arbitrary: pos ring j)
  case (Cons x xs)
  show ?case
  proof (cases j)
    case 0
    have "pos mod sz \<noteq> (Suc pos + i) mod sz" if "i < length xs" for i
      using mod_sz_distinct [of 0 sz "Suc i" pos] that Cons.prems by auto
    then have "ring_store sz (Suc pos) (ring[pos mod sz := x]) xs ! (pos mod sz)
        = ring[pos mod sz := x] ! (pos mod sz)"
      by (intro nth_ring_store_out) blast
    moreover have "pos mod sz < sz" using Cons.prems by (intro mod_less_divisor) auto
    ultimately show ?thesis using 0 Cons.prems by simp
  next
    case (Suc i)
    then show ?thesis using Cons.IH [of i "ring[pos mod sz := x]" "Suc pos"] Cons.prems by simp
  qed
qed simp

text \<open>What is read back: the stored objects at their positions, everything else untouched.\<close>

lemma ring_load_store:
  assumes "length xs \<le> sz" "length ring = sz"
  shows "ring_load sz pos (ring_store sz pos ring xs) (length xs) = xs"
  using assms by (intro nth_equalityI) (auto simp: ring_load_def nth_ring_store_in)

lemma ring_load_store_before:
  assumes "a + length xs \<le> sz" "length ring = sz"
  shows "ring_load sz pos (ring_store sz (pos + a) ring xs) a = ring_load sz pos ring a"
proof (rule nth_equalityI)
  fix i assume "i < length (ring_load sz pos (ring_store sz (pos + a) ring xs) a)"
  then have i: "i < a" by simp
  have "(pos + i) mod sz \<noteq> (pos + a + j) mod sz" if "j < length xs" for j
    using mod_sz_distinct [of i sz "a + j" pos] that i assms by (auto simp: add.assoc)
  then have "ring_store sz (pos + a) ring xs ! ((pos + i) mod sz) = ring ! ((pos + i) mod sz)"
    by (intro nth_ring_store_out) blast
  then show "ring_load sz pos (ring_store sz (pos + a) ring xs) a ! i = ring_load sz pos ring a ! i"
    using i by (simp add: ring_load_def)
qed simp

lemma ring_load_mod: "p mod sz = q mod sz \<Longrightarrow> ring_load sz p ring n = ring_load sz q ring n"
  unfolding ring_load_def by (intro map_cong arg_cong [where f = "(!) ring"] mod_add_cong refl)

lemma ring_store_mod: "p mod sz = q mod sz \<Longrightarrow> ring_store sz p ring xs = ring_store sz q ring xs"
proof (induction xs arbitrary: p q ring)
  case (Cons x xs)
  have "Suc p mod sz = Suc q mod sz" using mod_add_cong [OF Cons.prems refl, of 1] by simp
  from Cons.IH [OF this] show ?case using Cons.prems by simp
qed simp

lemma copy_range_store:
  assumes "pos mod sz = d" "d + k \<le> sz" "s + k \<le> length src"
  shows "copy_range ring d src s k = ring_store sz pos ring (take k (drop s src))"
  using assms
proof (induction k arbitrary: ring d pos s)
  case (Suc k)
  have step: "take (Suc k) (drop s src) = src ! s # take k (drop (Suc s) src)"
    using Suc.prems by (simp add: Cons_nth_drop_Suc [symmetric])
  show ?case
  proof (cases k)
    case 0
    then show ?thesis using Suc.prems step by simp
  next
    case (Suc k')
    then have "Suc pos mod sz = Suc d" using Suc.prems by (simp add: mod_Suc)
    then have "copy_range (ring[d := src ! s]) (Suc d) src (Suc s) k =
        ring_store sz (Suc pos) (ring[d := src ! s]) (take k (drop (Suc s) src))"
      using Suc.IH Suc.prems by simp
    then show ?thesis using step Suc.prems by simp
  qed
qed simp

lemma copy_range_load:
  assumes "pos mod sz = s" "s + k \<le> sz" "d + k \<le> length dst"
  shows "copy_range dst d ring s k = take d dst @ ring_load sz pos ring k @ drop (d + k) dst"
proof (rule nth_equalityI)
  fix p assume "p < length (copy_range dst d ring s k)"
  then have p: "p < length dst" by simp
  have "(pos + (p - d)) mod sz = s + (p - d)" if "d \<le> p" "p < d + k"
  proof -
    have "(pos + (p - d)) mod sz = (s + (p - d)) mod sz"
      using assms(1) by (intro mod_add_cong) auto
    also have "\<dots> = s + (p - d)" using that assms by simp
    finally show ?thesis .
  qed
  then show "copy_range dst d ring s k ! p
      = (take d dst @ ring_load sz pos ring k @ drop (d + k) dst) ! p"
    using p assms(3) by (auto simp: nth_copy_range nth_append ring_load_def)
qed (use assms in auto)

section \<open>The copy loops of the source\<close>

text \<open>The three loop shapes the copy routines use, with the loop body as a parameter. The index
  into the object table counts iterations and never passes \<open>n\<close>, so it is a natural number; the
  slot index is the C \<open>uint32_t\<close>. \<open>for_blocks\<close> is the unrolled loop
  \<open>for (i = 0; i < lim; i += b, idx += b)\<close>, \<open>for_single\<close> the switch with fall-through on the
  remainder, which performs that many single copies, \<open>for_to_end\<close> is
  \<open>for (i = 0; idx < size; i++, idx++)\<close> and \<open>for_from_start\<close> is
  \<open>for (idx = 0; i < n; i++, idx++)\<close>.\<close>

function for_blocks ::
    "nat \<Rightarrow> (nat \<Rightarrow> u32 \<Rightarrow> 'b \<Rightarrow> 'b) \<Rightarrow> nat \<Rightarrow> nat \<Rightarrow> u32 \<Rightarrow> 'b \<Rightarrow> nat \<times> u32 \<times> 'b" where
  "for_blocks b body lim i idx d =
     (if 0 < b \<and> i < lim then for_blocks b body lim (i + b) (idx + of_nat b) (body i idx d)
      else (i, idx, d))"
  by pat_completeness auto
termination
  by (relation "measure (\<lambda>(b, body, lim, i, _). lim - i)") auto

fun for_single :: "(nat \<Rightarrow> u32 \<Rightarrow> 'b \<Rightarrow> 'b) \<Rightarrow> nat \<Rightarrow> nat \<Rightarrow> u32 \<Rightarrow> 'b \<Rightarrow> 'b" where
  "for_single body 0 i idx d = d"
| "for_single body (Suc k) i idx d = for_single body k (Suc i) (idx + 1) (body i idx d)"

function for_to_end :: "(nat \<Rightarrow> u32 \<Rightarrow> 'b \<Rightarrow> 'b) \<Rightarrow> u32 \<Rightarrow> nat \<Rightarrow> u32 \<Rightarrow> 'b \<Rightarrow> nat \<times> 'b" where
  "for_to_end body sz i idx d =
     (if idx < sz then for_to_end body sz (Suc i) (idx + 1) (body i idx d) else (i, d))"
  by pat_completeness auto
termination
  by (relation "measure (\<lambda>(body, sz, i, idx, _). unat sz - unat idx)")
    (auto simp: unat_inc_below word_less_nat_alt [symmetric] intro!: diff_less_mono2)

function for_from_start :: "(nat \<Rightarrow> u32 \<Rightarrow> 'b \<Rightarrow> 'b) \<Rightarrow> nat \<Rightarrow> nat \<Rightarrow> u32 \<Rightarrow> 'b \<Rightarrow> 'b" where
  "for_from_start body n i idx d =
     (if i < n then for_from_start body n (Suc i) (idx + 1) (body i idx d) else d)"
  by pat_completeness auto
termination
  by (relation "measure (\<lambda>(body, n, i, _). n - i)") auto

declare for_blocks.simps [simp del] for_to_end.simps [simp del] for_from_start.simps [simp del]

text \<open>The loop bodies: one assignment, and the unrolled groups of assignments.\<close>

definition enq1 :: "'a list \<Rightarrow> nat \<Rightarrow> u32 \<Rightarrow> 'a list \<Rightarrow> 'a list" where
  "enq1 obj i idx ring = ring[unat idx := obj ! i]"

definition enq2 :: "'a list \<Rightarrow> nat \<Rightarrow> u32 \<Rightarrow> 'a list \<Rightarrow> 'a list" where
  "enq2 obj i idx ring = ring[unat idx := obj ! i, unat (idx + 1) := obj ! (i + 1)]"

definition enq4 :: "'a list \<Rightarrow> nat \<Rightarrow> u32 \<Rightarrow> 'a list \<Rightarrow> 'a list" where
  "enq4 obj i idx ring =
     ring[unat idx := obj ! i, unat (idx + 1) := obj ! (i + 1),
          unat (idx + 2) := obj ! (i + 2), unat (idx + 3) := obj ! (i + 3)]"

definition enq8 :: "'a list \<Rightarrow> nat \<Rightarrow> u32 \<Rightarrow> 'a list \<Rightarrow> 'a list" where
  "enq8 obj i idx ring =
     ring[unat idx := obj ! i, unat (idx + 1) := obj ! (i + 1),
          unat (idx + 2) := obj ! (i + 2), unat (idx + 3) := obj ! (i + 3),
          unat (idx + 4) := obj ! (i + 4), unat (idx + 5) := obj ! (i + 5),
          unat (idx + 6) := obj ! (i + 6), unat (idx + 7) := obj ! (i + 7)]"

definition deq1 :: "'a list \<Rightarrow> nat \<Rightarrow> u32 \<Rightarrow> 'a list \<Rightarrow> 'a list" where
  "deq1 ring i idx obj = obj[i := ring ! unat idx]"

definition deq2 :: "'a list \<Rightarrow> nat \<Rightarrow> u32 \<Rightarrow> 'a list \<Rightarrow> 'a list" where
  "deq2 ring i idx obj = obj[i := ring ! unat idx, i + 1 := ring ! unat (idx + 1)]"

definition deq4 :: "'a list \<Rightarrow> nat \<Rightarrow> u32 \<Rightarrow> 'a list \<Rightarrow> 'a list" where
  "deq4 ring i idx obj =
     obj[i := ring ! unat idx, i + 1 := ring ! unat (idx + 1),
         i + 2 := ring ! unat (idx + 2), i + 3 := ring ! unat (idx + 3)]"

definition deq8 :: "'a list \<Rightarrow> nat \<Rightarrow> u32 \<Rightarrow> 'a list \<Rightarrow> 'a list" where
  "deq8 ring i idx obj =
     obj[i := ring ! unat idx, i + 1 := ring ! unat (idx + 1),
         i + 2 := ring ! unat (idx + 2), i + 3 := ring ! unat (idx + 3),
         i + 4 := ring ! unat (idx + 4), i + 5 := ring ! unat (idx + 5),
         i + 6 := ring ! unat (idx + 6), i + 7 := ring ! unat (idx + 7)]"

definition rte_ring_enqueue_elems_32 ::
    "u32 \<Rightarrow> u32 \<Rightarrow> 'a list \<Rightarrow> 'a list \<Rightarrow> u32 \<Rightarrow> 'a list" where
  "rte_ring_enqueue_elems_32 sz idx ring obj n =
     (if idx + n < sz then
        (case for_blocks 8 (enq8 obj) (unat (n AND NOT 7)) 0 idx ring of
           (i, idx', ring') \<Rightarrow> for_single (enq1 obj) (unat (n AND 7)) i idx' ring')
      else
        (case for_to_end (enq1 obj) sz 0 idx ring of
           (i, ring') \<Rightarrow> for_from_start (enq1 obj) (unat n) i 0 ring'))"

definition rte_ring_enqueue_elems_64 ::
    "u32 \<Rightarrow> u32 \<Rightarrow> 'a list \<Rightarrow> u32 \<Rightarrow> 'a list \<Rightarrow> u32 \<Rightarrow> 'a list" where
  "rte_ring_enqueue_elems_64 sz msk ring prod_head obj n =
     (let idx = prod_head AND msk in
      if idx + n < sz then
        (case for_blocks 4 (enq4 obj) (unat (n AND NOT 3)) 0 idx ring of
           (i, idx', ring') \<Rightarrow> for_single (enq1 obj) (unat (n AND 3)) i idx' ring')
      else
        (case for_to_end (enq1 obj) sz 0 idx ring of
           (i, ring') \<Rightarrow> for_from_start (enq1 obj) (unat n) i 0 ring'))"

text \<open>A 32-byte \<open>memcpy\<close> moves two 16-byte elements, a 16-byte one moves one.\<close>

definition rte_ring_enqueue_elems_128 ::
    "u32 \<Rightarrow> u32 \<Rightarrow> 'a list \<Rightarrow> u32 \<Rightarrow> 'a list \<Rightarrow> u32 \<Rightarrow> 'a list" where
  "rte_ring_enqueue_elems_128 sz msk ring prod_head obj n =
     (let idx = prod_head AND msk in
      if idx + n < sz then
        (case for_blocks 2 (enq2 obj) (unat (n AND NOT 1)) 0 idx ring of
           (i, idx', ring') \<Rightarrow> for_single (enq1 obj) (unat (n AND 1)) i idx' ring')
      else
        (case for_to_end (enq1 obj) sz 0 idx ring of
           (i, ring') \<Rightarrow> for_from_start (enq1 obj) (unat n) i 0 ring'))"

definition rte_ring_dequeue_elems_32 ::
    "u32 \<Rightarrow> u32 \<Rightarrow> 'a list \<Rightarrow> 'a list \<Rightarrow> u32 \<Rightarrow> 'a list" where
  "rte_ring_dequeue_elems_32 sz idx ring obj n =
     (if idx + n < sz then
        (case for_blocks 8 (deq8 ring) (unat (n AND NOT 7)) 0 idx obj of
           (i, idx', obj') \<Rightarrow> for_single (deq1 ring) (unat (n AND 7)) i idx' obj')
      else
        (case for_to_end (deq1 ring) sz 0 idx obj of
           (i, obj') \<Rightarrow> for_from_start (deq1 ring) (unat n) i 0 obj'))"

definition rte_ring_dequeue_elems_64 ::
    "u32 \<Rightarrow> u32 \<Rightarrow> 'a list \<Rightarrow> u32 \<Rightarrow> 'a list \<Rightarrow> u32 \<Rightarrow> 'a list" where
  "rte_ring_dequeue_elems_64 sz msk ring cons_head obj n =
     (let idx = cons_head AND msk in
      if idx + n < sz then
        (case for_blocks 4 (deq4 ring) (unat (n AND NOT 3)) 0 idx obj of
           (i, idx', obj') \<Rightarrow> for_single (deq1 ring) (unat (n AND 3)) i idx' obj')
      else
        (case for_to_end (deq1 ring) sz 0 idx obj of
           (i, obj') \<Rightarrow> for_from_start (deq1 ring) (unat n) i 0 obj'))"

definition rte_ring_dequeue_elems_128 ::
    "u32 \<Rightarrow> u32 \<Rightarrow> 'a list \<Rightarrow> u32 \<Rightarrow> 'a list \<Rightarrow> u32 \<Rightarrow> 'a list" where
  "rte_ring_dequeue_elems_128 sz msk ring cons_head obj n =
     (let idx = cons_head AND msk in
      if idx + n < sz then
        (case for_blocks 2 (deq2 ring) (unat (n AND NOT 1)) 0 idx obj of
           (i, idx', obj') \<Rightarrow> for_single (deq1 ring) (unat (n AND 1)) i idx' obj')
      else
        (case for_to_end (deq1 ring) sz 0 idx obj of
           (i, obj') \<Rightarrow> for_from_start (deq1 ring) (unat n) i 0 obj'))"

section \<open>The loops are counted copies\<close>

text \<open>What the loop shapes need of a copy: moving \<open>a + b\<close> cells is moving \<open>a\<close> and then
  \<open>b\<close>. The arguments are the object index, the slot index, the number of cells and the
  destination.\<close>

locale counted_copy =
  fixes C :: "nat \<Rightarrow> nat \<Rightarrow> nat \<Rightarrow> 'b \<Rightarrow> 'b"
  assumes C_0: "C i x 0 d = d"
    and C_add: "C i x (a + b) d = C (i + a) (x + a) b (C i x a d)"
begin

lemma for_blocks_copy:
  assumes "0 < b" and body: "\<And>i idx d. unat idx + b < 2 ^ 32 \<Longrightarrow> body i idx d = C i (unat idx) b d"
    and "i \<le> lim" "b dvd lim - i" "unat idx + (lim - i) < 2 ^ 32"
  shows "for_blocks b body lim i idx d = (lim, idx + of_nat (lim - i), C i (unat idx) (lim - i) d)"
  using assms(3-5)
proof (induction "(lim - i) div b" arbitrary: i idx d)
  case 0
  then have "lim - i = 0" using \<open>0 < b\<close> by (metis dvd_div_eq_0_iff)
  with 0 show ?case by (simp add: for_blocks.simps C_0)
next
  case (Suc m)
  then have lt: "i < lim" by (metis div_0 diff_is_0_eq' not_le_imp_less nat.distinct(1))
  with Suc.prems have ge: "b \<le> lim - i" by (auto dest: dvd_imp_le)
  have idx: "unat (idx + of_nat b) = unat idx + b"
    using Suc.prems(3) ge by (simp add: unat_word_ariths unat_of_nat)
  have dvd: "b dvd lim - (i + b)" using Suc.prems(2) ge by (metis dvd_diff_nat dvd_refl diff_diff_left)
  have m: "m = (lim - (i + b)) div b"
    using Suc.hyps(2) ge \<open>0 < b\<close> by (simp add: le_div_geq diff_diff_left)
  have sp: "lim - i = b + (lim - (i + b))" using ge by simp
  have "body i idx d = C i (unat idx) b d" using Suc.prems(3) ge by (intro body) simp
  then have "for_blocks b body lim i idx d = for_blocks b body lim (i + b) (idx + of_nat b) (C i (unat idx) b d)"
    using lt \<open>0 < b\<close> by (simp add: for_blocks.simps [of b body lim i])
  also have "\<dots> = (lim, idx + of_nat b + of_nat (lim - (i + b)),
      C (i + b) (unat idx + b) (lim - (i + b)) (C i (unat idx) b d))"
    using Suc.hyps(1) [OF m, of "idx + of_nat b"] dvd idx ge lt Suc.prems(3) by simp
  also have "\<dots> = (lim, idx + of_nat (lim - i), C i (unat idx) (lim - i) d)"
    by (simp only: sp C_add of_nat_add add.assoc)
  finally show ?case .
qed

lemma for_single_copy:
  assumes "\<And>i idx d. body i idx d = C i (unat idx) 1 d" "unat idx + k < 2 ^ 32"
  shows "for_single body k i idx d = C i (unat idx) k d"
  using assms(2)
proof (induction k arbitrary: i idx d)
  case (Suc k)
  then have "unat (idx + 1) = unat idx + 1" by (simp add: unat_word_ariths)
  with Suc C_add [of i "unat idx" 1 k d] show ?case by (simp add: assms(1))
qed (simp add: C_0)

lemma for_to_end_copy:
  assumes "\<And>i idx d. body i idx d = C i (unat idx) 1 d" "idx \<le> sz"
  shows "for_to_end body sz i idx d = (i + (unat sz - unat idx), C i (unat idx) (unat sz - unat idx) d)"
  using assms(2)
proof (induction "unat sz - unat idx" arbitrary: i idx d)
  case 0
  then show ?case by (simp add: for_to_end.simps [of body sz i idx] C_0 word_less_nat_alt)
next
  case (Suc m)
  then have lt: "idx < sz" by (simp add: word_less_nat_alt)
  then have inc: "unat (idx + 1) = Suc (unat idx)" by (rule unat_inc_below)
  then have m: "m = unat sz - unat (idx + 1)" "idx + 1 \<le> sz"
    using Suc.hyps(2) lt by (simp_all add: word_le_nat_alt word_less_nat_alt)
  have "unat sz - unat idx = 1 + (unat sz - unat (idx + 1))" using m inc Suc.hyps(2) by simp
  then have "C i (unat idx) (unat sz - unat idx) d
      = C (Suc i) (Suc (unat idx)) (unat sz - Suc (unat idx)) (C i (unat idx) 1 d)"
    using C_add [of i "unat idx" 1 "unat sz - unat (idx + 1)" d] inc by simp
  with Suc.hyps(1) [OF m] inc lt Suc.hyps(2) show ?case
    by (simp add: for_to_end.simps [of body sz i idx] assms(1))
qed

lemma for_from_start_copy:
  assumes "\<And>i idx d. body i idx d = C i (unat idx) 1 d" "unat idx + (n - i) < 2 ^ 32"
  shows "for_from_start body n i idx d = C i (unat idx) (n - i) d"
  using assms(2)
proof (induction "n - i" arbitrary: i idx d)
  case 0
  then show ?case by (simp add: for_from_start.simps [of body n i] C_0)
next
  case (Suc m)
  then have "unat (idx + 1) = unat idx + 1" by (simp add: unat_word_ariths)
  moreover have "n - i = 1 + (n - Suc i)" "i < n" using Suc.hyps(2) by simp_all
  ultimately show ?case
    using Suc.hyps(1) [of "Suc i" "idx + 1"] Suc.hyps(2) Suc.prems C_add [of i "unat idx" 1 "n - Suc i" d]
    by (simp add: for_from_start.simps [of body n i] assms(1))
qed

end

interpretation enq_copy: counted_copy "\<lambda>i x k ring. copy_range ring x obj i k" for obj :: "'a list"
  by unfold_locales (simp_all add: copy_range_add)

interpretation deq_copy: counted_copy "\<lambda>i x k obj. copy_range obj i ring x k" for ring :: "'a list"
  by unfold_locales (simp_all add: copy_range_add)

lemma copy_range_2: "copy_range d x s i 2 = d[x := s ! i, x + 1 := s ! (i + 1)]"
  by (simp add: numeral_2_eq_2)

lemma copy_range_4: "copy_range d x s i 4 =
    d[x := s ! i, x + 1 := s ! (i + 1), x + 2 := s ! (i + 2), x + 3 := s ! (i + 3)]"
  by (simp add: eval_nat_numeral)

lemma copy_range_8: "copy_range d x s i 8 =
    d[x := s ! i, x + 1 := s ! (i + 1), x + 2 := s ! (i + 2), x + 3 := s ! (i + 3),
      x + 4 := s ! (i + 4), x + 5 := s ! (i + 5), x + 6 := s ! (i + 6), x + 7 := s ! (i + 7)]"
  by (simp add: eval_nat_numeral)

lemmas body_copy = copy_range_2 copy_range_4 copy_range_8 unat_word_ariths

lemma enq1_copy: "enq1 obj i idx ring = copy_range ring (unat idx) obj i 1"
  by (simp add: enq1_def)

lemma enq2_copy: "unat idx + 2 < 2 ^ 32 \<Longrightarrow> enq2 obj i idx ring = copy_range ring (unat idx) obj i 2"
  by (simp add: enq2_def body_copy)

lemma enq4_copy: "unat idx + 4 < 2 ^ 32 \<Longrightarrow> enq4 obj i idx ring = copy_range ring (unat idx) obj i 4"
  by (simp add: enq4_def body_copy)

lemma enq8_copy: "unat idx + 8 < 2 ^ 32 \<Longrightarrow> enq8 obj i idx ring = copy_range ring (unat idx) obj i 8"
  by (simp add: enq8_def body_copy)

lemma deq1_copy: "deq1 ring i idx obj = copy_range obj i ring (unat idx) 1"
  by (simp add: deq1_def)

lemma deq2_copy: "unat idx + 2 < 2 ^ 32 \<Longrightarrow> deq2 ring i idx obj = copy_range obj i ring (unat idx) 2"
  by (simp add: deq2_def body_copy)

lemma deq4_copy: "unat idx + 4 < 2 ^ 32 \<Longrightarrow> deq4 ring i idx obj = copy_range obj i ring (unat idx) 4"
  by (simp add: deq4_def body_copy)

lemma deq8_copy: "unat idx + 8 < 2 ^ 32 \<Longrightarrow> deq8 ring i idx obj = copy_range obj i ring (unat idx) 8"
  by (simp add: deq8_def body_copy)

lemmas enq_body = enq1_copy enq2_copy enq4_copy enq8_copy
lemmas deq_body = deq1_copy deq2_copy deq4_copy deq8_copy

text \<open>Both branches of a copy routine, for any unrolling factor: the straight copy when the
  objects fit before the end of the table, and the two-part copy when they wrap.\<close>

lemma enq_straight:
  fixes n idx sz :: u32
  assumes "pos mod unat sz = unat idx" "unat idx + unat n \<le> unat sz" "unat n \<le> length obj"
    and m: "m = mask k" and b: "b = 2 ^ k"
    and body: "\<And>i idx ring. unat idx + b < 2 ^ 32 \<Longrightarrow> body i idx ring = copy_range ring (unat idx) obj i b"
    and lt: "unat idx + unat n < 2 ^ 32"
  shows "(case for_blocks b body (unat (n AND NOT m)) 0 idx ring of
      (i, idx', ring') \<Rightarrow> for_single (enq1 obj) (unat (n AND m)) i idx' ring')
    = ring_store (unat sz) pos ring (take (unat n) obj)"
proof -
  let ?q = "unat (n AND NOT m)" and ?r = "unat (n AND m)"
  have qr: "?q + ?r = unat n" by (rule word_block_split)
  have blocks: "for_blocks b body ?q 0 idx ring = (?q, idx + of_nat ?q, copy_range ring (unat idx) obj 0 ?q)"
    using enq_copy.for_blocks_copy [of b body obj 0 ?q idx ring] body b m block_dvd [of k n] qr lt by simp
  have "unat (idx + of_nat ?q) = unat idx + ?q"
    using qr lt by (simp add: unat_word_ariths unat_of_nat)
  then have "for_single (enq1 obj) ?r ?q (idx + of_nat ?q) r = copy_range r (unat idx + ?q) obj ?q ?r" for r
    using enq_copy.for_single_copy [OF enq1_copy, of "idx + of_nat ?q" ?r obj ?q r] qr lt
    by simp
  then have "(case for_blocks b body ?q 0 idx ring of
      (i, idx', ring') \<Rightarrow> for_single (enq1 obj) ?r i idx' ring') = copy_range ring (unat idx) obj 0 (unat n)"
    using blocks copy_range_add [of ring "unat idx" obj 0 ?q ?r] qr by simp
  then show ?thesis using copy_range_store [of pos "unat sz" "unat idx" "unat n" 0 obj ring] assms by simp
qed

lemma enq_wrap:
  fixes n idx sz :: u32
  assumes pos: "pos mod unat sz = unat idx" and "idx < sz" "unat sz \<le> unat idx + unat n" "unat n \<le> unat sz"
    and "unat n \<le> length obj"
  shows "(case for_to_end (enq1 obj) sz 0 idx ring of
      (i, ring') \<Rightarrow> for_from_start (enq1 obj) (unat n) i 0 ring')
    = ring_store (unat sz) pos ring (take (unat n) obj)"
proof -
  let ?a = "unat sz - unat idx"
  let ?b = "unat n - ?a"
  have lt: "unat idx < unat sz" using assms(2) by (simp add: word_less_nat_alt)
  have "for_to_end (enq1 obj) sz 0 idx ring = (?a, copy_range ring (unat idx) obj 0 ?a)"
    using enq_copy.for_to_end_copy [OF enq1_copy, of idx sz obj 0 ring]
      less_imp_le [OF assms(2)] by simp
  moreover have "for_from_start (enq1 obj) (unat n) ?a 0 r = copy_range r 0 obj ?a ?b" for r
    using enq_copy.for_from_start_copy [OF enq1_copy, of 0 "unat n" ?a obj r]
      unsigned_less [of n, where ?'a = nat] by simp
  moreover have "copy_range ring (unat idx) obj 0 ?a = ring_store (unat sz) pos ring (take ?a obj)"
    using copy_range_store [of pos "unat sz" "unat idx" ?a 0 obj ring] assms lt by simp
  moreover have "copy_range r 0 obj ?a ?b = ring_store (unat sz) (pos + ?a) r (take ?b (drop ?a obj))" for r
  proof -
    have "(pos + ?a) mod unat sz = (unat idx + ?a) mod unat sz"
      using pos lt by (intro mod_add_cong) simp_all
    then have "(pos + ?a) mod unat sz = 0" using lt by simp
    then show ?thesis
      using copy_range_store [of "pos + ?a" "unat sz" 0 ?b ?a obj r] assms lt by simp
  qed
  moreover have "take (unat n) obj = take ?a obj @ take ?b (drop ?a obj)"
    using assms lt by (metis le_add_diff_inverse le_diff_conv add.commute take_add)
  moreover have "length (take ?a obj) = ?a" using assms lt by simp
  ultimately show ?thesis by (simp add: ring_store_append)
qed

lemma deq_straight:
  fixes n idx sz :: u32
  assumes "pos mod unat sz = unat idx" "unat idx + unat n \<le> unat sz" "unat n \<le> length obj"
    and m: "m = mask k" and b: "b = 2 ^ k"
    and body: "\<And>i idx obj. unat idx + b < 2 ^ 32 \<Longrightarrow> body i idx obj = copy_range obj i ring (unat idx) b"
    and lt: "unat idx + unat n < 2 ^ 32"
  shows "(case for_blocks b body (unat (n AND NOT m)) 0 idx obj of
      (i, idx', obj') \<Rightarrow> for_single (deq1 ring) (unat (n AND m)) i idx' obj')
    = ring_load (unat sz) pos ring (unat n) @ drop (unat n) obj"
proof -
  let ?q = "unat (n AND NOT m)" and ?r = "unat (n AND m)"
  have qr: "?q + ?r = unat n" by (rule word_block_split)
  have blocks: "for_blocks b body ?q 0 idx obj = (?q, idx + of_nat ?q, copy_range obj 0 ring (unat idx) ?q)"
    using deq_copy.for_blocks_copy [of b body ring 0 ?q idx obj] body b m block_dvd [of k n] qr lt by simp
  have "unat (idx + of_nat ?q) = unat idx + ?q"
    using qr lt by (simp add: unat_word_ariths unat_of_nat)
  then have "for_single (deq1 ring) ?r ?q (idx + of_nat ?q) r = copy_range r ?q ring (unat idx + ?q) ?r" for r
    using deq_copy.for_single_copy [OF deq1_copy, of "idx + of_nat ?q" ?r ring ?q r] qr lt
    by simp
  then have "(case for_blocks b body ?q 0 idx obj of
      (i, idx', obj') \<Rightarrow> for_single (deq1 ring) ?r i idx' obj') = copy_range obj 0 ring (unat idx) (unat n)"
    using blocks copy_range_add [of obj 0 ring "unat idx" ?q ?r] qr by simp
  then show ?thesis using copy_range_load [of pos "unat sz" "unat idx" "unat n" 0 obj ring] assms by simp
qed

lemma deq_wrap:
  fixes n idx sz :: u32
  assumes pos: "pos mod unat sz = unat idx" and "idx < sz" "unat sz \<le> unat idx + unat n" "unat n \<le> unat sz"
    and "unat n \<le> length obj"
  shows "(case for_to_end (deq1 ring) sz 0 idx obj of
      (i, obj') \<Rightarrow> for_from_start (deq1 ring) (unat n) i 0 obj')
    = ring_load (unat sz) pos ring (unat n) @ drop (unat n) obj"
proof -
  let ?a = "unat sz - unat idx"
  let ?b = "unat n - ?a"
  have lt: "unat idx < unat sz" using assms(2) by (simp add: word_less_nat_alt)
  have ab: "?a + ?b = unat n" using assms lt by simp
  have "for_to_end (deq1 ring) sz 0 idx obj = (?a, copy_range obj 0 ring (unat idx) ?a)"
    using deq_copy.for_to_end_copy [OF deq1_copy, of idx sz ring 0 obj]
      less_imp_le [OF assms(2)] by simp
  moreover have "for_from_start (deq1 ring) (unat n) ?a 0 r = copy_range r ?a ring 0 ?b" for r
    using deq_copy.for_from_start_copy [OF deq1_copy, of 0 "unat n" ?a ring r]
      unsigned_less [of n, where ?'a = nat] by simp
  moreover have "copy_range obj 0 ring (unat idx) ?a = ring_load (unat sz) pos ring ?a @ drop ?a obj"
    using copy_range_load [of pos "unat sz" "unat idx" ?a 0 obj ring] assms lt by simp
  moreover have "copy_range r ?a ring 0 ?b
      = take ?a r @ ring_load (unat sz) (pos + ?a) ring ?b @ drop (?a + ?b) r" if "length r = length obj" for r
  proof -
    have "(pos + ?a) mod unat sz = (unat idx + ?a) mod unat sz"
      using pos lt by (intro mod_add_cong) simp_all
    then have "(pos + ?a) mod unat sz = 0" using lt by simp
    then show ?thesis
      using copy_range_load [of "pos + ?a" "unat sz" 0 ?b ?a r ring] assms lt that ab by simp
  qed
  moreover have "length (ring_load (unat sz) pos ring ?a @ drop ?a obj) = length obj"
    using assms(5) ab by simp
  ultimately show ?thesis
    using ring_load_add [of "unat sz" pos ring ?a ?b] ab by simp
qed

section \<open>Every copy routine is the reference copy\<close>

lemma slot_index:
  fixes h :: u32
  assumes "sz = 2 ^ k" "k < 32"
  shows "unat (h AND (sz - 1)) = unat h mod unat sz" and "unat sz = 2 ^ k" and "sz - 1 = mask k"
proof -
  show m: "sz - 1 = mask k" using assms by (simp add: mask_eq_exp_minus_1)
  have "(2 :: nat) ^ k < 2 ^ 32" using assms(2) by (rule power_strict_increasing) simp
  moreover have "sz = of_nat (2 ^ k)" using assms(1) by simp
  ultimately show sz: "unat sz = 2 ^ k" by (simp only: unat_of_nat) simp
  show "unat (h AND (sz - 1)) = unat h mod unat sz" by (simp only: m sz unat_and_mask)
qed

lemma slot_below:
  fixes h :: u32
  assumes "sz = 2 ^ k" "k < 32"
  shows "h AND (sz - 1) < sz"
  using slot_index [OF assms] by (simp add: word_less_nat_alt)

lemma branch_nat:
  fixes idx n sz :: u32
  assumes "unat idx + unat n < 2 ^ 32"
  shows "idx + n < sz \<longleftrightarrow> unat idx + unat n < unat sz"
  using assms by (simp add: word_less_nat_alt unat_word_ariths)

lemma rte_ring_enqueue_elems_32_store:
  assumes "idx < sz" "n \<le> sz" "unat idx + unat n < 2 ^ 32" "unat n \<le> length obj"
  shows "rte_ring_enqueue_elems_32 sz idx ring obj n
    = ring_store (unat sz) (unat idx) ring (take (unat n) obj)"
proof -
  have pos: "unat idx mod unat sz = unat idx" using assms(1) by (simp add: word_less_nat_alt)
  have seven: "(7 :: u32) = mask 3" by (simp add: mask_eq_exp_minus_1)
  show ?thesis
    unfolding rte_ring_enqueue_elems_32_def branch_nat [OF assms(3)]
    using enq_straight [OF pos _ assms(4) seven _ enq8_copy assms(3), of ring]
      enq_wrap [OF pos assms(1) _ _ assms(4), of ring] assms(2,3)
    by (simp add: word_le_nat_alt)
qed

lemma rte_ring_enqueue_elems_64_store:
  assumes sz: "sz = 2 ^ k" "k < 32" and "n \<le> sz" "unat (h AND (sz - 1)) + unat n < 2 ^ 32"
    and "unat n \<le> length obj"
  shows "rte_ring_enqueue_elems_64 sz (sz - 1) ring h obj n
    = ring_store (unat sz) (unat h) ring (take (unat n) obj)"
proof -
  have pos: "unat h mod unat sz = unat (h AND (sz - 1))" by (rule slot_index(1) [OF sz, symmetric])
  have three: "(3 :: u32) = mask 2" by (simp add: mask_eq_exp_minus_1)
  show ?thesis
    unfolding rte_ring_enqueue_elems_64_def Let_def branch_nat [OF assms(4)]
    using enq_straight [OF pos _ assms(5) three _ enq4_copy assms(4), of ring]
      enq_wrap [OF pos slot_below [OF sz] _ _ assms(5), of ring] assms(3,4)
    by (simp add: word_le_nat_alt)
qed

lemma rte_ring_enqueue_elems_128_store:
  assumes sz: "sz = 2 ^ k" "k < 32" and "n \<le> sz" "unat (h AND (sz - 1)) + unat n < 2 ^ 32"
    and "unat n \<le> length obj"
  shows "rte_ring_enqueue_elems_128 sz (sz - 1) ring h obj n
    = ring_store (unat sz) (unat h) ring (take (unat n) obj)"
proof -
  have pos: "unat h mod unat sz = unat (h AND (sz - 1))" by (rule slot_index(1) [OF sz, symmetric])
  have one: "(1 :: u32) = mask 1" by (simp add: mask_eq_exp_minus_1)
  show ?thesis
    unfolding rte_ring_enqueue_elems_128_def Let_def branch_nat [OF assms(4)]
    using enq_straight [OF pos _ assms(5) one _ enq2_copy assms(4), of ring]
      enq_wrap [OF pos slot_below [OF sz] _ _ assms(5), of ring] assms(3,4)
    by (simp add: word_le_nat_alt)
qed

lemma rte_ring_dequeue_elems_32_load:
  assumes "idx < sz" "n \<le> sz" "unat idx + unat n < 2 ^ 32" "unat n \<le> length obj"
  shows "rte_ring_dequeue_elems_32 sz idx ring obj n
    = ring_load (unat sz) (unat idx) ring (unat n) @ drop (unat n) obj"
proof -
  have pos: "unat idx mod unat sz = unat idx" using assms(1) by (simp add: word_less_nat_alt)
  have seven: "(7 :: u32) = mask 3" by (simp add: mask_eq_exp_minus_1)
  show ?thesis
    unfolding rte_ring_dequeue_elems_32_def branch_nat [OF assms(3)]
    using deq_straight [OF pos _ assms(4) seven _ deq8_copy assms(3), of ring]
      deq_wrap [OF pos assms(1) _ _ assms(4), of ring] assms(2,3)
    by (simp add: word_le_nat_alt)
qed

lemma rte_ring_dequeue_elems_64_load:
  assumes sz: "sz = 2 ^ k" "k < 32" and "n \<le> sz" "unat (h AND (sz - 1)) + unat n < 2 ^ 32"
    and "unat n \<le> length obj"
  shows "rte_ring_dequeue_elems_64 sz (sz - 1) ring h obj n
    = ring_load (unat sz) (unat h) ring (unat n) @ drop (unat n) obj"
proof -
  have pos: "unat h mod unat sz = unat (h AND (sz - 1))" by (rule slot_index(1) [OF sz, symmetric])
  have three: "(3 :: u32) = mask 2" by (simp add: mask_eq_exp_minus_1)
  show ?thesis
    unfolding rte_ring_dequeue_elems_64_def Let_def branch_nat [OF assms(4)]
    using deq_straight [OF pos _ assms(5) three _ deq4_copy assms(4), of ring]
      deq_wrap [OF pos slot_below [OF sz] _ _ assms(5), of ring] assms(3,4)
    by (simp add: word_le_nat_alt)
qed

lemma rte_ring_dequeue_elems_128_load:
  assumes sz: "sz = 2 ^ k" "k < 32" and "n \<le> sz" "unat (h AND (sz - 1)) + unat n < 2 ^ 32"
    and "unat n \<le> length obj"
  shows "rte_ring_dequeue_elems_128 sz (sz - 1) ring h obj n
    = ring_load (unat sz) (unat h) ring (unat n) @ drop (unat n) obj"
proof -
  have pos: "unat h mod unat sz = unat (h AND (sz - 1))" by (rule slot_index(1) [OF sz, symmetric])
  have one: "(1 :: u32) = mask 1" by (simp add: mask_eq_exp_minus_1)
  show ?thesis
    unfolding rte_ring_dequeue_elems_128_def Let_def branch_nat [OF assms(4)]
    using deq_straight [OF pos _ assms(5) one _ deq2_copy assms(4), of ring]
      deq_wrap [OF pos slot_below [OF sz] _ _ assms(5), of ring] assms(3,4)
    by (simp add: word_le_nat_alt)
qed

section \<open>Elements of several words\<close>

text \<open>Copying an element of \<open>w\<close> words word by word is copying it as one cell of the table
  that groups the words.\<close>

lemma scaled_position: "j < w \<Longrightarrow> (p * w + j) mod (S * w) = p mod S * w + j" for p w S j :: nat
proof -
  assume j: "j < w"
  have "p mod S * w + j < S * w" if "0 < S"
  proof -
    have "p mod S * w + j < p mod S * w + w" using j by simp
    also have "\<dots> = Suc (p mod S) * w" by simp
    also have "\<dots> \<le> S * w" using that by (intro mult_le_mono1) (simp add: Suc_leI)
    finally show ?thesis .
  qed
  moreover have "(p * w + j) mod (S * w) = (p mod S * w + j) mod (S * w)"
    by (metis mod_add_left_eq mult_mod_left)
  ultimately show ?thesis by (cases "S = 0") auto
qed

lemma copy_range_all:
  assumes "d + length x \<le> length mem"
  shows "copy_range mem d x 0 (length x) = take d mem @ x @ drop (d + length x) mem"
proof (rule nth_equalityI)
  fix i assume i: "i < length (copy_range mem d x 0 (length x))"
  consider "i < d" | "d \<le> i" "i < d + length x" | "d + length x \<le> i" by linarith
  then show "copy_range mem d x 0 (length x) ! i = (take d mem @ x @ drop (d + length x) mem) ! i"
    using i assms by cases (auto simp: nth_copy_range nth_append)
qed (use assms in simp)

lemma ring_store_one:
  assumes "length x = w" "0 < w" "length mem = S * w" "0 < S"
  shows "ring_store (S * w) (p * w) mem x = take (p mod S * w) mem @ x @ drop (p mod S * w + w) mem"
proof -
  let ?q = "p mod S * w"
  have pm: "p mod S < S" using assms by simp
  then have q: "?q + w \<le> S * w"
    by (metis Suc_leI mult_Suc mult_le_mono1 add.commute)
  have "p * w mod (S * w) = ?q" using scaled_position [of 0 w p S] assms(2) by simp
  then have "copy_range mem ?q x 0 w = ring_store (S * w) (p * w) mem x"
    using copy_range_store [of "p * w" "S * w" ?q w 0 x mem] q assms by simp
  moreover have "copy_range mem ?q x 0 w = take ?q mem @ x @ drop (?q + w) mem"
    using copy_range_all [of ?q x mem] q assms by simp
  ultimately show ?thesis by simp
qed

lemma ring_store_elems:
  assumes "0 < w" "0 < S" "length mem = S * w" "\<forall>x \<in> set xss. length x = w"
  shows "ring_store (S * w) (p * w) mem (concat xss) = concat (ring_store S p (chunks w mem) xss)"
  using assms(3,4)
proof (induction xss arbitrary: p mem)
  case Nil
  then show ?case using assms(1) by (simp add: concat_chunks)
next
  case (Cons x xss)
  let ?mem = "take (p mod S * w) mem @ x @ drop (p mod S * w + w) mem"
  have pm: "p mod S < length mem div w" using assms(1,2) Cons.prems by simp
  have upd: "?mem = concat ((chunks w mem)[p mod S := x])"
    using concat_chunks_update [OF assms(1) _ pm] Cons.prems by simp
  have "\<forall>y \<in> set ((chunks w mem)[p mod S := x]). length y = w"
    using Cons.prems set_update_subset_insert [of "chunks w mem" "p mod S" x]
    by (auto dest: chunks_elem_length)
  then have ch: "chunks w ?mem = (chunks w mem)[p mod S := x]"
    unfolding upd using assms(1) by (intro chunks_concat) auto
  have one: "ring_store (S * w) (p * w) mem x = ?mem"
    using ring_store_one [of x w mem S p] assms(1,2) Cons.prems by simp
  then have len: "length ?mem = S * w" using Cons.prems by (metis length_ring_store)
  have "ring_store (S * w) (Suc p * w) ?mem (concat xss)
      = concat (ring_store S (Suc p) (chunks w ?mem) xss)"
    using Cons.IH [OF len, of "Suc p"] Cons.prems by simp
  then show ?case using Cons.prems one ch by (simp add: ring_store_append add.commute)
qed

lemma ring_load_one:
  assumes "0 < w" "0 < S" "length mem = S * w"
  shows "ring_load (S * w) (p * w) mem w = chunks w mem ! (p mod S)"
proof -
  have q: "p mod S * w + w \<le> S * w"
    using assms(2) by (metis Suc_leI mod_less_divisor mult_Suc mult_le_mono1 add.commute)
  have "p mod S < length mem div w" using assms by simp
  then have "chunks w mem ! (p mod S) = take w (drop (p mod S * w) mem)" using assms(1) by (rule nth_chunks [rotated])
  then show ?thesis
    using q assms by (intro nth_equalityI) (auto simp: ring_load_def scaled_position)
qed

lemma ring_load_elems:
  assumes "0 < w" "0 < S" "length mem = S * w"
  shows "ring_load (S * w) (p * w) mem (n * w) = concat (ring_load S p (chunks w mem) n)"
proof (induction n arbitrary: p)
  case (Suc n)
  have "ring_load (S * w) (p * w) mem (Suc n * w)
      = ring_load (S * w) (p * w) mem w @ ring_load (S * w) (Suc p * w) mem (n * w)"
    using ring_load_add [of "S * w" "p * w" mem w "n * w"] by (simp add: add.commute)
  also have "\<dots> = chunks w mem ! (p mod S) @ concat (ring_load S (Suc p) (chunks w mem) n)"
    using Suc.IH [of "Suc p"] ring_load_one [OF assms] by simp
  also have "\<dots> = concat (ring_load S p (chunks w mem) (Suc n))"
    using ring_load_add [of S p "chunks w mem" 1 n] by (simp add: ring_load_def)
  finally show ?case .
qed simp

end
