(* ===== verification/Rte_Ring.thy ===== *)
theory Rte_Ring
  imports Rte_Ring_Elems
begin

text \<open>
  The ring of rte\_ring\_core.h and its operations for all four synchronisation modes
  (rte\_ring\_generic\_pvt.h, rte\_ring\_hts\_elem\_pvt.h, rte\_ring\_rts\_elem\_pvt.h, rte\_ring\_elem.h,
  rte\_ring.h), as one thread runs them: a compare-and-set acts on the value the same thread has
  just read. A wait on a value no other thread will change does not return, which is \<open>None\<close>.
  Memory barriers have no effect on one thread and are left out.
\<close>

section \<open>Data\<close>

datatype rte_ring_queue_behavior = RTE_RING_QUEUE_FIXED | RTE_RING_QUEUE_VARIABLE

datatype rte_ring_sync_type =
  RTE_RING_SYNC_MT | RTE_RING_SYNC_ST | RTE_RING_SYNC_MT_RTS | RTE_RING_SYNC_MT_HTS

text \<open>The union of the three head/tail layouts, one field per 32-bit cell: offset 0 is \<open>head\<close>,
  the HTS \<open>head\<close> and the RTS \<open>tail.cnt\<close>; offset 4 is \<open>tail\<close>, the HTS \<open>tail\<close> and
  the RTS \<open>tail.pos\<close>; the RTS head pair comes last.\<close>

record rte_ring_headtail =
  ht_head :: u32
  ht_tail :: u32
  ht_sync :: rte_ring_sync_type
  rts_htd_max :: u32
  rts_head_cnt :: u32
  rts_head_pos :: u32

abbreviation (input) rts_tail_cnt :: "rte_ring_headtail \<Rightarrow> u32" where "rts_tail_cnt \<equiv> ht_head"
abbreviation (input) rts_tail_pos :: "rte_ring_headtail \<Rightarrow> u32" where "rts_tail_pos \<equiv> ht_tail"

text \<open>The ring header and, in \<open>r_mem\<close>, the table of slots that follows it in memory. The
  name, the memzone and the padding play no part in any operation.\<close>

record rte_ring =
  r_flags :: int
  r_size :: u32
  r_mask :: u32
  r_capacity :: u32
  r_prod :: rte_ring_headtail
  r_cons :: rte_ring_headtail
  r_mem :: "u32 list"

section \<open>Copying elements\<close>

definition rte_ring_enqueue_elems :: "rte_ring \<Rightarrow> u32 \<Rightarrow> u32 list \<Rightarrow> u32 \<Rightarrow> u32 \<Rightarrow> rte_ring" where
  "rte_ring_enqueue_elems r prod_head obj esize num =
     (if esize = 8 then
        r\<lparr>r_mem := concat (rte_ring_enqueue_elems_64 (r_size r) (r_mask r) (chunks 2 (r_mem r))
             prod_head (chunks 2 obj) num)\<rparr>
      else if esize = 16 then
        r\<lparr>r_mem := concat (rte_ring_enqueue_elems_128 (r_size r) (r_mask r) (chunks 4 (r_mem r))
             prod_head (chunks 4 obj) num)\<rparr>
      else
        (let scale = esize div 4;
             nr_num = num * scale;
             idx = prod_head AND r_mask r;
             nr_idx = idx * scale;
             nr_size = r_size r * scale
         in r\<lparr>r_mem := rte_ring_enqueue_elems_32 nr_size nr_idx (r_mem r) obj nr_num\<rparr>))"

definition rte_ring_dequeue_elems :: "rte_ring \<Rightarrow> u32 \<Rightarrow> u32 list \<Rightarrow> u32 \<Rightarrow> u32 \<Rightarrow> u32 list" where
  "rte_ring_dequeue_elems r cons_head obj esize num =
     (if esize = 8 then
        concat (rte_ring_dequeue_elems_64 (r_size r) (r_mask r) (chunks 2 (r_mem r))
          cons_head (chunks 2 obj) num)
      else if esize = 16 then
        concat (rte_ring_dequeue_elems_128 (r_size r) (r_mask r) (chunks 4 (r_mem r))
          cons_head (chunks 4 obj) num)
      else
        (let scale = esize div 4;
             nr_num = num * scale;
             idx = cons_head AND r_mask r;
             nr_idx = idx * scale;
             nr_size = r_size r * scale
         in rte_ring_dequeue_elems_32 nr_size nr_idx (r_mem r) obj nr_num))"

section \<open>Moving the head\<close>

text \<open>The outcome of a head move: nothing moved (return value 0), or \<open>n\<close> slots claimed
  between the old and the new head; both carry the entries that were free (available).\<close>

datatype move = No_move u32 | Moved u32 u32 u32 u32

definition rte_atomic32_cmpset :: "u32 \<Rightarrow> u32 \<Rightarrow> u32 \<Rightarrow> bool \<times> u32" where
  "rte_atomic32_cmpset dst exp src = (if dst = exp then (True, src) else (False, dst))"

definition clip :: "rte_ring_queue_behavior \<Rightarrow> u32 \<Rightarrow> u32 \<Rightarrow> u32" where
  "clip behavior n entries =
     (if n > entries then (if behavior = RTE_RING_QUEUE_FIXED then 0 else entries) else n)"

function rte_ring_move_prod_head ::
    "rte_ring \<Rightarrow> bool \<Rightarrow> u32 \<Rightarrow> rte_ring_queue_behavior \<Rightarrow> move \<times> rte_ring" where
  "rte_ring_move_prod_head r is_sp max_n behavior =
     (let old_head = ht_head (r_prod r);
          free_entries = r_capacity r + ht_tail (r_cons r) - old_head;
          n = clip behavior max_n free_entries
      in if n = 0 then (No_move free_entries, r)
         else
           (let new_head = old_head + n;
                (success, head') =
                  (if is_sp then (True, new_head)
                   else rte_atomic32_cmpset (ht_head (r_prod r)) old_head new_head);
                r' = r\<lparr>r_prod := (r_prod r)\<lparr>ht_head := head'\<rparr>\<rparr>
            in if success then (Moved n old_head new_head free_entries, r')
               else rte_ring_move_prod_head r' is_sp max_n behavior))"
  by pat_completeness auto
termination
  by (relation "measure (\<lambda>_. 0)") (auto simp: rte_atomic32_cmpset_def split: if_splits)

function rte_ring_move_cons_head ::
    "rte_ring \<Rightarrow> bool \<Rightarrow> u32 \<Rightarrow> rte_ring_queue_behavior \<Rightarrow> move \<times> rte_ring" where
  "rte_ring_move_cons_head r is_sc max_n behavior =
     (let old_head = ht_head (r_cons r);
          entries = ht_tail (r_prod r) - old_head;
          n = clip behavior max_n entries
      in if n = 0 then (No_move entries, r)
         else
           (let new_head = old_head + n;
                (success, head') =
                  (if is_sc then (True, new_head)
                   else rte_atomic32_cmpset (ht_head (r_cons r)) old_head new_head);
                r' = r\<lparr>r_cons := (r_cons r)\<lparr>ht_head := head'\<rparr>\<rparr>
            in if success then (Moved n old_head new_head entries, r')
               else rte_ring_move_cons_head r' is_sc max_n behavior))"
  by pat_completeness auto
termination
  by (relation "measure (\<lambda>_. 0)") (auto simp: rte_atomic32_cmpset_def split: if_splits)

declare rte_ring_move_prod_head.simps [simp del] rte_ring_move_cons_head.simps [simp del]

definition rte_ring_update_tail ::
    "rte_ring_headtail \<Rightarrow> u32 \<Rightarrow> u32 \<Rightarrow> bool \<Rightarrow> rte_ring_headtail option" where
  "rte_ring_update_tail ht old_val new_val single =
     (if \<not> single \<and> ht_tail ht \<noteq> old_val then None else Some (ht\<lparr>ht_tail := new_val\<rparr>))"

text \<open>The C11 variants (rte\_ring\_c11\_pvt.h): the head is read once before the loop and a failed
  compare-exchange reloads it.\<close>

definition atomic_compare_exchange_n :: "'a \<Rightarrow> 'a \<Rightarrow> 'a \<Rightarrow> bool \<times> 'a \<times> 'a" where
  \<comment> \<open>the result, the new value of the cell, the new value of the expected variable\<close>
  "atomic_compare_exchange_n cell expected desired =
     (if cell = expected then (True, desired, expected) else (False, cell, cell))"

function c11_move_prod_loop ::
    "rte_ring \<Rightarrow> bool \<Rightarrow> u32 \<Rightarrow> rte_ring_queue_behavior \<Rightarrow> u32 \<Rightarrow> move \<times> rte_ring" where
  "c11_move_prod_loop r is_sp max_n behavior old_head =
     (let cons_tail = ht_tail (r_cons r);
          free_entries = r_capacity r + cons_tail - old_head;
          n = clip behavior max_n free_entries
      in if n = 0 then (No_move free_entries, r)
         else
           (let new_head = old_head + n;
                (success, head', old') =
                  (if is_sp then (True, new_head, old_head)
                   else atomic_compare_exchange_n (ht_head (r_prod r)) old_head new_head);
                r' = r\<lparr>r_prod := (r_prod r)\<lparr>ht_head := head'\<rparr>\<rparr>
            in if success then (Moved n old_head new_head free_entries, r')
               else c11_move_prod_loop r' is_sp max_n behavior old'))"
  by pat_completeness auto
termination
  by (relation "measure (\<lambda>(r, _, _, _, old). if ht_head (r_prod r) = old then 0 else 1)")
    (auto simp: atomic_compare_exchange_n_def split: if_splits)

definition c11_move_prod_head ::
    "rte_ring \<Rightarrow> bool \<Rightarrow> u32 \<Rightarrow> rte_ring_queue_behavior \<Rightarrow> move \<times> rte_ring" where
  "c11_move_prod_head r is_sp n behavior = c11_move_prod_loop r is_sp n behavior (ht_head (r_prod r))"

function c11_move_cons_loop ::
    "rte_ring \<Rightarrow> bool \<Rightarrow> u32 \<Rightarrow> rte_ring_queue_behavior \<Rightarrow> u32 \<Rightarrow> move \<times> rte_ring" where
  "c11_move_cons_loop r is_sc max_n behavior old_head =
     (let prod_tail = ht_tail (r_prod r);
          entries = prod_tail - old_head;
          n = clip behavior max_n entries
      in if n = 0 then (No_move entries, r)
         else
           (let new_head = old_head + n;
                (success, head', old') =
                  (if is_sc then (True, new_head, old_head)
                   else atomic_compare_exchange_n (ht_head (r_cons r)) old_head new_head);
                r' = r\<lparr>r_cons := (r_cons r)\<lparr>ht_head := head'\<rparr>\<rparr>
            in if success then (Moved n old_head new_head entries, r')
               else c11_move_cons_loop r' is_sc max_n behavior old'))"
  by pat_completeness auto
termination
  by (relation "measure (\<lambda>(r, _, _, _, old). if ht_head (r_cons r) = old then 0 else 1)")
    (auto simp: atomic_compare_exchange_n_def split: if_splits)

definition c11_move_cons_head ::
    "rte_ring \<Rightarrow> bool \<Rightarrow> u32 \<Rightarrow> rte_ring_queue_behavior \<Rightarrow> move \<times> rte_ring" where
  "c11_move_cons_head r is_sc n behavior = c11_move_cons_loop r is_sc n behavior (ht_head (r_cons r))"

definition c11_update_tail ::
    "rte_ring_headtail \<Rightarrow> u32 \<Rightarrow> u32 \<Rightarrow> bool \<Rightarrow> rte_ring_headtail option" where
  "c11_update_tail ht old_val new_val single =
     (if \<not> single \<and> ht_tail ht \<noteq> old_val then None else Some (ht\<lparr>ht_tail := new_val\<rparr>))"

declare c11_move_prod_loop.simps [simp del] c11_move_cons_loop.simps [simp del]

section \<open>Single- and multi-thread enqueue and dequeue\<close>

text \<open>The results: the number of objects moved, the value stored through \<open>free_space\<close>
  (\<open>available\<close>), and the ring, with the object table for a dequeue.\<close>

definition rte_ring_do_enqueue_elem ::
    "rte_ring \<Rightarrow> u32 list \<Rightarrow> u32 \<Rightarrow> u32 \<Rightarrow> rte_ring_queue_behavior \<Rightarrow> bool \<Rightarrow> (u32 \<times> u32 \<times> rte_ring) option" where
  "rte_ring_do_enqueue_elem r obj esize n behavior is_sp =
     (case rte_ring_move_prod_head r is_sp n behavior of
        (No_move free_entries, r1) \<Rightarrow> Some (0, free_entries - 0, r1)
      | (Moved n' prod_head prod_next free_entries, r1) \<Rightarrow>
          (let r2 = rte_ring_enqueue_elems r1 prod_head obj esize n'
           in case rte_ring_update_tail (r_prod r2) prod_head prod_next is_sp of
                None \<Rightarrow> None
              | Some ht \<Rightarrow> Some (n', free_entries - n', r2\<lparr>r_prod := ht\<rparr>)))"

definition rte_ring_do_dequeue_elem ::
    "rte_ring \<Rightarrow> u32 list \<Rightarrow> u32 \<Rightarrow> u32 \<Rightarrow> rte_ring_queue_behavior \<Rightarrow> bool
      \<Rightarrow> (u32 \<times> u32 \<times> u32 list \<times> rte_ring) option" where
  "rte_ring_do_dequeue_elem r obj esize n behavior is_sc =
     (case rte_ring_move_cons_head r is_sc n behavior of
        (No_move entries, r1) \<Rightarrow> Some (0, entries - 0, obj, r1)
      | (Moved n' cons_head cons_next entries, r1) \<Rightarrow>
          (let obj' = rte_ring_dequeue_elems r1 cons_head obj esize n'
           in case rte_ring_update_tail (r_cons r1) cons_head cons_next is_sc of
                None \<Rightarrow> None
              | Some ht \<Rightarrow> Some (n', entries - n', obj', r1\<lparr>r_cons := ht\<rparr>)))"

section \<open>Head/tail synchronised mode\<close>

partial_function (option) rte_ring_hts_head_wait ::
    "rte_ring_headtail \<Rightarrow> u32 \<times> u32 \<Rightarrow> (u32 \<times> u32) option" where
  "rte_ring_hts_head_wait ht p =
     (if fst p \<noteq> snd p then rte_ring_hts_head_wait ht (ht_head ht, ht_tail ht) else Some p)"

text \<open>The loop of the HTS head moves over the pair read last; the result is the number of
  slots claimed, the old head, the free (available) entries and the ring.\<close>

partial_function (option) hts_prod_loop ::
    "rte_ring \<Rightarrow> u32 \<Rightarrow> rte_ring_queue_behavior \<Rightarrow> u32 \<times> u32 \<Rightarrow> (u32 \<times> u32 \<times> u32 \<times> rte_ring) option" where
  "hts_prod_loop r num behavior p =
     Option.bind (rte_ring_hts_head_wait (r_prod r) p) (\<lambda>op.
       let free_entries = r_capacity r + ht_tail (r_cons r) - fst op;
           n = clip behavior num free_entries
       in if n = 0 then Some (0, fst op, free_entries, r)
          else
            (let np = (fst op + n, snd op);
                 cx = atomic_compare_exchange_n (ht_head (r_prod r), ht_tail (r_prod r)) op np;
                 r' = r\<lparr>r_prod := (r_prod r)\<lparr>ht_head := fst (fst (snd cx)), ht_tail := snd (fst (snd cx))\<rparr>\<rparr>
             in if fst cx then Some (n, fst op, free_entries, r')
                else hts_prod_loop r' num behavior (snd (snd cx))))"

definition rte_ring_hts_move_prod_head ::
    "rte_ring \<Rightarrow> u32 \<Rightarrow> rte_ring_queue_behavior \<Rightarrow> (u32 \<times> u32 \<times> u32 \<times> rte_ring) option" where
  "rte_ring_hts_move_prod_head r num behavior =
     hts_prod_loop r num behavior (ht_head (r_prod r), ht_tail (r_prod r))"

partial_function (option) hts_cons_loop ::
    "rte_ring \<Rightarrow> u32 \<Rightarrow> rte_ring_queue_behavior \<Rightarrow> u32 \<times> u32 \<Rightarrow> (u32 \<times> u32 \<times> u32 \<times> rte_ring) option" where
  "hts_cons_loop r num behavior p =
     Option.bind (rte_ring_hts_head_wait (r_cons r) p) (\<lambda>op.
       let entries = ht_tail (r_prod r) - fst op;
           n = clip behavior num entries
       in if n = 0 then Some (0, fst op, entries, r)
          else
            (let np = (fst op + n, snd op);
                 cx = atomic_compare_exchange_n (ht_head (r_cons r), ht_tail (r_cons r)) op np;
                 r' = r\<lparr>r_cons := (r_cons r)\<lparr>ht_head := fst (fst (snd cx)), ht_tail := snd (fst (snd cx))\<rparr>\<rparr>
             in if fst cx then Some (n, fst op, entries, r')
                else hts_cons_loop r' num behavior (snd (snd cx))))"

definition rte_ring_hts_move_cons_head ::
    "rte_ring \<Rightarrow> u32 \<Rightarrow> rte_ring_queue_behavior \<Rightarrow> (u32 \<times> u32 \<times> u32 \<times> rte_ring) option" where
  "rte_ring_hts_move_cons_head r num behavior =
     hts_cons_loop r num behavior (ht_head (r_cons r), ht_tail (r_cons r))"

definition rte_ring_hts_update_tail :: "rte_ring_headtail \<Rightarrow> u32 \<Rightarrow> u32 \<Rightarrow> rte_ring_headtail" where
  "rte_ring_hts_update_tail ht old_tail num = (let tail = old_tail + num in ht\<lparr>ht_tail := tail\<rparr>)"

definition rte_ring_do_hts_enqueue_elem ::
    "rte_ring \<Rightarrow> u32 list \<Rightarrow> u32 \<Rightarrow> u32 \<Rightarrow> rte_ring_queue_behavior \<Rightarrow> (u32 \<times> u32 \<times> rte_ring) option" where
  "rte_ring_do_hts_enqueue_elem r obj esize n behavior =
     (case rte_ring_hts_move_prod_head r n behavior of
        None \<Rightarrow> None
      | Some (n', head, free, r1) \<Rightarrow>
          (let r2 = (if n' \<noteq> 0 then
                       (let r' = rte_ring_enqueue_elems r1 head obj esize n'
                        in r'\<lparr>r_prod := rte_ring_hts_update_tail (r_prod r') head n'\<rparr>)
                     else r1)
           in Some (n', free - n', r2)))"

definition rte_ring_do_hts_dequeue_elem ::
    "rte_ring \<Rightarrow> u32 list \<Rightarrow> u32 \<Rightarrow> u32 \<Rightarrow> rte_ring_queue_behavior
      \<Rightarrow> (u32 \<times> u32 \<times> u32 list \<times> rte_ring) option" where
  "rte_ring_do_hts_dequeue_elem r obj esize n behavior =
     (case rte_ring_hts_move_cons_head r n behavior of
        None \<Rightarrow> None
      | Some (n', head, entries, r1) \<Rightarrow>
          (if n' \<noteq> 0 then
             Some (n', entries - n', rte_ring_dequeue_elems r1 head obj esize n',
                   r1\<lparr>r_cons := rte_ring_hts_update_tail (r_cons r1) head n'\<rparr>)
           else Some (n', entries - n', obj, r1)))"

section \<open>Relaxed tail synchronised mode\<close>

text \<open>Head and tail carry a counter; the last finished operation publishes the head.\<close>

function rts_tail_loop :: "rte_ring_headtail \<Rightarrow> u32 \<times> u32 \<Rightarrow> rte_ring_headtail" where
  "rts_tail_loop ht ot =
     (let h = (rts_head_cnt ht, rts_head_pos ht);
          cnt = fst ot + 1;
          nt = (if cnt = fst h then (cnt, snd h) else (cnt, snd ot));
          (success, cell, ot') = atomic_compare_exchange_n (rts_tail_cnt ht, rts_tail_pos ht) ot nt;
          ht' = ht\<lparr>ht_head := fst cell, ht_tail := snd cell\<rparr>
      in if success then ht' else rts_tail_loop ht' ot')"
  by pat_completeness auto
termination
  by (relation "measure (\<lambda>(ht, ot). if (rts_tail_cnt ht, rts_tail_pos ht) = ot then 0 else 1)")
    (auto simp: atomic_compare_exchange_n_def split: if_splits)

definition rte_ring_rts_update_tail :: "rte_ring_headtail \<Rightarrow> rte_ring_headtail" where
  "rte_ring_rts_update_tail ht = rts_tail_loop ht (rts_tail_cnt ht, rts_tail_pos ht)"

partial_function (option) rte_ring_rts_head_wait ::
    "rte_ring_headtail \<Rightarrow> u32 \<times> u32 \<Rightarrow> (u32 \<times> u32) option" where
  "rte_ring_rts_head_wait ht h =
     (if snd h - rts_tail_pos ht > rts_htd_max ht
      then rte_ring_rts_head_wait ht (rts_head_cnt ht, rts_head_pos ht) else Some h)"

partial_function (option) rts_prod_loop ::
    "rte_ring \<Rightarrow> u32 \<Rightarrow> rte_ring_queue_behavior \<Rightarrow> u32 \<times> u32 \<Rightarrow> (u32 \<times> u32 \<times> u32 \<times> rte_ring) option" where
  "rts_prod_loop r num behavior h =
     Option.bind (rte_ring_rts_head_wait (r_prod r) h) (\<lambda>oh.
       let free_entries = r_capacity r + ht_tail (r_cons r) - snd oh;
           n = clip behavior num free_entries
       in if n = 0 then Some (0, snd oh, free_entries, r)
          else
            (let nh = (fst oh + 1, snd oh + n);
                 cx = atomic_compare_exchange_n (rts_head_cnt (r_prod r), rts_head_pos (r_prod r)) oh nh;
                 r' = r\<lparr>r_prod := (r_prod r)\<lparr>rts_head_cnt := fst (fst (snd cx)),
                                            rts_head_pos := snd (fst (snd cx))\<rparr>\<rparr>
             in if fst cx then Some (n, snd oh, free_entries, r')
                else rts_prod_loop r' num behavior (snd (snd cx))))"

definition rte_ring_rts_move_prod_head ::
    "rte_ring \<Rightarrow> u32 \<Rightarrow> rte_ring_queue_behavior \<Rightarrow> (u32 \<times> u32 \<times> u32 \<times> rte_ring) option" where
  "rte_ring_rts_move_prod_head r num behavior =
     rts_prod_loop r num behavior (rts_head_cnt (r_prod r), rts_head_pos (r_prod r))"

partial_function (option) rts_cons_loop ::
    "rte_ring \<Rightarrow> u32 \<Rightarrow> rte_ring_queue_behavior \<Rightarrow> u32 \<times> u32 \<Rightarrow> (u32 \<times> u32 \<times> u32 \<times> rte_ring) option" where
  "rts_cons_loop r num behavior h =
     Option.bind (rte_ring_rts_head_wait (r_cons r) h) (\<lambda>oh.
       let entries = ht_tail (r_prod r) - snd oh;
           n = clip behavior num entries
       in if n = 0 then Some (0, snd oh, entries, r)
          else
            (let nh = (fst oh + 1, snd oh + n);
                 cx = atomic_compare_exchange_n (rts_head_cnt (r_cons r), rts_head_pos (r_cons r)) oh nh;
                 r' = r\<lparr>r_cons := (r_cons r)\<lparr>rts_head_cnt := fst (fst (snd cx)),
                                            rts_head_pos := snd (fst (snd cx))\<rparr>\<rparr>
             in if fst cx then Some (n, snd oh, entries, r')
                else rts_cons_loop r' num behavior (snd (snd cx))))"

definition rte_ring_rts_move_cons_head ::
    "rte_ring \<Rightarrow> u32 \<Rightarrow> rte_ring_queue_behavior \<Rightarrow> (u32 \<times> u32 \<times> u32 \<times> rte_ring) option" where
  "rte_ring_rts_move_cons_head r num behavior =
     rts_cons_loop r num behavior (rts_head_cnt (r_cons r), rts_head_pos (r_cons r))"

definition rte_ring_do_rts_enqueue_elem ::
    "rte_ring \<Rightarrow> u32 list \<Rightarrow> u32 \<Rightarrow> u32 \<Rightarrow> rte_ring_queue_behavior \<Rightarrow> (u32 \<times> u32 \<times> rte_ring) option" where
  "rte_ring_do_rts_enqueue_elem r obj esize n behavior =
     (case rte_ring_rts_move_prod_head r n behavior of
        None \<Rightarrow> None
      | Some (n', head, free, r1) \<Rightarrow>
          (let r2 = (if n' \<noteq> 0 then
                       (let r' = rte_ring_enqueue_elems r1 head obj esize n'
                        in r'\<lparr>r_prod := rte_ring_rts_update_tail (r_prod r')\<rparr>)
                     else r1)
           in Some (n', free - n', r2)))"

definition rte_ring_do_rts_dequeue_elem ::
    "rte_ring \<Rightarrow> u32 list \<Rightarrow> u32 \<Rightarrow> u32 \<Rightarrow> rte_ring_queue_behavior
      \<Rightarrow> (u32 \<times> u32 \<times> u32 list \<times> rte_ring) option" where
  "rte_ring_do_rts_dequeue_elem r obj esize n behavior =
     (case rte_ring_rts_move_cons_head r n behavior of
        None \<Rightarrow> None
      | Some (n', head, entries, r1) \<Rightarrow>
          (if n' \<noteq> 0 then
             Some (n', entries - n', rte_ring_dequeue_elems r1 head obj esize n',
                   r1\<lparr>r_cons := rte_ring_rts_update_tail (r_cons r1)\<rparr>)
           else Some (n', entries - n', obj, r1)))"

declare rts_tail_loop.simps [simp del]

end
