(* ===== verification/Rte_Ring_Api.thy ===== *)
theory Rte_Ring_Api
  imports Rte_Ring
begin

text \<open>
  The public functions of rte\_ring\_elem.h, rte\_ring\_hts.h, rte\_ring\_rts.h and rte\_ring.h, one
  definition each: bulk (all or nothing) and burst (as many as possible) calls for every
  synchronisation mode, the dispatch on the mode stored in the ring, single-object calls, the
  pointer versions and the inspection functions.
\<close>

section \<open>Objects of any size\<close>

definition rte_ring_mp_enqueue_bulk_elem :: "rte_ring \<Rightarrow> u32 list \<Rightarrow> u32 \<Rightarrow> u32 \<Rightarrow> (u32 \<times> u32 \<times> rte_ring) option" where
  "rte_ring_mp_enqueue_bulk_elem r obj esize n =
     rte_ring_do_enqueue_elem r obj esize n RTE_RING_QUEUE_FIXED False"

definition rte_ring_sp_enqueue_bulk_elem :: "rte_ring \<Rightarrow> u32 list \<Rightarrow> u32 \<Rightarrow> u32 \<Rightarrow> (u32 \<times> u32 \<times> rte_ring) option" where
  "rte_ring_sp_enqueue_bulk_elem r obj esize n =
     rte_ring_do_enqueue_elem r obj esize n RTE_RING_QUEUE_FIXED True"

definition rte_ring_mp_hts_enqueue_bulk_elem :: "rte_ring \<Rightarrow> u32 list \<Rightarrow> u32 \<Rightarrow> u32 \<Rightarrow> (u32 \<times> u32 \<times> rte_ring) option" where
  "rte_ring_mp_hts_enqueue_bulk_elem r obj esize n =
     rte_ring_do_hts_enqueue_elem r obj esize n RTE_RING_QUEUE_FIXED"

definition rte_ring_mp_rts_enqueue_bulk_elem :: "rte_ring \<Rightarrow> u32 list \<Rightarrow> u32 \<Rightarrow> u32 \<Rightarrow> (u32 \<times> u32 \<times> rte_ring) option" where
  "rte_ring_mp_rts_enqueue_bulk_elem r obj esize n =
     rte_ring_do_rts_enqueue_elem r obj esize n RTE_RING_QUEUE_FIXED"

definition rte_ring_enqueue_bulk_elem :: "rte_ring \<Rightarrow> u32 list \<Rightarrow> u32 \<Rightarrow> u32 \<Rightarrow> (u32 \<times> u32 \<times> rte_ring) option" where
  "rte_ring_enqueue_bulk_elem r obj esize n =
     (case ht_sync (r_prod r) of
        RTE_RING_SYNC_MT \<Rightarrow> rte_ring_mp_enqueue_bulk_elem r obj esize n
      | RTE_RING_SYNC_ST \<Rightarrow> rte_ring_sp_enqueue_bulk_elem r obj esize n
      | RTE_RING_SYNC_MT_RTS \<Rightarrow> rte_ring_mp_rts_enqueue_bulk_elem r obj esize n
      | RTE_RING_SYNC_MT_HTS \<Rightarrow> rte_ring_mp_hts_enqueue_bulk_elem r obj esize n)"

definition rte_ring_mc_dequeue_bulk_elem :: "rte_ring \<Rightarrow> u32 list \<Rightarrow> u32 \<Rightarrow> u32 \<Rightarrow> (u32 \<times> u32 \<times> u32 list \<times> rte_ring) option" where
  "rte_ring_mc_dequeue_bulk_elem r obj esize n =
     rte_ring_do_dequeue_elem r obj esize n RTE_RING_QUEUE_FIXED False"

definition rte_ring_sc_dequeue_bulk_elem :: "rte_ring \<Rightarrow> u32 list \<Rightarrow> u32 \<Rightarrow> u32 \<Rightarrow> (u32 \<times> u32 \<times> u32 list \<times> rte_ring) option" where
  "rte_ring_sc_dequeue_bulk_elem r obj esize n =
     rte_ring_do_dequeue_elem r obj esize n RTE_RING_QUEUE_FIXED True"

definition rte_ring_mc_hts_dequeue_bulk_elem :: "rte_ring \<Rightarrow> u32 list \<Rightarrow> u32 \<Rightarrow> u32 \<Rightarrow> (u32 \<times> u32 \<times> u32 list \<times> rte_ring) option" where
  "rte_ring_mc_hts_dequeue_bulk_elem r obj esize n =
     rte_ring_do_hts_dequeue_elem r obj esize n RTE_RING_QUEUE_FIXED"

definition rte_ring_mc_rts_dequeue_bulk_elem :: "rte_ring \<Rightarrow> u32 list \<Rightarrow> u32 \<Rightarrow> u32 \<Rightarrow> (u32 \<times> u32 \<times> u32 list \<times> rte_ring) option" where
  "rte_ring_mc_rts_dequeue_bulk_elem r obj esize n =
     rte_ring_do_rts_dequeue_elem r obj esize n RTE_RING_QUEUE_FIXED"

definition rte_ring_dequeue_bulk_elem :: "rte_ring \<Rightarrow> u32 list \<Rightarrow> u32 \<Rightarrow> u32 \<Rightarrow> (u32 \<times> u32 \<times> u32 list \<times> rte_ring) option" where
  "rte_ring_dequeue_bulk_elem r obj esize n =
     (case ht_sync (r_cons r) of
        RTE_RING_SYNC_MT \<Rightarrow> rte_ring_mc_dequeue_bulk_elem r obj esize n
      | RTE_RING_SYNC_ST \<Rightarrow> rte_ring_sc_dequeue_bulk_elem r obj esize n
      | RTE_RING_SYNC_MT_RTS \<Rightarrow> rte_ring_mc_rts_dequeue_bulk_elem r obj esize n
      | RTE_RING_SYNC_MT_HTS \<Rightarrow> rte_ring_mc_hts_dequeue_bulk_elem r obj esize n)"

definition rte_ring_mp_enqueue_burst_elem :: "rte_ring \<Rightarrow> u32 list \<Rightarrow> u32 \<Rightarrow> u32 \<Rightarrow> (u32 \<times> u32 \<times> rte_ring) option" where
  "rte_ring_mp_enqueue_burst_elem r obj esize n =
     rte_ring_do_enqueue_elem r obj esize n RTE_RING_QUEUE_VARIABLE False"

definition rte_ring_sp_enqueue_burst_elem :: "rte_ring \<Rightarrow> u32 list \<Rightarrow> u32 \<Rightarrow> u32 \<Rightarrow> (u32 \<times> u32 \<times> rte_ring) option" where
  "rte_ring_sp_enqueue_burst_elem r obj esize n =
     rte_ring_do_enqueue_elem r obj esize n RTE_RING_QUEUE_VARIABLE True"

definition rte_ring_mp_hts_enqueue_burst_elem :: "rte_ring \<Rightarrow> u32 list \<Rightarrow> u32 \<Rightarrow> u32 \<Rightarrow> (u32 \<times> u32 \<times> rte_ring) option" where
  "rte_ring_mp_hts_enqueue_burst_elem r obj esize n =
     rte_ring_do_hts_enqueue_elem r obj esize n RTE_RING_QUEUE_VARIABLE"

definition rte_ring_mp_rts_enqueue_burst_elem :: "rte_ring \<Rightarrow> u32 list \<Rightarrow> u32 \<Rightarrow> u32 \<Rightarrow> (u32 \<times> u32 \<times> rte_ring) option" where
  "rte_ring_mp_rts_enqueue_burst_elem r obj esize n =
     rte_ring_do_rts_enqueue_elem r obj esize n RTE_RING_QUEUE_VARIABLE"

definition rte_ring_enqueue_burst_elem :: "rte_ring \<Rightarrow> u32 list \<Rightarrow> u32 \<Rightarrow> u32 \<Rightarrow> (u32 \<times> u32 \<times> rte_ring) option" where
  "rte_ring_enqueue_burst_elem r obj esize n =
     (case ht_sync (r_prod r) of
        RTE_RING_SYNC_MT \<Rightarrow> rte_ring_mp_enqueue_burst_elem r obj esize n
      | RTE_RING_SYNC_ST \<Rightarrow> rte_ring_sp_enqueue_burst_elem r obj esize n
      | RTE_RING_SYNC_MT_RTS \<Rightarrow> rte_ring_mp_rts_enqueue_burst_elem r obj esize n
      | RTE_RING_SYNC_MT_HTS \<Rightarrow> rte_ring_mp_hts_enqueue_burst_elem r obj esize n)"

definition rte_ring_mc_dequeue_burst_elem :: "rte_ring \<Rightarrow> u32 list \<Rightarrow> u32 \<Rightarrow> u32 \<Rightarrow> (u32 \<times> u32 \<times> u32 list \<times> rte_ring) option" where
  "rte_ring_mc_dequeue_burst_elem r obj esize n =
     rte_ring_do_dequeue_elem r obj esize n RTE_RING_QUEUE_VARIABLE False"

definition rte_ring_sc_dequeue_burst_elem :: "rte_ring \<Rightarrow> u32 list \<Rightarrow> u32 \<Rightarrow> u32 \<Rightarrow> (u32 \<times> u32 \<times> u32 list \<times> rte_ring) option" where
  "rte_ring_sc_dequeue_burst_elem r obj esize n =
     rte_ring_do_dequeue_elem r obj esize n RTE_RING_QUEUE_VARIABLE True"

definition rte_ring_mc_hts_dequeue_burst_elem :: "rte_ring \<Rightarrow> u32 list \<Rightarrow> u32 \<Rightarrow> u32 \<Rightarrow> (u32 \<times> u32 \<times> u32 list \<times> rte_ring) option" where
  "rte_ring_mc_hts_dequeue_burst_elem r obj esize n =
     rte_ring_do_hts_dequeue_elem r obj esize n RTE_RING_QUEUE_VARIABLE"

definition rte_ring_mc_rts_dequeue_burst_elem :: "rte_ring \<Rightarrow> u32 list \<Rightarrow> u32 \<Rightarrow> u32 \<Rightarrow> (u32 \<times> u32 \<times> u32 list \<times> rte_ring) option" where
  "rte_ring_mc_rts_dequeue_burst_elem r obj esize n =
     rte_ring_do_rts_dequeue_elem r obj esize n RTE_RING_QUEUE_VARIABLE"

definition rte_ring_dequeue_burst_elem :: "rte_ring \<Rightarrow> u32 list \<Rightarrow> u32 \<Rightarrow> u32 \<Rightarrow> (u32 \<times> u32 \<times> u32 list \<times> rte_ring) option" where
  "rte_ring_dequeue_burst_elem r obj esize n =
     (case ht_sync (r_cons r) of
        RTE_RING_SYNC_MT \<Rightarrow> rte_ring_mc_dequeue_burst_elem r obj esize n
      | RTE_RING_SYNC_ST \<Rightarrow> rte_ring_sc_dequeue_burst_elem r obj esize n
      | RTE_RING_SYNC_MT_RTS \<Rightarrow> rte_ring_mc_rts_dequeue_burst_elem r obj esize n
      | RTE_RING_SYNC_MT_HTS \<Rightarrow> rte_ring_mc_hts_dequeue_burst_elem r obj esize n)"

lemmas enqueue_api_defs =
  rte_ring_enqueue_bulk_elem_def rte_ring_enqueue_burst_elem_def
  rte_ring_mp_enqueue_bulk_elem_def rte_ring_mp_enqueue_burst_elem_def
  rte_ring_sp_enqueue_bulk_elem_def rte_ring_sp_enqueue_burst_elem_def
  rte_ring_mp_hts_enqueue_bulk_elem_def rte_ring_mp_hts_enqueue_burst_elem_def
  rte_ring_mp_rts_enqueue_bulk_elem_def rte_ring_mp_rts_enqueue_burst_elem_def

lemmas dequeue_api_defs =
  rte_ring_dequeue_bulk_elem_def rte_ring_dequeue_burst_elem_def
  rte_ring_mc_dequeue_bulk_elem_def rte_ring_mc_dequeue_burst_elem_def
  rte_ring_sc_dequeue_bulk_elem_def rte_ring_sc_dequeue_burst_elem_def
  rte_ring_mc_hts_dequeue_bulk_elem_def rte_ring_mc_hts_dequeue_burst_elem_def
  rte_ring_mc_rts_dequeue_bulk_elem_def rte_ring_mc_rts_dequeue_burst_elem_def

text \<open>One object: 0, or a negative errno when the ring is full (empty).\<close>

definition rte_ring_mp_enqueue_elem :: "rte_ring \<Rightarrow> u32 list \<Rightarrow> u32 \<Rightarrow> (int \<times> rte_ring) option" where
  "rte_ring_mp_enqueue_elem r obj esize =
     map_option (\<lambda>(n, _, r'). (if n \<noteq> 0 then 0 else - ENOBUFS, r')) (rte_ring_mp_enqueue_bulk_elem r obj esize 1)"

definition rte_ring_sp_enqueue_elem :: "rte_ring \<Rightarrow> u32 list \<Rightarrow> u32 \<Rightarrow> (int \<times> rte_ring) option" where
  "rte_ring_sp_enqueue_elem r obj esize =
     map_option (\<lambda>(n, _, r'). (if n \<noteq> 0 then 0 else - ENOBUFS, r')) (rte_ring_sp_enqueue_bulk_elem r obj esize 1)"

definition rte_ring_enqueue_elem :: "rte_ring \<Rightarrow> u32 list \<Rightarrow> u32 \<Rightarrow> (int \<times> rte_ring) option" where
  "rte_ring_enqueue_elem r obj esize =
     map_option (\<lambda>(n, _, r'). (if n \<noteq> 0 then 0 else - ENOBUFS, r')) (rte_ring_enqueue_bulk_elem r obj esize 1)"

definition rte_ring_mc_dequeue_elem :: "rte_ring \<Rightarrow> u32 list \<Rightarrow> u32 \<Rightarrow> (int \<times> u32 list \<times> rte_ring) option" where
  "rte_ring_mc_dequeue_elem r obj esize =
     map_option (\<lambda>(n, _, obj', r'). (if n \<noteq> 0 then 0 else - ENOENT, obj', r'))
       (rte_ring_mc_dequeue_bulk_elem r obj esize 1)"

definition rte_ring_sc_dequeue_elem :: "rte_ring \<Rightarrow> u32 list \<Rightarrow> u32 \<Rightarrow> (int \<times> u32 list \<times> rte_ring) option" where
  "rte_ring_sc_dequeue_elem r obj esize =
     map_option (\<lambda>(n, _, obj', r'). (if n \<noteq> 0 then 0 else - ENOENT, obj', r'))
       (rte_ring_sc_dequeue_bulk_elem r obj esize 1)"

definition rte_ring_dequeue_elem :: "rte_ring \<Rightarrow> u32 list \<Rightarrow> u32 \<Rightarrow> (int \<times> u32 list \<times> rte_ring) option" where
  "rte_ring_dequeue_elem r obj esize =
     map_option (\<lambda>(n, _, obj', r'). (if n \<noteq> 0 then 0 else - ENOENT, obj', r'))
       (rte_ring_dequeue_bulk_elem r obj esize 1)"

section \<open>Rings of pointers\<close>

text \<open>rte\_ring.h fixes the element size to that of a pointer, 8 bytes: two words, low word
  first.\<close>

definition ptr_words :: "u64 \<Rightarrow> u32 list" where
  "ptr_words p = [ucast p, ucast (drop_bit 32 p)]"

definition words_ptr :: "u32 list \<Rightarrow> u64" where
  "words_ptr ws = ucast (ws ! 0) OR push_bit 32 (ucast (ws ! 1))"

definition ptr_table :: "u64 list \<Rightarrow> u32 list" where
  "ptr_table ps = concat (map ptr_words ps)"

definition table_ptrs :: "u32 list \<Rightarrow> u64 list" where
  "table_ptrs ws = map words_ptr (chunks 2 ws)"

definition deq_ptrs :: "(u32 \<times> u32 \<times> u32 list \<times> rte_ring) option \<Rightarrow> (u32 \<times> u32 \<times> u64 list \<times> rte_ring) option" where
  "deq_ptrs = map_option (\<lambda>(n, av, ws, r'). (n, av, table_ptrs ws, r'))"

definition rte_ring_mp_enqueue_bulk :: "rte_ring \<Rightarrow> u64 list \<Rightarrow> u32 \<Rightarrow> (u32 \<times> u32 \<times> rte_ring) option" where
  "rte_ring_mp_enqueue_bulk r objs n = rte_ring_mp_enqueue_bulk_elem r (ptr_table objs) 8 n"

definition rte_ring_sp_enqueue_bulk :: "rte_ring \<Rightarrow> u64 list \<Rightarrow> u32 \<Rightarrow> (u32 \<times> u32 \<times> rte_ring) option" where
  "rte_ring_sp_enqueue_bulk r objs n = rte_ring_sp_enqueue_bulk_elem r (ptr_table objs) 8 n"

definition rte_ring_enqueue_bulk :: "rte_ring \<Rightarrow> u64 list \<Rightarrow> u32 \<Rightarrow> (u32 \<times> u32 \<times> rte_ring) option" where
  "rte_ring_enqueue_bulk r objs n = rte_ring_enqueue_bulk_elem r (ptr_table objs) 8 n"

definition rte_ring_mp_hts_enqueue_bulk :: "rte_ring \<Rightarrow> u64 list \<Rightarrow> u32 \<Rightarrow> (u32 \<times> u32 \<times> rte_ring) option" where
  "rte_ring_mp_hts_enqueue_bulk r objs n = rte_ring_mp_hts_enqueue_bulk_elem r (ptr_table objs) 8 n"

definition rte_ring_mp_rts_enqueue_bulk :: "rte_ring \<Rightarrow> u64 list \<Rightarrow> u32 \<Rightarrow> (u32 \<times> u32 \<times> rte_ring) option" where
  "rte_ring_mp_rts_enqueue_bulk r objs n = rte_ring_mp_rts_enqueue_bulk_elem r (ptr_table objs) 8 n"

definition rte_ring_mc_dequeue_bulk :: "rte_ring \<Rightarrow> u64 list \<Rightarrow> u32 \<Rightarrow> (u32 \<times> u32 \<times> u64 list \<times> rte_ring) option" where
  "rte_ring_mc_dequeue_bulk r objs n = deq_ptrs (rte_ring_mc_dequeue_bulk_elem r (ptr_table objs) 8 n)"

definition rte_ring_sc_dequeue_bulk :: "rte_ring \<Rightarrow> u64 list \<Rightarrow> u32 \<Rightarrow> (u32 \<times> u32 \<times> u64 list \<times> rte_ring) option" where
  "rte_ring_sc_dequeue_bulk r objs n = deq_ptrs (rte_ring_sc_dequeue_bulk_elem r (ptr_table objs) 8 n)"

definition rte_ring_dequeue_bulk :: "rte_ring \<Rightarrow> u64 list \<Rightarrow> u32 \<Rightarrow> (u32 \<times> u32 \<times> u64 list \<times> rte_ring) option" where
  "rte_ring_dequeue_bulk r objs n = deq_ptrs (rte_ring_dequeue_bulk_elem r (ptr_table objs) 8 n)"

definition rte_ring_mc_hts_dequeue_bulk :: "rte_ring \<Rightarrow> u64 list \<Rightarrow> u32 \<Rightarrow> (u32 \<times> u32 \<times> u64 list \<times> rte_ring) option" where
  "rte_ring_mc_hts_dequeue_bulk r objs n = deq_ptrs (rte_ring_mc_hts_dequeue_bulk_elem r (ptr_table objs) 8 n)"

definition rte_ring_mc_rts_dequeue_bulk :: "rte_ring \<Rightarrow> u64 list \<Rightarrow> u32 \<Rightarrow> (u32 \<times> u32 \<times> u64 list \<times> rte_ring) option" where
  "rte_ring_mc_rts_dequeue_bulk r objs n = deq_ptrs (rte_ring_mc_rts_dequeue_bulk_elem r (ptr_table objs) 8 n)"

definition rte_ring_mp_enqueue_burst :: "rte_ring \<Rightarrow> u64 list \<Rightarrow> u32 \<Rightarrow> (u32 \<times> u32 \<times> rte_ring) option" where
  "rte_ring_mp_enqueue_burst r objs n = rte_ring_mp_enqueue_burst_elem r (ptr_table objs) 8 n"

definition rte_ring_sp_enqueue_burst :: "rte_ring \<Rightarrow> u64 list \<Rightarrow> u32 \<Rightarrow> (u32 \<times> u32 \<times> rte_ring) option" where
  "rte_ring_sp_enqueue_burst r objs n = rte_ring_sp_enqueue_burst_elem r (ptr_table objs) 8 n"

definition rte_ring_enqueue_burst :: "rte_ring \<Rightarrow> u64 list \<Rightarrow> u32 \<Rightarrow> (u32 \<times> u32 \<times> rte_ring) option" where
  "rte_ring_enqueue_burst r objs n = rte_ring_enqueue_burst_elem r (ptr_table objs) 8 n"

definition rte_ring_mp_hts_enqueue_burst :: "rte_ring \<Rightarrow> u64 list \<Rightarrow> u32 \<Rightarrow> (u32 \<times> u32 \<times> rte_ring) option" where
  "rte_ring_mp_hts_enqueue_burst r objs n = rte_ring_mp_hts_enqueue_burst_elem r (ptr_table objs) 8 n"

definition rte_ring_mp_rts_enqueue_burst :: "rte_ring \<Rightarrow> u64 list \<Rightarrow> u32 \<Rightarrow> (u32 \<times> u32 \<times> rte_ring) option" where
  "rte_ring_mp_rts_enqueue_burst r objs n = rte_ring_mp_rts_enqueue_burst_elem r (ptr_table objs) 8 n"

definition rte_ring_mc_dequeue_burst :: "rte_ring \<Rightarrow> u64 list \<Rightarrow> u32 \<Rightarrow> (u32 \<times> u32 \<times> u64 list \<times> rte_ring) option" where
  "rte_ring_mc_dequeue_burst r objs n = deq_ptrs (rte_ring_mc_dequeue_burst_elem r (ptr_table objs) 8 n)"

definition rte_ring_sc_dequeue_burst :: "rte_ring \<Rightarrow> u64 list \<Rightarrow> u32 \<Rightarrow> (u32 \<times> u32 \<times> u64 list \<times> rte_ring) option" where
  "rte_ring_sc_dequeue_burst r objs n = deq_ptrs (rte_ring_sc_dequeue_burst_elem r (ptr_table objs) 8 n)"

definition rte_ring_dequeue_burst :: "rte_ring \<Rightarrow> u64 list \<Rightarrow> u32 \<Rightarrow> (u32 \<times> u32 \<times> u64 list \<times> rte_ring) option" where
  "rte_ring_dequeue_burst r objs n = deq_ptrs (rte_ring_dequeue_burst_elem r (ptr_table objs) 8 n)"

definition rte_ring_mc_hts_dequeue_burst :: "rte_ring \<Rightarrow> u64 list \<Rightarrow> u32 \<Rightarrow> (u32 \<times> u32 \<times> u64 list \<times> rte_ring) option" where
  "rte_ring_mc_hts_dequeue_burst r objs n = deq_ptrs (rte_ring_mc_hts_dequeue_burst_elem r (ptr_table objs) 8 n)"

definition rte_ring_mc_rts_dequeue_burst :: "rte_ring \<Rightarrow> u64 list \<Rightarrow> u32 \<Rightarrow> (u32 \<times> u32 \<times> u64 list \<times> rte_ring) option" where
  "rte_ring_mc_rts_dequeue_burst r objs n = deq_ptrs (rte_ring_mc_rts_dequeue_burst_elem r (ptr_table objs) 8 n)"

definition rte_ring_mp_enqueue :: "rte_ring \<Rightarrow> u64 \<Rightarrow> (int \<times> rte_ring) option" where
  "rte_ring_mp_enqueue r obj = rte_ring_mp_enqueue_elem r (ptr_words obj) 8"

definition rte_ring_sp_enqueue :: "rte_ring \<Rightarrow> u64 \<Rightarrow> (int \<times> rte_ring) option" where
  "rte_ring_sp_enqueue r obj = rte_ring_sp_enqueue_elem r (ptr_words obj) 8"

definition rte_ring_enqueue :: "rte_ring \<Rightarrow> u64 \<Rightarrow> (int \<times> rte_ring) option" where
  "rte_ring_enqueue r obj = rte_ring_enqueue_elem r (ptr_words obj) 8"

definition rte_ring_mc_dequeue :: "rte_ring \<Rightarrow> u64 \<Rightarrow> (int \<times> u64 \<times> rte_ring) option" where
  "rte_ring_mc_dequeue r obj =
     map_option (\<lambda>(rc, ws, r'). (rc, words_ptr ws, r')) (rte_ring_mc_dequeue_elem r (ptr_words obj) 8)"

definition rte_ring_sc_dequeue :: "rte_ring \<Rightarrow> u64 \<Rightarrow> (int \<times> u64 \<times> rte_ring) option" where
  "rte_ring_sc_dequeue r obj =
     map_option (\<lambda>(rc, ws, r'). (rc, words_ptr ws, r')) (rte_ring_sc_dequeue_elem r (ptr_words obj) 8)"

definition rte_ring_dequeue :: "rte_ring \<Rightarrow> u64 \<Rightarrow> (int \<times> u64 \<times> rte_ring) option" where
  "rte_ring_dequeue r obj =
     map_option (\<lambda>(rc, ws, r'). (rc, words_ptr ws, r')) (rte_ring_dequeue_elem r (ptr_words obj) 8)"

section \<open>Inspection\<close>

definition rte_ring_count :: "rte_ring \<Rightarrow> u32" where
  "rte_ring_count r =
     (let prod_tail = ht_tail (r_prod r);
          cons_tail = ht_tail (r_cons r);
          count = (prod_tail - cons_tail) AND r_mask r
      in if count > r_capacity r then r_capacity r else count)"

definition rte_ring_free_count :: "rte_ring \<Rightarrow> u32" where
  "rte_ring_free_count r = r_capacity r - rte_ring_count r"

definition rte_ring_full :: "rte_ring \<Rightarrow> bool" where
  "rte_ring_full r \<longleftrightarrow> rte_ring_free_count r = 0"

definition rte_ring_empty :: "rte_ring \<Rightarrow> bool" where
  "rte_ring_empty r \<longleftrightarrow> ht_tail (r_cons r) = ht_tail (r_prod r)"

definition rte_ring_get_size :: "rte_ring \<Rightarrow> u32" where
  "rte_ring_get_size r = r_size r"

definition rte_ring_get_capacity :: "rte_ring \<Rightarrow> u32" where
  "rte_ring_get_capacity r = r_capacity r"

definition rte_ring_get_prod_sync_type :: "rte_ring \<Rightarrow> rte_ring_sync_type" where
  "rte_ring_get_prod_sync_type r = ht_sync (r_prod r)"

definition rte_ring_is_prod_single :: "rte_ring \<Rightarrow> bool" where
  "rte_ring_is_prod_single r \<longleftrightarrow> rte_ring_get_prod_sync_type r = RTE_RING_SYNC_ST"

definition rte_ring_get_cons_sync_type :: "rte_ring \<Rightarrow> rte_ring_sync_type" where
  "rte_ring_get_cons_sync_type r = ht_sync (r_cons r)"

definition rte_ring_is_cons_single :: "rte_ring \<Rightarrow> bool" where
  "rte_ring_is_cons_single r \<longleftrightarrow> rte_ring_get_cons_sync_type r = RTE_RING_SYNC_ST"

definition rte_ring_get_prod_htd_max :: "rte_ring \<Rightarrow> u32" where
  "rte_ring_get_prod_htd_max r =
     (if ht_sync (r_prod r) = RTE_RING_SYNC_MT_RTS then rts_htd_max (r_prod r) else - 1)"

definition rte_ring_set_prod_htd_max :: "rte_ring \<Rightarrow> u32 \<Rightarrow> int \<times> rte_ring" where
  "rte_ring_set_prod_htd_max r v =
     (if ht_sync (r_prod r) \<noteq> RTE_RING_SYNC_MT_RTS then (- ENOTSUP, r)
      else (0, r\<lparr>r_prod := (r_prod r)\<lparr>rts_htd_max := v\<rparr>\<rparr>))"

definition rte_ring_get_cons_htd_max :: "rte_ring \<Rightarrow> u32" where
  "rte_ring_get_cons_htd_max r =
     (if ht_sync (r_cons r) = RTE_RING_SYNC_MT_RTS then rts_htd_max (r_cons r) else - 1)"

definition rte_ring_set_cons_htd_max :: "rte_ring \<Rightarrow> u32 \<Rightarrow> int \<times> rte_ring" where
  "rte_ring_set_cons_htd_max r v =
     (if ht_sync (r_cons r) \<noteq> RTE_RING_SYNC_MT_RTS then (- ENOTSUP, r)
      else (0, r\<lparr>r_cons := (r_cons r)\<lparr>rts_htd_max := v\<rparr>\<rparr>))"

end
