(* ===== verification/Rte_Ring_Correct.thy ===== *)
theory Rte_Ring_Correct
  imports Rte_Ring_Api
begin

text \<open>
  The ring as a bounded FIFO queue. \<open>ring_inv\<close> is the invariant of a ring no operation is in
  the middle of, \<open>ring_elems\<close> the queue it represents. Every enqueue and dequeue, in every
  synchronisation mode and for every element size, returns, keeps the invariant and acts on the
  queue as the bulk or burst contract says; the interface \<open>bounded_fifo\<close> states the bulk
  contract once for clients and is interpreted on the pointer rings.
\<close>

section \<open>Invariant and abstraction\<close>

definition ht_quiet :: "rte_ring_headtail \<Rightarrow> bool" where
  "ht_quiet ht \<longleftrightarrow>
     (if ht_sync ht = RTE_RING_SYNC_MT_RTS
      then rts_head_pos ht = rts_tail_pos ht \<and> rts_head_cnt ht = rts_tail_cnt ht
      else ht_head ht = ht_tail ht)"

definition ring_wf :: "nat \<Rightarrow> rte_ring \<Rightarrow> bool" where
  "ring_wf w r \<longleftrightarrow>
     (\<exists>k \<in> {..<32}. r_size r = 2 ^ k) \<and> r_mask r = r_size r - 1 \<and> r_capacity r < r_size r \<and>
     0 < w \<and> 4 * w < 2 ^ 32 \<and> unat (r_size r) * w \<le> 2 ^ 31 \<and>
     length (r_mem r) = unat (r_size r) * w"

definition ring_used :: "rte_ring \<Rightarrow> nat" where
  "ring_used r = unat (ht_tail (r_prod r) - ht_tail (r_cons r))"

definition ring_inv :: "nat \<Rightarrow> rte_ring \<Rightarrow> bool" where
  "ring_inv w r \<longleftrightarrow>
     ring_wf w r \<and> ht_quiet (r_prod r) \<and> ht_quiet (r_cons r) \<and> ring_used r \<le> unat (r_capacity r)"

definition ring_elems :: "nat \<Rightarrow> rte_ring \<Rightarrow> u32 list list" where
  "ring_elems w r =
     ring_load (unat (r_size r)) (unat (ht_tail (r_cons r))) (chunks w (r_mem r)) (ring_used r)"

text \<open>How many objects a call moves when \<open>avail\<close> fit.\<close>

definition admit :: "rte_ring_queue_behavior \<Rightarrow> nat \<Rightarrow> nat \<Rightarrow> nat" where
  "admit behavior n avail =
     (if n \<le> avail then n else if behavior = RTE_RING_QUEUE_FIXED then 0 else avail)"

lemma length_ring_elems [simp]: "length (ring_elems w r) = ring_used r"
  by (simp add: ring_elems_def)

lemma admit_le: "admit b n a \<le> n" "admit b n a \<le> a"
  by (auto simp: admit_def)

lemma unat_clip: "unat (clip b n e) = admit b (unat n) (unat e)"
  by (simp add: clip_def admit_def word_le_nat_alt word_less_nat_alt)

lemma clip_le: "clip b n e \<le> e" "clip b n e \<le> n"
  by (auto simp: clip_def)

lemma ring_wfE:
  assumes "ring_wf w r"
  obtains k where "k < 32" "r_size r = 2 ^ k" "r_mask r = r_size r - 1" "r_capacity r < r_size r"
    "0 < w" "4 * w < 2 ^ 32" "unat (r_size r) * w \<le> 2 ^ 31" "length (r_mem r) = unat (r_size r) * w"
    "0 < unat (r_size r)" "unat (r_size r) \<le> 2 ^ 31"
proof -
  from assms obtain k where k: "k < 32" "r_size r = 2 ^ k" by (auto simp: ring_wf_def)
  have sz: "unat (r_size r) = 2 ^ k" using slot_index(2) [OF k(2,1)] .
  have "unat (r_size r) \<le> 2 ^ 31" unfolding sz using k(1) by (intro power_increasing) auto
  with assms k sz that show ?thesis by (auto simp: ring_wf_def)
qed

section \<open>Copying elements of any size\<close>

lemma take_concat_chunks:
  "0 < w \<Longrightarrow> n * w \<le> length xs \<Longrightarrow> take (n * w) xs = concat (take n (chunks w xs))"
proof (induction n arbitrary: xs)
  case (Suc n)
  then have ge: "w \<le> length xs" by simp
  have "take (Suc n * w) xs = take w xs @ take (n * w) (drop w xs)"
    by (metis mult_Suc take_add)
  also have "take (n * w) (drop w xs) = concat (take n (chunks w (drop w xs)))"
    using Suc ge by (intro Suc.IH) auto
  finally show ?case using ge Suc.prems(1) by (simp add: chunks.simps [of w xs])
qed simp

lemma enqueue_elems_frame [simp]:
  "r_flags (rte_ring_enqueue_elems r h obj e n) = r_flags r"
  "r_size (rte_ring_enqueue_elems r h obj e n) = r_size r"
  "r_mask (rte_ring_enqueue_elems r h obj e n) = r_mask r"
  "r_capacity (rte_ring_enqueue_elems r h obj e n) = r_capacity r"
  "r_prod (rte_ring_enqueue_elems r h obj e n) = r_prod r"
  "r_cons (rte_ring_enqueue_elems r h obj e n) = r_cons r"
  "rte_ring_enqueue_elems (r\<lparr>r_prod := p\<rparr>) h obj e n = (rte_ring_enqueue_elems r h obj e n)\<lparr>r_prod := p\<rparr>"
  by (simp_all add: rte_ring_enqueue_elems_def Let_def)

lemma dequeue_elems_frame [simp]:
  "rte_ring_dequeue_elems (r\<lparr>r_cons := c\<rparr>) h obj e n = rte_ring_dequeue_elems r h obj e n"
  by (simp add: rte_ring_dequeue_elems_def Let_def)

text \<open>The word arithmetic of the general case does not overflow.\<close>

lemma scaled_words:
  assumes "ring_wf w r" "n \<le> r_size r"
  shows "(of_nat (4 * w) :: u32) div 4 = of_nat w"
    and "unat (n * of_nat w) = unat n * w"
    and "unat ((h AND r_mask r) * of_nat w) = unat h mod unat (r_size r) * w"
    and "unat (r_size r * of_nat w) = unat (r_size r) * w"
proof -
  obtain k where k: "k < 32" "r_size r = 2 ^ k" "r_mask r = r_size r - 1" "4 * w < 2 ^ 32"
    "unat (r_size r) * w \<le> 2 ^ 31" "0 < unat (r_size r)"
    using assms(1) by (elim ring_wfE)
  have w: "unat (of_nat w :: u32) = w" "unat (of_nat (4 * w) :: u32) = 4 * w"
    using k(4) by (simp_all only: unat_of_nat) (simp_all add: take_bit_nat_eq_self)
  show "(of_nat (4 * w) :: u32) div 4 = of_nat w"
    by (rule word_unat_eq_iff [THEN iffD2]) (use w in \<open>simp only: unat_div, simp\<close>)
  have small: "unat (x * of_nat w) = unat x * w" if "unat x \<le> unat (r_size r)" for x :: u32
  proof -
    have "unat x * w \<le> unat (r_size r) * w" using that by simp
    also note k(5)
    finally have "unat x * w < 2 ^ 32" by (rule le_less_trans) simp
    then show ?thesis using w(1) by (simp add: unat_word_ariths)
  qed
  show "unat (n * of_nat w) = unat n * w"
    using assms(2) by (intro small) (simp add: word_le_nat_alt)
  have idx: "unat (h AND r_mask r) = unat h mod unat (r_size r)"
    unfolding k(3) by (rule slot_index(1) [OF k(2,1)])
  then show "unat ((h AND r_mask r) * of_nat w) = unat h mod unat (r_size r) * w"
    using small [of "h AND r_mask r"] k(6) by (simp add: less_imp_le)
  show "unat (r_size r * of_nat w) = unat (r_size r) * w" by (rule small) simp
qed

lemma scaled_bounds:
  assumes "ring_wf w r" "n \<le> r_size r"
  shows "unat (h AND r_mask r) + unat n < 2 ^ 32"
    and "unat h mod unat (r_size r) * w + unat n * w < 2 ^ 32"
    and "unat h mod unat (r_size r) * w < unat (r_size r) * w"
proof -
  obtain k where k: "k < 32" "r_size r = 2 ^ k" "r_mask r = r_size r - 1" "0 < w"
    "unat (r_size r) * w \<le> 2 ^ 31" "0 < unat (r_size r)" "unat (r_size r) \<le> 2 ^ 31"
    using assms(1) by (elim ring_wfE)
  have n: "unat n \<le> unat (r_size r)" using assms(2) by (simp add: word_le_nat_alt)
  have m: "unat h mod unat (r_size r) < unat (r_size r)" using k(6) by simp
  have "unat (h AND r_mask r) = unat h mod unat (r_size r)"
    unfolding k(3) by (rule slot_index(1) [OF k(2,1)])
  then show "unat (h AND r_mask r) + unat n < 2 ^ 32" using n m k(7) by simp
  show lt: "unat h mod unat (r_size r) * w < unat (r_size r) * w" using m k(4) by simp
  have "unat n * w \<le> unat (r_size r) * w" using n by simp
  with lt have "unat h mod unat (r_size r) * w + unat n * w < unat (r_size r) * w + unat (r_size r) * w"
    by (rule add_less_le_mono)
  also have "\<dots> \<le> 2 ^ 31 + 2 ^ 31" using k(5) by (intro add_mono)
  finally show "unat h mod unat (r_size r) * w + unat n * w < 2 ^ 32" by simp
qed

lemma esize_cases:
  assumes "4 * w < (2 :: nat) ^ 32"
  shows "(of_nat (4 * w) :: u32) = 8 \<longleftrightarrow> w = 2" and "(of_nat (4 * w) :: u32) = 16 \<longleftrightarrow> w = 4"
proof -
  have w: "unat (of_nat (4 * w) :: u32) = 4 * w" using assms by (simp only: unat_of_nat) simp
  show "(of_nat (4 * w) :: u32) = 8 \<longleftrightarrow> w = 2" by (subst word_unat_eq_iff, subst w) auto
  show "(of_nat (4 * w) :: u32) = 16 \<longleftrightarrow> w = 4" by (subst word_unat_eq_iff, subst w) auto
qed

lemma ring_store_set:
  "x \<in> set (ring_store sz p xs ys) \<Longrightarrow> x \<in> set xs \<or> x \<in> set ys"
proof (induction ys arbitrary: p xs)
  case (Cons y ys)
  then have "x \<in> set (xs[p mod sz := y]) \<or> x \<in> set ys" by (metis ring_store.simps(2))
  then show ?case using set_update_subset_insert [of xs "p mod sz" y] by auto
qed simp

lemma chunks_ring_store:
  assumes "0 < w"
  shows "chunks w (concat (ring_store S p (chunks w mem) (take n (chunks w obj))))
    = ring_store S p (chunks w mem) (take n (chunks w obj))"
  using assms by (intro chunks_concat ballI) (auto dest!: ring_store_set in_set_takeD chunks_elem_length)

lemma rte_ring_enqueue_elems_store:
  assumes wf: "ring_wf w r" and n: "n \<le> r_size r" and obj: "unat n * w \<le> length obj"
  shows "chunks w (r_mem (rte_ring_enqueue_elems r h obj (of_nat (4 * w)) n))
      = ring_store (unat (r_size r)) (unat h) (chunks w (r_mem r)) (take (unat n) (chunks w obj))"
    and "ring_wf w (rte_ring_enqueue_elems r h obj (of_nat (4 * w)) n)"
proof -
  obtain k where k: "k < 32" "r_size r = 2 ^ k" "r_mask r = r_size r - 1" "0 < w" "4 * w < 2 ^ 32"
    "length (r_mem r) = unat (r_size r) * w" "0 < unat (r_size r)"
    using wf by (elim ring_wfE)
  let ?S = "unat (r_size r)" and ?objs = "take (unat n) (chunks w obj)"
  let ?st = "ring_store ?S (unat h) (chunks w (r_mem r)) ?objs"
  have len: "unat n \<le> length (chunks w obj)"
    using obj k(4) by (simp add: length_chunks less_eq_div_iff_mult_less_eq)
  have b: "unat (h AND (r_size r - 1)) + unat n < 2 ^ 32" using scaled_bounds(1) [OF wf n] k(3) by simp
  have mem: "r_mem (rte_ring_enqueue_elems r h obj (of_nat (4 * w)) n) = concat ?st"
  proof -
    consider "w = 2" | "w = 4" | "w \<noteq> 2" "w \<noteq> 4" by blast
    then show ?thesis
    proof cases
      case 1
      then show ?thesis
        using rte_ring_enqueue_elems_64_store [OF k(2,1) n b, of "chunks 2 obj" "chunks 2 (r_mem r)"] len k(3)
        by (simp add: rte_ring_enqueue_elems_def)
    next
      case 2
      then show ?thesis
        using rte_ring_enqueue_elems_128_store [OF k(2,1) n b, of "chunks 4 obj" "chunks 4 (r_mem r)"] len k(3)
        by (simp add: rte_ring_enqueue_elems_def)
    next
      case 3
      let ?idx = "(h AND r_mask r) * of_nat w" and ?num = "n * of_nat w" and ?sz = "r_size r * of_nat w"
      have "rte_ring_enqueue_elems_32 ?sz ?idx (r_mem r) obj ?num
          = ring_store (unat ?sz) (unat ?idx) (r_mem r) (take (unat ?num) obj)"
        using scaled_words [OF wf n] scaled_bounds [OF wf n, of h] obj n
        by (intro rte_ring_enqueue_elems_32_store) (auto simp: word_less_nat_alt word_le_nat_alt)
      also have "\<dots> = ring_store (?S * w) (unat h mod ?S * w) (r_mem r) (concat ?objs)"
        using scaled_words [OF wf n] obj k(4) by (simp add: take_concat_chunks)
      also have "\<dots> = concat (ring_store ?S (unat h mod ?S) (chunks w (r_mem r)) ?objs)"
        using k by (intro ring_store_elems) (auto dest!: in_set_takeD chunks_elem_length)
      also have "\<dots> = concat ?st" by (simp add: ring_store_mod [of "unat h mod ?S" ?S "unat h"])
      finally show ?thesis
        using esize_cases [OF k(5)] 3 scaled_words(1) [OF wf n] by (simp add: rte_ring_enqueue_elems_def Let_def)
    qed
  qed
  then show ch: "chunks w (r_mem (rte_ring_enqueue_elems r h obj (of_nat (4 * w)) n)) = ?st"
    using chunks_ring_store [OF k(4)] by simp
  have "\<forall>x \<in> set ?st. length x = w"
    by (auto dest!: ring_store_set in_set_takeD chunks_elem_length)
  then have "length (concat ?st) = length ?st * w" by (rule length_concat_same)
  then have "length (concat ?st) = ?S * w" using k by (simp add: length_chunks)
  then show "ring_wf w (rte_ring_enqueue_elems r h obj (of_nat (4 * w)) n)"
    using wf mem by (simp add: ring_wf_def)
qed

lemma rte_ring_dequeue_elems_load:
  assumes wf: "ring_wf w r" and n: "n \<le> r_size r" and obj: "unat n * w \<le> length obj" "w dvd length obj"
  shows "chunks w (rte_ring_dequeue_elems r h obj (of_nat (4 * w)) n)
      = ring_load (unat (r_size r)) (unat h) (chunks w (r_mem r)) (unat n) @ drop (unat n) (chunks w obj)"
    and "length (rte_ring_dequeue_elems r h obj (of_nat (4 * w)) n) = length obj"
proof -
  obtain k where k: "k < 32" "r_size r = 2 ^ k" "r_mask r = r_size r - 1" "0 < w" "4 * w < 2 ^ 32"
    "length (r_mem r) = unat (r_size r) * w" "0 < unat (r_size r)"
    using wf by (elim ring_wfE)
  let ?S = "unat (r_size r)"
  let ?ld = "ring_load ?S (unat h) (chunks w (r_mem r)) (unat n)"
  have len: "unat n \<le> length (chunks w obj)"
    using obj k(4) by (simp add: length_chunks less_eq_div_iff_mult_less_eq)
  have b: "unat (h AND (r_size r - 1)) + unat n < 2 ^ 32" using scaled_bounds(1) [OF wf n] k(3) by simp
  have obj_split: "obj = concat (take (unat n) (chunks w obj)) @ concat (drop (unat n) (chunks w obj))"
    using concat_chunks [OF k(4) obj(2)] by (metis append_take_drop_id concat_append)
  have "take (unat n * w) obj @ drop (unat n * w) obj = take (unat n * w) obj @ concat (drop (unat n) (chunks w obj))"
    unfolding take_concat_chunks [OF k(4) obj(1)] using obj_split
    by (metis append_take_drop_id take_concat_chunks [OF k(4) obj(1)])
  then have rest: "drop (unat n * w) obj = concat (drop (unat n) (chunks w obj))"
    by (rule same_append_eq [THEN iffD1])
  have res: "rte_ring_dequeue_elems r h obj (of_nat (4 * w)) n = concat (?ld @ drop (unat n) (chunks w obj))"
  proof -
    consider "w = 2" | "w = 4" | "w \<noteq> 2" "w \<noteq> 4" by blast
    then show ?thesis
    proof cases
      case 1
      then show ?thesis
        using rte_ring_dequeue_elems_64_load [OF k(2,1) n b, of "chunks 2 obj" "chunks 2 (r_mem r)"] len k(3)
        by (simp add: rte_ring_dequeue_elems_def)
    next
      case 2
      then show ?thesis
        using rte_ring_dequeue_elems_128_load [OF k(2,1) n b, of "chunks 4 obj" "chunks 4 (r_mem r)"] len k(3)
        by (simp add: rte_ring_dequeue_elems_def)
    next
      case 3
      let ?idx = "(h AND r_mask r) * of_nat w" and ?num = "n * of_nat w" and ?sz = "r_size r * of_nat w"
      have "rte_ring_dequeue_elems_32 ?sz ?idx (r_mem r) obj ?num
          = ring_load (unat ?sz) (unat ?idx) (r_mem r) (unat ?num) @ drop (unat ?num) obj"
        using scaled_words [OF wf n] scaled_bounds [OF wf n, of h] obj n
        by (intro rte_ring_dequeue_elems_32_load) (auto simp: word_less_nat_alt word_le_nat_alt)
      also have "\<dots> = concat (ring_load ?S (unat h mod ?S) (chunks w (r_mem r)) (unat n)) @ drop (unat n * w) obj"
        using scaled_words [OF wf n] k by (simp add: ring_load_elems)
      also have "\<dots> = concat ?ld @ concat (drop (unat n) (chunks w obj))"
        using rest ring_load_mod [of "unat h mod ?S" ?S "unat h" "chunks w (r_mem r)"] by simp
      finally show ?thesis
        using esize_cases [OF k(5)] 3 scaled_words(1) [OF wf n] by (simp add: rte_ring_dequeue_elems_def Let_def)
    qed
  qed
  have "?S = length (chunks w (r_mem r))" using k by (simp add: length_chunks)
  then have "x \<in> set (chunks w (r_mem r))" if "x \<in> set ?ld" for x
    using that k(7) by (auto simp: ring_load_def)
  then have ld: "\<forall>x \<in> set (?ld @ drop (unat n) (chunks w obj)). length x = w"
    by (auto dest: chunks_elem_length in_set_dropD)
  then show "chunks w (rte_ring_dequeue_elems r h obj (of_nat (4 * w)) n) = ?ld @ drop (unat n) (chunks w obj)"
    using res k(4) chunks_concat by metis
  have "length (concat (?ld @ drop (unat n) (chunks w obj))) = length (?ld @ drop (unat n) (chunks w obj)) * w"
    using ld by (simp only: length_concat_same)
  also have "\<dots> = length obj" using len k(4) obj(2) by (simp add: length_chunks)
  finally show "length (rte_ring_dequeue_elems r h obj (of_nat (4 * w)) n) = length obj"
    using res by simp
qed

section \<open>One result for all synchronisation modes\<close>

text \<open>Publishing \<open>n\<close> slots: what a finished operation leaves in the head/tail block.\<close>

definition ht_advance :: "rte_ring_headtail \<Rightarrow> u32 \<Rightarrow> rte_ring_headtail" where
  "ht_advance ht n =
     (if ht_sync ht = RTE_RING_SYNC_MT_RTS
      then ht\<lparr>ht_head := rts_tail_cnt ht + 1, ht_tail := rts_tail_pos ht + n,
              rts_head_cnt := rts_tail_cnt ht + 1, rts_head_pos := rts_tail_pos ht + n\<rparr>
      else ht\<lparr>ht_head := ht_tail ht + n, ht_tail := ht_tail ht + n\<rparr>)"

definition enq_canon ::
    "rte_ring \<Rightarrow> u32 list \<Rightarrow> u32 \<Rightarrow> u32 \<Rightarrow> rte_ring_queue_behavior \<Rightarrow> u32 \<times> u32 \<times> rte_ring" where
  "enq_canon r obj esize n behavior =
     (let free = r_capacity r + ht_tail (r_cons r) - ht_tail (r_prod r);
          k = clip behavior n free
      in (k, free - k,
          if k = 0 then r
          else (rte_ring_enqueue_elems r (ht_tail (r_prod r)) obj esize k)\<lparr>r_prod := ht_advance (r_prod r) k\<rparr>))"

definition deq_canon ::
    "rte_ring \<Rightarrow> u32 list \<Rightarrow> u32 \<Rightarrow> u32 \<Rightarrow> rte_ring_queue_behavior \<Rightarrow> u32 \<times> u32 \<times> u32 list \<times> rte_ring" where
  "deq_canon r obj esize n behavior =
     (let entries = ht_tail (r_prod r) - ht_tail (r_cons r);
          k = clip behavior n entries
      in (k, entries - k,
          if k = 0 then obj else rte_ring_dequeue_elems r (ht_tail (r_cons r)) obj esize k,
          if k = 0 then r else r\<lparr>r_cons := ht_advance (r_cons r) k\<rparr>))"

lemma ht_advance_simps [simp]:
  "ht_tail (ht_advance ht n) = ht_tail ht + n"
  "ht_quiet (ht_advance ht n)"
  "ht_sync (ht_advance ht n) = ht_sync ht"
  by (auto simp: ht_advance_def ht_quiet_def)

lemmas cas_simps = rte_atomic32_cmpset_def atomic_compare_exchange_n_def

lemma do_enqueue_canon:
  assumes "ht_quiet (r_prod r)" "ht_sync (r_prod r) \<noteq> RTE_RING_SYNC_MT_RTS"
  shows "rte_ring_do_enqueue_elem r obj esize n behavior is_sp = Some (enq_canon r obj esize n behavior)"
  using assms
  by (cases is_sp) (auto simp: rte_ring_do_enqueue_elem_def rte_ring_move_prod_head.simps cas_simps enq_canon_def
      Let_def rte_ring_update_tail_def ht_quiet_def ht_advance_def)

lemma do_dequeue_canon:
  assumes "ht_quiet (r_cons r)" "ht_sync (r_cons r) \<noteq> RTE_RING_SYNC_MT_RTS"
  shows "rte_ring_do_dequeue_elem r obj esize n behavior is_sc = Some (deq_canon r obj esize n behavior)"
  using assms
  by (cases is_sc) (auto simp: rte_ring_do_dequeue_elem_def rte_ring_move_cons_head.simps cas_simps deq_canon_def
      Let_def rte_ring_update_tail_def ht_quiet_def ht_advance_def)

lemma do_hts_enqueue_canon:
  assumes "ht_quiet (r_prod r)" "ht_sync (r_prod r) \<noteq> RTE_RING_SYNC_MT_RTS"
  shows "rte_ring_do_hts_enqueue_elem r obj esize n behavior = Some (enq_canon r obj esize n behavior)"
  using assms
  by (auto simp: rte_ring_do_hts_enqueue_elem_def rte_ring_hts_move_prod_head_def hts_prod_loop.simps
      rte_ring_hts_head_wait.simps cas_simps enq_canon_def Let_def rte_ring_hts_update_tail_def
      ht_quiet_def ht_advance_def)

lemma do_hts_dequeue_canon:
  assumes "ht_quiet (r_cons r)" "ht_sync (r_cons r) \<noteq> RTE_RING_SYNC_MT_RTS"
  shows "rte_ring_do_hts_dequeue_elem r obj esize n behavior = Some (deq_canon r obj esize n behavior)"
  using assms
  by (auto simp: rte_ring_do_hts_dequeue_elem_def rte_ring_hts_move_cons_head_def hts_cons_loop.simps
      rte_ring_hts_head_wait.simps cas_simps deq_canon_def Let_def rte_ring_hts_update_tail_def
      ht_quiet_def ht_advance_def)

lemma do_rts_enqueue_canon:
  assumes "ht_quiet (r_prod r)" "ht_sync (r_prod r) = RTE_RING_SYNC_MT_RTS"
  shows "rte_ring_do_rts_enqueue_elem r obj esize n behavior = Some (enq_canon r obj esize n behavior)"
  using assms
  by (auto simp: rte_ring_do_rts_enqueue_elem_def rte_ring_rts_move_prod_head_def rts_prod_loop.simps
      rte_ring_rts_head_wait.simps cas_simps enq_canon_def Let_def rte_ring_rts_update_tail_def
      rts_tail_loop.simps ht_quiet_def ht_advance_def)

lemma do_rts_dequeue_canon:
  assumes "ht_quiet (r_cons r)" "ht_sync (r_cons r) = RTE_RING_SYNC_MT_RTS"
  shows "rte_ring_do_rts_dequeue_elem r obj esize n behavior = Some (deq_canon r obj esize n behavior)"
  using assms
  by (auto simp: rte_ring_do_rts_dequeue_elem_def rte_ring_rts_move_cons_head_def rts_cons_loop.simps
      rte_ring_rts_head_wait.simps cas_simps deq_canon_def Let_def rte_ring_rts_update_tail_def
      rts_tail_loop.simps ht_quiet_def ht_advance_def)

section \<open>The queue contract\<close>

lemma ring_free_entries:
  assumes "ring_used r \<le> unat (r_capacity r)"
  shows "unat (r_capacity r + ht_tail (r_cons r) - ht_tail (r_prod r)) = unat (r_capacity r) - ring_used r"
proof -
  have "r_capacity r + ht_tail (r_cons r) - ht_tail (r_prod r)
      = r_capacity r - (ht_tail (r_prod r) - ht_tail (r_cons r))" by simp
  then show ?thesis using assms unfolding ring_used_def by (simp only: unat_sub_le)
qed

lemma ring_wf_capacity:
  assumes "ring_wf w r"
  shows "unat (r_capacity r) < unat (r_size r)" "r_capacity r \<le> r_size r"
  using assms by (auto simp: ring_wf_def word_less_nat_alt word_le_nat_alt)

lemma ring_prod_position:
  assumes "ring_wf w r"
  shows "unat (ht_tail (r_prod r)) mod unat (r_size r)
    = (unat (ht_tail (r_cons r)) + ring_used r) mod unat (r_size r)"
proof -
  obtain j where j: "j < 32" "r_size r = 2 ^ j" using assms by (elim ring_wfE)
  then have S: "unat (r_size r) = 2 ^ j" using slot_index(2) by blast
  have "unat (ht_tail (r_prod r)) mod 2 ^ j
      = unat (ht_tail (r_cons r) + (ht_tail (r_prod r) - ht_tail (r_cons r))) mod 2 ^ j" by simp
  also have "\<dots> = (unat (ht_tail (r_cons r)) + ring_used r) mod 2 ^ j"
    unfolding ring_used_def using j(1) by (intro unat_add_mod_pow2) simp
  finally show ?thesis unfolding S .
qed

lemma ring_chunk_count: "ring_wf w r \<Longrightarrow> length (chunks w (r_mem r)) = unat (r_size r)"
  by (auto simp: ring_wf_def length_chunks)

lemma ring_enqueue_step:
  assumes inv: "ring_inv w r" and fit: "ring_used r + unat c \<le> unat (r_capacity r)"
    and obj: "unat c * w \<le> length obj"
  defines "r' \<equiv> (rte_ring_enqueue_elems r (ht_tail (r_prod r)) obj (of_nat (4 * w)) c)
      \<lparr>r_prod := ht_advance (r_prod r) c\<rparr>"
  shows "ring_inv w r'" and "ring_elems w r' = ring_elems w r @ take (unat c) (chunks w obj)"
proof -
  let ?S = "unat (r_size r)" and ?t = "unat (ht_tail (r_cons r))" and ?objs = "take (unat c) (chunks w obj)"
  have wf: "ring_wf w r" using inv by (simp add: ring_inv_def)
  have cap: "unat (r_capacity r) < ?S" by (rule ring_wf_capacity [OF wf])
  have n: "c \<le> r_size r" using fit cap by (simp add: word_le_nat_alt)
  note st = rte_ring_enqueue_elems_store [OF wf n obj, of "ht_tail (r_prod r)"]
  have used: "ring_used r' = ring_used r + unat c"
    using word_dist_add [of "ht_tail (r_prod r)" "ht_tail (r_cons r)" c] fit
      unsigned_less [of "r_capacity r", where ?'a = nat]
    by (simp add: r'_def ring_used_def)
  have w: "0 < w" using wf by (simp add: ring_wf_def)
  have "unat c \<le> length obj div w" using obj w by (simp add: less_eq_div_iff_mult_less_eq)
  then have k: "length ?objs = unat c" using w by (simp add: length_chunks)
  have mem: "chunks w (r_mem r') = ring_store ?S (?t + ring_used r) (chunks w (r_mem r)) ?objs"
    unfolding r'_def using st(1) ring_store_mod [OF ring_prod_position [OF wf]] by simp
  have fits: "ring_used r + length ?objs \<le> ?S" using fit cap k by simp
  have "ring_elems w r' = ring_load ?S ?t (chunks w (r_mem r')) (ring_used r + unat c)"
    unfolding ring_elems_def used by (simp add: r'_def)
  also have "\<dots> = ring_elems w r @ ?objs"
    unfolding ring_load_add mem ring_elems_def
    using ring_load_store_before [OF fits ring_chunk_count [OF wf], of ?t] ring_chunk_count [OF wf]
      ring_load_store [of ?objs ?S "chunks w (r_mem r)" "?t + ring_used r"] k fit cap
    by simp
  finally show "ring_elems w r' = ring_elems w r @ ?objs" .
  have "ring_wf w r'" using st(2) by (simp add: r'_def ring_wf_def)
  then show "ring_inv w r'" using inv used fit by (simp add: ring_inv_def r'_def)
qed

lemma enq_canon_refines:
  assumes inv: "ring_inv w r" and obj: "unat n * w \<le> length obj"
    and k: "k = admit behavior (unat n) (unat (r_capacity r) - ring_used r)"
  shows "\<exists>r'. enq_canon r obj (of_nat (4 * w)) n behavior
        = (of_nat k, of_nat (unat (r_capacity r) - ring_used r - k), r') \<and>
      ring_inv w r' \<and> r_capacity r' = r_capacity r \<and>
      ring_elems w r' = ring_elems w r @ take k (chunks w obj)"
proof -
  let ?free = "r_capacity r + ht_tail (r_cons r) - ht_tail (r_prod r)"
  let ?c = "clip behavior n ?free"
  have used: "ring_used r \<le> unat (r_capacity r)" using inv by (simp add: ring_inv_def)
  have free: "unat ?free = unat (r_capacity r) - ring_used r" by (rule ring_free_entries [OF used])
  have c: "unat ?c = k" by (simp add: unat_clip free k)
  have words: "of_nat k = ?c" "of_nat (unat (r_capacity r) - ring_used r - k) = ?free - ?c"
    using clip_le(1) [of behavior n ?free]
    by (simp_all add: c [symmetric] free [symmetric] unat_sub_le [symmetric] word_le_nat_alt)
  have fit: "ring_used r + unat ?c \<le> unat (r_capacity r)" "unat ?c * w \<le> length obj"
    using admit_le [of behavior "unat n" "unat (r_capacity r) - ring_used r"] used obj
    by (auto simp: c k elim: order_trans [rotated])
  show ?thesis
    using ring_enqueue_step [OF inv fit] words c inv
    by (cases "?c = 0") (auto simp: enq_canon_def Let_def)
qed

lemma ring_dequeue_step:
  assumes inv: "ring_inv w r" and fit: "unat c \<le> ring_used r"
    and obj: "unat c * w \<le> length obj" "w dvd length obj"
  defines "r' \<equiv> r\<lparr>r_cons := ht_advance (r_cons r) c\<rparr>"
    and "out \<equiv> rte_ring_dequeue_elems r (ht_tail (r_cons r)) obj (of_nat (4 * w)) c"
  shows "ring_inv w r'" and "ring_elems w r' = drop (unat c) (ring_elems w r)"
    and "chunks w out = take (unat c) (ring_elems w r) @ drop (unat c) (chunks w obj)"
    and "length out = length obj"
proof -
  let ?S = "unat (r_size r)" and ?t = "ht_tail (r_cons r)"
  have wf: "ring_wf w r" and used: "ring_used r \<le> unat (r_capacity r)"
    using inv by (auto simp: ring_inv_def)
  have n: "c \<le> r_size r"
    using fit used ring_wf_capacity(1) [OF wf] by (simp add: word_le_nat_alt)
  have used': "ring_used r' = ring_used r - unat c"
    using word_dist_sub [of c "ht_tail (r_prod r)" ?t] fit by (simp add: r'_def ring_used_def)
  have split: "ring_elems w r = ring_load ?S (unat ?t) (chunks w (r_mem r)) (unat c)
      @ ring_load ?S (unat ?t + unat c) (chunks w (r_mem r)) (ring_used r - unat c)"
    using ring_load_add [of ?S "unat ?t" "chunks w (r_mem r)" "unat c" "ring_used r - unat c"] fit
    by (simp add: ring_elems_def)
  show "chunks w out = take (unat c) (ring_elems w r) @ drop (unat c) (chunks w obj)" "length out = length obj"
    unfolding out_def split using rte_ring_dequeue_elems_load [OF wf n obj] by simp_all
  obtain j where j: "j < 32" "r_size r = 2 ^ j" using wf by (elim ring_wfE)
  then have "unat (?t + c) mod ?S = (unat ?t + unat c) mod ?S"
    using slot_index(2) [OF j(2,1)] unat_add_mod_pow2 [of j ?t c] by simp
  then show "ring_elems w r' = drop (unat c) (ring_elems w r)"
    unfolding split using used' ring_load_mod by (simp add: ring_elems_def r'_def) blast
  show "ring_inv w r'" using inv used' by (auto simp: ring_inv_def ring_wf_def r'_def)
qed

lemma deq_canon_refines:
  assumes inv: "ring_inv w r" and obj: "unat n * w \<le> length obj" "w dvd length obj"
    and k: "k = admit behavior (unat n) (ring_used r)"
  shows "\<exists>out r'. deq_canon r obj (of_nat (4 * w)) n behavior = (of_nat k, of_nat (ring_used r - k), out, r') \<and>
      ring_inv w r' \<and> r_capacity r' = r_capacity r \<and>
      ring_elems w r' = drop k (ring_elems w r) \<and>
      chunks w out = take k (ring_elems w r) @ drop k (chunks w obj) \<and> length out = length obj"
proof -
  let ?avail = "ht_tail (r_prod r) - ht_tail (r_cons r)"
  let ?c = "clip behavior n ?avail"
  have c: "unat ?c = k" by (simp add: unat_clip k ring_used_def)
  have words: "of_nat k = ?c" "of_nat (ring_used r - k) = ?avail - ?c"
    using clip_le(1) [of behavior n ?avail]
    by (simp_all add: c [symmetric] ring_used_def unat_sub_le [symmetric] word_le_nat_alt)
  have fit: "unat ?c \<le> ring_used r" "unat ?c * w \<le> length obj"
    using admit_le [of behavior "unat n" "ring_used r"] obj(1)
    by (auto simp: c k elim: order_trans [rotated])
  show ?thesis
    using ring_dequeue_step [OF inv fit obj(2)] words c inv
    by (cases "?c = 0") (auto simp: deq_canon_def Let_def)
qed

text \<open>C6. A bulk or burst enqueue, whatever the synchronisation mode of the ring and the size of
  its elements, always returns; it moves all \<open>n\<close> objects if they fit, otherwise none (bulk) or
  as many as fit (burst); it reports that number and the space left, appends exactly those
  objects to the queue and keeps the ring invariant.\<close>

theorem rte_ring_enqueue_refines_fifo:
  assumes "ring_inv w r" and "unat n * w \<le> length obj"
    and "k = admit behavior (unat n) (unat (r_capacity r) - length (ring_elems w r))"
  shows "\<exists>r'. (if behavior = RTE_RING_QUEUE_FIXED then rte_ring_enqueue_bulk_elem r obj (of_nat (4 * w)) n
               else rte_ring_enqueue_burst_elem r obj (of_nat (4 * w)) n)
        = Some (of_nat k, of_nat (unat (r_capacity r) - length (ring_elems w r) - k), r') \<and>
      ring_inv w r' \<and> r_capacity r' = r_capacity r \<and>
      ring_elems w r' = ring_elems w r @ take k (chunks w obj)"
proof -
  have q: "ht_quiet (r_prod r)" using assms(1) by (simp add: ring_inv_def)
  have "(if behavior = RTE_RING_QUEUE_FIXED then rte_ring_enqueue_bulk_elem r obj (of_nat (4 * w)) n
         else rte_ring_enqueue_burst_elem r obj (of_nat (4 * w)) n)
      = Some (enq_canon r obj (of_nat (4 * w)) n behavior)"
    using q by (cases behavior; cases "ht_sync (r_prod r)")
      (auto simp: enqueue_api_defs do_enqueue_canon do_hts_enqueue_canon do_rts_enqueue_canon)
  with enq_canon_refines [OF assms(1,2)] assms(3) show ?thesis by simp
qed

text \<open>C7. A bulk or burst dequeue always returns; it moves the first \<open>k\<close> objects of the queue
  into the object table in order, leaves the rest of the table alone, removes exactly those
  objects from the queue, reports how many remain and keeps the ring invariant.\<close>

theorem rte_ring_dequeue_refines_fifo:
  assumes "ring_inv w r" and "unat n * w \<le> length obj" and "w dvd length obj"
    and "k = admit behavior (unat n) (length (ring_elems w r))"
  shows "\<exists>out r'. (if behavior = RTE_RING_QUEUE_FIXED then rte_ring_dequeue_bulk_elem r obj (of_nat (4 * w)) n
               else rte_ring_dequeue_burst_elem r obj (of_nat (4 * w)) n)
        = Some (of_nat k, of_nat (length (ring_elems w r) - k), out, r') \<and>
      ring_inv w r' \<and> r_capacity r' = r_capacity r \<and>
      ring_elems w r' = drop k (ring_elems w r) \<and>
      chunks w out = take k (ring_elems w r) @ drop k (chunks w obj) \<and> length out = length obj"
proof -
  have q: "ht_quiet (r_cons r)" using assms(1) by (simp add: ring_inv_def)
  have "(if behavior = RTE_RING_QUEUE_FIXED then rte_ring_dequeue_bulk_elem r obj (of_nat (4 * w)) n
         else rte_ring_dequeue_burst_elem r obj (of_nat (4 * w)) n)
      = Some (deq_canon r obj (of_nat (4 * w)) n behavior)"
    using q by (cases behavior; cases "ht_sync (r_cons r)")
      (auto simp: dequeue_api_defs do_dequeue_canon do_hts_dequeue_canon do_rts_dequeue_canon)
  with deq_canon_refines [OF assms(1,2,3)] assms(4) show ?thesis by simp
qed

section \<open>Inspection functions\<close>

lemma ring_used_mask:
  assumes "ring_inv w r"
  shows "(ht_tail (r_prod r) - ht_tail (r_cons r)) AND r_mask r = ht_tail (r_prod r) - ht_tail (r_cons r)"
proof -
  have wf: "ring_wf w r" and used: "ring_used r \<le> unat (r_capacity r)" using assms by (auto simp: ring_inv_def)
  obtain k where k: "k < 32" "r_size r = 2 ^ k" "r_mask r = r_size r - 1" using wf by (elim ring_wfE)
  have "ring_used r < unat (r_size r)" using used ring_wf_capacity(1) [OF wf] by simp
  then show ?thesis
    unfolding k(3) using slot_index(1) [OF k(2,1), of "ht_tail (r_prod r) - ht_tail (r_cons r)"]
    by (simp add: word_unat_eq_iff ring_used_def)
qed

text \<open>Outside an operation the counters are exact: \<open>rte_ring_count\<close> is the length of the
  queue, \<open>rte_ring_free_count\<close> the remaining capacity, \<open>rte_ring_empty\<close> and
  \<open>rte_ring_full\<close> decide the two extremes, also after the 32-bit indices have wrapped.\<close>

theorem rte_ring_counters_exact:
  assumes "ring_inv w r"
  shows "unat (rte_ring_count r) = length (ring_elems w r) \<and>
    unat (rte_ring_free_count r) = unat (r_capacity r) - length (ring_elems w r) \<and>
    (rte_ring_empty r \<longleftrightarrow> ring_elems w r = []) \<and>
    (rte_ring_full r \<longleftrightarrow> length (ring_elems w r) = unat (r_capacity r))"
proof -
  have used: "ring_used r \<le> unat (r_capacity r)" using assms by (simp add: ring_inv_def)
  have count: "rte_ring_count r = ht_tail (r_prod r) - ht_tail (r_cons r)"
    using ring_used_mask [OF assms] used
    by (simp add: rte_ring_count_def Let_def ring_used_def word_less_nat_alt)
  then have len: "unat (rte_ring_count r) = length (ring_elems w r)" by (simp add: ring_used_def)
  moreover have free: "unat (rte_ring_free_count r) = unat (r_capacity r) - length (ring_elems w r)"
    unfolding rte_ring_free_count_def using len used by (simp add: unat_sub_le)
  moreover have "rte_ring_empty r \<longleftrightarrow> ring_elems w r = []"
    by (auto simp: rte_ring_empty_def ring_used_def length_0_conv [symmetric] unsigned_eq_0_iff
        simp del: length_0_conv)
  moreover have "rte_ring_full r \<longleftrightarrow> length (ring_elems w r) = unat (r_capacity r)"
    using free used by (auto simp: rte_ring_full_def word_unat_eq_iff)
  ultimately show ?thesis by blast
qed

text \<open>The C11 memory-model variants of the head moves and of the tail update compute what the
  generic ones do.\<close>

theorem c11_variant_equals_generic:
  "c11_move_prod_head r single n behavior = rte_ring_move_prod_head r single n behavior \<and>
   c11_move_cons_head r single n behavior = rte_ring_move_cons_head r single n behavior \<and>
   c11_update_tail ht old_val new_val single = rte_ring_update_tail ht old_val new_val single"
  by (cases single)
    (simp_all add: c11_move_prod_head_def c11_move_cons_head_def c11_move_prod_loop.simps c11_move_cons_loop.simps
      rte_ring_move_prod_head.simps rte_ring_move_cons_head.simps cas_simps Let_def c11_update_tail_def
      rte_ring_update_tail_def)

section \<open>The interface for clients\<close>

text \<open>A bounded FIFO queue with bulk operations: all the objects or none.\<close>

locale bounded_fifo =
  fixes inv :: "'r \<Rightarrow> bool" and cap :: "'r \<Rightarrow> nat" and elems :: "'r \<Rightarrow> 'a list"
    and enq :: "'r \<Rightarrow> 'a list \<Rightarrow> (nat \<times> 'r) option"
    and deq :: "'r \<Rightarrow> nat \<Rightarrow> ('a list \<times> 'r) option"
  assumes bounded: "inv r \<Longrightarrow> length (elems r) \<le> cap r"
    and enq_fits: "inv r \<Longrightarrow> length xs < 2 ^ 32 \<Longrightarrow> length (elems r) + length xs \<le> cap r \<Longrightarrow>
      \<exists>r'. enq r xs = Some (length xs, r') \<and> inv r' \<and> cap r' = cap r \<and> elems r' = elems r @ xs"
    and enq_full: "inv r \<Longrightarrow> length xs < 2 ^ 32 \<Longrightarrow> cap r < length (elems r) + length xs \<Longrightarrow>
      enq r xs = Some (0, r)"
    and deq_fits: "inv r \<Longrightarrow> n < 2 ^ 32 \<Longrightarrow> n \<le> length (elems r) \<Longrightarrow>
      \<exists>r'. deq r n = Some (take n (elems r), r') \<and> inv r' \<and> cap r' = cap r \<and> elems r' = drop n (elems r)"
    and deq_short: "inv r \<Longrightarrow> n < 2 ^ 32 \<Longrightarrow> length (elems r) < n \<Longrightarrow> deq r n = Some ([], r)"

datatype 'a fifo_op = Enq "'a list" | Deq nat

text \<open>Running a sequence of calls; the results are the objects accepted, the objects handed
  out, both in order, and the final queue.\<close>

fun fifo_run ::
    "('r \<Rightarrow> 'a list \<Rightarrow> (nat \<times> 'r) option) \<Rightarrow> ('r \<Rightarrow> nat \<Rightarrow> ('a list \<times> 'r) option) \<Rightarrow> 'r \<Rightarrow> 'a fifo_op list
      \<Rightarrow> ('a list \<times> 'a list \<times> 'r) option" where
  "fifo_run enq deq r [] = Some ([], [], r)"
| "fifo_run enq deq r (Enq xs # ops) =
     (case enq r xs of None \<Rightarrow> None
      | Some (k, r') \<Rightarrow> map_option (\<lambda>(i, out, r''). (take k xs @ i, out, r'')) (fifo_run enq deq r' ops))"
| "fifo_run enq deq r (Deq n # ops) =
     (case deq r n of None \<Rightarrow> None
      | Some (ys, r') \<Rightarrow> map_option (\<lambda>(i, out, r''). (i, ys @ out, r'')) (fifo_run enq deq r' ops))"

fun op_size_ok :: "'a fifo_op \<Rightarrow> bool" where
  "op_size_ok (Enq xs) \<longleftrightarrow> length xs < 2 ^ 32"
| "op_size_ok (Deq n) \<longleftrightarrow> n < 2 ^ 32"

context bounded_fifo
begin

lemma enq_total:
  assumes "inv r" "length xs < 2 ^ 32"
  shows "\<exists>k r'. enq r xs = Some (k, r') \<and> inv r' \<and> cap r' = cap r \<and> elems r' = elems r @ take k xs"
  using enq_fits [OF assms] enq_full [OF assms] assms(1)
  by (cases "length (elems r) + length xs \<le> cap r") (fastforce, simp add: not_le)

lemma deq_total:
  assumes "inv r" "n < 2 ^ 32"
  shows "\<exists>ys r'. deq r n = Some (ys, r') \<and> inv r' \<and> cap r' = cap r \<and> elems r = ys @ elems r'"
proof (cases "n \<le> length (elems r)")
  case True
  then show ?thesis using deq_fits [OF assms] by (metis append_take_drop_id)
next
  case False
  then show ?thesis using deq_short [OF assms] assms(1) by simp
qed

lemma run_fifo:
  "inv r \<Longrightarrow> list_all op_size_ok ops \<Longrightarrow>
   \<exists>i out r'. fifo_run enq deq r ops = Some (i, out, r') \<and> inv r' \<and> cap r' = cap r \<and> elems r @ i = out @ elems r'"
proof (induction ops arbitrary: r)
  case (Cons oper ops)
  show ?case
  proof (cases oper)
    case (Enq xs)
    then obtain k r' where "enq r xs = Some (k, r')" "inv r'" "cap r' = cap r" "elems r' = elems r @ take k xs"
      using enq_total [of r xs] Cons.prems by auto
    with Enq Cons.IH [of r'] Cons.prems show ?thesis by fastforce
  next
    case (Deq n)
    then obtain ys r' where "deq r n = Some (ys, r')" "inv r'" "cap r' = cap r" "elems r = ys @ elems r'"
      using deq_total [of r n] Cons.prems by auto
    with Deq Cons.IH [of r'] Cons.prems show ?thesis by fastforce
  qed
qed simp

end

section \<open>Rings of pointers implement the interface\<close>

definition ring_ptrs :: "rte_ring \<Rightarrow> u64 list" where
  "ring_ptrs r = map words_ptr (ring_elems 2 r)"

definition ring_enq :: "rte_ring \<Rightarrow> u64 list \<Rightarrow> (nat \<times> rte_ring) option" where
  "ring_enq r xs = map_option (\<lambda>(n, _, r'). (unat n, r')) (rte_ring_enqueue_bulk r xs (of_nat (length xs)))"

definition ring_deq :: "rte_ring \<Rightarrow> nat \<Rightarrow> (u64 list \<times> rte_ring) option" where
  "ring_deq r n = map_option (\<lambda>(k, _, objs, r'). (take (unat k) objs, r'))
     (rte_ring_dequeue_bulk r (replicate n 0) (of_nat n))"

lemma words_ptr_words [simp]: "words_ptr (ptr_words p) = p"
proof -
  have "bit (words_ptr (ptr_words p)) i = bit p i" if "i < 64" for i
    using that by (auto simp: words_ptr_def ptr_words_def bit_simps)
  then show ?thesis by (intro bit_word_eqI) simp
qed

lemma chunks_ptr_table: "chunks 2 (ptr_table ps) = map ptr_words ps"
  unfolding ptr_table_def by (intro chunks_concat) (auto simp: ptr_words_def)

lemma length_ptr_table: "length (ptr_table ps) = 2 * length ps"
  by (induction ps) (auto simp: ptr_table_def ptr_words_def)

lemma unat_len: "n < 2 ^ 32 \<Longrightarrow> unat (of_nat n :: u32) = n"
  by (simp add: unat_of_nat)

lemma ring_enq_total:
  assumes "ring_inv 2 r" "length xs < 2 ^ 32"
  shows "\<exists>r'. ring_enq r xs = Some (admit RTE_RING_QUEUE_FIXED (length xs) (unat (r_capacity r) - length (ring_ptrs r)), r') \<and>
    ring_inv 2 r' \<and> r_capacity r' = r_capacity r \<and>
    ring_ptrs r' = ring_ptrs r @ take (admit RTE_RING_QUEUE_FIXED (length xs) (unat (r_capacity r) - length (ring_ptrs r))) xs"
proof -
  let ?k = "admit RTE_RING_QUEUE_FIXED (length xs) (unat (r_capacity r) - length (ring_ptrs r))"
  have used: "length (ring_ptrs r) = ring_used r" by (simp add: ring_ptrs_def)
  have "?k < 2 ^ 32" using admit_le(1) assms(2) by (rule le_less_trans)
  then have k: "unat (of_nat ?k :: u32) = ?k" by (rule unat_len)
  have q: "ht_quiet (r_prod r)" using assms(1) by (simp add: ring_inv_def)
  have "rte_ring_enqueue_bulk r xs (of_nat (length xs))
      = Some (enq_canon r (ptr_table xs) 8 (of_nat (length xs)) RTE_RING_QUEUE_FIXED)"
    using q by (cases "ht_sync (r_prod r)")
      (auto simp: rte_ring_enqueue_bulk_def enqueue_api_defs do_enqueue_canon do_hts_enqueue_canon do_rts_enqueue_canon)
  moreover obtain r' where "enq_canon r (ptr_table xs) 8 (of_nat (length xs)) RTE_RING_QUEUE_FIXED
      = (of_nat ?k, of_nat (unat (r_capacity r) - ring_used r - ?k), r')"
    "ring_inv 2 r'" "r_capacity r' = r_capacity r" "ring_elems 2 r' = ring_elems 2 r @ take ?k (map ptr_words xs)"
    using enq_canon_refines [OF assms(1), of "of_nat (length xs)" "ptr_table xs" ?k RTE_RING_QUEUE_FIXED]
      unat_len [OF assms(2)] used by (auto simp: length_ptr_table chunks_ptr_table)
  ultimately show ?thesis
    using k by (simp add: ring_enq_def ring_ptrs_def take_map comp_def)
qed

lemma ring_deq_total:
  assumes "ring_inv 2 r" "n < 2 ^ 32"
  shows "\<exists>r'. ring_deq r n = Some (take (admit RTE_RING_QUEUE_FIXED n (length (ring_ptrs r))) (ring_ptrs r), r') \<and>
    ring_inv 2 r' \<and> r_capacity r' = r_capacity r \<and>
    ring_ptrs r' = drop (admit RTE_RING_QUEUE_FIXED n (length (ring_ptrs r))) (ring_ptrs r)"
proof -
  let ?k = "admit RTE_RING_QUEUE_FIXED n (length (ring_ptrs r))"
  let ?obj = "ptr_table (replicate n 0)"
  have used: "length (ring_ptrs r) = ring_used r" by (simp add: ring_ptrs_def)
  have le: "?k \<le> ring_used r" using admit_le(2) used by metis
  have "?k < 2 ^ 32" using admit_le(1) assms(2) by (rule le_less_trans)
  then have k: "unat (of_nat ?k :: u32) = ?k" by (rule unat_len)
  have q: "ht_quiet (r_cons r)" using assms(1) by (simp add: ring_inv_def)
  have "rte_ring_dequeue_bulk r (replicate n 0) (of_nat n)
      = deq_ptrs (Some (deq_canon r ?obj 8 (of_nat n) RTE_RING_QUEUE_FIXED))"
    using q by (cases "ht_sync (r_cons r)")
      (auto simp: rte_ring_dequeue_bulk_def dequeue_api_defs do_dequeue_canon do_hts_dequeue_canon do_rts_dequeue_canon)
  moreover obtain out r' where "deq_canon r ?obj 8 (of_nat n) RTE_RING_QUEUE_FIXED
      = (of_nat ?k, of_nat (ring_used r - ?k), out, r')"
    "ring_inv 2 r'" "r_capacity r' = r_capacity r" "ring_elems 2 r' = drop ?k (ring_elems 2 r)"
    "chunks 2 out = take ?k (ring_elems 2 r) @ drop ?k (chunks 2 ?obj)"
    using deq_canon_refines [OF assms(1), of "of_nat n" ?obj ?k RTE_RING_QUEUE_FIXED]
      unat_len [OF assms(2)] used by (auto simp: length_ptr_table)
  ultimately show ?thesis
    using k le used by (simp add: ring_deq_def deq_ptrs_def table_ptrs_def ring_ptrs_def take_map drop_map)
qed

interpretation ptr_ring: bounded_fifo "ring_inv 2" "\<lambda>r. unat (r_capacity r)" ring_ptrs ring_enq ring_deq
proof unfold_locales
  fix r assume "ring_inv 2 r"
  then show "length (ring_ptrs r) \<le> unat (r_capacity r)" by (simp add: ring_ptrs_def ring_inv_def)
next
  fix r and xs :: "u64 list"
  assume a: "ring_inv 2 r" "length xs < 2 ^ 32" "length (ring_ptrs r) + length xs \<le> unat (r_capacity r)"
  then have "length xs \<le> unat (r_capacity r) - length (ring_ptrs r)" by linarith
  then have "admit RTE_RING_QUEUE_FIXED (length xs) (unat (r_capacity r) - length (ring_ptrs r)) = length xs"
    by (simp add: admit_def)
  with ring_enq_total [OF a(1,2)] show "\<exists>r'. ring_enq r xs = Some (length xs, r') \<and> ring_inv 2 r' \<and>
      unat (r_capacity r') = unat (r_capacity r) \<and> ring_ptrs r' = ring_ptrs r @ xs" by auto
next
  fix r and xs :: "u64 list"
  assume a: "ring_inv 2 r" "length xs < 2 ^ 32" "unat (r_capacity r) < length (ring_ptrs r) + length xs"
  then have "clip RTE_RING_QUEUE_FIXED (of_nat (length xs)) (r_capacity r + ht_tail (r_cons r) - ht_tail (r_prod r)) = 0"
    using ring_free_entries [of r] unat_len [OF a(2)]
    by (auto simp: clip_def word_less_nat_alt ring_ptrs_def ring_inv_def)
  then show "ring_enq r xs = Some (0, r)"
    using a(1) by (cases "ht_sync (r_prod r)")
      (auto simp: ring_enq_def rte_ring_enqueue_bulk_def enqueue_api_defs do_enqueue_canon do_hts_enqueue_canon
        do_rts_enqueue_canon ring_inv_def enq_canon_def Let_def)
next
  fix r n
  assume a: "ring_inv 2 r" "n < 2 ^ 32" "n \<le> length (ring_ptrs r)"
  then have "admit RTE_RING_QUEUE_FIXED n (length (ring_ptrs r)) = n" by (simp add: admit_def)
  with ring_deq_total [OF a(1,2)] show "\<exists>r'. ring_deq r n = Some (take n (ring_ptrs r), r') \<and> ring_inv 2 r' \<and>
      unat (r_capacity r') = unat (r_capacity r) \<and> ring_ptrs r' = drop n (ring_ptrs r)" by auto
next
  fix r n
  assume a: "ring_inv 2 r" "n < 2 ^ 32" "length (ring_ptrs r) < n"
  then have "clip RTE_RING_QUEUE_FIXED (of_nat n) (ht_tail (r_prod r) - ht_tail (r_cons r)) = 0"
    using unat_len [OF a(2)] by (auto simp: clip_def word_less_nat_alt ring_ptrs_def ring_used_def)
  then show "ring_deq r n = Some ([], r)"
    using a(1) by (cases "ht_sync (r_cons r)")
      (auto simp: ring_deq_def rte_ring_dequeue_bulk_def dequeue_api_defs do_dequeue_canon do_hts_dequeue_canon
        do_rts_dequeue_canon ring_inv_def deq_canon_def deq_ptrs_def Let_def)
qed

text \<open>Any sequence of bulk enqueues and dequeues on a ring of pointers runs to completion,
  and what went in comes out in the same order: the objects accepted, after those already in the
  ring, are the objects handed out followed by those still in the ring. Nothing is lost,
  duplicated or reordered, in any synchronisation mode.\<close>

theorem rte_ring_order_preserved:
  assumes "ring_inv 2 r" and "list_all op_size_ok ops"
  shows "\<exists>i out r'. fifo_run ring_enq ring_deq r ops = Some (i, out, r') \<and> ring_inv 2 r' \<and>
    ring_ptrs r @ i = out @ ring_ptrs r'"
  using ptr_ring.run_fifo [OF assms] by blast

section \<open>A concrete ring\<close>

text \<open>Four slots of pointers, capacity 3, a relaxed-tail producer side whose index has wrapped
  past \<open>2\<^sup>3\<^sup>2\<close> and a multi-thread consumer side that has not: two objects are queued.\<close>

definition ex_ring :: rte_ring where
  "ex_ring = \<lparr>r_flags = 8, r_size = 4, r_mask = 3, r_capacity = 3,
     r_prod = \<lparr>ht_head = 7, ht_tail = 1, ht_sync = RTE_RING_SYNC_MT_RTS, rts_htd_max = 0,
               rts_head_cnt = 7, rts_head_pos = 1\<rparr>,
     r_cons = \<lparr>ht_head = 4294967295, ht_tail = 4294967295, ht_sync = RTE_RING_SYNC_MT, rts_htd_max = 0,
               rts_head_cnt = 0, rts_head_pos = 0\<rparr>,
     r_mem = [20, 0, 99, 0, 98, 0, 10, 0]\<rparr>"

lemma ex_ring_inv: "ring_inv 2 ex_ring"
proof -
  have "\<exists>k \<in> {..<32}. (4 :: u32) = 2 ^ k" by (rule bexI [of _ 2]) auto
  then show ?thesis
    by (simp add: ring_inv_def ring_wf_def ex_ring_def ht_quiet_def ring_used_def)
qed

lemma ex_ring_used: "ring_used ex_ring = 2"
  by (simp add: ring_used_def ex_ring_def)

lemma ex_ring_capacity: "r_capacity ex_ring = 3"
  by (simp add: ex_ring_def)

theorem rte_ring_enqueue_refines_fifo_witness:
  "ring_inv 2 ex_ring \<and>
   (\<exists>r'. rte_ring_enqueue_burst_elem ex_ring [30, 0, 40, 0] 8 2 = Some (1, 0, r') \<and> ring_inv 2 r' \<and>
      ring_elems 2 r' = ring_elems 2 ex_ring @ [[30, 0]])"
  using ex_ring_inv rte_ring_enqueue_refines_fifo [OF ex_ring_inv, of 2 "[30, 0, 40, 0]" 1 RTE_RING_QUEUE_VARIABLE]
  by (auto simp add: admit_def ex_ring_used ex_ring_capacity chunks.simps)

theorem rte_ring_dequeue_refines_fifo_witness:
  "ring_inv 2 ex_ring \<and>
   (\<exists>out r'. rte_ring_dequeue_bulk_elem ex_ring [0, 0, 0, 0] 8 2 = Some (2, 0, out, r') \<and> ring_inv 2 r' \<and>
      chunks 2 out = ring_elems 2 ex_ring)"
  using ex_ring_inv rte_ring_dequeue_refines_fifo [OF ex_ring_inv, of 2 "[0, 0, 0, 0]" 2 RTE_RING_QUEUE_FIXED]
  by (fastforce simp add: admit_def ex_ring_used chunks.simps)

theorem rte_ring_order_preserved_witness:
  "ring_inv 2 ex_ring \<and>
   (\<exists>i out r'. fifo_run ring_enq ring_deq ex_ring [Deq 1, Enq [30, 40], Deq 3] = Some (i, out, r') \<and>
      ring_ptrs ex_ring @ i = out @ ring_ptrs r')"
  using ex_ring_inv rte_ring_order_preserved [OF ex_ring_inv, of "[Deq 1, Enq [30, 40], Deq 3]"] by auto

theorem rte_ring_counters_exact_witness:
  "ring_inv 2 ex_ring \<and> unat (rte_ring_count ex_ring) = 2 \<and> unat (rte_ring_free_count ex_ring) = 1 \<and>
   \<not> rte_ring_empty ex_ring \<and> \<not> rte_ring_full ex_ring"
  using ex_ring_inv rte_ring_counters_exact [OF ex_ring_inv] ex_ring_used ex_ring_capacity
  by (auto simp: length_0_conv [symmetric] simp del: length_0_conv)

end
