(* ===== verification/Rte_Mempool_Correct.thy ===== *)
theory Rte_Mempool_Correct
  imports Rte_Mempool Rte_Ring_Correct "HOL-Library.Multiset"
begin

text \<open>
  Correctness of the object pool. What a pool handler promises is the locale \<open>pool_handler\<close>; the
  ring of this development is shown to keep that promise. Over any handler that does, the pool
  conserves objects: what leaves it with a get is exactly what is no longer free, and what is put
  is free again, whichever lcore's cache it passes through, and the cache array is never overrun.
\<close>

section \<open>What a handler promises\<close>

locale pool_handler =
  fixes ops :: "'d rte_mempool_ops" and hinv :: "'d \<Rightarrow> bool" and held :: "'d \<Rightarrow> u64 multiset"
    and hcap :: "'d \<Rightarrow> nat"
  assumes enqueue_ok: "hinv d \<Longrightarrow> unat n \<le> length tab \<Longrightarrow> 0 < n \<Longrightarrow> size (held d) + unat n \<le> hcap d \<Longrightarrow>
      \<exists>d'. op_enqueue ops d tab n = Some (d', 0) \<and> hinv d' \<and> hcap d' = hcap d \<and>
        held d' = held d + mset (take (unat n) tab)"
    and enqueue_none: "hinv d \<Longrightarrow> \<exists>d' ret. op_enqueue ops d tab 0 = Some (d', ret) \<and> hinv d' \<and>
      hcap d' = hcap d \<and> held d' = held d"
    and dequeue_ok: "hinv d \<Longrightarrow> unat n \<le> length tab \<Longrightarrow> 0 < n \<Longrightarrow> unat n \<le> size (held d) \<Longrightarrow>
      \<exists>d' got. op_dequeue ops d tab n = Some (d', got @ drop (unat n) tab, 0) \<and> length got = unat n \<and>
        hinv d' \<and> hcap d' = hcap d \<and> held d = mset got + held d'"
    and dequeue_short: "hinv d \<Longrightarrow> unat n \<le> length tab \<Longrightarrow> 0 < n \<Longrightarrow> size (held d) < unat n \<Longrightarrow>
      \<exists>ret. op_dequeue ops d tab n = Some (d, tab, ret) \<and> ret < 0"

section \<open>The invariant of a pool\<close>

definition cache_wf :: "u32 \<Rightarrow> rte_mempool_cache \<Rightarrow> bool" where
  "cache_wf cs c \<longleftrightarrow> c_size c = cs \<and> unat cs \<le> 512 \<and> unat cs \<le> unat (c_flushthresh c) \<and>
     unat (c_flushthresh c) \<le> 768 \<and> unat (c_len c) \<le> unat (c_flushthresh c) \<and> length (c_objs c) = 1536"

definition cache_held :: "rte_mempool_cache \<Rightarrow> u64 list" where
  "cache_held c = take (unat (c_len c)) (c_objs c)"

definition caches_wf :: "'d rte_mempool \<Rightarrow> bool" where
  "caches_wf mp \<longleftrightarrow> length (mp_local_cache mp) = RTE_MAX_LCORE \<and>
     (mp_cache_size mp \<noteq> 0 \<longrightarrow> list_all (cache_wf (mp_cache_size mp)) (mp_local_cache mp))"

definition cached_objs :: "'d rte_mempool \<Rightarrow> u64 multiset" where
  "cached_objs mp = (if mp_cache_size mp = 0 then {#}
     else sum_list (map (\<lambda>c. mset (cache_held c)) (mp_local_cache mp)))"

definition pool_wf :: "'d rte_mempool_ops list \<Rightarrow> 'd rte_mempool_ops \<Rightarrow> ('d \<Rightarrow> bool) \<Rightarrow> 'd rte_mempool \<Rightarrow> bool" where
  "pool_wf tbl ops hinv mp \<longleftrightarrow> rte_mempool_get_ops tbl (mp_ops_index mp) = Some ops \<and>
     hinv (mp_pool_data mp) \<and> caches_wf mp"

text \<open>The free objects of a pool: those the handler holds and those in the caches.\<close>

definition free_objs :: "('d \<Rightarrow> u64 multiset) \<Rightarrow> 'd rte_mempool \<Rightarrow> u64 multiset" where
  "free_objs held mp = held (mp_pool_data mp) + cached_objs mp"

text \<open>When a get finds enough objects: in the common pool, or in the cache of the lcore.\<close>

definition get_possible :: "('d \<Rightarrow> u64 multiset) \<Rightarrow> 'd rte_mempool \<Rightarrow> u32 \<Rightarrow> u32 \<Rightarrow> bool" where
  "get_possible held mp lcore n \<longleftrightarrow> unat n \<le> size (held (mp_pool_data mp)) \<or>
     (case cache_at mp (rte_mempool_default_cache mp lcore) of None \<Rightarrow> False
      | Some c \<Rightarrow> n < c_size c \<and> n \<le> c_len c)"

lemma pool_wfD:
  assumes "pool_wf tbl ops hinv mp"
  shows "rte_mempool_get_ops tbl (mp_ops_index mp) = Some ops" "hinv (mp_pool_data mp)"
  using assms by (auto simp: pool_wf_def)

lemma cache_held_length [simp]: "cache_wf cs c \<Longrightarrow> length (cache_held c) = unat (c_len c)"
  by (auto simp: cache_wf_def cache_held_def)

section \<open>Caches inside the pool\<close>

lemma sum_list_update_mset:
  fixes ms :: "'a multiset list"
  assumes "i < length ms"
  shows "sum_list (ms[i := m]) + ms ! i = sum_list ms + m"
  using assms
proof (induction ms arbitrary: i)
  case (Cons x ms)
  then show ?case by (cases i) (auto simp: ac_simps)
qed simp

lemma cached_objs_update:
  assumes "i < length (mp_local_cache mp)" "mp_cache_size mp \<noteq> 0"
  shows "cached_objs (mp\<lparr>mp_local_cache := (mp_local_cache mp)[i := c]\<rparr>) + mset (cache_held (mp_local_cache mp ! i))
    = cached_objs mp + mset (cache_held c)"
  using sum_list_update_mset [of i "map (\<lambda>c. mset (cache_held c)) (mp_local_cache mp)" "mset (cache_held c)"] assms
  by (simp add: cached_objs_def map_update)

lemma caches_wf_update:
  assumes "caches_wf mp" "cache_wf (mp_cache_size mp) c"
  shows "caches_wf (mp\<lparr>mp_local_cache := (mp_local_cache mp)[i := c]\<rparr>)"
proof -
  have "cache_wf (mp_cache_size mp) x" if "x \<in> set ((mp_local_cache mp)[i := c])" "mp_cache_size mp \<noteq> 0" for x
    using set_update_subset_insert [of "mp_local_cache mp" i c] that assms
    by (auto simp: caches_wf_def list_all_iff)
  then show ?thesis using assms(1) by (auto simp: caches_wf_def list_all_iff)
qed

lemma pool_data_frame [simp]:
  "cached_objs (mp\<lparr>mp_pool_data := d\<rparr>) = cached_objs mp"
  "caches_wf (mp\<lparr>mp_pool_data := d\<rparr>) = caches_wf mp"
  by (simp_all add: cached_objs_def caches_wf_def)

lemma default_cache_cases:
  obtains "rte_mempool_default_cache mp lcore = None" "cache_at mp (rte_mempool_default_cache mp lcore) = None"
  | i where "rte_mempool_default_cache mp lcore = Some i" "i < RTE_MAX_LCORE" "mp_cache_size mp \<noteq> 0"
      "cache_at mp (rte_mempool_default_cache mp lcore) = Some (mp_local_cache mp ! i)"
  by (cases "mp_cache_size mp = 0 \<or> RTE_MAX_LCORE \<le> unat lcore")
    (auto simp: rte_mempool_default_cache_def cache_at_def)

lemma cache_at_wf:
  assumes "caches_wf mp" "mp_cache_size mp \<noteq> 0" "i < RTE_MAX_LCORE"
  shows "cache_wf (mp_cache_size mp) (mp_local_cache mp ! i)"
  using assms by (auto simp: caches_wf_def list_all_length)

section \<open>The pop loop\<close>

lemma cache_pop_spec:
  assumes "n \<le> Suc (unat len)" "unat len < length objs" "index + n \<le> length tab"
  shows "cache_pop objs len index n tab =
    Some (take index tab @ rev (take n (drop (Suc (unat len) - n) objs)) @ drop (index + n) tab)"
  using assms
proof (induction n arbitrary: len index tab)
  case (Suc n)
  show ?case
  proof (cases "n = 0")
    case True
    then show ?thesis using Suc.prems
      by (simp add: upd_conv_take_nth_drop take_Suc_conv_app_nth take_Suc hd_drop_conv_nth)
  next
    case False
    then have pos: "0 < unat len" and le: "n \<le> unat len" using Suc.prems by auto
    have sub: "unat (len - 1) = unat len - 1"
      using pos unat_sub_le [of 1 len] by simp
    have "cache_pop objs len index (Suc n) tab =
      cache_pop objs (len - 1) (Suc index) n (tab[index := objs ! unat len])"
      using Suc.prems by simp
    also have "\<dots> = Some (take (Suc index) (tab[index := objs ! unat len]) @
        rev (take n (drop (Suc (unat (len - 1)) - n) objs)) @ drop (Suc index + n) (tab[index := objs ! unat len]))"
      using Suc.prems le pos by (intro Suc.IH) (auto simp: sub)
    also have "take (Suc index) (tab[index := objs ! unat len]) = take index tab @ [objs ! unat len]"
      using Suc.prems by (simp add: take_Suc_conv_app_nth)
    finally have run: "cache_pop objs len index (Suc n) tab = Some ((take index tab @ [objs ! unat len]) @
        rev (take n (drop (Suc (unat (len - 1)) - n) objs)) @ drop (Suc index + n) (tab[index := objs ! unat len]))" .
    have "rev (take (Suc n) (drop (Suc (unat len) - Suc n) objs)) =
        objs ! unat len # rev (take n (drop (Suc (unat (len - 1)) - n) objs))"
      using le pos Suc.prems by (simp add: sub take_Suc_conv_app_nth)
    then show ?thesis using run by (simp add: sub)
  qed
qed simp

text \<open>Popping \<open>n\<close> objects off a cache that holds at least so many.\<close>

lemma pop_spec:
  assumes "unat (c_len c) \<le> length (c_objs c)" "n \<le> c_len c" "unat n \<le> length tab" "0 < n"
  defines "got \<equiv> rev (drop (unat (c_len c) - unat n) (cache_held c))"
  shows "cache_pop (c_objs c) (c_len c - 1) 0 (unat n) tab = Some (got @ drop (unat n) tab)"
    and "unat (c_len c - n) = unat (c_len c) - unat n"
    and "length got = unat n"
    and "mset (cache_held c) = mset got + mset (cache_held (c\<lparr>c_len := c_len c - n\<rparr>))"
proof -
  have le: "unat n \<le> unat (c_len c)" and pos: "0 < unat n"
    using assms by (auto simp: word_le_nat_alt word_less_nat_alt)
  have one: "unat (c_len c - 1) = unat (c_len c) - 1" using le pos unat_sub_le [of 1 "c_len c"] by simp
  show len: "unat (c_len c - n) = unat (c_len c) - unat n" using le by (rule unat_sub_le)
  show "length got = unat n" using assms(1) le by (simp add: got_def cache_held_def)
  show "cache_pop (c_objs c) (c_len c - 1) 0 (unat n) tab = Some (got @ drop (unat n) tab)"
    using assms(1,3) le pos
    by (subst cache_pop_spec) (auto simp: one got_def cache_held_def drop_take)
  have "cache_held (c\<lparr>c_len := c_len c - n\<rparr>) = take (unat (c_len c) - unat n) (cache_held c)"
    using le by (simp add: cache_held_def len min_def)
  then show "mset (cache_held c) = mset got + mset (cache_held (c\<lparr>c_len := c_len c - n\<rparr>))"
    unfolding got_def by (metis append_take_drop_id mset_append mset_rev union_commute)
qed

section \<open>Puts and gets over any handler\<close>

context pool_handler
begin

lemma enqueue_any:
  assumes "hinv d" "unat n \<le> length tab" "size (held d) + unat n \<le> hcap d"
  shows "\<exists>d' ret. op_enqueue ops d tab n = Some (d', ret) \<and> hinv d' \<and> hcap d' = hcap d \<and>
    held d' = held d + mset (take (unat n) tab)"
proof (cases "n = 0")
  case True
  then show ?thesis using enqueue_none [OF assms(1), of tab] assms by auto
next
  case False
  then show ?thesis using enqueue_ok [OF assms(1,2) _ assms(3)] by (auto simp: word_neq_0_conv)
qed

lemma ops_enqueue_spec:
  assumes "rte_mempool_get_ops tbl (mp_ops_index mp) = Some ops" "hinv (mp_pool_data mp)"
    "unat n \<le> length tab" "size (held (mp_pool_data mp)) + unat n \<le> hcap (mp_pool_data mp)"
  obtains d' ret where "rte_mempool_ops_enqueue_bulk tbl mp tab n = Some (mp\<lparr>mp_pool_data := d'\<rparr>, ret)"
    "hinv d'" "hcap d' = hcap (mp_pool_data mp)" "held d' = held (mp_pool_data mp) + mset (take (unat n) tab)"
  using enqueue_any [OF assms(2-4)] assms(1) by (auto simp: rte_mempool_ops_enqueue_bulk_def)

lemma ops_dequeue_spec:
  assumes "rte_mempool_get_ops tbl (mp_ops_index mp) = Some ops" "hinv (mp_pool_data mp)"
    "unat n \<le> length tab" "0 < n"
  obtains (ok) d' got where "unat n \<le> size (held (mp_pool_data mp))"
      "rte_mempool_ops_dequeue_bulk tbl mp tab n = Some (mp\<lparr>mp_pool_data := d'\<rparr>, got @ drop (unat n) tab, 0)"
      "length got = unat n" "hinv d'" "hcap d' = hcap (mp_pool_data mp)"
      "held (mp_pool_data mp) = mset got + held d'"
  | (short) ret where "size (held (mp_pool_data mp)) < unat n" "ret < 0"
      "rte_mempool_ops_dequeue_bulk tbl mp tab n = Some (mp, tab, ret)"
proof (cases "unat n \<le> size (held (mp_pool_data mp))")
  case True
  then show ?thesis using dequeue_ok [OF assms(2-4)] ok assms(1)
    by (fastforce simp: rte_mempool_ops_dequeue_bulk_def)
next
  case False
  then show ?thesis using dequeue_short [OF assms(2-4)] short assms(1)
    by (fastforce simp: rte_mempool_ops_dequeue_bulk_def)
qed

lemma put_cached:
  assumes ops: "rte_mempool_get_ops tbl (mp_ops_index mp) = Some ops" "hinv (mp_pool_data mp)"
    and wf: "cache_wf cs c" and n: "unat n \<le> length tab" "n \<le> RTE_MEMPOOL_CACHE_MAX_SIZE"
    and room: "size (held (mp_pool_data mp)) + unat (c_len c) + unat n \<le> hcap (mp_pool_data mp)"
  shows "\<exists>d' c'. rte_mempool_do_generic_put tbl mp tab n (Some c) = Some (mp\<lparr>mp_pool_data := d'\<rparr>, Some c') \<and>
    cache_wf cs c' \<and> hinv d' \<and> hcap d' = hcap (mp_pool_data mp) \<and>
    held d' + mset (cache_held c') = held (mp_pool_data mp) + mset (cache_held c) + mset (take (unat n) tab)"
proof -
  define objs where "objs = take (unat (c_len c)) (c_objs c) @ take (unat n) tab @ drop (unat (c_len c) + unat n) (c_objs c)"
  define c1 where "c1 = c\<lparr>c_objs := objs, c_len := c_len c + n\<rparr>"
  have small: "\<not> RTE_MEMPOOL_CACHE_MAX_SIZE < n" using n(2) by (simp add: not_less)
  have n512: "unat n \<le> 512" using n(2) by (simp add: word_le_nat_alt)
  have fit: "unat (c_len c) + unat n \<le> 1280" using wf n512 by (auto simp: cache_wf_def)
  have len1: "unat (c_len c1) = unat (c_len c) + unat n"
    unfolding c1_def using fit by (simp add: unat_add_lt)
  have cpy: "memcpy_objs (c_objs c) (unat (c_len c)) tab (unat n) = Some objs"
    using fit wf n by (simp add: memcpy_objs_def objs_def cache_wf_def)
  have lobjs: "length objs = 1536" using wf fit n by (simp add: objs_def cache_wf_def)
  have held1: "mset (cache_held c1) = mset (cache_held c) + mset (take (unat n) tab)"
    unfolding cache_held_def len1 using wf fit n
    by (simp add: c1_def objs_def cache_wf_def)
  have cs: "c_size c1 = c_size c" "c_flushthresh c1 = c_flushthresh c" "c_objs c1 = objs"
    by (simp_all add: c1_def)
  show ?thesis
  proof (cases "c_flushthresh c1 \<le> c_len c1")
    case False
    then have "cache_wf cs c1" using wf lobjs by (auto simp: cache_wf_def cs word_le_nat_alt)
    then show ?thesis using False cpy held1 small ops
      by (intro exI [of _ "mp_pool_data mp"] exI [of _ c1])
        (simp add: rte_mempool_do_generic_put_def c1_def Let_def)
  next
    case True
    define k where "k = c_len c1 - c_size c1"
    have le: "unat (c_size c1) \<le> unat (c_len c1)"
      using True wf by (auto simp: cache_wf_def cs word_le_nat_alt)
    then have k: "unat k = unat (c_len c1) - unat (c_size c1)" by (simp add: k_def unat_sub_le)
    have fits: "unat k \<le> length (drop (unat (c_size c1)) (c_objs c1))"
      "size (held (mp_pool_data mp)) + unat k \<le> hcap (mp_pool_data mp)"
      using k le lobjs fit room len1 by (auto simp: cs)
    obtain d' ret where E: "rte_mempool_ops_enqueue_bulk tbl mp (drop (unat (c_size c1)) (c_objs c1)) k =
        Some (mp\<lparr>mp_pool_data := d'\<rparr>, ret)" "hinv d'" "hcap d' = hcap (mp_pool_data mp)"
      "held d' = held (mp_pool_data mp) + mset (take (unat k) (drop (unat (c_size c1)) (c_objs c1)))"
      using ops_enqueue_spec [OF ops fits] by blast
    define c2 where "c2 = c1\<lparr>c_len := c_size c1\<rparr>"
    have "cache_held c1 = cache_held c2 @ take (unat k) (drop (unat (c_size c1)) (c_objs c1))"
      using take_add [of "unat (c_size c1)" "unat k" "c_objs c1"] le by (simp add: cache_held_def c2_def k)
    then have "held d' + mset (cache_held c2) = held (mp_pool_data mp) + mset (cache_held c) + mset (take (unat n) tab)"
      using E(4) held1 by (simp add: ac_simps)
    moreover have "cache_wf cs c2" using wf lobjs by (auto simp: cache_wf_def c2_def cs)
    moreover have "rte_mempool_do_generic_put tbl mp tab n (Some c) = Some (mp\<lparr>mp_pool_data := d'\<rparr>, Some c2)"
      using True cpy small E(1) by (simp add: rte_mempool_do_generic_put_def c1_def c2_def k_def Let_def)
    ultimately show ?thesis using E by blast
  qed
qed

text \<open>A get that the cache serves, after a refill or without one; the array is large enough
  for both.\<close>

lemma get_cached:
  assumes ops: "rte_mempool_get_ops tbl (mp_ops_index mp) = Some ops" "hinv (mp_pool_data mp)"
    and wf: "cache_wf cs c" and n: "unat n \<le> length tab" "0 < n"
  obtains (ok) d' c' got where
      "rte_mempool_do_generic_get tbl mp tab n (Some c) = Some (mp\<lparr>mp_pool_data := d'\<rparr>, Some c', got @ drop (unat n) tab, 0)"
      "cache_wf cs c'" "hinv d'" "hcap d' = hcap (mp_pool_data mp)" "length got = unat n"
      "held (mp_pool_data mp) + mset (cache_held c) = mset got + (held d' + mset (cache_held c'))"
      "unat n \<le> size (held (mp_pool_data mp)) \<or> n < cs \<and> n \<le> c_len c"
  | (short) ret where "rte_mempool_do_generic_get tbl mp tab n (Some c) = Some (mp, Some c, tab, ret)" "ret < 0"
      "size (held (mp_pool_data mp)) < unat n" "cs \<le> n \<or> c_len c < n"
proof -
  let ?d = "mp_pool_data mp"
  have direct: thesis if *: "rte_mempool_do_generic_get tbl mp tab n (Some c) =
      do {(mp', tab', ret) \<leftarrow> rte_mempool_ops_dequeue_bulk tbl mp tab n; Some (mp', Some c, tab', ret)}"
    and cond: "cs \<le> n \<or> c_len c < n"
  proof (cases rule: ops_dequeue_spec [OF ops n, case_names full low])
    case (full d' got)
    then show thesis using * wf by (intro ok [of d' c got]) (auto simp: ac_simps)
  next
    case (low ret)
    then show thesis using * cond by (intro short [of ret]) auto
  qed
  have cs: "c_size c = cs" "unat cs \<le> 512" "length (c_objs c) = 1536" "unat (c_len c) \<le> 768"
    "unat cs \<le> unat (c_flushthresh c)" "unat (c_flushthresh c) \<le> 768"
    using wf by (auto simp: cache_wf_def)
  have served: thesis
    if get: "rte_mempool_do_generic_get tbl mp tab n (Some c) =
        do {tab' \<leftarrow> cache_pop (c_objs c1) (c_len c1 - 1) 0 (unat n) tab;
          Some (mp\<lparr>mp_pool_data := d'\<rparr>, Some (c1\<lparr>c_len := c_len c1 - n\<rparr>), tab', 0)}"
      and c1: "n \<le> c_len c1" "c_size c1 = cs" "c_flushthresh c1 = c_flushthresh c" "length (c_objs c1) = 1536"
        "unat (c_len c1) \<le> 1536" "unat (c_len c1) - unat n \<le> unat (c_flushthresh c)"
      and d': "hinv d'" "hcap d' = hcap ?d" "held ?d + mset (cache_held c) = held d' + mset (cache_held c1)"
      and cond: "unat n \<le> size (held ?d) \<or> n < cs \<and> n \<le> c_len c" for c1 d'
  proof -
    have "unat (c_len c1) \<le> length (c_objs c1)" using c1 by simp
    note pop = pop_spec [OF this c1(1) n]
    have "cache_wf cs (c1\<lparr>c_len := c_len c1 - n\<rparr>)" using c1 cs by (simp add: cache_wf_def pop(2))
    moreover have "rte_mempool_do_generic_get tbl mp tab n (Some c) = Some (mp\<lparr>mp_pool_data := d'\<rparr>,
        Some (c1\<lparr>c_len := c_len c1 - n\<rparr>), rev (drop (unat (c_len c1) - unat n) (cache_held c1)) @ drop (unat n) tab, 0)"
      using get pop(1) by simp
    moreover have "held ?d + mset (cache_held c) = mset (rev (drop (unat (c_len c1) - unat n) (cache_held c1))) +
        (held d' + mset (cache_held (c1\<lparr>c_len := c_len c1 - n\<rparr>)))"
      using d'(3) pop(4) by (simp add: ac_simps)
    ultimately show thesis using pop(3) d'(1,2) cond ok by blast
  qed
  consider "cs \<le> n" | "n < cs" "c_len c < n" | "n < cs" "n \<le> c_len c" by fastforce
  then show thesis
  proof cases
    case 1
    then show thesis by (intro direct) (auto simp: rte_mempool_do_generic_get_def cs Let_def)
  next
    case 2
    define req where "req = n + (cs - c_len c)"
    define off where "off = unat (c_len c)"
    have branch: "(cs \<le> n) = False" using 2 by (simp add: not_le)
    have lt: "unat n < unat cs" "off < unat n" using 2 by (auto simp: word_less_nat_alt off_def)
    have "unat (cs - c_len c) = unat cs - off" using lt by (simp add: off_def unat_sub_le)
    then have ureq: "unat req = unat n + unat cs - off"
      unfolding req_def using lt cs by (subst unat_add_lt) auto
    have rn: "unat req \<le> length (drop off (c_objs c))" "0 < req"
      using ureq lt cs by (auto simp: word_less_nat_alt)
    show thesis
    proof (cases rule: ops_dequeue_spec [OF ops rn, case_names full low])
      case (full d' got)
      define c1 where "c1 = c\<lparr>c_objs := take off (c_objs c) @ got @ drop (unat req) (drop off (c_objs c)), c_len := c_len c + req\<rparr>"
      have len1: "unat (c_len c1) = unat n + unat cs"
        unfolding c1_def using ureq lt cs by (simp add: unat_add_lt off_def)
      have h1: "cache_held c1 = cache_held c @ got"
        unfolding cache_held_def len1 using full(3) ureq lt cs by (simp add: c1_def off_def)
      have "unat n \<le> size (held ?d)" using full(1) ureq lt by simp
      moreover have "rte_mempool_do_generic_get tbl mp tab n (Some c) =
        do {tab' \<leftarrow> cache_pop (c_objs c1) (c_len c1 - 1) 0 (unat n) tab;
          Some (mp\<lparr>mp_pool_data := d'\<rparr>, Some (c1\<lparr>c_len := c_len c1 - n\<rparr>), tab', 0)}"
        using 2 full(2) by (simp add: rte_mempool_do_generic_get_def branch cs(1) Let_def req_def off_def not_le c1_def)
      moreover have "n \<le> c_len c1" "c_size c1 = cs" "c_flushthresh c1 = c_flushthresh c" "length (c_objs c1) = 1536"
        using full(3) ureq lt cs len1 rn by (auto simp: c1_def word_le_nat_alt)
      moreover have "unat (c_len c1) \<le> 1536" "unat (c_len c1) - unat n \<le> unat (c_flushthresh c)"
        using len1 lt cs by auto
      ultimately show thesis using full h1 by (intro served [of c1 d']) (auto simp: ac_simps)
    next
      case (low ret)
      have "take off (c_objs c) @ drop off (c_objs c) = c_objs c" by simp
      then have "c\<lparr>c_objs := take off (c_objs c) @ drop off (c_objs c)\<rparr> = c" by simp
      then show thesis using 2 low
        by (intro direct) (auto simp: rte_mempool_do_generic_get_def cs Let_def req_def off_def not_le)
    qed
  next
    case 3
    then have branch: "(cs \<le> n) = False" "(c_len c < n) = False" by (simp_all add: not_le not_less)
    have "rte_mempool_do_generic_get tbl mp tab n (Some c) =
        do {tab' \<leftarrow> cache_pop (c_objs c) (c_len c - 1) 0 (unat n) tab;
          Some (mp\<lparr>mp_pool_data := ?d\<rparr>, Some (c\<lparr>c_len := c_len c - n\<rparr>), tab', 0)}"
      by (simp add: rte_mempool_do_generic_get_def branch cs(1) Let_def)
    then show thesis by (rule served) (use 3 cs ops wf in \<open>auto simp: cache_wf_def\<close>)
  qed
qed

lemma uncached:
  "rte_mempool_do_generic_put tbl mp tab n None =
    do {(mp', ret) \<leftarrow> rte_mempool_ops_enqueue_bulk tbl mp tab n; Some (mp', None)}"
  "RTE_MEMPOOL_CACHE_MAX_SIZE < n \<Longrightarrow> rte_mempool_do_generic_put tbl mp tab n (Some c) =
    do {(mp', ret) \<leftarrow> rte_mempool_ops_enqueue_bulk tbl mp tab n; Some (mp', Some c)}"
  "rte_mempool_do_generic_get tbl mp tab n None =
    do {(mp', tab', ret) \<leftarrow> rte_mempool_ops_dequeue_bulk tbl mp tab n; Some (mp', None, tab', ret)}"
  by (simp_all add: rte_mempool_do_generic_put_def rte_mempool_do_generic_get_def Let_def)

lemma put_some:
  assumes "rte_mempool_get_ops tbl (mp_ops_index mp) = Some ops" "hinv (mp_pool_data mp)"
    "cache_wf cs c" "unat n \<le> length tab"
    "size (held (mp_pool_data mp)) + unat (c_len c) + unat n \<le> hcap (mp_pool_data mp)"
  shows "\<exists>d' c'. rte_mempool_do_generic_put tbl mp tab n (Some c) = Some (mp\<lparr>mp_pool_data := d'\<rparr>, Some c') \<and>
    cache_wf cs c' \<and> hinv d' \<and> hcap d' = hcap (mp_pool_data mp) \<and>
    held d' + mset (cache_held c') = held (mp_pool_data mp) + mset (cache_held c) + mset (take (unat n) tab)"
proof (cases "RTE_MEMPOOL_CACHE_MAX_SIZE < n")
  case True
  have room: "size (held (mp_pool_data mp)) + unat n \<le> hcap (mp_pool_data mp)" using assms(5) by linarith
  obtain d' ret where "rte_mempool_ops_enqueue_bulk tbl mp tab n = Some (mp\<lparr>mp_pool_data := d'\<rparr>, ret)" "hinv d'"
    "hcap d' = hcap (mp_pool_data mp)" "held d' = held (mp_pool_data mp) + mset (take (unat n) tab)"
    by (rule ops_enqueue_spec [OF assms(1,2,4) room])
  then show ?thesis using assms(3)
    by (intro exI [of _ d'] exI [of _ c]) (simp add: uncached(2) [OF True] ac_simps)
next
  case False
  then show ?thesis using put_cached [OF assms(1-4) _ assms(5)] by (simp add: not_less)
qed

text \<open>Writing a well-formed cache back to its place.\<close>

lemma write_back:
  assumes "pool_wf tbl ops hinv mp" "i < RTE_MAX_LCORE" "mp_cache_size mp \<noteq> 0" "cache_wf (mp_cache_size mp) c'" "hinv d'"
  defines "mp' \<equiv> cache_write (Some i) (Some c') (mp\<lparr>mp_pool_data := d'\<rparr>)"
  shows "pool_wf tbl ops hinv mp'" "mp_pool_data mp' = d'"
    and "free_objs held mp' + mset (cache_held (mp_local_cache mp ! i)) = held d' + cached_objs mp + mset (cache_held c')"
proof -
  have wf: "caches_wf (mp\<lparr>mp_pool_data := d'\<rparr>)" using assms(1) by (simp add: pool_wf_def)
  show "pool_wf tbl ops hinv mp'"
    using caches_wf_update [OF wf, of c' i] assms by (simp add: pool_wf_def mp'_def cache_write_def)
  show "mp_pool_data mp' = d'" by (simp add: mp'_def cache_write_def)
  have "i < length (mp_local_cache (mp\<lparr>mp_pool_data := d'\<rparr>))" using assms by (simp add: pool_wf_def caches_wf_def)
  from cached_objs_update [OF this, of c'] assms(3)
  show "free_objs held mp' + mset (cache_held (mp_local_cache mp ! i)) = held d' + cached_objs mp + mset (cache_held c')"
    by (simp add: free_objs_def mp'_def cache_write_def add.assoc)
qed

lemma cached_part:
  assumes "caches_wf mp" "i < RTE_MAX_LCORE" "mp_cache_size mp \<noteq> 0"
  shows "unat (c_len (mp_local_cache mp ! i)) \<le> size (cached_objs mp)"
proof -
  let ?c = "mp_local_cache mp ! i"
  have "i < length (mp_local_cache mp)" using assms by (simp add: caches_wf_def)
  from cached_objs_update [OF this assms(3), of "?c\<lparr>c_len := 0\<rparr>"]
  have "mset (cache_held ?c) \<subseteq># cached_objs mp"
    by (simp add: cache_held_def) (metis mset_subset_eq_add_right)
  then have "length (cache_held ?c) \<le> size (cached_objs mp)" using size_mset_mono by fastforce
  then show ?thesis using cache_at_wf [OF assms(1,3,2)] by simp
qed

lemma put_bulk_spec:
  assumes wf: "pool_wf tbl ops hinv mp" and n: "unat n \<le> length tab"
    and room: "size (free_objs held mp) + unat n \<le> hcap (mp_pool_data mp)"
  shows "\<exists>mp'. rte_mempool_put_bulk tbl lcore mp tab n = Some mp' \<and> pool_wf tbl ops hinv mp' \<and>
    hcap (mp_pool_data mp') = hcap (mp_pool_data mp) \<and>
    free_objs held mp' = free_objs held mp + mset (take (unat n) tab)"
proof (cases rule: default_cache_cases [of mp lcore])
  note o = pool_wfD [OF wf]
  case 1
  have r: "size (held (mp_pool_data mp)) + unat n \<le> hcap (mp_pool_data mp)" using room by (simp add: free_objs_def)
  obtain d' ret where E: "rte_mempool_ops_enqueue_bulk tbl mp tab n = Some (mp\<lparr>mp_pool_data := d'\<rparr>, ret)" "hinv d'"
    "hcap d' = hcap (mp_pool_data mp)" "held d' = held (mp_pool_data mp) + mset (take (unat n) tab)"
    by (rule ops_enqueue_spec [OF o n r])
  have "rte_mempool_put_bulk tbl lcore mp tab n = Some (mp\<lparr>mp_pool_data := d'\<rparr>)"
    using 1 E(1) by (simp add: rte_mempool_put_bulk_def rte_mempool_generic_put_def uncached cache_write_def)
  then show ?thesis using wf E(2-4) by (simp add: pool_wf_def free_objs_def)
next
  case (2 i)
  let ?c = "mp_local_cache mp ! i"
  have cwf: "caches_wf mp" using wf by (simp add: pool_wf_def)
  have "size (held (mp_pool_data mp)) + unat (c_len ?c) + unat n \<le> hcap (mp_pool_data mp)"
    using cached_part [OF cwf 2(2,3)] room by (simp add: free_objs_def)
  then obtain d' c' where put: "rte_mempool_do_generic_put tbl mp tab n (Some ?c) = Some (mp\<lparr>mp_pool_data := d'\<rparr>, Some c')"
    and c': "cache_wf (mp_cache_size mp) c'" "hinv d'" "hcap d' = hcap (mp_pool_data mp)"
    and sum: "held d' + mset (cache_held c') = held (mp_pool_data mp) + mset (cache_held ?c) + mset (take (unat n) tab)"
    using put_some [OF pool_wfD [OF wf] cache_at_wf [OF cwf 2(3,2)] n] by blast
  note wb = write_back [OF wf 2(2,3) c'(1,2)]
  have "free_objs held (cache_write (Some i) (Some c') (mp\<lparr>mp_pool_data := d'\<rparr>)) + mset (cache_held ?c)
      = free_objs held mp + mset (take (unat n) tab) + mset (cache_held ?c)"
    unfolding wb(3) using sum by (simp add: free_objs_def ac_simps)
  then show ?thesis using put wb(1,2) c'(3) 2
    by (simp add: rte_mempool_put_bulk_def rte_mempool_generic_put_def)
qed

lemma get_bulk_spec:
  assumes wf: "pool_wf tbl ops hinv mp" and n: "unat n \<le> length tab" "0 < n"
  shows "if get_possible held mp lcore n
    then \<exists>mp' got. rte_mempool_get_bulk tbl lcore mp tab n = Some (mp', got @ drop (unat n) tab, 0) \<and>
      length got = unat n \<and> pool_wf tbl ops hinv mp' \<and> hcap (mp_pool_data mp') = hcap (mp_pool_data mp) \<and>
      free_objs held mp = mset got + free_objs held mp'
    else \<exists>ret < 0. rte_mempool_get_bulk tbl lcore mp tab n = Some (mp, tab, ret)"
proof (cases rule: default_cache_cases [of mp lcore])
  note o = pool_wfD [OF wf]
  case nocache: 1
  show ?thesis
  proof (cases rule: ops_dequeue_spec [OF o n])
    case (1 d' got)
    have "rte_mempool_get_bulk tbl lcore mp tab n = Some (mp\<lparr>mp_pool_data := d'\<rparr>, got @ drop (unat n) tab, 0)"
      using 1(2) nocache by (simp add: rte_mempool_get_bulk_def rte_mempool_generic_get_def uncached cache_write_def)
    moreover have "get_possible held mp lcore n" using 1(1) by (simp add: get_possible_def)
    ultimately show ?thesis using wf 1(3-6) by (simp add: pool_wf_def free_objs_def add.assoc)
  next
    case (2 ret)
    have "rte_mempool_get_bulk tbl lcore mp tab n = Some (mp, tab, ret)"
      using 2(3) nocache by (simp add: rte_mempool_get_bulk_def rte_mempool_generic_get_def uncached cache_write_def)
    moreover have "\<not> get_possible held mp lcore n" using 2(1) nocache by (simp add: get_possible_def)
    ultimately show ?thesis using 2(2) by simp
  qed
next
  note o = pool_wfD [OF wf]
  case cache: (2 i)
  let ?c = "mp_local_cache mp ! i"
  have cwf: "caches_wf mp" using wf by (simp add: pool_wf_def)
  note c = cache_at_wf [OF cwf cache(3,2)]
  then have sz: "c_size ?c = mp_cache_size mp" by (simp add: cache_wf_def)
  show ?thesis
  proof (cases rule: get_cached [OF o c n])
    case (1 d' c' got)
    note wb = write_back [OF wf cache(2,3) 1(2,3)]
    have "mset got + free_objs held (cache_write (Some i) (Some c') (mp\<lparr>mp_pool_data := d'\<rparr>)) + mset (cache_held ?c)
        = free_objs held mp + mset (cache_held ?c)"
      using wb(3) 1(6) by (simp add: free_objs_def ac_simps)
    moreover have "get_possible held mp lcore n" using 1(7) cache(4) sz by (auto simp: get_possible_def)
    moreover have "rte_mempool_get_bulk tbl lcore mp tab n =
        Some (cache_write (Some i) (Some c') (mp\<lparr>mp_pool_data := d'\<rparr>), got @ drop (unat n) tab, 0)"
      using 1(1) cache by (simp add: rte_mempool_get_bulk_def rte_mempool_generic_get_def)
    ultimately show ?thesis using wb(1,2) 1(4,5) by auto
  next
    case (2 ret)
    have "cache_write (Some i) (Some ?c) mp = mp" by (simp add: cache_write_def)
    then have "rte_mempool_get_bulk tbl lcore mp tab n = Some (mp, tab, ret)"
      using 2(1) cache by (simp add: rte_mempool_get_bulk_def rte_mempool_generic_get_def)
    moreover have "\<not> get_possible held mp lcore n" using 2(3,4) cache(4) sz by (auto simp: get_possible_def)
    ultimately show ?thesis using 2(2) by simp
  qed
qed

lemma flush_spec:
  assumes wf: "pool_wf tbl ops hinv mp" and room: "size (free_objs held mp) \<le> hcap (mp_pool_data mp)"
  shows "\<exists>mp'. rte_mempool_cache_flush tbl lcore None mp = Some (mp', None) \<and> pool_wf tbl ops hinv mp' \<and>
    hcap (mp_pool_data mp') = hcap (mp_pool_data mp) \<and> free_objs held mp' = free_objs held mp \<and>
    (case cache_at mp' (rte_mempool_default_cache mp' lcore) of None \<Rightarrow> True | Some c \<Rightarrow> c_len c = 0)"
proof (cases rule: default_cache_cases [of mp lcore])
  case 1
  then show ?thesis using wf by (simp add: rte_mempool_cache_flush_def cache_flush_one_def cache_write_def)
next
  case (2 i)
  let ?c = "mp_local_cache mp ! i"
  have cwf: "caches_wf mp" and i: "i < length (mp_local_cache mp)"
    using wf 2 by (auto simp: pool_wf_def caches_wf_def)
  note c = cache_at_wf [OF cwf 2(3,2)]
  show ?thesis
  proof (cases "c_len ?c = 0")
    case True
    then show ?thesis using 2 wf by (simp add: rte_mempool_cache_flush_def cache_flush_one_def cache_write_def)
  next
    case False
    have lo: "unat (c_len ?c) \<le> length (c_objs ?c)" using c by (auto simp: cache_wf_def)
    have r: "size (held (mp_pool_data mp)) + unat (c_len ?c) \<le> hcap (mp_pool_data mp)"
      using cached_part [OF cwf 2(2,3)] room by (simp add: free_objs_def)
    obtain d' ret where E: "rte_mempool_ops_enqueue_bulk tbl mp (c_objs ?c) (c_len ?c) = Some (mp\<lparr>mp_pool_data := d'\<rparr>, ret)"
      "hinv d'" "hcap d' = hcap (mp_pool_data mp)" "held d' = held (mp_pool_data mp) + mset (take (unat (c_len ?c)) (c_objs ?c))"
      by (rule ops_enqueue_spec [OF pool_wfD [OF wf] lo r])
    let ?c' = "?c\<lparr>c_len := 0\<rparr>"
    let ?mp' = "cache_write (Some i) (Some ?c') (mp\<lparr>mp_pool_data := d'\<rparr>)"
    have c': "cache_wf (mp_cache_size mp) ?c'" "cache_held ?c' = []" using c by (auto simp: cache_wf_def cache_held_def)
    note wb = write_back [OF wf 2(2,3) c'(1) E(2)]
    have "free_objs held ?mp' + mset (cache_held ?c) = free_objs held mp + mset (cache_held ?c)"
      using wb(3) E(4) c'(2) by (simp add: free_objs_def cache_held_def ac_simps)
    moreover have "cache_at ?mp' (rte_mempool_default_cache ?mp' lcore) = Some ?c'"
      using 2 i by (simp add: rte_mempool_default_cache_def cache_at_def cache_write_def split: if_splits)
    moreover have "rte_mempool_cache_flush tbl lcore None mp = Some (?mp', None)"
      using 2 False E(1) by (simp add: rte_mempool_cache_flush_def cache_flush_one_def)
    ultimately show ?thesis using wb(1,2) E(3) by simp
  qed
qed

end

section \<open>A ring implements the handler interface\<close>

text \<open>A handler made of a bounded queue's bulk operations, with the return convention of
  rte\_mempool.h: 0, or a negative error when the queue refuses the request.\<close>

definition fifo_pool_ops ::
    "('r \<Rightarrow> u64 list \<Rightarrow> (nat \<times> 'r) option) \<Rightarrow> ('r \<Rightarrow> nat \<Rightarrow> (u64 list \<times> 'r) option) \<Rightarrow> ('r \<Rightarrow> u32) \<Rightarrow> 'r rte_mempool_ops" where
  "fifo_pool_ops enq deq get_count = \<lparr>
     op_enqueue = (\<lambda>d tab n. map_option (\<lambda>(k, d'). (d', if k = 0 then - ENOBUFS else 0)) (enq d (take (unat n) tab))),
     op_dequeue = (\<lambda>d tab n. map_option (\<lambda>(ys, d'). (d', ys @ drop (length ys) tab, if ys = [] then - ENOBUFS else 0))
        (deq d (unat n))),
     op_get_count = get_count,
     op_dequeue_contig_blocks = None\<rparr>"

lemma unat_lt_2_32: "unat (n :: u32) < 2 ^ 32"
  using unsigned_less [of n] by simp

lemma fifo_is_pool_handler:
  assumes "bounded_fifo qinv cap elems enq deq"
  shows "pool_handler (fifo_pool_ops enq deq get_count) qinv (\<lambda>d. mset (elems d)) cap"
proof -
  note q = bounded_fifo.enq_fits [OF assms] bounded_fifo.deq_fits [OF assms] bounded_fifo.deq_short [OF assms]
    bounded_fifo.bounded [OF assms]
  show ?thesis
  proof (unfold_locales, goal_cases)
    case (1 d n tab)
    then show ?case using q(1) [of d "take (unat n) tab"] unat_lt_2_32 [of n]
      by (auto simp: fifo_pool_ops_def word_less_nat_alt)
  next
    case (2 d tab)
    then show ?case using q(1) [of d "[]"] q(4) [of d] by (auto simp: fifo_pool_ops_def)
  next
    case (3 d n tab)
    then obtain d' where "deq d (unat n) = Some (take (unat n) (elems d), d')" "qinv d'" "cap d' = cap d"
      "elems d' = drop (unat n) (elems d)" using q(2) [of d "unat n"] unat_lt_2_32 [of n] by auto
    moreover have "mset (elems d) = mset (take (unat n) (elems d)) + mset (drop (unat n) (elems d))"
      by (metis append_take_drop_id mset_append)
    ultimately show ?case using 3 by (auto simp: fifo_pool_ops_def word_less_nat_alt)
  next
    case (4 d n tab)
    then show ?case using q(3) [of d "unat n"] unat_lt_2_32 [of n] by (auto simp: fifo_pool_ops_def)
  qed
qed

definition ring_pool_ops :: "rte_ring rte_mempool_ops" where
  "ring_pool_ops = fifo_pool_ops ring_enq ring_deq rte_ring_count"

definition ring_held :: "rte_ring \<Rightarrow> u64 multiset" where
  "ring_held r = mset (ring_ptrs r)"

interpretation ring_pool: pool_handler ring_pool_ops "ring_inv 2" ring_held "\<lambda>r. unat (r_capacity r)"
  unfolding ring_pool_ops_def ring_held_def by (rule fifo_is_pool_handler) (rule ptr_ring.bounded_fifo_axioms)

section \<open>The pool operations\<close>

text \<open>Putting objects back always returns and makes exactly these objects free, whether they
  stay in the cache of the lcore, overflow it into the common pool or bypass it: no object is
  lost, none appears twice, and no cache array is written out of bounds. The only requirement is
  that the common pool is as large as the objects of the pool.\<close>

theorem rte_mempool_put_bulk_conserves:
  assumes "pool_handler ops hinv held hcap" "pool_wf tbl ops hinv mp" "unat n \<le> length tab"
    "size (free_objs held mp) + unat n \<le> hcap (mp_pool_data mp)"
  shows "\<exists>mp'. rte_mempool_put_bulk tbl lcore mp tab n = Some mp' \<and> pool_wf tbl ops hinv mp' \<and>
    free_objs held mp' = free_objs held mp + mset (take (unat n) tab)"
  using pool_handler.put_bulk_spec [OF assms] by blast

text \<open>Getting \<open>n\<close> objects returns 0 exactly when the common pool or the cache of the lcore can
  supply them. Then the first \<open>n\<close> entries of the table are objects that were free and no longer
  are, and the rest of the table is untouched. Otherwise the result is negative, and the pool, its
  caches and the table are exactly as before.\<close>

theorem rte_mempool_get_bulk_exact:
  assumes "pool_handler ops hinv held hcap" "pool_wf tbl ops hinv mp" "unat n \<le> length tab" "0 < n"
  shows "if get_possible held mp lcore n
    then \<exists>mp' got. rte_mempool_get_bulk tbl lcore mp tab n = Some (mp', got @ drop (unat n) tab, 0) \<and>
      length got = unat n \<and> pool_wf tbl ops hinv mp' \<and> free_objs held mp = mset got + free_objs held mp'
    else \<exists>ret < 0. rte_mempool_get_bulk tbl lcore mp tab n = Some (mp, tab, ret)"
  using pool_handler.get_bulk_spec [OF assms, of lcore] by (auto split: if_splits)

text \<open>Flushing the cache of an lcore empties it into the common pool without losing an object.\<close>

theorem rte_mempool_cache_flush_conserves:
  assumes "pool_handler ops hinv held hcap" "pool_wf tbl ops hinv mp"
    "size (free_objs held mp) \<le> hcap (mp_pool_data mp)"
  shows "\<exists>mp'. rte_mempool_cache_flush tbl lcore None mp = Some (mp', None) \<and> pool_wf tbl ops hinv mp' \<and>
    free_objs held mp' = free_objs held mp \<and>
    (case cache_at mp' (rte_mempool_default_cache mp' lcore) of None \<Rightarrow> True | Some c \<Rightarrow> c_len c = 0)"
  using pool_handler.flush_spec [OF assms] by blast

section \<open>Histories of a pool\<close>

text \<open>A pool together with the objects its users hold: any lcore may get objects, and may put back
  objects that are held.\<close>

inductive pool_step ::
    "'d rte_mempool_ops list \<Rightarrow> 'd rte_mempool \<times> u64 multiset \<Rightarrow> 'd rte_mempool \<times> u64 multiset \<Rightarrow> bool"
  for tbl where
  got: "rte_mempool_get_bulk tbl lcore mp tab n = Some (mp', tab', 0) \<Longrightarrow> 0 < n \<Longrightarrow> length tab = unat n \<Longrightarrow>
    pool_step tbl (mp, out) (mp', out + mset tab')"
| refused: "rte_mempool_get_bulk tbl lcore mp tab n = Some (mp', tab', ret) \<Longrightarrow> ret \<noteq> 0 \<Longrightarrow> 0 < n \<Longrightarrow>
    length tab = unat n \<Longrightarrow> pool_step tbl (mp, out) (mp', out)"
| put: "rte_mempool_put_bulk tbl lcore mp tab n = Some mp' \<Longrightarrow> length tab = unat n \<Longrightarrow> mset tab \<subseteq># out \<Longrightarrow>
    pool_step tbl (mp, out) (mp', out - mset tab)"
| flush: "rte_mempool_cache_flush tbl lcore None mp = Some (mp', c) \<Longrightarrow> pool_step tbl (mp, out) (mp', out)"

context pool_handler
begin

definition conserved :: "'d rte_mempool_ops list \<Rightarrow> u64 multiset \<Rightarrow> nat \<Rightarrow> 'd rte_mempool \<times> u64 multiset \<Rightarrow> bool" where
  "conserved tbl owned k s \<longleftrightarrow> pool_wf tbl ops hinv (fst s) \<and> hcap (mp_pool_data (fst s)) = k \<and>
     free_objs held (fst s) + snd s = owned"

lemma step_conserved:
  assumes "pool_step tbl s s'" "conserved tbl owned k s" "size owned \<le> k"
  shows "conserved tbl owned k s'"
  using assms
proof (cases rule: pool_step.cases)
  case (got lcore mp tab n mp' tab' out)
  then show ?thesis using get_bulk_spec [of tbl mp n tab lcore] assms(2)
    by (auto simp: conserved_def ac_simps split: if_splits)
next
  case (refused lcore mp tab n mp' tab' ret out)
  then show ?thesis using get_bulk_spec [of tbl mp n tab lcore] assms(2)
    by (auto simp: conserved_def split: if_splits)
next
  case (put lcore mp tab n mp' out)
  have "size (free_objs held mp) + size out = size owned" and wf: "pool_wf tbl ops hinv mp" "hcap (mp_pool_data mp) = k"
    using assms(2) put by (auto simp: conserved_def)
  moreover have "unat n \<le> size out" using size_mset_mono [OF put(5)] put(4) by simp
  ultimately have "size (free_objs held mp) + unat n \<le> hcap (mp_pool_data mp)" using assms(3) by linarith
  moreover obtain rest where "out = mset tab + rest" using put(5) by (auto simp: mset_subset_eq_exists_conv)
  ultimately show ?thesis
    using put_bulk_spec [OF wf(1), of n tab lcore] put assms(2) by (auto simp: conserved_def ac_simps)
next
  case (flush lcore mp mp' c out)
  then show ?thesis using flush_spec [of tbl mp lcore] assms(2,3) by (auto simp: conserved_def)
qed

lemma reachable_conserved:
  assumes "(pool_step tbl)\<^sup>*\<^sup>* s s'" "conserved tbl owned k s" "size owned \<le> k"
  shows "conserved tbl owned k s'"
  using assms by (induction rule: rtranclp_induct) (auto intro: step_conserved)

end

text \<open>C9. Whatever sequence of gets, puts and flushes the lcores make, the free objects and the
  objects in use together are always the objects the pool started with. So if the objects of the
  pool are distinct, no object is ever in use twice, nor in use and free at once.\<close>

theorem rte_mempool_history_conserves:
  assumes "pool_handler ops hinv held hcap" "pool_wf tbl ops hinv mp"
    "size (free_objs held mp + out) \<le> hcap (mp_pool_data mp)" "(pool_step tbl)\<^sup>*\<^sup>* (mp, out) (mp', out')"
  shows "pool_wf tbl ops hinv mp' \<and> free_objs held mp' + out' = free_objs held mp + out \<and>
    (\<forall>x. count (free_objs held mp + out) x \<le> 1 \<longrightarrow> x \<in># out' \<longrightarrow> count out' x = 1 \<and> x \<notin># free_objs held mp')"
proof -
  have c: "pool_wf tbl ops hinv mp' \<and> free_objs held mp' + out' = free_objs held mp + out"
    using pool_handler.reachable_conserved [OF assms(1,4), of "free_objs held mp + out" "hcap (mp_pool_data mp)"] assms
    by (simp add: pool_handler.conserved_def)
  then have ct: "count (free_objs held mp) x + count out x = count (free_objs held mp') x + count out' x" for x
    by (metis count_union)
  have "count out' x = 1 \<and> count (free_objs held mp') x = 0"
    if "count (free_objs held mp) x + count out x \<le> 1" "0 < count out' x" for x
    using that ct [of x] by linarith
  then have "count out' x = 1 \<and> x \<notin># free_objs held mp'"
    if "count (free_objs held mp + out) x \<le> 1" "x \<in># out'" for x
    using that by (simp add: not_in_iff)
  with c show ?thesis by blast
qed

section \<open>Last in, first out\<close>

text \<open>Objects that fit the cache come back newest first: a put of \<open>n\<close> objects that does not
  reach the flush threshold, followed by a get of \<open>n\<close> on the same lcore, returns these objects in
  reverse order, without a call of the handler.\<close>

theorem rte_mempool_put_get_lifo:
  assumes wf: "caches_wf mp" and lcore: "mp_cache_size mp \<noteq> 0" "unat lcore < RTE_MAX_LCORE"
    and n: "0 < n" "n < mp_cache_size mp" "unat n \<le> length tab" "unat n \<le> length tab2"
    and room: "unat (c_len (mp_local_cache mp ! unat lcore)) + unat n
      < unat (c_flushthresh (mp_local_cache mp ! unat lcore))"
  shows "\<exists>mp1 mp2. rte_mempool_put_bulk tbl lcore mp tab n = Some mp1 \<and>
    rte_mempool_get_bulk tbl lcore mp1 tab2 n = Some (mp2, rev (take (unat n) tab) @ drop (unat n) tab2, 0) \<and>
    mp_pool_data mp2 = mp_pool_data mp"
proof -
  let ?i = "unat lcore"
  let ?c = "mp_local_cache mp ! ?i"
  define c1 where "c1 = ?c\<lparr>c_objs := take (unat (c_len ?c)) (c_objs ?c) @ take (unat n) tab @
      drop (unat (c_len ?c) + unat n) (c_objs ?c), c_len := c_len ?c + n\<rparr>"
  have c: "cache_wf (mp_cache_size mp) ?c" by (rule cache_at_wf [OF wf lcore])
  then have cs: "c_size ?c = mp_cache_size mp" "length (c_objs ?c) = 1536" "unat (c_flushthresh ?c) \<le> 768"
    "unat (mp_cache_size mp) \<le> 512" by (auto simp: cache_wf_def)
  have p: "rte_mempool_default_cache mp' lcore = Some ?i" if "mp_cache_size mp' = mp_cache_size mp" for mp' :: "'a rte_mempool"
    using lcore that by (simp add: rte_mempool_default_cache_def)
  have len: "unat (c_len ?c + n) = unat (c_len ?c) + unat n" using room cs by (intro unat_add_lt) auto
  have n512: "(RTE_MEMPOOL_CACHE_MAX_SIZE < n) = False" using n(2) cs by (simp add: word_less_nat_alt)
  have thr: "(c_flushthresh ?c \<le> c_len ?c + n) = False" using room len by (simp add: word_le_nat_alt)
  have "memcpy_objs (c_objs ?c) (unat (c_len ?c)) tab (unat n) = Some (c_objs c1)"
    using room cs n by (simp add: memcpy_objs_def c1_def)
  then have put: "rte_mempool_put_bulk tbl lcore mp tab n = Some (cache_write (Some ?i) (Some c1) mp)"
    using n512 thr by (simp add: rte_mempool_put_bulk_def p cache_at_def rte_mempool_generic_put_def
        rte_mempool_do_generic_put_def Let_def c1_def)
  have i: "?i < length (mp_local_cache mp)" using wf lcore by (simp add: caches_wf_def)
  have bnd: "unat (c_len c1) \<le> length (c_objs c1)" and le: "n \<le> c_len c1"
    using room cs n len by (simp_all add: c1_def word_le_nat_alt)
  note pop = pop_spec(1) [OF bnd le n(4,1)]
  have top: "drop (unat (c_len c1) - unat n) (cache_held c1) = take (unat n) tab"
    using cs room n len by (simp add: cache_held_def c1_def)
  have br: "(mp_cache_size mp \<le> n) = False" "(c_len c1 < n) = False" using n(2) le by (simp_all add: not_le not_less)
  have sz: "c_size c1 = mp_cache_size mp" using cs by (simp add: c1_def)
  have get: "rte_mempool_get_bulk tbl lcore (cache_write (Some ?i) (Some c1) mp) tab2 n =
      Some (cache_write (Some ?i) (Some (c1\<lparr>c_len := c_len c1 - n\<rparr>)) (cache_write (Some ?i) (Some c1) mp),
        rev (take (unat n) tab) @ drop (unat n) tab2, 0)"
    using pop top i by (simp add: rte_mempool_get_bulk_def p cache_at_def cache_write_def rte_mempool_generic_get_def
        rte_mempool_do_generic_get_def Let_def br sz)
  then show ?thesis using put by (simp add: cache_write_def)
qed

section \<open>A concrete pool\<close>

text \<open>A pool on the ring \<open>ex_ring\<close>, which holds two of its three objects, with empty caches of two
  objects per lcore.\<close>

definition ex_cache :: rte_mempool_cache where
  "ex_cache = \<lparr>c_size = 2, c_flushthresh = 3, c_len = 0, c_objs = replicate 1536 0\<rparr>"

definition ex_pool :: "rte_ring rte_mempool" where
  "ex_pool = \<lparr>mp_name = ''mbuf pool'', mp_pool_data = ex_ring, mp_pool_config = 0, mp_flags = 16, mp_socket_id = 0,
     mp_size = 3, mp_cache_size = 2, mp_elt_size = 2304, mp_header_size = 64, mp_trailer_size = 0,
     mp_private_data_size = 64, mp_ops_index = 0, mp_local_cache = replicate 128 ex_cache,
     mp_populated_size = 3, mp_elt_list = [], mp_nb_mem_chunks = 1, mp_mem_list = []\<rparr>"

lemma ex_pool_wf: "pool_wf [ring_pool_ops] ring_pool_ops (ring_inv 2) ex_pool"
  by (simp add: pool_wf_def ex_pool_def rte_mempool_get_ops_def ex_ring_inv caches_wf_def list_all_iff ex_cache_def
      cache_wf_def)

lemma ex_pool_data: "mp_pool_data ex_pool = ex_ring" "mp_cache_size ex_pool = 2"
  by (simp_all add: ex_pool_def)

lemma sum_list_empties: "sum_list (replicate n {#}) = ({#} :: 'a multiset)"
  by (induction n) auto

lemma ex_pool_free: "free_objs ring_held ex_pool = ring_held ex_ring"
  by (simp add: free_objs_def ex_pool_data cached_objs_def) (simp add: ex_pool_def ex_cache_def cache_held_def sum_list_empties)

lemma ex_pool_size: "size (ring_held ex_ring) = 2" "unat (r_capacity ex_ring) = 3"
  by (simp_all add: ring_held_def ring_ptrs_def ex_ring_used ex_ring_capacity)

lemmas ex_pool_facts = ex_pool_wf ex_pool_data ex_pool_free ex_pool_size ring_pool.pool_handler_axioms

theorem rte_mempool_put_bulk_conserves_witness:
  "pool_wf [ring_pool_ops] ring_pool_ops (ring_inv 2) ex_pool \<and>
   (\<exists>mp'. rte_mempool_put_bulk [ring_pool_ops] 0 ex_pool [77] 1 = Some mp' \<and>
      free_objs ring_held mp' = free_objs ring_held ex_pool + {#77#})"
  using rte_mempool_put_bulk_conserves [OF ring_pool.pool_handler_axioms ex_pool_wf, of 1 "[77]" 0]
  by (simp add: ex_pool_facts) blast

theorem rte_mempool_get_bulk_exact_witness:
  "pool_wf [ring_pool_ops] ring_pool_ops (ring_inv 2) ex_pool \<and>
   (\<exists>mp' got. rte_mempool_get_bulk [ring_pool_ops] 0 ex_pool [0] 1 = Some (mp', got, 0) \<and> length got = 1) \<and>
   (\<exists>ret < 0. rte_mempool_get_bulk [ring_pool_ops] 0 ex_pool [0, 0, 0] 3 = Some (ex_pool, [0, 0, 0], ret))"
proof -
  have yes: "get_possible ring_held ex_pool 0 1" by (simp add: get_possible_def ex_pool_facts)
  have no: "\<not> get_possible ring_held ex_pool 0 3"
    by (simp add: get_possible_def ex_pool_facts rte_mempool_default_cache_def cache_at_def)
      (simp add: ex_pool_def ex_cache_def)
  show ?thesis
    using rte_mempool_get_bulk_exact [OF ring_pool.pool_handler_axioms ex_pool_wf, of 1 "[0]" 0]
      rte_mempool_get_bulk_exact [OF ring_pool.pool_handler_axioms ex_pool_wf, of 3 "[0, 0, 0]" 0] yes no
    by (auto simp: ex_pool_wf)
qed

theorem rte_mempool_cache_flush_conserves_witness:
  "pool_wf [ring_pool_ops] ring_pool_ops (ring_inv 2) ex_pool \<and>
   (\<exists>mp'. rte_mempool_cache_flush [ring_pool_ops] 0 None ex_pool = Some (mp', None) \<and>
      free_objs ring_held mp' = free_objs ring_held ex_pool)"
  using rte_mempool_cache_flush_conserves [OF ring_pool.pool_handler_axioms ex_pool_wf, of 0]
  by (simp add: ex_pool_facts) blast

theorem rte_mempool_history_conserves_witness:
  "\<exists>mp'. (pool_step [ring_pool_ops])\<^sup>*\<^sup>* (ex_pool, {#77#}) (mp', {#}) \<and>
     free_objs ring_held mp' = free_objs ring_held ex_pool + {#77#}"
proof -
  obtain mp' where "rte_mempool_put_bulk [ring_pool_ops] 0 ex_pool [77] 1 = Some mp'"
    using pool_handler.put_bulk_spec [OF ring_pool.pool_handler_axioms ex_pool_wf, of 1 "[77]" 0]
    by (auto simp: ex_pool_facts)
  then have "pool_step [ring_pool_ops] (ex_pool, {#77#}) (mp', {#77#} - mset [77])"
    by (rule pool_step.put) auto
  then have steps: "(pool_step [ring_pool_ops])\<^sup>*\<^sup>* (ex_pool, {#77#}) (mp', {#})" by auto
  show ?thesis
    using rte_mempool_history_conserves [OF ring_pool.pool_handler_axioms ex_pool_wf _ steps] steps
    by (auto simp: ex_pool_facts)
qed

theorem rte_mempool_put_get_lifo_witness:
  "\<exists>mp1 mp2. rte_mempool_put_bulk [ring_pool_ops] 5 ex_pool [77] 1 = Some mp1 \<and>
     rte_mempool_get_bulk [ring_pool_ops] 5 mp1 [0] 1 = Some (mp2, [77], 0) \<and> mp_pool_data mp2 = ex_ring"
  using rte_mempool_put_get_lifo [of ex_pool 5 1 "[77]" "[0]" "[ring_pool_ops]"] ex_pool_wf
  by (simp add: ex_pool_data pool_wf_def) (simp add: ex_pool_def ex_cache_def)

end
