(* ===== verification/Rte_Mbuf_Correct.thy ===== *)
theory Rte_Mbuf_Correct
  imports Rte_Mbuf Rte_Mempool_Correct
begin

text \<open>
  Correctness of packet buffers: reference counts, the unrolled bulk initialisation, the room
  operations at both ends of a packet, chains of segments, and allocation and release against
  the pool.
\<close>

section \<open>Reference counts\<close>

text \<open>The shortcut for unshared mbufs does not change the result: for every count and every
  change, atomic and plain variant give the same new count and the same mbuf.\<close>

theorem rte_mbuf_refcnt_update_eq:
  "rte_mbuf_refcnt_update mb v = mbuf_refcnt_update_nonatomic mb v"
  by (simp add: rte_mbuf_refcnt_update_def rte_mbuf_refcnt_read_def rte_mbuf_refcnt_set_def mbuf_refcnt_add_def
      mbuf_refcnt_update_nonatomic_def mbuf_refcnt_add_nonatomic_def Let_def add.commute)

lemma refcnt_update_simp [mbuf_simps]:
  "rte_mbuf_refcnt_update mb v = (mb_refcnt mb + v, mb\<lparr>mb_refcnt := mb_refcnt mb + v\<rparr>)"
  by (simp add: rte_mbuf_refcnt_update_def rte_mbuf_refcnt_read_def rte_mbuf_refcnt_set_def mbuf_refcnt_add_def
      Let_def add.commute)

section \<open>Bulk initialisation\<close>

text \<open>The reference: reset the mbufs one after the other.\<close>

fun reset_all :: "u64 list \<Rightarrow> 'd heap \<Rightarrow> 'd heap option" where
  "reset_all [] h = Some h"
| "reset_all (m # ms) h = do {h \<leftarrow> mbuf_upd rte_pktmbuf_reset m h; reset_all ms h}"

lemma alloc_bulk_loop_eq:
  fixes h :: "'d heap"
  assumes "unat idx + k = unat cnt" "unat cnt \<le> length mbufs" "unat entry = k mod 4"
  shows "alloc_bulk_loop entry mbufs idx cnt h = reset_all (take k (drop (unat idx) mbufs)) h"
  using assms
proof (induction k arbitrary: idx entry h)
  case 0
  then have "entry = 0" "idx = cnt" using unsigned_eq_0_iff [of entry] word_unat_eq_iff [of idx cnt] by auto
  then show ?case by (subst alloc_bulk_loop.simps) simp
next
  case (Suc k)
  have lt: "unat idx < length mbufs" "idx < cnt" using Suc.prems by (auto simp: word_less_nat_alt)
  have inc: "unat (idx + 1) = Suc (unat idx)" using lt(2) by (rule unat_inc_below)
  have ne: "idx \<noteq> cnt" using lt by auto
  have tk: "take (Suc k) (drop (unat idx) mbufs) = mbufs ! unat idx # take k (drop (Suc (unat idx)) mbufs)"
    using lt by (simp add: take_Suc Cons_nth_drop_Suc [symmetric])
  have IH: "alloc_bulk_loop e mbufs (idx + 1) cnt = (reset_all (take k (drop (Suc (unat idx)) mbufs)) :: 'd heap \<Rightarrow> _)"
    if "unat e = k mod 4" for e :: u32
    using Suc.IH [of "idx + 1" e] that Suc.prems inc by (intro ext) simp
  show ?case
  proof (cases "entry = 0")
    case True
    then have "unat (3 :: u32) = k mod 4" using Suc.prems(3) by simp presburger
    from IH [OF this] show ?thesis
      using True ne lt tk by (subst alloc_bulk_loop.simps) (simp add: reset_nth_def)
  next
    case False
    then have "1 \<le> unat entry" by (simp add: unat_gt_0 Suc_leI)
    then have "unat (entry - 1) = k mod 4" using Suc.prems(3) unat_sub_le [of 1 entry] by simp presburger
    from IH [OF this] show ?thesis
      using False lt tk by (subst alloc_bulk_loop.simps) (simp add: reset_nth_def)
  qed
qed

text \<open>Allocating in bulk ends, and once the pool has supplied the mbufs the loop that is
  unrolled by four and entered in the middle resets each of them exactly once, in order, whatever
  their number.\<close>

theorem rte_pktmbuf_alloc_bulk_unrolled:
  assumes "unat n \<le> length mbufs"
  shows "alloc_bulk_loop (n mod 4) mbufs 0 n h = reset_all (take (unat n) mbufs) h"
  using alloc_bulk_loop_eq [of 0 "unat n" n mbufs "n mod 4" h] assms by (simp add: unat_mod)

section \<open>Room at both ends\<close>

text \<open>The data of an mbuf lies inside its buffer.\<close>

definition mbuf_geom :: "rte_mbuf \<Rightarrow> bool" where
  "mbuf_geom mb \<longleftrightarrow> unat (mb_data_off mb) + unat (mb_data_len mb) \<le> unat (mb_buf_len mb)"

lemma u16_lt: "unat (x :: u16) < 65536" using unsigned_less [of x] by simp

lemma tailroom_nat:
  assumes "mbuf_geom mb"
  shows "unat (rte_pktmbuf_tailroom mb) = unat (mb_buf_len mb) - unat (mb_data_off mb) - unat (mb_data_len mb)"
proof -
  have "unat (mb_buf_len mb - mb_data_off mb) = unat (mb_buf_len mb) - unat (mb_data_off mb)"
    using assms by (intro unat_sub_le) (simp add: mbuf_geom_def)
  then show ?thesis using assms
    by (simp add: mbuf_geom_def rte_pktmbuf_tailroom_def rte_pktmbuf_headroom_def)
      (subst unat_sub_le, auto)
qed

lemma unat_ucast_16_32 [simp]: "unat (ucast (x :: u16) :: u32) = unat x"
  using u16_lt [of x] by (simp add: unsigned_ucast_eq take_bit_nat_eq_self)

lemma unat_ucast_16_64 [simp]: "unat (ucast (x :: u16) :: u64) = unat x"
  using u16_lt [of x] by (simp add: unsigned_ucast_eq take_bit_nat_eq_self)

text \<open>Prepending moves the start of the data back by exactly the length asked for when the
  headroom allows it, and otherwise changes nothing and returns NULL; the data stays inside the
  buffer, no length wraps, and removing the same number of bytes restores the mbuf.\<close>

theorem rte_pktmbuf_prepend_adj:
  assumes "mbuf_geom mb" "unat (mb_pkt_len mb) + unat len < 2 ^ 32"
  shows "if unat len \<le> unat (mb_data_off mb)
    then \<exists>mb'. rte_pktmbuf_prepend mb len = (rte_pktmbuf_mtod_offset mb (- ucast len), mb') \<and> mbuf_geom mb' \<and>
      unat (mb_data_off mb') = unat (mb_data_off mb) - unat len \<and>
      unat (mb_data_len mb') = unat (mb_data_len mb) + unat len \<and>
      unat (mb_pkt_len mb') = unat (mb_pkt_len mb) + unat len \<and>
      rte_pktmbuf_adj mb' len = (rte_pktmbuf_mtod_offset mb 0, mb)
    else rte_pktmbuf_prepend mb len = (NULL, mb)"
proof (cases "unat len \<le> unat (mb_data_off mb)")
  case False
  then show ?thesis by (simp add: rte_pktmbuf_prepend_def rte_pktmbuf_headroom_def word_less_nat_alt)
next
  case True
  define mb' where "mb' = mb\<lparr>mb_data_off := mb_data_off mb - len, mb_data_len := mb_data_len mb + len,
                        mb_pkt_len := mb_pkt_len mb + ucast len\<rparr>"
  have nolt: "\<not> mb_data_off mb < len" using True by (simp add: word_less_nat_alt)
  have dl: "unat (mb_data_len mb + len) = unat (mb_data_len mb) + unat len"
    using assms(1) True u16_lt [of "mb_buf_len mb"] by (intro unat_add_lt) (simp add: mbuf_geom_def)
  have off: "unat (mb_data_off mb - len) = unat (mb_data_off mb) - unat len" using True by (rule unat_sub_le)
  have pl: "unat (mb_pkt_len mb + ucast len) = unat (mb_pkt_len mb) + unat len"
    using assms(2) by (subst unat_add_lt) auto
  have oc: "(ucast (mb_data_off mb - len) :: u64) = ucast (mb_data_off mb) - ucast len"
    using True off by (simp add: word_unat_eq_iff unat_sub_le)
  have geom: "mbuf_geom mb'" using assms(1) True dl off pl by (simp add: mb'_def mbuf_geom_def)
  have ge: "\<not> mb_data_len mb' < len" using dl by (simp add: mb'_def word_less_nat_alt)
  have adj: "rte_pktmbuf_adj mb' len = (rte_pktmbuf_mtod_offset mb 0, mb)"
    using ge by (simp add: rte_pktmbuf_adj_def Let_def mb'_def rte_pktmbuf_mtod_offset_def)
  have "rte_pktmbuf_prepend mb len = (rte_pktmbuf_mtod_offset mb (- ucast len), mb')"
    using nolt by (simp add: rte_pktmbuf_prepend_def rte_pktmbuf_headroom_def Let_def mb'_def
        rte_pktmbuf_mtod_offset_def oc)
  then show ?thesis using True geom adj dl off pl by (simp add: mb'_def)
qed

section \<open>Chains of segments\<close>

text \<open>\<open>seg_path h m ms q\<close>: the mbufs \<open>ms\<close> follow each other from \<open>m\<close> until the link \<open>q\<close>. A packet
  ends in a null link.\<close>

fun seg_path :: "'d heap \<Rightarrow> u64 \<Rightarrow> u64 list \<Rightarrow> u64 \<Rightarrow> bool" where
  "seg_path h m [] q \<longleftrightarrow> m = q"
| "seg_path h m (s # ss) q \<longleftrightarrow> m = s \<and> m \<noteq> NULL \<and> (\<exists>b. h_mbuf h m = Some b \<and> seg_path h (mb_next b) ss q)"

lemma seg_path_frame:
  assumes "\<And>s. s \<in> set ms \<Longrightarrow> map_option mb_next (h_mbuf h' s) = map_option mb_next (h_mbuf h s)"
  shows "seg_path h' m ms q = seg_path h m ms q"
  using assms
proof (induction ms arbitrary: m)
  case (Cons s ss)
  then have "map_option mb_next (h_mbuf h' s) = map_option mb_next (h_mbuf h s)" by simp
  moreover have "seg_path h' x ss q = seg_path h x ss q" for x using Cons by simp
  ultimately show ?case by (cases "h_mbuf h s") (auto simp: map_option_case split: option.splits)
qed simp

lemma seg_path_mapped: "seg_path h m ms q \<Longrightarrow> s \<in> set ms \<Longrightarrow> \<exists>b. h_mbuf h s = Some b"
  by (induction h m ms q rule: seg_path.induct) auto

lemma seg_path_append: "seg_path h m (ms @ ns) q \<longleftrightarrow> (\<exists>r. seg_path h m ms r \<and> seg_path h r ns q)"
  by (induction ms arbitrary: m) auto

lemma seg_path_snoc:
  "seg_path h m (ms @ [l]) q \<longleftrightarrow> seg_path h m ms l \<and> l \<noteq> NULL \<and> (\<exists>b. h_mbuf h l = Some b \<and> mb_next b = q)"
  by (auto simp: seg_path_append)

lemma seg_path_nonnull: "seg_path h m ms q \<Longrightarrow> s \<in> set ms \<Longrightarrow> s \<noteq> NULL"
  by (induction h m ms q rule: seg_path.induct) auto

lemma lastseg_spec:
  assumes "seg_path h m ms l" "l \<noteq> NULL" "h_mbuf h l = Some b" "mb_next b = NULL"
  shows "rte_pktmbuf_lastseg h m = Some l"
  using assms(1)
proof (induction ms arbitrary: m)
  case Nil
  then show ?case using assms by (subst rte_pktmbuf_lastseg.simps) simp
next
  case (Cons s ss)
  then obtain c where c: "m = s" "h_mbuf h m = Some c" "seg_path h (mb_next c) ss l" by auto
  then have "mb_next c \<noteq> NULL" using assms(2) by (cases ss) auto
  then show ?case using c Cons.IH by (subst rte_pktmbuf_lastseg.simps) simp
qed

text \<open>A well-formed packet: distinct segments linked from the first to a null link, the first one
  carrying their number and their total length.\<close>

definition seg_lens :: "'d heap \<Rightarrow> u64 list \<Rightarrow> nat" where
  "seg_lens h ms = sum_list (map (\<lambda>s. case h_mbuf h s of None \<Rightarrow> 0 | Some b \<Rightarrow> unat (mb_data_len b)) ms)"

definition packet :: "'d heap \<Rightarrow> u64 \<Rightarrow> u64 list \<Rightarrow> bool" where
  "packet h m ms \<longleftrightarrow> ms \<noteq> [] \<and> distinct ms \<and> seg_path h m ms NULL \<and>
     (\<exists>b. h_mbuf h m = Some b \<and> unat (mb_nb_segs b) = length ms \<and> unat (mb_pkt_len b) = seg_lens h ms)"

lemma seg_lens_bound: "seg_lens h ms \<le> 65535 * length ms"
  unfolding seg_lens_def
proof (induction ms)
  case (Cons a ms)
  have "(case h_mbuf h a of None \<Rightarrow> 0 | Some b \<Rightarrow> unat (mb_data_len b)) \<le> 65535"
    using u16_lt by (auto split: option.split simp: less_Suc_eq_le [symmetric])
  with Cons show ?case by simp
qed simp

lemma seg_lens_frame:
  assumes "\<And>s. s \<in> set ms \<Longrightarrow> map_option mb_data_len (h_mbuf h' s) = map_option mb_data_len (h_mbuf h s)"
  shows "seg_lens h' ms = seg_lens h ms"
proof -
  have "(case h_mbuf h' s of None \<Rightarrow> 0 | Some b \<Rightarrow> unat (mb_data_len b)) =
      (case h_mbuf h s of None \<Rightarrow> 0 | Some b \<Rightarrow> unat (mb_data_len b))" if "s \<in> set ms" for s
    using assms [OF that] by (auto split: option.splits)
  then show ?thesis unfolding seg_lens_def by (intro arg_cong [where f = sum_list] map_cong) auto
qed

lemma packet_head: "packet h m ms \<Longrightarrow> m \<in> set ms \<and> m \<noteq> NULL"
  by (cases ms) (auto simp: packet_def)

lemma packet_split:
  assumes "packet h m ms"
  obtains xs l b where "ms = xs @ [l]" "seg_path h m xs l" "l \<noteq> NULL" "h_mbuf h l = Some b" "mb_next b = NULL"
    "rte_pktmbuf_lastseg h m = Some l"
proof -
  obtain xs l where ms: "ms = xs @ [l]" using assms by (cases ms rule: rev_cases) (auto simp: packet_def)
  then obtain b where "seg_path h m xs l" "l \<noteq> NULL" "h_mbuf h l = Some b" "mb_next b = NULL"
    using assms by (auto simp: packet_def seg_path_snoc)
  then show thesis using that ms lastseg_spec by blast
qed

lemma mbuf_upd_Some [simp]:
  "h_mbuf h m = Some b \<Longrightarrow> mbuf_upd f m h = Some (h\<lparr>h_mbuf := (h_mbuf h)(m \<mapsto> f b)\<rparr>)"
  by (simp add: mbuf_upd_def)

lemma seg_lens_append: "seg_lens h (ms @ ns) = seg_lens h ms + seg_lens h ns"
  by (simp add: seg_lens_def)

text \<open>Chaining two packets appends the segments of the second to the first and adds up
  segment count and packet length, neither of which wraps; when the segment count would not fit
  16 bits the call fails with EOVERFLOW and nothing changes.\<close>

theorem rte_pktmbuf_chain_appends:
  fixes h :: "'d heap"
  assumes hd: "packet h head hs" and tl: "packet h tail ts" and dis: "set hs \<inter> set ts = {}"
  shows "if length hs + length ts \<le> RTE_MBUF_MAX_NB_SEGS
    then \<exists>h'. rte_pktmbuf_chain head tail h = Some (0, h') \<and> packet h' head (hs @ ts)
    else rte_pktmbuf_chain head tail h = Some (- EOVERFLOW, h)"
proof -
  obtain hb where hb: "h_mbuf h head = Some hb" "unat (mb_nb_segs hb) = length hs" "unat (mb_pkt_len hb) = seg_lens h hs"
    using hd by (auto simp: packet_def)
  obtain tb where tb: "h_mbuf h tail = Some tb" "unat (mb_nb_segs tb) = length ts" "unat (mb_pkt_len tb) = seg_lens h ts"
    using tl by (auto simp: packet_def)
  obtain xs l lb where l: "hs = xs @ [l]" "seg_path h head xs l" "l \<noteq> NULL" "h_mbuf h l = Some lb"
    "rte_pktmbuf_lastseg h head = Some l" by (rule packet_split [OF hd])
  have heads: "head \<in> set hs" "tail \<in> set ts" "tail \<noteq> NULL" "distinct (hs @ ts)" "seg_path h tail ts NULL"
    using packet_head [OF hd] packet_head [OF tl] hd tl dis by (auto simp: packet_def)
  then have ne: "head \<noteq> tail" "l \<noteq> tail" "l \<notin> set xs" "l \<notin> set ts" using dis l by auto
  show ?thesis
  proof (cases "length hs + length ts \<le> RTE_MBUF_MAX_NB_SEGS")
    case False
    then show ?thesis using hb tb by (simp add: rte_pktmbuf_chain_def)
  next
    case True
    define h' where "h' = (let m1 = (h_mbuf h)(l \<mapsto> lb\<lparr>mb_next := tail\<rparr>);
        m2 = m1(head \<mapsto> (the (m1 head))\<lparr>mb_nb_segs := mb_nb_segs hb + mb_nb_segs tb, mb_pkt_len := mb_pkt_len hb + mb_pkt_len tb\<rparr>)
      in h\<lparr>h_mbuf := m2(tail \<mapsto> tb\<lparr>mb_pkt_len := ucast (mb_data_len tb)\<rparr>)\<rparr>)"
    have small: "\<not> unat (mb_nb_segs hb) + unat (mb_nb_segs tb) > RTE_MBUF_MAX_NB_SEGS"
      using True hb(2) tb(2) by linarith
    have run: "rte_pktmbuf_chain head tail h = Some (0, h')"
    proof (cases "l = head")
      case True
      then have "lb = hb" using hb(1) l(4) by simp
      with True show ?thesis using ne(1)
        by (simp add: rte_pktmbuf_chain_def h'_def Let_def small hb(1) tb(1) l(5) del: not_less)
    next
      case False
      then show ?thesis using ne(1,2)
        by (simp add: rte_pktmbuf_chain_def h'_def Let_def small hb(1) tb(1) l(4,5) del: not_less)
    qed
    have nxt: "map_option mb_next (h_mbuf h' s) = map_option mb_next (h_mbuf h s)" if "s \<noteq> l" for s
      using that hb tb ne by (simp add: h'_def Let_def)
    have dl: "map_option mb_data_len (h_mbuf h' s) = map_option mb_data_len (h_mbuf h s)" for s
      using hb(1) tb(1) l(4) ne by (auto simp: h'_def Let_def)
    have "\<exists>b. h_mbuf h' l = Some b \<and> mb_next b = tail" using l ne by (simp add: h'_def Let_def)
    moreover have "seg_path h' head xs l" "seg_path h' tail ts NULL"
      using seg_path_frame [of xs h' h head l] seg_path_frame [of ts h' h tail NULL] nxt ne l heads by (metis, metis)
    ultimately have path: "seg_path h' head (hs @ ts) NULL"
      using l by (auto simp: seg_path_append)
    have lens: "seg_lens h' (hs @ ts) = seg_lens h hs + seg_lens h ts"
      using seg_lens_frame [of "hs @ ts" h' h] dl by (simp add: seg_lens_append)
    have "seg_lens h hs + seg_lens h ts \<le> 65535 * 65535"
      using seg_lens_bound [of h hs] seg_lens_bound [of h ts] True by linarith
    then have "unat (mb_pkt_len hb + mb_pkt_len tb) = seg_lens h' (hs @ ts)"
      using hb tb lens by (subst unat_add_lt) auto
    moreover have "unat (mb_nb_segs hb + mb_nb_segs tb) = length (hs @ ts)"
      using hb tb True by (subst unat_add_lt) auto
    ultimately have "packet h' head (hs @ ts)" using path heads ne l hb by (auto simp: packet_def h'_def Let_def)
    then show ?thesis using run True by auto
  qed
qed

lemma pkt_len_bound:
  assumes "packet h m ms"
  shows "seg_lens h ms \<le> 65535 * 65535"
proof -
  obtain b :: rte_mbuf where "unat (mb_nb_segs b) = length ms" using assms by (auto simp: packet_def)
  then have "length ms \<le> 65535" using u16_lt [of "mb_nb_segs b"] by simp
  then show ?thesis using seg_lens_bound [of h ms] by simp
qed

definition grow_last :: "u64 \<Rightarrow> u64 \<Rightarrow> u16 \<Rightarrow> 'd heap \<Rightarrow> 'd heap" where
  "grow_last m l len h =
     (let m1 = (h_mbuf h)(l := map_option (\<lambda>b. b\<lparr>mb_data_len := mb_data_len b + len\<rparr>) (h_mbuf h l))
      in h\<lparr>h_mbuf := m1(m := map_option (\<lambda>b. b\<lparr>mb_pkt_len := mb_pkt_len b + ucast len\<rparr>) (m1 m))\<rparr>)"

lemma grow_last_packet:
  assumes pk: "packet h m (xs @ [l])" and l: "h_mbuf h l = Some lb"
    and fits: "unat (mb_data_len lb) + unat len \<le> 65535"
  shows "packet (grow_last m l len h) m (xs @ [l])"
proof -
  let ?h = "grow_last m l len h"
  obtain hb where hb: "h_mbuf h m = Some hb" "unat (mb_nb_segs hb) = Suc (length xs)"
    "unat (mb_pkt_len hb) = seg_lens h (xs @ [l])" using pk by (auto simp: packet_def)
  have d: "l \<notin> set xs" "distinct (xs @ [l])" using pk by (auto simp: packet_def)
  have dl: "unat (mb_data_len lb + len) = unat (mb_data_len lb) + unat len" using fits by (intro unat_add_lt) simp
  have "map_option mb_next (h_mbuf ?h s) = map_option mb_next (h_mbuf h s)" for s
    using l hb(1) by (auto simp: grow_last_def Let_def)
  then have path: "seg_path ?h m (xs @ [l]) NULL" using seg_path_frame [of "xs @ [l]" ?h h m NULL] pk
    by (simp add: packet_def)
  have "seg_lens ?h xs = seg_lens h xs"
    using d by (intro seg_lens_frame) (auto simp: grow_last_def Let_def option.map_comp comp_def)
  then have sl: "seg_lens ?h (xs @ [l]) = seg_lens h (xs @ [l]) + unat len"
    using l dl by (auto simp: seg_lens_append seg_lens_def grow_last_def Let_def)
  have "unat (mb_pkt_len hb + ucast len) = unat (mb_pkt_len hb) + unat len"
    using pkt_len_bound [OF pk] hb(3) u16_lt [of len] by (subst unat_add_lt) auto
  moreover have "\<exists>b. h_mbuf ?h m = Some b \<and> mb_nb_segs b = mb_nb_segs hb \<and> mb_pkt_len b = mb_pkt_len hb + ucast len"
    using hb(1) l by (auto simp: grow_last_def Let_def)
  ultimately show ?thesis using path sl hb d by (auto simp: packet_def)
qed

lemma grow_last_append:
  assumes "h_mbuf h m = Some hb" "rte_pktmbuf_lastseg h m = Some l" "h_mbuf h l = Some lb"
    "\<not> rte_pktmbuf_tailroom lb < len"
  shows "rte_pktmbuf_append m len h =
    Some (mb_buf_addr lb + ucast (mb_data_off lb) + ucast (mb_data_len lb), grow_last m l len h)"
  using assms by (cases "m = l") (simp_all add: rte_pktmbuf_append_def grow_last_def Let_def)

lemma grow_last_trim:
  assumes "packet (grow_last m l len h) m (xs @ [l])" "h_mbuf h m = Some hb" "h_mbuf h l = Some lb"
    "unat (mb_data_len lb) + unat len \<le> 65535"
  shows "rte_pktmbuf_trim m len (grow_last m l len h) = Some (0, h)"
proof -
  let ?h = "grow_last m l len h"
  have last: "rte_pktmbuf_lastseg ?h m = Some l" by (rule packet_split [OF assms(1)]) simp
  obtain lb' where lb': "h_mbuf ?h l = Some lb'" "mb_data_len lb' = mb_data_len lb + len"
    using assms(2,3) by (cases "m = l") (auto simp: grow_last_def Let_def)
  have "\<not> mb_data_len lb' < len"
    using lb'(2) assms(4) unat_add_lt [of "mb_data_len lb" len] by (simp add: word_less_nat_alt)
  moreover have "h_mbuf h = (h_mbuf h)(l \<mapsto> lb, m \<mapsto> hb)" using assms(2,3) by auto
  ultimately show ?thesis using last lb' assms(2,3)
    by (cases "m = l") (auto simp: rte_pktmbuf_trim_def grow_last_def Let_def fun_upd_twist)
qed

text \<open>Appending to a packet extends the data of its last segment by exactly the length asked
  for when the tailroom allows it, and otherwise changes nothing and returns NULL. The packet
  stays well formed, no length wraps, and trimming the same number of bytes restores the memory.\<close>

theorem rte_pktmbuf_append_trim:
  assumes pk: "packet h m (xs @ [l])" and l: "h_mbuf h l = Some lb" and geom: "mbuf_geom lb"
  shows "if unat len \<le> unat (mb_buf_len lb) - unat (mb_data_off lb) - unat (mb_data_len lb)
    then \<exists>h'. rte_pktmbuf_append m len h = Some (rte_pktmbuf_mtod_offset lb (ucast (mb_data_len lb)), h') \<and>
      packet h' m (xs @ [l]) \<and> map_option (\<lambda>b. unat (mb_data_len b)) (h_mbuf h' l) = Some (unat (mb_data_len lb) + unat len) \<and>
      rte_pktmbuf_trim m len h' = Some (0, h)
    else rte_pktmbuf_append m len h = Some (NULL, h)"
proof -
  obtain hb where hb: "h_mbuf h m = Some hb" using pk by (auto simp: packet_def)
  have last: "rte_pktmbuf_lastseg h m = Some l" by (rule packet_split [OF pk]) simp
  show ?thesis
  proof (cases "unat len \<le> unat (mb_buf_len lb) - unat (mb_data_off lb) - unat (mb_data_len lb)")
    case False
    then have "rte_pktmbuf_tailroom lb < len" using tailroom_nat [OF geom] by (simp add: word_less_nat_alt)
    then show ?thesis using False last l by (simp add: rte_pktmbuf_append_def)
  next
    case True
    then have room: "\<not> rte_pktmbuf_tailroom lb < len" using tailroom_nat [OF geom] by (simp add: word_less_nat_alt)
    have fits: "unat (mb_data_len lb) + unat len \<le> 65535"
      using True geom u16_lt [of "mb_buf_len lb"] unfolding mbuf_geom_def by linarith
    have dl: "unat (mb_data_len lb + len) = unat (mb_data_len lb) + unat len" using fits by (intro unat_add_lt) simp
    have "map_option (\<lambda>b. unat (mb_data_len b)) (h_mbuf (grow_last m l len h) l) = Some (unat (mb_data_len lb) + unat len)"
      using l hb dl by (auto simp: grow_last_def Let_def)
    then show ?thesis
      using True grow_last_append [OF hb last l room] grow_last_packet [OF pk l fits]
        grow_last_trim [OF grow_last_packet [OF pk l fits] hb l fits] by (simp add: rte_pktmbuf_mtod_offset_def)
  qed
qed

section \<open>Allocation and release\<close>

text \<open>A pool in memory whose free objects are mbufs.\<close>

definition mbuf_pool :: "'d rte_mempool_ops list \<Rightarrow> 'd rte_mempool_ops \<Rightarrow> ('d \<Rightarrow> bool) \<Rightarrow> ('d \<Rightarrow> u64 multiset)
      \<Rightarrow> 'd heap \<Rightarrow> u64 \<Rightarrow> 'd rte_mempool \<Rightarrow> bool" where
  "mbuf_pool tbl ops hinv held h p mp \<longleftrightarrow> h_pool h p = Some mp \<and> pool_wf tbl ops hinv mp \<and>
     (\<forall>x. x \<in># free_objs held mp \<longrightarrow> x \<noteq> NULL \<and> h_mbuf h x \<noteq> None)"

lemma heap_pool_same [simp]: "h_pool h p = Some mp \<Longrightarrow> h\<lparr>h_pool := (h_pool h)(p \<mapsto> mp)\<rparr> = h"
  by (simp add: fun_upd_idem)

lemma alloc_spec:
  assumes "pool_handler ops hinv held hcap" "mbuf_pool tbl ops hinv held h p mp"
  shows "if get_possible held mp lcore 1
    then \<exists>m b mp'. h_mbuf h m = Some b \<and> m \<noteq> NULL \<and> pool_wf tbl ops hinv mp' \<and>
      hcap (mp_pool_data mp') = hcap (mp_pool_data mp) \<and>
      free_objs held mp = {#m#} + free_objs held mp' \<and>
      rte_pktmbuf_alloc tbl lcore p h =
        Some (m, h\<lparr>h_pool := (h_pool h)(p \<mapsto> mp'), h_mbuf := (h_mbuf h)(m \<mapsto> rte_pktmbuf_reset b)\<rparr>)
    else rte_pktmbuf_alloc tbl lcore p h = Some (NULL, h)"
proof -
  have p: "h_pool h p = Some mp" and wf: "pool_wf tbl ops hinv mp" using assms(2) by (auto simp: mbuf_pool_def)
  note get = pool_handler.get_bulk_spec [OF assms(1) wf, of 1 "[0]" lcore]
  show ?thesis
  proof (cases "get_possible held mp lcore 1")
    case True
    then obtain mp' m where g: "rte_mempool_get_bulk tbl lcore mp [0] 1 = Some (mp', [m], 0)" "pool_wf tbl ops hinv mp'"
      "hcap (mp_pool_data mp') = hcap (mp_pool_data mp)"
      "free_objs held mp = {#m#} + free_objs held mp'"
      using get by (auto simp: length_Suc_conv)
    then obtain b where "m \<noteq> NULL" "h_mbuf h m = Some b" using assms(2) by (fastforce simp: mbuf_pool_def)
    then show ?thesis using True p g
      by (intro if_P [THEN iffD2] exI [of _ m] exI [of _ b] exI [of _ mp'])
        (simp_all add: rte_pktmbuf_alloc_def rte_mbuf_raw_alloc_def mempool_get_at_def)
  next
    case False
    then show ?thesis using get p
      by (auto simp: rte_pktmbuf_alloc_def rte_mbuf_raw_alloc_def mempool_get_at_def)
  qed
qed

text \<open>Allocating an mbuf returns one of the free mbufs of the pool, which is then no longer
  free, with every field the application relies on reset and no other memory changed; when neither
  the pool nor the cache of the lcore has one, the result is NULL and nothing changes.\<close>

theorem rte_pktmbuf_alloc_exact:
  assumes "pool_handler ops hinv held hcap" "mbuf_pool tbl ops hinv held h p mp"
  shows "if get_possible held mp lcore 1
    then \<exists>m b mp'. h_mbuf h m = Some b \<and> m \<noteq> NULL \<and> pool_wf tbl ops hinv mp' \<and>
      free_objs held mp = {#m#} + free_objs held mp' \<and>
      rte_pktmbuf_alloc tbl lcore p h =
        Some (m, h\<lparr>h_pool := (h_pool h)(p \<mapsto> mp'), h_mbuf := (h_mbuf h)(m \<mapsto> rte_pktmbuf_reset b)\<rparr>)
    else rte_pktmbuf_alloc tbl lcore p h = Some (NULL, h)"
  using alloc_spec [OF assms, of lcore] by (cases "get_possible held mp lcore 1") (simp, blast, simp)

text \<open>What freeing a direct segment leaves of it: the last user gives it back unlinked, any other
  user only drops its reference.\<close>

definition freed_seg :: "rte_mbuf \<Rightarrow> rte_mbuf" where
  "freed_seg b = (if mb_refcnt b = 1 then b\<lparr>mb_next := NULL, mb_nb_segs := 1\<rparr> else b\<lparr>mb_refcnt := mb_refcnt b - 1\<rparr>)"

definition freeable :: "u64 \<Rightarrow> rte_mbuf \<Rightarrow> bool" where
  "freeable p b \<longleftrightarrow> RTE_MBUF_DIRECT b \<and> mb_refcnt b \<noteq> 0 \<and> mb_pool b = p"

lemma unlink_seg_eq: "unlink_seg b = b\<lparr>mb_next := NULL, mb_nb_segs := 1\<rparr>"
  by (simp add: unlink_seg_def Let_def)

lemma prefree_direct:
  assumes "h_mbuf h m = Some b" "freeable p b"
  shows "rte_pktmbuf_prefree_seg tbl lcore m h =
    Some (if mb_refcnt b = 1 then m else NULL, h\<lparr>h_mbuf := (h_mbuf h)(m \<mapsto> freed_seg b)\<rparr>)"
proof (cases "mb_refcnt b = 1")
  case True
  then show ?thesis using assms
    by (simp add: rte_pktmbuf_prefree_seg_def prefree_detach_def freeable_def freed_seg_def unlink_seg_eq
        rte_mbuf_refcnt_read_def)
next
  case False
  moreover have "mb_refcnt b + - 1 \<noteq> 0" using False by (metis add.right_inverse add_right_cancel)
  ultimately show ?thesis using assms
    by (simp add: rte_pktmbuf_prefree_seg_def freed_seg_def rte_mbuf_refcnt_read_def mbuf_refcnt_add_def Let_def)
qed

lemma free_seg_direct:
  assumes ph: "pool_handler ops hinv held hcap" and m: "h_mbuf h m = Some b" "freeable p b" "m \<noteq> NULL"
    and p: "h_pool h p = Some mp" "pool_wf tbl ops hinv mp" "size (free_objs held mp) < hcap (mp_pool_data mp)"
  shows "\<exists>mp'. rte_pktmbuf_free_seg tbl lcore m h =
      Some (h\<lparr>h_pool := (h_pool h)(p \<mapsto> mp'), h_mbuf := (h_mbuf h)(m \<mapsto> freed_seg b)\<rparr>) \<and>
    pool_wf tbl ops hinv mp' \<and> hcap (mp_pool_data mp') = hcap (mp_pool_data mp) \<and>
    free_objs held mp' = free_objs held mp + (if mb_refcnt b = 1 then {#m#} else {#})"
proof (cases "mb_refcnt b = 1")
  case True
  obtain mp' where "rte_mempool_put_bulk tbl lcore mp [m] 1 = Some mp'" "pool_wf tbl ops hinv mp'"
    "hcap (mp_pool_data mp') = hcap (mp_pool_data mp)" "free_objs held mp' = free_objs held mp + {#m#}"
    using pool_handler.put_bulk_spec [OF ph p(2), of 1 "[m]" lcore] p(3) by auto
  moreover have "mb_pool (freed_seg b) = p" using m by (simp add: freeable_def freed_seg_def)
  ultimately show ?thesis using True m(3) p(1) prefree_direct [OF m(1,2)]
    by (intro exI [of _ mp']) (simp add: rte_pktmbuf_free_seg_def rte_mbuf_raw_free_def mempool_put_at_def rte_mempool_put_def)
next
  case False
  then show ?thesis using p prefree_direct [OF m(1,2)]
    by (intro exI [of _ mp]) (simp add: rte_pktmbuf_free_seg_def fun_upd_idem)
qed

lemma free_spec:
  assumes "pool_handler ops hinv held hcap" "seg_path h m ms NULL" "distinct ms"
    "\<And>s b. s \<in> set ms \<Longrightarrow> h_mbuf h s = Some b \<Longrightarrow> freeable p b"
    "h_pool h p = Some mp" "pool_wf tbl ops hinv mp"
    "size (free_objs held mp) + length ms \<le> hcap (mp_pool_data mp)"
  shows "\<exists>mp'. rte_pktmbuf_free tbl lcore m h =
      Some (h\<lparr>h_pool := (h_pool h)(p \<mapsto> mp'),
              h_mbuf := (\<lambda>s. if s \<in> set ms then map_option freed_seg (h_mbuf h s) else h_mbuf h s)\<rparr>) \<and>
    pool_wf tbl ops hinv mp' \<and> hcap (mp_pool_data mp') = hcap (mp_pool_data mp) \<and>
    free_objs held mp' = free_objs held mp + mset (filter (\<lambda>s. map_option mb_refcnt (h_mbuf h s) = Some 1) ms)"
  using assms(2-)
proof (induction ms arbitrary: m h mp)
  case Nil
  then show ?case by (intro exI [of _ mp]) (subst rte_pktmbuf_free.simps, simp)
next
  case (Cons s ss)
  then obtain b where b0: "m = s" "m \<noteq> NULL" "h_mbuf h m = Some b" "seg_path h (mb_next b) ss NULL" by auto
  have "freeable p b" using Cons.prems(3) [of s b] b0 by simp
  note b = b0 this
  define h1 where "h1 mp' = h\<lparr>h_pool := (h_pool h)(p \<mapsto> mp'), h_mbuf := (h_mbuf h)(m \<mapsto> freed_seg b)\<rparr>" for mp'
  obtain mp1 where s1: "rte_pktmbuf_free_seg tbl lcore m h = Some (h1 mp1)" "pool_wf tbl ops hinv mp1"
    "hcap (mp_pool_data mp1) = hcap (mp_pool_data mp)"
    "free_objs held mp1 = free_objs held mp + (if mb_refcnt b = 1 then {#m#} else {#})"
    using free_seg_direct [OF assms(1) b(3,5,2) Cons.prems(4,5)] Cons.prems(6) unfolding h1_def by auto
  have nin: "s \<notin> set ss" using Cons.prems(2) by simp
  have path: "seg_path (h1 mp1) (mb_next b) ss NULL"
    using seg_path_frame [of ss "h1 mp1" h] b nin by (fastforce simp: h1_def)
  have same: "h_mbuf (h1 mp1) x = h_mbuf h x" if "x \<in> set ss" for x using that nin b by (auto simp: h1_def)
  have "\<exists>mp'. rte_pktmbuf_free tbl lcore (mb_next b) (h1 mp1) =
      Some ((h1 mp1)\<lparr>h_pool := (h_pool (h1 mp1))(p \<mapsto> mp'),
              h_mbuf := (\<lambda>s. if s \<in> set ss then map_option freed_seg (h_mbuf (h1 mp1) s) else h_mbuf (h1 mp1) s)\<rparr>) \<and>
    pool_wf tbl ops hinv mp' \<and> hcap (mp_pool_data mp') = hcap (mp_pool_data mp1) \<and>
    free_objs held mp' = free_objs held mp1 + mset (filter (\<lambda>s. map_option mb_refcnt (h_mbuf (h1 mp1) s) = Some 1) ss)"
    using path Cons.prems same s1 by (intro Cons.IH) (auto simp: h1_def)
  then obtain mp2 where IH: "rte_pktmbuf_free tbl lcore (mb_next b) (h1 mp1) =
      Some ((h1 mp1)\<lparr>h_pool := (h_pool (h1 mp1))(p \<mapsto> mp2),
              h_mbuf := (\<lambda>s. if s \<in> set ss then map_option freed_seg (h_mbuf (h1 mp1) s) else h_mbuf (h1 mp1) s)\<rparr>)"
    "pool_wf tbl ops hinv mp2" "hcap (mp_pool_data mp2) = hcap (mp_pool_data mp1)"
    "free_objs held mp2 = free_objs held mp1 + mset (filter (\<lambda>s. map_option mb_refcnt (h_mbuf (h1 mp1) s) = Some 1) ss)"
    by blast
  have flt: "filter (\<lambda>s. map_option mb_refcnt (h_mbuf (h1 mp1) s) = Some 1) ss =
      filter (\<lambda>s. map_option mb_refcnt (h_mbuf h s) = Some 1) ss"
    using same by (intro filter_cong) auto
  show ?case
  proof (intro exI conjI)
    show "rte_pktmbuf_free tbl lcore m h = Some (h\<lparr>h_pool := (h_pool h)(p \<mapsto> mp2),
        h_mbuf := (\<lambda>x. if x \<in> set (s # ss) then map_option freed_seg (h_mbuf h x) else h_mbuf h x)\<rparr>)"
      using b s1(1) IH(1) nin same by (subst rte_pktmbuf_free.simps) (auto simp: h1_def fun_eq_iff)
    show "pool_wf tbl ops hinv mp2" by (rule IH)
    show "hcap (mp_pool_data mp2) = hcap (mp_pool_data mp)" using IH(3) s1(3) by simp
    show "free_objs held mp2 = free_objs held mp + mset (filter (\<lambda>s. map_option mb_refcnt (h_mbuf h s) = Some 1) (s # ss))"
      using IH(4) s1(4) b unfolding flt by simp
  qed
qed

text \<open>C10. Freeing a packet that consists of direct segments in use, all from the one pool \<open>p\<close>, ends and
  visits every segment once: those with no other user go back to the pool, unlinked and ready for
  the next allocation, the others lose one reference, and nothing else in memory changes. Not covered
  are packets with segments of several pools, or with an indirect segment or one with an external or
  pinned buffer (the release of an indirect mbuf is a property of its own), and segments whose count is
  already zero.\<close>

theorem rte_pktmbuf_free_exact:
  assumes "pool_handler ops hinv held hcap" "seg_path h m ms NULL" "distinct ms"
    "\<And>s b. s \<in> set ms \<Longrightarrow> h_mbuf h s = Some b \<Longrightarrow> freeable p b"
    "h_pool h p = Some mp" "pool_wf tbl ops hinv mp"
    "size (free_objs held mp) + length ms \<le> hcap (mp_pool_data mp)"
  shows "\<exists>mp'. rte_pktmbuf_free tbl lcore m h =
      Some (h\<lparr>h_pool := (h_pool h)(p \<mapsto> mp'),
              h_mbuf := (\<lambda>s. if s \<in> set ms then map_option freed_seg (h_mbuf h s) else h_mbuf h s)\<rparr>) \<and>
    pool_wf tbl ops hinv mp' \<and> hcap (mp_pool_data mp') = hcap (mp_pool_data mp) \<and>
    free_objs held mp' = free_objs held mp + mset (filter (\<lambda>s. map_option mb_refcnt (h_mbuf h s) = Some 1) ms)"
  by (rule free_spec [OF assms])

section \<open>Indirect mbufs\<close>

text \<open>An mbuf that describes the buffer which follows it in its own pool element.\<close>

definition own_buffer :: "'d heap \<Rightarrow> u64 \<Rightarrow> rte_mbuf \<Rightarrow> bool" where
  "own_buffer h m b \<longleftrightarrow> h_mbuf h m = Some b \<and> RTE_MBUF_DIRECT b \<and> mb_refcnt b \<noteq> 0 \<and>
     mb_buf_addr b = m + (sizeof_mbuf + ucast (mb_priv_size b))"

lemma and_flag: "w AND push_bit n 1 = 0 \<longleftrightarrow> \<not> bit w n" for w :: "'a::len word"
  using and_exp_eq_0_iff_not_bit [of w n] by (simp only: push_bit_eq_mult mult_1)

lemma flag_bits:
  "RTE_MBUF_DIRECT b \<longleftrightarrow> \<not> bit (mb_ol_flags b) 61 \<and> \<not> bit (mb_ol_flags b) 62"
  "RTE_MBUF_HAS_EXTBUF b \<longleftrightarrow> bit (mb_ol_flags b) 61"
proof -
  have dist: "w AND (x OR y) = 0 \<longleftrightarrow> w AND x = 0 \<and> w AND y = 0" for w x y :: u64
    by (simp add: bit.conj_disj_distrib or_eq_0_iff)
  show "RTE_MBUF_DIRECT b \<longleftrightarrow> \<not> bit (mb_ol_flags b) 61 \<and> \<not> bit (mb_ol_flags b) 62"
    unfolding RTE_MBUF_DIRECT_def dist and_flag by blast
  show "RTE_MBUF_HAS_EXTBUF b \<longleftrightarrow> bit (mb_ol_flags b) 61"
    unfolding RTE_MBUF_HAS_EXTBUF_def and_flag by blast
qed

lemma indirect_flag: "bit (w OR RTE_MBUF_F_INDIRECT) 62" "bit (w OR RTE_MBUF_F_INDIRECT) 61 = bit w 61" for w :: u64
proof -
  have "bit (push_bit n (1 :: u64)) i \<longleftrightarrow> i = n" if "n < 64" for n i
    using that by (auto simp: bit_simps)
  then have one: "bit (push_bit n (1 :: u64)) i \<longleftrightarrow> i = n" if "n < 64" for n i using that by blast
  have "(62 :: nat) < 64" "(61 :: nat) \<noteq> 62" by simp_all
  then show "bit (w OR RTE_MBUF_F_INDIRECT) 62" "bit (w OR RTE_MBUF_F_INDIRECT) 61 = bit w 61"
    unfolding bit_or_iff using one [of 62 62] one [of 62 61] by blast+
qed

text \<open>C13. Attaching an mbuf to a direct one makes it show exactly the same data and adds one
  reference to the owner; releasing it again gives the owner back as it was and leaves the
  attached mbuf direct, unlinked and empty on the buffer of its own pool element.\<close>

theorem rte_pktmbuf_attach_release:
  assumes m: "own_buffer h m b" and mi: "own_buffer h mi c" "mb_refcnt c = 1" "mi \<noteq> m"
    and priv: "pool_private h (mb_pool c) = Some pp" and hdr: "h_objhdr h (mi - sizeof_objhdr) = Some ohdr"
  shows "\<exists>h1 i h2 c2. rte_pktmbuf_attach mi m h = Some h1 \<and> h_mbuf h1 mi = Some i \<and>
      rte_pktmbuf_mtod_offset i = rte_pktmbuf_mtod_offset b \<and> mb_data_len i = mb_data_len b \<and> \<not> RTE_MBUF_DIRECT i \<and>
      h_mbuf h1 m = Some (b\<lparr>mb_refcnt := mb_refcnt b + 1\<rparr>) \<and>
      rte_pktmbuf_prefree_seg tbl lcore mi h1 = Some (mi, h2) \<and> h2 = h\<lparr>h_mbuf := (h_mbuf h)(mi \<mapsto> c2)\<rparr> \<and>
      RTE_MBUF_DIRECT c2 \<and> mb_refcnt c2 = 1 \<and> mb_next c2 = NULL \<and> mb_nb_segs c2 = 1 \<and> mb_data_len c2 = 0 \<and>
      mb_buf_addr c2 = mi + ucast (ucast (sizeof_mbuf + ucast (pp_mbuf_priv_size pp)) :: u32) \<and>
      mb_buf_len c2 = pp_mbuf_data_room_size pp"
proof -
  have b: "h_mbuf h m = Some b" "RTE_MBUF_HAS_EXTBUF b = False" "mb_refcnt b \<noteq> 0" "rte_mbuf_from_indirect b = m"
    and c: "h_mbuf h mi = Some c" using m mi by (auto simp: own_buffer_def flag_bits rte_mbuf_from_indirect_def)
  define b1 where "b1 = b\<lparr>mb_refcnt := mb_refcnt b + 1\<rparr>"
  define i where "i = (pktmbuf_copy_hdr (c\<lparr>mb_priv_size := mb_priv_size b, mb_ol_flags := mb_ol_flags b OR RTE_MBUF_F_INDIRECT\<rparr>) b)
      \<lparr>mb_data_off := mb_data_off b, mb_data_len := mb_data_len b, mb_buf_iova := mb_buf_iova b, mb_buf_addr := mb_buf_addr b,
        mb_buf_len := mb_buf_len b, mb_next := NULL, mb_pkt_len := ucast (mb_data_len b), mb_nb_segs := 1\<rparr>"
  define h1 where "h1 = h\<lparr>h_mbuf := (h_mbuf h)(m \<mapsto> b1, mi \<mapsto> i)\<rparr>"
  have attach: "rte_pktmbuf_attach mi m h = Some h1"
    using b c mi(3)
    by (simp add: rte_pktmbuf_attach_def refcnt_update_at_def mbuf_simps h1_def i_def b1_def pktmbuf_copy_hdr_def
        rte_mbuf_dynfield_copy_def)
  have i: "RTE_MBUF_DIRECT i = False" "RTE_MBUF_HAS_EXTBUF i = False" "rte_mbuf_from_indirect i = m" "mb_refcnt i = 1"
    "mb_pool i = mb_pool c"
    using b mi(2) indirect_flag
    by (auto simp: flag_bits i_def pktmbuf_copy_hdr_def rte_mbuf_dynfield_copy_def rte_mbuf_from_indirect_def)
  have pool: "pool_private (h\<lparr>h_mbuf := M\<rparr>) (mb_pool c) = Some pp" for M
    using priv by (simp add: pool_private_def)
  have free: "pktmbuf_free_direct tbl lcore mi h1 = Some (h\<lparr>h_mbuf := (h_mbuf h)(m \<mapsto> b, mi \<mapsto> i)\<rparr>)"
    using i(3) b(3) mi(3) by (simp add: pktmbuf_free_direct_def h1_def refcnt_update_at_def mbuf_simps b1_def fun_upd_twist)
  define c1 where "c1 = (rte_pktmbuf_reset_headroom (i\<lparr>mb_priv_size := pp_mbuf_priv_size pp,
      mb_buf_addr := mi + ucast (ucast (sizeof_mbuf + ucast (pp_mbuf_priv_size pp)) :: u32),
      mb_buf_iova := oh_iova ohdr + ucast (ucast (sizeof_mbuf + ucast (pp_mbuf_priv_size pp)) :: u32),
      mb_buf_len := pp_mbuf_data_room_size pp\<rparr>))\<lparr>mb_data_len := 0, mb_ol_flags := 0\<rparr>"
  have det: "rte_pktmbuf_detach tbl lcore mi h1 = Some (h\<lparr>h_mbuf := (h_mbuf h)(m \<mapsto> b, mi \<mapsto> c1)\<rparr>)"
    using i free hdr mi(3)
    by (simp add: rte_pktmbuf_detach_def h1_def c1_def pool rte_pktmbuf_priv_size_def rte_pktmbuf_data_room_size_def
        rte_mempool_virt2iova_def Let_def)
  have c1: "RTE_MBUF_DIRECT c1" "RTE_MBUF_HAS_EXTBUF c1 = False" by (simp_all add: c1_def flag_bits)
  have "rte_pktmbuf_prefree_seg tbl lcore mi h1 = Some (mi, h\<lparr>h_mbuf := (h_mbuf h)(m \<mapsto> b, mi \<mapsto> unlink_seg c1)\<rparr>)"
    using i det c1 mi(3)
    by (simp add: rte_pktmbuf_prefree_seg_def prefree_detach_def rte_mbuf_refcnt_read_def h1_def)
  moreover have "RTE_MBUF_DIRECT (unlink_seg c1)" "mb_refcnt (unlink_seg c1) = 1" "mb_data_len (unlink_seg c1) = 0"
    "mb_buf_addr (unlink_seg c1) = mi + ucast (ucast (sizeof_mbuf + ucast (pp_mbuf_priv_size pp)) :: u32)"
    "mb_buf_len (unlink_seg c1) = pp_mbuf_data_room_size pp" "mb_next (unlink_seg c1) = NULL" "mb_nb_segs (unlink_seg c1) = 1"
    using c1(1) i(4) by (auto simp: unlink_seg_eq c1_def rte_pktmbuf_reset_headroom_def flag_bits)
  moreover have "rte_pktmbuf_mtod_offset i = rte_pktmbuf_mtod_offset b" "mb_data_len i = mb_data_len b"
    "h_mbuf h1 mi = Some i" "h_mbuf h1 m = Some b1"
    using mi(3) by (auto simp: fun_eq_iff rte_pktmbuf_mtod_offset_def i_def h1_def)
  moreover have "(h_mbuf h)(m \<mapsto> b, mi \<mapsto> unlink_seg c1) = (h_mbuf h)(mi \<mapsto> unlink_seg c1)"
    using b(1) by (simp add: fun_upd_idem)
  ultimately show ?thesis using attach i(1) unfolding b1_def by metis
qed

section \<open>A concrete memory\<close>

text \<open>The pool \<open>ex_pool\<close> with its two free mbufs at 10 and 20, and two one-segment packets in use at
  1000 and 2000.\<close>

definition ex_mbuf :: "u64 \<Rightarrow> rte_mbuf" where
  "ex_mbuf a = \<lparr>mb_buf_addr = a + 128, mb_buf_iova = a + 128, mb_data_off = 128, mb_refcnt = 1, mb_nb_segs = 1,
     mb_port = 0, mb_ol_flags = 0, mb_packet_type = 0, mb_pkt_len = 60, mb_data_len = 60, mb_vlan_tci = 0,
     mb_hash = \<lparr>sched_queue_id = 0, sched_traffic_class = 0, sched_color = 0, sched_reserved = 0\<rparr>,
     mb_vlan_tci_outer = 0, mb_buf_len = 2176, mb_pool = 64, mb_next = 0, mb_tx_offload = 0, mb_shinfo = 0,
     mb_priv_size = 0, mb_timesync = 0, mb_dynfield1 = replicate 9 0\<rparr>"

lemma ex_mbuf_fields [simp]:
  "mb_buf_addr (ex_mbuf a) = a + 128" "mb_data_off (ex_mbuf a) = 128" "mb_refcnt (ex_mbuf a) = 1"
  "mb_data_len (ex_mbuf a) = 60" "mb_pkt_len (ex_mbuf a) = 60" "mb_buf_len (ex_mbuf a) = 2176"
  "mb_pool (ex_mbuf a) = 64" "mb_ol_flags (ex_mbuf a) = 0" "mb_nb_segs (ex_mbuf a) = 1" "mb_next (ex_mbuf a) = NULL"
  by (simp_all add: ex_mbuf_def)

definition ex_heap :: "rte_ring heap" where
  "ex_heap = \<lparr>h_mbuf = (\<lambda>a. if a \<in> {10, 20, 1000, 2000} then Some (ex_mbuf a) else None), h_shinfo = Map.empty,
     h_pool = [64 \<mapsto> ex_pool],
     h_priv = (\<lambda>_. Some \<lparr>pp_mbuf_data_room_size = 2176, pp_mbuf_priv_size = 0, pp_flags = 0\<rparr>),
     h_objhdr = (\<lambda>a. Some \<lparr>oh_next = 0, oh_mp = 64, oh_iova = a + 24\<rparr>), h_byte = (\<lambda>_. Some 0), h_ext_freed = []\<rparr>"

lemma ex_heap_mbuf: "h_mbuf ex_heap 1000 = Some (ex_mbuf 1000)" "h_mbuf ex_heap 2000 = Some (ex_mbuf 2000)"
  by (simp_all add: ex_heap_def)

lemma ex_ring_held: "ring_held ex_ring = {#10, 20#}"
proof -
  have "ring_elems 2 ex_ring = [[10, 0], [20, 0]]"
    by (simp add: ring_elems_def ring_used_def ex_ring_def chunks.simps ring_load_def upt_rec)
  then show ?thesis by (simp add: ring_held_def ring_ptrs_def words_ptr_def)
qed

lemma ex_heap_pool: "mbuf_pool [ring_pool_ops] ring_pool_ops (ring_inv 2) ring_held ex_heap 64 ex_pool"
  by (auto simp: mbuf_pool_def ex_pool_wf ex_pool_free ex_ring_held ex_heap_def)

lemma ex_packet: "packet ex_heap 1000 [1000]" "packet ex_heap 2000 [2000]"
  by (simp_all add: packet_def ex_heap_mbuf seg_lens_def)

lemma ex_own: "own_buffer ex_heap 1000 (ex_mbuf 1000)" "own_buffer ex_heap 2000 (ex_mbuf 2000)"
  by (simp_all add: own_buffer_def ex_heap_mbuf RTE_MBUF_DIRECT_def) (simp_all add: ex_mbuf_def)

theorem rte_pktmbuf_alloc_bulk_unrolled_witness:
  "unat (2 :: u32) \<le> length [1000, 2000 :: u64] \<and>
   alloc_bulk_loop (2 mod 4) [1000, 2000] 0 2 ex_heap = reset_all [1000, 2000] ex_heap"
  using rte_pktmbuf_alloc_bulk_unrolled [of 2 "[1000, 2000]" ex_heap] by simp

theorem rte_pktmbuf_prepend_adj_witness:
  "\<exists>mb'. rte_pktmbuf_prepend (ex_mbuf 1000) 14 = (rte_pktmbuf_mtod_offset (ex_mbuf 1000) (- 14), mb') \<and>
     unat (mb_data_off mb') = 114 \<and> rte_pktmbuf_adj mb' 14 = (rte_pktmbuf_mtod_offset (ex_mbuf 1000) 0, ex_mbuf 1000)"
  using rte_pktmbuf_prepend_adj [of "ex_mbuf 1000" 14]
  by (simp add: mbuf_geom_def) fastforce

theorem rte_pktmbuf_chain_appends_witness:
  "\<exists>h'. rte_pktmbuf_chain 1000 2000 ex_heap = Some (0, h') \<and> packet h' 1000 [1000, 2000]"
  using rte_pktmbuf_chain_appends [OF ex_packet] by simp

theorem rte_pktmbuf_append_trim_witness:
  "\<exists>h'. rte_pktmbuf_append 1000 100 ex_heap = Some (1000 + 128 + 128 + 60, h') \<and> packet h' 1000 [1000] \<and>
     rte_pktmbuf_trim 1000 100 h' = Some (0, ex_heap)"
  using rte_pktmbuf_append_trim [of ex_heap 1000 "[]" 1000 "ex_mbuf 1000" 100] ex_packet(1) ex_heap_mbuf(1)
  by (auto simp: mbuf_geom_def rte_pktmbuf_mtod_offset_def)

theorem rte_pktmbuf_alloc_exact_witness:
  "\<exists>m h'. rte_pktmbuf_alloc [ring_pool_ops] 0 64 ex_heap = Some (m, h') \<and> m \<noteq> NULL"
proof -
  have "get_possible ring_held ex_pool 0 1" by (simp add: get_possible_def ex_pool_facts)
  then show ?thesis
    using rte_pktmbuf_alloc_exact [OF ring_pool.pool_handler_axioms ex_heap_pool, where lcore = 0] by auto
qed

theorem rte_pktmbuf_free_exact_witness:
  "\<exists>h' mp'. rte_pktmbuf_free [ring_pool_ops] 0 1000 ex_heap = Some h' \<and> h_pool h' 64 = Some mp' \<and>
     free_objs ring_held mp' = {#10, 20, 1000#}"
proof -
  have path: "seg_path ex_heap 1000 [1000] NULL" and d: "distinct [1000 :: u64]" using ex_packet(1) by (simp_all add: packet_def)
  have fr: "freeable 64 b" if "s \<in> set [1000]" "h_mbuf ex_heap s = Some b" for s b
    using that by (auto simp: ex_heap_mbuf freeable_def ex_mbuf_def RTE_MBUF_DIRECT_def)
  have pool: "h_pool ex_heap 64 = Some ex_pool" by (simp add: ex_heap_def)
  have room: "size (free_objs ring_held ex_pool) + length [1000 :: u64] \<le> unat (r_capacity (mp_pool_data ex_pool))"
    by (simp add: ex_pool_facts)
  obtain mp' h' where "rte_pktmbuf_free [ring_pool_ops] 0 1000 ex_heap = Some h'" "h_pool h' 64 = Some mp'"
    "free_objs ring_held mp' = free_objs ring_held ex_pool +
      mset (filter (\<lambda>s. map_option mb_refcnt (h_mbuf ex_heap s) = Some 1) [1000])"
    using rte_pktmbuf_free_exact [OF ring_pool.pool_handler_axioms path d _ pool ex_pool_wf room, where lcore = 0] fr
    by fastforce
  then show ?thesis by (auto simp: ex_pool_free ex_ring_held ex_heap_mbuf)
qed

theorem rte_pktmbuf_attach_release_witness:
  "\<exists>h1 h2 c2. rte_pktmbuf_attach 2000 1000 ex_heap = Some h1 \<and>
     rte_pktmbuf_prefree_seg [ring_pool_ops] 0 2000 h1 = Some (2000, h2) \<and> h_mbuf h2 2000 = Some c2 \<and>
     RTE_MBUF_DIRECT c2 \<and> h_mbuf h2 1000 = Some (ex_mbuf 1000)"
proof -
  have pp: "pool_private ex_heap (mb_pool (ex_mbuf 2000)) =
      Some \<lparr>pp_mbuf_data_room_size = 2176, pp_mbuf_priv_size = 0, pp_flags = 0\<rparr>"
    by (simp add: pool_private_def ex_mbuf_def ex_heap_def)
  have oh: "h_objhdr ex_heap (2000 - 24) = Some \<lparr>oh_next = 0, oh_mp = 64, oh_iova = 2000\<rparr>" by (simp add: ex_heap_def)
  have "mb_refcnt (ex_mbuf 2000) = 1" "(2000 :: u64) \<noteq> 1000" by (simp_all add: ex_mbuf_def)
  from rte_pktmbuf_attach_release [OF ex_own(1) ex_own(2) this pp oh, of "[ring_pool_ops]" 0]
  show ?thesis by (auto simp: ex_heap_mbuf)
qed

end
