(* ===== verification/Rte_Mbuf_Fields.thy ===== *)
theory Rte_Mbuf_Fields
  imports Rte_Mbuf_Correct
begin

text \<open>
  Properties of single mbuf fields and buffers: the packed offload lengths, the validity check of
  the offload flags, the shared-info block at the end of an external buffer and reading at an offset.
\<close>

section \<open>Offload fields\<close>

lemma small_bit:
  fixes w :: "'a::len word"
  assumes "w < 2 ^ n" "n \<le> i"
  shows "\<not> bit w i"
proof
  assume b: "bit w i"
  then have i: "i < LENGTH('a)" by (rule bit_imp_le_length)
  then have "(2 :: nat) ^ n < 2 ^ LENGTH('a)" using assms(2) by simp
  then have "unat (of_nat (2 ^ n) :: 'a word) = 2 ^ n" by (subst unat_of_nat) (rule mod_less)
  then have "unat ((2 :: 'a word) ^ n) = 2 ^ n" by simp
  then have "unat w < 2 ^ n" using assms(1) by (simp add: word_less_nat_alt)
  also have "(2 :: nat) ^ n \<le> 2 ^ i" using assms(2) by simp
  finally have "\<not> bit (unat w) i" by (simp add: bit_iff_odd)
  then show False using b i by (simp add: bit_unsigned_iff)
qed

lemma small_lt: "w < 2 ^ n \<Longrightarrow> bit w i \<Longrightarrow> i < n" for w :: "'a::len word"
  using small_bit [of w n i] by (cases "n \<le> i") auto

text \<open>The seven header lengths packed into one 64-bit word are read back by the bit fields
  of the descriptor unchanged, provided each fits its field.\<close>

theorem rte_mbuf_tx_offload_fields:
  fixes unused :: u64
  assumes s: "il2 < 2 ^ 7" "il3 < 2 ^ 9" "il4 < 2 ^ 8" "tso < 2 ^ 16" "ol3 < 2 ^ 9" "ol2 < 2 ^ 7"
  defines "w \<equiv> rte_mbuf_tx_offload il2 il3 il4 tso ol3 ol2 unused"
  shows "tx_l2_len w = il2 \<and> tx_l3_len w = il3 \<and> tx_l4_len w = il4 \<and> tx_tso_segsz w = tso \<and>
    tx_outer_l3_len w = ol3 \<and> tx_outer_l2_len w = ol2"
proof -
  have len: "i < 64" if "bit x i" for x :: u64 and i using bit_imp_le_length [OF that] by simp
  note fields = s [THEN small_bit]
  note lt = s [THEN small_lt]
  have bw: "bit w i \<longleftrightarrow> i < 64 \<and> (bit il2 i \<or> 7 \<le> i \<and> bit il3 (i - 7) \<or> 16 \<le> i \<and> bit il4 (i - 16) \<or>
      24 \<le> i \<and> bit tso (i - 24) \<or> 40 \<le> i \<and> bit ol3 (i - 40) \<or> 49 \<le> i \<and> bit ol2 (i - 49) \<or>
      56 \<le> i \<and> bit unused (i - 56))" for i
    using len by (auto simp: w_def rte_mbuf_tx_offload_def bit_simps)
  have "tx_l2_len w = il2"
    using fields by (intro bit_word_eqI) (auto simp: tx_l2_len_def bit_take_bit_iff bw not_le dest: len lt)
  moreover have "tx_l3_len w = il3"
    using fields by (intro bit_word_eqI) (auto simp: tx_l3_len_def bit_take_bit_iff bit_drop_bit_eq bw not_le dest: len lt)
  moreover have "tx_l4_len w = il4"
    using fields by (intro bit_word_eqI) (auto simp: tx_l4_len_def bit_take_bit_iff bit_drop_bit_eq bw not_le dest: len lt)
  moreover have "tx_tso_segsz w = tso"
    using fields by (intro bit_word_eqI) (auto simp: tx_tso_segsz_def bit_take_bit_iff bit_drop_bit_eq bw not_le dest: len lt)
  moreover have "tx_outer_l3_len w = ol3"
    using fields by (intro bit_word_eqI) (auto simp: tx_outer_l3_len_def bit_take_bit_iff bit_drop_bit_eq bw not_le dest: len lt)
  moreover have "tx_outer_l2_len w = ol2"
    using fields by (intro bit_word_eqI) (auto simp: tx_outer_l2_len_def bit_take_bit_iff bit_drop_bit_eq bw not_le dest: len lt)
  ultimately show ?thesis by blast
qed

theorem rte_mbuf_tx_offload_fields_witness:
  "tx_l2_len (rte_mbuf_tx_offload 14 20 32 1448 40 127 0) = 14 \<and>
   tx_tso_segsz (rte_mbuf_tx_offload 14 20 32 1448 40 127 0) = 1448"
  using rte_mbuf_tx_offload_fields [of 14 20 32 1448 40 127 0] by simp

lemma and_ones: "w AND push_bit k (mask m) = 0 \<longleftrightarrow> \<not> (\<exists>n \<in> {k..<k + m}. bit w n)" for w :: "'a::len word"
proof -
  have "w AND push_bit k (mask m) = 0 \<longleftrightarrow> (\<forall>n < LENGTH('a). \<not> (bit w n \<and> k \<le> n \<and> n - k < m))"
    by (auto simp: bit_eq_iff bit_simps)
  also have "\<dots> \<longleftrightarrow> \<not> (\<exists>n \<in> {k..<k + m}. bit w n)"
    using bit_imp_le_length [of w] by (auto simp: less_diff_conv2 add.commute)
  finally show ?thesis .
qed

lemma flag_masks:
  "RTE_MBUF_F_TX_OFFLOAD_MASK = push_bit 41 (mask 20)"
  "RTE_MBUF_F_TX_L4_MASK = push_bit 52 (mask 2)"
  by (simp_all add: RTE_MBUF_F_TX_OFFLOAD_MASK_def mask_eq_exp_minus_1)

lemma and_or_zero: "w AND (x OR y) = 0 \<longleftrightarrow> w AND x = 0 \<and> w AND y = 0" for w x y :: "'a::len word"
  by (simp add: bit.conj_disj_distrib or_eq_0_iff)

lemma range_52_2: "{52..<52 + 2} = {52, 53 :: nat}" "{41..<41 + 20} = {41..60 :: nat}"
  by auto

definition ol_bit :: "rte_mbuf \<Rightarrow> nat \<Rightarrow> bool" where
  "ol_bit mb n \<longleftrightarrow> bit (mb_ol_flags mb) n"

text \<open>An mbuf accepted by the offload check asks for nothing contradictory: no IP checksum on
  an IPv6 packet, no L4 work without an IP version, no segmentation without a segment size or,
  over IPv4, without the IP checksum, and no outer IP checksum without an outer IPv4 header. Any
  other mbuf with an offload flag is refused with EINVAL.\<close>

theorem rte_validate_tx_offload_exact:
  "rte_validate_tx_offload mb =
    (if (\<exists>n \<in> {41..60}. ol_bit mb n) \<and>
       ((ol_bit mb 54 \<and> ol_bit mb 56) \<or> ((ol_bit mb 52 \<or> ol_bit mb 53 \<or> ol_bit mb 50) \<and> \<not> ol_bit mb 55 \<and> \<not> ol_bit mb 56) \<or>
        (ol_bit mb 50 \<and> (tx_tso_segsz (mb_tx_offload mb) = 0 \<or> ol_bit mb 55 \<and> \<not> ol_bit mb 54)) \<or>
        (ol_bit mb 58 \<and> \<not> ol_bit mb 59))
     then - EINVAL else 0)"
  unfolding rte_validate_tx_offload_def Let_def ol_bit_def and_or_zero flag_masks and_ones and_flag range_52_2
  by auto

section \<open>External buffers\<close>

text \<open>The shared-info block is placed on an aligned address inside the buffer, behind the
  shortened data area, with one reference; a buffer too small for it is refused and nothing changes.\<close>

theorem rte_pktmbuf_ext_shinfo_inside:
  assumes a: "24 \<le> unat buf_addr" "unat buf_addr + unat buf_len < 2 ^ 64"
    and r: "rte_pktmbuf_ext_shinfo_init_helper buf_addr buf_len cb op h = (sh, buf_len', h')"
  shows "if sh = NULL then buf_len' = buf_len \<and> h' = h
    else unat sh mod 8 = 0 \<and> unat sh = unat buf_addr + unat buf_len' \<and>
      unat sh + unat sizeof_shinfo \<le> unat buf_addr + unat buf_len \<and> 0 < buf_len' \<and>
      h_shinfo h' sh = Some \<lparr>sh_free_cb = cb, sh_fcb_opaque = op, sh_refcnt = 1\<rparr>"
proof -
  define e where "e = buf_addr + ucast buf_len - 24"
  define addr where "addr = RTE_PTR_ALIGN_FLOOR e 8"
  have "unat (buf_addr + ucast buf_len) = unat buf_addr + unat buf_len" using a by (subst unat_add_lt) auto
  then have e: "unat e = unat buf_addr + unat buf_len - 24"
    unfolding e_def using a(1) unat_sub_le [of 24 "buf_addr + ucast buf_len"] by simp
  have "addr = e AND NOT 7" by (simp add: addr_def RTE_PTR_ALIGN_FLOOR_def)
  moreover have "unat (e AND 7) = unat e mod 8"
    using unat_and_mask [of e 3] by (simp add: mask_eq_exp_minus_1)
  ultimately have al: "unat addr = unat e - unat e mod 8" using word_block_split(2) [of e 7] by simp
  have run: "rte_pktmbuf_ext_shinfo_init_helper buf_addr buf_len cb op h =
      (if addr \<le> buf_addr then (NULL, buf_len, h) else (addr, ucast (addr - buf_addr),
        h\<lparr>h_shinfo := (h_shinfo h)(addr \<mapsto> \<lparr>sh_free_cb = cb, sh_fcb_opaque = op, sh_refcnt = 1\<rparr>)\<rparr>))"
    by (simp add: rte_pktmbuf_ext_shinfo_init_helper_def Let_def addr_def e_def)
  show ?thesis
  proof (cases "addr \<le> buf_addr")
    case True
    then show ?thesis using run r by simp
  next
    case False
    then have gt: "unat buf_addr < unat addr" by (simp add: word_less_nat_alt not_le)
    then have "unat (addr - buf_addr) = unat addr - unat buf_addr" by (intro unat_sub_le) simp
    moreover have "unat addr - unat buf_addr < 65536" using al e a u16_lt [of buf_len] by linarith
    ultimately have bl: "unat (ucast (addr - buf_addr) :: u16) = unat addr - unat buf_addr"
      by (simp add: unsigned_ucast_eq take_bit_nat_eq_self)
    have r': "sh = addr" "buf_len' = ucast (addr - buf_addr)"
      "h' = h\<lparr>h_shinfo := (h_shinfo h)(addr \<mapsto> \<lparr>sh_free_cb = cb, sh_fcb_opaque = op, sh_refcnt = 1\<rparr>)\<rparr>"
      using run r False by auto
    have "unat addr mod 8 = 0" unfolding al by (simp add: minus_mod_eq_mult_div)
    moreover have "unat addr + 24 \<le> unat buf_addr + unat buf_len" using al e gt by linarith
    moreover have "addr \<noteq> NULL" "0 < buf_len'" using gt bl r' by (auto simp: word_less_nat_alt)
    ultimately show ?thesis using bl gt r' by simp
  qed
qed

lemma unat_24: "unat (24 :: u64) = 24" by simp

theorem rte_pktmbuf_ext_shinfo_inside_witness:
  "\<exists>sh buf_len' h'. rte_pktmbuf_ext_shinfo_init_helper 4096 2048 7 9 ex_heap = (sh, buf_len', h') \<and> sh \<noteq> NULL \<and>
     unat sh = 4096 + unat buf_len' \<and> unat sh + 24 \<le> 6144"
proof -
  obtain sh l h' where r: "rte_pktmbuf_ext_shinfo_init_helper 4096 2048 7 9 ex_heap = (sh, l, h')" using prod_cases3 by blast
  moreover have "sh \<noteq> NULL" using r by (auto simp: rte_pktmbuf_ext_shinfo_init_helper_def RTE_PTR_ALIGN_FLOOR_def Let_def)
  ultimately show ?thesis using rte_pktmbuf_ext_shinfo_inside [OF _ _ r] by auto
qed

section \<open>Reading at an offset\<close>

lemma read_wraps:
  assumes "1 \<le> mb_data_len mb"
  shows "rte_pktmbuf_read slow mb 0xFFFFFFFF 2 buf = rte_pktmbuf_mtod_offset mb 0xFFFFFFFF"
proof -
  have "1 \<le> unat (mb_data_len mb)" using assms by (simp add: word_le_nat_alt)
  then have "(0xFFFFFFFF :: u32) + 2 \<le> ucast (mb_data_len mb)" by (simp add: word_le_nat_alt)
  then show ?thesis by (simp add: rte_pktmbuf_read_def)
qed

text \<open>When offset and length do not overflow 32 bits, a read inside the first segment returns a
  pointer into its data without a copy, and any other read takes the slow path. The sum is not
  checked for overflow, though: reading two bytes at offset \<open>2\<^sup>3\<^sup>2 - 1\<close> of any mbuf with data returns
  a pointer four gigabytes past its data.\<close>

theorem rte_pktmbuf_read_bounds:
  "(unat off + unat len < 2 ^ 32 \<longrightarrow> rte_pktmbuf_read slow mb off len buf =
     (if unat off + unat len \<le> unat (mb_data_len mb) then rte_pktmbuf_mtod_offset mb (ucast off)
      else slow off len buf)) \<and>
   (1 \<le> mb_data_len mb \<longrightarrow> rte_pktmbuf_read slow mb 0xFFFFFFFF 2 buf = rte_pktmbuf_mtod_offset mb 0xFFFFFFFF)"
  using read_wraps [of mb slow buf] by (simp add: rte_pktmbuf_read_def word_le_nat_alt unat_add_lt)

theorem rte_pktmbuf_read_bounds_witness:
  "rte_pktmbuf_read (\<lambda>_ _ _. 0) (ex_mbuf 1000) 14 20 0 = 1000 + 128 + 128 + 14 \<and>
   rte_pktmbuf_read (\<lambda>_ _ _. 0) (ex_mbuf 1000) 50 20 0 = 0 \<and>
   rte_pktmbuf_read (\<lambda>_ _ _. 0) (ex_mbuf 1000) 0xFFFFFFFF 2 0 = 1000 + 128 + 128 + 0xFFFFFFFF"
  using rte_pktmbuf_read_bounds [of 14 20 "\<lambda>_ _ _. 0" "ex_mbuf 1000" 0]
    rte_pktmbuf_read_bounds [of 50 20 "\<lambda>_ _ _. 0" "ex_mbuf 1000" 0]
  by (simp add: rte_pktmbuf_mtod_offset_def)

end
