(* ===== verification/Rte_Ethdev.thy ===== *)
theory Rte_Ethdev
  imports Prelude "HOL-Library.Monad_Syntax"
begin

text \<open>
  The fast path of the Ethernet device interface (rte\_ethdev.h, rte\_ethdev\_core.h): the dispatch
  of burst calls to the driver of a port and the transmit buffer on top of it. The driver and the
  user callbacks are compiled code outside the repository: they are functions on the state \<open>'s\<close> of
  memory and devices, in the fields of the operations record or as arguments. \<open>None\<close> is an access
  outside the port or queue tables or a call that does not return; the checks of the debug
  configuration are off.
\<close>

abbreviation (input) RTE_MAX_ETHPORTS :: nat where "RTE_MAX_ETHPORTS \<equiv> 32"
abbreviation (input) RTE_MAX_QUEUES_PER_PORT :: nat where "RTE_MAX_QUEUES_PER_PORT \<equiv> 1024"

section \<open>Data\<close>

text \<open>The per-queue tables: driver queue pointers and user callbacks; 0 is a null pointer.\<close>

record rte_ethdev_qdata =
  qd_data :: "u64 list"
  qd_clbk :: "u64 list"

record 's rte_eth_fp_ops =
  fp_rx_pkt_burst :: "u64 \<Rightarrow> u64 list \<Rightarrow> u16 \<Rightarrow> 's \<Rightarrow> (u16 \<times> u64 list \<times> 's) option"
  fp_rx_queue_count :: "(u64 \<Rightarrow> 's \<Rightarrow> u32) option"
  fp_rx_descriptor_status :: "(u64 \<Rightarrow> u16 \<Rightarrow> 's \<Rightarrow> int) option"
  fp_rxq :: rte_ethdev_qdata
  fp_tx_pkt_burst :: "u64 \<Rightarrow> u64 list \<Rightarrow> u16 \<Rightarrow> 's \<Rightarrow> (u16 \<times> 's) option"
  fp_tx_pkt_prepare :: "(u64 \<Rightarrow> u64 list \<Rightarrow> u16 \<Rightarrow> 's \<Rightarrow> (u16 \<times> 's) option) option"
  fp_tx_descriptor_status :: "(u64 \<Rightarrow> u16 \<Rightarrow> 's \<Rightarrow> int) option"
  fp_txq :: rte_ethdev_qdata

text \<open>The ports and the functions that run user callbacks.\<close>

record 's eth_env =
  env_fp_ops :: "'s rte_eth_fp_ops list"
  env_call_rx_callbacks :: "u16 \<Rightarrow> u16 \<Rightarrow> u64 list \<Rightarrow> u16 \<Rightarrow> u16 \<Rightarrow> u64 \<Rightarrow> 's \<Rightarrow> (u16 \<times> u64 list \<times> 's) option"
  env_call_tx_callbacks :: "u16 \<Rightarrow> u16 \<Rightarrow> u64 list \<Rightarrow> u16 \<Rightarrow> u64 \<Rightarrow> 's \<Rightarrow> (u16 \<times> u64 list \<times> 's) option"
  env_is_valid_port :: "u16 \<Rightarrow> bool"

definition nth_opt :: "'a list \<Rightarrow> nat \<Rightarrow> 'a option" where
  "nth_opt xs i = (if i < length xs then Some (xs ! i) else None)"

section \<open>Burst calls\<close>

text \<open>Receive: the number of packets, the table they were written to and the new state.\<close>

definition rte_eth_rx_burst ::
    "'s eth_env \<Rightarrow> u16 \<Rightarrow> u16 \<Rightarrow> u64 list \<Rightarrow> u16 \<Rightarrow> 's \<Rightarrow> (u16 \<times> u64 list \<times> 's) option" where
  "rte_eth_rx_burst env port_id queue_id rx_pkts nb_pkts s = do {
     p \<leftarrow> nth_opt (env_fp_ops env) (unat port_id);
     qd \<leftarrow> nth_opt (qd_data (fp_rxq p)) (unat queue_id);
     (nb_rx, rx_pkts, s) \<leftarrow> fp_rx_pkt_burst p qd rx_pkts nb_pkts s;
     cb \<leftarrow> nth_opt (qd_clbk (fp_rxq p)) (unat queue_id);
     if cb \<noteq> 0 then env_call_rx_callbacks env port_id queue_id rx_pkts nb_rx nb_pkts cb s
     else Some (nb_rx, rx_pkts, s)
   }"

text \<open>Transmit: callbacks may drop or replace packets before the driver sees the table.\<close>

definition rte_eth_tx_burst ::
    "'s eth_env \<Rightarrow> u16 \<Rightarrow> u16 \<Rightarrow> u64 list \<Rightarrow> u16 \<Rightarrow> 's \<Rightarrow> (u16 \<times> u64 list \<times> 's) option" where
  "rte_eth_tx_burst env port_id queue_id tx_pkts nb_pkts s = do {
     p \<leftarrow> nth_opt (env_fp_ops env) (unat port_id);
     qd \<leftarrow> nth_opt (qd_data (fp_txq p)) (unat queue_id);
     cb \<leftarrow> nth_opt (qd_clbk (fp_txq p)) (unat queue_id);
     (nb_pkts, tx_pkts, s) \<leftarrow>
       (if cb \<noteq> 0 then env_call_tx_callbacks env port_id queue_id tx_pkts nb_pkts cb s
        else Some (nb_pkts, tx_pkts, s));
     (nb_pkts, s) \<leftarrow> fp_tx_pkt_burst p qd tx_pkts nb_pkts s;
     Some (nb_pkts, tx_pkts, s)
   }"

definition rte_eth_tx_prepare ::
    "'s eth_env \<Rightarrow> u16 \<Rightarrow> u16 \<Rightarrow> u64 list \<Rightarrow> u16 \<Rightarrow> 's \<Rightarrow> (u16 \<times> 's) option" where
  "rte_eth_tx_prepare env port_id queue_id tx_pkts nb_pkts s = do {
     p \<leftarrow> nth_opt (env_fp_ops env) (unat port_id);
     qd \<leftarrow> nth_opt (qd_data (fp_txq p)) (unat queue_id);
     case fp_tx_pkt_prepare p of None \<Rightarrow> Some (nb_pkts, s) | Some prepare \<Rightarrow> prepare qd tx_pkts nb_pkts s
   }"

section \<open>Queries\<close>

definition rte_eth_rx_queue_count :: "'s eth_env \<Rightarrow> u16 \<Rightarrow> u16 \<Rightarrow> 's \<Rightarrow> int option" where
  "rte_eth_rx_queue_count env port_id queue_id s =
     (if unat port_id \<ge> RTE_MAX_ETHPORTS \<or> unat queue_id \<ge> RTE_MAX_QUEUES_PER_PORT then Some (- EINVAL)
      else do {
        p \<leftarrow> nth_opt (env_fp_ops env) (unat port_id);
        qd \<leftarrow> nth_opt (qd_data (fp_rxq p)) (unat queue_id);
        if \<not> env_is_valid_port env port_id then Some (- ENODEV)
        else case fp_rx_queue_count p of
          None \<Rightarrow> Some (- ENOTSUP)
        | Some rx_queue_count \<Rightarrow> if qd = 0 then Some (- EINVAL) else Some (sint (rx_queue_count qd s))
      })"

definition rte_eth_rx_descriptor_status :: "'s eth_env \<Rightarrow> u16 \<Rightarrow> u16 \<Rightarrow> u16 \<Rightarrow> 's \<Rightarrow> int option" where
  "rte_eth_rx_descriptor_status env port_id queue_id offset s = do {
     p \<leftarrow> nth_opt (env_fp_ops env) (unat port_id);
     qd \<leftarrow> nth_opt (qd_data (fp_rxq p)) (unat queue_id);
     case fp_rx_descriptor_status p of None \<Rightarrow> Some (- ENOTSUP) | Some status \<Rightarrow> Some (status qd offset s)
   }"

definition rte_eth_tx_descriptor_status :: "'s eth_env \<Rightarrow> u16 \<Rightarrow> u16 \<Rightarrow> u16 \<Rightarrow> 's \<Rightarrow> int option" where
  "rte_eth_tx_descriptor_status env port_id queue_id offset s = do {
     p \<leftarrow> nth_opt (env_fp_ops env) (unat port_id);
     qd \<leftarrow> nth_opt (qd_data (fp_txq p)) (unat queue_id);
     case fp_tx_descriptor_status p of None \<Rightarrow> Some (- ENOTSUP) | Some status \<Rightarrow> Some (status qd offset s)
   }"

section \<open>The transmit buffer\<close>

text \<open>The error callback gets the packets that were not sent and their number; its user data is
  part of the function here.\<close>

record 's rte_eth_dev_tx_buffer =
  tb_error_callback :: "u64 list \<Rightarrow> u16 \<Rightarrow> 's \<Rightarrow> 's option"
  tb_size :: u16
  tb_length :: u16
  tb_pkts :: "u64 list"

definition rte_eth_tx_buffer_flush ::
    "'s eth_env \<Rightarrow> u16 \<Rightarrow> u16 \<Rightarrow> 's rte_eth_dev_tx_buffer \<Rightarrow> 's \<Rightarrow> (u16 \<times> 's rte_eth_dev_tx_buffer \<times> 's) option" where
  "rte_eth_tx_buffer_flush env port_id queue_id buffer s =
     (let to_send = tb_length buffer in
      if to_send = 0 then Some (0, buffer, s)
      else do {
        (sent, pkts, s) \<leftarrow> rte_eth_tx_burst env port_id queue_id (tb_pkts buffer) to_send s;
        let buffer = buffer\<lparr>tb_pkts := pkts, tb_length := 0\<rparr>;
        s \<leftarrow> (if sent \<noteq> to_send then tb_error_callback buffer (drop (unat sent) pkts) (to_send - sent) s else Some s);
        Some (sent, buffer, s)
      })"

definition rte_eth_tx_buffer ::
    "'s eth_env \<Rightarrow> u16 \<Rightarrow> u16 \<Rightarrow> 's rte_eth_dev_tx_buffer \<Rightarrow> u64 \<Rightarrow> 's
      \<Rightarrow> (u16 \<times> 's rte_eth_dev_tx_buffer \<times> 's) option" where
  "rte_eth_tx_buffer env port_id queue_id buffer tx_pkt s =
     (if unat (tb_length buffer) < length (tb_pkts buffer) then
        (let buffer = buffer\<lparr>tb_pkts := (tb_pkts buffer)[unat (tb_length buffer) := tx_pkt],
                             tb_length := tb_length buffer + 1\<rparr>
         in if tb_length buffer < tb_size buffer then Some (0, buffer, s)
            else rte_eth_tx_buffer_flush env port_id queue_id buffer s)
      else None)"

end
