(* ===== verification/App_Port.thy ===== *)
theory App_Port
  imports Rte_Mbuf Rte_Ethdev
begin

text \<open>
  What the three programs of the repository share: the packet layout and the clock helpers of
  packet\_utils.h and packet\_utils.cpp, the little-endian memory accesses through packet pointers,
  and bringing a port up (\<open>init_port\<close>). The control calls of the Ethernet library are compiled code
  outside the repository: fields of the record \<open>eth_api\<close> on a state \<open>'s\<close>.
\<close>

section \<open>Packets in memory\<close>

record my_pkt =
  pkt_idx :: u32
  pkt_value :: u32

abbreviation (input) sizeof_my_pkt :: nat where "sizeof_my_pkt \<equiv> 8"

definition u32_bytes :: "u32 \<Rightarrow> u8 list" where
  "u32_bytes v = map (\<lambda>i. ucast (drop_bit (8 * i) v)) [0..<4]"

definition bytes_u32 :: "u8 list \<Rightarrow> u32" where
  "bytes_u32 bs = foldr (\<lambda>b acc. ucast b OR push_bit 8 acc) bs 0"

text \<open>Access through a \<open>my_pkt\<close> pointer: the structure is packed, the machine little endian.\<close>

definition store_my_pkt :: "u64 \<Rightarrow> my_pkt \<Rightarrow> 'd heap \<Rightarrow> 'd heap option" where
  "store_my_pkt a p h = do {
     h \<leftarrow> store_bytes a (u32_bytes (pkt_idx p)) h;
     store_bytes (a + 4) (u32_bytes (pkt_value p)) h
   }"

definition load_my_pkt :: "u64 \<Rightarrow> 'd heap \<Rightarrow> my_pkt option" where
  "load_my_pkt a h = do {
     i \<leftarrow> load_bytes a 4 h;
     v \<leftarrow> load_bytes (a + 4) 4 h;
     Some \<lparr>pkt_idx = bytes_u32 i, pkt_value = bytes_u32 v\<rparr>
   }"

record send_config =
  cfg_port_id :: u32
  cfg_queues :: "u32 list"
  cfg_cores :: "u32 list"

section \<open>Clocks\<close>

text \<open>The two halves come from the time-stamp counter, the time from the operating system.\<close>

definition rdtsc :: "u32 \<Rightarrow> u32 \<Rightarrow> u64" where
  "rdtsc lo hi = push_bit 32 (ucast hi) OR ucast lo"

definition get_time :: "int \<Rightarrow> int \<Rightarrow> u64" where
  "get_time tv_sec tv_nsec = word_of_int (tv_sec * 1000000000 + tv_nsec)"

section \<open>Bringing a port up\<close>

abbreviation (input) RX_RING_SIZE :: u16 where "RX_RING_SIZE \<equiv> 1024"
abbreviation (input) TX_RING_SIZE :: u16 where "TX_RING_SIZE \<equiv> 1024"
abbreviation (input) RTE_ETHER_MAX_LEN :: u32 where "RTE_ETHER_MAX_LEN \<equiv> 1518"
abbreviation (input) RTE_ETH_TX_OFFLOAD_MBUF_FAST_FREE :: u64 where "RTE_ETH_TX_OFFLOAD_MBUF_FAST_FREE \<equiv> push_bit 16 1"

record rte_eth_conf =
  rxmode_max_lro_pkt_size :: u32
  txmode_offloads :: u64

record rte_eth_txconf =
  txc_pthresh :: u8
  txc_hthresh :: u8
  txc_wthresh :: u8
  txc_tx_rs_thresh :: u16
  txc_tx_free_thresh :: u16
  txc_tx_deferred_start :: u8
  txc_offloads :: u64

record rte_eth_dev_info =
  dev_tx_offload_capa :: u64
  dev_default_txconf :: rte_eth_txconf

record 's eth_api =
  api_is_valid_port :: "u16 \<Rightarrow> bool"
  api_socket_id :: "u16 \<Rightarrow> int"
  api_dev_info_get :: "u16 \<Rightarrow> 's \<Rightarrow> int \<times> rte_eth_dev_info \<times> 's"
  api_dev_configure :: "u16 \<Rightarrow> u16 \<Rightarrow> u16 \<Rightarrow> rte_eth_conf \<Rightarrow> 's \<Rightarrow> int \<times> 's"
  api_adjust_desc :: "u16 \<Rightarrow> u16 \<Rightarrow> u16 \<Rightarrow> 's \<Rightarrow> int \<times> u16 \<times> u16 \<times> 's"
  api_rx_queue_setup :: "u16 \<Rightarrow> u16 \<Rightarrow> u16 \<Rightarrow> int \<Rightarrow> u64 \<Rightarrow> 's \<Rightarrow> int \<times> 's"
  api_tx_queue_setup :: "u16 \<Rightarrow> u16 \<Rightarrow> u16 \<Rightarrow> int \<Rightarrow> rte_eth_txconf \<Rightarrow> 's \<Rightarrow> int \<times> 's"
  api_dev_start :: "u16 \<Rightarrow> 's \<Rightarrow> int \<times> 's"
  api_macaddr_get :: "u16 \<Rightarrow> 's \<Rightarrow> int \<times> 's"
  api_promiscuous_enable :: "u16 \<Rightarrow> 's \<Rightarrow> int \<times> 's"

definition port_conf_default :: rte_eth_conf where
  "port_conf_default = \<lparr>rxmode_max_lro_pkt_size = RTE_ETHER_MAX_LEN, txmode_offloads = 0\<rparr>"

text \<open>The queue loops: set up \<open>q, q + 1, \<dots>\<close>, stop at the first negative result.\<close>

fun setup_queues :: "(u16 \<Rightarrow> 's \<Rightarrow> int \<times> 's) \<Rightarrow> nat \<Rightarrow> u16 \<Rightarrow> 's \<Rightarrow> int option \<times> 's" where
  "setup_queues setup 0 q s = (None, s)"
| "setup_queues setup (Suc n) q s =
     (let (retval, s) = setup q s in
      if retval < 0 then (Some retval, s) else setup_queues setup n (q + 1) s)"

definition init_port :: "'s eth_api \<Rightarrow> u16 \<Rightarrow> u64 \<Rightarrow> u16 \<Rightarrow> u16 \<Rightarrow> 's \<Rightarrow> int \<times> 's" where
  "init_port api port mbuf_pool rx_rings tx_rings s =
     (if \<not> api_is_valid_port api port then (- 1, s) else
      let (retval, dev_info, s) = api_dev_info_get api port s in
      if retval \<noteq> 0 then (retval, s) else
      let port_conf = (if dev_tx_offload_capa dev_info AND RTE_ETH_TX_OFFLOAD_MBUF_FAST_FREE \<noteq> 0
            then port_conf_default\<lparr>txmode_offloads := txmode_offloads port_conf_default OR RTE_ETH_TX_OFFLOAD_MBUF_FAST_FREE\<rparr>
            else port_conf_default);
          (retval, s) = api_dev_configure api port rx_rings tx_rings port_conf s in
      if retval \<noteq> 0 then (retval, s) else
      let (retval, nb_rxd, nb_txd, s) = api_adjust_desc api port RX_RING_SIZE TX_RING_SIZE s in
      if retval \<noteq> 0 then (retval, s) else
      let (failed, s) = setup_queues
            (\<lambda>q. api_rx_queue_setup api port q nb_rxd (api_socket_id api port) mbuf_pool) (unat rx_rings) 0 s in
      case failed of Some retval \<Rightarrow> (retval, s) | None \<Rightarrow>
      let txconf = (dev_default_txconf dev_info)\<lparr>txc_offloads := txmode_offloads port_conf\<rparr>;
          (failed, s) = setup_queues
            (\<lambda>q. api_tx_queue_setup api port q nb_txd (api_socket_id api port) txconf) (unat tx_rings) 0 s in
      case failed of Some retval \<Rightarrow> (retval, s) | None \<Rightarrow>
      let (retval, s) = api_dev_start api port s in
      if retval < 0 then (retval, s) else
      let (retval, s) = api_macaddr_get api port s in
      if retval \<noteq> 0 then (retval, s) else
      let (retval, s) = api_promiscuous_enable api port s in
      if retval \<noteq> 0 then (retval, s) else (0, s))"

text \<open>The three programs: the vote receiver asks for four receive queues and one transmit queue, the
  plain receiver for one of each, the sender for as many as it is told.\<close>

definition vote_init_port :: "'s eth_api \<Rightarrow> u16 \<Rightarrow> u64 \<Rightarrow> 's \<Rightarrow> int \<times> 's" where
  "vote_init_port api port mbuf_pool s = init_port api port mbuf_pool 4 1 s"

definition recv_init_port :: "'s eth_api \<Rightarrow> u16 \<Rightarrow> u64 \<Rightarrow> 's \<Rightarrow> int \<times> 's" where
  "recv_init_port api port mbuf_pool s = init_port api port mbuf_pool 1 1 s"

definition send_init_port :: "'s eth_api \<Rightarrow> u16 \<Rightarrow> u64 \<Rightarrow> u32 \<Rightarrow> u32 \<Rightarrow> 's \<Rightarrow> int \<times> 's" where
  "send_init_port api port mbuf_pool rx_queues tx_queues s =
     init_port api port mbuf_pool (ucast rx_queues) (ucast tx_queues) s"

section \<open>Starting up\<close>

text \<open>What the surroundings answer a program: initialisation, argument count, ports, pool, lcores.
  The checks are the same in all three programs; each ends the process with its message.\<close>

record app_world =
  w_eal_init :: int
  w_argc :: int
  w_nb_ports :: u16
  w_pool :: u64
  w_lcore_count :: u32

datatype exit_reason = Eal_failed | No_arguments | No_ports | No_pool

definition startup_checks :: "app_world \<Rightarrow> exit_reason option" where
  "startup_checks w =
     (if w_eal_init w < 0 then Some Eal_failed
      else if w_argc w - w_eal_init w < 1 then Some No_arguments
      else if w_nb_ports w < 1 then Some No_ports
      else if w_pool w = NULL then Some No_pool
      else None)"

text \<open>The receivers go on to poll whatever bringing the port up returned.\<close>

definition recv_setup :: "'s eth_api \<Rightarrow> app_world \<Rightarrow> 's \<Rightarrow> (exit_reason + int) \<times> 's" where
  "recv_setup api w s = (case startup_checks w of
       Some why \<Rightarrow> (Inl why, s)
     | None \<Rightarrow> (let (ret, s) = recv_init_port api 0 (w_pool w) s in (Inr ret, s)))"

definition vote_setup :: "'s eth_api \<Rightarrow> app_world \<Rightarrow> 's \<Rightarrow> (exit_reason + int) \<times> 's" where
  "vote_setup api w s = (case startup_checks w of
       Some why \<Rightarrow> (Inl why, s)
     | None \<Rightarrow> (let (ret, s) = vote_init_port api 0 (w_pool w) s in (Inr ret, s)))"

section \<open>Bringing a port up, in order\<close>

text \<open>The calls of the control path with all their arguments (the port first), and an interface that
  records them. What it answers is arbitrary: which ports are valid, their sockets, the device
  information, the adjusted ring sizes \<open>rxd\<close> and \<open>txd\<close>, and, by a function of the call, its result.\<close>

datatype eth_call =
    Info u16
  | Configure u16 u16 u16 rte_eth_conf
  | Adjust u16 u16 u16
  | Rx_setup u16 u16 u16 int u64
  | Tx_setup u16 u16 u16 int rte_eth_txconf
  | Start u16
  | Mac u16
  | Promisc u16

definition fails :: "(eth_call \<Rightarrow> int) \<Rightarrow> eth_call \<Rightarrow> bool" where
  "fails f c \<longleftrightarrow> (case c of Rx_setup _ _ _ _ _ \<Rightarrow> f c < 0 | Tx_setup _ _ _ _ _ \<Rightarrow> f c < 0 | Start _ \<Rightarrow> f c < 0 | _ \<Rightarrow> f c \<noteq> 0)"

definition recorder :: "(eth_call \<Rightarrow> int) \<Rightarrow> (u16 \<Rightarrow> bool) \<Rightarrow> (u16 \<Rightarrow> int) \<Rightarrow> rte_eth_dev_info \<Rightarrow> u16 \<Rightarrow> u16 \<Rightarrow> eth_call list eth_api" where
  "recorder f valid socket info rxd txd = (let log = (\<lambda>c l. (f c, l @ [c])) in \<lparr>
     api_is_valid_port = valid, api_socket_id = socket,
     api_dev_info_get = (\<lambda>port l. (f (Info port), info, l @ [Info port])),
     api_dev_configure = (\<lambda>port rx tx conf. log (Configure port rx tx conf)),
     api_adjust_desc = (\<lambda>port rx tx l. (f (Adjust port rx tx), rxd, txd, l @ [Adjust port rx tx])),
     api_rx_queue_setup = (\<lambda>port q n sock pool. log (Rx_setup port q n sock pool)),
     api_tx_queue_setup = (\<lambda>port q n sock conf. log (Tx_setup port q n sock conf)),
     api_dev_start = (\<lambda>port. log (Start port)), api_macaddr_get = (\<lambda>port. log (Mac port)),
     api_promiscuous_enable = (\<lambda>port. log (Promisc port))\<rparr>)"

text \<open>All calls of a successful run, in order.\<close>

definition init_calls :: "(u16 \<Rightarrow> int) \<Rightarrow> rte_eth_dev_info \<Rightarrow> u16 \<Rightarrow> u16 \<Rightarrow> u16 \<Rightarrow> u64 \<Rightarrow> u16 \<Rightarrow> u16 \<Rightarrow> eth_call list" where
  "init_calls socket info rxd txd port pool rx tx =
     (let off = (if bit (dev_tx_offload_capa info) 16 then 65536 else 0) in
     [Info port, Configure port rx tx \<lparr>rxmode_max_lro_pkt_size = 1518, txmode_offloads = off\<rparr>, Adjust port 1024 1024] @
     map (\<lambda>q. Rx_setup port (of_nat q) rxd (socket port) pool) [0..<unat rx] @
     map (\<lambda>q. Tx_setup port (of_nat q) txd (socket port) ((dev_default_txconf info)\<lparr>txc_offloads := off\<rparr>)) [0..<unat tx] @
     [Start port, Mac port, Promisc port])"

text \<open>Run calls until one fails.\<close>

fun run_calls :: "(eth_call \<Rightarrow> int) \<Rightarrow> eth_call list \<Rightarrow> int \<times> eth_call list" where
  "run_calls f [] = (0, [])"
| "run_calls f (c # cs) = (if fails f c then (f c, [c]) else map_prod id ((#) c) (run_calls f cs))"

lemma run_calls_append:
  "run_calls f (cs @ ds) = (if list_ex (fails f) cs then run_calls f cs
     else map_prod id ((@) cs) (run_calls f ds))"
  by (induction cs) (auto simp: prod.map_comp comp_def map_prod_def split: prod.splits)

lemma setup_queues_record:
  assumes "\<And>q l. setup (q :: u16) l = (f (c q), l @ [c q])" "\<And>q. fails f (c q) = (f (c q) < 0)"
  shows "setup_queues setup n q l =
    (if list_ex (fails f) (map (\<lambda>i. c (q + of_nat i)) [0..<n])
     then (Some (fst (run_calls f (map (\<lambda>i. c (q + of_nat i)) [0..<n]))),
           l @ snd (run_calls f (map (\<lambda>i. c (q + of_nat i)) [0..<n])))
     else (None, l @ map (\<lambda>i. c (q + of_nat i)) [0..<n]))"
proof (induction n arbitrary: q l)
  case (Suc n)
  have shift: "map (\<lambda>i. c (q + of_nat i)) [0..<Suc n] = c q # map (\<lambda>i. c (q + 1 + of_nat i)) [0..<n]"
    by (simp add: map_upt_Suc ac_simps del: upt_Suc)
  show ?case unfolding shift using Suc.IH [of "q + 1" "l @ [c q]"] by (simp add: assms)
qed simp

lemma and_flag_value: "w AND push_bit n 1 = (if bit w n then push_bit n 1 else 0)" for w :: "'a::len word"
  by (intro bit_word_eqI) (auto simp: bit_simps)

text \<open>C11. An invalid port is refused with -1 before any call. For every other port, whatever the calls
  answer, bringing it up makes the calls in the one order given by \<open>init_calls\<close>, stops at the first
  failing call and returns its error, and returns 0 exactly when none fails. Every queue of both
  directions is set up once, in increasing order, on the port's socket, the receive queues with the
  adjusted receive ring size and the pool, the transmit queues with the adjusted transmit ring size and
  the device's default configuration; both configurations ask for the fast-free offload exactly when
  the device offers it.\<close>

theorem init_port_calls_in_order:
  "init_port (recorder f valid socket info rxd txd) port pool rx tx [] =
    (if \<not> valid port then (- 1, []) else run_calls f (init_calls socket info rxd txd port pool rx tx))"
proof -
  have rxq: "setup_queues (\<lambda>q l. (f (Rx_setup p q d sk pl), l @ [Rx_setup p q d sk pl])) n q l =
      (if list_ex (fails f) (map (\<lambda>i. Rx_setup p (q + of_nat i) d sk pl) [0..<n])
       then (Some (fst (run_calls f (map (\<lambda>i. Rx_setup p (q + of_nat i) d sk pl) [0..<n]))),
             l @ snd (run_calls f (map (\<lambda>i. Rx_setup p (q + of_nat i) d sk pl) [0..<n])))
       else (None, l @ map (\<lambda>i. Rx_setup p (q + of_nat i) d sk pl) [0..<n]))" for n q l p d sk pl
    by (rule setup_queues_record [where c = "\<lambda>q. Rx_setup p q d sk pl"]) (simp_all add: fails_def)
  have txq: "setup_queues (\<lambda>q l. (f (Tx_setup p q d sk x), l @ [Tx_setup p q d sk x])) n q l =
      (if list_ex (fails f) (map (\<lambda>i. Tx_setup p (q + of_nat i) d sk x) [0..<n])
       then (Some (fst (run_calls f (map (\<lambda>i. Tx_setup p (q + of_nat i) d sk x) [0..<n]))),
             l @ snd (run_calls f (map (\<lambda>i. Tx_setup p (q + of_nat i) d sk x) [0..<n])))
       else (None, l @ map (\<lambda>i. Tx_setup p (q + of_nat i) d sk x) [0..<n]))" for n q l p d sk x
    by (rule setup_queues_record [where c = "\<lambda>q. Tx_setup p q d sk x"]) (simp_all add: fails_def)
  have fails_simps: "fails f (Info a) = (f (Info a) \<noteq> 0)" "fails f (Adjust a b c) = (f (Adjust a b c) \<noteq> 0)"
    "fails f (Start a) = (f (Start a) < 0)" "fails f (Mac a) = (f (Mac a) \<noteq> 0)" "fails f (Promisc a) = (f (Promisc a) \<noteq> 0)"
    "fails f (Configure a b c conf) = (f (Configure a b c conf) \<noteq> 0)" for a b c conf by (simp_all add: fails_def)
  note defs = init_port_def init_calls_def recorder_def Let_def port_conf_default_def rxq txq run_calls_append
    fails_simps map_prod_def
  show ?thesis
  proof (cases "bit (dev_tx_offload_capa info) 16")
    case True
    then have "dev_tx_offload_capa info AND 65536 = 65536" using and_flag_value [of "dev_tx_offload_capa info" 16] by simp
    with True show ?thesis by (simp add: defs split: prod.splits)
  next
    case False
    then have "dev_tx_offload_capa info AND 65536 = 0" using and_flag_value [of "dev_tx_offload_capa info" 16] by simp
    with False show ?thesis by (simp add: defs split: prod.splits)
  qed
qed

end
