(* ===== verification/Packet_Recv.thy ===== *)
theory Packet_Recv
  imports App_Port "HOL-Library.Signed_Division"
begin

text \<open>
  The two receivers: the plain one (main\_pkt\_recv.cpp), which prints what it gets, and the voting
  one (main.cpp), which keeps a table of votes. Both poll their receive queues in turn, process
  each packet of a burst and free it. An execution may leave the C++ standard: an index outside
  an array or a signed overflow is the value \<open>Inr\<close> of an \<open>undefined\<close> reason, so that it is not
  confused with a call that does not return (\<open>None\<close>).
\<close>

abbreviation (input) ARRAY_SIZE :: int where "ARRAY_SIZE \<equiv> 65536"

section \<open>The plain receiver\<close>

record ('d, 'e) recv_state =
  rs_heap :: "'d heap"
  rs_dev :: 'e
  rs_burst_num :: u64
  rs_printed :: "(u32 \<times> u32) list"

definition recv_packet :: "'d rte_mempool_ops list \<Rightarrow> u32 \<Rightarrow> u64 \<Rightarrow> ('d, 'e) recv_state \<Rightarrow> ('d, 'e) recv_state option" where
  "recv_packet tbl lcore m st = do {
     b \<leftarrow> h_mbuf (rs_heap st) m;
     pkt \<leftarrow> load_my_pkt (rte_pktmbuf_mtod_offset b 0) (rs_heap st);
     h \<leftarrow> rte_pktmbuf_free tbl lcore m (rs_heap st);
     Some (st\<lparr>rs_heap := h, rs_printed := rs_printed st @ [(pkt_idx pkt, pkt_value pkt)],
              rs_burst_num := rs_burst_num st + 1\<rparr>)
   }"

fun recv_packets :: "'d rte_mempool_ops list \<Rightarrow> u32 \<Rightarrow> u64 list \<Rightarrow> ('d, 'e) recv_state \<Rightarrow> ('d, 'e) recv_state option" where
  "recv_packets tbl lcore [] st = Some st"
| "recv_packets tbl lcore (m # ms) st = do {st \<leftarrow> recv_packet tbl lcore m st; recv_packets tbl lcore ms st}"

text \<open>One queue of the polling loop; \<open>Inl\<close> is the exit of the program when the driver claims more
  packets than it was asked for.\<close>

definition recv_queue :: "('d heap \<times> 'e) eth_env \<Rightarrow> 'd rte_mempool_ops list \<Rightarrow> u32 \<Rightarrow> u16 \<Rightarrow> u16
      \<Rightarrow> ('d, 'e) recv_state \<Rightarrow> (unit + ('d, 'e) recv_state) option" where
  "recv_queue env tbl lcore portid r st = do {
     (num_recv, mbufs, (h, e)) \<leftarrow> rte_eth_rx_burst env portid r (replicate 64 0) 64 (rs_heap st, rs_dev st);
     let st = st\<lparr>rs_heap := h, rs_dev := e\<rparr>;
     if num_recv > 64 then Some (Inl ())
     else if num_recv = 0 then Some (Inr st)
     else do {
       st \<leftarrow> recv_packets tbl lcore (take (unat num_recv) mbufs) st;
       Some (Inr st)
     }
   }"

section \<open>Counting votes\<close>

text \<open>Network byte order: the bytes of a word reversed.\<close>

definition ntohl :: "u32 \<Rightarrow> u32" where
  "ntohl x = bytes_u32 (rev (u32_bytes x))"

text \<open>The truncated remainder of C is \<open>smod\<close>. Array elements are 32-bit signed integers.\<close>

datatype undefined = Out_of_bounds | Signed_overflow

record vote_tables =
  vt_array :: "int list"
  vt_vote :: "int list"

definition get_elem :: "int list \<Rightarrow> int \<Rightarrow> undefined + int" where
  "get_elem xs i = (if 0 \<le> i \<and> i < int (length xs) then Inr (xs ! nat i) else Inl Out_of_bounds)"

definition set_elem :: "int list \<Rightarrow> int \<Rightarrow> int \<Rightarrow> undefined + int list" where
  "set_elem xs i v =
     (if 0 \<le> i \<and> i < int (length xs) then
        (if - (2 ^ 31) \<le> v \<and> v < 2 ^ 31 then Inr (xs[nat i := v]) else Inl Signed_overflow)
      else Inl Out_of_bounds)"

definition sum_bind :: "'x + 'a \<Rightarrow> ('a \<Rightarrow> 'x + 'b) \<Rightarrow> 'x + 'b" where
  "sum_bind r f = (case r of Inl x \<Rightarrow> Inl x | Inr a \<Rightarrow> f a)"

text \<open>One packet, with index and value as read from it and converted.\<close>

definition vote_update :: "int \<Rightarrow> int \<Rightarrow> vote_tables \<Rightarrow> undefined + vote_tables" where
  "vote_update idx value t =
     sum_bind (get_elem (vt_array t) (idx smod ARRAY_SIZE)) (\<lambda>a.
       if value = a then
         sum_bind (get_elem (vt_vote t) (idx smod ARRAY_SIZE)) (\<lambda>v.
         sum_bind (set_elem (vt_vote t) (idx smod ARRAY_SIZE) (v + 1)) (\<lambda>vote. Inr (t\<lparr>vt_vote := vote\<rparr>)))
       else
         (let index = idx smod ARRAY_SIZE;
              index = (if index < 0 then 0 else index)
          in sum_bind (get_elem (vt_vote t) index) (\<lambda>v.
             sum_bind (set_elem (vt_vote t) index (v - 1)) (\<lambda>vote.
             if v - 1 \<le> 0 then sum_bind (set_elem vote index value) (\<lambda>vote. Inr (t\<lparr>vt_vote := vote\<rparr>))
             else Inr (t\<lparr>vt_vote := vote\<rparr>)))))"

record ('d, 'e) vote_state =
  vs_heap :: "'d heap"
  vs_dev :: 'e
  vs_tables :: vote_tables
  vs_total_num :: u64
  vs_burst_num :: u64

text \<open>The packet is converted in place, in the buffer.\<close>

definition vote_packet :: "'d rte_mempool_ops list \<Rightarrow> u32 \<Rightarrow> u64 \<Rightarrow> ('d, 'e) vote_state
      \<Rightarrow> (undefined + ('d, 'e) vote_state) option" where
  "vote_packet tbl lcore m st = do {
     b \<leftarrow> h_mbuf (vs_heap st) m;
     let a = rte_pktmbuf_mtod_offset b 0;
     raw \<leftarrow> load_my_pkt a (vs_heap st);
     let pkt = \<lparr>pkt_idx = ntohl (pkt_idx raw), pkt_value = ntohl (pkt_value raw)\<rparr>;
     h \<leftarrow> store_my_pkt a pkt (vs_heap st);
     case vote_update (sint (pkt_idx pkt)) (sint (pkt_value pkt)) (vs_tables st) of
       Inl u \<Rightarrow> Some (Inl u)
     | Inr t \<Rightarrow> do {
         h \<leftarrow> rte_pktmbuf_free tbl lcore m h;
         Some (Inr (st\<lparr>vs_heap := h, vs_tables := t, vs_total_num := vs_total_num st + 1,
                       vs_burst_num := vs_burst_num st + 1\<rparr>))
       }
   }"

fun vote_packets :: "'d rte_mempool_ops list \<Rightarrow> u32 \<Rightarrow> u64 list \<Rightarrow> ('d, 'e) vote_state
      \<Rightarrow> (undefined + ('d, 'e) vote_state) option" where
  "vote_packets tbl lcore [] st = Some (Inr st)"
| "vote_packets tbl lcore (m # ms) st = do {
     r \<leftarrow> vote_packet tbl lcore m st;
     case r of Inl u \<Rightarrow> Some (Inl u) | Inr st \<Rightarrow> vote_packets tbl lcore ms st
   }"

datatype vote_end = Undefined undefined | Too_many

definition vote_queue :: "('d heap \<times> 'e) eth_env \<Rightarrow> 'd rte_mempool_ops list \<Rightarrow> u32 \<Rightarrow> u16 \<Rightarrow> u16
      \<Rightarrow> ('d, 'e) vote_state \<Rightarrow> (vote_end + ('d, 'e) vote_state) option" where
  "vote_queue env tbl lcore portid r st = do {
     (num_recv, mbufs, (h, e)) \<leftarrow> rte_eth_rx_burst env portid r (replicate 64 0) 64 (vs_heap st, vs_dev st);
     let st = st\<lparr>vs_heap := h, vs_dev := e\<rparr>;
     if num_recv > 64 then Some (Inl Too_many)
     else do {
       res \<leftarrow> vote_packets tbl lcore (take (unat num_recv) mbufs) st;
       case res of Inl u \<Rightarrow> Some (Inl (Undefined u)) | Inr st \<Rightarrow> Some (Inr st)
     }
   }"

text \<open>One turn of the polling loop of either receiver: the queues in order.\<close>

fun poll :: "(u16 \<Rightarrow> 's \<Rightarrow> ('x + 's) option) \<Rightarrow> u16 list \<Rightarrow> 's \<Rightarrow> ('x + 's) option" where
  "poll queue [] st = Some (Inr st)"
| "poll queue (r # rs) st = do {
     res \<leftarrow> queue r st;
     case res of Inl x \<Rightarrow> Some (Inl x) | Inr st \<Rightarrow> poll queue rs st
   }"

definition vote_turn :: "('d heap \<times> 'e) eth_env \<Rightarrow> 'd rte_mempool_ops list \<Rightarrow> u32 \<Rightarrow> ('d, 'e) vote_state
      \<Rightarrow> (vote_end + ('d, 'e) vote_state) option" where
  "vote_turn env tbl lcore st = poll (vote_queue env tbl lcore 0) [0, 1, 2, 3] st"

definition recv_turn :: "('d heap \<times> 'e) eth_env \<Rightarrow> 'd rte_mempool_ops list \<Rightarrow> u32 \<Rightarrow> ('d, 'e) recv_state
      \<Rightarrow> (unit + ('d, 'e) recv_state) option" where
  "recv_turn env tbl lcore st = poll (recv_queue env tbl lcore 0) [0] st"

end
