(* ===== verification/Vote_Correct.thy ===== *)
theory Vote_Correct
  imports Packet_Recv
begin

text \<open>
  What the voting receiver does with the packets it gets: when an update of the tables is defined,
  what it does then, and what a history of packets amounts to.
\<close>

section \<open>One update\<close>

definition int32 :: "int \<Rightarrow> bool" where
  "int32 v \<longleftrightarrow> - (2 ^ 31) \<le> v \<and> v < 2 ^ 31"

definition tables_wf :: "vote_tables \<Rightarrow> bool" where
  "tables_wf t \<longleftrightarrow> length (vt_array t) = 65536 \<and> length (vt_vote t) = 65536 \<and> list_all int32 (vt_vote t)"

text \<open>The outcome for a slot that holds the count \<open>v\<close> and the reference value \<open>a\<close>.\<close>

definition vote_slot :: "int \<Rightarrow> int \<Rightarrow> int \<Rightarrow> undefined + int" where
  "vote_slot value a v =
     (if value = a then (if v = 2 ^ 31 - 1 then Inl Signed_overflow else Inr (v + 1))
      else if v = - (2 ^ 31) then Inl Signed_overflow
      else Inr (if v \<le> 1 then value else v - 1))"

lemma smod_pos: "0 \<le> idx \<Longrightarrow> idx smod 65536 = idx mod 65536" for idx :: int
  by (cases "idx = 0") (simp_all add: signed_modulo_int_def)

lemma smod_range: "- 65536 < idx smod 65536 \<and> idx smod 65536 < 65536" for idx :: int
proof -
  obtain a where a: "\<bar>idx\<bar> mod 65536 = a" "0 \<le> a" "a < 65536" by simp
  then have "idx smod 65536 = sgn idx * a" by (simp add: signed_modulo_int_def)
  then show ?thesis using a by (cases idx "0 :: int" rule: linorder_cases) auto
qed

lemma vote_slot_int32: "int32 value \<Longrightarrow> int32 v \<Longrightarrow> vote_slot value a v = Inr w \<Longrightarrow> int32 w"
  by (auto simp: vote_slot_def int32_def split: if_splits)

lemma vote_update_slot:
  assumes t: "tables_wf t" and v: "int32 value" and i: "0 \<le> idx smod 65536"
  defines "k \<equiv> nat (idx smod 65536)"
  shows "vote_update idx value t = (case vote_slot value (vt_array t ! k) (vt_vote t ! k) of
      Inl u \<Rightarrow> Inl u | Inr w \<Rightarrow> Inr (t\<lparr>vt_vote := (vt_vote t)[k := w]\<rparr>))"
proof -
  have len: "length (vt_array t) = 65536" "length (vt_vote t) = 65536" using t by (simp_all add: tables_wf_def)
  have lt: "idx smod 65536 < 65536" using smod_range [of idx] by simp
  have "k < length (vt_vote t)" using lt i len by (simp add: k_def)
  then have "int32 (vt_vote t ! k)" using t by (simp add: tables_wf_def list_all_length)
  then show ?thesis
    using len lt i v
    by (auto simp: vote_update_def get_elem_def set_elem_def sum_bind_def Let_def vote_slot_def int32_def k_def)
qed

text \<open>C2. Processing a packet is defined exactly when its index, taken modulo 65536 the C way, is
  not negative and the count of the slot does not overflow. Then one slot of the vote table
  changes: a value equal to the reference adds one, another value takes one away, or replaces a
  count that is used up. A negative remainder reads in front of the reference table, before the
  code that would replace the index by 0 is reached.\<close>

theorem vote_update_exact:
  assumes "tables_wf t" "int32 value"
  shows "vote_update idx value t =
    (if idx smod 65536 < 0 then Inl Out_of_bounds
     else case vote_slot value (vt_array t ! nat (idx smod 65536)) (vt_vote t ! nat (idx smod 65536)) of
       Inl u \<Rightarrow> Inl u
     | Inr w \<Rightarrow> Inr (t\<lparr>vt_vote := (vt_vote t)[nat (idx smod 65536) := w]\<rparr>))"
proof (cases "idx smod 65536 < 0")
  case True
  then show ?thesis by (simp add: vote_update_def get_elem_def sum_bind_def)
next
  case False
  then show ?thesis using vote_update_slot [OF assms, of idx] by simp
qed

section \<open>Histories\<close>

text \<open>A history of packets, stopping at the first undefined one.\<close>

fun vote_run :: "(int \<times> int) list \<Rightarrow> vote_tables \<Rightarrow> undefined + vote_tables" where
  "vote_run [] t = Inr t"
| "vote_run ((i, v) # ps) t = sum_bind (vote_update i v t) (vote_run ps)"

definition start_tables :: vote_tables where
  "start_tables = \<lparr>vt_array = replicate 65536 0, vt_vote = replicate 65536 0\<rparr>"

lemma start_wf: "tables_wf start_tables"
  by (simp add: tables_wf_def start_tables_def list_all_iff int32_def)

lemma update_keeps:
  assumes "tables_wf t" "int32 value" "vote_update idx value t = Inr t'"
  shows "tables_wf t' \<and> vt_array t' = vt_array t"
proof -
  let ?k = "nat (idx smod 65536)"
  have nn: "\<not> idx smod 65536 < 0" using assms(3) by (auto simp: vote_update_def get_elem_def sum_bind_def split: if_splits)
  then obtain w where w: "vote_slot value (vt_array t ! ?k) (vt_vote t ! ?k) = Inr w" "t' = t\<lparr>vt_vote := (vt_vote t)[?k := w]\<rparr>"
    using vote_update_slot [OF assms(1,2), of idx] assms(3) by (auto split: sum.splits)
  have "?k < length (vt_vote t)" using smod_range [of idx] nn assms(1) by (simp add: tables_wf_def)
  then have "int32 w" using vote_slot_int32 [OF assms(2) _ w(1)] assms(1) by (simp add: tables_wf_def list_all_length)
  then show ?thesis using assms(1) w(2) set_update_subset_insert [of "vt_vote t" ?k w]
    by (auto simp: tables_wf_def list_all_iff)
qed

lemma run_keeps:
  assumes "tables_wf t" "list_all (int32 \<circ> snd) ps" "vote_run ps t = Inr t'"
  shows "tables_wf t' \<and> vt_array t' = vt_array t"
  using assms
proof (induction ps arbitrary: t)
  case (Cons p ps)
  then obtain i v t1 where "p = (i, v)" "vote_update i v t = Inr t1" "vote_run ps t1 = Inr t'" "int32 v"
    by (cases p) (auto simp: sum_bind_def split: sum.splits)
  then show ?case using update_keeps [of t v i t1] Cons by auto
qed simp

text \<open>C3. The reference table is never written: after any history the program starts from, it holds
  zero everywhere, and the vote table keeps its 65536 entries, every one a 32-bit integer. So only
  packets of value 0 ever count a vote up; a packet of any other value takes a vote away from its
  slot or stores its value there as the count.\<close>

theorem vote_reference_never_learns:
  assumes "list_all (int32 \<circ> snd) ps" "vote_run ps start_tables = Inr t" "int32 value" "value \<noteq> 0"
  shows "vt_array t = replicate 65536 0 \<and> length (vt_vote t) = 65536 \<and> list_all int32 (vt_vote t) \<and>
    (\<forall>idx t'. vote_update idx value t = Inr t' \<longrightarrow>
      (let k = nat (idx smod 65536) in
       vt_vote t' = (vt_vote t)[k := if vt_vote t ! k \<le> 1 then value else vt_vote t ! k - 1]))"
proof -
  have wf: "tables_wf t" and arr: "vt_array t = replicate 65536 0"
    using run_keeps [OF start_wf assms(1,2)] by (simp_all add: start_tables_def)
  have "vt_vote t' = (vt_vote t)[nat (idx smod 65536) := if vt_vote t ! nat (idx smod 65536) \<le> 1 then value
      else vt_vote t ! nat (idx smod 65536) - 1]" if u: "vote_update idx value t = Inr t'" for idx t'
  proof -
    have nn: "0 \<le> idx smod 65536" using u by (auto simp: vote_update_def get_elem_def sum_bind_def split: if_splits)
    then have "nat (idx smod 65536) < 65536" using smod_range [of idx] by simp
    then have "vt_array t ! nat (idx smod 65536) = 0" unfolding arr by (rule nth_replicate)
    then show ?thesis
      using vote_update_slot [OF wf assms(3) nn] u assms(4) by (auto simp: vote_slot_def split: if_splits)
  qed
  then show ?thesis using arr wf by (simp add: tables_wf_def Let_def)
qed

lemma vote_run_append: "vote_run (ps @ qs) t = sum_bind (vote_run ps t) (vote_run qs)"
  by (induction ps arbitrary: t) (auto simp: sum_bind_def split: sum.splits)

lemma sawtooth_step: "0 < v \<Longrightarrow> (if v - n mod v \<le> 1 then v else v - n mod v - 1) = v - (n + 1) mod v" for v n :: int
proof -
  assume v: "0 < v"
  define r where "r = n mod v"
  have r: "0 \<le> r" "r < v" using v by (simp_all add: r_def)
  have "(n + 1) mod v = (r + 1) mod v" by (simp add: r_def mod_add_left_eq)
  also have "\<dots> = (if r = v - 1 then 0 else r + 1)" using r by auto
  finally show ?thesis unfolding r_def [symmetric] using r by auto
qed

text \<open>A stream of packets that all carry the same index and the same positive value does not
  accumulate: the count of the slot is a sawtooth, it starts at the value itself, falls by one
  with every further packet and starts again when it is used up.\<close>

theorem vote_sawtooth:
  assumes "0 \<le> idx" "0 < value" "int32 value"
  shows "\<exists>t. vote_run (replicate (Suc n) (idx, value)) start_tables = Inr t \<and>
    vt_vote t ! nat (idx mod 65536) = value - int n mod value"
proof -
  let ?k = "nat (idx mod 65536)"
  have k: "idx smod 65536 = idx mod 65536" "0 \<le> idx smod 65536" "?k < 65536" using assms(1) by (simp_all add: smod_pos)
  have step: "vote_update idx value t = Inr (t\<lparr>vt_vote := (vt_vote t)[?k := if c \<le> 1 then value else c - 1]\<rparr>)"
    if "tables_wf t" "vt_array t = replicate 65536 0" "vt_vote t ! ?k = c" "0 \<le> c" for t c
  proof -
    have "vt_array t ! ?k = 0" unfolding that(2) using k(3) by (rule nth_replicate)
    then show ?thesis using vote_update_slot [OF that(1) assms(3) k(2)] that assms(2) k(1)
      by (simp add: vote_slot_def)
  qed
  have "\<exists>t. vote_run (replicate (Suc n) (idx, value)) start_tables = Inr t \<and> tables_wf t \<and>
      vt_array t = replicate 65536 0 \<and> vt_vote t ! ?k = value - int n mod value" for n
  proof (induction n)
    case 0
    have v0: "vt_vote start_tables ! ?k = 0" unfolding start_tables_def using k(3) by (simp add: nth_replicate)
    have a0: "vt_array start_tables = replicate 65536 0" by (simp add: start_tables_def)
    have u: "vote_update idx value start_tables = Inr (start_tables\<lparr>vt_vote := (vt_vote start_tables)[?k := value]\<rparr>)"
      using step [OF start_wf a0 v0] by simp
    have "?k < length (vt_vote start_tables)" using k(3) start_wf by (simp add: tables_wf_def)
    then show ?case using u update_keeps [OF start_wf assms(3) u] a0 by (simp add: sum_bind_def)
  next
    case (Suc n)
    then obtain t where t: "vote_run (replicate (Suc n) (idx, value)) start_tables = Inr t" "tables_wf t"
      "vt_array t = replicate 65536 0" "vt_vote t ! ?k = value - int n mod value" by blast
    have pos: "0 \<le> value - int n mod value" using less_imp_le [OF pos_mod_bound [OF assms(2), of "int n"]] by simp
    note u = step [OF t(2,3,4) pos]
    have "replicate (Suc (Suc n)) (idx, value) = replicate (Suc n) (idx, value) @ [(idx, value)]"
      by (simp add: replicate_append_same)
    moreover have "?k < length (vt_vote t)" using k(3) t(2) by (simp add: tables_wf_def)
    ultimately show ?case
      using t u update_keeps [OF t(2) assms(3) u] sawtooth_step [OF assms(2), of "int n"]
      by (simp add: vote_run_append sum_bind_def add.commute del: replicate.simps)
  qed
  then show ?thesis by blast
qed

section \<open>Witnesses\<close>

theorem vote_update_exact_witness:
  "tables_wf start_tables \<and> vote_update (- 1) 7 start_tables = Inl Out_of_bounds \<and>
   vote_update 5 7 start_tables = Inr (start_tables\<lparr>vt_vote := (vt_vote start_tables)[5 := 7]\<rparr>)"
proof -
  have "(- 1 :: int) smod 65536 = - 1" "(5 :: int) smod 65536 = 5" by (simp_all add: signed_modulo_int_def)
  moreover have "int32 7" by (simp add: int32_def)
  moreover have "vt_array start_tables ! 5 = 0" "vt_vote start_tables ! 5 = 0"
    by (simp_all add: start_tables_def nth_replicate)
  ultimately show ?thesis
    using vote_update_exact [OF start_wf, of 7 "- 1"] vote_update_exact [OF start_wf, of 7 5] start_wf
    by (simp add: vote_slot_def)
qed

theorem vote_reference_never_learns_witness:
  "\<exists>t. vote_run [(5, 7)] start_tables = Inr t \<and> vt_array t = replicate 65536 0"
proof -
  have small: "int32 7" "list_all (int32 \<circ> snd) [(5 :: int, 7)]" "(7 :: int) \<noteq> 0" by (simp_all add: int32_def)
  have "(5 :: int) smod 65536 = 5" by (simp add: signed_modulo_int_def)
  moreover have "vt_array start_tables ! 5 = 0" "vt_vote start_tables ! 5 = 0"
    by (simp_all add: start_tables_def nth_replicate)
  ultimately obtain t where t: "vote_run [(5, 7)] start_tables = Inr t"
    using vote_update_slot [OF start_wf small(1), of 5] by (simp add: vote_slot_def sum_bind_def)
  show ?thesis using t vote_reference_never_learns [OF small(2) t small(1,3)] by blast
qed

theorem vote_sawtooth_witness:
  "\<exists>t. vote_run (replicate 5 (3, 2)) start_tables = Inr t \<and> vt_vote t ! 3 = 2"
  using vote_sawtooth [of 3 2 4] by (simp add: int32_def eval_nat_numeral)

end
