(* ===== verification/Packet_Send.thy ===== *)
theory Packet_Send
  imports App_Port
begin

text \<open>
  The sender (main\_pkt\_send.cpp): every lcore fills bursts of 64 packets from the shared pool,
  hands them to its transmit queue, frees what the driver did not take and counts. The state \<open>'s\<close>
  of the device interface is memory together with a device state.
\<close>

abbreviation (input) BURST_SIZE :: nat where "BURST_SIZE \<equiv> 64"
abbreviation (input) MAX_CORES :: nat where "MAX_CORES \<equiv> 40"

section \<open>State\<close>

record ('d, 'e) send_state =
  ss_heap :: "'d heap"
  ss_dev :: 'e
  ss_total_num :: "u32 list"
  ss_burst_num :: "u32 list"

section \<open>One burst\<close>

text \<open>Filling one packet.\<close>

definition fill_pkt :: "u64 \<Rightarrow> 'd heap \<Rightarrow> 'd heap option" where
  "fill_pkt m h = do {
     b \<leftarrow> h_mbuf h m;
     h \<leftarrow> store_my_pkt (rte_pktmbuf_mtod_offset b 0) \<lparr>pkt_idx = 114, pkt_value = 514\<rparr> h;
     mbuf_upd (\<lambda>b. b\<lparr>mb_data_len := 8, mb_pkt_len := 8\<rparr>) m h
   }"

text \<open>The inner loop with \<open>n\<close> packets to go: the mbufs so far when an allocation fails, which
  ends the lcore, or the whole burst.\<close>

fun fill_burst :: "'d rte_mempool_ops list \<Rightarrow> u32 \<Rightarrow> u64 \<Rightarrow> nat \<Rightarrow> u64 list \<Rightarrow> 'd heap
      \<Rightarrow> ((u64 list + u64 list) \<times> 'd heap) option" where
  "fill_burst tbl core_id pool 0 bufs h = Some (Inr bufs, h)"
| "fill_burst tbl core_id pool (Suc n) bufs h = do {
     (m, h) \<leftarrow> rte_pktmbuf_alloc tbl core_id pool h;
     if m = NULL then Some (Inl bufs, h)
     else do {
       h \<leftarrow> fill_pkt m h;
       fill_burst tbl core_id pool n (bufs @ [m]) h
     }
   }"

fun free_all :: "'d rte_mempool_ops list \<Rightarrow> u32 \<Rightarrow> u64 list \<Rightarrow> 'd heap \<Rightarrow> 'd heap option" where
  "free_all tbl core_id [] h = Some h"
| "free_all tbl core_id (m # ms) h = do {h \<leftarrow> rte_pktmbuf_free tbl core_id m h; free_all tbl core_id ms h}"

text \<open>One round of the endless loop: the return value of a lcore that gives up, or the next state.
  The counters are arrays of 40 entries indexed by the lcore.\<close>

definition send_round ::
    "('d heap \<times> 'e) eth_env \<Rightarrow> 'd rte_mempool_ops list \<Rightarrow> u64 \<Rightarrow> u32 \<Rightarrow> send_config \<Rightarrow> u32
      \<Rightarrow> ('d, 'e) send_state \<Rightarrow> ((int \<times> ('d, 'e) send_state) + ('d, 'e) send_state) option" where
  "send_round env tbl pool core_id config queue_id st = do {
     (filled, h) \<leftarrow> fill_burst tbl core_id pool BURST_SIZE [] (ss_heap st);
     case filled of
       Inl bufs \<Rightarrow> Some (Inl (- 1, st\<lparr>ss_heap := h\<rparr>))
     | Inr bufs \<Rightarrow> do {
         (nb_tx, bufs, (h, e)) \<leftarrow>
           rte_eth_tx_burst env (ucast (cfg_port_id config)) (ucast queue_id) bufs (of_nat BURST_SIZE) (h, ss_dev st);
         h \<leftarrow> (if unat nb_tx < BURST_SIZE then free_all tbl core_id (drop (unat nb_tx) bufs) h else Some h);
         let c = unat core_id;
         if c < length (ss_total_num st) \<and> c < length (ss_burst_num st) then
           Some (Inr (st\<lparr>ss_heap := h, ss_dev := e,
             ss_total_num := (ss_total_num st)[c := ss_total_num st ! c + ucast nb_tx],
             ss_burst_num := (ss_burst_num st)[c := ss_burst_num st ! c + 1]\<rparr>))
         else None
       }
   }"

text \<open>The lcore function. It returns only when an allocation fails.\<close>

partial_function (option) send_loop ::
    "('d heap \<times> 'e) eth_env \<Rightarrow> 'd rte_mempool_ops list \<Rightarrow> u64 \<Rightarrow> u32 \<Rightarrow> send_config \<Rightarrow> u32
      \<Rightarrow> ('d, 'e) send_state \<Rightarrow> (int \<times> ('d, 'e) send_state) option" where
  "send_loop env tbl pool core_id config queue_id st = do {
     r \<leftarrow> send_round env tbl pool core_id config queue_id st;
     case r of Inl ret \<Rightarrow> Some ret | Inr st \<Rightarrow> send_loop env tbl pool core_id config queue_id st
   }"

definition packet_send_process ::
    "('d heap \<times> 'e) eth_env \<Rightarrow> 'd rte_mempool_ops list \<Rightarrow> u64 \<Rightarrow> u32 \<Rightarrow> send_config
      \<Rightarrow> ('d, 'e) send_state \<Rightarrow> (int \<times> ('d, 'e) send_state) option" where
  "packet_send_process env tbl pool core_id config st = do {
     queue_id \<leftarrow> nth_opt (cfg_queues config) (unat core_id);
     send_loop env tbl pool core_id config queue_id st
   }"

section \<open>The main program\<close>

text \<open>Setting up: the reason of an early exit, or the configuration handed to the lcores, with the
  result of bringing the port up, which the program only reports.\<close>

definition send_setup :: "'s eth_api \<Rightarrow> app_world \<Rightarrow> 's \<Rightarrow> (exit_reason + send_config \<times> int) \<times> 's" where
  "send_setup api w s = (case startup_checks w of
       Some why \<Rightarrow> (Inl why, s)
     | None \<Rightarrow> (let used_cores = w_lcore_count w;
                (ret, s) = send_init_port api 0 (w_pool w) used_cores used_cores s;
                cores = map of_nat [0..<unat used_cores];
                queues = map (\<lambda>i. of_nat i mod used_cores) [0..<unat used_cores]
            in (Inr (\<lparr>cfg_port_id = 0, cfg_queues = queues, cfg_cores = cores\<rparr>, ret), s)))"

text \<open>Waiting for the lcores: -1 at the first that failed.\<close>

fun wait_lcores :: "int list \<Rightarrow> int" where
  "wait_lcores [] = 0"
| "wait_lcores (r # rs) = (if r < 0 then - 1 else wait_lcores rs)"

end
