(* ===== verification/Packets_Correct.thy ===== *)
theory Packets_Correct
  imports Packet_Send Vote_Correct Rte_Mbuf_Correct
begin

text \<open>
  The packet programs on the pool and device they use: what is written is what is read, and the
  sender's rounds neither lose nor duplicate a buffer unless an allocation fails.
\<close>

section \<open>Words in memory\<close>

lemma u32_bytes_4: "u32_bytes v = [ucast v, ucast (drop_bit 8 v), ucast (drop_bit 16 v), ucast (drop_bit 24 v)]"
  by (simp add: u32_bytes_def upt_rec)

lemma bytes_u32_bytes [simp]: "bytes_u32 (u32_bytes v) = v"
proof -
  have "bit (bytes_u32 (u32_bytes v)) i = bit v i" if "i < 32" for i
  proof -
    consider "i < 8" | "8 \<le> i" "i < 16" | "16 \<le> i" "i < 24" | "24 \<le> i" by linarith
    then show ?thesis using that by cases (auto simp: u32_bytes_4 bytes_u32_def bit_simps)
  qed
  then show ?thesis by (intro bit_word_eqI) simp
qed

lemma u8_bit: "8 \<le> i \<Longrightarrow> \<not> bit x i" for x :: u8
  using bit_imp_le_length [of x i] by auto

lemma bytes_u32_inj: "length bs = 4 \<Longrightarrow> u32_bytes (bytes_u32 bs) = bs"
proof -
  assume "length bs = 4"
  then obtain a b c d where bs: "bs = [a, b, c, d]" by (auto simp: numeral_eq_Suc length_Suc_conv)
  have "ucast (bytes_u32 bs) = a" "ucast (drop_bit 8 (bytes_u32 bs)) = b" "ucast (drop_bit 16 (bytes_u32 bs)) = c"
    "ucast (drop_bit 24 (bytes_u32 bs)) = d"
    unfolding bs bytes_u32_def by (auto intro!: bit_word_eqI simp: bit_simps u8_bit)
  then show ?thesis by (simp add: u32_bytes_4 bs)
qed

lemma length_u32_bytes [simp]: "length (u32_bytes v) = 4"
  by (simp add: u32_bytes_4)

lemma ntohl_ntohl: "ntohl (ntohl x) = x"
  by (simp add: ntohl_def bytes_u32_inj)

text \<open>Memory that is mapped on a range of addresses.\<close>

definition mapped :: "'d heap \<Rightarrow> u64 \<Rightarrow> nat \<Rightarrow> bool" where
  "mapped h a n \<longleftrightarrow> (\<forall>i < n. h_byte h (a + of_nat i) \<noteq> None)"

lemma mapped_Suc: "mapped h a (Suc n) \<longleftrightarrow> h_byte h a \<noteq> None \<and> mapped h (a + 1) n"
proof -
  have "(\<forall>i < Suc n. P i) \<longleftrightarrow> P 0 \<and> (\<forall>i < n. P (Suc i))" for P :: "nat \<Rightarrow> bool"
    by (metis less_Suc_eq_0_disj not0_implies_Suc)
  then show ?thesis by (simp add: mapped_def add.assoc)
qed

lemma mapped_add: "mapped h a (m + n) \<longleftrightarrow> mapped h a m \<and> mapped h (a + of_nat m) n"
  by (induction m arbitrary: a) (simp_all add: mapped_Suc ac_simps, simp add: mapped_def)

lemma mapped_dom: "dom (h_byte h') = dom (h_byte h) \<Longrightarrow> mapped h' a n = mapped h a n"
  by (simp add: mapped_def domIff set_eq_iff)

text \<open>A store of a few bytes keeps all other bytes and what is mapped, and is read back.\<close>

lemma store_bytes_run:
  assumes "mapped h a (length bs)"
  shows "\<exists>f. store_bytes a bs h = Some (h\<lparr>h_byte := f\<rparr>) \<and> dom f = dom (h_byte h) \<and>
    (\<forall>x. (\<forall>i < length bs. x \<noteq> a + of_nat i) \<longrightarrow> f x = h_byte h x)"
  using assms
proof (induction bs arbitrary: a h)
  case Nil
  then show ?case by (intro exI [of _ "h_byte h"]) simp
next
  case (Cons b bs)
  let ?h = "h\<lparr>h_byte := (h_byte h)(a \<mapsto> b)\<rparr>"
  have m: "h_byte h a \<noteq> None" "mapped h (a + 1) (length bs)" using Cons.prems by (simp_all add: mapped_Suc)
  then have d: "dom (h_byte ?h) = dom (h_byte h)" by auto
  obtain f where f: "store_bytes (a + 1) bs ?h = Some (?h\<lparr>h_byte := f\<rparr>)" "dom f = dom (h_byte ?h)"
    "\<And>x. (\<forall>i < length bs. x \<noteq> a + 1 + of_nat i) \<Longrightarrow> f x = h_byte ?h x"
    using Cons.IH [of ?h "a + 1"] mapped_dom [OF d] m(2) by blast
  have "f x = h_byte h x" if x: "\<forall>i < length (b # bs). x \<noteq> a + of_nat i" for x
  proof -
    have "x \<noteq> a + 1 + of_nat i" if "i < length bs" for i
      using x [rule_format, of "Suc i"] that by (simp add: add.assoc)
    moreover have "x \<noteq> a" using x [rule_format, of 0] by simp
    ultimately show ?thesis using f(3) by simp
  qed
  then show ?case using f(1,2) d m(1) by (intro exI [of _ f]) auto
qed

lemma load_bytes_frame:
  assumes "\<And>i. i < n \<Longrightarrow> f (a + of_nat i) = h_byte h (a + of_nat i)"
  shows "load_bytes a n (h\<lparr>h_byte := f\<rparr>) = load_bytes a n h"
  using assms
proof (induction n arbitrary: a)
  case (Suc n)
  have "f a = h_byte h a" using Suc.prems [of 0] by simp
  moreover have "load_bytes (a + 1) n (h\<lparr>h_byte := f\<rparr>) = load_bytes (a + 1) n h"
    using Suc.prems [of "Suc _"] by (intro Suc.IH) (simp add: add.assoc)
  ultimately show ?case by simp
qed simp

lemma offset_neq: "i \<noteq> j \<Longrightarrow> i < 256 \<Longrightarrow> j < 256 \<Longrightarrow> a + of_nat i \<noteq> a + of_nat j" for a :: u64
proof
  assume ij: "i \<noteq> j" "i < 256" "j < 256" and "a + of_nat i = a + of_nat j"
  then have "(of_nat i :: u64) = of_nat j" by simp
  then have "unat (of_nat i :: u64) = unat (of_nat j :: u64)" by (rule arg_cong)
  then show False using ij by (simp add: unat_of_nat)
qed

lemma store_load:
  assumes "mapped h a (length bs)" "length bs < 256" "store_bytes a bs h = Some h'"
  shows "load_bytes a (length bs) h' = Some bs"
  using assms
proof (induction bs arbitrary: a h)
  case (Cons b bs)
  let ?h = "h\<lparr>h_byte := (h_byte h)(a \<mapsto> b)\<rparr>"
  have m: "h_byte h a \<noteq> None" "mapped h (a + 1) (length bs)" using Cons.prems by (simp_all add: mapped_Suc)
  then have "dom (h_byte ?h) = dom (h_byte h)" by auto
  then have m': "mapped ?h (a + 1) (length bs)" using m(2) mapped_dom by blast
  have st: "store_bytes (a + 1) bs ?h = Some h'" using Cons.prems(3) m(1) by simp
  obtain f where f: "h' = ?h\<lparr>h_byte := f\<rparr>" "\<And>x. (\<forall>i < length bs. x \<noteq> a + 1 + of_nat i) \<Longrightarrow> f x = h_byte ?h x"
    using store_bytes_run [OF m'] st by auto
  have "a \<noteq> a + 1 + of_nat i" if "i < length bs" for i
    using offset_neq [of 0 "Suc i" a] that Cons.prems(2) by (simp add: add.assoc)
  then have "h_byte h' a = Some b" using f by simp
  then show ?case using Cons.IH [OF m' _ st] Cons.prems(2) by simp
qed simp

lemma store_my_pkt_run:
  assumes "mapped h a 8"
  shows "\<exists>f. store_my_pkt a p h = Some (h\<lparr>h_byte := f\<rparr>) \<and> dom f = dom (h_byte h) \<and>
    load_my_pkt a (h\<lparr>h_byte := f\<rparr>) = Some p \<and> (\<forall>x. (\<forall>i < 8. x \<noteq> a + of_nat i) \<longrightarrow> f x = h_byte h x)"
proof -
  have m: "mapped h a 4" "mapped h (a + 4) 4" using assms mapped_add [of h a 4 4] by simp_all
  obtain f where f: "store_bytes a (u32_bytes (pkt_idx p)) h = Some (h\<lparr>h_byte := f\<rparr>)" "dom f = dom (h_byte h)"
    "\<And>x. (\<forall>i < 4. x \<noteq> a + of_nat i) \<Longrightarrow> f x = h_byte h x"
    using store_bytes_run [of h a "u32_bytes (pkt_idx p)"] m(1) by auto
  have m2: "mapped (h\<lparr>h_byte := f\<rparr>) (a + 4) 4" using mapped_dom [of "h\<lparr>h_byte := f\<rparr>" h] f(2) m(2) by simp
  obtain g where g: "store_bytes (a + 4) (u32_bytes (pkt_value p)) (h\<lparr>h_byte := f\<rparr>) = Some (h\<lparr>h_byte := g\<rparr>)" "dom g = dom f"
    "\<And>x. (\<forall>i < 4. x \<noteq> a + 4 + of_nat i) \<Longrightarrow> g x = f x"
    using store_bytes_run [of "h\<lparr>h_byte := f\<rparr>" "a + 4" "u32_bytes (pkt_value p)"] m2 by auto
  have "load_bytes a 4 (h\<lparr>h_byte := f\<rparr>) = Some (u32_bytes (pkt_idx p))"
    using store_load [OF _ _ f(1)] m(1) by simp
  moreover have "g (a + of_nat i) = f (a + of_nat i)" if "i < 4" for i
  proof (rule g(3), intro allI impI)
    fix j :: nat assume "j < 4"
    then show "a + of_nat i \<noteq> a + 4 + of_nat j"
      using offset_neq [of i "4 + j" a] that by (simp add: add.assoc)
  qed
  ultimately have "load_bytes a 4 (h\<lparr>h_byte := g\<rparr>) = Some (u32_bytes (pkt_idx p))"
    using load_bytes_frame [of 4 g a "h\<lparr>h_byte := f\<rparr>"] by simp
  moreover have "load_bytes (a + 4) 4 (h\<lparr>h_byte := g\<rparr>) = Some (u32_bytes (pkt_value p))"
    using store_load [OF _ _ g(1)] m2 by simp
  moreover have "g x = h_byte h x" if x: "\<forall>i < 8. x \<noteq> a + of_nat i" for x
  proof -
    have "x \<noteq> a + 4 + of_nat i" if "i < 4" for i using x [rule_format, of "4 + i"] that by (simp add: add.assoc)
    moreover have "x \<noteq> a + of_nat i" if "i < 4" for i using x that by simp
    ultimately show ?thesis using f(3) g(3) by simp
  qed
  ultimately show ?thesis using f g by (intro exI [of _ g]) (simp add: store_my_pkt_def load_my_pkt_def)
qed

lemma bind_Some_map: "Option.bind x (\<lambda>a. Some (f a)) = map_option f x"
  by (cases x) simp_all

section \<open>From the sender to the receivers\<close>

lemma fill_pkt_run:
  assumes "h_mbuf h m = Some b" "mapped h (rte_pktmbuf_mtod_offset b 0) 8"
  shows "\<exists>f. fill_pkt m h = Some (h\<lparr>h_byte := f, h_mbuf := (h_mbuf h)(m \<mapsto> b\<lparr>mb_data_len := 8, mb_pkt_len := 8\<rparr>)\<rparr>) \<and>
    dom f = dom (h_byte h) \<and> load_my_pkt (rte_pktmbuf_mtod_offset b 0) (h\<lparr>h_byte := f\<rparr>) = Some \<lparr>pkt_idx = 114, pkt_value = 514\<rparr>"
  using store_my_pkt_run [OF assms(2), of "\<lparr>pkt_idx = 114, pkt_value = 514\<rparr>"] assms(1)
  by (auto simp: fill_pkt_def)

lemma load_bytes_mbuf [simp]: "load_bytes a n (h\<lparr>h_mbuf := M\<rparr>) = load_bytes a n h"
  by (induction n arbitrary: a) simp_all

lemma load_my_pkt_mbuf [simp]: "load_my_pkt a (h\<lparr>h_mbuf := M\<rparr>) = load_my_pkt a h"
  by (simp add: load_my_pkt_def)

text \<open>C12. What the sender writes is what the plain receiver prints: after filling a packet, reading
  it back reports index 114 and value 514. The voting receiver converts byte order although the
  sender does not: it turns the same packet into index 1912602624 and value 33685504 in place, so with
  the reference value 0 that it starts from, every packet of this sender counts on slot 0, where it
  stores 33685504 when the count is used up and takes a vote away otherwise; the packet is freed and
  counted in both totals. Only a count that is already the least integer makes the update undefined.\<close>

theorem sender_to_receivers:
  assumes "h_mbuf h m = Some b" "mapped h (rte_pktmbuf_mtod_offset b 0) 8"
  shows "\<exists>h' h''. fill_pkt m h = Some h' \<and>
    (\<forall>st. rs_heap st = h' \<longrightarrow> recv_packet tbl lcore m st = map_option (\<lambda>h. st\<lparr>rs_heap := h,
        rs_printed := rs_printed st @ [(114, 514)], rs_burst_num := rs_burst_num st + 1\<rparr>) (rte_pktmbuf_free tbl lcore m h')) \<and>
    store_my_pkt (rte_pktmbuf_mtod_offset b 0) \<lparr>pkt_idx = 1912602624, pkt_value = 33685504\<rparr> h' = Some h'' \<and>
    load_my_pkt (rte_pktmbuf_mtod_offset b 0) h'' = Some \<lparr>pkt_idx = 1912602624, pkt_value = 33685504\<rparr> \<and>
    (\<forall>st c. vs_heap st = h' \<longrightarrow> tables_wf (vs_tables st) \<longrightarrow> vt_array (vs_tables st) ! 0 = 0 \<longrightarrow> vt_vote (vs_tables st) ! 0 = c \<longrightarrow>
      vote_packet tbl lcore m st = (if c = - (2 ^ 31) then Some (Inl Signed_overflow)
        else map_option (\<lambda>h. Inr (st\<lparr>vs_heap := h,
            vs_tables := (vs_tables st)\<lparr>vt_vote := (vt_vote (vs_tables st))[0 := if c \<le> 1 then 33685504 else c - 1]\<rparr>,
            vs_total_num := vs_total_num st + 1, vs_burst_num := vs_burst_num st + 1\<rparr>)) (rte_pktmbuf_free tbl lcore m h'')))"
proof -
  let ?a = "rte_pktmbuf_mtod_offset b 0" and ?net = "\<lparr>pkt_idx = 1912602624, pkt_value = 33685504\<rparr>"
  define b' where "b' = b\<lparr>mb_data_len := 8, mb_pkt_len := 8\<rparr>"
  obtain f where f: "fill_pkt m h = Some (h\<lparr>h_byte := f, h_mbuf := (h_mbuf h)(m \<mapsto> b')\<rparr>)" "dom f = dom (h_byte h)"
    "load_my_pkt ?a (h\<lparr>h_byte := f\<rparr>) = Some \<lparr>pkt_idx = 114, pkt_value = 514\<rparr>"
    using fill_pkt_run [OF assms] unfolding b'_def by blast
  define h' where "h' = h\<lparr>h_byte := f, h_mbuf := (h_mbuf h)(m \<mapsto> b')\<rparr>"
  have l: "load_my_pkt ?a h' = Some \<lparr>pkt_idx = 114, pkt_value = 514\<rparr>" using f(3) by (simp add: h'_def)
  have mb: "h_mbuf h' m = Some b'" "rte_pktmbuf_mtod_offset b' 0 = ?a"
    by (simp_all add: h'_def b'_def rte_pktmbuf_mtod_offset_def)
  have "mapped h' ?a 8" using assms(2) mapped_dom [of h' h] f(2) by (simp add: h'_def)
  then obtain h'' where st: "store_my_pkt ?a ?net h' = Some h''" "load_my_pkt ?a h'' = Some ?net"
    using store_my_pkt_run [of h' ?a ?net] by blast
  have nt: "ntohl 114 = 1912602624" "ntohl 514 = 33685504"
    by (simp_all add: ntohl_def u32_bytes_4 bytes_u32_def)
  have recv: "recv_packet tbl lcore m st = map_option (\<lambda>h. st\<lparr>rs_heap := h,
        rs_printed := rs_printed st @ [(114, 514)], rs_burst_num := rs_burst_num st + 1\<rparr>) (rte_pktmbuf_free tbl lcore m h')"
    if "rs_heap st = h'" for st :: "('a, 'b) recv_state"
    using that l mb by (simp add: recv_packet_def bind_Some_map)
  have vote: "vote_packet tbl lcore m st = (if c = - (2 ^ 31) then Some (Inl Signed_overflow)
        else map_option (\<lambda>h. Inr (st\<lparr>vs_heap := h,
            vs_tables := (vs_tables st)\<lparr>vt_vote := (vt_vote (vs_tables st))[0 := if c \<le> 1 then 33685504 else c - 1]\<rparr>,
            vs_total_num := vs_total_num st + 1, vs_burst_num := vs_burst_num st + 1\<rparr>)) (rte_pktmbuf_free tbl lcore m h''))"
    if s: "vs_heap st = h'" "tables_wf (vs_tables st)" "vt_array (vs_tables st) ! 0 = 0" "vt_vote (vs_tables st) ! 0 = c"
    for st :: "('a, 'c) vote_state" and c
  proof -
    have i: "int32 33685504" "(1912602624 :: int) smod 65536 = 0" by (simp_all add: int32_def signed_modulo_int_def)
    have "vote_packet tbl lcore m st = (case vote_update 1912602624 33685504 (vs_tables st) of Inl u \<Rightarrow> Some (Inl u)
        | Inr t \<Rightarrow> map_option (\<lambda>h. Inr (st\<lparr>vs_heap := h, vs_tables := t, vs_total_num := vs_total_num st + 1,
            vs_burst_num := vs_burst_num st + 1\<rparr>)) (rte_pktmbuf_free tbl lcore m h''))"
      using s(1) l mb st(1) nt by (simp add: vote_packet_def bind_Some_map Let_def split: sum.split)
    then show ?thesis using vote_update_slot [OF s(2) i(1), of 1912602624] i(2) s(3,4)
      by (simp add: vote_slot_def)
  qed
  show ?thesis using f(1) st recv vote unfolding h'_def [symmetric] by blast
qed

theorem sender_to_receivers_witness:
  "\<exists>h' h''. fill_pkt 1000 ex_heap = Some h' \<and>
    recv_packet [ring_pool_ops] 0 1000 \<lparr>rs_heap = h', rs_dev = (), rs_burst_num = 0, rs_printed = []\<rparr>
      = map_option (\<lambda>h. \<lparr>rs_heap = h, rs_dev = (), rs_burst_num = 1, rs_printed = [(114, 514)]\<rparr>)
          (rte_pktmbuf_free [ring_pool_ops] 0 1000 h') \<and>
    vote_packet [ring_pool_ops] 0 1000 \<lparr>vs_heap = h', vs_dev = (), vs_tables = start_tables, vs_total_num = 0, vs_burst_num = 0\<rparr>
      = map_option (\<lambda>h. Inr \<lparr>vs_heap = h, vs_dev = (), vs_tables = start_tables\<lparr>vt_vote := (vt_vote start_tables)[0 := 33685504]\<rparr>,
          vs_total_num = 1, vs_burst_num = 1\<rparr>) (rte_pktmbuf_free [ring_pool_ops] 0 1000 h'')"
proof -
  have "mapped ex_heap (rte_pktmbuf_mtod_offset (ex_mbuf 1000) 0) 8" by (simp add: mapped_def ex_heap_def)
  from sender_to_receivers [OF ex_heap_mbuf(1) this, of "[ring_pool_ops]" 0]
  obtain h' h'' where h: "fill_pkt 1000 ex_heap = Some h'"
    "\<And>st :: (rte_ring, unit) recv_state. rs_heap st = h' \<Longrightarrow> recv_packet [ring_pool_ops] 0 1000 st = map_option (\<lambda>h. st\<lparr>rs_heap := h,
        rs_printed := rs_printed st @ [(114, 514)], rs_burst_num := rs_burst_num st + 1\<rparr>) (rte_pktmbuf_free [ring_pool_ops] 0 1000 h')"
    "\<And>(st :: (rte_ring, unit) vote_state) c. vs_heap st = h' \<Longrightarrow> tables_wf (vs_tables st) \<Longrightarrow> vt_array (vs_tables st) ! 0 = 0 \<Longrightarrow>
      vt_vote (vs_tables st) ! 0 = c \<Longrightarrow>
      vote_packet [ring_pool_ops] 0 1000 st = (if c = - (2 ^ 31) then Some (Inl Signed_overflow)
        else map_option (\<lambda>h. Inr (st\<lparr>vs_heap := h,
            vs_tables := (vs_tables st)\<lparr>vt_vote := (vt_vote (vs_tables st))[0 := if c \<le> 1 then 33685504 else c - 1]\<rparr>,
            vs_total_num := vs_total_num st + 1, vs_burst_num := vs_burst_num st + 1\<rparr>)) (rte_pktmbuf_free [ring_pool_ops] 0 1000 h''))"
    by blast
  have z: "vt_array start_tables ! 0 = 0" "vt_vote start_tables ! 0 = 0"
    by (simp_all add: start_tables_def nth_replicate)
  show ?thesis using h(1) h(2) [of "\<lparr>rs_heap = h', rs_dev = (), rs_burst_num = 0, rs_printed = []\<rparr>"]
      h(3) [of "\<lparr>vs_heap = h', vs_dev = (), vs_tables = start_tables, vs_total_num = 0, vs_burst_num = 0\<rparr>" 0] start_wf z
    by (intro exI [of _ h'] exI [of _ h'']) simp
qed

end
