(* ===== verification/Rte_Ethdev_Correct.thy ===== *)
theory Rte_Ethdev_Correct
  imports Rte_Ethdev Rte_Ring_Correct
begin

text \<open>
  The transmit buffer of the device interface: packets leave it in order, are transmitted or
  reported to the error callback exactly once, and the array is never overrun. The contract with
  driver and callback is the locale \<open>tx_sink\<close>, which a port that transmits into a ring satisfies.
\<close>

section \<open>A ring as the device\<close>

text \<open>A port whose transmit queue is a ring: what fits is taken, nothing is put back. \<open>'m\<close> is the
  rest of the state.\<close>

definition ring_fp_ops :: "('m \<times> rte_ring) rte_eth_fp_ops" where
  "ring_fp_ops = \<lparr>fp_rx_pkt_burst = (\<lambda>_ pkts _ s. Some (0, pkts, s)), fp_rx_queue_count = None,
     fp_rx_descriptor_status = None, fp_rxq = \<lparr>qd_data = [1], qd_clbk = [0]\<rparr>,
     fp_tx_pkt_burst = (\<lambda>_ pkts n (m, r). case rte_ring_enqueue_burst r pkts (ucast n) of
        None \<Rightarrow> None | Some (k, _, r') \<Rightarrow> Some (ucast k, (m, r'))),
     fp_tx_pkt_prepare = None, fp_tx_descriptor_status = None, fp_txq = \<lparr>qd_data = [1], qd_clbk = [0]\<rparr>\<rparr>"

definition ring_env :: "('m \<times> rte_ring) eth_env" where
  "ring_env = \<lparr>env_fp_ops = [ring_fp_ops], env_call_rx_callbacks = (\<lambda>_ _ pkts k _ _ s. Some (k, pkts, s)),
     env_call_tx_callbacks = (\<lambda>_ _ pkts n _ s. Some (n, pkts, s)), env_is_valid_port = (\<lambda>q. q = 0)\<rparr>"

lemma ring_burst:
  assumes "ring_inv 2 r" "unat n \<le> length xs"
  shows "\<exists>k free r'. rte_ring_enqueue_burst r xs n = Some (k, free, r') \<and> k \<le> n \<and> ring_inv 2 r' \<and>
    r_capacity r' = r_capacity r \<and> ring_ptrs r' = ring_ptrs r @ take (unat k) xs"
proof -
  let ?k = "admit RTE_RING_QUEUE_VARIABLE (unat n) (unat (r_capacity r) - ring_used r)"
  have k: "?k \<le> unat n" by (rule admit_le(1))
  then have K: "unat (of_nat ?k :: u32) = ?k" using unsigned_less [of n, where 'a = nat] by (intro unat_len) simp
  have q: "ht_quiet (r_prod r)" using assms(1) by (simp add: ring_inv_def)
  have "rte_ring_enqueue_burst r xs n = Some (enq_canon r (ptr_table xs) 8 n RTE_RING_QUEUE_VARIABLE)"
    using q by (cases "ht_sync (r_prod r)")
      (auto simp: rte_ring_enqueue_burst_def enqueue_api_defs do_enqueue_canon do_hts_enqueue_canon do_rts_enqueue_canon)
  moreover obtain r' where "enq_canon r (ptr_table xs) 8 n RTE_RING_QUEUE_VARIABLE
      = (of_nat ?k, of_nat (unat (r_capacity r) - ring_used r - ?k), r')"
    "ring_inv 2 r'" "r_capacity r' = r_capacity r" "ring_elems 2 r' = ring_elems 2 r @ take ?k (map ptr_words xs)"
    using enq_canon_refines [OF assms(1), of n "ptr_table xs" ?k RTE_RING_QUEUE_VARIABLE] assms(2)
    by (auto simp: length_ptr_table chunks_ptr_table)
  ultimately show ?thesis using K k
    by (simp add: ring_ptrs_def take_map comp_def word_le_nat_alt)
qed

lemma unat_u16_u32 [simp]: "unat (ucast (n :: u16) :: u32) = unat n"
  using unsigned_less [of n, where 'a = nat] by (simp add: unsigned_ucast_eq take_bit_nat_eq_self_iff)

lemma ring_tx:
  assumes "ring_inv 2 r" "unat n \<le> length pkts"
  shows "\<exists>k r'. rte_eth_tx_burst ring_env 0 0 pkts n (m, r) = Some (k, pkts, (m, r')) \<and> k \<le> n \<and> ring_inv 2 r' \<and>
    ring_ptrs r' = ring_ptrs r @ take (unat k) pkts"
proof -
  have n: "unat (ucast n :: u32) = unat n" by simp
  obtain k free r' where r': "rte_ring_enqueue_burst r pkts (ucast n) = Some (k, free, r')" "k \<le> ucast n" "ring_inv 2 r'"
    "ring_ptrs r' = ring_ptrs r @ take (unat k) pkts"
    using ring_burst [OF assms(1), of "ucast n" pkts] assms(2) n by auto
  have "unat k \<le> unat n" using r'(2) n by (simp add: word_le_nat_alt)
  then have k: "unat (ucast k :: u16) = unat k"
    using unsigned_less [of n, where 'a = nat] by (simp add: unsigned_ucast_eq take_bit_nat_eq_self_iff)
  show ?thesis using r' k n
    by (intro exI [of _ "ucast k"] exI [of _ r'])
      (simp add: rte_eth_tx_burst_def ring_env_def ring_fp_ops_def nth_opt_def word_le_nat_alt)
qed

section \<open>What driver and callback promise\<close>

text \<open>The driver keeps the front of what it is offered, in order, at the end of the \<open>wire\<close>; the error
  callback adds what it is handed to the \<open>dropped\<close> packets.\<close>

locale tx_sink =
  fixes env :: "'s eth_env" and port :: u16 and queue :: u16 and cb :: "u64 list \<Rightarrow> u16 \<Rightarrow> 's \<Rightarrow> 's option"
    and sinv :: "'s \<Rightarrow> bool" and wire :: "'s \<Rightarrow> u64 list" and dropped :: "'s \<Rightarrow> u64 list"
  assumes tx: "sinv s \<Longrightarrow> unat n \<le> length pkts \<Longrightarrow>
      \<exists>k s'. rte_eth_tx_burst env port queue pkts n s = Some (k, pkts, s') \<and> k \<le> n \<and> sinv s' \<and>
        wire s' = wire s @ take (unat k) pkts \<and> dropped s' = dropped s"
    and drop: "sinv s \<Longrightarrow> \<exists>s'. cb pkts n s = Some s' \<and> sinv s' \<and> wire s' = wire s \<and>
        dropped s' = dropped s @ take (unat n) pkts"

text \<open>A buffer between calls: not full, its array large enough.\<close>

definition tx_buffer_wf :: "(u64 list \<Rightarrow> u16 \<Rightarrow> 's \<Rightarrow> 's option) \<Rightarrow> 's rte_eth_dev_tx_buffer \<Rightarrow> bool" where
  "tx_buffer_wf cb b \<longleftrightarrow> tb_error_callback b = cb \<and> tb_length b < tb_size b \<and> unat (tb_size b) \<le> length (tb_pkts b)"

definition tx_pending :: "'s rte_eth_dev_tx_buffer \<Rightarrow> u64 list" where
  "tx_pending b = take (unat (tb_length b)) (tb_pkts b)"

fun tx_buffer_all :: "'s eth_env \<Rightarrow> u16 \<Rightarrow> u16 \<Rightarrow> u64 list \<Rightarrow> 's rte_eth_dev_tx_buffer \<Rightarrow> 's
      \<Rightarrow> (nat \<times> 's rte_eth_dev_tx_buffer \<times> 's) option" where
  "tx_buffer_all env port queue [] b s = Some (0, b, s)"
| "tx_buffer_all env port queue (p # ps) b s = do {
     (k, b, s) \<leftarrow> rte_eth_tx_buffer env port queue b p s;
     (ks, b, s) \<leftarrow> tx_buffer_all env port queue ps b s;
     Some (unat k + ks, b, s)
   }"

lemma shuffles_append: "x \<in> shuffles w d \<Longrightarrow> y \<in> shuffles v e \<Longrightarrow> x @ y \<in> shuffles (w @ v) (d @ e)"
proof (induction w d arbitrary: x rule: shuffles.induct)
  case (1 d)
  then show ?case
    by (induction d arbitrary: x) (auto intro: Cons_in_shuffles_rightI)
next
  case (2 w)
  then show ?case by (induction w arbitrary: x) (auto intro: Cons_in_shuffles_leftI)
next
  case (3 a w b d)
  then show ?case by (auto intro: Cons_in_shuffles_leftI Cons_in_shuffles_rightI)
qed

lemma take_drop_shuffles: "xs \<in> shuffles (take k xs) (drop k xs)"
  using shuffles_append [of "take k xs" "take k xs" "[]" "drop k xs" "[]" "drop k xs"] by simp

context tx_sink
begin

lemma flush_spec:
  assumes s: "sinv s" and b: "tb_error_callback b = cb" "unat (tb_length b) \<le> length (tb_pkts b)"
  shows "\<exists>k b' s' w d. rte_eth_tx_buffer_flush env port queue b s = Some (k, b', s') \<and> sinv s' \<and>
    tb_error_callback b' = cb \<and> tb_length b' = 0 \<and> tb_size b' = tb_size b \<and> length (tb_pkts b') = length (tb_pkts b) \<and>
    wire s' = wire s @ w \<and> dropped s' = dropped s @ d \<and> length w = unat k \<and> tx_pending b \<in> shuffles w d"
proof (cases "tb_length b = 0")
  case True
  then show ?thesis using s b(1)
    by (intro exI [of _ 0] exI [of _ b] exI [of _ s] exI [of _ "[]"]) (simp add: rte_eth_tx_buffer_flush_def tx_pending_def)
next
  case False
  let ?n = "tb_length b"
  obtain k s1 where t: "rte_eth_tx_burst env port queue (tb_pkts b) ?n s = Some (k, tb_pkts b, s1)" "k \<le> ?n" "sinv s1"
    "wire s1 = wire s @ take (unat k) (tb_pkts b)" "dropped s1 = dropped s"
    using tx [OF s b(2)] by blast
  have k: "unat k \<le> unat ?n" using t(2) by (simp add: word_le_nat_alt)
  have w: "take (unat k) (tb_pkts b) = take (unat k) (tx_pending b)" using k by (simp add: tx_pending_def min_def)
  have len: "length (take (unat k) (tx_pending b)) = unat k" using k b(2) by (simp add: tx_pending_def)
  show ?thesis
  proof (cases "k = ?n")
    case True
    then have "drop (unat k) (tx_pending b) = []" by (simp add: tx_pending_def)
    then show ?thesis using False True t w len b(1) take_drop_shuffles [of "tx_pending b" "unat k"]
      by (intro exI [of _ k] exI [of _ "b\<lparr>tb_length := 0\<rparr>"] exI [of _ s1] exI [of _ "take (unat k) (tx_pending b)"] exI [of _ "[]"])
        (auto simp: rte_eth_tx_buffer_flush_def)
  next
    case ne: False
    obtain s2 where d: "cb (List.drop (unat k) (tb_pkts b)) (?n - k) s1 = Some s2" "sinv s2" "wire s2 = wire s1"
      "dropped s2 = dropped s1 @ take (unat (?n - k)) (List.drop (unat k) (tb_pkts b))"
      using drop [OF t(3)] by blast
    have "take (unat (?n - k)) (List.drop (unat k) (tb_pkts b)) = List.drop (unat k) (tx_pending b)"
      using k by (simp add: tx_pending_def take_drop unat_sub_le)
    then show ?thesis using False ne t w len b(1) d take_drop_shuffles [of "tx_pending b" "unat k"]
      by (intro exI [of _ k] exI [of _ "b\<lparr>tb_length := 0\<rparr>"] exI [of _ s2] exI [of _ "take (unat k) (tx_pending b)"]
          exI [of _ "List.drop (unat k) (tx_pending b)"])
        (auto simp: rte_eth_tx_buffer_flush_def)
  qed
qed

lemma buffer_spec:
  assumes s: "sinv s" and b: "tx_buffer_wf cb b"
  shows "\<exists>k b' s' w d x. rte_eth_tx_buffer env port queue b p s = Some (k, b', s') \<and> sinv s' \<and> tx_buffer_wf cb b' \<and>
    wire s' = wire s @ w \<and> dropped s' = dropped s @ d \<and> length w = unat k \<and>
    tx_pending b @ [p] = x @ tx_pending b' \<and> x \<in> shuffles w d"
proof -
  let ?b = "b\<lparr>tb_pkts := (tb_pkts b)[unat (tb_length b) := p], tb_length := tb_length b + 1\<rparr>"
  have lt: "unat (tb_length b) < unat (tb_size b)" "unat (tb_size b) \<le> length (tb_pkts b)"
    using b by (simp_all add: tx_buffer_wf_def word_less_nat_alt)
  have inc: "unat (tb_length b + 1) = Suc (unat (tb_length b))"
    using b by (intro unat_inc_below [where y = "tb_size b"]) (simp add: tx_buffer_wf_def)
  have pend: "tx_pending ?b = tx_pending b @ [p]"
    using lt inc by (simp add: tx_pending_def take_Suc_conv_app_nth)
  have in_array: "unat (tb_length b) < length (tb_pkts b)" using lt by simp
  show ?thesis
  proof (cases "tb_length ?b < tb_size ?b")
    case True
    then have "tx_buffer_wf cb ?b" using b by (simp add: tx_buffer_wf_def)
    then show ?thesis using True s pend in_array
      by (intro exI [of _ 0] exI [of _ ?b] exI [of _ s] exI [of _ "[]"]) (simp add: rte_eth_tx_buffer_def Let_def)
  next
    case False
    have cbb: "tb_error_callback ?b = cb" "unat (tb_length ?b) \<le> length (tb_pkts ?b)"
      using b lt inc by (simp_all add: tx_buffer_wf_def)
    obtain k b' s' w d where f: "rte_eth_tx_buffer_flush env port queue ?b s = Some (k, b', s')" "sinv s'"
      "tb_error_callback b' = cb" "tb_length b' = 0" "tb_size b' = tb_size ?b" "length (tb_pkts b') = length (tb_pkts ?b)"
      "wire s' = wire s @ w" "dropped s' = dropped s @ d" "length w = unat k" "tx_pending ?b \<in> shuffles w d"
      using flush_spec [OF s cbb] by blast
    have "tx_buffer_wf cb b'" using f(3-6) lt b by (auto simp: tx_buffer_wf_def word_less_nat_alt)
    moreover have "tx_pending b' = []" using f(4) by (simp add: tx_pending_def)
    moreover have "rte_eth_tx_buffer env port queue b p s = Some (k, b', s')"
      using False f(1) in_array by (simp add: rte_eth_tx_buffer_def Let_def)
    ultimately show ?thesis using f pend by auto
  qed
qed

lemma buffer_all_spec:
  assumes "sinv s" "tx_buffer_wf cb b"
  shows "\<exists>k b' s' w d x. tx_buffer_all env port queue ps b s = Some (k, b', s') \<and> sinv s' \<and> tx_buffer_wf cb b' \<and>
    wire s' = wire s @ w \<and> dropped s' = dropped s @ d \<and> length w = k \<and>
    tx_pending b @ ps = x @ tx_pending b' \<and> x \<in> shuffles w d"
  using assms
proof (induction ps arbitrary: b s)
  case Nil
  then show ?case by (intro exI [of _ 0] exI [of _ b] exI [of _ s] exI [of _ "[]"]) simp
next
  case (Cons p ps)
  obtain k b1 s1 w d x where f: "rte_eth_tx_buffer env port queue b p s = Some (k, b1, s1)" "sinv s1" "tx_buffer_wf cb b1"
    "wire s1 = wire s @ w" "dropped s1 = dropped s @ d" "length w = unat k"
    "tx_pending b @ [p] = x @ tx_pending b1" "x \<in> shuffles w d"
    using buffer_spec [OF Cons.prems] by blast
  obtain ks b2 s2 v e y where g: "tx_buffer_all env port queue ps b1 s1 = Some (ks, b2, s2)" "sinv s2" "tx_buffer_wf cb b2"
    "wire s2 = wire s1 @ v" "dropped s2 = dropped s1 @ e" "length v = ks"
    "tx_pending b1 @ ps = y @ tx_pending b2" "y \<in> shuffles v e"
    using Cons.IH [OF f(2,3)] by blast
  have "tx_pending b @ p # ps = (x @ y) @ tx_pending b2"
    using f(7) g(7) by (metis append.assoc append_Cons append_Nil)
  moreover have "x @ y \<in> shuffles (w @ v) (d @ e)" using f(8) g(8) by (rule shuffles_append)
  ultimately show ?case using f g
    by (intro exI [of _ "unat k + ks"] exI [of _ b2] exI [of _ s2] exI [of _ "w @ v"] exI [of _ "d @ e"] exI [of _ "x @ y"]) simp
qed

end

text \<open>The port with a ring, and a callback that appends to a log kept beside it.\<close>

definition log_callback :: "u64 list \<Rightarrow> u16 \<Rightarrow> u64 list \<times> rte_ring \<Rightarrow> (u64 list \<times> rte_ring) option" where
  "log_callback pkts n s = Some (fst s @ take (unat n) pkts, snd s)"

interpretation ring_sink: tx_sink ring_env 0 0 log_callback "\<lambda>s. ring_inv 2 (snd s)" "\<lambda>s. ring_ptrs (snd s)" fst
proof
  fix s :: "u64 list \<times> rte_ring" and n :: u16 and pkts :: "u64 list"
  assume a: "ring_inv 2 (snd s)" "unat n \<le> length pkts"
  then show "\<exists>k s'. rte_eth_tx_burst ring_env 0 0 pkts n s = Some (k, pkts, s') \<and> k \<le> n \<and> ring_inv 2 (snd s') \<and>
      ring_ptrs (snd s') = ring_ptrs (snd s) @ take (unat k) pkts \<and> fst s' = fst s"
    using ring_tx [OF a, of "fst s"] by fastforce
qed (simp add: log_callback_def)

text \<open>C5. Buffered transmission: pushing packets through the buffer of a port and flushing it always
  completes; the array is never overrun and never left full; the counts returned add up to the
  packets put on the wire; and the packets that were in the buffer followed by the new ones are
  an interleaving of what went on the wire, in order, and what the error callback got, in order.\<close>

theorem tx_buffer_delivers:
  assumes "tx_sink env port queue cb sinv wire dropped" "sinv s" "tx_buffer_wf cb b"
  shows "\<exists>k b1 s1 k2 b2 s2 w d. tx_buffer_all env port queue ps b s = Some (k, b1, s1) \<and> tx_buffer_wf cb b1 \<and>
    rte_eth_tx_buffer_flush env port queue b1 s1 = Some (k2, b2, s2) \<and> tx_buffer_wf cb b2 \<and> tx_pending b2 = [] \<and>
    wire s2 = wire s @ w \<and> dropped s2 = dropped s @ d \<and> length w = k + unat k2 \<and>
    tx_pending b @ ps \<in> shuffles w d"
proof -
  obtain k b1 s1 w d x where f: "tx_buffer_all env port queue ps b s = Some (k, b1, s1)" "sinv s1" "tx_buffer_wf cb b1"
    "wire s1 = wire s @ w" "dropped s1 = dropped s @ d" "length w = k" "tx_pending b @ ps = x @ tx_pending b1" "x \<in> shuffles w d"
    using tx_sink.buffer_all_spec [OF assms] by blast
  have b1: "tb_error_callback b1 = cb" "unat (tb_length b1) \<le> length (tb_pkts b1)" "0 < tb_size b1"
    "unat (tb_size b1) \<le> length (tb_pkts b1)"
    using f(3) by (auto simp: tx_buffer_wf_def word_less_nat_alt intro: le_less_trans [rotated])
  obtain k2 b2 s2 v e where g: "rte_eth_tx_buffer_flush env port queue b1 s1 = Some (k2, b2, s2)"
    "tb_error_callback b2 = cb" "tb_length b2 = 0" "tb_size b2 = tb_size b1" "length (tb_pkts b2) = length (tb_pkts b1)"
    "wire s2 = wire s1 @ v" "dropped s2 = dropped s1 @ e" "length v = unat k2" "tx_pending b1 \<in> shuffles v e"
    using tx_sink.flush_spec [OF assms(1) f(2) b1(1,2)] by blast
  have "tx_pending b @ ps \<in> shuffles (w @ v) (d @ e)" unfolding f(7) using f(8) g(9) by (rule shuffles_append)
  moreover have "tx_buffer_wf cb b2" "tx_pending b2 = []" using g b1 by (simp_all add: tx_buffer_wf_def tx_pending_def)
  ultimately show ?thesis using f g
    by (intro exI [of _ k] exI [of _ b1] exI [of _ s1] exI [of _ k2] exI [of _ b2] exI [of _ s2] exI [of _ "w @ v"]
        exI [of _ "d @ e"]) simp
qed

theorem tx_buffer_delivers_witness:
  "\<exists>k b1 s1 k2 b2 s2 w d. let b = \<lparr>tb_error_callback = log_callback, tb_size = 2, tb_length = 1, tb_pkts = [7, 0]\<rparr> in
    tx_buffer_all ring_env 0 0 [8, 9] b ([], ex_ring) = Some (k, b1, s1) \<and>
    rte_eth_tx_buffer_flush ring_env 0 0 b1 s1 = Some (k2, b2, s2) \<and>
    ring_ptrs (snd s2) = ring_ptrs ex_ring @ w \<and> fst s2 = d \<and> length w = k + unat k2 \<and> [7, 8, 9] \<in> shuffles w d"
proof -
  let ?b = "\<lparr>tb_error_callback = log_callback, tb_size = 2, tb_length = 1, tb_pkts = [7, 0]\<rparr>"
  have "tx_buffer_wf log_callback ?b" by (simp add: tx_buffer_wf_def)
  moreover have "tx_pending ?b = [7]" by (simp add: tx_pending_def)
  ultimately show ?thesis
    using tx_buffer_delivers [OF ring_sink.tx_sink_axioms, of "([], ex_ring)" ?b "[8, 9]"] ex_ring_inv
    by (simp add: Let_def) blast
qed

end
