(* ===== verification/Send_Correct.thy ===== *)
theory Send_Correct
  imports Packets_Correct Rte_Ethdev_Correct
begin

text \<open>
  The sender against the pool and its device: as long as allocations succeed no round loses or
  duplicates a buffer, and the only way a lcore ends is an allocation that fails, which loses the
  packets of the unfinished burst.
\<close>

section \<open>Buffers ready for use\<close>

text \<open>An mbuf as the pool hands it out and takes it back: direct, unshared, unlinked, of the pool
  \<open>p\<close>, with memory for a packet behind the headroom.\<close>

definition ready :: "'d heap \<Rightarrow> u64 \<Rightarrow> u64 \<Rightarrow> bool" where
  "ready h p m \<longleftrightarrow> m \<noteq> NULL \<and> (\<exists>b. h_mbuf h m = Some b \<and> RTE_MBUF_DIRECT b \<and> mb_refcnt b = 1 \<and> mb_pool b = p \<and>
     mb_next b = NULL \<and> mapped h (mb_buf_addr b + ucast (min RTE_PKTMBUF_HEADROOM (mb_buf_len b))) 8)"

lemma ready_update:
  assumes "ready h p x" "h_mbuf h m = Some b" "dom (h_byte h') = dom (h_byte h)" "h_mbuf h' = (h_mbuf h)(m \<mapsto> c)"
    "mb_buf_addr c = mb_buf_addr b" "mb_buf_len c = mb_buf_len b" "mb_refcnt c = mb_refcnt b" "mb_pool c = mb_pool b"
    "mb_next c = NULL" "RTE_MBUF_DIRECT b \<Longrightarrow> RTE_MBUF_DIRECT c"
  shows "ready h' p x"
  using assms mapped_dom [OF assms(3)] unfolding ready_def by (cases "x = m") auto

lemma reset_fields [simp]:
  "mb_buf_addr (rte_pktmbuf_reset b) = mb_buf_addr b" "mb_buf_len (rte_pktmbuf_reset b) = mb_buf_len b"
  "mb_refcnt (rte_pktmbuf_reset b) = mb_refcnt b" "mb_pool (rte_pktmbuf_reset b) = mb_pool b"
  "mb_next (rte_pktmbuf_reset b) = NULL" "mb_data_off (rte_pktmbuf_reset b) = min RTE_PKTMBUF_HEADROOM (mb_buf_len b)"
  by (simp_all add: rte_pktmbuf_reset_def rte_pktmbuf_reset_headroom_def)

lemma reset_direct: "RTE_MBUF_DIRECT b \<Longrightarrow> RTE_MBUF_DIRECT (rte_pktmbuf_reset b)"
  unfolding flag_bits by (simp add: rte_pktmbuf_reset_def rte_pktmbuf_reset_headroom_def bit_and_iff)

text \<open>The pool in memory with the buffers \<open>owned\<close> by it and its users.\<close>

definition pool_ok :: "'d rte_mempool_ops list \<Rightarrow> 'd rte_mempool_ops \<Rightarrow> ('d \<Rightarrow> bool) \<Rightarrow> ('d \<Rightarrow> nat) \<Rightarrow> u64
      \<Rightarrow> u64 multiset \<Rightarrow> 'd heap \<Rightarrow> 'd rte_mempool \<Rightarrow> bool" where
  "pool_ok tbl ops hinv hcap p owned h mp \<longleftrightarrow> h_pool h p = Some mp \<and> pool_wf tbl ops hinv mp \<and>
     size owned \<le> hcap (mp_pool_data mp) \<and> (\<forall>x. x \<in># owned \<longrightarrow> ready h p x)"

lemma pool_ok_mbuf_pool:
  assumes "pool_ok tbl ops hinv hcap p owned h mp" "free_objs held mp \<subseteq># owned"
  shows "mbuf_pool tbl ops hinv held h p mp"
proof -
  have "x \<noteq> NULL \<and> h_mbuf h x \<noteq> None" if "x \<in># free_objs held mp" for x
    using assms(1) mset_subset_eqD [OF assms(2) that] unfolding pool_ok_def ready_def by auto
  then show ?thesis using assms(1) by (simp add: mbuf_pool_def pool_ok_def)
qed

section \<open>Filling and freeing\<close>

context pool_handler
begin

lemma alloc_fill:
  assumes ok: "pool_ok tbl ops hinv hcap p owned h mp" and sub: "free_objs held mp \<subseteq># owned"
  shows "rte_pktmbuf_alloc tbl lcore p h = Some (NULL, h) \<and> \<not> get_possible held mp lcore 1 \<or>
    (\<exists>m h1 h2 mp'. rte_pktmbuf_alloc tbl lcore p h = Some (m, h1) \<and> m \<noteq> NULL \<and> fill_pkt m h1 = Some h2 \<and>
      pool_ok tbl ops hinv hcap p owned h2 mp' \<and> free_objs held mp = {#m#} + free_objs held mp' \<and>
      size owned \<le> hcap (mp_pool_data mp'))"
proof (cases "get_possible held mp lcore 1")
  case False
  then show ?thesis using alloc_spec [OF pool_handler_axioms pool_ok_mbuf_pool [OF ok sub], of lcore] by simp
next
  case True
  then obtain m b mp' where m: "h_mbuf h m = Some b" "m \<noteq> NULL" "pool_wf tbl ops hinv mp'"
    "hcap (mp_pool_data mp') = hcap (mp_pool_data mp)" "free_objs held mp = {#m#} + free_objs held mp'"
    "rte_pktmbuf_alloc tbl lcore p h =
      Some (m, h\<lparr>h_pool := (h_pool h)(p \<mapsto> mp'), h_mbuf := (h_mbuf h)(m \<mapsto> rte_pktmbuf_reset b)\<rparr>)"
    using alloc_spec [OF pool_handler_axioms pool_ok_mbuf_pool [OF ok sub], of lcore] by auto
  define h1 where "h1 = h\<lparr>h_pool := (h_pool h)(p \<mapsto> mp'), h_mbuf := (h_mbuf h)(m \<mapsto> rte_pktmbuf_reset b)\<rparr>"
  have "m \<in># owned" using mset_subset_eqD [OF sub, of m] m(5) by simp
  then have r: "ready h p m" using ok by (simp add: pool_ok_def)
  have h1: "h_mbuf h1 m = Some (rte_pktmbuf_reset b)" "mapped h1 (rte_pktmbuf_mtod_offset (rte_pktmbuf_reset b) 0) 8"
    using r m(1) mapped_dom [of h1 h] by (auto simp: h1_def ready_def rte_pktmbuf_mtod_offset_def)
  then obtain f where f: "fill_pkt m h1 =
      Some (h1\<lparr>h_byte := f, h_mbuf := (h_mbuf h1)(m \<mapsto> (rte_pktmbuf_reset b)\<lparr>mb_data_len := 8, mb_pkt_len := 8\<rparr>)\<rparr>)"
    "dom f = dom (h_byte h1)" using fill_pkt_run by blast
  define h2 where "h2 = h1\<lparr>h_byte := f, h_mbuf := (h_mbuf h1)(m \<mapsto> (rte_pktmbuf_reset b)\<lparr>mb_data_len := 8, mb_pkt_len := 8\<rparr>)\<rparr>"
  have "ready h2 p x" if "ready h p x" for x
  proof (rule ready_update [OF that m(1), of h2 "(rte_pktmbuf_reset b)\<lparr>mb_data_len := 8, mb_pkt_len := 8\<rparr>"])
    show "RTE_MBUF_DIRECT b \<Longrightarrow> RTE_MBUF_DIRECT ((rte_pktmbuf_reset b)\<lparr>mb_data_len := 8, mb_pkt_len := 8\<rparr>)"
      using reset_direct [of b] by (simp add: flag_bits)
  qed (use f(2) in \<open>auto simp: h2_def h1_def\<close>)
  then have "pool_ok tbl ops hinv hcap p owned h2 mp'" using ok m(3,4) by (simp add: pool_ok_def h2_def h1_def)
  then show ?thesis using m f(1) ok unfolding h1_def [symmetric] h2_def [symmetric]
    by (intro disjI2 exI [of _ m] exI [of _ h1] exI [of _ h2] exI [of _ mp']) (auto simp: pool_ok_def)
qed

lemma fill_burst_spec:
  assumes "pool_ok tbl ops hinv hcap p owned h mp" "free_objs held mp \<subseteq># owned"
  shows "\<exists>r h' mp' new. fill_burst tbl lcore p n bufs h = Some (r, h') \<and> pool_ok tbl ops hinv hcap p owned h' mp' \<and>
    free_objs held mp = free_objs held mp' + mset new \<and>
    (r = Inr (bufs @ new) \<and> length new = n \<or>
     r = Inl (bufs @ new) \<and> length new < n \<and> \<not> get_possible held mp' lcore 1 \<and>
       fill_burst tbl lcore p (length new) bufs h = Some (Inr (bufs @ new), h') \<and>
       rte_pktmbuf_alloc tbl lcore p h' = Some (NULL, h'))"
  using assms
proof (induction n arbitrary: bufs h mp)
  case 0
  then show ?case by (intro exI [of _ "Inr bufs"] exI [of _ h] exI [of _ mp] exI [of _ "[]"]) simp
next
  case (Suc n)
  from alloc_fill [OF Suc.prems, of lcore] show ?case
  proof (elim disjE exE conjE)
    assume "rte_pktmbuf_alloc tbl lcore p h = Some (NULL, h)" "\<not> get_possible held mp lcore 1"
    then show ?thesis using Suc.prems
      by (intro exI [of _ "Inl bufs"] exI [of _ h] exI [of _ mp] exI [of _ "[]"]) simp
  next
    fix m h1 h2 mp'
    assume a: "rte_pktmbuf_alloc tbl lcore p h = Some (m, h1)" "m \<noteq> NULL" "fill_pkt m h1 = Some h2"
      "pool_ok tbl ops hinv hcap p owned h2 mp'" "free_objs held mp = {#m#} + free_objs held mp'"
    have "free_objs held mp' \<subseteq># free_objs held mp" using a(5) by simp
    then have "free_objs held mp' \<subseteq># owned" using Suc.prems(2) by (rule subset_mset.order_trans)
    from Suc.IH [OF a(4) this, of "bufs @ [m]"] obtain r h' mp'' new where
      IH: "fill_burst tbl lcore p n (bufs @ [m]) h2 = Some (r, h')" "pool_ok tbl ops hinv hcap p owned h' mp''"
      "free_objs held mp' = free_objs held mp'' + mset new"
      "r = Inr (bufs @ [m] @ new) \<and> length new = n \<or>
       r = Inl (bufs @ [m] @ new) \<and> length new < n \<and> \<not> get_possible held mp'' lcore 1 \<and>
         fill_burst tbl lcore p (length new) (bufs @ [m]) h2 = Some (Inr (bufs @ [m] @ new), h') \<and>
         rte_pktmbuf_alloc tbl lcore p h' = Some (NULL, h')" by auto
    then show ?thesis using a
      by (intro exI [of _ r] exI [of _ h'] exI [of _ mp''] exI [of _ "m # new"]) auto
  qed
qed

lemma free_all_spec:
  assumes "pool_ok tbl ops hinv hcap p owned h mp" "free_objs held mp + mset ms \<subseteq># owned"
  shows "\<exists>h' mp'. free_all tbl lcore ms h = Some h' \<and> pool_ok tbl ops hinv hcap p owned h' mp' \<and>
    free_objs held mp' = free_objs held mp + mset ms"
  using assms
proof (induction ms arbitrary: h mp)
  case Nil
  then show ?case by auto
next
  case (Cons m ms)
  have "m \<in># owned" using mset_subset_eqD [OF Cons.prems(2), of m] by simp
  then have r: "ready h p m" using Cons.prems(1) by (simp add: pool_ok_def)
  then obtain b where b: "h_mbuf h m = Some b" "RTE_MBUF_DIRECT b" "mb_refcnt b = 1" "mb_pool b = p" "mb_next b = NULL" "m \<noteq> NULL"
    by (auto simp: ready_def)
  have path: "seg_path h m [m] NULL" and d: "distinct [m]" using b by simp_all
  have fr: "freeable p c" if "s \<in> set [m]" "h_mbuf h s = Some c" for s c
    using that b by (auto simp: freeable_def)
  have p: "h_pool h p = Some mp" "pool_wf tbl ops hinv mp" using Cons.prems(1) by (simp_all add: pool_ok_def)
  have "size (free_objs held mp + mset (m # ms)) \<le> size owned" using Cons.prems(2) by (rule size_mset_mono)
  then have room: "size (free_objs held mp) + length [m] \<le> hcap (mp_pool_data mp)"
    using Cons.prems(1) by (simp add: pool_ok_def)
  define h1 where "h1 mp' = h\<lparr>h_pool := (h_pool h)(p \<mapsto> mp'),
      h_mbuf := (\<lambda>s. if s \<in> set [m] then map_option freed_seg (h_mbuf h s) else h_mbuf h s)\<rparr>" for mp'
  have "\<exists>mp'. rte_pktmbuf_free tbl lcore m h = Some (h1 mp') \<and> pool_wf tbl ops hinv mp' \<and>
      hcap (mp_pool_data mp') = hcap (mp_pool_data mp) \<and>
      free_objs held mp' = free_objs held mp + mset (filter (\<lambda>s. map_option mb_refcnt (h_mbuf h s) = Some 1) [m])"
    unfolding h1_def by (rule free_spec [OF pool_handler_axioms path d _ p room]) (rule fr)
  then obtain mp1 where f: "rte_pktmbuf_free tbl lcore m h = Some (h1 mp1)" "pool_wf tbl ops hinv mp1"
    "hcap (mp_pool_data mp1) = hcap (mp_pool_data mp)" "free_objs held mp1 = free_objs held mp + {#m#}"
    using b(1,3) by auto
  have M: "h_mbuf (h1 mp1) = (h_mbuf h)(m \<mapsto> freed_seg b)" using b(1) by (auto simp: h1_def fun_eq_iff)
  have "ready (h1 mp1) p x" if "ready h p x" for x
    using b by (intro ready_update [OF that b(1) _ M]) (auto simp: h1_def freed_seg_def flag_bits)
  then have ok1: "pool_ok tbl ops hinv hcap p owned (h1 mp1) mp1"
    using Cons.prems(1) f(2,3) by (simp add: pool_ok_def h1_def)
  have "free_objs held mp1 + mset ms \<subseteq># owned" using Cons.prems(2) f(4) by simp
  from Cons.IH [OF ok1 this] show ?case using f(1,4) by auto
qed

end

section \<open>What a device promises\<close>

text \<open>A transmit call takes the front of the table, at most as much as it is offered. What it has
  taken it holds until it puts it back in the pool, which it may do at any later call; it leaves
  every buffer ready for use.\<close>

locale packet_device = pool_handler ops hinv held hcap
  for ops :: "'d rte_mempool_ops" and hinv :: "'d \<Rightarrow> bool" and held :: "'d \<Rightarrow> u64 multiset" and hcap :: "'d \<Rightarrow> nat" +
  fixes tbl :: "'d rte_mempool_ops list" and p :: u64 and env :: "('d heap \<times> 'e) eth_env" and port :: u16
    and queue :: u16 and dwf :: "'e \<Rightarrow> bool" and dheld :: "'e \<Rightarrow> u64 multiset"
  assumes tx: "dwf e \<Longrightarrow> unat n \<le> length pkts \<Longrightarrow>
      pool_ok tbl ops hinv hcap p (free_objs held mp + dheld e + mset pkts) h mp \<Longrightarrow>
      \<exists>k h' e' mp'. rte_eth_tx_burst env port queue pkts n (h, e) = Some (k, pkts, (h', e')) \<and> k \<le> n \<and> dwf e' \<and>
        pool_ok tbl ops hinv hcap p (free_objs held mp + dheld e + mset pkts) h' mp' \<and>
        free_objs held mp' + dheld e' = free_objs held mp + dheld e + mset (take (unat k) pkts)"

text \<open>A state of the sender in which every buffer is in the pool or with the device.\<close>

definition send_ok :: "'d rte_mempool_ops list \<Rightarrow> 'd rte_mempool_ops \<Rightarrow> ('d \<Rightarrow> bool) \<Rightarrow> ('d \<Rightarrow> u64 multiset) \<Rightarrow> ('d \<Rightarrow> nat)
      \<Rightarrow> u64 \<Rightarrow> ('e \<Rightarrow> bool) \<Rightarrow> ('e \<Rightarrow> u64 multiset) \<Rightarrow> u64 multiset \<Rightarrow> ('d, 'e) send_state \<Rightarrow> bool" where
  "send_ok tbl ops hinv held hcap p dwf dheld owned st \<longleftrightarrow>
     (\<exists>mp. pool_ok tbl ops hinv hcap p owned (ss_heap st) mp \<and> free_objs held mp + dheld (ss_dev st) = owned) \<and>
     dwf (ss_dev st) \<and> length (ss_total_num st) = MAX_CORES \<and> length (ss_burst_num st) = MAX_CORES"

text \<open>A state in which the buffers \<open>lost\<close> are in neither.\<close>

definition send_lost :: "('d \<Rightarrow> u64 multiset) \<Rightarrow> u64 \<Rightarrow> ('e \<Rightarrow> u64 multiset) \<Rightarrow> u64 multiset \<Rightarrow> u64 multiset
      \<Rightarrow> ('d, 'e) send_state \<Rightarrow> bool" where
  "send_lost held p dheld owned lost st \<longleftrightarrow>
     (\<exists>mp. h_pool (ss_heap st) p = Some mp \<and> free_objs held mp + dheld (ss_dev st) + lost = owned)"

text \<open>How a round fails: \<open>bufs\<close> are allocated and filled and then the pool \<open>p\<close>, from which the lcore can
  get no further buffer, returns none.\<close>

definition burst_starved :: "'d rte_mempool_ops list \<Rightarrow> ('d \<Rightarrow> u64 multiset) \<Rightarrow> u64 \<Rightarrow> u32 \<Rightarrow> u64 list
      \<Rightarrow> ('d, 'e) send_state \<Rightarrow> ('d, 'e) send_state \<Rightarrow> bool" where
  "burst_starved tbl held p core bufs st st' \<longleftrightarrow>
     fill_burst tbl core p (length bufs) [] (ss_heap st) = Some (Inr bufs, ss_heap st') \<and>
     rte_pktmbuf_alloc tbl core p (ss_heap st') = Some (NULL, ss_heap st') \<and>
     (\<exists>mp. h_pool (ss_heap st') p = Some mp \<and> \<not> get_possible held mp core 1) \<and>
     st' = st\<lparr>ss_heap := ss_heap st'\<rparr>"

lemma pool_ok_owned: "pool_ok tbl ops hinv hcap p owned h mp \<Longrightarrow> owned = owned' \<Longrightarrow> pool_ok tbl ops hinv hcap p owned' h mp"
  by simp

context packet_device
begin

lemma round_spec:
  assumes ok: "send_ok tbl ops hinv held hcap p dwf dheld owned st" and core: "unat core < MAX_CORES"
    and cfg: "ucast (cfg_port_id cfg) = port" "ucast qid = queue"
  shows "(\<exists>st' k. send_round env tbl p core cfg qid st = Some (Inr st') \<and> k \<le> 64 \<and>
      send_ok tbl ops hinv held hcap p dwf dheld owned st' \<and>
      ss_total_num st' = (ss_total_num st)[unat core := ss_total_num st ! unat core + ucast (k :: u16)] \<and>
      ss_burst_num st' = (ss_burst_num st)[unat core := ss_burst_num st ! unat core + 1]) \<or>
    (\<exists>st' bufs. send_round env tbl p core cfg qid st = Some (Inl (- 1, st')) \<and> length bufs < 64 \<and>
      send_lost held p dheld owned (mset bufs) st' \<and> burst_starved tbl held p core bufs st st')"
proof -
  obtain mp where mp: "pool_ok tbl ops hinv hcap p owned (ss_heap st) mp" "free_objs held mp + dheld (ss_dev st) = owned"
    "dwf (ss_dev st)" "length (ss_total_num st) = MAX_CORES" "length (ss_burst_num st) = MAX_CORES"
    using ok by (auto simp: send_ok_def)
  have sub: "free_objs held mp \<subseteq># owned" using mp(2) by (metis mset_subset_eq_add_left)
  obtain r h1 mp1 bufs where f: "fill_burst tbl core p BURST_SIZE [] (ss_heap st) = Some (r, h1)"
    "pool_ok tbl ops hinv hcap p owned h1 mp1" "free_objs held mp = free_objs held mp1 + mset bufs"
    "r = Inr bufs \<and> length bufs = BURST_SIZE \<or> r = Inl bufs \<and> length bufs < BURST_SIZE \<and> \<not> get_possible held mp1 core 1 \<and>
       fill_burst tbl core p (length bufs) [] (ss_heap st) = Some (Inr bufs, h1) \<and> rte_pktmbuf_alloc tbl core p h1 = Some (NULL, h1)"
    using fill_burst_spec [OF mp(1) sub, of core BURST_SIZE "[]"] by auto
  from f(4) show ?thesis
  proof (elim disjE conjE)
    assume r: "r = Inl bufs" "length bufs < BURST_SIZE" "\<not> get_possible held mp1 core 1"
      "fill_burst tbl core p (length bufs) [] (ss_heap st) = Some (Inr bufs, h1)" "rte_pktmbuf_alloc tbl core p h1 = Some (NULL, h1)"
    have "send_lost held p dheld owned (mset bufs) (st\<lparr>ss_heap := h1\<rparr>)"
      using f(2,3) mp(2) by (auto simp: send_lost_def pool_ok_def ac_simps)
    moreover have "send_round env tbl p core cfg qid st = Some (Inl (- 1, st\<lparr>ss_heap := h1\<rparr>))"
      using f(1) r(1) by (simp add: send_round_def)
    moreover have "burst_starved tbl held p core bufs st (st\<lparr>ss_heap := h1\<rparr>)"
      using r(3-5) f(2) by (simp add: burst_starved_def pool_ok_def)
    ultimately show ?thesis using r(2) by (intro disjI2 exI [of _ "st\<lparr>ss_heap := h1\<rparr>"] exI [of _ bufs]) simp
  next
    assume r: "r = Inr bufs" "length bufs = BURST_SIZE"
    let ?all = "free_objs held mp1 + dheld (ss_dev st) + mset bufs"
    have all: "?all = owned" using mp(2) f(3) by (simp add: ac_simps)
    have ok1: "pool_ok tbl ops hinv hcap p ?all h1 mp1" using f(2) all by simp
    have n: "unat (of_nat BURST_SIZE :: u16) \<le> length bufs" using r(2) by simp
    obtain k h2 e2 mp2 where t: "rte_eth_tx_burst env port queue bufs (of_nat BURST_SIZE) (h1, ss_dev st) = Some (k, bufs, (h2, e2))"
      "k \<le> of_nat BURST_SIZE" "dwf e2" "pool_ok tbl ops hinv hcap p ?all h2 mp2"
      "free_objs held mp2 + dheld e2 = free_objs held mp1 + dheld (ss_dev st) + mset (take (unat k) bufs)"
      using tx [OF mp(3) n ok1] by blast
    have k: "unat k \<le> 64" using t(2) by (simp add: word_le_nat_alt)
    have "mset bufs = mset (take (unat k) bufs) + mset (drop (unat k) bufs)" by (metis append_take_drop_id mset_append)
    then have split: "free_objs held mp2 + dheld e2 + mset (drop (unat k) bufs) = owned"
      using t(5) all by (simp add: ac_simps)
    then have sub2: "free_objs held mp2 + mset (drop (unat k) bufs) \<subseteq># owned"
      by (metis (no_types, lifting) add.assoc add.commute mset_subset_eq_add_right)
    obtain h3 mp3 where fr: "free_all tbl core (drop (unat k) bufs) h2 = Some h3" "pool_ok tbl ops hinv hcap p owned h3 mp3"
      "free_objs held mp3 = free_objs held mp2 + mset (drop (unat k) bufs)"
      using free_all_spec [OF pool_ok_owned [OF t(4) all] sub2, of core] by blast
    have rest: "(if unat k < BURST_SIZE then free_all tbl core (drop (unat k) bufs) h2 else Some h2) = Some h3"
      using fr(1) r(2) k by (cases "unat k < BURST_SIZE") auto
    define st' where "st' = st\<lparr>ss_heap := h3, ss_dev := e2,
        ss_total_num := (ss_total_num st)[unat core := ss_total_num st ! unat core + ucast k],
        ss_burst_num := (ss_burst_num st)[unat core := ss_burst_num st ! unat core + 1]\<rparr>"
    have "send_ok tbl ops hinv held hcap p dwf dheld owned st'"
      using fr(2,3) split t(3) mp(4,5) by (auto simp: send_ok_def st'_def ac_simps)
    moreover have "send_round env tbl p core cfg qid st = Some (Inr st')"
      using f(1) r t(1) cfg core mp(4,5) rest by (simp add: send_round_def st'_def Let_def)
    ultimately show ?thesis using k by (intro disjI1 exI [of _ st'] exI [of _ k]) (simp add: st'_def word_le_nat_alt)
  qed
qed

end

section \<open>A ring as the device\<close>

lemma ring_device_tx:
  assumes "ring_inv 2 e" "unat n \<le> length pkts" "pool_ok tbl ops hinv hcap p (free_objs ring_held mp + ring_held e + mset pkts) h mp"
  shows "\<exists>k h' e' mp'. rte_eth_tx_burst ring_env 0 0 pkts n (h, e) = Some (k, pkts, (h', e')) \<and> k \<le> n \<and> ring_inv 2 e' \<and>
      pool_ok tbl ops hinv hcap p (free_objs ring_held mp + ring_held e + mset pkts) h' mp' \<and>
      free_objs ring_held mp' + ring_held e' = free_objs ring_held mp + ring_held e + mset (take (unat k) pkts)"
proof -
  obtain k r' where r: "rte_eth_tx_burst ring_env 0 0 pkts n (h, e) = Some (k, pkts, (h, r'))" "k \<le> n" "ring_inv 2 r'"
    "ring_ptrs r' = ring_ptrs e @ take (unat k) pkts"
    using ring_tx [OF assms(1,2), of h] by blast
  have "free_objs ring_held mp + ring_held r' = free_objs ring_held mp + ring_held e + mset (take (unat k) pkts)"
    using r(4) by (simp only: ring_held_def mset_append add.assoc)
  with r(1-3) assms(3) show ?thesis by blast
qed

interpretation ring_device: packet_device ring_pool_ops "ring_inv 2" ring_held "\<lambda>r. unat (r_capacity r)"
    "[ring_pool_ops]" 64 ring_env 0 0 "ring_inv 2" ring_held
  by (intro packet_device.intro ring_pool.pool_handler_axioms packet_device_axioms.intro) (rule ring_device_tx)

section \<open>Rounds of a sender\<close>

text \<open>A number of rounds of the loop, ended by a failed allocation.\<close>

fun send_rounds :: "('d heap \<times> 'e) eth_env \<Rightarrow> 'd rte_mempool_ops list \<Rightarrow> u64 \<Rightarrow> u32 \<Rightarrow> send_config \<Rightarrow> u32 \<Rightarrow> nat
      \<Rightarrow> ('d, 'e) send_state \<Rightarrow> ((int \<times> ('d, 'e) send_state) + ('d, 'e) send_state) option" where
  "send_rounds env tbl p core cfg qid 0 st = Some (Inr st)"
| "send_rounds env tbl p core cfg qid (Suc n) st = do {
     r \<leftarrow> send_round env tbl p core cfg qid st;
     case r of Inl ret \<Rightarrow> Some (Inl ret) | Inr st \<Rightarrow> send_rounds env tbl p core cfg qid n st
   }"

lemma send_rounds_end:
  "send_rounds env tbl p core cfg qid n st = Some (Inl ret) \<Longrightarrow> send_loop env tbl p core cfg qid st = Some ret"
proof (induction n arbitrary: st)
  case (Suc n)
  then show ?case by (subst send_loop.simps) (auto split: sum.splits bind_splits)
qed simp

context packet_device
begin

lemma rounds_spec:
  assumes "send_ok tbl ops hinv held hcap p dwf dheld owned st" and core: "unat core < MAX_CORES"
    and cfg: "ucast (cfg_port_id cfg) = port" "ucast qid = queue"
  shows "(\<exists>st'. send_rounds env tbl p core cfg qid n st = Some (Inr st') \<and>
      send_ok tbl ops hinv held hcap p dwf dheld owned st' \<and>
      ss_burst_num st' ! unat core = ss_burst_num st ! unat core + of_nat n) \<or>
    (\<exists>i sti st' bufs. i < n \<and> send_rounds env tbl p core cfg qid i st = Some (Inr sti) \<and>
      send_ok tbl ops hinv held hcap p dwf dheld owned sti \<and>
      ss_burst_num sti ! unat core = ss_burst_num st ! unat core + of_nat i \<and>
      burst_starved tbl held p core bufs sti st' \<and> length bufs < 64 \<and> send_lost held p dheld owned (mset bufs) st' \<and>
      send_rounds env tbl p core cfg qid n st = Some (Inl (- 1, st')))"
  using assms(1)
proof (induction n arbitrary: st)
  case 0
  then show ?case by simp
next
  case (Suc n)
  have len: "unat core < length (ss_burst_num st)" using Suc.prems core by (simp add: send_ok_def)
  from round_spec [OF Suc.prems core cfg] show ?case
  proof (elim disjE exE conjE)
    fix st' k
    assume r: "send_round env tbl p core cfg qid st = Some (Inr st')" "send_ok tbl ops hinv held hcap p dwf dheld owned st'"
      "ss_burst_num st' = (ss_burst_num st)[unat core := ss_burst_num st ! unat core + 1]"
    have one: "send_rounds env tbl p core cfg qid (Suc k) st = send_rounds env tbl p core cfg qid k st'" for k
      using r(1) by simp
    from Suc.IH [OF r(2)] show ?thesis
    proof (elim disjE exE conjE)
      fix i sti stn bufs
      assume i: "i < n" "send_rounds env tbl p core cfg qid i st' = Some (Inr sti)"
        "send_ok tbl ops hinv held hcap p dwf dheld owned sti"
        "ss_burst_num sti ! unat core = ss_burst_num st' ! unat core + of_nat i"
        "burst_starved tbl held p core bufs sti stn" "length bufs < 64" "send_lost held p dheld owned (mset bufs) stn"
        "send_rounds env tbl p core cfg qid n st' = Some (Inl (- 1, stn))"
      then show ?thesis using r(3) len one [of i] one [of n]
        by (intro disjI2 exI [of _ "Suc i"] exI [of _ sti] exI [of _ stn] exI [of _ bufs]) (simp add: ac_simps)
    qed (use r(3) len one in \<open>simp add: ac_simps\<close>)
  next
    fix st' bufs
    assume "send_round env tbl p core cfg qid st = Some (Inl (- 1, st'))" "length bufs < 64"
      "send_lost held p dheld owned (mset bufs) st'" "burst_starved tbl held p core bufs st st'"
    then show ?thesis using Suc.prems
      by (intro disjI2 exI [of _ 0] exI [of _ st] exI [of _ st'] exI [of _ bufs]) simp
  qed
qed

end

section \<open>The sender\<close>

text \<open>C1. The sender never loses, duplicates or uses a buffer after giving it away while it runs: for any
  pool handler and any device that keep their contracts, after any number of rounds either every
  buffer is in the pool or with the device, ready for use, and the burst counter of the lcore has
  advanced by the number of rounds modulo 2^32, or one allocation has failed, in a round that followed
  \<open>i\<close> complete ones: of its burst \<open>bufs\<close> were allocated and filled, then the pool, which had no buffer
  left for this lcore, returned none. Then the lcore has ended with -1, having changed neither the device
  nor its counters in that round, exactly the buffers \<open>bufs\<close>, at most 63, are in neither the pool nor the
  device, and the endless loop returns exactly that state. There is no other way out.\<close>

theorem send_rounds_conserve:
  assumes "packet_device ops hinv held hcap tbl p env port queue dwf dheld"
    and "send_ok tbl ops hinv held hcap p dwf dheld owned st" and "unat core < MAX_CORES"
    and "ucast (cfg_port_id cfg) = port" "nth_opt (cfg_queues cfg) (unat core) = Some qid" "ucast qid = queue"
  shows "(\<exists>st'. send_rounds env tbl p core cfg qid n st = Some (Inr st') \<and>
      send_ok tbl ops hinv held hcap p dwf dheld owned st' \<and>
      ss_burst_num st' ! unat core = ss_burst_num st ! unat core + of_nat n) \<or>
    (\<exists>i sti st' bufs. i < n \<and> send_rounds env tbl p core cfg qid i st = Some (Inr sti) \<and>
      send_ok tbl ops hinv held hcap p dwf dheld owned sti \<and>
      ss_burst_num sti ! unat core = ss_burst_num st ! unat core + of_nat i \<and>
      burst_starved tbl held p core bufs sti st' \<and> length bufs < 64 \<and> send_lost held p dheld owned (mset bufs) st' \<and>
      send_rounds env tbl p core cfg qid n st = Some (Inl (- 1, st')) \<and>
      packet_send_process env tbl p core cfg st = Some (- 1, st'))"
proof -
  have "packet_send_process env tbl p core cfg st = Some (- 1, st')"
    if "send_rounds env tbl p core cfg qid n st = Some (Inl (- 1, st'))" for st'
    using send_rounds_end [OF that] assms(5) by (simp add: packet_send_process_def)
  then show ?thesis using packet_device.rounds_spec [OF assms(1-4,6), of n] by blast
qed

text \<open>Setting up reaches the lcores exactly when initialisation worked, an argument is left, a port
  exists and the pool could be made, whatever bringing the port up returned. Then lcore \<open>i\<close> gets queue
  \<open>i\<close> for every \<open>i\<close> below the number of lcores, so no two lcores share a queue, and there is none for
  a larger lcore number: its process reads outside the array.\<close>

theorem send_setup_queues:
  "(case send_setup api w s of
      (Inl why, s') \<Rightarrow> s' = s \<and> (w_eal_init w < 0 \<or> w_argc w - w_eal_init w < 1 \<or> w_nb_ports w < 1 \<or> w_pool w = NULL)
    | (Inr (cfg, ret), s') \<Rightarrow>
        0 \<le> w_eal_init w \<and> 1 \<le> w_argc w - w_eal_init w \<and> 1 \<le> w_nb_ports w \<and> w_pool w \<noteq> NULL \<and>
        (ret, s') = init_port api 0 (w_pool w) (ucast (w_lcore_count w)) (ucast (w_lcore_count w)) s \<and>
        cfg_port_id cfg = 0 \<and>
        nth_opt (cfg_queues cfg) (unat core) = (if core < w_lcore_count w then Some core else None) \<and>
        (if core < w_lcore_count w then packet_send_process env tbl p core cfg st = send_loop env tbl p core cfg core st
         else packet_send_process env tbl p core cfg st = None))"
proof -
  have "(of_nat (unat core) :: u32) mod w_lcore_count w = core" if "core < w_lcore_count w"
    using that by (simp add: word_arith_nat_mod word_less_nat_alt)
  then show ?thesis
    by (auto simp: send_setup_def startup_checks_def send_init_port_def Let_def nth_opt_def packet_send_process_def word_less_nat_alt
      word_le_nat_alt not_less split: prod.splits if_splits)
qed

section \<open>Examples\<close>

definition ex_tx_ring :: rte_ring where
  "ex_tx_ring = ex_ring\<lparr>r_cons := (r_prod ex_ring)\<rparr>"

definition ex_send :: "(rte_ring, rte_ring) send_state" where
  "ex_send = \<lparr>ss_heap = ex_heap, ss_dev = ex_tx_ring, ss_total_num = replicate 40 0, ss_burst_num = replicate 40 0\<rparr>"

lemma ex_tx_ring_facts: "ring_inv 2 ex_tx_ring" "ring_held ex_tx_ring = {#}"
proof -
  show "ring_inv 2 ex_tx_ring" using ex_ring_inv
    by (auto simp: ex_tx_ring_def ring_inv_def ring_wf_def ring_used_def ht_quiet_def)
  show "ring_held ex_tx_ring = {#}"
    by (simp add: ex_tx_ring_def ring_held_def ring_ptrs_def ring_elems_def ring_used_def)
qed

lemma ex_ready: "x \<in># {#10, 20#} \<Longrightarrow> ready ex_heap 64 x"
  by (auto simp: ready_def ex_heap_def mapped_def flag_bits)

lemma ex_send_ok: "send_ok [ring_pool_ops] ring_pool_ops (ring_inv 2) ring_held (\<lambda>r. unat (r_capacity r)) 64
    (ring_inv 2) ring_held {#10, 20#} ex_send"
proof -
  have "pool_ok [ring_pool_ops] ring_pool_ops (ring_inv 2) (\<lambda>r. unat (r_capacity r)) 64 {#10, 20#} ex_heap ex_pool"
    using ex_ready by (simp add: pool_ok_def ex_pool_facts) (simp add: ex_heap_def)
  then show ?thesis
    by (simp add: send_ok_def ex_send_def ex_tx_ring_facts) (auto simp: ex_pool_facts ex_ring_held)
qed

theorem send_rounds_conserve_witness:
  "(\<exists>st'. send_rounds ring_env [ring_pool_ops] 64 3 \<lparr>cfg_port_id = 0, cfg_queues = [9, 9, 9, 0], cfg_cores = []\<rparr> 0 1 ex_send
      = Some (Inr st')) \<or>
   (\<exists>st'. packet_send_process ring_env [ring_pool_ops] 64 3 \<lparr>cfg_port_id = 0, cfg_queues = [9, 9, 9, 0], cfg_cores = []\<rparr> ex_send
      = Some (- 1, st'))"
  using send_rounds_conserve [OF ring_device.packet_device_axioms ex_send_ok, of 3
      "\<lparr>cfg_port_id = 0, cfg_queues = [9, 9, 9, 0], cfg_cores = []\<rparr>" 0 1]
  by (auto simp: nth_opt_def)

end
