(* ===== verification/Rte_Common.thy ===== *)
theory Rte_Common
  imports Prelude
begin

text \<open>
  Bit scans, powers of two and logarithms of rte\_common.h, with the fact their users need: rounding
  up to a power of two by smearing the top bit downwards gives the least one that is large enough.
  The compiler builtins that count zero bits are undefined at 0, written as \<open>None\<close>.
\<close>

section \<open>Definitions\<close>

definition ctz :: "'a::len word \<Rightarrow> nat" where
  "ctz v = length (takeWhile (\<lambda>i. \<not> bit v i) [0..<LENGTH('a)])"

definition clz :: "'a::len word \<Rightarrow> nat" where
  "clz v = length (takeWhile (\<lambda>i. \<not> bit v (LENGTH('a) - 1 - i)) [0..<LENGTH('a)])"

definition builtin_ctz :: "'a::len word \<Rightarrow> nat option" where
  "builtin_ctz v = (if v = 0 then None else Some (ctz v))"

definition rte_combine32ms1b :: "u32 \<Rightarrow> u32" where
  "rte_combine32ms1b x = (let x = x OR drop_bit 1 x; x = x OR drop_bit 2 x; x = x OR drop_bit 4 x;
     x = x OR drop_bit 8 x; x = x OR drop_bit 16 x in x)"

definition rte_combine64ms1b :: "u64 \<Rightarrow> u64" where
  "rte_combine64ms1b v = (let v = v OR drop_bit 1 v; v = v OR drop_bit 2 v; v = v OR drop_bit 4 v;
     v = v OR drop_bit 8 v; v = v OR drop_bit 16 v; v = v OR drop_bit 32 v in v)"

definition rte_is_power_of_2 :: "u32 \<Rightarrow> bool" where
  "rte_is_power_of_2 n \<longleftrightarrow> n \<noteq> 0 \<and> n AND (n - 1) = 0"

definition rte_align32pow2 :: "u32 \<Rightarrow> u32" where
  "rte_align32pow2 x = rte_combine32ms1b (x - 1) + 1"

definition rte_align32prevpow2 :: "u32 \<Rightarrow> u32" where
  "rte_align32prevpow2 x = (let x = rte_combine32ms1b x in x - drop_bit 1 x)"

definition rte_align64pow2 :: "u64 \<Rightarrow> u64" where
  "rte_align64pow2 v = rte_combine64ms1b (v - 1) + 1"

definition rte_align64prevpow2 :: "u64 \<Rightarrow> u64" where
  "rte_align64prevpow2 v = (let v = rte_combine64ms1b v in v - drop_bit 1 v)"

definition rte_bsf32 :: "u32 \<Rightarrow> u32 option" where
  "rte_bsf32 v = map_option of_nat (builtin_ctz v)"

definition rte_bsf32_safe :: "u32 \<Rightarrow> u32 \<Rightarrow> bool \<times> u32" where
  "rte_bsf32_safe v pos = (case rte_bsf32 v of None \<Rightarrow> (False, pos) | Some n \<Rightarrow> (True, n))"

definition rte_log2_u32 :: "u32 \<Rightarrow> u32 option" where
  "rte_log2_u32 v = (if v = 0 then Some 0 else rte_bsf32 (rte_align32pow2 v))"

definition rte_fls_u32 :: "u32 \<Rightarrow> int" where
  "rte_fls_u32 x = (if x = 0 then 0 else 32 - int (clz x))"

definition rte_bsf64 :: "u64 \<Rightarrow> int option" where
  "rte_bsf64 v = map_option int (builtin_ctz v)"

definition rte_bsf64_safe :: "u64 \<Rightarrow> u32 \<Rightarrow> bool \<times> u32" where
  "rte_bsf64_safe v pos = (case rte_bsf64 v of None \<Rightarrow> (False, pos) | Some n \<Rightarrow> (True, word_of_int n))"

definition rte_fls_u64 :: "u64 \<Rightarrow> int" where
  "rte_fls_u64 x = (if x = 0 then 0 else 64 - int (clz x))"

definition rte_log2_u64 :: "u64 \<Rightarrow> u32 option" where
  "rte_log2_u64 v = (if v = 0 then Some 0 else map_option word_of_int (rte_bsf64 (rte_align64pow2 v)))"

section \<open>Bit scans\<close>

lemma unat_pow2: "k < LENGTH('a) \<Longrightarrow> unat (2 ^ k :: 'a::len word) = 2 ^ k"
proof -
  assume "k < LENGTH('a)"
  then have "(2 :: nat) ^ k < 2 ^ LENGTH('a)" by simp
  then have "unat (of_nat (2 ^ k) :: 'a word) = 2 ^ k" by (simp only: unat_of_nat mod_less)
  then show ?thesis by simp
qed

lemma word_nonzero_bit: "v \<noteq> 0 \<Longrightarrow> \<exists>i < LENGTH('a). bit v i" for v :: "'a::len word"
  by (metis bit_eq_iff bit_0_eq bot_apply bot_bool_def bit_imp_le_length)

lemma takeWhile_upt:
  assumes "\<exists>i < n. P i"
  shows "length (takeWhile (\<lambda>i. \<not> P i) [0..<n]) < n" "P (length (takeWhile (\<lambda>i. \<not> P i) [0..<n]))"
    "i < length (takeWhile (\<lambda>i. \<not> P i) [0..<n]) \<Longrightarrow> \<not> P i"
proof -
  let ?l = "length (takeWhile (\<lambda>i. \<not> P i) [0..<n])"
  have "takeWhile (\<lambda>i. \<not> P i) [0..<n] \<noteq> [0..<n]"
    using assms by (auto simp: takeWhile_eq_all_conv)
  then show lt: "?l < n"
    using length_takeWhile_le [of "\<lambda>i. \<not> P i" "[0..<n]"]
    by (metis diff_zero le_neq_implies_less length_upt takeWhile_eq_take take_all_iff order_refl)
  then show "P ?l" using nth_length_takeWhile [of "\<lambda>i. \<not> P i" "[0..<n]"] by simp
  show "\<not> P i" if "i < ?l"
    using set_takeWhileD [of "[0..<n] ! i" "\<lambda>i. \<not> P i" "[0..<n]"] that lt nth_mem [OF that] takeWhile_nth [OF that]
    by simp
qed

lemma ctz_props:
  fixes v :: "'a::len word"
  assumes "v \<noteq> 0"
  shows "ctz v < LENGTH('a)" "bit v (ctz v)" "i < ctz v \<Longrightarrow> \<not> bit v i"
  using takeWhile_upt [OF word_nonzero_bit [OF assms]] unfolding ctz_def by blast+

lemma ctz_unique: "bit v n \<Longrightarrow> (\<And>i. i < n \<Longrightarrow> \<not> bit v i) \<Longrightarrow> ctz v = n" for v :: "'a::len word"
  using ctz_props [of v] by (metis bit_0_eq bot_apply bot_bool_def linorder_neqE_nat)

section \<open>Rounding up to a power of two\<close>

text \<open>\<open>w\<close> has bit \<open>i\<close> set when \<open>x\<close> has one of the \<open>k\<close> bits from \<open>i\<close> on.\<close>

definition smeared :: "'a::len word \<Rightarrow> nat \<Rightarrow> 'a word \<Rightarrow> bool" where
  "smeared x k w \<longleftrightarrow> (\<forall>i. bit w i \<longleftrightarrow> (\<exists>j < k. bit x (i + j)))"

lemma smeared_start: "smeared x 1 x"
  by (simp add: smeared_def)

lemma smeared_step:
  assumes "smeared x k w" "n = k + k"
  shows "smeared x n (w OR drop_bit k w)"
proof -
  have "(\<exists>j < k. P (i + j)) \<or> (\<exists>j < k. P (k + i + j)) \<longleftrightarrow> (\<exists>j < n. P (i + j))" for P and i :: nat
  proof
    assume "\<exists>j < n. P (i + j)"
    then obtain j where j: "j < n" "P (i + j)" by blast
    show "(\<exists>j < k. P (i + j)) \<or> (\<exists>j < k. P (k + i + j))"
    proof (cases "j < k")
      case True
      then show ?thesis using j by blast
    next
      case False
      then have "j - k < k" "k + i + (j - k) = i + j" using j assms(2) by simp_all
      then show ?thesis using j by metis
    qed
  next
    assume "(\<exists>j < k. P (i + j)) \<or> (\<exists>j < k. P (k + i + j))"
    then show "\<exists>j < n. P (i + j)"
    proof (elim disjE exE conjE)
      fix j assume "j < k" "P (k + i + j)"
      then have "k + j < n" "P (i + (k + j))" using assms(2) by (simp_all add: ac_simps)
      then show ?thesis by blast
    next
      fix j assume "j < k" "P (i + j)"
      then show ?thesis using assms(2) by (intro exI [of _ j]) simp
    qed
  qed
  then show ?thesis using assms(1) by (simp add: smeared_def bit_or_iff bit_drop_bit_eq)
qed

lemma smeared_all:
  fixes x :: "'a::len word"
  assumes "smeared x LENGTH('a) w"
  shows "x = 0 \<Longrightarrow> w = 0"
    and "x \<noteq> 0 \<Longrightarrow> \<exists>n < LENGTH('a). w = mask (Suc n) \<and> 2 ^ n \<le> unat x \<and> unat x < 2 ^ Suc n"
proof -
  show "w = 0" if "x = 0" using assms that by (intro bit_word_eqI) (simp add: smeared_def)
  assume "x \<noteq> 0"
  let ?S = "{i. bit x i}"
  have fin: "finite ?S" by (rule finite_subset [of _ "{..<LENGTH('a)}"]) (auto dest: bit_imp_le_length)
  have ne: "?S \<noteq> {}" using word_nonzero_bit [OF \<open>x \<noteq> 0\<close>] by blast
  define n where "n = Max ?S"
  have n: "bit x n" "\<And>i. bit x i \<Longrightarrow> i \<le> n" using Max_in [OF fin ne] Max_ge [OF fin] by (auto simp: n_def)
  have len: "n < LENGTH('a)" using n(1) by (rule bit_imp_le_length)
  have "bit w i \<longleftrightarrow> i < Suc n" for i
  proof
    assume "bit w i"
    then obtain j where "bit x (i + j)" using assms by (auto simp: smeared_def)
    then show "i < Suc n" using n(2) by fastforce
  next
    assume "i < Suc n"
    then show "bit w i" using assms n(1) len unfolding smeared_def
      by (auto intro!: exI [of _ "n - i"])
  qed
  then have w: "w = mask (Suc n)" using len by (intro bit_word_eqI) (simp add: bit_mask_iff)
  have "take_bit (Suc n) x = x" using n(2) by (intro bit_word_eqI) (auto simp: bit_take_bit_iff less_Suc_eq_le)
  then have "unat x = take_bit (Suc n) (unat x)" by (metis unsigned_take_bit_eq)
  then have lt: "unat x < 2 ^ Suc n" by (metis take_bit_nat_less_exp)
  have "bit (unat x) n" using n(1) len by (simp add: bit_unsigned_iff)
  then have "odd (unat x div 2 ^ n)" by (simp add: bit_iff_odd)
  then have "unat x div 2 ^ n \<noteq> 0" by (rule contrapos_pn) simp
  then have "2 ^ n \<le> unat x" by (simp add: div_eq_0_iff)
  then show "\<exists>n < LENGTH('a). w = mask (Suc n) \<and> 2 ^ n \<le> unat x \<and> unat x < 2 ^ Suc n" using w lt len by blast
qed

lemma combine32_smeared: "smeared x 32 (rte_combine32ms1b x)"
  unfolding rte_combine32ms1b_def Let_def
  by (rule smeared_step, rule smeared_step, rule smeared_step, rule smeared_step, rule smeared_step, rule smeared_start) simp_all

lemma combine64_smeared: "smeared x 64 (rte_combine64ms1b x)"
  unfolding rte_combine64ms1b_def Let_def
  by (rule smeared_step, rule smeared_step, rule smeared_step, rule smeared_step, rule smeared_step, rule smeared_step,
      rule smeared_start) simp_all

text \<open>What rounding up means: 0 and everything above the largest power of two that fits becomes 0.\<close>

lemma align_from_smeared:
  fixes x w :: "'a::len word"
  assumes w: "smeared (x - 1) LENGTH('a) w" and x: "x \<noteq> 0"
  shows "\<exists>k. unat x \<le> 2 ^ k \<and> (k = 0 \<or> 2 ^ (k - 1) < unat x) \<and> w + 1 = 2 ^ k"
proof (cases "x = 1")
  case True
  then have "w = 0" using smeared_all(1) [OF w] by simp
  then show ?thesis using True by (intro exI [of _ 0]) simp
next
  case False
  then have "x - 1 \<noteq> 0" by simp
  then obtain n where n: "w = mask (Suc n)" "2 ^ n \<le> unat (x - 1)" "unat (x - 1) < 2 ^ Suc n"
    using smeared_all(2) [OF w] by blast
  have "unat (x - 1) = unat x - 1" using x by (simp add: unat_minus_one)
  moreover have "0 < unat x" using x by (simp add: unat_gt_0)
  ultimately have "unat x \<le> 2 ^ Suc n" "2 ^ n < unat x" using n(2,3) by linarith+
  moreover have "w + 1 = 2 ^ Suc n" using n(1) by (simp add: mask_eq_decr_exp)
  ultimately show ?thesis by (intro exI [of _ "Suc n"]) simp
qed

lemma align32pow2_run:
  assumes "x \<noteq> 0" "unat x \<le> 2 ^ 31"
  shows "\<exists>k \<le> 31. rte_align32pow2 x = 2 ^ k \<and> unat x \<le> 2 ^ k \<and> (k = 0 \<or> 2 ^ (k - 1) < unat x)"
proof -
  obtain k where k: "unat x \<le> 2 ^ k" "k = 0 \<or> 2 ^ (k - 1) < unat x" "rte_align32pow2 x = 2 ^ k"
    using align_from_smeared [of x "rte_combine32ms1b (x - 1)"] combine32_smeared [of "x - 1"] assms(1)
    by (auto simp: rte_align32pow2_def)
  have "k - 1 < 31" if "k \<noteq> 0"
  proof -
    have "(2::nat) ^ (k - 1) < 2 ^ 31" using k(2) assms(2) that by linarith
    then show ?thesis by (rule power_less_imp_less_exp [rotated]) simp
  qed
  then have "k \<le> 31" by linarith
  then show ?thesis using k by blast
qed

text \<open>Rounding a 32-bit value up to a power of two gives the least power of two that is not smaller,
  for every value from 1 to 2^31; 0 and all larger values give 0. The logarithm is the exponent of
  that power, and for the larger values it is the undefined count of zero bits of 0.\<close>

theorem rte_align32pow2_least:
  "if x \<noteq> 0 \<and> unat x \<le> 2 ^ 31 then
     (\<exists>k \<le> 31. unat (rte_align32pow2 x) = 2 ^ k \<and> unat x \<le> 2 ^ k \<and> (k = 0 \<or> 2 ^ (k - 1) < unat x) \<and>
        rte_log2_u32 x = Some (of_nat k))
   else rte_align32pow2 x = 0 \<and> (x = 0 \<and> rte_log2_u32 x = Some 0 \<or> x \<noteq> 0 \<and> rte_log2_u32 x = None)"
proof (cases "x \<noteq> 0 \<and> unat x \<le> 2 ^ 31")
  case True
  then obtain k where k: "k \<le> 31" "rte_align32pow2 x = 2 ^ k" "unat x \<le> 2 ^ k" "k = 0 \<or> 2 ^ (k - 1) < unat x"
    using align32pow2_run by blast
  have "ctz (2 ^ k :: u32) = k" using k(1) by (intro ctz_unique) (auto simp: bit_simps)
  moreover have "(2 ^ k :: u32) \<noteq> 0" using k(1) by simp
  ultimately have "rte_log2_u32 x = Some (of_nat k)"
    using True k(2) by (simp add: rte_log2_u32_def rte_bsf32_def builtin_ctz_def)
  moreover have "unat (2 ^ k :: u32) = 2 ^ k" using unat_pow2 [of k, where 'a = 32] k(1) by simp
  ultimately show ?thesis using True k by auto
next
  case False
  show ?thesis
  proof (cases "x = 0")
    case True
    have "bit (- 1 :: u32) i \<longleftrightarrow> i < 32" for i by (simp add: bit_simps)
    then have "smeared (- 1 :: u32) 32 w \<Longrightarrow> w = - 1" for w
      by (intro bit_word_eqI) (auto simp: smeared_def intro!: exI [of _ 0])
    then have "rte_combine32ms1b (- 1) = - 1" using combine32_smeared by blast
    then show ?thesis using True by (simp add: rte_align32pow2_def rte_log2_u32_def)
  next
    case ne: False
    obtain k where k: "unat x \<le> 2 ^ k" "k = 0 \<or> 2 ^ (k - 1) < unat x" "rte_align32pow2 x = 2 ^ k"
      using align_from_smeared [of x "rte_combine32ms1b (x - 1)"] combine32_smeared [of "x - 1"] ne
      by (auto simp: rte_align32pow2_def)
    have "(2::nat) ^ 31 < 2 ^ k" using False ne k(1) by linarith
    then have "31 < k" by (rule power_less_imp_less_exp [rotated]) simp
    then have "rte_align32pow2 x = 0" using k(3) by (simp add: exp_eq_zero_iff)
    then show ?thesis using False ne by (simp add: rte_log2_u32_def rte_bsf32_def builtin_ctz_def)
  qed
qed

end
