(* ===== verification/Rte_Bitmap.thy ===== *)
theory Rte_Bitmap
  imports Rte_Common "HOL-Library.Monad_Syntax"
begin

text \<open>
  The two-level bitmap of rte\_bitmap.h: \<open>array2\<close> holds the bits in slabs of 64, \<open>array1\<close> one bit for
  each cache line of eight slabs, so that a scan skips empty lines. The memory block of a bitmap is
  its two arrays; \<open>None\<close> is an access outside them or outside the block that was handed in.
\<close>

section \<open>Structure\<close>

record rte_bitmap =
  bm_array1 :: "u64 list"
  bm_array2 :: "u64 list"
  bm_array1_size :: u32
  bm_array2_size :: u32
  bm_index1 :: u32
  bm_offset1 :: u32
  bm_index2 :: u32
  bm_go2 :: u32

definition slab_get :: "u64 list \<Rightarrow> u32 \<Rightarrow> u64 option" where
  "slab_get a i = (if unat i < length a then Some (a ! unat i) else None)"

definition slab_upd :: "(u64 \<Rightarrow> u64) \<Rightarrow> u32 \<Rightarrow> u64 list \<Rightarrow> u64 list option" where
  "slab_upd f i a = (if unat i < length a then Some (a[unat i := f (a ! unat i)]) else None)"

definition bitmap_index1_inc :: "rte_bitmap \<Rightarrow> rte_bitmap" where
  "bitmap_index1_inc b = b\<lparr>bm_index1 := (bm_index1 b + 1) AND (bm_array1_size b - 1)\<rparr>"

definition bitmap_mask1_get :: "rte_bitmap \<Rightarrow> u64" where
  "bitmap_mask1_get b = push_bit (unat (bm_offset1 b)) (NOT 1)"

definition bitmap_index2_set :: "rte_bitmap \<Rightarrow> rte_bitmap" where
  "bitmap_index2_set b = b\<lparr>bm_index2 := push_bit 3 (push_bit 6 (bm_index1 b) + bm_offset1 b)\<rparr>"

section \<open>Memory and initialisation\<close>

text \<open>The size of the block in bytes, the offset and number of slabs of each array. The structure itself
  takes 40 bytes.\<close>

record footprint =
  fp_total :: u32
  fp_array1_offset :: u32
  fp_array1_slabs :: u32
  fp_array2_offset :: u32
  fp_array2_slabs :: u32

definition bitmap_footprint :: "u32 \<Rightarrow> footprint" where
  "bitmap_footprint n_bits =
     (let n_cache_lines_array2 = (n_bits + 512 - 1) div 512;
          n_slabs_array1 = rte_align32pow2 ((n_cache_lines_array2 + 64 - 1) div 64);
          n_slabs_context = (40 + 64 div 8 - 1) div (64 div 8);
          n_cache_lines_context_and_array1 = (n_slabs_context + n_slabs_array1 + 8 - 1) div 8
      in \<lparr>fp_total = (n_cache_lines_context_and_array1 + n_cache_lines_array2) * 64,
          fp_array1_offset = n_slabs_context * (64 div 8), fp_array1_slabs = n_slabs_array1,
          fp_array2_offset = n_cache_lines_context_and_array1 * 64, fp_array2_slabs = n_cache_lines_array2 * 8\<rparr>)"

definition rte_bitmap_get_memory_footprint :: "u32 \<Rightarrow> u32" where
  "rte_bitmap_get_memory_footprint n_bits = (if n_bits = 0 then 0 else fp_total (bitmap_footprint n_bits))"

definition bitmap_scan_init :: "rte_bitmap \<Rightarrow> rte_bitmap" where
  "bitmap_scan_init b =
     (let b = bitmap_index2_set (b\<lparr>bm_index1 := bm_array1_size b - 1, bm_offset1 := 64 - 1\<rparr>)
      in b\<lparr>bm_index2 := bm_index2 b + 8, bm_go2 := 0\<rparr>)"

text \<open>The bitmap laid out in a fresh block, every slab of it the given word.\<close>

definition bitmap_layout :: "footprint \<Rightarrow> u64 \<Rightarrow> rte_bitmap" where
  "bitmap_layout fp v = \<lparr>bm_array1 = replicate (unat (fp_array1_slabs fp)) v,
     bm_array2 = replicate (unat (fp_array2_slabs fp)) v, bm_array1_size = fp_array1_slabs fp,
     bm_array2_size = fp_array2_slabs fp, bm_index1 = 0, bm_offset1 = 0, bm_index2 = 0, bm_go2 = 0\<rparr>"

text \<open>The result \<open>None\<close> is the null pointer.\<close>

definition rte_bitmap_init :: "u32 \<Rightarrow> u64 \<Rightarrow> u32 \<Rightarrow> rte_bitmap option" where
  "rte_bitmap_init n_bits mem mem_size =
     (if n_bits = 0 then None
      else if mem = 0 \<or> mem AND 63 \<noteq> 0 then None
      else (let fp = bitmap_footprint n_bits in
        if fp_total fp > mem_size then None
        else Some (bitmap_scan_init (bitmap_layout fp 0))))"

definition bitmap_clear_slab_overhead_bits :: "u64 list \<Rightarrow> u32 \<Rightarrow> u32 \<Rightarrow> u64 list option" where
  "bitmap_clear_slab_overhead_bits slabs slab_size pos =
     (let index = pos div 64; offset = pos AND 63 in do {
        (slabs, index) \<leftarrow>
          (if offset \<noteq> 0 then do {
             slabs \<leftarrow> slab_upd (\<lambda>w. fold (\<lambda>i w. w AND NOT (push_bit i 1)) [unat offset..<64] w) index slabs;
             Some (slabs, index + 1)
           } else Some (slabs, index));
        Some (if index < slab_size
              then take (unat index) slabs @ replicate (unat (slab_size - index)) 0 @ drop (unat slab_size) slabs
              else slabs)
      })"

text \<open>The outer \<open>None\<close> is a write behind the end of the block: the size check has the opposite
  direction of the one above.\<close>

definition rte_bitmap_init_with_all_set :: "u32 \<Rightarrow> u64 \<Rightarrow> u32 \<Rightarrow> rte_bitmap option option" where
  "rte_bitmap_init_with_all_set n_bits mem mem_size =
     (if n_bits = 0 \<or> mem = 0 \<or> mem AND 63 \<noteq> 0 then Some None
      else (let fp = bitmap_footprint n_bits in
        if fp_total fp < mem_size then Some None
        else if mem_size < fp_total fp then None
        else do {
          let b = bitmap_scan_init (bitmap_layout fp (- 1));
          a1 \<leftarrow> bitmap_clear_slab_overhead_bits (bm_array1 b) (bm_array1_size b) (drop_bit 3 (bm_array2_size b));
          a2 \<leftarrow> bitmap_clear_slab_overhead_bits (bm_array2 b) (bm_array2_size b) n_bits;
          Some (Some (b\<lparr>bm_array1 := a1, bm_array2 := a2\<rparr>))
        }))"

definition rte_bitmap_free :: "rte_bitmap option \<Rightarrow> int" where
  "rte_bitmap_free bmp = (case bmp of None \<Rightarrow> - 1 | Some _ \<Rightarrow> 0)"

definition rte_bitmap_reset :: "rte_bitmap \<Rightarrow> rte_bitmap" where
  "rte_bitmap_reset b = bitmap_scan_init
     (b\<lparr>bm_array1 := replicate (unat (bm_array1_size b)) 0, bm_array2 := replicate (unat (bm_array2_size b)) 0\<rparr>)"

section \<open>Single bits\<close>

definition rte_bitmap_get :: "rte_bitmap \<Rightarrow> u32 \<Rightarrow> u64 option" where
  "rte_bitmap_get b pos = do {
     let offset2 = pos AND 63;
     slab2 \<leftarrow> slab_get (bm_array2 b) (drop_bit 6 pos);
     Some (slab2 AND push_bit (unat offset2) 1)
   }"

definition rte_bitmap_set :: "rte_bitmap \<Rightarrow> u32 \<Rightarrow> rte_bitmap option" where
  "rte_bitmap_set b pos = do {
     let index2 = drop_bit 6 pos;
     let offset2 = pos AND 63;
     let index1 = drop_bit (6 + 9) pos;
     let offset1 = drop_bit 9 pos AND 63;
     a2 \<leftarrow> slab_upd (\<lambda>w. w OR push_bit (unat offset2) 1) index2 (bm_array2 b);
     a1 \<leftarrow> slab_upd (\<lambda>w. w OR push_bit (unat offset1) 1) index1 (bm_array1 b);
     Some (b\<lparr>bm_array1 := a1, bm_array2 := a2\<rparr>)
   }"

definition rte_bitmap_set_slab :: "rte_bitmap \<Rightarrow> u32 \<Rightarrow> u64 \<Rightarrow> rte_bitmap option" where
  "rte_bitmap_set_slab b pos slab = do {
     let index2 = drop_bit 6 pos;
     let index1 = drop_bit (6 + 9) pos;
     let offset1 = drop_bit 9 pos AND 63;
     a2 \<leftarrow> slab_upd (\<lambda>w. w OR slab) index2 (bm_array2 b);
     a1 \<leftarrow> slab_upd (\<lambda>w. w OR push_bit (unat offset1) 1) index1 (bm_array1 b);
     Some (b\<lparr>bm_array1 := a1, bm_array2 := a2\<rparr>)
   }"

text \<open>The eight slabs of a line or-ed together, from the slab with the given index on.\<close>

definition bitmap_line_not_empty :: "u64 list \<Rightarrow> u32 \<Rightarrow> u64 option" where
  "bitmap_line_not_empty a i = do {
     s0 \<leftarrow> slab_get a i; s1 \<leftarrow> slab_get a (i + 1); s2 \<leftarrow> slab_get a (i + 2); s3 \<leftarrow> slab_get a (i + 3);
     s4 \<leftarrow> slab_get a (i + 4); s5 \<leftarrow> slab_get a (i + 5); s6 \<leftarrow> slab_get a (i + 6); s7 \<leftarrow> slab_get a (i + 7);
     let v1 = s0 OR s1; let v2 = s2 OR s3; let v3 = s4 OR s5; let v4 = s6 OR s7;
     let v1 = v1 OR v2; let v3 = v3 OR v4;
     Some (v1 OR v3)
   }"

definition rte_bitmap_clear :: "rte_bitmap \<Rightarrow> u32 \<Rightarrow> rte_bitmap option" where
  "rte_bitmap_clear b pos = do {
     let index2 = drop_bit 6 pos;
     let offset2 = pos AND 63;
     a2 \<leftarrow> slab_upd (\<lambda>w. w AND NOT (push_bit (unat offset2) 1)) index2 (bm_array2 b);
     slab2 \<leftarrow> slab_get a2 index2;
     if slab2 \<noteq> 0 then Some (b\<lparr>bm_array2 := a2\<rparr>)
     else do {
       line \<leftarrow> bitmap_line_not_empty a2 (index2 AND NOT 7);
       if line \<noteq> 0 then Some (b\<lparr>bm_array2 := a2\<rparr>)
       else do {
         let index1 = drop_bit (6 + 9) pos;
         let offset1 = drop_bit 9 pos AND 63;
         a1 \<leftarrow> slab_upd (\<lambda>w. w AND NOT (push_bit (unat offset1) 1)) index1 (bm_array1 b);
         Some (b\<lparr>bm_array1 := a1, bm_array2 := a2\<rparr>)
       }
     }
   }"

section \<open>Scanning\<close>

text \<open>The loop of the search with \<open>n\<close> rounds to go.\<close>

fun bitmap_search_loop :: "nat \<Rightarrow> rte_bitmap \<Rightarrow> (bool \<times> rte_bitmap) option" where
  "bitmap_search_loop 0 b = Some (False, b)"
| "bitmap_search_loop (Suc n) b = do {
     value1 \<leftarrow> slab_get (bm_array1 b) (bm_index1 b);
     case rte_bsf64_safe value1 (bm_offset1 b) of
       (True, pos) \<Rightarrow> Some (True, b\<lparr>bm_offset1 := pos\<rparr>)
     | (False, _) \<Rightarrow> bitmap_search_loop n (bitmap_index1_inc b)
   }"

definition bitmap_scan_search :: "rte_bitmap \<Rightarrow> (bool \<times> rte_bitmap) option" where
  "bitmap_scan_search b = do {
     value1 \<leftarrow> slab_get (bm_array1 b) (bm_index1 b);
     case rte_bsf64_safe (value1 AND bitmap_mask1_get b) (bm_offset1 b) of
       (True, pos) \<Rightarrow> Some (True, b\<lparr>bm_offset1 := pos\<rparr>)
     | (False, _) \<Rightarrow>
         (let b = (bitmap_index1_inc b)\<lparr>bm_offset1 := 0\<rparr> in bitmap_search_loop (unat (bm_array1_size b)) b)
   }"

definition bitmap_scan_read_init :: "rte_bitmap \<Rightarrow> rte_bitmap" where
  "bitmap_scan_read_init b = (bitmap_index2_set b)\<lparr>bm_go2 := 1\<rparr>"

text \<open>Reading on in the current line: the position and slab that are written, if any.\<close>

function bitmap_scan_read :: "rte_bitmap \<Rightarrow> ((u32 \<times> u64) option \<times> rte_bitmap) option" where
  "bitmap_scan_read b =
     (if bm_go2 b = 0 then Some (None, b)
      else do {
        slab2 \<leftarrow> slab_get (bm_array2 b) (bm_index2 b);
        let b' = b\<lparr>bm_index2 := bm_index2 b + 1, bm_go2 := (bm_index2 b + 1) AND 7\<rparr>;
        if slab2 \<noteq> 0 then Some (Some (push_bit 6 (bm_index2 b), slab2), b')
        else bitmap_scan_read b'
      })"
  by auto

lemma line_left:
  fixes i :: u32
  assumes "(i + 1) AND 7 \<noteq> 0"
  shows "unat ((i + 1) AND 7) = Suc (unat (i AND 7))"
proof -
  have m: "(7 :: u32) = mask 3" by (simp add: mask_eq_decr_exp)
  have u: "unat ((i + 1) AND 7) = Suc (unat i) mod 8" "unat (i AND 7) = unat i mod 8"
    unfolding m unat_and_mask by (simp_all add: unat_word_ariths mod_mod_cancel)
  have "Suc (unat i) mod 8 \<noteq> 0" using assms u(1) by (metis unat_eq_zero)
  then show ?thesis unfolding u by (simp add: mod_Suc split: if_splits)
qed

termination bitmap_scan_read
proof (relation "measure (\<lambda>b. if bm_go2 b = 0 then 0 else 8 - unat (bm_index2 b AND 7))")
  fix b :: rte_bitmap and slab2 b'
  assume "bm_go2 b \<noteq> 0" "b' = b\<lparr>bm_index2 := bm_index2 b + 1, bm_go2 := (bm_index2 b + 1) AND 7\<rparr>"
  moreover have "unat (bm_index2 b AND 7) < 8"
  proof -
    have m: "(7 :: u32) = mask 3" by (simp add: mask_eq_decr_exp)
    show ?thesis unfolding m unat_and_mask by simp
  qed
  ultimately show "(b', b) \<in> measure (\<lambda>b. if bm_go2 b = 0 then 0 else 8 - unat (bm_index2 b AND 7))"
    using line_left [of "bm_index2 b"] by auto
qed simp

declare bitmap_scan_read.simps [simp del]

text \<open>The return value, what is written to the result arguments, and the bitmap.\<close>

definition rte_bitmap_scan :: "rte_bitmap \<Rightarrow> (int \<times> (u32 \<times> u64) option \<times> rte_bitmap) option" where
  "rte_bitmap_scan b = do {
     (out, b) \<leftarrow> bitmap_scan_read b;
     if out \<noteq> None then Some (1, out, b)
     else do {
       (found, b) \<leftarrow> bitmap_scan_search b;
       if found then do {
         (out, b) \<leftarrow> bitmap_scan_read (bitmap_scan_read_init b);
         Some (1, out, b)
       } else Some (0, None, b)
     }
   }"

end
