(* ===== verification/Rte_Bitmap_Correct.thy ===== *)
theory Rte_Bitmap_Correct
  imports Rte_Bitmap
begin

text \<open>
  The bitmap as a set of positions: the invariant that ties its two levels together, what the
  operations on single bits and the initialisations do to the set, and the scan, which visits
  every non-empty slab in cyclic order and forgets none.
\<close>

section \<open>Invariant and abstraction\<close>

definition slab_at :: "u64 list \<Rightarrow> nat \<Rightarrow> u64" where
  "slab_at a i = (if i < length a then a ! i else 0)"

definition line_used :: "u64 list \<Rightarrow> nat \<Rightarrow> bool" where
  "line_used a l \<longleftrightarrow> (\<exists>j < 8. slab_at a (8 * l + j) \<noteq> 0)"

text \<open>Bit \<open>l\<close> of the first level says whether line \<open>l\<close> of the second is in use.\<close>

definition levels_agree :: "u64 list \<Rightarrow> u64 list \<Rightarrow> bool" where
  "levels_agree a1 a2 \<longleftrightarrow> (\<forall>l < 64 * length a1. bit (a1 ! (l div 64)) (l mod 64) = line_used a2 l)"

definition scan_line :: "rte_bitmap \<Rightarrow> nat" where
  "scan_line b = 64 * unat (bm_index1 b) + unat (bm_offset1 b)"

definition bitmap_wf :: "rte_bitmap \<Rightarrow> bool" where
  "bitmap_wf b \<longleftrightarrow> (\<exists>k \<le> 17. bm_array1_size b = 2 ^ k) \<and>
     length (bm_array1 b) = unat (bm_array1_size b) \<and> length (bm_array2 b) = unat (bm_array2_size b) \<and>
     8 dvd unat (bm_array2_size b) \<and> length (bm_array2 b) \<le> 512 * length (bm_array1 b) \<and>
     levels_agree (bm_array1 b) (bm_array2 b) \<and>
     unat (bm_index1 b) < length (bm_array1 b) \<and> unat (bm_offset1 b) < 64 \<and>
     (bm_go2 b \<noteq> 0 \<longrightarrow> unat (bm_index2 b) < length (bm_array2 b) \<and> unat (bm_index2 b) div 8 = scan_line b)"

definition bitmap_bits :: "rte_bitmap \<Rightarrow> nat set" where
  "bitmap_bits b = {p. p < 64 * length (bm_array2 b) \<and> bit (bm_array2 b ! (p div 64)) (p mod 64)}"

lemma bitmap_wfD:
  assumes "bitmap_wf b"
  shows "length (bm_array1 b) \<le> 2 ^ 17" "length (bm_array2 b) \<le> 2 ^ 26" "0 < length (bm_array1 b)"
    "length (bm_array1 b) = unat (bm_array1_size b)" "length (bm_array2 b) = unat (bm_array2_size b)"
    "8 dvd length (bm_array2 b)" "length (bm_array2 b) \<le> 512 * length (bm_array1 b)"
    "levels_agree (bm_array1 b) (bm_array2 b)"
    "unat (bm_index1 b) < length (bm_array1 b)" "unat (bm_offset1 b) < 64"
    "bm_go2 b \<noteq> 0 \<Longrightarrow> unat (bm_index2 b) < length (bm_array2 b) \<and> unat (bm_index2 b) div 8 = scan_line b"
proof -
  obtain k where k: "k \<le> 17" "bm_array1_size b = 2 ^ k" using assms by (auto simp: bitmap_wf_def)
  have "unat (bm_array1_size b) = 2 ^ k" using unat_pow2 [of k, where 'a = 32] k by simp
  moreover have "(2 :: nat) ^ k \<le> 2 ^ 17" using k(1) by (intro power_increasing) simp_all
  ultimately show "length (bm_array1 b) \<le> 2 ^ 17" "0 < length (bm_array1 b)" using assms by (simp_all add: bitmap_wf_def)
  then show "length (bm_array2 b) \<le> 2 ^ 26" using assms by (simp add: bitmap_wf_def)
qed (use assms in \<open>auto simp: bitmap_wf_def\<close>)

lemma bitmap_wf_index1_mask:
  assumes "bitmap_wf b"
  shows "unat ((i + 1) AND (bm_array1_size b - 1)) = Suc (unat i) mod length (bm_array1 b)"
proof -
  obtain k where k: "k \<le> 17" "bm_array1_size b = 2 ^ k" using assms by (auto simp: bitmap_wf_def)
  have "length (bm_array1 b) = 2 ^ k" using assms unat_pow2 [of k, where 'a = 32] k by (simp add: bitmap_wf_def)
  moreover have "unat ((i + 1) AND mask k) = (unat i + unat (1 :: u32)) mod 2 ^ k"
    unfolding unat_and_mask using k(1) by (subst unat_add_mod_pow2) simp_all
  ultimately show ?thesis using k(2) by (simp add: mask_eq_decr_exp)
qed

section \<open>Positions\<close>

lemma word63: "unat (x AND 63) = unat x mod 64" for x :: u32
proof -
  have m: "(63 :: u32) = mask 6" by (simp add: mask_eq_decr_exp)
  show ?thesis unfolding m unat_and_mask by simp
qed

lemma word7: "unat (x AND 7) = unat x mod 8" for x :: u32
proof -
  have m: "(7 :: u32) = mask 3" by (simp add: mask_eq_decr_exp)
  show ?thesis unfolding m unat_and_mask by simp
qed

lemma word_line: "unat (x AND NOT 7) = unat x - unat x mod 8" for x :: u32
proof -
  have "unat (x AND NOT 7) = unat x - unat (x AND 7)" by (rule word_block_split(2))
  then show ?thesis by (simp add: word7)
qed

lemma pos_parts:
  fixes pos :: u32
  shows "unat (drop_bit 6 pos) = unat pos div 64" "unat (pos AND 63) = unat pos mod 64"
    "unat (drop_bit 15 pos) = unat pos div 512 div 64" "unat (drop_bit 9 pos AND 63) = unat pos div 512 mod 64"
    "unat (drop_bit 9 pos) = unat pos div 512"
  by (simp_all add: word63 drop_bit_eq_div unat_div div_mult2_eq [symmetric])

lemma bit_flag: "i < 64 \<Longrightarrow> bit (2 ^ q :: u64) i \<longleftrightarrow> i = q"
  by (auto simp: bit_simps)

text \<open>Changing one slab changes the line it is in.\<close>

lemma slab_at_update: "slab_at (a[i := w]) j = (if j = i \<and> i < length a then w else slab_at a j)"
  by (auto simp: slab_at_def)

lemma line_used_update:
  assumes "i < length a"
  shows "line_used (a[i := w]) l \<longleftrightarrow>
    (if l = i div 8 then w \<noteq> 0 \<or> (\<exists>j < 8. 8 * l + j \<noteq> i \<and> slab_at a (8 * l + j) \<noteq> 0) else line_used a l)"
proof (cases "l = i div 8")
  case True
  have "i = 8 * l + i mod 8" using True by simp
  moreover have "i mod 8 < 8" by simp
  ultimately show ?thesis using assms True unfolding line_used_def slab_at_update by metis
next
  case False
  then have "8 * l + j \<noteq> i" if "j < 8" for j using that by auto
  then show ?thesis using False by (simp add: line_used_def slab_at_update cong: conj_cong)
qed

lemma levels_agree_update:
  assumes "levels_agree a1 a2" "l0 < 64 * length a1"
    and "\<And>l. line_used a2' l = (if l = l0 then v else line_used a2 l)"
    and "\<And>q. q < 64 \<Longrightarrow> bit w q = (if q = l0 mod 64 then v else bit (a1 ! (l0 div 64)) q)"
  shows "levels_agree (a1[l0 div 64 := w]) a2'"
  unfolding levels_agree_def
proof (intro allI impI)
  fix l assume l: "l < 64 * length (a1[l0 div 64 := w])"
  then have in_range: "l div 64 < length a1" by (simp add: less_mult_imp_div_less mult.commute)
  have "l = l0 \<longleftrightarrow> l div 64 = l0 div 64 \<and> l mod 64 = l0 mod 64" by (metis div_mult_mod_eq)
  then show "bit (a1[l0 div 64 := w] ! (l div 64)) (l mod 64) = line_used a2' l"
    using assms l in_range by (auto simp: levels_agree_def nth_list_update)
qed

lemma bits_update:
  assumes "i < length (bm_array2 b)"
  shows "bitmap_bits (b\<lparr>bm_array2 := (bm_array2 b)[i := w]\<rparr>) =
    {p. p < 64 * length (bm_array2 b) \<and> (if p div 64 = i then bit w (p mod 64) else p \<in> bitmap_bits b)}"
  using assms by (auto simp: bitmap_bits_def nth_list_update)

lemma div64_eq: "p div 64 = q div 64 \<Longrightarrow> p mod 64 = q mod 64 \<longleftrightarrow> p = q" for p q :: nat
  by (metis div_mult_mod_eq)

section \<open>Single bits\<close>

lemma bitmap_range:
  assumes "bitmap_wf b" "unat pos < 64 * length (bm_array2 b)"
  shows "unat pos div 64 < length (bm_array2 b)" "unat pos div 512 div 64 < length (bm_array1 b)"
    "unat pos div 512 < 64 * length (bm_array1 b)"
  using assms bitmap_wfD(7) [OF assms(1)] by auto

lemma get_spec:
  assumes "bitmap_wf b" "unat pos < 64 * length (bm_array2 b)"
  shows "\<exists>v. rte_bitmap_get b pos = Some v \<and> (v \<noteq> 0 \<longleftrightarrow> unat pos \<in> bitmap_bits b)"
proof -
  let ?w = "bm_array2 b ! (unat pos div 64)"
  have "?w AND push_bit (unat pos mod 64) 1 \<noteq> 0 \<longleftrightarrow> bit ?w (unat pos mod 64)"
    by (simp add: and_exp_eq_0_iff_not_bit)
  then show ?thesis using assms bitmap_range [OF assms]
    by (simp add: rte_bitmap_get_def slab_get_def pos_parts bitmap_bits_def Let_def)
qed

lemma wf_update:
  assumes "bitmap_wf b" "levels_agree a1 a2" "length a1 = length (bm_array1 b)" "length a2 = length (bm_array2 b)"
  shows "bitmap_wf (b\<lparr>bm_array1 := a1, bm_array2 := a2\<rparr>)"
proof -
  have "\<exists>k \<le> 17. bm_array1_size b = 2 ^ k" using assms(1) by (simp add: bitmap_wf_def)
  then show ?thesis using bitmap_wfD [OF assms(1)] assms(2-4) unfolding bitmap_wf_def scan_line_def by auto
qed

lemma set_spec:
  assumes "bitmap_wf b" "unat pos < 64 * length (bm_array2 b)"
  shows "\<exists>b'. rte_bitmap_set b pos = Some b' \<and> bitmap_wf b' \<and> bitmap_bits b' = insert (unat pos) (bitmap_bits b) \<and>
    length (bm_array2 b') = length (bm_array2 b)"
proof -
  let ?i = "unat pos div 64" and ?l = "unat pos div 512"
  note r = bitmap_range [OF assms]
  define w where "w = bm_array2 b ! ?i OR push_bit (unat pos mod 64) 1"
  define v where "v = bm_array1 b ! (?l div 64) OR push_bit (?l mod 64) 1"
  define a1 where "a1 = (bm_array1 b)[?l div 64 := v]"
  define a2 where "a2 = (bm_array2 b)[?i := w]"
  have "bit w (unat pos mod 64)" by (simp add: w_def bit_simps)
  then have "w \<noteq> 0" by auto
  then have used: "line_used a2 l = (if l = ?l then True else line_used (bm_array2 b) l)" for l
    using line_used_update [OF r(1), of w l] by (simp add: a2_def div_mult2_eq [symmetric])
  have "levels_agree a1 a2" unfolding a1_def
    by (rule levels_agree_update [OF bitmap_wfD(8) [OF assms(1)] r(3) used]) (auto simp: v_def bit_or_iff bit_flag)
  then have wf: "bitmap_wf (b\<lparr>bm_array1 := a1, bm_array2 := a2\<rparr>)"
    by (rule wf_update [OF assms(1)]) (simp_all add: a1_def a2_def)
  have "bitmap_bits (b\<lparr>bm_array2 := a2\<rparr>) = insert (unat pos) (bitmap_bits b)"
    unfolding a2_def bits_update [OF r(1)] using assms(2)
    by (auto simp: w_def bit_or_iff bit_flag div64_eq bitmap_bits_def)
  then have bits: "bitmap_bits (b\<lparr>bm_array1 := a1, bm_array2 := a2\<rparr>) = insert (unat pos) (bitmap_bits b)"
    by (simp add: bitmap_bits_def)
  have "rte_bitmap_set b pos = Some (b\<lparr>bm_array1 := a1, bm_array2 := a2\<rparr>)"
    using r by (simp add: rte_bitmap_set_def slab_upd_def pos_parts Let_def a1_def a2_def v_def w_def)
  then show ?thesis using wf bits by (simp add: a2_def)
qed

lemma line_not_empty_spec:
  assumes "8 dvd length a" "i < length a" "length a \<le> 2 ^ 26" "unat x = i - i mod 8"
  shows "\<exists>v. bitmap_line_not_empty a x = Some v \<and> (v \<noteq> 0 \<longleftrightarrow> line_used a (i div 8))"
proof -
  let ?l = "i div 8"
  have x: "unat x = 8 * ?l" using assms(4) by (simp add: minus_mod_eq_mult_div)
  have fits: "8 * ?l + 8 \<le> length a"
  proof -
    obtain n where n: "length a = 8 * n" using assms(1) by blast
    then have "?l < n" using assms(2) by (simp add: less_mult_imp_div_less mult.commute)
    then show ?thesis using n by linarith
  qed
  have u: "unat (x + of_nat j) = 8 * ?l + j" if "j < 8" for j
  proof -
    have "unat (of_nat j :: u32) = j" using that by (simp add: unat_of_nat)
    then show ?thesis using x fits assms(3) that by (subst unat_add_lt) simp_all
  qed
  have g: "slab_get a (x + of_nat j) = Some (slab_at a (8 * ?l + j))" if "j < 8" for j
    using u [OF that] fits that by (simp add: slab_get_def slab_at_def)
  have or0: "v OR w = 0 \<longleftrightarrow> v = 0 \<and> w = 0" for v w :: u64
    by (metis or_eq_0_iff)
  have e: "j < 8 \<longleftrightarrow> j \<in> {0,1,2,3,4,5,6,7}" for j :: nat by auto
  have "line_used a ?l \<longleftrightarrow> (\<exists>j \<in> {0,1,2,3,4,5,6,7}. slab_at a (8 * ?l + j) \<noteq> 0)"
    unfolding line_used_def Bex_def e ..
  then show ?thesis
    using g [of 0] g [of 1] g [of 2] g [of 3] g [of 4] g [of 5] g [of 6] g [of 7]
    by (simp add: bitmap_line_not_empty_def Let_def or0)
qed

lemma clear_spec:
  assumes "bitmap_wf b" "unat pos < 64 * length (bm_array2 b)"
  shows "\<exists>b'. rte_bitmap_clear b pos = Some b' \<and> bitmap_wf b' \<and> bitmap_bits b' = bitmap_bits b - {unat pos} \<and>
    length (bm_array2 b') = length (bm_array2 b)"
proof -
  let ?i = "unat pos div 64" and ?l = "unat pos div 512"
  note r = bitmap_range [OF assms]
  have il: "?i div 8 = ?l" by (simp add: div_mult2_eq [symmetric])
  define w where "w = bm_array2 b ! ?i AND NOT (push_bit (unat pos mod 64) 1)"
  define v where "v = bm_array1 b ! (?l div 64) AND NOT (push_bit (?l mod 64) 1)"
  define a2 where "a2 = (bm_array2 b)[?i := w]"
  define a1 where "a1 = (if line_used a2 ?l then bm_array1 b else (bm_array1 b)[?l div 64 := v])"
  have a2: "length a2 = length (bm_array2 b)" "slab_get a2 (drop_bit 6 pos) = Some w"
    "slab_upd (\<lambda>w. w AND NOT (push_bit (unat (pos AND 63)) 1)) (drop_bit 6 pos) (bm_array2 b) = Some a2"
    using r(1) by (simp_all add: a2_def slab_get_def slab_upd_def pos_parts w_def)
  have used_w: "w \<noteq> 0 \<Longrightarrow> line_used a2 ?l"
    using line_used_update [OF r(1), of w ?l] by (simp add: a2_def il)
  have used: "line_used a2 l = (if l = ?l then line_used a2 ?l else line_used (bm_array2 b) l)" for l
    using line_used_update [OF r(1), of w l] by (cases "l = ?l") (simp_all add: a2_def il)
  have "levels_agree a1 a2"
  proof (cases "line_used a2 ?l")
    case True
    have "line_used (bm_array2 b) ?l"
    proof (cases "bm_array2 b ! ?i = 0")
      case True
      then have "w = 0" by (simp add: w_def)
      then have "a2 = bm_array2 b" using True by (metis a2_def list_update_id)
      then show ?thesis using \<open>line_used a2 ?l\<close> by simp
    next
      case False
      have "slab_at (bm_array2 b) (8 * ?l + ?i mod 8) \<noteq> 0" using False r(1) il by (metis slab_at_def mult_div_mod_eq)
      then show ?thesis by (auto simp: line_used_def intro!: exI [of _ "?i mod 8"])
    qed
    then have "line_used a2 l = line_used (bm_array2 b) l" for l using used [of l] True by simp
    then show ?thesis using bitmap_wfD(8) [OF assms(1)] True by (simp add: a1_def levels_agree_def)
  next
    case False
    then have a1: "a1 = (bm_array1 b)[?l div 64 := v]" by (simp add: a1_def)
    have used': "line_used a2 l = (if l = ?l then False else line_used (bm_array2 b) l)" for l using used [of l] False by simp
    show ?thesis unfolding a1
      by (rule levels_agree_update [OF bitmap_wfD(8) [OF assms(1)] r(3) used'])
        (auto simp: v_def bit_and_iff bit_not_iff bit_flag)
  qed
  then have wf: "bitmap_wf (b\<lparr>bm_array1 := a1, bm_array2 := a2\<rparr>)"
    by (rule wf_update [OF assms(1)]) (simp_all add: a1_def a2(1))
  have "bitmap_bits (b\<lparr>bm_array2 := a2\<rparr>) = bitmap_bits b - {unat pos}"
    unfolding a2_def bits_update [OF r(1)] using assms(2)
    by (auto simp: w_def bit_and_iff bit_not_iff bit_flag div64_eq bitmap_bits_def)
  then have bits: "bitmap_bits (b\<lparr>bm_array1 := a1, bm_array2 := a2\<rparr>) = bitmap_bits b - {unat pos}"
    by (simp add: bitmap_bits_def)
  have line: "unat (drop_bit 6 pos AND NOT 7) = ?i - ?i mod 8" by (simp only: word_line pos_parts)
  have bounds: "8 dvd length a2" "?i < length a2" "length a2 \<le> 2 ^ 26" using bitmap_wfD [OF assms(1)] r(1) a2(1) by simp_all
  obtain u where u: "bitmap_line_not_empty a2 (drop_bit 6 pos AND NOT 7) = Some u" "u \<noteq> 0 \<longleftrightarrow> line_used a2 ?l"
    using line_not_empty_spec [OF bounds line] il by auto
  have upd: "slab_upd (\<lambda>w. w AND NOT (push_bit (unat (drop_bit 9 pos AND 63)) 1)) (drop_bit (6 + 9) pos) (bm_array1 b) =
      Some ((bm_array1 b)[?l div 64 := v])"
    using r(2) by (simp add: slab_upd_def pos_parts v_def)
  have run: "rte_bitmap_clear b pos = (if w \<noteq> 0 then Some (b\<lparr>bm_array2 := a2\<rparr>)
      else if u \<noteq> 0 then Some (b\<lparr>bm_array2 := a2\<rparr>)
      else Some (b\<lparr>bm_array1 := (bm_array1 b)[?l div 64 := v], bm_array2 := a2\<rparr>))"
    by (simp only: rte_bitmap_clear_def Let_def a2(2,3) u(1) upd Option.bind.bind_lunit)
  have "rte_bitmap_clear b pos = Some (b\<lparr>bm_array1 := a1, bm_array2 := a2\<rparr>)"
  proof (cases "line_used a2 ?l")
    case True
    then have "a1 = bm_array1 b" by (simp add: a1_def)
    then show ?thesis using True u(2) run by simp
  next
    case False
    then have "w = 0" "u = 0" "a1 = (bm_array1 b)[?l div 64 := v]" using used_w u(2) by (auto simp: a1_def)
    then show ?thesis using run by simp
  qed
  then show ?thesis using wf bits a2(1) by simp
qed

section \<open>First hits in lists\<close>

lemma find_append: "find P (xs @ ys) = (case find P xs of None \<Rightarrow> find P ys | Some x \<Rightarrow> Some x)"
  by (induction xs) auto

lemma find_cong_set: "(\<And>x. x \<in> set xs \<Longrightarrow> P x = Q x) \<Longrightarrow> find P xs = find Q xs"
  by (induction xs) auto

lemma find_concat:
  assumes "\<And>l. l \<in> set ls \<Longrightarrow> Q l \<longleftrightarrow> find P (f l) \<noteq> None"
  shows "find P (concat (map f ls)) = (case find Q ls of None \<Rightarrow> None | Some l \<Rightarrow> find P (f l))"
  using assms by (induction ls) (auto simp: find_append split: option.splits)

lemma upt_split: "a \<le> b \<Longrightarrow> b \<le> c \<Longrightarrow> [a..<c] = [a..<b] @ [b..<c]"
  using upt_add_eq_append [of a b "c - b"] by simp

lemma block_index: "k * w \<le> l \<Longrightarrow> l < k * w + k \<Longrightarrow> l div k = w \<and> l mod k = l - k * w" for k :: nat
proof -
  assume a: "k * w \<le> l" "l < k * w + k"
  then obtain r where "l = k * w + r" "r < k" using le_iff_add by auto
  then show ?thesis by simp
qed

lemma find_upt_Some:
  "a \<le> x \<Longrightarrow> x < b \<Longrightarrow> P x \<Longrightarrow> (\<And>y. a \<le> y \<Longrightarrow> y < x \<Longrightarrow> \<not> P y) \<Longrightarrow> find P [a..<b] = Some x"
proof -
  assume a: "a \<le> x" "x < b" "P x" "\<And>y. a \<le> y \<Longrightarrow> y < x \<Longrightarrow> \<not> P y"
  then have "[a..<b] = [a..<x] @ x # [Suc x..<b]" using upt_split [of a x b] by (simp add: upt_conv_Cons)
  moreover have "find P [a..<x] = None" using a(4) by (simp add: find_None_iff)
  ultimately show ?thesis using a(3) by (simp add: find_append)
qed

lemma blocks_concat: "a \<le> b \<Longrightarrow> [k * a..<k * b] = concat (map (\<lambda>l. [k * l..<k * l + k]) [a..<b])" for k :: nat
proof (induction b)
  case (Suc b)
  show ?case
  proof (cases "a = Suc b")
    case False
    then have "a \<le> b" using Suc.prems by simp
    then have "[k * a..<k * Suc b] = [k * a..<k * b] @ [k * b..<k * b + k]"
      using upt_add_eq_append [of "k * a" "k * b" k] by (simp add: add.commute)
    then show ?thesis using Suc.IH \<open>a \<le> b\<close> by simp
  qed simp
qed simp

text \<open>What is known not to be hit can be left out at the end.\<close>

lemma find_drop_end: "find P ys = None \<Longrightarrow> find P (xs @ ys) = find P xs"
  by (simp add: find_append split: option.splits)

lemma rotated_words: "w < a \<Longrightarrow> map (\<lambda>i. (Suc w mod a + i) mod a) [0..<a] = [Suc w..<a] @ [0..<Suc w]"
proof (intro nth_equalityI)
  fix i assume "w < a" "i < length (map (\<lambda>i. (Suc w mod a + i) mod a) [0..<a])"
  then show "map (\<lambda>i. (Suc w mod a + i) mod a) [0..<a] ! i = ([Suc w..<a] @ [0..<Suc w]) ! i"
    by (cases "i < a - Suc w") (auto simp: nth_append mod_add_left_eq mod_if)
qed simp

section \<open>Searching the first level\<close>

lemma bsf64_safe_cases:
  "rte_bsf64_safe v p = (if v = 0 then (False, p) else (True, of_nat (ctz v)))"
  by (simp add: rte_bsf64_safe_def rte_bsf64_def builtin_ctz_def)

lemma unat_ctz: "v \<noteq> 0 \<Longrightarrow> unat (of_nat (ctz v) :: u32) = ctz v" for v :: u64
  using ctz_props(1) [of v] by (simp add: unat_of_nat)

lemma search_loop_spec:
  assumes "bitmap_wf b0" "bm_array1 b = bm_array1 b0" "bm_array1_size b = bm_array1_size b0"
    "unat (bm_index1 b) < length (bm_array1 b0)"
  shows "bitmap_search_loop n b = Some (case find (\<lambda>w. bm_array1 b0 ! w \<noteq> 0)
      (map (\<lambda>i. (unat (bm_index1 b) + i) mod length (bm_array1 b0)) [0..<n]) of
      None \<Rightarrow> (False, (bitmap_index1_inc ^^ n) b)
    | Some w \<Rightarrow> (True, b\<lparr>bm_index1 := of_nat w, bm_offset1 := of_nat (ctz (bm_array1 b0 ! w))\<rparr>))"
  using assms(2-4)
proof (induction n arbitrary: b)
  case (Suc n)
  let ?a = "length (bm_array1 b0)" and ?w = "unat (bm_index1 b)" and ?b = "bitmap_index1_inc b"
  have list: "map (\<lambda>i. (?w + i) mod ?a) [0..<Suc n] = ?w # map (\<lambda>i. (Suc ?w mod ?a + i) mod ?a) [0..<n]"
    using Suc.prems(3) by (simp add: map_upt_Suc mod_add_left_eq del: upt_Suc)
  have get: "slab_get (bm_array1 b) (bm_index1 b) = Some (bm_array1 b0 ! ?w)" using Suc.prems by (simp add: slab_get_def)
  have w': "unat (bm_index1 ?b) = Suc ?w mod ?a"
    using bitmap_wf_index1_mask [OF assms(1), of "bm_index1 b"] Suc.prems(2) by (simp add: bitmap_index1_inc_def)
  then have "unat (bm_index1 ?b) < ?a" using bitmap_wfD(3) [OF assms(1)] by simp
  from Suc.IH [OF _ _ this] have IH: "bitmap_search_loop n ?b = Some (case find (\<lambda>w. bm_array1 b0 ! w \<noteq> 0)
      (map (\<lambda>i. (Suc ?w mod ?a + i) mod ?a) [0..<n]) of None \<Rightarrow> (False, (bitmap_index1_inc ^^ n) ?b)
    | Some w \<Rightarrow> (True, ?b\<lparr>bm_index1 := of_nat w, bm_offset1 := of_nat (ctz (bm_array1 b0 ! w))\<rparr>))"
    using Suc.prems w' by (simp add: bitmap_index1_inc_def)
  have upd: "?b\<lparr>bm_index1 := x, bm_offset1 := y\<rparr> = b\<lparr>bm_index1 := x, bm_offset1 := y\<rparr>" for x y
    by (simp add: bitmap_index1_inc_def)
  show ?case
  proof (cases "bm_array1 b0 ! ?w = 0")
    case True
    then show ?thesis unfolding list using get IH
      by (simp add: bsf64_safe_cases funpow_swap1 upd split: option.splits)
  next
    case False
    then show ?thesis unfolding list using get by (simp add: bsf64_safe_cases)
  qed
qed simp

text \<open>The lines in the order of the search.\<close>

definition line_marked :: "rte_bitmap \<Rightarrow> nat \<Rightarrow> bool" where
  "line_marked b l = bit (bm_array1 b ! (l div 64)) (l mod 64)"

lemma word_first:
  "find (\<lambda>l. bit v (l mod 64)) [64 * w..<64 * w + 64] = (if v = 0 then None else Some (64 * w + ctz v))" for v :: u64
proof (cases "v = 0")
  case False
  have "\<not> bit v (y mod 64)" if "64 * w \<le> y" "y < 64 * w + ctz v" for y
  proof -
    have "y - 64 * w < ctz v" using that by linarith
    moreover have "y mod 64 = y - 64 * w" using block_index [of 64 w y] ctz_props(1) [OF False] that by simp
    ultimately show ?thesis using ctz_props(3) [OF False] by simp
  qed
  then show ?thesis using ctz_props [OF False] False by (auto intro!: find_upt_Some)
qed (simp add: find_None_iff)

lemma words_first:
  assumes "p \<le> q"
  shows "find (line_marked b) [64 * p..<64 * q] = map_option (\<lambda>w. 64 * w + ctz (bm_array1 b ! w)) (find (\<lambda>w. bm_array1 b ! w \<noteq> 0) [p..<q])"
proof -
  have f: "find (line_marked b) [64 * w..<64 * w + 64] = (if bm_array1 b ! w = 0 then None else Some (64 * w + ctz (bm_array1 b ! w)))" for w
  proof -
    have "find (line_marked b) [64 * w..<64 * w + 64] = find (\<lambda>l. bit (bm_array1 b ! w) (l mod 64)) [64 * w..<64 * w + 64]"
      by (rule find_cong_set) (use block_index [of 64 w] in \<open>auto simp: line_marked_def\<close>)
    then show ?thesis by (simp add: word_first)
  qed
  have "find (line_marked b) [64 * p..<64 * q] = (case find (\<lambda>w. bm_array1 b ! w \<noteq> 0) [p..<q] of None \<Rightarrow> None
      | Some w \<Rightarrow> find (line_marked b) [64 * w..<64 * w + 64])"
    unfolding blocks_concat [OF assms] by (rule find_concat) (simp add: f)
  also have "\<dots> = map_option (\<lambda>w. 64 * w + ctz (bm_array1 b ! w)) (find (\<lambda>w. bm_array1 b ! w \<noteq> 0) [p..<q])"
  proof (cases "find (\<lambda>w. bm_array1 b ! w \<noteq> 0) [p..<q]")
    case (Some w)
    then have "bm_array1 b ! w \<noteq> 0" by (auto simp: find_Some_iff)
    then show ?thesis using Some by (simp add: f)
  qed simp
  finally show ?thesis .
qed

lemma rest_of_word:
  assumes "q < 64"
  shows "find (line_marked b) [Suc (64 * w + q)..<64 * Suc w] =
    (let v = bm_array1 b ! w AND push_bit q (NOT 1) in if v = 0 then None else Some (64 * w + ctz v))"
proof -
  let ?v = "bm_array1 b ! w AND push_bit q (NOT 1)"
  have bit_v: "bit ?v i \<longleftrightarrow> q < i \<and> bit (bm_array1 b ! w) i" if "i < 64" for i
    using that by (auto simp: bit_simps)
  have "find (\<lambda>l. bit ?v (l mod 64)) [64 * w..<64 * w + 64] =
      find (\<lambda>l. bit ?v (l mod 64)) ([64 * w..<Suc (64 * w + q)] @ [Suc (64 * w + q)..<64 * Suc w])"
    using assms by (subst upt_split [symmetric]) (auto simp: ac_simps)
  also have "\<dots> = find (\<lambda>l. bit ?v (l mod 64)) [Suc (64 * w + q)..<64 * Suc w]"
  proof -
    have "\<not> bit ?v (l mod 64)" if "64 * w \<le> l" "l \<le> 64 * w + q" for l
    proof -
      have "l mod 64 = l - 64 * w" using block_index [of 64 w l] that assms by simp
      then have "\<not> q < l mod 64" using that by linarith
      then show ?thesis using bit_v [of "l mod 64"] by simp
    qed
    then have "find (\<lambda>l. bit ?v (l mod 64)) [64 * w..<Suc (64 * w + q)] = None"
      by (simp add: find_None_iff del: upt_Suc)
    then show ?thesis by (simp add: find_append del: upt_Suc)
  qed
  also have "\<dots> = find (line_marked b) [Suc (64 * w + q)..<64 * Suc w]"
  proof (rule find_cong_set)
    fix l assume l: "l \<in> set [Suc (64 * w + q)..<64 * Suc w]"
    then have "l div 64 = w" by auto
    moreover have "q < l mod 64"
    proof -
      have "l = 64 * w + l mod 64" using \<open>l div 64 = w\<close> by (metis mult_div_mod_eq)
      then show ?thesis using l by simp
    qed
    ultimately show "bit ?v (l mod 64) = line_marked b l" using bit_v [of "l mod 64"] by (simp add: line_marked_def)
  qed
  finally show ?thesis by (simp add: word_first Let_def)
qed

lemma inc_run: "bitmap_index1_inc (c\<lparr>bm_index1 := j\<rparr>) = c\<lparr>bm_index1 := (j + 1) AND (bm_array1_size c - 1)\<rparr>"
  by (simp add: bitmap_index1_inc_def)

text \<open>The search finds the first line in use behind the current one, in cyclic order.\<close>

lemma search_spec:
  assumes wf: "bitmap_wf b"
  shows "\<exists>b1. bitmap_scan_search b = Some (case find (line_marked b)
        ([Suc (scan_line b)..<64 * length (bm_array1 b)] @ [0..<Suc (scan_line b)]) of
      None \<Rightarrow> (False, b\<lparr>bm_index1 := b1, bm_offset1 := 0\<rparr>)
    | Some l \<Rightarrow> (True, b\<lparr>bm_index1 := of_nat (l div 64), bm_offset1 := of_nat (l mod 64)\<rparr>)) \<and>
    unat b1 < length (bm_array1 b)"
proof -
  let ?w = "unat (bm_index1 b)" and ?q = "unat (bm_offset1 b)" and ?a = "length (bm_array1 b)"
  let ?L = "64 * ?a" and ?l0 = "scan_line b"
  have w: "?w < ?a" and q: "?q < 64" and a: "0 < ?a" using bitmap_wfD [OF wf] by simp_all
  have l0: "?l0 = 64 * ?w + ?q" by (simp add: scan_line_def)
  let ?v = "bm_array1 b ! ?w AND push_bit ?q (NOT 1)"
  have get: "slab_get (bm_array1 b) (bm_index1 b) = Some (bm_array1 b ! ?w)" using w by (simp add: slab_get_def)
  have rest: "find (line_marked b) [Suc ?l0..<64 * Suc ?w] = (if ?v = 0 then None else Some (64 * ?w + ctz ?v))"
    unfolding l0 rest_of_word [OF q] Let_def ..
  have "64 * Suc ?w \<le> ?L" using w by (intro mult_le_mono2) simp
  then have L: "[Suc ?l0..<?L] = [Suc ?l0..<64 * Suc ?w] @ [64 * Suc ?w..<?L]" using q by (intro upt_split) (simp_all add: l0)
  show ?thesis
  proof (cases "?v = 0")
    case False
    then have "ctz ?v < 64" using ctz_props(1) [OF False] by simp
    then have l: "find (line_marked b) ([Suc ?l0..<?L] @ [0..<Suc ?l0]) = Some (64 * ?w + ctz ?v)"
      "(64 * ?w + ctz ?v) div 64 = ?w" "(64 * ?w + ctz ?v) mod 64 = ctz ?v"
      using rest False by (simp_all add: find_append L del: upt_Suc mult_Suc_right)
    have "bitmap_scan_search b = Some (True, b\<lparr>bm_offset1 := of_nat (ctz ?v)\<rparr>)"
      using False get by (simp add: bitmap_scan_search_def bitmap_mask1_get_def bsf64_safe_cases)
    then show ?thesis using l w by (intro exI [of _ "bm_index1 b"]) (simp del: upt_Suc)
  next
    case True
    let ?b = "(bitmap_index1_inc b)\<lparr>bm_offset1 := 0\<rparr>"
    let ?P = "\<lambda>w. bm_array1 b ! w \<noteq> 0"
    have b: "bm_array1 ?b = bm_array1 b" "bm_array1_size ?b = bm_array1_size b" by (simp_all add: bitmap_index1_inc_def)
    have w': "unat (bm_index1 ?b) = Suc ?w mod ?a"
      using bitmap_wf_index1_mask [OF wf, of "bm_index1 b"] by (simp add: bitmap_index1_inc_def)
    then have lt: "unat (bm_index1 ?b) < ?a" using a by simp
    have run: "bitmap_scan_search b = Some (case find ?P ([Suc ?w..<?a] @ [0..<Suc ?w]) of
        None \<Rightarrow> (False, (bitmap_index1_inc ^^ ?a) ?b)
      | Some w \<Rightarrow> (True, ?b\<lparr>bm_index1 := of_nat w, bm_offset1 := of_nat (ctz (bm_array1 b ! w))\<rparr>))"
    proof -
      have "bitmap_search_loop (unat (bm_array1_size ?b)) ?b = Some (case find ?P ([Suc ?w..<?a] @ [0..<Suc ?w]) of
          None \<Rightarrow> (False, (bitmap_index1_inc ^^ ?a) ?b)
        | Some w \<Rightarrow> (True, ?b\<lparr>bm_index1 := of_nat w, bm_offset1 := of_nat (ctz (bm_array1 b ! w))\<rparr>))"
        using search_loop_spec [OF wf b lt, of ?a] unfolding w' rotated_words [OF w] b(2) bitmap_wfD(4) [OF wf, symmetric] .
      then show ?thesis using True get
        by (simp add: bitmap_scan_search_def bitmap_mask1_get_def bsf64_safe_cases Let_def del: upt_Suc)
    qed
    have none: "find (line_marked b) [Suc ?l0..<64 * Suc ?w] = None" using rest True by simp
    have "[0..<64 * Suc ?w] = [0..<Suc ?l0] @ [Suc ?l0..<64 * Suc ?w]" using q by (intro upt_split) (simp_all add: l0)
    then have tail: "find (line_marked b) [0..<Suc ?l0] = find (line_marked b) [0..<64 * Suc ?w]"
      using find_drop_end [OF none, of "[0..<Suc ?l0]"] by (simp only:)
    have "find (line_marked b) ([Suc ?l0..<?L] @ [0..<Suc ?l0]) =
        find (line_marked b) ([64 * Suc ?w..<64 * ?a] @ [64 * 0..<64 * Suc ?w])"
      using none tail by (simp add: find_append L del: upt_Suc mult_Suc_right split: option.splits)
    also have "\<dots> = map_option (\<lambda>w. 64 * w + ctz (bm_array1 b ! w)) (find ?P ([Suc ?w..<?a] @ [0..<Suc ?w]))"
      using words_first [of "Suc ?w" ?a b] words_first [of 0 "Suc ?w" b] w
      by (simp add: find_append del: mult_Suc_right upt_Suc split: option.splits)
    finally have lines: "find (line_marked b) ([Suc ?l0..<?L] @ [0..<Suc ?l0]) =
        map_option (\<lambda>w. 64 * w + ctz (bm_array1 b ! w)) (find ?P ([Suc ?w..<?a] @ [0..<Suc ?w]))" .
    have inc: "\<exists>j. (bitmap_index1_inc ^^ n) c = c\<lparr>bm_index1 := j\<rparr> \<and> unat j < ?a"
      if "unat (bm_index1 c) < ?a" "bm_array1_size c = bm_array1_size b" for n c
    proof (induction n)
      case (Suc n)
      then obtain j where j: "(bitmap_index1_inc ^^ n) c = c\<lparr>bm_index1 := j\<rparr>" by blast
      have "unat ((j + 1) AND (bm_array1_size b - 1)) < ?a"
        using bitmap_wf_index1_mask [OF wf, of j] a by simp
      then show ?case using j that(2)
        by (intro exI [of _ "(j + 1) AND (bm_array1_size b - 1)"]) (simp add: inc_run)
    qed (use that in \<open>auto intro!: exI [of _ "bm_index1 c"]\<close>)
    obtain j where j: "(bitmap_index1_inc ^^ ?a) ?b = ?b\<lparr>bm_index1 := j\<rparr>" "unat j < ?a"
      using inc [OF lt b(2), of ?a] by blast
    show ?thesis
    proof (cases "find ?P ([Suc ?w..<?a] @ [0..<Suc ?w])")
      case None
      then show ?thesis using run lines j by (intro exI [of _ j]) (simp add: bitmap_index1_inc_def del: upt_Suc)
    next
      case (Some w)
      then have "bm_array1 b ! w \<noteq> 0" by (auto simp: find_Some_iff)
      then have "ctz (bm_array1 b ! w) < 64" using ctz_props(1) by fastforce
      then show ?thesis using run lines Some j(2) by (intro exI [of _ j]) (simp add: bitmap_index1_inc_def del: upt_Suc)
    qed
  qed
qed

section \<open>The scan\<close>

text \<open>The slab the next scan starts at, and all slabs from there on in cyclic order.\<close>

definition scan_cursor :: "rte_bitmap \<Rightarrow> nat" where
  "scan_cursor b = (if bm_go2 b \<noteq> 0 then unat (bm_index2 b) else 8 * Suc (scan_line b))"

definition scan_order :: "rte_bitmap \<Rightarrow> nat list" where
  "scan_order b = [scan_cursor b..<512 * length (bm_array1 b)] @ [0..<scan_cursor b]"

definition slab_out :: "u64 list \<Rightarrow> nat \<Rightarrow> u32 \<times> u64" where
  "slab_out a i = (of_nat (64 * i), slab_at a i)"

lemma line_end: "Suc c mod 8 = 0 \<Longrightarrow> 8 * Suc (c div 8) = Suc c" "Suc c mod 8 \<noteq> 0 \<Longrightarrow> Suc c div 8 = c div 8" for c :: nat
  by (metis div_Suc mult_div_mod_eq add_0_right, simp add: div_Suc)

lemma scan_read_spec:
  assumes "length (bm_array2 b) \<le> 2 ^ 26" "8 dvd length (bm_array2 b)" "bm_go2 b \<noteq> 0"
    "unat (bm_index2 b) < length (bm_array2 b)"
  shows "\<exists>i2 g2. bitmap_scan_read b = Some (map_option (slab_out (bm_array2 b))
      (find (\<lambda>i. slab_at (bm_array2 b) i \<noteq> 0) [unat (bm_index2 b)..<8 * Suc (unat (bm_index2 b) div 8)]),
      b\<lparr>bm_index2 := i2, bm_go2 := g2\<rparr>) \<and>
    (case find (\<lambda>i. slab_at (bm_array2 b) i \<noteq> 0) [unat (bm_index2 b)..<8 * Suc (unat (bm_index2 b) div 8)] of
      None \<Rightarrow> g2 = 0 | Some i \<Rightarrow> unat i2 = Suc i \<and> g2 = i2 AND 7)"
  using assms
proof (induction b rule: bitmap_scan_read.induct)
  case (1 b)
  let ?c = "unat (bm_index2 b)" and ?a = "bm_array2 b" and ?i = "bm_index2 b + 1"
  let ?b = "b\<lparr>bm_index2 := ?i, bm_go2 := ?i AND 7\<rparr>"
  have get: "slab_get ?a (bm_index2 b) = Some (slab_at ?a ?c)" using 1(5) by (simp add: slab_get_def slab_at_def)
  have i: "unat ?i = Suc ?c" using 1(2,5) by (subst unat_add_lt) simp_all
  have g: "?i AND 7 = 0 \<longleftrightarrow> Suc ?c mod 8 = 0" using word7 [of ?i] i by (metis unat_eq_zero)
  have "?c < 8 * Suc (?c div 8)" by simp
  then have list: "[?c..<8 * Suc (?c div 8)] = ?c # [Suc ?c..<8 * Suc (?c div 8)]" by (rule upt_conv_Cons)
  have out: "slab_out ?a ?c = (push_bit 6 (bm_index2 b), slab_at ?a ?c)"
    by (simp add: slab_out_def push_bit_eq_mult of_nat_mult mult.commute)
  show ?case
  proof (cases "slab_at ?a ?c = 0")
    case False
    then have "bitmap_scan_read b = Some (Some (slab_out ?a ?c), ?b)" using 1(4) get out bitmap_scan_read.simps [of b]
      by (simp add: Let_def)
    then show ?thesis unfolding list using False i by (intro exI [of _ ?i] exI [of _ "?i AND 7"]) simp
  next
    case zero: True
    then have run: "bitmap_scan_read b = bitmap_scan_read ?b" using 1(4) get bitmap_scan_read.simps [of b]
      by (simp add: Let_def)
    have skip: "find (\<lambda>i. slab_at ?a i \<noteq> 0) [?c..<8 * Suc (?c div 8)] = find (\<lambda>i. slab_at ?a i \<noteq> 0) [Suc ?c..<8 * Suc (?c div 8)]"
      unfolding list using zero by simp
    show ?thesis
    proof (cases "Suc ?c mod 8 = 0")
      case True
      then have "[Suc ?c..<8 * Suc (?c div 8)] = []" using line_end(1) [OF True] by simp
      moreover have "bitmap_scan_read ?b = Some (None, ?b)" using True g bitmap_scan_read.simps [of ?b] by simp
      ultimately show ?thesis unfolding run skip using True g by (intro exI [of _ ?i] exI [of _ 0]) simp
    next
      case False
      have same: "Suc ?c div 8 = ?c div 8" using line_end(2) [OF False] .
      obtain n where "length ?a = 8 * n" using 1(3) by blast
      then have "Suc ?c < length ?a" using 1(5) False by (metis Suc_lessI mod_mult_self1_is_0)
      then have "\<exists>i2 g2. bitmap_scan_read ?b = Some (map_option (slab_out (bm_array2 ?b))
          (find (\<lambda>i. slab_at (bm_array2 ?b) i \<noteq> 0) [unat (bm_index2 ?b)..<8 * Suc (unat (bm_index2 ?b) div 8)]),
          ?b\<lparr>bm_index2 := i2, bm_go2 := g2\<rparr>) \<and>
        (case find (\<lambda>i. slab_at (bm_array2 ?b) i \<noteq> 0) [unat (bm_index2 ?b)..<8 * Suc (unat (bm_index2 ?b) div 8)] of
          None \<Rightarrow> g2 = 0 | Some i \<Rightarrow> unat i2 = Suc i \<and> g2 = i2 AND 7)"
        using 1(1) [OF 1(4), of "slab_at ?a ?c" ?b] zero get 1(2,3) g False i by simp
      then show ?thesis unfolding run skip by (simp add: i same del: upt_Suc mult_Suc_right)
    qed
  qed
qed

lemma line_marked_used:
  assumes "bitmap_wf b" "l < 64 * length (bm_array1 b)"
  shows "line_marked b l \<longleftrightarrow> find (\<lambda>i. slab_at (bm_array2 b) i \<noteq> 0) [8 * l..<8 * l + 8] \<noteq> None"
proof -
  have "line_marked b l = line_used (bm_array2 b) l"
    using assms bitmap_wfD(8) [OF assms(1)] by (simp add: line_marked_def levels_agree_def)
  moreover have "line_used (bm_array2 b) l \<longleftrightarrow> (\<exists>i \<in> set [8 * l..<8 * l + 8]. slab_at (bm_array2 b) i \<noteq> 0)"
  proof
    assume "line_used (bm_array2 b) l"
    then show "\<exists>i \<in> set [8 * l..<8 * l + 8]. slab_at (bm_array2 b) i \<noteq> 0" by (auto simp: line_used_def)
  next
    assume "\<exists>i \<in> set [8 * l..<8 * l + 8]. slab_at (bm_array2 b) i \<noteq> 0"
    then obtain i where "8 * l \<le> i" "i < 8 * l + 8" "slab_at (bm_array2 b) i \<noteq> 0" by auto
    then show "line_used (bm_array2 b) l" unfolding line_used_def by (intro exI [of _ "i - 8 * l"]) simp
  qed
  ultimately show ?thesis by (auto simp: find_None_iff)
qed

text \<open>Resting behind a slab that was returned, or between lines.\<close>

lemma wf_go2: "bitmap_wf (b\<lparr>bm_index2 := i, bm_go2 := 0\<rparr>)" if "bitmap_wf (b\<lparr>bm_index2 := j, bm_go2 := 0\<rparr>)"
  using that by (simp add: bitmap_wf_def scan_line_def)

lemma wf_after_hit:
  assumes wf: "bitmap_wf (b\<lparr>bm_go2 := 0\<rparr>)" and i: "8 * scan_line b \<le> i" "i < 8 * Suc (scan_line b)"
    "slab_at (bm_array2 b) i \<noteq> 0" and i2: "unat i2 = Suc i" "g2 = i2 AND 7"
  shows "bitmap_wf (b\<lparr>bm_index2 := i2, bm_go2 := g2\<rparr>)" "scan_cursor (b\<lparr>bm_index2 := i2, bm_go2 := g2\<rparr>) = Suc i"
proof -
  have g: "g2 = 0 \<longleftrightarrow> Suc i mod 8 = 0" using word7 [of i2] i2 by (metis unat_eq_zero)
  have il: "i div 8 = scan_line b" using block_index [of 8 "scan_line b" i] i by simp
  have len: "i < length (bm_array2 b)" using i(3) by (auto simp: slab_at_def split: if_splits)
  obtain n where n: "length (bm_array2 b) = 8 * n" using bitmap_wfD(6) [OF wf] by auto
  have "unat i2 < length (bm_array2 b) \<and> unat i2 div 8 = scan_line b" if "g2 \<noteq> 0"
  proof -
    have m: "Suc i mod 8 \<noteq> 0" using g that by simp
    then have "Suc i \<noteq> length (bm_array2 b)" using n by (metis mod_mult_self1_is_0)
    then show ?thesis using len i2(1) line_end(2) [OF m] il by simp
  qed
  then show "bitmap_wf (b\<lparr>bm_index2 := i2, bm_go2 := g2\<rparr>)" using wf by (simp add: bitmap_wf_def scan_line_def)
  show "scan_cursor (b\<lparr>bm_index2 := i2, bm_go2 := g2\<rparr>) = Suc i"
  proof (cases "g2 = 0")
    case True
    then have "8 * Suc (i div 8) = Suc i" using g line_end(1) by simp
    then show ?thesis using True il by (simp add: scan_cursor_def scan_line_def)
  next
    case False
    then show ?thesis using i2(1) by (simp add: scan_cursor_def)
  qed
qed

text \<open>The part of a scan that moves on to another line.\<close>

lemma scan_next_line:
  assumes wf: "bitmap_wf b" and go2: "bm_go2 b = 0"
  defines "hit \<equiv> find (\<lambda>i. slab_at (bm_array2 b) i \<noteq> 0) (scan_order b)"
  shows "\<exists>b'. rte_bitmap_scan b = Some (if hit = None then 0 else 1, map_option (slab_out (bm_array2 b)) hit, b') \<and>
    bitmap_wf b' \<and> bm_array1 b' = bm_array1 b \<and> bm_array2 b' = bm_array2 b \<and> (\<forall>i. hit = Some i \<longrightarrow> scan_cursor b' = Suc i)"
proof -
  let ?P = "\<lambda>i. slab_at (bm_array2 b) i \<noteq> 0" and ?a = "length (bm_array1 b)" and ?l0 = "scan_line b"
  let ?lines = "[Suc ?l0..<64 * ?a] @ [0..<Suc ?l0]"
  have l0: "Suc ?l0 \<le> 64 * ?a" using bitmap_wfD(9,10) [OF wf] by (simp add: scan_line_def)
  have N: "512 * ?a = 8 * (64 * ?a)" by simp
  have order: "scan_order b = concat (map (\<lambda>l. [8 * l..<8 * l + 8]) ?lines)"
    unfolding scan_order_def scan_cursor_def N using blocks_concat [OF l0, of 8] blocks_concat [of 0 "Suc ?l0" 8] go2
    by (simp del: upt_Suc mult_Suc_right)
  have hit: "hit = (case find (line_marked b) ?lines of None \<Rightarrow> None | Some l \<Rightarrow> find ?P [8 * l..<8 * l + 8])"
    unfolding hit_def order
    by (rule find_concat) (use line_marked_used [OF wf] l0 in auto)
  obtain b1 where search: "bitmap_scan_search b = Some (case find (line_marked b) ?lines of
      None \<Rightarrow> (False, b\<lparr>bm_index1 := b1, bm_offset1 := 0\<rparr>)
    | Some l \<Rightarrow> (True, b\<lparr>bm_index1 := of_nat (l div 64), bm_offset1 := of_nat (l mod 64)\<rparr>))" "unat b1 < ?a"
    using search_spec [OF wf] by blast
  have read: "bitmap_scan_read b = Some (None, b)" using go2 bitmap_scan_read.simps [of b] by simp
  show ?thesis
  proof (cases "find (line_marked b) ?lines")
    case None
    then have "hit = None" "rte_bitmap_scan b = Some (0, None, b\<lparr>bm_index1 := b1, bm_offset1 := 0\<rparr>)"
      using hit search(1) read by (simp_all add: rte_bitmap_scan_def del: upt_Suc)
    moreover have "bitmap_wf (b\<lparr>bm_index1 := b1, bm_offset1 := 0\<rparr>)"
      using wf go2 search(2) by (simp add: bitmap_wf_def)
    ultimately show ?thesis by (intro exI [of _ "b\<lparr>bm_index1 := b1, bm_offset1 := 0\<rparr>"]) simp
  next
    case (Some l)
    then have "l \<in> set ?lines" "line_marked b l" by (auto simp only: find_Some_iff nth_mem)
    then have l: "l < 64 * ?a" "line_marked b l" using l0 by auto
    then obtain i where i: "find ?P [8 * l..<8 * l + 8] = Some i" using line_marked_used [OF wf] by blast
    then have hit_i: "hit = Some i" using hit Some by (simp del: upt_Suc)
    have ii: "8 * l \<le> i" "i < 8 * Suc l" "?P i"
    proof -
      have "i \<in> set [8 * l..<8 * l + 8]" "?P i" using i by (auto simp only: find_Some_iff nth_mem)
      then show "8 * l \<le> i" "i < 8 * Suc l" "?P i" by auto
    qed
    have small: "l < 2 ^ 23" using l(1) bitmap_wfD(1) [OF wf] by simp
    let ?w = "of_nat (l div 64) :: u32" and ?q = "of_nat (l mod 64) :: u32"
    have wq: "unat ?w = l div 64" "unat ?q = l mod 64" using small by (simp_all add: unat_of_nat)
    define b2 where "b2 = bitmap_scan_read_init (b\<lparr>bm_index1 := ?w, bm_offset1 := ?q\<rparr>)"
    have line: "scan_line b2 = l" by (simp add: b2_def scan_line_def bitmap_scan_read_init_def bitmap_index2_set_def wq)
    have i2: "bm_index2 b2 = of_nat (8 * l)"
    proof -
      have "push_bit 6 ?w + ?q = of_nat (64 * (l div 64)) + of_nat (l mod 64)"
        by (simp add: push_bit_eq_mult mult.commute)
      also have "\<dots> = of_nat l" by (simp only: of_nat_add [symmetric] mult_div_mod_eq)
      finally have "push_bit 6 ?w + ?q = of_nat l" .
      then show ?thesis by (simp add: b2_def bitmap_scan_read_init_def bitmap_index2_set_def push_bit_eq_mult mult.commute)
    qed
    have "8 * l < 2 ^ LENGTH(32)" using small by simp
    then have u2: "unat (bm_index2 b2) = 8 * l" unfolding i2 by (simp only: unat_of_nat mod_less)
    have same: "bm_array1 b2 = bm_array1 b" "bm_array2 b2 = bm_array2 b" "bm_go2 b2 = 1"
      by (simp_all add: b2_def bitmap_scan_read_init_def bitmap_index2_set_def)
    have wf2: "bitmap_wf (b2\<lparr>bm_go2 := 0\<rparr>)"
      using wf l(1) wq by (auto simp: bitmap_wf_def b2_def bitmap_scan_read_init_def bitmap_index2_set_def)
    have "i < length (bm_array2 b)" using ii(3) by (auto simp: slab_at_def split: if_splits)
    then have "8 * l < length (bm_array2 b)" using ii(1) by simp
    then obtain j g where r: "bitmap_scan_read b2 = Some (Some (slab_out (bm_array2 b) i), b2\<lparr>bm_index2 := j, bm_go2 := g\<rparr>)"
      "unat j = Suc i" "g = j AND 7"
      using scan_read_spec [of b2] bitmap_wfD(2,6) [OF wf] i by (auto simp: same u2 add.commute simp del: upt_Suc)
    have "rte_bitmap_scan b = Some (1, Some (slab_out (bm_array2 b) i), b2\<lparr>bm_index2 := j, bm_go2 := g\<rparr>)"
      using read search(1) Some r(1) by (simp add: rte_bitmap_scan_def b2_def [symmetric] del: upt_Suc)
    moreover have "bitmap_wf (b2\<lparr>bm_index2 := j, bm_go2 := g\<rparr>)" "scan_cursor (b2\<lparr>bm_index2 := j, bm_go2 := g\<rparr>) = Suc i"
      using wf_after_hit [OF wf2 _ _ _ r(2,3)] ii by (simp_all add: line same)
    ultimately show ?thesis using hit_i same
      by (intro exI [of _ "b2\<lparr>bm_index2 := j, bm_go2 := g\<rparr>"]) simp
  qed
qed

lemma scan_spec:
  assumes wf: "bitmap_wf b"
  defines "hit \<equiv> find (\<lambda>i. slab_at (bm_array2 b) i \<noteq> 0) (scan_order b)"
  shows "\<exists>b'. rte_bitmap_scan b = Some (if hit = None then 0 else 1, map_option (slab_out (bm_array2 b)) hit, b') \<and>
    bitmap_wf b' \<and> bm_array1 b' = bm_array1 b \<and> bm_array2 b' = bm_array2 b \<and> (\<forall>i. hit = Some i \<longrightarrow> scan_cursor b' = Suc i)"
proof (cases "bm_go2 b = 0")
  case True
  then show ?thesis unfolding hit_def by (rule scan_next_line [OF wf])
next
  case False
  let ?P = "\<lambda>i. slab_at (bm_array2 b) i \<noteq> 0" and ?c = "unat (bm_index2 b)" and ?l0 = "scan_line b"
  let ?N = "512 * length (bm_array1 b)"
  have c: "?c < length (bm_array2 b)" "?c div 8 = ?l0" "scan_cursor b = ?c"
    using bitmap_wfD(11) [OF wf False] False by (simp_all add: scan_cursor_def)
  have le: "?c \<le> 8 * Suc ?l0" "8 * Suc ?l0 \<le> ?N" "8 * ?l0 \<le> ?c"
    using c bitmap_wfD(9,10) [OF wf] by (auto simp: scan_line_def)
  have order: "scan_order b = [?c..<8 * Suc ?l0] @ [8 * Suc ?l0..<?N] @ [0..<?c]"
    using upt_split [OF le(1,2)] c by (simp add: scan_order_def del: upt_Suc mult_Suc_right)
  obtain i2 g2 where read: "bitmap_scan_read b = Some (map_option (slab_out (bm_array2 b)) (find ?P [?c..<8 * Suc ?l0]),
      b\<lparr>bm_index2 := i2, bm_go2 := g2\<rparr>)"
    "case find ?P [?c..<8 * Suc ?l0] of None \<Rightarrow> g2 = 0 | Some i \<Rightarrow> unat i2 = Suc i \<and> g2 = i2 AND 7"
    using scan_read_spec [OF bitmap_wfD(2,6) [OF wf] False c(1)] unfolding c(2) by blast
  have wf0: "bitmap_wf (b\<lparr>bm_index2 := j, bm_go2 := 0\<rparr>)" for j using wf by (simp add: bitmap_wf_def scan_line_def)
  show ?thesis
  proof (cases "find ?P [?c..<8 * Suc ?l0]")
    case (Some i)
    then have i: "hit = Some i" "unat i2 = Suc i" "g2 = i2 AND 7"
      using read(2) by (simp_all add: hit_def order find_append del: upt_Suc mult_Suc_right)
    have "i \<in> set [?c..<8 * Suc ?l0]" "?P i" using Some by (auto simp only: find_Some_iff nth_mem)
    then have "8 * ?l0 \<le> i" "i < 8 * Suc ?l0" "?P i" using le by auto
    from wf_after_hit [OF _ this i(2,3)] wf0 [of "bm_index2 b"]
    have "bitmap_wf (b\<lparr>bm_index2 := i2, bm_go2 := g2\<rparr>)" "scan_cursor (b\<lparr>bm_index2 := i2, bm_go2 := g2\<rparr>) = Suc i" by simp_all
    then show ?thesis using read(1) Some i
      by (intro exI [of _ "b\<lparr>bm_index2 := i2, bm_go2 := g2\<rparr>"]) (simp add: rte_bitmap_scan_def del: upt_Suc mult_Suc_right)
  next
    case None
    then have g2: "g2 = 0" using read(2) by (simp del: upt_Suc mult_Suc_right)
    let ?b = "b\<lparr>bm_index2 := i2, bm_go2 := 0\<rparr>"
    have "bitmap_scan_read ?b = Some (None, ?b)" using bitmap_scan_read.simps [of ?b] by simp
    then have scan: "rte_bitmap_scan b = rte_bitmap_scan ?b"
      using read(1) None g2 by (simp add: rte_bitmap_scan_def del: upt_Suc mult_Suc_right)
    have "scan_order ?b = [8 * Suc ?l0..<?N] @ [0..<8 * Suc ?l0]"
      by (simp add: scan_order_def scan_cursor_def scan_line_def del: upt_Suc mult_Suc_right)
    also have "\<dots> = ([8 * Suc ?l0..<?N] @ [0..<?c]) @ [?c..<8 * Suc ?l0]"
      by (simp only: upt_split [OF le0 le(1)] append_assoc)
    finally have "find ?P (scan_order ?b) = find ?P ([8 * Suc ?l0..<?N] @ [0..<?c])"
      by (simp only: find_drop_end [OF None])
    then have "find ?P (scan_order ?b) = hit" using None
      by (simp add: hit_def order find_append del: upt_Suc mult_Suc_right)
    then show ?thesis using scan_next_line [OF wf0 [of i2]] scan by simp
  qed
qed

section \<open>Repeated scans\<close>

fun bitmap_scans :: "nat \<Rightarrow> rte_bitmap \<Rightarrow> ((u32 \<times> u64) list \<times> rte_bitmap) option" where
  "bitmap_scans 0 b = Some ([], b)"
| "bitmap_scans (Suc n) b = do {
     (ret, out, b) \<leftarrow> rte_bitmap_scan b;
     (outs, b) \<leftarrow> bitmap_scans n b;
     Some ((case out of None \<Rightarrow> outs | Some x \<Rightarrow> x # outs), b)
   }"

definition scan_hits :: "rte_bitmap \<Rightarrow> nat list" where
  "scan_hits b = filter (\<lambda>i. slab_at (bm_array2 b) i \<noteq> 0) (scan_order b)"

lemma scan_cursor_le: "bitmap_wf b \<Longrightarrow> scan_cursor b \<le> 512 * length (bm_array1 b)"
  using bitmap_wfD(7,9,10,11) [of b] by (auto simp: scan_cursor_def scan_line_def)

lemma rot_upt: "c \<le> n \<Longrightarrow> [c..<n] @ [0..<c] = rotate c [0..<n]"
  by (cases "c = n") (simp_all add: rotate_drop_take take_upt drop_upt)

lemma find_filter: "find P xs = (case filter P xs of [] \<Rightarrow> None | x # _ \<Rightarrow> Some x)"
  by (induction xs) auto

lemma filter_rot_next:
  assumes "c \<le> n" "filter P ([c..<n] @ [0..<c]) = i # t"
  shows "filter P ([Suc i..<n] @ [0..<Suc i]) = t @ [i]"
proof -
  obtain xs ys where xy: "[c..<n] @ [0..<c] = xs @ i # ys" "filter P xs = []" "P i" "filter P ys = t"
    using filter_eq_ConsD [OF assms(2)] by (auto simp: filter_empty_conv)
  have rot: "rotate c [0..<n] = xs @ i # ys" using xy(1) rot_upt [OF assms(1)] by simp
  have "length (rotate c [0..<n]) = length (xs @ i # ys)" using rot by simp
  then have len: "length xs < n" by simp
  have "i = rotate c [0..<n] ! length xs" unfolding rot by simp
  then have i: "i = (c + length xs) mod n" using len by (simp add: nth_rotate)
  have "rotate (Suc i) [0..<n] = rotate (Suc (c + length xs)) [0..<n]"
    using rotate_conv_mod [of "Suc i" "[0..<n]"] rotate_conv_mod [of "Suc (c + length xs)" "[0..<n]"]
    unfolding i by (simp add: mod_Suc_eq)
  also have "\<dots> = rotate (Suc (length xs)) (xs @ i # ys)"
    unfolding rot [symmetric] by (simp only: rotate_rotate) (simp add: add.commute)
  also have "\<dots> = ys @ xs @ [i]" using rotate_append [of "xs @ [i]" ys] by simp
  finally have r: "rotate (Suc i) [0..<n] = ys @ xs @ [i]" .
  have "Suc i \<le> n" using i len by (simp add: Suc_le_eq)
  then have "[Suc i..<n] @ [0..<Suc i] = ys @ xs @ [i]" by (simp only: rot_upt r)
  then show ?thesis using xy(2-4) by (simp only:) simp
qed

lemma scans_spec:
  assumes "bitmap_wf b"
  shows "\<exists>b'. bitmap_scans n b = Some (if scan_hits b = [] then []
        else map (\<lambda>j. slab_out (bm_array2 b) (scan_hits b ! (j mod length (scan_hits b)))) [0..<n], b') \<and>
    bitmap_wf b' \<and> bm_array1 b' = bm_array1 b \<and> bm_array2 b' = bm_array2 b"
  using assms
proof (induction n arbitrary: b)
  case (Suc n)
  let ?fs = "scan_hits b"
  obtain b1 where scan: "rte_bitmap_scan b = Some (if ?fs = [] then 0 else 1,
      case ?fs of [] \<Rightarrow> None | i # _ \<Rightarrow> Some (slab_out (bm_array2 b) i), b1)"
    "bitmap_wf b1" "bm_array1 b1 = bm_array1 b" "bm_array2 b1 = bm_array2 b" "\<And>i t. ?fs = i # t \<Longrightarrow> scan_cursor b1 = Suc i"
    using scan_spec [OF Suc.prems] by (auto simp: find_filter scan_hits_def split: list.splits)
  from Suc.IH [OF scan(2)] obtain b2 where IH: "bitmap_scans n b1 = Some (if scan_hits b1 = [] then []
        else map (\<lambda>j. slab_out (bm_array2 b) (scan_hits b1 ! (j mod length (scan_hits b1)))) [0..<n], b2)"
    "bitmap_wf b2" "bm_array1 b2 = bm_array1 b" "bm_array2 b2 = bm_array2 b"
    using scan(3,4) by auto
  show ?case
  proof (cases ?fs)
    case Nil
    have "set (scan_hits b1) = {i. i < 512 * length (bm_array1 b) \<and> slab_at (bm_array2 b) i \<noteq> 0}"
      using scan_cursor_le [OF scan(2)] scan(3,4) by (auto simp: scan_hits_def scan_order_def)
    also have "\<dots> = set ?fs" using scan_cursor_le [OF Suc.prems] by (auto simp: scan_hits_def scan_order_def)
    finally have "scan_hits b1 = []" using Nil by simp
    then show ?thesis using scan(1) IH Nil by simp
  next
    case (Cons i t)
    have "scan_hits b1 = t @ [i]"
      unfolding scan_hits_def scan_order_def scan(3,4) scan(5) [OF Cons]
      by (rule filter_rot_next [OF scan_cursor_le [OF Suc.prems]]) (use Cons in \<open>simp add: scan_hits_def scan_order_def\<close>)
    then have next_hits: "scan_hits b1 = rotate1 ?fs" using Cons by simp
    have "map (\<lambda>j. slab_out (bm_array2 b) (?fs ! (j mod length ?fs))) [0..<Suc n] =
        slab_out (bm_array2 b) i # map (\<lambda>j. slab_out (bm_array2 b) (?fs ! (Suc j mod length ?fs))) [0..<n]"
      using Cons by (simp add: map_upt_Suc del: upt_Suc)
    moreover have "rotate1 ?fs ! (j mod length ?fs) = ?fs ! (Suc j mod length ?fs)" for j
      using Cons by (subst nth_rotate1) (simp_all add: mod_Suc_eq)
    ultimately show ?thesis using scan(1) IH next_hits Cons
      by (simp del: upt_Suc add: rotate1_is_Nil_conv)
  qed
qed simp

section \<open>Initialisation\<close>

text \<open>The numbers of a layout, without wrap-around.\<close>

lemma footprint_numbers:
  assumes n: "0 < n" "unat n \<le> 2 ^ 32 - 512"
  defines "L \<equiv> (unat n + 511) div 512"
  shows "\<exists>k \<le> 17. fp_array1_slabs (bitmap_footprint n) = 2 ^ k \<and> L \<le> 64 * 2 ^ k \<and>
    unat (fp_array2_slabs (bitmap_footprint n)) = 8 * L \<and> unat (fp_array1_offset (bitmap_footprint n)) = 40 \<and>
    unat (fp_array2_offset (bitmap_footprint n)) = 64 * ((12 + 2 ^ k) div 8) \<and>
    unat (fp_total (bitmap_footprint n)) = 64 * ((12 + 2 ^ k) div 8) + 64 * L"
proof -
  have pos: "0 < unat n" using n(1) by (simp add: word_less_nat_alt)
  have L: "0 < L" "L < 2 ^ 23" unfolding L_def using n(2) pos by simp_all
  define lines where "lines = (n + 512 - 1) div 512"
  have "n + 512 - 1 = n + 511" by simp
  moreover have "unat (n + 511) = unat n + 511" using n(2) by (subst unat_add_lt) simp_all
  ultimately have "unat (n + 512 - 1) = unat n + 511" by metis
  then have lines: "unat lines = L" by (simp only: lines_def L_def unat_div) simp
  define K where "K = (lines + 64 - 1) div 64"
  have "lines + 64 - 1 = lines + 63" by simp
  moreover have "unat (lines + 63) = L + 63" using L lines by (subst unat_add_lt) simp_all
  ultimately have "unat (lines + 64 - 1) = L + 63" by metis
  then have K: "unat K = (L + 63) div 64" by (simp only: K_def unat_div) simp
  have "0 < unat K" "unat K \<le> 2 ^ 17" unfolding K using L by simp_all
  then have "K \<noteq> 0" "unat K \<le> 2 ^ 31" by auto
  then obtain k where k: "rte_align32pow2 K = 2 ^ k" "unat K \<le> 2 ^ k" "k = 0 \<or> 2 ^ (k - 1) < unat K"
    using align32pow2_run by blast
  have k17: "k \<le> 17"
  proof (cases "k = 0")
    case False
    then have "(2 :: nat) ^ (k - 1) < 2 ^ 17" using k(3) \<open>unat K \<le> 2 ^ 17\<close> by linarith
    then have "k - 1 < 17" by (rule power_less_imp_less_exp [rotated]) simp
    then show ?thesis by linarith
  qed simp
  have two: "unat (2 ^ k :: u32) = 2 ^ k" using k17 by (intro unat_pow2) simp
  have le: "(2 :: nat) ^ k \<le> 2 ^ 17" using k17 by (intro power_increasing) simp_all
  have fits: "L \<le> 64 * 2 ^ k" using k(2) K by linarith
  have a2: "unat (lines * 8) = 8 * L" using lines L(2) by (simp add: unat_word_ariths)
  define ctx where "ctx = (5 + 2 ^ k + 8 - 1 :: u32) div 8"
  have "(5 + 2 ^ k + 8 - 1 :: u32) = 12 + 2 ^ k" by simp
  moreover have "unat (12 + 2 ^ k :: u32) = 12 + 2 ^ k" using two le by (subst unat_add_lt) simp_all
  ultimately have "unat (5 + 2 ^ k + 8 - 1 :: u32) = 12 + 2 ^ k" by metis
  then have ctx: "unat ctx = (12 + 2 ^ k) div 8" by (simp only: ctx_def unat_div) simp
  have ctx_le: "(12 + (2 :: nat) ^ k) div 8 \<le> 2 ^ 15"
  proof -
    have "(12 + (2 :: nat) ^ k) div 8 \<le> (12 + 2 ^ 17) div 8" using le by (intro div_le_mono) simp
    then show ?thesis by simp
  qed
  have off2: "unat (ctx * 64) = 64 * ((12 + 2 ^ k) div 8)" using ctx ctx_le by (simp add: unat_word_ariths)
  have "unat (ctx + lines) = (12 + 2 ^ k) div 8 + L" using ctx ctx_le lines L(2) by (subst unat_add_lt) simp_all
  then have total: "unat ((ctx + lines) * 64) = 64 * ((12 + 2 ^ k) div 8) + 64 * L"
    using ctx_le L(2) ctx lines by (simp add: unat_word_ariths)
  have fp: "bitmap_footprint n = \<lparr>fp_total = (ctx + lines) * 64, fp_array1_offset = 40, fp_array1_slabs = 2 ^ k,
      fp_array2_offset = ctx * 64, fp_array2_slabs = lines * 8\<rparr>"
    unfolding bitmap_footprint_def Let_def lines_def [symmetric] K_def [symmetric] k(1) by (simp add: ctx_def)
  show ?thesis unfolding fp using k17 fits a2 off2 total by (intro exI [of _ k]) simp
qed

lemma wf_scan_init:
  assumes "bm_array1_size b = 2 ^ k" "k \<le> 17" "length (bm_array1 b) = 2 ^ k" "length (bm_array2 b) = unat (bm_array2_size b)"
    "8 dvd unat (bm_array2_size b)" "length (bm_array2 b) \<le> 512 * 2 ^ k" "levels_agree (bm_array1 b) (bm_array2 b)"
  shows "bitmap_wf (bitmap_scan_init b)" "bm_array1 (bitmap_scan_init b) = bm_array1 b"
    "bm_array2 (bitmap_scan_init b) = bm_array2 b" "bitmap_bits (bitmap_scan_init b) = bitmap_bits b"
proof -
  have two: "unat (2 ^ k :: u32) = 2 ^ k" using assms(2) by (intro unat_pow2) simp
  have "(2 ^ k :: u32) \<noteq> 0" using assms(2) by simp
  then have "unat (2 ^ k - 1 :: u32) = 2 ^ k - 1" using two by (simp add: unat_minus_one)
  then have "unat (2 ^ k - 1 :: u32) < 2 ^ k" by simp
  then show "bitmap_wf (bitmap_scan_init b)"
    using assms two by (auto simp: bitmap_wf_def bitmap_scan_init_def bitmap_index2_set_def Let_def)
qed (simp_all add: bitmap_scan_init_def bitmap_index2_set_def bitmap_bits_def Let_def)

lemma fold_clear:
  "i < 64 \<Longrightarrow> bit (fold (\<lambda>i w. w AND NOT (2 ^ i)) xs w) i \<longleftrightarrow> bit w i \<and> i \<notin> set xs" for w :: u64
  by (induction xs arbitrary: w) (auto simp: bit_and_iff bit_not_iff bit_flag)

text \<open>Clearing the overhead of an array of ones leaves ones exactly below the given position.\<close>

lemma overhead_spec:
  assumes m: "unat sz = m" and p: "unat pos \<le> 64 * m"
  shows "\<exists>r. bitmap_clear_slab_overhead_bits (replicate m (- 1)) sz pos = Some r \<and> length r = m \<and>
    (\<forall>j < m. \<forall>i < 64. bit (r ! j) i \<longleftrightarrow> 64 * j + i < unat pos)"
proof -
  let ?x = "unat pos div 64" and ?y = "unat pos mod 64"
  have x: "unat (pos div 64) = ?x" "unat (pos AND 63) = ?y" by (simp_all add: unat_div word63)
  have m32: "m < 2 ^ 32" using m unsigned_less [of sz, where 'a = nat] by simp
  define w where "w = fold (\<lambda>i w. w AND NOT (2 ^ i)) [?y..<64] (- 1 :: u64)"
  have w: "bit w i \<longleftrightarrow> i < ?y" if "i < 64" for i using that by (auto simp: w_def fold_clear)
  have zero: "\<not> bit (0 :: u64) i" for i by simp
  show ?thesis
  proof (cases "?y = 0")
    case True
    define r where "r = (if ?x < m then replicate ?x (- 1 :: u64) @ replicate (m - ?x) 0 else replicate m (- 1))"
    have "bitmap_clear_slab_overhead_bits (replicate m (- 1)) sz pos = Some r"
      using True x m by (auto simp: bitmap_clear_slab_overhead_bits_def Let_def r_def word_less_nat_alt unat_sub_le
          min_def simp flip: unat_eq_zero)
    moreover have "length r = m" by (simp add: r_def)
    moreover have "bit (r ! j) i \<longleftrightarrow> 64 * j + i < unat pos" if "j < m" "i < 64" for j i
    proof -
      have "64 * j + i < unat pos \<longleftrightarrow> j < ?x" using True that(2) by auto
      then show ?thesis using that p by (auto simp: r_def nth_append)
    qed
    ultimately show ?thesis by blast
  next
    case False
    have xm: "?x < m" using p False by (metis dvd_eq_mod_eq_0 dvd_triv_left le_neq_implies_less less_mult_imp_div_less mult.commute)
    then have "unat (pos div 64 + 1) = Suc ?x" using x(1) m32 by (subst unat_add_lt) simp_all
    then have inc: "unat (pos div 64 + 1) = Suc ?x" .
    define r where "r = replicate ?x (- 1 :: u64) @ w # replicate (m - Suc ?x) 0"
    have upd: "(replicate m (- 1 :: u64))[?x := w] = replicate ?x (- 1) @ w # replicate (m - Suc ?x) (- 1)"
      using xm by (intro nth_equalityI) (auto simp: nth_list_update nth_append nth_Cons')
    have "bitmap_clear_slab_overhead_bits (replicate m (- 1)) sz pos = Some r"
    proof (cases "Suc ?x < m")
      case True
      then show ?thesis using False x m xm inc
        by (simp add: bitmap_clear_slab_overhead_bits_def Let_def r_def word_less_nat_alt unat_sub_le slab_upd_def
            w_def [symmetric] upd min_def flip: unat_eq_zero)
    next
      case False': False
      then have "m - Suc ?x = 0" using xm by simp
      then show ?thesis using False False' x m xm inc
        by (simp add: bitmap_clear_slab_overhead_bits_def Let_def r_def word_less_nat_alt slab_upd_def
            w_def [symmetric] upd flip: unat_eq_zero)
    qed
    moreover have "length r = m" using xm by (simp add: r_def)
    moreover have "bit (r ! j) i \<longleftrightarrow> 64 * j + i < unat pos" if "j < m" "i < 64" for j i
    proof -
      consider "j < ?x" | "j = ?x" | "?x < j" by linarith
      then show ?thesis
      proof cases
        case 1
        then have "64 * j + i < unat pos" using that(2) by auto
        then show ?thesis using 1 that(2) by (simp add: r_def nth_append)
      next
        case 2
        have "64 * ?x + i < unat pos \<longleftrightarrow> i < ?y" by (metis add_less_cancel_left mult_div_mod_eq)
        then show ?thesis using 2 w [OF that(2)] by (simp add: r_def nth_append)
      next
        case 3
        then have "\<not> 64 * j + i < unat pos" by auto
        then show ?thesis using 3 that by (simp add: r_def nth_append nth_Cons')
      qed
    qed
    ultimately show ?thesis by blast
  qed
qed

lemma levels_agree_init:
  assumes lens: "length a1 = m1" "length a2 = 8 * L" and L: "L = (n + 511) div 512" "L \<le> 64 * m1"
    and a1: "\<And>j i. j < m1 \<Longrightarrow> i < 64 \<Longrightarrow> bit (a1 ! j) i \<longleftrightarrow> v \<and> 64 * j + i < L"
    and a2: "\<And>j i. j < 8 * L \<Longrightarrow> i < 64 \<Longrightarrow> bit (a2 ! j) i \<longleftrightarrow> v \<and> 64 * j + i < n"
  shows "levels_agree a1 a2"
  unfolding levels_agree_def
proof (intro allI impI)
  fix l assume l: "l < 64 * length a1"
  have "slab_at a2 j \<noteq> 0 \<longleftrightarrow> v \<and> j < 8 * L \<and> 64 * j < n" for j
  proof (cases "j < 8 * L")
    case True
    have "a2 ! j \<noteq> 0 \<longleftrightarrow> (\<exists>i < 64. bit (a2 ! j) i)" using word_nonzero_bit [of "a2 ! j"] by auto
    also have "\<dots> \<longleftrightarrow> v \<and> 64 * j < n" using a2 [OF True] by (auto intro!: exI [of _ 0])
    finally show ?thesis using True lens(2) by (simp add: slab_at_def)
  qed (simp add: slab_at_def lens(2))
  then have "line_used a2 l \<longleftrightarrow> v \<and> (\<exists>j < 8. 8 * l + j < 8 * L \<and> 64 * (8 * l + j) < n)" by (auto simp: line_used_def)
  also have "\<dots> \<longleftrightarrow> v \<and> l < L"
  proof -
    have "512 * l < n \<longleftrightarrow> l < L" unfolding L(1) by linarith
    then show ?thesis by (auto intro!: exI [of _ 0])
  qed
  also have "\<dots> \<longleftrightarrow> bit (a1 ! (l div 64)) (l mod 64)" using a1 [of "l div 64" "l mod 64"] l lens(1) by auto
  finally show "bit (a1 ! (l div 64)) (l mod 64) = line_used a2 l" by simp
qed

lemma init_spec:
  assumes n: "0 < n" "unat n \<le> 2 ^ 32 - 512"
  defines "fp \<equiv> bitmap_footprint n"
  shows "bitmap_wf (bitmap_scan_init (bitmap_layout fp 0)) \<and> bitmap_bits (bitmap_scan_init (bitmap_layout fp 0)) = {} \<and>
      unat n \<le> 64 * length (bm_array2 (bitmap_layout fp 0))"
    and "\<exists>a1 a2. bitmap_clear_slab_overhead_bits (bm_array1 (bitmap_scan_init (bitmap_layout fp (- 1))))
          (bm_array1_size (bitmap_scan_init (bitmap_layout fp (- 1)))) (drop_bit 3 (bm_array2_size (bitmap_scan_init (bitmap_layout fp (- 1))))) = Some a1 \<and>
        bitmap_clear_slab_overhead_bits (bm_array2 (bitmap_scan_init (bitmap_layout fp (- 1))))
          (bm_array2_size (bitmap_scan_init (bitmap_layout fp (- 1)))) n = Some a2 \<and>
        bitmap_wf ((bitmap_scan_init (bitmap_layout fp (- 1)))\<lparr>bm_array1 := a1, bm_array2 := a2\<rparr>) \<and>
        bitmap_bits ((bitmap_scan_init (bitmap_layout fp (- 1)))\<lparr>bm_array1 := a1, bm_array2 := a2\<rparr>) = {..<unat n}"
proof -
  define L where "L = (unat n + 511) div 512"
  obtain k where k: "k \<le> 17" "fp_array1_slabs fp = 2 ^ k" "L \<le> 64 * 2 ^ k" "unat (fp_array2_slabs fp) = 8 * L"
    using footprint_numbers [OF n] unfolding fp_def L_def by blast
  have two: "unat (2 ^ k :: u32) = 2 ^ k" using k(1) by (intro unat_pow2) simp
  have nL: "unat n \<le> 512 * L" unfolding L_def by linarith
  have sizes: "bm_array1_size (bitmap_layout fp v) = 2 ^ k" "length (bm_array1 (bitmap_layout fp v)) = 2 ^ k"
    "unat (bm_array2_size (bitmap_layout fp v)) = 8 * L" "length (bm_array2 (bitmap_layout fp v)) = 8 * L" for v
    using k two by (simp_all add: bitmap_layout_def)
  have "levels_agree (bm_array1 (bitmap_layout fp 0)) (bm_array2 (bitmap_layout fp 0))"
    by (rule levels_agree_init [OF sizes(2,4) L_def k(3), where v = False])
      (simp_all add: bitmap_layout_def k two)
  then have wf0: "bitmap_wf (bitmap_scan_init (bitmap_layout fp 0))"
    and same0: "bitmap_bits (bitmap_scan_init (bitmap_layout fp 0)) = bitmap_bits (bitmap_layout fp 0)"
    using wf_scan_init [OF sizes(1) k(1) sizes(2)] sizes k(3) by auto
  have "bitmap_bits (bitmap_layout fp 0) = {}" by (auto simp: bitmap_bits_def bitmap_layout_def)
  then show "bitmap_wf (bitmap_scan_init (bitmap_layout fp 0)) \<and> bitmap_bits (bitmap_scan_init (bitmap_layout fp 0)) = {} \<and>
      unat n \<le> 64 * length (bm_array2 (bitmap_layout fp 0))"
    using wf0 same0 sizes nL by simp
  let ?b = "bitmap_layout fp (- 1)"
  have b: "bm_array1 (bitmap_scan_init ?b) = replicate (2 ^ k) (- 1)" "bm_array2 (bitmap_scan_init ?b) = replicate (8 * L) (- 1)"
    "bm_array1_size (bitmap_scan_init ?b) = 2 ^ k" "bm_array2_size (bitmap_scan_init ?b) = fp_array2_slabs fp"
    using k two by (simp_all add: bitmap_scan_init_def bitmap_index2_set_def bitmap_layout_def Let_def)
  have pos1: "unat (drop_bit 3 (fp_array2_slabs fp)) = L" using k(4) by (simp add: drop_bit_eq_div unat_div)
  obtain a1 where a1: "bitmap_clear_slab_overhead_bits (replicate (2 ^ k) (- 1)) (2 ^ k) (drop_bit 3 (fp_array2_slabs fp)) = Some a1"
    "length a1 = 2 ^ k" "\<And>j i. j < 2 ^ k \<Longrightarrow> i < 64 \<Longrightarrow> bit (a1 ! j) i \<longleftrightarrow> 64 * j + i < L"
    using overhead_spec [OF two, of "drop_bit 3 (fp_array2_slabs fp)"] pos1 k(3) by auto
  obtain a2 where a2: "bitmap_clear_slab_overhead_bits (replicate (8 * L) (- 1)) (fp_array2_slabs fp) n = Some a2"
    "length a2 = 8 * L" "\<And>j i. j < 8 * L \<Longrightarrow> i < 64 \<Longrightarrow> bit (a2 ! j) i \<longleftrightarrow> 64 * j + i < unat n"
    using overhead_spec [OF k(4), of n] nL by auto
  let ?c = "?b\<lparr>bm_array1 := a1, bm_array2 := a2\<rparr>"
  have "levels_agree a1 a2" by (rule levels_agree_init [OF a1(2) a2(2) L_def k(3), where v = True]) (use a1(3) a2(3) in auto)
  then have "bitmap_wf (bitmap_scan_init ?c)" "bitmap_bits (bitmap_scan_init ?c) = bitmap_bits ?c"
    using wf_scan_init [of ?c k] sizes [of "- 1"] k(1,3) a1(2) a2(2) by auto
  moreover have "bitmap_bits ?c = {..<unat n}" using a2 nL by (auto simp: bitmap_bits_def)
  moreover have "bitmap_scan_init ?c = (bitmap_scan_init ?b)\<lparr>bm_array1 := a1, bm_array2 := a2\<rparr>"
    by (simp add: bitmap_scan_init_def bitmap_index2_set_def Let_def)
  ultimately show "\<exists>a1 a2. bitmap_clear_slab_overhead_bits (bm_array1 (bitmap_scan_init ?b))
          (bm_array1_size (bitmap_scan_init ?b)) (drop_bit 3 (bm_array2_size (bitmap_scan_init ?b))) = Some a1 \<and>
        bitmap_clear_slab_overhead_bits (bm_array2 (bitmap_scan_init ?b)) (bm_array2_size (bitmap_scan_init ?b)) n = Some a2 \<and>
        bitmap_wf ((bitmap_scan_init ?b)\<lparr>bm_array1 := a1, bm_array2 := a2\<rparr>) \<and>
        bitmap_bits ((bitmap_scan_init ?b)\<lparr>bm_array1 := a1, bm_array2 := a2\<rparr>) = {..<unat n}"
    unfolding b using a1(1) a2(1) by auto
qed

section \<open>Properties\<close>

text \<open>C15. The bitmap is a set of positions: for every position inside it, setting a bit inserts the
  position, clearing removes it, reading answers membership, and resetting empties the set. No access
  leaves the arrays, and the two levels always agree, in particular when the last bit of a line of
  512 is cleared.\<close>

theorem bitmap_is_a_set:
  assumes "bitmap_wf b" "unat pos < 64 * length (bm_array2 b)"
  shows "\<exists>v b1 b2. rte_bitmap_get b pos = Some v \<and> (v \<noteq> 0 \<longleftrightarrow> unat pos \<in> bitmap_bits b) \<and>
    rte_bitmap_set b pos = Some b1 \<and> bitmap_wf b1 \<and> bitmap_bits b1 = insert (unat pos) (bitmap_bits b) \<and>
    rte_bitmap_clear b pos = Some b2 \<and> bitmap_wf b2 \<and> bitmap_bits b2 = bitmap_bits b - {unat pos} \<and>
    bitmap_wf (rte_bitmap_reset b) \<and> bitmap_bits (rte_bitmap_reset b) = {}"
proof -
  let ?c = "b\<lparr>bm_array1 := replicate (unat (bm_array1_size b)) 0, bm_array2 := replicate (unat (bm_array2_size b)) 0\<rparr>"
  obtain k where k: "k \<le> 17" "bm_array1_size b = 2 ^ k" using assms(1) by (auto simp: bitmap_wf_def)
  have two: "unat (2 ^ k :: u32) = 2 ^ k" using k(1) by (intro unat_pow2) simp
  have "levels_agree (bm_array1 ?c) (bm_array2 ?c)" by (auto simp: levels_agree_def line_used_def slab_at_def)
  then have "bitmap_wf (rte_bitmap_reset b)" "bitmap_bits (rte_bitmap_reset b) = bitmap_bits ?c"
    unfolding rte_bitmap_reset_def using wf_scan_init [of ?c k] k two bitmap_wfD [OF assms(1)] by auto
  moreover have "bitmap_bits ?c = {}" by (auto simp: bitmap_bits_def)
  ultimately show ?thesis using get_spec [OF assms] set_spec [OF assms] clear_spec [OF assms] by metis
qed

text \<open>C14. No bit is forgotten by a scan: \<open>n\<close> scans in a row return the non-empty slabs, each with its
  position, in cyclic order from the place where the previous scan stopped, one slab per scan, again
  and again; they change neither level, and they return nothing exactly when no bit is set. The
  position is that of the first bit of the slab, 64 times the number of the slab, whether or not that
  bit is set: the comment of the function promises the position of the next set bit, which differs
  from it whenever bit 0 of the slab is clear.\<close>

theorem bitmap_scan_cycles:
  assumes "bitmap_wf b"
  shows "\<exists>b'. bitmap_scans n b = Some (if scan_hits b = [] then []
        else map (\<lambda>j. slab_out (bm_array2 b) (scan_hits b ! (j mod length (scan_hits b)))) [0..<n], b') \<and>
    bitmap_wf b' \<and> bm_array1 b' = bm_array1 b \<and> bm_array2 b' = bm_array2 b \<and>
    distinct (scan_hits b) \<and> set (scan_hits b) = {p div 64 |p. p \<in> bitmap_bits b} \<and>
    (\<forall>i \<in> set (scan_hits b). unat (fst (slab_out (bm_array2 b) i)) = 64 * i \<and>
       (\<forall>q < 64. bit (snd (slab_out (bm_array2 b) i)) q \<longleftrightarrow> 64 * i + q \<in> bitmap_bits b))"
proof -
  have "distinct (scan_hits b)" by (auto simp: scan_hits_def scan_order_def)
  moreover have hits: "set (scan_hits b) = {i. i < length (bm_array2 b) \<and> bm_array2 b ! i \<noteq> 0}"
    using scan_cursor_le [OF assms] bitmap_wfD(7) [OF assms] by (auto simp: scan_hits_def scan_order_def slab_at_def)
  moreover have "{i. i < length (bm_array2 b) \<and> bm_array2 b ! i \<noteq> 0} = {p div 64 |p. p \<in> bitmap_bits b}" (is "?A = ?B")
  proof (intro equalityI subsetI)
    fix i assume i: "i \<in> ?A"
    then obtain q where "q < 64" "bit (bm_array2 b ! i) q" using word_nonzero_bit [of "bm_array2 b ! i"] by auto
    then have "64 * i + q \<in> bitmap_bits b" "(64 * i + q) div 64 = i" using i by (auto simp: bitmap_bits_def)
    then show "i \<in> ?B" by (metis (mono_tags, lifting) mem_Collect_eq)
  next
    fix i assume "i \<in> ?B"
    then show "i \<in> ?A" by (auto simp: bitmap_bits_def)
  qed
  moreover have "unat (fst (slab_out (bm_array2 b) i)) = 64 * i" "\<And>q. q < 64 \<Longrightarrow>
      bit (snd (slab_out (bm_array2 b) i)) q \<longleftrightarrow> 64 * i + q \<in> bitmap_bits b" if "i \<in> set (scan_hits b)" for i
  proof -
    have i: "i < length (bm_array2 b)" using that hits by auto
    then have "64 * i < 2 ^ LENGTH(32)" using bitmap_wfD(2) [OF assms] by simp
    then have "unat (of_nat (64 * i) :: u32) = 64 * i" by (simp only: unat_of_nat mod_less)
    then show "unat (fst (slab_out (bm_array2 b) i)) = 64 * i" by (simp add: slab_out_def)
    show "bit (snd (slab_out (bm_array2 b) i)) q \<longleftrightarrow> 64 * i + q \<in> bitmap_bits b" if "q < 64" for q
      using that i by (auto simp: slab_out_def slab_at_def bitmap_bits_def)
  qed
  ultimately show ?thesis using scans_spec [OF assms, of n] by auto
qed

text \<open>Initialisation: up to 2^32 - 512 bits the two arrays lie inside the computed block, one behind
  the other. The plain initialisation succeeds exactly when the block is large enough, with the empty
  set and room for all bits. The one with all bits set has its size check the wrong way round: it
  refuses a block that is larger than needed, writes behind the end of one that is too small, and
  only for the exact size yields the set of all positions below the number of bits.\<close>

theorem bitmap_init_exact:
  assumes "0 < n" "unat n \<le> 2 ^ 32 - 512" "mem \<noteq> 0" "mem AND 63 = 0"
  defines "fp \<equiv> bitmap_footprint n"
  shows "unat (fp_array1_offset fp) + 8 * unat (fp_array1_slabs fp) \<le> unat (fp_array2_offset fp) \<and>
    unat (fp_array2_offset fp) + 8 * unat (fp_array2_slabs fp) = unat (rte_bitmap_get_memory_footprint n) \<and>
    (case rte_bitmap_init n mem sz of
       None \<Rightarrow> sz < rte_bitmap_get_memory_footprint n
     | Some b \<Rightarrow> rte_bitmap_get_memory_footprint n \<le> sz \<and> bitmap_wf b \<and> bitmap_bits b = {} \<and> unat n \<le> 64 * length (bm_array2 b)) \<and>
    (case rte_bitmap_init_with_all_set n mem sz of
       None \<Rightarrow> sz < rte_bitmap_get_memory_footprint n
     | Some None \<Rightarrow> rte_bitmap_get_memory_footprint n < sz
     | Some (Some b) \<Rightarrow> sz = rte_bitmap_get_memory_footprint n \<and> bitmap_wf b \<and> bitmap_bits b = {..<unat n})"
proof -
  obtain k where k: "k \<le> 17" "fp_array1_slabs fp = 2 ^ k"
    "unat (fp_array2_slabs fp) = 8 * ((unat n + 511) div 512)" "unat (fp_array1_offset fp) = 40"
    "unat (fp_array2_offset fp) = 64 * ((12 + 2 ^ k) div 8)"
    "unat (fp_total fp) = 64 * ((12 + 2 ^ k) div 8) + 64 * ((unat n + 511) div 512)"
    using footprint_numbers [OF assms(1,2)] unfolding fp_def by blast
  have two: "unat (2 ^ k :: u32) = 2 ^ k" using k(1) by (intro unat_pow2) simp
  have n0: "n \<noteq> 0" using assms(1) by auto
  then have total: "rte_bitmap_get_memory_footprint n = fp_total fp" by (simp add: rte_bitmap_get_memory_footprint_def fp_def)
  have arrays: "unat (fp_array1_offset fp) + 8 * unat (fp_array1_slabs fp) \<le> unat (fp_array2_offset fp)"
    "unat (fp_array2_offset fp) + 8 * unat (fp_array2_slabs fp) = unat (fp_total fp)"
    using k two by auto
  have plain: "case rte_bitmap_init n mem sz of None \<Rightarrow> sz < fp_total fp
     | Some b \<Rightarrow> fp_total fp \<le> sz \<and> bitmap_wf b \<and> bitmap_bits b = {} \<and> unat n \<le> 64 * length (bm_array2 b)"
  proof (cases "sz < fp_total fp")
    case False
    then have "rte_bitmap_init n mem sz = Some (bitmap_scan_init (bitmap_layout fp 0))"
      using n0 assms(3,4) by (simp add: rte_bitmap_init_def Let_def fp_def)
    moreover have "bm_array2 (bitmap_scan_init (bitmap_layout fp 0)) = bm_array2 (bitmap_layout fp 0)"
      by (simp add: bitmap_scan_init_def bitmap_index2_set_def Let_def)
    ultimately show ?thesis using init_spec(1) [OF assms(1,2)] False by (simp add: fp_def not_less)
  next
    case True
    then show ?thesis using n0 assms(3,4) by (simp add: rte_bitmap_init_def Let_def fp_def)
  qed
  obtain a1 a2 where a: "bitmap_clear_slab_overhead_bits (bm_array1 (bitmap_scan_init (bitmap_layout fp (- 1))))
        (bm_array1_size (bitmap_scan_init (bitmap_layout fp (- 1)))) (drop_bit 3 (bm_array2_size (bitmap_scan_init (bitmap_layout fp (- 1))))) = Some a1"
      "bitmap_clear_slab_overhead_bits (bm_array2 (bitmap_scan_init (bitmap_layout fp (- 1))))
        (bm_array2_size (bitmap_scan_init (bitmap_layout fp (- 1)))) n = Some a2"
      "bitmap_wf ((bitmap_scan_init (bitmap_layout fp (- 1)))\<lparr>bm_array1 := a1, bm_array2 := a2\<rparr>)"
      "bitmap_bits ((bitmap_scan_init (bitmap_layout fp (- 1)))\<lparr>bm_array1 := a1, bm_array2 := a2\<rparr>) = {..<unat n}"
    using init_spec(2) [OF assms(1,2)] unfolding fp_def by blast
  have "rte_bitmap_init_with_all_set n mem sz = (if fp_total fp < sz then Some None else if sz < fp_total fp then None
      else Some (Some ((bitmap_scan_init (bitmap_layout fp (- 1)))\<lparr>bm_array1 := a1, bm_array2 := a2\<rparr>)))"
    using n0 assms(3,4) a(1,2) by (simp add: rte_bitmap_init_with_all_set_def Let_def fp_def)
  then have "case rte_bitmap_init_with_all_set n mem sz of None \<Rightarrow> sz < fp_total fp | Some None \<Rightarrow> fp_total fp < sz
     | Some (Some b) \<Rightarrow> sz = fp_total fp \<and> bitmap_wf b \<and> bitmap_bits b = {..<unat n}"
    using a(3,4) by auto
  then show ?thesis using arrays plain unfolding total by (intro conjI) assumption+
qed

section \<open>Examples\<close>

definition ex_bitmap :: rte_bitmap where
  "ex_bitmap = bitmap_scan_init (bitmap_layout (bitmap_footprint 1000) 0)"

lemma ex_bitmap_wf: "bitmap_wf ex_bitmap" "1000 \<le> 64 * length (bm_array2 ex_bitmap)"
  using init_spec(1) [of 1000] by (auto simp: ex_bitmap_def bitmap_scan_init_def bitmap_index2_set_def Let_def)

theorem bitmap_is_a_set_witness:
  "\<exists>b. rte_bitmap_set ex_bitmap 700 = Some b \<and> bitmap_wf b \<and> 700 \<in> bitmap_bits b"
  using bitmap_is_a_set [OF ex_bitmap_wf(1), of 700] ex_bitmap_wf(2) by auto

theorem bitmap_scan_cycles_witness:
  "\<exists>b outs b'. rte_bitmap_set ex_bitmap 700 = Some b \<and> bitmap_scans 3 b = Some (outs, b')"
proof -
  obtain b where b: "rte_bitmap_set ex_bitmap 700 = Some b" "bitmap_wf b"
    using set_spec [OF ex_bitmap_wf(1), of 700] ex_bitmap_wf(2) by auto
  then show ?thesis using bitmap_scan_cycles [OF b(2), of 3] by blast
qed

theorem bitmap_init_exact_witness:
  "rte_bitmap_init_with_all_set 1000 64 100 = None \<and> rte_bitmap_init_with_all_set 1000 64 4096 = Some None"
proof -
  have f: "rte_bitmap_get_memory_footprint 1000 = 192"
    by (simp add: rte_bitmap_get_memory_footprint_def bitmap_footprint_def Let_def rte_align32pow2_def
        rte_combine32ms1b_def)
  show ?thesis
    using bitmap_init_exact [of 1000 64 100] bitmap_init_exact [of 1000 64 4096] unfolding f
    by (simp split: option.splits)
qed

end
