(* ===== verification/Reservations.thy ===== *)
theory Reservations
  imports Main
begin

text \<open>
  Positions handed out in order by a head counter and given back in order by a tail counter: the
  common shape of the shared ring and the ticket lock. At any time the active threads tile the
  positions between the two.
\<close>

definition tiled :: "('t \<Rightarrow> (nat \<times> nat) option) \<Rightarrow> nat \<Rightarrow> nat \<Rightarrow> bool" where
  "tiled act lo hi \<longleftrightarrow> lo \<le> hi \<and>
     (\<forall>t g n. act t = Some (g, n) \<longrightarrow> lo \<le> g \<and> 0 < n \<and> g + n \<le> hi) \<and>
     (\<forall>t t' g n g' n'. act t = Some (g, n) \<longrightarrow> act t' = Some (g', n') \<longrightarrow> t \<noteq> t' \<longrightarrow> g + n \<le> g' \<or> g' + n' \<le> g) \<and>
     (\<forall>p. lo \<le> p \<longrightarrow> p < hi \<longrightarrow> (\<exists>t g n. act t = Some (g, n) \<and> g \<le> p \<and> p < g + n))"

lemma tiledD:
  assumes "tiled act lo hi"
  shows "lo \<le> hi" "act t = Some (g, n) \<Longrightarrow> lo \<le> g \<and> 0 < n \<and> g + n \<le> hi"
    "act t = Some (g, n) \<Longrightarrow> act t' = Some (g', n') \<Longrightarrow> t \<noteq> t' \<Longrightarrow> g + n \<le> g' \<or> g' + n' \<le> g"
    "lo \<le> p \<Longrightarrow> p < hi \<Longrightarrow> \<exists>t g n. act t = Some (g, n) \<and> g \<le> p \<and> p < g + n"
  using assms unfolding tiled_def by blast+

lemma tiled_reserve:
  assumes t: "tiled act lo hi" "act t = None" "0 < n"
  shows "tiled (act(t := Some (hi, n))) lo (hi + n)"
  unfolding tiled_def
proof (intro conjI allI impI)
  fix p assume p: "lo \<le> p" "p < hi + n"
  show "\<exists>t' g n'. (act(t := Some (hi, n))) t' = Some (g, n') \<and> g \<le> p \<and> p < g + n'"
  proof (cases "p < hi")
    case True
    then obtain t' g n' where "act t' = Some (g, n')" "g \<le> p" "p < g + n'" using tiledD(4) [OF t(1) p(1)] by blast
    then show ?thesis using t(2) by (intro exI [of _ t'] exI [of _ g] exI [of _ n']) auto
  next
    case False
    then show ?thesis using p by (intro exI [of _ t] exI [of _ hi] exI [of _ n]) simp
  qed
next
  fix t1 t2 g1 n1 g2 n2
  assume a: "(act(t := Some (hi, n))) t1 = Some (g1, n1)" "(act(t := Some (hi, n))) t2 = Some (g2, n2)" "t1 \<noteq> t2"
  then show "g1 + n1 \<le> g2 \<or> g2 + n2 \<le> g1"
    using tiledD(2,3) [OF t(1)] by (auto split: if_splits)
next
  fix t' g n' assume "(act(t := Some (hi, n))) t' = Some (g, n')"
  then show "lo \<le> g" "0 < n'" "g + n' \<le> hi + n"
    using tiledD(1,2) [OF t(1)] t(3) by (auto split: if_splits intro: trans_le_add1)
qed (use tiledD(1) [OF t(1)] in auto)

lemma tiled_release:
  assumes t: "tiled act lo hi" "act t = Some (lo, n)"
  shows "tiled (act(t := None)) (lo + n) hi"
  unfolding tiled_def
proof (intro conjI allI impI)
  show "lo + n \<le> hi" using tiledD(2) [OF t] by simp
next
  fix t' g n' assume a: "(act(t := None)) t' = Some (g, n')"
  then have "act t' = Some (g, n')" "t' \<noteq> t" by (auto split: if_splits)
  then show "lo + n \<le> g" "0 < n'" "g + n' \<le> hi"
    using tiledD(3) [OF t(1,2), of t' g n'] tiledD(2) [OF t(1), of t' g n'] by auto
next
  fix p assume p: "lo + n \<le> p" "p < hi"
  then obtain t' g n' where "act t' = Some (g, n')" "g \<le> p" "p < g + n'" using tiledD(4) [OF t(1), of p] by auto
  then show "\<exists>t' g n'. (act(t := None)) t' = Some (g, n') \<and> g \<le> p \<and> p < g + n'"
    using t(2) p(1) by (intro exI [of _ t'] exI [of _ g] exI [of _ n']) auto
qed (use tiledD(3) [OF t(1)] in \<open>auto split: if_splits\<close>)

text \<open>Some active thread holds the first position.\<close>

lemma tiled_first:
  assumes "tiled act lo hi" "lo < hi"
  shows "\<exists>t n. act t = Some (lo, n)"
proof -
  obtain t g n where t: "act t = Some (g, n)" "g \<le> lo" "lo < g + n" using tiledD(4) [OF assms(1), of lo] assms(2) by auto
  then have "g = lo" using tiledD(2) [OF assms(1) t(1)] by simp
  then show ?thesis using t(1) by blast
qed

lemma tiled_inj: "tiled act lo hi \<Longrightarrow> act t = Some (g, n) \<Longrightarrow> act t' = Some (g, n') \<Longrightarrow> t = t'"
  using tiledD(2,3) [of act lo hi] by (metis add.commute add_le_same_cancel2 le_zero_eq less_not_refl2)

text \<open>When every thread holds one position there are at most as many positions as threads.\<close>

lemma tiled_units_le:
  assumes "tiled act lo hi" "\<And>t g n. act t = Some (g, n) \<Longrightarrow> n = 1 \<and> t < (N :: nat)"
  shows "hi - lo \<le> N"
proof -
  have "{lo..<hi} \<subseteq> (\<lambda>t. fst (the (act t))) ` {..<N}"
  proof
    fix p assume "p \<in> {lo..<hi}"
    then obtain t g n where t: "act t = Some (g, n)" "g \<le> p" "p < g + n" using tiledD(4) [OF assms(1), of p] by auto
    then have "g = p" "t < N" using assms(2) [OF t(1)] by simp_all
    then show "p \<in> (\<lambda>t. fst (the (act t))) ` {..<N}" using t(1) by force
  qed
  then have "card {lo..<hi} \<le> card {..<N}" by (rule surj_card_le [rotated]) simp
  then show ?thesis by simp
qed

end
