(* ===== verification/Rte_Ring_Concurrent.thy ===== *)
theory Rte_Ring_Concurrent
  imports Rte_Ring_Correct Reservations "HOL-Library.Sublist"
begin

text \<open>
  The ring shared by any number of producers and consumers in the default synchronisation mode. A
  thread is a small machine whose steps are the single accesses to the shared words and slots in
  \<open>__rte_ring_do_enqueue_elem\<close> and \<open>__rte_ring_do_dequeue_elem\<close>: load the own head, load the opposite
  tail and size the move, compare and swap the head, copy one object, wait for the tail and publish.
  Threads interleave arbitrarily; the barriers of the code make the order of these accesses the
  program order. The state carries history: what was reserved, published and taken so far.
\<close>

section \<open>Threads\<close>

text \<open>The last component of each active phase is history: the number of objects ever reserved when the
  head was loaded.\<close>

datatype 'a prod_pc =
    P_idle
  | P_begin "'a list" rte_ring_queue_behavior
  | P_head "'a list" rte_ring_queue_behavior u32 nat
  | P_room "'a list" rte_ring_queue_behavior u32 u32 nat
  | P_copy "'a list" u32 nat nat

datatype 'a cons_pc =
    C_idle
  | C_begin u32 rte_ring_queue_behavior
  | C_head u32 rte_ring_queue_behavior u32 nat
  | C_room u32 rte_ring_queue_behavior u32 u32 nat
  | C_copy u32 u32 "'a list" nat

record 'a mring =
  m_mask :: u32
  m_capacity :: u32
  m_prod_head :: u32
  m_prod_tail :: u32
  m_cons_head :: u32
  m_cons_tail :: u32
  m_slots :: "'a list"
  m_prod :: "nat \<Rightarrow> 'a prod_pc"
  m_cons :: "nat \<Rightarrow> 'a cons_pc"
  h_log :: "'a list"
  h_puts :: "'a list"
  h_taken :: nat
  h_gots :: "'a list"

section \<open>Steps\<close>

text \<open>One step of producer \<open>t\<close> inside a call; \<open>None\<close> while it has to wait for the tail.\<close>

definition producer_step :: "nat \<Rightarrow> 'a mring \<Rightarrow> 'a mring option" where
  "producer_step t s = (let goto = (\<lambda>pc s. s\<lparr>m_prod := (m_prod s)(t := pc)\<rparr>) in
     case m_prod s t of
       P_idle \<Rightarrow> None
     | P_begin objs behavior \<Rightarrow> Some (goto (P_head objs behavior (m_prod_head s) (length (h_log s))) s)
     | P_head objs behavior old_head g \<Rightarrow>
         (let free_entries = m_capacity s + m_cons_tail s - old_head;
              n = clip behavior (of_nat (length objs)) free_entries
          in if n = 0 then Some (goto P_idle s) else Some (goto (P_room objs behavior old_head n g) s))
     | P_room objs behavior old_head n g \<Rightarrow>
         (case rte_atomic32_cmpset (m_prod_head s) old_head (old_head + n) of
            (True, head) \<Rightarrow> Some (goto (P_copy (take (unat n) objs) old_head 0 g)
               (s\<lparr>m_prod_head := head, h_log := h_log s @ take (unat n) objs\<rparr>))
          | (False, _) \<Rightarrow> Some (goto (P_begin objs behavior) s))
     | P_copy objs old_head i g \<Rightarrow>
         if i < length objs then
           Some (goto (P_copy objs old_head (Suc i) g)
             (s\<lparr>m_slots := (m_slots s)[unat ((old_head + of_nat i) AND m_mask s) := objs ! i]\<rparr>))
         else if m_prod_tail s = old_head then
           Some (goto P_idle (s\<lparr>m_prod_tail := old_head + of_nat (length objs), h_puts := h_puts s @ objs\<rparr>))
         else None)"

definition consumer_step :: "nat \<Rightarrow> 'a mring \<Rightarrow> 'a mring option" where
  "consumer_step t s = (let goto = (\<lambda>pc s. s\<lparr>m_cons := (m_cons s)(t := pc)\<rparr>) in
     case m_cons s t of
       C_idle \<Rightarrow> None
     | C_begin n behavior \<Rightarrow> Some (goto (C_head n behavior (m_cons_head s) (h_taken s)) s)
     | C_head n behavior old_head g \<Rightarrow>
         (let entries = m_prod_tail s - old_head;
              k = clip behavior n entries
          in if k = 0 then Some (goto C_idle s) else Some (goto (C_room n behavior old_head k g) s))
     | C_room n behavior old_head k g \<Rightarrow>
         (case rte_atomic32_cmpset (m_cons_head s) old_head (old_head + k) of
            (True, head) \<Rightarrow> Some (goto (C_copy old_head k [] g) (s\<lparr>m_cons_head := head, h_taken := h_taken s + unat k\<rparr>))
          | (False, _) \<Rightarrow> Some (goto (C_begin n behavior) s))
     | C_copy old_head k objs g \<Rightarrow>
         if length objs < unat k then
           Some (goto (C_copy old_head k (objs @ [m_slots s ! unat ((old_head + of_nat (length objs)) AND m_mask s)]) g) s)
         else if m_cons_tail s = old_head then
           Some (goto C_idle (s\<lparr>m_cons_tail := old_head + k, h_gots := h_gots s @ objs\<rparr>))
         else None)"

text \<open>The compare and swap is sound as long as a thread is not overtaken by 2^32 objects between
  loading the head and swapping it, when the 32-bit head would be the same again.\<close>

definition not_lapped :: "nat \<Rightarrow> 'a mring \<Rightarrow> bool" where
  "not_lapped t s \<longleftrightarrow>
     (case m_prod s t of P_room _ _ _ _ g \<Rightarrow> length (h_log s) < g + 2 ^ 32 | _ \<Rightarrow> True) \<and>
     (case m_cons s t of C_room _ _ _ _ g \<Rightarrow> h_taken s < g + 2 ^ 32 | _ \<Rightarrow> True)"

inductive ring_step :: "'a mring \<Rightarrow> 'a mring \<Rightarrow> bool" where
  call_enqueue: "m_prod s t = P_idle \<Longrightarrow> length objs < 2 ^ 32 \<Longrightarrow>
    ring_step s (s\<lparr>m_prod := (m_prod s)(t := P_begin objs behavior)\<rparr>)"
| call_dequeue: "m_cons s t = C_idle \<Longrightarrow> ring_step s (s\<lparr>m_cons := (m_cons s)(t := C_begin n behavior)\<rparr>)"
| produce: "not_lapped t s \<Longrightarrow> producer_step t s = Some s' \<Longrightarrow> ring_step s s'"
| consume: "not_lapped t s \<Longrightarrow> consumer_step t s = Some s' \<Longrightarrow> ring_step s s'"

text \<open>A new ring of \<open>2 ^ k\<close> slots with arbitrary contents.\<close>

definition new_ring :: "nat \<Rightarrow> u32 \<Rightarrow> 'a list \<Rightarrow> 'a mring" where
  "new_ring k capacity slots = \<lparr>m_mask = 2 ^ k - 1, m_capacity = capacity, m_prod_head = 0, m_prod_tail = 0,
     m_cons_head = 0, m_cons_tail = 0, m_slots = slots, m_prod = (\<lambda>_. P_idle), m_cons = (\<lambda>_. C_idle),
     h_log = [], h_puts = [], h_taken = 0, h_gots = []\<rparr>"

inductive ring_run :: "'a mring \<Rightarrow> 'a mring \<Rightarrow> bool" where
  start: "ring_run s s"
| more: "ring_run s s' \<Longrightarrow> ring_step s' s'' \<Longrightarrow> ring_run s s''"

section \<open>Invariant\<close>

definition prod_range :: "'a prod_pc \<Rightarrow> (nat \<times> nat) option" where
  "prod_range pc = (case pc of P_copy objs _ _ g \<Rightarrow> Some (g, length objs) | _ \<Rightarrow> None)"

definition cons_range :: "'a cons_pc \<Rightarrow> (nat \<times> nat) option" where
  "cons_range pc = (case pc of C_copy _ k _ g \<Rightarrow> Some (g, unat k) | _ \<Rightarrow> None)"

text \<open>The slot of position \<open>p\<close> holds the object reserved for it.\<close>

definition slot_ok :: "'a mring \<Rightarrow> nat \<Rightarrow> bool" where
  "slot_ok s p \<longleftrightarrow> m_slots s ! (p mod length (m_slots s)) = h_log s ! p"

definition prod_ok :: "'a mring \<Rightarrow> 'a prod_pc \<Rightarrow> bool" where
  "prod_ok s pc \<longleftrightarrow> (case pc of
     P_idle \<Rightarrow> True
   | P_begin objs _ \<Rightarrow> length objs < 2 ^ 32
   | P_head objs _ h g \<Rightarrow> length objs < 2 ^ 32 \<and> h = of_nat g \<and> g \<le> length (h_log s)
   | P_room objs _ h n g \<Rightarrow> length objs < 2 ^ 32 \<and> h = of_nat g \<and> g \<le> length (h_log s) \<and> n \<noteq> 0 \<and> unat n \<le> length objs \<and>
       (g = length (h_log s) \<longrightarrow> g + unat n \<le> length (h_gots s) + unat (m_capacity s))
   | P_copy objs h i g \<Rightarrow> h = of_nat g \<and> i \<le> length objs \<and> objs = take (length objs) (drop g (h_log s)) \<and>
       (\<forall>j < i. slot_ok s (g + j)))"

definition cons_ok :: "'a mring \<Rightarrow> 'a cons_pc \<Rightarrow> bool" where
  "cons_ok s pc \<longleftrightarrow> (case pc of
     C_idle \<Rightarrow> True
   | C_begin _ _ \<Rightarrow> True
   | C_head _ _ h g \<Rightarrow> h = of_nat g \<and> g \<le> h_taken s
   | C_room _ _ h k g \<Rightarrow> h = of_nat g \<and> g \<le> h_taken s \<and> k \<noteq> 0 \<and> (g = h_taken s \<longrightarrow> g + unat k \<le> length (h_puts s))
   | C_copy h k objs g \<Rightarrow> h = of_nat g \<and> length objs \<le> unat k \<and> objs = take (length objs) (drop g (h_log s)))"

definition words_ok :: "'a mring \<Rightarrow> bool" where
  "words_ok s \<longleftrightarrow> (\<exists>k < 32. m_mask s = 2 ^ k - 1 \<and> length (m_slots s) = 2 ^ k) \<and> unat (m_capacity s) < length (m_slots s) \<and>
     m_prod_head s = of_nat (length (h_log s)) \<and> m_prod_tail s = of_nat (length (h_puts s)) \<and>
     m_cons_head s = of_nat (h_taken s) \<and> m_cons_tail s = of_nat (length (h_gots s))"

definition order_ok :: "'a mring \<Rightarrow> bool" where
  "order_ok s \<longleftrightarrow> tiled (\<lambda>t. prod_range (m_prod s t)) (length (h_puts s)) (length (h_log s)) \<and>
     tiled (\<lambda>t. cons_range (m_cons s t)) (length (h_gots s)) (h_taken s) \<and>
     h_taken s \<le> length (h_puts s) \<and> length (h_log s) \<le> length (h_gots s) + unat (m_capacity s) \<and>
     h_puts s = take (length (h_puts s)) (h_log s) \<and> h_gots s = take (length (h_gots s)) (h_log s) \<and>
     (\<forall>p. length (h_gots s) \<le> p \<longrightarrow> p < length (h_puts s) \<longrightarrow> slot_ok s p)"

definition mring_inv :: "'a mring \<Rightarrow> bool" where
  "mring_inv s \<longleftrightarrow> words_ok s \<and> order_ok s \<and> (\<forall>t. prod_ok s (m_prod s t)) \<and> (\<forall>t. cons_ok s (m_cons s t))"

lemma mring_invD:
  assumes "mring_inv s"
  shows "words_ok s" "order_ok s" "prod_ok s (m_prod s t)" "cons_ok s (m_cons s t)"
  using assms by (auto simp: mring_inv_def)

lemma order_okD:
  assumes "order_ok s"
  shows "tiled (\<lambda>t. prod_range (m_prod s t)) (length (h_puts s)) (length (h_log s))"
    "tiled (\<lambda>t. cons_range (m_cons s t)) (length (h_gots s)) (h_taken s)"
    "h_taken s \<le> length (h_puts s)" "length (h_log s) \<le> length (h_gots s) + unat (m_capacity s)"
    "h_puts s = take (length (h_puts s)) (h_log s)" "h_gots s = take (length (h_gots s)) (h_log s)"
    "length (h_gots s) \<le> p \<Longrightarrow> p < length (h_puts s) \<Longrightarrow> slot_ok s p"
    "length (h_gots s) \<le> h_taken s" "length (h_puts s) \<le> length (h_log s)"
  using assms tiledD(1) by (auto simp: order_ok_def)

lemma words_okD:
  assumes "words_ok s"
  shows "unat (m_capacity s) < length (m_slots s)" "m_prod_head s = of_nat (length (h_log s))"
    "m_prod_tail s = of_nat (length (h_puts s))" "m_cons_head s = of_nat (h_taken s)" "m_cons_tail s = of_nat (length (h_gots s))"
    "length (m_slots s) < 2 ^ 32" "unat ((of_nat g + of_nat i) AND m_mask s) = (g + i) mod length (m_slots s)"
proof -
  obtain k where k: "k < 32" "m_mask s = 2 ^ k - 1" "length (m_slots s) = 2 ^ k" using assms by (auto simp: words_ok_def)
  have "(2 :: nat) ^ k < 2 ^ 32" using k(1) by (intro power_strict_increasing) simp_all
  then show "length (m_slots s) < 2 ^ 32" using k(3) by simp
  have "unat ((of_nat (g + i) :: u32) AND mask k) = (g + i) mod 2 ^ k"
    unfolding unat_and_mask unat_of_nat using k(1) by (intro mod_mod_cancel le_imp_power_dvd) simp
  then show "unat ((of_nat g + of_nat i) AND m_mask s) = (g + i) mod length (m_slots s)"
    using k(2,3) by (simp add: mask_eq_decr_exp)
qed (use assms in \<open>auto simp: words_ok_def\<close>)

text \<open>Words that stand for nearby numbers are equal only if the numbers are.\<close>

lemma of_nat_u32_eq: "(of_nat a :: u32) = of_nat b \<Longrightarrow> a \<le> b \<Longrightarrow> b < a + 2 ^ 32 \<Longrightarrow> a = b"
proof -
  assume a: "(of_nat a :: u32) = of_nat b" "a \<le> b" "b < a + 2 ^ 32"
  then have "(of_nat (b - a) :: u32) = 0" by (simp add: of_nat_diff)
  then have "unat (of_nat (b - a) :: u32) = 0" by simp
  then have "(b - a) mod 2 ^ 32 = 0" by (simp add: unat_of_nat)
  moreover have "b - a < 2 ^ 32" using a(2,3) by simp
  ultimately show "a = b" using a(2) by simp
qed

lemma unat_diff_u32: "b \<le> a \<Longrightarrow> a - b < 2 ^ 32 \<Longrightarrow> unat (of_nat a - of_nat b :: u32) = a - b"
proof -
  assume a: "b \<le> a" "a - b < 2 ^ 32"
  have eq: "(of_nat a - of_nat b :: u32) = of_nat (a - b)" using a(1) by (simp add: of_nat_diff)
  show ?thesis unfolding eq unat_of_nat using a(2) by simp
qed

lemma slots_differ:
  fixes a b n c :: nat
  assumes "c < n" "lo \<le> a" "a < lo + c" "lo \<le> b" "b < lo + c" "a \<noteq> b"
  shows "a mod n \<noteq> b mod n"
proof -
  have "x mod n \<noteq> y mod n" if "x < y" "y < x + n" for x y
  proof
    assume "x mod n = y mod n"
    then have "n dvd y - x" using that(1) by (metis less_imp_le mod_eq_dvd_iff_nat)
    then have "n \<le> y - x" using that(1) by (intro dvd_imp_le) simp_all
    then show False using that by simp
  qed
  note differ = this
  show ?thesis
  proof (cases "a < b")
    case True
    then show ?thesis using differ [of a b] assms by linarith
  next
    case False
    then show ?thesis using differ [of b a] assms by linarith
  qed
qed

section \<open>Local steps\<close>

lemma prod_goto:
  assumes "mring_inv s" "prod_range pc = prod_range (m_prod s t)" "prod_ok s pc"
  shows "mring_inv (s\<lparr>m_prod := (m_prod s)(t := pc)\<rparr>)"
proof -
  let ?s = "s\<lparr>m_prod := (m_prod s)(t := pc)\<rparr>"
  have "(\<lambda>t'. prod_range (m_prod ?s t')) = (\<lambda>t'. prod_range (m_prod s t'))" using assms(2) by auto
  moreover have "prod_ok ?s = prod_ok s" "cons_ok ?s = cons_ok s" "slot_ok ?s = slot_ok s"
    by (auto simp: prod_ok_def cons_ok_def slot_ok_def fun_eq_iff split: prod_pc.splits cons_pc.splits)
  ultimately show ?thesis using assms(1,3) by (auto simp: mring_inv_def words_ok_def order_ok_def)
qed

lemma cons_goto:
  assumes "mring_inv s" "cons_range pc = cons_range (m_cons s t)" "cons_ok s pc"
  shows "mring_inv (s\<lparr>m_cons := (m_cons s)(t := pc)\<rparr>)"
proof -
  let ?s = "s\<lparr>m_cons := (m_cons s)(t := pc)\<rparr>"
  have "(\<lambda>t'. cons_range (m_cons ?s t')) = (\<lambda>t'. cons_range (m_cons s t'))" using assms(2) by auto
  moreover have "prod_ok ?s = prod_ok s" "cons_ok ?s = cons_ok s" "slot_ok ?s = slot_ok s"
    by (auto simp: prod_ok_def cons_ok_def slot_ok_def fun_eq_iff split: prod_pc.splits cons_pc.splits)
  ultimately show ?thesis using assms(1,3) by (auto simp: mring_inv_def words_ok_def order_ok_def)
qed

lemma prod_range_bounds:
  assumes "order_ok s" "m_prod s t = P_copy objs h i g"
  shows "length (h_puts s) \<le> g" "0 < length objs" "g + length objs \<le> length (h_log s)"
  using tiledD(2) [OF order_okD(1) [OF assms(1)], of t g "length objs"] assms(2) by (simp_all add: prod_range_def)

lemma cons_range_bounds:
  assumes "order_ok s" "m_cons s t = C_copy h k objs g"
  shows "length (h_gots s) \<le> g" "0 < unat k" "g + unat k \<le> h_taken s"
  using tiledD(2) [OF order_okD(2) [OF assms(1)], of t g "unat k"] assms(2) by (simp_all add: cons_range_def)

lemma mring_inv_copy:
  assumes "mring_inv s" "m_prod s t = P_copy objs h i g"
  shows "h = of_nat g" "i \<le> length objs" "objs = take (length objs) (drop g (h_log s))" "\<And>j. j < i \<Longrightarrow> slot_ok s (g + j)"
  using mring_invD(3) [OF assms(1), of t] assms(2) by (simp_all add: prod_ok_def)

text \<open>Reserving room for objects.\<close>

lemma prod_reserve:
  assumes inv: "mring_inv s" and pc: "m_prod s t = P_room objs behavior h n g" and head: "m_prod_head s = h"
    and lap: "length (h_log s) < g + 2 ^ 32"
  shows "mring_inv (s\<lparr>m_prod_head := h + n, h_log := h_log s @ take (unat n) objs,
      m_prod := (m_prod s)(t := P_copy (take (unat n) objs) h 0 g)\<rparr>)" (is "mring_inv ?s")
proof -
  note w = mring_invD(1) [OF inv] and ord = mring_invD(2) [OF inv]
  have p: "h = of_nat g" "g \<le> length (h_log s)" "n \<noteq> 0" "unat n \<le> length objs"
    "g = length (h_log s) \<longrightarrow> g + unat n \<le> length (h_gots s) + unat (m_capacity s)"
    using mring_invD(3) [OF inv, of t] pc by (simp_all add: prod_ok_def)
  have g: "g = length (h_log s)"
    using of_nat_u32_eq [of g "length (h_log s)"] head p(1,2) words_okD(2) [OF w] lap by simp
  have n: "0 < unat n" using p(3) by (simp add: unat_gt_0)
  have len: "length (take (unat n) objs) = unat n" using p(4) by simp
  have slot: "slot_ok ?s q = slot_ok s q" if "q < length (h_log s)" for q using that by (simp add: slot_ok_def nth_append)
  have words: "words_ok ?s" using w p(1) g len by (auto simp: words_ok_def)
  have "(\<lambda>t'. prod_range (m_prod ?s t')) = (\<lambda>t'. prod_range (m_prod s t'))(t := Some (length (h_log s), unat n))"
    using len g by (auto simp: prod_range_def fun_eq_iff)
  moreover have "prod_range (m_prod s t) = None" using pc by (simp add: prod_range_def)
  ultimately have "tiled (\<lambda>t'. prod_range (m_prod ?s t')) (length (h_puts s)) (length (h_log s) + unat n)"
    using tiled_reserve [OF order_okD(1) [OF ord], of t "unat n"] n by simp
  then have order: "order_ok ?s"
    using order_okD(2-6) [OF ord] order_okD(7) [OF ord] p(5) g len slot order_okD(8,9) [OF ord]
    unfolding order_ok_def by auto
  have others: "prod_ok ?s (m_prod s t')" for t'
  proof (cases "m_prod s t'")
    case (P_copy xs h' i' g')
    note b = prod_range_bounds [OF ord P_copy] and c = mring_inv_copy [OF inv P_copy]
    have "slot_ok ?s (g' + j)" if "j < i'" for j using slot [of "g' + j"] c(2,4) b(3) that by simp
    then show ?thesis using P_copy b c by (simp add: prod_ok_def)
  next
    case (P_room objs' b' h' n' g')
    then show ?thesis using mring_invD(3) [OF inv, of t'] n len by (auto simp: prod_ok_def)
  qed (use mring_invD(3) [OF inv, of t'] in \<open>auto simp: prod_ok_def\<close>)
  have own: "prod_ok ?s (P_copy (take (unat n) objs) h 0 g)" using p(1,4) g by (simp add: prod_ok_def)
  have "cons_ok ?s (m_cons s t')" for t'
  proof (cases "m_cons s t'")
    case (C_copy h' k' xs g')
    note b = cons_range_bounds [OF ord C_copy]
    have c: "h' = of_nat g'" "length xs \<le> unat k'" "xs = take (length xs) (drop g' (h_log s))"
      using mring_invD(4) [OF inv, of t'] C_copy by (simp_all add: cons_ok_def)
    have "g' + length xs \<le> length (h_log s)" using b(3) c(2) order_okD(3,9) [OF ord] by linarith
    then show ?thesis using C_copy c by (simp add: cons_ok_def)
  qed (use mring_invD(4) [OF inv, of t'] in \<open>auto simp: cons_ok_def\<close>)
  then show ?thesis using words order others own by (auto simp: mring_inv_def)
qed

text \<open>Copying one object into its slot.\<close>

lemma prod_write:
  assumes inv: "mring_inv s" and pc: "m_prod s t = P_copy objs h i g" and i: "i < length objs"
  shows "mring_inv (s\<lparr>m_slots := (m_slots s)[unat ((h + of_nat i) AND m_mask s) := objs ! i],
      m_prod := (m_prod s)(t := P_copy objs h (Suc i) g)\<rparr>)" (is "mring_inv ?s")
proof -
  note w = mring_invD(1) [OF inv] and ord = mring_invD(2) [OF inv]
  note b = prod_range_bounds [OF ord pc] and c = mring_inv_copy [OF inv pc]
  let ?N = "length (m_slots s)" and ?q = "g + i"
  have idx: "unat ((h + of_nat i) AND m_mask s) = ?q mod ?N" unfolding c(1) by (rule words_okD(7) [OF w])
  have N: "0 < ?N" using words_okD(1) [OF w] by linarith
  have obj: "objs ! i = h_log s ! ?q"
  proof -
    have "objs ! i = take (length objs) (drop g (h_log s)) ! i" using c(3) by simp
    then show ?thesis using i b(3) by simp
  qed
  have q: "?q < length (h_log s)" "length (h_puts s) \<le> ?q" using i b by simp_all
  have at: "slot_ok ?s ?q" using N obj by (simp add: slot_ok_def idx)
  have other: "slot_ok ?s p = slot_ok s p" if "length (h_gots s) \<le> p" "p < length (h_log s)" "p \<noteq> ?q" for p
  proof -
    have "p mod ?N \<noteq> ?q mod ?N"
      by (rule slots_differ [OF words_okD(1) [OF w], of "length (h_gots s)"])
        (use that q order_okD(4,8,3) [OF ord] in linarith)+
    then show ?thesis by (simp add: slot_ok_def idx)
  qed
  have gots: "length (h_gots s) \<le> length (h_puts s)" using order_okD(3,8) [OF ord] by simp
  have words: "words_ok ?s" using w by (simp add: words_ok_def)
  have "(\<lambda>t'. prod_range (m_prod ?s t')) = (\<lambda>t'. prod_range (m_prod s t'))"
    using pc by (auto simp: prod_range_def)
  moreover have "slot_ok ?s p" if "length (h_gots s) \<le> p" "p < length (h_puts s)" for p
    using order_okD(7,9) [OF ord] other [of p] q(2) that by auto
  ultimately have order: "order_ok ?s" using ord by (auto simp: order_ok_def)
  have others: "prod_ok ?s (m_prod s t')" if "t' \<noteq> t" for t'
  proof (cases "m_prod s t'")
    case (P_copy xs h' i' g')
    note b' = prod_range_bounds [OF ord P_copy] and c' = mring_inv_copy [OF inv P_copy]
    have "g + length objs \<le> g' \<or> g' + length xs \<le> g"
      using tiledD(3) [OF order_okD(1) [OF ord], of t g "length objs" t' g' "length xs"] pc P_copy that
      by (auto simp: prod_range_def)
    then have "slot_ok ?s (g' + j)" if "j < i'" for j
      using other [of "g' + j"] c'(2,4) b' gots that i by auto
    then show ?thesis using P_copy b' c' by (simp add: prod_ok_def)
  qed (use mring_invD(3) [OF inv, of t'] in \<open>auto simp: prod_ok_def\<close>)
  have "slot_ok ?s (g + j)" if "j < Suc i" for j
    using at other [of "g + j"] c(4) b gots that i by (cases "j = i") auto
  then have own: "prod_ok ?s (P_copy objs h (Suc i) g)" using c(1,3) i by (simp add: prod_ok_def)
  have "cons_ok ?s = cons_ok s" by (auto simp: cons_ok_def fun_eq_iff split: cons_pc.splits)
  then show ?thesis using words order others own mring_invD(4) [OF inv] by (auto simp: mring_inv_def)
qed

text \<open>Publishing what was copied.\<close>

lemma prod_publish:
  assumes inv: "mring_inv s" and pc: "m_prod s t = P_copy objs h (length objs) g" and tail: "m_prod_tail s = h"
  shows "mring_inv (s\<lparr>m_prod_tail := h + of_nat (length objs), h_puts := h_puts s @ objs,
      m_prod := (m_prod s)(t := P_idle)\<rparr>)" (is "mring_inv ?s") and "g = length (h_puts s)"
proof -
  note w = mring_invD(1) [OF inv] and ord = mring_invD(2) [OF inv]
  note b = prod_range_bounds [OF ord pc] and c = mring_inv_copy [OF inv pc]
  have "g < length (h_puts s) + 2 ^ 32"
    using b order_okD(3,4,8,9) [OF ord] words_okD(1,6) [OF w] by linarith
  then show g: "g = length (h_puts s)"
    using of_nat_u32_eq [of "length (h_puts s)" g] tail c(1) b(1) words_okD(3) [OF w] by simp
  have words: "words_ok ?s" using w c(1) g by (auto simp: words_ok_def)
  have "(\<lambda>t'. prod_range (m_prod ?s t')) = (\<lambda>t'. prod_range (m_prod s t'))(t := None)"
    by (auto simp: prod_range_def fun_eq_iff)
  moreover have "prod_range (m_prod s t) = Some (length (h_puts s), length objs)" using pc g by (simp add: prod_range_def)
  ultimately have tl: "tiled (\<lambda>t'. prod_range (m_prod ?s t')) (length (h_puts s) + length objs) (length (h_log s))"
    using tiled_release [OF order_okD(1) [OF ord], of t "length objs"] by simp
  have puts: "h_puts s @ objs = take (length (h_puts s) + length objs) (h_log s)"
    using order_okD(5) [OF ord] c(3) g by (metis take_add)
  have slot: "slot_ok ?s p = slot_ok s p" for p by (simp add: slot_ok_def)
  have filled: "slot_ok s p" if "length (h_gots s) \<le> p" "p < length (h_puts s) + length objs" for p
    using order_okD(7) [OF ord] c(4) [of "p - length (h_puts s)"] g that by (cases "p < length (h_puts s)") auto
  have order: "order_ok ?s"
    unfolding order_ok_def slot using tl puts [symmetric] filled order_okD(2,3,4,6) [OF ord] by simp
  have "prod_ok ?s = prod_ok s" by (auto simp: prod_ok_def slot fun_eq_iff split: prod_pc.splits)
  moreover have "cons_ok ?s (m_cons s t')" for t'
    using mring_invD(4) [OF inv, of t'] by (auto simp: cons_ok_def split: cons_pc.splits)
  moreover have "prod_ok s P_idle" by (simp add: prod_ok_def)
  ultimately show "mring_inv ?s" using words order mring_invD(3) [OF inv] by (auto simp: mring_inv_def)
qed

text \<open>The same for a consumer.\<close>

lemma cons_reserve:
  assumes inv: "mring_inv s" and pc: "m_cons s t = C_room m behavior h k g" and head: "m_cons_head s = h"
    and lap: "h_taken s < g + 2 ^ 32"
  shows "mring_inv (s\<lparr>m_cons_head := h + k, h_taken := h_taken s + unat k,
      m_cons := (m_cons s)(t := C_copy h k [] g)\<rparr>)" (is "mring_inv ?s")
proof -
  note w = mring_invD(1) [OF inv] and ord = mring_invD(2) [OF inv]
  have p: "h = of_nat g" "g \<le> h_taken s" "k \<noteq> 0" "g = h_taken s \<longrightarrow> g + unat k \<le> length (h_puts s)"
    using mring_invD(4) [OF inv, of t] pc by (simp_all add: cons_ok_def)
  have g: "g = h_taken s"
    using of_nat_u32_eq [of g "h_taken s"] head p(1,2) words_okD(4) [OF w] lap by simp
  have k: "0 < unat k" using p(3) by (simp add: unat_gt_0)
  have words: "words_ok ?s" using w p(1) g by (auto simp: words_ok_def)
  have "(\<lambda>t'. cons_range (m_cons ?s t')) = (\<lambda>t'. cons_range (m_cons s t'))(t := Some (h_taken s, unat k))"
    using g by (auto simp: cons_range_def fun_eq_iff)
  moreover have "cons_range (m_cons s t) = None" using pc by (simp add: cons_range_def)
  ultimately have tl: "tiled (\<lambda>t'. cons_range (m_cons ?s t')) (length (h_gots s)) (h_taken s + unat k)"
    using tiled_reserve [OF order_okD(2) [OF ord], of t "unat k"] k by simp
  have slot: "slot_ok ?s = slot_ok s" by (auto simp: slot_ok_def)
  have order: "order_ok ?s" unfolding order_ok_def slot
    using tl order_okD(1,4,5,6) [OF ord] order_okD(7) [OF ord] p(4) g by simp
  have "prod_ok ?s = prod_ok s" by (auto simp: prod_ok_def slot fun_eq_iff split: prod_pc.splits)
  moreover have "cons_ok ?s (m_cons s t')" for t'
    using mring_invD(4) [OF inv, of t'] k by (auto simp: cons_ok_def split: cons_pc.splits)
  moreover have "cons_ok ?s (C_copy h k [] g)" using p(1) by (simp add: cons_ok_def)
  ultimately show ?thesis using words order mring_invD(3) [OF inv] by (auto simp: mring_inv_def)
qed

lemma cons_read:
  assumes inv: "mring_inv s" and pc: "m_cons s t = C_copy h k objs g" and i: "length objs < unat k"
  shows "mring_inv (s\<lparr>m_cons := (m_cons s)(t :=
      C_copy h k (objs @ [m_slots s ! unat ((h + of_nat (length objs)) AND m_mask s)]) g)\<rparr>)"
proof (rule cons_goto [OF inv])
  note w = mring_invD(1) [OF inv] and ord = mring_invD(2) [OF inv]
  note b = cons_range_bounds [OF ord pc]
  have c: "h = of_nat g" "objs = take (length objs) (drop g (h_log s))"
    using mring_invD(4) [OF inv, of t] pc by (simp_all add: cons_ok_def)
  let ?q = "g + length objs"
  have q: "length (h_gots s) \<le> ?q" "?q < length (h_puts s)" "?q < length (h_log s)"
    using b i order_okD(3,9) [OF ord] by linarith+
  have "m_slots s ! unat ((h + of_nat (length objs)) AND m_mask s) = h_log s ! ?q"
    using order_okD(7) [OF ord q(1,2)] unfolding c(1) words_okD(7) [OF w] slot_ok_def .
  moreover have "take (Suc (length objs)) (drop g (h_log s)) = objs @ [h_log s ! ?q]"
  proof -
    have "take (Suc (length objs)) (drop g (h_log s)) = take (length objs) (drop g (h_log s)) @ [drop g (h_log s) ! length objs]"
      using q(3) by (intro take_Suc_conv_app_nth) simp
    then show ?thesis using c(2) q(3) by simp
  qed
  ultimately show "cons_ok s (C_copy h k (objs @ [m_slots s ! unat ((h + of_nat (length objs)) AND m_mask s)]) g)"
    using c(1) i by (simp add: cons_ok_def)
qed (simp add: pc cons_range_def)

lemma cons_publish:
  assumes inv: "mring_inv s" and pc: "m_cons s t = C_copy h k objs g" and full: "\<not> length objs < unat k"
    and tail: "m_cons_tail s = h"
  shows "mring_inv (s\<lparr>m_cons_tail := h + k, h_gots := h_gots s @ objs, m_cons := (m_cons s)(t := C_idle)\<rparr>)" (is "mring_inv ?s")
proof -
  note w = mring_invD(1) [OF inv] and ord = mring_invD(2) [OF inv]
  note b = cons_range_bounds [OF ord pc]
  have "cons_ok s (C_copy h k objs g)" using mring_invD(4) [OF inv, of t] pc by simp
  then have c: "h = of_nat g" "objs = take (length objs) (drop g (h_log s))" "length objs \<le> unat k"
    unfolding cons_ok_def by simp_all
  have c2: "length objs = unat k" using c(3) full by simp
  have "g < length (h_gots s) + 2 ^ 32"
    using b order_okD(3,4,8,9) [OF ord] words_okD(1,6) [OF w] by linarith
  then have g: "g = length (h_gots s)"
    using of_nat_u32_eq [of "length (h_gots s)" g] tail c(1) b(1) words_okD(5) [OF w] by simp
  have words: "words_ok ?s" using w c(1) c2 g by (auto simp: words_ok_def)
  have "(\<lambda>t'. cons_range (m_cons ?s t')) = (\<lambda>t'. cons_range (m_cons s t'))(t := None)"
    by (auto simp: cons_range_def fun_eq_iff)
  moreover have "cons_range (m_cons s t) = Some (length (h_gots s), unat k)" using pc g by (simp add: cons_range_def)
  ultimately have tl: "tiled (\<lambda>t'. cons_range (m_cons ?s t')) (length (h_gots s) + length objs) (h_taken s)"
    using tiled_release [OF order_okD(2) [OF ord], of t "unat k"] c2 by simp
  have gots: "h_gots s @ objs = take (length (h_gots s) + length objs) (h_log s)"
    using order_okD(6) [OF ord] c(2) g by (metis take_add)
  have slot: "slot_ok ?s = slot_ok s" by (auto simp: slot_ok_def)
  have order: "order_ok ?s"
    unfolding order_ok_def slot using tl gots [symmetric] order_okD(1,3,4,5) [OF ord] order_okD(7) [OF ord] by simp
  have "prod_ok ?s (m_prod s t')" for t'
    using mring_invD(3) [OF inv, of t'] by (auto simp: prod_ok_def slot split: prod_pc.splits)
  moreover have "cons_ok ?s = cons_ok s" by (auto simp: cons_ok_def fun_eq_iff split: cons_pc.splits)
  moreover have "cons_ok s C_idle" by (simp add: cons_ok_def)
  ultimately show ?thesis using words order mring_invD(4) [OF inv] by (auto simp: mring_inv_def)
qed

section \<open>Every step keeps the invariant\<close>

lemma prod_size:
  assumes inv: "mring_inv s" and pc: "m_prod s t = P_head objs behavior h g"
    and n: "n = clip behavior (of_nat (length objs)) (m_capacity s + m_cons_tail s - h)" "n \<noteq> 0"
  shows "prod_ok s (P_room objs behavior h n g)"
proof -
  note w = mring_invD(1) [OF inv] and ord = mring_invD(2) [OF inv]
  have p: "length objs < 2 ^ 32" "h = of_nat g" "g \<le> length (h_log s)"
    using mring_invD(3) [OF inv, of t] pc by (simp_all add: prod_ok_def)
  have "n \<le> of_nat (length objs)" "n \<le> m_capacity s + m_cons_tail s - h" unfolding n(1) by (rule clip_le)+
  then have le: "unat n \<le> length objs" "unat n \<le> unat (m_capacity s + m_cons_tail s - h)"
    using unat_len [OF p(1)] by (simp_all add: word_le_nat_alt)
  have "g + unat n \<le> length (h_gots s) + unat (m_capacity s)" if g: "g = length (h_log s)"
  proof -
    have "m_capacity s + m_cons_tail s - h = of_nat (length (h_gots s) + unat (m_capacity s)) - of_nat g"
      using words_okD(5) [OF w] p(2) by simp
    moreover have "g \<le> length (h_gots s) + unat (m_capacity s)" "length (h_gots s) + unat (m_capacity s) - g < 2 ^ 32"
      using g order_okD(3,4,8,9) [OF ord] words_okD(1,6) [OF w] by linarith+
    ultimately have "unat (m_capacity s + m_cons_tail s - h) = length (h_gots s) + unat (m_capacity s) - g"
      using unat_diff_u32 by metis
    then show ?thesis using le(2) \<open>g \<le> length (h_gots s) + unat (m_capacity s)\<close> by linarith
  qed
  then show ?thesis using p n(2) le(1) by (simp add: prod_ok_def)
qed

lemma cons_size:
  assumes inv: "mring_inv s" and pc: "m_cons s t = C_head n behavior h g"
    and k: "k = clip behavior n (m_prod_tail s - h)" "k \<noteq> 0"
  shows "cons_ok s (C_room n behavior h k g)"
proof -
  note w = mring_invD(1) [OF inv] and ord = mring_invD(2) [OF inv]
  have p: "h = of_nat g" "g \<le> h_taken s" using mring_invD(4) [OF inv, of t] pc by (simp_all add: cons_ok_def)
  have "k \<le> m_prod_tail s - h" unfolding k(1) by (rule clip_le)
  then have le: "unat k \<le> unat (m_prod_tail s - h)" by (simp add: word_le_nat_alt)
  have "g + unat k \<le> length (h_puts s)" if g: "g = h_taken s"
  proof -
    have "m_prod_tail s - h = of_nat (length (h_puts s)) - of_nat g" using words_okD(3) [OF w] p(1) by simp
    moreover have b: "g \<le> length (h_puts s)" "length (h_puts s) - g < 2 ^ 32"
      using g order_okD(3,4,8,9) [OF ord] words_okD(1,6) [OF w] by linarith+
    ultimately have "unat (m_prod_tail s - h) = length (h_puts s) - g" using unat_diff_u32 by metis
    then show ?thesis using le b(1) by linarith
  qed
  then show ?thesis using p k(2) by (simp add: cons_ok_def)
qed

lemma produce_inv:
  assumes inv: "mring_inv s" and lap: "not_lapped t s" and step: "producer_step t s = Some s'"
  shows "mring_inv s'"
proof (cases "m_prod s t")
  case P_idle
  then show ?thesis using step by (simp add: producer_step_def)
next
  case (P_begin objs behavior)
  then have s': "s' = s\<lparr>m_prod := (m_prod s)(t := P_head objs behavior (m_prod_head s) (length (h_log s)))\<rparr>"
    using step by (simp add: producer_step_def)
  show ?thesis unfolding s'
    by (rule prod_goto [OF inv])
      (use P_begin mring_invD(3) [OF inv, of t] words_okD(2) [OF mring_invD(1) [OF inv]] in \<open>simp_all add: prod_range_def prod_ok_def\<close>)
next
  case (P_head objs behavior h g)
  let ?n = "clip behavior (of_nat (length objs)) (m_capacity s + m_cons_tail s - h)"
  have s': "s' = s\<lparr>m_prod := (m_prod s)(t := if ?n = 0 then P_idle else P_room objs behavior h ?n g)\<rparr>"
    using step P_head by (auto simp: producer_step_def Let_def split: if_splits)
  show ?thesis unfolding s'
    by (rule prod_goto [OF inv])
      (use P_head prod_size [OF inv P_head refl] in \<open>auto simp: prod_range_def prod_ok_def\<close>)
next
  case (P_room objs behavior h n g)
  show ?thesis
  proof (cases "m_prod_head s = h")
    case True
    have "length (h_log s) < g + 2 ^ 32" using lap P_room by (simp add: not_lapped_def)
    then show ?thesis using prod_reserve [OF inv P_room True] step P_room True
      by (simp add: producer_step_def rte_atomic32_cmpset_def)
  next
    case False
    then have s': "s' = s\<lparr>m_prod := (m_prod s)(t := P_begin objs behavior)\<rparr>"
      using step P_room by (simp add: producer_step_def rte_atomic32_cmpset_def)
    show ?thesis unfolding s'
      by (rule prod_goto [OF inv]) (use P_room mring_invD(3) [OF inv, of t] in \<open>simp_all add: prod_range_def prod_ok_def\<close>)
  qed
next
  case (P_copy objs h i g)
  show ?thesis
  proof (cases "i < length objs")
    case True
    then show ?thesis using prod_write [OF inv P_copy True] step P_copy by (simp add: producer_step_def Let_def)
  next
    case False
    then have "i = length objs" using mring_inv_copy(2) [OF inv P_copy] by simp
    moreover have "m_prod_tail s = h" using step P_copy False by (simp add: producer_step_def Let_def split: if_splits)
    ultimately show ?thesis using prod_publish(1) [OF inv, of t objs h g] step P_copy by (simp add: producer_step_def Let_def)
  qed
qed

lemma consume_inv:
  assumes inv: "mring_inv s" and lap: "not_lapped t s" and step: "consumer_step t s = Some s'"
  shows "mring_inv s'"
proof (cases "m_cons s t")
  case C_idle
  then show ?thesis using step by (simp add: consumer_step_def)
next
  case (C_begin n behavior)
  then have s': "s' = s\<lparr>m_cons := (m_cons s)(t := C_head n behavior (m_cons_head s) (h_taken s))\<rparr>"
    using step by (simp add: consumer_step_def)
  show ?thesis unfolding s'
    by (rule cons_goto [OF inv])
      (use C_begin words_okD(4) [OF mring_invD(1) [OF inv]] in \<open>simp_all add: cons_range_def cons_ok_def\<close>)
next
  case (C_head n behavior h g)
  let ?k = "clip behavior n (m_prod_tail s - h)"
  have s': "s' = s\<lparr>m_cons := (m_cons s)(t := if ?k = 0 then C_idle else C_room n behavior h ?k g)\<rparr>"
    using step C_head by (auto simp: consumer_step_def Let_def split: if_splits)
  show ?thesis unfolding s'
    by (rule cons_goto [OF inv])
      (use C_head cons_size [OF inv C_head refl] in \<open>auto simp: cons_range_def cons_ok_def\<close>)
next
  case (C_room n behavior h k g)
  show ?thesis
  proof (cases "m_cons_head s = h")
    case True
    have "h_taken s < g + 2 ^ 32" using lap C_room by (simp add: not_lapped_def)
    then show ?thesis using cons_reserve [OF inv C_room True] step C_room True
      by (simp add: consumer_step_def rte_atomic32_cmpset_def)
  next
    case False
    then have s': "s' = s\<lparr>m_cons := (m_cons s)(t := C_begin n behavior)\<rparr>"
      using step C_room by (simp add: consumer_step_def rte_atomic32_cmpset_def)
    show ?thesis unfolding s'
      by (rule cons_goto [OF inv]) (use C_room in \<open>simp_all add: cons_range_def cons_ok_def\<close>)
  qed
next
  case (C_copy h k objs g)
  show ?thesis
  proof (cases "length objs < unat k")
    case True
    then show ?thesis using cons_read [OF inv C_copy True] step C_copy by (simp add: consumer_step_def Let_def)
  next
    case False
    moreover have "m_cons_tail s = h" using step C_copy False by (simp add: consumer_step_def Let_def split: if_splits)
    ultimately show ?thesis using cons_publish [OF inv C_copy] step C_copy by (simp add: consumer_step_def Let_def)
  qed
qed

lemma step_inv:
  assumes "ring_step s s'" "mring_inv s"
  shows "mring_inv s'"
  using assms(1)
proof cases
  case (call_enqueue t objs behavior)
  then show ?thesis using prod_goto [OF assms(2), of "P_begin objs behavior" t] by (simp add: prod_range_def prod_ok_def)
next
  case (call_dequeue t n behavior)
  then show ?thesis using cons_goto [OF assms(2), of "C_begin n behavior" t] by (simp add: cons_range_def cons_ok_def)
next
  case (produce t)
  then show ?thesis using produce_inv [OF assms(2)] by blast
next
  case (consume t)
  then show ?thesis using consume_inv [OF assms(2)] by blast
qed

lemma new_ring_inv:
  assumes "k < 32" "length slots = 2 ^ k" "unat capacity < 2 ^ k"
  shows "mring_inv (new_ring k capacity slots)"
  using assms
  by (auto simp: mring_inv_def words_ok_def order_ok_def new_ring_def tiled_def prod_range_def cons_range_def prod_ok_def cons_ok_def)

lemma run_inv: "ring_run s s' \<Longrightarrow> mring_inv s \<Longrightarrow> mring_inv s'"
  by (induction rule: ring_run.induct) (auto intro: step_inv)

section \<open>Properties\<close>

text \<open>C4. A ring shared by any number of producers and consumers is a FIFO queue, however their steps
  interleave: what completed dequeues have delivered, in the order they complete, is a prefix of
  what completed enqueues have published, in the order they complete; never more than the capacity
  lies between; and a dequeue in progress has read exactly the objects of its own stretch of that
  sequence, which no other dequeue shares. (Provided no thread is overtaken by 2^32 objects between
  loading a head and swapping it.)\<close>

theorem ring_mpmc_fifo:
  assumes "ring_run (new_ring k capacity slots) s" "k < 32" "length slots = 2 ^ k" "unat capacity < 2 ^ k"
  shows "prefix (h_gots s) (h_puts s) \<and> length (h_puts s) \<le> length (h_gots s) + unat capacity \<and>
    (\<forall>t h n objs g. m_cons s t = C_copy h n objs g \<longrightarrow>
       objs = take (length objs) (drop g (h_puts s)) \<and> length (h_gots s) \<le> g \<and> g + unat n \<le> length (h_puts s) \<and>
       (\<forall>t' h' n' objs' g'. m_cons s t' = C_copy h' n' objs' g' \<longrightarrow> t' \<noteq> t \<longrightarrow> g + unat n \<le> g' \<or> g' + unat n' \<le> g))"
proof -
  have inv: "mring_inv s" using run_inv [OF assms(1)] new_ring_inv [OF assms(2-4)] .
  note ord = mring_invD(2) [OF inv]
  have cap: "m_capacity s = capacity" using assms(1)
  proof (induction "new_ring k capacity slots" s rule: ring_run.induct)
    case (more s' s'')
    from more(3,2) show ?case
      by (induction rule: ring_step.induct)
        (auto simp: producer_step_def consumer_step_def Let_def rte_atomic32_cmpset_def split: prod_pc.splits cons_pc.splits if_splits)
  qed (simp add: new_ring_def)
  have "prefix (h_gots s) (h_puts s)"
  proof -
    have "length (h_gots s) \<le> length (h_puts s)" using order_okD(3,8) [OF ord] by simp
    then have "h_gots s = take (length (h_gots s)) (h_puts s)"
      using order_okD(5,6) [OF ord] by (metis min.absorb1 take_take)
    then show ?thesis by (metis take_is_prefix)
  qed
  moreover have "length (h_puts s) \<le> length (h_gots s) + unat capacity" using order_okD(4,9) [OF ord] cap by simp
  moreover have "objs = take (length objs) (drop g (h_puts s)) \<and> length (h_gots s) \<le> g \<and> g + unat n \<le> length (h_puts s)"
    if pc: "m_cons s t = C_copy h n objs g" for t h n objs g
  proof -
    note b = cons_range_bounds [OF ord pc]
    have c: "length objs \<le> unat n" "objs = take (length objs) (drop g (h_log s))"
      using mring_invD(4) [OF inv, of t] pc by (simp_all add: cons_ok_def)
    have le: "g + length objs \<le> length (h_puts s)" using b(3) c(1) order_okD(3) [OF ord] by linarith
    have "take (length objs) (drop g (h_puts s)) = take (length objs) (drop g (take (length (h_puts s)) (h_log s)))"
      using order_okD(5) [OF ord] by simp
    also have "\<dots> = take (length objs) (drop g (h_log s))" using le by (simp add: drop_take)
    finally show ?thesis using b c(2) order_okD(3) [OF ord] by simp
  qed
  moreover have "g + unat n \<le> g' \<or> g' + unat n' \<le> g"
    if "m_cons s t = C_copy h n objs g" "m_cons s t' = C_copy h' n' objs' g'" "t' \<noteq> t" for t h n objs g t' h' n' objs' g'
    using tiledD(3) [OF order_okD(2) [OF ord], of t g "unat n" t' g' "unat n'"] that by (auto simp: cons_range_def)
  ultimately show ?thesis by blast
qed

text \<open>C8. The ring never deadlocks: whenever a call is in progress, some thread inside a call can make a
  step, although threads wait for each other to publish in order. A compare and swap only fails
  because another thread has reserved objects since the head was loaded.\<close>

theorem ring_mpmc_progress:
  assumes "ring_run (new_ring k capacity slots) s" "k < 32" "length slots = 2 ^ k" "unat capacity < 2 ^ k"
    and "m_prod s t \<noteq> P_idle \<or> m_cons s t \<noteq> C_idle"
  shows "(\<exists>t' s'. producer_step t' s = Some s' \<or> consumer_step t' s = Some s') \<and>
    (\<forall>objs behavior h n g. m_prod s t = P_room objs behavior h n g \<longrightarrow> m_prod_head s \<noteq> h \<longrightarrow> g < length (h_log s)) \<and>
    (\<forall>n behavior h k g. m_cons s t = C_room n behavior h k g \<longrightarrow> m_cons_head s \<noteq> h \<longrightarrow> g < h_taken s)"
proof -
  have inv: "mring_inv s" using run_inv [OF assms(1)] new_ring_inv [OF assms(2-4)] .
  note w = mring_invD(1) [OF inv] and ord = mring_invD(2) [OF inv]
  have prod: "\<exists>t' s'. producer_step t' s = Some s'" if "m_prod s t \<noteq> P_idle"
  proof (cases "m_prod s t")
    case (P_copy objs h i g)
    then have "length (h_puts s) < length (h_log s)" using prod_range_bounds [OF ord P_copy] by linarith
    then obtain t' n where "prod_range (m_prod s t') = Some (length (h_puts s), n)"
      using tiled_first [OF order_okD(1) [OF ord]] by blast
    then obtain xs h' i' where pc: "m_prod s t' = P_copy xs h' i' (length (h_puts s))"
      by (auto simp: prod_range_def split: prod_pc.splits)
    have "m_prod_tail s = h'" using mring_inv_copy(1) [OF inv pc] words_okD(3) [OF w] by simp
    then show ?thesis using pc by (intro exI [of _ t']) (simp add: producer_step_def Let_def)
  qed (use that in \<open>auto simp: producer_step_def Let_def rte_atomic32_cmpset_def intro!: exI [of _ t]\<close>)
  have cons: "\<exists>t' s'. consumer_step t' s = Some s'" if "m_cons s t \<noteq> C_idle"
  proof (cases "m_cons s t")
    case (C_copy h k objs g)
    then have "length (h_gots s) < h_taken s" using cons_range_bounds [OF ord C_copy] by linarith
    then obtain t' n where "cons_range (m_cons s t') = Some (length (h_gots s), n)"
      using tiled_first [OF order_okD(2) [OF ord]] by blast
    then obtain h' k' xs where pc: "m_cons s t' = C_copy h' k' xs (length (h_gots s))"
      by (auto simp: cons_range_def split: cons_pc.splits)
    have "h' = of_nat (length (h_gots s))" using mring_invD(4) [OF inv, of t'] pc by (simp add: cons_ok_def)
    then have "m_cons_tail s = h'" using words_okD(5) [OF w] by simp
    then show ?thesis using pc by (intro exI [of _ t']) (simp add: consumer_step_def Let_def)
  qed (use that in \<open>auto simp: consumer_step_def Let_def rte_atomic32_cmpset_def intro!: exI [of _ t]\<close>)
  have "g < length (h_log s)" if "m_prod s t = P_room objs behavior h n g" "m_prod_head s \<noteq> h" for objs behavior h n g
  proof -
    have "h = of_nat g" "g \<le> length (h_log s)" using mring_invD(3) [OF inv, of t] that(1) by (simp_all add: prod_ok_def)
    then show ?thesis using that(2) words_okD(2) [OF w] by (cases "g = length (h_log s)") auto
  qed
  moreover have "g < h_taken s" if "m_cons s t = C_room n behavior h k g" "m_cons_head s \<noteq> h" for n behavior h k g
  proof -
    have "h = of_nat g" "g \<le> h_taken s" using mring_invD(4) [OF inv, of t] that(1) by (simp_all add: cons_ok_def)
    then show ?thesis using that(2) words_okD(4) [OF w] by (cases "g = h_taken s") auto
  qed
  ultimately show ?thesis using prod cons assms(5) by blast
qed

section \<open>Examples\<close>

text \<open>Running a given interleaving.\<close>

datatype 'a action = Enqueue nat "'a list" rte_ring_queue_behavior | Dequeue nat u32 rte_ring_queue_behavior | Produce nat | Consume nat

definition act_on :: "'a action \<Rightarrow> 'a mring \<Rightarrow> 'a mring option" where
  "act_on a s = (case a of
     Enqueue t objs behavior \<Rightarrow> (case m_prod s t of
         P_idle \<Rightarrow> if length objs < 2 ^ 32 then Some (s\<lparr>m_prod := (m_prod s)(t := P_begin objs behavior)\<rparr>) else None | _ \<Rightarrow> None)
   | Dequeue t n behavior \<Rightarrow> (case m_cons s t of
         C_idle \<Rightarrow> Some (s\<lparr>m_cons := (m_cons s)(t := C_begin n behavior)\<rparr>) | _ \<Rightarrow> None)
   | Produce t \<Rightarrow> if not_lapped t s then producer_step t s else None
   | Consume t \<Rightarrow> if not_lapped t s then consumer_step t s else None)"

fun act_all :: "'a action list \<Rightarrow> 'a mring \<Rightarrow> 'a mring option" where
  "act_all [] s = Some s"
| "act_all (a # as) s = (case act_on a s of None \<Rightarrow> None | Some s' \<Rightarrow> act_all as s')"

lemma act_on_step: "act_on a s = Some s' \<Longrightarrow> ring_step s s'"
  by (auto simp: act_on_def intro: ring_step.intros split: action.splits prod_pc.splits cons_pc.splits if_splits)

lemma act_all_run: "act_all as s = Some s' \<Longrightarrow> ring_run s0 s \<Longrightarrow> ring_run s0 s'"
proof (induction as arbitrary: s)
  case (Cons a as)
  then obtain s1 where "act_on a s = Some s1" "act_all as s1 = Some s'" by (auto split: option.splits)
  then show ?case using Cons.IH ring_run.more [OF Cons.prems(2) act_on_step] by blast
qed simp

text \<open>Two producers race for the head: the second loses, tries again and copies first, but has to wait
  for the first to publish. A consumer then takes two of the three objects.\<close>

definition ex_race :: "nat action list" where
  "ex_race = [Enqueue 0 [7, 8] RTE_RING_QUEUE_FIXED, Enqueue 1 [9] RTE_RING_QUEUE_FIXED, Produce 0, Produce 1, Produce 0, Produce 1,
     Produce 0, Produce 1, Produce 1, Produce 1, Produce 1, Produce 1, Produce 0, Produce 0, Produce 0, Produce 1,
     Dequeue 5 2 RTE_RING_QUEUE_VARIABLE, Consume 5, Consume 5, Consume 5, Consume 5, Consume 5]"

lemma ex_race_run: "map_option (\<lambda>s. (h_puts s, h_gots s, m_cons s 5)) (act_all ex_race (new_ring 2 3 [0, 0, 0, 0]))
    = Some ([7, 8, 9], [], C_copy 0 2 [7, 8] 0)"
  by (simp add: ex_race_def act_on_def producer_step_def consumer_step_def new_ring_def Let_def not_lapped_def
      rte_atomic32_cmpset_def clip_def)

theorem ring_mpmc_fifo_witness:
  "\<exists>s :: nat mring. ring_run (new_ring 2 3 [0, 0, 0, 0]) s \<and> h_puts s = [7, 8, 9] \<and> prefix (h_gots s) (h_puts s) \<and>
     m_cons s 5 = C_copy 0 2 [7, 8] 0"
proof -
  obtain s where s: "act_all ex_race (new_ring 2 3 [0, 0, 0, 0]) = Some s" "h_puts s = [7, 8, 9]" "m_cons s 5 = C_copy 0 2 [7, 8] 0"
    using ex_race_run by auto
  have run: "ring_run (new_ring 2 3 [0, 0, 0, 0]) s" by (rule act_all_run [OF s(1) ring_run.start])
  show ?thesis using ring_mpmc_fifo [OF run] s run by auto
qed

theorem ring_mpmc_progress_witness:
  "\<exists>s :: nat mring. ring_run (new_ring 2 3 [0, 0, 0, 0]) s \<and> m_cons s 5 \<noteq> C_idle \<and>
     (\<exists>t' s'. producer_step t' s = Some s' \<or> consumer_step t' s = Some s')"
proof -
  obtain s where s: "act_all ex_race (new_ring 2 3 [0, 0, 0, 0]) = Some s" "m_cons s 5 = C_copy 0 2 [7, 8] 0"
    using ex_race_run by auto
  have run: "ring_run (new_ring 2 3 [0, 0, 0, 0]) s" by (rule act_all_run [OF s(1) ring_run.start])
  have "m_cons s 5 \<noteq> C_idle" using s(2) by simp
  then show ?thesis using ring_mpmc_progress [OF run, of 5] run by auto
qed

end
