(* ===== verification/Rte_Locks.thy ===== *)
theory Rte_Locks
  imports Prelude Reservations
begin

text \<open>
  The locks of the generic headers as machines whose steps are the atomic accesses of the code:
  the ticket lock (rte\_ticketlock.h) and the reader/writer lock (rte\_rwlock.h), each shared by the threads below a bound \<open>N\<close>. A waiting loop is a step that is
  not enabled. Atomic operations are sequentially consistent here.
\<close>

section \<open>Ticket lock\<close>

text \<open>The phases of a thread; a ticket carries its running number as history.\<close>

datatype ticket_pc = T_idle | T_wait u16 nat | T_hold nat | T_unlock u16 nat | T_try u16 u16

record ticketlock =
  tl_current :: u16
  tl_next :: u16
  tl_pc :: "nat \<Rightarrow> ticket_pc"
  tl_released :: nat
  tl_issued :: nat

definition rte_ticketlock_init :: ticketlock where
  "rte_ticketlock_init = \<lparr>tl_current = 0, tl_next = 0, tl_pc = (\<lambda>_. T_idle), tl_released = 0, tl_issued = 0\<rparr>"

definition rte_ticketlock_is_locked :: "ticketlock \<Rightarrow> bool" where
  "rte_ticketlock_is_locked s \<longleftrightarrow> tl_current s \<noteq> tl_next s"

text \<open>Taking a ticket, and waiting for its turn.\<close>

definition ticketlock_lock_take :: "nat \<Rightarrow> ticketlock \<Rightarrow> ticketlock" where
  "ticketlock_lock_take t s = s\<lparr>tl_next := tl_next s + 1, tl_issued := tl_issued s + 1,
     tl_pc := (tl_pc s)(t := T_wait (tl_next s) (tl_issued s))\<rparr>"

definition ticketlock_lock_wait :: "nat \<Rightarrow> u16 \<Rightarrow> nat \<Rightarrow> ticketlock \<Rightarrow> ticketlock option" where
  "ticketlock_lock_wait t me g s =
     (if tl_current s = me then Some (s\<lparr>tl_pc := (tl_pc s)(t := T_hold g)\<rparr>) else None)"

definition ticketlock_unlock_load :: "nat \<Rightarrow> nat \<Rightarrow> ticketlock \<Rightarrow> ticketlock" where
  "ticketlock_unlock_load t g s = s\<lparr>tl_pc := (tl_pc s)(t := T_unlock (tl_current s) g)\<rparr>"

definition ticketlock_unlock_store :: "nat \<Rightarrow> u16 \<Rightarrow> ticketlock \<Rightarrow> ticketlock" where
  "ticketlock_unlock_store t i s =
     s\<lparr>tl_current := i + 1, tl_released := tl_released s + 1, tl_pc := (tl_pc s)(t := T_idle)\<rparr>"

definition ticketlock_try_load :: "nat \<Rightarrow> ticketlock \<Rightarrow> ticketlock" where
  "ticketlock_try_load t s = s\<lparr>tl_pc := (tl_pc s)(t := T_try (tl_current s) (tl_next s))\<rparr>"

text \<open>Both halves of the word are compared and swapped at once.\<close>

definition ticketlock_try_swap :: "nat \<Rightarrow> u16 \<Rightarrow> u16 \<Rightarrow> ticketlock \<Rightarrow> ticketlock" where
  "ticketlock_try_swap t c n s =
     (if n = c \<and> tl_current s = c \<and> tl_next s = n then
        s\<lparr>tl_next := n + 1, tl_issued := tl_issued s + 1, tl_pc := (tl_pc s)(t := T_hold (tl_issued s))\<rparr>
      else s\<lparr>tl_pc := (tl_pc s)(t := T_idle)\<rparr>)"

text \<open>One step of a thread inside a call or holding the lock.\<close>

definition ticket_step :: "nat \<Rightarrow> ticketlock \<Rightarrow> ticketlock option" where
  "ticket_step t s = (case tl_pc s t of
     T_idle \<Rightarrow> None
   | T_wait me g \<Rightarrow> ticketlock_lock_wait t me g s
   | T_hold g \<Rightarrow> Some (ticketlock_unlock_load t g s)
   | T_unlock i g \<Rightarrow> Some (ticketlock_unlock_store t i s)
   | T_try c n \<Rightarrow> Some (ticketlock_try_swap t c n s))"

inductive ticket_run :: "nat \<Rightarrow> ticketlock \<Rightarrow> bool" for N where
  start: "ticket_run N rte_ticketlock_init"
| lock: "ticket_run N s \<Longrightarrow> t < N \<Longrightarrow> tl_pc s t = T_idle \<Longrightarrow> ticket_run N (ticketlock_lock_take t s)"
| trylock: "ticket_run N s \<Longrightarrow> t < N \<Longrightarrow> tl_pc s t = T_idle \<Longrightarrow> ticket_run N (ticketlock_try_load t s)"
| step: "ticket_run N s \<Longrightarrow> ticket_step t s = Some s' \<Longrightarrow> ticket_run N s'"

definition ticket_of :: "ticket_pc \<Rightarrow> (nat \<times> nat) option" where
  "ticket_of pc = (case pc of T_wait _ g \<Rightarrow> Some (g, 1) | T_hold g \<Rightarrow> Some (g, 1) | T_unlock _ g \<Rightarrow> Some (g, 1) | _ \<Rightarrow> None)"

definition in_section :: "ticketlock \<Rightarrow> nat \<Rightarrow> bool" where
  "in_section s t \<longleftrightarrow> (case tl_pc s t of T_hold _ \<Rightarrow> True | T_unlock _ _ \<Rightarrow> True | _ \<Rightarrow> False)"

definition ticket_ok :: "ticketlock \<Rightarrow> ticket_pc \<Rightarrow> bool" where
  "ticket_ok s pc \<longleftrightarrow> (case pc of T_wait me g \<Rightarrow> me = of_nat g | T_hold g \<Rightarrow> g = tl_released s
     | T_unlock i g \<Rightarrow> i = of_nat g \<and> g = tl_released s | _ \<Rightarrow> True)"

definition ticket_inv :: "nat \<Rightarrow> ticketlock \<Rightarrow> bool" where
  "ticket_inv N s \<longleftrightarrow> tl_current s = of_nat (tl_released s) \<and> tl_next s = of_nat (tl_issued s) \<and>
     tiled (\<lambda>t. ticket_of (tl_pc s t)) (tl_released s) (tl_issued s) \<and>
     (\<forall>t. ticket_ok s (tl_pc s t)) \<and> (\<forall>t. tl_pc s t \<noteq> T_idle \<longrightarrow> t < N)"

lemma ticket_invD:
  assumes "ticket_inv N s"
  shows "tl_current s = of_nat (tl_released s)" "tl_next s = of_nat (tl_issued s)"
    "tiled (\<lambda>t. ticket_of (tl_pc s t)) (tl_released s) (tl_issued s)" "ticket_ok s (tl_pc s t)"
    "tl_pc s t \<noteq> T_idle \<Longrightarrow> t < N" "tl_released s \<le> tl_issued s" "tl_issued s \<le> tl_released s + N"
proof -
  have t: "tiled (\<lambda>t. ticket_of (tl_pc s t)) (tl_released s) (tl_issued s)" using assms by (simp add: ticket_inv_def)
  have "tl_issued s - tl_released s \<le> N"
  proof (rule tiled_units_le [OF t])
    fix t g n assume "ticket_of (tl_pc s t) = Some (g, n)"
    then show "n = 1 \<and> t < N" using assms by (cases "tl_pc s t") (auto simp: ticket_of_def ticket_inv_def)
  qed
  then show "tl_issued s \<le> tl_released s + N" by simp
  show "tl_released s \<le> tl_issued s" using t by (rule tiledD)
qed (use assms in \<open>auto simp: ticket_inv_def\<close>)

lemma u16_eq: "(of_nat a :: u16) = of_nat b \<Longrightarrow> a \<le> b \<Longrightarrow> b < a + 2 ^ 16 \<Longrightarrow> a = b"
proof -
  assume a: "(of_nat a :: u16) = of_nat b" "a \<le> b" "b < a + 2 ^ 16"
  have eq: "(of_nat b - of_nat a :: u16) = of_nat (b - a)" using a(2) by (simp add: of_nat_diff)
  then have "unat (of_nat (b - a) :: u16) = 0" using a(1) by simp
  then have "(b - a) mod 2 ^ 16 = 0" unfolding unat_of_nat by simp
  then show "a = b" using a(2,3) by simp
qed

text \<open>The thread whose turn it is.\<close>

lemma ticket_turn:
  assumes inv: "ticket_inv N s" and N: "N < 2 ^ 16" and w: "tl_pc s t = T_wait me g"
  shows "tl_current s = me \<longleftrightarrow> g = tl_released s"
proof -
  have me: "me = of_nat g" using ticket_invD(4) [OF inv, of t] w by (simp add: ticket_ok_def)
  have "tl_released s \<le> g \<and> 0 < (1 :: nat) \<and> g + 1 \<le> tl_issued s"
    by (rule tiledD(2) [OF ticket_invD(3) [OF inv], of t]) (simp add: w ticket_of_def)
  then have "tl_released s \<le> g" "g < tl_released s + 2 ^ 16" using ticket_invD(7) [OF inv] N by linarith+
  then show ?thesis using u16_eq [of "tl_released s" g] me ticket_invD(1) [OF inv] by auto
qed

lemma ticket_goto:
  assumes inv: "ticket_inv N s" and "ticket_of pc = ticket_of (tl_pc s t)" "ticket_ok s pc" "t < N"
  shows "ticket_inv N (s\<lparr>tl_pc := (tl_pc s)(t := pc)\<rparr>)"
proof -
  have "(\<lambda>t'. ticket_of (((tl_pc s)(t := pc)) t')) = (\<lambda>t'. ticket_of (tl_pc s t'))" using assms(2) by auto
  then show ?thesis using inv assms(3,4) by (auto simp: ticket_inv_def ticket_ok_def split: ticket_pc.splits)
qed

text \<open>A new ticket, for a thread that waits or takes the free lock.\<close>

lemma ticket_issue:
  assumes inv: "ticket_inv N s" and pc: "ticket_of (tl_pc s t) = None" and t: "t < N"
    and new: "pc = T_wait (tl_next s) (tl_issued s) \<or> pc = T_hold (tl_issued s) \<and> tl_issued s = tl_released s"
  shows "ticket_inv N (s\<lparr>tl_next := tl_next s + 1, tl_issued := tl_issued s + 1, tl_pc := (tl_pc s)(t := pc)\<rparr>)"
proof -
  have "(\<lambda>t'. ticket_of (((tl_pc s)(t := pc)) t')) = (\<lambda>t'. ticket_of (tl_pc s t'))(t := Some (tl_issued s, 1))"
    using new by (auto simp: ticket_of_def)
  then have "tiled (\<lambda>t'. ticket_of (((tl_pc s)(t := pc)) t')) (tl_released s) (tl_issued s + 1)"
    using tiled_reserve [OF ticket_invD(3) [OF inv], of t 1] pc by simp
  moreover have "ticket_ok (s\<lparr>tl_next := tl_next s + 1, tl_issued := tl_issued s + 1, tl_pc := (tl_pc s)(t := pc)\<rparr>) pc' = ticket_ok s pc'" for pc'
    by (simp add: ticket_ok_def split: ticket_pc.splits)
  moreover have "ticket_ok s pc" using new ticket_invD(2) [OF inv] by (auto simp: ticket_ok_def)
  ultimately show ?thesis using ticket_invD [OF inv] t by (auto simp: ticket_inv_def)
qed

lemma ticket_step_inv:
  assumes inv: "ticket_inv N s" and N: "N < 2 ^ 16" and step: "ticket_step t s = Some s'"
  shows "ticket_inv N s'"
proof (cases "tl_pc s t")
  case T_idle
  then show ?thesis using step by (simp add: ticket_step_def)
next
  case (T_wait me g)
  then have "tl_current s = me" "s' = s\<lparr>tl_pc := (tl_pc s)(t := T_hold g)\<rparr>"
    using step by (auto simp: ticket_step_def ticketlock_lock_wait_def split: if_splits)
  then show ?thesis using ticket_turn [OF inv N T_wait] ticket_invD(5) [OF inv, of t] T_wait
    by (auto intro!: ticket_goto [OF inv] simp: ticket_of_def ticket_ok_def)
next
  case (T_hold g)
  then have s': "s' = s\<lparr>tl_pc := (tl_pc s)(t := T_unlock (tl_current s) g)\<rparr>"
    using step by (simp add: ticket_step_def ticketlock_unlock_load_def)
  show ?thesis unfolding s'
    using ticket_invD(4) [OF inv, of t] ticket_invD(5) [OF inv, of t] ticket_invD(1) [OF inv] T_hold
    by (intro ticket_goto [OF inv]) (simp_all add: ticket_of_def ticket_ok_def)
next
  case (T_unlock i g)
  then have s': "s' = s\<lparr>tl_current := i + 1, tl_released := tl_released s + 1, tl_pc := (tl_pc s)(t := T_idle)\<rparr>"
    using step by (simp add: ticket_step_def ticketlock_unlock_store_def)
  have i: "i = of_nat (tl_released s)" "g = tl_released s"
    using ticket_invD(4) [OF inv, of t] T_unlock by (simp_all add: ticket_ok_def)
  have act: "ticket_of (tl_pc s t) = Some (tl_released s, 1)" using T_unlock i(2) by (simp add: ticket_of_def)
  have "(\<lambda>t'. ticket_of (((tl_pc s)(t := T_idle)) t')) = (\<lambda>t'. ticket_of (tl_pc s t'))(t := None)"
    by (auto simp: ticket_of_def)
  then have "tiled (\<lambda>t'. ticket_of (((tl_pc s)(t := T_idle)) t')) (tl_released s + 1) (tl_issued s)"
    using tiled_release [OF ticket_invD(3) [OF inv], of t 1] act by simp
  moreover have "ticket_ok s' (tl_pc s t')" if "t' \<noteq> t" for t'
  proof -
    have "ticket_of (tl_pc s t') \<noteq> Some (tl_released s, 1)" using tiled_inj [OF ticket_invD(3) [OF inv] act] that by blast
    then show ?thesis using ticket_invD(4) [OF inv, of t'] by (auto simp: ticket_ok_def ticket_of_def split: ticket_pc.splits)
  qed
  ultimately show ?thesis using ticket_invD [OF inv] i(1) unfolding s'
    by (auto simp: ticket_inv_def ticket_ok_def)
next
  case (T_try c n)
  have t: "t < N" "ticket_of (tl_pc s t) = None" using ticket_invD(5) [OF inv, of t] T_try by (simp_all add: ticket_of_def)
  have s': "s' = ticketlock_try_swap t c n s" using step T_try by (simp add: ticket_step_def)
  show ?thesis
  proof (cases "n = c \<and> tl_current s = c \<and> tl_next s = n")
    case True
    then have "(of_nat (tl_released s) :: u16) = of_nat (tl_issued s)" using ticket_invD(1,2) [OF inv] by simp
    then have "tl_issued s = tl_released s" using u16_eq [of "tl_released s" "tl_issued s"] ticket_invD(6,7) [OF inv] N by simp
    then show ?thesis using ticket_issue [OF inv t(2,1)] True by (simp add: s' ticketlock_try_swap_def)
  next
    case False
    then have "s' = s\<lparr>tl_pc := (tl_pc s)(t := T_idle)\<rparr>" unfolding s' by (auto simp: ticketlock_try_swap_def)
    then show ?thesis using t by (auto intro!: ticket_goto [OF inv] simp: ticket_of_def ticket_ok_def)
  qed
qed

lemma ticket_run_inv: "ticket_run N s \<Longrightarrow> N < 2 ^ 16 \<Longrightarrow> ticket_inv N s"
proof (induction rule: ticket_run.induct)
  case start
  then show ?case by (simp add: ticket_inv_def rte_ticketlock_init_def tiled_def ticket_of_def ticket_ok_def)
next
  case (lock s t)
  then have "ticket_inv N s" by blast
  then show ?case unfolding ticketlock_lock_take_def using lock(2,3)
    by (intro ticket_issue) (simp_all add: ticket_of_def)
next
  case (trylock s t)
  then have "ticket_inv N s" by blast
  then show ?case unfolding ticketlock_try_load_def using trylock(2,3)
    by (intro ticket_goto) (simp_all add: ticket_of_def ticket_ok_def)
next
  case (step s t s')
  then show ?case using ticket_step_inv by blast
qed

lemma ticket_section_unique:
  assumes inv: "ticket_inv N s" and "in_section s t" "in_section s t'"
  shows "t = t'"
proof -
  have sec: "ticket_of (tl_pc s t) = Some (tl_released s, 1)" if "in_section s t" for t
    using that ticket_invD(4) [OF inv, of t] by (auto simp: in_section_def ticket_of_def ticket_ok_def split: ticket_pc.splits)
  show ?thesis by (rule tiled_inj [OF ticket_invD(3) [OF inv] sec [OF assms(2)] sec [OF assms(3)]])
qed

text \<open>C16. The ticket lock excludes and is fair: with fewer than 2^16 threads, whatever they do and although
  the 16-bit tickets wrap around, at most one thread is between acquiring and releasing the lock; a
  waiting thread may enter exactly when every earlier ticket has been released, so the lock is handed
  over in the order of arrival; while tickets are out, the thread with the oldest one can always go
  on; and the lock reads as free exactly when no ticket is out.\<close>

theorem ticketlock_exclusive_fair:
  assumes "ticket_run N s" "N < 2 ^ 16"
  shows "(in_section s t \<longrightarrow> in_section s t' \<longrightarrow> t = t') \<and>
    (tl_pc s t = T_wait me g \<longrightarrow> (ticket_step t s \<noteq> None \<longleftrightarrow> g = tl_released s)) \<and>
    (tl_released s < tl_issued s \<longrightarrow> (\<exists>t'. ticket_of (tl_pc s t') = Some (tl_released s, 1) \<and> ticket_step t' s \<noteq> None)) \<and>
    (rte_ticketlock_is_locked s \<longleftrightarrow> tl_released s < tl_issued s)"
proof -
  have inv: "ticket_inv N s" using ticket_run_inv [OF assms] .
  note tl = ticket_invD(3) [OF inv]
  have "t = t'" if "in_section s t" "in_section s t'" using ticket_section_unique [OF inv that] .
  moreover have "ticket_step t s \<noteq> None \<longleftrightarrow> g = tl_released s" if "tl_pc s t = T_wait me g"
    using ticket_turn [OF inv assms(2) that] that by (simp add: ticket_step_def ticketlock_lock_wait_def)
  moreover have "\<exists>t'. ticket_of (tl_pc s t') = Some (tl_released s, 1) \<and> ticket_step t' s \<noteq> None" if lt: "tl_released s < tl_issued s"
  proof -
    obtain t' n where t': "ticket_of (tl_pc s t') = Some (tl_released s, n)" using tiled_first [OF tl lt] by blast
    then have "n = 1" by (auto simp: ticket_of_def split: ticket_pc.splits)
    moreover have "ticket_step t' s \<noteq> None"
    proof (cases "tl_pc s t'")
      case (T_wait me' g')
      then show ?thesis using t' ticket_turn [OF inv assms(2) T_wait]
        by (simp add: ticket_step_def ticketlock_lock_wait_def ticket_of_def)
    qed (use t' in \<open>auto simp: ticket_of_def ticket_step_def\<close>)
    ultimately show ?thesis using t' by blast
  qed
  moreover have "rte_ticketlock_is_locked s \<longleftrightarrow> tl_released s < tl_issued s"
  proof (cases "tl_released s = tl_issued s")
    case True
    then show ?thesis using ticket_invD(1,2) [OF inv] by (simp add: rte_ticketlock_is_locked_def)
  next
    case False
    have "tl_issued s < tl_released s + 2 ^ 16" using ticket_invD(7) [OF inv] assms(2) by linarith
    then have "tl_current s \<noteq> tl_next s"
      using False u16_eq [of "tl_released s" "tl_issued s"] ticket_invD(1,2,6) [OF inv] by metis
    then show ?thesis using False ticket_invD(6) [OF inv] by (simp add: rte_ticketlock_is_locked_def)
  qed
  ultimately show ?thesis by blast
qed

theorem ticketlock_exclusive_fair_witness:
  "\<exists>s. ticket_run 2 s \<and> in_section s 0 \<and> tl_pc s 1 = T_wait 1 1 \<and> ticket_step 1 s = None \<and> rte_ticketlock_is_locked s"
proof -
  define s1 where "s1 = ticketlock_lock_take 0 rte_ticketlock_init"
  define s2 where "s2 = ticketlock_lock_take 1 s1"
  define s3 where "s3 = s2\<lparr>tl_pc := (tl_pc s2)(0 := T_hold 0)\<rparr>"
  note defs = s1_def s2_def s3_def rte_ticketlock_init_def ticketlock_lock_take_def
  have "ticket_run 2 s1" unfolding s1_def by (intro ticket_run.lock ticket_run.start) (simp_all add: rte_ticketlock_init_def)
  then have "ticket_run 2 s2" unfolding s2_def by (intro ticket_run.lock) (simp_all add: defs)
  moreover have "ticket_step 0 s2 = Some s3" by (simp add: defs ticket_step_def ticketlock_lock_wait_def)
  ultimately have run: "ticket_run 2 s3" by (rule ticket_run.step)
  moreover have pcs: "in_section s3 0" "tl_pc s3 1 = T_wait 1 1" "tl_released s3 = 0" "tl_issued s3 = 2"
    by (simp_all add: defs in_section_def)
  moreover have "ticket_step 1 s3 = None" "rte_ticketlock_is_locked s3"
    using ticketlock_exclusive_fair [OF run, of 1 0 1 1] pcs by auto
  ultimately show ?thesis by blast
qed

section \<open>Reader/writer lock\<close>

datatype rw_pc = RW_idle | R_lock | R_swap u32 | R_try | R_try_swap u32 | R_hold
  | W_lock | W_swap u32 | W_try | W_try_swap u32 | W_hold

record rwlock =
  rw_cnt :: u32
  rw_pc :: "nat \<Rightarrow> rw_pc"

definition rte_rwlock_init :: rwlock where
  "rte_rwlock_init = \<lparr>rw_cnt = 0, rw_pc = (\<lambda>_. RW_idle)\<rparr>"

definition rw_goto :: "nat \<Rightarrow> rw_pc \<Rightarrow> rwlock \<Rightarrow> rwlock" where
  "rw_goto t pc s = s\<lparr>rw_pc := (rw_pc s)(t := pc)\<rparr>"

text \<open>The compare and swap is the weak one: with \<open>weak\<close> it fails although the values are equal.\<close>

definition rwlock_swap :: "bool \<Rightarrow> nat \<Rightarrow> u32 \<Rightarrow> u32 \<Rightarrow> rw_pc \<Rightarrow> rw_pc \<Rightarrow> rwlock \<Rightarrow> rwlock" where
  "rwlock_swap weak t x y ok failed s =
     (if rw_cnt s = x \<and> \<not> weak then rw_goto t ok (s\<lparr>rw_cnt := y\<rparr>) else rw_goto t failed s)"

definition rwlock_read_lock :: "bool \<Rightarrow> nat \<Rightarrow> rwlock \<Rightarrow> rwlock option" where
  "rwlock_read_lock weak t s = (case rw_pc s t of
     R_lock \<Rightarrow> Some (if sint (rw_cnt s) < 0 then s else rw_goto t (R_swap (rw_cnt s)) s)
   | R_swap x \<Rightarrow> Some (rwlock_swap weak t x (x + 1) R_hold R_lock s)
   | _ \<Rightarrow> None)"

definition rwlock_read_trylock :: "bool \<Rightarrow> nat \<Rightarrow> rwlock \<Rightarrow> rwlock option" where
  "rwlock_read_trylock weak t s = (case rw_pc s t of
     R_try \<Rightarrow> Some (if sint (rw_cnt s) < 0 then rw_goto t RW_idle s else rw_goto t (R_try_swap (rw_cnt s)) s)
   | R_try_swap x \<Rightarrow> Some (rwlock_swap weak t x (x + 1) R_hold R_try s)
   | _ \<Rightarrow> None)"

definition rwlock_read_unlock :: "nat \<Rightarrow> rwlock \<Rightarrow> rwlock option" where
  "rwlock_read_unlock t s = (case rw_pc s t of
     R_hold \<Rightarrow> Some (rw_goto t RW_idle (s\<lparr>rw_cnt := rw_cnt s - 1\<rparr>)) | _ \<Rightarrow> None)"

definition rwlock_write_lock :: "bool \<Rightarrow> nat \<Rightarrow> rwlock \<Rightarrow> rwlock option" where
  "rwlock_write_lock weak t s = (case rw_pc s t of
     W_lock \<Rightarrow> Some (if rw_cnt s \<noteq> 0 then s else rw_goto t (W_swap (rw_cnt s)) s)
   | W_swap x \<Rightarrow> Some (rwlock_swap weak t x (- 1) W_hold W_lock s)
   | _ \<Rightarrow> None)"

definition rwlock_write_trylock :: "bool \<Rightarrow> nat \<Rightarrow> rwlock \<Rightarrow> rwlock option" where
  "rwlock_write_trylock weak t s = (case rw_pc s t of
     W_try \<Rightarrow> Some (if rw_cnt s \<noteq> 0 then rw_goto t RW_idle s else rw_goto t (W_try_swap (rw_cnt s)) s)
   | W_try_swap x \<Rightarrow> Some (rwlock_swap weak t x (- 1) W_hold RW_idle s)
   | _ \<Rightarrow> None)"

definition rwlock_write_unlock :: "nat \<Rightarrow> rwlock \<Rightarrow> rwlock option" where
  "rwlock_write_unlock t s = (case rw_pc s t of
     W_hold \<Rightarrow> Some (rw_goto t RW_idle (s\<lparr>rw_cnt := 0\<rparr>)) | _ \<Rightarrow> None)"

inductive rw_run :: "nat \<Rightarrow> rwlock \<Rightarrow> bool" for N where
  start: "rw_run N rte_rwlock_init"
| call: "rw_run N s \<Longrightarrow> t < N \<Longrightarrow> rw_pc s t = RW_idle \<Longrightarrow> pc \<in> {R_lock, R_try, W_lock, W_try} \<Longrightarrow> rw_run N (rw_goto t pc s)"
| read_lock: "rw_run N s \<Longrightarrow> rwlock_read_lock weak t s = Some s' \<Longrightarrow> rw_run N s'"
| read_trylock: "rw_run N s \<Longrightarrow> rwlock_read_trylock weak t s = Some s' \<Longrightarrow> rw_run N s'"
| read_unlock: "rw_run N s \<Longrightarrow> rwlock_read_unlock t s = Some s' \<Longrightarrow> rw_run N s'"
| write_lock: "rw_run N s \<Longrightarrow> rwlock_write_lock weak t s = Some s' \<Longrightarrow> rw_run N s'"
| write_trylock: "rw_run N s \<Longrightarrow> rwlock_write_trylock weak t s = Some s' \<Longrightarrow> rw_run N s'"
| write_unlock: "rw_run N s \<Longrightarrow> rwlock_write_unlock t s = Some s' \<Longrightarrow> rw_run N s'"

definition rw_readers :: "rwlock \<Rightarrow> nat set" where "rw_readers s = {t. rw_pc s t = R_hold}"

definition rw_writers :: "rwlock \<Rightarrow> nat set" where "rw_writers s = {t. rw_pc s t = W_hold}"

definition rw_inv :: "nat \<Rightarrow> rwlock \<Rightarrow> bool" where
  "rw_inv N s \<longleftrightarrow> (\<forall>t. rw_pc s t \<noteq> RW_idle \<longrightarrow> t < N) \<and>
     (\<forall>t x. rw_pc s t = R_swap x \<or> rw_pc s t = R_try_swap x \<longrightarrow> 0 \<le> sint x) \<and>
     (\<forall>t x. rw_pc s t = W_swap x \<or> rw_pc s t = W_try_swap x \<longrightarrow> x = 0) \<and>
     (rw_writers s = {} \<and> rw_cnt s = of_nat (card (rw_readers s)) \<or>
      (\<exists>t. rw_writers s = {t}) \<and> rw_readers s = {} \<and> rw_cnt s = - 1)"

lemma rw_sets [simp]:
  "rw_readers (rw_goto t pc s) = (if pc = R_hold then insert t (rw_readers s) else rw_readers s - {t})"
  "rw_writers (rw_goto t pc s) = (if pc = W_hold then insert t (rw_writers s) else rw_writers s - {t})"
  "rw_readers (s\<lparr>rw_cnt := c\<rparr>) = rw_readers s" "rw_writers (s\<lparr>rw_cnt := c\<rparr>) = rw_writers s"
  "rw_cnt (rw_goto t pc s) = rw_cnt s"
  by (auto simp: rw_readers_def rw_writers_def rw_goto_def)

lemma rw_readers_bound:
  assumes "rw_inv N s"
  shows "finite (rw_readers s)" "card (rw_readers s) \<le> N"
proof -
  have sub: "rw_readers s \<subseteq> {..<N}" using assms by (auto simp: rw_inv_def rw_readers_def)
  then show "finite (rw_readers s)" by (rule finite_subset) simp
  show "card (rw_readers s) \<le> N" using card_mono [OF _ sub] by simp
qed

text \<open>A step that changes neither the count nor who holds the lock.\<close>

lemma rw_inv_local:
  assumes inv: "rw_inv N s" and t: "t < N" and old: "t \<notin> rw_readers s" "t \<notin> rw_writers s"
    and pc: "pc \<notin> {R_hold, W_hold}" "\<And>x. pc = R_swap x \<or> pc = R_try_swap x \<Longrightarrow> 0 \<le> sint x"
      "\<And>x. pc = W_swap x \<or> pc = W_try_swap x \<Longrightarrow> x = 0"
  shows "rw_inv N (rw_goto t pc s)"
proof -
  have same: "rw_readers (rw_goto t pc s) = rw_readers s" "rw_writers (rw_goto t pc s) = rw_writers s"
    using old pc(1) by auto
  have "rw_pc (rw_goto t pc s) = (rw_pc s)(t := pc)" by (simp add: rw_goto_def)
  then show ?thesis using inv t pc(2,3) unfolding rw_inv_def same by (auto split: if_splits)
qed

text \<open>A reader gets in, and out again.\<close>

lemma rw_inv_reader:
  assumes inv: "rw_inv N s" and t: "t < N" "t \<notin> rw_readers s" and x: "0 \<le> sint (rw_cnt s)"
  shows "rw_inv N (rw_goto t R_hold (s\<lparr>rw_cnt := rw_cnt s + 1\<rparr>))"
proof -
  have "rw_cnt s \<noteq> - 1" using x by auto
  then have "rw_writers s = {}" "rw_cnt s = of_nat (card (rw_readers s))" using inv by (auto simp: rw_inv_def)
  moreover have "card (insert t (rw_readers s)) = Suc (card (rw_readers s))" using t(2) rw_readers_bound [OF inv] by simp
  ultimately show ?thesis using inv t(1) by (auto simp: rw_inv_def) (auto simp: rw_goto_def split: if_splits)
qed

lemma rw_inv_reader_out:
  assumes inv: "rw_inv N s" and t: "rw_pc s t = R_hold"
  shows "rw_inv N (rw_goto t RW_idle (s\<lparr>rw_cnt := rw_cnt s - 1\<rparr>))"
proof -
  have mem: "t \<in> rw_readers s" using t by (simp add: rw_readers_def)
  then have w: "rw_writers s = {}" "rw_cnt s = of_nat (card (rw_readers s))" using inv by (auto simp: rw_inv_def)
  have "card (rw_readers s) = Suc (card (rw_readers s - {t}))" using mem rw_readers_bound(1) [OF inv] by (metis card_Suc_Diff1)
  then have "rw_cnt s - 1 = of_nat (card (rw_readers s - {t}))" using w(2) by simp
  then show ?thesis using inv w by (auto simp: rw_inv_def) (auto simp: rw_goto_def split: if_splits)
qed

text \<open>A writer gets in, and out again.\<close>

lemma rw_inv_writer:
  assumes inv: "rw_inv N s" and t: "t < N" and x: "rw_cnt s = 0" and N: "N < 2 ^ 31"
  shows "rw_inv N (rw_goto t W_hold (s\<lparr>rw_cnt := - 1\<rparr>))"
proof -
  have w: "rw_writers s = {}" "(0 :: u32) = of_nat (card (rw_readers s))" using inv x by (auto simp: rw_inv_def)
  have "card (rw_readers s) < 2 ^ 32" using rw_readers_bound(2) [OF inv] N by simp
  then have "card (rw_readers s) = unat (of_nat (card (rw_readers s)) :: u32)" unfolding unat_of_nat by simp
  then have "card (rw_readers s) = 0" using w(2) by simp
  then have "rw_readers s = {}" using rw_readers_bound(1) [OF inv] by simp
  then show ?thesis using inv w t by (auto simp: rw_inv_def) (auto simp: rw_goto_def split: if_splits)
qed

lemma rw_inv_writer_out:
  assumes inv: "rw_inv N s" and t: "rw_pc s t = W_hold"
  shows "rw_inv N (rw_goto t RW_idle (s\<lparr>rw_cnt := 0\<rparr>))"
proof -
  have "t \<in> rw_writers s" using t by (simp add: rw_writers_def)
  then have "rw_writers s = {t}" "rw_readers s = {}" using inv by (auto simp: rw_inv_def)
  then show ?thesis using inv by (auto simp: rw_inv_def) (auto simp: rw_goto_def split: if_splits)
qed

lemma rw_local_sets: "rw_pc s t = pc \<Longrightarrow> pc \<notin> {R_hold, W_hold} \<Longrightarrow> t \<notin> rw_readers s \<and> t \<notin> rw_writers s"
  by (auto simp: rw_readers_def rw_writers_def)

lemma rw_run_inv: "rw_run N s \<Longrightarrow> N < 2 ^ 31 \<Longrightarrow> rw_inv N s"
proof (induction rule: rw_run.induct)
  case start
  then show ?case by (simp add: rw_inv_def rte_rwlock_init_def rw_readers_def rw_writers_def)
next
  case (call s t pc)
  then have "rw_inv N s" by blast
  then show ?case using call(2-4) rw_local_sets [of s t RW_idle] by (intro rw_inv_local) auto
next
  case (read_lock s weak t s')
  then have inv: "rw_inv N s" by blast
  have t: "t < N" using inv read_lock(2) by (auto simp: rw_inv_def rwlock_read_lock_def split: rw_pc.splits)
  have x: "0 \<le> sint x" if "rw_pc s t = R_swap x" for x using inv that by (auto simp: rw_inv_def)
  show ?case using read_lock(2) inv t x rw_local_sets [of s t]
    by (auto simp: rwlock_read_lock_def rwlock_swap_def split: rw_pc.splits if_splits intro!: rw_inv_local rw_inv_reader)
next
  case (read_trylock s weak t s')
  then have inv: "rw_inv N s" by blast
  have t: "t < N" using inv read_trylock(2) by (auto simp: rw_inv_def rwlock_read_trylock_def split: rw_pc.splits)
  have x: "0 \<le> sint x" if "rw_pc s t = R_try_swap x" for x using inv that by (auto simp: rw_inv_def)
  show ?case using read_trylock(2) inv t x rw_local_sets [of s t]
    by (auto simp: rwlock_read_trylock_def rwlock_swap_def split: rw_pc.splits if_splits intro!: rw_inv_local rw_inv_reader)
next
  case (read_unlock s t s')
  then show ?case by (auto simp: rwlock_read_unlock_def split: rw_pc.splits intro: rw_inv_reader_out)
next
  case (write_lock s weak t s')
  then have inv: "rw_inv N s" by blast
  have t: "t < N" using inv write_lock(2) by (auto simp: rw_inv_def rwlock_write_lock_def split: rw_pc.splits)
  have x: "x = 0" if "rw_pc s t = W_swap x" for x using inv that by (auto simp: rw_inv_def)
  show ?case using write_lock(2,4) inv t x rw_local_sets [of s t]
    by (auto simp: rwlock_write_lock_def rwlock_swap_def split: rw_pc.splits if_splits intro!: rw_inv_local rw_inv_writer)
next
  case (write_trylock s weak t s')
  then have inv: "rw_inv N s" by blast
  have t: "t < N" using inv write_trylock(2) by (auto simp: rw_inv_def rwlock_write_trylock_def split: rw_pc.splits)
  have x: "x = 0" if "rw_pc s t = W_try_swap x" for x using inv that by (auto simp: rw_inv_def)
  show ?case using write_trylock(2,4) inv t x rw_local_sets [of s t]
    by (auto simp: rwlock_write_trylock_def rwlock_swap_def split: rw_pc.splits if_splits intro!: rw_inv_local rw_inv_writer)
next
  case (write_unlock s t s')
  then show ?case by (auto simp: rwlock_write_unlock_def split: rw_pc.splits intro: rw_inv_writer_out)
qed

text \<open>C17. The reader/writer lock excludes: with fewer than 2^31 threads, in every reachable state a
  writer holds the lock alone, the count is the number of readers or -1 for a writer and never
  wraps around, also when the weak compare and swap fails spuriously, and when nobody holds the lock
  the count is 0, so that the next reader or writer can get in.\<close>

theorem rwlock_excludes:
  assumes "rw_run N s" "N < 2 ^ 31"
  shows "(rw_pc s t = W_hold \<longrightarrow> (\<forall>t'. t' \<noteq> t \<longrightarrow> rw_pc s t' \<noteq> R_hold \<and> rw_pc s t' \<noteq> W_hold)) \<and>
    sint (rw_cnt s) = (if rw_writers s = {} then int (card (rw_readers s)) else - 1) \<and>
    (rw_writers s = {} \<and> rw_readers s = {} \<longrightarrow> rw_cnt s = 0)"
proof -
  have inv: "rw_inv N s" using rw_run_inv [OF assms] .
  have "card (rw_readers s) < 2 ^ 31" using rw_readers_bound(2) [OF inv] assms(2) by linarith
  then have "sint (of_nat (card (rw_readers s)) :: u32) = int (card (rw_readers s))"
    by (simp add: signed_of_nat signed_take_bit_int_eq_self)
  moreover have held: "rw_writers s = {} \<and> rw_cnt s = of_nat (card (rw_readers s)) \<or>
      (\<exists>t. rw_writers s = {t}) \<and> rw_readers s = {} \<and> rw_cnt s = - 1"
    using inv by (simp add: rw_inv_def)
  moreover have "rw_pc s t' \<noteq> R_hold \<and> rw_pc s t' \<noteq> W_hold" if "rw_pc s t = W_hold" "t' \<noteq> t" for t'
  proof -
    have "t \<in> rw_writers s" using that(1) by (simp add: rw_writers_def)
    then have "rw_writers s = {t}" "rw_readers s = {}" using held by auto
    then show ?thesis using that(2) by (auto simp: rw_writers_def rw_readers_def)
  qed
  ultimately show ?thesis by auto
qed

theorem rwlock_excludes_witness:
  "\<exists>s. rw_run 3 s \<and> rw_pc s 1 = R_hold \<and> rw_pc s 2 = W_lock \<and> sint (rw_cnt s) = 1"
proof -
  define s1 where "s1 = rw_goto 1 R_lock rte_rwlock_init"
  define s2 where "s2 = rw_goto 1 (R_swap 0) s1"
  define s3 where "s3 = rw_goto 1 R_hold (s2\<lparr>rw_cnt := 1\<rparr>)"
  define s4 where "s4 = rw_goto 2 W_lock s3"
  note defs = s1_def s2_def s3_def s4_def rte_rwlock_init_def rw_goto_def
  have "rw_run 3 s1" unfolding s1_def by (intro rw_run.call rw_run.start) (simp_all add: rte_rwlock_init_def)
  moreover have "rwlock_read_lock False 1 s1 = Some s2" by (simp add: rwlock_read_lock_def defs)
  ultimately have "rw_run 3 s2" by (rule rw_run.read_lock)
  moreover have "rwlock_read_lock False 1 s2 = Some s3" by (simp add: rwlock_read_lock_def rwlock_swap_def defs)
  ultimately have "rw_run 3 s3" by (rule rw_run.read_lock)
  then have run: "rw_run 3 s4" unfolding s4_def by (intro rw_run.call) (simp_all add: defs)
  have "rw_writers s4 = {}" "rw_readers s4 = {1}" by (auto simp: rw_writers_def rw_readers_def defs)
  then have "sint (rw_cnt s4) = 1" using rwlock_excludes [OF run, of 1] by simp
  moreover have "rw_pc s4 1 = R_hold" "rw_pc s4 2 = W_lock" by (simp_all add: defs)
  ultimately show ?thesis using run by blast
qed

end
