(* ===== verification/Rte_Ip.thy ===== *)
theory Rte_Ip
  imports Rte_Mbuf
begin

text \<open>
  Checksums of rte\_ip.h over byte buffers. A pointer into a packet is the list of bytes from there on;
  \<open>None\<close> is a read behind its end. 16-bit loads are little endian, as on the machine of the build.
\<close>

section \<open>Loads\<close>

definition bytes_u16 :: "u8 \<Rightarrow> u8 \<Rightarrow> u16" where
  "bytes_u16 b0 b1 = ucast b0 OR push_bit 8 (ucast b1)"

definition load_u8 :: "u8 list \<Rightarrow> nat \<Rightarrow> u8 option" where
  "load_u8 buf i = (if i < length buf then Some (buf ! i) else None)"

definition load_u16 :: "u8 list \<Rightarrow> nat \<Rightarrow> u16 option" where
  "load_u16 buf i = do {b0 \<leftarrow> load_u8 buf i; b1 \<leftarrow> load_u8 buf (i + 1); Some (bytes_u16 b0 b1)}"

definition load_range :: "u8 list \<Rightarrow> nat \<Rightarrow> nat \<Rightarrow> u8 list option" where
  "load_range buf i n = (if i + n \<le> length buf then Some (take n (drop i buf)) else None)"

definition u16_bytes :: "u16 \<Rightarrow> u8 list" where
  "u16_bytes v = [ucast v, ucast (drop_bit 8 v)]"

definition rte_bswap16 :: "u16 \<Rightarrow> u16" where
  "rte_bswap16 x = drop_bit 8 (x AND 0xff00) OR push_bit 8 (x AND 0x00ff)"

section \<open>Raw checksums\<close>

fun raw_cksum_sum :: "u8 list \<Rightarrow> u32 \<Rightarrow> u32" where
  "raw_cksum_sum [] acc = acc"
| "raw_cksum_sum [b] acc = acc + ucast (bytes_u16 b 0)"
| "raw_cksum_sum (b0 # b1 # bs) acc = raw_cksum_sum bs (acc + ucast (bytes_u16 b0 b1))"

text \<open>The upper half added to the lower half; reducing does it twice.\<close>

definition cksum_fold :: "u32 \<Rightarrow> u32" where
  "cksum_fold acc = drop_bit 16 (acc AND 0xffff0000) + (acc AND 0xffff)"

definition raw_cksum_reduce :: "u32 \<Rightarrow> u16" where
  "raw_cksum_reduce acc = (let acc = cksum_fold acc; acc = cksum_fold acc in ucast acc)"

definition rte_raw_cksum :: "u8 list \<Rightarrow> u16" where
  "rte_raw_cksum bs = raw_cksum_reduce (raw_cksum_sum bs 0)"

section \<open>IPv4\<close>

definition rte_ipv4_hdr_len :: "u8 list \<Rightarrow> u8 option" where
  "rte_ipv4_hdr_len hdr = do {version_ihl \<leftarrow> load_u8 hdr 0; Some ((version_ihl AND 0x0f) * 4)}"

definition rte_ipv4_cksum :: "u8 list \<Rightarrow> u16 option" where
  "rte_ipv4_cksum hdr = do {
     len \<leftarrow> rte_ipv4_hdr_len hdr;
     bs \<leftarrow> load_range hdr 0 (unat len);
     Some (NOT (rte_raw_cksum bs))
   }"

text \<open>The pseudo header: addresses, a zero byte, the protocol and the length.\<close>

definition rte_ipv4_phdr_cksum :: "u8 list \<Rightarrow> u64 \<Rightarrow> u16 option" where
  "rte_ipv4_phdr_cksum hdr ol_flags = do {
     addrs \<leftarrow> load_range hdr 12 8;
     proto \<leftarrow> load_u8 hdr 9;
     len \<leftarrow> (if ol_flags AND RTE_MBUF_F_TX_TCP_SEG \<noteq> 0 then Some 0
            else do {
              total \<leftarrow> load_u16 hdr 2;
              let l3_len = (ucast (rte_bswap16 total) :: u32);
              hlen \<leftarrow> rte_ipv4_hdr_len hdr;
              Some (rte_bswap16 (ucast (l3_len - ucast hlen)))
            });
     Some (rte_raw_cksum (addrs @ [0, proto] @ u16_bytes len))
   }"

definition ipv4_udptcp_cksum_raw :: "u8 list \<Rightarrow> u8 list \<Rightarrow> u16 option" where
  "ipv4_udptcp_cksum_raw hdr l4 = do {
     ip_hdr_len \<leftarrow> rte_ipv4_hdr_len hdr;
     total \<leftarrow> load_u16 hdr 2;
     let l3_len = (ucast (rte_bswap16 total) :: u32);
     if l3_len < ucast ip_hdr_len then Some 0
     else do {
       let l4_len = l3_len - ucast ip_hdr_len;
       bs \<leftarrow> load_range l4 0 (unat l4_len);
       phdr \<leftarrow> rte_ipv4_phdr_cksum hdr 0;
       let cksum = ucast (rte_raw_cksum bs) + ucast phdr;
       let cksum = cksum_fold cksum;
       Some (ucast cksum)
     }
   }"

abbreviation (input) IPPROTO_UDP :: u8 where "IPPROTO_UDP \<equiv> 17"

definition rte_ipv4_udptcp_cksum :: "u8 list \<Rightarrow> u8 list \<Rightarrow> u16 option" where
  "rte_ipv4_udptcp_cksum hdr l4 = do {
     cksum \<leftarrow> ipv4_udptcp_cksum_raw hdr l4;
     let cksum = NOT cksum;
     proto \<leftarrow> load_u8 hdr 9;
     Some (if cksum = 0 \<and> proto = IPPROTO_UDP then 0xffff else cksum)
   }"

definition rte_ipv4_udptcp_cksum_verify :: "u8 list \<Rightarrow> u8 list \<Rightarrow> int option" where
  "rte_ipv4_udptcp_cksum_verify hdr l4 = do {
     cksum \<leftarrow> ipv4_udptcp_cksum_raw hdr l4;
     Some (if cksum \<noteq> 0xffff then - 1 else 0)
   }"

section \<open>IPv6\<close>

text \<open>The length goes into the first two bytes of its 32-bit field, the protocol into the last byte.\<close>

definition rte_ipv6_phdr_cksum :: "u8 list \<Rightarrow> u64 \<Rightarrow> u16 option" where
  "rte_ipv6_phdr_cksum hdr ol_flags = do {
     proto \<leftarrow> load_u8 hdr 6;
     len \<leftarrow> (if ol_flags AND RTE_MBUF_F_TX_TCP_SEG \<noteq> 0 then Some 0 else load_u16 hdr 4);
     addrs \<leftarrow> load_range hdr 8 32;
     let acc = raw_cksum_sum addrs 0;
     let acc = raw_cksum_sum (u16_bytes len @ [0, 0, 0, 0, 0, proto]) acc;
     Some (raw_cksum_reduce acc)
   }"

definition ipv6_udptcp_cksum_raw :: "u8 list \<Rightarrow> u8 list \<Rightarrow> u16 option" where
  "ipv6_udptcp_cksum_raw hdr l4 = do {
     payload_len \<leftarrow> load_u16 hdr 4;
     let l4_len = (ucast (rte_bswap16 payload_len) :: u32);
     bs \<leftarrow> load_range l4 0 (unat l4_len);
     phdr \<leftarrow> rte_ipv6_phdr_cksum hdr 0;
     let cksum = ucast (rte_raw_cksum bs) + ucast phdr;
       let cksum = cksum_fold cksum;
       Some (ucast cksum)
   }"

definition rte_ipv6_udptcp_cksum :: "u8 list \<Rightarrow> u8 list \<Rightarrow> u16 option" where
  "rte_ipv6_udptcp_cksum hdr l4 = do {
     cksum \<leftarrow> ipv6_udptcp_cksum_raw hdr l4;
     let cksum = NOT cksum;
     proto \<leftarrow> load_u8 hdr 6;
     Some (if cksum = 0 \<and> proto = IPPROTO_UDP then 0xffff else cksum)
   }"

definition rte_ipv6_udptcp_cksum_verify :: "u8 list \<Rightarrow> u8 list \<Rightarrow> int option" where
  "rte_ipv6_udptcp_cksum_verify hdr l4 = do {
     cksum \<leftarrow> ipv6_udptcp_cksum_raw hdr l4;
     Some (if cksum \<noteq> 0xffff then - 1 else 0)
   }"

text \<open>The next extension header and the length of this one; a negative value is an error, which leaves
  the length alone.\<close>

definition rte_ipv6_get_next_ext :: "u8 list \<Rightarrow> int \<Rightarrow> u64 \<Rightarrow> (int \<times> u64) option" where
  "rte_ipv6_get_next_ext p proto ext_len =
     (if proto = 51 then do {
        next_proto \<leftarrow> load_u8 p 0; l \<leftarrow> load_u8 p 1;
        Some (uint next_proto, (ucast l + 2) * 4)
      }
      else if proto = 0 \<or> proto = 43 \<or> proto = 60 then do {
        next_proto \<leftarrow> load_u8 p 0; l \<leftarrow> load_u8 p 1;
        Some (uint next_proto, (ucast l + 1) * 8)
      }
      else if proto = 44 then do {next_proto \<leftarrow> load_u8 p 0; Some (uint next_proto, 8)}
      else Some (- EINVAL, ext_len))"

section \<open>Sums as numbers\<close>

lemma unat_bytes_u16: "unat (bytes_u16 b0 b1) = unat b0 + 256 * unat b1"
proof -
  have disj: "(ucast b0 :: u16) AND push_bit 8 (ucast b1) = 0"
    by (rule bit_word_eqI) (auto simp: bit_simps dest: bit_imp_le_length)
  have "bytes_u16 b0 b1 = ucast b0 + push_bit 8 (ucast b1)"
    using disj by (simp add: bytes_u16_def disjunctive_add_eq_or)
  also have "\<dots> = of_nat (unat b0 + 256 * unat b1)" by (simp add: push_bit_eq_mult)
  finally have eq: "bytes_u16 b0 b1 = of_nat (unat b0 + 256 * unat b1)" .
  have "unat b0 < 256" "unat b1 < 256" using unsigned_less [of b0, where 'a = nat] unsigned_less [of b1, where 'a = nat] by simp_all
  then show ?thesis unfolding eq unat_of_nat by simp
qed

text \<open>The sum of the 16-bit words, and its one's complement reduction.\<close>

fun words_sum :: "u8 list \<Rightarrow> nat" where
  "words_sum [] = 0"
| "words_sum [b] = unat b"
| "words_sum (b0 # b1 # bs) = unat b0 + 256 * unat b1 + words_sum bs"

lemma raw_cksum_sum_nat: "raw_cksum_sum bs s = s + of_nat (words_sum bs)"
proof (induction bs s rule: raw_cksum_sum.induct)
  case (2 b s)
  have "(ucast (bytes_u16 b 0) :: u32) = of_nat (unat b)" by (metis of_nat_unat unat_bytes_u16 add_0_right mult_0_right unsigned_0)
  then show ?case by simp
next
  case (3 b0 b1 bs s)
  have "(ucast (bytes_u16 b0 b1) :: u32) = of_nat (unat b0 + 256 * unat b1)" by (metis of_nat_unat unat_bytes_u16)
  then show ?case using 3 by simp
qed simp

lemma words_sum_bound: "words_sum bs \<le> 65535 * ((length bs + 1) div 2)"
proof (induction bs rule: words_sum.induct)
  case (2 b)
  then show ?case using unsigned_less [of b, where 'a = nat] by simp
next
  case (3 b0 b1 bs)
  have "unat b0 < 256" "unat b1 < 256" using unsigned_less [of b0, where 'a = nat] unsigned_less [of b1, where 'a = nat] by simp_all
  then show ?case using 3 by simp
qed simp

text \<open>One folding step on numbers.\<close>

lemma fold_nat: "unat (cksum_fold x) = unat x div 65536 + unat x mod 65536"
proof -
  have hi: "drop_bit 16 (x AND 0xffff0000) = drop_bit 16 x"
  proof -
    have e: "(0xffff0000 :: u32) = push_bit 16 (mask 16)" by (simp add: mask_eq_decr_exp push_bit_eq_mult)
    have h: "bit x (16 + n) \<Longrightarrow> n < 16" for n using bit_imp_le_length [of x "16 + n"] by simp
    show ?thesis unfolding e
      by (intro bit_word_eqI) (auto simp only: bit_drop_bit_eq bit_and_iff bit_push_bit_iff bit_mask_iff comp_def possible_bit_word; frule h; simp)
  qed
  have m: "(0xffff :: u32) = mask 16" by (simp add: mask_eq_decr_exp)
  have lo: "unat (x AND 0xffff) = unat x mod 65536" unfolding m unat_and_mask by simp
  have "unat (drop_bit 16 x) = unat x div 65536" by (simp add: drop_bit_eq_div unat_div)
  moreover have "unat x < 2 ^ 32" using unsigned_less [of x, where 'a = nat] by simp
  then have "unat x div 65536 < 65536" by simp
  ultimately show ?thesis unfolding cksum_fold_def hi using lo by (subst unat_add_lt) (simp_all)
qed

text \<open>One's complement sums: congruent modulo 65535, and zero only for zero.\<close>

definition ones_sum :: "nat \<Rightarrow> nat" where
  "ones_sum n = (if n = 0 then 0 else (n - 1) mod 65535 + 1)"

lemma ones_sum_bounds: "ones_sum n \<le> 65535" "ones_sum n = 0 \<longleftrightarrow> n = 0"
proof -
  have "(n - 1) mod 65535 < 65535" by simp
  then have "(n - 1) mod 65535 + 1 \<le> 65535" by linarith
  then show "ones_sum n \<le> 65535" unfolding ones_sum_def by simp
  show "ones_sum n = 0 \<longleftrightarrow> n = 0" by (simp add: ones_sum_def)
qed

lemma ones_sum_mod: "ones_sum n mod 65535 = n mod 65535"
proof (cases n)
  case (Suc k)
  then show ?thesis by (simp add: ones_sum_def mod_Suc_eq)
qed (simp add: ones_sum_def)

lemma ones_sum_unique:
  assumes "m \<le> 65535" "m mod 65535 = n mod 65535" "m = 0 \<longleftrightarrow> n = 0"
  shows "m = ones_sum n"
proof (cases "n = 0")
  case False
  have u: "a = b" if "a mod 65535 = b mod 65535" "0 < a" "a \<le> 65535" "0 < b" "b \<le> 65535" for a b :: nat
    using that by (cases "a = 65535"; cases "b = 65535") simp_all
  have "0 < m" "0 < ones_sum n" using False assms(3) ones_sum_bounds(2) [of n] by auto
  then show ?thesis using u [of m "ones_sum n"] assms(1,2) ones_sum_mod [of n] ones_sum_bounds(1) [of n] by simp
qed (use assms in \<open>simp add: ones_sum_def\<close>)

lemma fold_mod:
  fixes n :: nat
  shows "(n div 65536 + n mod 65536) mod 65535 = n mod 65535" "n div 65536 + n mod 65536 = 0 \<longleftrightarrow> n = 0"
proof -
  define q r where "q = n div 65536" and "r = n mod 65536"
  have "65536 * q + r = n" unfolding q_def r_def by simp
  then have n: "n = q + r + 65535 * q" by simp
  show "(n div 65536 + n mod 65536) mod 65535 = n mod 65535" unfolding q_def [symmetric] r_def [symmetric]
    by (subst n) (simp only: mod_mult_self2)
  show "n div 65536 + n mod 65536 = 0 \<longleftrightarrow> n = 0" unfolding q_def [symmetric] r_def [symmetric] by (subst n) simp
qed

lemma ones_sum_fold:
  assumes "n \<le> 131070"
  shows "n div 65536 + n mod 65536 = ones_sum n"
proof (rule ones_sum_unique)
  show "n div 65536 + n mod 65536 \<le> 65535"
  proof (cases "n < 65536")
    case False
    then have "n div 65536 = 1" "n mod 65536 = n - 65536" using assms by (auto simp: div_nat_eqI mod_nat_eqI)
    then show ?thesis using assms by simp
  qed simp
qed (simp_all only: fold_mod)

lemma unat_ucast_u16: "unat (ucast x :: u16) = unat x mod 65536" for x :: u32
  by (simp add: unsigned_ucast_eq unat_and_mask [symmetric] take_bit_eq_mod)

lemma unat_raw_cksum_reduce: "unat (raw_cksum_reduce x) = ones_sum (unat x)"
proof -
  define a where "a = unat x div 65536 + unat x mod 65536"
  have "unat x < 2 ^ 32" using unsigned_less [of x, where 'a = nat] by simp
  then have "unat x div 65536 < 65536" by (simp add: less_mult_imp_div_less)
  moreover have "unat x mod 65536 < 65536" by simp
  ultimately have a: "a \<le> 131070" unfolding a_def by linarith
  have "unat (cksum_fold (cksum_fold x)) = ones_sum a"
    using ones_sum_fold [OF a] unfolding fold_nat [of "cksum_fold x"] fold_nat [of x] a_def [symmetric] .
  then have "unat (raw_cksum_reduce x) = ones_sum a"
    using ones_sum_bounds(1) [of a] by (simp add: raw_cksum_reduce_def Let_def unat_ucast_u16)
  also have "ones_sum a = ones_sum (unat x)"
    using ones_sum_bounds [of a] ones_sum_mod [of a] fold_mod [of "unat x"] by (intro ones_sum_unique) (simp_all add: a_def)
  finally show ?thesis .
qed

text \<open>A buffer of up to 128 KiB cannot overflow the 32-bit sum.\<close>

lemma unat_rte_raw_cksum:
  assumes "length bs \<le> 131072"
  shows "unat (rte_raw_cksum bs) = ones_sum (words_sum bs)"
proof -
  have "(length bs + 1) div 2 \<le> 65536" using assms by simp
  then have "words_sum bs \<le> 65535 * 65536" using words_sum_bound [of bs] by (meson le_trans mult_le_mono2)
  then have "words_sum bs mod 2 ^ 32 = words_sum bs" by simp
  then show ?thesis by (simp add: rte_raw_cksum_def unat_raw_cksum_reduce raw_cksum_sum_nat unat_of_nat)
qed

lemma unat_cksum_fold:
  fixes a b :: u16
  shows "unat (ucast (cksum_fold (ucast a + ucast b)) :: u16) = ones_sum (unat a + unat b)"
proof -
  have ab: "unat a < 65536" "unat b < 65536" using unsigned_less [of a, where 'a = nat] unsigned_less [of b, where 'a = nat] by simp_all
  have "(ucast a + ucast b :: u32) = of_nat (unat a + unat b)" by simp
  then have "unat (ucast a + ucast b :: u32) = unat a + unat b" using ab by (simp only: unat_of_nat) simp
  moreover have "unat a + unat b \<le> 131070" using ab by simp
  ultimately show ?thesis
    using ones_sum_bounds(1) [of "unat a + unat b"] ones_sum_fold [of "unat a + unat b"]
    by (simp only: unat_ucast_u16 fold_nat) simp
qed

lemma ones_sum_add: "ones_sum (ones_sum a + ones_sum b) = ones_sum (a + b)"
proof (rule ones_sum_unique)
  have "(ones_sum a + ones_sum b) mod 65535 = (a + b) mod 65535" by (metis mod_add_eq ones_sum_mod)
  then show "ones_sum (ones_sum a + ones_sum b) mod 65535 = (a + b) mod 65535" by (simp add: ones_sum_mod)
qed (simp_all add: ones_sum_bounds)

end
