(* ===== verification/Rte_Ip_Correct.thy ===== *)
theory Rte_Ip_Correct
  imports Rte_Ip
begin

text \<open>
  Storing a computed checksum makes the packet verify. What IPv4 and IPv6 share is a locale: a sum over
  the payload and a pseudo header; both headers are interpretations of it.
\<close>

section \<open>Sums of parts\<close>

lemma words_sum_append: "even (length xs) \<Longrightarrow> words_sum (xs @ ys) = words_sum xs + words_sum ys"
  by (induction xs rule: words_sum.induct) auto

text \<open>A 16-bit value stored in memory order.\<close>

definition put_u16 :: "u8 list \<Rightarrow> nat \<Rightarrow> u16 \<Rightarrow> u8 list" where
  "put_u16 bs i v = bs[i := ucast v, Suc i := ucast (drop_bit 8 v)]"

lemma length_put_u16 [simp]: "length (put_u16 bs i v) = length bs"
  by (simp add: put_u16_def)

lemma take_put_u16: "i + 2 \<le> n \<Longrightarrow> take n (put_u16 bs i v) = put_u16 (take n bs) i v"
  by (simp add: put_u16_def take_update_swap)

lemma unat_u16_bytes: "unat (ucast v :: u8) + 256 * unat (ucast (drop_bit 8 v) :: u8) = unat v" for v :: u16
proof -
  have lo: "unat (ucast v :: u8) = unat v mod 256" by (simp add: unsigned_ucast_eq unat_and_mask [symmetric] take_bit_eq_mod)
  have "unat v < 2 ^ 16" using unsigned_less [of v, where 'a = nat] by simp
  then have small: "unat v div 256 < 256" by (simp add: less_mult_imp_div_less)
  have "unat (ucast (drop_bit 8 v) :: u8) = unat (drop_bit 8 v) mod 256" by (simp add: unsigned_ucast_eq take_bit_eq_mod)
  also have "\<dots> = unat v div 256" using small by (simp add: drop_bit_eq_div unat_div)
  finally show ?thesis using lo by simp
qed

lemma words_sum_u16_bytes: "words_sum (u16_bytes v @ bs) = unat v + words_sum bs"
  using unat_u16_bytes [of v] by (simp add: u16_bytes_def)

lemma words_sum_put_u16:
  "even i \<Longrightarrow> i + 1 < length bs \<Longrightarrow> bs ! i = 0 \<Longrightarrow> bs ! (i + 1) = 0 \<Longrightarrow> words_sum (put_u16 bs i v) = words_sum bs + unat v"
proof (induction bs arbitrary: i rule: words_sum.induct)
  case (3 b0 b1 bs)
  show ?case
  proof (cases i)
    case 0
    then show ?thesis using 3 unat_u16_bytes [of v] by (simp add: put_u16_def)
  next
    case (Suc j)
    then obtain k where k: "i = Suc (Suc k)" "even k" using 3(2) by (cases j) auto
    have "words_sum (put_u16 bs k v) = words_sum bs + unat v" using 3 k by (intro "3.IH") auto
    then show ?thesis using k(1) by (simp add: put_u16_def)
  qed
qed auto

section \<open>Checksum fields\<close>

lemma unat_not_u16: "unat (NOT x :: u16) = 65535 - unat x"
proof -
  have "(mask 16 :: u16) = - 1" by (simp add: mask_eq_decr_exp)
  then have "NOT x = mask 16 - x" by (simp only: not_eq_complement) simp
  then have "unat (NOT x) = unat (mask 16 - x)" by (simp only:)
  also have "\<dots> = unat (mask 16 :: u16) - unat x"
    using unsigned_less [of x, where 'a = nat] by (intro unat_sub) (simp add: mask_eq_decr_exp word_le_nat_alt)
  finally show ?thesis by (simp add: mask_eq_decr_exp)
qed

lemma ones_sum_full: "ones_sum n = 65535 \<longleftrightarrow> 0 < n \<and> n mod 65535 = 0"
proof
  assume "ones_sum n = 65535"
  then show "0 < n \<and> n mod 65535 = 0" using ones_sum_mod [of n] ones_sum_bounds(2) [of n] by auto
next
  assume "0 < n \<and> n mod 65535 = 0"
  then show "ones_sum n = 65535" by (intro ones_sum_unique [symmetric]) auto
qed

text \<open>The values that complete a sum to all ones: the complement, and the other zero.\<close>

lemma checksum_completes:
  fixes c w :: u16
  assumes c: "unat c = 65535 - ones_sum s" and s: "0 < s"
  shows "ones_sum (s + unat w) = 65535 \<longleftrightarrow> w = c \<or> w = 0xffff \<and> c = 0"
proof -
  have b: "unat w \<le> 65535" using unsigned_less [of w, where 'a = nat] by simp
  have o: "1 \<le> ones_sum s" "ones_sum s \<le> 65535" using ones_sum_bounds [of s] s by auto
  have "(s + unat w) mod 65535 = (ones_sum s + unat w) mod 65535" by (metis mod_add_left_eq ones_sum_mod)
  then have "ones_sum (s + unat w) = 65535 \<longleftrightarrow> (ones_sum s + unat w) mod 65535 = 0" using s by (simp add: ones_sum_full)
  also have "\<dots> \<longleftrightarrow> ones_sum s + unat w = 65535 \<or> ones_sum s + unat w = 131070"
  proof
    assume "(ones_sum s + unat w) mod 65535 = 0"
    then obtain q where q: "ones_sum s + unat w = 65535 * q" by (auto simp: mod_eq_0_iff_dvd)
    then have "q = 1 \<or> q = 2" using o b by (cases q rule: nat.exhaust) auto
    then show "ones_sum s + unat w = 65535 \<or> ones_sum s + unat w = 131070" using q by auto
  qed auto
  also have "\<dots> \<longleftrightarrow> unat w = unat c \<or> unat w = 65535 \<and> unat c = 0" using o b c by auto
  also have "\<dots> \<longleftrightarrow> w = c \<or> w = 0xffff \<and> c = 0"
    by (auto simp: word_unat_eq_iff)
  finally show ?thesis .
qed

locale l4_checksum =
  fixes raw :: "u8 list \<Rightarrow> u8 list \<Rightarrow> u16 option" and len :: "u8 list \<Rightarrow> nat option" and pseudo :: "u8 list \<Rightarrow> nat"
  assumes raw_sum: "len hdr = Some n \<Longrightarrow> n \<le> length l4 \<Longrightarrow>
      \<exists>c. raw hdr l4 = Some c \<and> unat c = ones_sum (words_sum (take n l4) + pseudo hdr)"
    and pseudo_pos: "len hdr = Some n \<Longrightarrow> 0 < n \<Longrightarrow> 0 < pseudo hdr"
begin

lemma raw_completes:
  assumes "len hdr = Some n" "n \<le> length l4" "even i" "i + 2 \<le> n" "l4 ! i = 0" "l4 ! (i + 1) = 0"
  shows "\<exists>r. raw hdr l4 = Some r \<and> NOT r \<noteq> 0xffff \<and>
    (\<forall>w. \<exists>r'. raw hdr (put_u16 l4 i w) = Some r' \<and> (r' = 0xffff \<longleftrightarrow> w = NOT r \<or> w = 0xffff \<and> NOT r = 0))"
proof -
  define s where "s = words_sum (take n l4) + pseudo hdr"
  have pos: "0 < s" using pseudo_pos [OF assms(1)] assms(4) by (simp add: s_def)
  obtain r where r: "raw hdr l4 = Some r" "unat r = ones_sum s" using raw_sum [OF assms(1,2)] s_def by blast
  have "\<exists>r'. raw hdr (put_u16 l4 i w) = Some r' \<and> (r' = 0xffff \<longleftrightarrow> w = NOT r \<or> w = 0xffff \<and> NOT r = 0)" for w
  proof -
    have "words_sum (take n (put_u16 l4 i w)) = words_sum (take n l4) + unat w"
      unfolding take_put_u16 [OF assms(4)] using assms by (intro words_sum_put_u16) auto
    then obtain r' where r': "raw hdr (put_u16 l4 i w) = Some r'" "unat r' = ones_sum (s + unat w)"
      using raw_sum [OF assms(1), of "put_u16 l4 i w"] assms(2) by (auto simp: s_def ac_simps)
    have "r' = 0xffff \<longleftrightarrow> ones_sum (s + unat w) = 65535" using r'(2) by (simp add: word_unat_eq_iff)
    then show ?thesis using r'(1) checksum_completes [of "NOT r" s w] r(2) pos by (simp add: unat_not_u16)
  qed
  moreover have "unat (NOT r) \<noteq> 65535" using r(2) pos ones_sum_bounds [of s] unat_not_u16 [of r] by auto
  then have "NOT r \<noteq> 0xffff" by auto
  ultimately show ?thesis using r(1) by blast
qed

end

section \<open>IPv4\<close>

lemma bit_rte_bswap16: "bit (rte_bswap16 x) n \<longleftrightarrow> (if n < 8 then bit x (n + 8) else n < 16 \<and> bit x (n - 8))"
proof -
  have m: "(0xff00 :: u16) = push_bit 8 (mask 8)" "(0xff :: u16) = mask 8" by (simp_all add: mask_eq_decr_exp push_bit_eq_mult)
  have e: "bit (rte_bswap16 x) n \<longleftrightarrow> bit x (8 + n) \<and> n < 8 \<or> 8 \<le> n \<and> n < 16 \<and> bit x (n - 8)"
    unfolding rte_bswap16_def m using bit_imp_le_length [of x "8 + n"]
    by (simp only: bit_or_iff bit_drop_bit_eq bit_and_iff bit_push_bit_iff bit_mask_iff comp_def possible_bit_word) auto
  show ?thesis unfolding e by (auto simp: add.commute)
qed

lemma rte_bswap16_involution [simp]: "rte_bswap16 (rte_bswap16 x) = x"
  by (rule bit_word_eqI) (auto simp: bit_rte_bswap16)

lemma rte_bswap16_eq_0: "rte_bswap16 x = 0 \<longleftrightarrow> x = 0"
proof -
  have "rte_bswap16 0 = 0" by (simp add: rte_bswap16_def)
  then show ?thesis by (metis rte_bswap16_involution)
qed

text \<open>The payload length of a header that is long enough and consistent, and the sum of its pseudo header.\<close>

definition ipv4_l4_len :: "u8 list \<Rightarrow> nat option" where
  "ipv4_l4_len hdr = (if length hdr < 20 then None else do {
     hl \<leftarrow> rte_ipv4_hdr_len hdr; total \<leftarrow> load_u16 hdr 2;
     let total = rte_bswap16 total;
     if unat hl \<le> unat total then Some (unat total - unat hl) else None
   })"

definition ipv4_pseudo :: "u8 list \<Rightarrow> u16 \<Rightarrow> u8 list" where
  "ipv4_pseudo hdr l = take 8 (drop 12 hdr) @ [0, hdr ! 9] @ u16_bytes (rte_bswap16 l)"

lemma unat_ucast_u32: "unat (ucast a :: u32) = unat a" "unat (ucast b :: u32) = unat b" for a :: u16 and b :: u8
proof -
  have "unat (of_nat (unat a) :: u32) = unat a" "unat (of_nat (unat b) :: u32) = unat b" unfolding unat_of_nat
    using unsigned_less [of a, where 'a = nat] unsigned_less [of b, where 'a = nat] by simp_all
  then show "unat (ucast a :: u32) = unat a" "unat (ucast b :: u32) = unat b" by simp_all
qed

lemma u16_diff: "unat b \<le> unat a \<Longrightarrow> unat (ucast a - ucast b :: u32) = unat a - unat b"
  for a :: u16 and b :: u8
proof -
  assume "unat b \<le> unat a"
  then have "(ucast b :: u32) \<le> ucast a" by (simp add: word_le_nat_alt unat_ucast_u32)
  then show ?thesis by (simp add: unat_sub unat_ucast_u32)
qed

lemma ipv4_raw_sum:
  assumes "ipv4_l4_len hdr = Some n" "n \<le> length l4"
  shows "\<exists>c. ipv4_udptcp_cksum_raw hdr l4 = Some c \<and>
    unat c = ones_sum (words_sum (take n l4) + words_sum (ipv4_pseudo hdr (of_nat n)))"
proof -
  obtain hl total where h: "20 \<le> length hdr" "rte_ipv4_hdr_len hdr = Some hl" "load_u16 hdr 2 = Some total"
    "unat hl \<le> unat (rte_bswap16 total)" "n = unat (rte_bswap16 total) - unat hl"
    using assms(1) by (auto simp: ipv4_l4_len_def Let_def split: if_splits Option.bind_splits)
  define t where "t = rte_bswap16 total"
  have n: "unat (ucast t - ucast hl :: u32) = n" using h(4,5) by (simp add: u16_diff t_def)
  have "unat t < 2 ^ 16" using unsigned_less [of t, where 'a = nat] by simp
  then have small: "n < 65536" using h(5) by (simp add: t_def)
  have "ucast (ucast t - ucast hl :: u32) = (of_nat n :: u16)" by (metis n of_nat_unat ucast_id unsigned_of_nat)
  then have phdr: "rte_ipv4_phdr_cksum hdr 0 = Some (rte_raw_cksum (ipv4_pseudo hdr (of_nat n)))"
    using h by (simp add: rte_ipv4_phdr_cksum_def load_range_def load_u8_def ipv4_pseudo_def t_def Let_def)
  have "\<not> ucast t < (ucast hl :: u32)" using h(4) by (simp add: word_less_nat_alt unat_ucast_u32 t_def)
  then have "ipv4_udptcp_cksum_raw hdr l4 =
      Some (ucast (cksum_fold (ucast (rte_raw_cksum (take n l4)) + ucast (rte_raw_cksum (ipv4_pseudo hdr (of_nat n))))))"
    using h(2,3) phdr n assms(2) by (simp add: ipv4_udptcp_cksum_raw_def load_range_def t_def Let_def)
  moreover have "length (ipv4_pseudo hdr (of_nat n)) \<le> 131072" by (simp add: ipv4_pseudo_def u16_bytes_def)
  ultimately show ?thesis using small by (simp add: unat_cksum_fold unat_rte_raw_cksum ones_sum_add)
qed

definition ipv4_pseudo_sum :: "u8 list \<Rightarrow> nat" where
  "ipv4_pseudo_sum hdr = words_sum (ipv4_pseudo hdr (of_nat (the (ipv4_l4_len hdr))))"

lemma ipv4_l4_len_bound: "ipv4_l4_len hdr = Some n \<Longrightarrow> n < 65536"
proof -
  assume "ipv4_l4_len hdr = Some n"
  then obtain total :: u16 and hl :: u8 where "n = unat (rte_bswap16 total) - unat hl"
    by (auto simp: ipv4_l4_len_def Let_def split: if_splits Option.bind_splits)
  then show ?thesis using unsigned_less [of "rte_bswap16 total", where 'a = nat] by simp
qed

interpretation ip4: l4_checksum ipv4_udptcp_cksum_raw ipv4_l4_len ipv4_pseudo_sum
proof
  fix hdr l4 :: "u8 list" and n assume a: "ipv4_l4_len hdr = Some n" "n \<le> length l4"
  then show "\<exists>c. ipv4_udptcp_cksum_raw hdr l4 = Some c \<and> unat c = ones_sum (words_sum (take n l4) + ipv4_pseudo_sum hdr)"
    using ipv4_raw_sum [OF a] by (simp add: ipv4_pseudo_sum_def)
next
  fix hdr n assume a: "ipv4_l4_len hdr = Some n" "0 < n"
  have n: "(of_nat n :: u16) \<noteq> 0" using ipv4_l4_len_bound [OF a(1)] a(2) by (simp add: word_unat_eq_iff unat_of_nat)
  have "20 \<le> length hdr" using a(1) by (auto simp: ipv4_l4_len_def split: if_splits)
  then have "words_sum (ipv4_pseudo hdr (of_nat n)) =
      words_sum (take 8 (drop 12 hdr) @ [0, hdr ! 9]) + words_sum (u16_bytes (rte_bswap16 (of_nat n)) @ [])"
    unfolding ipv4_pseudo_def append_assoc [symmetric] append_Nil2 by (intro words_sum_append) simp
  moreover have "unat (rte_bswap16 (of_nat n)) \<noteq> 0" using n by (simp add: rte_bswap16_eq_0 unat_eq_0)
  ultimately show "0 < ipv4_pseudo_sum hdr" using a(1) unfolding words_sum_u16_bytes by (simp add: ipv4_pseudo_sum_def)
qed

section \<open>IPv6\<close>

definition ipv6_l4_len :: "u8 list \<Rightarrow> nat option" where
  "ipv6_l4_len hdr = (if length hdr < 40 then None else map_option (\<lambda>l. unat (rte_bswap16 l)) (load_u16 hdr 4))"

definition ipv6_pseudo_sum :: "u8 list \<Rightarrow> nat" where
  "ipv6_pseudo_sum hdr = words_sum (take 32 (drop 8 hdr)) +
     words_sum (u16_bytes (the (load_u16 hdr 4)) @ [0, 0, 0, 0, 0, hdr ! 6])"

lemma ipv6_raw_sum:
  assumes "ipv6_l4_len hdr = Some n" "n \<le> length l4"
  shows "\<exists>c. ipv6_udptcp_cksum_raw hdr l4 = Some c \<and> unat c = ones_sum (words_sum (take n l4) + ipv6_pseudo_sum hdr)"
proof -
  obtain l where h: "40 \<le> length hdr" "load_u16 hdr 4 = Some l" "n = unat (rte_bswap16 l)"
    using assms(1) by (auto simp: ipv6_l4_len_def split: if_splits)
  define addrs where "addrs = take 32 (drop 8 hdr)"
  define ext where "ext = u16_bytes l @ [0, 0, 0, 0, 0, hdr ! 6]"
  define x where "x = raw_cksum_sum ext (raw_cksum_sum addrs 0)"
  have phdr: "rte_ipv6_phdr_cksum hdr 0 = Some (raw_cksum_reduce x)"
    using h by (simp add: rte_ipv6_phdr_cksum_def load_range_def load_u8_def addrs_def ext_def x_def Let_def)
  have "words_sum addrs \<le> 65535 * 16" "words_sum ext \<le> 65535 * 4"
    using words_sum_bound [of addrs] words_sum_bound [of ext] h(1) by (simp_all add: addrs_def ext_def u16_bytes_def)
  then have "unat (of_nat (words_sum addrs + words_sum ext) :: u32) = words_sum addrs + words_sum ext"
    unfolding unat_of_nat by simp
  then have x: "unat (raw_cksum_reduce x) = ones_sum (words_sum addrs + words_sum ext)"
    by (simp add: x_def unat_raw_cksum_reduce raw_cksum_sum_nat)
  have "ipv6_udptcp_cksum_raw hdr l4 =
      Some (ucast (cksum_fold (ucast (rte_raw_cksum (take n l4)) + ucast (raw_cksum_reduce x))))"
    using h phdr assms(2) by (simp add: ipv6_udptcp_cksum_raw_def load_range_def unat_ucast_u32 Let_def)
  moreover have "n \<le> 131072" using h(3) unsigned_less [of "rte_bswap16 l", where 'a = nat] by simp
  ultimately show ?thesis using h(2) x
    by (simp add: unat_cksum_fold unat_rte_raw_cksum ones_sum_add ipv6_pseudo_sum_def addrs_def ext_def)
qed

interpretation ip6: l4_checksum ipv6_udptcp_cksum_raw ipv6_l4_len ipv6_pseudo_sum
proof
  fix hdr n assume a: "ipv6_l4_len hdr = Some n" "0 < n"
  then obtain l where "load_u16 hdr 4 = Some l" "l \<noteq> 0"
    by (auto simp: ipv6_l4_len_def rte_bswap16_eq_0 unat_gt_0 split: if_splits)
  then show "0 < ipv6_pseudo_sum hdr" by (simp add: ipv6_pseudo_sum_def words_sum_u16_bytes unat_gt_0)
qed (rule ipv6_raw_sum)

section \<open>Properties\<close>

lemmas checksum_defs = rte_ipv4_udptcp_cksum_def rte_ipv4_udptcp_cksum_verify_def
  rte_ipv6_udptcp_cksum_def rte_ipv6_udptcp_cksum_verify_def

text \<open>C18. Over IPv4 a checksum that is computed and stored verifies. For a header that is long enough,
  whose length fields are consistent and match the payload, and a zeroed 16-bit field at an even offset
  of the payload, \<open>rte_ipv4_udptcp_cksum\<close> returns a value, never 0 for UDP; with it stored the
  payload verifies, and any other value stored in its place is rejected, except that 0 and 0xffff
  stand for each other.\<close>

theorem ipv4_checksum_roundtrip:
  assumes "ipv4_l4_len hdr = Some n" "n \<le> length l4" "even i" "i + 2 \<le> n" "l4 ! i = 0" "l4 ! (i + 1) = 0"
  shows "\<exists>c. rte_ipv4_udptcp_cksum hdr l4 = Some c \<and> (hdr ! 9 = IPPROTO_UDP \<longrightarrow> c \<noteq> 0) \<and>
    rte_ipv4_udptcp_cksum_verify hdr (put_u16 l4 i c) = Some 0 \<and>
    (\<forall>w. rte_ipv4_udptcp_cksum_verify hdr (put_u16 l4 i w) = Some (if w = c \<or> {w, c} = {0, 0xffff} then 0 else - 1))"
proof -
  obtain r where r: "ipv4_udptcp_cksum_raw hdr l4 = Some r" "NOT r \<noteq> 0xffff"
    "\<And>w. \<exists>r'. ipv4_udptcp_cksum_raw hdr (put_u16 l4 i w) = Some r' \<and> (r' = 0xffff \<longleftrightarrow> w = NOT r \<or> w = 0xffff \<and> NOT r = 0)"
    using ip4.raw_completes [OF assms] by blast
  have len: "20 \<le> length hdr" using assms(1) by (auto simp: ipv4_l4_len_def split: if_splits)
  define c where "c = (if NOT r = 0 \<and> hdr ! 9 = IPPROTO_UDP then 0xffff else NOT r)"
  have c: "rte_ipv4_udptcp_cksum hdr l4 = Some c" using r(1) len by (simp add: checksum_defs load_u8_def c_def Let_def)
  have v: "rte_ipv4_udptcp_cksum_verify hdr (put_u16 l4 i w) = Some (if w = c \<or> {w, c} = {0, 0xffff} then 0 else - 1)" for w
    using r(2) r(3) [of w] by (auto simp: checksum_defs c_def doubleton_eq_iff)
  then have "rte_ipv4_udptcp_cksum_verify hdr (put_u16 l4 i c) = Some 0" by simp
  then show ?thesis using c v by (intro exI [of _ c]) (auto simp: c_def)
qed

text \<open>The same over IPv6: for a header that is long enough,
  whose payload length matches the payload, and a zeroed 16-bit field at an even offset
  of the payload, \<open>rte_ipv6_udptcp_cksum\<close> returns a value, never 0 for UDP; with it stored the
  payload verifies, and any other value stored in its place is rejected, except that 0 and 0xffff
  stand for each other.\<close>

theorem ipv6_checksum_roundtrip:
  assumes "ipv6_l4_len hdr = Some n" "n \<le> length l4" "even i" "i + 2 \<le> n" "l4 ! i = 0" "l4 ! (i + 1) = 0"
  shows "\<exists>c. rte_ipv6_udptcp_cksum hdr l4 = Some c \<and> (hdr ! 6 = IPPROTO_UDP \<longrightarrow> c \<noteq> 0) \<and>
    rte_ipv6_udptcp_cksum_verify hdr (put_u16 l4 i c) = Some 0 \<and>
    (\<forall>w. rte_ipv6_udptcp_cksum_verify hdr (put_u16 l4 i w) = Some (if w = c \<or> {w, c} = {0, 0xffff} then 0 else - 1))"
proof -
  obtain r where r: "ipv6_udptcp_cksum_raw hdr l4 = Some r" "NOT r \<noteq> 0xffff"
    "\<And>w. \<exists>r'. ipv6_udptcp_cksum_raw hdr (put_u16 l4 i w) = Some r' \<and> (r' = 0xffff \<longleftrightarrow> w = NOT r \<or> w = 0xffff \<and> NOT r = 0)"
    using ip6.raw_completes [OF assms] by blast
  have len: "40 \<le> length hdr" using assms(1) by (auto simp: ipv6_l4_len_def split: if_splits)
  define c where "c = (if NOT r = 0 \<and> hdr ! 6 = IPPROTO_UDP then 0xffff else NOT r)"
  have c: "rte_ipv6_udptcp_cksum hdr l4 = Some c" using r(1) len by (simp add: checksum_defs load_u8_def c_def Let_def)
  have v: "rte_ipv6_udptcp_cksum_verify hdr (put_u16 l4 i w) = Some (if w = c \<or> {w, c} = {0, 0xffff} then 0 else - 1)" for w
    using r(2) r(3) [of w] by (auto simp: checksum_defs c_def doubleton_eq_iff)
  then have "rte_ipv6_udptcp_cksum_verify hdr (put_u16 l4 i c) = Some 0" by simp
  then show ?thesis using c v by (intro exI [of _ c]) (auto simp: c_def)
qed

text \<open>A UDP packet of one byte, over IPv4 and over IPv6.\<close>

definition ex_udp :: "u8 list" where
  "ex_udp = [0x04, 0xd2, 0x16, 0x2e, 0, 9, 0, 0, 0x41]"

definition ex_ip4 :: "u8 list" where
  "ex_ip4 = [0x45, 0, 0, 29, 0, 0, 0, 0, 64, 17, 0, 0, 10, 0, 0, 1, 10, 0, 0, 2]"

definition ex_ip6 :: "u8 list" where
  "ex_ip6 = [0x60, 0, 0, 0, 0, 9, 17, 64] @ replicate 15 0 @ [1] @ replicate 15 0 @ [2]"

theorem ipv4_checksum_roundtrip_witness:
  "rte_ipv4_udptcp_cksum_verify ex_ip4 (put_u16 ex_udp 6 0xd98f) = Some 0"
proof -
  have len: "ipv4_l4_len ex_ip4 = Some 9" by (simp add: ipv4_l4_len_def ex_ip4_def rte_ipv4_hdr_len_def load_u16_def load_u8_def bytes_u16_def rte_bswap16_def Let_def)
  have "rte_ipv4_udptcp_cksum ex_ip4 ex_udp = Some 0xd98f" by code_simp
  then show ?thesis using ipv4_checksum_roundtrip [OF len, of ex_udp 6] by (simp add: ex_udp_def)
qed

theorem ipv6_checksum_roundtrip_witness:
  "rte_ipv6_udptcp_cksum_verify ex_ip6 (put_u16 ex_udp 6 0xd9a3) = Some 0"
proof -
  have len: "ipv6_l4_len ex_ip6 = Some 9" by (simp add: ipv6_l4_len_def ex_ip6_def load_u16_def load_u8_def bytes_u16_def rte_bswap16_def Let_def)
  have "rte_ipv6_udptcp_cksum ex_ip6 ex_udp = Some 0xd9a3" by code_simp
  then show ?thesis using ipv6_checksum_roundtrip [OF len, of ex_udp 6] by (simp add: ex_udp_def)
qed

end
