(* ===== verification/Rte_Ip_Mbuf.thy ===== *)
theory Rte_Ip_Mbuf
  imports Rte_Ip_Correct Rte_Mbuf_Correct
begin

text \<open>
  The checksum of a range of a packet that spans several segments, \<open>rte_raw_cksum_mbuf\<close> of rte\_ip.h,
  against the checksum of the same bytes in one buffer.
\<close>

section \<open>The code\<close>

text \<open>The segment that holds an offset, the offset in it, and its length; the null segment when the
  chain ends before.\<close>

partial_function (option) cksum_find_seg :: "u64 \<Rightarrow> u32 \<Rightarrow> u32 \<Rightarrow> 'd heap \<Rightarrow> (u64 \<times> u32 \<times> u32) option" where
  "cksum_find_seg seg off seglen h = (if seg = NULL then Some (seg, off, seglen) else do {
     b \<leftarrow> h_mbuf h seg;
     let seglen = ucast (mb_data_len b);
     if off < seglen then Some (seg, off, seglen) else cksum_find_seg (mb_next b) (off - seglen) seglen h
   })"

text \<open>The sum over the segments; a segment that starts at an odd distance has its sum swapped.\<close>

partial_function (option) cksum_segs ::
    "u64 \<Rightarrow> u64 \<Rightarrow> u32 \<Rightarrow> u32 \<Rightarrow> u32 \<Rightarrow> u32 \<Rightarrow> 'd heap \<Rightarrow> u32 option" where
  "cksum_segs seg buf seglen len fin acc h = do {
     bs \<leftarrow> load_bytes buf (unat seglen) h;
     let tmp = raw_cksum_sum bs 0;
     let tmp = (if fin AND 1 \<noteq> 0 then ucast (rte_bswap16 (ucast tmp)) else tmp);
     let acc = acc + tmp;
     let fin = fin + seglen;
     if fin = len then Some acc
     else do {
       b \<leftarrow> h_mbuf h seg;
       let seg = mb_next b;
       b \<leftarrow> h_mbuf h seg;
       let buf = rte_pktmbuf_mtod_offset b 0;
       let seglen = ucast (mb_data_len b);
       let seglen = (if seglen > len - fin then len - fin else seglen);
       cksum_segs seg buf seglen len fin acc h
     }
   }"

text \<open>The range starts in a segment and may end in it. The result is the return value and, on success,
  the checksum stored through the pointer.\<close>

definition cksum_in_seg :: "u64 \<Rightarrow> rte_mbuf \<Rightarrow> u32 \<Rightarrow> u32 \<Rightarrow> u32 \<Rightarrow> 'd heap \<Rightarrow> u16 option" where
  "cksum_in_seg seg b seglen off len h = do {
     let seglen = seglen - off;
     let buf = rte_pktmbuf_mtod_offset b (ucast off);
     if seglen \<ge> len then do {
       bs \<leftarrow> load_bytes buf (unat len) h;
       Some (rte_raw_cksum bs)
     }
     else do {
       acc \<leftarrow> cksum_segs seg buf seglen len 0 0 h;
       Some (raw_cksum_reduce acc)
     }
   }"

definition rte_raw_cksum_mbuf :: "u64 \<Rightarrow> u32 \<Rightarrow> u32 \<Rightarrow> 'd heap \<Rightarrow> (int \<times> u16 option) option" where
  "rte_raw_cksum_mbuf m off len h = do {
     mb \<leftarrow> h_mbuf h m;
     if off + len \<le> ucast (mb_data_len mb) then do {
       bs \<leftarrow> load_bytes (rte_pktmbuf_mtod_offset mb (ucast off)) (unat len) h;
       Some (0, Some (rte_raw_cksum bs))
     }
     else if off + len > mb_pkt_len mb then Some (- 1, None)
     else do {
       (seg, off, seglen) \<leftarrow> cksum_find_seg m off 0 h;
       if seg = NULL then Some (- 1, None)
       else do {
         b \<leftarrow> h_mbuf h seg;
         cksum \<leftarrow> cksum_in_seg seg b seglen off len h;
         Some (0, Some cksum)
       }
     }
   }"

section \<open>Sums over pieces\<close>

lemma mod_tail: "(a + c * (b mod n)) mod n = (a + c * b) mod n" "(a + (c mod n) * b) mod n = (a + c * b) mod n"
    "(a mod n + b) mod n = (a + b) mod n" for a b c n :: nat
  by (metis mod_add_right_eq mod_mult_right_eq, metis mod_add_right_eq mod_mult_left_eq, rule mod_add_left_eq)

text \<open>A byte in front moves the rest by one byte, which is a factor of 256.\<close>

lemma words_sum_Cons: "words_sum (b # bs) mod 65535 = (unat b + 256 * words_sum bs) mod 65535"
proof (induction bs arbitrary: b)
  case (Cons y zs)
  have "(unat b + 256 * words_sum (y # zs)) mod 65535 = (unat b + 256 * (unat y + 256 * words_sum zs)) mod 65535"
    using Cons.IH [of y] by (metis mod_tail(1))
  also have "unat b + 256 * (unat y + 256 * words_sum zs) = unat b + 256 * unat y + words_sum zs + 65535 * words_sum zs" by simp
  also have "\<dots> mod 65535 = words_sum (b # y # zs) mod 65535" by (simp only: mod_mult_self2 words_sum.simps)
  finally show ?case ..
qed simp

definition shift :: "nat \<Rightarrow> nat" where
  "shift k = (if odd k then 256 else 1)"

lemma shift_Suc: "(256 * shift k) mod 65535 = shift (Suc k) mod 65535"
  by (simp add: shift_def)

lemma words_sum_append_mod: "words_sum (xs @ ys) mod 65535 = (words_sum xs + shift (length xs) * words_sum ys) mod 65535"
proof (induction xs)
  case (Cons x xs)
  have "words_sum ((x # xs) @ ys) mod 65535 = (unat x + 256 * (words_sum xs + shift (length xs) * words_sum ys)) mod 65535"
    using words_sum_Cons [of x "xs @ ys"] Cons by (metis append_Cons mod_tail(1))
  also have "\<dots> = ((unat x + 256 * words_sum xs) + (256 * shift (length xs)) * words_sum ys) mod 65535"
    by (simp add: algebra_simps)
  also have "\<dots> = ((unat x + 256 * words_sum xs) + shift (length (x # xs)) * words_sum ys) mod 65535"
    using shift_Suc [of "length xs"] by (metis length_Cons mod_tail(2))
  also have "\<dots> = (words_sum (x # xs) + shift (length (x # xs)) * words_sum ys) mod 65535"
    using words_sum_Cons [of x xs] by (metis mod_tail(3))
  finally show ?case .
qed (simp add: shift_def)

lemma words_sum_zero: "words_sum bs = 0 \<longleftrightarrow> set bs \<subseteq> {0}"
  by (induction bs rule: words_sum.induct) (auto simp: unat_eq_0)

lemma words_sum_le_length: "words_sum bs \<le> 65535 * length bs"
proof -
  have "(length bs + 1) div 2 \<le> length bs" by (cases bs) auto
  then show ?thesis using words_sum_bound [of bs] by (meson le_trans mult_le_mono2)
qed

lemma unat_rte_bswap16: "unat (rte_bswap16 v) = 256 * (unat v mod 256) + unat v div 256"
proof -
  have "rte_bswap16 v = bytes_u16 (ucast (drop_bit 8 v)) (ucast v)"
    by (rule bit_word_eqI) (auto simp: bytes_u16_def bit_rte_bswap16 bit_simps add.commute)
  moreover have "unat (ucast v :: u8) = unat v mod 256" by (simp add: unsigned_ucast_eq take_bit_eq_mod)
  moreover have "unat (ucast (drop_bit 8 v) :: u8) = unat v div 256"
    using unat_u16_bytes [of v] \<open>unat (ucast v :: u8) = unat v mod 256\<close> mult_div_mod_eq [of 256 "unat v"] by linarith
  ultimately show ?thesis by (simp add: unat_bytes_u16)
qed

lemma bswap_sum:
  assumes "s < 65536"
  shows "unat (rte_bswap16 (of_nat s)) mod 65535 = (256 * s) mod 65535" "unat (rte_bswap16 (of_nat s)) = 0 \<longleftrightarrow> s = 0"
proof -
  have s: "unat (of_nat s :: u16) = s" using assms by (simp add: unat_of_nat)
  define q r where "q = s div 256" and "r = s mod 256"
  have "256 * q + r = s" unfolding q_def r_def by simp
  then have e: "256 * s = 256 * r + q + 65535 * q" by simp
  show "unat (rte_bswap16 (of_nat s)) mod 65535 = (256 * s) mod 65535"
    unfolding unat_rte_bswap16 s q_def [symmetric] r_def [symmetric] e by (simp only: mod_mult_self2)
  show "unat (rte_bswap16 (of_nat s)) = 0 \<longleftrightarrow> s = 0"
    using s by (metis rte_bswap16_eq_0 unat_eq_0)
qed

text \<open>What a piece that starts at distance \<open>k\<close> adds to the sum.\<close>

definition piece_sum :: "nat \<Rightarrow> u8 list \<Rightarrow> nat" where
  "piece_sum k p = (if odd k then unat (rte_bswap16 (of_nat (words_sum p))) else words_sum p)"

fun pieces_sum :: "nat \<Rightarrow> u8 list list \<Rightarrow> nat" where
  "pieces_sum k [] = 0"
| "pieces_sum k (p # ps) = piece_sum k p + pieces_sum (k + length p) ps"

text \<open>The code cuts the sum of a swapped piece to 16 bits before it is reduced. No piece suffers from it.\<close>

fun odd_pieces_small :: "nat \<Rightarrow> u8 list list \<Rightarrow> bool" where
  "odd_pieces_small k [] = True"
| "odd_pieces_small k (p # ps) = ((odd k \<longrightarrow> words_sum p < 65536) \<and> odd_pieces_small (k + length p) ps)"

lemma shift_add: "(shift a * shift b) mod 65535 = shift (a + b) mod 65535"
  by (simp add: shift_def)

lemma pieces_sum_mod:
  "odd_pieces_small k ps \<Longrightarrow> pieces_sum k ps mod 65535 = (shift k * words_sum (concat ps)) mod 65535"
proof (induction ps arbitrary: k)
  case (Cons p ps)
  have piece: "piece_sum k p mod 65535 = (shift k * words_sum p) mod 65535"
    using Cons.prems bswap_sum(1) [of "words_sum p"] by (simp add: piece_sum_def shift_def)
  have "pieces_sum k (p # ps) mod 65535 = (piece_sum k p mod 65535 + pieces_sum (k + length p) ps mod 65535) mod 65535"
    by (simp add: mod_add_eq)
  also have "\<dots> = (shift k * words_sum p + shift (k + length p) * words_sum (concat ps)) mod 65535"
    using piece Cons by (simp add: mod_add_eq)
  also have "\<dots> = (shift k * words_sum p + (shift k * shift (length p)) * words_sum (concat ps)) mod 65535"
    using shift_add [of k "length p"] by (metis mod_tail(2))
  also have "\<dots> = (0 + shift k * (words_sum p + shift (length p) * words_sum (concat ps))) mod 65535"
    by (simp add: algebra_simps)
  also have "\<dots> = (0 + shift k * words_sum (p @ concat ps)) mod 65535"
    using words_sum_append_mod [of p "concat ps"] by (metis mod_tail(1))
  finally show ?case by simp
qed simp

lemma pieces_sum_zero: "odd_pieces_small k ps \<Longrightarrow> pieces_sum k ps = 0 \<longleftrightarrow> words_sum (concat ps) = 0"
proof (induction ps arbitrary: k)
  case (Cons p ps)
  have "piece_sum k p = 0 \<longleftrightarrow> words_sum p = 0"
    using Cons.prems bswap_sum(2) [of "words_sum p"] by (simp add: piece_sum_def)
  then show ?case using Cons by (simp add: words_sum_zero)
qed simp

lemma pieces_sum_bound: "pieces_sum k ps \<le> 65535 * length (concat ps)"
proof (induction ps arbitrary: k)
  case (Cons p ps)
  have "piece_sum k p \<le> 65535 * length p"
  proof (cases "p = []")
    case False
    then have "65535 * 1 \<le> 65535 * length p" by (intro mult_le_mono2) (simp add: Suc_le_eq)
    moreover have "unat v \<le> 65535" for v :: u16 using unsigned_less [of v, where 'a = nat] by simp
    ultimately show ?thesis using words_sum_le_length [of p] le_trans [of "unat (rte_bswap16 (of_nat (words_sum p)))" 65535]
      by (simp add: piece_sum_def)
  qed (simp add: piece_sum_def rte_bswap16_eq_0 unat_eq_0)
  then show ?case using Cons [of "k + length p"] by (simp add: add_mult_distrib2)
qed simp

text \<open>Pieces and one buffer give the same checksum.\<close>

lemma pieces_cksum:
  assumes "odd_pieces_small 0 ps" "length (concat ps) \<le> 65536"
  shows "raw_cksum_reduce (of_nat (pieces_sum 0 ps)) = rte_raw_cksum (concat ps)"
proof -
  have "pieces_sum 0 ps \<le> 65535 * 65536" using pieces_sum_bound [of 0 ps] assms(2) by (meson le_trans mult_le_mono2)
  then have "unat (of_nat (pieces_sum 0 ps) :: u32) = pieces_sum 0 ps" by (simp add: unat_of_nat)
  moreover have "ones_sum (pieces_sum 0 ps) = ones_sum (words_sum (concat ps))"
    using pieces_sum_mod [OF assms(1)] pieces_sum_zero [OF assms(1)] ones_sum_mod [of "pieces_sum 0 ps"] ones_sum_bounds
    by (intro ones_sum_unique) (simp_all add: shift_def)
  ultimately show ?thesis using assms(2)
    by (simp add: word_unat_eq_iff unat_raw_cksum_reduce unat_rte_raw_cksum)
qed

section \<open>Segments\<close>

lemma load_bytes_iff: "load_bytes a n h = Some d \<longleftrightarrow> length d = n \<and> (\<forall>i < n. h_byte h (a + of_nat i) = Some (d ! i))"
proof (induction n arbitrary: a d)
  case (Suc n)
  show ?case
  proof (cases d)
    case (Cons b bs)
    have "(\<forall>i < Suc n. h_byte h (a + of_nat i) = Some ((b # bs) ! i)) \<longleftrightarrow>
        h_byte h a = Some b \<and> (\<forall>i < n. h_byte h (a + 1 + of_nat i) = Some (bs ! i))"
      unfolding All_less_Suc2 by (simp add: ac_simps)
    moreover have "load_bytes a (Suc n) h = Some (b # bs) \<longleftrightarrow> h_byte h a = Some b \<and> load_bytes (a + 1) n h = Some bs"
      by (auto split: Option.bind_splits)
    ultimately show ?thesis using Suc Cons by auto
  qed (auto split: Option.bind_splits)
qed auto

lemma load_bytes_sub:
  assumes "load_bytes a (length d) h = Some d" "k + n \<le> length d"
  shows "load_bytes (a + of_nat k) n h = Some (take n (drop k d))"
  using assms by (auto simp: load_bytes_iff add.assoc simp flip: of_nat_add)

text \<open>The bytes of a segment.\<close>

definition seg_data :: "'d heap \<Rightarrow> u64 \<Rightarrow> u8 list option" where
  "seg_data h s = do {b \<leftarrow> h_mbuf h s; load_bytes (rte_pktmbuf_mtod_offset b 0) (unat (mb_data_len b)) h}"

lemma seg_dataD:
  assumes "seg_data h s = Some d" "h_mbuf h s = Some b"
  shows "length d = unat (mb_data_len b)" "load_bytes (rte_pktmbuf_mtod_offset b 0) (length d) h = Some d"
proof -
  have l: "load_bytes (rte_pktmbuf_mtod_offset b 0) (unat (mb_data_len b)) h = Some d" using assms by (simp add: seg_data_def)
  then show len: "length d = unat (mb_data_len b)" by (simp add: load_bytes_iff)
  show "load_bytes (rte_pktmbuf_mtod_offset b 0) (length d) h = Some d" unfolding len by (rule l)
qed

lemma seg_data_sub:
  assumes "seg_data h s = Some d" "h_mbuf h s = Some b" "unat k + n \<le> length d"
  shows "load_bytes (rte_pktmbuf_mtod_offset b (ucast (k :: u32))) n h = Some (take n (drop (unat k) d))"
proof -
  have "rte_pktmbuf_mtod_offset b (ucast k) = rte_pktmbuf_mtod_offset b 0 + of_nat (unat k)"
    by (simp add: rte_pktmbuf_mtod_offset_def)
  then show ?thesis using load_bytes_sub [OF seg_dataD(2) [OF assms(1,2)] assms(3)] by simp
qed

text \<open>The pieces of a range: without the bytes before it, and cut where it ends.\<close>

fun skip_bytes :: "nat \<Rightarrow> u8 list list \<Rightarrow> u8 list list" where
  "skip_bytes n [] = []"
| "skip_bytes n (d # ds) = (if n < length d then drop n d # ds else skip_bytes (n - length d) ds)"

fun cut_bytes :: "nat \<Rightarrow> u8 list list \<Rightarrow> u8 list list" where
  "cut_bytes n [] = []"
| "cut_bytes n (d # ds) = (if n = 0 then [] else take n d # cut_bytes (n - length d) ds)"

lemma concat_skip_bytes: "concat (skip_bytes n ds) = drop n (concat ds)"
  by (induction n ds rule: skip_bytes.induct) auto

lemma concat_cut_bytes: "concat (cut_bytes n ds) = take n (concat ds)"
  by (induction n ds rule: cut_bytes.induct) auto

lemma cksum_find_seg_run:
  assumes "seg_path h m ms NULL" "map (seg_data h) ms = map Some ds" "unat off < length (concat ds)"
  shows "\<exists>s ss d es off'. cksum_find_seg m off z h = Some (s, off', of_nat (length d)) \<and> seg_path h s (s # ss) NULL \<and>
    seg_data h s = Some d \<and> map (seg_data h) ss = map Some es \<and> unat off' < length d \<and>
    skip_bytes (unat off) ds = drop (unat off') d # es"
  using assms
proof (induction ds arbitrary: m ms off z)
  case (Cons d ds)
  obtain s ss where ms: "ms = s # ss" "seg_data h s = Some d" "map (seg_data h) ss = map Some ds"
    using Cons.prems(2) by auto
  obtain b where b: "m = s" "s \<noteq> NULL" "h_mbuf h s = Some b" "seg_path h (mb_next b) ss NULL"
    using Cons.prems(1) ms(1) by auto
  have d: "unat (ucast (mb_data_len b) :: u32) = length d" using seg_dataD(1) [OF ms(2) b(3)] by (simp add: unat_ucast_u32)
  then have w: "(ucast (mb_data_len b) :: u32) = of_nat (length d)" by (metis of_nat_unat ucast_id)
  note len = seg_dataD(1) [OF ms(2) b(3)]
  show ?case
  proof (cases "unat off < length d")
    case True
    then have "cksum_find_seg m off z h = Some (s, off, of_nat (length d))"
      using b d w len [symmetric] by (subst cksum_find_seg.simps) (simp add: word_less_nat_alt Let_def)
    moreover have "seg_path h s (s # ss) NULL" using Cons.prems(1) ms(1) b(1) by simp
    ultimately show ?thesis using True ms(2,3)
      by (intro exI [of _ s] exI [of _ ss] exI [of _ d] exI [of _ ds] exI [of _ off]) simp
  next
    case False
    have o': "unat (off - ucast (mb_data_len b)) = unat off - length d"
      using False d by (simp add: unat_sub word_le_nat_alt)
    have "cksum_find_seg m off z h = cksum_find_seg (mb_next b) (off - ucast (mb_data_len b)) (ucast (mb_data_len b)) h"
      using b d False by (subst cksum_find_seg.simps) (simp add: word_less_nat_alt Let_def)
    moreover have "skip_bytes (unat off) (d # ds) = skip_bytes (unat (off - ucast (mb_data_len b))) ds"
      using False o' by simp
    moreover have "unat (off - ucast (mb_data_len b)) < length (concat ds)"
      using False o' Cons.prems(3) by simp
    ultimately show ?thesis
      using Cons.IH [OF b(4) ms(3), of "off - ucast (mb_data_len b)" "ucast (mb_data_len b)"] by metis
  qed
qed simp

lemma ucast_of_nat_u16: "ucast (of_nat n :: u32) = (of_nat n :: u16)"
  by (rule bit_word_eqI) (simp add: bit_simps)

lemma odd_u32: "(k AND 1 \<noteq> 0) = odd (unat k)" for k :: u32
proof -
  have "unat (k AND mask 1) = unat k mod 2" unfolding unat_and_mask by simp
  then show ?thesis unfolding unat_eq_0 [symmetric] by (simp add: odd_iff_mod_2_eq_one mask_eq_decr_exp)
qed

lemma cksum_segs_run:
  assumes "seg_path h seg (s # ss) NULL" "map (seg_data h) ss = map Some ds"
    "load_bytes buf (length p) h = Some p" "unat seglen = length p"
    "unat len = unat fin + length p + r" "r \<le> length (concat ds)"
  shows "cksum_segs seg buf seglen len fin acc h = Some (acc + of_nat (pieces_sum (unat fin) (p # cut_bytes r ds)))"
  using assms
proof (induction ds arbitrary: seg s ss buf p seglen fin r acc)
  case Nil
  have "unat (fin + seglen) = unat fin + unat seglen"
    using Nil.prems(4,5,6) unsigned_less [of len, where 'a = nat] by (intro unat_add_lt) simp
  then have "fin + seglen = len" using Nil.prems(4,5,6) by (simp add: word_unat_eq_iff)
  then show ?case using Nil.prems(3,4)
    by (subst cksum_segs.simps) (simp add: Let_def odd_u32 piece_sum_def raw_cksum_sum_nat ucast_of_nat_u16)
next
  case (Cons d ds)
  have fin: "unat (fin + seglen) = unat fin + length p"
    using Cons.prems(4,5) unsigned_less [of len, where 'a = nat] by (subst unat_add_lt) simp_all
  define acc' where "acc' = acc + of_nat (piece_sum (unat fin) p)"
  have acc: "acc' = acc + (if fin AND 1 \<noteq> 0 then ucast (rte_bswap16 (ucast (raw_cksum_sum p 0))) else raw_cksum_sum p 0)"
    by (simp add: acc'_def odd_u32 piece_sum_def raw_cksum_sum_nat ucast_of_nat_u16)
  show ?case
  proof (cases "r = 0")
    case True
    then have "fin + seglen = len" using fin Cons.prems(5) by (simp add: word_unat_eq_iff)
    then show ?thesis using True Cons.prems(3,4)
      by (subst cksum_segs.simps) (simp add: Let_def acc [symmetric] acc'_def)
  next
    case False
    obtain s' ss' where ss: "ss = s' # ss'" "seg_data h s' = Some d" "map (seg_data h) ss' = map Some ds"
      using Cons.prems(2) by auto
    obtain b b' where b: "seg \<noteq> NULL" "h_mbuf h seg = Some b" "mb_next b = s'" "h_mbuf h s' = Some b'" "seg_path h s' (s' # ss') NULL"
      using Cons.prems(1) ss(1) by auto
    have ne: "fin + seglen \<noteq> len" using fin Cons.prems(5) False by (auto simp: word_unat_eq_iff)
    have rest: "unat (len - (fin + seglen)) = r" using fin Cons.prems(5) by (simp add: unat_sub word_le_nat_alt)
    define seglen' where "seglen' = (if (ucast (mb_data_len b') :: u32) > len - (fin + seglen) then len - (fin + seglen) else ucast (mb_data_len b'))"
    have len': "unat seglen' = length (take r d)"
      using seg_dataD(1) [OF ss(2) b(4)] rest by (simp add: seglen'_def word_less_nat_alt unat_ucast_u32)
    have load: "load_bytes (rte_pktmbuf_mtod_offset b' 0) (length (take r d)) h = Some (take r d)"
    proof -
      have "take (length (take r d)) d = take r d" by (simp add: min_def)
      then show ?thesis using seg_data_sub [OF ss(2) b(4), of 0 "length (take r d)"] by simp
    qed
    have "cksum_segs seg buf seglen len fin acc h =
        cksum_segs s' (rte_pktmbuf_mtod_offset b' 0) seglen' len (fin + seglen) acc' h"
      using Cons.prems(3,4) b ne by (subst cksum_segs.simps) (simp add: Let_def acc seglen'_def)
    also have "\<dots> = Some (acc' + of_nat (pieces_sum (unat (fin + seglen)) (take r d # cut_bytes (r - length d) ds)))"
      using Cons.prems(5,6) fin by (intro Cons.IH [OF b(5) ss(3) load len']) auto
    finally show ?thesis using False fin by (simp add: acc'_def)
  qed
qed

section \<open>Properties\<close>

lemma packet_total:
  assumes "packet h m ms" "map (seg_data h) ms = map Some ds"
  obtains b d es where "h_mbuf h m = Some b" "unat (mb_pkt_len b) = length (concat ds)" "seg_path h m ms NULL"
    "ds = d # es" "seg_data h m = Some d"
proof -
  have len: "length (concat ds) = seg_lens h ms" if "map (seg_data h) ms = map Some ds" for ms ds
    using that
  proof (induction ds arbitrary: ms)
    case (Cons d ds)
    then obtain s ss where s: "ms = s # ss" "seg_data h s = Some d" "map (seg_data h) ss = map Some ds" by auto
    then obtain b where "h_mbuf h s = Some b" by (auto simp: seg_data_def split: Option.bind_splits)
    then show ?case using s Cons.IH [OF s(3)] seg_dataD(1) [OF s(2)] by (simp add: seg_lens_def)
  qed (simp add: seg_lens_def)
  obtain b where b: "h_mbuf h m = Some b" "unat (mb_pkt_len b) = seg_lens h ms" "seg_path h m ms NULL" "ms \<noteq> []"
    using assms(1) by (auto simp: packet_def)
  obtain d es where "ds = d # es" "seg_data h m = Some d" using b(3,4) assms(2) by (cases ms; cases ds) auto
  then show thesis using len [OF assms(2)] b(2) by (intro that [OF b(1) _ b(3)]) simp_all
qed

lemma cksum_in_seg_run:
  assumes f: "seg_path h s (s # ss) NULL" "seg_data h s = Some e" "map (seg_data h) ss = map Some fs" "unat off < length e"
    and len: "0 < unat len" "unat len \<le> length (drop (unat off) e @ concat fs)" "unat len \<le> 65536"
    and odd: "odd_pieces_small 0 (cut_bytes (unat len) (drop (unat off) e # fs))"
  shows "\<exists>c. h_mbuf h s = Some c \<and> cksum_in_seg s c (of_nat (length e)) off len h
      = Some (rte_raw_cksum (take (unat len) (drop (unat off) e @ concat fs)))"
proof -
  obtain c where c: "h_mbuf h s = Some c" using f(1) by auto
  have "unat (of_nat (length e) :: u32) = length e"
    using seg_dataD(1) [OF f(2) c] by (metis of_nat_unat unat_ucast_u32(1) ucast_id)
  then have rest: "unat (of_nat (length e) - off) = length e - unat off" using f(4) by (simp add: unat_sub word_le_nat_alt)
  define p where "p = drop (unat off) e"
  have p: "length p = length e - unat off" by (simp add: p_def)
  show ?thesis
  proof (cases "unat len \<le> length p")
    case True
    then have "len \<le> of_nat (length e) - off" using rest p by (simp add: word_le_nat_alt)
    moreover have "unat off + unat len \<le> length e" using True f(4) p by linarith
    ultimately show ?thesis using c seg_data_sub [OF f(2) c, of off "unat len"] True
      by (simp add: cksum_in_seg_def Let_def p_def)
  next
    case far: False
    define r where "r = unat len - length p"
    have load: "load_bytes (rte_pktmbuf_mtod_offset c (ucast off)) (length p) h = Some p"
      using seg_data_sub [OF f(2) c, of off "length p"] f(4) p by (simp add: p_def)
    have cut: "cut_bytes (unat len) (p # fs) = p # cut_bytes r fs" using far len(1) by (simp add: r_def)
    have "cksum_segs s (rte_pktmbuf_mtod_offset c (ucast off)) (of_nat (length e) - off) len 0 0 h
        = Some (of_nat (pieces_sum 0 (cut_bytes (unat len) (p # fs))))" unfolding cut
      using cksum_segs_run [OF f(1,3) load, of "of_nat (length e) - off" len 0 r 0] rest p far len(2) by (simp add: r_def p_def)
    moreover have "raw_cksum_reduce (of_nat (pieces_sum 0 (cut_bytes (unat len) (p # fs)))) = rte_raw_cksum (take (unat len) (concat (p # fs)))"
      using odd len(3) pieces_cksum [of "cut_bytes (unat len) (p # fs)"] by (simp add: concat_cut_bytes p_def del: cut_bytes.simps concat.simps)
    moreover have "\<not> of_nat (length e) - off \<ge> len" using rest far p by (simp add: word_le_nat_alt)
    ultimately show ?thesis using c by (simp add: cksum_in_seg_def Let_def p_def)
  qed
qed

text \<open>C19. The checksum over a range of a packet of several segments is the checksum of the same bytes in
  one buffer, for every non-empty range of up to 64 KiB inside the packet, provided that no piece that
  starts at an odd distance sums up to more than 16 bits: the code cuts such a sum before it swaps its
  bytes. A range that ends behind the packet is refused with -1, unless its end wraps around.\<close>

theorem rte_raw_cksum_mbuf_exact:
  assumes "packet h m ms" "map (seg_data h) ms = map Some ds" "0 < len"
  shows "(unat off + unat len \<le> length (concat ds) \<longrightarrow> unat len \<le> 65536 \<longrightarrow>
      odd_pieces_small 0 (cut_bytes (unat len) (skip_bytes (unat off) ds)) \<longrightarrow>
      rte_raw_cksum_mbuf m off len h = Some (0, Some (rte_raw_cksum (take (unat len) (drop (unat off) (concat ds)))))) \<and>
    (length (concat ds) < unat off + unat len \<longrightarrow> unat off + unat len < 2 ^ 32 \<longrightarrow> rte_raw_cksum_mbuf m off len h = Some (- 1, None))"
proof -
  obtain b d es where b: "h_mbuf h m = Some b" "unat (mb_pkt_len b) = length (concat ds)" "seg_path h m ms NULL"
    "ds = d # es" "seg_data h m = Some d" by (rule packet_total [OF assms(1,2)])
  note d = seg_dataD(1) [OF b(5,1)]
  have total: "length (concat ds) < 2 ^ 32" using b(2) unsigned_less [of "mb_pkt_len b", where 'a = nat] by simp
  have pos: "0 < unat len" using assms(3) by (simp add: word_gt_0 unat_gt_0)
  have sum: "unat (off + len) = unat off + unat len" if "unat off + unat len < 2 ^ 32"
    using that by (intro unat_add_lt) simp
  have ok: "rte_raw_cksum_mbuf m off len h = Some (0, Some (rte_raw_cksum (take (unat len) (drop (unat off) (concat ds)))))"
    if inside: "unat off + unat len \<le> length (concat ds)" and small: "unat len \<le> 65536"
      and odd: "odd_pieces_small 0 (cut_bytes (unat len) (skip_bytes (unat off) ds))"
  proof (cases "unat off + unat len \<le> length d")
    case True
    then have "off + len \<le> ucast (mb_data_len b)" using sum inside total d by (simp add: word_le_nat_alt unat_ucast_u32)
    moreover have "take (unat len) (drop (unat off) (concat ds)) = take (unat len) (drop (unat off) d)"
      using True b(4) by simp
    ultimately show ?thesis using b(1) seg_data_sub [OF b(5,1) True] by (simp add: rte_raw_cksum_mbuf_def)
  next
    case False
    then have guards: "\<not> off + len \<le> ucast (mb_data_len b)" "\<not> off + len > mb_pkt_len b"
      using sum inside total d b(2) by (simp_all add: word_le_nat_alt word_less_nat_alt unat_ucast_u32)
    have "unat off < length (concat ds)" using inside pos by simp
    then obtain s ss e fs off' where f: "cksum_find_seg m off 0 h = Some (s, off', of_nat (length e))"
      "seg_path h s (s # ss) NULL" "seg_data h s = Some e" "map (seg_data h) ss = map Some fs" "unat off' < length e"
      "skip_bytes (unat off) ds = drop (unat off') e # fs"
      using cksum_find_seg_run [OF b(3) assms(2), of off 0] by blast
    have range: "drop (unat off) (concat ds) = drop (unat off') e @ concat fs"
      using f(6) concat_skip_bytes [of "unat off" ds] by simp
    have "unat len \<le> length (drop (unat off') e @ concat fs)" using inside unfolding range [symmetric] by simp
    then obtain c where "h_mbuf h s = Some c" "cksum_in_seg s c (of_nat (length e)) off' len h
        = Some (rte_raw_cksum (take (unat len) (drop (unat off) (concat ds))))"
      using cksum_in_seg_run [OF f(2-5) pos _ small] odd unfolding f(6) range by blast
    moreover have "s \<noteq> NULL" using f(2) by simp
    ultimately show ?thesis using b(1) guards f(1)
      by (simp add: rte_raw_cksum_mbuf_def)
  qed
  have "rte_raw_cksum_mbuf m off len h = Some (- 1, None)" if "length (concat ds) < unat off + unat len" "unat off + unat len < 2 ^ 32"
  proof -
    have "length d \<le> length (concat ds)" using b(4) by simp
    then have "\<not> off + len \<le> ucast (mb_data_len b)" "off + len > mb_pkt_len b"
      using sum [OF that(2)] that d b(2) by (simp_all add: word_le_nat_alt word_less_nat_alt unat_ucast_u32)
    then show ?thesis using b(1) by (simp add: rte_raw_cksum_mbuf_def)
  qed
  then show ?thesis using ok by blast
qed

text \<open>Two segments of given bytes. With an odd first one the result is right as long as the sum of the
  second fits 16 bits, and wrong for three bytes of 255.\<close>

definition ex_two :: "u8 list \<Rightarrow> u8 list \<Rightarrow> rte_ring heap" where
  "ex_two d e = ex_heap\<lparr>
     h_mbuf := [1000 \<mapsto> (ex_mbuf 1000)\<lparr>mb_data_len := of_nat (length d), mb_pkt_len := of_nat (length d + length e), mb_nb_segs := 2, mb_next := 2000\<rparr>,
       2000 \<mapsto> (ex_mbuf 2000)\<lparr>mb_data_len := of_nat (length e)\<rparr>],
     h_byte := (\<lambda>a. let bs = (if a < 2000 then d else e); i = unat (if a < 2000 then a - 1256 else a - 2256)
                       in if i < length bs then Some (bs ! i) else None)\<rparr>"

lemma ex_two_data:
  "packet (ex_two [255] [x, y, z]) 1000 [1000, 2000]"
  "map (seg_data (ex_two [255] [x, y, z])) [1000, 2000] = map Some [[255], [x, y, z]]"
proof -
  have lt: "i = 0 \<or> i = 1 \<or> i = 2" if "i < 3" for i :: nat using that by linarith
  show "packet (ex_two [255] [x, y, z]) 1000 [1000, 2000]" by (simp add: packet_def ex_two_def seg_lens_def)
  show "map (seg_data (ex_two [255] [x, y, z])) [1000, 2000] = map Some [[255], [x, y, z]]"
    by (auto simp: ex_two_def seg_data_def rte_pktmbuf_mtod_offset_def load_bytes_iff dest!: lt)
qed

lemma ex_two_wrong: "rte_raw_cksum_mbuf 1000 0 4 (ex_two [255] [255, 255, 255]) = Some (0, Some 0xfeff)"
proof -
  let ?h = "ex_two [255] [255, 255, 255]"
  obtain b where b: "h_mbuf ?h 1000 = Some b" "mb_data_len b = 1" "mb_pkt_len b = 4" by (simp add: ex_two_def)
  note data = ex_two_data(2) [of 255 255 255]
  have path: "seg_path ?h 1000 [1000, 2000] NULL" using ex_two_data(1) [of 255 255 255] by (simp add: packet_def)
  have f: "cksum_find_seg 1000 0 0 ?h = Some (1000, 0, 1)"
    using b by (subst cksum_find_seg.simps) simp
  have "load_bytes (rte_pktmbuf_mtod_offset b 0) (length [255]) ?h = Some [255]"
    using seg_data_sub [of ?h 1000 "[255]" b 0 1] data b(1) by simp
  from cksum_segs_run [OF path _ this, of "[[255, 255, 255]]" 1 4 0 3 0] data
  have "cksum_segs 1000 (rte_pktmbuf_mtod_offset b 0) 1 4 0 0 ?h = Some (of_nat (pieces_sum 0 [[255], [255, 255, 255]]))" by simp
  moreover have "raw_cksum_reduce (of_nat (pieces_sum 0 [[255], [255, 255, 255]])) = 0xfeff"
    by (simp add: piece_sum_def rte_bswap16_def raw_cksum_reduce_def cksum_fold_def Let_def)
  ultimately show ?thesis using b f by (simp add: rte_raw_cksum_mbuf_def cksum_in_seg_def word_le_nat_alt)
qed

theorem rte_raw_cksum_mbuf_exact_witness:
  "rte_raw_cksum_mbuf 1000 0 4 (ex_two [255] [1, 2, 3]) = Some (0, Some (rte_raw_cksum [255, 1, 2, 3])) \<and>
   rte_raw_cksum_mbuf 1000 0 4 (ex_two [255] [255, 255, 255]) \<noteq> Some (0, Some (rte_raw_cksum [255, 255, 255, 255]))"
proof
  show "rte_raw_cksum_mbuf 1000 0 4 (ex_two [255] [1, 2, 3]) = Some (0, Some (rte_raw_cksum [255, 1, 2, 3]))"
    using rte_raw_cksum_mbuf_exact [OF ex_two_data [of 1 2 3], of 4 0] by simp
  have "rte_raw_cksum [255, 255, 255, 255] = 0xffff" by code_simp
  then show "rte_raw_cksum_mbuf 1000 0 4 (ex_two [255] [255, 255, 255]) \<noteq> Some (0, Some (rte_raw_cksum [255, 255, 255, 255]))"
    by (simp add: ex_two_wrong)
qed

end
