(* ===== verification/Rte_Meter.thy ===== *)
theory Rte_Meter
  imports Prelude "HOL-Library.Monad_Syntax"
begin

text \<open>
  The traffic meters of rte\_meter.h: single rate, two rate and RFC 4115, each with token buckets that
  are filled by elapsed periods and drained by packets. A division by a zero period is \<open>None\<close>.
  Configuring a profile is compiled code outside the repository.
\<close>

section \<open>State\<close>

datatype rte_color = RTE_COLOR_GREEN | RTE_COLOR_YELLOW | RTE_COLOR_RED

record rte_meter_srtcm_profile =
  srp_cbs :: u64
  srp_ebs :: u64
  srp_cir_period :: u64
  srp_cir_bytes_per_period :: u64

record rte_meter_srtcm =
  sr_time :: u64
  sr_tc :: u64
  sr_te :: u64

record rte_meter_trtcm_profile =
  trp_cbs :: u64
  trp_pbs :: u64
  trp_cir_period :: u64
  trp_cir_bytes_per_period :: u64
  trp_pir_period :: u64
  trp_pir_bytes_per_period :: u64

record rte_meter_trtcm =
  tr_time_tc :: u64
  tr_time_tp :: u64
  tr_tc :: u64
  tr_tp :: u64

record rte_meter_trtcm_rfc4115_profile =
  rfp_cbs :: u64
  rfp_ebs :: u64
  rfp_cir_period :: u64
  rfp_cir_bytes_per_period :: u64
  rfp_eir_period :: u64
  rfp_eir_bytes_per_period :: u64

record rte_meter_trtcm_rfc4115 =
  rf_time_tc :: u64
  rf_time_te :: u64
  rf_tc :: u64
  rf_te :: u64

section \<open>Bucket updates\<close>

text \<open>The periods since the last update, and the new time of the last update.\<close>

definition n_periods :: "u64 \<Rightarrow> u64 \<Rightarrow> u64 \<Rightarrow> (u64 \<times> u64) option" where
  "n_periods now stamp period =
     (if period = 0 then None
      else (let n = (now - stamp) div period in Some (n, stamp + n * period)))"

text \<open>One bucket: tokens added and cut to the limit.\<close>

definition fill_bucket :: "u64 \<Rightarrow> u64 \<Rightarrow> u64 \<Rightarrow> u64 \<Rightarrow> u64" where
  "fill_bucket tokens n bytes limit =
     (let t = tokens + n * bytes in if t > limit then limit else t)"

text \<open>The single-rate meter: what does not fit the C bucket goes to the E bucket.\<close>

definition srtcm_update :: "rte_meter_srtcm \<Rightarrow> rte_meter_srtcm_profile \<Rightarrow> u64 \<Rightarrow> (rte_meter_srtcm \<times> u64 \<times> u64) option" where
  "srtcm_update m p now = do {
     (n, stamp) \<leftarrow> n_periods now (sr_time m) (srp_cir_period p);
     let m = m\<lparr>sr_time := stamp\<rparr>;
     let tc = sr_tc m + n * srp_cir_bytes_per_period p;
     let te = sr_te m;
     if tc > srp_cbs p then
       (let te = te + (tc - srp_cbs p);
            te = (if te > srp_ebs p then srp_ebs p else te)
        in Some (m, srp_cbs p, te))
     else Some (m, tc, te)
   }"

definition trtcm_update :: "rte_meter_trtcm \<Rightarrow> rte_meter_trtcm_profile \<Rightarrow> u64 \<Rightarrow> (rte_meter_trtcm \<times> u64 \<times> u64) option" where
  "trtcm_update m p now = do {
     (n_tc, stamp_tc) \<leftarrow> n_periods now (tr_time_tc m) (trp_cir_period p);
     (n_tp, stamp_tp) \<leftarrow> n_periods now (tr_time_tp m) (trp_pir_period p);
     let m = m\<lparr>tr_time_tc := stamp_tc, tr_time_tp := stamp_tp\<rparr>;
     Some (m, fill_bucket (tr_tc m) n_tc (trp_cir_bytes_per_period p) (trp_cbs p),
           fill_bucket (tr_tp m) n_tp (trp_pir_bytes_per_period p) (trp_pbs p))
   }"

definition rfc4115_update ::
    "rte_meter_trtcm_rfc4115 \<Rightarrow> rte_meter_trtcm_rfc4115_profile \<Rightarrow> u64 \<Rightarrow> (rte_meter_trtcm_rfc4115 \<times> u64 \<times> u64) option" where
  "rfc4115_update m p now = do {
     (n_tc, stamp_tc) \<leftarrow> n_periods now (rf_time_tc m) (rfp_cir_period p);
     (n_te, stamp_te) \<leftarrow> n_periods now (rf_time_te m) (rfp_eir_period p);
     let m = m\<lparr>rf_time_tc := stamp_tc, rf_time_te := stamp_te\<rparr>;
     Some (m, fill_bucket (rf_tc m) n_tc (rfp_cir_bytes_per_period p) (rfp_cbs p),
           fill_bucket (rf_te m) n_te (rfp_eir_bytes_per_period p) (rfp_ebs p))
   }"

section \<open>Metering a packet\<close>

definition rte_meter_srtcm_color_blind_check ::
    "rte_meter_srtcm \<Rightarrow> rte_meter_srtcm_profile \<Rightarrow> u64 \<Rightarrow> u32 \<Rightarrow> (rte_color \<times> rte_meter_srtcm) option" where
  "rte_meter_srtcm_color_blind_check m p now pkt_len = do {
     (m, tc, te) \<leftarrow> srtcm_update m p now;
     if tc \<ge> ucast pkt_len then Some (RTE_COLOR_GREEN, m\<lparr>sr_tc := tc - ucast pkt_len, sr_te := te\<rparr>)
     else if te \<ge> ucast pkt_len then Some (RTE_COLOR_YELLOW, m\<lparr>sr_tc := tc, sr_te := te - ucast pkt_len\<rparr>)
     else Some (RTE_COLOR_RED, m\<lparr>sr_tc := tc, sr_te := te\<rparr>)
   }"

definition rte_meter_srtcm_color_aware_check ::
    "rte_meter_srtcm \<Rightarrow> rte_meter_srtcm_profile \<Rightarrow> u64 \<Rightarrow> u32 \<Rightarrow> rte_color \<Rightarrow> (rte_color \<times> rte_meter_srtcm) option" where
  "rte_meter_srtcm_color_aware_check m p now pkt_len pkt_color = do {
     (m, tc, te) \<leftarrow> srtcm_update m p now;
     if pkt_color = RTE_COLOR_GREEN \<and> tc \<ge> ucast pkt_len then
       Some (RTE_COLOR_GREEN, m\<lparr>sr_tc := tc - ucast pkt_len, sr_te := te\<rparr>)
     else if pkt_color \<noteq> RTE_COLOR_RED \<and> te \<ge> ucast pkt_len then
       Some (RTE_COLOR_YELLOW, m\<lparr>sr_tc := tc, sr_te := te - ucast pkt_len\<rparr>)
     else Some (RTE_COLOR_RED, m\<lparr>sr_tc := tc, sr_te := te\<rparr>)
   }"

definition rte_meter_trtcm_color_blind_check ::
    "rte_meter_trtcm \<Rightarrow> rte_meter_trtcm_profile \<Rightarrow> u64 \<Rightarrow> u32 \<Rightarrow> (rte_color \<times> rte_meter_trtcm) option" where
  "rte_meter_trtcm_color_blind_check m p now pkt_len = do {
     (m, tc, tp) \<leftarrow> trtcm_update m p now;
     if tp < ucast pkt_len then Some (RTE_COLOR_RED, m\<lparr>tr_tc := tc, tr_tp := tp\<rparr>)
     else if tc < ucast pkt_len then Some (RTE_COLOR_YELLOW, m\<lparr>tr_tc := tc, tr_tp := tp - ucast pkt_len\<rparr>)
     else Some (RTE_COLOR_GREEN, m\<lparr>tr_tc := tc - ucast pkt_len, tr_tp := tp - ucast pkt_len\<rparr>)
   }"

definition rte_meter_trtcm_color_aware_check ::
    "rte_meter_trtcm \<Rightarrow> rte_meter_trtcm_profile \<Rightarrow> u64 \<Rightarrow> u32 \<Rightarrow> rte_color \<Rightarrow> (rte_color \<times> rte_meter_trtcm) option" where
  "rte_meter_trtcm_color_aware_check m p now pkt_len pkt_color = do {
     (m, tc, tp) \<leftarrow> trtcm_update m p now;
     if pkt_color = RTE_COLOR_RED \<or> tp < ucast pkt_len then Some (RTE_COLOR_RED, m\<lparr>tr_tc := tc, tr_tp := tp\<rparr>)
     else if pkt_color = RTE_COLOR_YELLOW \<or> tc < ucast pkt_len then
       Some (RTE_COLOR_YELLOW, m\<lparr>tr_tc := tc, tr_tp := tp - ucast pkt_len\<rparr>)
     else Some (RTE_COLOR_GREEN, m\<lparr>tr_tc := tc - ucast pkt_len, tr_tp := tp - ucast pkt_len\<rparr>)
   }"

definition rte_meter_trtcm_rfc4115_color_blind_check ::
    "rte_meter_trtcm_rfc4115 \<Rightarrow> rte_meter_trtcm_rfc4115_profile \<Rightarrow> u64 \<Rightarrow> u32 \<Rightarrow> (rte_color \<times> rte_meter_trtcm_rfc4115) option" where
  "rte_meter_trtcm_rfc4115_color_blind_check m p now pkt_len = do {
     (m, tc, te) \<leftarrow> rfc4115_update m p now;
     if tc \<ge> ucast pkt_len then Some (RTE_COLOR_GREEN, m\<lparr>rf_tc := tc - ucast pkt_len, rf_te := te\<rparr>)
     else if te \<ge> ucast pkt_len then Some (RTE_COLOR_YELLOW, m\<lparr>rf_tc := tc, rf_te := te - ucast pkt_len\<rparr>)
     else Some (RTE_COLOR_RED, m\<lparr>rf_tc := tc, rf_te := te\<rparr>)
   }"

definition rte_meter_trtcm_rfc4115_color_aware_check ::
    "rte_meter_trtcm_rfc4115 \<Rightarrow> rte_meter_trtcm_rfc4115_profile \<Rightarrow> u64 \<Rightarrow> u32 \<Rightarrow> rte_color
      \<Rightarrow> (rte_color \<times> rte_meter_trtcm_rfc4115) option" where
  "rte_meter_trtcm_rfc4115_color_aware_check m p now pkt_len pkt_color = do {
     (m, tc, te) \<leftarrow> rfc4115_update m p now;
     if pkt_color = RTE_COLOR_GREEN \<and> tc \<ge> ucast pkt_len then
       Some (RTE_COLOR_GREEN, m\<lparr>rf_tc := tc - ucast pkt_len, rf_te := te\<rparr>)
     else if pkt_color \<noteq> RTE_COLOR_RED \<and> te \<ge> ucast pkt_len then
       Some (RTE_COLOR_YELLOW, m\<lparr>rf_tc := tc, rf_te := te - ucast pkt_len\<rparr>)
     else Some (RTE_COLOR_RED, m\<lparr>rf_tc := tc, rf_te := te\<rparr>)
   }"

end
