(* ===== verification/Rte_Meter_Correct.thy ===== *)
theory Rte_Meter_Correct
  imports Rte_Meter
begin

text \<open>
  What the meters promise of the traffic they pass. Every bucket of every meter is one interpretation of
  a locale: a store of tokens that grows by full periods and pays for the bytes it marks.
\<close>

section \<open>Sequences of packets\<close>

text \<open>A packet is its arrival time, length and colour. The meter gives each a colour.\<close>

fun meter_run :: "('s \<Rightarrow> u64 \<Rightarrow> u32 \<Rightarrow> rte_color \<Rightarrow> (rte_color \<times> 's) option) \<Rightarrow> 's \<Rightarrow> (u64 \<times> u32 \<times> rte_color) list
      \<Rightarrow> (rte_color list \<times> 's) option" where
  "meter_run check s [] = Some ([], s)"
| "meter_run check s ((now, len, c) # pkts) = do {
     (r, s) \<leftarrow> check s now len c;
     (rs, s) \<leftarrow> meter_run check s pkts;
     Some (r # rs, s)
   }"

text \<open>The bytes of the packets that got one of the given colours.\<close>

fun marked :: "(rte_color \<Rightarrow> bool) \<Rightarrow> (u64 \<times> u32 \<times> rte_color) list \<Rightarrow> rte_color list \<Rightarrow> nat" where
  "marked marks ((now, len, c) # pkts) (r # rs) = (if marks r then unat len else 0) + marked marks pkts rs"
| "marked marks _ _ = 0"

text \<open>Packets in the order of their arrival, from \<open>start\<close> to \<open>until\<close>.\<close>

fun arrivals :: "nat \<Rightarrow> nat \<Rightarrow> (u64 \<times> u32 \<times> rte_color) list \<Rightarrow> bool" where
  "arrivals start until [] = (start \<le> until)"
| "arrivals start until ((now, len, c) # pkts) = (start \<le> unat now \<and> arrivals (unat now) until pkts)"

lemma arrivals_le: "arrivals start until pkts \<Longrightarrow> start \<le> until"
  by (induction start until pkts rule: arrivals.induct) auto

lemma arrivals_mono: "arrivals start until pkts \<Longrightarrow> start' \<le> start \<Longrightarrow> arrivals start' until pkts"
  by (cases pkts) auto

locale token_bucket =
  fixes check :: "'s \<Rightarrow> u64 \<Rightarrow> u32 \<Rightarrow> rte_color \<Rightarrow> (rte_color \<times> 's) option"
    and ok :: "'s \<Rightarrow> bool" and tokens stamp :: "'s \<Rightarrow> nat" and limit period bytes :: nat and marks :: "rte_color \<Rightarrow> bool"
  assumes check_law: "check s now len c = Some (r, s') \<Longrightarrow> ok s \<Longrightarrow> stamp s \<le> unat now \<Longrightarrow>
      limit + ((unat now - stamp s) div period) * bytes < 2 ^ 64 \<Longrightarrow>
      ok s' \<and> stamp s' = stamp s + ((unat now - stamp s) div period) * period \<and>
      tokens s' + (if marks r then unat len else 0) \<le> tokens s + ((unat now - stamp s) div period) * bytes"
begin

lemma run_bound:
  assumes "meter_run check s pkts = Some (rs, s')" "ok s" "arrivals (stamp s) until pkts"
    "limit + ((until - stamp s) div period) * bytes < 2 ^ 64"
  shows "ok s' \<and> tokens s' + marked marks pkts rs \<le> tokens s + ((until - stamp s) div period) * bytes"
  using assms
proof (induction pkts arbitrary: s rs)
  case (Cons pkt pkts)
  obtain now len c where pkt: "pkt = (now, len, c)" by (cases pkt) auto
  obtain r s1 rs1 where run: "check s now len c = Some (r, s1)" "meter_run check s1 pkts = Some (rs1, s')" "rs = r # rs1"
    using Cons.prems(1) pkt by (auto split: Option.bind_splits prod.splits)
  define n where "n = (unat now - stamp s) div period"
  have arr: "stamp s \<le> unat now" "arrivals (unat now) until pkts" "unat now \<le> until"
    using Cons.prems(3) pkt arrivals_le by auto
  have "n \<le> (until - stamp s) div period" unfolding n_def using arr(3) by (intro div_le_mono) simp
  then have "n * bytes \<le> ((until - stamp s) div period) * bytes" by (rule mult_le_mono1)
  then have lt: "limit + n * bytes < 2 ^ 64" using Cons.prems(4) by linarith
  have law: "ok s1" "stamp s1 = stamp s + n * period"
    "tokens s1 + (if marks r then unat len else 0) \<le> tokens s + n * bytes"
    using check_law [OF run(1) Cons.prems(2) arr(1) lt [unfolded n_def]] unfolding n_def by blast+
  have le: "n * period \<le> unat now - stamp s" by (simp add: n_def)
  have split: "(until - stamp s) div period = n + (until - stamp s1) div period"
  proof (cases "period = 0")
    case False
    have "until - stamp s = (until - stamp s1) + n * period" using le arr law(2) by simp
    then show ?thesis using False by simp
  qed (simp add: n_def)
  have "arrivals (stamp s1) until pkts" using arrivals_mono [OF arr(2)] le arr(1) law(2) by simp
  moreover have "limit + ((until - stamp s1) div period) * bytes < 2 ^ 64"
    using Cons.prems(4) unfolding split by (simp add: add_mult_distrib)
  ultimately have "ok s' \<and> tokens s' + marked marks pkts rs1 \<le> tokens s1 + ((until - stamp s1) div period) * bytes"
    using Cons.IH [OF run(2) law(1)] by simp
  then show ?case using law(3) run(3) pkt unfolding split by (simp add: add_mult_distrib)
qed simp

end

section \<open>Buckets on words\<close>

lemma n_periods_nat:
  assumes "n_periods now stamp period = Some (n, stamp')" "unat stamp \<le> unat now"
  shows "unat n = (unat now - unat stamp) div unat period" "unat stamp' = unat stamp + unat n * unat period"
proof -
  have n: "n = (now - stamp) div period" "stamp' = stamp + n * period"
    using assms(1) by (auto simp: n_periods_def Let_def split: if_splits)
  show e: "unat n = (unat now - unat stamp) div unat period"
    using assms(2) by (simp add: n(1) unat_div unat_sub word_le_nat_alt)
  have "unat n * unat period \<le> unat now - unat stamp" by (simp add: e)
  then have le: "unat stamp + unat n * unat period < 2 ^ 64" using assms(2) unsigned_less [of now, where 'a = nat] by simp
  then have "unat (n * period) = unat n * unat period" by (intro unat_mult_lem [THEN iffD1]) simp
  then show "unat stamp' = unat stamp + unat n * unat period" unfolding n(2) using le by (subst unat_add_lt) simp_all
qed

lemma add_tokens:
  fixes t n bytes :: u64
  assumes "unat t + unat n * unat bytes < 2 ^ 64"
  shows "unat (t + n * bytes) = unat t + unat n * unat bytes"
proof -
  have "unat (n * bytes) = unat n * unat bytes" using assms by (intro unat_mult_lem [THEN iffD1]) simp
  then show ?thesis using assms by (subst unat_add_lt) simp_all
qed

lemma fill_bucket_nat:
  assumes "unat t + unat n * unat bytes < 2 ^ 64"
  shows "unat (fill_bucket t n bytes limit) = min (unat t + unat n * unat bytes) (unat limit)"
  using add_tokens [OF assms] by (auto simp: fill_bucket_def Let_def word_less_nat_alt min_def)

lemma pay: "ucast len \<le> t \<Longrightarrow> unat (t - ucast len) + unat len = unat t" for t :: u64 and len :: u32
proof -
  assume le: "ucast len \<le> t"
  have "unat (of_nat (unat len) :: u64) = unat len" unfolding unat_of_nat
    using unsigned_less [of len, where 'a = nat] by simp
  then have "unat (ucast len :: u64) = unat len" by simp
  then show ?thesis using le by (simp add: unat_sub word_le_nat_alt)
qed

lemma update_runs: "period \<noteq> 0 \<Longrightarrow> \<exists>n stamp'. n_periods now stamp period = Some (n, stamp')"
  by (simp add: n_periods_def Let_def)

lemma meter_run_total:
  assumes "\<And>s now len c. \<exists>r s'. check s now len c = Some (r, s')"
  shows "\<exists>rs s'. meter_run check s pkts = Some (rs, s')"
proof (induction pkts arbitrary: s)
  case (Cons pkt pkts)
  obtain now len c where pkt: "pkt = (now, len, c)" by (cases pkt) auto
  obtain r s1 where "check s now len c = Some (r, s1)" using assms by blast
  moreover obtain rs s2 where "meter_run check s1 pkts = Some (rs, s2)" using Cons by blast
  ultimately show ?case using pkt by simp
qed simp

section \<open>The single-rate meter\<close>

lemma srtcm_update_nat:
  assumes "srtcm_update m p now = Some (m', tc, te)" "unat (sr_time m) \<le> unat now" "sr_tc m \<le> srp_cbs p"
    "unat (srp_cbs p) + n * unat (srp_cir_bytes_per_period p) < 2 ^ 64"
    and n: "n = (unat now - unat (sr_time m)) div unat (srp_cir_period p)"
  shows "unat (sr_time m') = unat (sr_time m) + n * unat (srp_cir_period p)" "tc \<le> srp_cbs p"
    "unat tc \<le> unat (sr_tc m) + n * unat (srp_cir_bytes_per_period p)"
    "sr_te m \<le> srp_ebs p \<Longrightarrow> unat (srp_cbs p) + unat (srp_ebs p) + n * unat (srp_cir_bytes_per_period p) < 2 ^ 64 \<Longrightarrow>
      te \<le> srp_ebs p \<and> unat tc + unat te \<le> unat (sr_tc m) + unat (sr_te m) + n * unat (srp_cir_bytes_per_period p)"
proof -
  define x where "x = n * unat (srp_cir_bytes_per_period p)"
  obtain k stamp where k: "n_periods now (sr_time m) (srp_cir_period p) = Some (k, stamp)" "sr_time m' = stamp"
    "tc = (if sr_tc m + k * srp_cir_bytes_per_period p > srp_cbs p then srp_cbs p else sr_tc m + k * srp_cir_bytes_per_period p)"
    "te = (if sr_tc m + k * srp_cir_bytes_per_period p > srp_cbs p then
        (let te = sr_te m + (sr_tc m + k * srp_cir_bytes_per_period p - srp_cbs p) in if te > srp_ebs p then srp_ebs p else te)
      else sr_te m)"
    using assms(1) by (auto simp: srtcm_update_def Let_def split: Option.bind_splits if_splits)
  note kn = n_periods_nat [OF k(1) assms(2), folded n]
  show "unat (sr_time m') = unat (sr_time m) + n * unat (srp_cir_period p)" using kn k(2) by simp
  have t: "unat (sr_tc m + k * srp_cir_bytes_per_period p) = unat (sr_tc m) + x"
    using add_tokens [of "sr_tc m" k "srp_cir_bytes_per_period p"] assms(3,4) kn(1) by (simp add: word_le_nat_alt x_def)
  show "tc \<le> srp_cbs p" using k(3) by auto
  show "unat tc \<le> unat (sr_tc m) + n * unat (srp_cir_bytes_per_period p)"
    unfolding x_def [symmetric] using k(3) t assms(3) by (auto simp: word_less_nat_alt)
  assume te: "sr_te m \<le> srp_ebs p" "unat (srp_cbs p) + unat (srp_ebs p) + n * unat (srp_cir_bytes_per_period p) < 2 ^ 64"
  show "te \<le> srp_ebs p \<and> unat tc + unat te \<le> unat (sr_tc m) + unat (sr_te m) + n * unat (srp_cir_bytes_per_period p)"
  proof (cases "sr_tc m + k * srp_cir_bytes_per_period p > srp_cbs p")
    case True
    define y where "y = sr_tc m + k * srp_cir_bytes_per_period p - srp_cbs p"
    have y: "unat y + unat (srp_cbs p) = unat (sr_tc m) + x" using True t by (simp add: y_def unat_sub word_less_nat_alt word_le_nat_alt)
    have "unat (sr_te m + y) = unat (sr_te m) + unat y"
      using te assms(3) y by (intro unat_add_lt) (simp add: x_def word_le_nat_alt)
    then show ?thesis unfolding x_def [symmetric] using True k(3,4) y by (auto simp: Let_def y_def [symmetric] word_less_nat_alt word_le_nat_alt)
  next
    case False
    then show ?thesis unfolding x_def [symmetric] using k(3,4) t te(1) by auto
  qed
qed

lemma srtcm_check_cases:
  assumes "rte_meter_srtcm_color_aware_check m p now len c = Some (r, m')"
  obtains m1 tc te where "srtcm_update m p now = Some (m1, tc, te)" "sr_time m' = sr_time m1"
    "r = RTE_COLOR_GREEN \<and> unat (sr_tc m') + unat len = unat tc \<and> sr_te m' = te \<or>
     r = RTE_COLOR_YELLOW \<and> sr_tc m' = tc \<and> unat (sr_te m') + unat len = unat te \<or>
     r = RTE_COLOR_RED \<and> sr_tc m' = tc \<and> sr_te m' = te"
  using assms that
  by (auto simp: rte_meter_srtcm_color_aware_check_def pay split: Option.bind_splits if_splits)

interpretation sr_green: token_bucket "\<lambda>m. rte_meter_srtcm_color_aware_check m p" "\<lambda>m. sr_tc m \<le> srp_cbs p"
  "\<lambda>m. unat (sr_tc m)" "\<lambda>m. unat (sr_time m)" "unat (srp_cbs p)" "unat (srp_cir_period p)" "unat (srp_cir_bytes_per_period p)"
  "\<lambda>r. r = RTE_COLOR_GREEN" for p
proof
  fix m :: rte_meter_srtcm and now len c r m'
  assume a: "rte_meter_srtcm_color_aware_check m p now len c = Some (r, m')" "sr_tc m \<le> srp_cbs p" "unat (sr_time m) \<le> unat now"
    "unat (srp_cbs p) + (unat now - unat (sr_time m)) div unat (srp_cir_period p) * unat (srp_cir_bytes_per_period p) < 2 ^ 64"
  obtain m1 tc te where u: "srtcm_update m p now = Some (m1, tc, te)" "sr_time m' = sr_time m1"
    "r = RTE_COLOR_GREEN \<and> unat (sr_tc m') + unat len = unat tc \<and> sr_te m' = te \<or>
     r = RTE_COLOR_YELLOW \<and> sr_tc m' = tc \<and> unat (sr_te m') + unat len = unat te \<or>
     r = RTE_COLOR_RED \<and> sr_tc m' = tc \<and> sr_te m' = te" by (rule srtcm_check_cases [OF a(1)])
  note n = srtcm_update_nat(1-3) [OF u(1) a(3,2,4) refl]
  show "sr_tc m' \<le> srp_cbs p \<and>
      unat (sr_time m') = unat (sr_time m) + (unat now - unat (sr_time m)) div unat (srp_cir_period p) * unat (srp_cir_period p) \<and>
      unat (sr_tc m') + (if r = RTE_COLOR_GREEN then unat len else 0)
        \<le> unat (sr_tc m) + (unat now - unat (sr_time m)) div unat (srp_cir_period p) * unat (srp_cir_bytes_per_period p)"
    using n u(2,3) by (auto simp: word_le_nat_alt)
qed

interpretation sr_both: token_bucket "\<lambda>m. rte_meter_srtcm_color_aware_check m p"
  "\<lambda>m. sr_tc m \<le> srp_cbs p \<and> sr_te m \<le> srp_ebs p" "\<lambda>m. unat (sr_tc m) + unat (sr_te m)" "\<lambda>m. unat (sr_time m)"
  "unat (srp_cbs p) + unat (srp_ebs p)" "unat (srp_cir_period p)" "unat (srp_cir_bytes_per_period p)" "\<lambda>r. r \<noteq> RTE_COLOR_RED" for p
proof
  fix m :: rte_meter_srtcm and now len c r m'
  assume a: "rte_meter_srtcm_color_aware_check m p now len c = Some (r, m')" "sr_tc m \<le> srp_cbs p \<and> sr_te m \<le> srp_ebs p"
    "unat (sr_time m) \<le> unat now"
    "unat (srp_cbs p) + unat (srp_ebs p) + (unat now - unat (sr_time m)) div unat (srp_cir_period p) * unat (srp_cir_bytes_per_period p) < 2 ^ 64"
  obtain m1 tc te where u: "srtcm_update m p now = Some (m1, tc, te)" "sr_time m' = sr_time m1"
    "r = RTE_COLOR_GREEN \<and> unat (sr_tc m') + unat len = unat tc \<and> sr_te m' = te \<or>
     r = RTE_COLOR_YELLOW \<and> sr_tc m' = tc \<and> unat (sr_te m') + unat len = unat te \<or>
     r = RTE_COLOR_RED \<and> sr_tc m' = tc \<and> sr_te m' = te" by (rule srtcm_check_cases [OF a(1)])
  have lt: "unat (srp_cbs p) + (unat now - unat (sr_time m)) div unat (srp_cir_period p) * unat (srp_cir_bytes_per_period p) < 2 ^ 64"
    using a(4) by simp
  note n = srtcm_update_nat [OF u(1) a(3) conjunct1 [OF a(2)] lt refl]
  show "(sr_tc m' \<le> srp_cbs p \<and> sr_te m' \<le> srp_ebs p) \<and>
      unat (sr_time m') = unat (sr_time m) + (unat now - unat (sr_time m)) div unat (srp_cir_period p) * unat (srp_cir_period p) \<and>
      unat (sr_tc m') + unat (sr_te m') + (if r \<noteq> RTE_COLOR_RED then unat len else 0)
        \<le> unat (sr_tc m) + unat (sr_te m) + (unat now - unat (sr_time m)) div unat (srp_cir_period p) * unat (srp_cir_bytes_per_period p)"
    using n(1-3) n(4) [OF conjunct2 [OF a(2)] a(4)] u(2,3) by (auto simp: word_le_nat_alt)
qed

section \<open>The two-rate meters\<close>

lemma fill_bucket_law:
  assumes "n_periods now stamp period = Some (k, stamp')" "unat stamp \<le> unat now" "t \<le> limit"
    "unat limit + n * unat bytes < 2 ^ 64" and n: "n = (unat now - unat stamp) div unat period"
  shows "unat stamp' = unat stamp + n * unat period" "fill_bucket t k bytes limit \<le> limit"
    "unat (fill_bucket t k bytes limit) \<le> unat t + n * unat bytes"
proof -
  note k = n_periods_nat [OF assms(1,2), folded n]
  show "unat stamp' = unat stamp + n * unat period" using k by simp
  have "unat (fill_bucket t k bytes limit) = min (unat t + n * unat bytes) (unat limit)"
    using fill_bucket_nat [of t k bytes limit] assms(3,4) k(1) by (simp add: word_le_nat_alt)
  then show "fill_bucket t k bytes limit \<le> limit" "unat (fill_bucket t k bytes limit) \<le> unat t + n * unat bytes"
    by (simp_all add: word_le_nat_alt)
qed

lemma trtcm_check_cases:
  assumes "rte_meter_trtcm_color_aware_check m p now len c = Some (r, m')"
  obtains k l tc tp where "n_periods now (tr_time_tc m) (trp_cir_period p) = Some (k, tr_time_tc m')"
    "n_periods now (tr_time_tp m) (trp_pir_period p) = Some (l, tr_time_tp m')"
    "tc = fill_bucket (tr_tc m) k (trp_cir_bytes_per_period p) (trp_cbs p)"
    "tp = fill_bucket (tr_tp m) l (trp_pir_bytes_per_period p) (trp_pbs p)"
    "r = RTE_COLOR_GREEN \<and> unat (tr_tc m') + unat len = unat tc \<and> unat (tr_tp m') + unat len = unat tp \<or>
     r = RTE_COLOR_YELLOW \<and> tr_tc m' = tc \<and> unat (tr_tp m') + unat len = unat tp \<or>
     r = RTE_COLOR_RED \<and> tr_tc m' = tc \<and> tr_tp m' = tp"
  using assms that
  by (auto simp: rte_meter_trtcm_color_aware_check_def trtcm_update_def pay not_less split: Option.bind_splits if_splits)

lemma rfc4115_check_cases:
  assumes "rte_meter_trtcm_rfc4115_color_aware_check m p now len c = Some (r, m')"
  obtains k l tc te where "n_periods now (rf_time_tc m) (rfp_cir_period p) = Some (k, rf_time_tc m')"
    "n_periods now (rf_time_te m) (rfp_eir_period p) = Some (l, rf_time_te m')"
    "tc = fill_bucket (rf_tc m) k (rfp_cir_bytes_per_period p) (rfp_cbs p)"
    "te = fill_bucket (rf_te m) l (rfp_eir_bytes_per_period p) (rfp_ebs p)"
    "r = RTE_COLOR_GREEN \<and> unat (rf_tc m') + unat len = unat tc \<and> rf_te m' = te \<or>
     r = RTE_COLOR_YELLOW \<and> rf_tc m' = tc \<and> unat (rf_te m') + unat len = unat te \<or>
     r = RTE_COLOR_RED \<and> rf_tc m' = tc \<and> rf_te m' = te"
  using assms that
  by (auto simp: rte_meter_trtcm_rfc4115_color_aware_check_def rfc4115_update_def pay split: Option.bind_splits if_splits)

text \<open>Each of the four buckets, from the case analysis of its meter and the law of filling.\<close>

lemma bucket_law:
  assumes "n_periods now stamp period = Some (k, stamp')" "x = fill_bucket t k bytes limit"
    "unat t' + (if paid then l else 0) = unat x" "t \<le> limit" "unat stamp \<le> unat now"
    "unat limit + (unat now - unat stamp) div unat period * unat bytes < 2 ^ 64"
  shows "t' \<le> limit \<and> unat stamp' = unat stamp + (unat now - unat stamp) div unat period * unat period \<and>
    unat t' + (if paid then l else 0) \<le> unat t + (unat now - unat stamp) div unat period * unat bytes"
  using fill_bucket_law [OF assms(1,5,4,6) refl] assms(2,3) by (auto simp: word_le_nat_alt split: if_splits)

interpretation tr_green: token_bucket "\<lambda>m. rte_meter_trtcm_color_aware_check m p" "\<lambda>m. tr_tc m \<le> trp_cbs p"
  "\<lambda>m. unat (tr_tc m)" "\<lambda>m. unat (tr_time_tc m)" "unat (trp_cbs p)" "unat (trp_cir_period p)" "unat (trp_cir_bytes_per_period p)"
  "\<lambda>r. r = RTE_COLOR_GREEN" for p
  by unfold_locales (erule trtcm_check_cases, rule bucket_law, assumption, assumption, auto)

interpretation tr_both: token_bucket "\<lambda>m. rte_meter_trtcm_color_aware_check m p" "\<lambda>m. tr_tp m \<le> trp_pbs p"
  "\<lambda>m. unat (tr_tp m)" "\<lambda>m. unat (tr_time_tp m)" "unat (trp_pbs p)" "unat (trp_pir_period p)" "unat (trp_pir_bytes_per_period p)"
  "\<lambda>r. r \<noteq> RTE_COLOR_RED" for p
  by unfold_locales (erule trtcm_check_cases, rule bucket_law, assumption, assumption, auto)

interpretation rf_green: token_bucket "\<lambda>m. rte_meter_trtcm_rfc4115_color_aware_check m p" "\<lambda>m. rf_tc m \<le> rfp_cbs p"
  "\<lambda>m. unat (rf_tc m)" "\<lambda>m. unat (rf_time_tc m)" "unat (rfp_cbs p)" "unat (rfp_cir_period p)" "unat (rfp_cir_bytes_per_period p)"
  "\<lambda>r. r = RTE_COLOR_GREEN" for p
  by unfold_locales (erule rfc4115_check_cases, rule bucket_law, assumption, assumption, auto)

interpretation rf_yellow: token_bucket "\<lambda>m. rte_meter_trtcm_rfc4115_color_aware_check m p" "\<lambda>m. rf_te m \<le> rfp_ebs p"
  "\<lambda>m. unat (rf_te m)" "\<lambda>m. unat (rf_time_te m)" "unat (rfp_ebs p)" "unat (rfp_eir_period p)" "unat (rfp_eir_bytes_per_period p)"
  "\<lambda>r. r = RTE_COLOR_YELLOW" for p
  by unfold_locales (erule rfc4115_check_cases, rule bucket_law, assumption, assumption, auto)

section \<open>Properties\<close>

text \<open>Without a colour from upstream a packet is metered as a green one.\<close>

lemma blind_is_aware:
  "rte_meter_srtcm_color_blind_check m p now len = rte_meter_srtcm_color_aware_check m p now len RTE_COLOR_GREEN"
  "rte_meter_trtcm_color_blind_check m' p' now len = rte_meter_trtcm_color_aware_check m' p' now len RTE_COLOR_GREEN"
  "rte_meter_trtcm_rfc4115_color_blind_check m'' p'' now len = rte_meter_trtcm_rfc4115_color_aware_check m'' p'' now len RTE_COLOR_GREEN"
  by (simp_all add: rte_meter_srtcm_color_blind_check_def rte_meter_srtcm_color_aware_check_def
      rte_meter_trtcm_color_blind_check_def rte_meter_trtcm_color_aware_check_def
      rte_meter_trtcm_rfc4115_color_blind_check_def rte_meter_trtcm_rfc4115_color_aware_check_def cong: if_cong)

lemma srtcm_total: "srp_cir_period p \<noteq> 0 \<Longrightarrow> \<exists>r m'. rte_meter_srtcm_color_aware_check m p now len c = Some (r, m')"
  by (cases "n_periods now (sr_time m) (srp_cir_period p)")
    (auto simp: rte_meter_srtcm_color_aware_check_def srtcm_update_def n_periods_def Let_def)

lemma trtcm_total: "trp_cir_period p \<noteq> 0 \<Longrightarrow> trp_pir_period p \<noteq> 0 \<Longrightarrow>
    \<exists>r m'. rte_meter_trtcm_color_aware_check m p now len c = Some (r, m')"
  by (auto simp: rte_meter_trtcm_color_aware_check_def trtcm_update_def n_periods_def Let_def)

lemma rfc4115_total: "rfp_cir_period p \<noteq> 0 \<Longrightarrow> rfp_eir_period p \<noteq> 0 \<Longrightarrow>
    \<exists>r m'. rte_meter_trtcm_rfc4115_color_aware_check m p now len c = Some (r, m')"
  by (auto simp: rte_meter_trtcm_rfc4115_color_aware_check_def rfc4115_update_def n_periods_def Let_def)

text \<open>C20. The single-rate meter bounds the traffic it marks. For packets in the order of their arrival, any
  lengths and any colours from upstream, and a profile whose period is not 0 and whose tokens do not
  overflow 64 bits in the time span, every packet gets a colour, the buckets stay within the burst sizes,
  the green bytes are at most the initial C tokens plus the bytes earned in the full periods that passed,
  and green and yellow bytes together at most both buckets plus the same earnings. The colour-blind check meters every
  packet as a green one.\<close>

theorem srtcm_rate_bounded:
  assumes "srp_cir_period p \<noteq> 0" "sr_tc m \<le> srp_cbs p" "sr_te m \<le> srp_ebs p" "arrivals (unat (sr_time m)) until pkts"
    and earned: "earned = ((until - unat (sr_time m)) div unat (srp_cir_period p)) * unat (srp_cir_bytes_per_period p)"
    and "unat (srp_cbs p) + unat (srp_ebs p) + earned < 2 ^ 64"
  shows "\<exists>rs m'. meter_run (\<lambda>m. rte_meter_srtcm_color_aware_check m p) m pkts = Some (rs, m') \<and>
    sr_tc m' \<le> srp_cbs p \<and> sr_te m' \<le> srp_ebs p \<and>
    marked (\<lambda>r. r = RTE_COLOR_GREEN) pkts rs \<le> unat (sr_tc m) + earned \<and>
    marked (\<lambda>r. r \<noteq> RTE_COLOR_RED) pkts rs \<le> unat (sr_tc m) + unat (sr_te m) + earned \<and>
    (\<forall>now len. rte_meter_srtcm_color_blind_check m p now len = rte_meter_srtcm_color_aware_check m p now len RTE_COLOR_GREEN)"
proof -
  obtain rs m' where run: "meter_run (\<lambda>m. rte_meter_srtcm_color_aware_check m p) m pkts = Some (rs, m')"
    using meter_run_total srtcm_total [OF assms(1)] by metis
  have "unat (srp_cbs p) + earned < 2 ^ 64" using assms(6) by simp
  from sr_green.run_bound [OF run assms(2,4), folded earned, OF this]
    sr_both.run_bound [OF run conjI [OF assms(2,3)] assms(4), folded earned, OF assms(6)]
  show ?thesis using run by (intro exI [of _ rs] exI [of _ m']) (auto simp: blind_is_aware)
qed

text \<open>The two-rate meters bound the traffic they mark. With the hypotheses as above for each bucket:
  the peak bucket bounds green and yellow bytes of \<open>trtcm\<close> and the committed bucket its green ones;
  in the RFC 4115 variant the committed bucket bounds the green bytes and the excess bucket the yellow
  ones.\<close>

theorem trtcm_rate_bounded:
  assumes "trp_cir_period p \<noteq> 0" "trp_pir_period p \<noteq> 0" "tr_tc m \<le> trp_cbs p" "tr_tp m \<le> trp_pbs p"
    and "arrivals (unat (tr_time_tc m)) until pkts" "arrivals (unat (tr_time_tp m)) until pkts"
    and C: "C = ((until - unat (tr_time_tc m)) div unat (trp_cir_period p)) * unat (trp_cir_bytes_per_period p)"
    and P: "P = ((until - unat (tr_time_tp m)) div unat (trp_pir_period p)) * unat (trp_pir_bytes_per_period p)"
    and "unat (trp_cbs p) + C < 2 ^ 64" "unat (trp_pbs p) + P < 2 ^ 64"
    and "rfp_cir_period q \<noteq> 0" "rfp_eir_period q \<noteq> 0" "rf_tc f \<le> rfp_cbs q" "rf_te f \<le> rfp_ebs q"
    and "arrivals (unat (rf_time_tc f)) until pkts" "arrivals (unat (rf_time_te f)) until pkts"
    and C': "C' = ((until - unat (rf_time_tc f)) div unat (rfp_cir_period q)) * unat (rfp_cir_bytes_per_period q)"
    and E': "E' = ((until - unat (rf_time_te f)) div unat (rfp_eir_period q)) * unat (rfp_eir_bytes_per_period q)"
    and "unat (rfp_cbs q) + C' < 2 ^ 64" "unat (rfp_ebs q) + E' < 2 ^ 64"
  shows "(\<exists>rs m'. meter_run (\<lambda>m. rte_meter_trtcm_color_aware_check m p) m pkts = Some (rs, m') \<and>
      tr_tc m' \<le> trp_cbs p \<and> tr_tp m' \<le> trp_pbs p \<and>
      marked (\<lambda>r. r = RTE_COLOR_GREEN) pkts rs \<le> unat (tr_tc m) + C \<and>
      marked (\<lambda>r. r \<noteq> RTE_COLOR_RED) pkts rs \<le> unat (tr_tp m) + P) \<and>
    (\<exists>rs f'. meter_run (\<lambda>f. rte_meter_trtcm_rfc4115_color_aware_check f q) f pkts = Some (rs, f') \<and>
      rf_tc f' \<le> rfp_cbs q \<and> rf_te f' \<le> rfp_ebs q \<and>
      marked (\<lambda>r. r = RTE_COLOR_GREEN) pkts rs \<le> unat (rf_tc f) + C' \<and>
      marked (\<lambda>r. r = RTE_COLOR_YELLOW) pkts rs \<le> unat (rf_te f) + E')"
proof
  obtain rs m' where run: "meter_run (\<lambda>m. rte_meter_trtcm_color_aware_check m p) m pkts = Some (rs, m')"
    using meter_run_total trtcm_total [OF assms(1,2)] by metis
  from tr_green.run_bound [OF run assms(3,5), folded C, OF assms(9)] tr_both.run_bound [OF run assms(4,6), folded P, OF assms(10)]
  show "\<exists>rs m'. meter_run (\<lambda>m. rte_meter_trtcm_color_aware_check m p) m pkts = Some (rs, m') \<and>
      tr_tc m' \<le> trp_cbs p \<and> tr_tp m' \<le> trp_pbs p \<and>
      marked (\<lambda>r. r = RTE_COLOR_GREEN) pkts rs \<le> unat (tr_tc m) + C \<and>
      marked (\<lambda>r. r \<noteq> RTE_COLOR_RED) pkts rs \<le> unat (tr_tp m) + P"
    using run by (intro exI [of _ rs] exI [of _ m']) auto
next
  obtain rs f' where run: "meter_run (\<lambda>f. rte_meter_trtcm_rfc4115_color_aware_check f q) f pkts = Some (rs, f')"
    using meter_run_total rfc4115_total [OF assms(11,12)] by metis
  from rf_green.run_bound [OF run assms(13,15), folded C', OF assms(19)] rf_yellow.run_bound [OF run assms(14,16), folded E', OF assms(20)]
  show "\<exists>rs f'. meter_run (\<lambda>f. rte_meter_trtcm_rfc4115_color_aware_check f q) f pkts = Some (rs, f') \<and>
      rf_tc f' \<le> rfp_cbs q \<and> rf_te f' \<le> rfp_ebs q \<and>
      marked (\<lambda>r. r = RTE_COLOR_GREEN) pkts rs \<le> unat (rf_tc f) + C' \<and>
      marked (\<lambda>r. r = RTE_COLOR_YELLOW) pkts rs \<le> unat (rf_te f) + E'"
    using run by (intro exI [of _ rs] exI [of _ f']) auto
qed

text \<open>Bursts of 1000 bytes, 10 bytes every 100 cycles, and four packets.\<close>

definition ex_pkts :: "(u64 \<times> u32 \<times> rte_color) list" where
  "ex_pkts = [(0, 900, RTE_COLOR_GREEN), (50, 200, RTE_COLOR_GREEN), (1050, 150, RTE_COLOR_GREEN), (1050, 2000, RTE_COLOR_YELLOW)]"

definition ex_sr_profile :: rte_meter_srtcm_profile where
  "ex_sr_profile = \<lparr>srp_cbs = 1000, srp_ebs = 500, srp_cir_period = 100, srp_cir_bytes_per_period = 10\<rparr>"

theorem srtcm_rate_bounded_witness:
  "\<exists>rs m'. meter_run (\<lambda>m. rte_meter_srtcm_color_aware_check m ex_sr_profile) \<lparr>sr_time = 0, sr_tc = 1000, sr_te = 500\<rparr> ex_pkts = Some (rs, m') \<and>
    marked (\<lambda>r. r = RTE_COLOR_GREEN) ex_pkts rs \<le> 1100 \<and> marked (\<lambda>r. r \<noteq> RTE_COLOR_RED) ex_pkts rs \<le> 1600"
  using srtcm_rate_bounded [of ex_sr_profile "\<lparr>sr_time = 0, sr_tc = 1000, sr_te = 500\<rparr>" 1050 ex_pkts 100]
  by (auto simp: ex_sr_profile_def ex_pkts_def)

definition ex_tr_profile :: rte_meter_trtcm_profile where
  "ex_tr_profile = \<lparr>trp_cbs = 1000, trp_pbs = 1500, trp_cir_period = 100, trp_cir_bytes_per_period = 10,
     trp_pir_period = 100, trp_pir_bytes_per_period = 20\<rparr>"

definition ex_rf_profile :: rte_meter_trtcm_rfc4115_profile where
  "ex_rf_profile = \<lparr>rfp_cbs = 1000, rfp_ebs = 500, rfp_cir_period = 100, rfp_cir_bytes_per_period = 10,
     rfp_eir_period = 100, rfp_eir_bytes_per_period = 10\<rparr>"

definition ex_tr :: rte_meter_trtcm where
  "ex_tr = \<lparr>tr_time_tc = 0, tr_time_tp = 0, tr_tc = 1000, tr_tp = 1500\<rparr>"

definition ex_rf :: rte_meter_trtcm_rfc4115 where
  "ex_rf = \<lparr>rf_time_tc = 0, rf_time_te = 0, rf_tc = 1000, rf_te = 500\<rparr>"

theorem trtcm_rate_bounded_witness:
  "(\<exists>rs m'. meter_run (\<lambda>m. rte_meter_trtcm_color_aware_check m ex_tr_profile) ex_tr ex_pkts = Some (rs, m') \<and>
      marked (\<lambda>r. r \<noteq> RTE_COLOR_RED) ex_pkts rs \<le> unat (tr_tp ex_tr) + 200) \<and>
   (\<exists>rs f'. meter_run (\<lambda>f. rte_meter_trtcm_rfc4115_color_aware_check f ex_rf_profile) ex_rf ex_pkts = Some (rs, f') \<and>
      marked (\<lambda>r. r = RTE_COLOR_YELLOW) ex_pkts rs \<le> unat (rf_te ex_rf) + 100)"
proof -
  note defs = ex_tr_profile_def ex_rf_profile_def ex_pkts_def ex_tr_def ex_rf_def
  have tr: "trp_cir_period ex_tr_profile \<noteq> 0" "trp_pir_period ex_tr_profile \<noteq> 0" "tr_tc ex_tr \<le> trp_cbs ex_tr_profile"
      "tr_tp ex_tr \<le> trp_pbs ex_tr_profile" "arrivals (unat (tr_time_tc ex_tr)) 1050 ex_pkts" "arrivals (unat (tr_time_tp ex_tr)) 1050 ex_pkts"
      "100 = ((1050 - unat (tr_time_tc ex_tr)) div unat (trp_cir_period ex_tr_profile)) * unat (trp_cir_bytes_per_period ex_tr_profile)"
      "200 = ((1050 - unat (tr_time_tp ex_tr)) div unat (trp_pir_period ex_tr_profile)) * unat (trp_pir_bytes_per_period ex_tr_profile)"
      "unat (trp_cbs ex_tr_profile) + 100 < 2 ^ 64" "unat (trp_pbs ex_tr_profile) + 200 < 2 ^ 64"
    by (simp_all add: defs)
  have rf: "rfp_cir_period ex_rf_profile \<noteq> 0" "rfp_eir_period ex_rf_profile \<noteq> 0" "rf_tc ex_rf \<le> rfp_cbs ex_rf_profile"
      "rf_te ex_rf \<le> rfp_ebs ex_rf_profile" "arrivals (unat (rf_time_tc ex_rf)) 1050 ex_pkts" "arrivals (unat (rf_time_te ex_rf)) 1050 ex_pkts"
      "100 = ((1050 - unat (rf_time_tc ex_rf)) div unat (rfp_cir_period ex_rf_profile)) * unat (rfp_cir_bytes_per_period ex_rf_profile)"
      "100 = ((1050 - unat (rf_time_te ex_rf)) div unat (rfp_eir_period ex_rf_profile)) * unat (rfp_eir_bytes_per_period ex_rf_profile)"
      "unat (rfp_cbs ex_rf_profile) + 100 < 2 ^ 64" "unat (rfp_ebs ex_rf_profile) + 100 < 2 ^ 64"
    by (simp_all add: defs)
  show ?thesis using trtcm_rate_bounded [OF tr rf] by blast
qed

end
