(* ===== verification/Rte_Rcu.thy ===== *)
theory Rte_Rcu
  imports Rte_Common
begin

text \<open>
  Quiescent-state based reclamation, rte\_rcu\_qsbr.h, as readers and writers that interleave. A step is
  one access to a shared word: the token, the acknowledged token, a reader's counter or a word of the
  bitmap of registered threads. The reader's counter is 0 while it is offline. The debug lock counters
  do nothing in the default build.
\<close>

section \<open>The QS variable\<close>

abbreviation (input) QSBR_CNT_THR_OFFLINE :: u64 where "QSBR_CNT_THR_OFFLINE \<equiv> 0"
abbreviation (input) QSBR_CNT_INIT :: u64 where "QSBR_CNT_INIT \<equiv> 1"
abbreviation (input) QSBR_CNT_MAX :: u64 where "QSBR_CNT_MAX \<equiv> 0xffffffffffffffff"

record rte_rcu_qsbr =
  q_token :: u64
  q_acked_token :: u64
  q_num_elems :: u32
  q_num_threads :: u32
  q_max_threads :: u32
  q_cnt :: "u64 list"
  q_reg :: "u64 list"

text \<open>Where a reader stands: offline, inside one of the calls with the token it has loaded, or in a
  section in which it may hold references to the shared structure.\<close>

datatype reader_pc = R_offline | R_online u64 | R_section | R_quiet u64 | R_quiet_store u64

text \<open>Where a call of check stands. Its verdict remembers whether it comes from a scan of the readers
  or from the acknowledged token.\<close>

datatype check_pc =
    K_idle
  | K_acked u64 bool
  | K_mode u64 bool
  | K_all u64 bool u32 u64
  | K_elem u64 bool u32 u64
  | K_bits u64 bool u32 u64 u64
  | K_store u64 u64
  | K_no u64
  | K_yes u64 bool

text \<open>As history, the token at the time a reader entered its section.\<close>

record qs_sys =
  qs_v :: rte_rcu_qsbr
  qs_reader :: "nat \<Rightarrow> reader_pc"
  qs_check :: "nat \<Rightarrow> check_pc"
  h_since :: "nat \<Rightarrow> nat"

section \<open>Readers\<close>

definition set_cnt :: "nat \<Rightarrow> u64 \<Rightarrow> qs_sys \<Rightarrow> qs_sys" where
  "set_cnt i c s = s\<lparr>qs_v := (qs_v s)\<lparr>q_cnt := (q_cnt (qs_v s))[i := c]\<rparr>\<rparr>"

definition reader_to :: "nat \<Rightarrow> reader_pc \<Rightarrow> qs_sys \<Rightarrow> qs_sys" where
  "reader_to i pc s = s\<lparr>qs_reader := (qs_reader s)(i := pc)\<rparr>"

definition enter_section :: "nat \<Rightarrow> qs_sys \<Rightarrow> qs_sys" where
  "enter_section i s = (reader_to i R_section s)\<lparr>h_since := (h_since s)(i := unat (q_token (qs_v s)))\<rparr>"

definition rte_rcu_qsbr_thread_online :: "nat \<Rightarrow> qs_sys \<Rightarrow> qs_sys option" where
  "rte_rcu_qsbr_thread_online i s =
     (if length (q_cnt (qs_v s)) \<le> i then None
      else case qs_reader s i of
        R_offline \<Rightarrow> Some (reader_to i (R_online (q_token (qs_v s))) s)
      | R_online t \<Rightarrow> Some (enter_section i (set_cnt i t s))
      | _ \<Rightarrow> None)"

definition rte_rcu_qsbr_thread_offline :: "nat \<Rightarrow> qs_sys \<Rightarrow> qs_sys option" where
  "rte_rcu_qsbr_thread_offline i s =
     (if length (q_cnt (qs_v s)) \<le> i then None
      else case qs_reader s i of
        R_section \<Rightarrow> Some (reader_to i R_offline (set_cnt i QSBR_CNT_THR_OFFLINE s))
      | _ \<Rightarrow> None)"

definition rte_rcu_qsbr_quiescent :: "nat \<Rightarrow> qs_sys \<Rightarrow> qs_sys option" where
  "rte_rcu_qsbr_quiescent i s =
     (if length (q_cnt (qs_v s)) \<le> i then None
      else case qs_reader s i of
        R_section \<Rightarrow> Some (reader_to i (R_quiet (q_token (qs_v s))) s)
      | R_quiet t \<Rightarrow>
          if t \<noteq> q_cnt (qs_v s) ! i then Some (reader_to i (R_quiet_store t) s) else Some (enter_section i s)
      | R_quiet_store t \<Rightarrow> Some (enter_section i (set_cnt i t s))
      | _ \<Rightarrow> None)"

section \<open>Writers\<close>

definition rte_rcu_qsbr_start :: "qs_sys \<Rightarrow> u64 \<times> qs_sys" where
  "rte_rcu_qsbr_start s = (let t = q_token (qs_v s) + 1 in (t, s\<lparr>qs_v := (qs_v s)\<lparr>q_token := t\<rparr>\<rparr>))"

definition check_to :: "nat \<Rightarrow> check_pc \<Rightarrow> qs_sys \<Rightarrow> qs_sys" where
  "check_to w pc s = s\<lparr>qs_check := (qs_check s)(w := pc)\<rparr>"

definition least_acked :: "u64 \<Rightarrow> u64 \<Rightarrow> u64" where
  "least_acked acked c = (if c \<noteq> QSBR_CNT_THR_OFFLINE \<and> acked > c then c else acked)"

text \<open>The end of both scans: the least counter seen is stored, if there was one.\<close>

definition scan_end :: "u64 \<Rightarrow> u64 \<Rightarrow> check_pc" where
  "scan_end t acked = (if acked \<noteq> QSBR_CNT_MAX then K_store t acked else K_yes t True)"

definition qsbr_check_all :: "nat \<Rightarrow> qs_sys \<Rightarrow> qs_sys option" where
  "qsbr_check_all w s = (let v = qs_v s in case qs_check s w of
     K_all t wait i acked \<Rightarrow>
       if i < q_max_threads v then
         if length (q_cnt v) \<le> unat i then None
         else (let c = q_cnt v ! unat i in
           if c = QSBR_CNT_THR_OFFLINE \<or> c \<ge> t then Some (check_to w (K_all t wait (i + 1) (least_acked acked c)) s)
           else if \<not> wait then Some (check_to w (K_no t) s)
           else Some s)
       else Some (check_to w (scan_end t acked) s)
   | _ \<Rightarrow> None)"

text \<open>Loading a word of the bitmap again after a wait is the same step as loading it first.\<close>

definition qsbr_check_selective :: "nat \<Rightarrow> qs_sys \<Rightarrow> qs_sys option" where
  "qsbr_check_selective w s = (let v = qs_v s in case qs_check s w of
     K_elem t wait i acked \<Rightarrow>
       if i < q_num_elems v then
         if length (q_reg v) \<le> unat i then None
         else Some (check_to w (K_bits t wait i (q_reg v ! unat i) acked) s)
       else Some (check_to w (scan_end t acked) s)
   | K_bits t wait i bmap acked \<Rightarrow>
       if bmap = 0 then Some (check_to w (K_elem t wait (i + 1) acked) s)
       else (let j = ctz bmap; id = push_bit 6 i + of_nat j in
         if length (q_cnt v) \<le> unat id then None
         else (let c = q_cnt v ! unat id in
           if c \<noteq> QSBR_CNT_THR_OFFLINE \<and> c < t then
             if \<not> wait then Some (check_to w (K_no t) s) else Some (check_to w (K_elem t wait i acked) s)
           else Some (check_to w (K_bits t wait i (bmap AND NOT (push_bit j 1)) (least_acked acked c)) s)))
   | _ \<Rightarrow> None)"

definition rte_rcu_qsbr_check :: "nat \<Rightarrow> qs_sys \<Rightarrow> qs_sys option" where
  "rte_rcu_qsbr_check w s = (let v = qs_v s in case qs_check s w of
     K_acked t wait \<Rightarrow> Some (check_to w (if t \<le> q_acked_token v then K_yes t False else K_mode t wait) s)
   | K_mode t wait \<Rightarrow>
       Some (check_to w (if q_num_threads v = q_max_threads v then K_all t wait 0 QSBR_CNT_MAX else K_elem t wait 0 QSBR_CNT_MAX) s)
   | K_all _ _ _ _ \<Rightarrow> qsbr_check_all w s
   | K_elem _ _ _ _ \<Rightarrow> qsbr_check_selective w s
   | K_bits _ _ _ _ _ \<Rightarrow> qsbr_check_selective w s
   | K_store t acked \<Rightarrow> Some (check_to w (K_yes t True) (s\<lparr>qs_v := v\<lparr>q_acked_token := acked\<rparr>\<rparr>))
   | _ \<Rightarrow> None)"

text \<open>A call of check has returned, or none was made.\<close>

definition check_done :: "check_pc \<Rightarrow> bool" where
  "check_done pc = (case pc of K_idle \<Rightarrow> True | K_no _ \<Rightarrow> True | K_yes _ _ \<Rightarrow> True | _ \<Rightarrow> False)"

section \<open>Runs\<close>

text \<open>Registering is compiled code: a bit of the bitmap changes while its thread is offline, and the
  number of threads is recounted at some time. Only registered threads go online. With \<open>alone\<close>, no
  token is handed out while a call of check is in progress; the token never reaches its last value.\<close>

inductive qs_step :: "bool \<Rightarrow> qs_sys \<Rightarrow> qs_sys \<Rightarrow> bool" for alone where
  online: "rte_rcu_qsbr_thread_online i s = Some s' \<Longrightarrow> bit (q_reg (qs_v s) ! (i div 64)) (i mod 64) \<Longrightarrow> qs_step alone s s'"
| quiescent: "rte_rcu_qsbr_quiescent i s = Some s' \<Longrightarrow> qs_step alone s s'"
| offline: "rte_rcu_qsbr_thread_offline i s = Some s' \<Longrightarrow> qs_step alone s s'"
| start: "q_token (qs_v s) < QSBR_CNT_MAX - 1 \<Longrightarrow> (alone \<Longrightarrow> \<forall>w. check_done (qs_check s w)) \<Longrightarrow>
    qs_step alone s (snd (rte_rcu_qsbr_start s))"
| call: "check_done (qs_check s w) \<Longrightarrow> t \<le> q_token (qs_v s) \<Longrightarrow> qs_step alone s (check_to w (K_acked t wait) s)"
| check: "rte_rcu_qsbr_check w s = Some s' \<Longrightarrow> qs_step alone s s'"
| register: "i < length (q_cnt (qs_v s)) \<Longrightarrow> qs_reader s i = R_offline \<Longrightarrow>
    qs_step alone s (s\<lparr>qs_v := (qs_v s)\<lparr>q_reg := (q_reg (qs_v s))[i div 64 :=
      (if b then q_reg (qs_v s) ! (i div 64) OR push_bit (i mod 64) 1 else q_reg (qs_v s) ! (i div 64) AND NOT (push_bit (i mod 64) 1))]\<rparr>\<rparr>)"
| recount: "qs_step alone s (s\<lparr>qs_v := (qs_v s)\<lparr>q_num_threads := n\<rparr>\<rparr>)"

inductive qs_run :: "bool \<Rightarrow> qs_sys \<Rightarrow> qs_sys \<Rightarrow> bool" for alone s0 where
  refl: "qs_run alone s0 s0"
| step: "qs_run alone s0 s \<Longrightarrow> qs_step alone s s' \<Longrightarrow> qs_run alone s0 s'"

text \<open>After initialisation: nobody is registered or online.\<close>

definition qs_start :: "u32 \<Rightarrow> qs_sys" where
  "qs_start n = \<lparr>qs_v = \<lparr>q_token = QSBR_CNT_INIT, q_acked_token = QSBR_CNT_INIT - 1, q_num_elems = (n + 63) div 64, q_num_threads = 0,
       q_max_threads = n, q_cnt = replicate (unat n) QSBR_CNT_THR_OFFLINE, q_reg = replicate (unat ((n + 63) div 64)) 0\<rparr>,
     qs_reader = (\<lambda>_. R_offline), qs_check = (\<lambda>_. K_idle), h_since = (\<lambda>_. 0)\<rparr>"

end
