(* ===== verification/Rte_Rcu_Correct.thy ===== *)
theory Rte_Rcu_Correct
  imports Rte_Rcu
begin

text \<open>
  When a check may say that all readers are done: an invariant over all interleavings of readers and
  writers. A scan of the readers is always right; the shortcut over the acknowledged token is right as
  long as no token is handed out during a scan, and can be wrong otherwise.
\<close>

section \<open>Invariant\<close>

definition registered :: "qs_sys \<Rightarrow> nat \<Rightarrow> bool" where
  "registered s i \<longleftrightarrow> bit (q_reg (qs_v s) ! (i div 64)) (i mod 64)"

definition qv_ok :: "rte_rcu_qsbr \<Rightarrow> bool" where
  "qv_ok v \<longleftrightarrow> length (q_cnt v) = unat (q_max_threads v) \<and> length (q_reg v) = unat (q_num_elems v) \<and>
     unat (q_max_threads v) \<le> 64 * unat (q_num_elems v) \<and> 1 \<le> q_token v \<and> q_acked_token v \<le> q_token v \<and>
     (\<forall>e < length (q_reg v). \<forall>j. bit (q_reg v ! e) j \<longrightarrow> 64 * e + j < unat (q_max_threads v))"

definition reader_ok :: "qs_sys \<Rightarrow> nat \<Rightarrow> bool" where
  "reader_ok s i \<longleftrightarrow> (let v = qs_v s in case qs_reader s i of
     R_offline \<Rightarrow> i < length (q_cnt v) \<longrightarrow> q_cnt v ! i = 0
   | R_online t \<Rightarrow> i < length (q_cnt v) \<and> registered s i \<and> q_cnt v ! i = 0 \<and> 1 \<le> t \<and> t \<le> q_token v
   | R_section \<Rightarrow> i < length (q_cnt v) \<and> registered s i \<and> q_cnt v ! i \<noteq> 0 \<and> unat (q_cnt v ! i) \<le> h_since s i \<and> h_since s i \<le> unat (q_token v)
   | R_quiet t \<Rightarrow> i < length (q_cnt v) \<and> registered s i \<and> 1 \<le> t \<and> t \<le> q_token v \<and> q_cnt v ! i \<le> q_token v
   | R_quiet_store t \<Rightarrow> i < length (q_cnt v) \<and> registered s i \<and> 1 \<le> t \<and> t \<le> q_token v \<and> q_cnt v ! i \<le> q_token v)"

text \<open>No reader is in a section that it entered before token \<open>a\<close> was handed out.\<close>

definition clear :: "qs_sys \<Rightarrow> nat \<Rightarrow> nat \<Rightarrow> bool" where
  "clear s i a \<longleftrightarrow> (qs_reader s i = R_section \<longrightarrow> a \<le> h_since s i)"

definition scan_ok :: "bool \<Rightarrow> qs_sys \<Rightarrow> (nat \<Rightarrow> bool) \<Rightarrow> u64 \<Rightarrow> u64 \<Rightarrow> bool" where
  "scan_ok alone s P t acked \<longleftrightarrow> t \<le> q_token (qs_v s) \<and> (acked = QSBR_CNT_MAX \<or> acked \<le> q_token (qs_v s)) \<and>
     (\<forall>j. P j \<longrightarrow> clear s j (unat t) \<and> (alone \<longrightarrow> clear s j (min (unat acked) (unat (q_token (qs_v s))))))"

definition unseen :: "u32 \<Rightarrow> u64 \<Rightarrow> nat \<Rightarrow> bool" where
  "unseen i bmap j \<longleftrightarrow> 64 * unat i \<le> j \<and> bit bmap (j - 64 * unat i)"

definition check_ok :: "bool \<Rightarrow> qs_sys \<Rightarrow> check_pc \<Rightarrow> bool" where
  "check_ok alone s pc \<longleftrightarrow> (case pc of
     K_acked t _ \<Rightarrow> t \<le> q_token (qs_v s)
   | K_mode t _ \<Rightarrow> t \<le> q_token (qs_v s)
   | K_all t _ i acked \<Rightarrow> scan_ok alone s (\<lambda>j. j < unat i) t acked
   | K_elem t _ i acked \<Rightarrow> scan_ok alone s (\<lambda>j. j < 64 * unat i) t acked
   | K_bits t _ i bmap acked \<Rightarrow> scan_ok alone s (\<lambda>j. j < 64 * Suc (unat i) \<and> \<not> unseen i bmap j) t acked \<and>
       i < q_num_elems (qs_v s) \<and> (\<forall>j. bit bmap j \<longrightarrow> 64 * unat i + j < unat (q_max_threads (qs_v s)))
   | K_store t acked \<Rightarrow> scan_ok alone s (\<lambda>_. True) t acked \<and> acked \<le> q_token (qs_v s)
   | K_yes t scanned \<Rightarrow> t \<le> q_token (qs_v s) \<and> (scanned \<or> alone \<longrightarrow> (\<forall>j. clear s j (unat t)))
   | _ \<Rightarrow> True)"

definition qs_inv :: "bool \<Rightarrow> qs_sys \<Rightarrow> bool" where
  "qs_inv alone s \<longleftrightarrow> qv_ok (qs_v s) \<and> (\<forall>i. reader_ok s i) \<and> (\<forall>w. check_ok alone s (qs_check s w)) \<and>
     (alone \<longrightarrow> (\<forall>i. clear s i (unat (q_acked_token (qs_v s)))))"

lemma qs_invD:
  assumes "qs_inv alone s"
  shows "qv_ok (qs_v s)" "reader_ok s i" "check_ok alone s (qs_check s w)"
    "alone \<Longrightarrow> clear s i (unat (q_acked_token (qs_v s)))"
  using assms by (auto simp: qs_inv_def)

section \<open>Reader steps\<close>

text \<open>A reader only weakens what it holds: references from before a token it has not seen never come
  back. All checks survive.\<close>

lemma check_ok_mono:
  assumes "check_ok alone s pc" "q_token (qs_v s') = q_token (qs_v s)" "q_num_elems (qs_v s') = q_num_elems (qs_v s)"
    "q_max_threads (qs_v s') = q_max_threads (qs_v s)"
    and c: "\<And>i a. a \<le> unat (q_token (qs_v s)) \<Longrightarrow> clear s i a \<Longrightarrow> clear s' i a"
  shows "check_ok alone s' pc"
proof -
  have scan: "scan_ok alone s P t acked \<Longrightarrow> scan_ok alone s' P t acked" for P t acked
    using c assms(2) by (auto simp: scan_ok_def word_le_nat_alt)
  show ?thesis using assms(1-4) scan c by (cases pc) (auto simp: check_ok_def word_le_nat_alt)
qed

lemma reader_step_inv:
  assumes inv: "qs_inv alone s" and i: "i < length (q_cnt (qs_v s))"
    and s': "s' = (if enter then enter_section i else reader_to i pc) (if store then set_cnt i c s else s)"
    and ok: "reader_ok s' i" and pc: "pc \<noteq> R_section"
  shows "qs_inv alone s'"
proof -
  have v: "q_token (qs_v s') = q_token (qs_v s)" "q_num_elems (qs_v s') = q_num_elems (qs_v s)" "q_reg (qs_v s') = q_reg (qs_v s)"
    "q_max_threads (qs_v s') = q_max_threads (qs_v s)" "q_acked_token (qs_v s') = q_acked_token (qs_v s)"
    "length (q_cnt (qs_v s')) = length (q_cnt (qs_v s))" "qs_check s' = qs_check s"
    by (auto simp: s' enter_section_def reader_to_def set_cnt_def)
  have other: "qs_reader s' j = qs_reader s j" "q_cnt (qs_v s') ! j = q_cnt (qs_v s) ! j" "h_since s' j = h_since s j" if "j \<noteq> i" for j
    using that by (auto simp: s' enter_section_def reader_to_def set_cnt_def)
  have clear: "clear s' j a" if "a \<le> unat (q_token (qs_v s))" "clear s j a" for j a
    using that other [of j] pc by (cases "j = i") (auto simp: clear_def s' enter_section_def reader_to_def set_cnt_def)
  have "reader_ok s' j" for j
  proof (cases "j = i")
    case False
    then have "reader_ok s' j = reader_ok s j"
      using other [OF False] v by (cases "qs_reader s j") (simp_all add: reader_ok_def registered_def Let_def)
    then show ?thesis using qs_invD(2) [OF inv] by simp
  qed (use ok in simp)
  moreover have "check_ok alone s' (qs_check s' w)" for w
    using check_ok_mono [OF qs_invD(3) [OF inv, of w] v(1,2,4) clear] v(7) by simp
  moreover have "alone \<Longrightarrow> clear s' j (unat (q_acked_token (qs_v s')))" for j
    using clear qs_invD(4) [OF inv] qs_invD(1) [OF inv] v(5) by (auto simp: qv_ok_def word_le_nat_alt)
  ultimately show ?thesis using qs_invD(1) [OF inv] v by (simp add: qs_inv_def qv_ok_def)
qed

lemma online_inv:
  assumes inv: "qs_inv alone s" and step: "rte_rcu_qsbr_thread_online i s = Some s'" and reg: "registered s i"
  shows "qs_inv alone s'"
proof -
  have i: "i < length (q_cnt (qs_v s))" using step by (auto simp: rte_rcu_qsbr_thread_online_def split: if_splits)
  note ok = qs_invD(2) [OF inv, of i] and q = qs_invD(1) [OF inv]
  show ?thesis
  proof (cases "qs_reader s i")
    case R_offline
    then show ?thesis using step i ok reg q
      by (intro reader_step_inv [OF inv i, where enter = False and store = False and pc = "R_online (q_token (qs_v s))"])
        (auto simp: rte_rcu_qsbr_thread_online_def reader_ok_def Let_def reader_to_def registered_def qv_ok_def)
  next
    case (R_online t)
    then show ?thesis using step i ok reg q
      by (intro reader_step_inv [OF inv i, where enter = True and store = True and c = t and pc = R_offline])
        (auto simp: rte_rcu_qsbr_thread_online_def reader_ok_def Let_def enter_section_def reader_to_def set_cnt_def registered_def qv_ok_def
          word_le_nat_alt)
  qed (use step i in \<open>auto simp: rte_rcu_qsbr_thread_online_def\<close>)
qed

lemma offline_inv:
  assumes inv: "qs_inv alone s" and step: "rte_rcu_qsbr_thread_offline i s = Some s'"
  shows "qs_inv alone s'"
proof -
  have i: "i < length (q_cnt (qs_v s))" using step by (auto simp: rte_rcu_qsbr_thread_offline_def split: if_splits)
  show ?thesis
    using step i by (intro reader_step_inv [OF inv i, where enter = False and store = True and c = 0 and pc = R_offline])
      (auto simp: rte_rcu_qsbr_thread_offline_def reader_ok_def Let_def reader_to_def set_cnt_def split: reader_pc.splits)
qed

lemma quiescent_inv:
  assumes inv: "qs_inv alone s" and step: "rte_rcu_qsbr_quiescent i s = Some s'"
  shows "qs_inv alone s'"
proof -
  have i: "i < length (q_cnt (qs_v s))" using step by (auto simp: rte_rcu_qsbr_quiescent_def split: if_splits)
  note ok = qs_invD(2) [OF inv, of i] and q = qs_invD(1) [OF inv]
  show ?thesis
  proof (cases "qs_reader s i")
    case R_section
    then show ?thesis using step i ok q
      by (intro reader_step_inv [OF inv i, where enter = False and store = False and pc = "R_quiet (q_token (qs_v s))"])
        (auto simp: rte_rcu_qsbr_quiescent_def reader_ok_def Let_def reader_to_def registered_def qv_ok_def word_le_nat_alt)
  next
    case (R_quiet t)
    show ?thesis
    proof (cases "t = q_cnt (qs_v s) ! i")
      case True
      then show ?thesis using step i ok q R_quiet
        by (intro reader_step_inv [OF inv i, where enter = True and store = False and pc = R_offline])
          (auto simp: rte_rcu_qsbr_quiescent_def reader_ok_def Let_def enter_section_def reader_to_def registered_def word_le_nat_alt)
    next
      case False
      then show ?thesis using step i ok q R_quiet
        by (intro reader_step_inv [OF inv i, where enter = False and store = False and pc = "R_quiet_store t"])
          (auto simp: rte_rcu_qsbr_quiescent_def reader_ok_def Let_def reader_to_def registered_def)
    qed
  next
    case (R_quiet_store t)
    then show ?thesis using step i ok q
      by (intro reader_step_inv [OF inv i, where enter = True and store = True and c = t and pc = R_offline])
        (auto simp: rte_rcu_qsbr_quiescent_def reader_ok_def Let_def enter_section_def reader_to_def set_cnt_def registered_def word_le_nat_alt)
  qed (use step i in \<open>auto simp: rte_rcu_qsbr_quiescent_def\<close>)
qed

section \<open>Writer steps\<close>

lemma check_goto:
  assumes inv: "qs_inv alone s" and ok: "check_ok alone s pc"
  shows "qs_inv alone (check_to w pc s)"
proof -
  have "check_ok alone (check_to w pc s) x = check_ok alone s x" for x
    by (cases x) (simp_all add: check_ok_def scan_ok_def clear_def check_to_def)
  moreover have "reader_ok (check_to w pc s) i = reader_ok s i" for i
    by (cases "qs_reader s i") (simp_all add: reader_ok_def registered_def Let_def check_to_def)
  ultimately show ?thesis using inv ok by (auto simp: qs_inv_def check_to_def clear_def)
qed

text \<open>Readers that no scan has to look at: out of range, or not registered.\<close>

lemma clear_offline: "reader_ok s i \<Longrightarrow> length (q_cnt (qs_v s)) \<le> i \<or> \<not> registered s i \<Longrightarrow> clear s i a"
  by (cases "qs_reader s i") (auto simp: reader_ok_def Let_def clear_def)

text \<open>A reader whose counter lets the scan pass.\<close>

lemma clear_passed:
  assumes "reader_ok s i" "i < length (q_cnt (qs_v s))" "q_cnt (qs_v s) ! i = 0 \<or> a \<le> unat (q_cnt (qs_v s) ! i)"
  shows "clear s i a"
  using assms by (cases "qs_reader s i") (auto simp: reader_ok_def Let_def clear_def)

lemma cnt_le_token:
  assumes "qs_inv alone s" "i < length (q_cnt (qs_v s))"
  shows "q_cnt (qs_v s) ! i \<le> q_token (qs_v s)"
  using qs_invD(2) [OF assms(1), of i] assms(2) by (cases "qs_reader s i") (auto simp: reader_ok_def Let_def word_le_nat_alt)

text \<open>The scan passes one more reader.\<close>

lemma scan_pass:
  assumes inv: "qs_inv alone s" and scan: "scan_ok alone s P t acked" and i: "i < length (q_cnt (qs_v s))"
    and c: "q_cnt (qs_v s) ! i = 0 \<or> t \<le> q_cnt (qs_v s) ! i" and Q: "\<And>j. Q j \<Longrightarrow> P j \<or> j = i"
  shows "scan_ok alone s Q t (least_acked acked (q_cnt (qs_v s) ! i))"
proof -
  define c' where "c' = q_cnt (qs_v s) ! i"
  define a where "a = least_acked acked c'"
  note ok = qs_invD(2) [OF inv, of i]
  have le: "a \<le> acked" "c' = 0 \<or> a \<le> c'" by (auto simp: a_def least_acked_def)
  have "a = QSBR_CNT_MAX \<or> a \<le> q_token (qs_v s)"
    using scan cnt_le_token [OF inv i] by (auto simp: a_def least_acked_def scan_ok_def c'_def)
  moreover have "clear s j (unat t) \<and> (alone \<longrightarrow> clear s j (min (unat a) (unat (q_token (qs_v s)))))" if "Q j" for j
  proof (cases "j = i")
    case True
    have "clear s i (unat t)" using clear_passed [OF ok i] c by (auto simp: word_le_nat_alt)
    moreover have "clear s i (min (unat a) (unat (q_token (qs_v s))))"
      using le(2) clear_passed [OF ok i, of "min (unat a) (unat (q_token (qs_v s)))"] by (auto simp: word_le_nat_alt c'_def min_le_iff_disj)
    ultimately show ?thesis using True by simp
  next
    case False
    then have "clear s j (unat t) \<and> (alone \<longrightarrow> clear s j (min (unat acked) (unat (q_token (qs_v s)))))"
      using scan Q [OF that] by (auto simp: scan_ok_def)
    moreover have "unat a \<le> unat acked" using le(1) by (simp add: word_le_nat_alt)
    ultimately show ?thesis by (auto simp: clear_def)
  qed
  moreover have "t \<le> q_token (qs_v s)" using scan by (simp add: scan_ok_def)
  ultimately show ?thesis unfolding a_def [symmetric] c'_def [symmetric] scan_ok_def by blast
qed

lemma scan_end_ok:
  assumes inv: "qs_inv alone s" and scan: "scan_ok alone s P t acked"
    and all: "\<And>i. i < length (q_cnt (qs_v s)) \<Longrightarrow> P i"
  shows "check_ok alone s (scan_end t acked)"
proof -
  have "scan_ok alone s (\<lambda>_. True) t acked"
    using scan all clear_offline [OF qs_invD(2) [OF inv]] unfolding scan_ok_def by (meson not_less)
  then show ?thesis by (auto simp: scan_end_def check_ok_def scan_ok_def)
qed

lemma check_all_inv:
  assumes inv: "qs_inv alone s" and step: "qsbr_check_all w s = Some s'"
  shows "qs_inv alone s'"
proof -
  obtain t wait i acked where pc: "qs_check s w = K_all t wait i acked"
    using step by (auto simp: qsbr_check_all_def Let_def split: check_pc.splits)
  have scan: "scan_ok alone s (\<lambda>j. j < unat i) t acked" using qs_invD(3) [OF inv, of w] pc by (simp add: check_ok_def)
  have len: "length (q_cnt (qs_v s)) = unat (q_max_threads (qs_v s))" using qs_invD(1) [OF inv] by (simp add: qv_ok_def)
  show ?thesis
  proof (cases "i < q_max_threads (qs_v s)")
    case True
    have i: "unat i < length (q_cnt (qs_v s))" using True len by (simp add: word_less_nat_alt)
    have "scan_ok alone s (\<lambda>j. j < unat (i + 1)) t (least_acked acked (q_cnt (qs_v s) ! unat i))"
      if "q_cnt (qs_v s) ! unat i = 0 \<or> t \<le> q_cnt (qs_v s) ! unat i"
      using scan_pass [OF inv scan i that] unat_inc_below [OF True] by (simp add: less_Suc_eq)
    then show ?thesis using step pc i True inv check_goto [OF inv, of _ w]
      by (auto simp: qsbr_check_all_def Let_def check_ok_def split: if_splits)
  next
    case False
    have "check_ok alone s (scan_end t acked)" by (rule scan_end_ok [OF inv scan]) (use False len in \<open>simp add: word_less_nat_alt\<close>)
    then show ?thesis using step pc False check_goto [OF inv, of _ w] by (auto simp: qsbr_check_all_def Let_def)
  qed
qed

lemma ctz_bit: "bmap \<noteq> 0 \<Longrightarrow> ctz bmap < 64 \<and> bit bmap (ctz bmap)" for bmap :: u64
  using ctz_props(1,2) [of bmap] by simp

lemma scan_index: "64 * unat i + j < unat m \<Longrightarrow> unat (push_bit 6 i + of_nat j) = 64 * unat i + j" for i m :: u32
proof -
  assume lt: "64 * unat i + j < unat m"
  have "unat m < 2 ^ 32" using unsigned_less [of m, where 'a = nat] by simp
  then have "unat (of_nat (64 * unat i + j) :: u32) = 64 * unat i + j" using lt by (simp only: unat_of_nat) simp
  moreover have "push_bit 6 i + of_nat j = (of_nat (64 * unat i + j) :: u32)" by (simp add: push_bit_eq_mult)
  ultimately show ?thesis by simp
qed

lemma check_selective_inv:
  assumes inv: "qs_inv alone s" and step: "qsbr_check_selective w s = Some s'"
  shows "qs_inv alone s'"
proof -
  note q = qs_invD(1) [OF inv]
  have len: "length (q_cnt (qs_v s)) = unat (q_max_threads (qs_v s))" using q by (simp add: qv_ok_def)
  consider (elem) t wait i acked where "qs_check s w = K_elem t wait i acked"
    | (bits) t wait i bmap acked where "qs_check s w = K_bits t wait i bmap acked"
    using step by (auto simp: qsbr_check_selective_def Let_def split: check_pc.splits)
  then show ?thesis
  proof cases
    case elem
    have scan: "scan_ok alone s (\<lambda>j. j < 64 * unat i) t acked" using qs_invD(3) [OF inv, of w] elem by (simp add: check_ok_def)
    show ?thesis
    proof (cases "i < q_num_elems (qs_v s)")
      case True
      define bmap where "bmap = q_reg (qs_v s) ! unat i"
      have i: "unat i < length (q_reg (qs_v s))" using True q by (simp add: qv_ok_def word_less_nat_alt)
      have "clear s j a" if "j < 64 * Suc (unat i)" "\<not> j < 64 * unat i" "\<not> unseen i bmap j" for j a
      proof -
        have "j div 64 = unat i" using that(1,2) by (intro div_nat_eqI) auto
        then have "j mod 64 = j - 64 * unat i" by (metis minus_mult_div_eq_mod)
        then have "\<not> registered s j" using that \<open>j div 64 = unat i\<close> by (simp add: registered_def unseen_def bmap_def)
        then show ?thesis using clear_offline [OF qs_invD(2) [OF inv]] by blast
      qed
      then have "scan_ok alone s (\<lambda>j. j < 64 * Suc (unat i) \<and> \<not> unseen i bmap j) t acked"
        using scan unfolding scan_ok_def by blast
      then have "check_ok alone s (K_bits t wait i bmap acked)"
        using True q i by (auto simp: check_ok_def qv_ok_def bmap_def)
      then show ?thesis using step elem True i check_goto [OF inv, of _ w] by (auto simp: qsbr_check_selective_def Let_def bmap_def)
    next
      case False
      have "check_ok alone s (scan_end t acked)"
        by (rule scan_end_ok [OF inv scan]) (use False len q in \<open>auto simp: word_less_nat_alt qv_ok_def\<close>)
      then show ?thesis using step elem False check_goto [OF inv, of _ w] by (auto simp: qsbr_check_selective_def Let_def)
    qed
  next
    case bits
    have ok: "scan_ok alone s (\<lambda>j. j < 64 * Suc (unat i) \<and> \<not> unseen i bmap j) t acked" "i < q_num_elems (qs_v s)"
      "\<And>j. bit bmap j \<Longrightarrow> 64 * unat i + j < unat (q_max_threads (qs_v s))"
      using qs_invD(3) [OF inv, of w] bits by (simp_all add: check_ok_def)
    show ?thesis
    proof (cases "bmap = 0")
      case True
      have "scan_ok alone s (\<lambda>j. j < 64 * unat (i + 1)) t acked" using ok(1) True unat_inc_below [OF ok(2)] by (simp add: unseen_def)
      then show ?thesis using step bits True check_goto [OF inv, of _ w] by (auto simp: qsbr_check_selective_def Let_def check_ok_def)
    next
      case False
      define j where "j = ctz bmap"
      have j: "j < 64" "bit bmap j" using ctz_bit [OF False] by (simp_all add: j_def)
      have lt: "64 * unat i + j < unat (q_max_threads (qs_v s))" using ok(3) [OF j(2)] .
      have id: "unat (push_bit 6 i + of_nat j) = 64 * unat i + j" by (rule scan_index [OF lt])
      define k where "k = 64 * unat i + j"
      have k: "k < length (q_cnt (qs_v s))" using lt len by (simp add: k_def)
      define bmap' where "bmap' = bmap AND NOT (push_bit j 1)"
      have bit': "bit bmap' x \<longleftrightarrow> bit bmap x \<and> x \<noteq> j" for x
        using bit_imp_le_length [of bmap x] by (auto simp: bmap'_def bit_simps)
      have "scan_ok alone s (\<lambda>x. x < 64 * Suc (unat i) \<and> \<not> unseen i bmap' x) t (least_acked acked (q_cnt (qs_v s) ! k))"
        if "q_cnt (qs_v s) ! k = 0 \<or> t \<le> q_cnt (qs_v s) ! k"
        by (rule scan_pass [OF inv ok(1) k that]) (auto simp: unseen_def bit' k_def)
      then have pass: "check_ok alone s (K_bits t wait i bmap' (least_acked acked (q_cnt (qs_v s) ! k)))"
        if "q_cnt (qs_v s) ! k = 0 \<or> t \<le> q_cnt (qs_v s) ! k"
        using that ok(2,3) bit' by (simp add: check_ok_def)
      have again: "check_ok alone s (K_elem t wait i acked)"
        using ok(1) by (auto simp: check_ok_def scan_ok_def unseen_def)
      have "qsbr_check_selective w s = Some (if q_cnt (qs_v s) ! k \<noteq> 0 \<and> q_cnt (qs_v s) ! k < t
          then check_to w (if \<not> wait then K_no t else K_elem t wait i acked) s
          else check_to w (K_bits t wait i bmap' (least_acked acked (q_cnt (qs_v s) ! k))) s)"
        using bits False k by (simp add: qsbr_check_selective_def Let_def j_def [symmetric] id [folded k_def] bmap'_def)
      then have "s' = (if q_cnt (qs_v s) ! k \<noteq> 0 \<and> q_cnt (qs_v s) ! k < t
          then check_to w (if \<not> wait then K_no t else K_elem t wait i acked) s
          else check_to w (K_bits t wait i bmap' (least_acked acked (q_cnt (qs_v s) ! k))) s)" using step by simp
      then show ?thesis using check_goto [OF inv again, of w] check_goto [OF inv pass, of w] check_goto [OF inv, of "K_no t" w]
        by (auto simp: check_ok_def not_less)
    qed
  qed
qed

lemma check_inv:
  assumes inv: "qs_inv alone s" and step: "rte_rcu_qsbr_check w s = Some s'"
  shows "qs_inv alone s'"
proof (cases "qs_check s w")
  case (K_acked t wait)
  have "t \<le> q_token (qs_v s)" using qs_invD(3) [OF inv, of w] K_acked by (simp add: check_ok_def)
  moreover have "alone \<Longrightarrow> t \<le> q_acked_token (qs_v s) \<Longrightarrow> clear s i (unat t)" for i
    using qs_invD(4) [OF inv, of i] by (auto simp: clear_def word_le_nat_alt)
  ultimately show ?thesis using step K_acked check_goto [OF inv, of _ w]
    by (auto simp: rte_rcu_qsbr_check_def Let_def check_ok_def)
next
  case (K_mode t wait)
  have "t \<le> q_token (qs_v s)" using qs_invD(3) [OF inv, of w] K_mode by (simp add: check_ok_def)
  then show ?thesis using step K_mode check_goto [OF inv, of _ w]
    by (auto simp: rte_rcu_qsbr_check_def Let_def check_ok_def scan_ok_def)
next
  case (K_store t acked)
  have ok: "scan_ok alone s (\<lambda>_. True) t acked" "acked \<le> q_token (qs_v s)"
    using qs_invD(3) [OF inv, of w] K_store by (simp_all add: check_ok_def)
  define s1 where "s1 = s\<lparr>qs_v := (qs_v s)\<lparr>q_acked_token := acked\<rparr>\<rparr>"
  have "check_ok alone s1 x = check_ok alone s x" for x
    by (cases x) (simp_all add: check_ok_def scan_ok_def clear_def s1_def)
  moreover have "reader_ok s1 i = reader_ok s i" for i
    by (cases "qs_reader s i") (simp_all add: reader_ok_def registered_def Let_def s1_def)
  moreover have "alone \<Longrightarrow> clear s1 i (unat acked)" for i
    using ok by (auto simp: scan_ok_def clear_def s1_def word_le_nat_alt min_absorb1)
  ultimately have "qs_inv alone s1" using inv ok(2) by (auto simp: qs_inv_def s1_def qv_ok_def)
  moreover have "check_ok alone s1 (K_yes t True)" using ok(1) by (auto simp: check_ok_def scan_ok_def clear_def s1_def)
  ultimately show ?thesis using step K_store check_goto [of alone s1 "K_yes t True" w]
    by (auto simp: rte_rcu_qsbr_check_def Let_def s1_def)
qed (use step check_all_inv [OF inv] check_selective_inv [OF inv] in \<open>auto simp: rte_rcu_qsbr_check_def Let_def\<close>)

lemma start_inv:
  assumes inv: "qs_inv alone s" and tok: "q_token (qs_v s) < QSBR_CNT_MAX - 1" and idle: "alone \<Longrightarrow> \<forall>w. check_done (qs_check s w)"
  shows "qs_inv alone (snd (rte_rcu_qsbr_start s))"
proof -
  define s' where "s' = snd (rte_rcu_qsbr_start s)"
  have t: "q_token (qs_v s) \<le> q_token (qs_v s')" "q_token (qs_v s') \<noteq> 0"
    using unat_inc_below [OF tok] by (auto simp: s'_def rte_rcu_qsbr_start_def Let_def word_le_nat_alt)
  have v: "q_num_elems (qs_v s') = q_num_elems (qs_v s)" "q_reg (qs_v s') = q_reg (qs_v s)" "q_cnt (qs_v s') = q_cnt (qs_v s)"
    "q_max_threads (qs_v s') = q_max_threads (qs_v s)" "q_acked_token (qs_v s') = q_acked_token (qs_v s)"
    "qs_check s' = qs_check s" "qs_reader s' = qs_reader s" "h_since s' = h_since s"
    by (simp_all add: s'_def rte_rcu_qsbr_start_def Let_def)
  have cl: "clear s' = clear s" by (intro ext) (simp add: clear_def v)
  have "reader_ok s' i" for i
    using qs_invD(2) [OF inv, of i] t v by (cases "qs_reader s i") (auto simp: reader_ok_def registered_def Let_def word_le_nat_alt)
  moreover have "check_ok alone s' (qs_check s w)" for w
  proof (cases alone)
    case True
    then have "check_done (qs_check s w)" using idle by blast
    then show ?thesis using qs_invD(3) [OF inv, of w] t(1)
      by (cases "qs_check s w") (auto simp: check_ok_def check_done_def cl)
  next
    case False
    have "scan_ok alone s P a b \<Longrightarrow> scan_ok alone s' P a b" for P a b using False t(1) by (auto simp: scan_ok_def cl)
    then show ?thesis using qs_invD(3) [OF inv, of w] t(1) False by (cases "qs_check s w") (auto simp: check_ok_def cl v)
  qed
  moreover have "1 \<le> q_token (qs_v s')" using t(2) by (simp add: word_le_nat_alt unat_gt_0 Suc_le_eq)
  ultimately show ?thesis unfolding s'_def [symmetric] using inv t(1) by (auto simp: qs_inv_def qv_ok_def v cl)
qed

lemma register_inv:
  assumes inv: "qs_inv alone s" and i: "i < length (q_cnt (qs_v s))" and off: "qs_reader s i = R_offline"
  shows "qs_inv alone (s\<lparr>qs_v := (qs_v s)\<lparr>q_reg := (q_reg (qs_v s))[i div 64 :=
      (if b then q_reg (qs_v s) ! (i div 64) OR push_bit (i mod 64) 1 else q_reg (qs_v s) ! (i div 64) AND NOT (push_bit (i mod 64) 1))]\<rparr>\<rparr>)"
    (is "qs_inv alone ?s")
proof -
  note q = qs_invD(1) [OF inv]
  have e: "i div 64 < length (q_reg (qs_v s))" using i q by (auto simp: qv_ok_def)
  have bits: "bit (q_reg (qs_v ?s) ! d) j \<longleftrightarrow> (if 64 * d + j = i \<and> j < 64 then b else bit (q_reg (qs_v s) ! d) j)" for d j
  proof (cases "d = i div 64")
    case True
    have "64 * d + j = i \<longleftrightarrow> j = i mod 64" using True by (auto simp: minus_mult_div_eq_mod [symmetric])
    then show ?thesis using True e bit_imp_le_length [of "q_reg (qs_v s) ! d" j] by (auto simp: bit_simps)
  next
    case False
    then have n: "\<not> (64 * d + j = i \<and> j < 64)" by auto
    show ?thesis unfolding if_not_P [OF n] using False by simp
  qed
  have reg: "registered ?s j = (if j = i then b else registered s j)" for j
    using bits [of "j div 64" "j mod 64"] by (simp add: registered_def)
  have "reader_ok ?s j" for j
  proof (cases "j = i")
    case True
    then show ?thesis using off qs_invD(2) [OF inv, of i] by (simp add: reader_ok_def Let_def)
  next
    case False
    then have "reader_ok ?s j = reader_ok s j" using reg [of j] by (cases "qs_reader s j") (simp_all add: reader_ok_def Let_def)
    then show ?thesis using qs_invD(2) [OF inv] by simp
  qed
  moreover have "check_ok alone ?s x = check_ok alone s x" for x
    by (cases x) (simp_all add: check_ok_def scan_ok_def clear_def)
  moreover have "64 * d + j < unat (q_max_threads (qs_v s))"
    if "d < length (q_reg (qs_v s))" "bit (q_reg (qs_v ?s) ! d) j" for d j
    using that bits [of d j] i q by (auto simp: qv_ok_def split: if_splits)
  then have "qv_ok (qs_v ?s)" using q by (simp add: qv_ok_def)
  ultimately show ?thesis using inv by (simp add: qs_inv_def clear_def)
qed

lemma qs_step_inv: "qs_step alone s s' \<Longrightarrow> qs_inv alone s \<Longrightarrow> qs_inv alone s'"
proof (induction rule: qs_step.induct)
  case (online i s s')
  then show ?case using online_inv by (simp add: registered_def)
next
  case (call s w t wait)
  then show ?case by (intro check_goto) (simp_all add: check_ok_def)
next
  case (recount s n)
  have "check_ok alone (s\<lparr>qs_v := (qs_v s)\<lparr>q_num_threads := n\<rparr>\<rparr>) x = check_ok alone s x" for x
    by (cases x) (simp_all add: check_ok_def scan_ok_def clear_def)
  moreover have "reader_ok (s\<lparr>qs_v := (qs_v s)\<lparr>q_num_threads := n\<rparr>\<rparr>) i = reader_ok s i" for i
    by (cases "qs_reader s i") (simp_all add: reader_ok_def registered_def Let_def)
  ultimately show ?case using recount by (simp add: qs_inv_def qv_ok_def clear_def)
qed (use quiescent_inv offline_inv start_inv check_inv register_inv in blast)+

lemma start_state_inv:
  assumes "unat n \<le> 2 ^ 32 - 64"
  shows "qs_inv alone (qs_start n)"
proof -
  have "unat (n + 63) = unat n + 63" using assms by (subst unat_add_lt) simp_all
  then have e: "unat ((n + 63) div 64) = (unat n + 63) div 64" by (simp add: unat_div)
  then have "unat n \<le> 64 * unat ((n + 63) div 64)" by presburger
  then show ?thesis by (auto simp: qs_inv_def qs_start_def qv_ok_def reader_ok_def check_ok_def clear_def)
qed

lemma qs_run_inv: "qs_run alone s0 s \<Longrightarrow> qs_inv alone s0 \<Longrightarrow> qs_inv alone s"
  by (induction rule: qs_run.induct) (auto intro: qs_step_inv)

section \<open>Properties\<close>

text \<open>C21. A grace period is over when a check says so. In every interleaving of readers and writers, when
  a call of \<open>rte_rcu_qsbr_check\<close> for token \<open>t\<close> has returned 1 after scanning the readers, no reader is
  in a section that it entered before \<open>t\<close> was handed out, so what was removed before cannot be referenced
  any more. The verdict by the acknowledged token alone has the same meaning as long as no token is handed
  out while a check is in progress. The counter of a reader in a section is never the offline value.\<close>

theorem qsbr_check_safe:
  assumes "qs_run alone (qs_start n) s" "unat n \<le> 2 ^ 32 - 64" "qs_check s w = K_yes t scanned" "scanned \<or> alone"
    and "qs_reader s i = R_section"
  shows "unat t \<le> h_since s i \<and> q_cnt (qs_v s) ! i \<noteq> QSBR_CNT_THR_OFFLINE \<and> unat (q_cnt (qs_v s) ! i) \<le> h_since s i"
proof -
  have inv: "qs_inv alone s" using qs_run_inv [OF assms(1) start_state_inv [OF assms(2)]] .
  have "check_ok alone s (K_yes t scanned)" using qs_invD(3) [OF inv, of w] assms(3) by simp
  then have "clear s i (unat t)" using assms(4) by (auto simp: check_ok_def)
  then show ?thesis using assms(5) qs_invD(2) [OF inv, of i] by (simp add: clear_def reader_ok_def Let_def)
qed

text \<open>The steps a call that does not wait has left at most.\<close>

definition bits_left :: "u64 \<Rightarrow> nat" where
  "bits_left bmap = card {j. j < 64 \<and> bit bmap j}"

definition steps_left :: "rte_rcu_qsbr \<Rightarrow> check_pc \<Rightarrow> nat" where
  "steps_left v pc = (let n = unat (q_max_threads v); e = unat (q_num_elems v) in case pc of
     K_acked _ _ \<Rightarrow> n + 66 * e + 4
   | K_mode _ _ \<Rightarrow> n + 66 * e + 3
   | K_all _ _ i _ \<Rightarrow> (n - unat i) + 2
   | K_elem _ _ i _ \<Rightarrow> 66 * (e - unat i) + 2
   | K_bits _ _ i bmap _ \<Rightarrow> 66 * (e - unat i - 1) + bits_left bmap + 3
   | K_store _ _ \<Rightarrow> 1
   | _ \<Rightarrow> 0)"

definition waits :: "check_pc \<Rightarrow> bool" where
  "waits pc = (case pc of K_acked _ wait \<Rightarrow> wait | K_mode _ wait \<Rightarrow> wait | K_all _ wait _ _ \<Rightarrow> wait | K_elem _ wait _ _ \<Rightarrow> wait
     | K_bits _ wait _ _ _ \<Rightarrow> wait | _ \<Rightarrow> False)"

lemma bits_left_le: "bits_left bmap \<le> 64"
  unfolding bits_left_def using card_mono [of "{j. j < 64}" "{j. j < 64 \<and> bit bmap j}"] by auto

lemma bits_left_less:
  assumes "bmap \<noteq> 0"
  shows "bits_left (bmap AND NOT (push_bit (ctz bmap) 1)) < bits_left bmap"
  unfolding bits_left_def using ctz_bit [OF assms] by (intro psubset_card_mono) (auto simp: bit_simps)

text \<open>Every step of the call of its own brings it closer to its end.\<close>

lemma check_step_closer:
  assumes inv: "qs_inv alone s" and "\<not> check_done (qs_check s w)" "\<not> waits (qs_check s w)"
  shows "\<exists>s'. rte_rcu_qsbr_check w s = Some s' \<and> \<not> waits (qs_check s' w) \<and>
    steps_left (qs_v s') (qs_check s' w) < steps_left (qs_v s) (qs_check s w)"
proof (cases "qs_check s w")
  case (K_all t wait i acked)
  have "length (q_cnt (qs_v s)) = unat (q_max_threads (qs_v s))" using qs_invD(1) [OF inv] by (simp add: qv_ok_def)
  then show ?thesis using K_all assms(3) unat_inc_below [of i "q_max_threads (qs_v s)"]
    by (auto simp: rte_rcu_qsbr_check_def qsbr_check_all_def Let_def check_to_def waits_def steps_left_def scan_end_def word_less_nat_alt)
next
  case (K_elem t wait i acked)
  have l: "length (q_reg (qs_v s)) = unat (q_num_elems (qs_v s))" using qs_invD(1) [OF inv] by (simp add: qv_ok_def)
  show ?thesis using K_elem assms(3) l bits_left_le [of "q_reg (qs_v s) ! unat i"]
    by (auto simp: rte_rcu_qsbr_check_def qsbr_check_selective_def Let_def check_to_def waits_def steps_left_def scan_end_def word_less_nat_alt)
next
  case (K_bits t wait i bmap acked)
  have ok: "i < q_num_elems (qs_v s)" "\<And>j. bit bmap j \<Longrightarrow> 64 * unat i + j < unat (q_max_threads (qs_v s))"
    using qs_invD(3) [OF inv, of w] K_bits by (simp_all add: check_ok_def)
  have len: "length (q_cnt (qs_v s)) = unat (q_max_threads (qs_v s))" using qs_invD(1) [OF inv] by (simp add: qv_ok_def)
  show ?thesis
  proof (cases "bmap = 0")
    case True
    then show ?thesis using K_bits assms(3) unat_inc_below [OF ok(1)]
      by (auto simp: rte_rcu_qsbr_check_def qsbr_check_selective_def Let_def check_to_def waits_def steps_left_def)
  next
    case False
    have "unat (push_bit 6 i + of_nat (ctz bmap)) < length (q_cnt (qs_v s))"
      using scan_index [OF ok(2)] ctz_bit [OF False] ok(2) len by simp
    then show ?thesis using K_bits assms(3) False bits_left_less [OF False]
      by (auto simp: rte_rcu_qsbr_check_def qsbr_check_selective_def Let_def check_to_def waits_def steps_left_def)
  qed
qed (use assms in \<open>auto simp: rte_rcu_qsbr_check_def Let_def check_to_def waits_def steps_left_def check_done_def\<close>)

definition same_checks :: "qs_sys \<Rightarrow> qs_sys \<Rightarrow> bool" where
  "same_checks s s' \<longleftrightarrow> qs_check s' = qs_check s \<and> q_max_threads (qs_v s') = q_max_threads (qs_v s) \<and>
     q_num_elems (qs_v s') = q_num_elems (qs_v s)"

lemma same_checks_readers: "same_checks s s' \<Longrightarrow> same_checks s (reader_to i pc s')" "same_checks s s' \<Longrightarrow> same_checks s (enter_section i s')"
    "same_checks s s' \<Longrightarrow> same_checks s (set_cnt i c s')" "same_checks s s"
  by (simp_all add: same_checks_def reader_to_def enter_section_def set_cnt_def)

lemma reader_same:
  "rte_rcu_qsbr_thread_online i s = Some s' \<Longrightarrow> same_checks s s'"
  "rte_rcu_qsbr_thread_offline i s = Some s' \<Longrightarrow> same_checks s s'"
  "rte_rcu_qsbr_quiescent i s = Some s' \<Longrightarrow> same_checks s s'"
  unfolding rte_rcu_qsbr_thread_online_def rte_rcu_qsbr_thread_offline_def rte_rcu_qsbr_quiescent_def
  by (auto intro!: same_checks_readers split: if_splits reader_pc.splits)

definition moved :: "nat \<Rightarrow> qs_sys \<Rightarrow> qs_sys \<Rightarrow> bool" where
  "moved w s s' \<longleftrightarrow> (\<forall>w'. w' \<noteq> w \<longrightarrow> qs_check s' w' = qs_check s w') \<and> q_max_threads (qs_v s') = q_max_threads (qs_v s) \<and>
     q_num_elems (qs_v s') = q_num_elems (qs_v s)"

lemma moved_intros: "moved w s s" "moved w s (check_to w pc s)" "moved w s (check_to w pc (s\<lparr>qs_v := (qs_v s)\<lparr>q_acked_token := a\<rparr>\<rparr>))"
  by (simp_all add: moved_def check_to_def)

lemma check_moves:
  assumes "rte_rcu_qsbr_check w s = Some s'"
  shows "moved w s s'"
  using assms unfolding rte_rcu_qsbr_check_def qsbr_check_all_def qsbr_check_selective_def Let_def
  by (cases "qs_check s w") (auto simp: moved_intros split: if_split_asm)

lemma check_frame:
  assumes "rte_rcu_qsbr_check w' s = Some s'" "w' \<noteq> w"
  shows "qs_check s' w = qs_check s w" "q_max_threads (qs_v s') = q_max_threads (qs_v s)" "q_num_elems (qs_v s') = q_num_elems (qs_v s)"
  using check_moves [OF assms(1)] assms(2) by (simp_all add: moved_def)

lemma steps_left_frame:
  "q_max_threads v' = q_max_threads v \<Longrightarrow> q_num_elems v' = q_num_elems v \<Longrightarrow> steps_left v' pc = steps_left v pc"
  by (cases pc) (simp_all add: steps_left_def Let_def)

lemma same_checks_left: "same_checks s s' \<Longrightarrow> steps_left (qs_v s') (qs_check s' w) = steps_left (qs_v s) (qs_check s w)"
  unfolding same_checks_def using steps_left_frame [of "qs_v s'" "qs_v s" "qs_check s w"] by simp

lemma other_step_same:
  assumes "qs_step alone s s'" "\<not> check_done (qs_check s w)"
  shows "steps_left (qs_v s') (qs_check s' w) = steps_left (qs_v s) (qs_check s w) \<or> rte_rcu_qsbr_check w s = Some s'"
  using assms
proof cases
  case (online i)
  then show ?thesis using same_checks_left [OF reader_same(1)] by blast
next
  case (quiescent i)
  then show ?thesis using same_checks_left [OF reader_same(3)] by blast
next
  case (offline i)
  then show ?thesis using same_checks_left [OF reader_same(2)] by blast
next
  case start
  then have "same_checks s s'" by (simp add: same_checks_def rte_rcu_qsbr_start_def Let_def)
  then show ?thesis using same_checks_left by blast
next
  case (call w' t wait)
  then have "w' \<noteq> w" using assms(2) by blast
  then show ?thesis using call(1) by (simp add: check_to_def)
next
  case (check w')
  show ?thesis
  proof (cases "w' = w")
    case True
    then show ?thesis using check by simp
  next
    case False
    then show ?thesis
      using check_frame [OF check False] steps_left_frame [of "qs_v s'" "qs_v s" "qs_check s w"] by simp
  qed
next
  case (register i b)
  then have "same_checks s s'" by (simp add: same_checks_def)
  then show ?thesis using same_checks_left by blast
next
  case (recount n)
  then have "same_checks s s'" by (simp add: same_checks_def)
  then show ?thesis using same_checks_left by blast
qed

text \<open>C22. A check that does not wait ends, whatever the other threads do: its next step is always enabled
  (it reads no counter or bitmap word out of range) and brings it closer to its end by a measure that
  starts at the number of threads plus 66 times the number of bitmap words plus 4 and that no step of
  another thread increases.\<close>

theorem qsbr_check_terminates:
  assumes "qs_run alone (qs_start n) s" "unat n \<le> 2 ^ 32 - 64" "\<not> check_done (qs_check s w)" "\<not> waits (qs_check s w)"
  shows "(\<exists>s'. rte_rcu_qsbr_check w s = Some s' \<and> \<not> waits (qs_check s' w) \<and>
      steps_left (qs_v s') (qs_check s' w) < steps_left (qs_v s) (qs_check s w)) \<and>
    (\<forall>s'. qs_step alone s s' \<longrightarrow> steps_left (qs_v s') (qs_check s' w) \<le> steps_left (qs_v s) (qs_check s w)) \<and>
    steps_left (qs_v s) (qs_check s w) \<le> unat (q_max_threads (qs_v s)) + 66 * unat (q_num_elems (qs_v s)) + 4"
proof -
  have inv: "qs_inv alone s" using qs_run_inv [OF assms(1) start_state_inv [OF assms(2)]] .
  obtain s1 where s1: "rte_rcu_qsbr_check w s = Some s1" "\<not> waits (qs_check s1 w)"
    "steps_left (qs_v s1) (qs_check s1 w) < steps_left (qs_v s) (qs_check s w)"
    using check_step_closer [OF inv assms(3,4)] by blast
  moreover have "steps_left (qs_v s') (qs_check s' w) \<le> steps_left (qs_v s) (qs_check s w)" if "qs_step alone s s'" for s'
    using other_step_same [OF that assms(3)] s1 by auto
  moreover have "steps_left (qs_v s) (qs_check s w) \<le> unat (q_max_threads (qs_v s)) + 66 * unat (q_num_elems (qs_v s)) + 4"
  proof (cases "qs_check s w")
    case (K_bits t wait i bmap acked)
    have "unat i < unat (q_num_elems (qs_v s))"
      using qs_invD(3) [OF inv, of w] K_bits by (simp add: check_ok_def word_less_nat_alt)
    then show ?thesis using K_bits bits_left_le [of bmap] by (simp add: steps_left_def Let_def)
  qed (simp_all add: steps_left_def Let_def)
  ultimately show ?thesis by blast
qed

section \<open>Runs\<close>

datatype qs_action = Register nat | Recount u32 | Online nat | Quiescent nat | Offline nat | Start | Call nat u64 bool | Check nat

definition qs_act :: "qs_action \<Rightarrow> qs_sys \<Rightarrow> qs_sys option" where
  "qs_act a s = (case a of
     Register i \<Rightarrow> if i < length (q_cnt (qs_v s)) \<and> qs_reader s i = R_offline
       then Some (s\<lparr>qs_v := (qs_v s)\<lparr>q_reg := (q_reg (qs_v s))[i div 64 := q_reg (qs_v s) ! (i div 64) OR push_bit (i mod 64) 1]\<rparr>\<rparr>) else None
   | Recount n \<Rightarrow> Some (s\<lparr>qs_v := (qs_v s)\<lparr>q_num_threads := n\<rparr>\<rparr>)
   | Online i \<Rightarrow> if bit (q_reg (qs_v s) ! (i div 64)) (i mod 64) then rte_rcu_qsbr_thread_online i s else None
   | Quiescent i \<Rightarrow> rte_rcu_qsbr_quiescent i s
   | Offline i \<Rightarrow> rte_rcu_qsbr_thread_offline i s
   | Start \<Rightarrow> if q_token (qs_v s) < QSBR_CNT_MAX - 1 then Some (snd (rte_rcu_qsbr_start s)) else None
   | Call w t wait \<Rightarrow> if check_done (qs_check s w) \<and> t \<le> q_token (qs_v s) then Some (check_to w (K_acked t wait) s) else None
   | Check w \<Rightarrow> rte_rcu_qsbr_check w s)"

fun qs_acts :: "qs_action list \<Rightarrow> qs_sys \<Rightarrow> qs_sys option" where
  "qs_acts [] s = Some s"
| "qs_acts (a # as) s = (case qs_act a s of None \<Rightarrow> None | Some s' \<Rightarrow> qs_acts as s')"

lemma qs_act_step: "qs_act a s = Some s' \<Longrightarrow> qs_step False s s'"
  using qs_step.register [of _ s False True]
  by (auto simp: qs_act_def intro: qs_step.intros(2-8) qs_step.online split: qs_action.splits if_splits)

lemma qs_acts_run: "qs_acts as s = Some s' \<Longrightarrow> qs_run False s0 s \<Longrightarrow> qs_run False s0 s'"
proof (induction as arbitrary: s)
  case (Cons a as)
  then obtain s1 where "qs_act a s = Some s1" "qs_acts as s1 = Some s'" by (auto split: option.splits)
  then show ?case using Cons.IH qs_run.step [OF Cons.prems(2) qs_act_step] by blast
qed simp

text \<open>Two readers and two writers. Writer 7 has token 2 and finds reader 0 offline. Reader 0 goes online,
  then a third token is handed out, which reader 1 reports; writer 7 sees 3 as the least counter and
  acknowledges it.\<close>

definition ex_scan :: "qs_action list" where
  "ex_scan = [Register 0, Register 1, Recount 2, Online 1, Online 1, Start, Call 7 2 True, Check 7, Check 7, Check 7,
     Online 0, Online 0, Start, Quiescent 1, Quiescent 1, Quiescent 1, Check 7, Check 7, Check 7]"

lemmas qs_run_defs = qs_act_def rte_rcu_qsbr_thread_online_def rte_rcu_qsbr_quiescent_def rte_rcu_qsbr_start_def
  rte_rcu_qsbr_check_def qsbr_check_all_def check_done_def check_to_def reader_to_def set_cnt_def enter_section_def scan_end_def
  least_acked_def Let_def

lemma ex_start: "qs_start 2 = \<lparr>qs_v = \<lparr>q_token = 1, q_acked_token = 0, q_num_elems = 1, q_num_threads = 0, q_max_threads = 2,
       q_cnt = [0, 0], q_reg = [0]\<rparr>, qs_reader = (\<lambda>_. R_offline), qs_check = (\<lambda>_. K_idle), h_since = (\<lambda>_. 0)\<rparr>"
proof -
  have "replicate 2 (0 :: u64) = [0, 0]" by (simp add: numeral_2_eq_2)
  then show ?thesis by (simp add: qs_start_def)
qed

lemma ex_scan_run: "map_option (\<lambda>s. (qs_check s 7, qs_reader s 0, h_since s 0, q_acked_token (qs_v s), q_token (qs_v s), qs_check s 8, q_cnt (qs_v s)))
    (qs_acts ex_scan (qs_start 2)) = Some (K_yes 2 True, R_section, 2, 3, 3, K_idle, [2, 3])"
  by (simp add: ex_scan_def ex_start qs_run_defs)

lemma ex_scan_state:
  obtains s where "qs_run False (qs_start 2) s" "qs_check s 7 = K_yes 2 True" "qs_reader s 0 = R_section" "h_since s 0 = 2"
    "q_acked_token (qs_v s) = 3" "q_token (qs_v s) = 3" "qs_check s 8 = K_idle" "q_cnt (qs_v s) = [2, 3]"
proof -
  obtain s where s: "qs_acts ex_scan (qs_start 2) = Some s" "qs_check s 7 = K_yes 2 True" "qs_reader s 0 = R_section" "h_since s 0 = 2"
    "q_acked_token (qs_v s) = 3" "q_token (qs_v s) = 3" "qs_check s 8 = K_idle" "q_cnt (qs_v s) = [2, 3]"
    using ex_scan_run by auto
  show thesis by (rule that [OF qs_acts_run [OF s(1) qs_run.refl] s(2-8)])
qed

theorem qsbr_check_safe_witness:
  "\<exists>s. qs_run False (qs_start 2) s \<and> qs_check s 7 = K_yes 2 True \<and> qs_reader s 0 = R_section \<and> unat (2 :: u64) \<le> h_since s 0"
proof -
  obtain s where s: "qs_run False (qs_start 2) s" "qs_check s 7 = K_yes 2 True" "qs_reader s 0 = R_section"
    by (rule ex_scan_state)
  have "unat (2 :: u64) \<le> h_since s 0" using qsbr_check_safe [OF s(1) _ s(2) _ s(3)] by simp
  then show ?thesis using s by blast
qed

theorem qsbr_check_terminates_witness:
  "\<exists>s. qs_run False (qs_start 2) s \<and> qs_check s 8 = K_acked 3 False \<and> (\<exists>s'. rte_rcu_qsbr_check 8 s = Some s')"
proof -
  obtain s where s: "qs_run False (qs_start 2) s" "q_token (qs_v s) = 3" "qs_check s 8 = K_idle"
    by (rule ex_scan_state)
  define s' where "s' = check_to 8 (K_acked 3 False) s"
  have "qs_step False s s'" unfolding s'_def using s(2,3) by (intro qs_step.call) (simp_all add: check_done_def)
  then have run: "qs_run False (qs_start 2) s'" by (rule qs_run.step [OF s(1)])
  moreover have "qs_check s' 8 = K_acked 3 False" by (simp add: s'_def check_to_def)
  ultimately show ?thesis using qsbr_check_terminates [OF run, of 8] by (auto simp: check_done_def waits_def)
qed

text \<open>C23. With two writers a check can say yes too early. There is a run in which the call for token 3 returns
  1 by the acknowledged token while a registered reader, online with counter 2, is still in a section that
  it entered before token 3 was handed out: what was removed before \<open>rte_rcu_qsbr_start\<close> returned 3 is
  freed under the reader. The acknowledged token was raised to 3 by a scan for token 2 that had passed
  this reader while it was offline.\<close>

theorem qsbr_concurrent_check_unsafe:
  "\<exists>s. qs_run False (qs_start 2) s \<and> qs_check s 8 = K_yes 3 False \<and> qs_reader s 0 = R_section \<and> registered s 0 \<and>
    h_since s 0 = 2 \<and> q_cnt (qs_v s) ! 0 = 2"
proof -
  obtain s where s: "qs_run False (qs_start 2) s" "qs_check s 7 = K_yes 2 True" "qs_reader s 0 = R_section" "h_since s 0 = 2"
    "q_acked_token (qs_v s) = 3" "q_token (qs_v s) = 3" "qs_check s 8 = K_idle" "q_cnt (qs_v s) = [2, 3]"
    by (rule ex_scan_state)
  define s1 where "s1 = check_to 8 (K_acked 3 False) s"
  define s2 where "s2 = check_to 8 (K_yes 3 False) s1"
  have "qs_step False s s1" unfolding s1_def using s(6,7) by (intro qs_step.call) (simp_all add: check_done_def)
  then have "qs_run False (qs_start 2) s1" by (rule qs_run.step [OF s(1)])
  moreover have "rte_rcu_qsbr_check 8 s1 = Some s2" using s(5) by (simp add: rte_rcu_qsbr_check_def s1_def s2_def check_to_def)
  then have "qs_step False s1 s2" by (rule qs_step.check)
  ultimately have run: "qs_run False (qs_start 2) s2" by (rule qs_run.step)
  have inv: "qs_inv False s2" by (rule qs_run_inv [OF run start_state_inv]) simp
  have "qs_reader s2 0 = R_section" "h_since s2 0 = 2" "q_cnt (qs_v s2) = [2, 3]" "qs_check s2 8 = K_yes 3 False"
    using s by (simp_all add: s1_def s2_def check_to_def)
  then show ?thesis using run qs_invD(2) [OF inv, of 0] by (intro exI [of _ s2]) (simp add: reader_ok_def)
qed

end
