(* ===== verification/Rte_Thash.thy ===== *)
theory Rte_Thash
  imports Rte_Common "HOL-Library.Monad_Syntax"
begin

text \<open>
  The Toeplitz hash of rte\_thash.h that network cards use to spread packets over their queues. A key is
  a list of bytes, read as 32-bit words of a little endian machine; \<open>None\<close> is a read behind its end.
\<close>

section \<open>The code\<close>

definition bytes_u32 :: "u8 \<Rightarrow> u8 \<Rightarrow> u8 \<Rightarrow> u8 \<Rightarrow> u32" where
  "bytes_u32 b0 b1 b2 b3 = ucast b0 OR push_bit 8 (ucast b1) OR push_bit 16 (ucast b2) OR push_bit 24 (ucast b3)"

definition u32_bytes :: "u32 \<Rightarrow> u8 list" where
  "u32_bytes v = [ucast v, ucast (drop_bit 8 v), ucast (drop_bit 16 v), ucast (drop_bit 24 v)]"

definition load_u32 :: "u8 list \<Rightarrow> nat \<Rightarrow> u32 option" where
  "load_u32 buf j = (if 4 * j + 3 < length buf
     then Some (bytes_u32 (buf ! (4 * j)) (buf ! (4 * j + 1)) (buf ! (4 * j + 2)) (buf ! (4 * j + 3))) else None)"

definition rte_bswap32 :: "u32 \<Rightarrow> u32" where
  "rte_bswap32 v = push_bit 24 (v AND 0x000000ff) OR push_bit 8 (v AND 0x0000ff00) OR
     drop_bit 8 (v AND 0x00ff0000) OR drop_bit 24 (v AND 0xff000000)"

text \<open>The loop over the elements of the key; \<open>len\<close> counts bytes.\<close>

fun convert_words :: "u32 list \<Rightarrow> u32 list \<Rightarrow> nat \<Rightarrow> nat \<Rightarrow> u32 list option" where
  "convert_words orig targ i 0 = Some targ"
| "convert_words orig targ i (Suc n) =
     (if i < length orig \<and> i < length targ then convert_words orig (targ[i := rte_bswap32 (orig ! i)]) (Suc i) n else None)"

definition rte_convert_rss_key :: "u32 list \<Rightarrow> u32 list \<Rightarrow> int \<Rightarrow> u32 list option" where
  "rte_convert_rss_key orig targ len = convert_words orig targ 0 (nat (drop_bit 2 len))"

text \<open>The 32 bits of the key at bit \<open>31 - i\<close> of two of its words.\<close>

definition key_window :: "u32 \<Rightarrow> u32 \<Rightarrow> u32 \<Rightarrow> u32" where
  "key_window k0 k1 i = push_bit (unat (31 - i)) k0 OR ucast (drop_bit (unat (i + 1)) (ucast k1 :: u64))"

lemma clear_lowest_less: "m \<noteq> 0 \<Longrightarrow> unat (m AND (m - 1)) < unat m" for m :: u32
proof -
  assume m: "m \<noteq> 0"
  have "unat (m AND (m - 1)) \<le> unat (m - 1)" using word_and_le1 [of m "m - 1"] by (simp add: word_le_nat_alt)
  also have "unat (m - 1) < unat m" using m by (simp add: unat_minus_one unat_gt_0)
  finally show ?thesis .
qed

function softrss_bits :: "u8 list \<Rightarrow> nat \<Rightarrow> u32 \<Rightarrow> u32 \<Rightarrow> u32 option" where
  "softrss_bits key j m ret = (if m = 0 then Some ret else do {
     i \<leftarrow> rte_bsf32 m;
     k0 \<leftarrow> load_u32 key j;
     k1 \<leftarrow> load_u32 key (j + 1);
     softrss_bits key j (m AND (m - 1)) (ret XOR key_window (rte_bswap32 k0) (rte_bswap32 k1) i)
   })"
  by pat_completeness auto
termination
  by (relation "measure (\<lambda>(key, j, m, ret). unat m)") (auto intro: clear_lowest_less)

fun softrss_words :: "u32 list \<Rightarrow> u8 list \<Rightarrow> nat \<Rightarrow> nat \<Rightarrow> u32 \<Rightarrow> u32 option" where
  "softrss_words tuple key j 0 ret = Some ret"
| "softrss_words tuple key j (Suc n) ret =
     (if j < length tuple then Option.bind (softrss_bits key j (tuple ! j) ret) (softrss_words tuple key (Suc j) n) else None)"

definition rte_softrss :: "u32 list \<Rightarrow> u32 \<Rightarrow> u8 list \<Rightarrow> u32 option" where
  "rte_softrss input_tuple input_len rss_key = softrss_words input_tuple rss_key 0 (unat input_len) 0"

function softrss_be_bits :: "u8 list \<Rightarrow> nat \<Rightarrow> u32 \<Rightarrow> u32 \<Rightarrow> u32 option" where
  "softrss_be_bits key j m ret = (if m = 0 then Some ret else do {
     i \<leftarrow> rte_bsf32 m;
     k0 \<leftarrow> load_u32 key j;
     k1 \<leftarrow> load_u32 key (j + 1);
     softrss_be_bits key j (m AND (m - 1)) (ret XOR key_window k0 k1 i)
   })"
  by pat_completeness auto
termination
  by (relation "measure (\<lambda>(key, j, m, ret). unat m)") (auto intro: clear_lowest_less)

fun softrss_be_words :: "u32 list \<Rightarrow> u8 list \<Rightarrow> nat \<Rightarrow> nat \<Rightarrow> u32 \<Rightarrow> u32 option" where
  "softrss_be_words tuple key j 0 ret = Some ret"
| "softrss_be_words tuple key j (Suc n) ret =
     (if j < length tuple then Option.bind (softrss_be_bits key j (tuple ! j) ret) (softrss_be_words tuple key (Suc j) n) else None)"

definition rte_softrss_be :: "u32 list \<Rightarrow> u32 \<Rightarrow> u8 list \<Rightarrow> u32 option" where
  "rte_softrss_be input_tuple input_len rss_key = softrss_be_words input_tuple rss_key 0 (unat input_len) 0"

declare softrss_bits.simps [simp del] softrss_be_bits.simps [simp del]

text \<open>IPv6 addresses are swapped word by word, with the byte shuffle of the x86 build: byte \<open>i\<close> of the result
  is the byte that byte \<open>i\<close> of the mask names, or 0 if the mask's high bit is set.\<close>

definition mm_shuffle_epi8 :: "u8 list \<Rightarrow> u8 list \<Rightarrow> u8 list" where
  "mm_shuffle_epi8 a b = map (\<lambda>m. if bit m 7 then 0 else a ! unat (m AND 0xf)) b"

definition u64_bytes :: "u64 \<Rightarrow> u8 list" where
  "u64_bytes v = u32_bytes (ucast v) @ u32_bytes (ucast (drop_bit 32 v))"

definition rte_thash_ipv6_bswap_mask :: "u8 list" where
  "rte_thash_ipv6_bswap_mask = u64_bytes 0x0405060700010203 @ u64_bytes 0x0C0D0E0F08090A0B"

definition rte_thash_load_v6_addrs :: "u8 list \<Rightarrow> u8 list \<Rightarrow> u8 list option" where
  "rte_thash_load_v6_addrs src_addr dst_addr = (if length src_addr = 16 \<and> length dst_addr = 16
     then Some (mm_shuffle_epi8 src_addr rte_thash_ipv6_bswap_mask @ mm_shuffle_epi8 dst_addr rte_thash_ipv6_bswap_mask) else None)"

text \<open>The tuple as the hash reads it.\<close>

definition tuple_words :: "u8 list \<Rightarrow> u32 list" where
  "tuple_words bs = map (\<lambda>j. bytes_u32 (bs ! (4 * j)) (bs ! (4 * j + 1)) (bs ! (4 * j + 2)) (bs ! (4 * j + 3))) [0..<length bs div 4]"

section \<open>The hash as a sum over key windows\<close>

text \<open>Bits are counted as they come on the wire: the first byte and its highest bit first. The tuple has
  its words in host order, as the caller of the code prepares it.\<close>

definition key_bit :: "u8 list \<Rightarrow> nat \<Rightarrow> bool" where
  "key_bit key p = bit (key ! (p div 8)) (7 - p mod 8)"

definition tuple_bit :: "u32 list \<Rightarrow> nat \<Rightarrow> bool" where
  "tuple_bit tuple p = bit (tuple ! (p div 32)) (31 - p mod 32)"

text \<open>Each bit of the tuple that is set adds, modulo 2, the 32 bits of the key that start at its place.\<close>

definition toeplitz_bit :: "u32 list \<Rightarrow> nat \<Rightarrow> u8 list \<Rightarrow> nat \<Rightarrow> bool" where
  "toeplitz_bit tuple n key b = odd (\<Sum>p < 32 * n. of_bool (tuple_bit tuple p \<and> key_bit key (p + (31 - b))) :: nat)"

end
