(* ===== verification/Rte_Thash_Correct.thy ===== *)
theory Rte_Thash_Correct
  imports Rte_Thash
begin

text \<open>
  The hash is the sum of the key's windows at the set bits of the tuple, and the variant with a
  converted key computes the same.
\<close>

section \<open>Bits of words and bytes\<close>

lemma byte_cases:
  fixes c :: nat
  assumes "c < 32"
  obtains r where "r < 8" "c = r" | r where "r < 8" "c = 8 + r" | r where "r < 8" "c = 16 + r" | r where "r < 8" "c = 24 + r"
proof -
  have "c = 8 * (c div 8) + c mod 8" "c div 8 < 4" using assms by auto
  then consider "c div 8 = 0" | "c div 8 = 1" | "c div 8 = 2" | "c div 8 = 3" by linarith
  then show thesis using that [of "c mod 8"] \<open>c = 8 * (c div 8) + c mod 8\<close> by cases auto
qed

lemma bytes_masks: "(0xff :: u32) = mask 8" "(0xff00 :: u32) = push_bit 8 (mask 8)" "(0xff0000 :: u32) = push_bit 16 (mask 8)"
    "(0xff000000 :: u32) = push_bit 24 (mask 8)"
  by (simp_all add: mask_eq_exp_minus_1 push_bit_eq_mult)

lemma swapped_bit:
  assumes "c < 32"
  shows "bit (rte_bswap32 (bytes_u32 b0 b1 b2 b3)) c =
    (if c < 8 then bit b3 c else if c < 16 then bit b2 (c - 8) else if c < 24 then bit b1 (c - 16) else bit b0 (c - 24))"
  using assms by (cases rule: byte_cases) (auto simp: rte_bswap32_def bytes_u32_def bytes_masks bit_simps dest: bit_imp_le_length)

lemma swap_swap: "rte_bswap32 (rte_bswap32 v) = v"
proof (rule bit_word_eqI)
  fix c
  assume "c < LENGTH(32)"
  then have "c < 32" by simp
  then show "bit (rte_bswap32 (rte_bswap32 v)) c = bit v c"
    by (cases rule: byte_cases) (auto simp: rte_bswap32_def bytes_masks bit_simps)
qed

lemma swapped_load:
  assumes "4 * j + 3 < length key" "c < 32"
  shows "\<exists>k. load_u32 key j = Some k \<and> bit (rte_bswap32 k) c = key_bit key (32 * j + (31 - c))"
proof -
  have div: "(32 * j + (31 - c)) div 8 = 4 * j + (31 - c) div 8" "(32 * j + (31 - c)) mod 8 = (31 - c) mod 8"
    using div_mult_self2 [of 8 "31 - c" "4 * j"] mod_mult_self2 [of "31 - c" 8 "4 * j"] by (simp_all add: add.commute)
  have kb: "key_bit key (32 * j + (31 - c)) = bit (key ! (4 * j + (31 - c) div 8)) (7 - (31 - c) mod 8)"
    by (simp only: key_bit_def div)
  show ?thesis using assms(2)
  proof (cases rule: byte_cases)
    case (1 r)
    then have "31 - c = 7 - r + 8 * 3" by simp
    then have "(31 - c) div 8 = 3" "(31 - c) mod 8 = 7 - r" using 1(1) by (simp_all only: div_mult_self2 mod_mult_self2) simp_all
    then show ?thesis unfolding kb using assms 1 by (simp add: load_u32_def swapped_bit)
  next
    case (2 r)
    then have "31 - c = 7 - r + 8 * 2" by simp
    then have "(31 - c) div 8 = 2" "(31 - c) mod 8 = 7 - r" using 2(1) by (simp_all only: div_mult_self2 mod_mult_self2) simp_all
    then show ?thesis unfolding kb using assms 2 by (simp add: load_u32_def swapped_bit)
  next
    case (3 r)
    then have "31 - c = 7 - r + 8 * 1" by simp
    then have "(31 - c) div 8 = 1" "(31 - c) mod 8 = 7 - r" using 3(1) by (simp_all only: div_mult_self2 mod_mult_self2) simp_all
    then show ?thesis unfolding kb using assms 3 by (simp add: load_u32_def swapped_bit)
  next
    case (4 r)
    then have "31 - c = 7 - r + 8 * 0" by simp
    then have "(31 - c) div 8 = 0" "(31 - c) mod 8 = 7 - r" using 4(1) by (simp_all only: div_mult_self2 mod_mult_self2) simp_all
    then show ?thesis unfolding kb using assms 4 by (simp add: load_u32_def swapped_bit)
  qed
qed

lemma clear_lowest_bit:
  fixes m :: "'a::len word"
  assumes "m \<noteq> 0"
  shows "m AND (m - 1) = m AND NOT (push_bit (ctz m) 1)"
proof -
  define k where "k = ctz m"
  define c where "c = m AND NOT (push_bit k 1)"
  have k: "bit m k" "\<And>i. i < k \<Longrightarrow> \<not> bit m i" using ctz_props [OF assms] by (simp_all add: k_def)
  have "c + push_bit k 1 = c OR push_bit k 1"
    by (rule disjunctive_add_eq_or) (rule bit_eqI, simp add: c_def bit_simps)
  also have "\<dots> = m" using k(1) by (intro bit_eqI) (auto simp: c_def bit_simps)
  finally have "m - 1 = c + mask k" by (simp add: mask_eq_exp_minus_1 push_bit_eq_mult)
  also have "\<dots> = c OR mask k"
    by (rule disjunctive_add_eq_or) (rule bit_eqI, use k(2) in \<open>auto simp: c_def bit_simps\<close>)
  finally have "m AND (m - 1) = m AND (c OR mask k)" by simp
  also have "\<dots> = c" using k(2) by (intro bit_eqI) (auto simp: c_def bit_simps)
  finally show ?thesis by (simp add: c_def k_def)
qed

section \<open>One word of the tuple\<close>

lemma key_window_bit:
  assumes "i < 32" "b < 32"
  shows "bit (key_window k0 k1 (of_nat i)) b = (if 31 - i \<le> b then bit k0 (b - (31 - i)) else bit k1 (b + i + 1))"
proof -
  have "unat (31 - of_nat i :: u32) = 31 - i" "unat (of_nat i + 1 :: u32) = i + 1"
    using assms(1) by (simp_all add: unat_sub_le word_le_nat_alt unat_of_nat unat_word_ariths take_bit_nat_eq_self)
  then show ?thesis using assms by (auto simp: key_window_def bit_simps add.commute dest: bit_imp_le_length)
qed


text \<open>What a word of the tuple adds to bit \<open>b\<close>.\<close>

definition word_sum :: "u8 list \<Rightarrow> nat \<Rightarrow> u32 \<Rightarrow> nat \<Rightarrow> nat" where
  "word_sum key j m b = (\<Sum>i < 32. of_bool (bit m i \<and> key_bit key (32 * j + (31 - i) + (31 - b))))"

lemma word_sum_0: "word_sum key j 0 b = 0"
  by (simp add: word_sum_def)

lemma word_sum_step:
  assumes "m \<noteq> 0"
  shows "word_sum key j m b = of_bool (key_bit key (32 * j + (31 - ctz m) + (31 - b))) + word_sum key j (m AND (m - 1)) b"
proof -
  let ?f = "\<lambda>m i. of_bool (bit m i \<and> key_bit key (32 * j + (31 - i) + (31 - b))) :: nat"
  have z: "ctz m < 32" "bit m (ctz m)" using ctz_props [OF assms] by simp_all
  have "(\<Sum>i < 32. ?f m i) = ?f m (ctz m) + sum (?f m) ({..<32} - {ctz m})" using z by (intro sum.remove) simp_all
  moreover have "(\<Sum>i < 32. ?f (m AND (m - 1)) i) = ?f (m AND (m - 1)) (ctz m) + sum (?f (m AND (m - 1))) ({..<32} - {ctz m})"
    using z by (intro sum.remove) simp_all
  moreover have "sum (?f (m AND (m - 1))) ({..<32} - {ctz m}) = sum (?f m) ({..<32} - {ctz m})"
    by (rule sum.cong) (auto simp: clear_lowest_bit [OF assms] bit_simps)
  moreover have "\<not> bit (m AND (m - 1)) (ctz m)" using z by (simp add: clear_lowest_bit [OF assms] bit_simps)
  ultimately show ?thesis using z(2) by (simp add: word_sum_def)
qed

lemma window_of_key:
  assumes "4 * j + 7 < length key" "i < 32"
  shows "\<exists>k0 k1. load_u32 key j = Some k0 \<and> load_u32 key (j + 1) = Some k1 \<and>
    (\<forall>b < 32. bit (key_window (rte_bswap32 k0) (rte_bswap32 k1) (of_nat i)) b = key_bit key (32 * j + (31 - i) + (31 - b)))"
proof -
  have len: "4 * j + 3 < length key" "4 * (j + 1) + 3 < length key" using assms(1) by simp_all
  obtain k0 where k0: "load_u32 key j = Some k0" using swapped_load [OF len(1), of 0] by auto
  obtain k1 where k1: "load_u32 key (j + 1) = Some k1" using swapped_load [OF len(2), of 0] by auto
  have "bit (key_window (rte_bswap32 k0) (rte_bswap32 k1) (of_nat i)) b = key_bit key (32 * j + (31 - i) + (31 - b))"
    if b: "b < 32" for b
  proof (cases "31 - i \<le> b")
    case True
    have "32 * j + (31 - (b - (31 - i))) = 32 * j + (31 - i) + (31 - b)" using True b assms(2) by simp
    then show ?thesis
      using swapped_load [OF len(1), of "b - (31 - i)"] k0 b True by (simp add: key_window_bit [OF assms(2) b])
  next
    case False
    have "32 * (j + 1) + (31 - (b + i + 1)) = 32 * j + (31 - i) + (31 - b)" using False b assms(2) by simp
    then show ?thesis
      using swapped_load [OF len(2), of "b + i + 1"] k1 b False by (simp add: key_window_bit [OF assms(2) b])
  qed
  then show ?thesis using k0 k1 by blast
qed

lemma softrss_bits_sum:
  assumes "4 * j + 7 < length key"
  shows "\<exists>r. softrss_bits key j m ret = Some r \<and> (\<forall>b < 32. bit r b = (bit ret b \<noteq> odd (word_sum key j m b)))"
  using assms
proof (induction key j m ret rule: softrss_bits.induct)
  case (1 key j m ret)
  show ?case
  proof (cases "m = 0")
    case True
    then show ?thesis by (simp add: softrss_bits.simps [of key j 0 ret] word_sum_0)
  next
    case False
    have z: "ctz m < 32" using ctz_props(1) [OF False] by simp
    have i: "rte_bsf32 m = Some (of_nat (ctz m))" using False by (simp add: rte_bsf32_def builtin_ctz_def)
    obtain k0 k1 where k: "load_u32 key j = Some k0" "load_u32 key (j + 1) = Some k1"
      and w: "\<And>b. b < 32 \<Longrightarrow> bit (key_window (rte_bswap32 k0) (rte_bswap32 k1) (of_nat (ctz m))) b =
        key_bit key (32 * j + (31 - ctz m) + (31 - b))"
      using window_of_key [OF 1(2) z] by blast
    let ?ret = "ret XOR key_window (rte_bswap32 k0) (rte_bswap32 k1) (of_nat (ctz m))"
    obtain r where r: "softrss_bits key j (m AND (m - 1)) ?ret = Some r"
      "\<forall>b < 32. bit r b = (bit ?ret b \<noteq> odd (word_sum key j (m AND (m - 1)) b))"
      using 1(1) [OF False i k 1(2)] by blast
    have "bit r b = (bit ret b \<noteq> odd (word_sum key j m b))" if "b < 32" for b
      using r(2) w [OF that] that by (auto simp: word_sum_step [OF False] bit_xor_iff)
    then show ?thesis using r(1) False i k by (auto simp: softrss_bits.simps [of key j m ret])
  qed
qed

section \<open>The whole tuple\<close>

lemma toeplitz_split:
  "(\<Sum>p < 32 * Suc n. of_bool (tuple_bit tuple p \<and> key_bit key (p + (31 - b))) :: nat) =
   (\<Sum>p < 32 * n. of_bool (tuple_bit tuple p \<and> key_bit key (p + (31 - b)))) + word_sum key n (tuple ! n) b"
proof -
  let ?g = "\<lambda>p. of_bool (tuple_bit tuple p \<and> key_bit key (p + (31 - b))) :: nat"
  have bit: "tuple_bit tuple (32 * n + q) = bit (tuple ! n) (31 - q)" if "q < 32" for q
    using that by (simp add: tuple_bit_def)
  have "sum ?g {..<32 * Suc n} = sum ?g {..<32 * n} + (\<Sum>q < 32. ?g (32 * n + q))"
    using sum.nat_group [of ?g 32 1] sum.atLeastLessThan_concat [of 0 "32 * n" "32 * Suc n" ?g]
      sum.shift_bounds_nat_ivl [of ?g 0 "32 * n" 32] by (simp add: lessThan_atLeast0 add.commute)
  also have "(\<Sum>q < 32. ?g (32 * n + q)) = (\<Sum>q < 32. ?g (32 * n + (32 - Suc q)))"
    using sum.nat_diff_reindex [of "\<lambda>q. ?g (32 * n + q)" 32] by simp
  also have "\<dots> = word_sum key n (tuple ! n) b"
    unfolding word_sum_def
  proof (rule sum.cong)
    fix q :: nat
    assume "q \<in> {..<32}"
    then have "31 - (31 - q) = q" "32 - Suc q = 31 - q" by simp_all
    moreover have "tuple_bit tuple (32 * n + (31 - q)) = bit (tuple ! n) (31 - (31 - q))" by (rule bit) simp
    ultimately show "?g (32 * n + (32 - Suc q)) = of_bool (bit (tuple ! n) q \<and> key_bit key (32 * n + (31 - q) + (31 - b)))"
      by (simp only:)
  qed simp
  finally show ?thesis .
qed

lemma softrss_words_sum:
  assumes "4 * (j + n) + 3 < length key" "j + n \<le> length tuple"
    and "\<forall>b < 32. bit ret b = toeplitz_bit tuple j key b"
  shows "\<exists>r. softrss_words tuple key j n ret = Some r \<and> (\<forall>b < 32. bit r b = toeplitz_bit tuple (j + n) key b)"
  using assms
proof (induction n arbitrary: j ret)
  case 0
  then show ?case by simp
next
  case (Suc n)
  obtain r where r: "softrss_bits key j (tuple ! j) ret = Some r"
    "\<forall>b < 32. bit r b = (bit ret b \<noteq> odd (word_sum key j (tuple ! j) b))"
    using softrss_bits_sum [of j key "tuple ! j" ret] Suc.prems(1) by auto
  have "\<forall>b < 32. bit r b = toeplitz_bit tuple (Suc j) key b"
    using r(2) Suc.prems(3) unfolding toeplitz_bit_def toeplitz_split by auto
  then obtain r' where "softrss_words tuple key (Suc j) n r = Some r'" "\<forall>b < 32. bit r' b = toeplitz_bit tuple (Suc j + n) key b"
    using Suc.IH [of "Suc j" r] Suc.prems by auto
  then show ?case using r(1) Suc.prems(2) by auto
qed


lemma rte_softrss_sum:
  assumes "4 * unat n + 3 < length key" "unat n \<le> length tuple"
  shows "\<exists>h. rte_softrss tuple n key = Some h \<and> (\<forall>b < 32. bit h b = toeplitz_bit tuple (unat n) key b)"
  using softrss_words_sum [of 0 "unat n" key tuple 0] assms by (auto simp: rte_softrss_def toeplitz_bit_def)

text \<open>C1. The software hash is the Toeplitz hash. For a tuple of \<open>n\<close> words and a key of at least \<open>n + 1\<close>
  words the call returns, and bit \<open>b\<close> of the result is the parity of the set bits of the tuple whose
  window of the key has bit \<open>b\<close> set, bits being counted in the order of the wire.\<close>

theorem rte_softrss_toeplitz:
  assumes "4 * unat n + 3 < length key" "unat n \<le> length tuple"
  shows "\<exists>h. rte_softrss tuple n key = Some h \<and> (\<forall>b < 32. bit h b = toeplitz_bit tuple (unat n) key b)"
  using rte_softrss_sum [OF assms] .

section \<open>The converted key\<close>

lemma load_concat: "load_u32 (concat (map u32_bytes ws)) j = (if j < length ws then Some (ws ! j) else None)"
proof (induction ws arbitrary: j)
  case Nil
  then show ?case by (simp add: load_u32_def)
next
  case (Cons w ws)
  show ?case
  proof (cases j)
    case 0
    have "bytes_u32 (ucast w) (ucast (drop_bit 8 w)) (ucast (drop_bit 16 w)) (ucast (drop_bit 24 w)) = w"
    proof (rule bit_word_eqI)
      fix c
      assume "c < LENGTH(32)"
      then have "c < 32" by simp
      then show "bit (bytes_u32 (ucast w) (ucast (drop_bit 8 w)) (ucast (drop_bit 16 w)) (ucast (drop_bit 24 w))) c = bit w c"
        by (cases rule: byte_cases) (auto simp: bytes_u32_def bit_simps)
    qed
    then show ?thesis using 0 by (simp add: load_u32_def u32_bytes_def)
  next
    case (Suc k)
    have "load_u32 (u32_bytes w @ bs) (Suc k) = load_u32 bs k" for bs
      by (simp add: load_u32_def u32_bytes_def add.commute)
    then show ?thesis using Suc Cons.IH [of k] by simp
  qed
qed

lemma convert_words_exact:
  assumes "i + n \<le> length orig" "length targ = length orig"
  shows "\<exists>t. convert_words orig targ i n = Some t \<and> length t = length orig \<and>
    (\<forall>k < length orig. t ! k = (if i \<le> k \<and> k < i + n then rte_bswap32 (orig ! k) else targ ! k))"
  using assms
proof (induction n arbitrary: i targ)
  case (Suc n)
  then obtain t where "convert_words orig (targ[i := rte_bswap32 (orig ! i)]) (Suc i) n = Some t" "length t = length orig"
    "\<forall>k < length orig. t ! k = (if Suc i \<le> k \<and> k < Suc i + n then rte_bswap32 (orig ! k) else targ[i := rte_bswap32 (orig ! i)] ! k)"
    by (metis add_Suc_shift length_list_update)
  then show ?case using Suc.prems by (auto simp: nth_list_update intro: arg_cong [of _ _ "\<lambda>x. rte_bswap32 (orig ! x)"])
qed auto

lemma be_bits_eq:
  assumes "length t = length ws" "\<forall>k < length ws. t ! k = rte_bswap32 (ws ! k)"
  shows "softrss_be_bits (concat (map u32_bytes t)) j m ret = softrss_bits (concat (map u32_bytes ws)) j m ret"
proof (induction m arbitrary: ret rule: measure_induct_rule [of unat])
  case (less m)
  show ?case
  proof (cases "m = 0")
    case True
    then show ?thesis by (simp add: softrss_be_bits.simps [of _ j 0] softrss_bits.simps [of _ j 0])
  next
    case False
    then show ?thesis using less [OF clear_lowest_less [OF False]] assms
      by (simp add: softrss_be_bits.simps [of _ j m] softrss_bits.simps [of _ j m] load_concat split: Option.bind_split)
  qed
qed

lemma be_words_eq:
  assumes "length t = length ws" "\<forall>k < length ws. t ! k = rte_bswap32 (ws ! k)"
  shows "softrss_be_words tuple (concat (map u32_bytes t)) j n ret = softrss_words tuple (concat (map u32_bytes ws)) j n ret"
  by (induction n arbitrary: j ret) (simp_all add: be_bits_eq [OF assms] split: Option.bind_split)

text \<open>With a key converted by \<open>rte_convert_rss_key\<close>, \<open>rte_softrss_be\<close> computes for every tuple what
  \<open>rte_softrss\<close> computes with the key itself, and reads behind the one exactly where it reads behind the
  other. The length counts bytes; converting twice gives the key back.\<close>

theorem rte_softrss_be_converted:
  assumes "length targ = length orig" "0 \<le> len" "nat len div 4 = length orig"
  shows "\<exists>t. rte_convert_rss_key orig targ len = Some t \<and> rte_convert_rss_key t orig len = Some orig \<and>
    (\<forall>tuple n. rte_softrss_be tuple n (concat (map u32_bytes t)) = rte_softrss tuple n (concat (map u32_bytes orig)))"
proof -
  have n: "nat (drop_bit 2 len) = length orig"
    using assms(2,3) by (simp add: drop_bit_eq_div nat_div_distrib)
  obtain t where t: "convert_words orig targ 0 (length orig) = Some t" "length t = length orig"
    "\<forall>k < length orig. t ! k = rte_bswap32 (orig ! k)"
    using convert_words_exact [of 0 "length orig" orig targ] assms(1) by auto
  obtain u where u: "convert_words t orig 0 (length orig) = Some u" "length u = length orig"
    "\<forall>k < length orig. u ! k = rte_bswap32 (t ! k)"
    using convert_words_exact [of 0 "length orig" t orig] unfolding t(2) by auto
  have "u = orig"
  proof (rule nth_equalityI)
    fix k
    assume "k < length u"
    then have "k < length orig" "k < length t" by (simp_all add: u(2) t(2))
    then have "u ! k = rte_bswap32 (t ! k)" "t ! k = rte_bswap32 (orig ! k)" using u(3) t(3) by blast+
    then show "u ! k = orig ! k" by (simp only: swap_swap)
  qed (rule u(2))
  then have "rte_convert_rss_key orig targ len = Some t \<and> rte_convert_rss_key t orig len = Some orig"
    using t(1) u(1) by (simp add: rte_convert_rss_key_def n)
  moreover have "rte_softrss_be tuple n (concat (map u32_bytes t)) = rte_softrss tuple n (concat (map u32_bytes orig))" for tuple n
    unfolding rte_softrss_be_def rte_softrss_def by (rule be_words_eq [OF t(2,3)])
  ultimately show ?thesis by blast
qed

section \<open>IPv6 addresses\<close>

lemma swap_mask: "rte_thash_ipv6_bswap_mask = [3, 2, 1, 0, 7, 6, 5, 4, 11, 10, 9, 8, 15, 14, 13, 12]"
  by (simp add: rte_thash_ipv6_bswap_mask_def u64_bytes_def u32_bytes_def)

lemma shuffled: "mm_shuffle_epi8 a rte_thash_ipv6_bswap_mask =
    [a ! 3, a ! 2, a ! 1, a ! 0, a ! 7, a ! 6, a ! 5, a ! 4, a ! 11, a ! 10, a ! 9, a ! 8, a ! 15, a ! 14, a ! 13, a ! 12]"
  by (simp add: swap_mask mm_shuffle_epi8_def)


lemma v6_words:
  assumes "length src = 16" "length dst = 16" "rte_thash_load_v6_addrs src dst = Some bs" "p < 256"
  shows "tuple_bit (tuple_words bs) p = key_bit (src @ dst) p"
proof -
  obtain i q where i: "p = 32 * i + q" "q < 32" "i < 8"
    using assms(4) that [of "p div 32" "p mod 32"] by auto
  obtain c where c: "q = 31 - c" "c < 32" using i(2) that [of "31 - q"] by auto
  have bs: "bs = mm_shuffle_epi8 src rte_thash_ipv6_bswap_mask @ mm_shuffle_epi8 dst rte_thash_ipv6_bswap_mask"
    using assms by (simp add: rte_thash_load_v6_addrs_def)
  have len: "length bs = 32" by (simp add: bs shuffled)
  define w where "w = bytes_u32 ((src @ dst) ! (4 * i)) ((src @ dst) ! (4 * i + 1)) ((src @ dst) ! (4 * i + 2)) ((src @ dst) ! (4 * i + 3))"
  consider "i = 0" | "i = 1" | "i = 2" | "i = 3" | "i = 4" | "i = 5" | "i = 6" | "i = 7" using i(3) by linarith
  then have "tuple_words bs ! i = bytes_u32 ((src @ dst) ! (4 * i + 3)) ((src @ dst) ! (4 * i + 2)) ((src @ dst) ! (4 * i + 1)) ((src @ dst) ! (4 * i))"
    using assms(1,2) by cases (simp_all add: tuple_words_def len bs shuffled nth_append, simp_all only: numeral_2_eq_2)
  moreover have "bit (rte_bswap32 w) c = key_bit (src @ dst) p"
    using swapped_load [of i "src @ dst" c] assms(1,2) i c by (auto simp: w_def load_u32_def)
  moreover have "rte_bswap32 w = bytes_u32 ((src @ dst) ! (4 * i + 3)) ((src @ dst) ! (4 * i + 2)) ((src @ dst) ! (4 * i + 1)) ((src @ dst) ! (4 * i))"
    unfolding w_def
  proof (rule bit_word_eqI)
    fix k
    assume "k < LENGTH(32)"
    then have "k < 32" by simp
    then show "bit (rte_bswap32 (bytes_u32 ((src @ dst) ! (4 * i)) ((src @ dst) ! (4 * i + 1)) ((src @ dst) ! (4 * i + 2)) ((src @ dst) ! (4 * i + 3)))) k =
      bit (bytes_u32 ((src @ dst) ! (4 * i + 3)) ((src @ dst) ! (4 * i + 2)) ((src @ dst) ! (4 * i + 1)) ((src @ dst) ! (4 * i))) k"
      unfolding swapped_bit [OF \<open>k < 32\<close>]
      by (cases rule: byte_cases) (auto simp: bytes_u32_def bit_simps dest: bit_imp_le_length)
  qed
  moreover have "p div 32 = i" "31 - p mod 32 = c" using i(1) c by (simp_all only: div_mult_self4 mod_mult_self4) simp_all
  then have "tuple_bit (tuple_words bs) p = bit (tuple_words bs ! i) c"
    by (simp add: tuple_bit_def)
  ultimately show ?thesis by simp
qed

text \<open>C24. The hash of an IPv6 packet. When the addresses of a packet are loaded by
  \<open>rte_thash_load_v6_addrs\<close> and the tuple of eight words is hashed, bit \<open>b\<close> of the result is the parity
  of the bits of the two addresses, as they stand in the packet, whose key window has bit \<open>b\<close> set: what
  a network card computes from the bytes of the packet.\<close>

theorem rte_softrss_ipv6:
  assumes "length src = 16" "length dst = 16" "36 \<le> length key"
  shows "\<exists>bs h. rte_thash_load_v6_addrs src dst = Some bs \<and> rte_softrss (tuple_words bs) 8 key = Some h \<and>
    (\<forall>b < 32. bit h b = odd (\<Sum>p < 256. of_bool (key_bit (src @ dst) p \<and> key_bit key (p + (31 - b))) :: nat))"
proof -
  obtain bs where bs: "rte_thash_load_v6_addrs src dst = Some bs" using assms by (simp add: rte_thash_load_v6_addrs_def)
  then have "length bs = 32" using assms by (auto simp: rte_thash_load_v6_addrs_def shuffled)
  then have len: "length (tuple_words bs) = 8" by (simp add: tuple_words_def)
  obtain h where h: "rte_softrss (tuple_words bs) 8 key = Some h" "\<forall>b < 32. bit h b = toeplitz_bit (tuple_words bs) (unat (8 :: u32)) key b"
    using rte_softrss_sum [of 8 key "tuple_words bs"] assms(3) len by auto
  have "toeplitz_bit (tuple_words bs) 8 key b = odd (\<Sum>p < 256. of_bool (key_bit (src @ dst) p \<and> key_bit key (p + (31 - b))) :: nat)" for b
    unfolding toeplitz_bit_def using v6_words [OF assms(1,2) bs] by (intro arg_cong [of _ _ odd] sum.cong) simp_all
  then show ?thesis using bs h by auto
qed


definition ex_key :: "u8 list" where "ex_key = [0x6d, 0x5a, 0x56, 0xda, 0x25, 0x5b, 0x0e, 0xc2]"

theorem rte_softrss_toeplitz_witness:
  "\<exists>h. rte_softrss [0x80000001] 1 ex_key = Some h \<and> (\<forall>b < 32. bit h b = toeplitz_bit [0x80000001] 1 ex_key b)"
  using rte_softrss_toeplitz [of 1 ex_key "[0x80000001]"] by (simp add: ex_key_def)

theorem rte_softrss_be_converted_witness:
  "\<exists>t. rte_convert_rss_key [0xda565a6d, 0xc20e5b25] [0, 0] 8 = Some t \<and> rte_convert_rss_key t [0xda565a6d, 0xc20e5b25] 8 = Some [0xda565a6d, 0xc20e5b25]"
  using rte_softrss_be_converted [of "[0, 0]" "[0xda565a6d, 0xc20e5b25]" 8] by auto

theorem rte_softrss_ipv6_witness:
  "\<exists>bs h. rte_thash_load_v6_addrs (replicate 16 1) (replicate 16 2) = Some bs \<and> rte_softrss (tuple_words bs) 8 (replicate 40 0x6d) = Some h"
  using rte_softrss_ipv6 [of "replicate 16 1" "replicate 16 2" "replicate 40 0x6d"] by auto

end
