(* ===== verification/Rte_Lpm.thy ===== *)
theory Rte_Lpm
  imports Prelude "HOL-Library.Monad_Syntax"
begin

text \<open>
  Route lookup of rte\_lpm.h: a table of 2^24 entries for the upper 24 bits of an address, and groups of
  256 entries for the lower 8, whose number was chosen when the table was made. \<open>None\<close> is a read behind
  the groups.
\<close>

section \<open>Tables\<close>

record rte_lpm =
  tbl24 :: "nat \<Rightarrow> u32"
  tbl8 :: "u32 list"

abbreviation (input) RTE_LPM_VALID_EXT_ENTRY_BITMASK :: u32 where "RTE_LPM_VALID_EXT_ENTRY_BITMASK \<equiv> 0x03000000"
abbreviation (input) RTE_LPM_LOOKUP_SUCCESS :: u32 where "RTE_LPM_LOOKUP_SUCCESS \<equiv> 0x01000000"
abbreviation (input) RTE_LPM_MASKX4_RES :: u64 where "RTE_LPM_MASKX4_RES \<equiv> 0x00ffffff00ffffff"

text \<open>The bit fields of an entry, first field lowest.\<close>

record rte_lpm_tbl_entry =
  next_hop :: u32
  valid :: bool
  valid_group :: bool
  depth :: u32

definition entry_word :: "rte_lpm_tbl_entry \<Rightarrow> u32" where
  "entry_word e = next_hop e AND mask 24 OR push_bit 24 (of_bool (valid e)) OR push_bit 25 (of_bool (valid_group e)) OR
     push_bit 26 (depth e AND mask 6)"

definition tbl8_load :: "rte_lpm \<Rightarrow> u32 \<Rightarrow> u32 option" where
  "tbl8_load lpm i = (if unat i < length (tbl8 lpm) then Some (tbl8 lpm ! unat i) else None)"

section \<open>Single and bulk lookups\<close>

definition rte_lpm_lookup :: "rte_lpm \<Rightarrow> u32 \<Rightarrow> (int \<times> u32) option" where
  "rte_lpm_lookup lpm ip = do {
     let tbl24_index = drop_bit 8 ip;
     let tbl_entry = tbl24 lpm (unat tbl24_index);
     tbl_entry \<leftarrow> (if tbl_entry AND RTE_LPM_VALID_EXT_ENTRY_BITMASK = RTE_LPM_VALID_EXT_ENTRY_BITMASK
       then tbl8_load lpm (ucast (ucast ip :: u8) + (tbl_entry AND 0x00FFFFFF) * 256)
       else Some tbl_entry);
     Some (if tbl_entry AND RTE_LPM_LOOKUP_SUCCESS \<noteq> 0 then 0 else - ENOENT, tbl_entry AND 0x00FFFFFF)
   }"

text \<open>The bulk lookup stores whole entries, flags included.\<close>

fun lookup_bulk_from :: "rte_lpm \<Rightarrow> u32 list \<Rightarrow> u32 list \<Rightarrow> nat \<Rightarrow> nat \<Rightarrow> u32 list option" where
  "lookup_bulk_from lpm ips next_hops i 0 = Some next_hops"
| "lookup_bulk_from lpm ips next_hops i (Suc n) =
     (if i < length ips \<and> i < length next_hops then do {
        let tbl24_index = drop_bit 8 (ips ! i);
        let tbl_entry = tbl24 lpm (unat tbl24_index);
        tbl_entry \<leftarrow> (if tbl_entry AND RTE_LPM_VALID_EXT_ENTRY_BITMASK = RTE_LPM_VALID_EXT_ENTRY_BITMASK
          then tbl8_load lpm (ucast (ucast (ips ! i) :: u8) + (tbl_entry AND 0x00FFFFFF) * 256)
          else Some tbl_entry);
        lookup_bulk_from lpm ips (next_hops[i := tbl_entry]) (Suc i) n
      } else None)"

definition rte_lpm_lookup_bulk_func :: "rte_lpm \<Rightarrow> u32 list \<Rightarrow> u32 list \<Rightarrow> u32 \<Rightarrow> (int \<times> u32 list) option" where
  "rte_lpm_lookup_bulk_func lpm ips next_hops n = map_option (Pair 0) (lookup_bulk_from lpm ips next_hops 0 (unat n))"

section \<open>Four lookups at once\<close>

text \<open>A vector register of four 32-bit lanes, lowest first, and the four vector instructions used.\<close>

type_synonym xmm_t = "u32 \<times> u32 \<times> u32 \<times> u32"

definition mm_srli_epi32 :: "xmm_t \<Rightarrow> nat \<Rightarrow> xmm_t" where
  "mm_srli_epi32 x n = (case x of (a, b, c, d) \<Rightarrow> (drop_bit n a, drop_bit n b, drop_bit n c, drop_bit n d))"

definition mm_and_si128 :: "xmm_t \<Rightarrow> xmm_t \<Rightarrow> xmm_t" where
  "mm_and_si128 x y = (case (x, y) of ((a, b, c, d), (a', b', c', d')) \<Rightarrow> (a AND a', b AND b', c AND c', d AND d'))"

definition pair_u64 :: "u32 \<Rightarrow> u32 \<Rightarrow> u64" where
  "pair_u64 lo hi = ucast lo OR push_bit 32 (ucast hi)"

definition mm_cvtsi128_si64 :: "xmm_t \<Rightarrow> u64" where
  "mm_cvtsi128_si64 x = (case x of (a, b, c, d) \<Rightarrow> pair_u64 a b)"

definition mm_srli_si128_8 :: "xmm_t \<Rightarrow> xmm_t" where
  "mm_srli_si128_8 x = (case x of (a, b, c, d) \<Rightarrow> (c, d, 0, 0))"

definition lookup_ext :: "rte_lpm \<Rightarrow> bool \<Rightarrow> u32 \<Rightarrow> u32 \<Rightarrow> u32 option" where
  "lookup_ext lpm ext i8 entry = (if ext then tbl8_load lpm (i8 + (entry AND 0x00FFFFFF) * 256) else Some entry)"

definition hop_of :: "u32 \<Rightarrow> u32 \<Rightarrow> u32" where
  "hop_of defv entry = (if entry AND RTE_LPM_LOOKUP_SUCCESS \<noteq> 0 then entry AND 0x00FFFFFF else defv)"

definition rte_lpm_lookupx4 :: "rte_lpm \<Rightarrow> xmm_t \<Rightarrow> u32 \<Rightarrow> u32 list option" where
  "rte_lpm_lookupx4 lpm ip defv = (let
     mask8 = (0xff, 0xff, 0xff, 0xff);
     mask_xv = ucast RTE_LPM_VALID_EXT_ENTRY_BITMASK OR push_bit 32 (ucast RTE_LPM_VALID_EXT_ENTRY_BITMASK) :: u64;
     mask_v = ucast RTE_LPM_LOOKUP_SUCCESS OR push_bit 32 (ucast RTE_LPM_LOOKUP_SUCCESS) :: u64;
     i24 = mm_srli_epi32 ip 8;
     idx = mm_cvtsi128_si64 i24;
     t0 = tbl24 lpm (unat (ucast idx :: u32));
     t1 = tbl24 lpm (unat (drop_bit 32 idx));
     i24 = mm_srli_si128_8 i24;
     idx = mm_cvtsi128_si64 i24;
     t2 = tbl24 lpm (unat (ucast idx :: u32));
     t3 = tbl24 lpm (unat (drop_bit 32 idx));
     (i0, i1, i2, i3) = mm_and_si128 ip mask8;
     pt = pair_u64 t0 t1;
     pt2 = pair_u64 t2 t3;
     ext = ucast RTE_LPM_VALID_EXT_ENTRY_BITMASK :: u64
   in
     if pt AND mask_xv = mask_v \<and> pt2 AND mask_xv = mask_v then
       (let r = pt AND RTE_LPM_MASKX4_RES; r2 = pt2 AND RTE_LPM_MASKX4_RES
        in Some [ucast r, ucast (drop_bit 32 r), ucast r2, ucast (drop_bit 32 r2)])
     else do {
       t0 \<leftarrow> lookup_ext lpm (pt AND ext = ext) i0 t0;
       t1 \<leftarrow> lookup_ext lpm (drop_bit 32 pt AND ext = ext) i1 t1;
       t2 \<leftarrow> lookup_ext lpm (pt2 AND ext = ext) i2 t2;
       t3 \<leftarrow> lookup_ext lpm (drop_bit 32 pt2 AND ext = ext) i3 t3;
       Some [hop_of defv t0, hop_of defv t1, hop_of defv t2, hop_of defv t3]
     })"

end
