(* ===== verification/Rte_Lpm_Correct.thy ===== *)
theory Rte_Lpm_Correct
  imports Rte_Lpm
begin

text \<open>
  The lookup follows the bit fields of the entries, and the bulk and vector variants agree with it.
\<close>

section \<open>Masks and halves\<close>

lemma pair_halves: "ucast (pair_u64 a b) = a" "ucast (drop_bit 32 (pair_u64 a b)) = b"
    "unat (drop_bit 32 (pair_u64 a b)) = unat b" "drop_bit 32 (pair_u64 a b) = ucast b"
proof -
  show "ucast (pair_u64 a b) = a" by (rule bit_word_eqI) (auto simp: pair_u64_def bit_simps)
  show eq: "drop_bit 32 (pair_u64 a b) = ucast b"
    by (rule bit_word_eqI) (auto simp: pair_u64_def bit_simps dest: bit_imp_le_length)
  have b: "unat b < 2 ^ 64" by (rule less_trans [OF unsigned_less]) simp
  show "unat (drop_bit 32 (pair_u64 a b)) = unat b" unfolding eq using b by (simp add: unsigned_ucast_eq take_bit_nat_eq_self)
  show "ucast (drop_bit 32 (pair_u64 a b)) = b" unfolding eq by (rule bit_word_eqI) (auto simp: bit_simps)
qed

lemma pair_and: "pair_u64 a b AND pair_u64 c d = pair_u64 (a AND c) (b AND d)"
  by (rule bit_word_eqI) (auto simp: pair_u64_def bit_simps dest: bit_imp_le_length)

lemma pair_eq: "pair_u64 a b = pair_u64 c d \<longleftrightarrow> a = c \<and> b = d"
  by (metis pair_halves(1,2))

lemma pair_ext:
  "pair_u64 a b AND ucast m = ucast m \<longleftrightarrow> a AND m = m" "drop_bit 32 (pair_u64 a b) AND ucast m = ucast m \<longleftrightarrow> b AND m = m"
proof -
  have low: "(ucast m :: u64) = pair_u64 m 0" for m :: u32 by (simp add: pair_u64_def)
  show "pair_u64 a b AND ucast m = ucast m \<longleftrightarrow> a AND m = m" by (simp add: low pair_and pair_eq)
  show "drop_bit 32 (pair_u64 a b) AND ucast m = ucast m \<longleftrightarrow> b AND m = m"
    by (simp add: pair_halves(4)) (simp add: low pair_and pair_eq)
qed

lemma ext_masks: "(0x03000000 :: u32) = push_bit 24 (mask 2)" "(0x01000000 :: u32) = push_bit 24 (mask 1)" "(0x00FFFFFF :: u32) = mask 24"
  "(0xff :: u32) = mask 8"
  by (simp_all add: mask_eq_exp_minus_1 push_bit_eq_mult)


lemma ext_bits: "w AND 0x03000000 = 0x03000000 \<longleftrightarrow> bit w 24 \<and> bit w 25" for w :: u32
proof
  assume "w AND 0x03000000 = 0x03000000"
  then have "bit (w AND 0x03000000) 24 = bit (0x03000000 :: u32) 24" "bit (w AND 0x03000000) 25 = bit (0x03000000 :: u32) 25" by simp_all
  then show "bit w 24 \<and> bit w 25" by (simp_all add: bit_and_iff)
next
  assume w: "bit w 24 \<and> bit w 25"
  have "n = 24 \<or> n = 25" if "24 \<le> n" "n - 24 < 2" for n :: nat using that by auto
  then show "w AND 0x03000000 = 0x03000000"
    unfolding ext_masks by (intro bit_word_eqI) (use w in \<open>auto simp: bit_simps\<close>)
qed

lemma valid_bit: "w AND 0x01000000 = 0 \<longleftrightarrow> \<not> bit w 24" for w :: u32
  using and_exp_eq_0_iff_not_bit [of w 24] by simp

lemma entry_fields:
  "entry_word e AND 0x03000000 = 0x03000000 \<longleftrightarrow> valid e \<and> valid_group e"
  "entry_word e AND 0x01000000 \<noteq> 0 \<longleftrightarrow> valid e"
  "entry_word e AND 0x00FFFFFF = next_hop e AND mask 24"
proof -
  have v: "bit (entry_word e) 24 = valid e" and g: "bit (entry_word e) 25 = valid_group e"
    by (simp_all add: entry_word_def bit_simps)
  show "entry_word e AND 0x03000000 = 0x03000000 \<longleftrightarrow> valid e \<and> valid_group e" using ext_bits v g by simp
  show "entry_word e AND 0x01000000 \<noteq> 0 \<longleftrightarrow> valid e" using valid_bit v by simp
  show "entry_word e AND 0x00FFFFFF = next_hop e AND mask 24"
    unfolding ext_masks by (rule bit_word_eqI) (auto simp: entry_word_def bit_simps)
qed

text \<open>Every word is an entry, so that the next theorem speaks about all tables.\<close>

lemma entry_word_surj: "entry_word \<lparr>next_hop = w AND mask 24, valid = bit w 24, valid_group = bit w 25, depth = drop_bit 26 w\<rparr> = w"
proof (rule bit_word_eqI)
  fix n
  assume "n < LENGTH(32)"
  then consider "n < 24" | "n = 24" | "n = 25" | "26 \<le> n" "n < 32" by fastforce
  then show "bit (entry_word \<lparr>next_hop = w AND mask 24, valid = bit w 24, valid_group = bit w 25, depth = drop_bit 26 w\<rparr>) n = bit w n"
    by cases (auto simp: entry_word_def bit_simps)
qed

section \<open>The single lookup\<close>

definition lpm_of :: "(nat \<Rightarrow> rte_lpm_tbl_entry) \<Rightarrow> rte_lpm_tbl_entry list \<Rightarrow> rte_lpm" where
  "lpm_of t24 t8 = \<lparr>tbl24 = \<lambda>i. entry_word (t24 i), tbl8 = map entry_word t8\<rparr>"

definition entry_result :: "rte_lpm_tbl_entry \<Rightarrow> int \<times> u32" where
  "entry_result e = (if valid e then 0 else - ENOENT, next_hop e AND mask 24)"

lemma group_index:
  fixes ip h :: u32
  shows "unat (ucast (ucast ip :: u8) + (h AND mask 24) * 256 :: u32) = unat (h AND mask 24) * 256 + unat ip mod 256"
proof -
  have h: "unat (h AND mask 24) < 2 ^ 24" by (simp add: unat_and_mask)
  have ip: "unat (ucast (ucast ip :: u8) :: u32) = unat ip mod 256"
  proof -
    have "(ucast (ucast ip :: u8) :: u32) = ip AND mask 8" by (rule bit_word_eqI) (auto simp: bit_simps)
    then show ?thesis by (simp add: unat_and_mask)
  qed
  have m: "unat ((h AND mask 24) * 256) = unat (h AND mask 24) * 256" using h by (simp add: unat_word_ariths)
  show ?thesis using h unfolding unat_word_ariths(1) m ip by simp
qed

text \<open>The lookup follows the bit fields. For an address it takes the entry of its upper 24 bits; if
  that is valid and names a group, the entry of its lower 8 bits in that group of 256, and the result is
  that entry's next hop, with an error when it is not valid. A group that the second table does not have
  is the only way to read behind it.\<close>

theorem rte_lpm_lookup_exact:
  "rte_lpm_lookup (lpm_of t24 t8) ip = (let e = t24 (unat ip div 256) in
     if valid e \<and> valid_group e then
       (let j = unat (next_hop e AND mask 24) * 256 + unat ip mod 256 in if j < length t8 then Some (entry_result (t8 ! j)) else None)
     else Some (entry_result e))"
proof -
  have "unat (drop_bit 8 ip) = unat ip div 256" by (simp add: drop_bit_eq_div unat_div)
  then show ?thesis
    by (simp add: rte_lpm_lookup_def lpm_of_def entry_fields tbl8_load_def group_index entry_result_def Let_def)
qed

section \<open>The other lookups\<close>

definition same_hop :: "(int \<times> u32) option \<Rightarrow> u32 \<Rightarrow> bool" where
  "same_hop r e \<longleftrightarrow> r = Some (if e AND RTE_LPM_LOOKUP_SUCCESS \<noteq> 0 then 0 else - ENOENT, e AND 0x00FFFFFF)"

lemma bulk_from:
  assumes "i + n \<le> length ips" "i + n \<le> length hops"
  shows "case lookup_bulk_from lpm ips hops i n of
      None \<Rightarrow> \<exists>k. i \<le> k \<and> k < i + n \<and> rte_lpm_lookup lpm (ips ! k) = None
    | Some hops' \<Rightarrow> length hops' = length hops \<and> (\<forall>k < length hops.
        if i \<le> k \<and> k < i + n then same_hop (rte_lpm_lookup lpm (ips ! k)) (hops' ! k) else hops' ! k = hops ! k)"
  using assms
proof (induction n arbitrary: i hops)
  case 0
  then show ?case by auto
next
  case (Suc n)
  define e where "e = (let tbl_entry = tbl24 lpm (unat (drop_bit 8 (ips ! i)))
    in if tbl_entry AND RTE_LPM_VALID_EXT_ENTRY_BITMASK = RTE_LPM_VALID_EXT_ENTRY_BITMASK
       then tbl8_load lpm (ucast (ucast (ips ! i) :: u8) + (tbl_entry AND 0x00FFFFFF) * 256) else Some tbl_entry)"
  have single: "rte_lpm_lookup lpm (ips ! i) = map_option (\<lambda>e. (if e AND RTE_LPM_LOOKUP_SUCCESS \<noteq> 0 then 0 else - ENOENT, e AND 0x00FFFFFF)) e"
    unfolding rte_lpm_lookup_def e_def Let_def by (cases "tbl24 lpm (unat (drop_bit 8 (ips ! i))) AND 0x03000000 = 0x03000000")
      (simp_all add: map_conv_bind_option comp_def)
  have step: "lookup_bulk_from lpm ips hops i (Suc n) = Option.bind e (\<lambda>e. lookup_bulk_from lpm ips (hops[i := e]) (Suc i) n)"
    using Suc.prems by (simp add: e_def Let_def)
  show ?case
  proof (cases e)
    case None
    then show ?thesis using single by (auto simp: step intro!: exI [of _ i] simp del: lookup_bulk_from.simps)
  next
    case (Some w)
    have IH: "case lookup_bulk_from lpm ips (hops[i := w]) (Suc i) n of
        None \<Rightarrow> \<exists>k. Suc i \<le> k \<and> k < Suc i + n \<and> rte_lpm_lookup lpm (ips ! k) = None
      | Some hops' \<Rightarrow> length hops' = length hops \<and> (\<forall>k < length hops.
        if Suc i \<le> k \<and> k < Suc i + n then same_hop (rte_lpm_lookup lpm (ips ! k)) (hops' ! k) else hops' ! k = hops[i := w] ! k)"
      using Suc.IH [of "Suc i" "hops[i := w]"] Suc.prems by (simp only: length_list_update)
    show ?thesis
    proof (cases "lookup_bulk_from lpm ips (hops[i := w]) (Suc i) n")
      case None
      then show ?thesis using IH Some by (auto simp: step dest: Suc_leD simp del: lookup_bulk_from.simps)
    next
      case (Some hops')
      have "same_hop (rte_lpm_lookup lpm (ips ! i)) w" using single \<open>e = Some w\<close> by (simp add: same_hop_def)
      moreover have "k = i \<or> Suc i \<le> k \<longleftrightarrow> i \<le> k" for k by auto
      ultimately show ?thesis using IH Some \<open>e = Some w\<close> Suc.prems
        by (auto simp: step nth_list_update not_less_eq_eq simp del: lookup_bulk_from.simps split: if_splits dest: le_antisym)
    qed
  qed
qed


text \<open>C2. The bulk lookup is the lookup of each address. When the arrays are long enough it returns 0,
  writes exactly the first \<open>n\<close> results, each with the flags of its entry still in it, and reads behind a
  table only if one of the single lookups does.\<close>

theorem rte_lpm_lookup_bulk_exact:
  assumes "unat n \<le> length ips" "unat n \<le> length hops"
  shows "case rte_lpm_lookup_bulk_func lpm ips hops n of
      None \<Rightarrow> \<exists>k < unat n. rte_lpm_lookup lpm (ips ! k) = None
    | Some (ret, hops') \<Rightarrow> ret = 0 \<and> length hops' = length hops \<and> drop (unat n) hops' = drop (unat n) hops \<and>
        (\<forall>k < unat n. rte_lpm_lookup lpm (ips ! k) =
           Some (if hops' ! k AND RTE_LPM_LOOKUP_SUCCESS \<noteq> 0 then 0 else - ENOENT, hops' ! k AND 0x00FFFFFF))"
proof (cases "lookup_bulk_from lpm ips hops 0 (unat n)")
  case None
  then show ?thesis using bulk_from [of 0 "unat n" ips hops lpm] assms by (auto simp: rte_lpm_lookup_bulk_func_def)
next
  case (Some hops')
  then have hops': "length hops' = length hops" "\<And>k. k < length hops \<Longrightarrow>
      if k < unat n then same_hop (rte_lpm_lookup lpm (ips ! k)) (hops' ! k) else hops' ! k = hops ! k"
    using bulk_from [of 0 "unat n" ips hops lpm] assms by auto
  have "drop (unat n) hops' = drop (unat n) hops"
    by (rule nth_equalityI) (use hops' in \<open>auto split: if_splits\<close>)
  moreover have "same_hop (rte_lpm_lookup lpm (ips ! k)) (hops' ! k)" if "k < unat n" for k
    using hops'(2) [of k] that assms(2) by simp
  ultimately show ?thesis using Some hops'(1) by (simp add: rte_lpm_lookup_bulk_func_def same_hop_def)
qed

theorem rte_lpm_lookup_bulk_exact_witness:
  "rte_lpm_lookup_bulk_func \<lparr>tbl24 = \<lambda>_. 0x01000007, tbl8 = []\<rparr> [1, 2] [0, 0, 9] 2 = Some (0, [0x01000007, 0x01000007, 9]) \<and>
   rte_lpm_lookup \<lparr>tbl24 = \<lambda>_. 0x01000007, tbl8 = []\<rparr> 2 = Some (0, 7)"
proof -
  let ?l = "\<lparr>tbl24 = \<lambda>_. 0x01000007, tbl8 = []\<rparr> :: rte_lpm"
  have r: "rte_lpm_lookup_bulk_func ?l [1, 2] [0, 0, 9] 2 = Some (0, [0x01000007, 0x01000007, 9])"
  proof -
    have "unat (2 :: u32) = Suc (Suc 0)" by simp
    then show ?thesis unfolding rte_lpm_lookup_bulk_func_def by (simp only: lookup_bulk_from.simps) simp
  qed
  have "\<forall>k < unat (2 :: u32). rte_lpm_lookup ?l ([1, 2] ! k) =
      Some (if [0x01000007, 0x01000007, 9] ! k AND RTE_LPM_LOOKUP_SUCCESS \<noteq> 0 then 0 else - ENOENT, [0x01000007, 0x01000007, 9] ! k AND 0x00FFFFFF)"
    using rte_lpm_lookup_bulk_exact [of 2 "[1, 2]" "[0, 0, 9]" ?l] unfolding r by simp
  from this [rule_format, of 1] show ?thesis using r by simp
qed

section \<open>The vector lookup\<close>

text \<open>One lane: what the vector code does with the entry of the first table.\<close>

definition lane :: "rte_lpm \<Rightarrow> u32 \<Rightarrow> u32 \<Rightarrow> u32 option" where
  "lane lpm defv ip = (let t = tbl24 lpm (unat (drop_bit 8 ip))
     in map_option (hop_of defv) (lookup_ext lpm (t AND 0x03000000 = 0x03000000) (ip AND 0xff) t))"

lemma lane_is_lookup: "lane lpm defv ip = map_option (\<lambda>(ret, hop). if ret = 0 then hop else defv) (rte_lpm_lookup lpm ip)"
proof -
  have "ucast (ucast ip :: u8) = ip AND 0xff" unfolding ext_masks by (rule bit_word_eqI) (auto simp: bit_simps)
  then show ?thesis
    by (auto simp: lane_def lookup_ext_def rte_lpm_lookup_def Let_def hop_of_def map_conv_bind_option comp_def
        split: Option.bind_split)
qed

lemma pair_masks:
  "(ucast (0x03000000 :: u32) OR push_bit 32 (ucast (0x03000000 :: u32)) :: u64) = pair_u64 0x03000000 0x03000000"
  "(ucast (0x01000000 :: u32) OR push_bit 32 (ucast (0x01000000 :: u32)) :: u64) = pair_u64 0x01000000 0x01000000"
  "RTE_LPM_MASKX4_RES = pair_u64 0x00ffffff 0x00ffffff"
  by (simp_all only: pair_u64_def) simp

lemma lane_fast:
  assumes "tbl24 lpm (unat (drop_bit 8 ip)) AND 0x03000000 = 0x01000000"
  shows "lane lpm defv ip = Some (tbl24 lpm (unat (drop_bit 8 ip)) AND 0x00ffffff)"
proof -
  let ?t = "tbl24 lpm (unat (drop_bit 8 ip))"
  have "bit (?t AND 0x03000000) 24" unfolding assms by simp
  then have "?t AND 0x01000000 \<noteq> 0" unfolding valid_bit by (simp add: bit_and_iff)
  then show ?thesis using assms by (simp add: lane_def lookup_ext_def hop_of_def)
qed

text \<open>C25. The vector lookup of four addresses gives what four single lookups give, with the default value
  in place of the addresses that have no route, whether all four take the fast way or some need the
  second table; it reads behind a table exactly when one of the four does.\<close>

theorem rte_lpm_lookupx4_exact:
  "rte_lpm_lookupx4 lpm (i0, i1, i2, i3) defv =
     those (map (\<lambda>ip. map_option (\<lambda>(ret, hop). if ret = 0 then hop else defv) (rte_lpm_lookup lpm ip)) [i0, i1, i2, i3])"
proof -
  define t where "t ip = tbl24 lpm (unat (drop_bit 8 ip))" for ip :: u32
  have slow: "do {
       t0 \<leftarrow> lookup_ext lpm (t i0 AND 0x03000000 = 0x03000000) (i0 AND 0xff) (t i0);
       t1 \<leftarrow> lookup_ext lpm (t i1 AND 0x03000000 = 0x03000000) (i1 AND 0xff) (t i1);
       t2 \<leftarrow> lookup_ext lpm (t i2 AND 0x03000000 = 0x03000000) (i2 AND 0xff) (t i2);
       t3 \<leftarrow> lookup_ext lpm (t i3 AND 0x03000000 = 0x03000000) (i3 AND 0xff) (t i3);
       Some [hop_of defv t0, hop_of defv t1, hop_of defv t2, hop_of defv t3]
     } = those [lane lpm defv i0, lane lpm defv i1, lane lpm defv i2, lane lpm defv i3]"
    by (simp add: lane_def t_def [symmetric] split: Option.bind_split option.split)
  have "rte_lpm_lookupx4 lpm (i0, i1, i2, i3) defv = those [lane lpm defv i0, lane lpm defv i1, lane lpm defv i2, lane lpm defv i3]"
  proof (cases "t i0 AND 0x03000000 = 0x01000000 \<and> t i1 AND 0x03000000 = 0x01000000 \<and>
      t i2 AND 0x03000000 = 0x01000000 \<and> t i3 AND 0x03000000 = 0x01000000")
    case True
    then have "those [lane lpm defv i0, lane lpm defv i1, lane lpm defv i2, lane lpm defv i3] =
        Some [t i0 AND 0xffffff, t i1 AND 0xffffff, t i2 AND 0xffffff, t i3 AND 0xffffff]"
      by (simp add: lane_fast t_def)
    then show ?thesis using True
      unfolding rte_lpm_lookupx4_def Let_def pair_masks
      by (simp only: mm_srli_epi32_def mm_cvtsi128_si64_def mm_srli_si128_8_def mm_and_si128_def prod.case pair_halves(1-3)
          t_def [symmetric] pair_and pair_eq simp_thms if_True)
  next
    case False
    then show ?thesis unfolding slow [symmetric]
      unfolding rte_lpm_lookupx4_def Let_def pair_masks
      by (simp only: mm_srli_epi32_def mm_cvtsi128_si64_def mm_srli_si128_8_def mm_and_si128_def prod.case pair_halves(1-3)
          t_def [symmetric] pair_and pair_eq pair_ext simp_thms if_False conj_assoc)
  qed
  then show ?thesis by (simp only: lane_is_lookup list.map)
qed

end
