(* ===== verification/Rte_Stack.thy ===== *)
theory Rte_Stack
  imports Prelude "HOL-Library.Monad_Syntax"
begin

text \<open>
  The stacks of rte\_stack.h: an array under a lock (rte\_stack\_std.h), and two linked lists, of used and
  of free elements, that threads change with compare and swap (rte\_stack\_lf.h, with the list operations
  of rte\_stack\_lf\_generic.h and rte\_stack\_lf\_c11.h).
\<close>

section \<open>The stack in an array\<close>

text \<open>The operations run under the stack's lock, so they are whole steps. \<open>None\<close> is an access behind
  the array.\<close>

record rte_stack_std =
  s_capacity :: u32
  s_len :: u32
  s_objs :: "u64 list"

fun std_store :: "u64 list \<Rightarrow> nat \<Rightarrow> u64 list \<Rightarrow> u64 list option" where
  "std_store objs at [] = Some objs"
| "std_store objs at (x # xs) = (if at < length objs then std_store (objs[at := x]) (Suc at) xs else None)"

definition rte_stack_std_push :: "rte_stack_std \<Rightarrow> u64 list \<Rightarrow> u32 \<Rightarrow> (u32 \<times> rte_stack_std) option" where
  "rte_stack_std_push s obj_table n =
     (if s_len s + n > s_capacity s then Some (0, s)
      else if length obj_table < unat n then None
      else do {
        objs \<leftarrow> std_store (s_objs s) (unat (s_len s)) (take (unat n) obj_table);
        Some (n, s\<lparr>s_objs := objs, s_len := s_len s + n\<rparr>)
      })"

fun std_load :: "u64 list \<Rightarrow> u32 \<Rightarrow> nat \<Rightarrow> u64 list option" where
  "std_load objs len 0 = Some []"
| "std_load objs len (Suc k) =
     (if unat len < length objs then map_option (Cons (objs ! unat len)) (std_load objs (len - 1) k) else None)"

definition rte_stack_std_pop :: "rte_stack_std \<Rightarrow> u32 \<Rightarrow> (u64 list \<times> u32 \<times> rte_stack_std) option" where
  "rte_stack_std_pop s n =
     (if n > s_len s then Some ([], 0, s)
      else do {
        got \<leftarrow> std_load (s_objs s) (s_len s - 1) (unat n);
        Some (got, n, s\<lparr>s_len := s_len s - n\<rparr>)
      })"

definition rte_stack_std_count :: "rte_stack_std \<Rightarrow> u32" where
  "rte_stack_std_count s = s_len s"

definition rte_stack_std_free_count :: "rte_stack_std \<Rightarrow> u32" where
  "rte_stack_std_free_count s = s_capacity s - rte_stack_std_count s"

section \<open>The lock-free stack\<close>

text \<open>Elements are numbered; the head of a list holds its top and a counter that every change of the
  head increments.\<close>

record lf_list =
  l_top :: "nat option"
  l_cnt :: u64
  l_len :: u64

datatype lf_op = Push "u64 list" | Pop nat

definition op_num :: "lf_op \<Rightarrow> nat" where
  "op_num op = (case op of Push objs \<Rightarrow> length objs | Pop n \<Rightarrow> n)"

text \<open>A push takes elements from the free list and puts them on the used list, a pop the other way.\<close>

datatype which = Used | Free

definition from_list :: "lf_op \<Rightarrow> which" where
  "from_list op = (case op of Push _ \<Rightarrow> Free | Pop _ \<Rightarrow> Used)"

definition to_list :: "lf_op \<Rightarrow> which" where
  "to_list op = (case op of Push _ \<Rightarrow> Used | Pop _ \<Rightarrow> Free)"

text \<open>Where a call stands. Heads are two words, read one after the other; a failed compare and swap of a
  head reads both at once. The walk along a list keeps its place, the objects read and the last element.\<close>

datatype lf_pc =
    L_idle
  | L_len lf_op
  | L_cas_len lf_op u64
  | L_top lf_op
  | L_cnt lf_op "nat option"
  | L_walk lf_op "nat option" u64 nat "nat option" "u64 list" "nat option"
  | L_next lf_op "nat option" u64 nat nat "u64 list"
  | L_fill lf_op nat nat nat "nat option" "u64 list"
  | A_top lf_op nat nat "u64 list"
  | A_cnt lf_op nat nat "nat option" "u64 list"
  | A_link lf_op nat nat "nat option" u64 "u64 list"
  | A_swap lf_op nat nat "nat option" u64 "u64 list"
  | A_len lf_op "u64 list"
  | L_done lf_op nat "u64 list"

text \<open>As history, the successful calls in the order in which they took effect, with the thread and the
  objects in the order of the caller's table, and for each thread the calls that have returned success.
  \<open>st_success\<close> is the local variable \<open>success\<close> of the call a thread is in, while it takes elements off a
  list: \<open>None\<close> is an indeterminate value.\<close>

datatype lf_event = E_push nat "u64 list" | E_pop nat "u64 list"

record lf_sys =
  st_data :: "nat \<Rightarrow> u64"
  st_next :: "nat \<Rightarrow> nat option"
  st_used :: lf_list
  st_free :: lf_list
  st_pc :: "nat \<Rightarrow> lf_pc"
  st_success :: "nat \<Rightarrow> int option"
  h_log :: "lf_event list"
  h_rets :: "nat \<Rightarrow> lf_event list"

definition the_list :: "which \<Rightarrow> lf_sys \<Rightarrow> lf_list" where
  "the_list w s = (case w of Used \<Rightarrow> st_used s | Free \<Rightarrow> st_free s)"

definition set_list :: "which \<Rightarrow> lf_list \<Rightarrow> lf_sys \<Rightarrow> lf_sys" where
  "set_list w l s = (case w of Used \<Rightarrow> s\<lparr>st_used := l\<rparr> | Free \<Rightarrow> s\<lparr>st_free := l\<rparr>)"

definition goto :: "nat \<Rightarrow> lf_pc \<Rightarrow> lf_sys \<Rightarrow> lf_sys" where
  "goto t pc s = s\<lparr>st_pc := (st_pc s)(t := pc)\<rparr>"

definition set_success :: "nat \<Rightarrow> int option \<Rightarrow> lf_sys \<Rightarrow> lf_sys" where
  "set_success t v s = s\<lparr>st_success := (st_success s)(t := v)\<rparr>"

definition logged :: "lf_event \<Rightarrow> lf_sys \<Rightarrow> lf_sys" where
  "logged e s = s\<lparr>h_log := h_log s @ [e]\<rparr>"

definition returned :: "nat \<Rightarrow> lf_event \<Rightarrow> lf_sys \<Rightarrow> lf_sys" where
  "returned t e s = s\<lparr>h_rets := (h_rets s)(t := h_rets s t @ [e])\<rparr>"

section \<open>Taking elements off a list\<close>

text \<open>The number of elements is taken from the length first. After a lost race the C11 code looks at the
  length that the failed exchange returned, the generic code loads it again.\<close>

definition pop_elems_len :: "bool \<Rightarrow> nat \<Rightarrow> lf_op \<Rightarrow> lf_sys \<Rightarrow> lf_sys option" where
  "pop_elems_len c11 t op s = (let l = the_list (from_list op) s; num = of_nat (op_num op) in
     case st_pc s t of
       L_len _ \<Rightarrow> Some (goto t (if l_len l < num then L_done op 0 [] else L_cas_len op (l_len l)) s)
     | L_cas_len _ len \<Rightarrow>
         if l_len l = len then Some (goto t (L_top op) (set_list (from_list op) (l\<lparr>l_len := len - num\<rparr>) s))
         else if c11 then Some (goto t (if l_len l < num then L_done op 0 [] else L_cas_len op (l_len l)) s)
         else Some (goto t (L_len op) s)
     | _ \<Rightarrow> None)"

text \<open>A walk that runs off the list goes on to the test \<open>success == 0\<close> of the loop, for another round from a
  fresh head. The generic code has set \<open>success\<close> to 0 before the loop; the C11 code has not, so that its
  value is indeterminate until a swap of the head has failed, and the test is undefined behaviour: no
  step, \<open>None\<close>. A push takes elements without reading their objects. When the head is swapped the elements
  between belong to the thread; a pop takes effect here. A failed swap sets \<open>success\<close> to 0.\<close>

definition pop_elems_head :: "nat \<Rightarrow> lf_op \<Rightarrow> lf_sys \<Rightarrow> lf_sys option" where
  "pop_elems_head t op s = (let l = the_list (from_list op) s in
     case st_pc s t of
       L_top _ \<Rightarrow> Some (goto t (L_cnt op (l_top l)) s)
     | L_cnt _ tp \<Rightarrow> Some (goto t (L_walk op tp (l_cnt l) 0 tp [] None) s)
     | L_walk _ tp cnt i tmp got lst \<Rightarrow>
         (case (if i < op_num op then tmp else None) of
            Some e \<Rightarrow> Some (goto t (L_next op tp cnt i e (case op of Pop _ \<Rightarrow> got @ [st_data s e] | Push _ \<Rightarrow> got)) s)
          | None \<Rightarrow>
              if i \<noteq> op_num op then (if st_success s t = Some 0 then Some (goto t (L_top op) s) else None)
              else if l_top l = tp \<and> l_cnt l = cnt then
                (case (tp, lst) of
                   (Some first, Some lst) \<Rightarrow>
                     (let s = set_list (from_list op) (l\<lparr>l_top := tmp, l_cnt := cnt + 1\<rparr>) s in
                      case op of
                        Push objs \<Rightarrow> Some (goto t (L_fill op first lst 0 tp got) s)
                      | Pop _ \<Rightarrow> Some (goto t (A_top op first lst got) (logged (E_pop t got) s)))
                 | _ \<Rightarrow> None)
              else Some (set_success t (Some 0) (goto t (L_walk op (l_top l) (l_cnt l) 0 (l_top l) [] lst) s)))
     | L_next _ tp cnt i e got \<Rightarrow> Some (goto t (L_walk op tp cnt (i + 1) (st_next s e) got (Some e)) s)
     | _ \<Rightarrow> None)"

section \<open>Filling and adding elements\<close>

definition push_fill :: "nat \<Rightarrow> lf_op \<Rightarrow> lf_sys \<Rightarrow> lf_sys option" where
  "push_fill t op s = (case (op, st_pc s t) of
     (Push obj_table, L_fill _ first lst i tmp got) \<Rightarrow>
       if i < length obj_table then
         (case tmp of
            None \<Rightarrow> None
          | Some e \<Rightarrow> Some (goto t (L_fill op first lst (i + 1) (st_next s e) got)
              (s\<lparr>st_data := (st_data s)(e := obj_table ! (length obj_table - i - 1))\<rparr>)))
       else Some (goto t (A_top op first lst got) s)
   | _ \<Rightarrow> None)"

text \<open>A push takes effect when the head of the used list is swapped.\<close>

definition push_elems :: "nat \<Rightarrow> lf_op \<Rightarrow> lf_sys \<Rightarrow> lf_sys option" where
  "push_elems t op s = (let l = the_list (to_list op) s in
     case st_pc s t of
       A_top _ first lst got \<Rightarrow> Some (goto t (A_cnt op first lst (l_top l) got) s)
     | A_cnt _ first lst tp got \<Rightarrow> Some (goto t (A_link op first lst tp (l_cnt l) got) s)
     | A_link _ first lst tp cnt got \<Rightarrow>
         Some (goto t (A_swap op first lst tp cnt got) (s\<lparr>st_next := (st_next s)(lst := tp)\<rparr>))
     | A_swap _ first lst tp cnt got \<Rightarrow>
         if l_top l = tp \<and> l_cnt l = cnt then
           (let s = set_list (to_list op) (l\<lparr>l_top := Some first, l_cnt := cnt + 1\<rparr>) s
            in Some (goto t (A_len op got) (case op of Push objs \<Rightarrow> logged (E_push t objs) s | Pop _ \<Rightarrow> s)))
         else Some (goto t (A_link op first lst (l_top l) (l_cnt l) got) s)
     | A_len _ got \<Rightarrow>
         (let s = set_list (to_list op) (l\<lparr>l_len := l_len l + of_nat (op_num op)\<rparr>) s
          in Some (goto t (L_done op (op_num op) got)
               (returned t (case op of Push objs \<Rightarrow> E_push t objs | Pop _ \<Rightarrow> E_pop t got) s)))
     | _ \<Rightarrow> None)"

definition rte_stack_lf_step :: "bool \<Rightarrow> nat \<Rightarrow> lf_sys \<Rightarrow> lf_sys option" where
  "rte_stack_lf_step c11 t s = (case st_pc s t of
     L_len op \<Rightarrow> pop_elems_len c11 t op s
   | L_cas_len op _ \<Rightarrow> pop_elems_len c11 t op s
   | L_top op \<Rightarrow> pop_elems_head t op s
   | L_cnt op _ \<Rightarrow> pop_elems_head t op s
   | L_walk op _ _ _ _ _ _ \<Rightarrow> pop_elems_head t op s
   | L_next op _ _ _ _ _ \<Rightarrow> pop_elems_head t op s
   | L_fill op _ _ _ _ _ \<Rightarrow> push_fill t op s
   | A_top op _ _ _ \<Rightarrow> push_elems t op s
   | A_cnt op _ _ _ _ \<Rightarrow> push_elems t op s
   | A_link op _ _ _ _ _ \<Rightarrow> push_elems t op s
   | A_swap op _ _ _ _ _ \<Rightarrow> push_elems t op s
   | A_len op _ \<Rightarrow> push_elems t op s
   | _ \<Rightarrow> None)"

text \<open>A call for no objects returns at once. Every other call enters the function that takes elements off
  a list, whose local \<open>success\<close> only the generic code initialises.\<close>

definition rte_stack_lf_call :: "bool \<Rightarrow> nat \<Rightarrow> lf_op \<Rightarrow> lf_sys \<Rightarrow> lf_sys" where
  "rte_stack_lf_call c11 t op s =
     set_success t (if c11 then None else Some 0) (goto t (if op_num op = 0 then L_done op 0 [] else L_len op) s)"

definition rte_stack_lf_count :: "lf_sys \<Rightarrow> u32" where
  "rte_stack_lf_count s = ucast (l_len (st_used s))"

definition lf_ready :: "lf_pc \<Rightarrow> bool" where
  "lf_ready pc = (case pc of L_idle \<Rightarrow> True | L_done _ _ _ \<Rightarrow> True | _ \<Rightarrow> False)"

section \<open>Runs\<close>

text \<open>Threads are numbered below \<open>N\<close>. The counters of the heads do not wrap in a run.\<close>

inductive lf_step :: "bool \<Rightarrow> nat \<Rightarrow> lf_sys \<Rightarrow> lf_sys \<Rightarrow> bool" for c11 N where
  call: "t < N \<Longrightarrow> lf_ready (st_pc s t) \<Longrightarrow> op_num op < 2 ^ 32 \<Longrightarrow> lf_step c11 N s (rte_stack_lf_call c11 t op s)"
| step: "t < N \<Longrightarrow> rte_stack_lf_step c11 t s = Some s' \<Longrightarrow>
    unat (l_cnt (st_used s)) + 1 < 2 ^ 64 \<Longrightarrow> unat (l_cnt (st_free s)) + 1 < 2 ^ 64 \<Longrightarrow> lf_step c11 N s s'"

inductive lf_run :: "bool \<Rightarrow> nat \<Rightarrow> lf_sys \<Rightarrow> lf_sys \<Rightarrow> bool" for c11 N s0 where
  refl: "lf_run c11 N s0 s0"
| step: "lf_run c11 N s0 s \<Longrightarrow> lf_step c11 N s s' \<Longrightarrow> lf_run c11 N s0 s'"

text \<open>Initialisation is compiled code: it leaves the used list empty and all elements linked in the free
  list, in some order.\<close>

fun chain :: "(nat \<Rightarrow> nat option) \<Rightarrow> nat option \<Rightarrow> nat list \<Rightarrow> bool" where
  "chain nx p [] \<longleftrightarrow> p = None"
| "chain nx p (e # es) \<longleftrightarrow> p = Some e \<and> chain nx (nx e) es"

definition lf_fresh :: "u32 \<Rightarrow> nat list \<Rightarrow> lf_sys \<Rightarrow> bool" where
  "lf_fresh capacity es s \<longleftrightarrow> l_top (st_used s) = None \<and> l_len (st_used s) = 0 \<and>
     chain (st_next s) (l_top (st_free s)) es \<and> distinct es \<and> length es = unat capacity \<and> l_len (st_free s) = ucast capacity \<and>
     (\<forall>t. st_pc s t = L_idle) \<and> h_log s = [] \<and> (\<forall>t. h_rets s t = [])"

end
