(* ===== verification/Rte_Stack_Lf.thy ===== *)
theory Rte_Stack_Lf
  imports Rte_Stack
begin

text \<open>
  The lock-free stack is a stack: in every interleaving the successful calls take effect one at a time, in
  an order that every thread's own order agrees with, and no element is lost or held twice. A call inside
  the stack can always go on, except where the C11 code tests a variable it has not initialised.
\<close>

section \<open>The abstract stack\<close>

text \<open>The calls of the log on a stack, top first. The last object of a pushed table comes to the top; a
  pop must have got the topmost objects.\<close>

fun run_log :: "lf_event list \<Rightarrow> u64 list \<Rightarrow> u64 list option" where
  "run_log [] st = Some st"
| "run_log (E_push t objs # es) st = run_log es (rev objs @ st)"
| "run_log (E_pop t got # es) st =
     (if length got \<le> length st \<and> take (length got) st = got then run_log es (drop (length got) st) else None)"

lemma run_log_append: "run_log (xs @ ys) st = Option.bind (run_log xs st) (run_log ys)"
  by (induction xs st rule: run_log.induct) auto

fun thread_of :: "lf_event \<Rightarrow> nat" where
  "thread_of (E_push t objs) = t"
| "thread_of (E_pop t got) = t"

section \<open>Who holds the elements\<close>

datatype holder = In which | By nat

type_synonym holding = "holder \<Rightarrow> nat list"

definition parted :: "nat set \<Rightarrow> holding \<Rightarrow> bool" where
  "parted E P \<longleftrightarrow> (\<forall>h. distinct (P h)) \<and> (\<forall>h h'. h \<noteq> h' \<longrightarrow> set (P h) \<inter> set (P h') = {}) \<and> (\<Union>h. set (P h)) = E"

lemma partedD:
  assumes "parted E P"
  shows "distinct (P h)" "h \<noteq> h' \<Longrightarrow> e \<in> set (P h) \<Longrightarrow> e \<notin> set (P h')" "e \<in> set (P h) \<Longrightarrow> e \<in> E"
  using assms unfolding parted_def by blast+

definition move_all :: "holder \<Rightarrow> holder \<Rightarrow> nat \<Rightarrow> holding \<Rightarrow> holding" where
  "move_all a b n P = P(a := drop n (P a), b := take n (P a) @ P b)"

lemma parted_move:
  assumes P: "parted E P" and "a \<noteq> b"
  shows "parted E (move_all a b n P)"
proof -
  define D where "D = set (drop n (P a))"
  define T where "T = set (take n (P a))"
  have DT: "set (P a) = T \<union> D" "D \<inter> T = {}"
    using partedD(1) [OF P, of a] unfolding D_def T_def by (metis append_take_drop_id set_append, metis append_take_drop_id distinct_append inf_commute)
  have at: "set (move_all a b n P h) = (if h = a then D else if h = b then T \<union> set (P b) else set (P h))" for h
    using assms(2) by (simp add: move_all_def D_def T_def)
  have T: "e \<in> T \<Longrightarrow> h \<noteq> a \<Longrightarrow> e \<notin> set (P h)" for e h using partedD(2) [OF P] DT by blast
  have "distinct (move_all a b n P h)" for h
    using partedD(1) [OF P] assms(2) T by (auto simp: move_all_def T_def)
  moreover have "set (move_all a b n P h) \<inter> set (move_all a b n P h') = {}" if "h \<noteq> h'" for h h'
  proof -
    have inT: "k = b" if "e \<in> T" "e \<in> set (move_all a b n P k)" for e k
      using that T [OF that(1), of k] DT(2) unfolding at by (auto split: if_splits)
    have notT: "e \<in> set (P k)" if "e \<notin> T" "e \<in> set (move_all a b n P k)" for e k
      using that DT(1) unfolding at by (auto split: if_splits)
    show ?thesis using inT notT partedD(2) [OF P \<open>h \<noteq> h'\<close>] \<open>h \<noteq> h'\<close> by blast
  qed
  moreover have "(\<Union>h. set (move_all a b n P h)) = (\<Union>h. set (P h))"
  proof
    show "(\<Union>h. set (move_all a b n P h)) \<subseteq> (\<Union>h. set (P h))"
      using DT by (auto simp: at split: if_splits)
    show "(\<Union>h. set (P h)) \<subseteq> (\<Union>h. set (move_all a b n P h))"
    proof
      fix e
      assume "e \<in> (\<Union>h. set (P h))"
      then obtain h where h: "e \<in> set (P h)" by blast
      show "e \<in> (\<Union>h. set (move_all a b n P h))"
      proof (cases "h = a")
        case True
        then have "e \<in> set (move_all a b n P a) \<or> e \<in> set (move_all a b n P b)" using h DT assms(2) by (auto simp: at)
        then show ?thesis by blast
      next
        case False
        then have "e \<in> set (move_all a b n P h)" using h by (auto simp: at)
        then show ?thesis by blast
      qed
    qed
  qed
  ultimately show ?thesis using P unfolding parted_def by simp
qed

section \<open>Chains\<close>

fun linked :: "(nat \<Rightarrow> nat option) \<Rightarrow> nat list \<Rightarrow> bool" where
  "linked nx (e # f # es) \<longleftrightarrow> nx e = Some f \<and> linked nx (f # es)"
| "linked nx es \<longleftrightarrow> True"

lemma chain_cong: "(\<And>e. e \<in> set es \<Longrightarrow> nx e = nx' e) \<Longrightarrow> chain nx p es = chain nx' p es"
  by (induction es arbitrary: p) auto

lemma linked_cong: "(\<And>e. e \<in> set es \<Longrightarrow> nx e = nx' e) \<Longrightarrow> linked nx es = linked nx' es"
  by (induction nx es rule: linked.induct) auto

lemma linked_last_free: "distinct es \<Longrightarrow> linked (nx(last es := p)) es = linked nx es"
  by (induction nx es rule: linked.induct) auto

lemma chain_nth: "chain nx p es \<Longrightarrow> i < length es \<Longrightarrow> nx (es ! i) = (if i + 1 < length es then Some (es ! (i + 1)) else None)"
proof (induction es arbitrary: p i)
  case (Cons e es)
  then show ?case by (cases i; cases es) auto
qed simp

lemma chain_hd: "chain nx p es \<Longrightarrow> p = (if es = [] then None else Some (es ! 0))"
  by (cases es) auto

lemma chain_drop: "chain nx p es \<Longrightarrow> n \<le> length es \<Longrightarrow> chain nx (if n < length es then Some (es ! n) else None) (drop n es)"
proof (induction es arbitrary: p n)
  case (Cons e es)
  then show ?case by (cases n) (use Cons.IH in \<open>fastforce split: if_splits\<close>)+
qed simp

lemma chain_linked: "chain nx p es \<Longrightarrow> linked nx (take n es)"
proof (induction es arbitrary: p n)
  case (Cons e es)
  show ?case
  proof (cases es)
    case Nil
    then show ?thesis by (cases n) auto
  next
    case (Cons f fs)
    have IH: "linked nx (take m es)" for m using Cons.IH Cons.prems by auto
    consider "n = 0" | "n = 1" | m where "n = Suc (Suc m)" by (metis One_nat_def not0_implies_Suc)
    then show ?thesis
    proof cases
      case (3 m)
      then show ?thesis using IH [of "Suc m"] Cons.prems Cons by simp
    qed auto
  qed
qed simp

lemma linked_nth: "linked nx es \<Longrightarrow> i + 1 < length es \<Longrightarrow> nx (es ! i) = Some (es ! (i + 1))"
proof (induction nx es arbitrary: i rule: linked.induct)
  case (1 nx e f es)
  then show ?case by (cases i) (auto simp del: One_nat_def)
qed auto

lemma chain_append:
  "linked nx es \<Longrightarrow> es \<noteq> [] \<Longrightarrow> nx (last es) = q \<Longrightarrow> chain nx q xs \<Longrightarrow> chain nx (Some (hd es)) (es @ xs)"
  by (induction nx es rule: linked.induct) auto

section \<open>The invariant\<close>

definition op_ok :: "lf_op \<Rightarrow> bool" where
  "op_ok op \<longleftrightarrow> 0 < op_num op \<and> op_num op < 2 ^ 32"

definition sees :: "which \<Rightarrow> nat option \<Rightarrow> u64 \<Rightarrow> lf_sys \<Rightarrow> bool" where
  "sees w tp cnt s \<longleftrightarrow> l_top (the_list w s) = tp \<and> l_cnt (the_list w s) = cnt"

definition read_ok :: "lf_sys \<Rightarrow> lf_op \<Rightarrow> nat \<Rightarrow> nat list \<Rightarrow> u64 list \<Rightarrow> bool" where
  "read_ok s op i xs got \<longleftrightarrow> (case op of Push _ \<Rightarrow> True | Pop _ \<Rightarrow> got = map (st_data s) (take i xs))"

definition walk_ok :: "lf_sys \<Rightarrow> nat list \<Rightarrow> lf_op \<Rightarrow> nat option \<Rightarrow> u64 \<Rightarrow> nat \<Rightarrow> nat option \<Rightarrow> u64 list \<Rightarrow> nat option \<Rightarrow> bool" where
  "walk_ok s xs op tp cnt i tmp got lst \<longleftrightarrow> unat cnt \<le> unat (l_cnt (the_list (from_list op) s)) \<and>
     (sees (from_list op) tp cnt s \<longrightarrow> i \<le> length xs \<and> tmp = (if i < length xs then Some (xs ! i) else None) \<and>
        read_ok s op i xs got \<and> (0 < i \<longrightarrow> lst = Some (xs ! (i - 1))))"

definition next_ok :: "lf_sys \<Rightarrow> nat list \<Rightarrow> lf_op \<Rightarrow> nat option \<Rightarrow> u64 \<Rightarrow> nat \<Rightarrow> nat \<Rightarrow> u64 list \<Rightarrow> bool" where
  "next_ok s xs op tp cnt i e got \<longleftrightarrow> unat cnt \<le> unat (l_cnt (the_list (from_list op) s)) \<and>
     (sees (from_list op) tp cnt s \<longrightarrow> i < length xs \<and> e = xs ! i \<and> read_ok s op (Suc i) xs got)"

definition seg_ok :: "lf_sys \<Rightarrow> nat list \<Rightarrow> lf_op \<Rightarrow> nat \<Rightarrow> nat \<Rightarrow> bool" where
  "seg_ok s es op first lst \<longleftrightarrow> length es = op_num op \<and> hd es = first \<and> last es = lst \<and> linked (st_next s) es"

definition filled :: "lf_sys \<Rightarrow> nat list \<Rightarrow> lf_op \<Rightarrow> bool" where
  "filled s es op \<longleftrightarrow> (case op of Push objs \<Rightarrow> map (st_data s) es = rev objs | Pop _ \<Rightarrow> True)"

definition filling :: "lf_sys \<Rightarrow> nat list \<Rightarrow> lf_op \<Rightarrow> nat \<Rightarrow> nat option \<Rightarrow> bool" where
  "filling s es op i tmp \<longleftrightarrow> (case op of
     Push objs \<Rightarrow> i \<le> length objs \<and> (i < length objs \<longrightarrow> tmp = Some (es ! i)) \<and>
       (\<forall>k < i. st_data s (es ! k) = objs ! (length objs - k - 1))
   | Pop _ \<Rightarrow> False)"

definition pc_ok :: "lf_sys \<Rightarrow> holding \<Rightarrow> nat \<Rightarrow> lf_pc \<Rightarrow> bool" where
  "pc_ok s P t pc \<longleftrightarrow> (let es = P (By t) in case pc of
     L_idle \<Rightarrow> es = []
   | L_done _ _ _ \<Rightarrow> es = []
   | L_len op \<Rightarrow> op_ok op \<and> es = []
   | L_cas_len op len \<Rightarrow> op_ok op \<and> es = [] \<and> op_num op \<le> unat len
   | L_top op \<Rightarrow> op_ok op \<and> es = []
   | L_cnt op _ \<Rightarrow> op_ok op \<and> es = []
   | L_walk op tp cnt i tmp got lst \<Rightarrow> op_ok op \<and> es = [] \<and> i \<le> op_num op \<and> walk_ok s (P (In (from_list op))) op tp cnt i tmp got lst
   | L_next op tp cnt i e got \<Rightarrow> op_ok op \<and> es = [] \<and> i < op_num op \<and> next_ok s (P (In (from_list op))) op tp cnt i e got
   | L_fill op first lst i tmp got \<Rightarrow> op_ok op \<and> seg_ok s es op first lst \<and> filling s es op i tmp
   | A_top op first lst got \<Rightarrow> op_ok op \<and> seg_ok s es op first lst \<and> filled s es op
   | A_cnt op first lst _ got \<Rightarrow> op_ok op \<and> seg_ok s es op first lst \<and> filled s es op
   | A_link op first lst _ _ got \<Rightarrow> op_ok op \<and> seg_ok s es op first lst \<and> filled s es op
   | A_swap op first lst tp _ got \<Rightarrow> op_ok op \<and> seg_ok s es op first lst \<and> filled s es op \<and> st_next s lst = tp
   | A_len op got \<Rightarrow> op_ok op \<and> es = [])"

text \<open>Elements of a list that its length does not count: reserved, or added and not yet counted.\<close>

definition claim :: "which \<Rightarrow> lf_pc \<Rightarrow> nat" where
  "claim w pc = (case pc of
     L_top op \<Rightarrow> if from_list op = w then op_num op else 0
   | L_cnt op _ \<Rightarrow> if from_list op = w then op_num op else 0
   | L_walk op _ _ _ _ _ _ \<Rightarrow> if from_list op = w then op_num op else 0
   | L_next op _ _ _ _ _ \<Rightarrow> if from_list op = w then op_num op else 0
   | A_len op _ \<Rightarrow> if to_list op = w then op_num op else 0
   | _ \<Rightarrow> 0)"

text \<open>What a thread has logged and not yet returned.\<close>

definition pop_event :: "nat \<Rightarrow> lf_op \<Rightarrow> u64 list \<Rightarrow> lf_event list" where
  "pop_event t op got = (case op of Push _ \<Rightarrow> [] | Pop _ \<Rightarrow> [E_pop t got])"

definition pend :: "nat \<Rightarrow> lf_pc \<Rightarrow> lf_event list" where
  "pend t pc = (case pc of
     A_top op _ _ got \<Rightarrow> pop_event t op got
   | A_cnt op _ _ _ got \<Rightarrow> pop_event t op got
   | A_link op _ _ _ _ got \<Rightarrow> pop_event t op got
   | A_swap op _ _ _ _ got \<Rightarrow> pop_event t op got
   | A_len op got \<Rightarrow> [case op of Push objs \<Rightarrow> E_push t objs | Pop _ \<Rightarrow> E_pop t got]
   | _ \<Rightarrow> [])"

definition lf_inv :: "nat set \<Rightarrow> nat \<Rightarrow> holding \<Rightarrow> lf_sys \<Rightarrow> bool" where
  "lf_inv E N P s \<longleftrightarrow> parted E P \<and>
     (\<forall>w. chain (st_next s) (l_top (the_list w s)) (P (In w))) \<and>
     (\<forall>w. length (P (In w)) = unat (l_len (the_list w s)) + (\<Sum>t < N. claim w (st_pc s t))) \<and>
     (\<forall>t. pc_ok s P t (st_pc s t)) \<and> (\<forall>t \<ge> N. st_pc s t = L_idle) \<and>
     run_log (h_log s) [] = Some (map (st_data s) (P (In Used))) \<and>
     (\<forall>t. filter (\<lambda>e. thread_of e = t) (h_log s) = h_rets s t @ pend t (st_pc s t))"

lemma lf_invD:
  assumes "lf_inv E N P s"
  shows "parted E P" "chain (st_next s) (l_top (the_list w s)) (P (In w))"
    "length (P (In w)) = unat (l_len (the_list w s)) + (\<Sum>t < N. claim w (st_pc s t))"
    "pc_ok s P t (st_pc s t)" "N \<le> t \<Longrightarrow> st_pc s t = L_idle"
    "run_log (h_log s) [] = Some (map (st_data s) (P (In Used)))"
    "filter (\<lambda>e. thread_of e = t) (h_log s) = h_rets s t @ pend t (st_pc s t)"
  using assms unfolding lf_inv_def by blast+

text \<open>What a step leaves as it is, for the other threads: a list keeps its head and elements, or its
  counter goes up, so that nobody's view of the old head is mistaken for the new one.\<close>

definition same_at :: "nat list \<Rightarrow> lf_sys \<Rightarrow> lf_sys \<Rightarrow> bool" where
  "same_at es s s' \<longleftrightarrow> (\<forall>e \<in> set es. st_data s' e = st_data s e \<and> st_next s' e = st_next s e)"

definition kept :: "which \<Rightarrow> lf_sys \<Rightarrow> holding \<Rightarrow> lf_sys \<Rightarrow> holding \<Rightarrow> bool" where
  "kept w s P s' P' \<longleftrightarrow>
     l_top (the_list w s') = l_top (the_list w s) \<and> l_cnt (the_list w s') = l_cnt (the_list w s) \<and> P' (In w) = P (In w) \<and> same_at (P (In w)) s s' \<or>
     unat (l_cnt (the_list w s)) < unat (l_cnt (the_list w s'))"

lemma read_ok_same: "same_at xs s s' \<Longrightarrow> read_ok s' op i xs got = read_ok s op i xs got"
proof -
  assume "same_at xs s s'"
  then have "map (st_data s') (take i xs) = map (st_data s) (take i xs)"
    by (intro map_cong) (auto simp: same_at_def dest: in_set_takeD)
  then show ?thesis unfolding read_ok_def by (simp only:)
qed

lemma walk_ok_frame:
  assumes "walk_ok s (P (In (from_list op))) op tp cnt i tmp got lst" "kept (from_list op) s P s' P'"
  shows "walk_ok s' (P' (In (from_list op))) op tp cnt i tmp got lst"
  using assms read_ok_same [of "P (In (from_list op))" s s'] unfolding walk_ok_def kept_def sees_def by auto

lemma next_ok_frame:
  assumes "next_ok s (P (In (from_list op))) op tp cnt i e got" "kept (from_list op) s P s' P'"
  shows "next_ok s' (P' (In (from_list op))) op tp cnt i e got"
  using assms read_ok_same [of "P (In (from_list op))" s s'] unfolding next_ok_def kept_def sees_def by auto

lemma seg_ok_same: "same_at es s s' \<Longrightarrow> seg_ok s' es op first lst = seg_ok s es op first lst"
  using linked_cong [of es "st_next s'" "st_next s"] by (auto simp: seg_ok_def same_at_def)

lemma filled_same: "same_at es s s' \<Longrightarrow> filled s' es op = filled s es op"
  by (auto simp: filled_def same_at_def split: lf_op.splits cong: map_cong)

lemma filling_same:
  assumes "same_at es s s'" "length es = op_num op"
  shows "filling s' es op i tmp = filling s es op i tmp"
  using assms by (auto simp: filling_def same_at_def op_num_def split: lf_op.splits)

lemma seg_last: "op_ok op \<Longrightarrow> seg_ok s es op first lst \<Longrightarrow> es \<noteq> [] \<and> lst \<in> set es \<and> first \<in> set es"
proof -
  assume "op_ok op" "seg_ok s es op first lst"
  then have "es \<noteq> []" "hd es = first" "last es = lst" by (auto simp: op_ok_def seg_ok_def)
  then show ?thesis using hd_in_set last_in_set by metis
qed

lemma pc_ok_frame:
  assumes "pc_ok s P t pc" "P' (By t) = P (By t)" "same_at (P (By t)) s s'" "\<And>w. kept w s P s' P'"
  shows "pc_ok s' P' t pc"
proof (cases pc)
  case (L_walk op tp cnt i tmp got lst)
  then show ?thesis using assms(1,2) walk_ok_frame [OF _ assms(4)] by (simp add: pc_ok_def)
next
  case (L_next op tp cnt i e got)
  then show ?thesis using assms(1,2) next_ok_frame [OF _ assms(4)] by (simp add: pc_ok_def)
next
  case (L_fill op first lst i tmp got)
  then show ?thesis using assms(1,2) seg_ok_same [OF assms(3)] filling_same [OF assms(3)] by (auto simp: pc_ok_def Let_def seg_ok_def)
next
  case (A_swap op first lst tp cnt got)
  then have "lst \<in> set (P (By t))" using assms(1) seg_last by (auto simp: pc_ok_def Let_def)
  then have "st_next s' lst = st_next s lst" using assms(3) by (simp add: same_at_def)
  then show ?thesis using A_swap assms(1,2) seg_ok_same [OF assms(3)] filled_same [OF assms(3)] by (simp add: pc_ok_def)
qed (use assms(1,2) seg_ok_same [OF assms(3)] filled_same [OF assms(3)] in \<open>simp_all add: pc_ok_def\<close>)

lemma lf_inv_step:
  assumes inv: "lf_inv E N P s" "t < N"
    and others: "\<And>t'. t' \<noteq> t \<Longrightarrow> st_pc s' t' = st_pc s t' \<and> P' (By t') = P (By t') \<and> same_at (P (By t')) s s'"
    and lists: "\<And>w. kept w s P s' P'" "\<And>w. chain (st_next s') (l_top (the_list w s')) (P' (In w))" "parted E P'"
    and lens: "\<And>w. length (P' (In w)) + unat (l_len (the_list w s)) + claim w (st_pc s t) =
        length (P (In w)) + unat (l_len (the_list w s')) + claim w (st_pc s' t)"
    and own: "pc_ok s' P' t (st_pc s' t)"
    and log: "h_log s' = h_log s @ new" "\<And>e. e \<in> set new \<Longrightarrow> thread_of e = t" "\<And>t'. t' \<noteq> t \<Longrightarrow> h_rets s' t' = h_rets s t'"
      "h_rets s' t @ pend t (st_pc s' t) = h_rets s t @ pend t (st_pc s t) @ new"
      "run_log new (map (st_data s) (P (In Used))) = Some (map (st_data s') (P' (In Used)))"
  shows "lf_inv E N P' s'"
proof -
  have "length (P' (In w)) = unat (l_len (the_list w s')) + (\<Sum>t < N. claim w (st_pc s' t))" for w
  proof -
    have "(\<Sum>i < N. claim w (st_pc s i)) = claim w (st_pc s t) + (\<Sum>i \<in> {..<N} - {t}. claim w (st_pc s i))"
      "(\<Sum>i < N. claim w (st_pc s' i)) = claim w (st_pc s' t) + (\<Sum>i \<in> {..<N} - {t}. claim w (st_pc s' i))"
      using inv(2) by (simp_all add: sum.remove)
    moreover have "(\<Sum>i \<in> {..<N} - {t}. claim w (st_pc s' i)) = (\<Sum>i \<in> {..<N} - {t}. claim w (st_pc s i))"
      using others by (intro sum.cong) auto
    ultimately show ?thesis using lens [of w] lf_invD(3) [OF inv(1), of w] by linarith
  qed
  moreover have "pc_ok s' P' i (st_pc s' i)" for i
    using own others [of i] pc_ok_frame [OF lf_invD(4) [OF inv(1)], of P' i s'] lists(1) by (cases "i = t") auto
  moreover have "st_pc s' i = L_idle" if "N \<le> i" for i
    using that inv(2) others [of i] lf_invD(5) [OF inv(1), of i] by auto
  moreover have "filter (\<lambda>e. thread_of e = i) (h_log s') = h_rets s' i @ pend i (st_pc s' i)" for i
  proof (cases "i = t")
    case True
    have "filter (\<lambda>e. thread_of e = t) new = new" using log(2) by simp
    then show ?thesis using True log(1,4) lf_invD(7) [OF inv(1), of t] by simp
  next
    case False
    then have "filter (\<lambda>e. thread_of e = i) new = []" using log(2) by (auto simp: filter_empty_conv)
    then show ?thesis using False log(1,3) others [of i] lf_invD(7) [OF inv(1), of i] by simp
  qed
  ultimately show ?thesis
    using lists(2,3) lf_invD(6) [OF inv(1)] log(1,5) unfolding lf_inv_def by (simp add: run_log_append)
qed

section \<open>The steps\<close>

lemma the_list_simps [simp]:
  "the_list w (goto t pc s) = the_list w s" "the_list w (s\<lparr>st_data := d\<rparr>) = the_list w s" "the_list w (s\<lparr>st_next := nx\<rparr>) = the_list w s"
  "the_list w (logged e s) = the_list w s" "the_list w (returned t e s) = the_list w s" "the_list w (set_success t v s) = the_list w s"
  "the_list w (set_list w' l s) = (if w = w' then l else the_list w s)"
  by (auto simp: the_list_def goto_def logged_def returned_def set_list_def set_success_def split: which.split)

lemma state_simps [simp]:
  "st_data (goto t pc s) = st_data s" "st_next (goto t pc s) = st_next s" "h_log (goto t pc s) = h_log s" "h_rets (goto t pc s) = h_rets s"
  "st_pc (goto t pc s) = (st_pc s)(t := pc)"
  "st_data (set_list w l s) = st_data s" "st_next (set_list w l s) = st_next s" "h_log (set_list w l s) = h_log s"
  "h_rets (set_list w l s) = h_rets s" "st_pc (set_list w l s) = st_pc s"
  "st_data (logged e s) = st_data s" "st_next (logged e s) = st_next s" "h_log (logged e s) = h_log s @ [e]"
  "h_rets (logged e s) = h_rets s" "st_pc (logged e s) = st_pc s"
  "st_data (returned t e s) = st_data s" "st_next (returned t e s) = st_next s" "h_log (returned t e s) = h_log s"
  "h_rets (returned t e s) = (h_rets s)(t := h_rets s t @ [e])" "st_pc (returned t e s) = st_pc s"
  "st_data (set_success t v s) = st_data s" "st_next (set_success t v s) = st_next s" "h_log (set_success t v s) = h_log s"
  "h_rets (set_success t v s) = h_rets s" "st_pc (set_success t v s) = st_pc s"
  "st_success (goto t pc s) = st_success s" "st_success (set_list w l s) = st_success s" "st_success (logged e s) = st_success s"
  "st_success (returned t e s) = st_success s" "st_success (set_success t v s) = (st_success s)(t := v)"
  by (simp_all add: goto_def set_list_def logged_def returned_def set_success_def split: which.split)

lemma same_at_simps [simp]: "same_at es s s" "same_at es s (goto t pc s')= same_at es s s'" "same_at es s (set_list w l s') = same_at es s s'"
    "same_at es s (logged e s') = same_at es s s'" "same_at es s (returned t e s') = same_at es s s'"
    "same_at es s (set_success t v s') = same_at es s s'"
  by (auto simp: same_at_def)

lemma kept_refl: "kept w s P (goto t pc s) P"
  by (simp add: kept_def)

text \<open>Steps that only move the thread.\<close>

lemma goto_inv:
  assumes "lf_inv E N P s" "t < N" "pc_ok s P t pc" "\<And>w. claim w pc = claim w (st_pc s t)" "pend t pc = pend t (st_pc s t)"
  shows "lf_inv E N P (goto t pc s)"
proof (rule lf_inv_step [where new = "[]", OF assms(1,2)])
  show "pc_ok (goto t pc s) P t (st_pc (goto t pc s) t)"
    using pc_ok_frame [OF assms(3), of P "goto t pc s"] kept_refl by simp
qed (use lf_invD(1,2) [OF assms(1)] assms(4,5) kept_refl in simp_all)

lemma success_inv:
  assumes "lf_inv E N P s" "t < N"
  shows "lf_inv E N P (set_success t v s)"
proof (rule lf_inv_step [where new = "[]", OF assms])
  have kept: "kept w s P (set_success t v s) P" for w by (simp add: kept_def)
  then show "kept w s P (set_success t v s) P" for w .
  show "pc_ok (set_success t v s) P t (st_pc (set_success t v s) t)"
    using pc_ok_frame [OF lf_invD(4) [OF assms(1), of t], of P "set_success t v s"] kept by simp
qed (use lf_invD(1,2) [OF assms(1)] in simp_all)

lemma call_inv:
  assumes "lf_inv E N P s" "t < N" "lf_ready (st_pc s t)" "op_num op < 2 ^ 32"
  shows "lf_inv E N P (rte_stack_lf_call c11 t op s)"
  unfolding rte_stack_lf_call_def
  using lf_invD(4) [OF assms(1), of t] assms(3,4)
  by (intro success_inv [OF _ assms(2)] goto_inv [OF assms(1,2)])
    (auto simp: lf_ready_def pc_ok_def op_ok_def claim_def pend_def Let_def split: lf_pc.splits)

lemma length_P: "parted E P \<Longrightarrow> finite E \<Longrightarrow> length (P h) \<le> card E"
  using partedD(1) [where h = h] partedD(3) [where h = h] by (metis card_mono distinct_card subsetI)

lemma num_word: "op_ok op \<Longrightarrow> unat (of_nat (op_num op) :: u64) = op_num op"
  by (simp add: op_ok_def unat_of_nat take_bit_nat_eq_self)

lemma reserve_inv:
  assumes inv: "lf_inv E N P s" "t < N" and pc: "st_pc s t = L_cas_len op (l_len (the_list (from_list op) s))"
  shows "lf_inv E N P (goto t (L_top op) (set_list (from_list op)
    ((the_list (from_list op) s)\<lparr>l_len := l_len (the_list (from_list op) s) - of_nat (op_num op)\<rparr>) s))"
proof (rule lf_inv_step [where new = "[]", OF inv])
  have ok: "op_ok op" "P (By t) = []" "op_num op \<le> unat (l_len (the_list (from_list op) s))"
    using lf_invD(4) [OF inv(1), of t] pc by (simp_all add: pc_ok_def)
  let ?s = "goto t (L_top op) (set_list (from_list op) ((the_list (from_list op) s)\<lparr>l_len := l_len (the_list (from_list op) s) - of_nat (op_num op)\<rparr>) s)"
  show "pc_ok ?s P t (st_pc ?s t)" using ok by (simp add: pc_ok_def)
  show "length (P (In w)) + unat (l_len (the_list w s)) + claim w (st_pc s t) = length (P (In w)) + unat (l_len (the_list w ?s)) + claim w (st_pc ?s t)" for w
    using ok pc num_word [OF ok(1)] by (auto simp: claim_def unat_sub_le)
  show "kept w s P ?s P" for w by (simp add: kept_def)
qed (use lf_invD(1,2) [OF inv(1)] pc in \<open>auto simp: pend_def\<close>)

lemma pop_elems_len_inv:
  assumes inv: "lf_inv E N P s" "t < N" and step: "pop_elems_len c11 t op s = Some s'" and pc: "st_pc s t = L_len op \<or> (\<exists>len. st_pc s t = L_cas_len op len)"
  shows "lf_inv E N P s'"
proof -
  let ?l = "the_list (from_list op) s"
  have ok: "op_ok op" "P (By t) = []" using lf_invD(4) [OF inv(1), of t] pc by (auto simp: pc_ok_def)
  have look: "lf_inv E N P (goto t (if l_len ?l < of_nat (op_num op) then L_done op 0 [] else L_cas_len op (l_len ?l)) s)"
    using ok pc num_word [OF ok(1)]
    by (intro goto_inv [OF inv]) (auto simp: pc_ok_def claim_def pend_def word_less_nat_alt)
  have retry: "lf_inv E N P (goto t (L_len op) s)"
    using ok pc by (intro goto_inv [OF inv]) (auto simp: pc_ok_def claim_def pend_def)
  from pc show ?thesis
  proof
    assume "st_pc s t = L_len op"
    then show ?thesis using step look by (simp add: pop_elems_len_def Let_def)
  next
    assume "\<exists>len. st_pc s t = L_cas_len op len"
    then obtain len where len: "st_pc s t = L_cas_len op len" by blast
    show ?thesis
    proof (cases "l_len ?l = len")
      case True
      then show ?thesis using step len reserve_inv [OF inv, of op] by (simp add: pop_elems_len_def Let_def)
    next
      case False
      then show ?thesis using step len look retry by (auto simp: pop_elems_len_def Let_def split: if_splits)
    qed
  qed
qed

lemma parted_cong: "parted E P \<Longrightarrow> (\<And>h. P' h = P h) \<Longrightarrow> parted E P'"
  by (simp add: parted_def)

lemma cnt_up: "unat c + 1 < 2 ^ 64 \<Longrightarrow> unat (c + 1) = Suc (unat c)" for c :: u64
  by (simp add: unat_word_ariths)

text \<open>Taking the elements off: the head is swapped while it is the one the walk started from.\<close>

definition taken :: "nat \<Rightarrow> lf_op \<Rightarrow> nat option \<Rightarrow> u64 \<Rightarrow> lf_sys \<Rightarrow> lf_sys" where
  "taken t op tmp cnt s = set_list (from_list op) ((the_list (from_list op) s)\<lparr>l_top := tmp, l_cnt := cnt + 1\<rparr>) s"

lemma take_facts:
  assumes inv: "lf_inv E N P s" and pc: "st_pc s t = L_walk op tp cnt (op_num op) tmp got lst" and sees: "sees (from_list op) tp cnt s"
  shows "op_ok op" "P (By t) = []" "op_num op \<le> length (P (In (from_list op)))" "tp = Some (P (In (from_list op)) ! 0)"
    "lst = Some (P (In (from_list op)) ! (op_num op - 1))"
    "tmp = (if op_num op < length (P (In (from_list op))) then Some (P (In (from_list op)) ! op_num op) else None)"
    "read_ok s op (op_num op) (P (In (from_list op))) got"
proof -
  have w: "op_ok op" "P (By t) = []" "walk_ok s (P (In (from_list op))) op tp cnt (op_num op) tmp got lst"
    using lf_invD(4) [OF inv, of t] pc by (simp_all add: pc_ok_def)
  then show "op_ok op" "P (By t) = []" by simp_all
  show l: "op_num op \<le> length (P (In (from_list op)))" using w sees by (simp add: walk_ok_def)
  have n: "0 < op_num op" using w(1) by (simp add: op_ok_def)
  show "lst = Some (P (In (from_list op)) ! (op_num op - 1))" using w sees n by (simp add: walk_ok_def)
  show "tmp = (if op_num op < length (P (In (from_list op))) then Some (P (In (from_list op)) ! op_num op) else None)"
    "read_ok s op (op_num op) (P (In (from_list op))) got" using w sees by (simp_all add: walk_ok_def)
  have "P (In (from_list op)) \<noteq> []" using l n by auto
  then show "tp = Some (P (In (from_list op)) ! 0)"
    using sees chain_hd [OF lf_invD(2) [OF inv, of "from_list op"]] by (simp add: sees_def)
qed

lemma taken_inv:
  assumes inv: "lf_inv E N P s" "t < N" and pc: "st_pc s t = L_walk op tp cnt (op_num op) tmp got lst" and sees: "sees (from_list op) tp cnt s"
    and cnt: "unat (l_cnt (the_list (from_list op) s)) + 1 < 2 ^ 64"
  defines "n \<equiv> op_num op" and "xs \<equiv> P (In (from_list op))" and "P' \<equiv> move_all (In (from_list op)) (By t) (op_num op) P"
  shows "case op of
      Push objs \<Rightarrow> lf_inv E N P' (goto t (L_fill op (xs ! 0) (xs ! (n - 1)) 0 tp got) (taken t op tmp cnt s))
    | Pop _ \<Rightarrow> lf_inv E N P' (goto t (A_top op (xs ! 0) (xs ! (n - 1)) got) (logged (E_pop t got) (taken t op tmp cnt s)))"
proof -
  note f = take_facts [OF inv(1) pc sees, folded n_def xs_def]
  have P': "P' (In (from_list op)) = drop n xs" "P' (By t) = take n xs" "\<And>w. w \<noteq> from_list op \<Longrightarrow> P' (In w) = P (In w)"
    "\<And>t'. t' \<noteq> t \<Longrightarrow> P' (By t') = P (By t')"
    using f(2) by (simp_all add: P'_def move_all_def xs_def n_def)
  have n: "0 < n" "xs \<noteq> []" "n \<le> length xs" using f(1,3) by (auto simp: op_ok_def n_def)
  have parted: "parted E P'" unfolding P'_def by (rule parted_move [OF lf_invD(1) [OF inv(1)]]) simp
  have kept: "kept w s P s' P'"
    if s': "\<And>w. the_list w s' = the_list w (taken t op tmp cnt s)" "\<And>es. same_at es s s'" for w s'
  proof (cases "w = from_list op")
    case True
    then show ?thesis using s'(1) cnt cnt_up sees by (simp add: kept_def taken_def sees_def)
  next
    case False
    then show ?thesis using s' P'(3) by (simp add: kept_def taken_def)
  qed
  have chain: "chain (st_next s) (l_top (the_list w (taken t op tmp cnt s))) (P' (In w))" for w
  proof (cases "w = from_list op")
    case True
    then have "chain (st_next s) tmp (drop n xs)"
      using chain_drop [OF lf_invD(2) [OF inv(1), of "from_list op"], of n, folded xs_def] n(3) unfolding f(6) by blast
    then show ?thesis using P'(1) True by (simp add: taken_def)
  next
    case False
    then show ?thesis using lf_invD(2) [OF inv(1), of w] P'(3) by (simp add: taken_def)
  qed
  have seg: "seg_ok s (P' (By t)) op (xs ! 0) (xs ! (n - 1))"
    using n chain_linked [OF lf_invD(2) [OF inv(1), of "from_list op"], of n, folded xs_def]
    by (simp add: seg_ok_def P'(2) hd_conv_nth last_conv_nth n_def [symmetric] min_def)
  have seg': "seg_ok s' (P' (By t)) op (xs ! 0) (xs ! (n - 1))" if "\<And>es. same_at es s s'" for s'
    using seg_ok_same that seg by blast
  show ?thesis
  proof (cases op)
    case (Push objs)
    let ?s = "goto t (L_fill op (xs ! 0) (xs ! (n - 1)) 0 tp got) (taken t op tmp cnt s)"
    have "lf_inv E N P' ?s"
    proof (rule lf_inv_step [where new = "[]", OF inv])
      show "pc_ok ?s P' t (st_pc ?s t)"
        using f(1,4) seg' [of ?s] n by (simp add: pc_ok_def filling_def Push P'(2) taken_def)
      show "kept w s P ?s P'" for w by (rule kept) (simp_all add: taken_def)
      show "chain (st_next ?s) (l_top (the_list w ?s)) (P' (In w))" for w using chain [of w] by (simp add: taken_def)
      show "parted E P'" by (rule parted)
      show "length (P' (In w)) + unat (l_len (the_list w s)) + claim w (st_pc s t) =
        length (P (In w)) + unat (l_len (the_list w ?s)) + claim w (st_pc ?s t)" for w
        using n P'(1,3) pc by (cases "w = from_list op") (auto simp: claim_def taken_def xs_def n_def)
      show "run_log [] (map (st_data s) (P (In Used))) = Some (map (st_data ?s) (P' (In Used)))"
        using P'(3) [of Used] by (simp add: taken_def Push from_list_def)
    qed (use P'(4) pc in \<open>simp_all add: taken_def pend_def Push\<close>)
    then show ?thesis by (simp add: Push)
  next
    case (Pop m)
    let ?s = "goto t (A_top op (xs ! 0) (xs ! (n - 1)) got) (logged (E_pop t got) (taken t op tmp cnt s))"
    have got: "got = map (st_data s) (take n xs)" using f(7) by (simp add: read_ok_def Pop)
    have "lf_inv E N P' ?s"
    proof (rule lf_inv_step [where new = "[E_pop t got]", OF inv])
      show "pc_ok ?s P' t (st_pc ?s t)"
        using f(1) seg' [of ?s] by (simp add: pc_ok_def filled_def Pop taken_def)
      show "kept w s P ?s P'" for w by (rule kept) (simp_all add: taken_def)
      show "chain (st_next ?s) (l_top (the_list w ?s)) (P' (In w))" for w using chain [of w] by (simp add: taken_def)
      show "parted E P'" by (rule parted)
      show "length (P' (In w)) + unat (l_len (the_list w s)) + claim w (st_pc s t) =
        length (P (In w)) + unat (l_len (the_list w ?s)) + claim w (st_pc ?s t)" for w
        using n P'(1,3) pc by (cases "w = from_list op") (auto simp: claim_def taken_def xs_def n_def)
      show "run_log [E_pop t got] (map (st_data s) (P (In Used))) = Some (map (st_data ?s) (P' (In Used)))"
        using P'(1) n got by (simp add: taken_def Pop from_list_def xs_def take_map drop_map min_def)
    qed (use P'(4) pc in \<open>simp_all add: taken_def pend_def pop_event_def Pop\<close>)
    then show ?thesis by (simp add: Pop)
  qed
qed

lemma take_step: "i < length xs \<Longrightarrow> read_ok s op i xs got \<Longrightarrow>
    read_ok s op (Suc i) xs (case op of Pop _ \<Rightarrow> got @ [st_data s (xs ! i)] | Push _ \<Rightarrow> got)"
  by (auto simp: read_ok_def take_Suc_conv_app_nth split: lf_op.splits)

lemma walk_start: "lf_inv E N P s \<Longrightarrow> walk_ok s (P (In (from_list op))) op tp (l_cnt (the_list (from_list op) s)) 0 tp [] lst"
  using chain_hd [OF lf_invD(2), of E N P s "from_list op"] by (auto simp: walk_ok_def sees_def read_ok_def split: lf_op.split)

lemma pop_elems_head_inv:
  assumes inv: "lf_inv E N P s" "t < N" and step: "pop_elems_head t op s = Some s'" and cnt: "unat (l_cnt (the_list (from_list op) s)) + 1 < 2 ^ 64"
    and pc: "st_pc s t = L_top op \<or> (\<exists>tp. st_pc s t = L_cnt op tp) \<or> (\<exists>tp cnt i tmp got lst. st_pc s t = L_walk op tp cnt i tmp got lst) \<or>
      (\<exists>tp cnt i e got. st_pc s t = L_next op tp cnt i e got)"
  shows "\<exists>P'. lf_inv E N P' s'"
proof -
  let ?l = "the_list (from_list op) s"
  have ok: "op_ok op" "P (By t) = []" using lf_invD(4) [OF inv(1), of t] pc by (auto simp: pc_ok_def Let_def)
  note move = goto_inv [OF inv] and defs = pc_ok_def Let_def claim_def pend_def
  from pc consider (top) "st_pc s t = L_top op" | (cnt) tp where "st_pc s t = L_cnt op tp"
    | (walk) tp cnt i tmp got lst where "st_pc s t = L_walk op tp cnt i tmp got lst"
    | (nxt) tp cnt i e got where "st_pc s t = L_next op tp cnt i e got" by blast
  then show ?thesis
  proof cases
    case top
    have "lf_inv E N P (goto t (L_cnt op (l_top ?l)) s)" by (rule move) (use ok top in \<open>auto simp: defs\<close>)
    then show ?thesis using step top by (auto simp: pop_elems_head_def Let_def)
  next
    case (cnt tp)
    have "lf_inv E N P (goto t (L_walk op tp (l_cnt ?l) 0 tp [] None) s)"
      by (rule move) (use ok cnt walk_start [OF inv(1)] in \<open>auto simp: defs\<close>)
    then show ?thesis using step cnt by (auto simp: pop_elems_head_def Let_def)
  next
    case (nxt tp cnt i e got)
    have n: "i < op_num op" "next_ok s (P (In (from_list op))) op tp cnt i e got"
      using lf_invD(4) [OF inv(1), of t] nxt by (simp_all add: pc_ok_def Let_def)
    then have "walk_ok s (P (In (from_list op))) op tp cnt (i + 1) (st_next s e) got (Some e)"
      using chain_nth [OF lf_invD(2) [OF inv(1)], of i "from_list op"] by (auto simp: walk_ok_def next_ok_def)
    then have "lf_inv E N P (goto t (L_walk op tp cnt (i + 1) (st_next s e) got (Some e)) s)"
      by (intro move) (use ok n nxt in \<open>auto simp: defs\<close>)
    then show ?thesis using step nxt by (auto simp: pop_elems_head_def Let_def)
  next
    case (walk tp cnt i tmp got lst)
    have w: "i \<le> op_num op" "walk_ok s (P (In (from_list op))) op tp cnt i tmp got lst"
      using lf_invD(4) [OF inv(1), of t] walk by (simp_all add: pc_ok_def Let_def)
    show ?thesis
    proof (cases "if i < op_num op then tmp else None")
      case (Some e)
      then have i: "i < op_num op" "tmp = Some e" by (auto split: if_splits)
      have "next_ok s (P (In (from_list op))) op tp cnt i e (case op of Pop _ \<Rightarrow> got @ [st_data s e] | Push _ \<Rightarrow> got)"
        using w(2) i take_step [of i "P (In (from_list op))" s op got] by (auto simp: next_ok_def walk_ok_def split: if_splits)
      then have "lf_inv E N P (goto t (L_next op tp cnt i e (case op of Pop _ \<Rightarrow> got @ [st_data s e] | Push _ \<Rightarrow> got)) s)"
        by (intro move) (use ok i walk in \<open>auto simp: defs\<close>)
      then show ?thesis using step walk Some by (auto simp: pop_elems_head_def Let_def)
    next
      case None
      consider "i \<noteq> op_num op" | "i = op_num op" "\<not> sees (from_list op) tp cnt s" | "i = op_num op" "sees (from_list op) tp cnt s" by blast
      then show ?thesis
      proof cases
        case 1
        have "lf_inv E N P (goto t (L_top op) s)" by (rule move) (use ok walk in \<open>auto simp: defs\<close>)
        then show ?thesis using step walk None 1 by (auto simp: pop_elems_head_def Let_def split: if_splits)
      next
        case 2
        have "lf_inv E N P (goto t (L_walk op (l_top ?l) (l_cnt ?l) 0 (l_top ?l) [] lst) s)"
          by (rule move) (use ok walk walk_start [OF inv(1)] in \<open>auto simp: defs\<close>)
        then have "lf_inv E N P (set_success t (Some 0) (goto t (L_walk op (l_top ?l) (l_cnt ?l) 0 (l_top ?l) [] lst) s))"
          by (rule success_inv [OF _ inv(2)])
        then show ?thesis using step walk None 2 by (auto simp: pop_elems_head_def Let_def sees_def)
      next
        case 3
        note pc' = walk [unfolded 3(1)]
        note f = take_facts [OF inv(1) pc' 3(2)]
        show ?thesis using taken_inv [OF inv pc' 3(2) assms(4)] step walk 3 f(4,5)
          by (cases op) (auto simp: pop_elems_head_def Let_def sees_def taken_def)
      qed
    qed
  qed
qed

text \<open>A thread writes only to elements it holds.\<close>

lemma write_inv:
  assumes inv: "lf_inv E N P s" "t < N" and s': "s' = s\<lparr>st_data := d, st_next := nx\<rparr>"
    and out: "\<And>e. e \<notin> set (P (By t)) \<Longrightarrow> d e = st_data s e \<and> nx e = st_next s e"
    and pc: "pc_ok s' P t pc" "\<And>w. claim w pc = claim w (st_pc s t)" "pend t pc = pend t (st_pc s t)"
  shows "lf_inv E N P (goto t pc s')"
proof (rule lf_inv_step [where new = "[]", OF inv])
  have same: "same_at (P h) s s'" if "h \<noteq> By t" for h
    using partedD(2) [OF lf_invD(1) [OF inv(1)] that] out by (simp add: same_at_def s')
  have lists: "the_list w s' = the_list w s" for w by (simp add: s' the_list_def split: which.split)
  have map: "map (st_data s') (P (In w)) = map (st_data s) (P (In w))" for w
    using same [of "In w"] by (simp add: same_at_def)
  show "pc_ok (goto t pc s') P t (st_pc (goto t pc s') t)"
    using pc_ok_frame [OF pc(1), of P "goto t pc s'"] kept_refl by simp
  show "kept w s P (goto t pc s') P" for w using same [of "In w"] lists by (simp add: kept_def)
  show "chain (st_next (goto t pc s')) (l_top (the_list w (goto t pc s'))) (P (In w))" for w
  proof -
    have "chain (st_next s') (l_top (the_list w s)) (P (In w)) = chain (st_next s) (l_top (the_list w s)) (P (In w))"
      by (rule chain_cong) (use same [of "In w"] in \<open>simp add: same_at_def\<close>)
    then show ?thesis using lf_invD(2) [OF inv(1), of w] lists by simp
  qed
  show "length (P (In w)) + unat (l_len (the_list w s)) + claim w (st_pc s t) =
      length (P (In w)) + unat (l_len (the_list w (goto t pc s'))) + claim w (st_pc (goto t pc s') t)" for w
    using lists pc(2) by simp
  show "run_log [] (map (st_data s) (P (In Used))) = Some (map (st_data (goto t pc s')) (P (In Used)))"
    using map [of Used] by simp
  show "st_pc (goto t pc s') t' = st_pc s t' \<and> P (By t') = P (By t') \<and> same_at (P (By t')) s (goto t pc s')" if "t' \<noteq> t" for t'
    using that same [of "By t'"] by (simp add: s')
qed (use lf_invD(1) [OF inv(1)] pc(3) in \<open>simp_all add: s'\<close>)

lemma push_fill_inv:
  assumes inv: "lf_inv E N P s" "t < N" and step: "push_fill t op s = Some s'" and pc: "st_pc s t = L_fill op first lst i tmp got"
  shows "lf_inv E N P s'"
proof -
  have ok: "op_ok op" "seg_ok s (P (By t)) op first lst" "filling s (P (By t)) op i tmp"
    using lf_invD(4) [OF inv(1), of t] pc by (simp_all add: pc_ok_def Let_def)
  obtain objs where op: "op = Push objs" using ok(3) by (cases op) (auto simp: filling_def)
  have len: "length (P (By t)) = length objs" and link: "linked (st_next s) (P (By t))"
    using ok(2) by (simp_all add: seg_ok_def op op_num_def)
  have fill: "i \<le> length objs" "i < length objs \<Longrightarrow> tmp = Some (P (By t) ! i)"
    "\<And>k. k < i \<Longrightarrow> st_data s (P (By t) ! k) = objs ! (length objs - k - 1)"
    using ok(3) by (simp_all add: filling_def op)
  show ?thesis
  proof (cases "i < length objs")
    case True
    let ?e = "P (By t) ! i"
    define d where "d = (st_data s)(?e := objs ! (length objs - i - 1))"
    have e: "?e \<in> set (P (By t))" using True len by simp
    have dist: "P (By t) ! k = ?e \<longleftrightarrow> k = i" if "k < length objs" for k
      using partedD(1) [OF lf_invD(1) [OF inv(1)], of "By t"] that True len by (simp add: nth_eq_iff_index_eq)
    have "filling (s\<lparr>st_data := d\<rparr>) (P (By t)) op (i + 1) (st_next s ?e)"
      using True fill dist linked_nth [OF link, of i] len by (auto simp: filling_def op d_def less_Suc_eq)
    then have "lf_inv E N P (goto t (L_fill op first lst (i + 1) (st_next s ?e) got) (s\<lparr>st_data := d\<rparr>))"
      by (intro write_inv [OF inv, where d = d and nx = "st_next s"]) (use ok e pc in \<open>auto simp: pc_ok_def Let_def seg_ok_def claim_def pend_def d_def\<close>)
    then show ?thesis using step pc True fill(2) by (simp add: push_fill_def op d_def)
  next
    case False
    then have "i = length objs" using fill(1) by simp
    have "filled s (P (By t)) op"
      unfolding filled_def op lf_op.case
      by (rule nth_equalityI) (use fill(3) \<open>i = length objs\<close> len in \<open>auto simp: rev_nth\<close>)
    then have "lf_inv E N P (goto t (A_top op first lst got) s)"
      by (intro goto_inv [OF inv]) (use ok pc in \<open>auto simp: pc_ok_def Let_def claim_def pend_def pop_event_def op\<close>)
    then show ?thesis using step pc False by (simp add: push_fill_def op)
  qed
qed

text \<open>Adding the elements: the head is swapped while it is the one that the last element points to.\<close>

lemma added_inv:
  assumes inv: "lf_inv E N P s" "t < N" and pc: "st_pc s t = A_swap op first lst tp cnt got" and sees: "sees (to_list op) tp cnt s"
    and cnt: "unat (l_cnt (the_list (to_list op) s)) + 1 < 2 ^ 64"
  defines "s1 \<equiv> set_list (to_list op) ((the_list (to_list op) s)\<lparr>l_top := Some first, l_cnt := cnt + 1\<rparr>) s"
    and "P' \<equiv> move_all (By t) (In (to_list op)) (op_num op) P"
  shows "lf_inv E N P' (goto t (A_len op got) (case op of Push objs \<Rightarrow> logged (E_push t objs) s1 | Pop _ \<Rightarrow> s1))"
proof -
  define new where "new = (case op of Push objs \<Rightarrow> [E_push t objs] | Pop _ \<Rightarrow> [])"
  define s' where "s' = goto t (A_len op got) (case op of Push objs \<Rightarrow> logged (E_push t objs) s1 | Pop _ \<Rightarrow> s1)"
  have ok: "op_ok op" "seg_ok s (P (By t)) op first lst" "filled s (P (By t)) op" "st_next s lst = tp"
    using lf_invD(4) [OF inv(1), of t] pc by (simp_all add: pc_ok_def Let_def)
  have seg: "length (P (By t)) = op_num op" "P (By t) \<noteq> []" "hd (P (By t)) = first" "last (P (By t)) = lst" "linked (st_next s) (P (By t))"
    using ok(1,2) by (auto simp: seg_ok_def op_ok_def)
  have P': "P' (In (to_list op)) = P (By t) @ P (In (to_list op))" "P' (By t) = []" "\<And>w. w \<noteq> to_list op \<Longrightarrow> P' (In w) = P (In w)"
    "\<And>t'. t' \<noteq> t \<Longrightarrow> P' (By t') = P (By t')"
    using seg(1) by (simp_all add: P'_def move_all_def)
  have s': "the_list w s' = (if w = to_list op then (the_list w s)\<lparr>l_top := Some first, l_cnt := cnt + 1\<rparr> else the_list w s)"
    "st_data s' = st_data s" "st_next s' = st_next s" "h_log s' = h_log s @ new" "h_rets s' = h_rets s" "st_pc s' = (st_pc s)(t := A_len op got)" for w
    by (simp_all add: s'_def s1_def new_def split: lf_op.split)
  have same: "same_at es s s'" for es by (simp add: same_at_def s'(2,3))
  have "lf_inv E N P' s'"
  proof (rule lf_inv_step [where new = new, OF inv])
    show "kept w s P s' P'" for w
      using cnt cnt_up sees P'(3) same by (cases "w = to_list op") (simp_all add: kept_def s'(1) sees_def)
    show "chain (st_next s') (l_top (the_list w s')) (P' (In w))" for w
    proof (cases "w = to_list op")
      case True
      have "chain (st_next s) tp (P (In w))" using lf_invD(2) [OF inv(1), of w] sees True by (simp add: sees_def)
      then show ?thesis using chain_append [OF seg(5,2), of tp "P (In w)"] seg(3,4) ok(4) True P'(1) by (simp add: s'(1,3))
    next
      case False
      then show ?thesis using lf_invD(2) [OF inv(1), of w] P'(3) by (simp add: s'(1,3))
    qed
    show "parted E P'" unfolding P'_def by (rule parted_move [OF lf_invD(1) [OF inv(1)]]) simp
    show "length (P' (In w)) + unat (l_len (the_list w s)) + claim w (st_pc s t) =
        length (P (In w)) + unat (l_len (the_list w s')) + claim w (st_pc s' t)" for w
      using seg(1) P'(1,3) pc by (cases "w = to_list op") (auto simp: claim_def s'(1,6))
    show "pc_ok s' P' t (st_pc s' t)" using ok(1) P'(2) by (simp add: s'(6) pc_ok_def Let_def)
    show "run_log new (map (st_data s) (P (In Used))) = Some (map (st_data s') (P' (In Used)))"
      using P'(1,3) ok(3) by (cases op) (simp_all add: new_def s'(2) filled_def to_list_def)
    show "thread_of e = t" if "e \<in> set new" for e using that by (cases op) (simp_all add: new_def)
    show "h_rets s' t @ pend t (st_pc s' t) = h_rets s t @ pend t (st_pc s t) @ new"
      using pc by (cases op) (simp_all add: s'(5,6) pend_def pop_event_def new_def)
  qed (use P'(4) same s'(4-6) in simp_all)
  then show ?thesis by (simp only: s'_def)
qed

lemma count_inv:
  assumes inv: "lf_inv E N P s" "t < N" and E: "finite E" "card E < 2 ^ 32" and pc: "st_pc s t = A_len op got"
  defines "s1 \<equiv> set_list (to_list op) ((the_list (to_list op) s)\<lparr>l_len := l_len (the_list (to_list op) s) + of_nat (op_num op)\<rparr>) s"
  shows "lf_inv E N P (goto t (L_done op (op_num op) got) (returned t (case op of Push objs \<Rightarrow> E_push t objs | Pop _ \<Rightarrow> E_pop t got) s1))"
    (is "lf_inv E N P ?s")
proof (rule lf_inv_step [where new = "[]", OF inv])
  have ok: "op_ok op" "P (By t) = []" using lf_invD(4) [OF inv(1), of t] pc by (simp_all add: pc_ok_def Let_def)
  have lists: "the_list w ?s = (if w = to_list op then (the_list w s)\<lparr>l_len := l_len (the_list w s) + of_nat (op_num op)\<rparr> else the_list w s)" for w
    by (simp add: s1_def)
  show "kept w s P ?s P" for w by (simp add: kept_def lists) (simp add: s1_def)
  show "chain (st_next ?s) (l_top (the_list w ?s)) (P (In w))" for w
    using lf_invD(2) [OF inv(1), of w] by (cases "w = to_list op") (simp_all add: s1_def)
  show "pc_ok ?s P t (st_pc ?s t)" using ok by (simp add: pc_ok_def Let_def)
  show "length (P (In w)) + unat (l_len (the_list w s)) + claim w (st_pc s t) =
      length (P (In w)) + unat (l_len (the_list w ?s)) + claim w (st_pc ?s t)" for w
  proof (cases "w = to_list op")
    case True
    have "claim w (st_pc s t) \<le> (\<Sum>i < N. claim w (st_pc s i))" using inv(2) by (intro member_le_sum) simp_all
    then have "unat (l_len (the_list w s)) + op_num op \<le> length (P (In w))"
      using lf_invD(3) [OF inv(1), of w] pc True by (simp add: claim_def)
    then have "unat (l_len (the_list w s)) + op_num op < 2 ^ 64"
      using length_P [OF lf_invD(1) [OF inv(1)] E(1), of "In w"] E(2) by (simp add: order_le_less_trans)
    then have "unat (l_len (the_list w s) + of_nat (op_num op)) = unat (l_len (the_list w s)) + op_num op"
      using num_word [OF ok(1)] by (simp add: unat_add_lt)
    then show ?thesis using True pc by (simp add: s1_def claim_def)
  next
    case False
    then show ?thesis using pc by (simp add: s1_def claim_def)
  qed
  show "h_rets ?s t @ pend t (st_pc ?s t) = h_rets s t @ pend t (st_pc s t) @ []"
    using pc by (simp add: pend_def s1_def)
qed (use lf_invD(1) [OF inv(1)] in \<open>simp_all add: s1_def\<close>)

lemma push_elems_inv:
  assumes inv: "lf_inv E N P s" "t < N" and E: "finite E" "card E < 2 ^ 32" and step: "push_elems t op s = Some s'"
    and cnt: "unat (l_cnt (the_list (to_list op) s)) + 1 < 2 ^ 64"
    and pc: "(\<exists>f l got. st_pc s t = A_top op f l got) \<or> (\<exists>f l tp got. st_pc s t = A_cnt op f l tp got) \<or>
      (\<exists>f l tp cnt got. st_pc s t = A_link op f l tp cnt got) \<or> (\<exists>f l tp cnt got. st_pc s t = A_swap op f l tp cnt got) \<or>
      (\<exists>got. st_pc s t = A_len op got)"
  shows "\<exists>P'. lf_inv E N P' s'"
proof -
  let ?l = "the_list (to_list op) s"
  note defs = pc_ok_def Let_def claim_def pend_def
  have ok: "pc_ok s P t (st_pc s t)" by (rule lf_invD(4) [OF inv(1)])
  from pc consider (top) f l got where "st_pc s t = A_top op f l got" | (cnt) f l tp got where "st_pc s t = A_cnt op f l tp got"
    | (link) f l tp cnt got where "st_pc s t = A_link op f l tp cnt got" | (swap) f l tp cnt got where "st_pc s t = A_swap op f l tp cnt got"
    | (len) got where "st_pc s t = A_len op got" by blast
  then show ?thesis
  proof cases
    case (top f l got)
    have "lf_inv E N P (goto t (A_cnt op f l (l_top ?l) got) s)" by (rule goto_inv [OF inv]) (use ok top in \<open>auto simp: defs\<close>)
    then show ?thesis using step top by (auto simp: push_elems_def Let_def)
  next
    case (cnt f l tp got)
    have "lf_inv E N P (goto t (A_link op f l tp (l_cnt ?l) got) s)" by (rule goto_inv [OF inv]) (use ok cnt in \<open>auto simp: defs\<close>)
    then show ?thesis using step cnt by (auto simp: push_elems_def Let_def)
  next
    case (link f l tp cnt got)
    have seg: "op_ok op" "seg_ok s (P (By t)) op f l" "filled s (P (By t)) op" using ok link by (simp_all add: defs)
    have l: "l \<in> set (P (By t))" "last (P (By t)) = l" using seg_last [OF seg(1,2)] seg(2) by (simp_all add: seg_ok_def)
    let ?s = "s\<lparr>st_next := (st_next s)(l := tp)\<rparr>"
    have "seg_ok ?s (P (By t)) op f l"
      using seg(2) linked_last_free [OF partedD(1) [OF lf_invD(1) [OF inv(1)]], of "st_next s" "By t" tp] l(2) by (simp add: seg_ok_def)
    moreover have "filled ?s (P (By t)) op" using seg(3) by (simp add: filled_def split: lf_op.splits)
    ultimately have "lf_inv E N P (goto t (A_swap op f l tp cnt got) ?s)"
      by (intro write_inv [OF inv, where d = "st_data s" and nx = "(st_next s)(l := tp)"]) (use l link seg(1) in \<open>auto simp: defs\<close>)
    then show ?thesis using step link by (auto simp: push_elems_def Let_def)
  next
    case (swap f l tp cnt got)
    show ?thesis
    proof (cases "sees (to_list op) tp cnt s")
      case True
      show ?thesis using added_inv [OF inv swap True assms(6)] step swap True by (auto simp: push_elems_def Let_def sees_def)
    next
      case False
      have "lf_inv E N P (goto t (A_link op f l (l_top ?l) (l_cnt ?l) got) s)"
        by (rule goto_inv [OF inv]) (use ok swap in \<open>auto simp: defs\<close>)
      then show ?thesis using step swap False by (auto simp: push_elems_def Let_def sees_def)
    qed
  next
    case (len got)
    show ?thesis using count_inv [OF inv E len] step len by (auto simp: push_elems_def Let_def)
  qed
qed

lemma step_inv_ex:
  assumes inv: "lf_inv E N P s" and E: "finite E" "card E < 2 ^ 32" and step: "lf_step c11 N s s'"
  shows "\<exists>P'. lf_inv E N P' s'"
  using step
proof cases
  case (call t op)
  then show ?thesis using call_inv [OF inv call(2-4)] by blast
next
  case (step t)
  have cnt: "unat (l_cnt (the_list w s)) + 1 < 2 ^ 64" for w using step(3,4) by (cases w) (simp_all add: the_list_def)
  note head = pop_elems_head_inv [OF inv step(1) _ cnt] and add = push_elems_inv [OF inv step(1) E _ cnt]
    and len = pop_elems_len_inv [OF inv step(1)] and fill = push_fill_inv [OF inv step(1)]
  from step(2) show ?thesis
    by (cases "st_pc s t") (auto simp: rte_stack_lf_step_def dest: head len add fill)
qed

lemma run_inv_ex:
  assumes "lf_run c11 N s0 s" "lf_inv E N P s0" "finite E" "card E < 2 ^ 32"
  shows "\<exists>P'. lf_inv E N P' s"
  using assms by (induction rule: lf_run.induct) (use step_inv_ex in blast)+

lemma lf_start_inv:
  assumes "lf_fresh capacity es s"
  shows "lf_inv (set es) N (\<lambda>h. if h = In Free then es else []) s"
  unfolding lf_inv_def
proof (intro conjI allI impI)
  show "parted (set es) (\<lambda>h. if h = In Free then es else [])"
    using assms by (auto simp: parted_def lf_fresh_def)
  fix w
  have c: "unat (ucast capacity :: u64) = unat capacity"
  proof -
    have "unat capacity < 2 ^ 64" by (rule less_trans [OF unsigned_less]) simp
    then show ?thesis by (simp add: unsigned_ucast_eq take_bit_nat_eq_self)
  qed
  show "chain (st_next s) (l_top (the_list w s)) (if In w = In Free then es else [])"
    using assms by (cases w) (simp_all add: lf_fresh_def the_list_def)
  show "length (if In w = In Free then es else []) = unat (l_len (the_list w s)) + (\<Sum>t < N. claim w (st_pc s t))"
    using assms c by (cases w) (simp_all add: lf_fresh_def the_list_def claim_def)
qed (use assms in \<open>simp_all add: lf_fresh_def pc_ok_def pend_def\<close>)

section \<open>Properties\<close>

text \<open>C26. The lock-free stack is linearizable. However the threads interleave, on either memory model's code,
  as long as no thread of the C11 code tests its uninitialised variable (the steps of a run are defined
  ones; when such a test comes up is part of the property on progress), the successful calls in the order in which they took effect are a history of one stack: every pop
  got the objects then on top, in that order, and the stack never holds more than the capacity. Each
  thread's part of that history is the calls that returned success to it, with at most the one in
  progress after them. When no call is in progress the lengths of the lists are exact, so that
  \<open>rte_stack_lf_count\<close> is the size of the stack. The 64-bit counters of the heads are taken not to wrap; nothing is
  assumed of the order in which the two words of a head are read.\<close>

theorem lf_stack_linearizable:
  assumes "lf_fresh capacity es s0" "lf_run c11 N s0 s"
  shows "\<exists>st. run_log (h_log s) [] = Some st \<and> length st \<le> unat capacity \<and>
    (\<forall>t. \<exists>p. filter (\<lambda>e. thread_of e = t) (h_log s) = h_rets s t @ p \<and> length p \<le> 1 \<and> (lf_ready (st_pc s t) \<longrightarrow> p = [])) \<and>
    ((\<forall>t. lf_ready (st_pc s t)) \<longrightarrow>
      unat (rte_stack_lf_count s) = length st \<and> unat (l_len (st_free s)) = unat capacity - length st)"
proof -
  have card: "card (set es) = unat capacity" using assms(1) by (simp add: lf_fresh_def distinct_card)
  have "unat capacity < 2 ^ LENGTH(32)" by (rule unsigned_less)
  then have cap: "unat capacity < 2 ^ 32" by simp
  then have E: "finite (set es)" "card (set es) < 2 ^ 32" by (simp_all add: card)
  obtain P where inv: "lf_inv (set es) N P s" using run_inv_ex [OF assms(2) lf_start_inv [OF assms(1)] E] by blast
  let ?st = "map (st_data s) (P (In Used))"
  have size: "length ?st \<le> unat capacity" using length_P [OF lf_invD(1) [OF inv] E(1)] card by simp
  have "\<exists>p. filter (\<lambda>e. thread_of e = t) (h_log s) = h_rets s t @ p \<and> length p \<le> 1 \<and> (lf_ready (st_pc s t) \<longrightarrow> p = [])" for t
    by (rule exI [of _ "pend t (st_pc s t)"])
      (use lf_invD(7) [OF inv, of t] in \<open>simp add: pend_def pop_event_def lf_ready_def split: lf_pc.split lf_op.split\<close>)
  moreover have "unat (rte_stack_lf_count s) = length ?st \<and> unat (l_len (st_free s)) = unat capacity - length ?st"
    if idle: "\<forall>t. lf_ready (st_pc s t)"
  proof -
    have "claim w (st_pc s t) = 0" for w t using idle [rule_format, of t] by (auto simp: lf_ready_def claim_def split: lf_pc.splits)
    then have len: "length (P (In w)) = unat (l_len (the_list w s))" for w using lf_invD(3) [OF inv, of w] by simp
    have own: "P (By t) = []" for t
      using lf_invD(4) [OF inv, of t] idle [rule_format, of t] by (auto simp: lf_ready_def pc_ok_def split: lf_pc.splits)
    have all: "(\<Union>h. set (P h)) = set es" using lf_invD(1) [OF inv] by (simp add: parted_def)
    have two: "(\<Union>h. set (P h)) = set (P (In Used)) \<union> set (P (In Free))" (is "?A = ?B")
    proof
      show "?A \<subseteq> ?B"
      proof
        fix e
        assume "e \<in> ?A"
        then obtain h where h: "e \<in> set (P h)" by blast
        then show "e \<in> ?B"
        proof (cases h)
          case (In w)
          then show ?thesis using h by (cases w) auto
        next
          case (By t)
          then show ?thesis using h own by simp
        qed
      qed
    qed blast
    have "set (P (In Used)) \<inter> set (P (In Free)) = {}" using lf_invD(1) [OF inv] by (simp add: parted_def)
    then have "card (set es) = length (P (In Used)) + length (P (In Free))"
      using partedD(1) [OF lf_invD(1) [OF inv]] unfolding all [symmetric] two by (simp add: card_Un_disjoint distinct_card)
    moreover have "unat (rte_stack_lf_count s) = unat (l_len (st_used s))"
    proof -
      have "unat (l_len (st_used s)) < 2 ^ 32"
        using len [of Used] size cap by (simp add: the_list_def)
      then show ?thesis by (simp add: rte_stack_lf_count_def unsigned_ucast_eq take_bit_nat_eq_self)
    qed
    ultimately show ?thesis using len [of Used] len [of Free] card by (simp add: the_list_def)
  qed
  ultimately show ?thesis using lf_invD(6) [OF inv] size by blast
qed

section \<open>Progress\<close>

text \<open>The steps a thread still needs if it runs alone: a view that is not of the present head costs one
  more round.\<close>

definition walk_base :: "nat \<Rightarrow> lf_sys \<Rightarrow> which \<Rightarrow> nat option \<Rightarrow> u64 \<Rightarrow> nat" where
  "walk_base n s w tp cnt = (if sees w tp cnt s then 9 + n else 12 + 3 * n)"

definition lf_left :: "lf_sys \<Rightarrow> nat \<Rightarrow> nat" where
  "lf_left s t = (case st_pc s t of
     L_len op \<Rightarrow> 13 + 3 * op_num op
   | L_cas_len op len \<Rightarrow> (if l_len (the_list (from_list op) s) = len then 12 else 14) + 3 * op_num op
   | L_top op \<Rightarrow> 11 + 3 * op_num op
   | L_cnt op tp \<Rightarrow> if l_top (the_list (from_list op) s) = tp then 10 + 3 * op_num op else 13 + 5 * op_num op
   | L_walk op tp cnt i _ _ _ \<Rightarrow> walk_base (op_num op) s (from_list op) tp cnt + 2 * (op_num op - i)
   | L_next op tp cnt i _ _ \<Rightarrow> walk_base (op_num op) s (from_list op) tp cnt + 2 * (op_num op - i) - 1
   | L_fill op _ _ i _ _ \<Rightarrow> 8 + (op_num op - i)
   | A_top _ _ _ _ \<Rightarrow> 7
   | A_cnt _ _ _ _ _ \<Rightarrow> 6
   | A_link op _ _ tp cnt _ \<Rightarrow> if sees (to_list op) tp cnt s then 3 else 5
   | A_swap op _ _ tp cnt _ \<Rightarrow> if sees (to_list op) tp cnt s then 2 else 4
   | A_len _ _ \<Rightarrow> 1
   | _ \<Rightarrow> 0)"

lemma reserved_there:
  assumes inv: "lf_inv E N P s" "t < N" and "claim w (st_pc s t) = n"
  shows "n \<le> length (P (In w))"
proof -
  have "claim w (st_pc s t) \<le> (\<Sum>i < N. claim w (st_pc s i))" using inv(2) by (intro member_le_sum) simp_all
  then show ?thesis using lf_invD(3) [OF inv(1), of w] assms(3) by simp
qed

text \<open>A thread that is about to test \<open>success\<close> after its walk has run off the list, with no value in it.\<close>

definition tests_unset :: "nat \<Rightarrow> lf_sys \<Rightarrow> bool" where
  "tests_unset t s \<longleftrightarrow> (case st_pc s t of
     L_walk op tp cnt i tmp got lst \<Rightarrow> i < op_num op \<and> tmp = None \<and> st_success s t \<noteq> Some 0
   | _ \<Rightarrow> False)"

lemma run_off_stale:
  assumes inv: "lf_inv E N P s" "t < N" and walk: "st_pc s t = L_walk op tp cnt i None got lst" "i < op_num op"
  shows "\<not> sees (from_list op) tp cnt s"
proof -
  have "walk_ok s (P (In (from_list op))) op tp cnt i None got lst"
    using lf_invD(4) [OF inv(1), of t] walk by (simp add: pc_ok_def)
  moreover have "op_num op \<le> length (P (In (from_list op)))"
    by (rule reserved_there [OF inv]) (simp add: walk claim_def)
  ultimately show ?thesis using walk(2) by (auto simp: walk_ok_def)
qed

lemma left_head:
  assumes inv: "lf_inv E N P s" "t < N" and set: "\<not> tests_unset t s"
    and pc: "st_pc s t = L_top op \<or> (\<exists>tp. st_pc s t = L_cnt op tp) \<or> (\<exists>tp cnt i tmp got lst. st_pc s t = L_walk op tp cnt i tmp got lst) \<or>
      (\<exists>tp cnt i e got. st_pc s t = L_next op tp cnt i e got)"
  shows "\<exists>s'. pop_elems_head t op s = Some s' \<and> lf_left s' t < lf_left s t"
proof -
  let ?w = "from_list op"
  from pc consider (top) "st_pc s t = L_top op" | (cnt) tp where "st_pc s t = L_cnt op tp"
    | (walk) tp cnt i tmp got lst where "st_pc s t = L_walk op tp cnt i tmp got lst"
    | (nxt) tp cnt i e got where "st_pc s t = L_next op tp cnt i e got" by blast
  then show ?thesis
  proof cases
    case top
    then show ?thesis by (simp add: pop_elems_head_def Let_def lf_left_def)
  next
    case (cnt tp)
    then show ?thesis by (simp add: pop_elems_head_def Let_def lf_left_def walk_base_def sees_def)
  next
    case (nxt tp cnt i e got)
    have "i < op_num op" using lf_invD(4) [OF inv(1), of t] nxt by (simp add: pc_ok_def)
    then show ?thesis using nxt by (simp add: pop_elems_head_def Let_def lf_left_def walk_base_def sees_def)
  next
    case (walk tp cnt i tmp got lst)
    have w: "op_ok op" "i \<le> op_num op" "walk_ok s (P (In ?w)) op tp cnt i tmp got lst"
      using lf_invD(4) [OF inv(1), of t] walk by (simp_all add: pc_ok_def)
    show ?thesis
    proof (cases "if i < op_num op then tmp else None")
      case (Some e)
      then have "i < op_num op" "tmp = Some e" by (auto split: if_splits)
      then show ?thesis using walk by (simp add: pop_elems_head_def Let_def lf_left_def walk_base_def sees_def)
    next
      case None
      show ?thesis
      proof (cases "i = op_num op")
        case True
        show ?thesis
        proof (cases "sees ?w tp cnt s")
          case sees: True
          note f = take_facts [OF inv(1) walk [unfolded True] sees]
          show ?thesis using walk None True sees f(4,5)
            by (cases op) (auto simp: pop_elems_head_def Let_def lf_left_def walk_base_def sees_def)
        next
          case False
          then show ?thesis using walk None True
            by (auto simp: pop_elems_head_def Let_def lf_left_def walk_base_def sees_def)
        qed
      next
        case False
        then have i: "i < op_num op" "tmp = None" using w(2) None by auto
        have "\<not> sees ?w tp cnt s" using run_off_stale [OF inv] walk i by blast
        moreover have "st_success s t = Some 0" using set walk i by (simp add: tests_unset_def)
        ultimately show ?thesis using walk i by (simp add: pop_elems_head_def Let_def lf_left_def walk_base_def)
      qed
    qed
  qed
qed

lemma left_step:
  assumes inv: "lf_inv E N P s" "t < N" and busy: "\<not> lf_ready (st_pc s t)" and set: "\<not> tests_unset t s"
  shows "\<exists>s'. rte_stack_lf_step c11 t s = Some s' \<and> lf_left s' t < lf_left s t"
proof (cases "st_pc s t")
  case (L_fill op first lst i tmp got)
  have "filling s (P (By t)) op i tmp" using lf_invD(4) [OF inv(1), of t] L_fill by (simp add: pc_ok_def Let_def)
  then show ?thesis using L_fill
    by (cases op) (auto simp: rte_stack_lf_step_def push_fill_def filling_def lf_left_def op_num_def)
next
  case (L_cas_len op len)
  then show ?thesis by (auto simp: rte_stack_lf_step_def pop_elems_len_def Let_def lf_left_def)
qed (use busy left_head [OF inv set] in \<open>auto simp: rte_stack_lf_step_def pop_elems_len_def push_elems_def Let_def lf_left_def sees_def lf_ready_def split: lf_op.split\<close>)

lemma other_pc:
  assumes "rte_stack_lf_step c11 t' s = Some s'" "t \<noteq> t'"
  shows "st_pc s' t = st_pc s t"
  using assms unfolding rte_stack_lf_step_def
  by (cases "st_pc s t'")
    (auto simp: pop_elems_len_def pop_elems_head_def push_fill_def push_elems_def Let_def split: if_splits option.splits lf_op.splits)

text \<open>The variable \<open>success\<close> of a thread: others leave it alone, and the thread sets it only to 0.\<close>

lemma step_success:
  assumes "rte_stack_lf_step c11 t' s = Some s'"
  shows "st_success s' t = st_success s t \<or> t = t' \<and> st_success s' t = Some 0"
  using assms unfolding rte_stack_lf_step_def
  by (cases "st_pc s t'")
    (auto simp: pop_elems_len_def pop_elems_head_def push_fill_def push_elems_def Let_def split: if_splits option.splits lf_op.splits)

lemma ready_no_step: "lf_ready (st_pc s t) \<Longrightarrow> rte_stack_lf_step c11 t s = None"
  by (auto simp: lf_ready_def rte_stack_lf_step_def split: lf_pc.splits)

text \<open>The generic code always has a value in it.\<close>

lemma generic_success:
  assumes "lf_run c11 N s0 s" "\<not> c11" "\<And>t. st_pc s0 t = L_idle"
  shows "lf_ready (st_pc s t) \<or> st_success s t = Some 0"
  using assms(1)
proof (induction arbitrary: t rule: lf_run.induct)
  case refl
  then show ?case using assms(3) by (simp add: lf_ready_def)
next
  case (step s s')
  from step.hyps(2) show ?case
  proof cases
    case (call t' op)
    then show ?thesis using step.IH [of t] assms(2) by (cases "t = t'") (simp_all add: rte_stack_lf_call_def)
  next
    case (step t')
    show ?thesis
    proof (cases "t = t'")
      case True
      then show ?thesis using step_success [OF step(2), of t] ready_no_step [of s t'] step(2) \<open>\<And>t. lf_ready (st_pc s t) \<or> st_success s t = Some 0\<close> [of t]
        by auto
    next
      case False
      then show ?thesis using step_success [OF step(2), of t] other_pc [OF step(2) False] \<open>\<And>t. lf_ready (st_pc s t) \<or> st_success s t = Some 0\<close> [of t]
        by auto
    qed
  qed
qed

definition op_of :: "lf_pc \<Rightarrow> lf_op" where
  "op_of pc = (case pc of L_len op \<Rightarrow> op | L_cas_len op _ \<Rightarrow> op | L_top op \<Rightarrow> op | L_cnt op _ \<Rightarrow> op | L_walk op _ _ _ _ _ _ \<Rightarrow> op
     | L_next op _ _ _ _ _ \<Rightarrow> op | L_fill op _ _ _ _ _ \<Rightarrow> op | A_top op _ _ _ \<Rightarrow> op | A_cnt op _ _ _ _ \<Rightarrow> op | A_link op _ _ _ _ _ \<Rightarrow> op
     | A_swap op _ _ _ _ _ \<Rightarrow> op | A_len op _ \<Rightarrow> op | L_done op _ _ \<Rightarrow> op | L_idle \<Rightarrow> Pop 0)"

lemma left_bound: "lf_left s t \<le> 14 + 5 * op_num (op_of (st_pc s t))"
  by (cases "st_pc s t") (auto simp: lf_left_def op_of_def walk_base_def)

text \<open>C27. Calls end unless others get through. In every reachable state a thread inside a call can take a
  step (it never follows a null link), with one exception, and each of its steps brings it closer to its
  return by a measure of at most five steps for each object plus 14. A step of another thread leaves the
  measure alone unless it changes a list head or length, that is, unless that other call gets ahead.
  The exception is a fault of the C11 code, whose loop tests the variable \<open>success\<close> before it has a value
  when the first walk runs off the list: then the thread has no defined step. It arises only from a walk
  whose head another thread has changed since, and never in the generic code. (It does arise:
  lemma \<open>lf_stack_c11_undefined\<close>.)\<close>

theorem lf_stack_progress:
  assumes "lf_fresh capacity es s0" "lf_run c11 N s0 s" "t < N" "\<not> lf_ready (st_pc s t)"
  shows "(if tests_unset t s
      then c11 \<and> rte_stack_lf_step c11 t s = None \<and> (\<forall>op tp cnt i tmp got lst. st_pc s t = L_walk op tp cnt i tmp got lst \<longrightarrow>
        \<not> sees (from_list op) tp cnt s)
      else \<exists>s'. rte_stack_lf_step c11 t s = Some s' \<and> lf_left s' t < lf_left s t) \<and>
    (\<forall>t' s'. t' \<noteq> t \<longrightarrow> rte_stack_lf_step c11 t' s = Some s' \<longrightarrow> (\<forall>w. the_list w s' = the_list w s) \<longrightarrow> lf_left s' t = lf_left s t) \<and>
    lf_left s t \<le> 14 + 5 * op_num (op_of (st_pc s t))"
proof (intro conjI allI impI)
  have card: "card (set es) = unat capacity" using assms(1) by (simp add: lf_fresh_def distinct_card)
  have "unat capacity < 2 ^ LENGTH(32)" by (rule unsigned_less)
  then have E: "finite (set es)" "card (set es) < 2 ^ 32" by (simp_all add: card)
  obtain P where inv: "lf_inv (set es) N P s" using run_inv_ex [OF assms(2) lf_start_inv [OF assms(1)] E] by blast
  show "if tests_unset t s
      then c11 \<and> rte_stack_lf_step c11 t s = None \<and> (\<forall>op tp cnt i tmp got lst. st_pc s t = L_walk op tp cnt i tmp got lst \<longrightarrow>
        \<not> sees (from_list op) tp cnt s)
      else \<exists>s'. rte_stack_lf_step c11 t s = Some s' \<and> lf_left s' t < lf_left s t"
  proof (cases "tests_unset t s")
    case True
    then obtain op tp cnt i got lst where w: "st_pc s t = L_walk op tp cnt i None got lst" "i < op_num op" "st_success s t \<noteq> Some 0"
      by (auto simp: tests_unset_def split: lf_pc.splits)
    have "rte_stack_lf_step c11 t s = None" using w by (simp add: rte_stack_lf_step_def pop_elems_head_def Let_def)
    moreover have c11 using generic_success [OF assms(2), of t] assms(1,4) w(3) by (auto simp: lf_fresh_def)
    ultimately show ?thesis using True run_off_stale [OF inv assms(3) w(1,2)] w(1) by simp
  qed (use left_step [OF inv assms(3,4)] in simp)
next
  fix t' s'
  assume "t' \<noteq> t" "rte_stack_lf_step c11 t' s = Some s'" and lists: "\<forall>w. the_list w s' = the_list w s"
  then have "st_pc s' t = st_pc s t" by (intro other_pc [of c11 t' s s' t]) simp_all
  then show "lf_left s' t = lf_left s t" using lists by (cases "st_pc s t") (simp_all add: lf_left_def walk_base_def sees_def)
qed (rule left_bound)

section \<open>A run\<close>

text \<open>Thread 0 pushes two objects; while its call is under way thread 1 pops one of the two.\<close>

datatype lf_move = Call nat lf_op | Go nat

definition lf_move :: "bool \<Rightarrow> lf_move \<Rightarrow> lf_sys \<Rightarrow> lf_sys option" where
  "lf_move c11 m s = (case m of
     Call t op \<Rightarrow> if t < 2 \<and> lf_ready (st_pc s t) \<and> op_num op < 2 ^ 32 then Some (rte_stack_lf_call c11 t op s) else None
   | Go t \<Rightarrow> if t < 2 \<and> unat (l_cnt (st_used s)) + 1 < 2 ^ 64 \<and> unat (l_cnt (st_free s)) + 1 < 2 ^ 64
       then rte_stack_lf_step c11 t s else None)"

fun lf_moves :: "bool \<Rightarrow> lf_move list \<Rightarrow> lf_sys \<Rightarrow> lf_sys option" where
  "lf_moves c11 [] s = Some s"
| "lf_moves c11 (m # ms) s = Option.bind (lf_move c11 m s) (lf_moves c11 ms)"

lemma lf_moves_run: "lf_moves c11 ms s = Some s' \<Longrightarrow> lf_run c11 2 s0 s \<Longrightarrow> lf_run c11 2 s0 s'"
proof (induction ms arbitrary: s)
  case (Cons m ms)
  then obtain s1 where s1: "lf_move c11 m s = Some s1" "lf_moves c11 ms s1 = Some s'" by (auto split: bind_splits)
  have "lf_step c11 2 s s1"
    using s1(1) by (auto simp: lf_move_def intro: lf_step.intros split: lf_move.splits if_splits)
  then show ?case using Cons.IH [OF s1(2)] Cons.prems(2) lf_run.step by blast
qed simp

definition ex_stack :: lf_sys where
  "ex_stack = \<lparr>st_data = (\<lambda>_. 0), st_next = (\<lambda>e. if e = 0 then Some 1 else None),
     st_used = \<lparr>l_top = None, l_cnt = 0, l_len = 0\<rparr>, st_free = \<lparr>l_top = Some 0, l_cnt = 0, l_len = 2\<rparr>,
     st_pc = (\<lambda>_. L_idle), st_success = (\<lambda>_. None), h_log = [], h_rets = (\<lambda>_. [])\<rparr>"

lemma ex_fresh: "lf_fresh 2 [0, 1] ex_stack"
  by (simp add: lf_fresh_def ex_stack_def)

definition ex_moves :: "lf_move list" where
  "ex_moves = [Call 0 (Push [7, 8]), Go 0, Go 0, Go 0, Go 0, Go 0, Go 0, Go 0, Go 0, Go 0, Go 0, Go 0, Go 0, Go 0, Go 0, Go 0, Go 0, Go 0,
     Call 1 (Pop 1), Go 1, Go 1, Go 1, Go 1, Go 1, Go 1, Go 1]"

lemmas lf_run_defs = lf_move_def rte_stack_lf_call_def rte_stack_lf_step_def pop_elems_len_def pop_elems_head_def push_fill_def push_elems_def
  goto_def set_list_def set_success_def the_list_def logged_def returned_def from_list_def to_list_def op_num_def lf_ready_def

lemma ex_run: "map_option (\<lambda>s. (h_log s, st_pc s 0, st_pc s 1)) (lf_moves c11 ex_moves ex_stack) =
    Some ([E_push 0 [7, 8], E_pop 1 [8]], L_done (Push [7, 8]) 2 [], A_top (Pop 1) 0 0 [8])"
  by (simp add: ex_moves_def ex_stack_def lf_run_defs)

lemma ex_state:
  obtains s where "lf_run True 2 ex_stack s" "h_log s = [E_push 0 [7, 8], E_pop 1 [8]]" "st_pc s 0 = L_done (Push [7, 8]) 2 []"
    "st_pc s 1 = A_top (Pop 1) 0 0 [8]"
proof -
  obtain s where s: "lf_moves True ex_moves ex_stack = Some s" "h_log s = [E_push 0 [7, 8], E_pop 1 [8]]"
    "st_pc s 0 = L_done (Push [7, 8]) 2 []" "st_pc s 1 = A_top (Pop 1) 0 0 [8]"
    using ex_run [of True] by auto
  show thesis by (rule that [OF lf_moves_run [OF s(1) lf_run.refl] s(2-4)])
qed

theorem lf_stack_linearizable_witness:
  "\<exists>s. lf_run True 2 ex_stack s \<and> h_log s = [E_push 0 [7, 8], E_pop 1 [8]] \<and> h_rets s 0 = [E_push 0 [7, 8]] \<and>
    run_log (h_log s) [] = Some [7]"
proof -
  obtain s where s: "lf_run True 2 ex_stack s" "h_log s = [E_push 0 [7, 8], E_pop 1 [8]]" "st_pc s 0 = L_done (Push [7, 8]) 2 []"
    by (rule ex_state)
  obtain p where "filter (\<lambda>e. thread_of e = 0) (h_log s) = h_rets s 0 @ p" "lf_ready (st_pc s 0) \<longrightarrow> p = []"
    using lf_stack_linearizable [OF ex_fresh s(1)] by blast
  then have "h_rets s 0 = [E_push 0 [7, 8]]" using s(2,3) by (simp add: lf_ready_def)
  then show ?thesis using s(1,2) by (intro exI [of _ s]) simp
qed

theorem lf_stack_progress_witness:
  "\<exists>s. lf_run True 2 ex_stack s \<and> st_pc s 1 = A_top (Pop 1) 0 0 [8] \<and> (\<exists>s'. rte_stack_lf_step True 1 s = Some s' \<and> lf_left s' 1 < 7)"
proof -
  obtain s where s: "lf_run True 2 ex_stack s" "st_pc s 1 = A_top (Pop 1) 0 0 [8]" by (rule ex_state)
  have "\<exists>s'. rte_stack_lf_step True 1 s = Some s' \<and> lf_left s' 1 < lf_left s 1"
    using lf_stack_progress [OF ex_fresh s(1), of 1] s(2) by (simp add: lf_ready_def tests_unset_def)
  moreover have "lf_left s 1 = 7" using s(2) by (simp add: lf_left_def)
  ultimately show ?thesis using s by auto
qed

text \<open>The undefined test of the C11 code. Three objects are on the stack. Thread 0 begins to pop two and has
  read the head and the first element; thread 1 pops one object, and puts its element, the first one, on
  the empty free list, so that its link is null. Thread 0 follows that link, is one element short, and
  comes to the test with a variable that was never set.\<close>

definition ex_stack3 :: lf_sys where
  "ex_stack3 = ex_stack\<lparr>st_next := (\<lambda>e. if e < 2 then Some (e + 1) else None), st_free := \<lparr>l_top = Some 0, l_cnt = 0, l_len = 3\<rparr>\<rparr>"

lemma ex_fresh3: "lf_fresh 3 [0, 1, 2] ex_stack3"
  by (simp add: lf_fresh_def ex_stack3_def ex_stack_def)

definition ex_moves3 :: "lf_move list" where
  "ex_moves3 = [Call 0 (Push [7, 8, 9]), Go 0, Go 0, Go 0, Go 0, Go 0, Go 0, Go 0, Go 0, Go 0, Go 0,
     Go 0, Go 0, Go 0, Go 0, Go 0, Go 0, Go 0, Go 0, Go 0, Go 0,
     Call 0 (Pop 2), Go 0, Go 0, Go 0, Go 0, Go 0,
     Call 1 (Pop 1), Go 1, Go 1, Go 1, Go 1, Go 1, Go 1, Go 1, Go 1, Go 1, Go 1, Go 1, Go 1,
     Go 0]"

lemma ex_run3: "map_option (\<lambda>s. (st_pc s 0, st_success s 0)) (lf_moves True ex_moves3 ex_stack3) =
    Some (L_walk (Pop 2) (Some 0) 1 1 None [9] (Some 0), None)"
  by (simp add: ex_moves3_def ex_stack3_def ex_stack_def lf_run_defs)

lemma lf_stack_c11_undefined:
  "\<exists>s. lf_run True 2 ex_stack3 s \<and> tests_unset 0 s \<and> rte_stack_lf_step True 0 s = None"
proof -
  obtain s where s: "lf_moves True ex_moves3 ex_stack3 = Some s" "st_pc s 0 = L_walk (Pop 2) (Some 0) 1 1 None [9] (Some 0)" "st_success s 0 = None"
    using ex_run3 by auto
  have "tests_unset 0 s" using s(2,3) by (simp add: tests_unset_def op_num_def)
  moreover have "rte_stack_lf_step True 0 s = None"
    using s(2,3) by (simp add: rte_stack_lf_step_def pop_elems_head_def Let_def op_num_def)
  ultimately show ?thesis using lf_moves_run [OF s(1) lf_run.refl] by blast
qed

end
