(* ===== verification/Rte_Stack_Std.thy ===== *)
theory Rte_Stack_Std
  imports Rte_Stack
begin

text \<open>
  The stack in an array: push and pop against a list with its top first.
\<close>

definition std_inv :: "rte_stack_std \<Rightarrow> bool" where
  "std_inv s \<longleftrightarrow> length (s_objs s) = unat (s_capacity s) \<and> s_len s \<le> s_capacity s"

definition std_content :: "rte_stack_std \<Rightarrow> u64 list" where
  "std_content s = rev (take (unat (s_len s)) (s_objs s))"

lemma std_store_exact: "at + length xs \<le> length objs \<Longrightarrow> std_store objs at xs = Some (take at objs @ xs @ drop (at + length xs) objs)"
proof (induction xs arbitrary: objs at)
  case (Cons x xs)
  have "take (Suc at) (objs[at := x]) = take at objs @ [x]" using Cons.prems by (simp add: take_Suc_conv_app_nth)
  then show ?case using Cons by simp
qed simp

lemma std_store_over: "at \<le> length objs \<Longrightarrow> length objs < at + length xs \<Longrightarrow> std_store objs at xs = None"
  by (induction xs arbitrary: objs at) auto

lemma std_load_exact:
  "k \<le> Suc (unat len) \<Longrightarrow> unat len < length objs \<Longrightarrow> std_load objs len k = Some (take k (rev (take (Suc (unat len)) objs)))"
proof (induction k arbitrary: len)
  case (Suc k)
  have hd: "rev (take (Suc (unat len)) objs) = objs ! unat len # rev (take (unat len) objs)"
    using Suc.prems by (simp add: take_Suc_conv_app_nth)
  show ?case
  proof (cases k)
    case 0
    then show ?thesis using Suc.prems hd by simp
  next
    case (Suc j)
    then have "0 < unat len" "len \<noteq> 0" using Suc.prems by auto
    then have len: "unat (len - 1) = unat len - 1" "0 < unat len" by (simp_all add: unat_minus_one)
    then have "std_load objs (len - 1) k = Some (take k (rev (take (unat len) objs)))"
      using Suc.IH [of "len - 1"] Suc.prems by simp
    then show ?thesis using Suc.prems hd by simp
  qed
qed simp

lemma std_push_exact:
  assumes "std_inv s" "unat n \<le> length obj_table" "unat (s_len s) + unat n < 2 ^ 32"
  shows "rte_stack_std_push s obj_table n =
    (if unat n \<le> unat (s_capacity s) - unat (s_len s)
     then Some (n, s\<lparr>s_objs := take (unat (s_len s)) (s_objs s) @ take (unat n) obj_table @ drop (unat (s_len s) + unat n) (s_objs s),
       s_len := s_len s + n\<rparr>) else Some (0, s))"
proof -
  have len: "unat (s_len s + n) = unat (s_len s) + unat n" using assms(3) by (simp add: unat_add_lt)
  have cap: "unat (s_len s) \<le> unat (s_capacity s)" using assms(1) by (simp add: std_inv_def word_le_nat_alt)
  show ?thesis
  proof (cases "unat n \<le> unat (s_capacity s) - unat (s_len s)")
    case True
    then have "\<not> s_capacity s < s_len s + n" using cap by (simp add: word_less_nat_alt len)
    moreover have "std_store (s_objs s) (unat (s_len s)) (take (unat n) obj_table) =
        Some (take (unat (s_len s)) (s_objs s) @ take (unat n) obj_table @ drop (unat (s_len s) + unat n) (s_objs s))"
      using std_store_exact [of "unat (s_len s)" "take (unat n) obj_table" "s_objs s"] True cap assms(1,2) by (simp add: std_inv_def min_def)
    ultimately show ?thesis using True assms(2) by (simp add: rte_stack_std_push_def)
  next
    case False
    then have "s_capacity s < s_len s + n" using cap by (simp add: word_less_nat_alt len)
    then show ?thesis using False by (simp add: rte_stack_std_push_def)
  qed
qed

text \<open>C28. The array stack is a bounded stack. A push that fits puts the caller's objects on top in their
  order, one that does not changes nothing and returns 0; a pop of at most the objects there returns the
  topmost, top first, one of more returns 0 and changes nothing; the counts are exact and the invariant
  is kept. The sum of length and number must not wrap: the code compares it in 32 bits.\<close>

theorem rte_stack_std_lifo:
  assumes "std_inv s" "unat n \<le> length obj_table" "unat (s_len s) + unat n < 2 ^ 32"
  shows "\<exists>r s' got m s''. rte_stack_std_push s obj_table n = Some (r, s') \<and> std_inv s' \<and>
      (if unat n \<le> unat (rte_stack_std_free_count s)
       then r = n \<and> std_content s' = rev (take (unat n) obj_table) @ std_content s else r = 0 \<and> s' = s) \<and>
    rte_stack_std_pop s n = Some (got, m, s'') \<and> std_inv s'' \<and>
      (if unat n \<le> length (std_content s)
       then m = n \<and> got = take (unat n) (std_content s) \<and> std_content s'' = drop (unat n) (std_content s) else m = 0 \<and> s'' = s) \<and>
    unat (rte_stack_std_count s) = length (std_content s)"
proof -
  have inv: "length (s_objs s) = unat (s_capacity s)" "unat (s_len s) \<le> unat (s_capacity s)"
    using assms(1) by (simp_all add: std_inv_def word_le_nat_alt)
  have size: "length (std_content s) = unat (s_len s)" using inv by (simp add: std_content_def)
  have free: "unat (rte_stack_std_free_count s) = unat (s_capacity s) - unat (s_len s)"
    using inv(2) by (simp add: rte_stack_std_free_count_def rte_stack_std_count_def unat_sub_le)
  have push: "\<exists>r s'. rte_stack_std_push s obj_table n = Some (r, s') \<and> std_inv s' \<and>
      (if unat n \<le> unat (rte_stack_std_free_count s)
       then r = n \<and> std_content s' = rev (take (unat n) obj_table) @ std_content s else r = 0 \<and> s' = s)"
    using assms inv unfolding std_push_exact [OF assms]
    by (auto simp: free std_inv_def std_content_def word_le_nat_alt unat_add_lt min_def)
  have pop: "\<exists>got m s''. rte_stack_std_pop s n = Some (got, m, s'') \<and> std_inv s'' \<and>
      (if unat n \<le> length (std_content s)
       then m = n \<and> got = take (unat n) (std_content s) \<and> std_content s'' = drop (unat n) (std_content s) else m = 0 \<and> s'' = s)"
  proof (cases "unat n \<le> unat (s_len s)")
    case True
    have sub: "unat (s_len s - n) = unat (s_len s) - unat n" using True by (simp add: unat_sub_le)
    have "std_load (s_objs s) (s_len s - 1) (unat n) = Some (take (unat n) (std_content s))"
    proof (cases "unat (s_len s)")
      case 0
      then show ?thesis using True by simp
    next
      case (Suc l)
      then have "unat (s_len s - 1) = l" by (subst unat_minus_one) auto
      then show ?thesis using std_load_exact [of "unat n" "s_len s - 1" "s_objs s"] True Suc inv by (simp add: std_content_def)
    qed
    then have r: "rte_stack_std_pop s n = Some (take (unat n) (std_content s), n, s\<lparr>s_len := s_len s - n\<rparr>)"
      using True by (simp add: rte_stack_std_pop_def word_less_nat_alt not_less)
    have c: "std_content (s\<lparr>s_len := s_len s - n\<rparr>) = drop (unat n) (std_content s)"
    proof -
      have "rev (drop (unat n) (std_content s)) = take (unat (s_len s) - unat n) (take (unat (s_len s)) (s_objs s))"
        using True inv by (simp add: std_content_def rev_drop)
      then have "rev (drop (unat n) (std_content s)) = take (unat (s_len s) - unat n) (s_objs s)" by (simp add: min_def)
      then show ?thesis by (metis rev_swap sub std_content_def rte_stack_std.select_convs(2,3) rte_stack_std.surjective rte_stack_std.update_convs(2))
    qed
    have i: "std_inv (s\<lparr>s_len := s_len s - n\<rparr>)" using inv sub by (simp add: std_inv_def word_le_nat_alt)
    show ?thesis unfolding r using True c i size by simp
  next
    case False
    then show ?thesis using size assms(1) by (simp add: rte_stack_std_pop_def word_less_nat_alt)
  qed
  have count: "unat (rte_stack_std_count s) = length (std_content s)" using size by (simp add: rte_stack_std_count_def)
  from push pop count show ?thesis by blast
qed

definition ex_std :: rte_stack_std where
  "ex_std = \<lparr>s_capacity = 3, s_len = 1, s_objs = [5, 0, 0]\<rparr>"

theorem rte_stack_std_lifo_witness:
  "\<exists>s'. rte_stack_std_push ex_std [7, 8] 2 = Some (2, s') \<and> std_content s' = [8, 7, 5]"
proof -
  have inv: "std_inv ex_std" by (simp add: std_inv_def ex_std_def)
  obtain r s' where "rte_stack_std_push ex_std [7, 8] 2 = Some (r, s')"
    "if unat (2 :: u32) \<le> unat (rte_stack_std_free_count ex_std)
     then r = 2 \<and> std_content s' = rev (take (unat (2 :: u32)) [7, 8]) @ std_content ex_std else r = 0 \<and> s' = ex_std"
    using rte_stack_std_lifo [OF inv, of 2 "[7, 8]"] by (auto simp: ex_std_def)
  then show ?thesis by (simp add: ex_std_def rte_stack_std_free_count_def rte_stack_std_count_def std_content_def)
qed

text \<open>When the sum wraps, the test lets the call through and the copy leaves the array.\<close>

lemma rte_stack_std_push_wraps:
  assumes "std_inv s" "s_capacity s < n" "s_len s + n \<le> s_capacity s" "unat n \<le> length obj_table"
  shows "rte_stack_std_push s obj_table n = None"
  using assms std_store_over [of "unat (s_len s)" "s_objs s" "take (unat n) obj_table"]
  by (simp add: rte_stack_std_push_def std_inv_def word_less_nat_alt word_le_nat_alt)

end
