(* ===== verification/Rte_Red.thy ===== *)
theory Rte_Red
  imports Prelude "HOL-Library.Monad_Syntax"
begin

text \<open>
  Random early detection, rte\_red.h: the average queue length as a fixed-point moving average, and the
  decision to take or drop a packet. The tables for the decay of an idle queue are compiled data and
  arguments here; the two words of the random generator are a state. \<open>None\<close> is undefined behaviour of C:
  a table read out of range, a shift by 32 or more, a signed overflow.
\<close>

section \<open>The code\<close>

record rte_red_config =
  min_th :: u32
  max_th :: u32
  pa_const :: u32
  maxp_inv :: u8
  wq_log2 :: u8

record rte_red =
  r_avg :: u32
  r_count :: u32
  q_time :: u64

record red_rand =
  rte_red_rand_val :: u32
  rte_red_rand_seed :: u32

definition rte_fast_rand :: "red_rand \<Rightarrow> u32 \<times> red_rand" where
  "rte_fast_rand g = (let seed = 214013 * rte_red_rand_seed g + 2531011 in (drop_bit 10 seed, g\<lparr>rte_red_rand_seed := seed\<rparr>))"

text \<open>The shift by \<open>n - 1\<close> is undefined for \<open>n = 0\<close>.\<close>

definition rte_red_calc_qempty_factor :: "u16 list \<Rightarrow> u16 list \<Rightarrow> u8 \<Rightarrow> u16 \<Rightarrow> u16 option" where
  "rte_red_calc_qempty_factor log2_1_minus_Wq pow2_frac_inv wq m =
     (if wq = 0 \<or> length log2_1_minus_Wq < unat wq then None
      else (let prod = unat m * unat (log2_1_minus_Wq ! (unat wq - 1)) in
        if 2 ^ 31 \<le> prod then None
        else (let f = (prod div 2 ^ 6) mod 16; n = prod div 2 ^ 10 in
          if n < 10 then
            (if n = 0 \<or> length pow2_frac_inv \<le> f then None
             else Some (of_nat ((unat (pow2_frac_inv ! f) + 2 ^ (n - 1)) div 2 ^ n)))
          else Some 0)))"

definition rte_red_enqueue_empty :: "u16 list \<Rightarrow> u16 list \<Rightarrow> rte_red_config \<Rightarrow> rte_red \<Rightarrow> u64 \<Rightarrow> (int \<times> rte_red) option" where
  "rte_red_enqueue_empty log2_1_minus_Wq pow2_frac_inv red_cfg red time = (let
     red = red\<lparr>r_count := r_count red + 1\<rparr>;
     time_diff = time - q_time red;
     m = time_diff div 2 ^ 22
   in if m \<ge> 2 ^ 16 then Some (0, red\<lparr>r_avg := 0\<rparr>)
      else map_option (\<lambda>f. (0, red\<lparr>r_avg := drop_bit 10 (r_avg red) * ucast f\<rparr>))
        (rte_red_calc_qempty_factor log2_1_minus_Wq pow2_frac_inv (wq_log2 red_cfg) (ucast m)))"

definition red_shift :: "u32 \<Rightarrow> u8 \<Rightarrow> u32 option" where
  "red_shift v w = (if unat w < 32 then Some (drop_bit (unat w) v) else None)"

definition rte_red_drop :: "rte_red_config \<Rightarrow> rte_red \<Rightarrow> red_rand \<Rightarrow> (int \<times> red_rand) option" where
  "rte_red_drop red_cfg red g = do {
     pa_num \<leftarrow> red_shift (r_avg red - min_th red_cfg) (wq_log2 red_cfg);
     let pa_num_count = r_count red * pa_num;
     if pa_const red_cfg \<le> pa_num_count then Some (1, g)
     else (let pa_den = pa_const red_cfg - pa_num_count in
       if rte_red_rand_val g mod pa_den < pa_num then
         (let (r, g) = rte_fast_rand g in Some (1, g\<lparr>rte_red_rand_val := r\<rparr>))
       else Some (0, g))
   }"

definition rte_red_enqueue_nonempty :: "rte_red_config \<Rightarrow> rte_red \<Rightarrow> red_rand \<Rightarrow> u32 \<Rightarrow> (int \<times> rte_red \<times> red_rand) option" where
  "rte_red_enqueue_nonempty red_cfg red g q = do {
     aged \<leftarrow> red_shift (r_avg red) (wq_log2 red_cfg);
     let red = red\<lparr>r_avg := r_avg red + (push_bit 10 q - aged)\<rparr>;
     if r_avg red < min_th red_cfg then Some (0, red\<lparr>r_count := r_count red + 1\<rparr>, g)
     else if r_avg red < max_th red_cfg then do {
       (drop, g) \<leftarrow> rte_red_drop red_cfg red g;
       if drop = 0 then Some (0, red\<lparr>r_count := r_count red + 1\<rparr>, g)
       else Some (2, red\<lparr>r_count := 0\<rparr>, g)
     }
     else Some (1, red\<lparr>r_count := 0\<rparr>, g)
   }"

definition rte_red_enqueue ::
  "u16 list \<Rightarrow> u16 list \<Rightarrow> rte_red_config \<Rightarrow> rte_red \<Rightarrow> red_rand \<Rightarrow> u32 \<Rightarrow> u64 \<Rightarrow> (int \<times> rte_red \<times> red_rand) option" where
  "rte_red_enqueue log2_1_minus_Wq pow2_frac_inv red_cfg red g q time =
     (if q \<noteq> 0 then rte_red_enqueue_nonempty red_cfg red g q
      else map_option (\<lambda>(r, red). (r, red, g)) (rte_red_enqueue_empty log2_1_minus_Wq pow2_frac_inv red_cfg red time))"

definition rte_red_mark_queue_empty :: "rte_red \<Rightarrow> u64 \<Rightarrow> rte_red" where
  "rte_red_mark_queue_empty red time = red\<lparr>q_time := time\<rparr>"

text \<open>Packets that arrive one after the other, each with the queue length it finds and its time.\<close>

fun red_run ::
  "u16 list \<Rightarrow> u16 list \<Rightarrow> rte_red_config \<Rightarrow> (u32 \<times> u64) list \<Rightarrow> rte_red \<Rightarrow> red_rand \<Rightarrow> (int list \<times> rte_red \<times> red_rand) option" where
  "red_run lg fr cfg [] red g = Some ([], red, g)"
| "red_run lg fr cfg ((q, time) # ps) red g = do {
     (r, red, g) \<leftarrow> rte_red_enqueue lg fr cfg red g q time;
     (rs, red, g) \<leftarrow> red_run lg fr cfg ps red g;
     Some (r # rs, red, g)
   }"

section \<open>The moving average\<close>

lemma ewma_mono:
  fixes a m b :: nat
  assumes "0 < m"
  shows "a \<le> m * b \<Longrightarrow> a - a div m \<le> (m - 1) * b" "m * b \<le> a \<Longrightarrow> (m - 1) * b \<le> a - a div m"
proof -
  define k where "k = a div m"
  define r where "r = a mod m"
  have a: "a = m * k + r" "r < m" using assms by (simp_all add: k_def r_def)
  have less: "a - k = (m - 1) * k + r" using a assms by (cases m) auto
  show "a - a div m \<le> (m - 1) * b" if "a \<le> m * b"
  proof (cases "k < b")
    case True
    have "(m - 1) * k + r \<le> (m - 1) * k + (m - 1)" using a(2) by simp
    also have "\<dots> = (m - 1) * (k + 1)" by (simp only: add_mult_distrib2 mult_1_right)
    also have "\<dots> \<le> (m - 1) * b" using True by (intro mult_left_mono) simp_all
    finally show ?thesis using less by (simp add: k_def)
  next
    case False
    then have "m * b \<le> m * k" by (intro mult_le_mono2) simp
    then have "r = 0" "m * k = m * b" using that a(1) by linarith+
    then have "r = 0" "k = b" using assms by simp_all
    then show ?thesis using less by (simp add: k_def)
  qed
  show "(m - 1) * b \<le> a - a div m" if "m * b \<le> a"
  proof -
    have "b \<le> k" using that assms by (simp add: k_def less_eq_div_iff_mult_less_eq mult.commute)
    then have "(m - 1) * b \<le> (m - 1) * k" by (rule mult_le_mono2)
    then show ?thesis unfolding k_def [symmetric] less by linarith
  qed
qed

lemma unat_drop: "unat (drop_bit n x) = unat x div 2 ^ n" for x :: u32
proof -
  have "unat x < 2 ^ LENGTH(32)" by (rule unsigned_less)
  then show ?thesis by (simp only: unsigned_drop_bit_eq) (simp add: drop_bit_eq_div take_bit_nat_eq_self)
qed

text \<open>One update under a queue length between \<open>lo\<close> and \<open>hi\<close>, without any overflow.\<close>

definition red_avg_next :: "rte_red_config \<Rightarrow> rte_red \<Rightarrow> u32 \<Rightarrow> u32" where
  "red_avg_next cfg red q = r_avg red + (push_bit 10 q - drop_bit (unat (wq_log2 cfg)) (r_avg red))"

lemma avg_next_between:
  assumes w: "unat (wq_log2 cfg) = w" and q: "lo \<le> unat q" "unat q \<le> hi" and hi: "hi * 2 ^ (10 + w) < 2 ^ 32"
    and avg: "lo * 2 ^ (10 + w) \<le> unat (r_avg red)" "unat (r_avg red) \<le> hi * 2 ^ (10 + w)"
  shows "lo * 2 ^ (10 + w) \<le> unat (red_avg_next cfg red q)" "unat (red_avg_next cfg red q) \<le> hi * 2 ^ (10 + w)"
proof -
  let ?a = "unat (r_avg red)"
  let ?m = "2 ^ w :: nat"
  have up: "?a - ?a div ?m \<le> (?m - 1) * (hi * 1024)" using ewma_mono(1) [of ?m ?a "hi * 1024"] avg(2) by (simp add: power_add algebra_simps)
  have down: "(?m - 1) * (lo * 1024) \<le> ?a - ?a div ?m" using ewma_mono(2) [of ?m "lo * 1024" ?a] avg(1) by (simp add: power_add algebra_simps)
  have split: "(?m - 1) * (x * 1024) + x * 1024 = x * 2 ^ (10 + w)" for x
    by (simp add: power_add algebra_simps diff_mult_distrib2)
  have q': "unat (push_bit 10 q) = unat q * 1024"
  proof -
    have "hi * 1024 \<le> hi * 2 ^ (10 + w)" by (simp add: power_add)
    then have "unat q * 1024 < 2 ^ 32" using q(2) hi by linarith
    then show ?thesis by (simp add: push_bit_eq_mult unat_word_ariths)
  qed
  have shift: "unat (drop_bit w (r_avg red)) = ?a div ?m" by (rule unat_drop)
  have total: "unat q * 1024 + (?a - ?a div ?m) \<le> hi * 2 ^ (10 + w)"
    using up split [of hi] mult_le_mono1 [OF q(2), of 1024] by linarith
  have next_eq: "red_avg_next cfg red q = push_bit 10 q + (r_avg red - drop_bit w (r_avg red))"
    by (simp add: red_avg_next_def w)
  have "unat (r_avg red - drop_bit w (r_avg red)) = ?a - ?a div ?m" using shift by (simp add: unat_sub_le)
  then have eq: "unat (red_avg_next cfg red q) = unat q * 1024 + (?a - ?a div ?m)"
    using total hi q' by (simp add: next_eq unat_add_lt)
  show "unat (red_avg_next cfg red q) \<le> hi * 2 ^ (10 + w)" using total eq by simp
  have "lo * 1024 \<le> unat q * 1024" using q(1) by simp
  then show "lo * 2 ^ (10 + w) \<le> unat (red_avg_next cfg red q)" using down split [of lo] unfolding eq by linarith
qed

section \<open>Properties\<close>

lemma red_shift_some: "unat w < 32 \<Longrightarrow> red_shift v w = Some (drop_bit (unat w) v)"
  by (simp add: red_shift_def)

lemma enqueue_step:
  assumes "q \<noteq> 0" "unat (wq_log2 cfg) < 32"
  shows "rte_red_enqueue lg fr cfg red g q time =
    (let red = red\<lparr>r_avg := red_avg_next cfg red q\<rparr> in
     if r_avg red < min_th cfg then Some (0, red\<lparr>r_count := r_count red + 1\<rparr>, g)
     else if r_avg red < max_th cfg then
       (let pa_num = drop_bit (unat (wq_log2 cfg)) (r_avg red - min_th cfg); pa_num_count = r_count red * pa_num in
        if pa_const cfg \<le> pa_num_count then Some (2, red\<lparr>r_count := 0\<rparr>, g)
        else if rte_red_rand_val g mod (pa_const cfg - pa_num_count) < pa_num then
          Some (2, red\<lparr>r_count := 0\<rparr>, (snd (rte_fast_rand g))\<lparr>rte_red_rand_val := fst (rte_fast_rand g)\<rparr>)
        else Some (0, red\<lparr>r_count := r_count red + 1\<rparr>, g))
     else Some (1, red\<lparr>r_count := 0\<rparr>, g))"
  using assms by (simp add: rte_red_enqueue_def rte_red_enqueue_nonempty_def rte_red_drop_def red_shift_some red_avg_next_def Let_def split: prod.split)

definition load_between :: "nat \<Rightarrow> nat \<Rightarrow> (u32 \<times> u64) list \<Rightarrow> bool" where
  "load_between lo hi ps \<longleftrightarrow> (\<forall>(q, time) \<in> set ps. lo \<le> unat q \<and> unat q \<le> hi)"

text \<open>What a packet that finds the queue empty needs of the compiled tables: no entry of the decay table
  is above one in fixed point, and the decay factor is defined, which it is not after a short idle time.\<close>

definition idle_defined :: "u16 list \<Rightarrow> u16 list \<Rightarrow> rte_red_config \<Rightarrow> u64 \<Rightarrow> (u32 \<times> u64) list \<Rightarrow> bool" where
  "idle_defined lg fr cfg since ps \<longleftrightarrow> (\<forall>(q, time) \<in> set ps. q = 0 \<longrightarrow>
     (\<forall>f \<in> set fr. f \<le> 1024) \<and> (let m = (time - since) div 2 ^ 22 in
        2 ^ 16 \<le> m \<or> rte_red_calc_qempty_factor lg fr (wq_log2 cfg) (ucast m) \<noteq> None))"

definition avg_between :: "rte_red_config \<Rightarrow> nat \<Rightarrow> nat \<Rightarrow> rte_red \<Rightarrow> bool" where
  "avg_between cfg lo hi red \<longleftrightarrow> lo * 2 ^ (10 + unat (wq_log2 cfg)) \<le> unat (r_avg red) \<and> unat (r_avg red) \<le> hi * 2 ^ (10 + unat (wq_log2 cfg))"

lemma enqueue_between:
  assumes "unat (wq_log2 cfg) < 32" "hi * 2 ^ (10 + unat (wq_log2 cfg)) < 2 ^ 32" "avg_between cfg lo hi red" "q \<noteq> 0" "lo \<le> unat q" "unat q \<le> hi"
  shows "\<exists>r red' g'. rte_red_enqueue lg fr cfg red g q time = Some (r, red', g') \<and> avg_between cfg lo hi red' \<and>
    r \<in> {0, 1, 2} \<and> (hi * 2 ^ (10 + unat (wq_log2 cfg)) < unat (min_th cfg) \<longrightarrow> r = 0) \<and>
    (min_th cfg \<le> max_th cfg \<and> unat (max_th cfg) \<le> lo * 2 ^ (10 + unat (wq_log2 cfg)) \<longrightarrow> r = 1)"
  using avg_next_between [OF refl assms(5,6,2), of red] assms(3)
  unfolding enqueue_step [OF assms(4,1)]
  by (auto simp: avg_between_def Let_def word_less_nat_alt word_le_nat_alt)

lemma qempty_factor_le:
  assumes "\<forall>f \<in> set fr. f \<le> 1024" "rte_red_calc_qempty_factor lg fr wq m = Some f"
  shows "unat f \<le> 1024"
proof -
  define prod where "prod = unat m * unat (lg ! (unat wq - 1))"
  define i where "i = (prod div 2 ^ 6) mod 16"
  define n where "n = prod div 2 ^ 10"
  consider "f = 0" | "n \<noteq> 0" "n < 10" "i < length fr" "f = of_nat ((unat (fr ! i) + 2 ^ (n - 1)) div 2 ^ n)"
    using assms(2) unfolding rte_red_calc_qempty_factor_def Let_def
    by (auto simp: prod_def i_def n_def split: if_splits)
  then show ?thesis
  proof cases
    case 2
    have "unat (fr ! i) \<le> 1024" using assms(1) 2(3) by (simp add: word_le_nat_alt)
    moreover have "(2 :: nat) ^ (n - 1) \<le> 2 ^ 9" using 2(2) by (intro power_increasing) simp_all
    moreover have "(2 :: nat) * 1 \<le> 2 ^ n" using 2(1) by (cases n) simp_all
    then have "(unat (fr ! i) + 2 ^ (n - 1)) div 2 ^ n \<le> (unat (fr ! i) + 2 ^ (n - 1)) div 2" by (intro div_le_mono2) simp_all
    ultimately have "(unat (fr ! i) + 2 ^ (n - 1)) div 2 ^ n \<le> 768" by simp
    then show ?thesis unfolding 2(4) by (simp add: unat_of_nat)
  qed simp
qed

lemma idle_step:
  assumes "idle_defined lg fr cfg (q_time red) [(0, time)]"
  shows "\<exists>red'. rte_red_enqueue lg fr cfg red g 0 time = Some (0, red', g) \<and> r_avg red' \<le> r_avg red \<and> q_time red' = q_time red"
proof -
  let ?m = "(time - q_time red) div 2 ^ 22"
  have t: "\<forall>f \<in> set fr. f \<le> 1024" "2 ^ 16 \<le> ?m \<or> rte_red_calc_qempty_factor lg fr (wq_log2 cfg) (ucast ?m) \<noteq> None"
    using assms by (simp_all add: idle_defined_def Let_def)
  show ?thesis
  proof (cases "2 ^ 16 \<le> ?m")
    case True
    then show ?thesis by (simp add: rte_red_enqueue_def rte_red_enqueue_empty_def Let_def)
  next
    case False
    then obtain f where f: "rte_red_calc_qempty_factor lg fr (wq_log2 cfg) (ucast ?m) = Some f" using t(2) by blast
    have le: "unat (drop_bit 10 (r_avg red)) * unat f \<le> unat (r_avg red)"
    proof -
      have "unat (r_avg red) div 1024 * unat f \<le> unat (r_avg red) div 1024 * 1024"
        using qempty_factor_le [OF t(1) f] by (intro mult_le_mono2)
      also have "\<dots> \<le> unat (r_avg red)" by (rule div_times_less_eq_dividend)
      finally show ?thesis by (simp add: unat_drop)
    qed
    have "unat (ucast f :: u32) = unat f"
      using qempty_factor_le [OF t(1) f] by (simp add: unsigned_ucast_eq take_bit_nat_eq_self)
    then have "unat (drop_bit 10 (r_avg red) * ucast f) = unat (drop_bit 10 (r_avg red)) * unat f"
      using le unsigned_less [of "r_avg red", where ?'a = nat] by (simp add: unat_word_ariths)
    then have "drop_bit 10 (r_avg red) * ucast f \<le> r_avg red" using le by (simp add: word_le_nat_alt)
    then show ?thesis using False f
      by (simp add: rte_red_enqueue_def rte_red_enqueue_empty_def Let_def)
  qed
qed

text \<open>What the load of the whole run says of the verdict on a packet that finds \<open>q\<close> packets queued.\<close>

definition verdict_ok :: "rte_red_config \<Rightarrow> nat \<Rightarrow> nat \<Rightarrow> u32 \<Rightarrow> int \<Rightarrow> bool" where
  "verdict_ok cfg lo hi q r \<longleftrightarrow> r \<in> {0, 1, 2} \<and> (q = 0 \<longrightarrow> r = 0) \<and>
     (hi * 2 ^ (10 + unat (wq_log2 cfg)) < unat (min_th cfg) \<longrightarrow> r = 0) \<and>
     (min_th cfg \<le> max_th cfg \<and> unat (max_th cfg) \<le> lo * 2 ^ (10 + unat (wq_log2 cfg)) \<and> q \<noteq> 0 \<longrightarrow> r = 1)"

lemma enqueue_q_time: "q \<noteq> 0 \<Longrightarrow> rte_red_enqueue lg fr cfg red g q time = Some (r, red', g') \<Longrightarrow> q_time red' = q_time red"
  by (auto simp: rte_red_enqueue_def rte_red_enqueue_nonempty_def Let_def split: bind_splits if_splits)

lemma any_step:
  assumes "unat (wq_log2 cfg) < 32" "hi * 2 ^ (10 + unat (wq_log2 cfg)) < 2 ^ 32" "avg_between cfg lo hi red"
    and "load_between lo hi [(q, time)]" "idle_defined lg fr cfg (q_time red) [(q, time)]"
  shows "\<exists>r red' g'. rte_red_enqueue lg fr cfg red g q time = Some (r, red', g') \<and> avg_between cfg lo hi red' \<and>
    verdict_ok cfg lo hi q r \<and> q_time red' = q_time red"
proof (cases "q = 0")
  case True
  have lo: "lo = 0" using assms(4) True by (simp add: load_between_def)
  obtain red' where "rte_red_enqueue lg fr cfg red g 0 time = Some (0, red', g)" "r_avg red' \<le> r_avg red" "q_time red' = q_time red"
    using idle_step [of lg fr cfg red time g] assms(5) True by blast
  then show ?thesis using assms(3) True lo
    by (auto simp: avg_between_def verdict_ok_def word_le_nat_alt)
next
  case False
  have q: "lo \<le> unat q" "unat q \<le> hi" using assms(4) by (simp_all add: load_between_def)
  obtain r red' g' where r: "rte_red_enqueue lg fr cfg red g q time = Some (r, red', g')" "avg_between cfg lo hi red'"
    "r \<in> {0, 1, 2}" "hi * 2 ^ (10 + unat (wq_log2 cfg)) < unat (min_th cfg) \<longrightarrow> r = 0"
    "min_th cfg \<le> max_th cfg \<and> unat (max_th cfg) \<le> lo * 2 ^ (10 + unat (wq_log2 cfg)) \<longrightarrow> r = 1"
    using enqueue_between [OF assms(1-3) False q, of lg fr g time] by blast
  then have "verdict_ok cfg lo hi q r" using False by (simp add: verdict_ok_def)
  then show ?thesis using r(1,2) enqueue_q_time [OF False r(1)] by blast
qed

lemma idle_defined_Cons: "idle_defined lg fr cfg t (p # ps) \<longleftrightarrow> idle_defined lg fr cfg t [p] \<and> idle_defined lg fr cfg t ps"
  by (auto simp: idle_defined_def)

lemma load_between_Cons: "load_between lo hi (p # ps) \<longleftrightarrow> load_between lo hi [p] \<and> load_between lo hi ps"
  by (auto simp: load_between_def)

lemma run_between:
  assumes "unat (wq_log2 cfg) < 32" "hi * 2 ^ (10 + unat (wq_log2 cfg)) < 2 ^ 32" "avg_between cfg lo hi red" "load_between lo hi ps"
    and "idle_defined lg fr cfg (q_time red) ps"
  shows "\<exists>rs red' g'. red_run lg fr cfg ps red g = Some (rs, red', g') \<and> avg_between cfg lo hi red' \<and>
    list_all2 (verdict_ok cfg lo hi) (map fst ps) rs"
  using assms(3-5)
proof (induction ps arbitrary: red g)
  case (Cons p ps)
  obtain q time where p: "p = (q, time)" by (cases p)
  have l: "load_between lo hi [(q, time)]" "load_between lo hi ps" using Cons.prems(2) load_between_Cons p by blast+
  have i: "idle_defined lg fr cfg (q_time red) [(q, time)]" "idle_defined lg fr cfg (q_time red) ps"
    using Cons.prems(3) idle_defined_Cons p by blast+
  obtain r red1 g1 where s: "rte_red_enqueue lg fr cfg red g q time = Some (r, red1, g1)" "avg_between cfg lo hi red1"
    "verdict_ok cfg lo hi q r" "q_time red1 = q_time red"
    using any_step [OF assms(1,2) Cons.prems(1) l(1) i(1), of g] by blast
  obtain rs red2 g2 where t: "red_run lg fr cfg ps red1 g1 = Some (rs, red2, g2)" "avg_between cfg lo hi red2"
    "list_all2 (verdict_ok cfg lo hi) (map fst ps) rs"
    using Cons.IH [OF s(2) l(2), of g1] i(2) s(4) by auto
  show ?case using s t by (simp add: p)
qed simp

lemma verdicts_all:
  assumes "list_all2 (verdict_ok cfg lo hi) qs rs"
  shows "set rs \<subseteq> {0, 1, 2} \<and>
    (hi * 2 ^ (10 + unat (wq_log2 cfg)) < unat (min_th cfg) \<longrightarrow> rs = replicate (length qs) 0) \<and>
    (min_th cfg \<le> max_th cfg \<and> unat (max_th cfg) \<le> lo * 2 ^ (10 + unat (wq_log2 cfg)) \<longrightarrow>
      rs = map (\<lambda>q. if q = 0 then 0 else 1) qs)"
  using assms by (induction rule: list_all2_induct) (auto simp: verdict_ok_def)

text \<open>C29. The average follows the load. While packets find queue lengths between \<open>lo\<close> and \<open>hi\<close>, an average
  between the two, in fixed point, stays between them without any overflow, and every packet gets one of
  the three verdicts; all are taken while the load stays below the lower threshold, and while it stays
  above the upper one all that find the queue non-empty are dropped by it. A packet that finds the queue
  empty, possible only with \<open>lo = 0\<close>, is always taken and never raises the average. For those packets the
  decay must be defined (\<open>idle_defined\<close>): the tables are compiled data with entries of at most one in
  fixed point, and the time since the queue became empty is not so short that the code shifts by \<open>n - 1\<close>
  with \<open>n = 0\<close>.\<close>

theorem rte_red_follows_load:
  assumes "unat (wq_log2 cfg) < 32" "hi * 2 ^ (10 + unat (wq_log2 cfg)) < 2 ^ 32" "avg_between cfg lo hi red" "load_between lo hi ps"
    and "idle_defined lg fr cfg (q_time red) ps"
  shows "\<exists>rs red' g'. red_run lg fr cfg ps red g = Some (rs, red', g') \<and> avg_between cfg lo hi red' \<and> length rs = length ps \<and>
    set rs \<subseteq> {0, 1, 2} \<and>
    (hi * 2 ^ (10 + unat (wq_log2 cfg)) < unat (min_th cfg) \<longrightarrow> rs = replicate (length ps) 0) \<and>
    (min_th cfg \<le> max_th cfg \<and> unat (max_th cfg) \<le> lo * 2 ^ (10 + unat (wq_log2 cfg)) \<longrightarrow>
      rs = map (\<lambda>(q, time). if q = 0 then 0 else 1) ps)"
proof -
  obtain rs red' g' where r: "red_run lg fr cfg ps red g = Some (rs, red', g')" "avg_between cfg lo hi red'"
    "list_all2 (verdict_ok cfg lo hi) (map fst ps) rs"
    using run_between [OF assms, of g] by blast
  have "map (\<lambda>q. if q = 0 then 0 else 1) (map fst ps) = map (\<lambda>(q, time). if q = 0 then 0 else 1 :: int) ps"
    by (simp add: case_prod_beta comp_def)
  then show ?thesis using r(1,2) verdicts_all [OF r(3)] list_all2_lengthD [OF r(3)]
    by (intro exI [of _ rs] exI [of _ red'] exI [of _ g']) (simp del: map_map)
qed

lemma busy_idle_defined: "load_between lo hi ps \<Longrightarrow> 0 < lo \<Longrightarrow> idle_defined lg fr cfg t ps"
  by (auto simp: load_between_def idle_defined_def)

section \<open>Between the thresholds\<close>

lemma admitted_step:
  assumes "unat (wq_log2 cfg) < 32" "hi * 2 ^ (10 + unat (wq_log2 cfg)) < 2 ^ 32" "avg_between cfg lo hi red" "q \<noteq> 0" "lo \<le> unat q" "unat q \<le> hi"
    and th: "unat (min_th cfg) + d * 2 ^ unat (wq_log2 cfg) \<le> lo * 2 ^ (10 + unat (wq_log2 cfg))" "hi * 2 ^ (10 + unat (wq_log2 cfg)) < unat (max_th cfg)"
    and fit: "(unat (r_count red) + 1) * ((unat (max_th cfg) - unat (min_th cfg)) div 2 ^ unat (wq_log2 cfg)) < 2 ^ 32" "0 < d"
    and step: "rte_red_enqueue lg fr cfg red g q time = Some (r, red', g')"
  shows "r = 2 \<or> r = 0 \<and> unat (r_count red') = unat (r_count red) + 1 \<and> unat (r_count red) * d < unat (pa_const cfg)"
proof -
  let ?w = "unat (wq_log2 cfg)" and ?a = "red_avg_next cfg red q"
  define D where "D = (unat (max_th cfg) - unat (min_th cfg)) div 2 ^ ?w"
  define pa_num where "pa_num = drop_bit ?w (?a - min_th cfg)"
  have a: "lo * 2 ^ (10 + ?w) \<le> unat ?a" "unat ?a \<le> hi * 2 ^ (10 + ?w)"
    using avg_next_between [OF refl assms(5,6,2)] assms(3) by (simp_all add: avg_between_def)
  have range: "\<not> ?a < min_th cfg" "?a < max_th cfg" using a th by (simp_all add: word_less_nat_alt)
  have sub: "unat (?a - min_th cfg) = unat ?a - unat (min_th cfg)" using a th by (simp add: unat_sub_le)
  have "d * 2 ^ ?w \<le> unat ?a - unat (min_th cfg)" using a th by linarith
  then have d: "d \<le> unat pa_num" unfolding pa_num_def unat_drop sub by (simp add: less_eq_div_iff_mult_less_eq)
  have D: "unat pa_num \<le> D" unfolding pa_num_def unat_drop sub D_def using a th by (intro div_le_mono) linarith
  have "unat (r_count red) * unat pa_num \<le> unat (r_count red) * D" using D by simp
  also have "\<dots> \<le> (unat (r_count red) + 1) * D" by simp
  finally have "unat (r_count red) * unat pa_num < 2 ^ 32" using fit(1) by (simp add: D_def)
  then have prod: "unat (r_count red * pa_num) = unat (r_count red) * unat pa_num" by (simp add: unat_word_ariths)
  have "unat (r_count red) * d \<le> unat (r_count red) * unat pa_num" using d by simp
  then have taken: "unat (r_count red) * d < unat (pa_const cfg)" if "\<not> pa_const cfg \<le> r_count red * pa_num"
    using that \<open>unat (r_count red) * d \<le> unat (r_count red) * unat pa_num\<close> unfolding word_le_nat_alt prod by linarith
  have "1 \<le> D" using d D fit(2) by simp
  then have "unat (r_count red) + 1 \<le> (unat (r_count red) + 1) * D"
    using mult_le_mono2 [of 1 D "unat (r_count red) + 1"] by simp
  then have "unat (r_count red) + 1 < 2 ^ 32" using fit(1) by (simp add: D_def)
  then have "unat (r_count red + 1) = unat (r_count red) + 1" by (simp add: unat_word_ariths)
  then show ?thesis using step taken range unfolding enqueue_step [OF assms(4,1)]
    by (auto simp: Let_def pa_num_def split: if_splits)
qed

lemma admitted_run:
  assumes "unat (wq_log2 cfg) < 32" "hi * 2 ^ (10 + unat (wq_log2 cfg)) < 2 ^ 32" "avg_between cfg lo hi red" "load_between lo hi ps"
    and th: "unat (min_th cfg) + d * 2 ^ unat (wq_log2 cfg) \<le> lo * 2 ^ (10 + unat (wq_log2 cfg))" "hi * 2 ^ (10 + unat (wq_log2 cfg)) < unat (max_th cfg)" "0 < d"
    and fit: "(unat (r_count red) + length ps) * ((unat (max_th cfg) - unat (min_th cfg)) div 2 ^ unat (wq_log2 cfg)) < 2 ^ 32"
    and run: "red_run lg fr cfg ps red g = Some (rs, red', g')" "2 \<notin> set rs" "ps \<noteq> []"
  shows "(unat (r_count red) + length ps - 1) * d < unat (pa_const cfg)"
  using assms(3,4) fit run
proof (induction ps arbitrary: red g rs)
  case (Cons p ps)
  let ?D = "(unat (max_th cfg) - unat (min_th cfg)) div 2 ^ unat (wq_log2 cfg)"
  obtain q time where p: "p = (q, time)" by (cases p)
  have "0 < lo" using th by (cases lo) simp_all
  then have q: "q \<noteq> 0" "lo \<le> unat q" "unat q \<le> hi" "load_between lo hi ps" using Cons.prems(2) by (auto simp: load_between_def p)
  obtain r red1 g1 where s: "rte_red_enqueue lg fr cfg red g q time = Some (r, red1, g1)" "avg_between cfg lo hi red1"
    using enqueue_between [OF assms(1,2) Cons.prems(1) q(1-3), of lg fr g time] by blast
  obtain rs1 where rs: "red_run lg fr cfg ps red1 g1 = Some (rs1, red', g')" "rs = r # rs1"
    using Cons.prems(4) s(1) by (auto simp: p split: bind_splits)
  have "(unat (r_count red) + 1) * ?D \<le> (unat (r_count red) + length (p # ps)) * ?D" by (intro mult_le_mono1) simp
  then have fit1: "(unat (r_count red) + 1) * ?D < 2 ^ 32" using Cons.prems(3) by linarith
  have step: "unat (r_count red1) = unat (r_count red) + 1" "unat (r_count red) * d < unat (pa_const cfg)"
    using admitted_step [OF assms(1,2) Cons.prems(1) q(1-3) th(1,2) fit1 th(3) s(1)] Cons.prems(5) rs(2) by auto
  show ?case
  proof (cases "ps = []")
    case False
    then show ?thesis using Cons.IH [OF s(2) q(4) _ rs(1) _ False] Cons.prems(3,5) step(1) rs(2) by simp
  qed (use step in simp)
qed simp

text \<open>Drops between the thresholds are not put off for ever. While the load keeps the average at least
  \<open>d\<close> weighted units above the lower threshold and below the upper one, no packet is dropped by the upper
  threshold, and among packets of which the last would make the count times \<open>d\<close> reach \<open>pa_const\<close> at least
  one is dropped by chance, whatever the random words, provided that the product of the count and the
  numerator cannot wrap.\<close>

theorem rte_red_drops_in_time:
  assumes "unat (wq_log2 cfg) < 32" "hi * 2 ^ (10 + unat (wq_log2 cfg)) < 2 ^ 32" "avg_between cfg lo hi red" "load_between lo hi ps"
    and "unat (min_th cfg) + d * 2 ^ unat (wq_log2 cfg) \<le> lo * 2 ^ (10 + unat (wq_log2 cfg))" "hi * 2 ^ (10 + unat (wq_log2 cfg)) < unat (max_th cfg)" "0 < d"
    and "(unat (r_count red) + length ps) * ((unat (max_th cfg) - unat (min_th cfg)) div 2 ^ unat (wq_log2 cfg)) < 2 ^ 32"
    and "ps \<noteq> []" "unat (pa_const cfg) \<le> (unat (r_count red) + length ps - 1) * d"
  shows "\<exists>rs red' g'. red_run lg fr cfg ps red g = Some (rs, red', g') \<and> 2 \<in> set rs"
proof -
  have "0 < lo" using assms(5,7) by (cases lo) simp_all
  then obtain rs red' g' where r: "red_run lg fr cfg ps red g = Some (rs, red', g')"
    using run_between [OF assms(1-4) busy_idle_defined [OF assms(4)], of lg fr g] by blast
  then have "2 \<in> set rs" using admitted_run [OF assms(1-8) r _ assms(9)] assms(10) by fastforce
  then show ?thesis using r by blast
qed

text \<open>The proviso matters: when the product wraps, a packet that must be dropped is taken.\<close>

lemma rte_red_count_wraps:
  "rte_red_drop \<lparr>min_th = 0, max_th = 0x4000000, pa_const = 0x100000, maxp_inv = 1, wq_log2 = 0\<rparr>
     \<lparr>r_avg = 0x10000, r_count = 0x10000, q_time = 0\<rparr> \<lparr>rte_red_rand_val = 0xfffff, rte_red_rand_seed = 0\<rparr> =
   Some (0, \<lparr>rte_red_rand_val = 0xfffff, rte_red_rand_seed = 0\<rparr>)"
  by (simp add: rte_red_drop_def red_shift_def)

text \<open>After a short idle time the decay factor is computed with a shift by a number that is not defined.\<close>

lemma rte_red_short_idle_undefined:
  assumes "wq \<noteq> 0" "unat wq \<le> length lg" "unat m * unat (lg ! (unat wq - 1)) < 1024"
  shows "rte_red_calc_qempty_factor lg fr wq m = None"
  using assms by (simp add: rte_red_calc_qempty_factor_def Let_def)

definition ex_red_config :: rte_red_config where
  "ex_red_config = \<lparr>min_th = 20480, max_th = 204800, pa_const = 20, maxp_inv = 1, wq_log2 = 1\<rparr>"

text \<open>Two packets in the queue, then none for a long and for a middling time, then five.\<close>

theorem rte_red_follows_load_witness:
  "\<exists>red' g'. red_run [1024] [1024] ex_red_config [(2, 0), (0, 2 ^ 40), (0, 2 ^ 24), (5, 1)] \<lparr>r_avg = 8192, r_count = 0, q_time = 0\<rparr>
     \<lparr>rte_red_rand_val = 0, rte_red_rand_seed = 0\<rparr> = Some ([0, 0, 0, 0], red', g')"
  using rte_red_follows_load [of ex_red_config 5 0 "\<lparr>r_avg = 8192, r_count = 0, q_time = 0\<rparr>" "[(2, 0), (0, 2 ^ 40), (0, 2 ^ 24), (5, 1)]"
      "[1024]" "[1024]" "\<lparr>rte_red_rand_val = 0, rte_red_rand_seed = 0\<rparr>"]
  by (auto simp: avg_between_def load_between_def idle_defined_def rte_red_calc_qempty_factor_def ex_red_config_def simp del: red_run.simps)

theorem rte_red_drops_in_time_witness:
  "\<exists>rs red' g'. red_run [] [] ex_red_config [(20, 0), (20, 1)] \<lparr>r_avg = 40960, r_count = 0, q_time = 0\<rparr>
     \<lparr>rte_red_rand_val = 19, rte_red_rand_seed = 0\<rparr> = Some (rs, red', g') \<and> 2 \<in> set rs"
  using rte_red_drops_in_time [of ex_red_config 20 20 "\<lparr>r_avg = 40960, r_count = 0, q_time = 0\<rparr>" "[(20, 0), (20, 1)]" 20 "[]" "[]"
      "\<lparr>rte_red_rand_val = 19, rte_red_rand_seed = 0\<rparr>"]
  by (simp add: avg_between_def load_between_def ex_red_config_def del: red_run.simps)

end
