(* ===== verification/Rte_Ring_Peek.thy ===== *)
theory Rte_Ring_Peek
  imports Rte_Ring_Correct
begin

text \<open>
  The two-stage calls of rte\_ring\_peek.h and rte\_ring\_peek\_zc.h, for rings whose producer or consumer is
  in the single-thread or the HTS mode: a start reserves slots or shows objects, a finish commits as
  many of them as it is told. Assertions are off in the build. The zero-copy calls give the places of
  the slots, as offsets in words, instead of copying.
\<close>

section \<open>Start\<close>

definition rte_ring_do_enqueue_start :: "rte_ring \<Rightarrow> u32 \<Rightarrow> rte_ring_queue_behavior \<Rightarrow> (u32 \<times> u32 \<times> rte_ring) option" where
  "rte_ring_do_enqueue_start r n behavior = (case ht_sync (r_prod r) of
     RTE_RING_SYNC_ST \<Rightarrow> (case rte_ring_move_prod_head r True n behavior of
         (No_move free, r1) \<Rightarrow> Some (0, free - 0, r1)
       | (Moved n' head nxt free, r1) \<Rightarrow> Some (n', free - n', r1))
   | RTE_RING_SYNC_MT_HTS \<Rightarrow>
       map_option (\<lambda>(n', head, free, r1). (n', free - n', r1)) (rte_ring_hts_move_prod_head r n behavior)
   | _ \<Rightarrow> Some (0, 0, r))"

definition rte_ring_do_dequeue_start ::
    "rte_ring \<Rightarrow> u32 list \<Rightarrow> u32 \<Rightarrow> u32 \<Rightarrow> rte_ring_queue_behavior \<Rightarrow> (u32 \<times> u32 \<times> u32 list \<times> rte_ring) option" where
  "rte_ring_do_dequeue_start r obj_table esize n behavior = (let
     copy = (\<lambda>(n', head, avail, r1). (n', avail - n',
       if n' \<noteq> 0 then rte_ring_dequeue_elems r1 head obj_table esize n' else obj_table, r1))
   in case ht_sync (r_cons r) of
     RTE_RING_SYNC_ST \<Rightarrow> (case rte_ring_move_cons_head r True n behavior of
         (No_move avail, r1) \<Rightarrow> Some (copy (0, 0, avail, r1))
       | (Moved n' head nxt avail, r1) \<Rightarrow> Some (copy (n', head, avail, r1)))
   | RTE_RING_SYNC_MT_HTS \<Rightarrow> map_option copy (rte_ring_hts_move_cons_head r n behavior)
   | _ \<Rightarrow> Some (0, 0, obj_table, r))"

section \<open>Finish\<close>

definition rte_ring_st_get_tail :: "rte_ring_headtail \<Rightarrow> u32 \<Rightarrow> u32 \<times> u32" where
  "rte_ring_st_get_tail ht num = (let n = ht_head ht - ht_tail ht in (if n \<ge> num then num else 0, ht_tail ht))"

definition rte_ring_st_set_head_tail :: "rte_ring_headtail \<Rightarrow> u32 \<Rightarrow> u32 \<Rightarrow> rte_ring_headtail" where
  "rte_ring_st_set_head_tail ht tail num = (let pos = tail + num in ht\<lparr>ht_head := pos, ht_tail := pos\<rparr>)"

definition rte_ring_hts_get_tail :: "rte_ring_headtail \<Rightarrow> u32 \<Rightarrow> u32 \<times> u32" where
  "rte_ring_hts_get_tail ht num = (let p = (ht_head ht, ht_tail ht); n = fst p - snd p in (if n \<ge> num then num else 0, snd p))"

definition rte_ring_hts_set_head_tail :: "rte_ring_headtail \<Rightarrow> u32 \<Rightarrow> u32 \<Rightarrow> rte_ring_headtail" where
  "rte_ring_hts_set_head_tail ht tail num = (let head = tail + num in ht\<lparr>ht_head := head, ht_tail := head\<rparr>)"

definition rte_ring_enqueue_elem_finish :: "rte_ring \<Rightarrow> u32 list \<Rightarrow> u32 \<Rightarrow> u32 \<Rightarrow> rte_ring" where
  "rte_ring_enqueue_elem_finish r obj_table esize n = (case ht_sync (r_prod r) of
     RTE_RING_SYNC_ST \<Rightarrow>
       (let (n, tail) = rte_ring_st_get_tail (r_prod r) n;
            r = (if n \<noteq> 0 then rte_ring_enqueue_elems r tail obj_table esize n else r)
        in r\<lparr>r_prod := rte_ring_st_set_head_tail (r_prod r) tail n\<rparr>)
   | RTE_RING_SYNC_MT_HTS \<Rightarrow>
       (let (n, tail) = rte_ring_hts_get_tail (r_prod r) n;
            r = (if n \<noteq> 0 then rte_ring_enqueue_elems r tail obj_table esize n else r)
        in r\<lparr>r_prod := rte_ring_hts_set_head_tail (r_prod r) tail n\<rparr>)
   | _ \<Rightarrow> r)"

definition rte_ring_dequeue_elem_finish :: "rte_ring \<Rightarrow> u32 \<Rightarrow> rte_ring" where
  "rte_ring_dequeue_elem_finish r n = (case ht_sync (r_cons r) of
     RTE_RING_SYNC_ST \<Rightarrow>
       (let (n, tail) = rte_ring_st_get_tail (r_cons r) n in r\<lparr>r_cons := rte_ring_st_set_head_tail (r_cons r) tail n\<rparr>)
   | RTE_RING_SYNC_MT_HTS \<Rightarrow>
       (let (n, tail) = rte_ring_hts_get_tail (r_cons r) n in r\<lparr>r_cons := rte_ring_hts_set_head_tail (r_cons r) tail n\<rparr>)
   | _ \<Rightarrow> r)"

section \<open>Zero copy\<close>

record rte_ring_zc_data =
  ptr1 :: nat
  ptr2 :: "nat option"
  n1 :: u32

definition rte_ring_get_elem_addr :: "rte_ring \<Rightarrow> u32 \<Rightarrow> u32 \<Rightarrow> u32 \<Rightarrow> rte_ring_zc_data" where
  "rte_ring_get_elem_addr r head esize num = (let
     scale = esize div 4;
     idx = head AND r_mask r;
     nr_idx = idx * scale
   in if idx + num > r_size r then \<lparr>ptr1 = unat nr_idx, ptr2 = Some 0, n1 = r_size r - idx\<rparr>
      else \<lparr>ptr1 = unat nr_idx, ptr2 = None, n1 = num\<rparr>)"

definition rte_ring_do_enqueue_zc_elem_start ::
    "rte_ring \<Rightarrow> u32 \<Rightarrow> u32 \<Rightarrow> rte_ring_queue_behavior \<Rightarrow> rte_ring_zc_data \<Rightarrow> (u32 \<times> u32 option \<times> rte_ring_zc_data \<times> rte_ring) option" where
  "rte_ring_do_enqueue_zc_elem_start r esize n behavior zcd = (case ht_sync (r_prod r) of
     RTE_RING_SYNC_ST \<Rightarrow> (case rte_ring_move_prod_head r True n behavior of
         (No_move free, r1) \<Rightarrow> Some (0, Some (free - 0), rte_ring_get_elem_addr r1 (ht_head (r_prod r)) esize 0, r1)
       | (Moved n' head nxt free, r1) \<Rightarrow> Some (n', Some (free - n'), rte_ring_get_elem_addr r1 head esize n', r1))
   | RTE_RING_SYNC_MT_HTS \<Rightarrow>
       map_option (\<lambda>(n', head, free, r1). (n', Some (free - n'), rte_ring_get_elem_addr r1 head esize n', r1))
         (rte_ring_hts_move_prod_head r n behavior)
   | _ \<Rightarrow> Some (0, None, zcd, r))"

definition rte_ring_enqueue_zc_elem_finish :: "rte_ring \<Rightarrow> u32 \<Rightarrow> rte_ring" where
  "rte_ring_enqueue_zc_elem_finish r n = (case ht_sync (r_prod r) of
     RTE_RING_SYNC_ST \<Rightarrow>
       (let (n, tail) = rte_ring_st_get_tail (r_prod r) n in r\<lparr>r_prod := rte_ring_st_set_head_tail (r_prod r) tail n\<rparr>)
   | RTE_RING_SYNC_MT_HTS \<Rightarrow>
       (let (n, tail) = rte_ring_hts_get_tail (r_prod r) n in r\<lparr>r_prod := rte_ring_hts_set_head_tail (r_prod r) tail n\<rparr>)
   | _ \<Rightarrow> r)"

definition rte_ring_do_dequeue_zc_elem_start ::
    "rte_ring \<Rightarrow> u32 \<Rightarrow> u32 \<Rightarrow> rte_ring_queue_behavior \<Rightarrow> rte_ring_zc_data \<Rightarrow> (u32 \<times> u32 option \<times> rte_ring_zc_data \<times> rte_ring) option" where
  "rte_ring_do_dequeue_zc_elem_start r esize n behavior zcd = (case ht_sync (r_cons r) of
     RTE_RING_SYNC_ST \<Rightarrow> (case rte_ring_move_cons_head r True n behavior of
         (No_move avail, r1) \<Rightarrow> Some (0, Some (avail - 0), rte_ring_get_elem_addr r1 (ht_head (r_cons r)) esize 0, r1)
       | (Moved n' head nxt avail, r1) \<Rightarrow> Some (n', Some (avail - n'), rte_ring_get_elem_addr r1 head esize n', r1))
   | RTE_RING_SYNC_MT_HTS \<Rightarrow>
       map_option (\<lambda>(n', head, avail, r1). (n', Some (avail - n'), rte_ring_get_elem_addr r1 head esize n', r1))
         (rte_ring_hts_move_cons_head r n behavior)
   | _ \<Rightarrow> Some (0, None, zcd, r))"

definition rte_ring_dequeue_zc_elem_finish :: "rte_ring \<Rightarrow> u32 \<Rightarrow> rte_ring" where
  "rte_ring_dequeue_zc_elem_finish r n = (case ht_sync (r_cons r) of
     RTE_RING_SYNC_ST \<Rightarrow>
       (let (n, tail) = rte_ring_st_get_tail (r_cons r) n in r\<lparr>r_cons := rte_ring_st_set_head_tail (r_cons r) tail n\<rparr>)
   | RTE_RING_SYNC_MT_HTS \<Rightarrow>
       (let (n, tail) = rte_ring_hts_get_tail (r_cons r) n in r\<lparr>r_cons := rte_ring_hts_set_head_tail (r_cons r) tail n\<rparr>)
   | _ \<Rightarrow> r)"

section \<open>The public calls\<close>

definition rte_ring_enqueue_bulk_elem_start :: "rte_ring \<Rightarrow> u32 \<Rightarrow> (u32 \<times> u32 \<times> rte_ring) option" where
  "rte_ring_enqueue_bulk_elem_start r n = rte_ring_do_enqueue_start r n RTE_RING_QUEUE_FIXED"

definition rte_ring_enqueue_bulk_start :: "rte_ring \<Rightarrow> u32 \<Rightarrow> (u32 \<times> u32 \<times> rte_ring) option" where
  "rte_ring_enqueue_bulk_start r n = rte_ring_enqueue_bulk_elem_start r n"

definition rte_ring_dequeue_bulk_elem_start :: "rte_ring \<Rightarrow> u32 list \<Rightarrow> u32 \<Rightarrow> u32 \<Rightarrow> (u32 \<times> u32 \<times> u32 list \<times> rte_ring) option" where
  "rte_ring_dequeue_bulk_elem_start r obj_table esize n = rte_ring_do_dequeue_start r obj_table esize n RTE_RING_QUEUE_FIXED"

definition rte_ring_dequeue_bulk_start :: "rte_ring \<Rightarrow> u32 list \<Rightarrow> u32 \<Rightarrow> (u32 \<times> u32 \<times> u32 list \<times> rte_ring) option" where
  "rte_ring_dequeue_bulk_start r obj_table n = rte_ring_dequeue_bulk_elem_start r obj_table 8 n"

definition rte_ring_enqueue_zc_bulk_elem_start ::
    "rte_ring \<Rightarrow> u32 \<Rightarrow> u32 \<Rightarrow> rte_ring_zc_data \<Rightarrow> (u32 \<times> u32 option \<times> rte_ring_zc_data \<times> rte_ring) option" where
  "rte_ring_enqueue_zc_bulk_elem_start r esize n zcd = rte_ring_do_enqueue_zc_elem_start r esize n RTE_RING_QUEUE_FIXED zcd"

definition rte_ring_enqueue_zc_bulk_start ::
    "rte_ring \<Rightarrow> u32 \<Rightarrow> rte_ring_zc_data \<Rightarrow> (u32 \<times> u32 option \<times> rte_ring_zc_data \<times> rte_ring) option" where
  "rte_ring_enqueue_zc_bulk_start r n zcd = rte_ring_enqueue_zc_bulk_elem_start r 8 n zcd"

definition rte_ring_dequeue_zc_bulk_elem_start ::
    "rte_ring \<Rightarrow> u32 \<Rightarrow> u32 \<Rightarrow> rte_ring_zc_data \<Rightarrow> (u32 \<times> u32 option \<times> rte_ring_zc_data \<times> rte_ring) option" where
  "rte_ring_dequeue_zc_bulk_elem_start r esize n zcd = rte_ring_do_dequeue_zc_elem_start r esize n RTE_RING_QUEUE_FIXED zcd"

definition rte_ring_dequeue_zc_bulk_start ::
    "rte_ring \<Rightarrow> u32 \<Rightarrow> rte_ring_zc_data \<Rightarrow> (u32 \<times> u32 option \<times> rte_ring_zc_data \<times> rte_ring) option" where
  "rte_ring_dequeue_zc_bulk_start r n zcd = rte_ring_dequeue_zc_bulk_elem_start r 8 n zcd"

definition rte_ring_enqueue_burst_elem_start :: "rte_ring \<Rightarrow> u32 \<Rightarrow> (u32 \<times> u32 \<times> rte_ring) option" where
  "rte_ring_enqueue_burst_elem_start r n = rte_ring_do_enqueue_start r n RTE_RING_QUEUE_VARIABLE"

definition rte_ring_enqueue_burst_start :: "rte_ring \<Rightarrow> u32 \<Rightarrow> (u32 \<times> u32 \<times> rte_ring) option" where
  "rte_ring_enqueue_burst_start r n = rte_ring_enqueue_burst_elem_start r n"

definition rte_ring_dequeue_burst_elem_start :: "rte_ring \<Rightarrow> u32 list \<Rightarrow> u32 \<Rightarrow> u32 \<Rightarrow> (u32 \<times> u32 \<times> u32 list \<times> rte_ring) option" where
  "rte_ring_dequeue_burst_elem_start r obj_table esize n = rte_ring_do_dequeue_start r obj_table esize n RTE_RING_QUEUE_VARIABLE"

definition rte_ring_dequeue_burst_start :: "rte_ring \<Rightarrow> u32 list \<Rightarrow> u32 \<Rightarrow> (u32 \<times> u32 \<times> u32 list \<times> rte_ring) option" where
  "rte_ring_dequeue_burst_start r obj_table n = rte_ring_dequeue_burst_elem_start r obj_table 8 n"

definition rte_ring_enqueue_zc_burst_elem_start ::
    "rte_ring \<Rightarrow> u32 \<Rightarrow> u32 \<Rightarrow> rte_ring_zc_data \<Rightarrow> (u32 \<times> u32 option \<times> rte_ring_zc_data \<times> rte_ring) option" where
  "rte_ring_enqueue_zc_burst_elem_start r esize n zcd = rte_ring_do_enqueue_zc_elem_start r esize n RTE_RING_QUEUE_VARIABLE zcd"

definition rte_ring_enqueue_zc_burst_start ::
    "rte_ring \<Rightarrow> u32 \<Rightarrow> rte_ring_zc_data \<Rightarrow> (u32 \<times> u32 option \<times> rte_ring_zc_data \<times> rte_ring) option" where
  "rte_ring_enqueue_zc_burst_start r n zcd = rte_ring_enqueue_zc_burst_elem_start r 8 n zcd"

definition rte_ring_dequeue_zc_burst_elem_start ::
    "rte_ring \<Rightarrow> u32 \<Rightarrow> u32 \<Rightarrow> rte_ring_zc_data \<Rightarrow> (u32 \<times> u32 option \<times> rte_ring_zc_data \<times> rte_ring) option" where
  "rte_ring_dequeue_zc_burst_elem_start r esize n zcd = rte_ring_do_dequeue_zc_elem_start r esize n RTE_RING_QUEUE_VARIABLE zcd"

definition rte_ring_dequeue_zc_burst_start ::
    "rte_ring \<Rightarrow> u32 \<Rightarrow> rte_ring_zc_data \<Rightarrow> (u32 \<times> u32 option \<times> rte_ring_zc_data \<times> rte_ring) option" where
  "rte_ring_dequeue_zc_burst_start r n zcd = rte_ring_dequeue_zc_burst_elem_start r 8 n zcd"

definition rte_ring_enqueue_finish :: "rte_ring \<Rightarrow> u32 list \<Rightarrow> u32 \<Rightarrow> rte_ring" where
  "rte_ring_enqueue_finish r obj_table n = rte_ring_enqueue_elem_finish r obj_table 8 n"

definition rte_ring_dequeue_finish :: "rte_ring \<Rightarrow> u32 \<Rightarrow> rte_ring" where
  "rte_ring_dequeue_finish r n = rte_ring_dequeue_elem_finish r n"

definition rte_ring_enqueue_zc_finish :: "rte_ring \<Rightarrow> u32 \<Rightarrow> rte_ring" where
  "rte_ring_enqueue_zc_finish r n = rte_ring_enqueue_zc_elem_finish r n"

definition rte_ring_dequeue_zc_finish :: "rte_ring \<Rightarrow> u32 \<Rightarrow> rte_ring" where
  "rte_ring_dequeue_zc_finish r n = rte_ring_dequeue_elem_finish r n"

lemmas start_defs = rte_ring_enqueue_bulk_elem_start_def rte_ring_enqueue_burst_elem_start_def
  rte_ring_dequeue_bulk_elem_start_def rte_ring_dequeue_burst_elem_start_def
  rte_ring_enqueue_zc_bulk_elem_start_def rte_ring_enqueue_zc_burst_elem_start_def

section \<open>A started call\<close>

definition peek_mode :: "rte_ring_headtail \<Rightarrow> bool" where
  "peek_mode ht \<longleftrightarrow> ht_sync ht = RTE_RING_SYNC_ST \<or> ht_sync ht = RTE_RING_SYNC_MT_HTS"



lemma dequeue_start_canon:
  assumes "ht_quiet (r_cons r)" "peek_mode (r_cons r)"
  shows "rte_ring_do_dequeue_start r obj esize n behavior = (let
      avail = ht_tail (r_prod r) - ht_tail (r_cons r); k = clip behavior n avail
    in Some (k, avail - k, if k \<noteq> 0 then rte_ring_dequeue_elems r (ht_tail (r_cons r)) obj esize k else obj,
      r\<lparr>r_cons := (r_cons r)\<lparr>ht_head := ht_tail (r_cons r) + k\<rparr>\<rparr>))"
  using assms
  by (auto simp: peek_mode_def rte_ring_do_dequeue_start_def rte_ring_move_cons_head.simps rte_ring_hts_move_cons_head_def
      hts_cons_loop.simps rte_ring_hts_head_wait.simps cas_simps Let_def ht_quiet_def)


lemma dequeue_finish_canon:
  fixes k :: u32
  assumes "ht_quiet (r_cons r)" "peek_mode (r_cons r)"
  defines "r1 \<equiv> r\<lparr>r_cons := (r_cons r)\<lparr>ht_head := ht_tail (r_cons r) + k\<rparr>\<rparr>"
  shows "rte_ring_dequeue_elem_finish r1 m = (if m \<le> k \<and> m \<noteq> 0 then r\<lparr>r_cons := ht_advance (r_cons r) m\<rparr> else r)"
  using assms
  by (auto simp: peek_mode_def rte_ring_dequeue_elem_finish_def rte_ring_st_get_tail_def
      rte_ring_hts_get_tail_def rte_ring_st_set_head_tail_def rte_ring_hts_set_head_tail_def ht_advance_def Let_def ht_quiet_def)

section \<open>The places of the slots\<close>









section \<open>Transactions\<close>


text \<open>C31. A two-stage dequeue shows before it takes. The start copies out the first objects, as many as a
  dequeue call would move, and leaves the queue as it is; a finish removes as many of them as it is told,
  and a finish with 0, or with more than was shown, restores the ring.\<close>

theorem rte_ring_dequeue_transaction:
  assumes "ring_inv w r" "peek_mode (r_cons r)" "unat n * w \<le> length obj" "w dvd length obj" "k = admit behavior (unat n) (length (ring_elems w r))"
  shows "\<exists>out r1. (if behavior = RTE_RING_QUEUE_FIXED then rte_ring_dequeue_bulk_elem_start r obj (of_nat (4 * w)) n
        else rte_ring_dequeue_burst_elem_start r obj (of_nat (4 * w)) n) = Some (of_nat k, of_nat (length (ring_elems w r) - k), out, r1) \<and>
    ring_elems w r1 = ring_elems w r \<and> chunks w out = take k (ring_elems w r) @ drop k (chunks w obj) \<and> length out = length obj \<and>
    (\<forall>m. if unat m \<le> k \<and> 0 < m
       then ring_inv w (rte_ring_dequeue_elem_finish r1 m) \<and> ring_elems w (rte_ring_dequeue_elem_finish r1 m) = drop (unat m) (ring_elems w r)
       else rte_ring_dequeue_elem_finish r1 m = r)"
proof -
  have q: "ht_quiet (r_cons r)" using assms(1) by (simp add: ring_inv_def)
  let ?avail = "ht_tail (r_prod r) - ht_tail (r_cons r)"
  let ?c = "clip behavior n ?avail"
  let ?r1 = "r\<lparr>r_cons := (r_cons r)\<lparr>ht_head := ht_tail (r_cons r) + ?c\<rparr>\<rparr>"
  let ?out = "if ?c \<noteq> 0 then rte_ring_dequeue_elems r (ht_tail (r_cons r)) obj (of_nat (4 * w)) ?c else obj"
  have c: "unat ?c = k" using assms(5) by (simp add: unat_clip ring_used_def)
  have words: "of_nat k = ?c" "of_nat (ring_used r - k) = ?avail - ?c"
    using clip_le(1) [of behavior n ?avail]
    by (simp_all add: c [symmetric] ring_used_def unat_sub_le [symmetric] word_le_nat_alt)
  have fit: "unat ?c \<le> ring_used r" "unat ?c * w \<le> length obj"
    using admit_le [of behavior "unat n" "ring_used r"] assms(3,5) by (auto simp: c elim: order_trans [rotated])
  have start: "(if behavior = RTE_RING_QUEUE_FIXED then rte_ring_dequeue_bulk_elem_start r obj (of_nat (4 * w)) n
      else rte_ring_dequeue_burst_elem_start r obj (of_nat (4 * w)) n) = Some (?c, ?avail - ?c, ?out, ?r1)"
    using dequeue_start_canon [OF q assms(2), of obj "of_nat (4 * w)" n behavior] by (cases behavior) (simp_all add: start_defs Let_def)
  have out: "chunks w ?out = take k (ring_elems w r) @ drop k (chunks w obj)" "length ?out = length obj"
    using ring_dequeue_step(3) [OF assms(1) fit assms(4)] c ring_dequeue_step(4) [OF assms(1) fit assms(4)]
    by (cases "?c = 0"; simp del: of_nat_mult)+
  have elems: "ring_elems w ?r1 = ring_elems w r" by (simp add: ring_elems_def ring_used_def)
  have fin: "if unat m \<le> k \<and> 0 < m
       then ring_inv w (rte_ring_dequeue_elem_finish ?r1 m) \<and> ring_elems w (rte_ring_dequeue_elem_finish ?r1 m) = drop (unat m) (ring_elems w r)
       else rte_ring_dequeue_elem_finish ?r1 m = r" for m
  proof (cases "unat m \<le> k \<and> 0 < m")
    case True
    then have le: "m \<le> ?c" "m \<noteq> 0" using c by (auto simp: word_le_nat_alt)
    have "unat m \<le> ring_used r" "unat m * w \<le> length obj"
      using True fit c mult_le_mono1 [of "unat m" "unat ?c" w] by linarith+
    then show ?thesis using True le ring_dequeue_step(1,2) [OF assms(1) _ _ assms(4)] unfolding dequeue_finish_canon [OF q assms(2)] by simp
  next
    case False
    then have "\<not> (m \<le> ?c \<and> m \<noteq> 0)" using c by (auto simp: word_le_nat_alt word_gt_0)
    then show ?thesis using False unfolding dequeue_finish_canon [OF q assms(2)] by auto
  qed
  show ?thesis unfolding start
  proof (intro exI [of _ ?out] exI [of _ ?r1] conjI allI)
    show "Some (?c, ?avail - ?c, ?out, ?r1) = Some (of_nat k, of_nat (length (ring_elems w r) - k), ?out, ?r1)"
      by (simp only: words length_ring_elems)
  qed (rule elems, rule out(1), rule out(2), rule fin)
qed

section \<open>Examples\<close>

definition ex_peek :: rte_ring where
  "ex_peek = \<lparr>r_flags = 0, r_size = 4, r_mask = 3, r_capacity = 3,
     r_prod = \<lparr>ht_head = 1, ht_tail = 1, ht_sync = RTE_RING_SYNC_MT_HTS, rts_htd_max = 0, rts_head_cnt = 0, rts_head_pos = 0\<rparr>,
     r_cons = \<lparr>ht_head = 4294967295, ht_tail = 4294967295, ht_sync = RTE_RING_SYNC_ST, rts_htd_max = 0,
               rts_head_cnt = 0, rts_head_pos = 0\<rparr>,
     r_mem = [20, 0, 99, 0, 98, 0, 10, 0]\<rparr>"

lemma ex_peek_inv: "ring_inv 2 ex_peek" "ring_used ex_peek = 2" "r_capacity ex_peek = 3" "peek_mode (r_prod ex_peek)" "peek_mode (r_cons ex_peek)"
proof -
  have "\<exists>k \<in> {..<32}. (4 :: u32) = 2 ^ k" by (rule bexI [of _ 2]) auto
  then show "ring_inv 2 ex_peek"
    by (simp add: ring_inv_def ring_wf_def ex_peek_def ht_quiet_def ring_used_def)
qed (simp_all add: ring_used_def peek_mode_def ex_peek_def)

lemma esize_8: "(of_nat (4 * 2) :: u32) = 8"
  by simp


theorem rte_ring_dequeue_transaction_witness:
  "\<exists>out r1. rte_ring_dequeue_bulk_elem_start ex_peek [0, 0, 0, 0] 8 2 = Some (2, 0, out, r1) \<and> chunks 2 out = ring_elems 2 ex_peek \<and>
     ring_elems 2 (rte_ring_dequeue_elem_finish r1 1) = drop 1 (ring_elems 2 ex_peek)"
proof -
  obtain out r1 where r1: "rte_ring_dequeue_bulk_elem_start ex_peek [0, 0, 0, 0] 8 2 = Some (2, 0, out, r1)"
    "chunks 2 out = take 2 (ring_elems 2 ex_peek) @ drop 2 (chunks 2 [0, 0, 0, 0])"
    "\<forall>m. if unat m \<le> 2 \<and> 0 < m
       then ring_inv 2 (rte_ring_dequeue_elem_finish r1 m) \<and> ring_elems 2 (rte_ring_dequeue_elem_finish r1 m) = drop (unat m) (ring_elems 2 ex_peek)
       else rte_ring_dequeue_elem_finish r1 m = ex_peek"
    using rte_ring_dequeue_transaction [OF ex_peek_inv(1,5), of 2 "[0, 0, 0, 0]" 2 RTE_RING_QUEUE_FIXED, unfolded esize_8]
    unfolding length_ring_elems ex_peek_inv(2,3) by (auto simp: admit_def)
  have "ring_elems 2 (rte_ring_dequeue_elem_finish r1 1) = drop 1 (ring_elems 2 ex_peek)" using r1(3) [rule_format, of 1] by simp
  moreover have "drop 2 (chunks 2 [0, 0, 0, 0 :: u32]) = []" by (simp add: chunks.simps)
  ultimately show ?thesis using r1(1,2) length_ring_elems [of 2 ex_peek] ex_peek_inv(2) by (intro exI [of _ out] exI [of _ r1]) simp
qed

end
