(* ===== verification/Rte_Fbk_Hash.thy ===== *)
theory Rte_Fbk_Hash
  imports Prelude "HOL-Library.Monad_Syntax"
begin

text \<open>
  The hash table of rte\_fbk\_hash.h for 32-bit keys and 16-bit values: buckets of a fixed number of
  64-bit entries, filled from the front. The hash function is whatever the table was made with. \<open>None\<close>
  is an access behind the table.
\<close>

section \<open>The table\<close>

record rte_fbk_hash_table =
  entries :: u32
  entries_per_bucket :: u32
  used_entries :: u32
  bucket_mask :: u32
  bucket_shift :: u32
  hash_func :: "u32 \<Rightarrow> u32 \<Rightarrow> u32"
  init_val :: u32
  slots :: "u64 list"

text \<open>The three fields of an entry, first field lowest.\<close>

definition e_is_entry :: "u64 \<Rightarrow> u16" where
  "e_is_entry w = ucast w"

definition e_value :: "u64 \<Rightarrow> u16" where
  "e_value w = ucast (drop_bit 16 w)"

definition e_key :: "u64 \<Rightarrow> u32" where
  "e_key w = ucast (drop_bit 32 w)"

definition set_e_value :: "u64 \<Rightarrow> u16 \<Rightarrow> u64" where
  "set_e_value w v = (w AND NOT (push_bit 16 (mask 16))) OR push_bit 16 (ucast v)"

definition new_entry :: "u32 \<Rightarrow> u16 \<Rightarrow> u64" where
  "new_entry key value = push_bit 32 (ucast key) OR push_bit 16 (ucast value) OR 1"

section \<open>Operations\<close>

abbreviation (input) ENOSPC :: int where "ENOSPC \<equiv> 28"

definition rte_fbk_hash_get_bucket :: "rte_fbk_hash_table \<Rightarrow> u32 \<Rightarrow> u32" where
  "rte_fbk_hash_get_bucket ht key = push_bit (unat (bucket_shift ht)) (hash_func ht key (init_val ht) AND bucket_mask ht)"

definition slot :: "rte_fbk_hash_table \<Rightarrow> u32 \<Rightarrow> u64 option" where
  "slot ht i = (if unat i < length (slots ht) then Some (slots ht ! unat i) else None)"

definition set_slot :: "rte_fbk_hash_table \<Rightarrow> u32 \<Rightarrow> u64 \<Rightarrow> rte_fbk_hash_table" where
  "set_slot ht i w = ht\<lparr>slots := (slots ht)[unat i := w]\<rparr>"

text \<open>The last argument of the loops counts the rounds that are left.\<close>

fun add_from :: "rte_fbk_hash_table \<Rightarrow> u32 \<Rightarrow> u16 \<Rightarrow> u32 \<Rightarrow> u32 \<Rightarrow> nat \<Rightarrow> (int \<times> rte_fbk_hash_table) option" where
  "add_from ht key value bucket i 0 = Some (- ENOSPC, ht)"
| "add_from ht key value bucket i (Suc n) = do {
     e \<leftarrow> slot ht (bucket + i);
     if e_is_entry e = 0 then
       Some (0, (set_slot ht (bucket + i) (new_entry key value))\<lparr>used_entries := used_entries ht + 1\<rparr>)
     else if e_key e = key then Some (0, set_slot ht (bucket + i) (set_e_value e value))
     else add_from ht key value bucket (i + 1) n
   }"

definition rte_fbk_hash_add_key_with_bucket ::
  "rte_fbk_hash_table \<Rightarrow> u32 \<Rightarrow> u16 \<Rightarrow> u32 \<Rightarrow> (int \<times> rte_fbk_hash_table) option" where
  "rte_fbk_hash_add_key_with_bucket ht key value bucket = add_from ht key value bucket 0 (unat (entries_per_bucket ht))"

definition rte_fbk_hash_add_key :: "rte_fbk_hash_table \<Rightarrow> u32 \<Rightarrow> u16 \<Rightarrow> (int \<times> rte_fbk_hash_table) option" where
  "rte_fbk_hash_add_key ht key value = rte_fbk_hash_add_key_with_bucket ht key value (rte_fbk_hash_get_bucket ht key)"

text \<open>The inner loop of the deletion, from the last entry of the bucket down to the one after \<open>i\<close>.\<close>

fun find_last :: "rte_fbk_hash_table \<Rightarrow> u32 \<Rightarrow> u32 \<Rightarrow> u32 \<Rightarrow> u32 \<Rightarrow> nat \<Rightarrow> u32 option" where
  "find_last ht bucket i j last_entry 0 = Some last_entry"
| "find_last ht bucket i j last_entry (Suc n) = do {
     e \<leftarrow> slot ht (bucket + j);
     find_last ht bucket i (j - 1) (if e_is_entry e = 0 then j - 1 else last_entry) n
   }"

fun delete_from :: "rte_fbk_hash_table \<Rightarrow> u32 \<Rightarrow> u32 \<Rightarrow> u32 \<Rightarrow> nat \<Rightarrow> (int \<times> rte_fbk_hash_table) option" where
  "delete_from ht key bucket i 0 = Some (- ENOENT, ht)"
| "delete_from ht key bucket i (Suc n) = do {
     e \<leftarrow> slot ht (bucket + i);
     if e_key e = key then do {
       last_entry \<leftarrow> find_last ht bucket i (entries_per_bucket ht - 1) (entries_per_bucket ht - 1) (unat (entries_per_bucket ht - 1 - i));
       l \<leftarrow> slot ht (bucket + last_entry);
       Some (0, (set_slot (set_slot ht (bucket + i) l) (bucket + last_entry) 0)\<lparr>used_entries := used_entries ht - 1\<rparr>)
     } else delete_from ht key bucket (i + 1) n
   }"

definition rte_fbk_hash_delete_key_with_bucket :: "rte_fbk_hash_table \<Rightarrow> u32 \<Rightarrow> u32 \<Rightarrow> (int \<times> rte_fbk_hash_table) option" where
  "rte_fbk_hash_delete_key_with_bucket ht key bucket = delete_from ht key bucket 0 (unat (entries_per_bucket ht))"

definition rte_fbk_hash_delete_key :: "rte_fbk_hash_table \<Rightarrow> u32 \<Rightarrow> (int \<times> rte_fbk_hash_table) option" where
  "rte_fbk_hash_delete_key ht key = rte_fbk_hash_delete_key_with_bucket ht key (rte_fbk_hash_get_bucket ht key)"

fun lookup_from :: "rte_fbk_hash_table \<Rightarrow> u32 \<Rightarrow> u32 \<Rightarrow> u32 \<Rightarrow> nat \<Rightarrow> int option" where
  "lookup_from ht key bucket i 0 = Some (- ENOENT)"
| "lookup_from ht key bucket i (Suc n) = do {
     e \<leftarrow> slot ht (bucket + i);
     if e_is_entry e = 0 then Some (- ENOENT)
     else if e_key e = key then Some (uint (e_value e))
     else lookup_from ht key bucket (i + 1) n
   }"

definition rte_fbk_hash_lookup_with_bucket :: "rte_fbk_hash_table \<Rightarrow> u32 \<Rightarrow> u32 \<Rightarrow> int option" where
  "rte_fbk_hash_lookup_with_bucket ht key bucket = lookup_from ht key bucket 0 (unat (entries_per_bucket ht))"

definition rte_fbk_hash_lookup :: "rte_fbk_hash_table \<Rightarrow> u32 \<Rightarrow> int option" where
  "rte_fbk_hash_lookup ht key = rte_fbk_hash_lookup_with_bucket ht key (rte_fbk_hash_get_bucket ht key)"

definition rte_fbk_hash_clear_all :: "rte_fbk_hash_table \<Rightarrow> rte_fbk_hash_table option" where
  "rte_fbk_hash_clear_all ht = (if length (slots ht) < unat (entries ht) then None
     else Some (ht\<lparr>slots := replicate (unat (entries ht)) 0 @ drop (unat (entries ht)) (slots ht), used_entries := 0\<rparr>))"

end
