(* ===== verification/Rte_Fbk_Hash_Correct.thy ===== *)
theory Rte_Fbk_Hash_Correct
  imports Rte_Fbk_Hash "HOL-Library.AList"
begin

text \<open>
  The table is a partial map from keys to values, with one exception: deleting the key 0.
\<close>

section \<open>Entries\<close>

type_synonym key_value = "u32 \<times> u16"

abbreviation enc :: "key_value \<Rightarrow> u64" where
  "enc kv \<equiv> new_entry (fst kv) (snd kv)"

lemma fbk_entry_fields [simp]:
  "e_is_entry (new_entry k v) = 1" "e_value (new_entry k v) = v" "e_key (new_entry k v) = k"
  "set_e_value (new_entry k v) v' = new_entry k v'" "e_is_entry 0 = 0" "e_key 0 = 0" "new_entry k v \<noteq> 0"
proof -
  show i: "e_is_entry (new_entry k v) = 1"
    unfolding e_is_entry_def new_entry_def by (rule bit_word_eqI) (auto simp: bit_simps)
  show "e_value (new_entry k v) = v"
    unfolding e_value_def new_entry_def by (rule bit_word_eqI) (auto simp: bit_simps)
  show "e_key (new_entry k v) = k"
    unfolding e_key_def new_entry_def by (rule bit_word_eqI) (auto simp: bit_simps dest: bit_imp_le_length)
  show "set_e_value (new_entry k v) v' = new_entry k v'"
    unfolding set_e_value_def new_entry_def by (rule bit_word_eqI) (auto simp: bit_simps dest: bit_imp_le_length)
  show "e_is_entry 0 = 0" "e_key 0 = 0" by (simp_all add: e_is_entry_def e_key_def)
  then show "new_entry k v \<noteq> 0" using i by (metis one_neq_zero)
qed

section \<open>One bucket\<close>

text \<open>A bucket holds its pairs, then empty entries; the table is one bucket after the other.\<close>

definition bucket_slots :: "nat \<Rightarrow> key_value list \<Rightarrow> u64 list" where
  "bucket_slots E kvs = map enc kvs @ replicate (E - length kvs) 0"

lemma u32_index: "unat (b :: u32) = B \<Longrightarrow> unat (i :: u32) = k \<Longrightarrow> B + k < 2 ^ 32 \<Longrightarrow> unat (b + i) = B + k"
  by (simp add: unat_word_ariths)

lemma u32_next: "unat (i :: u32) = k \<Longrightarrow> k + 1 < 2 ^ 32 \<Longrightarrow> unat (i + 1) = Suc k"
  using u32_index [of i k 1 1] by simp

text \<open>The slot after \<open>pre\<close> and \<open>us\<close>.\<close>

lemma slot_here:
  assumes "slots ht = pre @ us @ e # rest" "unat bucket = length pre" "unat i = length us" "length (slots ht) < 2 ^ 32"
  shows "slot ht (bucket + i) = Some e"
    and "set_slot ht (bucket + i) w = ht\<lparr>slots := pre @ us @ w # rest\<rparr>"
proof -
  have "unat (bucket + i) = length (pre @ us)" using assms by (simp add: u32_index)
  then show "slot ht (bucket + i) = Some e" "set_slot ht (bucket + i) w = ht\<lparr>slots := pre @ us @ w # rest\<rparr>"
    using assms(1) by (simp_all add: slot_def set_slot_def nth_append list_update_append)
qed

lemma lookup_from_exact:
  assumes "slots ht = pre @ map enc us @ map enc kvs @ replicate m 0 @ post" "unat bucket = length pre"
    "unat i = length us" "length (slots ht) < 2 ^ 32"
  shows "lookup_from ht key bucket i (length kvs + m)
    = Some (case map_of kvs key of None \<Rightarrow> - ENOENT | Some v \<Rightarrow> uint v)"
  using assms
proof (induction kvs arbitrary: us i)
  case Nil
  show ?case
  proof (cases m)
    case (Suc m')
    then have "slot ht (bucket + i) = Some 0" using Nil slot_here(1) [of ht pre "map enc us" 0 "replicate m' 0 @ post"] by simp
    then show ?thesis using Suc by simp
  qed simp
next
  case (Cons kv kvs)
  obtain k v where [simp]: "kv = (k, v)" by (cases kv)
  have s: "slot ht (bucket + i) = Some (new_entry k v)"
    using Cons.prems slot_here(1) [of ht pre "map enc us" "new_entry k v" "map enc kvs @ replicate m 0 @ post"] by simp
  have l: "length us + 1 < 2 ^ 32" using Cons.prems(1,4) by simp
  have "unat (i + 1) = length (us @ [kv])" using Cons.prems(3) l by (simp add: u32_next)
  then show ?case using s Cons.IH [of "us @ [kv]" "i + 1"] Cons.prems by simp
qed

lemma add_from_exact:
  assumes "slots ht = pre @ map enc us @ map enc kvs @ replicate m 0 @ post" "unat bucket = length pre"
    "unat i = length us" "length (slots ht) < 2 ^ 32"
  shows "add_from ht key value bucket i (length kvs + m) = Some (
    if key \<in> fst ` set kvs then (0, ht\<lparr>slots := pre @ map enc us @ map enc (AList.update key value kvs) @ replicate m 0 @ post\<rparr>)
    else if m = 0 then (- ENOSPC, ht)
    else (0, ht\<lparr>slots := pre @ map enc us @ map enc (AList.update key value kvs) @ replicate (m - 1) 0 @ post,
                used_entries := used_entries ht + 1\<rparr>))"
  using assms
proof (induction kvs arbitrary: us i)
  case Nil
  show ?case
  proof (cases m)
    case (Suc m')
    then have "slot ht (bucket + i) = Some 0"
      "set_slot ht (bucket + i) (new_entry key value) = ht\<lparr>slots := pre @ map enc us @ new_entry key value # replicate m' 0 @ post\<rparr>"
      using Nil slot_here [of ht pre "map enc us" 0 "replicate m' 0 @ post"] by simp_all
    then show ?thesis using Suc by simp
  qed simp
next
  case (Cons kv kvs)
  obtain k v where [simp]: "kv = (k, v)" by (cases kv)
  have s: "slot ht (bucket + i) = Some (new_entry k v)"
    "set_slot ht (bucket + i) (new_entry k value) = ht\<lparr>slots := pre @ map enc us @ new_entry k value # map enc kvs @ replicate m 0 @ post\<rparr>"
    using Cons.prems slot_here [of ht pre "map enc us" "new_entry k v" "map enc kvs @ replicate m 0 @ post"] by simp_all
  have l: "length us + 1 < 2 ^ 32" using Cons.prems(1,4) by simp
  have "unat (i + 1) = length (us @ [kv])" using Cons.prems(3) l by (simp add: u32_next)
  then show ?case using s Cons.IH [of "us @ [kv]" "i + 1"] Cons.prems by (cases "k = key") simp_all
qed

text \<open>The inner loop of the deletion finds the last entry in use, at distance \<open>U\<close>.\<close>

lemma find_last_exact:
  assumes "\<And>w. unat i < unat w \<Longrightarrow> unat w \<le> unat j \<Longrightarrow> \<exists>e. slot ht (b + w) = Some e \<and> (e_is_entry e = 0 \<longleftrightarrow> U < unat w)"
    "unat j = unat i + n" "unat le = max (unat j) U" "unat i \<le> U"
  shows "\<exists>L. find_last ht b i j le n = Some L \<and> unat L = U"
  using assms
proof (induction n arbitrary: j le)
  case (Suc n)
  obtain e where e: "slot ht (b + j) = Some e" "e_is_entry e = 0 \<longleftrightarrow> U < unat j" using Suc.prems(1) [of j] Suc.prems(2) by auto
  have j: "unat (j - 1) = unat j - 1" using Suc.prems(2) by (intro unat_minus_one) auto
  have p: "\<exists>e. slot ht (b + w) = Some e \<and> (e_is_entry e = 0 \<longleftrightarrow> U < unat w)" if "unat i < unat w" "unat w \<le> unat (j - 1)" for w
    using that Suc.prems(1) j by simp
  have "unat (if e_is_entry e = 0 then j - 1 else le) = max (unat (j - 1)) U" using e(2) j Suc.prems(3) by auto
  then show ?case using Suc.IH [of "j - 1", OF p] e(1) j Suc.prems(2,4) by simp
qed simp

text \<open>What is left of a bucket: the last pair takes the place of the deleted one.\<close>

definition swap_out :: "key_value list \<Rightarrow> key_value list \<Rightarrow> key_value list" where
  "swap_out xs ys = xs @ (if ys = [] then [] else last ys # butlast ys)"

lemma swap_out_set: "set (swap_out xs ys) = set xs \<union> set ys"
  unfolding swap_out_def by (cases ys rule: rev_cases) auto

lemma swap_out_distinct: "distinct (map fst (swap_out xs ys)) \<longleftrightarrow> distinct (map fst (xs @ ys))"
  unfolding swap_out_def by (cases ys rule: rev_cases) auto

lemma swap_out_length: "length (swap_out xs ys) = length xs + length ys"
  unfolding swap_out_def by (cases ys rule: rev_cases) auto

lemma slot_nth:
  assumes "unat bucket + unat w < length (slots ht)" "length (slots ht) < 2 ^ 32"
  shows "slot ht (bucket + w) = Some (slots ht ! (unat bucket + unat w))"
  using assms u32_index [of bucket "unat bucket" w "unat w"] by (simp add: slot_def)

lemma delete_here:
  assumes t: "slots ht = pre @ map enc us @ enc kv # map enc ys @ replicate m 0 @ post" and b: "unat bucket = length pre"
    and i: "unat i = length us" and l: "length (slots ht) < 2 ^ 32"
    and E: "unat (entries_per_bucket ht) = length us + 1 + length ys + m" and k: "fst kv = key"
  shows "delete_from ht key bucket i (Suc n)
    = Some (0, ht\<lparr>slots := pre @ map enc (swap_out us ys) @ replicate (Suc m) 0 @ post, used_entries := used_entries ht - 1\<rparr>)"
proof -
  let ?E = "entries_per_bucket ht"
  have E1: "unat (?E - 1) = length us + length ys + m" using E by (subst unat_minus_one) auto
  have n: "unat (?E - 1 - i) = length ys + m" using E1 i by (subst unat_sub) (simp_all add: word_le_nat_alt)
  have s: "slot ht (bucket + i) = Some (enc kv)"
    using slot_here(1) [of ht pre "map enc us" "enc kv" "map enc ys @ replicate m 0 @ post"] t b i l by simp
  have "\<exists>e. slot ht (bucket + w) = Some e \<and> (e_is_entry e = 0 \<longleftrightarrow> length us + length ys < unat w)"
    if w: "unat i < unat w" "unat w \<le> unat (?E - 1)" for w
  proof -
    obtain d where "unat w = Suc (length us + d)" using less_imp_Suc_add [OF w(1)] unfolding i by blast
    then have d: "unat w = length us + Suc d" by simp
    have "slot ht (bucket + w) = Some ((map enc ys @ replicate m 0 @ post) ! d)"
      using slot_nth [of bucket w ht] t b d w(2) E1 l by (simp add: nth_append)
    moreover have "d < length ys \<or> (\<not> d < length ys \<and> d - length ys < m)" using d w(2) E1 by linarith
    ultimately show ?thesis using d by (auto simp: nth_append)
  qed
  then obtain L where L: "find_last ht bucket i (?E - 1) (?E - 1) (unat (?E - 1 - i)) = Some L" "unat L = length us + length ys"
    using find_last_exact [of i "?E - 1" ht bucket "length us + length ys" "unat (?E - 1 - i)" "?E - 1"] i n E1 by auto
  show ?thesis
  proof (cases ys rule: rev_cases)
    case Nil
    then have "L = i" using L(2) i by (simp add: word_unat_eq_iff)
    moreover have "set_slot (set_slot ht (bucket + i) (enc kv)) (bucket + i) 0 = ht\<lparr>slots := pre @ map enc us @ 0 # replicate m 0 @ post\<rparr>"
      using slot_here(2) [of ht pre "map enc us" "enc kv" "replicate m 0 @ post"]
        slot_here(2) [of "ht\<lparr>slots := pre @ map enc us @ enc kv # replicate m 0 @ post\<rparr>" pre "map enc us" "enc kv" "replicate m 0 @ post" bucket i 0]
        t b i l Nil by simp
    ultimately show ?thesis using s k L(1) Nil by (simp add: swap_out_def)
  next
    case (snoc zs z)
    have "slot ht (bucket + L) = Some (enc z)"
      using slot_here(1) [of ht pre "map enc us @ enc kv # map enc zs" "enc z" "replicate m 0 @ post"] t b L(2) l snoc by simp
    moreover have "set_slot ht (bucket + i) (enc z) = ht\<lparr>slots := pre @ map enc us @ enc z # map enc zs @ enc z # replicate m 0 @ post\<rparr>"
      using slot_here(2) [of ht pre "map enc us" "enc kv" "map enc zs @ enc z # replicate m 0 @ post"] t b i l snoc by simp
    moreover have "set_slot (ht\<lparr>slots := pre @ map enc us @ enc z # map enc zs @ enc z # replicate m 0 @ post\<rparr>) (bucket + L) 0
      = ht\<lparr>slots := pre @ map enc us @ enc z # map enc zs @ 0 # replicate m 0 @ post\<rparr>"
      using slot_here(2) [of "ht\<lparr>slots := pre @ map enc us @ enc z # map enc zs @ enc z # replicate m 0 @ post\<rparr>" pre
          "map enc us @ enc z # map enc zs" "enc z" "replicate m 0 @ post" bucket L 0] t b L(2) l snoc by simp
    ultimately show ?thesis using s k L(1) snoc by (simp add: swap_out_def)
  qed
qed

text \<open>The key 0 matches an empty entry.\<close>

lemma delete_empty_here:
  assumes t: "slots ht = pre @ us @ replicate (Suc n) 0 @ post" and b: "unat bucket = length pre"
    and i: "unat i = length us" and l: "length (slots ht) < 2 ^ 32" and E: "unat (entries_per_bucket ht) = length us + Suc n"
  shows "delete_from ht 0 bucket i (Suc n) = Some (0, ht\<lparr>used_entries := used_entries ht - 1\<rparr>)"
proof -
  let ?E = "entries_per_bucket ht"
  have E1: "unat (?E - 1) = length us + n" using E by (subst unat_minus_one) auto
  have n: "unat (?E - 1 - i) = n" using E1 i by (subst unat_sub) (simp_all add: word_le_nat_alt)
  have s: "slot ht (bucket + i) = Some 0" "set_slot ht (bucket + i) 0 = ht"
    using slot_here [of ht pre us 0 "replicate n 0 @ post"] t b i l by simp_all
  have "\<exists>e. slot ht (bucket + w) = Some e \<and> (e_is_entry e = 0 \<longleftrightarrow> length us < unat w)"
    if w: "unat i < unat w" "unat w \<le> unat (?E - 1)" for w
  proof -
    obtain d where d: "unat w = Suc (length us + d)" using less_imp_Suc_add [OF w(1)] unfolding i by blast
    have "slot ht (bucket + w) = Some ((replicate n 0 @ post) ! d)"
      using slot_nth [of bucket w ht] t b d w(2) E1 l by (simp add: nth_append)
    then show ?thesis using d w(2) E1 by (simp add: nth_append)
  qed
  then obtain L where L: "find_last ht bucket i (?E - 1) (?E - 1) (unat (?E - 1 - i)) = Some L" "unat L = length us"
    using find_last_exact [of i "?E - 1" ht bucket "length us" "unat (?E - 1 - i)" "?E - 1"] i n E1 by auto
  then have "L = i" using i by (simp add: word_unat_eq_iff)
  then show ?thesis using s L(1) by simp
qed

lemma delete_from_skip:
  assumes "slots ht = pre @ map enc us @ map enc xs @ rest" "unat bucket = length pre" "unat i = length us"
    "length (slots ht) < 2 ^ 32" "key \<notin> fst ` set xs"
  shows "\<exists>i'. delete_from ht key bucket i (length xs + n) = delete_from ht key bucket i' n \<and> unat i' = length us + length xs"
  using assms
proof (induction xs arbitrary: us i)
  case (Cons kv xs)
  have s: "slot ht (bucket + i) = Some (enc kv)"
    using Cons.prems slot_here(1) [of ht pre "map enc us" "enc kv" "map enc xs @ rest"] by simp
  have l: "length us + 1 < 2 ^ 32" using Cons.prems(1,4) by simp
  have n: "fst kv \<noteq> key" using Cons.prems(5) by auto
  have "unat (i + 1) = length (us @ [kv])" using Cons.prems(3) l by (simp add: u32_next)
  then show ?case using s n Cons.IH [of "us @ [kv]" "i + 1"] Cons.prems by simp
qed auto

lemma delete_from_empty:
  assumes "slots ht = pre @ us @ replicate m 0 @ post" "unat bucket = length pre" "unat i = length us"
    "length (slots ht) < 2 ^ 32" "key \<noteq> 0 \<or> m = 0"
  shows "delete_from ht key bucket i m = Some (- ENOENT, ht)"
  using assms
proof (induction m arbitrary: us i)
  case (Suc m)
  have s: "slot ht (bucket + i) = Some 0" using Suc.prems slot_here(1) [of ht pre us 0 "replicate m 0 @ post"] by simp
  have l: "length us + 1 < 2 ^ 32" using Suc.prems(1,4) by simp
  have "unat (i + 1) = length (us @ [0])" using Suc.prems(3) l by (simp add: u32_next)
  then show ?case using s Suc.IH [of "us @ [0]" "i + 1"] Suc.prems by simp
qed simp

section \<open>The table as a map\<close>

text \<open>
  \<open>fbk_rep ht bs\<close>: the slots are the buckets \<open>bs\<close> one after the other, every pair lies in the bucket of
  its key, no key occurs twice, and the counters are right.
\<close>

definition bucket_of :: "rte_fbk_hash_table \<Rightarrow> u32 \<Rightarrow> nat" where
  "bucket_of ht key = unat (hash_func ht key (init_val ht) AND bucket_mask ht)"

definition fbk_rep :: "rte_fbk_hash_table \<Rightarrow> key_value list list \<Rightarrow> bool" where
  "fbk_rep ht bs \<longleftrightarrow> unat (entries_per_bucket ht) = 2 ^ unat (bucket_shift ht)
     \<and> length bs = unat (bucket_mask ht) + 1
     \<and> unat (entries ht) = length bs * unat (entries_per_bucket ht)
     \<and> slots ht = concat (map (bucket_slots (unat (entries_per_bucket ht))) bs)
     \<and> (\<forall>b < length bs. length (bs ! b) \<le> unat (entries_per_bucket ht) \<and> distinct (map fst (bs ! b))
          \<and> (\<forall>kv \<in> set (bs ! b). bucket_of ht (fst kv) = b))
     \<and> unat (used_entries ht) = length (concat bs)"

abbreviation fbk_map :: "key_value list list \<Rightarrow> u32 \<Rightarrow> u16 option" where
  "fbk_map bs \<equiv> map_of (concat bs)"

lemma unat_push: "unat (push_bit n (x :: u32)) = unat x * 2 ^ n mod 2 ^ 32"
  unfolding unsigned_push_bit_eq by (simp add: push_bit_eq_mult take_bit_eq_mod)

lemma bucket_of_le: "bucket_of ht key \<le> unat (bucket_mask ht)"
  unfolding bucket_of_def by (simp add: word_and_le1 word_le_nat_alt [symmetric])

lemma length_slots: "\<forall>b \<in> set bs. length b \<le> E \<Longrightarrow> length (concat (map (bucket_slots E) bs)) = length bs * E"
  by (induction bs) (auto simp: bucket_slots_def)

text \<open>The bucket of a key, what is before and behind it, and its index.\<close>

lemma fbk_split:
  assumes "fbk_rep ht bs"
  obtains ls kvs rs where "bs = ls @ kvs # rs" "length ls = bucket_of ht key"
    "slots ht = concat (map (bucket_slots (unat (entries_per_bucket ht))) ls) @ map enc kvs
       @ replicate (unat (entries_per_bucket ht) - length kvs) 0 @ concat (map (bucket_slots (unat (entries_per_bucket ht))) rs)"
    "unat (rte_fbk_hash_get_bucket ht key) = length (concat (map (bucket_slots (unat (entries_per_bucket ht))) ls))"
    "length kvs \<le> unat (entries_per_bucket ht)" "length (slots ht) < 2 ^ 32"
    "fbk_map bs key = map_of kvs key" "distinct (map fst kvs)"
    "key \<notin> fst ` set (concat ls)" "key \<notin> fst ` set (concat rs)"
proof -
  let ?E = "unat (entries_per_bucket ht)" and ?b = "bucket_of ht key"
  have b: "?b < length bs" using assms bucket_of_le [of ht key] by (simp add: fbk_rep_def)
  let ?ls = "take ?b bs" and ?rs = "drop (Suc ?b) bs"
  have bs: "bs = ?ls @ bs ! ?b # ?rs" using b by (simp add: id_take_nth_drop)
  have in_b: "length (bs ! c) \<le> ?E" "distinct (map fst (bs ! c))" "kv \<in> set (bs ! c) \<Longrightarrow> bucket_of ht (fst kv) = c"
    if "c < length bs" for c kv
    using assms that by (auto simp: fbk_rep_def)
  have le: "\<forall>x \<in> set bs. length x \<le> ?E" using in_b(1) by (auto simp: in_set_conv_nth)
  have len: "length (slots ht) = length bs * ?E" using assms length_slots [OF le] by (simp add: fbk_rep_def)
  have e32: "unat (entries ht) < 2 ^ 32" using unsigned_less [of "entries ht"] by simp
  have len32: "length (slots ht) < 2 ^ 32" 
    using assms len e32 by (simp add: fbk_rep_def)
  have pre: "length (concat (map (bucket_slots ?E) ?ls)) = ?b * ?E"
    using le b by (subst length_slots) (auto dest: in_set_takeD)
  have "?b * ?E \<le> length bs * ?E" using b by (intro mult_le_mono1) simp
  then have "?b * ?E < 2 ^ 32" using len len32 by linarith
  then have gb: "unat (rte_fbk_hash_get_bucket ht key) = ?b * ?E"
    using assms unfolding rte_fbk_hash_get_bucket_def unat_push bucket_of_def fbk_rep_def by auto
  have ls: "key \<notin> fst ` set (concat ?ls)"
  proof
    assume "key \<in> fst ` set (concat ?ls)"
    then obtain kv c where "kv \<in> set (bs ! c)" "c < ?b" "c < length bs" "fst kv = key" by (fastforce simp: in_set_conv_nth)
    then show False using in_b(3) [of c kv] by simp
  qed
  have rs: "key \<notin> fst ` set (concat ?rs)"
  proof
    assume "key \<in> fst ` set (concat ?rs)"
    then obtain kv x where kv: "kv \<in> set x" "x \<in> set ?rs" "fst kv = key" by auto
    then obtain d where "d < length ?rs" "x = ?rs ! d" by (auto simp: in_set_conv_nth)
    then have "kv \<in> set (bs ! (Suc ?b + d))" "Suc ?b + d < length bs" using kv b by auto
    then show False using in_b(3) [of "Suc ?b + d" kv] kv(3) by simp
  qed
  have "map_of (concat ?ls) key = None" "map_of (concat ?rs) key = None" using ls rs by (simp_all only: map_of_eq_None_iff) simp_all
  then have mp: "fbk_map bs key = map_of (bs ! ?b) key"
    by (subst bs) (simp add: map_add_def split: option.splits)
  have sl: "slots ht = concat (map (bucket_slots ?E) ?ls) @ map enc (bs ! ?b) @ replicate (?E - length (bs ! ?b)) 0 @ concat (map (bucket_slots ?E) ?rs)"
  proof -
    have "slots ht = concat (map (bucket_slots ?E) (?ls @ bs ! ?b # ?rs))" using assms bs by (simp add: fbk_rep_def)
    then show ?thesis by (simp add: bucket_slots_def)
  qed
  show thesis
    by (rule that [OF bs _ sl _ in_b(1) [OF b] len32 mp in_b(2) [OF b] ls rs]) (use b gb pre in simp_all)
qed

text \<open>Changing the bucket of a key.\<close>

lemma fbk_rep_change:
  assumes "fbk_rep ht (ls @ kvs # rs)" "length ls = bucket_of ht key" "length kvs' \<le> unat (entries_per_bucket ht)"
    "distinct (map fst kvs')" "fst ` set kvs' \<subseteq> insert key (fst ` set kvs)"
    "unat u = length (concat (ls @ kvs' # rs))"
  shows "fbk_rep (ht\<lparr>slots := concat (map (bucket_slots (unat (entries_per_bucket ht))) ls) @ map enc kvs'
       @ replicate (unat (entries_per_bucket ht) - length kvs') 0 @ concat (map (bucket_slots (unat (entries_per_bucket ht))) rs),
       used_entries := u\<rparr>) (ls @ kvs' # rs)"
proof -
  have b: "bucket_of (ht\<lparr>slots := s, used_entries := u\<rparr>) k = bucket_of ht k" for s k by (simp add: bucket_of_def)
  have old: "length x \<le> unat (entries_per_bucket ht) \<and> distinct (map fst x) \<and> (\<forall>kv \<in> set x. bucket_of ht (fst kv) = c)"
    if "c < length ls + Suc (length rs)" "x = (ls @ kvs # rs) ! c" for c x
  proof -
    have "\<forall>b < length (ls @ kvs # rs). length ((ls @ kvs # rs) ! b) \<le> unat (entries_per_bucket ht)
      \<and> distinct (map fst ((ls @ kvs # rs) ! b)) \<and> (\<forall>kv \<in> set ((ls @ kvs # rs) ! b). bucket_of ht (fst kv) = b)"
      using assms(1) unfolding fbk_rep_def by blast
    then show ?thesis using that by simp
  qed
  have "bucket_of ht (fst kv) = length ls" if "kv \<in> set kvs'" for kv
  proof -
    have "fst kv = key \<or> fst kv \<in> fst ` set kvs" using assms(5) that by blast
    moreover have "\<forall>kv \<in> set kvs. bucket_of ht (fst kv) = length ls" using old [of "length ls" kvs] by simp
    ultimately show ?thesis using assms(2) by fastforce
  qed
  then have "length x \<le> unat (entries_per_bucket ht) \<and> distinct (map fst x) \<and> (\<forall>kv \<in> set x. bucket_of ht (fst kv) = c)"
    if "c < length ls + Suc (length rs)" "x = (ls @ kvs' # rs) ! c" for c x
    using old [of c x] that assms(3,4) by (cases "c = length ls") (auto simp: nth_append nth_Cons')
  then show ?thesis using assms(1,6) by (simp add: fbk_rep_def b bucket_slots_def)
qed

lemma fbk_map_change:
  assumes "map_of kvs' = (map_of kvs)(key := x)" "key \<notin> fst ` set (concat ls)" "key \<notin> fst ` set (concat rs)"
  shows "fbk_map (ls @ kvs' # rs) = (fbk_map (ls @ kvs # rs))(key := x)"
proof
  fix k
  have n: "map_of (concat ls) key = None" "map_of (concat rs) key = None"
    using assms(2,3) by (simp_all only: map_of_eq_None_iff) simp_all
  show "fbk_map (ls @ kvs' # rs) k = ((fbk_map (ls @ kvs # rs))(key := x)) k"
  proof (cases "k = key")
    case True
    then show ?thesis using assms(1) n by (simp add: map_add_def split: option.splits)
  next
    case False
    then show ?thesis using assms(1) by (simp add: map_add_def split: option.splits)
  qed
qed

lemma length_AList_update: "length (AList.update k v al) = (if k \<in> fst ` set al then length al else length al + 1)"
  by (induction al) auto

lemma fbk_add:
  assumes "fbk_rep ht bs"
  shows "\<exists>r ht' bs'. rte_fbk_hash_add_key ht key value = Some (r, ht') \<and> fbk_rep ht' bs'
    \<and> (r = 0 \<and> fbk_map bs' = (fbk_map bs)(key \<mapsto> value)
       \<or> r = - ENOSPC \<and> ht' = ht \<and> bs' = bs \<and> fbk_map bs key = None
         \<and> length (bs ! bucket_of ht key) = unat (entries_per_bucket ht))"
proof -
  let ?E = "unat (entries_per_bucket ht)"
  let ?pre = "\<lambda>ls. concat (map (bucket_slots ?E) ls)"
  obtain ls kvs rs where bs: "bs = ls @ kvs # rs" and ls: "length ls = bucket_of ht key"
    and sl: "slots ht = ?pre ls @ map enc kvs @ replicate (?E - length kvs) 0 @ ?pre rs"
    and b: "unat (rte_fbk_hash_get_bucket ht key) = length (?pre ls)" and l: "length kvs \<le> ?E" and l32: "length (slots ht) < 2 ^ 32"
    and m: "fbk_map bs key = map_of kvs key" and d: "distinct (map fst kvs)"
    and nls: "key \<notin> fst ` set (concat ls)" and nrs: "key \<notin> fst ` set (concat rs)"
    using fbk_split [OF assms, of key] by blast
  have used: "unat (used_entries ht) = length (concat bs)" using assms by (simp add: fbk_rep_def)
  let ?kvs' = "AList.update key value kvs"
  have k': "distinct (map fst ?kvs')" "fst ` set ?kvs' \<subseteq> insert key (fst ` set kvs)" "map_of ?kvs' = (map_of kvs)(key \<mapsto> value)"
    using d by (auto simp: update_conv' dom_update distinct_update)
  have add: "rte_fbk_hash_add_key ht key value = Some (
    if key \<in> fst ` set kvs then (0, ht\<lparr>slots := ?pre ls @ map enc ?kvs' @ replicate (?E - length kvs) 0 @ ?pre rs\<rparr>)
    else if ?E - length kvs = 0 then (- ENOSPC, ht)
    else (0, ht\<lparr>slots := ?pre ls @ map enc ?kvs' @ replicate (?E - length kvs - 1) 0 @ ?pre rs, used_entries := used_entries ht + 1\<rparr>))"
    using add_from_exact [of ht "?pre ls" "[]" kvs "?E - length kvs" "?pre rs" "rte_fbk_hash_get_bucket ht key" 0 key "value"] sl b l l32
    by (simp add: rte_fbk_hash_add_key_def rte_fbk_hash_add_key_with_bucket_def)
  note change = fbk_rep_change [OF assms [unfolded bs] ls _ k'(1,2)] and mp = fbk_map_change [OF k'(3) nls nrs]
  consider (old) "key \<in> fst ` set kvs" | (full) "key \<notin> fst ` set kvs" "length kvs = ?E" | (room) "key \<notin> fst ` set kvs" "length kvs < ?E"
    using l by linarith
  then show ?thesis
  proof cases
    case old
    then have ln: "length ?kvs' = length kvs" by (simp add: length_AList_update)
    have "fbk_rep (ht\<lparr>slots := ?pre ls @ map enc ?kvs' @ replicate (?E - length kvs) 0 @ ?pre rs\<rparr>) (ls @ ?kvs' # rs)"
      using change [of "used_entries ht"] ln l used bs by simp
    moreover have "rte_fbk_hash_add_key ht key value = Some (0, ht\<lparr>slots := ?pre ls @ map enc ?kvs' @ replicate (?E - length kvs) 0 @ ?pre rs\<rparr>)"
      using add old by simp
    ultimately show ?thesis using mp bs by blast
  next
    case full
    then have "map_of kvs key = None" by (simp add: map_of_eq_None_iff)
    then show ?thesis using add full m assms bs ls nth_append_length [of ls kvs rs] by simp
  next
    case room
    then have ln: "length ?kvs' = length kvs + 1" by (simp add: length_AList_update)
    have "length (concat bs) < length (slots ht)"
    proof -
      have "length (concat xs) \<le> length (?pre xs)" for xs by (induction xs) (simp_all add: bucket_slots_def)
      then have "length (concat ls) \<le> length (?pre ls)" "length (concat rs) \<le> length (?pre rs)" by blast+
      then show ?thesis using sl bs room(2) by simp
    qed
    then have "unat (used_entries ht + 1) = length (concat (ls @ ?kvs' # rs))" using u32_next [OF used] l32 bs ln by simp
    then have "fbk_rep (ht\<lparr>slots := ?pre ls @ map enc ?kvs' @ replicate (?E - length kvs - 1) 0 @ ?pre rs,
        used_entries := used_entries ht + 1\<rparr>) (ls @ ?kvs' # rs)"
      using change [of "used_entries ht + 1"] ln room(2) by simp
    moreover have "rte_fbk_hash_add_key ht key value = Some (0, ht\<lparr>slots := ?pre ls @ map enc ?kvs' @ replicate (?E - length kvs - 1) 0 @ ?pre rs,
        used_entries := used_entries ht + 1\<rparr>)"
      using add room by simp
    ultimately show ?thesis using mp bs by blast
  qed
qed

lemma fbk_delete:
  assumes "fbk_rep ht bs"
  shows "if fbk_map bs key \<noteq> None
    then \<exists>ht' bs'. rte_fbk_hash_delete_key ht key = Some (0, ht') \<and> fbk_rep ht' bs' \<and> fbk_map bs' = (fbk_map bs)(key := None)
    else rte_fbk_hash_delete_key ht key
      = Some (if key = 0 \<and> length (bs ! bucket_of ht key) < unat (entries_per_bucket ht)
          then (0, ht\<lparr>used_entries := used_entries ht - 1\<rparr>) else (- ENOENT, ht))"
proof -
  let ?E = "unat (entries_per_bucket ht)" and ?b = "rte_fbk_hash_get_bucket ht key"
  let ?pre = "\<lambda>ls. concat (map (bucket_slots ?E) ls)"
  obtain ls kvs rs where bs: "bs = ls @ kvs # rs" and ls: "length ls = bucket_of ht key"
    and sl: "slots ht = ?pre ls @ map enc kvs @ replicate (?E - length kvs) 0 @ ?pre rs"
    and b: "unat ?b = length (?pre ls)" and l: "length kvs \<le> ?E" and l32: "length (slots ht) < 2 ^ 32"
    and m: "fbk_map bs key = map_of kvs key" and d: "distinct (map fst kvs)"
    and nls: "key \<notin> fst ` set (concat ls)" and nrs: "key \<notin> fst ` set (concat rs)"
    using fbk_split [OF assms, of key] by blast
  have used: "unat (used_entries ht) = length (concat bs)" using assms by (simp add: fbk_rep_def)
  have del: "rte_fbk_hash_delete_key ht key = delete_from ht key ?b 0 ?E"
    by (simp add: rte_fbk_hash_delete_key_def rte_fbk_hash_delete_key_with_bucket_def)
  have bk: "bs ! bucket_of ht key = kvs" using bs ls nth_append_length [of ls kvs rs] by simp
  show ?thesis
  proof (cases "map_of kvs key")
    case None
    then have k: "key \<notin> fst ` set kvs" by (simp add: map_of_eq_None_iff)
    obtain i where i: "delete_from ht key ?b 0 ?E = delete_from ht key ?b i (?E - length kvs)" "unat i = length kvs"
      using delete_from_skip [of ht "?pre ls" "[]" kvs "replicate (?E - length kvs) 0 @ ?pre rs" ?b 0 key "?E - length kvs"] sl b l32 k l
      by auto
    show ?thesis
    proof (cases "key = 0 \<and> length kvs < ?E")
      case True
      obtain n where n: "?E - length kvs = Suc n" using True by (cases "?E - length kvs") simp_all
      have "slots ht = ?pre ls @ map enc kvs @ replicate (Suc n) 0 @ ?pre rs" using sl n by simp
      then have "delete_from ht 0 ?b i (Suc n) = Some (0, ht\<lparr>used_entries := used_entries ht - 1\<rparr>)"
        by (rule delete_empty_here) (use b i(2) l32 n in simp_all)
      then have "rte_fbk_hash_delete_key ht key = Some (0, ht\<lparr>used_entries := used_entries ht - 1\<rparr>)"
        using del i(1) True unfolding n by simp
      then show ?thesis using None m bk True by simp
    next
      case False
      have "delete_from ht key ?b i (?E - length kvs) = Some (- ENOENT, ht)"
        using delete_from_empty [of ht "?pre ls" "map enc kvs" "?E - length kvs" "?pre rs" ?b i key] sl b i(2) l32 False l by auto
      then show ?thesis using None m del i(1) bk False by simp
    qed
  next
    case (Some v)
    then obtain us ys where kvs: "kvs = us @ (key, v) # ys" by (metis map_of_SomeD split_list)
    have nk: "key \<notin> fst ` set us" "key \<notin> fst ` set ys" using d kvs by auto
    obtain n where n: "?E - length us = Suc n" using l kvs by (cases "?E - length us") simp_all
    have e: "?E = length us + Suc n" using n by simp
    obtain i where i: "delete_from ht key ?b 0 (length us + Suc n) = delete_from ht key ?b i (Suc n)" "unat i = length us"
      using delete_from_skip [of ht "?pre ls" "[]" us "map enc ((key, v) # ys) @ replicate (?E - length kvs) 0 @ ?pre rs" ?b 0 key "Suc n"] sl b l32 nk n kvs l
      by (auto simp del: delete_from.simps)
    let ?kvs' = "swap_out us ys"
    let ?ht' = "ht\<lparr>slots := ?pre ls @ map enc ?kvs' @ replicate (Suc (?E - length kvs)) 0 @ ?pre rs, used_entries := used_entries ht - 1\<rparr>"
    have "delete_from ht key ?b i (Suc n) = Some (0, ?ht')"
      using delete_here [of ht "?pre ls" us "(key, v)" ys "?E - length kvs" "?pre rs" ?b i key n] sl b i(2) l32 l kvs by simp
    moreover have "fbk_rep ?ht' (ls @ ?kvs' # rs)"
    proof -
      have "unat (used_entries ht - 1) = length (concat (ls @ ?kvs' # rs))"
        using used bs kvs by (subst unat_minus_one) (auto simp: swap_out_length)
      moreover have "Suc (?E - length kvs) = ?E - length ?kvs'" using l kvs by (simp add: swap_out_length)
      ultimately show ?thesis
        using fbk_rep_change [OF assms [unfolded bs] ls, of ?kvs' "used_entries ht - 1"] l d kvs by (auto simp: swap_out_length swap_out_distinct swap_out_set)
    qed
    moreover have "map_of ?kvs' = (map_of kvs)(key := None)"
    proof -
      have "map_of ?kvs' = map_of (us @ ys)"
        using d kvs by (subst map_of_inject_set) (auto simp: swap_out_distinct swap_out_set)
      moreover have "map_of us key = None" "map_of ys key = None" using nk by (simp_all add: map_of_eq_None_iff)
      ultimately show ?thesis using kvs by (auto simp: map_add_def fun_eq_iff split: option.splits)
    qed
    ultimately have "rte_fbk_hash_delete_key ht key = Some (0, ?ht')" "fbk_rep ?ht' (ls @ ?kvs' # rs)"
      "fbk_map (ls @ ?kvs' # rs) = (fbk_map bs)(key := None)"
      using del i(1) e fbk_map_change [OF _ nls nrs, of ?kvs' kvs None] bs by (simp_all del: delete_from.simps)
    then show ?thesis using Some m by auto
  qed
qed

lemma fbk_lookup:
  assumes "fbk_rep ht bs"
  shows "rte_fbk_hash_lookup ht key = Some (case fbk_map bs key of None \<Rightarrow> - ENOENT | Some v \<Rightarrow> uint v)"
proof -
  let ?E = "unat (entries_per_bucket ht)" and ?b = "rte_fbk_hash_get_bucket ht key"
  let ?pre = "\<lambda>ls. concat (map (bucket_slots ?E) ls)"
  obtain ls kvs rs where sl: "slots ht = ?pre ls @ map enc kvs @ replicate (?E - length kvs) 0 @ ?pre rs"
    and b: "unat ?b = length (?pre ls)" and l: "length kvs \<le> ?E" and l32: "length (slots ht) < 2 ^ 32"
    and m: "fbk_map bs key = map_of kvs key"
    using fbk_split [OF assms, of key] by blast
  show ?thesis
    using lookup_from_exact [of ht "?pre ls" "[]" kvs "?E - length kvs" "?pre rs" ?b 0 key] sl b l l32 m
    by (simp add: rte_fbk_hash_lookup_def rte_fbk_hash_lookup_with_bucket_def)
qed

lemma fbk_clear:
  assumes "fbk_rep ht bs"
  shows "\<exists>ht'. rte_fbk_hash_clear_all ht = Some ht' \<and> fbk_rep ht' (replicate (length bs) [])"
proof -
  let ?E = "unat (entries_per_bucket ht)"
  have "length x \<le> ?E" if "x \<in> set bs" for x using assms that by (auto simp: fbk_rep_def in_set_conv_nth)
  then have len: "length (slots ht) = length bs * ?E" using assms length_slots [of bs ?E] by (simp add: fbk_rep_def)
  have z: "concat (replicate n (bucket_slots e [])) = replicate (n * e) 0" for n e
    by (induction n) (simp_all add: bucket_slots_def replicate_add)
  have e: "concat (replicate n []) = ([] :: key_value list)" for n by (induction n) simp_all
  show ?thesis using assms len z [of "length bs" ?E]
    by (auto simp: rte_fbk_hash_clear_all_def fbk_rep_def bucket_of_def e simp del: replicate_Suc)
qed

section \<open>The property\<close>

text \<open>C32. The hash table is a partial map: a lookup finds the value of the key or says that there is
  none; adding a key sets its value, and fails only when its bucket is full and the key is new; deleting
  removes the key, and says so when it is not there. The exception is the key 0: when it is not in the
  table, its deletion succeeds if its bucket has room, changes no entry and counts one entry less.\<close>

theorem fbk_hash_is_a_map:
  assumes "fbk_rep ht bs"
  shows "rte_fbk_hash_lookup ht key = Some (case fbk_map bs key of None \<Rightarrow> - ENOENT | Some v \<Rightarrow> uint v)
    \<and> (\<exists>r ht' bs'. rte_fbk_hash_add_key ht key v = Some (r, ht') \<and> fbk_rep ht' bs'
         \<and> (r = 0 \<and> fbk_map bs' = (fbk_map bs)(key \<mapsto> v)
            \<or> r = - ENOSPC \<and> ht' = ht \<and> bs' = bs \<and> fbk_map bs key = None
              \<and> length (bs ! bucket_of ht key) = unat (entries_per_bucket ht)))
    \<and> (if fbk_map bs key \<noteq> None
       then \<exists>ht' bs'. rte_fbk_hash_delete_key ht key = Some (0, ht') \<and> fbk_rep ht' bs' \<and> fbk_map bs' = (fbk_map bs)(key := None)
       else rte_fbk_hash_delete_key ht key
         = Some (if key = 0 \<and> length (bs ! bucket_of ht key) < unat (entries_per_bucket ht)
             then (0, ht\<lparr>used_entries := used_entries ht - 1\<rparr>) else (- ENOENT, ht)))
    \<and> (\<exists>ht'. rte_fbk_hash_clear_all ht = Some ht' \<and> fbk_rep ht' (replicate (length bs) []))"
  using fbk_lookup [OF assms] fbk_add [OF assms] fbk_delete [OF assms] fbk_clear [OF assms] by blast

text \<open>Two buckets of two entries; the keys 4 and 6 share the first one. Deleting 4 moves 6, and deleting
  the absent key 0 makes the count wrong.\<close>

definition sample_fbk :: rte_fbk_hash_table where
  "sample_fbk = \<lparr>entries = 4, entries_per_bucket = 2, used_entries = 3, bucket_mask = 1, bucket_shift = 1,
     hash_func = (\<lambda>k i. k + i), init_val = 0, slots = [new_entry 4 40, new_entry 6 60, new_entry 3 30, 0]\<rparr>"

lemma sample_fbk_rep: "fbk_rep sample_fbk [[(4, 40), (6, 60)], [(3, 30)]]"
  by (auto simp: fbk_rep_def sample_fbk_def bucket_slots_def bucket_of_def nth_Cons' less_Suc_eq)

lemma fbk_hash_is_a_map_witness:
  "rte_fbk_hash_lookup sample_fbk 6 = Some 60 \<and> rte_fbk_hash_lookup sample_fbk 8 = Some (- ENOENT)
   \<and> rte_fbk_hash_delete_key sample_fbk 8 = Some (- ENOENT, sample_fbk)
   \<and> (\<exists>ht. rte_fbk_hash_delete_key sample_fbk 4 = Some (0, ht))"
  using fbk_hash_is_a_map [OF sample_fbk_rep, of 6 0] fbk_hash_is_a_map [OF sample_fbk_rep, of 8 0]
    fbk_hash_is_a_map [OF sample_fbk_rep, of 4 0] by auto

end
