(* ===== verification/Rte_Jhash_Correct.thy ===== *)
theory Rte_Jhash_Correct
  imports Rte_Jhash
begin

text \<open>
  All calls of the Jenkins hash compute \<open>jhash_of\<close>, a function of the bytes of the key alone.
\<close>

section \<open>The function of the bytes\<close>

definition byte_at :: "u8 list \<Rightarrow> nat \<Rightarrow> u8" where
  "byte_at bs i = (if i < length bs then bs ! i else 0)"

definition word_at :: "u8 list \<Rightarrow> nat \<Rightarrow> u32" where
  "word_at bs i = word_of (byte_at bs i) (byte_at bs (i + 1)) (byte_at bs (i + 2)) (byte_at bs (i + 3))"

definition add_block :: "u8 list \<Rightarrow> jstate \<Rightarrow> jstate" where
  "add_block bs = (\<lambda>(a, b, c). (a + word_at bs 0, b + word_at bs 4, c + word_at bs 8))"

text \<open>Blocks of twelve bytes are mixed in; the last one, filled up with zeros, goes to the final mixing.\<close>

function absorb :: "u8 list \<Rightarrow> jstate \<Rightarrow> jstate" where
  "absorb bs st = (if 12 < length bs then absorb (drop 12 bs) (rte_jhash_mix (add_block (take 12 bs) st))
     else if bs = [] then st else rte_jhash_final (add_block bs st))"
  by pat_completeness auto

termination by (relation "measure (\<lambda>(bs, st). length bs)") auto

declare absorb.simps [simp del]

definition jhash_of :: "u8 list \<Rightarrow> u32 \<Rightarrow> u32 \<Rightarrow> u32 \<times> u32" where
  "jhash_of bs pc pb = (let s = RTE_JHASH_GOLDEN_RATIO + of_nat (length bs) + pc; (a, b, c) = absorb bs (s, s, s + pb) in (c, b))"

section \<open>Words and bytes\<close>

lemma bit_word_of:
  assumes "m < 8"
  shows "bit (word_of b0 b1 b2 b3) m = bit b0 m" "bit (word_of b0 b1 b2 b3) (m + 8) = bit b1 m"
    "bit (word_of b0 b1 b2 b3) (m + 16) = bit b2 m" "bit (word_of b0 b1 b2 b3) (m + 24) = bit b3 m"
  using assms by (auto simp: word_of_def bit_simps dest: bit_imp_le_length)

lemma u32_eq_bytes:
  assumes "\<And>m. m < 8 \<Longrightarrow> bit x m = bit y m" "\<And>m. m < 8 \<Longrightarrow> bit x (m + 8) = bit y (m + 8)"
    "\<And>m. m < 8 \<Longrightarrow> bit x (m + 16) = bit y (m + 16)" "\<And>m. m < 8 \<Longrightarrow> bit x (m + 24) = bit y (m + 24)"
  shows "x = (y :: u32)"
proof (rule bit_word_eqI)
  fix n assume "n < LENGTH(32)"
  then consider "n < 8" | "8 \<le> n" "n < 16" | "16 \<le> n" "n < 24" | "24 \<le> n" "n < 32" by fastforce
  then show "bit x n = bit y n"
    using assms(1) [of n] assms(2) [of "n - 8"] assms(3) [of "n - 16"] assms(4) [of "n - 24"] by cases simp_all
qed

lemma mask_word_of:
  "word_of b0 b1 b2 b3 AND 0xff = word_of b0 0 0 0"
  "word_of b0 b1 b2 b3 AND 0xffff = word_of b0 b1 0 0"
  "word_of b0 b1 b2 b3 AND 0xffffff = word_of b0 b1 b2 0"
proof -
  have m: "(0xff :: u32) = mask 8" "(0xffff :: u32) = mask 16" "(0xffffff :: u32) = mask 24" by (simp_all add: mask_eq_exp_minus_1)
  show "word_of b0 b1 b2 b3 AND 0xff = word_of b0 0 0 0" "word_of b0 b1 b2 b3 AND 0xffff = word_of b0 b1 0 0"
    "word_of b0 b1 b2 b3 AND 0xffffff = word_of b0 b1 b2 0"
    unfolding m by (rule u32_eq_bytes; simp add: bit_word_of bit_and_iff bit_mask_iff)+
qed

lemma word_of_0 [simp]: "word_of 0 0 0 0 = 0"
  by (simp add: word_of_def)

text \<open>Two aligned words give the word between them.\<close>

lemma bit_BIT_SHIFT:
  assumes "n < 32" "k < 32"
  shows "bit (ucast (BIT_SHIFT x y k) :: u32) n = (if n + k < 32 then bit x (n + k) else bit y (n + k - 32))"
proof (cases "n + k < 32")
  case True
  then have "\<not> 32 - k \<le> n" by simp
  then show ?thesis using True assms by (simp add: BIT_SHIFT_def bit_simps add.commute)
next
  case False
  then have "\<not> bit x (k + n)" by (auto dest: bit_imp_le_length)
  moreover have "32 - k \<le> n" "n + k - 32 < 64" using False assms by simp_all
  ultimately show ?thesis using False assms by (simp add: BIT_SHIFT_def bit_simps)
qed

lemma BIT_SHIFT_word:
  "(ucast (BIT_SHIFT (word_of b0 b1 b2 b3) (word_of b4 b5 b6 b7) 8) :: u32) = word_of b1 b2 b3 b4"
  "(ucast (BIT_SHIFT (word_of b0 b1 b2 b3) (word_of b4 b5 b6 b7) 16) :: u32) = word_of b2 b3 b4 b5"
  "(ucast (BIT_SHIFT (word_of b0 b1 b2 b3) (word_of b4 b5 b6 b7) 24) :: u32) = word_of b3 b4 b5 b6"
  by (rule u32_eq_bytes; simp add: bit_BIT_SHIFT bit_word_of add.commute [of 8] add.commute [of 16] add.commute [of 24])+

text \<open>The words of the key, filled up with zeros, are masked words of the memory.\<close>

lemma word_at_key:
  assumes "p + n \<le> length mem"
  shows "i + 4 \<le> n \<Longrightarrow> word_at (take n (drop p mem)) i = word_at mem (p + i)"
    and "n = i + 3 \<Longrightarrow> word_at (take n (drop p mem)) i = word_at mem (p + i) AND LOWER24b_MASK"
    and "n = i + 2 \<Longrightarrow> word_at (take n (drop p mem)) i = word_at mem (p + i) AND LOWER16b_MASK"
    and "n = i + 1 \<Longrightarrow> word_at (take n (drop p mem)) i = word_at mem (p + i) AND LOWER8b_MASK"
    and "n \<le> i \<Longrightarrow> word_at (take n (drop p mem)) i = 0"
proof -
  have b: "byte_at (take n (drop p mem)) j = (if j < n then byte_at mem (p + j) else 0)" for j
    using assms by (simp add: byte_at_def)
  show "i + 4 \<le> n \<Longrightarrow> word_at (take n (drop p mem)) i = word_at mem (p + i)"
    "n = i + 3 \<Longrightarrow> word_at (take n (drop p mem)) i = word_at mem (p + i) AND LOWER24b_MASK"
    "n = i + 2 \<Longrightarrow> word_at (take n (drop p mem)) i = word_at mem (p + i) AND LOWER16b_MASK"
    "n = i + 1 \<Longrightarrow> word_at (take n (drop p mem)) i = word_at mem (p + i) AND LOWER8b_MASK"
    "n \<le> i \<Longrightarrow> word_at (take n (drop p mem)) i = 0"
    unfolding word_at_def b by (simp_all add: mask_word_of add.assoc)
qed

definition bytes_of :: "u32 \<Rightarrow> u8 list" where
  "bytes_of w = [ucast w, ucast (drop_bit 8 w), ucast (drop_bit 16 w), ucast (drop_bit 24 w)]"

lemma word_of_bytes: "word_of (ucast w) (ucast (drop_bit 8 w)) (ucast (drop_bit 16 w)) (ucast (drop_bit 24 w)) = w"
  by (rule u32_eq_bytes) (simp_all add: bit_word_of bit_simps add.commute)

section \<open>Ways to read the key\<close>

text \<open>A reader delivers the words of the memory at a distance \<open>d\<close>, and needs \<open>slack\<close> bytes for each.\<close>

locale key_reader =
  fixes w :: "nat \<Rightarrow> nat \<Rightarrow> u32 option" and mem :: "u8 list" and d slack :: nat
  assumes reads: "k + 4 * i + slack \<le> length mem \<Longrightarrow> w k i = Some (word_at mem (k + d + 4 * i))"
    and fails: "length mem < k + 4 * i + slack \<Longrightarrow> w k i = None"
    and slack: "d + 4 \<le> slack"
begin

definition reach :: "nat \<Rightarrow> nat \<Rightarrow> nat" where
  "reach k n = k + 4 * ((n + 3) div 4 - 1) + slack"

lemma w_eq: "w k i = (if k + 4 * i + slack \<le> length mem then Some (word_at mem (k + d + 4 * i)) else None)"
  using reads [of k i] fails [of k i] by simp

lemma switch_exact:
  assumes "len \<le> 12"
  shows "map_option (\<lambda>(fin, st). if fin then rte_jhash_final st else st) (jhash_switch (w k) len st)
    = (if len = 0 then Some st else if reach k (unat len) \<le> length mem
       then Some (rte_jhash_final (add_block (take (unat len) (drop (k + d) mem)) st)) else None)"
proof -
  obtain a b c where st: "st = (a, b, c)" by (cases st)
  have "unat len \<in> set [0..<13]" using assms by (simp add: word_le_nat_alt)
  then have "len \<in> of_nat ` set [0..<13]" using image_eqI [of len of_nat "unat len"] by simp
  then have cases: "len = 0 \<or> len = 1 \<or> len = 2 \<or> len = 3 \<or> len = 4 \<or> len = 5 \<or> len = 6 \<or> len = 7 \<or> len = 8 \<or> len = 9
    \<or> len = 10 \<or> len = 11 \<or> len = 12"
    by (simp add: upt_conv_Cons)
  note r = reach_def w_eq st jhash_switch_def add_block_def word_at_key
  from cases show ?thesis by (elim disjE) (use slack in \<open>simp_all add: r\<close>)
qed

lemma reach_ge: "0 < n \<Longrightarrow> k + d + n \<le> reach k n"
proof -
  assume "0 < n"
  then have "n \<le> 4 * ((n + 3) div 4)" "1 \<le> (n + 3) div 4" by presburger+
  then show ?thesis using slack by (simp add: reach_def)
qed

lemma reach_step:
  assumes "12 < n"
  shows "reach (k + 12) (n - 12) = reach k n" "k + 8 + slack \<le> reach k n"
proof -
  obtain m where m: "n = m + 12" "0 < m" using assms by (metis add_diff_inverse_nat add.commute less_imp_le not_less zero_less_diff)
  have "(n + 3) div 4 = (m + 3) div 4 + 3" "1 \<le> (m + 3) div 4" using m by presburger+
  then show "reach (k + 12) (n - 12) = reach k n" "k + 8 + slack \<le> reach k n" using m(1) by (simp_all add: reach_def)
qed

lemma loop_exact:
  "map_option (\<lambda>(fin, st). if fin then rte_jhash_final st else st) (jhash_loop w k len st)
    = (if len = 0 then Some st else if reach k (unat len) \<le> length mem
       then Some (absorb (take (unat len) (drop (k + d) mem)) st) else None)"
proof (induction "unat len" arbitrary: k len st rule: less_induct)
  case less
  let ?n = "unat len" and ?key = "\<lambda>k n. take n (drop (k + d) mem)"
  obtain a b c where st: "st = (a, b, c)" by (cases st)
  show ?case
  proof (cases "12 < len")
    case False
    then have n: "?n \<le> 12" by (simp add: word_le_nat_alt not_less)
    have "absorb (?key k ?n) st = rte_jhash_final (add_block (?key k ?n) st)" if "len \<noteq> 0" "reach k ?n \<le> length mem"
    proof -
      have "0 < ?n" using that(1) by (simp add: unat_gt_0)
      then have "k + d + ?n \<le> length mem" using reach_ge [of ?n k] that(2) by linarith
      then have "?key k ?n \<noteq> []" "\<not> 12 < length (?key k ?n)" using \<open>0 < ?n\<close> n by auto
      then show ?thesis by (metis absorb.simps)
    qed
    then show ?thesis using switch_exact [of len k st] False n by (simp add: jhash_loop.simps [of w k len] word_le_nat_alt)
  next
    case True
    then have n: "12 < ?n" "len \<noteq> 0" by (auto simp: word_less_nat_alt)
    have n12: "unat (len - 12) = ?n - 12" "len - 12 \<noteq> 0" using n(1) unat_sub_le [of 12 len] by auto
    show ?thesis
    proof (cases "k + 8 + slack \<le> length mem")
      case False
      then have "w k 2 = None" by (simp add: w_eq)
      then show ?thesis using False True n(2) reach_step(2) [OF n(1), of k] st
        by (simp add: jhash_loop.simps [of w k len] split: bind_splits)
    next
      case room: True
      then have w: "w k 0 = Some (word_at mem (k + d))" "w k 1 = Some (word_at mem (k + d + 4))" "w k 2 = Some (word_at mem (k + d + 8))"
        by (simp_all add: w_eq)
      let ?st = "rte_jhash_mix (add_block (take 12 (drop (k + d) mem)) st)"
      have "add_block (take 12 (drop (k + d) mem)) st = (a + word_at mem (k + d), b + word_at mem (k + d + 4), c + word_at mem (k + d + 8))"
        using word_at_key(1) [of "k + d" 12 mem] room slack st by (simp add: add_block_def)
      then have l: "jhash_loop w k len st = jhash_loop w (k + 12) (len - 12) ?st"
        using True w st by (simp add: jhash_loop.simps [of w k len])
      have "absorb (?key k ?n) st = absorb (?key (k + 12) (?n - 12)) ?st" if "reach k ?n \<le> length mem"
      proof -
        have "k + d + ?n \<le> length mem" using reach_ge [of ?n k] that n(1) by linarith
        then have "length (?key k ?n) = ?n" by simp
        then show ?thesis using n(1) by (subst absorb.simps) (simp add: min_def drop_take ac_simps)
      qed
      then show ?thesis
        using less [of "len - 12" "k + 12" ?st] n n12 reach_step(1) [OF n(1), of k] unfolding l by simp
    qed
  qed
qed

end

interpretation aligned: key_reader "fetch_aligned mem" mem 0 4 for mem
  by unfold_locales (auto simp: fetch_aligned_def load32_def word_at_def byte_at_def)

lemma fetch_shifted_eq:
  "d \<in> {1, 2, 3} \<Longrightarrow> fetch_shifted (8 * d) mem k i = (if k + 4 * i + 8 \<le> length mem then Some (word_at mem (k + d + 4 * i)) else None)"
proof -
  assume d: "d \<in> {1, 2, 3}"
  define q where "q = k + 4 * i"
  have r: "k + 4 * (i + 1) = q + 4" "k + d + 4 * i = q + d" "k + 4 * i = q" by (simp_all add: q_def)
  show ?thesis using d unfolding fetch_shifted_def r
    by (elim insertE) (simp_all add: load32_def word_at_def byte_at_def BIT_SHIFT_word add.assoc del: One_nat_def add_2_eq_Suc add_2_eq_Suc')
qed

interpretation shifted1: key_reader "fetch_shifted 8 mem" mem 1 8 for mem
  using fetch_shifted_eq [of 1] by unfold_locales auto

interpretation shifted2: key_reader "fetch_shifted 16 mem" mem 2 8 for mem
  using fetch_shifted_eq [of 2] by unfold_locales auto

interpretation shifted3: key_reader "fetch_shifted 24 mem" mem 3 8 for mem
  using fetch_shifted_eq [of 3] by unfold_locales auto

section \<open>The properties\<close>

text \<open>The end of the memory that the hash reads: whole words, and one more where words are put together.\<close>

definition jhash_reach :: "bool \<Rightarrow> nat \<Rightarrow> nat \<Rightarrow> nat" where
  "jhash_reach x86 key n = (if n = 0 then 0
     else if x86 then key + 4 * ((n + 3) div 4)
     else 4 * (key div 4) + 4 * ((n + 3) div 4) + (if key mod 4 = 0 then 0 else 4))"

lemma rte_jhash_2hashes_exact:
  "rte_jhash_2hashes x86 mem key len pc pb = (if jhash_reach x86 key (unat len) \<le> length mem
     then Some (jhash_of (take (unat len) (drop key mem)) pc pb) else None)"
proof -
  let ?n = "unat len"
  let ?k = "if x86 then key else 4 * (key div 4)" and ?s = "if x86 then 0 else 8 * (key mod 4)"
  let ?st = "(RTE_JHASH_GOLDEN_RATIO + len + pc, RTE_JHASH_GOLDEN_RATIO + len + pc, RTE_JHASH_GOLDEN_RATIO + len + pc + pb)"
  let ?fin = "\<lambda>(fin, st). if fin then rte_jhash_final st else st"
  have loop: "map_option ?fin (jhash_loop (if ?s = 0 then fetch_aligned mem else fetch_shifted ?s mem) ?k len ?st)
      = (if jhash_reach x86 key ?n \<le> length mem then Some (absorb (take ?n (drop key mem)) ?st) else None)"
  proof -
    have empty: "absorb (take ?n (drop key mem)) ?st = ?st" if "len = 0" using that by (simp add: absorb.simps)
    have pos: "4 * ((?n + 3) div 4 - 1) + 4 = 4 * ((?n + 3) div 4)" if "len \<noteq> 0"
    proof -
      have "0 < ?n" using that by (simp add: unat_gt_0)
      then have "1 \<le> (?n + 3) div 4" by presburger
      then show ?thesis by simp
    qed
    have km: "key = 4 * (key div 4) + key mod 4" by simp
    consider "?s = 0" "?k = key" | "?s = 8" "key mod 4 = 1" "\<not> x86" | "?s = 16" "key mod 4 = 2" "\<not> x86" | "?s = 24" "key mod 4 = 3" "\<not> x86"
    proof -
      have "key mod 4 < 4" by simp
      then have "key mod 4 = 0 \<or> key mod 4 = 1 \<or> key mod 4 = 2 \<or> key mod 4 = 3" by linarith
      then show thesis using that km by (cases x86) (auto split: if_splits)
    qed
    then show ?thesis
    proof cases
      case 1
      have "jhash_reach x86 key ?n = (if len = 0 then 0 else aligned.reach key ?n)"
        using 1 pos by (auto simp: jhash_reach_def aligned.reach_def unat_eq_0 split: if_splits)
      then show ?thesis using aligned.loop_exact [of mem key len ?st] empty 1 by (cases "len = 0") simp_all
    next
      case 2
      have "jhash_reach x86 key ?n = (if len = 0 then 0 else shifted1.reach ?k ?n)"
        using 2 pos by (auto simp: jhash_reach_def shifted1.reach_def unat_eq_0)
      moreover have "?k + 1 = key" using 2 km by simp
      ultimately show ?thesis using shifted1.loop_exact [of mem ?k len ?st] empty 2 by (cases "len = 0") simp_all
    next
      case 3
      have "jhash_reach x86 key ?n = (if len = 0 then 0 else shifted2.reach ?k ?n)"
        using 3 pos by (auto simp: jhash_reach_def shifted2.reach_def unat_eq_0)
      moreover have "?k + 2 = key" using 3 km by simp
      ultimately show ?thesis using shifted2.loop_exact [of mem ?k len ?st] empty 3 by (cases "len = 0") simp_all
    next
      case 4
      have "jhash_reach x86 key ?n = (if len = 0 then 0 else shifted3.reach ?k ?n)"
        using 4 pos by (auto simp: jhash_reach_def shifted3.reach_def unat_eq_0)
      moreover have "?k + 3 = key" using 4 km by simp
      ultimately show ?thesis using shifted3.loop_exact [of mem ?k len ?st] empty 4 by (cases "len = 0") simp_all
    qed
  qed
  have "rte_jhash_2hashes x86 mem key len pc pb = map_option (\<lambda>(a, b, c). (c, b))
      (map_option ?fin (jhash_loop (if ?s = 0 then fetch_aligned mem else fetch_shifted ?s mem) ?k len ?st))"
    unfolding rte_jhash_2hashes_def rte_jhash_2hashes_checked_def Let_def
    by (cases "jhash_loop (if ?s = 0 then fetch_aligned mem else fetch_shifted ?s mem) ?k len ?st") (auto split: prod.splits)
  moreover have "of_nat (length (take ?n (drop key mem))) = len" if "jhash_reach x86 key ?n \<le> length mem"
  proof (cases "?n = 0")
    case False
    have "?n \<le> 4 * ((?n + 3) div 4)" "key \<le> 4 * (key div 4) + (if key mod 4 = 0 then 0 else 4)" by presburger+
    then have "key + ?n \<le> jhash_reach x86 key ?n" using False by (simp add: jhash_reach_def)
    then have "length (take ?n (drop key mem)) = ?n" using that by simp
    then show ?thesis by simp
  qed (simp add: unat_eq_0)
  ultimately show ?thesis unfolding loop by (simp add: jhash_of_def Let_def split: prod.splits)
qed

lemma rte_jhash_32b_2hashes_exact:
  assumes "x86 \<or> 4 dvd k" "len < 2 ^ 30"
  shows "rte_jhash_32b_2hashes x86 mem k len pc pb = rte_jhash_2hashes x86 mem k (4 * len) pc pb"
proof -
  have "push_bit 2 len = 4 * len" by (simp add: push_bit_eq_mult)
  moreover have "k mod 4 = 0" if "\<not> x86" using assms(1) that by (simp add: dvd_eq_mod_eq_0)
  ultimately show ?thesis by (auto simp: rte_jhash_32b_2hashes_def rte_jhash_2hashes_def rte_jhash_2hashes_checked_def)
qed

lemma absorb_words:
  "absorb (bytes_of a) st = rte_jhash_final (case st of (x, y, z) \<Rightarrow> (x + a, y, z))"
  "absorb (bytes_of a @ bytes_of b) st = rte_jhash_final (case st of (x, y, z) \<Rightarrow> (x + a, y + b, z))"
  "absorb (bytes_of a @ bytes_of b @ bytes_of c) st = rte_jhash_final (case st of (x, y, z) \<Rightarrow> (x + a, y + b, z + c))"
  by (simp_all add: absorb.simps bytes_of_def add_block_def word_at_def byte_at_def word_of_bytes split: prod.splits)

lemma jhash_words:
  "rte_jhash_1word a initval = fst (jhash_of (bytes_of a) initval 0)"
  "rte_jhash_2words a b initval = fst (jhash_of (bytes_of a @ bytes_of b) initval 0)"
  "rte_jhash_3words a b c initval = fst (jhash_of (bytes_of a @ bytes_of b @ bytes_of c) initval 0)"
  unfolding rte_jhash_1word_def rte_jhash_2words_def rte_jhash_3words_def rte_jhash_3words_raw_def jhash_of_def absorb_words Let_def
  by (simp_all add: bytes_of_def ac_simps split: prod.splits)

text \<open>C33. There is one Jenkins hash. Wherever the key lies, aligned or not, and on either kind of processor,
  the hash depends on the bytes of the key alone, never on what lies behind it, and it is computed exactly
  when the whole words that the code touches are in the memory. That holds of the call for one hash and
  of the call that takes two initial values and returns two hashes, which are the two words of the one
  hash function's final state. The calls for arrays of fewer than 2^30 words (aligned ones, on a processor
  that needs it) give the hashes of their bytes, and the three calls for one, two and three words that of
  an array of so many.\<close>

theorem rte_jhash_one_function:
  "rte_jhash x86 mem key len initval = (if jhash_reach x86 key (unat len) \<le> length mem
     then Some (fst (jhash_of (take (unat len) (drop key mem)) initval 0)) else None)
   \<and> rte_jhash_2hashes x86 mem key len pc pb = (if jhash_reach x86 key (unat len) \<le> length mem
     then Some (jhash_of (take (unat len) (drop key mem)) pc pb) else None)
   \<and> (\<not> (len < 2 ^ 30 \<and> (x86 \<or> 4 dvd key)) \<or> rte_jhash_32b x86 mem key len initval = rte_jhash x86 mem key (4 * len) initval)
   \<and> (\<not> (len < 2 ^ 30 \<and> (x86 \<or> 4 dvd key)) \<or>
        rte_jhash_32b_2hashes x86 mem key len pc pb = rte_jhash_2hashes x86 mem key (4 * len) pc pb)
   \<and> rte_jhash_1word a initval = fst (jhash_of (bytes_of a) initval 0)
   \<and> rte_jhash_2words a b initval = fst (jhash_of (bytes_of a @ bytes_of b) initval 0)
   \<and> rte_jhash_3words a b c initval = fst (jhash_of (bytes_of a @ bytes_of b @ bytes_of c) initval 0)"
proof (intro conjI)
  show "\<not> (len < 2 ^ 30 \<and> (x86 \<or> 4 dvd key)) \<or> rte_jhash_32b x86 mem key len initval = rte_jhash x86 mem key (4 * len) initval"
    using rte_jhash_32b_2hashes_exact [of x86 key len mem initval 0] unfolding rte_jhash_def rte_jhash_32b_def by metis
  show "\<not> (len < 2 ^ 30 \<and> (x86 \<or> 4 dvd key)) \<or>
      rte_jhash_32b_2hashes x86 mem key len pc pb = rte_jhash_2hashes x86 mem key (4 * len) pc pb"
    using rte_jhash_32b_2hashes_exact [of x86 key len mem pc pb] by metis
qed (simp_all add: rte_jhash_def rte_jhash_2hashes_exact jhash_words)

text \<open>Nine bytes at an odd address, on a processor that reads aligned words, and one word both ways.\<close>

theorem rte_jhash_one_function_witness:
  "rte_jhash False [9, 1, 2, 3, 4, 5, 6, 7, 8, 9, 7, 7, 7, 7, 7, 7] 1 9 0 = Some (fst (jhash_of [1, 2, 3, 4, 5, 6, 7, 8, 9] 0 0))
   \<and> rte_jhash False [9, 1, 2, 3, 4, 5, 6, 7, 8, 9, 7, 7] 1 9 0 = None
   \<and> rte_jhash_32b True [1, 0, 0, 0] 0 1 5 = Some (rte_jhash_1word 1 5)
   \<and> rte_jhash_32b_2hashes True [1, 0, 0, 0] 0 1 5 6 = Some (jhash_of [1, 0, 0, 0] 5 6)"
  using rte_jhash_one_function [of False "[9, 1, 2, 3, 4, 5, 6, 7, 8, 9, 7, 7, 7, 7, 7, 7]" 1 9 0]
    rte_jhash_one_function [of False "[9, 1, 2, 3, 4, 5, 6, 7, 8, 9, 7, 7]" 1 9 0]
    rte_jhash_one_function [of True "[1, 0, 0, 0]" 0 1 5 5 6 1] rte_jhash_one_function [of True "[1, 0, 0, 0]" 0 4 5 5 6]
  by (simp add: jhash_reach_def bytes_of_def)

end
