(* ===== verification/Rte_Mcslock.thy ===== *)
theory Rte_Mcslock
  imports Prelude
begin

text \<open>
  The queue lock of rte\_mcslock.h as a machine whose steps are the atomic accesses of the code. Every
  thread brings its own node, which carries its number. A waiting loop is a step that is not enabled.
  The queue of the nodes and the orders of arrival and entry are history: no step looks at them.
\<close>

section \<open>The lock\<close>

text \<open>Where a thread is: between the stores, before linking to the node it found, waiting, inside, and the
  stages of the release.\<close>

datatype mcs_pc = M_idle | M_lock | M_swap | M_link nat | M_spin | M_hold | M_unlock | M_wait | M_next | M_pass nat | M_try

record mcslock =
  m_msl :: "nat option"
  m_next :: "nat \<Rightarrow> nat option"
  m_locked :: "nat \<Rightarrow> int"
  m_pc :: "nat \<Rightarrow> mcs_pc"
  m_queue :: "nat list"
  m_arrived :: "nat list"
  m_entered :: "nat list"

definition mcs_goto :: "nat \<Rightarrow> mcs_pc \<Rightarrow> mcslock \<Rightarrow> mcslock" where
  "mcs_goto t pc s = s\<lparr>m_pc := (m_pc s)(t := pc)\<rparr>"

definition mcs_set_next :: "nat \<Rightarrow> nat option \<Rightarrow> mcslock \<Rightarrow> mcslock" where
  "mcs_set_next t x s = s\<lparr>m_next := (m_next s)(t := x)\<rparr>"

definition mcs_set_locked :: "nat \<Rightarrow> int \<Rightarrow> mcslock \<Rightarrow> mcslock" where
  "mcs_set_locked t x s = s\<lparr>m_locked := (m_locked s)(t := x)\<rparr>"

definition mcs_enter :: "nat \<Rightarrow> mcslock \<Rightarrow> mcslock" where
  "mcs_enter t s = mcs_goto t M_hold (s\<lparr>m_entered := m_entered s @ [t]\<rparr>)"

definition mcs_arrive :: "nat \<Rightarrow> mcslock \<Rightarrow> mcslock" where
  "mcs_arrive t s = s\<lparr>m_msl := Some t, m_queue := m_queue s @ [t], m_arrived := m_arrived s @ [t]\<rparr>"

definition mcs_leave :: "nat \<Rightarrow> mcslock \<Rightarrow> mcslock" where
  "mcs_leave t s = mcs_goto t M_idle (s\<lparr>m_queue := tl (m_queue s)\<rparr>)"

definition mcs_init :: mcslock where
  "mcs_init = \<lparr>m_msl = None, m_next = (\<lambda>_. None), m_locked = (\<lambda>_. 0), m_pc = (\<lambda>_. M_idle),
     m_queue = [], m_arrived = [], m_entered = []\<rparr>"

text \<open>Taking the lock: the first store, the second one, the exchange, the link, the wait.\<close>

definition rte_mcslock_lock :: "nat \<Rightarrow> mcslock \<Rightarrow> mcslock option" where
  "rte_mcslock_lock me s = (case m_pc s me of
     M_idle \<Rightarrow> Some (mcs_goto me M_lock (mcs_set_locked me 1 s))
   | M_lock \<Rightarrow> Some (mcs_goto me M_swap (mcs_set_next me None s))
   | M_swap \<Rightarrow> (case m_msl s of
       None \<Rightarrow> Some (mcs_enter me (mcs_arrive me s))
     | Some prev \<Rightarrow> Some (mcs_goto me (M_link prev) (mcs_arrive me s)))
   | M_link prev \<Rightarrow> Some (mcs_goto me M_spin (mcs_set_next prev (Some me) s))
   | M_spin \<Rightarrow> (if m_locked s me = 0 then Some (mcs_enter me s) else None)
   | _ \<Rightarrow> None)"

text \<open>Releasing it: load the link, swap the lock to NULL when there is none, or wait for the link; then load
  the link again and clear the flag of the next node.\<close>

definition rte_mcslock_unlock :: "nat \<Rightarrow> mcslock \<Rightarrow> mcslock option" where
  "rte_mcslock_unlock me s = (case m_pc s me of
     M_hold \<Rightarrow> Some (mcs_goto me (if m_next s me = None then M_unlock else M_next) s)
   | M_unlock \<Rightarrow> (if m_msl s = Some me then Some (mcs_leave me (s\<lparr>m_msl := None\<rparr>)) else Some (mcs_goto me M_wait s))
   | M_wait \<Rightarrow> (if m_next s me \<noteq> None then Some (mcs_goto me M_next s) else None)
   | M_next \<Rightarrow> (case m_next s me of None \<Rightarrow> None | Some n \<Rightarrow> Some (mcs_goto me (M_pass n) s))
   | M_pass n \<Rightarrow> Some (mcs_leave me (mcs_set_locked n 0 s))
   | _ \<Rightarrow> None)"

definition rte_mcslock_trylock :: "nat \<Rightarrow> mcslock \<Rightarrow> mcslock option" where
  "rte_mcslock_trylock me s = (case m_pc s me of
     M_idle \<Rightarrow> Some (mcs_goto me M_try (mcs_set_next me None s))
   | M_try \<Rightarrow> (if m_msl s = None then Some (mcs_enter me (mcs_arrive me s)) else Some (mcs_goto me M_idle s))
   | _ \<Rightarrow> None)"

definition rte_mcslock_is_locked :: "mcslock \<Rightarrow> bool" where
  "rte_mcslock_is_locked s \<longleftrightarrow> m_msl s \<noteq> None"

inductive mcs_run :: "mcslock \<Rightarrow> bool" where
  start: "mcs_run mcs_init"
| lock: "mcs_run s \<Longrightarrow> rte_mcslock_lock t s = Some s' \<Longrightarrow> mcs_run s'"
| unlock: "mcs_run s \<Longrightarrow> rte_mcslock_unlock t s = Some s' \<Longrightarrow> mcs_run s'"
| trylock: "mcs_run s \<Longrightarrow> rte_mcslock_trylock t s = Some s' \<Longrightarrow> mcs_run s'"

section \<open>The invariant\<close>

text \<open>The nodes in the queue are distinct and the lock points to the last one, which has no link. The first
  thread is inside, is let in, or is leaving; each other one is about to link to the one before, or has
  done so and waits.\<close>

definition outside :: "mcs_pc \<Rightarrow> bool" where
  "outside pc \<longleftrightarrow> pc \<in> {M_idle, M_lock, M_swap, M_try}"

definition inside :: "mcs_pc \<Rightarrow> bool" where
  "inside pc \<longleftrightarrow> pc \<in> {M_hold, M_unlock, M_wait, M_next} \<or> (\<exists>n. pc = M_pass n)"

definition linked :: "mcslock \<Rightarrow> nat \<Rightarrow> nat \<Rightarrow> bool" where
  "linked s a b \<longleftrightarrow> m_locked s b \<noteq> 0 \<and>
     (m_pc s b = M_link a \<and> m_next s a = None \<or> m_pc s b = M_spin \<and> m_next s a = Some b)"

definition first_ok :: "mcslock \<Rightarrow> nat \<Rightarrow> nat list \<Rightarrow> bool" where
  "first_ok s h r \<longleftrightarrow> (m_pc s h = M_spin \<and> m_locked s h = 0 \<or> inside (m_pc s h))
     \<and> (m_pc s h = M_wait \<longrightarrow> r \<noteq> [])
     \<and> (m_pc s h = M_next \<longrightarrow> m_next s h \<noteq> None)
     \<and> (\<forall>n. m_pc s h = M_pass n \<longrightarrow> m_next s h = Some n)"

definition mcs_inv :: "mcslock \<Rightarrow> bool" where
  "mcs_inv s \<longleftrightarrow> distinct (m_queue s)
     \<and> m_msl s = (if m_queue s = [] then None else Some (last (m_queue s)))
     \<and> (\<forall>t. t \<notin> set (m_queue s) \<longleftrightarrow> outside (m_pc s t))
     \<and> (\<forall>t. m_pc s t \<in> {M_swap, M_try} \<longrightarrow> m_next s t = None)
     \<and> (\<forall>t. m_pc s t \<in> {M_lock, M_swap} \<longrightarrow> m_locked s t \<noteq> 0)
     \<and> (m_queue s \<noteq> [] \<longrightarrow> m_next s (last (m_queue s)) = None)
     \<and> (\<forall>h r. m_queue s = h # r \<longrightarrow> first_ok s h r)
     \<and> (\<forall>i. Suc i < length (m_queue s) \<longrightarrow> linked s (m_queue s ! i) (m_queue s ! Suc i))
     \<and> m_arrived s = m_entered s @ (case m_queue s of [] \<Rightarrow> [] | h # r \<Rightarrow> if inside (m_pc s h) then r else h # r)"

lemmas mcs_step_defs = mcs_goto_def mcs_set_next_def mcs_set_locked_def mcs_enter_def mcs_arrive_def mcs_leave_def

lemma outside_simps [simp]: "outside M_idle" "outside M_lock" "outside M_swap" "outside M_try" "\<not> outside (M_link a)"
  "\<not> outside M_spin" "\<not> outside M_hold" "\<not> outside M_unlock" "\<not> outside M_wait" "\<not> outside M_next" "\<not> outside (M_pass a)"
  by (simp_all add: outside_def)

lemma inside_simps [simp]: "\<not> inside M_idle" "\<not> inside M_lock" "\<not> inside M_swap" "\<not> inside M_try" "\<not> inside (M_link a)"
  "\<not> inside M_spin" "inside M_hold" "inside M_unlock" "inside M_wait" "inside M_next" "inside (M_pass a)"
  by (simp_all add: inside_def)

text \<open>A step of a thread that stays outside.\<close>

lemma mcs_inv_outside:
  assumes inv: "mcs_inv s" and pc: "outside (m_pc s t)" "outside pc"
    and new: "pc \<in> {M_swap, M_try} \<Longrightarrow> nx = None" "pc \<in> {M_lock, M_swap} \<Longrightarrow> lk \<noteq> 0"
  shows "mcs_inv (s\<lparr>m_next := (m_next s)(t := nx), m_locked := (m_locked s)(t := lk), m_pc := (m_pc s)(t := pc)\<rparr>)"
    (is "mcs_inv ?s")
proof -
  have t: "t \<notin> set (m_queue s)" using inv pc(1) by (simp add: mcs_inv_def)
  have l: "linked ?s (m_queue s ! i) (m_queue s ! Suc i) = linked s (m_queue s ! i) (m_queue s ! Suc i)" if "Suc i < length (m_queue s)" for i
    using t nth_mem [of i "m_queue s"] nth_mem [of "Suc i" "m_queue s"] that by (auto simp: linked_def)
  have "first_ok ?s h r = first_ok s h r \<and> m_pc ?s h = m_pc s h" if "m_queue s = h # r" for h r
    using t that by (auto simp: first_ok_def)
  moreover have "last (m_queue s) \<noteq> t" if "m_queue s \<noteq> []" using t that by (metis last_in_set)
  ultimately show ?thesis using inv pc new t l unfolding mcs_inv_def by (auto split: list.splits)
qed

text \<open>A thread in the queue is the first one, or is linked to, or about to link to, the one before.\<close>

lemma mcs_where:
  assumes inv: "mcs_inv s" and t: "\<not> outside (m_pc s t)"
  obtains (first) r where "m_queue s = t # r" "first_ok s t r"
    | (later) i where "Suc i < length (m_queue s)" "m_queue s ! Suc i = t" "linked s (m_queue s ! i) t"
proof -
  have "t \<in> set (m_queue s)" using inv t by (auto simp: mcs_inv_def)
  then obtain j where j: "j < length (m_queue s)" "m_queue s ! j = t" by (auto simp: in_set_conv_nth)
  show thesis
  proof (cases j)
    case 0
    then obtain r where "m_queue s = t # r" using j by (cases "m_queue s") auto
    then show thesis using inv by (intro first [of r]) (auto simp: mcs_inv_def)
  next
    case (Suc i)
    then show thesis using inv j by (intro later [of i]) (auto simp: mcs_inv_def)
  qed
qed

lemma mcs_inside_first:
  assumes "mcs_inv s" "inside (m_pc s t)"
  obtains r where "m_queue s = t # r" "first_ok s t r"
proof -
  have "\<not> outside (m_pc s t)" using assms(2) by (auto simp: inside_def)
  then show thesis
  proof (cases rule: mcs_where [OF assms(1), consumes 1, case_names first later])
    case (first r)
    then show thesis by (rule that)
  next
    case (later i)
    then show thesis using assms(2) by (auto simp: linked_def)
  qed
qed

text \<open>The first thread goes on inside.\<close>

lemma mcs_inv_inside:
  assumes inv: "mcs_inv s" and q: "m_queue s = t # r" and pc: "inside (m_pc s t)" "inside pc"
    and ok: "first_ok (mcs_goto t pc s) t r"
  shows "mcs_inv (mcs_goto t pc s)"
proof -
  have t: "t \<notin> set r" "\<not> outside pc" "\<not> outside (m_pc s t)" using inv q pc by (auto simp: mcs_inv_def inside_def)
  have l: "linked (mcs_goto t pc s) (m_queue s ! i) (m_queue s ! Suc i) = linked s (m_queue s ! i) (m_queue s ! Suc i)"
    if "Suc i < length (m_queue s)" for i
  proof -
    have "m_queue s ! Suc i \<in> set r" using that q by simp
    then show ?thesis using t(1) by (auto simp: linked_def mcs_goto_def)
  qed
  have "pc \<notin> {M_swap, M_try, M_lock}" using pc(2) by auto
  then show ?thesis using inv q pc t ok l by (auto simp: mcs_inv_def mcs_goto_def)
qed

text \<open>A node joins the end of the queue.\<close>

lemma mcs_inv_first_arrival:
  assumes inv: "mcs_inv s" and t: "outside (m_pc s t)" "m_next s t = None" and e: "m_msl s = None"
  shows "mcs_inv (mcs_enter t (mcs_arrive t s))"
proof -
  have q: "m_queue s = []" using inv e by (auto simp: mcs_inv_def split: if_splits)
  then show ?thesis using inv t by (auto simp: mcs_inv_def mcs_step_defs first_ok_def)
qed

lemma mcs_inv_arrival:
  assumes inv: "mcs_inv s" and t: "m_pc s t = M_swap" and e: "m_msl s = Some prev"
  shows "mcs_inv (mcs_goto t (M_link prev) (mcs_arrive t s))"
proof -
  have out: "outside (m_pc s t)" and ne: "m_queue s \<noteq> []" and prev: "prev = last (m_queue s)" and n: "m_next s t = None" "m_locked s t \<noteq> 0"
    using inv t e by (auto simp: mcs_inv_def split: if_splits)
  let ?s = "mcs_goto t (M_link prev) (mcs_arrive t s)"
  have tq: "t \<notin> set (m_queue s)" using inv out by (simp add: mcs_inv_def)
  obtain h r where q: "m_queue s = h # r" using ne by (cases "m_queue s") auto
  have h: "h \<noteq> t" "first_ok s h r" using tq q inv by (auto simp: mcs_inv_def)
  then have "first_ok ?s h (r @ [t])" "m_pc ?s h = m_pc s h" by (auto simp: first_ok_def mcs_step_defs)
  moreover have "linked ?s (m_queue ?s ! i) (m_queue ?s ! Suc i)" if "Suc i < length (m_queue ?s)" for i
  proof (cases "Suc i < length (m_queue s)")
    case True
    have "linked s (m_queue s ! i) (m_queue s ! Suc i)" using inv True by (simp add: mcs_inv_def)
    moreover have "m_queue s ! Suc i \<noteq> t" using tq nth_mem [OF True] by blast
    ultimately show ?thesis using True by (auto simp: linked_def mcs_step_defs nth_append)
  next
    case False
    then have "i = length (m_queue s) - 1" "Suc i = length (m_queue s)" using that by (auto simp: mcs_step_defs)
    then have "m_queue ?s ! i = prev" "m_queue ?s ! Suc i = t" using ne prev by (simp_all add: mcs_step_defs nth_append last_conv_nth)
    then show ?thesis using n inv ne prev by (auto simp: linked_def mcs_step_defs mcs_inv_def)
  qed
  ultimately show ?thesis using inv q tq out n prev unfolding mcs_inv_def by (auto simp: mcs_step_defs)
qed

lemma mcs_inv_link:
  assumes inv: "mcs_inv s" and t: "m_pc s t = M_link prev"
  shows "mcs_inv (mcs_goto t M_spin (mcs_set_next prev (Some t) s))"
proof -
  let ?s = "mcs_goto t M_spin (mcs_set_next prev (Some t) s)" and ?q = "m_queue s"
  have "\<not> outside (m_pc s t)" using t by simp
  then show ?thesis
  proof (cases rule: mcs_where [OF inv, consumes 1, case_names first later])
    case (first r)
    then show ?thesis using t by (simp add: first_ok_def)
  next
    case (later i)
    then have prev: "prev = ?q ! i" "m_locked s t \<noteq> 0" "m_next s prev = None" using t by (auto simp: linked_def)
    have d: "distinct ?q" using inv by (simp add: mcs_inv_def)
    have l: "linked ?s (?q ! j) (?q ! Suc j)" if "Suc j < length ?q" for j
    proof (cases "j = i")
      case True
      then show ?thesis using prev later by (simp add: linked_def mcs_step_defs)
    next
      case False
      then have "?q ! j \<noteq> prev" "?q ! Suc j \<noteq> t" using d that later prev by (auto simp: nth_eq_iff_index_eq)
      moreover have "linked s (?q ! j) (?q ! Suc j)" using inv that by (simp add: mcs_inv_def)
      ultimately show ?thesis by (auto simp: linked_def mcs_step_defs)
    qed
    have "?q ! i \<noteq> ?q ! (length ?q - 1)" using later(1) d by (subst nth_eq_iff_index_eq) auto
    moreover have "?q \<noteq> []" using later(1) by auto
    ultimately have "prev \<noteq> last ?q" using prev(1) by (simp add: last_conv_nth)
    moreover have "first_ok ?s h r \<and> h \<noteq> t" if "?q = h # r" for h r
    proof -
      have "h \<noteq> t" using that later d by (auto simp: nth_Cons')
      moreover have "first_ok s h r" using inv that by (simp add: mcs_inv_def)
      ultimately show ?thesis using prev(3) by (auto simp: first_ok_def mcs_step_defs)
    qed
    moreover have "\<not> outside (m_pc s prev)"
    proof -
      have "prev \<in> set ?q" using prev(1) later(1) nth_mem [of i ?q] by simp
      then show ?thesis using inv by (auto simp: mcs_inv_def)
    qed
    moreover have "t \<in> set ?q" using later nth_mem [of "Suc i" ?q] by simp
    ultimately show ?thesis using inv l t unfolding mcs_inv_def by (auto simp: mcs_step_defs split: list.splits)
  qed
qed

lemma mcs_inv_spin:
  assumes inv: "mcs_inv s" and t: "m_pc s t = M_spin" "m_locked s t = 0"
  shows "mcs_inv (mcs_enter t s)"
proof -
  have "\<not> outside (m_pc s t)" using t by simp
  then show ?thesis
  proof (cases rule: mcs_where [OF inv, consumes 1, case_names first later])
    case (first r)
    have tr: "t \<notin> set r" using inv first(1) by (simp add: mcs_inv_def)
    have "linked (mcs_enter t s) (m_queue s ! i) (m_queue s ! Suc i)" if "Suc i < length (m_queue s)" for i
    proof -
      have "m_queue s ! Suc i \<noteq> t" using tr that first(1) by (metis length_Cons not_less_eq nth_Cons_Suc nth_mem)
      moreover have "linked s (m_queue s ! i) (m_queue s ! Suc i)" using inv that by (simp add: mcs_inv_def)
      ultimately show ?thesis by (auto simp: linked_def mcs_step_defs)
    qed
    then show ?thesis using inv first t unfolding mcs_inv_def by (auto simp: mcs_step_defs first_ok_def)
  next
    case (later i)
    then show ?thesis using t by (simp add: linked_def)
  qed
qed

lemma mcs_inv_last_out:
  assumes inv: "mcs_inv s" and t: "m_pc s t = M_unlock" "m_msl s = Some t"
  shows "mcs_inv (mcs_leave t (s\<lparr>m_msl := None\<rparr>))"
proof -
  obtain r where q: "m_queue s = t # r" using mcs_inside_first [OF inv, of t] t(1) by auto
  have "last (t # r) = t" "distinct (t # r)" using inv t(2) q by (auto simp: mcs_inv_def)
  then have "r = []" by (metis distinct.simps(2) last_ConsR last_in_set)
  then show ?thesis using inv q t by (auto simp: mcs_inv_def mcs_step_defs)
qed

lemma mcs_inv_pass:
  assumes inv: "mcs_inv s" and t: "m_pc s t = M_pass n"
  shows "mcs_inv (mcs_leave t (mcs_set_locked n 0 s))"
proof -
  let ?s = "mcs_leave t (mcs_set_locked n 0 s)"
  obtain r where q: "m_queue s = t # r" "first_ok s t r" using mcs_inside_first [OF inv, of t] t by auto
  then have nx: "m_next s t = Some n" using t by (simp add: first_ok_def)
  obtain h r' where r: "r = h # r'" using nx q(1) inv by (cases r) (auto simp: mcs_inv_def)
  have "linked s t h" using inv q(1) r unfolding mcs_inv_def by (metis length_Cons nth_Cons_0 nth_Cons_Suc zero_less_Suc Suc_less_eq)
  then have h: "h = n" "m_pc s n = M_spin" using nx by (auto simp: linked_def)
  have d: "t \<notin> set r" "n \<notin> set r'" using inv q(1) r h(1) by (auto simp: mcs_inv_def)
  have l: "linked ?s (r ! i) (r ! Suc i)" if "Suc i < length r" for i
  proof -
    have "linked s (m_queue s ! Suc i) (m_queue s ! Suc (Suc i))" using inv q(1) that unfolding mcs_inv_def by (metis Suc_less_eq length_Cons)
    moreover have "r ! Suc i \<in> set r'" using that r by simp
    ultimately show ?thesis using d q(1) r by (auto simp: linked_def mcs_step_defs)
  qed
  have "first_ok ?s h r'" using h d r by (auto simp: first_ok_def mcs_step_defs)
  then show ?thesis using inv q(1) t r h d l unfolding mcs_inv_def by (auto simp: mcs_step_defs)
qed

lemma mcs_run_inv: "mcs_run s \<Longrightarrow> mcs_inv s"
proof (induction rule: mcs_run.induct)
  case start
  then show ?case by (simp add: mcs_init_def mcs_inv_def)
next
  case (lock s t s')
  have keep: "mcs_inv (mcs_goto t pc (s\<lparr>m_next := (m_next s)(t := nx), m_locked := (m_locked s)(t := lk)\<rparr>))"
    if "outside (m_pc s t)" "outside pc" "pc \<in> {M_swap, M_try} \<Longrightarrow> nx = None" "pc \<in> {M_lock, M_swap} \<Longrightarrow> lk \<noteq> 0" for pc nx lk
    using mcs_inv_outside [OF lock.IH that] by (simp add: mcs_goto_def)
  show ?case
  proof (cases "m_pc s t")
    case M_idle
    then show ?thesis using lock.hyps(2) keep [of M_lock "m_next s t" 1] by (auto simp: rte_mcslock_lock_def mcs_set_locked_def)
  next
    case M_lock
    then have "m_locked s t \<noteq> 0" using lock.IH by (simp add: mcs_inv_def)
    then show ?thesis using M_lock lock.hyps(2) keep [of M_swap None "m_locked s t"] by (auto simp: rte_mcslock_lock_def mcs_set_next_def)
  next
    case M_swap
    then have "m_next s t = None" using lock.IH by (simp add: mcs_inv_def)
    then show ?thesis using M_swap lock.hyps(2) lock.IH mcs_inv_arrival mcs_inv_first_arrival
      by (auto simp: rte_mcslock_lock_def split: option.splits)
  qed (use lock.hyps(2) lock.IH in \<open>auto simp: rte_mcslock_lock_def mcs_inv_link mcs_inv_spin split: if_splits\<close>)
next
  case (unlock s t s')
  have keep: "mcs_inv (mcs_goto t pc s)" if pc: "inside (m_pc s t)" "inside pc" "\<And>r. m_queue s = t # r \<Longrightarrow> first_ok s t r \<Longrightarrow> first_ok (mcs_goto t pc s) t r" for pc
  proof -
    obtain r where "m_queue s = t # r" "first_ok s t r" using mcs_inside_first [OF unlock.IH pc(1)] .
    then show ?thesis using mcs_inv_inside [OF unlock.IH _ pc(1,2)] pc(3) by blast
  qed
  show ?case
  proof (cases "m_pc s t")
    case M_hold
    then show ?thesis using unlock.hyps(2) keep [of M_unlock] keep [of M_next]
      by (auto simp: rte_mcslock_unlock_def first_ok_def mcs_goto_def split: if_splits)
  next
    case M_unlock
    show ?thesis
    proof (cases "m_msl s = Some t")
      case True
      then show ?thesis using M_unlock unlock.hyps(2) mcs_inv_last_out [OF unlock.IH] by (auto simp: rte_mcslock_unlock_def)
    next
      case False
      then have "r \<noteq> []" if "m_queue s = t # r" for r using that unlock.IH by (auto simp: mcs_inv_def)
      then show ?thesis using M_unlock False unlock.hyps(2) keep [of M_wait]
        by (auto simp: rte_mcslock_unlock_def first_ok_def mcs_goto_def)
    qed
  next
    case M_wait
    then show ?thesis using unlock.hyps(2) keep [of M_next]
      by (auto simp: rte_mcslock_unlock_def first_ok_def mcs_goto_def split: if_splits)
  next
    case M_next
    then obtain n where "m_next s t = Some n" using unlock.hyps(2) by (auto simp: rte_mcslock_unlock_def split: option.splits)
    then show ?thesis using M_next unlock.hyps(2) keep [of "M_pass n"]
      by (auto simp: rte_mcslock_unlock_def first_ok_def mcs_goto_def)
  qed (use unlock.hyps(2) mcs_inv_pass [OF unlock.IH] in \<open>auto simp: rte_mcslock_unlock_def\<close>)
next
  case (trylock s t s')
  have keep: "mcs_inv (mcs_goto t pc (s\<lparr>m_next := (m_next s)(t := nx)\<rparr>))"
    if "outside (m_pc s t)" "pc \<in> {M_idle, M_try}" "pc = M_try \<Longrightarrow> nx = None" for pc nx
    using mcs_inv_outside [OF trylock.IH that(1), of pc nx "m_locked s t"] that(2,3) by (auto simp: mcs_goto_def)
  show ?case
  proof (cases "m_pc s t")
    case M_idle
    then show ?thesis using trylock.hyps(2) keep [of M_try None] by (auto simp: rte_mcslock_trylock_def mcs_set_next_def)
  next
    case M_try
    then have "mcs_inv (mcs_goto t M_idle s)" using keep [of M_idle "m_next s t"] by simp
    moreover have "m_next s t = None" using M_try trylock.IH by (simp add: mcs_inv_def)
    ultimately show ?thesis using M_try trylock.hyps(2) mcs_inv_first_arrival [OF trylock.IH, of t]
      by (auto simp: rte_mcslock_trylock_def split: if_splits)
  qed (use trylock.hyps(2) in \<open>auto simp: rte_mcslock_trylock_def\<close>)
qed

section \<open>The property\<close>

lemma mcs_progress:
  assumes inv: "mcs_inv s" and q: "m_queue s = h # r"
  shows "(\<exists>t. \<not> outside (m_pc s t) \<and> (rte_mcslock_lock t s \<noteq> None \<or> rte_mcslock_unlock t s \<noteq> None))"
proof -
  have h: "first_ok s h r" "\<not> outside (m_pc s h)" using inv q by (auto simp: mcs_inv_def)
  show ?thesis
  proof (cases "m_pc s h = M_wait \<and> m_next s h = None")
    case True
    then obtain b r' where r: "r = b # r'" using h(1) by (cases r) (auto simp: first_ok_def)
    have "linked s h b" using inv q r unfolding mcs_inv_def by (metis length_Cons nth_Cons_0 nth_Cons_Suc zero_less_Suc Suc_less_eq)
    then have "m_pc s b = M_link h" using True by (auto simp: linked_def)
    then show ?thesis by (intro exI [of _ b]) (simp add: rte_mcslock_lock_def)
  next
    case False
    then show ?thesis using h by (intro exI [of _ h])
      (auto simp: first_ok_def inside_def rte_mcslock_lock_def rte_mcslock_unlock_def)
  qed
qed

text \<open>C34. The queue lock is exclusive, first come first served, and never stuck. In every reachable state
  at most one thread is between getting the lock and giving it back; threads have entered in the order in
  which they exchanged their nodes into the lock; while a thread waits or holds, one of those threads can
  step; and the lock word is NULL exactly when there is none.\<close>

theorem mcslock_exclusive_fair:
  assumes "mcs_run s"
  shows "(inside (m_pc s t) \<and> inside (m_pc s t') \<longrightarrow> t = t')
    \<and> m_entered s = take (length (m_entered s)) (m_arrived s)
    \<and> (\<not> outside (m_pc s t) \<longrightarrow>
         (\<exists>u. \<not> outside (m_pc s u) \<and> (rte_mcslock_lock u s \<noteq> None \<or> rte_mcslock_unlock u s \<noteq> None)))
    \<and> (rte_mcslock_is_locked s \<longleftrightarrow> (\<exists>u. \<not> outside (m_pc s u)))"
proof -
  have inv: "mcs_inv s" using mcs_run_inv [OF assms] .
  have "t = t'" if "inside (m_pc s t)" "inside (m_pc s t')"
    using mcs_inside_first [OF inv that(1)] mcs_inside_first [OF inv that(2)] by (metis list.inject)
  moreover have "m_entered s = take (length (m_entered s)) (m_arrived s)" using inv by (simp add: mcs_inv_def)
  moreover have "\<exists>u. \<not> outside (m_pc s u) \<and> (rte_mcslock_lock u s \<noteq> None \<or> rte_mcslock_unlock u s \<noteq> None)" if "\<not> outside (m_pc s t)"
  proof -
    have "t \<in> set (m_queue s)" using inv that by (auto simp: mcs_inv_def)
    then obtain h r where "m_queue s = h # r" by (cases "m_queue s") auto
    then show ?thesis by (rule mcs_progress [OF inv])
  qed
  moreover have "rte_mcslock_is_locked s \<longleftrightarrow> (\<exists>u. u \<in> set (m_queue s))"
    using inv by (auto simp: rte_mcslock_is_locked_def mcs_inv_def neq_Nil_conv)
  moreover have "u \<in> set (m_queue s) \<longleftrightarrow> \<not> outside (m_pc s u)" for u using inv by (auto simp: mcs_inv_def)
  ultimately show ?thesis by blast
qed

text \<open>Two threads: the second one links and waits while the first holds, and enters when it is let in.\<close>

fun mcs_steps :: "(bool \<times> nat) list \<Rightarrow> mcslock \<Rightarrow> mcslock option" where
  "mcs_steps [] s = Some s"
| "mcs_steps ((up, t) # ts) s = (case (if up then rte_mcslock_lock t s else rte_mcslock_unlock t s) of
     None \<Rightarrow> None | Some s' \<Rightarrow> mcs_steps ts s')"

lemma mcs_steps_run: "mcs_run s \<Longrightarrow> mcs_steps ts s = Some s' \<Longrightarrow> mcs_run s'"
proof (induction ts arbitrary: s)
  case (Cons x ts)
  obtain up t where x: "x = (up, t)" by (cases x)
  then obtain s1 where s1: "(if up then rte_mcslock_lock t s else rte_mcslock_unlock t s) = Some s1" "mcs_steps ts s1 = Some s'"
    using Cons.prems(2) by (auto split: option.splits)
  then have "mcs_run s1" using Cons.prems(1) by (cases up) (auto intro: mcs_run.lock mcs_run.unlock)
  then show ?case using Cons.IH s1(2) by blast
qed simp

definition mcs_sample :: "(bool \<times> nat) list" where
  "mcs_sample = replicate 3 (True, 1) @ replicate 4 (True, 2) @ replicate 3 (False, 1) @ [(True, 2)]"

theorem mcslock_exclusive_fair_witness:
  "\<exists>s. mcs_run s \<and> m_pc s 2 = M_hold \<and> \<not> inside (m_pc s 1) \<and> m_entered s = [1, 2] \<and> m_entered s = take 2 (m_arrived s)"
proof -
  obtain s where s: "mcs_steps mcs_sample mcs_init = Some s" "m_pc s 2 = M_hold" "m_entered s = [1, 2]"
    by (simp add: mcs_sample_def eval_nat_numeral mcs_init_def rte_mcslock_lock_def rte_mcslock_unlock_def mcs_step_defs)
  have "mcs_run s" by (rule mcs_steps_run [OF mcs_run.start s(1)])
  note p = mcslock_exclusive_fair [OF this, of 1 2]
  have "\<not> inside (m_pc s 1)" using p s(2) by fastforce
  moreover have "m_entered s = take 2 (m_arrived s)" using p s(3) by (simp add: numeral_2_eq_2)
  ultimately show ?thesis using \<open>mcs_run s\<close> s(2,3) by blast
qed

end
