(* ===== verification/Rte_Pflock.thy ===== *)
theory Rte_Pflock
  imports Rte_Locks
begin

text \<open>
  The phase-fair lock of rte\_pflock.h as a machine whose steps are the atomic accesses of the code, shared
  by the threads below a bound \<open>N\<close>. A waiting loop is a step that is not enabled. The numbers of readers
  that have come and gone, of tickets and of phases are history: no step looks at them.
\<close>

unbundle bit_operations_syntax

section \<open>The lock\<close>

abbreviation (input) RTE_PFLOCK_WBITS :: u16 where "RTE_PFLOCK_WBITS \<equiv> 0x3"
abbreviation (input) RTE_PFLOCK_PRES :: u16 where "RTE_PFLOCK_PRES \<equiv> 0x2"
abbreviation (input) RTE_PFLOCK_PHID :: u16 where "RTE_PFLOCK_PHID \<equiv> 0x1"
abbreviation (input) RTE_PFLOCK_LSB :: u16 where "RTE_PFLOCK_LSB \<equiv> 0xFFF0"
abbreviation (input) RTE_PFLOCK_RINC :: u16 where "RTE_PFLOCK_RINC \<equiv> 0x10"

text \<open>Readers carry the number of their arrival, writers that of their ticket.\<close>

datatype pf_pc = P_idle | PR_wait u16 nat | PR_hold nat
  | PW_ticket u16 nat | PW_enter u16 nat | PW_drain u16 nat | PW_hold nat | PW_next nat

record pflock =
  rd_in :: u16
  rd_out :: u16
  wr_in :: u16
  wr_out :: u16
  pf_pc :: "nat \<Rightarrow> pf_pc"
  p_came :: nat
  p_went :: nat
  p_issued :: nat
  p_released :: nat
  p_phase :: nat
  p_limit :: "nat option"

definition rte_pflock_init :: pflock where
  "rte_pflock_init = \<lparr>rd_in = 0, rd_out = 0, wr_in = 0, wr_out = 0, pf_pc = (\<lambda>_. P_idle),
     p_came = 0, p_went = 0, p_issued = 0, p_released = 0, p_phase = 0, p_limit = None\<rparr>"

definition pf_goto :: "nat \<Rightarrow> pf_pc \<Rightarrow> pflock \<Rightarrow> pflock" where
  "pf_goto t pc s = s\<lparr>pf_pc := (pf_pc s)(t := pc)\<rparr>"

definition rte_pflock_read_lock :: "nat \<Rightarrow> pflock \<Rightarrow> pflock option" where
  "rte_pflock_read_lock t s = (case pf_pc s t of
     P_idle \<Rightarrow> (let w = rd_in s AND RTE_PFLOCK_WBITS; s' = s\<lparr>rd_in := rd_in s + RTE_PFLOCK_RINC, p_came := p_came s + 1\<rparr> in
       Some (pf_goto t (if w = 0 then PR_hold (p_came s) else PR_wait w (p_came s)) s'))
   | PR_wait w g \<Rightarrow> (if rd_in s AND RTE_PFLOCK_WBITS \<noteq> w then Some (pf_goto t (PR_hold g) s) else None)
   | _ \<Rightarrow> None)"

definition rte_pflock_read_unlock :: "nat \<Rightarrow> pflock \<Rightarrow> pflock option" where
  "rte_pflock_read_unlock t s = (case pf_pc s t of
     PR_hold g \<Rightarrow> Some (pf_goto t P_idle (s\<lparr>rd_out := rd_out s + RTE_PFLOCK_RINC, p_went := p_went s + 1\<rparr>))
   | _ \<Rightarrow> None)"

text \<open>A writer takes a ticket, waits for its turn, marks its presence and waits for the readers before it.\<close>

definition rte_pflock_write_lock :: "nat \<Rightarrow> pflock \<Rightarrow> pflock option" where
  "rte_pflock_write_lock t s = (case pf_pc s t of
     P_idle \<Rightarrow> Some (pf_goto t (PW_ticket (wr_in s) (p_issued s)) (s\<lparr>wr_in := wr_in s + 1, p_issued := p_issued s + 1\<rparr>))
   | PW_ticket ticket g \<Rightarrow> (if wr_out s = ticket then Some (pf_goto t (PW_enter ticket g) s) else None)
   | PW_enter ticket g \<Rightarrow> (let w = RTE_PFLOCK_PRES OR (ticket AND RTE_PFLOCK_PHID) in
       Some (pf_goto t (PW_drain (rd_in s) g) (s\<lparr>rd_in := rd_in s + w, p_limit := Some (p_came s)\<rparr>)))
   | PW_drain ticket g \<Rightarrow> (if rd_out s = ticket then Some (pf_goto t (PW_hold g) s) else None)
   | _ \<Rightarrow> None)"

definition rte_pflock_write_unlock :: "nat \<Rightarrow> pflock \<Rightarrow> pflock option" where
  "rte_pflock_write_unlock t s = (case pf_pc s t of
     PW_hold g \<Rightarrow> Some (pf_goto t (PW_next g) (s\<lparr>rd_in := rd_in s AND RTE_PFLOCK_LSB, p_phase := p_phase s + 1, p_limit := None\<rparr>))
   | PW_next g \<Rightarrow> Some (pf_goto t P_idle (s\<lparr>wr_out := wr_out s + 1, p_released := p_released s + 1\<rparr>))
   | _ \<Rightarrow> None)"

definition pf_step :: "nat \<Rightarrow> pflock \<Rightarrow> pflock \<Rightarrow> bool" where
  "pf_step t s s' \<longleftrightarrow> Some s' \<in> {rte_pflock_read_lock t s, rte_pflock_read_unlock t s, rte_pflock_write_lock t s, rte_pflock_write_unlock t s}"

inductive pf_run :: "nat \<Rightarrow> pflock \<Rightarrow> bool" for N where
  start: "pf_run N rte_pflock_init"
| step: "pf_run N s \<Longrightarrow> t < N \<Longrightarrow> pf_step t s s' \<Longrightarrow> pf_run N s'"

section \<open>The words\<close>

text \<open>The bits of a writer with a ticket, and the counter of the readers beside them.\<close>

definition phase_bits :: "nat \<Rightarrow> u16" where
  "phase_bits c = RTE_PFLOCK_PRES OR (of_nat c AND RTE_PFLOCK_PHID)"

lemma phase_bits_eq: "phase_bits c = (if even c then 2 else 3)"
proof -
  have "(of_nat c :: u16) AND 1 = (if even c then 0 else 1)"
    by (simp add: and_one_eq mod_2_eq_odd) (simp add: word_of_nat_eq_0_iff even_word_iff)?
  then show ?thesis by (simp add: phase_bits_def)
qed

lemma reader_bits:
  assumes "b \<in> {0, 2, 3}"
  shows "((of_nat (16 * a) + b) AND RTE_PFLOCK_WBITS :: u16) = b" "((of_nat (16 * a) + b) AND RTE_PFLOCK_LSB :: u16) = of_nat (16 * a)"
proof -
  have p: "(of_nat (16 * a) :: u16) = push_bit 4 (of_nat a)" by (simp add: push_bit_eq_mult)
  have m: "(0x3 :: u16) = mask 2" "(0xFFF0 :: u16) = NOT (mask 4)" by (simp_all add: mask_eq_exp_minus_1)
  have "take_bit 2 b = b" using assms by auto
  then have b: "\<not> bit b n" if "2 \<le> n" for n using that by (metis bit_take_bit_iff linorder_not_less)
  have s: "push_bit 4 (of_nat a) + b = push_bit 4 (of_nat a) OR b" for a
    by (rule disjunctive_add_eq_or) (rule bit_word_eqI, use b in \<open>auto simp: bit_simps\<close>)
  show "((of_nat (16 * a) + b) AND RTE_PFLOCK_WBITS :: u16) = b"
    unfolding p s m
  proof (rule bit_word_eqI)
    fix n show "bit ((push_bit 4 (of_nat a) OR b) AND mask 2) n = bit b n"
      using b [of n] by (cases "n < 2") (simp_all add: bit_or_iff bit_and_iff bit_mask_iff bit_push_bit_iff)
  qed
  show "((of_nat (16 * a) + b) AND RTE_PFLOCK_LSB :: u16) = of_nat (16 * a)"
    unfolding p s m
  proof (rule bit_word_eqI)
    fix n assume "n < LENGTH(16)"
    then show "bit ((push_bit 4 (of_nat a) OR b) AND NOT (mask 4)) n = bit (push_bit 4 (of_nat a) :: u16) n"
      using b [of n] by (cases "n < 4") (simp_all add: bit_or_iff bit_and_iff bit_not_iff bit_mask_iff bit_push_bit_iff)
  qed
qed

section \<open>The invariant\<close>

definition pf_ticket :: "pf_pc \<Rightarrow> (nat \<times> nat) option" where
  "pf_ticket pc = (case pc of PW_ticket _ g \<Rightarrow> Some (g, 1) | PW_enter _ g \<Rightarrow> Some (g, 1) | PW_drain _ g \<Rightarrow> Some (g, 1)
     | PW_hold g \<Rightarrow> Some (g, 1) | PW_next g \<Rightarrow> Some (g, 1) | _ \<Rightarrow> None)"

definition pf_arrival :: "pf_pc \<Rightarrow> nat option" where
  "pf_arrival pc = (case pc of PR_wait _ g \<Rightarrow> Some g | PR_hold g \<Rightarrow> Some g | _ \<Rightarrow> None)"

text \<open>The readers that have come before a number, and are still there.\<close>

definition readers_before :: "pflock \<Rightarrow> nat \<Rightarrow> nat set" where
  "readers_before s l = {t. \<exists>g. pf_arrival (pf_pc s t) = Some g \<and> g < l}"

text \<open>A writer inside works at its phase. A reader that waits saw the bits of the present writer if it came
  behind that one, and of the writer before otherwise.\<close>

definition pf_ok :: "pflock \<Rightarrow> pf_pc \<Rightarrow> bool" where
  "pf_ok s pc \<longleftrightarrow> (case pc of
     P_idle \<Rightarrow> True
   | PR_hold g \<Rightarrow> g < p_came s \<and> (\<forall>l. p_limit s = Some l \<longrightarrow> g < l)
   | PR_wait w g \<Rightarrow> g < p_came s \<and> w = phase_bits (if \<exists>l. p_limit s = Some l \<and> l \<le> g then p_phase s else p_phase s + 1)
   | PW_ticket tk g \<Rightarrow> tk = of_nat g
   | PW_enter tk g \<Rightarrow> tk = of_nat g \<and> g = p_released s \<and> p_phase s = g \<and> p_limit s = None
   | PW_drain tk g \<Rightarrow> g = p_released s \<and> p_phase s = g \<and> (\<exists>l. p_limit s = Some l \<and> tk = of_nat (16 * l))
   | PW_hold g \<Rightarrow> g = p_released s \<and> p_phase s = g \<and> p_limit s = Some (p_went s)
   | PW_next g \<Rightarrow> g = p_released s \<and> p_phase s = g + 1 \<and> p_limit s = None)"

definition pf_inside :: "pf_pc \<Rightarrow> bool" where
  "pf_inside pc \<longleftrightarrow> (case pc of PW_drain _ _ \<Rightarrow> True | PW_hold _ \<Rightarrow> True | PW_next _ \<Rightarrow> True | _ \<Rightarrow> False)"

definition pf_inv :: "nat \<Rightarrow> pflock \<Rightarrow> bool" where
  "pf_inv N s \<longleftrightarrow> wr_in s = of_nat (p_issued s) \<and> wr_out s = of_nat (p_released s)
     \<and> tiled (\<lambda>t. pf_ticket (pf_pc s t)) (p_released s) (p_issued s)
     \<and> rd_in s = of_nat (16 * p_came s) + (if p_limit s = None then 0 else phase_bits (p_phase s))
     \<and> rd_out s = of_nat (16 * p_went s)
     \<and> p_went s \<le> p_came s \<and> card (readers_before s (p_came s)) = p_came s - p_went s
     \<and> (\<forall>l. p_limit s = Some l \<longrightarrow> p_went s \<le> l \<and> l \<le> p_came s \<and> card (readers_before s l) = l - p_went s)
     \<and> (\<forall>t. pf_ok s (pf_pc s t)) \<and> (\<forall>t. pf_pc s t \<noteq> P_idle \<longrightarrow> t < N)
     \<and> ((\<exists>t. pf_inside (pf_pc s t)) \<or> p_limit s = None \<and> p_phase s = p_released s)"

lemma readers_before_finite:
  assumes "pf_inv N s"
  shows "finite (readers_before s l)" "card (readers_before s l) \<le> N"
proof -
  have sub: "readers_before s l \<subseteq> {..<N}" using assms by (force simp: readers_before_def pf_inv_def pf_arrival_def)
  show "finite (readers_before s l)" by (rule finite_subset [OF sub]) simp
  show "card (readers_before s l) \<le> N" using card_mono [OF _ sub] by simp
qed

text \<open>A writer past its ticket is the one whose turn it is.\<close>

lemma pf_unique:
  assumes inv: "pf_inv N s" and t: "pf_ticket (pf_pc s t) = Some (p_released s, n)" and u: "u \<noteq> t"
  shows "\<not> pf_inside (pf_pc s u)" "\<And>tk g. pf_pc s u \<noteq> PW_enter tk g"
proof -
  have tl: "tiled (\<lambda>t. pf_ticket (pf_pc s t)) (p_released s) (p_issued s)" and ok: "pf_ok s (pf_pc s u)"
    using inv by (simp_all add: pf_inv_def)
  have n: "pf_ticket (pf_pc s u) \<noteq> Some (p_released s, m)" for m using tiled_inj [OF tl t, of u m] u by blast
  show "\<not> pf_inside (pf_pc s u)" "\<And>tk g. pf_pc s u \<noteq> PW_enter tk g"
    using n ok by (auto simp: pf_inside_def pf_ticket_def pf_ok_def split: pf_pc.splits)
qed

lemma pf_hold_excludes:
  assumes inv: "pf_inv N s" and w: "pf_pc s t = PW_hold g"
  shows "pf_pc s u \<noteq> PR_hold h" "pf_pc s u = PW_hold h \<Longrightarrow> u = t"
proof -
  have ok: "pf_ok s (pf_pc s t)" "pf_ok s (pf_pc s u)" using inv by (simp_all add: pf_inv_def)
  have l: "p_limit s = Some (p_went s)" "g = p_released s" using ok(1) w by (simp_all add: pf_ok_def)
  then have "card (readers_before s (p_went s)) = 0" using inv by (simp add: pf_inv_def)
  then have e: "readers_before s (p_went s) = {}" using readers_before_finite [OF inv] by simp
  show "pf_pc s u \<noteq> PR_hold h"
  proof
    assume "pf_pc s u = PR_hold h"
    then have "u \<in> readers_before s (p_went s)" using ok(2) l by (simp add: pf_ok_def readers_before_def pf_arrival_def)
    then show False using e by simp
  qed
  show "pf_pc s u = PW_hold h \<Longrightarrow> u = t"
    using pf_unique(1) [OF inv, of t 1 u] w l(2) by (auto simp: pf_ticket_def pf_inside_def)
qed

lemma phase_bits_simps [simp]: "phase_bits c \<in> {0, 2, 3}" "phase_bits c \<noteq> 0" "phase_bits (Suc (Suc c)) = phase_bits c"
  "phase_bits (Suc c) \<noteq> phase_bits c" "phase_bits c \<noteq> phase_bits (Suc c)"
  by (simp_all add: phase_bits_eq)

lemma pf_bits:
  assumes "pf_inv N s"
  shows "rd_in s AND RTE_PFLOCK_WBITS = (if p_limit s = None then 0 else phase_bits (p_phase s))"
    "rd_in s AND RTE_PFLOCK_LSB = of_nat (16 * p_came s)"
proof -
  have r: "rd_in s = of_nat (16 * p_came s) + (if p_limit s = None then 0 else phase_bits (p_phase s))" using assms by (simp add: pf_inv_def)
  have b: "(if p_limit s = None then 0 else phase_bits (p_phase s)) \<in> {0, 2, 3}" using phase_bits_simps(1) by simp
  show "rd_in s AND RTE_PFLOCK_WBITS = (if p_limit s = None then 0 else phase_bits (p_phase s))" unfolding r by (rule reader_bits(1) [OF b])
  show "rd_in s AND RTE_PFLOCK_LSB = of_nat (16 * p_came s)" unfolding r by (rule reader_bits(2) [OF b])
qed

section \<open>Every step keeps it\<close>

lemma pf_goto_simps [simp]:
  "rd_in (pf_goto t pc s) = rd_in s" "rd_out (pf_goto t pc s) = rd_out s" "wr_in (pf_goto t pc s) = wr_in s"
  "wr_out (pf_goto t pc s) = wr_out s" "p_came (pf_goto t pc s) = p_came s" "p_went (pf_goto t pc s) = p_went s"
  "p_issued (pf_goto t pc s) = p_issued s" "p_released (pf_goto t pc s) = p_released s" "p_phase (pf_goto t pc s) = p_phase s"
  "p_limit (pf_goto t pc s) = p_limit s" "pf_pc (pf_goto t pc s) u = (if u = t then pc else pf_pc s u)"
  by (simp_all add: pf_goto_def)

text \<open>The parts of the invariant that a step of a reader, or of a writer, leaves alone.\<close>

lemma tickets_same:
  assumes "pf_ticket pc = pf_ticket (pf_pc s t)" "pf_pc s' = pf_pc s"
  shows "(\<lambda>u. pf_ticket (pf_pc (pf_goto t pc s') u)) = (\<lambda>u. pf_ticket (pf_pc s u))"
  using assms by (auto simp: fun_eq_iff)

lemma readers_same:
  assumes "pf_arrival pc = pf_arrival (pf_pc s t)" "pf_pc s' = pf_pc s"
  shows "readers_before (pf_goto t pc s') l = readers_before s l"
  using assms by (auto simp: readers_before_def)

lemma pf_invD:
  assumes "pf_inv N s"
  shows "wr_in s = of_nat (p_issued s)" "wr_out s = of_nat (p_released s)"
    "tiled (\<lambda>t. pf_ticket (pf_pc s t)) (p_released s) (p_issued s)"
    "rd_in s = of_nat (16 * p_came s) + (if p_limit s = None then 0 else phase_bits (p_phase s))"
    "rd_out s = of_nat (16 * p_went s)" "p_went s \<le> p_came s" "card (readers_before s (p_came s)) = p_came s - p_went s"
    "p_limit s = Some l \<Longrightarrow> p_went s \<le> l \<and> l \<le> p_came s \<and> card (readers_before s l) = l - p_went s"
    "pf_ok s (pf_pc s t)" "pf_pc s t = P_idle \<or> t < N"
    "(\<exists>t. pf_inside (pf_pc s t)) \<or> p_limit s = None \<and> p_phase s = p_released s"
  using assms by (auto simp: pf_inv_def)

lemma pf_invI:
  assumes "wr_in s = of_nat (p_issued s)" "wr_out s = of_nat (p_released s)"
    "tiled (\<lambda>t. pf_ticket (pf_pc s t)) (p_released s) (p_issued s)"
    "rd_in s = of_nat (16 * p_came s) + (if p_limit s = None then 0 else phase_bits (p_phase s))"
    "rd_out s = of_nat (16 * p_went s)" "p_went s \<le> p_came s" "card (readers_before s (p_came s)) = p_came s - p_went s"
    "\<And>l. p_limit s = Some l \<Longrightarrow> p_went s \<le> l \<and> l \<le> p_came s \<and> card (readers_before s l) = l - p_went s"
    "\<And>t. pf_ok s (pf_pc s t)" "\<And>t. pf_pc s t = P_idle \<or> t < N"
    "(\<exists>t. pf_inside (pf_pc s t)) \<or> p_limit s = None \<and> p_phase s = p_released s"
  shows "pf_inv N s"
  using assms unfolding pf_inv_def by blast

lemma inside_same:
  assumes "pf_inv N s" "pf_inside (pf_pc s t) \<Longrightarrow> pf_inside pc" "pf_pc s' = pf_pc s"
  shows "(\<exists>u. pf_inside (pf_pc (pf_goto t pc s') u)) \<or> p_limit s = None \<and> p_phase s = p_released s"
proof (cases "\<exists>v. pf_inside (pf_pc s v)")
  case True
  then obtain v where "pf_inside (pf_pc s v)" by blast
  then have "pf_inside (pf_pc (pf_goto t pc s') v)" using assms(2,3) by auto
  then show ?thesis by blast
next
  case False
  then show ?thesis using assms(1) unfolding pf_inv_def by blast
qed

text \<open>A step that changes nothing but the place of a thread.\<close>

lemma pf_inv_goto:
  assumes inv: "pf_inv N s" and "pf_ticket pc = pf_ticket (pf_pc s t)" "pf_arrival pc = pf_arrival (pf_pc s t)"
    "pf_inside (pf_pc s t) \<Longrightarrow> pf_inside pc" "pf_ok s pc" "pf_pc s t \<noteq> P_idle"
  shows "pf_inv N (pf_goto t pc s)"
proof -
  note d = pf_invD [OF inv]
  have ok: "pf_ok (pf_goto t pc s) pc' = pf_ok s pc'" for pc' by (cases pc') (auto simp: pf_ok_def)
  have tN: "t < N" using d(10) [of t] assms(6) by simp
  show ?thesis
    by (rule pf_invI) (use d tickets_same [OF assms(2) refl] readers_same [OF assms(3) refl] assms(5) tN
        inside_same [OF inv assms(4) refl] in \<open>simp_all add: ok\<close>)
qed

lemma pf_inv_came:
  assumes inv: "pf_inv N s" and t: "pf_pc s t = P_idle" "t < N"
  shows "pf_inv N (pf_goto t (if p_limit s = None then PR_hold (p_came s) else PR_wait (phase_bits (p_phase s)) (p_came s))
    (s\<lparr>rd_in := rd_in s + RTE_PFLOCK_RINC, p_came := p_came s + 1\<rparr>))" (is "pf_inv N (pf_goto t ?pc ?s)")
proof -
  note d = pf_invD [OF inv]
  have a: "pf_arrival ?pc = Some (p_came s)" "pf_ticket ?pc = pf_ticket (pf_pc s t)" "\<not> pf_inside ?pc"
    using t by (simp_all add: pf_arrival_def pf_ticket_def pf_inside_def)
  have before: "readers_before (pf_goto t ?pc ?s) l = readers_before s l" if "l \<le> p_came s" for l
    using that a(1) t(1) by (auto simp: readers_before_def pf_arrival_def)
  have "g < p_came s" if "pf_arrival (pf_pc s u) = Some g" for u g
    using d(9) [of u] that by (auto simp: pf_arrival_def pf_ok_def split: pf_pc.splits)
  then have "readers_before (pf_goto t ?pc ?s) (p_came s + 1) = insert t (readers_before s (p_came s))"
    using a(1) by (auto simp: readers_before_def less_Suc_eq)
  moreover have "t \<notin> readers_before s (p_came s)" using t(1) by (simp add: readers_before_def pf_arrival_def)
  ultimately have c: "card (readers_before (pf_goto t ?pc ?s) (p_came s + 1)) = p_came s + 1 - p_went s"
    using d(6,7) readers_before_finite(1) [OF inv] by simp
  have ok: "pf_ok (pf_goto t ?pc ?s) (pf_pc s u)" for u using d(9) [of u] by (auto simp: pf_ok_def split: pf_pc.splits)
  have okt: "pf_ok (pf_goto t ?pc ?s) ?pc" using d(8) by (auto simp: pf_ok_def)
  have ins: "(\<exists>u. pf_inside (pf_pc (pf_goto t ?pc ?s) u)) \<or> p_limit s = None \<and> p_phase s = p_released s"
    using t(1) by (intro inside_same [OF inv]) (simp_all add: pf_inside_def)
  show ?thesis
    by (rule pf_invI) (use d tickets_same [OF a(2), of ?s] before c ok okt t(2) ins in \<open>simp_all add: algebra_simps\<close>)
qed

lemma pf_inv_went:
  assumes inv: "pf_inv N s" and t: "pf_pc s t = PR_hold g"
  shows "pf_inv N (pf_goto t P_idle (s\<lparr>rd_out := rd_out s + RTE_PFLOCK_RINC, p_went := p_went s + 1\<rparr>))"
    (is "pf_inv N (pf_goto t ?pc ?s)")
proof -
  note d = pf_invD [OF inv]
  have a: "pf_arrival (pf_pc s t) = Some g" "pf_ticket ?pc = pf_ticket (pf_pc s t)" using t by (simp_all add: pf_arrival_def pf_ticket_def)
  have g: "g < p_came s" "\<And>l. p_limit s = Some l \<Longrightarrow> g < l" using d(9) [of t] t by (simp_all add: pf_ok_def)
  have less: "card (readers_before (pf_goto t ?pc ?s) l) = l - (p_went s + 1) \<and> p_went s + 1 \<le> l"
    if "g < l" "card (readers_before s l) = l - p_went s" for l
  proof -
    have "readers_before (pf_goto t ?pc ?s) l = readers_before s l - {t}" by (auto simp: readers_before_def pf_arrival_def)
    moreover have m: "t \<in> readers_before s l" using a(1) that(1) by (simp add: readers_before_def)
    moreover have "card (readers_before s l) \<noteq> 0" using m readers_before_finite(1) [OF inv, of l] by auto
    ultimately show ?thesis using that(2) readers_before_finite(1) [OF inv, of l] by simp
  qed
  have "\<not> (\<exists>u h. pf_pc s u = PW_hold h)" using pf_hold_excludes(1) [OF inv] t by metis
  then have ok: "pf_ok (pf_goto t ?pc ?s) (pf_pc s u)" for u using d(9) [of u] by (auto simp: pf_ok_def split: pf_pc.splits)
  have okt: "pf_ok (pf_goto t ?pc ?s) P_idle" by (simp add: pf_ok_def)
  have ins: "(\<exists>u. pf_inside (pf_pc (pf_goto t ?pc ?s) u)) \<or> p_limit s = None \<and> p_phase s = p_released s"
    using t by (intro inside_same [OF inv]) (simp_all add: pf_inside_def)
  show ?thesis
    by (rule pf_invI) (use d tickets_same [OF a(2), of ?s] less [OF g(1) d(7)] less g(2) ok okt ins in \<open>simp_all add: algebra_simps\<close>)
qed

lemma pf_inv_ticket:
  assumes inv: "pf_inv N s" and t: "pf_pc s t = P_idle" "t < N"
  shows "pf_inv N (pf_goto t (PW_ticket (wr_in s) (p_issued s)) (s\<lparr>wr_in := wr_in s + 1, p_issued := p_issued s + 1\<rparr>))"
    (is "pf_inv N (pf_goto t ?pc ?s)")
proof -
  note d = pf_invD [OF inv]
  have before: "readers_before (pf_goto t ?pc ?s) l = readers_before s l" for l
    using t(1) by (intro readers_same) (simp_all add: pf_arrival_def)
  have "(\<lambda>u. pf_ticket (pf_pc (pf_goto t ?pc ?s) u)) = (\<lambda>u. pf_ticket (pf_pc s u))(t := Some (p_issued s, 1))"
    by (auto simp: pf_ticket_def)
  then have tl: "tiled (\<lambda>u. pf_ticket (pf_pc (pf_goto t ?pc ?s) u)) (p_released s) (p_issued s + 1)"
    using tiled_reserve [OF d(3), of t 1] t(1) by (simp add: pf_ticket_def)
  have ok: "pf_ok (pf_goto t ?pc ?s) pc' = pf_ok s pc'" for pc' by (cases pc') (auto simp: pf_ok_def)
  have okt: "pf_ok s ?pc" using d(1) by (simp add: pf_ok_def)
  have ins: "(\<exists>u. pf_inside (pf_pc (pf_goto t ?pc ?s) u)) \<or> p_limit s = None \<and> p_phase s = p_released s"
    using t(1) by (intro inside_same [OF inv]) (simp_all add: pf_inside_def)
  show ?thesis 
    by (rule pf_invI) (use d tl before ok okt t(2) ins in simp_all)
qed

lemma pf_inv_mark:
  assumes inv: "pf_inv N s" and t: "pf_pc s t = PW_enter tk g"
  shows "pf_inv N (pf_goto t (PW_drain (rd_in s) g) (s\<lparr>rd_in := rd_in s + phase_bits g, p_limit := Some (p_came s)\<rparr>))"
    (is "pf_inv N (pf_goto t ?pc ?s)")
proof -
  note d = pf_invD [OF inv]
  have me: "g = p_released s" "p_phase s = g" "p_limit s = None" using d(9) [of t] t by (simp_all add: pf_ok_def)
  have a: "pf_arrival ?pc = pf_arrival (pf_pc s t)" "pf_ticket ?pc = pf_ticket (pf_pc s t)" "pf_inside ?pc"
    using t by (simp_all add: pf_arrival_def pf_ticket_def pf_inside_def)
  have "\<not> pf_inside (pf_pc s u)" "\<And>tk g. pf_pc s u \<noteq> PW_enter tk g" if "u \<noteq> t" for u
    using pf_unique [OF inv, of t 1 u] t me(1) that by (simp_all add: pf_ticket_def)
  then have ok: "pf_ok (pf_goto t ?pc ?s) (pf_pc s u)" if "u \<noteq> t" for u
    using d(9) [of u] me(3) that by (fastforce simp: pf_ok_def pf_inside_def split: pf_pc.splits)
  have okt: "pf_ok (pf_goto t ?pc ?s) ?pc" using me d(4) by (simp add: pf_ok_def)
  have tN: "t < N" using d(10) [of t] t by simp
  have ins: "\<exists>u. pf_inside (pf_pc (pf_goto t ?pc ?s) u)" using a(3) by (intro exI [of _ t]) simp
  show ?thesis
    by (rule pf_invI) (use d tickets_same [OF a(2), of ?s] readers_same [OF a(1), of ?s] ok okt tN me ins in simp_all)
qed

lemma pf_inv_clear:
  assumes inv: "pf_inv N s" and t: "pf_pc s t = PW_hold g"
  shows "pf_inv N (pf_goto t (PW_next g) (s\<lparr>rd_in := of_nat (16 * p_came s), p_phase := p_phase s + 1, p_limit := None\<rparr>))"
    (is "pf_inv N (pf_goto t ?pc ?s)")
proof -
  note d = pf_invD [OF inv]
  have me: "g = p_released s" "p_phase s = g" "p_limit s = Some (p_went s)" using d(9) [of t] t by (simp_all add: pf_ok_def)
  have a: "pf_arrival ?pc = pf_arrival (pf_pc s t)" "pf_ticket ?pc = pf_ticket (pf_pc s t)" "pf_inside ?pc"
    using t by (simp_all add: pf_arrival_def pf_ticket_def pf_inside_def)
  have "card (readers_before s (p_went s)) = 0" using d(8) [OF me(3)] by simp
  then have e: "readers_before s (p_went s) = {}" using readers_before_finite(1) [OF inv] by simp
  have w: "\<not> pf_inside (pf_pc s u)" "\<And>tk g. pf_pc s u \<noteq> PW_enter tk g" if "u \<noteq> t" for u
    using pf_unique [OF inv, of t 1 u] t me(1) that by (simp_all add: pf_ticket_def)
  have ok: "pf_ok (pf_goto t ?pc ?s) (pf_pc s u)" if u: "u \<noteq> t" for u
  proof -
    have late: "p_went s \<le> h" if "pf_arrival (pf_pc s u) = Some h" for h
      using e that by (force simp: readers_before_def)
    show ?thesis
    proof (cases "pf_pc s u")
      case (PR_wait x h)
      then show ?thesis using d(9) [of u] late [of h] me by (auto simp: pf_ok_def pf_arrival_def)
    next
      case (PR_hold h)
      then show ?thesis using pf_hold_excludes(1) [OF inv t] by blast
    next
      case (PW_enter x h)
      then show ?thesis using w(2) [OF u] by blast
    qed (use d(9) [of u] w(1) [OF u] in \<open>simp_all add: pf_ok_def pf_inside_def\<close>)
  qed
  have okt: "pf_ok (pf_goto t ?pc ?s) ?pc" using me by (simp add: pf_ok_def)
  have tN: "t < N" using d(10) [of t] t by simp
  have ins: "\<exists>u. pf_inside (pf_pc (pf_goto t ?pc ?s) u)" using a(3) by (intro exI [of _ t]) simp
  show ?thesis
    by (rule pf_invI) (use d tickets_same [OF a(2), of ?s] readers_same [OF a(1), of ?s] ok okt tN me ins in simp_all)
qed

lemma pf_inv_pass:
  assumes inv: "pf_inv N s" and t: "pf_pc s t = PW_next g"
  shows "pf_inv N (pf_goto t P_idle (s\<lparr>wr_out := wr_out s + 1, p_released := p_released s + 1\<rparr>))"
    (is "pf_inv N (pf_goto t ?pc ?s)")
proof -
  note d = pf_invD [OF inv]
  have me: "g = p_released s" "p_phase s = g + 1" "p_limit s = None" using d(9) [of t] t by (simp_all add: pf_ok_def)
  have a: "pf_arrival ?pc = pf_arrival (pf_pc s t)" using t by (simp add: pf_arrival_def)
  have "(\<lambda>u. pf_ticket (pf_pc (pf_goto t ?pc ?s) u)) = (\<lambda>u. pf_ticket (pf_pc s u))(t := None)"
    by (auto simp: pf_ticket_def)
  then have tl: "tiled (\<lambda>u. pf_ticket (pf_pc (pf_goto t ?pc ?s) u)) (p_released s + 1) (p_issued s)"
    using tiled_release [OF d(3), of t 1] t me(1) by (simp add: pf_ticket_def)
  have w: "\<not> pf_inside (pf_pc s u)" "\<And>tk g. pf_pc s u \<noteq> PW_enter tk g" if "u \<noteq> t" for u
    using pf_unique [OF inv, of t 1 u] t me(1) that by (simp_all add: pf_ticket_def)
  have ok: "pf_ok (pf_goto t ?pc ?s) (pf_pc s u)" if u: "u \<noteq> t" for u
    using d(9) [of u] w [OF u] me(3) by (auto simp: pf_ok_def pf_inside_def split: pf_pc.splits)
  have okt: "pf_ok (pf_goto t ?pc ?s) ?pc" by (simp add: pf_ok_def)
  show ?thesis
    by (rule pf_invI) (use d tl readers_same [OF a, of ?s] ok okt me in simp_all)
qed

text \<open>The turn of a ticket, and the end of the readers before a writer.\<close>

lemma pf_turn:
  assumes inv: "pf_inv N s" and N: "N < 2 ^ 12" and t: "pf_pc s t = PW_ticket tk g"
  shows "wr_out s = tk \<longleftrightarrow> g = p_released s"
proof -
  note d = pf_invD [OF inv]
  have tk: "tk = of_nat g" using d(9) [of t] t by (simp add: pf_ok_def)
  have u: "n = 1 \<and> u < N" if "pf_ticket (pf_pc s u) = Some (h, n)" for u h n
    using that d(10) [of u] by (auto simp: pf_ticket_def split: pf_pc.splits)
  have "p_issued s - p_released s \<le> N" by (rule tiled_units_le [OF d(3) u])
  moreover have "p_released s \<le> g \<and> 0 < (1 :: nat) \<and> g + 1 \<le> p_issued s"
    by (rule tiledD(2) [OF d(3), of t]) (simp add: t pf_ticket_def)
  moreover have "N < 4096" using N by simp
  ultimately have "p_released s \<le> g" "g < p_released s + 65536" by linarith+
  then show ?thesis using u16_eq [of "p_released s" g] tk d(2) by auto
qed

lemma pf_drained:
  assumes inv: "pf_inv N s" and N: "N < 2 ^ 12" and t: "pf_pc s t = PW_drain tk g"
  obtains l where "p_limit s = Some l" "rd_out s = tk \<longleftrightarrow> l = p_went s"
proof -
  note d = pf_invD [OF inv]
  obtain l where l: "p_limit s = Some l" "tk = of_nat (16 * l)" using d(9) [of t] t by (auto simp: pf_ok_def)
  have w: "p_went s \<le> l" "card (readers_before s l) = l - p_went s" using d(8) [OF l(1)] by simp_all
  have "l - p_went s < 4096" using readers_before_finite(2) [OF inv, of l] w(2) N by simp
  then have "16 * p_went s \<le> 16 * l" "16 * l < 16 * p_went s + 65536" using w(1) by linarith+
  then have "rd_out s = tk \<longleftrightarrow> l = p_went s" using u16_eq [of "16 * p_went s" "16 * l"] d(5) l(2) by auto
  then show thesis using that l(1) by blast
qed

lemma pf_inv_step:
  assumes inv: "pf_inv N s" and t: "t < N" and N: "N < 2 ^ 12" and st: "pf_step t s s'"
  shows "pf_inv N s'"
proof -
  note d = pf_invD [OF inv] and b = pf_bits [OF inv]
  have ok: "pf_ok s (pf_pc s t)" by (rule d(9))
  have go: "pf_inv N (pf_goto t pc s)" if "pf_ticket pc = pf_ticket (pf_pc s t)" "pf_arrival pc = pf_arrival (pf_pc s t)"
    "pf_inside (pf_pc s t) \<Longrightarrow> pf_inside pc" "pf_ok s pc" "pf_pc s t \<noteq> P_idle" for pc
    by (rule pf_inv_goto [OF inv that])
  show ?thesis
  proof (cases "pf_pc s t")
    case P_idle
    have w: "(if (if p_limit s = None then 0 else phase_bits (p_phase s)) = 0 then PR_hold (p_came s)
        else PR_wait (if p_limit s = None then 0 else phase_bits (p_phase s)) (p_came s))
      = (if p_limit s = None then PR_hold (p_came s) else PR_wait (phase_bits (p_phase s)) (p_came s))"
      by (simp only: phase_bits_simps if_False if_True refl split: if_split) simp
    from st P_idle have "Some s' = rte_pflock_read_lock t s \<or> Some s' = rte_pflock_write_lock t s"
      by (auto simp: pf_step_def rte_pflock_read_unlock_def rte_pflock_write_unlock_def)
    then show ?thesis
    proof
      assume "Some s' = rte_pflock_read_lock t s"
      then have "s' = pf_goto t (if p_limit s = None then PR_hold (p_came s) else PR_wait (phase_bits (p_phase s)) (p_came s))
          (s\<lparr>rd_in := rd_in s + RTE_PFLOCK_RINC, p_came := p_came s + 1\<rparr>)"
        using P_idle unfolding rte_pflock_read_lock_def Let_def b(1) w by simp
      then show ?thesis using pf_inv_came [OF inv P_idle t] by simp
    next
      assume "Some s' = rte_pflock_write_lock t s"
      then show ?thesis using P_idle pf_inv_ticket [OF inv P_idle t] by (simp add: rte_pflock_write_lock_def)
    qed
  next
    case (PR_wait w g)
    then have s': "s' = pf_goto t (PR_hold g) s" "rd_in s AND RTE_PFLOCK_WBITS \<noteq> w"
      using st by (auto simp: pf_step_def rte_pflock_read_lock_def rte_pflock_read_unlock_def rte_pflock_write_lock_def
          rte_pflock_write_unlock_def split: if_splits)
    have "g < l" if "p_limit s = Some l" for l using s'(2) that ok PR_wait unfolding b(1) by (auto simp: pf_ok_def split: if_splits)
    then show ?thesis unfolding s'(1) using PR_wait ok by (intro go) (auto simp: pf_ticket_def pf_arrival_def pf_inside_def pf_ok_def)
  next
    case (PR_hold g)
    then show ?thesis using st pf_inv_went [OF inv PR_hold]
      by (auto simp: pf_step_def rte_pflock_read_lock_def rte_pflock_read_unlock_def rte_pflock_write_lock_def rte_pflock_write_unlock_def)
  next
    case (PW_ticket tk g)
    then have s': "s' = pf_goto t (PW_enter tk g) s" "wr_out s = tk"
      using st by (auto simp: pf_step_def rte_pflock_read_lock_def rte_pflock_read_unlock_def rte_pflock_write_lock_def
          rte_pflock_write_unlock_def split: if_splits)
    then have g: "g = p_released s" using pf_turn [OF inv N PW_ticket] by simp
    have "\<not> pf_inside (pf_pc s u)" for u
    proof (cases "u = t")
      case False
      then show ?thesis using pf_unique(1) [OF inv, of t 1 u] PW_ticket g by (simp add: pf_ticket_def)
    qed (simp add: PW_ticket pf_inside_def)
    then have "p_limit s = None" "p_phase s = p_released s" using d(11) by auto
    then show ?thesis unfolding s'(1) using PW_ticket ok g
      by (intro go) (auto simp: pf_ticket_def pf_arrival_def pf_inside_def pf_ok_def)
  next
    case (PW_enter tk g)
    have "tk = of_nat g" using ok PW_enter by (simp add: pf_ok_def)
    then have "s' = pf_goto t (PW_drain (rd_in s) g) (s\<lparr>rd_in := rd_in s + phase_bits g, p_limit := Some (p_came s)\<rparr>)"
      using st PW_enter by (auto simp: pf_step_def rte_pflock_read_lock_def rte_pflock_read_unlock_def rte_pflock_write_lock_def
          rte_pflock_write_unlock_def phase_bits_def Let_def)
    then show ?thesis using pf_inv_mark [OF inv PW_enter] by simp
  next
    case (PW_drain tk g)
    then have s': "s' = pf_goto t (PW_hold g) s" "rd_out s = tk"
      using st by (auto simp: pf_step_def rte_pflock_read_lock_def rte_pflock_read_unlock_def rte_pflock_write_lock_def
          rte_pflock_write_unlock_def split: if_splits)
    obtain l where "p_limit s = Some l" "rd_out s = tk \<longleftrightarrow> l = p_went s" by (rule pf_drained [OF inv N PW_drain])
    then show ?thesis unfolding s'(1) using PW_drain ok s'(2)
      by (intro go) (auto simp: pf_ticket_def pf_arrival_def pf_inside_def pf_ok_def)
  next
    case (PW_hold g)
    then have "s' = pf_goto t (PW_next g) (s\<lparr>rd_in := of_nat (16 * p_came s), p_phase := p_phase s + 1, p_limit := None\<rparr>)"
      using st b(2) by (auto simp: pf_step_def rte_pflock_read_lock_def rte_pflock_read_unlock_def rte_pflock_write_lock_def
          rte_pflock_write_unlock_def)
    then show ?thesis using pf_inv_clear [OF inv PW_hold] by simp
  next
    case (PW_next g)
    then show ?thesis using st pf_inv_pass [OF inv PW_next]
      by (auto simp: pf_step_def rte_pflock_read_lock_def rte_pflock_read_unlock_def rte_pflock_write_lock_def rte_pflock_write_unlock_def)
  qed
qed

lemma pf_run_inv: "pf_run N s \<Longrightarrow> N < 2 ^ 12 \<Longrightarrow> pf_inv N s"
proof (induction rule: pf_run.induct)
  case start
  show ?case by (simp add: pf_inv_def rte_pflock_init_def tiled_def pf_ticket_def readers_before_def pf_arrival_def pf_ok_def)
next
  case (step s t s')
  then show ?case using pf_inv_step by blast
qed

section \<open>The property\<close>

abbreviation (input) pf_busy_step :: "pflock \<Rightarrow> bool" where
  "pf_busy_step s \<equiv> \<exists>u s'. pf_pc s u \<noteq> P_idle \<and> pf_step u s s'"

lemma pf_reader_waits:
  assumes inv: "pf_inv N s" and t: "pf_pc s t = PR_wait w g"
  shows "rte_pflock_read_lock t s = None \<longleftrightarrow> (\<exists>l. p_limit s = Some l \<and> l \<le> g)"
proof -
  have w: "w = phase_bits (if \<exists>l. p_limit s = Some l \<and> l \<le> g then p_phase s else p_phase s + 1)"
    using pf_invD(9) [OF inv, of t] t by (simp add: pf_ok_def)
  have "rte_pflock_read_lock t s = None \<longleftrightarrow> (if p_limit s = None then 0 else phase_bits (p_phase s)) = w"
    using t unfolding pf_bits(1) [OF inv, symmetric] by (simp add: rte_pflock_read_lock_def)
  then show ?thesis using w by (auto split: if_splits)
qed

lemma pf_progress:
  assumes inv: "pf_inv N s" and N: "N < 2 ^ 12" and t: "pf_pc s t \<noteq> P_idle"
  shows "pf_busy_step s"
proof -
  note d = pf_invD [OF inv]
  have rd: "pf_busy_step s" if "pf_pc s u = PR_wait w g" "\<not> (\<exists>l. p_limit s = Some l \<and> l \<le> g)" for u w g
    using that pf_reader_waits [OF inv that(1)] by (intro exI [of _ u]) (auto simp: pf_step_def)
  have drain: "pf_busy_step s" if u: "pf_pc s u = PW_drain tk g" for u tk g
  proof -
    obtain l where l: "p_limit s = Some l" "rd_out s = tk \<longleftrightarrow> l = p_went s" by (rule pf_drained [OF inv N u])
    show ?thesis
    proof (cases "l = p_went s")
      case True
      then show ?thesis using u l(2) by (intro exI [of _ u]) (auto simp: pf_step_def rte_pflock_write_lock_def)
    next
      case False
      then have "card (readers_before s l) \<noteq> 0" using d(8) [OF l(1)] by simp
      then have "readers_before s l \<noteq> {}" by auto
      then obtain v h where v: "pf_arrival (pf_pc s v) = Some h" "h < l" by (auto simp: readers_before_def)
      then consider w where "pf_pc s v = PR_wait w h" | "pf_pc s v = PR_hold h"
        by (auto simp: pf_arrival_def split: pf_pc.splits)
      then show ?thesis
      proof cases
        case 1
        then show ?thesis using rd v(2) l(1) by simp
      next
        case 2
        then show ?thesis by (intro exI [of _ v]) (auto simp: pf_step_def rte_pflock_read_unlock_def)
      qed
    qed
  qed
  have inside: "pf_busy_step s" if "pf_inside (pf_pc s u) \<or> (\<exists>tk g. pf_pc s u = PW_enter tk g)" for u
  proof (cases "\<exists>tk g. pf_pc s u = PW_drain tk g")
    case False
    then show ?thesis using that
      by (intro exI [of _ u], cases "pf_pc s u")
        (auto simp: pf_inside_def pf_step_def rte_pflock_write_unlock_def rte_pflock_write_lock_def Let_def)
  qed (use drain in blast)
  show ?thesis
  proof (cases "pf_pc s t")
    case P_idle
    then show ?thesis using t by simp
  next
    case (PR_wait w g)
    then show ?thesis using rd [OF PR_wait] inside d(11) by auto
  next
    case (PR_hold g)
    then show ?thesis by (intro exI [of _ t]) (auto simp: pf_step_def rte_pflock_read_unlock_def)
  next
    case (PW_ticket tk g)
    have "p_released s \<le> g \<and> 0 < (1 :: nat) \<and> g + 1 \<le> p_issued s"
      by (rule tiledD(2) [OF d(3), of t]) (simp add: PW_ticket pf_ticket_def)
    then obtain u n where u: "pf_ticket (pf_pc s u) = Some (p_released s, n)" using tiled_first [OF d(3)] by auto
    then consider tk' where "pf_pc s u = PW_ticket tk' (p_released s)" | "pf_inside (pf_pc s u) \<or> (\<exists>tk g. pf_pc s u = PW_enter tk g)"
      by (auto simp: pf_ticket_def pf_inside_def split: pf_pc.splits)
    then show ?thesis
    proof cases
      case 1
      then show ?thesis using pf_turn [OF inv N 1] by (intro exI [of _ u]) (auto simp: pf_step_def rte_pflock_write_lock_def)
    qed (rule inside)
  qed (use inside [of t] in \<open>auto simp: pf_inside_def\<close>)
qed

text \<open>C35. The phase-fair lock excludes and is fair. With fewer than 2^12 threads, although its counters of 16
  bits wrap around, a writer that holds the lock is alone; a waiting reader is held up exactly while the
  writer is present that was there when it came, never by a later one; a waiting writer has its turn
  exactly when all earlier tickets have been given back; and while any thread waits, holds or releases
  the lock, one of those can step.\<close>

theorem pflock_exclusive_fair:
  assumes "pf_run N s" "N < 2 ^ 12"
  shows "(pf_pc s t = PW_hold g \<longrightarrow> (\<forall>u h. pf_pc s u \<noteq> PR_hold h \<and> (u \<noteq> t \<longrightarrow> pf_pc s u \<noteq> PW_hold h)))
    \<and> (pf_pc s t = PR_wait w g \<longrightarrow> (rte_pflock_read_lock t s = None \<longleftrightarrow> (\<exists>l. p_limit s = Some l \<and> l \<le> g)))
    \<and> (pf_pc s t = PW_ticket w g \<longrightarrow> (rte_pflock_write_lock t s = None \<longleftrightarrow> g \<noteq> p_released s))
    \<and> (pf_pc s t \<noteq> P_idle \<longrightarrow> (\<exists>u s'. pf_pc s u \<noteq> P_idle \<and> pf_step u s s'))"
proof -
  have inv: "pf_inv N s" using pf_run_inv [OF assms] .
  have "rte_pflock_write_lock t s = None \<longleftrightarrow> g \<noteq> p_released s" if "pf_pc s t = PW_ticket w g"
    using pf_turn [OF inv assms(2) that] that by (auto simp: rte_pflock_write_lock_def)
  then show ?thesis
    using pf_hold_excludes [OF inv] pf_reader_waits [OF inv] pf_progress [OF inv assms(2), of t] by metis
qed

text \<open>A reader holds, a writer marks its presence and drains, and a second reader waits behind the writer.\<close>

lemma pf_sample:
  "\<exists>s. pf_run 3 s \<and> pf_pc s 0 = PR_hold 0 \<and> pf_pc s 1 = PW_drain 16 0 \<and> pf_pc s 2 = PR_wait 2 1 \<and> p_limit s = Some 1"
proof -
  define s1 where "s1 = the (rte_pflock_read_lock 0 rte_pflock_init)"
  define s2 where "s2 = the (rte_pflock_write_lock 1 s1)"
  define s3 where "s3 = the (rte_pflock_write_lock 1 s2)"
  define s4 where "s4 = the (rte_pflock_write_lock 1 s3)"
  define s5 where "s5 = the (rte_pflock_read_lock 2 s4)"
  note defs = s1_def s2_def s3_def s4_def s5_def rte_pflock_init_def rte_pflock_read_lock_def rte_pflock_write_lock_def pf_goto_def Let_def
  have r: "pf_run 3 s'" if "pf_run 3 s" "t < 3" "rte_pflock_read_lock t s = Some s' \<or> rte_pflock_write_lock t s = Some s'" for s s' t
    using that by (auto intro: pf_run.step simp: pf_step_def)
  have "pf_run 3 s1" by (rule r [OF pf_run.start, of 0]) (simp_all add: defs)
  then have "pf_run 3 s2" by (rule r [of _ 1]) (simp_all add: defs)
  then have "pf_run 3 s3" by (rule r [of _ 1]) (simp_all add: defs)
  then have "pf_run 3 s4" by (rule r [of _ 1]) (simp_all add: defs)
  then have "pf_run 3 s5" by (rule r [of _ 2]) (simp_all add: defs)
  then show ?thesis by (intro exI [of _ s5]) (simp add: defs)
qed

theorem pflock_exclusive_fair_witness:
  "\<exists>s. pf_run 3 s \<and> pf_pc s 2 = PR_wait 2 1 \<and> rte_pflock_read_lock 2 s = None \<and> (\<exists>u s'. pf_pc s u \<noteq> P_idle \<and> pf_step u s s')"
proof -
  obtain s where s: "pf_run 3 s" "pf_pc s 2 = PR_wait 2 1" "p_limit s = Some 1" using pf_sample by blast
  then show ?thesis using pflock_exclusive_fair [OF s(1), of 2 1 2] by auto
qed

end
