(* ===== verification/Rte_Lock_Recursive.thy ===== *)
theory Rte_Lock_Recursive
  imports Rte_Locks
begin

text \<open>
  The spin lock of rte\_spinlock.h, and the recursive locks over the spin lock and over the ticket lock,
  which are one machine on top of the steps of the lock below. What that lock has to promise is the locale
  \<open>mutex\<close>.
\<close>

section \<open>Spin lock\<close>

datatype spin_pc = S_idle | S_swap | S_wait | S_hold | S_try

record spinlock =
  sp_locked :: int
  sp_pc :: "nat \<Rightarrow> spin_pc"

definition rte_spinlock_init :: spinlock where
  "rte_spinlock_init = \<lparr>sp_locked = 0, sp_pc = (\<lambda>_. S_idle)\<rparr>"

definition spin_goto :: "nat \<Rightarrow> spin_pc \<Rightarrow> spinlock \<Rightarrow> spinlock" where
  "spin_goto t pc s = s\<lparr>sp_pc := (sp_pc s)(t := pc)\<rparr>"

definition rte_spinlock_lock :: "nat \<Rightarrow> spinlock \<Rightarrow> spinlock option" where
  "rte_spinlock_lock t s = (case sp_pc s t of
     S_swap \<Rightarrow> Some (if sp_locked s = 0 then spin_goto t S_hold (s\<lparr>sp_locked := 1\<rparr>) else spin_goto t S_wait s)
   | S_wait \<Rightarrow> (if sp_locked s = 0 then Some (spin_goto t S_swap s) else None)
   | _ \<Rightarrow> None)"

definition rte_spinlock_unlock :: "nat \<Rightarrow> spinlock \<Rightarrow> spinlock option" where
  "rte_spinlock_unlock t s = (case sp_pc s t of S_hold \<Rightarrow> Some (spin_goto t S_idle (s\<lparr>sp_locked := 0\<rparr>)) | _ \<Rightarrow> None)"

definition rte_spinlock_trylock :: "nat \<Rightarrow> spinlock \<Rightarrow> spinlock option" where
  "rte_spinlock_trylock t s = (case sp_pc s t of
     S_try \<Rightarrow> Some (if sp_locked s = 0 then spin_goto t S_hold (s\<lparr>sp_locked := 1\<rparr>) else spin_goto t S_idle s)
   | _ \<Rightarrow> None)"

definition rte_spinlock_is_locked :: "spinlock \<Rightarrow> int" where
  "rte_spinlock_is_locked s = sp_locked s"

text \<open>The x86 code exchanges the word with 1 without comparing, and looks at what it was.\<close>

definition x86_spinlock_lock :: "nat \<Rightarrow> spinlock \<Rightarrow> spinlock option" where
  "x86_spinlock_lock t s = (case sp_pc s t of
     S_swap \<Rightarrow> (let lv = sp_locked s; s = s\<lparr>sp_locked := 1\<rparr> in Some (if lv = 0 then spin_goto t S_hold s else spin_goto t S_wait s))
   | S_wait \<Rightarrow> (if sp_locked s = 0 then Some (spin_goto t S_swap s) else None)
   | _ \<Rightarrow> None)"

definition x86_spinlock_trylock :: "nat \<Rightarrow> spinlock \<Rightarrow> spinlock option" where
  "x86_spinlock_trylock t s = (case sp_pc s t of
     S_try \<Rightarrow> (let lockval = sp_locked s; s = s\<lparr>sp_locked := 1\<rparr> in Some (if lockval = 0 then spin_goto t S_hold s else spin_goto t S_idle s))
   | _ \<Rightarrow> None)"

section \<open>Recursive locks\<close>

text \<open>Where a thread is in a call of the recursive lock; the flag tells a try from a lock. The depth is history:
  how often a thread has the lock.\<close>

datatype rec_pc = RC_out | RC_load bool | RC_base bool | RC_user | RC_count | RC_uncount | RC_clear | RC_unlock

record 'b reclock =
  rc_base :: 'b
  rc_user :: int
  rc_count :: u32
  rc_pc :: "nat \<Rightarrow> rec_pc"
  rc_depth :: "nat \<Rightarrow> nat"

definition rec_goto :: "nat \<Rightarrow> rec_pc \<Rightarrow> 'b reclock \<Rightarrow> 'b reclock" where
  "rec_goto t pc s = s\<lparr>rc_pc := (rc_pc s)(t := pc)\<rparr>"

definition rec_init :: "'b \<Rightarrow> 'b reclock" where
  "rec_init b = \<lparr>rc_base = b, rc_user = - 1, rc_count = 0, rc_pc = (\<lambda>_. RC_out), rc_depth = (\<lambda>_. 0)\<rparr>"

text \<open>The lock below is given by how a call of it begins, by its steps, and by whether a call has returned
  with the lock or without it.\<close>

definition rec_lock_step :: "(bool \<Rightarrow> nat \<Rightarrow> 'b \<Rightarrow> 'b) \<Rightarrow> (nat \<Rightarrow> 'b \<Rightarrow> 'b option) \<Rightarrow> ('b \<Rightarrow> nat \<Rightarrow> bool) \<Rightarrow> ('b \<Rightarrow> nat \<Rightarrow> bool)
    \<Rightarrow> nat \<Rightarrow> 'b reclock \<Rightarrow> 'b reclock option" where
  "rec_lock_step begin_call bstep held idle t s = (case rc_pc s t of
     RC_load try_it \<Rightarrow> Some (if rc_user s \<noteq> int t then rec_goto t (RC_base try_it) (s\<lparr>rc_base := begin_call try_it t (rc_base s)\<rparr>)
       else rec_goto t RC_count s)
   | RC_base try_it \<Rightarrow> (if held (rc_base s) t then Some (rec_goto t RC_user s)
       else if try_it \<and> idle (rc_base s) t then Some (rec_goto t RC_out s)
       else map_option (\<lambda>b. s\<lparr>rc_base := b\<rparr>) (bstep t (rc_base s)))
   | RC_user \<Rightarrow> Some (rec_goto t RC_count (s\<lparr>rc_user := int t\<rparr>))
   | RC_count \<Rightarrow> Some (rec_goto t RC_out (s\<lparr>rc_count := rc_count s + 1, rc_depth := (rc_depth s)(t := rc_depth s t + 1)\<rparr>))
   | _ \<Rightarrow> None)"

definition rec_unlock_step :: "(nat \<Rightarrow> 'b \<Rightarrow> 'b option) \<Rightarrow> ('b \<Rightarrow> nat \<Rightarrow> bool) \<Rightarrow> nat \<Rightarrow> 'b reclock \<Rightarrow> 'b reclock option" where
  "rec_unlock_step bstep idle t s = (case rc_pc s t of
     RC_uncount \<Rightarrow> (let c = rc_count s - 1 in
       Some (rec_goto t (if c = 0 then RC_clear else RC_out) (s\<lparr>rc_count := c, rc_depth := (rc_depth s)(t := rc_depth s t - 1)\<rparr>)))
   | RC_clear \<Rightarrow> Some (rec_goto t RC_unlock (s\<lparr>rc_user := - 1\<rparr>))
   | RC_unlock \<Rightarrow> (if idle (rc_base s) t then Some (rec_goto t RC_out s)
       else map_option (\<lambda>b. s\<lparr>rc_base := b\<rparr>) (bstep t (rc_base s)))
   | _ \<Rightarrow> None)"

text \<open>A thread may call lock and try-lock, up to a greatest depth, and unlock what it has.\<close>

inductive rec_run :: "(bool \<Rightarrow> nat \<Rightarrow> 'b \<Rightarrow> 'b) \<Rightarrow> (nat \<Rightarrow> 'b \<Rightarrow> 'b option) \<Rightarrow> ('b \<Rightarrow> nat \<Rightarrow> bool) \<Rightarrow> ('b \<Rightarrow> nat \<Rightarrow> bool) \<Rightarrow> 'b
    \<Rightarrow> nat \<Rightarrow> nat \<Rightarrow> 'b reclock \<Rightarrow> bool" for begin_call bstep held idle b N most where
  start: "rec_run begin_call bstep held idle b N most (rec_init b)"
| lock: "rec_run begin_call bstep held idle b N most s \<Longrightarrow> t < N \<Longrightarrow> rc_pc s t = RC_out \<Longrightarrow> rc_depth s t < most \<Longrightarrow>
    rec_run begin_call bstep held idle b N most (rec_goto t (RC_load try_it) s)"
| unlock: "rec_run begin_call bstep held idle b N most s \<Longrightarrow> rc_pc s t = RC_out \<Longrightarrow> 0 < rc_depth s t \<Longrightarrow>
    rec_run begin_call bstep held idle b N most (rec_goto t RC_uncount s)"
| lock_step: "rec_run begin_call bstep held idle b N most s \<Longrightarrow> rec_lock_step begin_call bstep held idle t s = Some s' \<Longrightarrow>
    rec_run begin_call bstep held idle b N most s'"
| unlock_step: "rec_run begin_call bstep held idle b N most s \<Longrightarrow> rec_unlock_step bstep idle t s = Some s' \<Longrightarrow>
    rec_run begin_call bstep held idle b N most s'"

section \<open>The contract of the lock below\<close>

text \<open>\<open>owned\<close> covers the time from getting the lock to giving it back. One thread owns it at a time; a thread's
  steps leave the place of the others alone; a locking thread gets it whole, and a releasing one goes on to
  be idle.\<close>

locale mutex =
  fixes begin_call :: "bool \<Rightarrow> nat \<Rightarrow> 'b \<Rightarrow> 'b" and bstep :: "nat \<Rightarrow> 'b \<Rightarrow> 'b option"
    and held :: "'b \<Rightarrow> nat \<Rightarrow> bool" and owned :: "'b \<Rightarrow> nat \<Rightarrow> bool" and idle :: "'b \<Rightarrow> nat \<Rightarrow> bool"
    and inv :: "'b \<Rightarrow> bool" and b0 :: 'b and N :: nat
  assumes init: "inv b0" "idle b0 t"
    and exclusive: "inv b \<Longrightarrow> owned b t \<Longrightarrow> owned b u \<Longrightarrow> t = u"
    and held_owned: "held b t \<Longrightarrow> owned b t" and idle_free: "idle b t \<Longrightarrow> \<not> owned b t"
    and call_inv: "inv b \<Longrightarrow> idle b t \<Longrightarrow> t < N \<Longrightarrow> inv (begin_call try_it t b)"
    and call_self: "idle b t \<Longrightarrow> \<not> owned (begin_call try_it t b) t"
    and call_other: "u \<noteq> t \<Longrightarrow> (held (begin_call try_it t b) u = held b u) \<and> (owned (begin_call try_it t b) u = owned b u) \<and> (idle (begin_call try_it t b) u = idle b u)"
    and step_inv: "inv b \<Longrightarrow> bstep t b = Some b' \<Longrightarrow> inv b'"
    and step_other: "bstep t b = Some b' \<Longrightarrow> u \<noteq> t \<Longrightarrow> (held b' u = held b u) \<and> (owned b' u = owned b u) \<and> (idle b' u = idle b u)"
    and step_lock: "bstep t b = Some b' \<Longrightarrow> \<not> owned b t \<Longrightarrow> owned b' t \<Longrightarrow> held b' t"
    and step_unlock: "bstep t b = Some b' \<Longrightarrow> owned b t \<Longrightarrow> owned b' t \<or> idle b' t"
begin

text \<open>On the way to counting once more.\<close>

definition counting :: "rec_pc \<Rightarrow> bool" where
  "counting pc \<longleftrightarrow> (case pc of RC_load _ \<Rightarrow> True | RC_base _ \<Rightarrow> True | RC_user \<Rightarrow> True | RC_count \<Rightarrow> True | _ \<Rightarrow> False)"

text \<open>Who has the recursive lock owns the one below, is its user, and has counted its depth.\<close>

definition rec_ok :: "'b reclock \<Rightarrow> nat \<Rightarrow> bool" where
  "rec_ok s t \<longleftrightarrow> (case rc_pc s t of
     RC_out \<Rightarrow> (if rc_depth s t = 0 then idle (rc_base s) t else held (rc_base s) t \<and> rc_user s = int t)
   | RC_load _ \<Rightarrow> (if rc_depth s t = 0 then idle (rc_base s) t else held (rc_base s) t \<and> rc_user s = int t)
   | RC_base _ \<Rightarrow> rc_depth s t = 0 \<and> (owned (rc_base s) t \<longrightarrow> held (rc_base s) t)
   | RC_user \<Rightarrow> rc_depth s t = 0 \<and> held (rc_base s) t
   | RC_count \<Rightarrow> held (rc_base s) t \<and> rc_user s = int t
   | RC_uncount \<Rightarrow> 0 < rc_depth s t \<and> held (rc_base s) t \<and> rc_user s = int t
   | RC_clear \<Rightarrow> rc_depth s t = 0 \<and> held (rc_base s) t \<and> rc_user s = int t
   | RC_unlock \<Rightarrow> rc_depth s t = 0 \<and> rc_user s \<noteq> int t \<and> (owned (rc_base s) t \<or> idle (rc_base s) t))"

definition rec_inv :: "nat \<Rightarrow> 'b reclock \<Rightarrow> bool" where
  "rec_inv most s \<longleftrightarrow> inv (rc_base s) \<and> (\<forall>t. rec_ok s t)
     \<and> (\<forall>t. rc_user s = int t \<longrightarrow> owned (rc_base s) t)
     \<and> (\<forall>t. owned (rc_base s) t \<longrightarrow> rc_count s = of_nat (rc_depth s t))
     \<and> ((\<forall>t. \<not> owned (rc_base s) t) \<longrightarrow> rc_count s = 0)
     \<and> (\<forall>t. (counting (rc_pc s t) \<longrightarrow> rc_depth s t < most) \<and> rc_depth s t \<le> most)
     \<and> (\<forall>t. rc_pc s t = RC_out \<and> rc_depth s t = 0 \<or> t < N)"

lemma rec_invD:
  assumes "rec_inv most s"
  shows "inv (rc_base s)" "rec_ok s t" "rc_user s = int t \<Longrightarrow> owned (rc_base s) t"
    "owned (rc_base s) t \<Longrightarrow> rc_count s = of_nat (rc_depth s t)" "(\<And>t. \<not> owned (rc_base s) t) \<Longrightarrow> rc_count s = 0"
    "counting (rc_pc s t) \<Longrightarrow> rc_depth s t < most" "rc_depth s t \<le> most" "rc_pc s t = RC_out \<and> rc_depth s t = 0 \<or> t < N"
  using assms by (auto simp: rec_inv_def)

lemma rec_invI:
  assumes "inv (rc_base s)" "\<And>t. rec_ok s t" "\<And>t. rc_user s = int t \<Longrightarrow> owned (rc_base s) t"
    "\<And>t. owned (rc_base s) t \<Longrightarrow> rc_count s = of_nat (rc_depth s t)" "(\<And>t. \<not> owned (rc_base s) t) \<Longrightarrow> rc_count s = 0"
    "\<And>t. counting (rc_pc s t) \<Longrightarrow> rc_depth s t < most" "\<And>t. rc_depth s t \<le> most"
    "\<And>t. rc_pc s t = RC_out \<and> rc_depth s t = 0 \<or> t < N"
  shows "rec_inv most s"
  using assms unfolding rec_inv_def by blast

lemma rec_ok_other:
  assumes "rec_ok s u" "rc_pc s' u = rc_pc s u" "rc_depth s' u = rc_depth s u"
    "held (rc_base s') u = held (rc_base s) u \<and> owned (rc_base s') u = owned (rc_base s) u \<and> idle (rc_base s') u = idle (rc_base s) u"
    "rc_user s' = rc_user s \<or> rc_user s' \<noteq> int u \<and> \<not> owned (rc_base s) u"
  shows "rec_ok s' u"
proof -
  have "\<not> held (rc_base s) u" if "\<not> owned (rc_base s) u" using held_owned that by blast
  then show ?thesis using assms by (cases "rc_pc s u") (auto simp: rec_ok_def split: if_splits)
qed

text \<open>A thread moves on, above an unchanged lock.\<close>

lemma rec_inv_goto:
  assumes inv: "rec_inv most s" and ok: "rec_ok (rec_goto t pc s) t" and tN: "t < N"
    and "counting pc \<Longrightarrow> rc_depth s t < most"
  shows "rec_inv most (rec_goto t pc s)"
proof -
  note d = rec_invD [OF inv]
  have "rec_ok (rec_goto t pc s) u" for u
    using ok rec_ok_other [OF d(2) [of u], of "rec_goto t pc s"] by (cases "u = t") (auto simp: rec_goto_def)
  then show ?thesis
    by (rule rec_invI [rotated]) (use d tN assms(4) in \<open>auto simp: rec_goto_def split: if_splits\<close>)
qed

text \<open>Who owns the lock changes user and count; nobody else notices.\<close>

lemma rec_inv_owner:
  assumes inv: "rec_inv most s" and own: "owned (rc_base s) t" and tN: "t < N"
    and user: "user = int t \<or> user = - 1" and c: "c = of_nat n" "n \<le> most" "counting pc \<Longrightarrow> n < most"
    and ok: "rec_ok (rec_goto t pc (s\<lparr>rc_user := user, rc_count := c, rc_depth := (rc_depth s)(t := n)\<rparr>)) t"
  shows "rec_inv most (rec_goto t pc (s\<lparr>rc_user := user, rc_count := c, rc_depth := (rc_depth s)(t := n)\<rparr>))"
    (is "rec_inv most ?s")
proof -
  note d = rec_invD [OF inv]
  have no: "\<not> owned (rc_base s) u" if "u \<noteq> t" for u using exclusive [OF d(1) own, of u] that by blast
  have a: "rec_ok ?s u" for u
    using ok rec_ok_other [OF d(2) [of u], of ?s] no [of u] user by (cases "u = t") (auto simp: rec_goto_def)
  have b: "owned (rc_base ?s) u" if "rc_user ?s = int u" for u using that user own by (auto simp: rec_goto_def)
  have e: "rc_count ?s = of_nat (rc_depth ?s u)" if "owned (rc_base ?s) u" for u
    using that no [of u] c(1) by (cases "u = t") (simp_all add: rec_goto_def)
  have f: "rc_count ?s = 0" if "\<And>u. \<not> owned (rc_base ?s) u" using that [of t] own by (simp add: rec_goto_def)
  show ?thesis
    by (rule rec_invI [OF _ a b e f]) (use d(1,6-8) c(2,3) tN in \<open>auto simp: rec_goto_def split: if_splits\<close>)
qed

text \<open>The lock below takes a step.\<close>

lemma rec_inv_base:
  assumes inv: "rec_inv most s" and b: "inv b'"
    and other: "\<And>u. u \<noteq> t \<Longrightarrow> (held b' u = held (rc_base s) u) \<and> (owned b' u = owned (rc_base s) u) \<and> (idle b' u = idle (rc_base s) u)"
    and ok: "rec_ok (rec_goto t pc (s\<lparr>rc_base := b'\<rparr>)) t" and pc: "counting pc \<Longrightarrow> counting (rc_pc s t)"
    and u: "rc_user s \<noteq> int t" and n: "rc_depth s t = 0" and tN: "t < N"
  shows "rec_inv most (rec_goto t pc (s\<lparr>rc_base := b'\<rparr>))" (is "rec_inv most ?s")
proof -
  note d = rec_invD [OF inv]
  have free: "rc_count s = 0" if "\<And>w. w \<noteq> t \<Longrightarrow> \<not> owned (rc_base s) w"
  proof (cases "owned (rc_base s) t")
    case True
    then show ?thesis using d(4) [OF True] n by simp
  next
    case False
    then have "\<not> owned (rc_base s) w" for w using that by (cases "w = t") simp_all
    then show ?thesis by (rule d(5))
  qed
  have a: "rec_ok ?s v" for v
    using ok rec_ok_other [OF d(2) [of v], of ?s] other [of v] by (cases "v = t") (auto simp: rec_goto_def)
  have c: "owned (rc_base ?s) v" if "rc_user ?s = int v" for v
    using that d(3) [of v] other [of v] u by (cases "v = t") (auto simp: rec_goto_def)
  have e: "rc_count ?s = of_nat (rc_depth ?s v)" if "owned (rc_base ?s) v" for v
  proof (cases "v = t")
    case True
    have v: "owned b' v" using that by (simp add: rec_goto_def)
    have "\<not> owned (rc_base s) w" if "w \<noteq> t" for w using exclusive [OF b v, of w] True that other [of w] by blast
    then show ?thesis using free True n by (simp add: rec_goto_def)
  next
    case False
    then show ?thesis using that d(4) [of v] other [of v] by (simp add: rec_goto_def)
  qed
  have f: "rc_count ?s = 0" if none: "\<And>v. \<not> owned (rc_base ?s) v"
  proof -
    have "\<not> owned (rc_base s) w" if "w \<noteq> t" for w using none [of w] other [of w] that by (simp add: rec_goto_def)
    then show ?thesis using free by (simp add: rec_goto_def)
  qed
  show ?thesis
    by (rule rec_invI [OF _ a c e f]) (use b d(6-8) pc tN in \<open>auto simp: rec_goto_def split: if_splits\<close>)
qed

lemma rec_lock_step_inv:
  assumes inv: "rec_inv most s" and st: "rec_lock_step begin_call bstep held idle t s = Some s'"
  shows "rec_inv most s'"
proof -
  note d = rec_invD [OF inv]
  have tN: "t < N" using st d(8) [of t] by (auto simp: rec_lock_step_def)
  show ?thesis
  proof (cases "rc_pc s t")
    case (RC_load b)
    have cnt: "rc_depth s t < most" using d(6) [of t] RC_load by (simp add: counting_def)
    show ?thesis
    proof (cases "rc_user s = int t")
      case True
      then have "owned (rc_base s) t" by (rule d(3))
      then have h: "held (rc_base s) t" using d(2) [of t] RC_load idle_free by (auto simp: rec_ok_def split: if_splits)
      have "rec_inv most (rec_goto t RC_count s)"
        by (rule rec_inv_goto [OF inv _ tN cnt]) (use h True in \<open>simp add: rec_ok_def rec_goto_def\<close>)
      then show ?thesis using True st RC_load by (simp add: rec_lock_step_def)
    next
      case False
      then have i: "idle (rc_base s) t" "rc_depth s t = 0" using d(2) [of t] RC_load by (auto simp: rec_ok_def split: if_splits)
      have "rec_inv most (rec_goto t (RC_base b) (s\<lparr>rc_base := begin_call b t (rc_base s)\<rparr>))"
        by (rule rec_inv_base [OF inv call_inv [OF d(1) i(1) tN] call_other _ _ False i(2) tN])
          (use i call_self [OF i(1)] RC_load in \<open>simp_all add: rec_ok_def rec_goto_def counting_def\<close>)
      then show ?thesis using False st RC_load by (simp add: rec_lock_step_def)
    qed
  next
    case (RC_base b)
    have cnt: "rc_depth s t < most" using d(6) [of t] RC_base by (simp add: counting_def)
    consider (got) "held (rc_base s) t" | (not) "\<not> held (rc_base s) t" "b" "idle (rc_base s) t"
      | (on) "\<not> held (rc_base s) t" "\<not> (b \<and> idle (rc_base s) t)" by blast
    then show ?thesis
    proof cases
      case got
      have "rec_inv most (rec_goto t RC_user s)"
        by (rule rec_inv_goto [OF inv _ tN cnt]) (use got d(2) [of t] RC_base in \<open>simp add: rec_ok_def rec_goto_def\<close>)
      then show ?thesis using got st RC_base by (simp add: rec_lock_step_def)
    next
      case not
      have "rec_inv most (rec_goto t RC_out s)"
        by (rule rec_inv_goto [OF inv _ tN cnt]) (use not d(2) [of t] RC_base in \<open>simp add: rec_ok_def rec_goto_def\<close>)
      then show ?thesis using not st RC_base by (simp add: rec_lock_step_def)
    next
      case on
      then obtain b' where b': "bstep t (rc_base s) = Some b'" "s' = s\<lparr>rc_base := b'\<rparr>" using st RC_base by (auto simp: rec_lock_step_def)
      have no: "\<not> owned (rc_base s) t" "rc_depth s t = 0" using on d(2) [of t] RC_base by (auto simp: rec_ok_def)
      have us: "rc_user s \<noteq> int t" using no(1) d(3) by blast
      have "rec_inv most (rec_goto t (RC_base b) (s\<lparr>rc_base := b'\<rparr>))"
        by (rule rec_inv_base [OF inv step_inv [OF d(1) b'(1)] step_other [OF b'(1)] _ _ us no(2) tN])
          (use no step_lock [OF b'(1) no(1)] RC_base in \<open>simp_all add: rec_ok_def rec_goto_def counting_def\<close>)
      moreover have "rec_goto t (RC_base b) (s\<lparr>rc_base := b'\<rparr>) = s'" using RC_base b'(2) by (simp add: rec_goto_def fun_upd_idem)
      ultimately show ?thesis by simp
    qed
  next
    case RC_user
    then have h: "held (rc_base s) t" "rc_depth s t = 0" using d(2) [of t] by (simp_all add: rec_ok_def)
    have c: "rc_count s = of_nat (rc_depth s t)" using d(4) held_owned h(1) by blast
    have "rec_inv most (rec_goto t RC_count (s\<lparr>rc_user := int t, rc_count := rc_count s, rc_depth := (rc_depth s)(t := rc_depth s t)\<rparr>))"
      by (rule rec_inv_owner [OF inv held_owned [OF h(1)] tN _ c])
        (use h d(6,7) [of t] RC_user in \<open>simp_all add: rec_ok_def rec_goto_def counting_def\<close>)
    then show ?thesis using st RC_user by (simp add: rec_lock_step_def)
  next
    case RC_count
    then have h: "held (rc_base s) t" "rc_user s = int t" using d(2) [of t] by (simp_all add: rec_ok_def)
    have c: "rc_count s = of_nat (rc_depth s t)" using d(4) held_owned h(1) by blast
    have "rec_inv most (rec_goto t RC_out (s\<lparr>rc_user := rc_user s, rc_count := rc_count s + 1, rc_depth := (rc_depth s)(t := rc_depth s t + 1)\<rparr>))"
      by (rule rec_inv_owner [OF inv held_owned [OF h(1)] tN])
        (use h c d(6) [of t] RC_count in \<open>simp_all add: rec_ok_def rec_goto_def Suc_le_eq counting_def\<close>)
    then show ?thesis using st RC_count by (simp add: rec_lock_step_def)
  qed (use st in \<open>simp_all add: rec_lock_step_def\<close>)
qed

lemma rec_unlock_step_inv:
  assumes inv: "rec_inv most s" and most: "most < 2 ^ 32" and st: "rec_unlock_step bstep idle t s = Some s'"
  shows "rec_inv most s'"
proof -
  note d = rec_invD [OF inv]
  have tN: "t < N" using st d(8) [of t] by (auto simp: rec_unlock_step_def)
  show ?thesis
  proof (cases "rc_pc s t")
    case RC_uncount
    then have h: "held (rc_base s) t" "rc_user s = int t" "0 < rc_depth s t" using d(2) [of t] by (simp_all add: rec_ok_def)
    obtain n where n: "rc_depth s t = Suc n" using h(3) by (cases "rc_depth s t") simp_all
    have c: "rc_count s - 1 = of_nat n" using d(4) held_owned h(1) n by fastforce
    have "n < 2 ^ 32" using d(7) [of t] n most by simp
    then have z: "(of_nat n :: u32) = 0 \<longleftrightarrow> n = 0" by (auto simp: word_of_nat_eq_0_iff dest: dvd_imp_le)
    have "rec_inv most (rec_goto t (if n = 0 then RC_clear else RC_out)
        (s\<lparr>rc_user := rc_user s, rc_count := rc_count s - 1, rc_depth := (rc_depth s)(t := n)\<rparr>))"
      by (rule rec_inv_owner [OF inv held_owned [OF h(1)] tN _ c])
        (use h d(7) [of t] n in \<open>simp_all add: rec_ok_def rec_goto_def counting_def\<close>)
    then show ?thesis using st RC_uncount z n by (simp add: rec_unlock_step_def Let_def c)
  next
    case RC_clear
    then have h: "held (rc_base s) t" "rc_user s = int t" "rc_depth s t = 0" using d(2) [of t] by (simp_all add: rec_ok_def)
    have c: "rc_count s = of_nat (rc_depth s t)" using d(4) held_owned h(1) by blast
    have "rec_inv most (rec_goto t RC_unlock (s\<lparr>rc_user := - 1, rc_count := rc_count s, rc_depth := (rc_depth s)(t := rc_depth s t)\<rparr>))"
      by (rule rec_inv_owner [OF inv held_owned [OF h(1)] tN _ c])
        (use h held_owned in \<open>simp_all add: rec_ok_def rec_goto_def counting_def\<close>)
    then show ?thesis using st RC_clear by (simp add: rec_unlock_step_def)
  next
    case RC_unlock
    then have h: "rc_depth s t = 0" "rc_user s \<noteq> int t" "owned (rc_base s) t \<or> idle (rc_base s) t" using d(2) [of t] by (simp_all add: rec_ok_def)
    show ?thesis
    proof (cases "idle (rc_base s) t")
      case True
      have "rec_inv most (rec_goto t RC_out s)"
        by (rule rec_inv_goto [OF inv _ tN]) (use True h in \<open>simp_all add: rec_ok_def rec_goto_def counting_def\<close>)
      then show ?thesis using True st RC_unlock by (simp add: rec_unlock_step_def)
    next
      case False
      then obtain b' where b': "bstep t (rc_base s) = Some b'" "s' = s\<lparr>rc_base := b'\<rparr>" using st RC_unlock by (auto simp: rec_unlock_step_def)
      have "rec_inv most (rec_goto t RC_unlock (s\<lparr>rc_base := b'\<rparr>))"
        by (rule rec_inv_base [OF inv step_inv [OF d(1) b'(1)] step_other [OF b'(1)] _ _ h(2,1) tN])
          (use h False step_unlock [OF b'(1)] in \<open>simp_all add: rec_ok_def rec_goto_def counting_def\<close>)
      moreover have "rec_goto t RC_unlock (s\<lparr>rc_base := b'\<rparr>) = s'" using RC_unlock b'(2) by (simp add: rec_goto_def fun_upd_idem)
      ultimately show ?thesis by simp
    qed
  qed (use st in \<open>simp_all add: rec_unlock_step_def\<close>)
qed

lemma rec_run_inv:
  assumes "rec_run begin_call bstep held idle b0 N most s" "most < 2 ^ 32"
  shows "rec_inv most s"
  using assms(1)
proof (induction rule: rec_run.induct)
  case start
  have "\<not> owned b0 t" for t using init(2) idle_free by blast
  then show ?case using init by (simp add: rec_inv_def rec_init_def rec_ok_def counting_def)
next
  case (lock s t try_it)
  show ?case using rec_invD(2) [OF lock.IH, of t] lock.hyps
    by (intro rec_inv_goto [OF lock.IH]) (simp_all add: rec_ok_def rec_goto_def split: if_splits)
next
  case (unlock s t)
  have o: "held (rc_base s) t" "rc_user s = int t" using rec_invD(2) [OF unlock.IH, of t] unlock.hyps by (simp_all add: rec_ok_def)
  have "t < N" using rec_invD(8) [OF unlock.IH, of t] unlock.hyps by simp
  then show ?case using o unlock.hyps by (intro rec_inv_goto [OF unlock.IH]) (simp_all add: rec_ok_def rec_goto_def counting_def)
next
  case (lock_step s t s')
  then show ?case using rec_lock_step_inv by blast
next
  case (unlock_step s t s')
  then show ?case using rec_unlock_step_inv assms(2) by blast
qed

text \<open>At most one thread has the recursive lock; it owns the one below, and another thread has neither.\<close>

lemma recursive_exclusive:
  assumes "rec_run begin_call bstep held idle b0 N most s" "most < 2 ^ 32"
  shows "(0 < rc_depth s t \<and> 0 < rc_depth s u \<longrightarrow> t = u)
    \<and> (0 < rc_depth s t \<longrightarrow> held (rc_base s) t \<and> rc_user s = int t \<and> unat (rc_count s) = rc_depth s t)
    \<and> (rc_pc s t = RC_out \<and> rc_depth s t = 0 \<longrightarrow> idle (rc_base s) t)
    \<and> (rc_pc s t \<in> {RC_count, RC_uncount} \<longrightarrow> owned (rc_base s) t)"
proof -
  have inv: "rec_inv most s" by (rule rec_run_inv [OF assms])
  note d = rec_invD [OF inv]
  have h: "held (rc_base s) t" "rc_user s = int t" if "0 < rc_depth s t" for t
    using that d(2) [of t] by (auto simp: rec_ok_def split: rec_pc.splits if_splits)
  have "t = u" if "0 < rc_depth s t" "0 < rc_depth s u" using h(2) [OF that(1)] h(2) [OF that(2)] by simp
  moreover have "unat (rc_count s) = rc_depth s t" if "0 < rc_depth s t"
  proof -
    have "rc_count s = of_nat (rc_depth s t)" using d(4) held_owned h(1) [OF that] by blast
    moreover have "rc_depth s t < 2 ^ 32" using d(7) [of t] assms(2) by simp
    ultimately show ?thesis by (simp add: unat_of_nat)
  qed
  moreover have "idle (rc_base s) t" if "rc_pc s t = RC_out" "rc_depth s t = 0" using that d(2) [of t] by (simp add: rec_ok_def)
  moreover have "owned (rc_base s) t" if "rc_pc s t \<in> {RC_count, RC_uncount}"
    using that d(2) [of t] held_owned by (auto simp: rec_ok_def)
  ultimately show ?thesis using h by blast
qed

end

section \<open>The spin lock keeps the contract\<close>

definition spin_inv :: "nat \<Rightarrow> spinlock \<Rightarrow> bool" where
  "spin_inv N s \<longleftrightarrow> sp_locked s = 1 \<and> (\<exists>h. \<forall>t. sp_pc s t = S_hold \<longleftrightarrow> t = h) \<or> sp_locked s = 0 \<and> (\<forall>t. sp_pc s t \<noteq> S_hold)"

text \<open>A step of a thread, whatever call it is in, and the begin of a call.\<close>

definition spin_step :: "nat \<Rightarrow> spinlock \<Rightarrow> spinlock option" where
  "spin_step t s = (case sp_pc s t of
     S_hold \<Rightarrow> rte_spinlock_unlock t s | S_try \<Rightarrow> rte_spinlock_trylock t s | _ \<Rightarrow> rte_spinlock_lock t s)"

definition spin_begin :: "bool \<Rightarrow> nat \<Rightarrow> spinlock \<Rightarrow> spinlock" where
  "spin_begin try_it t s = spin_goto t (if try_it then S_try else S_swap) s"

definition spin_held :: "spinlock \<Rightarrow> nat \<Rightarrow> bool" where
  "spin_held s t \<longleftrightarrow> sp_pc s t = S_hold"

definition spin_idle :: "spinlock \<Rightarrow> nat \<Rightarrow> bool" where
  "spin_idle s t \<longleftrightarrow> sp_pc s t = S_idle"

lemmas spin_defs = spin_step_def spin_begin_def spin_held_def spin_idle_def spin_goto_def rte_spinlock_lock_def rte_spinlock_unlock_def
  rte_spinlock_trylock_def

lemma spin_inv_goto:
  assumes "spin_inv N s" "sp_pc s t \<noteq> S_hold" "pc \<noteq> S_hold"
  shows "spin_inv N (spin_goto t pc s)"
proof -
  have "(sp_pc (spin_goto t pc s) u = S_hold) = (sp_pc s u = S_hold)" for u using assms(2,3) by (simp add: spin_goto_def)
  then show ?thesis using assms(1) by (simp add: spin_inv_def) (simp add: spin_goto_def)
qed

lemma spin_inv_step:
  assumes inv: "spin_inv N s" and st: "spin_step t s = Some s'"
  shows "spin_inv N s'"
proof (cases "sp_pc s t = S_hold \<or> sp_locked s = 0")
  case True
  then show ?thesis using assms by (cases "sp_pc s t") (auto simp: spin_inv_def spin_defs split: if_splits)
next
  case False
  then obtain pc where "s' = spin_goto t pc s" "pc \<noteq> S_hold"
    using st by (cases "sp_pc s t") (auto simp: spin_step_def rte_spinlock_lock_def rte_spinlock_trylock_def)
  then show ?thesis using spin_inv_goto [OF inv] False by blast
qed

interpretation spin: mutex spin_begin spin_step spin_held spin_held spin_idle "spin_inv N" rte_spinlock_init N for N
proof unfold_locales
  show "spin_inv N (spin_begin try_it t b)" if "spin_inv N b" "spin_idle b t" for try_it t b
    using spin_inv_goto [OF that(1), of t] that(2) by (simp add: spin_begin_def spin_idle_def)
next
  show "spin_inv N b'" if "spin_inv N b" "spin_step t b = Some b'" for b t b' using spin_inv_step that by blast
qed (auto simp: spin_inv_def spin_defs rte_spinlock_init_def split: spin_pc.splits if_splits)

section \<open>The ticket lock keeps the contract\<close>

definition ticket_begin :: "bool \<Rightarrow> nat \<Rightarrow> ticketlock \<Rightarrow> ticketlock" where
  "ticket_begin try_it t s = (if try_it then ticketlock_try_load t s else ticketlock_lock_take t s)"

definition ticket_held :: "ticketlock \<Rightarrow> nat \<Rightarrow> bool" where
  "ticket_held s t \<longleftrightarrow> (\<exists>g. tl_pc s t = T_hold g)"

definition ticket_idle :: "ticketlock \<Rightarrow> nat \<Rightarrow> bool" where
  "ticket_idle s t \<longleftrightarrow> tl_pc s t = T_idle"

lemmas ticket_defs = ticket_begin_def ticket_held_def ticket_idle_def in_section_def ticketlock_lock_take_def ticketlock_try_load_def
  ticket_step_def ticketlock_lock_wait_def ticketlock_unlock_load_def ticketlock_unlock_store_def ticketlock_try_swap_def

interpretation ticket: mutex ticket_begin ticket_step ticket_held in_section ticket_idle "ticket_inv (min N 65535)"
  rte_ticketlock_init "min N 65535" for N
proof unfold_locales
  show "ticket_inv (min N 65535) rte_ticketlock_init" using ticket_run_inv [OF ticket_run.start] by simp
next
  show "ticket_inv (min N 65535) (ticket_begin try_it t b)" if "ticket_inv (min N 65535) b" "ticket_idle b t" "t < min N 65535" for b t try_it
    using that ticket_issue [OF that(1), of t] ticket_goto [OF that(1), of _ t]
    by (auto simp: ticket_defs ticket_of_def ticket_ok_def)
next
  show "ticket_inv (min N 65535) b'" if "ticket_inv (min N 65535) b" "ticket_step t b = Some b'" for b t b'
    by (rule ticket_step_inv [OF that(1) _ that(2)]) simp
next
  show "t = u" if "ticket_inv (min N 65535) b" "in_section b t" "in_section b u" for b t u using ticket_section_unique that by blast
qed (auto simp: ticket_defs rte_ticketlock_init_def split: ticket_pc.splits if_splits)

section \<open>The properties\<close>

definition rte_spinlock_recursive_lock :: "nat \<Rightarrow> spinlock reclock \<Rightarrow> spinlock reclock option" where
  "rte_spinlock_recursive_lock = rec_lock_step spin_begin spin_step spin_held spin_idle"

definition rte_spinlock_recursive_unlock :: "nat \<Rightarrow> spinlock reclock \<Rightarrow> spinlock reclock option" where
  "rte_spinlock_recursive_unlock = rec_unlock_step spin_step spin_idle"

definition rte_ticketlock_recursive_lock :: "nat \<Rightarrow> ticketlock reclock \<Rightarrow> ticketlock reclock option" where
  "rte_ticketlock_recursive_lock = rec_lock_step ticket_begin ticket_step ticket_held ticket_idle"

definition rte_ticketlock_recursive_unlock :: "nat \<Rightarrow> ticketlock reclock \<Rightarrow> ticketlock reclock option" where
  "rte_ticketlock_recursive_unlock = rec_unlock_step ticket_step ticket_idle"

text \<open>With the word of the lock 0 or 1, exchanging and comparing do the same.\<close>

lemma x86_spinlock_same:
  assumes "spin_inv N s"
  shows "x86_spinlock_lock t s = rte_spinlock_lock t s" "x86_spinlock_trylock t s = rte_spinlock_trylock t s"
proof -
  have "sp_locked s \<noteq> 0 \<Longrightarrow> s\<lparr>sp_locked := 1\<rparr> = s" using assms by (auto simp: spin_inv_def)
  then show "x86_spinlock_lock t s = rte_spinlock_lock t s" "x86_spinlock_trylock t s = rte_spinlock_trylock t s"
    by (cases "sp_pc s t"; simp add: x86_spinlock_lock_def rte_spinlock_lock_def x86_spinlock_trylock_def rte_spinlock_trylock_def)+
qed

text \<open>C36. The recursive locks exclude. Over the spin lock and over the ticket lock, as long as no thread
  nests 2^31 calls: at most one thread has the lock at a time, however deep; it holds the lock below, is
  the recorded user and its depth is the count; a thread without it, outside all calls, has let go of the
  lock below; and only the owner ever touches the count.\<close>

theorem recursive_locks_exclude:
  assumes "most < 2 ^ 31"
  shows "(rec_run spin_begin spin_step spin_held spin_idle rte_spinlock_init N most r \<longrightarrow>
      (0 < rc_depth r t \<and> 0 < rc_depth r u \<longrightarrow> t = u)
      \<and> (0 < rc_depth r t \<longrightarrow> sp_pc (rc_base r) t = S_hold \<and> sp_locked (rc_base r) = 1 \<and> rc_user r = int t \<and> unat (rc_count r) = rc_depth r t)
      \<and> (rc_pc r t = RC_out \<and> rc_depth r t = 0 \<longrightarrow> sp_pc (rc_base r) t = S_idle)
      \<and> (rc_pc r t \<in> {RC_count, RC_uncount} \<longrightarrow> sp_pc (rc_base r) t = S_hold))
    \<and> (rec_run ticket_begin ticket_step ticket_held ticket_idle rte_ticketlock_init (min N 65535) most s \<longrightarrow>
      (0 < rc_depth s t \<and> 0 < rc_depth s u \<longrightarrow> t = u)
      \<and> (0 < rc_depth s t \<longrightarrow> ticket_held (rc_base s) t \<and> rc_user s = int t \<and> unat (rc_count s) = rc_depth s t)
      \<and> (rc_pc s t = RC_out \<and> rc_depth s t = 0 \<longrightarrow> tl_pc (rc_base s) t = T_idle)
      \<and> (rc_pc s t \<in> {RC_count, RC_uncount} \<longrightarrow> in_section (rc_base s) t))"
proof -
  have most: "most < 2 ^ 32" using assms by simp
  have "sp_locked (rc_base r) = 1"
    if "rec_run spin_begin spin_step spin_held spin_idle rte_spinlock_init N most r" "sp_pc (rc_base r) t = S_hold"
    using spin.rec_invD(1) [OF spin.rec_run_inv [OF that(1) most]] that(2) by (auto simp: spin_inv_def)
  then show ?thesis
    using spin.recursive_exclusive [of N most r t u, OF _ most] ticket.recursive_exclusive [of N most s t u, OF _ most]
    unfolding spin_held_def spin_idle_def ticket_idle_def by blast
qed

text \<open>A thread takes the recursive ticket lock twice, while another one waits for its ticket.\<close>

fun rec_steps :: "nat list \<Rightarrow> ticketlock reclock \<Rightarrow> ticketlock reclock option" where
  "rec_steps [] s = Some s"
| "rec_steps (t # ts) s = (case (if rc_pc s t = RC_out then (if rc_depth s t < 2 then Some (rec_goto t (RC_load False) s) else None)
     else rte_ticketlock_recursive_lock t s) of None \<Rightarrow> None | Some s' \<Rightarrow> rec_steps ts s')"

abbreviation (input) ticket_rec_run :: "ticketlock reclock \<Rightarrow> bool" where
  "ticket_rec_run \<equiv> rec_run ticket_begin ticket_step ticket_held ticket_idle rte_ticketlock_init (min 2 65535) 2"

lemma rec_steps_run:
  "ticket_rec_run s \<Longrightarrow> set ts \<subseteq> {0, 1} \<Longrightarrow> rec_steps ts s = Some s' \<Longrightarrow> ticket_rec_run s'"
proof (induction ts arbitrary: s)
  case (Cons t ts)
  obtain s1 where s1: "(if rc_pc s t = RC_out then (if rc_depth s t < 2 then Some (rec_goto t (RC_load False) s) else None)
     else rte_ticketlock_recursive_lock t s) = Some s1" "rec_steps ts s1 = Some s'"
    using Cons.prems(3) by (auto split: option.splits)
  have "ticket_rec_run s1"
  proof (cases "rc_pc s t = RC_out")
    case True
    then have "rc_depth s t < 2" "s1 = rec_goto t (RC_load False) s" using s1(1) by (auto split: if_splits)
    moreover have "t < min 2 65535" using Cons.prems(2) by auto
    ultimately show ?thesis using rec_run.lock [OF Cons.prems(1) _ True] by simp
  next
    case False
    then show ?thesis using s1(1) rec_run.lock_step [OF Cons.prems(1)] by (simp add: rte_ticketlock_recursive_lock_def)
  qed
  then show ?case using Cons.IH [OF _ _ s1(2)] Cons.prems(2) by simp
qed simp

theorem recursive_locks_exclude_witness:
  "\<exists>s. ticket_rec_run s \<and> rc_depth s 0 = 2 \<and> unat (rc_count s) = 2 \<and> tl_pc (rc_base s) 1 = T_wait 1 1 \<and> rc_depth s 1 = 0"
proof -
  obtain s where s: "rec_steps [0, 0, 0, 0, 0, 0, 0, 0, 0, 1, 1] (rec_init rte_ticketlock_init) = Some s"
    "rc_depth s 0 = 2" "tl_pc (rc_base s) 1 = T_wait 1 1"
    by (simp add: rte_ticketlock_recursive_lock_def rec_lock_step_def rec_init_def rec_goto_def ticket_defs rte_ticketlock_init_def)
  have r: "ticket_rec_run s" by (rule rec_steps_run [OF rec_run.start _ s(1)]) simp
  have p: "unat (rc_count s) = 2" "rc_depth s 1 = 0"
    using recursive_locks_exclude [of 2 2 undefined 0 1 s] r s(2) by auto
  show ?thesis using r s(2,3) p by blast
qed

end
