(* ===== verification/Rte_Ether.thy ===== *)
theory Rte_Ether
  imports Rte_Ip_Mbuf
begin

text \<open>
  Ethernet addresses and VLAN tags of rte\_ether.h. An address is its six bytes, which the code reads as
  three 16-bit words where it looks at all of them. Inserting and stripping a tag move the two addresses
  of the frame inside the buffer of the mbuf.
\<close>

unbundle bit_operations_syntax

section \<open>Addresses\<close>

datatype rte_ether_addr = Ether_addr u8 u8 u8 u8 u8 u8

fun addr_bytes :: "rte_ether_addr \<Rightarrow> u8 list" where
  "addr_bytes (Ether_addr b0 b1 b2 b3 b4 b5) = [b0, b1, b2, b3, b4, b5]"

text \<open>The words \<open>w[i]\<close> of the view as an array of 16-bit values.\<close>

definition addr_word :: "rte_ether_addr \<Rightarrow> nat \<Rightarrow> u16" where
  "addr_word ea i = bytes_u16 (addr_bytes ea ! (2 * i)) (addr_bytes ea ! (2 * i + 1))"

abbreviation (input) RTE_ETHER_LOCAL_ADMIN_ADDR :: u8 where "RTE_ETHER_LOCAL_ADMIN_ADDR \<equiv> 0x02"
abbreviation (input) RTE_ETHER_GROUP_ADDR :: u8 where "RTE_ETHER_GROUP_ADDR \<equiv> 0x01"

definition rte_is_same_ether_addr :: "rte_ether_addr \<Rightarrow> rte_ether_addr \<Rightarrow> bool" where
  "rte_is_same_ether_addr ea1 ea2 \<longleftrightarrow>
     ((addr_word ea1 0 XOR addr_word ea2 0) OR (addr_word ea1 1 XOR addr_word ea2 1) OR (addr_word ea1 2 XOR addr_word ea2 2)) = 0"

definition rte_is_zero_ether_addr :: "rte_ether_addr \<Rightarrow> bool" where
  "rte_is_zero_ether_addr ea \<longleftrightarrow> (addr_word ea 0 OR addr_word ea 1 OR addr_word ea 2) = 0"

definition rte_is_unicast_ether_addr :: "rte_ether_addr \<Rightarrow> bool" where
  "rte_is_unicast_ether_addr ea \<longleftrightarrow> (addr_bytes ea ! 0 AND RTE_ETHER_GROUP_ADDR) = 0"

definition rte_is_multicast_ether_addr :: "rte_ether_addr \<Rightarrow> int" where
  "rte_is_multicast_ether_addr ea = uint (addr_bytes ea ! 0 AND RTE_ETHER_GROUP_ADDR)"

definition rte_is_broadcast_ether_addr :: "rte_ether_addr \<Rightarrow> bool" where
  "rte_is_broadcast_ether_addr ea \<longleftrightarrow> (addr_word ea 0 AND addr_word ea 1 AND addr_word ea 2) = 0xFFFF"

definition rte_is_universal_ether_addr :: "rte_ether_addr \<Rightarrow> bool" where
  "rte_is_universal_ether_addr ea \<longleftrightarrow> (addr_bytes ea ! 0 AND RTE_ETHER_LOCAL_ADMIN_ADDR) = 0"

definition rte_is_local_admin_ether_addr :: "rte_ether_addr \<Rightarrow> bool" where
  "rte_is_local_admin_ether_addr ea \<longleftrightarrow> (addr_bytes ea ! 0 AND RTE_ETHER_LOCAL_ADMIN_ADDR) \<noteq> 0"

definition rte_is_valid_assigned_ether_addr :: "rte_ether_addr \<Rightarrow> bool" where
  "rte_is_valid_assigned_ether_addr ea \<longleftrightarrow> rte_is_unicast_ether_addr ea \<and> \<not> rte_is_zero_ether_addr ea"

section \<open>VLAN tags\<close>

abbreviation (input) ENOSPC :: int where "ENOSPC \<equiv> 28"
abbreviation (input) RTE_ETHER_TYPE_VLAN :: u16 where "RTE_ETHER_TYPE_VLAN \<equiv> 0x8100"
abbreviation (input) RTE_MBUF_F_RX_VLAN :: u64 where "RTE_MBUF_F_RX_VLAN \<equiv> push_bit 0 1"
abbreviation (input) RTE_MBUF_F_RX_VLAN_STRIPPED :: u64 where "RTE_MBUF_F_RX_VLAN_STRIPPED \<equiv> push_bit 6 1"

text \<open>Loading and storing a 16-bit value at an address, and assigning to a bit field of \<open>n\<close> bits.\<close>

definition load_half :: "u64 \<Rightarrow> 'd heap \<Rightarrow> u16 option" where
  "load_half a h = do {b0 \<leftarrow> h_byte h a; b1 \<leftarrow> h_byte h (a + 1); Some (bytes_u16 b0 b1)}"

definition store_half :: "u64 \<Rightarrow> u16 \<Rightarrow> 'd heap \<Rightarrow> 'd heap option" where
  "store_half a v = store_bytes a (u16_bytes v)"

definition memmove :: "u64 \<Rightarrow> u64 \<Rightarrow> nat \<Rightarrow> 'd heap \<Rightarrow> 'd heap option" where
  "memmove dst src n h = do {bs \<leftarrow> load_bytes src n h; if dst = NULL then None else store_bytes dst bs h}"

definition set_field :: "nat \<Rightarrow> nat \<Rightarrow> u64 \<Rightarrow> u64 \<Rightarrow> u64" where
  "set_field ofs n v w = (w AND NOT (push_bit ofs (mask n))) OR push_bit ofs (take_bit n v)"

definition rte_vlan_strip :: "u64 \<Rightarrow> 'd heap \<Rightarrow> (int \<times> 'd heap) option" where
  "rte_vlan_strip m h = do {
     b \<leftarrow> h_mbuf h m;
     let eh = rte_pktmbuf_mtod_offset b 0;
     ether_type \<leftarrow> load_half (eh + 12) h;
     if ether_type \<noteq> rte_bswap16 RTE_ETHER_TYPE_VLAN then Some (- 1, h)
     else do {
       let vh = eh + 14;
       let b = b\<lparr>mb_ol_flags := mb_ol_flags b OR (RTE_MBUF_F_RX_VLAN OR RTE_MBUF_F_RX_VLAN_STRIPPED)\<rparr>;
       tci \<leftarrow> load_half vh h;
       let b = b\<lparr>mb_vlan_tci := rte_bswap16 tci\<rparr>;
       let (dst, b) = rte_pktmbuf_adj b 4;
       h \<leftarrow> mbuf_upd (\<lambda>_. b) m h;
       h \<leftarrow> memmove dst eh 12 h;
       Some (0, h)
     }
   }"

definition rte_vlan_insert :: "u64 \<Rightarrow> 'd heap \<Rightarrow> (int \<times> 'd heap) option" where
  "rte_vlan_insert m h = do {
     b \<leftarrow> h_mbuf h m;
     if \<not> RTE_MBUF_DIRECT b \<or> rte_mbuf_refcnt_read b > 1 then Some (- EINVAL, h)
     else if mb_data_len b < 12 then Some (- EINVAL, h)
     else do {
       let oh = rte_pktmbuf_mtod_offset b 0;
       let (nh, b) = rte_pktmbuf_prepend b 4;
       if nh = NULL then Some (- ENOSPC, h)
       else do {
         h \<leftarrow> mbuf_upd (\<lambda>_. b) m h;
         h \<leftarrow> memmove nh oh 12 h;
         h \<leftarrow> store_half (nh + 12) (rte_bswap16 RTE_ETHER_TYPE_VLAN) h;
         let vh = nh + 14;
         h \<leftarrow> store_half vh (rte_bswap16 (mb_vlan_tci b)) h;
         let b = b\<lparr>mb_ol_flags := mb_ol_flags b AND NOT (RTE_MBUF_F_RX_VLAN_STRIPPED OR RTE_MBUF_F_TX_VLAN)\<rparr>;
         let w = mb_tx_offload b;
         let b = (if mb_ol_flags b AND RTE_MBUF_F_TX_TUNNEL_MASK \<noteq> 0
           then b\<lparr>mb_tx_offload := set_field RTE_MBUF_OUTL2_LEN_OFS 7 (tx_outer_l2_len w + 4) w\<rparr>
           else b\<lparr>mb_tx_offload := set_field RTE_MBUF_L2_LEN_OFS 7 (tx_l2_len w + 4) w\<rparr>);
         h \<leftarrow> mbuf_upd (\<lambda>_. b) m h;
         Some (0, h)
       }
     }
   }"

section \<open>Addresses: results\<close>

lemma bytes_u16_eq_iff: "bytes_u16 a b = bytes_u16 c d \<longleftrightarrow> a = c \<and> b = d"
proof -
  have "x + 256 * y = z + 256 * w \<longleftrightarrow> x = z \<and> y = w" if "x < 256" "z < 256" for x y z w :: nat
    using that by (cases y w rule: linorder_cases) auto
  then have "unat a + 256 * unat b = unat c + 256 * unat d \<longleftrightarrow> unat a = unat c \<and> unat b = unat d"
    using unsigned_less [of a] unsigned_less [of c] by simp
  then show ?thesis by (simp add: word_unat_eq_iff unat_bytes_u16)
qed

lemma bytes_u16_zero: "bytes_u16 0 0 = 0" "bytes_u16 255 255 = 0xFFFF"
  by (simp_all add: bytes_u16_def)

text \<open>Each predicate tells what its name says: the same six bytes, all zero, all ones; a group address is not
  unicast, a local one not universal; and a valid address is a unicast one that is not zero.\<close>

lemma ether_addr_classes:
  "rte_is_same_ether_addr ea ea' \<longleftrightarrow> ea = ea'"
  "rte_is_zero_ether_addr ea \<longleftrightarrow> ea = Ether_addr 0 0 0 0 0 0"
  "rte_is_broadcast_ether_addr ea \<longleftrightarrow> ea = Ether_addr 255 255 255 255 255 255"
  "rte_is_multicast_ether_addr ea = (if rte_is_unicast_ether_addr ea then 0 else 1)"
  "rte_is_local_admin_ether_addr ea \<longleftrightarrow> \<not> rte_is_universal_ether_addr ea"
  "rte_is_broadcast_ether_addr ea \<Longrightarrow> \<not> rte_is_valid_assigned_ether_addr ea"
proof -
  obtain a b c d e f where ea: "ea = Ether_addr a b c d e f" by (cases ea)
  obtain a' b' c' d' e' f' where ea': "ea' = Ether_addr a' b' c' d' e' f'" by (cases ea')
  have w: "addr_word ea 0 = bytes_u16 a b" "addr_word ea 1 = bytes_u16 c d" "addr_word ea 2 = bytes_u16 e f"
    "addr_word ea' 0 = bytes_u16 a' b'" "addr_word ea' 1 = bytes_u16 c' d'" "addr_word ea' 2 = bytes_u16 e' f'"
    by (simp_all add: addr_word_def ea ea')
  have z: "bytes_u16 x y = 0 \<longleftrightarrow> x = 0 \<and> y = 0" "bytes_u16 x y = 0xFFFF \<longleftrightarrow> x = 255 \<and> y = 255" for x y
    using bytes_u16_eq_iff [of x y 0 0] bytes_u16_eq_iff [of x y 255 255] by (simp_all add: bytes_u16_zero)
  have x: "x XOR y = 0 \<longleftrightarrow> x = y" for x y :: u16 by (metis xor.right_neutral xor_self_eq bit.xor_left_self)
  have o: "x OR y = 0 \<longleftrightarrow> x = 0 \<and> y = 0" for x y :: u16 by (simp add: or_eq_0_iff)
  have n: "x AND y = 0xFFFF \<longleftrightarrow> x = 0xFFFF \<and> y = 0xFFFF" for x y :: u16
  proof -
    have m: "(0xFFFF :: u16) = - 1" by simp
    show ?thesis unfolding m by (rule and_eq_minus_1_iff)
  qed
  show "rte_is_same_ether_addr ea ea' \<longleftrightarrow> ea = ea'"
    unfolding rte_is_same_ether_addr_def w o x bytes_u16_eq_iff by (auto simp: ea ea')
  show "rte_is_zero_ether_addr ea \<longleftrightarrow> ea = Ether_addr 0 0 0 0 0 0"
    unfolding rte_is_zero_ether_addr_def w o z by (auto simp: ea)
  show b: "rte_is_broadcast_ether_addr ea \<longleftrightarrow> ea = Ether_addr 255 255 255 255 255 255"
    unfolding rte_is_broadcast_ether_addr_def w n z by (auto simp: ea)
  show "rte_is_multicast_ether_addr ea = (if rte_is_unicast_ether_addr ea then 0 else 1)"
    by (simp add: rte_is_multicast_ether_addr_def rte_is_unicast_ether_addr_def and_one_eq mod_2_eq_odd)
  show "rte_is_local_admin_ether_addr ea \<longleftrightarrow> \<not> rte_is_universal_ether_addr ea"
    by (simp add: rte_is_local_admin_ether_addr_def rte_is_universal_ether_addr_def)
  show "\<not> rte_is_valid_assigned_ether_addr ea" if "rte_is_broadcast_ether_addr ea"
    using that unfolding b by (simp add: rte_is_valid_assigned_ether_addr_def rte_is_unicast_ether_addr_def)
qed

section \<open>Windows of memory\<close>

text \<open>Storing into a window of mapped bytes replaces the bytes there and nothing else.\<close>

lemma store_window:
  assumes "load_bytes a n h = Some d" "k + length bs \<le> n" "n < 2 ^ 64"
  shows "\<exists>h'. store_bytes (a + of_nat k) bs h = Some h' \<and> load_bytes a n h' = Some (take k d @ bs @ drop (k + length bs) d)
    \<and> h_mbuf h' = h_mbuf h \<and> h' = h\<lparr>h_byte := h_byte h'\<rparr>"
  using assms(1,2)
proof (induction bs arbitrary: k d h)
  case (Cons b bs)
  have k: "k < n" and len: "length d = n" using Cons.prems by (auto simp: load_bytes_iff)
  have mapped: "h_byte h (a + of_nat k) \<noteq> None" using Cons.prems k by (simp add: load_bytes_iff)
  define h1 where "h1 = h\<lparr>h_byte := (h_byte h)(a + of_nat k \<mapsto> b)\<rparr>"
  have inj: "(of_nat i :: u64) = of_nat j \<longleftrightarrow> i = j" if "i < n" "j < n" for i j
    using that assms(3) by (simp add: word_unat_eq_iff unat_of_nat take_bit_nat_eq_self)
  have "load_bytes a n h1 = Some (d[k := b])"
    using Cons.prems(1) k inj by (auto simp: load_bytes_iff h1_def nth_list_update)
  from Cons.IH [OF this, of "Suc k"] Cons.prems(2) obtain h' where h':
    "store_bytes (a + of_nat (Suc k)) bs h1 = Some h'" "load_bytes a n h' = Some (take (Suc k) (d[k := b]) @ bs @ drop (Suc k + length bs) (d[k := b]))"
    "h_mbuf h' = h_mbuf h1" "h' = h1\<lparr>h_byte := h_byte h'\<rparr>" by auto
  have "take (Suc k) (d[k := b]) = take k d @ [b]" using k len by (simp add: take_Suc_conv_app_nth)
  then have "take (Suc k) (d[k := b]) @ bs @ drop (Suc k + length bs) (d[k := b]) = take k d @ (b # bs) @ drop (k + length (b # bs)) d"
    by simp
  moreover have "store_bytes (a + of_nat k) (b # bs) h = Some h'" using mapped h'(1) by (simp add: h1_def ac_simps)
  moreover have "h_mbuf h' = h_mbuf h" "h' = h\<lparr>h_byte := h_byte h'\<rparr>" using h'(3,4) by (simp_all add: h1_def)
  ultimately show ?case using h'(2) by metis
qed (auto simp: load_bytes_iff)

lemma load_half_window:
  assumes "load_bytes a n h = Some d" "k + 2 \<le> n"
  shows "load_half (a + of_nat k) h = Some (bytes_u16 (d ! k) (d ! Suc k))"
proof -
  have m: "h_byte h (a + of_nat i) = Some (d ! i)" if "i < n" for i using assms(1) that unfolding load_bytes_iff by blast
  have "h_byte h (a + of_nat k) = Some (d ! k)" "h_byte h (a + of_nat (Suc k)) = Some (d ! Suc k)"
    using m [of k] m [of "Suc k"] assms(2) by (simp_all only:)
  then show ?thesis by (simp add: load_half_def ac_simps)
qed

lemma load_window:
  assumes "load_bytes a n h = Some d" "k + l \<le> n"
  shows "load_bytes (a + of_nat k) l h = Some (take l (drop k d))"
  using assms load_bytes_sub [of a d h k l] by (auto simp: load_bytes_iff)

lemma load_bytes_join:
  assumes "load_bytes a k h = Some d" "load_bytes (a + of_nat k) l h = Some e"
  shows "load_bytes a (k + l) h = Some (d @ e)"
proof -
  have "h_byte h (a + of_nat i) = Some ((d @ e) ! i)" if "i < k + l" for i
  proof (cases "i < k")
    case False
    then have e: "a + of_nat i = a + of_nat k + of_nat (i - k)" by (simp flip: of_nat_add)
    have "i - k < l" using that False by simp
    then have "h_byte h (a + of_nat k + of_nat (i - k)) = Some (e ! (i - k))" "length d = k"
      using assms unfolding load_bytes_iff by blast+
    then show ?thesis unfolding e using False by (simp add: nth_append)
  qed (use assms in \<open>simp add: load_bytes_iff nth_append\<close>)
  then show ?thesis using assms by (simp add: load_bytes_iff)
qed

text \<open>Moving bytes within a window.\<close>

lemma memmove_window:
  assumes "load_bytes a n h = Some d" "j + l \<le> n" "k + l \<le> n" "n < 2 ^ 64" "a + of_nat k \<noteq> NULL"
  shows "\<exists>h'. memmove (a + of_nat k) (a + of_nat j) l h = Some h' \<and> load_bytes a n h' = Some (take k d @ take l (drop j d) @ drop (k + l) d)
    \<and> h_mbuf h' = h_mbuf h \<and> h' = h\<lparr>h_byte := h_byte h'\<rparr>"
proof -
  have len: "length (take l (drop j d)) = l" using assms(1,2) by (simp add: load_bytes_iff)
  show ?thesis
    using store_window [OF assms(1), of k "take l (drop j d)"] assms(3-5) load_window [OF assms(1,2)] len by (simp add: memmove_def)
qed

lemma load_bytes_of_mbuf [simp]: "load_bytes a n (h\<lparr>h_mbuf := x\<rparr>) = load_bytes a n h"
  by (induction n arbitrary: a) simp_all

section \<open>Stripping and inserting\<close>

text \<open>The bytes of a tag in front of the type of the frame: the type of a tag, and the tag control.\<close>

definition tag_bytes :: "u16 \<Rightarrow> u8 list" where
  "tag_bytes tci = u16_bytes (rte_bswap16 0x8100) @ u16_bytes (rte_bswap16 tci)"

lemma length_tag_bytes [simp]: "length (tag_bytes tci) = 4"
  by (simp add: tag_bytes_def u16_bytes_def)

lemma bytes_u16_bytes: "bytes_u16 (ucast v) (ucast (drop_bit 8 v)) = v" for v :: u16
  by (rule bit_word_eqI) (auto simp: bytes_u16_def bit_simps)

lemma bswap16_bswap16: "rte_bswap16 (rte_bswap16 v) = v"
proof -
  have "256 * ((256 * r + q) mod 256) + (256 * r + q) div 256 = 256 * q + r" if "q < 256" for q r :: nat using that by simp
  from this [of "unat v div 256" "unat v mod 256"] u16_lt [of v] show ?thesis
    by (simp add: word_unat_eq_iff unat_rte_bswap16 less_mult_imp_div_less)
qed

lemma tag_nth:
  "tag_bytes tci ! 0 = ucast (rte_bswap16 0x8100)" "tag_bytes tci ! Suc 0 = ucast (drop_bit 8 (rte_bswap16 0x8100))"
  "tag_bytes tci ! 2 = ucast (rte_bswap16 tci)" "tag_bytes tci ! 3 = ucast (drop_bit 8 (rte_bswap16 tci))"
  by (simp_all add: tag_bytes_def u16_bytes_def eval_nat_numeral)

lemma vlan_strip_tagged:
  assumes b: "h_mbuf h m = Some b" and d: "seg_data h m = Some (a @ tag_bytes tci @ r)" and a: "length a = 12"
    and addr: "rte_pktmbuf_mtod_offset b 4 \<noteq> NULL" and geom: "mbuf_geom b"
  shows "\<exists>h'. rte_vlan_strip m h = Some (0, h') \<and> seg_data h' m = Some (a @ r)
    \<and> h_mbuf h' = (h_mbuf h)(m \<mapsto> b\<lparr>mb_ol_flags := mb_ol_flags b OR (RTE_MBUF_F_RX_VLAN OR RTE_MBUF_F_RX_VLAN_STRIPPED),
        mb_vlan_tci := tci, mb_data_len := mb_data_len b - 4, mb_data_off := mb_data_off b + 4, mb_pkt_len := mb_pkt_len b - 4\<rparr>)"
proof -
  define eh where "eh = rte_pktmbuf_mtod_offset b 0"
  define b' where "b' = b\<lparr>mb_ol_flags := mb_ol_flags b OR (RTE_MBUF_F_RX_VLAN OR RTE_MBUF_F_RX_VLAN_STRIPPED),
        mb_vlan_tci := tci, mb_data_len := mb_data_len b - 4, mb_data_off := mb_data_off b + 4, mb_pkt_len := mb_pkt_len b - 4\<rparr>"
  let ?d = "a @ tag_bytes tci @ r"
  note w = seg_dataD [OF d b]
  have win: "load_bytes eh (length ?d) h = Some ?d" using w(2) by (simp add: eh_def)
  have len: "length ?d = unat (mb_data_len b)" using w(1) .
  then have ge: "4 \<le> unat (mb_data_len b)" "unat (mb_data_off b) + 4 < 65536" using a geom u16_lt [of "mb_buf_len b"] by (auto simp: mbuf_geom_def)
  have n64: "length ?d < 2 ^ 64" using len u16_lt [of "mb_data_len b"] by simp
  have off: "unat (mb_data_off b + 4) = unat (mb_data_off b) + 4" using ge(2) by (subst unat_add_lt) simp_all
  have "(ucast (mb_data_off b + 4) :: u64) = ucast (mb_data_off b) + 4" using off u16_lt [of "mb_data_off b"]
    by (intro word_unat_eq_iff [THEN iffD2]) (simp add: unat_add_lt)
  then have dst: "mb_buf_addr b + ucast (mb_data_off b + 4) = eh + of_nat 4" "rte_pktmbuf_mtod_offset b' 0 = eh + of_nat 4"
    by (simp_all add: eh_def rte_pktmbuf_mtod_offset_def b'_def)
  have "?d ! 12 = tag_bytes tci ! 0" "?d ! 13 = tag_bytes tci ! Suc 0" "?d ! 14 = tag_bytes tci ! 2" "?d ! 15 = tag_bytes tci ! 3"
    using a by (simp_all add: nth_append)
  then have t: "load_half (eh + 12) h = Some (rte_bswap16 0x8100)" "load_half (eh + 14) h = Some (rte_bswap16 tci)"
    using load_half_window [OF win, of 12] load_half_window [OF win, of 14] a by (simp_all add: tag_nth bytes_u16_bytes)
  have adj: "rte_pktmbuf_adj (b\<lparr>mb_ol_flags := mb_ol_flags b OR (RTE_MBUF_F_RX_VLAN OR RTE_MBUF_F_RX_VLAN_STRIPPED), mb_vlan_tci := tci\<rparr>) 4
      = (eh + of_nat 4, b')"
    using ge(1) dst by (simp add: rte_pktmbuf_adj_def b'_def word_less_nat_alt Let_def)
  define h1 where "h1 = h\<lparr>h_mbuf := (h_mbuf h)(m \<mapsto> b')\<rparr>"
  have win1: "load_bytes eh (length ?d) h1 = Some ?d" using win by (simp add: h1_def)
  have "eh + of_nat 4 \<noteq> NULL" using addr by (simp add: eh_def rte_pktmbuf_mtod_offset_def)
  then obtain h' where h': "memmove (eh + of_nat 4) (eh + of_nat 0) 12 h1 = Some h'"
    "load_bytes eh (length ?d) h' = Some (take 4 ?d @ take 12 (drop 0 ?d) @ drop (4 + 12) ?d)" "h_mbuf h' = h_mbuf h1"
    using memmove_window [OF win1, of 0 12 4] a n64 by auto
  have strip: "rte_vlan_strip m h = Some (0, h')"
    using b t adj h'(1) by (simp add: rte_vlan_strip_def bswap16_bswap16 h1_def flip: eh_def)
  have "load_bytes (eh + of_nat 4) (length ?d - 4) h' = Some (take (length ?d - 4) (drop 4 (take 4 ?d @ take 12 (drop 0 ?d) @ drop (4 + 12) ?d)))"
    by (rule load_window [OF h'(2)]) (use a in simp)
  then have "load_bytes (eh + of_nat 4) (length ?d - 4) h' = Some (a @ r)" using a by simp
  moreover have "unat (mb_data_len b') = length ?d - 4" using ge(1) len by (simp add: b'_def unat_sub_le)
  ultimately have "seg_data h' m = Some (a @ r)" using h'(3) dst(2) by (simp add: seg_data_def h1_def)
  then show ?thesis using strip h'(3) by (simp add: h1_def b'_def)
qed

text \<open>The length of the outer or the inner link header grows by a tag, in the seven bits of its field.\<close>

definition tag_offload :: "u64 \<Rightarrow> u64 \<Rightarrow> u64" where
  "tag_offload flags w = (if flags AND RTE_MBUF_F_TX_TUNNEL_MASK \<noteq> 0
     then set_field RTE_MBUF_OUTL2_LEN_OFS 7 (tx_outer_l2_len w + 4) w
     else set_field RTE_MBUF_L2_LEN_OFS 7 (tx_l2_len w + 4) w)"

lemma bit_set_field: "bit (set_field ofs n v w) i = (if ofs \<le> i \<and> i < ofs + n then i < 64 \<and> bit v (i - ofs) else bit w i)"
proof (cases "i < 64")
  case True
  then show ?thesis by (auto simp: set_field_def bit_simps)
next
  case False
  then show ?thesis using bit_imp_le_length [of w i] bit_imp_le_length [of "set_field ofs n v w" i] by auto
qed

lemma tag_offload_fields:
  "flags AND RTE_MBUF_F_TX_TUNNEL_MASK = 0 \<Longrightarrow> tx_l2_len (tag_offload flags w) = take_bit 7 (tx_l2_len w + 4) \<and> drop_bit 7 (tag_offload flags w) = drop_bit 7 w"
  "flags AND RTE_MBUF_F_TX_TUNNEL_MASK \<noteq> 0 \<Longrightarrow> tx_outer_l2_len (tag_offload flags w) = take_bit 7 (tx_outer_l2_len w + 4) \<and> take_bit 49 (tag_offload flags w) = take_bit 49 w"
proof -
  have "tx_l2_len (set_field 0 7 v w) = take_bit 7 v" "drop_bit 7 (set_field 0 7 v w) = drop_bit 7 w"
    "tx_outer_l2_len (set_field 49 7 v w) = take_bit 7 v" "take_bit 49 (set_field 49 7 v w) = take_bit 49 w" for v w
    unfolding tx_l2_len_def tx_outer_l2_len_def by (rule bit_word_eqI, auto simp: bit_take_bit_iff bit_drop_bit_eq bit_set_field)+
  then show "flags AND RTE_MBUF_F_TX_TUNNEL_MASK = 0 \<Longrightarrow> tx_l2_len (tag_offload flags w) = take_bit 7 (tx_l2_len w + 4) \<and> drop_bit 7 (tag_offload flags w) = drop_bit 7 w"
    "flags AND RTE_MBUF_F_TX_TUNNEL_MASK \<noteq> 0 \<Longrightarrow> tx_outer_l2_len (tag_offload flags w) = take_bit 7 (tx_outer_l2_len w + 4) \<and> take_bit 49 (tag_offload flags w) = take_bit 49 w"
    by (simp_all add: tag_offload_def)
qed

lemma vlan_insert_direct:
  assumes b: "h_mbuf h m = Some b" and d: "seg_data h m = Some d" and len: "12 \<le> length d"
    and ok: "RTE_MBUF_DIRECT b" "mb_refcnt b \<le> 1" "4 \<le> unat (mb_data_off b)" and geom: "mbuf_geom b"
    and room: "load_bytes (rte_pktmbuf_mtod_offset b (- 4)) 4 h = Some pre" and addr: "rte_pktmbuf_mtod_offset b (- 4) \<noteq> NULL"
  shows "\<exists>h'. rte_vlan_insert m h = Some (0, h') \<and> seg_data h' m = Some (take 12 d @ tag_bytes (mb_vlan_tci b) @ drop 12 d)
    \<and> h_mbuf h' = (h_mbuf h)(m \<mapsto> b\<lparr>mb_data_off := mb_data_off b - 4, mb_data_len := mb_data_len b + 4, mb_pkt_len := mb_pkt_len b + 4,
        mb_ol_flags := mb_ol_flags b AND NOT (RTE_MBUF_F_RX_VLAN_STRIPPED OR RTE_MBUF_F_TX_VLAN),
        mb_tx_offload := tag_offload (mb_ol_flags b AND NOT (RTE_MBUF_F_RX_VLAN_STRIPPED OR RTE_MBUF_F_TX_VLAN)) (mb_tx_offload b)\<rparr>)"
proof -
  define nh where "nh = rte_pktmbuf_mtod_offset b (- 4)"
  define b1 where "b1 = b\<lparr>mb_data_off := mb_data_off b - 4, mb_data_len := mb_data_len b + 4, mb_pkt_len := mb_pkt_len b + 4\<rparr>"
  define flags where "flags = mb_ol_flags b AND NOT (RTE_MBUF_F_RX_VLAN_STRIPPED OR RTE_MBUF_F_TX_VLAN)"
  define w where "w = tag_offload flags (mb_tx_offload b)"
  note s = seg_dataD [OF d b]
  have n16: "length d + 4 < 65536" using s(1) geom ok(3) u16_lt [of "mb_buf_len b"] by (simp add: mbuf_geom_def)
  have nh: "rte_pktmbuf_mtod_offset b 0 = nh + of_nat 4" "nh \<noteq> NULL" using addr by (simp_all add: nh_def rte_pktmbuf_mtod_offset_def)
  have "unat (mb_data_off b - 4) = unat (mb_data_off b) - 4" using ok(3) by (subst unat_sub_le) simp_all
  then have "(ucast (mb_data_off b - 4) :: u64) = ucast (mb_data_off b) - 4"
    using ok(3) by (simp add: word_unat_eq_iff unat_sub_le)
  then have nh1: "rte_pktmbuf_mtod_offset b1 0 = nh" by (simp add: nh_def rte_pktmbuf_mtod_offset_def b1_def)
  have pre: "length pre = 4" using room by (simp add: load_bytes_iff)
  have win: "load_bytes nh (4 + length d) h = Some (pre @ d)"
    using load_bytes_join [OF room] s(2) nh(1) by (simp add: nh_def)
  define h1 where "h1 = h\<lparr>h_mbuf := (h_mbuf h)(m \<mapsto> b1)\<rparr>"
  have n64: "4 + length d < 2 ^ 64" using n16 by simp
  have win1: "load_bytes nh (4 + length d) h1 = Some (pre @ d)" using win by (simp add: h1_def)
  obtain h2 where h2: "memmove (nh + of_nat 0) (nh + of_nat 4) 12 h1 = Some h2"
    "load_bytes nh (4 + length d) h2 = Some (take 0 (pre @ d) @ take 12 (drop 4 (pre @ d)) @ drop (0 + 12) (pre @ d))"
    "h_mbuf h2 = h_mbuf h1"
    using memmove_window [OF win1 _ _ n64, of 4 12 0] len nh(2) by auto
  have win2: "load_bytes nh (4 + length d) h2 = Some (take 12 d @ drop 8 d)" using h2(2) pre by simp
  obtain h3 where h3: "store_bytes (nh + of_nat 12) (u16_bytes (rte_bswap16 0x8100)) h2 = Some h3"
    "load_bytes nh (4 + length d) h3 = Some (take 12 d @ u16_bytes (rte_bswap16 0x8100) @ drop 10 d)" "h_mbuf h3 = h_mbuf h2"
    using store_window [OF win2 _ n64, of 12 "u16_bytes (rte_bswap16 0x8100)"] len by (auto simp: u16_bytes_def)
  obtain h4 where h4: "store_bytes (nh + of_nat 14) (u16_bytes (rte_bswap16 (mb_vlan_tci b))) h3 = Some h4"
    "load_bytes nh (4 + length d) h4 = Some (take 12 d @ tag_bytes (mb_vlan_tci b) @ drop 12 d)" "h_mbuf h4 = h_mbuf h3"
    using store_window [OF h3(2) _ n64, of 14 "u16_bytes (rte_bswap16 (mb_vlan_tci b))"] len
    by (auto simp: u16_bytes_def tag_bytes_def)
  define b2 where "b2 = b1\<lparr>mb_ol_flags := flags, mb_tx_offload := w\<rparr>"
  define h5 where "h5 = h4\<lparr>h_mbuf := (h_mbuf h4)(m \<mapsto> b2)\<rparr>"
  have pp: "rte_pktmbuf_prepend b 4 = (nh, b1)"
    using ok(3) nh1 by (simp add: rte_pktmbuf_prepend_def rte_pktmbuf_headroom_def Let_def b1_def rte_pktmbuf_mtod_offset_def word_less_nat_alt)
  have guards: "\<not> mb_data_len b < 12" "\<not> rte_mbuf_refcnt_read b > 1"
    using s(1) len ok(2) by (simp_all add: word_less_nat_alt word_le_nat_alt rte_mbuf_refcnt_read_def linorder_not_less)
  have fields: "mb_vlan_tci b1 = mb_vlan_tci b" "mb_ol_flags b1 = mb_ol_flags b" "mb_tx_offload b1 = mb_tx_offload b" by (simp_all add: b1_def)
  have m4: "h_mbuf h4 m = Some b1" using h4(3) h3(3) h2(3) by (simp add: h1_def)
  have "rte_vlan_insert m h = Some (0, h5)"
    using b ok(1) guards pp nh h2(1) h3(1) h4(1) m4
    by (simp add: rte_vlan_insert_def store_half_def fields h5_def b2_def w_def tag_offload_def flags_def Let_def flip: h1_def)
  moreover have "h_mbuf h5 = (h_mbuf h)(m \<mapsto> b2)" using h4(3) h3(3) h2(3) by (simp add: h5_def h1_def)
  moreover have "seg_data h5 m = Some (take 12 d @ tag_bytes (mb_vlan_tci b) @ drop 12 d)"
  proof -
    have "unat (mb_data_len b + 4) = 4 + length d" using s(1) n16 by (subst unat_add_lt) simp_all
    moreover have "rte_pktmbuf_mtod_offset b2 0 = nh" using nh1 by (simp add: b2_def rte_pktmbuf_mtod_offset_def)
    ultimately show ?thesis using h4(2) by (simp add: seg_data_def h5_def) (simp add: b2_def b1_def)
  qed
  ultimately show ?thesis by (auto simp: b2_def b1_def flags_def w_def)
qed

text \<open>Stripping does not look at the length of the data: with less than four bytes of it, and the type of a tag
  in what lies behind, the pointer the code moves to is NULL.\<close>

lemma vlan_strip_short:
  assumes "h_mbuf h m = Some b" "mb_data_len b < 4" "load_half (rte_pktmbuf_mtod_offset b 0 + 12) h = Some (rte_bswap16 0x8100)"
  shows "rte_vlan_strip m h = None"
proof -
  have "rte_pktmbuf_adj c 4 = (NULL, c)" if "mb_data_len c = mb_data_len b" for c
    using that assms(2) by (simp add: rte_pktmbuf_adj_def)
  then show ?thesis using assms(1,3) by (simp add: rte_vlan_strip_def memmove_def Let_def split: Option.bind_splits)
qed

text \<open>C37. Inserting a VLAN tag and stripping it again. An insertion refuses an mbuf that is shared, whose
  data is not its own or too short, with \<open>-EINVAL\<close>, and one without four bytes of headroom, with
  \<open>-ENOSPC\<close>, and leaves it as it was. (The comment of the function documents \<open>-EPERM\<close> for a shared mbuf,
  a value that the code never returns.)
  Otherwise the frame becomes its two addresses, the tag and the rest, and the length of the link header
  in its seven bits grows by four. Stripping the tag then gives the old frame back, at its old place in the
  buffer and with the control of the tag in the mbuf, marked as received and stripped.\<close>

theorem vlan_insert_strip:
  assumes "h_mbuf h m = Some b" "seg_data h m = Some d" "mbuf_geom b" "rte_pktmbuf_mtod_offset b 0 \<noteq> NULL"
    and room: "load_bytes (rte_pktmbuf_mtod_offset b (- 4)) 4 h = Some pre" "rte_pktmbuf_mtod_offset b (- 4) \<noteq> NULL"
  shows "if \<not> RTE_MBUF_DIRECT b \<or> mb_refcnt b > 1 \<or> length d < 12 then rte_vlan_insert m h = Some (- EINVAL, h)
    else if unat (mb_data_off b) < 4 then rte_vlan_insert m h = Some (- ENOSPC, h)
    else \<exists>h' h'' b'. rte_vlan_insert m h = Some (0, h') \<and> seg_data h' m = Some (take 12 d @ tag_bytes (mb_vlan_tci b) @ drop 12 d)
      \<and> h_mbuf h' m = Some b' \<and> mb_pkt_len b' = mb_pkt_len b + 4
      \<and> mb_tx_offload b' = tag_offload (mb_ol_flags b') (mb_tx_offload b)
      \<and> rte_vlan_strip m h' = Some (0, h'') \<and> seg_data h'' m = Some d
      \<and> h_mbuf h'' = (h_mbuf h)(m \<mapsto> b\<lparr>mb_ol_flags := mb_ol_flags b' OR (RTE_MBUF_F_RX_VLAN OR RTE_MBUF_F_RX_VLAN_STRIPPED),
          mb_tx_offload := mb_tx_offload b'\<rparr>)"
proof -
  note s = seg_dataD [OF assms(2,1)]
  consider (inval) "\<not> RTE_MBUF_DIRECT b \<or> mb_refcnt b > 1 \<or> length d < 12"
    | (nospc) "RTE_MBUF_DIRECT b" "\<not> mb_refcnt b > 1" "12 \<le> length d" "unat (mb_data_off b) < 4"
    | (ok) "RTE_MBUF_DIRECT b" "mb_refcnt b \<le> 1" "12 \<le> length d" "4 \<le> unat (mb_data_off b)"
    by (meson linorder_not_less)
  then show ?thesis
  proof cases
    case inval
    then show ?thesis using assms(1) s(1) by (auto simp: rte_vlan_insert_def rte_mbuf_refcnt_read_def word_less_nat_alt)
  next
    case nospc
    have "rte_pktmbuf_prepend b 4 = (NULL, b)" using nospc(4) by (simp add: rte_pktmbuf_prepend_def rte_pktmbuf_headroom_def word_less_nat_alt)
    then show ?thesis using nospc assms(1) s(1) by (simp add: rte_vlan_insert_def rte_mbuf_refcnt_read_def word_less_nat_alt)
  next
    case ok
    define b' where "b' = b\<lparr>mb_data_off := mb_data_off b - 4, mb_data_len := mb_data_len b + 4, mb_pkt_len := mb_pkt_len b + 4,
      mb_ol_flags := mb_ol_flags b AND NOT (RTE_MBUF_F_RX_VLAN_STRIPPED OR RTE_MBUF_F_TX_VLAN),
      mb_tx_offload := tag_offload (mb_ol_flags b AND NOT (RTE_MBUF_F_RX_VLAN_STRIPPED OR RTE_MBUF_F_TX_VLAN)) (mb_tx_offload b)\<rparr>"
    from vlan_insert_direct [OF assms(1,2) ok(3,1,2,4) assms(3) room] obtain h' where h':
      "rte_vlan_insert m h = Some (0, h')" "seg_data h' m = Some (take 12 d @ tag_bytes (mb_vlan_tci b) @ drop 12 d)"
      "h_mbuf h' = (h_mbuf h)(m \<mapsto> b')" unfolding b'_def by blast
    have n16: "length d + 4 < 65536" using s(1) assms(3) ok(4) u16_lt [of "mb_buf_len b"] by (simp add: mbuf_geom_def)
    have off: "unat (mb_data_off b - 4) = unat (mb_data_off b) - 4" using ok(4) by (subst unat_sub_le) simp_all
    have "unat (mb_data_len b + 4) = unat (mb_data_len b) + 4" using n16 s(1) by (subst unat_add_lt) simp_all
    then have geom: "mbuf_geom b'" using assms(3) off ok(4) by (simp add: mbuf_geom_def b'_def)
    have "(ucast (mb_data_off b - 4) :: u64) = ucast (mb_data_off b) - 4" using ok(4) off by (simp add: word_unat_eq_iff unat_sub_le)
    then have "rte_pktmbuf_mtod_offset b' 4 \<noteq> NULL" using assms(4) by (simp add: rte_pktmbuf_mtod_offset_def b'_def)
    from vlan_strip_tagged [OF _ h'(2) _ this geom] ok(3) h'(3) obtain h'' where h'':
      "rte_vlan_strip m h' = Some (0, h'')" "seg_data h'' m = Some d"
      "h_mbuf h'' = (h_mbuf h)(m \<mapsto> b'\<lparr>mb_ol_flags := mb_ol_flags b' OR (RTE_MBUF_F_RX_VLAN OR RTE_MBUF_F_RX_VLAN_STRIPPED),
        mb_vlan_tci := mb_vlan_tci b, mb_data_len := mb_data_len b' - 4, mb_data_off := mb_data_off b' + 4, mb_pkt_len := mb_pkt_len b' - 4\<rparr>)"
      by auto
    have "h_mbuf h'' = (h_mbuf h)(m \<mapsto> b\<lparr>mb_ol_flags := mb_ol_flags b' OR (RTE_MBUF_F_RX_VLAN OR RTE_MBUF_F_RX_VLAN_STRIPPED),
          mb_tx_offload := mb_tx_offload b'\<rparr>)"
      using h''(3) by (cases b) (simp add: b'_def)
    moreover have "mb_pkt_len b' = mb_pkt_len b + 4" "mb_tx_offload b' = tag_offload (mb_ol_flags b') (mb_tx_offload b)"
      "h_mbuf h' m = Some b'" using h'(3) by (simp_all add: b'_def)
    moreover have "\<not> (\<not> RTE_MBUF_DIRECT b \<or> mb_refcnt b > 1 \<or> length d < 12)" "\<not> unat (mb_data_off b) < 4" using ok by auto
    ultimately show ?thesis using h'(1,2) h''(1,2) by (metis (no_types, lifting))
  qed
qed

text \<open>The frame of 60 zero bytes of the example, and tag control 7.\<close>

theorem vlan_insert_strip_witness:
  "\<exists>(h :: rte_ring heap) h' h''. rte_vlan_insert 1000 h = Some (0, h') \<and> rte_vlan_strip 1000 h' = Some (0, h'')
     \<and> seg_data h' 1000 = Some (replicate 12 0 @ [0x81, 0, 0, 7] @ replicate 48 0) \<and> seg_data h'' 1000 = Some (replicate 60 0)"
proof -
  define b where "b = (ex_mbuf 1000)\<lparr>mb_vlan_tci := 7\<rparr>"
  define h where "h = ex_heap\<lparr>h_mbuf := [1000 \<mapsto> b]\<rparr>"
  have z: "load_bytes a n h = Some (replicate n 0)" for a n by (simp add: load_bytes_iff h_def ex_heap_def)
  have tag: "tag_bytes 7 = [0x81, 0, 0, 7]" by (simp add: tag_bytes_def u16_bytes_def rte_bswap16_def)
  have t: "take 12 (replicate 60 0) = replicate 12 (0 :: u8)" "drop 12 (replicate 60 0) = replicate 48 (0 :: u8)" by simp_all
  have "h_mbuf h 1000 = Some b" "seg_data h 1000 = Some (replicate 60 0)" "mbuf_geom b" "rte_pktmbuf_mtod_offset b 0 \<noteq> NULL"
    "rte_pktmbuf_mtod_offset b (- 4) \<noteq> NULL" "RTE_MBUF_DIRECT b" "mb_refcnt b = 1" "unat (mb_data_off b) = 128" "mb_vlan_tci b = 7"
    using z by (simp_all add: h_def b_def seg_data_def mbuf_geom_def rte_pktmbuf_mtod_offset_def RTE_MBUF_DIRECT_def)
  then obtain h' h'' where "rte_vlan_insert 1000 h = Some (0, h')" "rte_vlan_strip 1000 h' = Some (0, h'')"
    "seg_data h' 1000 = Some (take 12 (replicate 60 0) @ tag_bytes 7 @ drop 12 (replicate 60 0))" "seg_data h'' 1000 = Some (replicate 60 0)"
    using vlan_insert_strip [of h 1000 b "replicate 60 0", OF _ _ _ _ z] by auto
  then show ?thesis unfolding tag t append_Cons append_Nil by blast
qed

end
