(* ===== verification/Rte_Crc.thy ===== *)
theory Rte_Crc
  imports Rte_Crc_Tables "HOL-Library.Monad_Syntax"
begin

text \<open>
  The CRC hash of rte\_hash\_crc.h, as compiled for x86-64: by tables, or by the instruction of the processor,
  whichever is chosen at the start. Whatever is chosen, the hash is the cyclic redundancy check over the
  bits of the data with the Castagnoli polynomial.
\<close>

unbundle bit_operations_syntax

section \<open>The code\<close>

abbreviation (input) CRC32_SW :: u8 where "CRC32_SW \<equiv> 1"
abbreviation (input) CRC32_SSE42 :: u8 where "CRC32_SSE42 \<equiv> 2"
abbreviation (input) CRC32_x64 :: u8 where "CRC32_x64 \<equiv> 4"
abbreviation (input) CRC32_SSE42_x64 :: u8 where "CRC32_SSE42_x64 \<equiv> 6"

definition crc_entry :: "nat \<Rightarrow> u32 \<Rightarrow> u32" where
  "crc_entry n i = crc32c_tables ! n ! unat i"

definition CRC32_UPD :: "u32 \<Rightarrow> nat \<Rightarrow> u32" where
  "CRC32_UPD crc n = crc_entry n (crc AND 0xFF) XOR crc_entry (n - 1) (drop_bit 8 crc AND 0xFF)"

definition crc32c_1byte :: "u8 \<Rightarrow> u32 \<Rightarrow> u32" where
  "crc32c_1byte data init_val = (let crc = init_val XOR ucast data in crc_entry 0 (crc AND 0xff) XOR drop_bit 8 crc)"

definition crc32c_2bytes :: "u16 \<Rightarrow> u32 \<Rightarrow> u32" where
  "crc32c_2bytes data init_val = (let crc = init_val XOR ucast data in CRC32_UPD crc 1 XOR drop_bit 16 crc)"

definition crc32c_1word :: "u32 \<Rightarrow> u32 \<Rightarrow> u32" where
  "crc32c_1word data init_val = (let crc = init_val XOR data; term1 = CRC32_UPD crc 3; term2 = drop_bit 16 crc in
     term1 XOR CRC32_UPD term2 1)"

text \<open>The low and the high word of the union.\<close>

definition crc32c_2words :: "u64 \<Rightarrow> u32 \<Rightarrow> u32" where
  "crc32c_2words data init_val = (let d0 = ucast data; d1 = ucast (drop_bit 32 data); crc = init_val XOR d0;
     term1 = CRC32_UPD crc 7; term2 = drop_bit 16 crc; crc = term1 XOR CRC32_UPD term2 5;
     term1 = CRC32_UPD d1 3; term2 = drop_bit 16 d1 in
     crc XOR (term1 XOR CRC32_UPD term2 1))"

text \<open>The instructions that the code calls for 8, 16, 32 and 64 bits of data.\<close>

record crc_cpu =
  crc32b :: "u8 \<Rightarrow> u32 \<Rightarrow> u32"
  crc32w :: "u16 \<Rightarrow> u32 \<Rightarrow> u32"
  crc32l :: "u32 \<Rightarrow> u32 \<Rightarrow> u32"
  crc32q :: "u64 \<Rightarrow> u64 \<Rightarrow> u64"

definition crc32c_sse42_u64_mimic :: "crc_cpu \<Rightarrow> u64 \<Rightarrow> u64 \<Rightarrow> u32" where
  "crc32c_sse42_u64_mimic cpu data init_val = (let
     init_val = (ucast (crc32l cpu (ucast data) (ucast init_val)) :: u64);
     init_val = (ucast (crc32l cpu (ucast (drop_bit 32 data)) (ucast init_val)) :: u64)
   in ucast init_val)"

definition crc32c_sse42_u64 :: "crc_cpu \<Rightarrow> u64 \<Rightarrow> u64 \<Rightarrow> u32" where
  "crc32c_sse42_u64 cpu data init_val = ucast (crc32q cpu data init_val)"

text \<open>\<open>em64t\<close> tells whether the processor has the flag for 64 bits; the result is the value of \<open>crc32_alg\<close>.\<close>

definition rte_hash_crc_set_alg :: "bool \<Rightarrow> u8 \<Rightarrow> u8" where
  "rte_hash_crc_set_alg em64t alg = (if alg = CRC32_SSE42_x64 \<and> \<not> em64t then CRC32_SSE42 else alg)"

definition rte_hash_crc_init_alg :: "bool \<Rightarrow> u8" where
  "rte_hash_crc_init_alg em64t = rte_hash_crc_set_alg em64t CRC32_SSE42_x64"

definition rte_hash_crc_1byte :: "crc_cpu \<Rightarrow> u8 \<Rightarrow> u8 \<Rightarrow> u32 \<Rightarrow> u32" where
  "rte_hash_crc_1byte cpu crc32_alg data init_val =
     (if crc32_alg AND CRC32_SSE42 \<noteq> 0 then crc32b cpu data init_val else crc32c_1byte data init_val)"

definition rte_hash_crc_2byte :: "crc_cpu \<Rightarrow> u8 \<Rightarrow> u16 \<Rightarrow> u32 \<Rightarrow> u32" where
  "rte_hash_crc_2byte cpu crc32_alg data init_val =
     (if crc32_alg AND CRC32_SSE42 \<noteq> 0 then crc32w cpu data init_val else crc32c_2bytes data init_val)"

definition rte_hash_crc_4byte :: "crc_cpu \<Rightarrow> u8 \<Rightarrow> u32 \<Rightarrow> u32 \<Rightarrow> u32" where
  "rte_hash_crc_4byte cpu crc32_alg data init_val =
     (if crc32_alg AND CRC32_SSE42 \<noteq> 0 then crc32l cpu data init_val else crc32c_1word data init_val)"

definition rte_hash_crc_8byte :: "crc_cpu \<Rightarrow> u8 \<Rightarrow> u64 \<Rightarrow> u32 \<Rightarrow> u32" where
  "rte_hash_crc_8byte cpu crc32_alg data init_val =
     (if crc32_alg = CRC32_SSE42_x64 then crc32c_sse42_u64 cpu data (ucast init_val)
      else if crc32_alg AND CRC32_SSE42 \<noteq> 0 then crc32c_sse42_u64_mimic cpu data (ucast init_val)
      else crc32c_2words data init_val)"

text \<open>Loads of little endian values; \<open>None\<close> is a read behind the data.\<close>

fun le_word :: "u8 list \<Rightarrow> 'a::len word" where
  "le_word [] = 0"
| "le_word (b # bs) = ucast b OR push_bit 8 (le_word bs)"

definition load_le :: "u8 list \<Rightarrow> nat \<Rightarrow> nat \<Rightarrow> 'a::len word option" where
  "load_le mem pd n = (if pd + n \<le> length mem then Some (le_word (take n (drop pd mem))) else None)"

fun crc_loop :: "crc_cpu \<Rightarrow> u8 \<Rightarrow> u8 list \<Rightarrow> nat \<Rightarrow> nat \<Rightarrow> u32 \<Rightarrow> (nat \<times> u32) option" where
  "crc_loop cpu crc32_alg mem 0 pd init_val = Some (pd, init_val)"
| "crc_loop cpu crc32_alg mem (Suc i) pd init_val = do {
     d \<leftarrow> load_le mem pd 8;
     crc_loop cpu crc32_alg mem i (pd + 8) (rte_hash_crc_8byte cpu crc32_alg d init_val)
   }"

definition rte_hash_crc :: "crc_cpu \<Rightarrow> u8 \<Rightarrow> u8 list \<Rightarrow> u32 \<Rightarrow> u32 \<Rightarrow> u32 option" where
  "rte_hash_crc cpu crc32_alg data data_len init_val = do {
     (pd, init_val) \<leftarrow> crc_loop cpu crc32_alg data (unat (data_len div 8)) 0 init_val;
     (pd, init_val) \<leftarrow> (if data_len AND 0x4 \<noteq> 0
       then do {d \<leftarrow> load_le data pd 4; Some (pd + 4, rte_hash_crc_4byte cpu crc32_alg d init_val)} else Some (pd, init_val));
     (pd, init_val) \<leftarrow> (if data_len AND 0x2 \<noteq> 0
       then do {d \<leftarrow> load_le data pd 2; Some (pd + 2, rte_hash_crc_2byte cpu crc32_alg d init_val)} else Some (pd, init_val));
     if data_len AND 0x1 \<noteq> 0
       then do {d \<leftarrow> load_le data pd 1; Some (rte_hash_crc_1byte cpu crc32_alg d init_val)} else Some init_val
   }"

section \<open>The check, bit by bit\<close>

text \<open>One bit of a reflected check: the lowest bit leaves, and takes the polynomial with it.\<close>

definition crc_step :: "u32 \<Rightarrow> u32" where
  "crc_step x = drop_bit 1 x XOR (if bit x 0 then 0x82F63B78 else 0)"

fun crc_steps :: "nat \<Rightarrow> u32 \<Rightarrow> u32" where
  "crc_steps 0 x = x"
| "crc_steps (Suc n) x = crc_steps n (crc_step x)"

definition crc_byte :: "u8 \<Rightarrow> u32 \<Rightarrow> u32" where
  "crc_byte b crc = crc_steps 8 (crc XOR ucast b)"

definition crc_bytes :: "u8 list \<Rightarrow> u32 \<Rightarrow> u32" where
  "crc_bytes bs crc = fold crc_byte bs crc"

lemma crc_step_xor: "crc_step (x XOR y) = crc_step x XOR crc_step y"
proof -
  have "drop_bit 1 (x XOR y) = drop_bit 1 x XOR drop_bit 1 y" by (simp add: drop_bit_xor)
  then show ?thesis by (cases "bit x 0"; cases "bit y 0") (simp_all add: crc_step_def bit_xor_iff ac_simps)
qed

lemma crc_steps_xor: "crc_steps n (x XOR y) = crc_steps n x XOR crc_steps n y"
  by (induction n arbitrary: x y) (simp_all add: crc_step_xor)

lemma crc_steps_zero [simp]: "crc_steps n 0 = 0"
  by (induction n) (simp_all add: crc_step_def)

lemma crc_steps_add: "crc_steps (m + n) x = crc_steps m (crc_steps n x)"
  by (induction n arbitrary: x) simp_all

text \<open>While no bit leaves, the step is a shift.\<close>

lemma crc_steps_push: "n + k \<le> 32 \<Longrightarrow> crc_steps n (push_bit n (take_bit k x)) = take_bit k x"
proof (induction n)
  case (Suc n)
  have "\<not> bit (push_bit (Suc n) (take_bit k x)) 0" unfolding bit_push_bit_iff by simp
  moreover have "drop_bit 1 (push_bit (Suc n) (take_bit k x)) = push_bit n (take_bit k x)"
    by (rule bit_word_eqI) (use Suc.prems in \<open>auto simp: bit_drop_bit_eq bit_push_bit_iff bit_take_bit_iff simp del: push_bit_Suc\<close>)
  ultimately show ?case using Suc by (simp add: crc_step_def)
qed simp

lemma word_split_byte: "x = (x AND 0xFF) XOR push_bit 8 (take_bit 24 (drop_bit 8 x))" for x :: u32
proof -
  have m: "(0xFF :: u32) = mask 8" by (simp add: mask_eq_exp_minus_1)
  show ?thesis unfolding m by (rule bit_word_eqI) (auto simp: bit_simps)
qed

lemma take_bit_drop_bit_8: "take_bit 24 (drop_bit 8 x) = drop_bit 8 x" for x :: u32
  by (rule bit_word_eqI) (auto simp: bit_simps dest: bit_imp_le_length)

lemma crc_steps_byte: "crc_steps (n + 8) x = crc_steps (n + 8) (x AND 0xFF) XOR crc_steps n (drop_bit 8 x)"
proof -
  have "crc_steps (n + 8) x = crc_steps (n + 8) (x AND 0xFF) XOR crc_steps (n + 8) (push_bit 8 (take_bit 24 (drop_bit 8 x)))"
    by (subst word_split_byte) (rule crc_steps_xor)
  also have "crc_steps (n + 8) (push_bit 8 (take_bit 24 (drop_bit 8 x))) = crc_steps n (drop_bit 8 x)"
    using crc_steps_push [of 8 24 "drop_bit 8 x"] unfolding take_bit_drop_bit_8 by (simp add: crc_steps_add)
  finally show ?thesis .
qed

section \<open>The tables\<close>

lemma crc_steps_span:
  "n \<le> 32 \<Longrightarrow> span (map (\<lambda>k. crc_steps m (push_bit k 1)) (rev [0..<n])) = map (\<lambda>i. crc_steps m (of_nat i)) [0..<2 ^ n]"
proof (induction n)
  case (Suc n)
  have "crc_steps m (push_bit n 1) XOR crc_steps m (of_nat i) = crc_steps m (of_nat (2 ^ n + i))" if "i < 2 ^ n" for i
  proof -
    have "\<not> bit (of_nat i :: u32) k" if "n \<le> k" for k
    proof -
      have "i < 2 ^ k" using \<open>i < 2 ^ n\<close> that by (meson less_le_trans one_le_numeral power_increasing)
      then have "\<not> bit i k" by (simp add: bit_iff_odd)
      moreover have "(2 :: nat) ^ n \<le> 2 ^ 32" using Suc.prems by (intro power_increasing) simp_all
      then have "i < 2 ^ 32" using \<open>i < 2 ^ n\<close> by linarith
      then have "unat (of_nat i :: u32) = i" by (simp add: unat_of_nat)
      moreover have "bit (unat (of_nat i :: u32)) k = bit (of_nat i :: u32) k" by (simp add: bit_unsigned_iff)
      ultimately show ?thesis by simp
    qed
    then have d: "push_bit n 1 AND (of_nat i :: u32) = 0"
      by (intro bit_word_eqI) (auto simp: bit_simps)
    have "(of_nat (2 ^ n + i) :: u32) = push_bit n 1 + of_nat i" by (simp add: push_bit_eq_mult)
    also have "\<dots> = push_bit n 1 XOR of_nat i" using d by (rule disjunctive_add_eq_xor)
    finally show ?thesis by (simp add: crc_steps_xor)
  qed
  moreover have "[0..<2 ^ Suc n] = [0..<2 ^ n] @ map (\<lambda>i. 2 ^ n + i) [0..<2 ^ n]"
    using upt_add_eq_append [of 0 "2 ^ n" "2 ^ n"] map_add_upt [of "2 ^ n" "2 ^ n"] by (simp add: ac_simps mult_2)
  ultimately show ?case using Suc by (simp add: o_def)
qed simp

lemma crc_basis_step:
  "map (\<lambda>k. crc_steps (8 + m) (push_bit k 1)) ks = map (crc_steps 8) (map (\<lambda>k. crc_steps m (push_bit k 1)) ks)"
  by (simp add: crc_steps_add)

lemma upt_8: "rev [0..<8] = [7, 6, 5, 4, 3, 2, 1, 0 :: nat]"
  by (simp add: upt_rec)

text \<open>The bases, each from the one before.\<close>

definition crc_basis :: "nat \<Rightarrow> u32 list" where
  "crc_basis m = map (\<lambda>k. crc_steps m (push_bit k 1)) (rev [0..<8])"

lemma crc_basis_8: "crc_basis (8 + m) = map (crc_steps 8) (crc_basis m)"
  unfolding crc_basis_def by (rule crc_basis_step)

lemma crc_steps_8: "crc_steps 8 x = crc_step (crc_step (crc_step (crc_step (crc_step (crc_step (crc_step (crc_step x)))))))"
  by (simp add: eval_nat_numeral)

lemma crc_basis_0: "crc_basis 0 = [0x80, 0x40, 0x20, 0x10, 8, 4, 2, 1]"
  by (simp add: crc_basis_def upt_8)

lemma crc_basis_table0: "crc_basis 8 = [0x82F63B78, 0x417B1DBC, 0x20BD8EDE, 0x105EC76F, 0x8AD958CF, 0xC79A971F, 0xE13B70F7, 0xF26B8303]"
  using crc_basis_8 [of 0] by (simp add: crc_basis_0 crc_steps_8 crc_step_def)

lemma crc_basis_table1: "crc_basis 16 = [0xFBC3FAF9, 0xFF17C604, 0x7F8BE302, 0x3FC5F181, 0x9D14C3B8, 0x4E8A61DC, 0x274530EE, 0x13A29877]"
  using crc_basis_8 [of 8] by (simp add: crc_basis_table0 crc_steps_8 crc_step_def)

lemma crc_basis_table2: "crc_basis 24 = [0x8B277743, 0xC76580D9, 0xE144FB14, 0x70A27D8A, 0x38513EC5, 0x9EDEA41A, 0x4F6F520D, 0xA541927E]"
  using crc_basis_8 [of 16] by (simp add: crc_basis_table1 crc_steps_8 crc_step_def)

lemma crc_basis_table3: "crc_basis 32 = [0x52A0C93F, 0xABA65FE7, 0xD725148B, 0xE964B13D, 0xF64463E6, 0x7B2231F3, 0xBF672381, 0xDD45AAB8]"
  using crc_basis_8 [of 24] by (simp add: crc_basis_table2 crc_steps_8 crc_step_def)

lemma crc_basis_table4: "crc_basis 40 = [0x6EA2D55C, 0x37516AAE, 0x1BA8B557, 0x8F2261D3, 0xC5670B91, 0xE045BEB0, 0x7022DF58, 0x38116FAC]"
  using crc_basis_8 [of 32] by (simp add: crc_basis_table3 crc_steps_8 crc_step_def)

lemma crc_basis_table5: "crc_basis 48 = [0x1C08B7D6, 0x0E045BEB, 0x85F4168D, 0xC00C303E, 0x6006181F, 0xB2F53777, 0xDB8CA0C3, 0xEF306B19]"
  using crc_basis_8 [of 40] by (simp add: crc_basis_table4 crc_steps_8 crc_step_def)

lemma crc_basis_table6: "crc_basis 56 = [0xF56E0EF4, 0x7AB7077A, 0x3D5B83BD, 0x9C5BFAA6, 0x4E2DFD53, 0xA5E0C5D1, 0xD0065990, 0x68032CC8]"
  using crc_basis_8 [of 48] by (simp add: crc_basis_table5 crc_steps_8 crc_step_def)

lemma crc_basis_table7: "crc_basis 64 = [0x34019664, 0x1A00CB32, 0x0D006599, 0x847609B4, 0x423B04DA, 0x211D826D, 0x9278FA4E, 0x493C7D27]"
  using crc_basis_8 [of 56] by (simp add: crc_basis_table6 crc_steps_8 crc_step_def)

lemmas crc_table_spans = crc32c_table0_span crc32c_table1_span crc32c_table2_span crc32c_table3_span
  crc32c_table4_span crc32c_table5_span crc32c_table6_span crc32c_table7_span

text \<open>The entry \<open>i\<close> of table \<open>n\<close> is what the check makes of \<open>i\<close> in \<open>8 * n + 8\<close> bits.\<close>

lemma crc_tables: "n < 8 \<Longrightarrow> crc32c_tables ! n = map (\<lambda>i. crc_steps (8 * n + 8) (of_nat i)) [0..<256]"
proof -
  assume n: "n < 8"
  have "crc32c_tables ! n = span (crc_basis (8 * n + 8))"
  proof -
    have "n = 0 \<or> n = 1 \<or> n = 2 \<or> n = 3 \<or> n = 4 \<or> n = 5 \<or> n = 6 \<or> n = 7" using n by linarith
    then show ?thesis unfolding crc32c_tables_def crc_table_spans
      by (elim disjE) (simp_all add: crc_basis_table0 crc_basis_table1 crc_basis_table2 crc_basis_table3
        crc_basis_table4 crc_basis_table5 crc_basis_table6 crc_basis_table7 del: span.simps)
  qed
  also have "\<dots> = map (\<lambda>i. crc_steps (8 * n + 8) (of_nat i)) [0..<2 ^ 8]"
    unfolding crc_basis_def by (rule crc_steps_span) simp
  finally show ?thesis by simp
qed

lemma crc_entry_steps: "n < 8 \<Longrightarrow> crc_entry n (x AND 0xFF) = crc_steps (8 * n + 8) (x AND 0xFF)"
proof -
  assume n: "n < 8"
  have "(0xFF :: u32) = mask 8" by (simp add: mask_eq_exp_minus_1)
  then have "unat (x AND 0xFF) < 256" using unat_and_mask [of x 8] by simp
  then show ?thesis by (simp add: crc_entry_def crc_tables [OF n])
qed

lemma CRC32_UPD_steps:
  assumes "0 < n" "n < 8"
  shows "CRC32_UPD x n XOR crc_steps (8 * (n - 1)) (drop_bit 16 x) = crc_steps (8 * n + 8) x"
proof -
  have n: "8 * n + 8 = 8 * (n - 1) + 8 + 8" using assms(1) by simp
  have "crc_steps (8 * n + 8) x = crc_steps (8 * n + 8) (x AND 0xFF) XOR (crc_steps (8 * (n - 1) + 8) (drop_bit 8 x AND 0xFF)
      XOR crc_steps (8 * (n - 1)) (drop_bit 16 x))"
    using crc_steps_byte [of "8 * (n - 1) + 8" x] crc_steps_byte [of "8 * (n - 1)" "drop_bit 8 x"] unfolding n by simp
  then show ?thesis using assms by (simp add: CRC32_UPD_def crc_entry_steps ac_simps)
qed

section \<open>The pieces\<close>

lemma crc_byte_shift:
  assumes "k + 8 \<le> 32"
  shows "crc_byte b (crc_steps k x) = crc_steps (k + 8) (x XOR push_bit k (ucast b))"
proof -
  have "take_bit 8 (ucast b :: u32) = ucast b"
    by (rule bit_word_eqI) (auto simp: bit_simps dest: bit_imp_le_length)
  then have "crc_steps k (push_bit k (ucast b)) = ucast b" using crc_steps_push [of k 8 "ucast b"] assms by simp
  then show ?thesis by (simp add: crc_byte_def crc_steps_xor crc_steps_add [of 8 k] add.commute [of k])
qed

text \<open>The table of a byte, and the words of two, four and eight bytes.\<close>

lemma crc32c_1byte_exact: "crc32c_1byte b c = crc_bytes [b] c"
proof -
  have "crc_steps 8 (c XOR ucast b) = crc_entry 0 ((c XOR ucast b) AND 0xFF) XOR drop_bit 8 (c XOR ucast b)"
    using crc_steps_byte [of 0 "c XOR ucast b"] crc_entry_steps [of 0 "c XOR ucast b"] by simp
  then show ?thesis by (simp add: crc32c_1byte_def crc_bytes_def crc_byte_def Let_def)
qed

lemma crc_bytes_word:
  "crc_bytes [b0, b1] c = crc_steps 16 (c XOR (ucast b0 XOR push_bit 8 (ucast b1)))"
  "crc_bytes [b0, b1, b2, b3] c = crc_steps 32 (c XOR (ucast b0 XOR push_bit 8 (ucast b1) XOR push_bit 16 (ucast b2) XOR push_bit 24 (ucast b3)))"
proof -
  have 1: "crc_byte b0 c = crc_steps 8 (c XOR ucast b0)" by (simp add: crc_byte_def)
  have 2: "crc_byte b1 (crc_byte b0 c) = crc_steps 16 (c XOR (ucast b0 XOR push_bit 8 (ucast b1)))"
    unfolding 1 by (subst crc_byte_shift) (simp_all add: ac_simps)
  have 3: "crc_byte b2 (crc_byte b1 (crc_byte b0 c)) = crc_steps 24 (c XOR (ucast b0 XOR push_bit 8 (ucast b1) XOR push_bit 16 (ucast b2)))"
    unfolding 2 by (subst crc_byte_shift) (simp_all add: ac_simps)
  have 4: "crc_byte b3 (crc_byte b2 (crc_byte b1 (crc_byte b0 c)))
      = crc_steps 32 (c XOR (ucast b0 XOR push_bit 8 (ucast b1) XOR push_bit 16 (ucast b2) XOR push_bit 24 (ucast b3)))"
    unfolding 3 by (subst crc_byte_shift) (simp_all add: ac_simps)
  show "crc_bytes [b0, b1] c = crc_steps 16 (c XOR (ucast b0 XOR push_bit 8 (ucast b1)))" by (simp add: crc_bytes_def 2)
  show "crc_bytes [b0, b1, b2, b3] c = crc_steps 32 (c XOR (ucast b0 XOR push_bit 8 (ucast b1) XOR push_bit 16 (ucast b2) XOR push_bit 24 (ucast b3)))"
    by (simp add: crc_bytes_def 4)
qed

lemma crc32c_words_steps:
  "crc32c_2bytes d2 c = crc_steps 16 (c XOR ucast d2)" "crc32c_1word d4 c = crc_steps 32 (c XOR d4)"
  "crc32c_2words d8 c = crc_steps 32 (crc_steps 32 (c XOR ucast d8) XOR ucast (drop_bit 32 d8))"
proof -
  show "crc32c_2bytes d2 c = crc_steps 16 (c XOR ucast d2)"
    using CRC32_UPD_steps [of 1 "c XOR ucast d2"] by (simp add: crc32c_2bytes_def Let_def)
  have w: "CRC32_UPD x (n + 2) XOR CRC32_UPD (drop_bit 16 x) n = crc_steps (8 * n + 24) x" if "0 < n" "n + 2 < 8" for n x
  proof -
    have z: "drop_bit 32 x = 0" by (rule bit_word_eqI) (simp add: bit_simps)
    have "CRC32_UPD (drop_bit 16 x) n = crc_steps (8 * n + 8) (drop_bit 16 x)"
      using CRC32_UPD_steps [of n "drop_bit 16 x"] that z by simp
    then show ?thesis using CRC32_UPD_steps [of "n + 2" x] that by (simp add: ac_simps)
  qed
  show 4: "crc32c_1word d4 c = crc_steps 32 (c XOR d4)"
    using w [of 1 "c XOR d4"] by (simp add: crc32c_1word_def Let_def numeral_3_eq_3)
  let ?x = "c XOR ucast d8" and ?y = "ucast (drop_bit 32 d8) :: u32"
  have "crc32c_2words d8 c = crc_steps 64 ?x XOR crc_steps 32 ?y"
    using w [of 5 ?x] w [of 1 ?y] by (simp add: crc32c_2words_def Let_def numeral_3_eq_3)
  also have "crc_steps 64 ?x = crc_steps 32 (crc_steps 32 ?x)" using crc_steps_add [of 32 32 ?x] by simp
  finally show "crc32c_2words d8 c = crc_steps 32 (crc_steps 32 ?x XOR ?y)" by (simp add: crc_steps_xor)
qed

section \<open>Loads\<close>

lemma bit_le_word: "bit (le_word bs :: 'a::len word) i \<longleftrightarrow> i < LENGTH('a) \<and> i div 8 < length bs \<and> bit (bs ! (i div 8)) (i mod 8)"
proof (induction bs arbitrary: i)
  case (Cons b bs)
  show ?case
  proof (cases "i < 8")
    case True
    then show ?thesis by (auto simp: bit_or_iff bit_push_bit_iff bit_ucast_iff)
  next
    case False
    then have "i div 8 = Suc ((i - 8) div 8)" "i mod 8 = (i - 8) mod 8"
      using le_div_geq [of 8 i] le_mod_geq [of 8 i] by auto
    moreover have "\<not> bit b i" using False by (auto dest: bit_imp_le_length)
    ultimately show ?thesis using Cons [of "i - 8"] False by (auto simp: bit_or_iff bit_push_bit_iff bit_ucast_iff)
  qed
qed simp

lemma le_word_byte: "(le_word [b] :: u8) = b"
  by (rule bit_word_eqI) (simp add: bit_le_word)

lemma le_word_short: "(le_word bs :: 'a::len word) = ucast (le_word bs :: 'b::len word)" if "8 * length bs \<le> LENGTH('b)"
proof (rule bit_word_eqI)
  fix i assume "i < LENGTH('a)"
  moreover have "i < LENGTH('b)" if "i div 8 < length bs" using that \<open>8 * length bs \<le> LENGTH('b)\<close> by linarith
  ultimately show "bit (le_word bs :: 'a word) i = bit (ucast (le_word bs :: 'b word) :: 'a word) i"
    by (auto simp: bit_le_word bit_ucast_iff)
qed

lemma le_word_xor: "le_word (b # bs) = ucast b XOR push_bit 8 (le_word bs)"
proof -
  have "ucast b AND push_bit 8 (le_word bs) = 0" by (rule bit_word_eqI) (auto simp: bit_simps dest: bit_imp_le_length)
  then have "ucast b OR push_bit 8 (le_word bs) = ucast b XOR push_bit 8 (le_word bs)"
    by (metis disjunctive_add_eq_or disjunctive_add_eq_xor)
  then show ?thesis by simp
qed

lemma le_word_halves:
  assumes "length bs = 8"
  shows "(ucast (le_word bs :: u64) :: u32) = le_word (take 4 bs)" "(ucast (drop_bit 32 (le_word bs :: u64)) :: u32) = le_word (drop 4 bs)"
proof -
  have d: "(32 + i) div 8 = 4 + i div 8" "(32 + i) mod 8 = i mod 8" for i :: nat by presburger+
  show "(ucast (le_word bs :: u64) :: u32) = le_word (take 4 bs)"
    by (rule bit_word_eqI) (use assms in \<open>auto simp: bit_le_word bit_ucast_iff\<close>)
  show "(ucast (drop_bit 32 (le_word bs :: u64)) :: u32) = le_word (drop 4 bs)"
    by (rule bit_word_eqI) (use assms in \<open>auto simp: bit_le_word bit_ucast_iff bit_drop_bit_eq d\<close>)
qed

text \<open>Whatever word the bytes are read as, the tables give the check of the bytes in order.\<close>

lemma crc_tables_bytes:
  "length bs = 2 \<Longrightarrow> crc32c_2bytes (le_word bs) c = crc_bytes bs c"
  "length bs = 4 \<Longrightarrow> crc32c_1word (le_word bs) c = crc_bytes bs c"
  "length bs = 8 \<Longrightarrow> crc32c_2words (le_word bs) c = crc_bytes bs c"
proof -
  have 4: "crc_steps 32 (c XOR le_word bs) = crc_bytes bs c" if l: "length bs = 4" for bs c
  proof -
    obtain b0 b1 b2 b3 where "bs = [b0, b1, b2, b3]" using l by (auto simp: eval_nat_numeral length_Suc_conv)
    then show ?thesis by (simp add: crc_bytes_word le_word_xor push_bit_xor del: le_word.simps(2))
  qed
  show "crc32c_2bytes (le_word bs) c = crc_bytes bs c" if l: "length bs = 2"
  proof -
    obtain b0 b1 where "bs = [b0, b1]" using l by (auto simp: eval_nat_numeral length_Suc_conv)
    moreover have "(ucast (le_word bs :: u16) :: u32) = le_word bs" using le_word_short [of bs, where 'b = 16 and 'a = 32] l by simp
    ultimately show ?thesis by (simp add: crc32c_words_steps crc_bytes_word le_word_xor push_bit_xor del: le_word.simps(2))
  qed
  show "crc32c_1word (le_word bs) c = crc_bytes bs c" if "length bs = 4" using 4 [OF that] by (simp add: crc32c_words_steps)
  show "crc32c_2words (le_word bs) c = crc_bytes bs c" if l: "length bs = 8"
  proof -
    have "crc_bytes bs c = crc_bytes (drop 4 bs) (crc_bytes (take 4 bs) c)" unfolding crc_bytes_def by (metis append_take_drop_id comp_apply fold_append)
    then show ?thesis using 4 [of "take 4 bs"] 4 [of "drop 4 bs"] l by (simp add: crc32c_words_steps le_word_halves)
  qed
qed

lemma crc_table_byte: "length bs = Suc 0 \<Longrightarrow> crc32c_1byte (le_word bs) c = crc_bytes bs c"
  by (auto simp: length_Suc_conv crc32c_1byte_exact le_word_byte simp del: le_word.simps(2))

section \<open>The hash\<close>

text \<open>What the manual of the processor says of its instructions: so many bits of the check.\<close>

definition crc_cpu_ok :: "crc_cpu \<Rightarrow> bool" where
  "crc_cpu_ok cpu \<longleftrightarrow> (\<forall>d c. crc32b cpu d c = crc_steps 8 (c XOR ucast d)) \<and> (\<forall>d c. crc32w cpu d c = crc_steps 16 (c XOR ucast d))
     \<and> (\<forall>d c. crc32l cpu d c = crc_steps 32 (c XOR d))
     \<and> (\<forall>d c. crc32q cpu d c = ucast (crc_steps 32 (crc_steps 32 (ucast c XOR ucast d) XOR ucast (drop_bit 32 d))))"

lemma ucast_ucast_32 [simp]: "ucast (ucast c :: u64) = c" for c :: u32
  by (rule bit_word_eqI) (auto simp: bit_simps)

lemma crc_calls:
  assumes "crc_cpu_ok cpu"
  shows "rte_hash_crc_1byte cpu alg d1 c = crc32c_1byte d1 c" "rte_hash_crc_2byte cpu alg d2 c = crc32c_2bytes d2 c"
    "rte_hash_crc_4byte cpu alg d4 c = crc32c_1word d4 c" "rte_hash_crc_8byte cpu alg d8 c = crc32c_2words d8 c"
  using assms unfolding crc_cpu_ok_def rte_hash_crc_1byte_def rte_hash_crc_2byte_def rte_hash_crc_4byte_def
    rte_hash_crc_8byte_def crc32c_sse42_u64_def crc32c_sse42_u64_mimic_def crc32c_words_steps crc32c_1byte_exact Let_def
  by (simp_all add: crc_bytes_def crc_byte_def)

lemma crc_bytes_append: "crc_bytes (xs @ ys) c = crc_bytes ys (crc_bytes xs c)"
  by (simp add: crc_bytes_def)

lemma crc_loop_run:
  assumes "crc_cpu_ok cpu"
  shows "crc_loop cpu alg mem n pd c = (if pd + 8 * n \<le> length mem \<or> n = 0 then Some (pd + 8 * n, crc_bytes (take (8 * n) (drop pd mem)) c) else None)"
proof (induction n arbitrary: pd c)
  case (Suc n)
  have "take (8 * Suc n) (drop pd mem) = take 8 (drop pd mem) @ take (8 * n) (drop (pd + 8) mem)"
    by (simp add: take_add ac_simps)
  then show ?case
    using Suc [of "pd + 8"] crc_tables_bytes(3) [of "take 8 (drop pd mem)"]
    by (auto simp: load_le_def crc_calls [OF assms] crc_bytes_append)
qed (simp add: crc_bytes_def)

lemma and_bit_nat: "(n AND push_bit k 1 \<noteq> 0) = odd (unat n div 2 ^ k)" for n :: u32
proof -
  have "(n AND push_bit k 1 \<noteq> 0) = bit n k" by (simp add: bit_iff_and_push_bit_not_eq_0)
  also have "\<dots> = bit (unat n) k" by (simp add: bit_unsigned_iff)
  finally show ?thesis by (simp add: bit_iff_odd)
qed

lemma rte_hash_crc_bytes:
  assumes cpu: "crc_cpu_ok cpu"
  shows "rte_hash_crc cpu alg data data_len c = (if unat data_len \<le> length data then Some (crc_bytes (take (unat data_len) data) c) else None)"
proof -
  define n where "n = unat data_len"
  define q b4 b2 b1 where "q = n div 8" and "b4 = (n div 4) mod 2" and "b2 = (n div 2) mod 2" and "b1 = n mod 2"
  have n: "n = 8 * q + 4 * b4 + 2 * b2 + b1"
    unfolding q_def b4_def b2_def b1_def using mod_mult2_eq [of n 4 2] mod_mult2_eq [of n 2 2] mult_div_mod_eq [of 8 n] by simp
  have b: "b4 = 0 \<or> b4 = 1" "b2 = 0 \<or> b2 = 1" "b1 = 0 \<or> b1 = 1" unfolding b4_def b2_def b1_def by auto
  have f: "(data_len AND 0x4 \<noteq> 0) = (b4 = 1)" "(data_len AND 0x2 \<noteq> 0) = (b2 = 1)" "(data_len AND 0x1 \<noteq> 0) = (b1 = 1)"
    using and_bit_nat [of data_len 2] and_bit_nat [of data_len 1] and_bit_nat [of data_len 0]
    by (simp_all add: b4_def b2_def b1_def n_def odd_iff_mod_2_eq_one)
  have dv: "unat (data_len div 8) = q" by (simp add: q_def n_def unat_div)
  have t: "crc_bytes (take n data) c = crc_bytes (take b1 (drop (8 * q + 4 * b4 + 2 * b2) data))
      (crc_bytes (take (2 * b2) (drop (8 * q + 4 * b4) data)) (crc_bytes (take (4 * b4) (drop (8 * q) data)) (crc_bytes (take (8 * q) data) c)))"
    unfolding n take_add crc_bytes_append ..
  have e: "crc_bytes [] c = c" for c by (simp add: crc_bytes_def)
  have l4: "load_le data p 4 = (if p + 4 \<le> length data then Some (le_word (take 4 (drop p data))) else None)"
    and l2: "load_le data p 2 = (if p + 2 \<le> length data then Some (le_word (take 2 (drop p data))) else None)"
    and l1: "load_le data p 1 = (if p + 1 \<le> length data then Some (le_word (take 1 (drop p data))) else None)" for p
    by (simp_all add: load_le_def)
  show ?thesis
    unfolding rte_hash_crc_def dv f crc_loop_run [OF cpu] crc_calls [OF cpu] n_def [symmetric] l4 l2 l1 t
    using b n by (elim disjE) (simp_all add: e crc_tables_bytes crc_table_byte)
qed

section \<open>Keys that differ in one place\<close>

lemma crc_step_inj: "crc_step x = 0 \<Longrightarrow> x = 0"
proof (cases "bit x 0")
  case True
  have "bit (crc_step x) 31" using True by (simp add: crc_step_def bit_xor_iff bit_drop_bit_eq bit_numeral_rec) (auto dest: bit_imp_le_length)
  then show "crc_step x = 0 \<Longrightarrow> x = 0" by auto
next
  case False
  assume z: "crc_step x = 0"
  have "\<not> bit x i" for i
  proof (cases i)
    case (Suc j)
    have "drop_bit 1 x = 0" using z False by (simp add: crc_step_def)
    then have "\<not> bit (drop_bit 1 x) j" by simp
    then show ?thesis using Suc by (simp add: bit_drop_bit_eq)
  qed (use False in simp)
  then show "x = 0" by (intro bit_word_eqI) simp
qed

lemma xor_zero_iff: "x XOR y = 0 \<longleftrightarrow> x = y" for x y :: "'a::len word"
  by (metis xor.right_neutral xor_self_eq bit.xor_left_self)

lemma crc_steps_inj: "crc_steps n x = crc_steps n y \<longleftrightarrow> x = y"
proof -
  have "crc_steps n x = 0 \<Longrightarrow> x = 0" for x by (induction n arbitrary: x) (auto dest: crc_step_inj)
  from this [of "x XOR y"] show ?thesis by (auto simp: crc_steps_xor xor_zero_iff)
qed

lemma crc_bytes_inj: "crc_bytes bs x = crc_bytes bs y \<longleftrightarrow> x = y"
proof (induction bs arbitrary: x y)
  case (Cons b bs)
  have "crc_byte b x = crc_byte b y \<longleftrightarrow> x = y" using xor_zero_iff by (metis crc_byte_def crc_steps_inj bit.xor_left_self xor.commute)
  then show ?case using Cons [of "crc_byte b x" "crc_byte b y"] by (simp add: crc_bytes_def)
qed (simp add: crc_bytes_def)

lemma le_word_inj: "length xs = 4 \<Longrightarrow> length ys = 4 \<Longrightarrow> (le_word xs :: u32) = le_word ys \<longleftrightarrow> xs = ys"
proof -
  assume l: "length xs = 4" "length ys = 4"
  have "xs = ys" if e: "(le_word xs :: u32) = le_word ys"
  proof (rule nth_equalityI)
    fix i assume i: "i < length xs"
    have "bit (xs ! i) j = bit (ys ! i) j" if "j < 8" for j
    proof -
      have "(8 * i + j) div 8 = i" "(8 * i + j) mod 8 = j" using that by auto
      then show ?thesis using arg_cong [OF e, of "\<lambda>w. bit w (8 * i + j)"] i l that by (simp add: bit_le_word)
    qed
    then show "xs ! i = ys ! i" by (intro bit_word_eqI) simp
  qed (simp add: l)
  then show ?thesis by auto
qed

lemma crc_bytes_window:
  assumes "length m = 4" "length m' = 4" "m \<noteq> m'"
  shows "crc_bytes (p @ m @ q) c \<noteq> crc_bytes (p @ m' @ q) c"
proof -
  have "crc_bytes m x \<noteq> crc_bytes m' x" for x
  proof -
    have "crc_bytes bs x = crc_steps 32 (x XOR le_word bs)" if "length bs = 4" for bs
      using crc_tables_bytes(2) [OF that, of x] by (simp add: crc32c_words_steps)
    moreover have "x XOR le_word m \<noteq> x XOR le_word m'" using le_word_inj [OF assms(1,2)] assms(3) by (metis bit.xor_left_self)
    ultimately show ?thesis using assms(1,2) by (simp add: crc_steps_inj)
  qed
  then show ?thesis by (simp add: crc_bytes_append crc_bytes_inj)
qed

text \<open>C38. The CRC hash. By tables or by any of the instructions, and whichever of them was chosen at the start,
  the hash is the bit-by-bit check of the first \<open>data_len\<close> bytes, and it is computed exactly when these lie in
  the data. Two keys that differ only within four neighbouring bytes never have the same hash, not even
  if they are hashed in different ways.\<close>

theorem rte_hash_crc_exact:
  assumes "crc_cpu_ok cpu" "crc_cpu_ok cpu'"
  shows "rte_hash_crc cpu alg data data_len c = (if unat data_len \<le> length data then Some (crc_bytes (take (unat data_len) data) c) else None)
    \<and> (length m = 4 \<and> length m' = 4 \<and> m \<noteq> m' \<and> unat n = length (p @ m @ q) \<longrightarrow>
        rte_hash_crc cpu alg (p @ m @ q) n c \<noteq> rte_hash_crc cpu' alg' (p @ m' @ q) n c)"
  using crc_bytes_window [of m m' p q c] by (simp add: rte_hash_crc_bytes [OF assms(1)] rte_hash_crc_bytes [OF assms(2)])

definition sample_cpu :: crc_cpu where
  "sample_cpu = \<lparr>crc32b = (\<lambda>d c. crc_steps 8 (c XOR ucast d)), crc32w = (\<lambda>d c. crc_steps 16 (c XOR ucast d)),
     crc32l = (\<lambda>d c. crc_steps 32 (c XOR d)),
     crc32q = (\<lambda>d c. ucast (crc_steps 32 (crc_steps 32 (ucast c XOR ucast d) XOR ucast (drop_bit 32 d))))\<rparr>"

text \<open>The usual check value: the digits 1 to 9 give 0xE3069283, complemented before and after.\<close>

theorem rte_hash_crc_exact_witness:
  "rte_hash_crc sample_cpu (rte_hash_crc_init_alg True) [49, 50, 51, 52, 53, 54, 55, 56, 57] 9 0xFFFFFFFF = Some (NOT 0xE3069283)
   \<and> rte_hash_crc sample_cpu CRC32_SW [49, 50, 51, 52] 5 0 = None
   \<and> rte_hash_crc sample_cpu CRC32_SW [1, 2, 3, 4, 5] 5 0 \<noteq> rte_hash_crc sample_cpu CRC32_SSE42 [1, 2, 3, 9, 5] 5 0"
proof -
  have ok: "crc_cpu_ok sample_cpu" by (simp add: crc_cpu_ok_def sample_cpu_def)
  note main = rte_hash_crc_exact [OF ok ok]
  have v: "crc_bytes [49, 50, 51, 52, 53, 54, 55, 56, 57] 0xFFFFFFFF = NOT 0xE3069283"
    by (simp add: crc_bytes_def crc_byte_def crc_steps_8 crc_step_def)
  show ?thesis
    using main [of "rte_hash_crc_init_alg True" "[49, 50, 51, 52, 53, 54, 55, 56, 57]" 9 "0xFFFFFFFF" "[]" "[]" 0 "[]" "[]" 0] v
      main [of CRC32_SW "[49, 50, 51, 52]" 5 0 "[]" "[]" 0 "[]" "[]" 0]
      main [of CRC32_SW "[]" 0 0 "[2, 3, 4, 5]" "[2, 3, 9, 5]" 5 "[1]" "[]" CRC32_SSE42]
    by simp
qed

end
