(* ===== verification/Rte_Memcpy.thy ===== *)
theory Rte_Memcpy
  imports Prelude "HOL-Library.Monad_Syntax"
begin

text \<open>
  The memory copy of rte\_memcpy.h with its three sets of vector instructions, over a memory of bytes of
  which some are not mapped: touching one of those is a fault (\<open>None\<close>). Lengths are 64-bit words, and a
  \<open>goto\<close> is a call of the definition for the code at its label.
\<close>

unbundle bit_operations_syntax

section \<open>Vectors\<close>

type_synonym mem = "u64 \<Rightarrow> u8 option"

fun load_vec :: "mem \<Rightarrow> u64 \<Rightarrow> nat \<Rightarrow> u8 list option" where
  "load_vec m a 0 = Some []"
| "load_vec m a (Suc w) = do {b \<leftarrow> m a; bs \<leftarrow> load_vec m (a + 1) w; Some (b # bs)}"

fun store_vec :: "u64 \<Rightarrow> u8 list \<Rightarrow> mem \<Rightarrow> mem option" where
  "store_vec a [] m = Some m"
| "store_vec a (b # bs) m = (if m a = None then None else store_vec (a + 1) bs (m(a \<mapsto> b)))"

text \<open>One vector of \<open>w\<close> bytes through a register; \<open>k\<close> of them one after the other; and \<open>k\<close> registers loaded, and
  stored.\<close>

definition mov :: "nat \<Rightarrow> u64 \<Rightarrow> u64 \<Rightarrow> mem \<Rightarrow> mem option" where
  "mov w dst src m = do {v \<leftarrow> load_vec m src w; store_vec dst v m}"

fun movs :: "nat \<Rightarrow> nat \<Rightarrow> u64 \<Rightarrow> u64 \<Rightarrow> mem \<Rightarrow> mem option" where
  "movs w 0 dst src m = Some m"
| "movs w (Suc k) dst src m = do {m \<leftarrow> mov w dst src m; movs w k (dst + of_nat w) (src + of_nat w) m}"

fun load_regs :: "nat \<Rightarrow> nat \<Rightarrow> u64 \<Rightarrow> mem \<Rightarrow> u8 list list option" where
  "load_regs w 0 src m = Some []"
| "load_regs w (Suc k) src m = do {v \<leftarrow> load_vec m src w; vs \<leftarrow> load_regs w k (src + of_nat w) m; Some (v # vs)}"

fun store_regs :: "nat \<Rightarrow> u64 \<Rightarrow> u8 list list \<Rightarrow> mem \<Rightarrow> mem option" where
  "store_regs w dst [] m = Some m"
| "store_regs w dst (v # vs) m = do {m \<leftarrow> store_vec dst v m; store_regs w (dst + of_nat w) vs m}"

section \<open>Short copies\<close>

definition rte_mov15_or_less :: "u64 \<Rightarrow> u64 \<Rightarrow> u64 \<Rightarrow> mem \<Rightarrow> mem option" where
  "rte_mov15_or_less dst src n m = do {
     (src, dst, m) \<leftarrow> (if n AND 8 \<noteq> 0 then do {m \<leftarrow> mov 8 dst src m; Some (src + 8, dst + 8, m)} else Some (src, dst, m));
     (src, dst, m) \<leftarrow> (if n AND 4 \<noteq> 0 then do {m \<leftarrow> mov 4 dst src m; Some (src + 4, dst + 4, m)} else Some (src, dst, m));
     (src, dst, m) \<leftarrow> (if n AND 2 \<noteq> 0 then do {m \<leftarrow> mov 2 dst src m; Some (src + 2, dst + 2, m)} else Some (src, dst, m));
     if n AND 1 \<noteq> 0 then mov 1 dst src m else Some m
   }"

definition rte_mov16 :: "u64 \<Rightarrow> u64 \<Rightarrow> mem \<Rightarrow> mem option" where
  "rte_mov16 = mov 16"

section \<open>With registers of 64 bytes\<close>

definition avx512_mov32 :: "u64 \<Rightarrow> u64 \<Rightarrow> mem \<Rightarrow> mem option" where
  "avx512_mov32 = mov 32"

definition avx512_mov64 :: "u64 \<Rightarrow> u64 \<Rightarrow> mem \<Rightarrow> mem option" where
  "avx512_mov64 = mov 64"

definition avx512_mov128 :: "u64 \<Rightarrow> u64 \<Rightarrow> mem \<Rightarrow> mem option" where
  "avx512_mov128 = movs 64 2"

definition avx512_mov256 :: "u64 \<Rightarrow> u64 \<Rightarrow> mem \<Rightarrow> mem option" where
  "avx512_mov256 = movs 64 4"

lemma unat_sub_block: "b \<le> unat n \<Longrightarrow> unat (n - of_nat b) = unat n - b" for n :: u64
proof -
  assume b: "b \<le> unat n"
  moreover have "unat n < 2 ^ 64" using unsigned_less [of n] by simp
  ultimately have "unat (of_nat b :: u64) = b" by (simp add: unat_of_nat)
  then show ?thesis using b by (subst unat_sub_le) simp_all
qed

lemma unat_sub_block_less: "0 < b \<Longrightarrow> b \<le> unat n \<Longrightarrow> unat (n - of_nat b) < unat n" for n :: u64
  by (simp add: unat_sub_block)

text \<open>The loop over blocks of \<open>k\<close> registers of \<open>w\<close> bytes, and its instances.\<close>

function mov_blocks :: "nat \<Rightarrow> nat \<Rightarrow> u64 \<Rightarrow> u64 \<Rightarrow> u64 \<Rightarrow> mem \<Rightarrow> mem option" where
  "mov_blocks w k dst src n m = (if 0 < w * k \<and> w * k \<le> unat n then do {
       vs \<leftarrow> load_regs w k src m;
       m \<leftarrow> store_regs w dst vs m;
       mov_blocks w k (dst + of_nat (w * k)) (src + of_nat (w * k)) (n - of_nat (w * k)) m
     } else Some m)"
  by pat_completeness auto

termination
  by (relation "measure (\<lambda>(w, k, dst, src, n, m). unat n)") (auto intro!: unat_sub_block_less simp del: of_nat_mult nat_0_less_mult_iff)

declare mov_blocks.simps [simp del]

definition avx512_mov128blocks :: "u64 \<Rightarrow> u64 \<Rightarrow> u64 \<Rightarrow> mem \<Rightarrow> mem option" where
  "avx512_mov128blocks = mov_blocks 64 2"

definition avx512_mov512blocks :: "u64 \<Rightarrow> u64 \<Rightarrow> u64 \<Rightarrow> mem \<Rightarrow> mem option" where
  "avx512_mov512blocks = mov_blocks 64 8"

definition copy_block_128_back63 :: "u64 \<Rightarrow> u64 \<Rightarrow> u64 \<Rightarrow> mem \<Rightarrow> mem option" where
  "copy_block_128_back63 dst src n m =
     (if n > 64 then do {m \<leftarrow> avx512_mov64 dst src m; avx512_mov64 (dst - 64 + n) (src - 64 + n) m}
      else if n > 0 then avx512_mov64 (dst - 64 + n) (src - 64 + n) m
      else Some m)"

definition avx512_copy_blocks :: "u64 \<Rightarrow> u64 \<Rightarrow> u64 \<Rightarrow> mem \<Rightarrow> mem option" where
  "avx512_copy_blocks dst src n m = do {
     m \<leftarrow> avx512_mov512blocks dst src n m;
     let bits = n; let n = n AND 511; let bits = bits - n; let src = src + bits; let dst = dst + bits;
     (n, dst, src, m) \<leftarrow> (if n \<ge> 128 then do {
         m \<leftarrow> avx512_mov128blocks dst src n m;
         let bits = n; let n = n AND 127; let bits = bits - n;
         Some (n, dst + bits, src + bits, m)
       } else Some (n, dst, src, m));
     copy_block_128_back63 dst src n m
   }"

definition avx512_memcpy_generic :: "u64 \<Rightarrow> u64 \<Rightarrow> u64 \<Rightarrow> mem \<Rightarrow> mem option" where
  "avx512_memcpy_generic dst src n m =
     (if n < 16 then rte_mov15_or_less dst src n m
      else if n \<le> 32 then do {m \<leftarrow> rte_mov16 dst src m; rte_mov16 (dst - 16 + n) (src - 16 + n) m}
      else if n \<le> 64 then do {m \<leftarrow> avx512_mov32 dst src m; avx512_mov32 (dst - 32 + n) (src - 32 + n) m}
      else if n \<le> 512 then do {
        (n, dst, src, m) \<leftarrow> (if n \<ge> 256 then do {m \<leftarrow> avx512_mov256 dst src m; Some (n - 256, dst + 256, src + 256, m)}
          else Some (n, dst, src, m));
        (n, dst, src, m) \<leftarrow> (if n \<ge> 128 then do {m \<leftarrow> avx512_mov128 dst src m; Some (n - 128, dst + 128, src + 128, m)}
          else Some (n, dst, src, m));
        copy_block_128_back63 dst src n m
      }
      else do {
        let dstofss = dst AND 0x3F;
        (n, dst, src, m) \<leftarrow> (if dstofss > 0 then do {
            let dstofss = 64 - dstofss;
            m \<leftarrow> avx512_mov64 dst src m;
            Some (n - dstofss, dst + dstofss, src + dstofss, m)
          } else Some (n, dst, src, m));
        avx512_copy_blocks dst src n m
      })"

section \<open>With registers of 32 bytes\<close>

definition avx2_mov32 :: "u64 \<Rightarrow> u64 \<Rightarrow> mem \<Rightarrow> mem option" where
  "avx2_mov32 = mov 32"

definition avx2_mov64 :: "u64 \<Rightarrow> u64 \<Rightarrow> mem \<Rightarrow> mem option" where
  "avx2_mov64 = movs 32 2"

definition avx2_mov128 :: "u64 \<Rightarrow> u64 \<Rightarrow> mem \<Rightarrow> mem option" where
  "avx2_mov128 = movs 32 4"

definition avx2_mov128blocks :: "u64 \<Rightarrow> u64 \<Rightarrow> u64 \<Rightarrow> mem \<Rightarrow> mem option" where
  "avx2_mov128blocks = mov_blocks 32 4"

definition copy_block_128_back31 :: "u64 \<Rightarrow> u64 \<Rightarrow> u64 \<Rightarrow> mem \<Rightarrow> mem option" where
  "copy_block_128_back31 dst src n m = do {
     (n, dst, src, m) \<leftarrow> (if n \<ge> 64 then do {m \<leftarrow> avx2_mov64 dst src m; Some (n - 64, dst + 64, src + 64, m)}
       else Some (n, dst, src, m));
     if n > 32 then do {m \<leftarrow> avx2_mov32 dst src m; avx2_mov32 (dst - 32 + n) (src - 32 + n) m}
     else if n > 0 then avx2_mov32 (dst - 32 + n) (src - 32 + n) m
     else Some m
   }"

definition avx2_copy_blocks :: "u64 \<Rightarrow> u64 \<Rightarrow> u64 \<Rightarrow> mem \<Rightarrow> mem option" where
  "avx2_copy_blocks dst src n m = do {
     m \<leftarrow> avx2_mov128blocks dst src n m;
     let bits = n; let n = n AND 127; let bits = bits - n;
     copy_block_128_back31 (dst + bits) (src + bits) n m
   }"

definition avx2_memcpy_generic :: "u64 \<Rightarrow> u64 \<Rightarrow> u64 \<Rightarrow> mem \<Rightarrow> mem option" where
  "avx2_memcpy_generic dst src n m =
     (if n < 16 then rte_mov15_or_less dst src n m
      else if n \<le> 32 then do {m \<leftarrow> rte_mov16 dst src m; rte_mov16 (dst - 16 + n) (src - 16 + n) m}
      else if n \<le> 48 then do {m \<leftarrow> rte_mov16 dst src m; m \<leftarrow> rte_mov16 (dst + 16) (src + 16) m; rte_mov16 (dst - 16 + n) (src - 16 + n) m}
      else if n \<le> 64 then do {m \<leftarrow> avx2_mov32 dst src m; avx2_mov32 (dst - 32 + n) (src - 32 + n) m}
      else if n \<le> 256 then do {
        (n, dst, src, m) \<leftarrow> (if n \<ge> 128 then do {m \<leftarrow> avx2_mov128 dst src m; Some (n - 128, dst + 128, src + 128, m)}
          else Some (n, dst, src, m));
        copy_block_128_back31 dst src n m
      }
      else do {
        let dstofss = dst AND 0x1F;
        (n, dst, src, m) \<leftarrow> (if dstofss > 0 then do {
            let dstofss = 32 - dstofss;
            m \<leftarrow> avx2_mov32 dst src m;
            Some (n - dstofss, dst + dstofss, src + dstofss, m)
          } else Some (n, dst, src, m));
        avx2_copy_blocks dst src n m
      })"

section \<open>With registers of 16 bytes\<close>

definition sse_mov32 :: "u64 \<Rightarrow> u64 \<Rightarrow> mem \<Rightarrow> mem option" where
  "sse_mov32 = movs 16 2"

definition sse_mov64 :: "u64 \<Rightarrow> u64 \<Rightarrow> mem \<Rightarrow> mem option" where
  "sse_mov64 = movs 16 4"

definition sse_mov128 :: "u64 \<Rightarrow> u64 \<Rightarrow> mem \<Rightarrow> mem option" where
  "sse_mov128 = movs 16 8"

definition sse_mov256 :: "u64 \<Rightarrow> u64 \<Rightarrow> mem \<Rightarrow> mem option" where
  "sse_mov256 = movs 16 16"

text \<open>Sixteen bytes out of two registers, from a place in the lower one; and out of each pair of neighbours.\<close>

definition mm_alignr_epi8 :: "u8 list \<Rightarrow> u8 list \<Rightarrow> nat \<Rightarrow> u8 list" where
  "mm_alignr_epi8 a b offset = take 16 (drop offset (b @ a))"

fun align_regs :: "nat \<Rightarrow> u8 list list \<Rightarrow> u8 list list" where
  "align_regs offset (x # y # xs) = mm_alignr_epi8 y x offset # align_regs offset (y # xs)"
| "align_regs offset xs = []"

text \<open>One of the two loops of the macro for misaligned sources: it loads a register more than it stores, from
  the aligned address before the source, while the rest allows that. That offsets are below 16 and that the
  length covers what is stored follows from the condition of the code, and is said to make the recursion end.\<close>

function left47_loop :: "nat \<Rightarrow> u64 \<Rightarrow> u64 \<Rightarrow> u64 \<Rightarrow> nat \<Rightarrow> mem \<Rightarrow> (u64 \<times> u64 \<times> u64 \<times> mem) option" where
  "left47_loop k dst src len offset m = (if 0 < k \<and> offset < 16 \<and> len \<ge> of_nat (16 * k) + 16 - of_nat offset \<and> 16 * k \<le> unat len then do {
       xs \<leftarrow> load_regs 16 (k + 1) (src - of_nat offset) m;
       m \<leftarrow> store_regs 16 dst (align_regs offset xs) m;
       left47_loop k (dst + of_nat (16 * k)) (src + of_nat (16 * k)) (len - of_nat (16 * k)) offset m
     } else Some (dst, src, len, m))"
  by pat_completeness auto

termination
  by (relation "measure (\<lambda>(k, dst, src, len, offset, m). unat len)") (auto intro!: unat_sub_block_less simp del: of_nat_mult nat_0_less_mult_iff)

declare left47_loop.simps [simp del]

definition MOVEUNALIGNED_LEFT47 :: "u64 \<Rightarrow> u64 \<Rightarrow> u64 \<Rightarrow> nat \<Rightarrow> mem \<Rightarrow> (u64 \<times> u64 \<times> u64 \<times> mem) option" where
  "MOVEUNALIGNED_LEFT47 dst src len offset m = do {
     (dst, src, len, m) \<leftarrow> left47_loop 8 dst src len offset m;
     let tmp = len;
     let len = ((len - 16 + of_nat offset) AND 127) + 16 - of_nat offset;
     let tmp = tmp - len;
     let src = src + tmp;
     let dst = dst + tmp;
     if len \<ge> 32 + 16 - of_nat offset then do {
       (dst, src, len, m) \<leftarrow> left47_loop 2 dst src len offset m;
       let tmp = len;
       let len = ((len - 16 + of_nat offset) AND 31) + 16 - of_nat offset;
       let tmp = tmp - len;
       Some (dst + tmp, src + tmp, len, m)
     } else Some (dst, src, len, m)
   }"

definition copy_block_64_back15 :: "u64 \<Rightarrow> u64 \<Rightarrow> u64 \<Rightarrow> mem \<Rightarrow> mem option" where
  "copy_block_64_back15 dst src n m = do {
     (n, dst, src, m) \<leftarrow> (if n \<ge> 32 then do {m \<leftarrow> sse_mov32 dst src m; Some (n - 32, dst + 32, src + 32, m)}
       else Some (n, dst, src, m));
     if n > 16 then do {m \<leftarrow> rte_mov16 dst src m; rte_mov16 (dst - 16 + n) (src - 16 + n) m}
     else if n > 0 then rte_mov16 (dst - 16 + n) (src - 16 + n) m
     else Some m
   }"

definition copy_block_128_back15 :: "u64 \<Rightarrow> u64 \<Rightarrow> u64 \<Rightarrow> mem \<Rightarrow> mem option" where
  "copy_block_128_back15 dst src n m = do {
     (n, dst, src, m) \<leftarrow> (if n \<ge> 64 then do {m \<leftarrow> sse_mov64 dst src m; Some (n - 64, dst + 64, src + 64, m)}
       else Some (n, dst, src, m));
     copy_block_64_back15 dst src n m
   }"

definition copy_block_255_back15 :: "u64 \<Rightarrow> u64 \<Rightarrow> u64 \<Rightarrow> mem \<Rightarrow> mem option" where
  "copy_block_255_back15 dst src n m = do {
     (n, dst, src, m) \<leftarrow> (if n \<ge> 128 then do {m \<leftarrow> sse_mov128 dst src m; Some (n - 128, dst + 128, src + 128, m)}
       else Some (n, dst, src, m));
     copy_block_128_back15 dst src n m
   }"

text \<open>A loop of whole moves, with the length and the pointers behind it.\<close>

function mov_while :: "(u64 \<Rightarrow> u64 \<Rightarrow> mem \<Rightarrow> mem option) \<Rightarrow> u64 \<Rightarrow> u64 \<Rightarrow> u64 \<Rightarrow> u64 \<Rightarrow> mem \<Rightarrow> (u64 \<times> u64 \<times> u64 \<times> mem) option" where
  "mov_while f b dst src n m = (if 0 < b \<and> n \<ge> b then do {m \<leftarrow> f dst src m; mov_while f b (dst + b) (src + b) (n - b) m}
     else Some (n, dst, src, m))"
  by pat_completeness auto

termination
  by (relation "measure (\<lambda>(f, b, dst, src, n, m). unat n)") (auto simp: word_less_nat_alt word_le_nat_alt unat_sub_le)

declare mov_while.simps [simp del]

definition sse_copy_blocks :: "u64 \<Rightarrow> u64 \<Rightarrow> u64 \<Rightarrow> mem \<Rightarrow> mem option" where
  "sse_copy_blocks dst src n m = do {
     let srcofs = src AND 0x0F;
     if srcofs = 0 then do {
       (n, dst, src, m) \<leftarrow> mov_while sse_mov256 256 dst src n m;
       copy_block_255_back15 dst src n m
     }
     else do {
       (dst, src, n, m) \<leftarrow> MOVEUNALIGNED_LEFT47 dst src n (unat srcofs) m;
       copy_block_64_back15 dst src n m
     }
   }"

definition sse_memcpy_generic :: "u64 \<Rightarrow> u64 \<Rightarrow> u64 \<Rightarrow> mem \<Rightarrow> mem option" where
  "sse_memcpy_generic dst src n m =
     (if n < 16 then rte_mov15_or_less dst src n m
      else if n \<le> 32 then do {m \<leftarrow> rte_mov16 dst src m; rte_mov16 (dst - 16 + n) (src - 16 + n) m}
      else if n \<le> 48 then do {m \<leftarrow> sse_mov32 dst src m; rte_mov16 (dst - 16 + n) (src - 16 + n) m}
      else if n \<le> 64 then do {m \<leftarrow> sse_mov32 dst src m; m \<leftarrow> rte_mov16 (dst + 32) (src + 32) m; rte_mov16 (dst - 16 + n) (src - 16 + n) m}
      else if n \<le> 128 then copy_block_128_back15 dst src n m
      else if n \<le> 512 then do {
        (n, dst, src, m) \<leftarrow> (if n \<ge> 256 then do {
            m \<leftarrow> sse_mov128 dst src m;
            m \<leftarrow> sse_mov128 (dst + 128) (src + 128) m;
            Some (n - 256, dst + 256, src + 256, m)
          } else Some (n, dst, src, m));
        copy_block_255_back15 dst src n m
      }
      else do {
        let dstofss = dst AND 0x0F;
        (n, dst, src, m) \<leftarrow> (if dstofss > 0 then do {
            let dstofss = 16 - dstofss + 16;
            m \<leftarrow> sse_mov32 dst src m;
            Some (n - dstofss, dst + dstofss, src + dstofss, m)
          } else Some (n, dst, src, m));
        sse_copy_blocks dst src n m
      })"

section \<open>The copy\<close>

datatype vectors = AVX512 | AVX2 | SSE

fun ALIGNMENT_MASK :: "vectors \<Rightarrow> u64" where
  "ALIGNMENT_MASK AVX512 = 0x3F"
| "ALIGNMENT_MASK AVX2 = 0x1F"
| "ALIGNMENT_MASK SSE = 0x0F"

fun rte_mov32 :: "vectors \<Rightarrow> u64 \<Rightarrow> u64 \<Rightarrow> mem \<Rightarrow> mem option" where
  "rte_mov32 AVX512 = avx512_mov32"
| "rte_mov32 AVX2 = avx2_mov32"
| "rte_mov32 SSE = sse_mov32"

fun rte_mov64 :: "vectors \<Rightarrow> u64 \<Rightarrow> u64 \<Rightarrow> mem \<Rightarrow> mem option" where
  "rte_mov64 AVX512 = avx512_mov64"
| "rte_mov64 AVX2 = avx2_mov64"
| "rte_mov64 SSE = sse_mov64"

fun rte_memcpy_generic :: "vectors \<Rightarrow> u64 \<Rightarrow> u64 \<Rightarrow> u64 \<Rightarrow> mem \<Rightarrow> mem option" where
  "rte_memcpy_generic AVX512 = avx512_memcpy_generic"
| "rte_memcpy_generic AVX2 = avx2_memcpy_generic"
| "rte_memcpy_generic SSE = sse_memcpy_generic"

definition rte_memcpy_aligned :: "vectors \<Rightarrow> u64 \<Rightarrow> u64 \<Rightarrow> u64 \<Rightarrow> mem \<Rightarrow> mem option" where
  "rte_memcpy_aligned v dst src n m =
     (if n < 16 then rte_mov15_or_less dst src n m
      else if n \<le> 32 then do {m \<leftarrow> rte_mov16 dst src m; rte_mov16 (dst - 16 + n) (src - 16 + n) m}
      else if n \<le> 64 then do {m \<leftarrow> rte_mov32 v dst src m; rte_mov32 v (dst - 32 + n) (src - 32 + n) m}
      else do {
        (n, dst, src, m) \<leftarrow> mov_while (rte_mov64 v) 64 dst src n m;
        rte_mov64 v (dst - 64 + n) (src - 64 + n) m
      })"

text \<open>The value returned is the destination.\<close>

definition rte_memcpy :: "vectors \<Rightarrow> u64 \<Rightarrow> u64 \<Rightarrow> u64 \<Rightarrow> mem \<Rightarrow> (u64 \<times> mem) option" where
  "rte_memcpy v dst src n m = map_option (\<lambda>m. (dst, m))
     (if (dst OR src) AND ALIGNMENT_MASK v = 0 then rte_memcpy_aligned v dst src n m else rte_memcpy_generic v dst src n m)"

end
