(* ===== verification/Rte_Memcpy_Correct.thy ===== *)
theory Rte_Memcpy_Correct
  imports Rte_Memcpy
begin

text \<open>
  The memory copy copies. Every move of the code takes bytes from some place of the source to the same place
  of the destination, at or before the first place not copied yet; so the destination always agrees with
  the source up to some place, which is followed through the code.
\<close>

unbundle bit_operations_syntax

section \<open>Copied up to a place\<close>

text \<open>Both ranges are mapped, and they do not overlap.\<close>

definition copy_ok :: "mem \<Rightarrow> u64 \<Rightarrow> u64 \<Rightarrow> nat \<Rightarrow> bool" where
  "copy_ok m d s N \<longleftrightarrow> N < 2 ^ 64 \<and> (\<forall>i < N. m (s + of_nat i) \<noteq> None \<and> m (d + of_nat i) \<noteq> None)
     \<and> (\<forall>i < N. \<forall>j < N. s + of_nat i \<noteq> d + of_nat j)"

definition copied :: "mem \<Rightarrow> u64 \<Rightarrow> u64 \<Rightarrow> nat \<Rightarrow> mem" where
  "copied m d s k = (\<lambda>a. if unat (a - d) < k then m (s + (a - d)) else m a)"

definition src_bytes :: "mem \<Rightarrow> u64 \<Rightarrow> nat \<Rightarrow> nat \<Rightarrow> u8 list" where
  "src_bytes m s p w = map (\<lambda>i. the (m (s + of_nat i))) [p..<p + w]"

lemma copied_0 [simp]: "copied m d s 0 = m"
  by (simp add: copied_def)

lemma unat_of_nat_64: "n < 2 ^ 64 \<Longrightarrow> unat (of_nat n :: u64) = n"
  by (simp add: unat_of_nat)

lemma copied_src:
  assumes "copy_ok m d s N" "k \<le> N" "i < N"
  shows "copied m d s k (s + of_nat i) = m (s + of_nat i)"
proof -
  have "\<not> unat (s + of_nat i - d) < k"
  proof
    assume l: "unat (s + of_nat i - d) < k"
    have "s + of_nat i = d + of_nat (unat (s + of_nat i - d))" by simp
    moreover have "unat (s + of_nat i - d) < N" using l assms(2) by simp
    ultimately show False using assms(1,3) unfolding copy_ok_def by blast
  qed
  then show ?thesis by (simp add: copied_def)
qed

lemma copied_mapped:
  assumes "copy_ok m d s N" "k \<le> N"
  shows "copied m d s k a = None \<longleftrightarrow> m a = None"
proof (cases "unat (a - d) < k")
  case True
  then have "unat (a - d) < N" using assms(2) by simp
  then have "m (s + of_nat (unat (a - d))) \<noteq> None" "m (d + of_nat (unat (a - d))) \<noteq> None" using assms(1) unfolding copy_ok_def by blast+
  then show ?thesis using True by (auto simp: copied_def)
qed (simp add: copied_def)

lemma copied_step:
  assumes "copy_ok m d s N" "p \<le> k" "p < N"
  shows "(copied m d s k)(d + of_nat p \<mapsto> the (m (s + of_nat p))) = copied m d s (max k (Suc p))"
proof
  fix a
  have N: "N < 2 ^ 64" using assms(1) by (simp add: copy_ok_def)
  then have p: "unat (of_nat p :: u64) = p" using assms(3) by (simp add: unat_of_nat_64)
  have some: "Some (the (m (s + of_nat p))) = m (s + of_nat p)" using assms(1,3) by (auto simp: copy_ok_def)
  show "((copied m d s k)(d + of_nat p \<mapsto> the (m (s + of_nat p)))) a = copied m d s (max k (Suc p)) a"
  proof (cases "a = d + of_nat p")
    case True
    then show ?thesis using p some by (simp add: copied_def less_max_iff_disj)
  next
    case False
    have "unat (a - d) \<noteq> p"
    proof
      assume "unat (a - d) = p"
      moreover have "a = d + of_nat (unat (a - d))" by simp
      ultimately show False using False by simp
    qed
    then show ?thesis using False assms(2) by (auto simp: copied_def)
  qed
qed

section \<open>Vectors\<close>

lemma load_vec_iff: "load_vec m a w = Some v \<longleftrightarrow> length v = w \<and> (\<forall>i < w. m (a + of_nat i) = Some (v ! i))"
proof (induction w arbitrary: a v)
  case (Suc w)
  show ?case
  proof (cases v)
    case (Cons b bs)
    have "(\<forall>i < Suc w. m (a + of_nat i) = Some ((b # bs) ! i)) \<longleftrightarrow> m a = Some b \<and> (\<forall>i < w. m (a + 1 + of_nat i) = Some (bs ! i))"
      unfolding All_less_Suc2 by (simp add: ac_simps)
    moreover have "load_vec m a (Suc w) = Some (b # bs) \<longleftrightarrow> m a = Some b \<and> load_vec m (a + 1) w = Some bs"
      by (auto split: Option.bind_splits)
    ultimately show ?thesis using Suc Cons by auto
  qed (auto split: Option.bind_splits)
qed auto

lemma load_src:
  assumes "copy_ok m d s N" "k \<le> N" "p + w \<le> N"
  shows "load_vec (copied m d s k) (s + of_nat p) w = Some (src_bytes m s p w)"
proof -
  have "copied m d s k (s + of_nat p + of_nat i) = Some (src_bytes m s p w ! i)" if "i < w" for i
  proof -
    have i: "p + i < N" using that assms(3) by simp
    then have "m (s + of_nat (p + i)) \<noteq> None" using assms(1) unfolding copy_ok_def by blast
    then show ?thesis using copied_src [OF assms(1,2) i] that by (auto simp: src_bytes_def add.assoc)
  qed
  then show ?thesis by (simp add: load_vec_iff src_bytes_def)
qed

lemma store_vec_Cons: "m a \<noteq> None \<Longrightarrow> store_vec a (b # bs) m = store_vec (a + 1) bs (m(a \<mapsto> b))"
  by auto

lemma store_dst:
  assumes "copy_ok m d s N"
  shows "p \<le> k \<Longrightarrow> k \<le> N \<Longrightarrow> p + w \<le> N \<Longrightarrow> store_vec (d + of_nat p) (src_bytes m s p w) (copied m d s k) = Some (copied m d s (max k (p + w)))"
proof (induction w arbitrary: p k)
  case 0
  then show ?case by (simp add: src_bytes_def max_absorb1)
next
  case (Suc w)
  have c: "src_bytes m s p (Suc w) = the (m (s + of_nat p)) # src_bytes m s (Suc p) w"
    by (simp add: src_bytes_def upt_conv_Cons del: upt_Suc)
  have p: "p < N" using Suc.prems(3) by simp
  have "copied m d s k (d + of_nat p) \<noteq> None"
    using copied_mapped [OF assms Suc.prems(2)] assms p by (simp add: copy_ok_def)
  then have "store_vec (d + of_nat p) (src_bytes m s p (Suc w)) (copied m d s k)
      = store_vec (d + of_nat (Suc p)) (src_bytes m s (Suc p) w) (copied m d s (max k (Suc p)))"
    unfolding c copied_step [OF assms Suc.prems(1) p, symmetric] by (subst store_vec_Cons) (simp_all only: of_nat_Suc ac_simps not_False_eq_True)
  also have "\<dots> = Some (copied m d s (max (max k (Suc p)) (Suc p + w)))"
    by (rule Suc.IH) (use Suc.prems in auto)
  finally show ?case by (simp add: max.assoc)
qed

section \<open>Where the code is\<close>

text \<open>The pointers stand at place \<open>p\<close>, the length is the rest, and everything before \<open>k\<close>, at least up to here,
  is copied.\<close>

definition here :: "mem \<Rightarrow> u64 \<Rightarrow> u64 \<Rightarrow> nat \<Rightarrow> nat \<Rightarrow> nat \<Rightarrow> u64 \<Rightarrow> u64 \<Rightarrow> mem \<Rightarrow> bool" where
  "here m d s N p r dst src m' \<longleftrightarrow> copy_ok m d s N \<and> p + r = N \<and> dst = d + of_nat p \<and> src = s + of_nat p
     \<and> (\<exists>k. p \<le> k \<and> k \<le> N \<and> m' = copied m d s k)"

text \<open>A move at this place or one before copies on; the states before and after it.\<close>

lemma mov_at:
  assumes "copy_ok m d s N" "p \<le> k" "k \<le> N" "p + w \<le> N"
  shows "mov w (d + of_nat p) (s + of_nat p) (copied m d s k) = Some (copied m d s (max k (p + w)))"
  by (simp add: mov_def load_src [OF assms(1,3,4)] store_dst [OF assms])

lemma movs_at:
  "copy_ok m d s N \<Longrightarrow> p \<le> k \<Longrightarrow> k \<le> N \<Longrightarrow> p + w * j \<le> N \<Longrightarrow>
    movs w j (d + of_nat p) (s + of_nat p) (copied m d s k) = Some (copied m d s (max k (p + w * j)))"
proof (induction j arbitrary: p k)
  case (Suc j)
  have "movs w (Suc j) (d + of_nat p) (s + of_nat p) (copied m d s k)
      = movs w j (d + of_nat (p + w)) (s + of_nat (p + w)) (copied m d s (max k (p + w)))"
    using mov_at [OF Suc.prems(1,2,3), of w] Suc.prems(4) by (simp add: ac_simps)
  also have "\<dots> = Some (copied m d s (max (max k (p + w)) (p + w + w * j)))"
    by (rule Suc.IH) (use Suc.prems in auto)
  finally show ?case by (simp add: max.assoc ac_simps)
qed simp

lemma load_regs_at:
  "copy_ok m d s N \<Longrightarrow> k \<le> N \<Longrightarrow> p + w * j \<le> N \<Longrightarrow>
    load_regs w j (s + of_nat p) (copied m d s k) = Some (map (\<lambda>i. src_bytes m s (p + w * i) w) [0..<j])"
proof (induction j arbitrary: p)
  case (Suc j)
  have "map (\<lambda>i. src_bytes m s (p + w * i) w) [0..<Suc j] = src_bytes m s p w # map (\<lambda>i. src_bytes m s (p + w + w * i) w) [0..<j]"
    by (simp only: upt_conv_Cons [of 0 "Suc j"] map_Suc_upt [symmetric]) (simp add: o_def ac_simps)
  then show ?case
    using Suc.IH [of "p + w"] Suc.prems load_src [OF Suc.prems(1,2), of p w] by (simp add: ac_simps)
qed simp

lemma store_regs_at:
  "copy_ok m d s N \<Longrightarrow> p \<le> k \<Longrightarrow> k \<le> N \<Longrightarrow> p + w * j \<le> N \<Longrightarrow>
    store_regs w (d + of_nat p) (map (\<lambda>i. src_bytes m s (p + w * i) w) [0..<j]) (copied m d s k) = Some (copied m d s (max k (p + w * j)))"
proof (induction j arbitrary: p k)
  case (Suc j)
  have m: "map (\<lambda>i. src_bytes m s (p + w * i) w) [0..<Suc j] = src_bytes m s p w # map (\<lambda>i. src_bytes m s (p + w + w * i) w) [0..<j]"
    by (simp only: upt_conv_Cons [of 0 "Suc j"] map_Suc_upt [symmetric]) (simp add: o_def ac_simps)
  have "store_regs w (d + of_nat p) (map (\<lambda>i. src_bytes m s (p + w * i) w) [0..<Suc j]) (copied m d s k)
      = store_regs w (d + of_nat (p + w)) (map (\<lambda>i. src_bytes m s (p + w + w * i) w) [0..<j]) (copied m d s (max k (p + w)))"
    unfolding m using store_dst [OF Suc.prems(1,2,3), of w] Suc.prems(4) by (simp add: ac_simps)
  also have "\<dots> = Some (copied m d s (max (max k (p + w)) (p + w + w * j)))"
    by (rule Suc.IH) (use Suc.prems in auto)
  finally show ?case by (simp add: max.assoc ac_simps)
qed simp

section \<open>Steps\<close>

lemma here_len:
  assumes "here m d s N p r dst src m'"
  shows "p + r = N" "r < 2 ^ 64" "unat (of_nat r :: u64) = r"
  using assms unat_of_nat_64 [of r] by (auto simp: here_def copy_ok_def)

text \<open>A move of the next bytes, and the pointers behind it.\<close>

lemma hereE:
  assumes "here m d s N p r dst src m'"
  obtains k where "copy_ok m d s N" "p + r = N" "dst = d + of_nat p" "src = s + of_nat p" "p \<le> k" "k \<le> N" "m' = copied m d s k"
  using assms by (auto simp: here_def)

lemma hereI:
  assumes "copy_ok m d s N" "p + r = N" "p \<le> k" "k \<le> N"
  shows "here m d s N p r (d + of_nat p) (s + of_nat p) (copied m d s k)"
  using assms by (auto simp: here_def)

lemma here_shift:
  assumes "copy_ok m d s N" "p + r = N" "q \<le> r" "p + q \<le> k" "k \<le> N"
  shows "here m d s N (p + q) (r - q) (d + of_nat p + of_nat q) (s + of_nat p + of_nat q) (copied m d s k)"
  using hereI [OF assms(1) _ assms(4,5), of "r - q"] assms(2,3) by (simp add: add.assoc)

lemma here_movs:
  assumes "here m d s N p r dst src m'" "w * j \<le> r" "q \<le> w * j"
  shows "\<exists>m''. movs w j dst src m' = Some m'' \<and> here m d s N p r dst src m''
    \<and> here m d s N (p + q) (r - q) (dst + of_nat q) (src + of_nat q) m''"
proof -
  from assms(1) obtain k where k: "copy_ok m d s N" "p + r = N" "dst = d + of_nat p" "src = s + of_nat p" "p \<le> k" "k \<le> N" "m' = copied m d s k"
    by (rule hereE)
  define k' where "k' = max k (p + w * j)"
  have "movs w j dst src m' = Some (copied m d s k')"
    unfolding k(3,4,7) k'_def by (rule movs_at) (use k assms(2) in auto)
  moreover have k': "p \<le> k'" "k' \<le> N" "p + q \<le> k'" using k(2,5,6) assms(2,3) by (auto simp: k'_def)
  moreover have "here m d s N p r dst src (copied m d s k')" unfolding k(3,4) by (rule hereI [OF k(1,2) k'(1,2)])
  moreover have "here m d s N (p + q) (r - q) (dst + of_nat q) (src + of_nat q) (copied m d s k')"
    unfolding k(3,4) by (rule here_shift [OF k(1,2) _ k'(3,2)]) (use assms(2,3) in linarith)
  ultimately show ?thesis by blast
qed

lemma movs_1: "movs w 1 = mov w"
  by (rule ext)+ (simp add: mov_def split: Option.bind_splits)

lemmas here_mov = here_movs [where j = 1, unfolded movs_1 mult_1_right]

text \<open>A last move that ends where the copy ends, from a place at or before this one, or before what has just
  been moved.\<close>

definition done_copy :: "mem \<Rightarrow> u64 \<Rightarrow> u64 \<Rightarrow> nat \<Rightarrow> mem option \<Rightarrow> bool" where
  "done_copy m d s N res \<longleftrightarrow> res = Some (copied m d s N)"

lemma back_addr: "b \<le> p + r \<Longrightarrow> x + of_nat p - of_nat b + of_nat r = x + of_nat (p + r - b)" for x :: u64
  by (simp add: of_nat_diff algebra_simps)

lemma back_movs:
  assumes "copy_ok m d s N" "p + r = N" "w * j \<le> N" "N \<le> k + w * j" "k \<le> N"
  shows "done_copy m d s N (movs w j (d + of_nat p - of_nat (w * j) + of_nat r) (s + of_nat p - of_nat (w * j) + of_nat r) (copied m d s k))"
proof -
  have "N - w * j + w * j = N" using assms(3) by simp
  moreover have "max k N = N" using assms(5) by simp
  ultimately show ?thesis
    using movs_at [OF assms(1), of "N - w * j" k w j] assms back_addr [of "w * j" p r, unfolded assms(2)]
    unfolding done_copy_def by (metis add_le_cancel_right le_add_diff_inverse2 order_refl)
qed

lemma here_back:
  assumes "here m d s N p r dst src m'" "r \<le> w * j" "w * j \<le> N"
  shows "done_copy m d s N (movs w j (dst - of_nat (w * j) + of_nat r) (src - of_nat (w * j) + of_nat r) m')"
  using assms back_movs [of m d s N p r w j] by (auto simp: here_def)

lemma here_move_back:
  assumes "here m d s N p r dst src m'" "w * j \<le> r" "r \<le> 2 * (w * j)"
  shows "done_copy m d s N (do {m \<leftarrow> movs w j dst src m'; movs w j (dst - of_nat (w * j) + of_nat r) (src - of_nat (w * j) + of_nat r) m})"
proof -
  obtain k where k: "copy_ok m d s N" "p + r = N" "dst = d + of_nat p" "src = s + of_nat p" "p \<le> k" "k \<le> N" "m' = copied m d s k"
    using assms(1) by (auto simp: here_def)
  have "movs w j dst src m' = Some (copied m d s (max k (p + w * j)))"
    unfolding k(3,4,7) by (rule movs_at) (use k assms(2) in auto)
  then show ?thesis
    using back_movs [of m d s N p r w j "max k (p + w * j)"] k assms(2,3) by simp
qed

lemma here_done:
  assumes "here m d s N p 0 dst src m'"
  shows "done_copy m d s N (Some m')"
  using assms by (auto simp: here_def done_copy_def)

lemma here_start: "copy_ok m d s N \<Longrightarrow> here m d s N 0 N d s m"
  unfolding here_def by (auto intro: exI [of _ 0])

text \<open>The loop over blocks.\<close>

lemma mov_blocks_eq:
  assumes "b = w * j"
  shows "mov_blocks w j dst src n m = (if 0 < b \<and> b \<le> unat n then do {
       vs \<leftarrow> load_regs w j src m; m \<leftarrow> store_regs w dst vs m; mov_blocks w j (dst + of_nat b) (src + of_nat b) (n - of_nat b) m
     } else Some m)"
  unfolding assms by (rule mov_blocks.simps)

lemma here_blocks:
  assumes b: "b = w * j" "0 < b"
  shows "here m d s N p r dst src m' \<Longrightarrow> \<exists>m''. mov_blocks w j dst src (of_nat r) m' = Some m''
    \<and> here m d s N (p + (r - r mod b)) (r mod b) (dst + of_nat (r - r mod b)) (src + of_nat (r - r mod b)) m''"
proof (induction r arbitrary: p dst src m' rule: less_induct)
  case (less r)
  note h = here_len [OF less.prems]
  show ?case
  proof (cases "b \<le> r")
    case False
    then show ?thesis using less.prems h(3) b(2) by (subst mov_blocks_eq [OF b(1)]) simp
  next
    case True
    from less.prems obtain k where k: "copy_ok m d s N" "p + r = N" "dst = d + of_nat p" "src = s + of_nat p" "p \<le> k" "k \<le> N" "m' = copied m d s k"
      by (rule hereE)
    define k' where "k' = max k (p + b)"
    have k': "k' \<le> N" "p + b \<le> k'" using k(2,6) True by (auto simp: k'_def)
    have l: "load_regs w j src m' = Some (map (\<lambda>i. src_bytes m s (p + w * i) w) [0..<j])"
      unfolding k(4,7) by (rule load_regs_at) (use k(1,2,6) True b in auto)
    have st: "store_regs w dst (map (\<lambda>i. src_bytes m s (p + w * i) w) [0..<j]) m' = Some (copied m d s k')"
      unfolding k(3,7) k'_def b(1) by (rule store_regs_at) (use k(1,2,5,6) True b in auto)
    have "here m d s N (p + b) (r - b) (dst + of_nat b) (src + of_nat b) (copied m d s k')"
      unfolding k(3,4) by (rule here_shift [OF k(1,2) True k'(2,1)])
    from less.IH [OF _ this] b(2) True obtain m'' where m'':
      "mov_blocks w j (dst + of_nat b) (src + of_nat b) (of_nat (r - b)) (copied m d s k') = Some m''"
      "here m d s N (p + b + (r - b - (r - b) mod b)) ((r - b) mod b) (dst + of_nat b + of_nat (r - b - (r - b) mod b)) (src + of_nat b + of_nat (r - b - (r - b) mod b)) m''"
      by force
    have q: "(r - b) mod b = r mod b" using le_mod_geq [OF True] by simp
    have "r mod b \<le> r - b" using mod_less_eq_dividend [of "r - b" b] q by simp
    then have e: "b + (r - b - r mod b) = r - r mod b" using True by simp
    have "(of_nat (r - b) :: u64) = of_nat r - of_nat b" using True by (simp add: of_nat_diff)
    then have "mov_blocks w j dst src (of_nat r) m' = Some m''"
      using l st m''(1) b(2) True h(3) by (subst mov_blocks_eq [OF b(1)]) simp
    moreover have "p + b + (r - b - r mod b) = p + (r - r mod b)" by (simp only: add.assoc e)
    moreover have "x + of_nat b + of_nat (r - b - r mod b) = x + of_nat (r - r mod b)" for x :: u64
      by (simp only: add.assoc of_nat_add [symmetric] e)
    ultimately show ?thesis using m''(2) unfolding q by metis
  qed
qed

section \<open>Short copies\<close>

lemma and_bit:
  assumes "r < 2 ^ 64"
  shows "((of_nat r :: u64) AND push_bit i 1 \<noteq> 0) = (2 ^ i \<le> r mod (2 * 2 ^ i))"
proof -
  have "((of_nat r :: u64) AND push_bit i 1 \<noteq> 0) = bit (of_nat r :: u64) i" by (simp add: bit_iff_and_push_bit_not_eq_0)
  also have "\<dots> = bit r i"
    using unat_of_nat_64 [OF assms] by (metis bit_unsigned_iff bit_imp_possible_bit possible_bit_nat)
  also have "\<dots> = odd (r div 2 ^ i)" by (simp add: bit_iff_odd)
  also have "\<dots> = (2 ^ i \<le> r mod (2 * 2 ^ i))"
  proof -
    have "r mod (2 ^ i * 2) = 2 ^ i * (r div 2 ^ i mod 2) + r mod 2 ^ i" by (rule mod_mult2_eq)
    moreover have "r mod 2 ^ i < 2 ^ i" by simp
    ultimately show ?thesis by (cases "even (r div 2 ^ i)") (simp_all add: mod_2_eq_odd mult.commute not_le)
  qed
  finally show ?thesis .
qed

text \<open>One stage: the move is made when its bit is set.\<close>

lemma here_bit:
  assumes "here m d s N p r dst src m'" "g = (b \<le> r)" "r < 2 * b"
  shows "\<exists>dst' src' m'' p'. (if g then do {m \<leftarrow> mov b dst src m'; Some (src + of_nat b, dst + of_nat b, m)} else Some (src, dst, m')) = Some (src', dst', m'')
    \<and> here m d s N p' (r mod b) dst' src' m''"
proof (cases "b \<le> r")
  case True
  then have "r mod b = r - b" using assms(3) by (simp add: le_mod_geq)
  then show ?thesis using here_mov [OF assms(1), of b b] True assms(2) by auto
qed (use assms(1,2) in auto)

lemma mov15_copies:
  assumes "copy_ok m d s N" "N < 16"
  shows "done_copy m d s N (rte_mov15_or_less d s (of_nat N) m)"
proof -
  have N: "N < 2 ^ 64" using assms(1) by (simp add: copy_ok_def)
  have g: "((of_nat N :: u64) AND 8 \<noteq> 0) = (8 \<le> N)" "((of_nat N :: u64) AND 4 \<noteq> 0) = (4 \<le> N mod 8)"
    "((of_nat N :: u64) AND 2 \<noteq> 0) = (2 \<le> N mod 8 mod 4)" "((of_nat N :: u64) AND 1 \<noteq> 0) = (1 \<le> N mod 8 mod 4 mod 2)"
    using and_bit [OF N, of 3] and_bit [OF N, of 2] and_bit [OF N, of 1] and_bit [OF N, of 0] assms(2)
    by (simp_all add: mod_mod_cancel)
  obtain d1 s1 m1 p1 where 1: "(if (of_nat N :: u64) AND 8 \<noteq> 0 then do {m \<leftarrow> mov 8 d s m; Some (s + 8, d + 8, m)} else Some (s, d, m)) = Some (s1, d1, m1)"
    "here m d s N p1 (N mod 8) d1 s1 m1"
    using here_bit [OF here_start [OF assms(1)] g(1)] assms(2) unfolding of_nat_numeral by auto
  obtain d2 s2 m2 p2 where 2: "(if (of_nat N :: u64) AND 4 \<noteq> 0 then do {m \<leftarrow> mov 4 d1 s1 m1; Some (s1 + 4, d1 + 4, m)} else Some (s1, d1, m1)) = Some (s2, d2, m2)"
    "here m d s N p2 (N mod 8 mod 4) d2 s2 m2"
    using here_bit [OF 1(2) g(2)] unfolding of_nat_numeral by auto
  obtain d3 s3 m3 p3 where 3: "(if (of_nat N :: u64) AND 2 \<noteq> 0 then do {m \<leftarrow> mov 2 d2 s2 m2; Some (s2 + 2, d2 + 2, m)} else Some (s2, d2, m2)) = Some (s3, d3, m3)"
    "here m d s N p3 (N mod 8 mod 4 mod 2) d3 s3 m3"
    using here_bit [OF 2(2) g(3)] unfolding of_nat_numeral by auto
  have "done_copy m d s N (if (of_nat N :: u64) AND 1 \<noteq> 0 then mov 1 d3 s3 m3 else Some m3)"
  proof (cases "1 \<le> N mod 8 mod 4 mod 2")
    case True
    then have "N mod 8 mod 4 mod 2 - 1 = 0" by simp
    then show ?thesis using here_mov [OF 3(2), of 1 1] True here_done unfolding g(4) by auto
  next
    case False
    then have z: "N mod 8 mod 4 mod 2 = 0" by simp
    show ?thesis using here_done [OF 3(2) [unfolded z]] False unfolding g(4) by simp
  qed
  then show ?thesis unfolding rte_mov15_or_less_def using 1(1) 2(1) 3(1) by simp
qed

section \<open>Stages of the longer copies\<close>

text \<open>A move of a whole block when the rest allows it, with the pointers behind it.\<close>

lemma here_stage:
  assumes "here m d s N p r dst src m'" "b = w * j" "g = (b \<le> r)"
  shows "\<exists>dst' src' m'' p'. (if g then do {m \<leftarrow> movs w j dst src m'; Some ((of_nat r :: u64) - of_nat b, dst + of_nat b, src + of_nat b, m)}
      else Some (of_nat r, dst, src, m')) = Some (of_nat (if b \<le> r then r - b else r), dst', src', m'')
    \<and> here m d s N p' (if b \<le> r then r - b else r) dst' src' m''"
proof (cases "b \<le> r")
  case True
  have "(of_nat (r - b) :: u64) = of_nat r - of_nat b" using True by (simp add: of_nat_diff)
  then show ?thesis using here_movs [OF assms(1), of w j b] True assms(2,3) by fastforce
qed (use assms(1,3) in auto)

lemma word_guards:
  assumes "r < 2 ^ 64"
  shows "c \<le> (of_nat r :: u64) \<longleftrightarrow> unat c \<le> r" "(of_nat r :: u64) \<le> c \<longleftrightarrow> r \<le> unat c"
    "(of_nat r :: u64) < c \<longleftrightarrow> r < unat c" "c < (of_nat r :: u64) \<longleftrightarrow> unat c < r"
  using unat_of_nat_64 [OF assms] by (simp_all add: word_le_nat_alt word_less_nat_alt)

lemma movs_64_1: "mov 16 = movs 16 1" "mov 32 = movs 32 1" "mov 64 = movs 64 1"
  by (simp_all only: movs_1)

lemma back63_copies:
  assumes "here m d s N p r dst src m'" "r \<le> 128" "64 \<le> N"
  shows "done_copy m d s N (copy_block_128_back63 dst src (of_nat r) m')"
proof -
  note h = here_len [OF assms(1)]
  consider "64 < r" | "0 < r" "r \<le> 64" | "r = 0" by linarith
  then show ?thesis
  proof cases
    case 1
    then show ?thesis using here_move_back [OF assms(1), of 64 1] assms(2) h(2)
      by (simp add: copy_block_128_back63_def avx512_mov64_def word_guards movs_64_1 del: movs.simps)
  next
    case 2
    then show ?thesis using here_back [OF assms(1), of 64 1] assms(3) h(2)
      by (simp add: copy_block_128_back63_def avx512_mov64_def word_guards movs_64_1 del: movs.simps)
  next
    case 3
    then show ?thesis using here_done assms(1) by (simp add: copy_block_128_back63_def)
  qed
qed

lemma and_mask_nat: "r < 2 ^ 64 \<Longrightarrow> (of_nat r :: u64) AND mask k = of_nat (r mod 2 ^ k)"
proof -
  assume r: "r < 2 ^ 64"
  have "r mod 2 ^ k < 2 ^ 64" using r le_less_trans mod_less_eq_dividend by blast
  then show ?thesis using r by (simp add: word_unat_eq_iff unat_and_mask unat_of_nat_64)
qed

lemma bits_eq: "(of_nat r :: u64) - of_nat (r mod b) = of_nat (r - r mod b)"
  by (simp add: of_nat_diff)

text \<open>Aligning the destination: a whole move, of which a part counts.\<close>

lemma here_align:
  assumes "here m d s N p r dst src m'" "w * j \<le> r" "g = (0 < (ofs :: u64))" "ofs = 0 \<or> q = of_nat q' \<and> q' \<le> w * j" "ofs \<noteq> 0 \<or> q' = 0"
  shows "\<exists>dst' src' m''. (if g then do {m \<leftarrow> movs w j dst src m'; Some ((of_nat r :: u64) - q, dst + q, src + q, m)}
      else Some (of_nat r, dst, src, m')) = Some (of_nat (r - q'), dst', src', m'')
    \<and> here m d s N (p + q') (r - q') dst' src' m''"
proof (cases "ofs = 0")
  case True
  then show ?thesis using assms(1,3,5) by (auto intro: exI [of _ dst] exI [of _ src])
next
  case False
  then have q: "q = of_nat q'" "q' \<le> w * j" using assms(4) by auto
  have "(of_nat (r - q') :: u64) = of_nat r - of_nat q'" using q(2) assms(2) by (simp add: of_nat_diff)
  moreover have "0 < ofs" using False by (simp add: word_neq_0_conv)
  ultimately show ?thesis using here_movs [OF assms(1,2) q(2)] assms(3) q(1) by fastforce
qed

section \<open>Registers of 64 bytes\<close>

lemma avx512_tail:
  assumes h: "here m d s N p r dst src m'" and N: "64 \<le> N"
  shows "done_copy m d s N (avx512_copy_blocks dst src (of_nat r) m')"
proof -
  define r1 where "r1 = r mod 512"
  have a: "(of_nat r :: u64) AND 511 = of_nat r1"
    using and_mask_nat [OF here_len(2) [OF h], of 9] by (simp add: r1_def mask_eq_exp_minus_1)
  obtain m1 where 1: "avx512_mov512blocks dst src (of_nat r) m' = Some m1"
    "here m d s N (p + (r - r1)) r1 (dst + of_nat (r - r1)) (src + of_nat (r - r1)) m1"
    using here_blocks [of 512 64 8, OF _ _ h] unfolding avx512_mov512blocks_def r1_def by auto
  let ?d = "dst + of_nat (r - r1)" and ?s = "src + of_nat (r - r1)"
  have b: "(of_nat r1 :: u64) AND 127 = of_nat (r1 mod 128)"
    using and_mask_nat [OF here_len(2) [OF 1(2)], of 7] by (simp add: mask_eq_exp_minus_1)
  obtain m2 where 2: "avx512_mov128blocks ?d ?s (of_nat r1) m1 = Some m2"
    "here m d s N (p + (r - r1) + (r1 - r1 mod 128)) (r1 mod 128) (?d + of_nat (r1 - r1 mod 128)) (?s + of_nat (r1 - r1 mod 128)) m2"
    using here_blocks [of 128 64 2, OF _ _ 1(2)] unfolding avx512_mov128blocks_def by auto
  have e: "(of_nat r :: u64) - of_nat r1 = of_nat (r - r1)" unfolding r1_def by (rule bits_eq)
  show ?thesis
  proof (cases "128 \<le> r1")
    case True
    have "done_copy m d s N (copy_block_128_back63 (?d + of_nat (r1 - r1 mod 128)) (?s + of_nat (r1 - r1 mod 128)) (of_nat (r1 mod 128)) m2)"
      by (rule back63_copies [OF 2(2) _ N]) simp
    then show ?thesis using 1(1) 2(1) True word_guards(1) [OF here_len(2) [OF 1(2)], of 128] unfolding avx512_copy_blocks_def a b e bits_eq Let_def by simp
  next
    case False
    have "done_copy m d s N (copy_block_128_back63 ?d ?s (of_nat r1) m1)"
      by (rule back63_copies [OF 1(2) _ N]) (use False in simp)
    then show ?thesis using 1(1) False word_guards(1) [OF here_len(2) [OF 1(2)], of 128] unfolding avx512_copy_blocks_def a b e bits_eq Let_def by simp
  qed
qed

lemma avx512_copies:
  assumes "copy_ok m d s N"
  shows "done_copy m d s N (avx512_memcpy_generic d s (of_nat N) m)"
proof -
  have N: "N < 2 ^ 64" using assms by (simp add: copy_ok_def)
  note h0 = here_start [OF assms] and g = word_guards [OF N]
  consider "N < 16" | "16 \<le> N" "N \<le> 32" | "32 < N" "N \<le> 64" | "64 < N" "N \<le> 512" | "512 < N" by linarith
  then show ?thesis
  proof cases
    case 1
    then show ?thesis using mov15_copies [OF assms] g by (simp add: avx512_memcpy_generic_def)
  next
    case 2
    then show ?thesis using here_move_back [OF h0, of 16 1] g
      by (simp add: avx512_memcpy_generic_def rte_mov16_def movs_64_1 del: movs.simps)
  next
    case 3
    then show ?thesis using here_move_back [OF h0, of 32 1] g
      by (simp add: avx512_memcpy_generic_def avx512_mov32_def movs_64_1 del: movs.simps)
  next
    case 4
    define r1 where "r1 = (if 256 \<le> N then N - 256 else N)"
    define r2 where "r2 = (if 128 \<le> r1 then r1 - 128 else r1)"
    obtain d1 s1 m1 p1 where 1: "(if 256 \<le> (of_nat N :: u64) then do {m \<leftarrow> avx512_mov256 d s m; Some ((of_nat N :: u64) - 256, d + 256, s + 256, m)} else Some (of_nat N, d, s, m))
        = Some (of_nat r1, d1, s1, m1)" "here m d s N p1 r1 d1 s1 m1"
      using here_stage [OF h0, of 256 64 4 "256 \<le> (of_nat N :: u64)"] g unfolding of_nat_numeral avx512_mov256_def r1_def by auto
    obtain d2 s2 m2 p2 where 2: "(if 128 \<le> (of_nat r1 :: u64) then do {m \<leftarrow> avx512_mov128 d1 s1 m1; Some ((of_nat r1 :: u64) - 128, d1 + 128, s1 + 128, m)} else Some (of_nat r1, d1, s1, m1))
        = Some (of_nat r2, d2, s2, m2)" "here m d s N p2 r2 d2 s2 m2"
      using here_stage [OF 1(2), of 128 64 2 "128 \<le> (of_nat r1 :: u64)"] word_guards [OF here_len(2) [OF 1(2)]]
      unfolding of_nat_numeral avx512_mov128_def r2_def by auto
    have "done_copy m d s N (copy_block_128_back63 d2 s2 (of_nat r2) m2)"
      by (rule back63_copies [OF 2(2)]) (use 4 in \<open>auto simp: r1_def r2_def\<close>)
    then show ?thesis using 4 g 1(1) 2(1) by (simp add: avx512_memcpy_generic_def)
  next
    case 5
    define ofs where "ofs = d AND 0x3F"
    define q where "q = (if ofs = 0 then 0 else 64 - unat ofs)"
    have "(0x3F :: u64) = mask 6" by (simp add: mask_eq_exp_minus_1)
    then have "unat ofs < 64" using unat_and_mask [of d 6] by (simp add: ofs_def)
    then have o: "ofs = 0 \<or> 64 - ofs = of_nat q \<and> q \<le> 64 * 1" "ofs \<noteq> 0 \<or> q = 0" by (simp_all add: q_def of_nat_diff)
    obtain d1 s1 m1 where 1: "(if 0 < ofs then do {m \<leftarrow> mov 64 d s m; Some ((of_nat N :: u64) - (64 - ofs), d + (64 - ofs), s + (64 - ofs), m)} else Some (of_nat N, d, s, m))
        = Some (of_nat (N - q), d1, s1, m1)" "here m d s N q (N - q) d1 s1 m1"
      using here_align [OF h0 _ refl o] 5 unfolding movs_1 by auto
    have "done_copy m d s N (avx512_copy_blocks d1 s1 (of_nat (N - q)) m1)" using avx512_tail [OF 1(2)] 5 by simp
    then show ?thesis unfolding avx512_memcpy_generic_def Let_def avx512_mov64_def 1(1) [unfolded ofs_def] using 5 g by simp
  qed
qed

section \<open>Registers of 32 bytes\<close>

lemma back31_copies:
  assumes h: "here m d s N p r dst src m'" and "r \<le> 128" "32 \<le> N"
  shows "done_copy m d s N (copy_block_128_back31 dst src (of_nat r) m')"
proof -
  define r1 where "r1 = (if 64 \<le> r then r - 64 else r)"
  obtain d1 s1 m1 p1 where 1: "(if 64 \<le> (of_nat r :: u64) then do {m \<leftarrow> avx2_mov64 dst src m'; Some ((of_nat r :: u64) - 64, dst + 64, src + 64, m)} else Some (of_nat r, dst, src, m'))
      = Some (of_nat r1, d1, s1, m1)" "here m d s N p1 r1 d1 s1 m1"
    using here_stage [OF h, of 64 32 2 "64 \<le> (of_nat r :: u64)"] word_guards [OF here_len(2) [OF h]]
    unfolding of_nat_numeral avx2_mov64_def r1_def by auto
  note g = word_guards [OF here_len(2) [OF 1(2)]]
  have r1: "r1 \<le> 64" using assms(2) by (auto simp: r1_def)
  consider "32 < r1" | "0 < r1" "r1 \<le> 32" | "r1 = 0" by linarith
  then have "done_copy m d s N (if (of_nat r1 :: u64) > 32 then do {m \<leftarrow> avx2_mov32 d1 s1 m1; avx2_mov32 (d1 - 32 + of_nat r1) (s1 - 32 + of_nat r1) m}
     else if (of_nat r1 :: u64) > 0 then avx2_mov32 (d1 - 32 + of_nat r1) (s1 - 32 + of_nat r1) m1 else Some m1)"
  proof cases
    case 1
    then show ?thesis using here_move_back [OF \<open>here m d s N p1 r1 d1 s1 m1\<close>, of 32 1] r1 g
      by (simp add: avx2_mov32_def movs_64_1 del: movs.simps)
  next
    case 2
    then show ?thesis using here_back [OF \<open>here m d s N p1 r1 d1 s1 m1\<close>, of 32 1] assms(3) g
      by (simp add: avx2_mov32_def movs_64_1 del: movs.simps)
  next
    case 3
    then show ?thesis using here_done \<open>here m d s N p1 r1 d1 s1 m1\<close> by simp
  qed
  then show ?thesis using 1(1) by (simp add: copy_block_128_back31_def)
qed

lemma avx2_copies:
  assumes "copy_ok m d s N"
  shows "done_copy m d s N (avx2_memcpy_generic d s (of_nat N) m)"
proof -
  have N: "N < 2 ^ 64" using assms by (simp add: copy_ok_def)
  note h0 = here_start [OF assms] and g = word_guards [OF N]
  consider "N < 16" | "16 \<le> N" "N \<le> 32" | "32 < N" "N \<le> 48" | "48 < N" "N \<le> 64" | "64 < N" "N \<le> 256" | "256 < N" by linarith
  then show ?thesis
  proof cases
    case 1
    then show ?thesis using mov15_copies [OF assms] g by (simp add: avx2_memcpy_generic_def)
  next
    case 2
    then show ?thesis using here_move_back [OF h0, of 16 1] g
      by (simp add: avx2_memcpy_generic_def rte_mov16_def movs_64_1 del: movs.simps)
  next
    case 3
    obtain m1 where m1: "mov 16 d s m = Some m1" "here m d s N 16 (N - 16) (d + 16) (s + 16) m1"
      using here_mov [OF h0, of 16 16] 3 unfolding of_nat_numeral by auto
    have "done_copy m d s N (do {m \<leftarrow> mov 16 (d + 16) (s + 16) m1; mov 16 (d + 16 - 16 + of_nat (N - 16)) (s + 16 - 16 + of_nat (N - 16)) m})"
      using here_move_back [OF m1(2), of 16 1] 3 unfolding movs_1 mult_1_right of_nat_numeral by simp
    moreover have "x + 16 - 16 + of_nat (N - 16) = x - 16 + of_nat N" for x :: u64 using 3 by (simp add: of_nat_diff)
    ultimately have "done_copy m d s N (do {m \<leftarrow> mov 16 (d + 16) (s + 16) m1; mov 16 (d - 16 + of_nat N) (s - 16 + of_nat N) m})" by metis
    then show ?thesis using 3 g m1(1) by (simp add: avx2_memcpy_generic_def rte_mov16_def)
  next
    case 4
    then show ?thesis using here_move_back [OF h0, of 32 1] g
      by (simp add: avx2_memcpy_generic_def avx2_mov32_def movs_64_1 del: movs.simps)
  next
    case 5
    define r1 where "r1 = (if 128 \<le> N then N - 128 else N)"
    obtain d1 s1 m1 p1 where 1: "(if 128 \<le> (of_nat N :: u64) then do {m \<leftarrow> avx2_mov128 d s m; Some ((of_nat N :: u64) - 128, d + 128, s + 128, m)} else Some (of_nat N, d, s, m))
        = Some (of_nat r1, d1, s1, m1)" "here m d s N p1 r1 d1 s1 m1"
      using here_stage [OF h0, of 128 32 4 "128 \<le> (of_nat N :: u64)"] g unfolding of_nat_numeral avx2_mov128_def r1_def by auto
    have "done_copy m d s N (copy_block_128_back31 d1 s1 (of_nat r1) m1)"
      by (rule back31_copies [OF 1(2)]) (use 5 in \<open>auto simp: r1_def\<close>)
    then show ?thesis using 5 g 1(1) by (simp add: avx2_memcpy_generic_def)
  next
    case 6
    define ofs where "ofs = d AND 0x1F"
    define q where "q = (if ofs = 0 then 0 else 32 - unat ofs)"
    have "(0x1F :: u64) = mask 5" by (simp add: mask_eq_exp_minus_1)
    then have "unat ofs < 32" using unat_and_mask [of d 5] by (simp add: ofs_def)
    then have o: "ofs = 0 \<or> 32 - ofs = of_nat q \<and> q \<le> 32 * 1" "ofs \<noteq> 0 \<or> q = 0" by (simp_all add: q_def of_nat_diff)
    obtain d1 s1 m1 where 1: "(if 0 < ofs then do {m \<leftarrow> mov 32 d s m; Some ((of_nat N :: u64) - (32 - ofs), d + (32 - ofs), s + (32 - ofs), m)} else Some (of_nat N, d, s, m))
        = Some (of_nat (N - q), d1, s1, m1)" "here m d s N q (N - q) d1 s1 m1"
      using here_align [OF h0 _ refl o] 6 unfolding movs_1 by auto
    define r where "r = N - q"
    have a: "(of_nat r :: u64) AND 127 = of_nat (r mod 128)"
      using and_mask_nat [OF here_len(2) [OF 1(2)], of 7] by (simp add: r_def mask_eq_exp_minus_1)
    obtain m2 where 2: "avx2_mov128blocks d1 s1 (of_nat r) m1 = Some m2"
      "here m d s N (q + (r - r mod 128)) (r mod 128) (d1 + of_nat (r - r mod 128)) (s1 + of_nat (r - r mod 128)) m2"
      using here_blocks [of 128 32 4, OF _ _ 1(2) [folded r_def]] unfolding avx2_mov128blocks_def by auto
    have "done_copy m d s N (copy_block_128_back31 (d1 + of_nat (r - r mod 128)) (s1 + of_nat (r - r mod 128)) (of_nat (r mod 128)) m2)"
      by (rule back31_copies [OF 2(2)]) (use 6 in \<open>simp_all add: less_imp_le\<close>)
    then have "done_copy m d s N (avx2_copy_blocks d1 s1 (of_nat r) m1)" unfolding avx2_copy_blocks_def 2(1) a bits_eq Let_def by simp
    then show ?thesis unfolding avx2_memcpy_generic_def Let_def avx2_mov32_def 1(1) [unfolded ofs_def] using 6 g by (simp add: r_def)
  qed
qed

section \<open>Registers of 16 bytes\<close>

lemma back15_copies:
  assumes h: "here m d s N p r dst src m'" and "r \<le> 64" "16 \<le> N"
  shows "done_copy m d s N (copy_block_64_back15 dst src (of_nat r) m')"
proof -
  define r1 where "r1 = (if 32 \<le> r then r - 32 else r)"
  obtain d1 s1 m1 p1 where 1: "(if 32 \<le> (of_nat r :: u64) then do {m \<leftarrow> sse_mov32 dst src m'; Some ((of_nat r :: u64) - 32, dst + 32, src + 32, m)} else Some (of_nat r, dst, src, m'))
      = Some (of_nat r1, d1, s1, m1)" "here m d s N p1 r1 d1 s1 m1"
    using here_stage [OF h, of 32 16 2 "32 \<le> (of_nat r :: u64)"] word_guards [OF here_len(2) [OF h]]
    unfolding of_nat_numeral sse_mov32_def r1_def by auto
  note g = word_guards [OF here_len(2) [OF 1(2)]]
  have r1: "r1 \<le> 32" using assms(2) by (auto simp: r1_def)
  consider "16 < r1" | "0 < r1" "r1 \<le> 16" | "r1 = 0" by linarith
  then have "done_copy m d s N (if (of_nat r1 :: u64) > 16 then do {m \<leftarrow> rte_mov16 d1 s1 m1; rte_mov16 (d1 - 16 + of_nat r1) (s1 - 16 + of_nat r1) m}
     else if (of_nat r1 :: u64) > 0 then rte_mov16 (d1 - 16 + of_nat r1) (s1 - 16 + of_nat r1) m1 else Some m1)"
  proof cases
    case 1
    then show ?thesis using here_move_back [OF \<open>here m d s N p1 r1 d1 s1 m1\<close>, of 16 1] r1 g
      by (simp add: rte_mov16_def movs_64_1 del: movs.simps)
  next
    case 2
    then show ?thesis using here_back [OF \<open>here m d s N p1 r1 d1 s1 m1\<close>, of 16 1] assms(3) g
      by (simp add: rte_mov16_def movs_64_1 del: movs.simps)
  next
    case 3
    then show ?thesis using here_done \<open>here m d s N p1 r1 d1 s1 m1\<close> by simp
  qed
  then show ?thesis using 1(1) by (simp add: copy_block_64_back15_def)
qed

lemma back15_128_copies:
  assumes h: "here m d s N p r dst src m'" and "r \<le> 128" "16 \<le> N"
  shows "done_copy m d s N (copy_block_128_back15 dst src (of_nat r) m')"
proof -
  define r1 where "r1 = (if 64 \<le> r then r - 64 else r)"
  obtain d1 s1 m1 p1 where 1: "(if 64 \<le> (of_nat r :: u64) then do {m \<leftarrow> sse_mov64 dst src m'; Some ((of_nat r :: u64) - 64, dst + 64, src + 64, m)} else Some (of_nat r, dst, src, m'))
      = Some (of_nat r1, d1, s1, m1)" "here m d s N p1 r1 d1 s1 m1"
    using here_stage [OF h, of 64 16 4 "64 \<le> (of_nat r :: u64)"] word_guards [OF here_len(2) [OF h]]
    unfolding of_nat_numeral sse_mov64_def r1_def by auto
  have "done_copy m d s N (copy_block_64_back15 d1 s1 (of_nat r1) m1)"
    by (rule back15_copies [OF 1(2)]) (use assms in \<open>auto simp: r1_def\<close>)
  then show ?thesis using 1(1) by (simp add: copy_block_128_back15_def)
qed

lemma back15_255_copies:
  assumes h: "here m d s N p r dst src m'" and "r \<le> 256" "16 \<le> N"
  shows "done_copy m d s N (copy_block_255_back15 dst src (of_nat r) m')"
proof -
  define r1 where "r1 = (if 128 \<le> r then r - 128 else r)"
  obtain d1 s1 m1 p1 where 1: "(if 128 \<le> (of_nat r :: u64) then do {m \<leftarrow> sse_mov128 dst src m'; Some ((of_nat r :: u64) - 128, dst + 128, src + 128, m)} else Some (of_nat r, dst, src, m'))
      = Some (of_nat r1, d1, s1, m1)" "here m d s N p1 r1 d1 s1 m1"
    using here_stage [OF h, of 128 16 8 "128 \<le> (of_nat r :: u64)"] word_guards [OF here_len(2) [OF h]]
    unfolding of_nat_numeral sse_mov128_def r1_def by auto
  have "done_copy m d s N (copy_block_128_back15 d1 s1 (of_nat r1) m1)"
    by (rule back15_128_copies [OF 1(2)]) (use assms in \<open>auto simp: r1_def\<close>)
  then show ?thesis using 1(1) by (simp add: copy_block_255_back15_def)
qed

text \<open>The loop of whole moves.\<close>

lemma here_while:
  assumes f: "\<And>x y. f x y = movs w j x y" and b: "b = w * j" "0 < b" "b < 2 ^ 64"
  shows "here m d s N p r dst src m' \<Longrightarrow> \<exists>m''. mov_while f (of_nat b) dst src (of_nat r) m' = Some (of_nat (r mod b), dst + of_nat (r - r mod b), src + of_nat (r - r mod b), m'')
    \<and> here m d s N (p + (r - r mod b)) (r mod b) (dst + of_nat (r - r mod b)) (src + of_nat (r - r mod b)) m''"
proof (induction r arbitrary: p dst src m' rule: less_induct)
  case (less r)
  note h = here_len [OF less.prems]
  have g: "(0 < (of_nat b :: u64) \<and> of_nat b \<le> (of_nat r :: u64)) = (b \<le> r)"
    using b unat_of_nat_64 [OF b(3)] h(3) by (auto simp: word_less_nat_alt word_le_nat_alt)
  show ?case
  proof (cases "b \<le> r")
    case False
    then show ?thesis using less.prems by (subst mov_while.simps) (simp add: g)
  next
    case True
    obtain m1 where m1: "movs w j dst src m' = Some m1" "here m d s N (p + b) (r - b) (dst + of_nat b) (src + of_nat b) m1"
      using here_movs [OF less.prems, of w j b] True b(1) by auto
    from less.IH [OF _ m1(2)] b(2) True obtain m'' where m'':
      "mov_while f (of_nat b) (dst + of_nat b) (src + of_nat b) (of_nat (r - b)) m1 = Some (of_nat ((r - b) mod b), dst + of_nat b + of_nat (r - b - (r - b) mod b), src + of_nat b + of_nat (r - b - (r - b) mod b), m'')"
      "here m d s N (p + b + (r - b - (r - b) mod b)) ((r - b) mod b) (dst + of_nat b + of_nat (r - b - (r - b) mod b)) (src + of_nat b + of_nat (r - b - (r - b) mod b)) m''"
      by force
    have q: "(r - b) mod b = r mod b" using le_mod_geq [OF True] by simp
    have "r mod b \<le> r - b" using mod_less_eq_dividend [of "r - b" b] q by simp
    then have e: "b + (r - b - r mod b) = r - r mod b" using True by simp
    then have e': "p + b + (r - b - r mod b) = p + (r - r mod b)" "x + of_nat b + of_nat (r - b - r mod b) = x + of_nat (r - r mod b)" for x :: u64
      by (simp_all only: add.assoc of_nat_add [symmetric])
    have n: "(of_nat r :: u64) - of_nat b = of_nat (r - b)" using True by (simp add: of_nat_diff)
    have "mov_while f (of_nat b) dst src (of_nat r) m' = mov_while f (of_nat b) (dst + of_nat b) (src + of_nat b) (of_nat (r - b)) m1"
      by (subst mov_while.simps) (simp add: g True f m1(1) n del: of_nat_diff)
    then show ?thesis using m'' unfolding q e' by (intro exI [of _ m'']) simp
  qed
qed

lemma aligned_copies:
  assumes ok: "copy_ok m d s N"
  shows "done_copy m d s N (rte_memcpy_aligned v d s (of_nat N) m)"
proof -
  have N: "N < 2 ^ 64" using ok by (simp add: copy_ok_def)
  note h0 = here_start [OF ok] and g = word_guards [OF N]
  obtain w j where w: "\<And>x y. rte_mov32 v x y = movs w j x y" "w * j = 32"
    by (cases v) (auto simp: avx512_mov32_def avx2_mov32_def sse_mov32_def movs_64_1 simp del: movs.simps)
  obtain w' j' where w': "\<And>x y. rte_mov64 v x y = movs w' j' x y" "w' * j' = 64"
    by (cases v) (auto simp: avx512_mov64_def avx2_mov64_def sse_mov64_def movs_64_1 simp del: movs.simps)
  consider "N < 16" | "16 \<le> N" "N \<le> 32" | "32 < N" "N \<le> 64" | "64 < N" by linarith
  then show ?thesis
  proof cases
    case 1
    then show ?thesis using mov15_copies [OF ok] g by (simp add: rte_memcpy_aligned_def)
  next
    case 2
    then show ?thesis using here_move_back [OF h0, of 16 1] g
      by (simp add: rte_memcpy_aligned_def rte_mov16_def movs_64_1 del: movs.simps)
  next
    case 3
    then show ?thesis using here_move_back [OF h0, of w j] g w by (simp add: rte_memcpy_aligned_def)
  next
    case 4
    obtain m1 where 1: "mov_while (rte_mov64 v) 64 d s (of_nat N) m = Some (of_nat (N mod 64), d + of_nat (N - N mod 64), s + of_nat (N - N mod 64), m1)"
      "here m d s N (N - N mod 64) (N mod 64) (d + of_nat (N - N mod 64)) (s + of_nat (N - N mod 64)) m1"
      using here_while [OF w'(1) w'(2) [symmetric] _ _ h0] unfolding of_nat_numeral by auto
    have "done_copy m d s N (rte_mov64 v (d + of_nat (N - N mod 64) - 64 + of_nat (N mod 64)) (s + of_nat (N - N mod 64) - 64 + of_nat (N mod 64)) m1)"
      using here_back [OF 1(2), of w' j'] 4 unfolding w' of_nat_numeral by (simp add: less_imp_le)
    then show ?thesis unfolding rte_memcpy_aligned_def 1(1) using 4 g by simp
  qed
qed

section \<open>Misaligned sources\<close>

text \<open>Memory is mapped in blocks of 16 bytes at least.\<close>

definition mem_blocks :: "mem \<Rightarrow> bool" where
  "mem_blocks m \<longleftrightarrow> (\<forall>a b. unat a div 16 = unat b div 16 \<longrightarrow> (m a = None \<longleftrightarrow> m b = None))"

lemma align_load:
  assumes "load_vec m a 16 = Some x" "load_vec m (a + 16) 16 = Some y" "off \<le> 16"
  shows "load_vec m (a + of_nat off) 16 = Some (mm_alignr_epi8 y x off)"
proof -
  have l: "length x = 16" "length y = 16" and mx: "\<And>i. i < 16 \<Longrightarrow> m (a + of_nat i) = Some (x ! i)"
    and my: "\<And>i. i < 16 \<Longrightarrow> m (a + 16 + of_nat i) = Some (y ! i)" using assms(1,2) unfolding load_vec_iff by auto
  have nth: "mm_alignr_epi8 y x off ! i = (x @ y) ! (off + i)" if "i < 16" for i
    using that l assms(3) by (simp add: mm_alignr_epi8_def del: drop_append take_append)
  have "m (a + of_nat off + of_nat i) = Some (mm_alignr_epi8 y x off ! i)" if "i < 16" for i
  proof (cases "off + i < 16")
    case True
    then show ?thesis using mx [of "off + i"] l by (simp add: nth [OF that] nth_append add.assoc)
  next
    case False
    then have "(of_nat off :: u64) + of_nat i = 16 + of_nat (off + i - 16)" by (simp add: of_nat_diff)
    then have e: "a + of_nat off + of_nat i = a + 16 + of_nat (off + i - 16)" by (metis add.assoc)
    have "off + i - 16 < 16" using that assms(3) by simp
    from my [OF this] show ?thesis unfolding e nth [OF that] using False l by (simp add: nth_append)
  qed
  then show ?thesis using l assms(3) by (simp add: load_vec_iff mm_alignr_epi8_def)
qed

lemma align_regs_load:
  "load_regs 16 (Suc k) a m = Some xs \<Longrightarrow> off \<le> 16 \<Longrightarrow> load_regs 16 k (a + of_nat off) m = Some (align_regs off xs)"
proof (induction k arbitrary: a xs)
  case 0
  then show ?case by (auto split: Option.bind_splits)
next
  case (Suc k)
  from Suc.prems(1) obtain x ys where x: "load_vec m a 16 = Some x" "load_regs 16 (Suc k) (a + 16) m = Some ys" "xs = x # ys"
    by (subst (asm) load_regs.simps(2)) (auto split: Option.bind_splits simp del: load_regs.simps)
  from x(2) obtain y zs where y: "load_vec m (a + 16) 16 = Some y" "ys = y # zs" by (auto split: Option.bind_splits)
  have "load_regs 16 k (a + 16 + of_nat off) m = Some (align_regs off ys)" by (rule Suc.IH [OF x(2) Suc.prems(2)])
  moreover have "a + of_nat off + 16 = a + 16 + of_nat off" by simp
  ultimately show ?case using align_load [OF x(1) y(1) Suc.prems(2)] x(3) y(2) by (simp add: ac_simps)
qed

lemma load_vec_mapped: "(\<And>i. i < w \<Longrightarrow> m (a + of_nat i) \<noteq> None) \<Longrightarrow> \<exists>v. load_vec m a w = Some v"
proof -
  assume "\<And>i. i < w \<Longrightarrow> m (a + of_nat i) \<noteq> None"
  then have "load_vec m a w = Some (map (\<lambda>i. the (m (a + of_nat i))) [0..<w])" unfolding load_vec_iff by auto
  then show ?thesis by blast
qed

lemma load_regs_mapped: "(\<And>i. i < w * k \<Longrightarrow> m (a + of_nat i) \<noteq> None) \<Longrightarrow> \<exists>vs. load_regs w k a m = Some vs"
proof (induction k arbitrary: a)
  case (Suc k)
  obtain v where v: "load_vec m a w = Some v" using load_vec_mapped [of w m a] Suc.prems by auto
  have "m (a + of_nat w + of_nat i) \<noteq> None" if "i < w * k" for i
    using Suc.prems [of "w + i"] that by (simp add: add.assoc)
  from Suc.IH [OF this] obtain vs where "load_regs w k (a + of_nat w) m = Some vs" by auto
  then show ?case using v by simp
qed simp

text \<open>The bytes before the source that the first register covers are in its block.\<close>

lemma block_before:
  assumes "mem_blocks m" "m src \<noteq> None" "i < unat src mod 16"
  shows "m (src - of_nat (unat src mod 16) + of_nat i) \<noteq> None"
proof -
  let ?u = "unat src"
  have u: "?u < 2 ^ 64" using unsigned_less [of src] by simp
  have le: "?u mod 16 \<le> ?u" by simp
  have o: "unat (of_nat (?u mod 16) :: u64) = ?u mod 16" using u le by (intro unat_of_nat_64) linarith
  have a: "unat (src - of_nat (?u mod 16)) = ?u - ?u mod 16" by (subst unat_sub_le) (simp_all add: o le)
  have i: "unat (of_nat i :: u64) = i" using assms(3) u le by (intro unat_of_nat_64) linarith
  have "unat (src - of_nat (?u mod 16) + of_nat i) = ?u - ?u mod 16 + i"
    by (subst unat_add_lt) (use a i assms(3) u le in \<open>simp_all\<close>)
  moreover have "(?u - ?u mod 16 + i) div 16 = ?u div 16"
    using assms(3) mod_less_divisor [of 16 ?u] by (simp add: minus_mod_eq_mult_div)
  ultimately show ?thesis using assms(1,2) unfolding mem_blocks_def by metis
qed

lemma here_left47:
  assumes blocks: "mem_blocks m" and k: "0 < k" "k \<le> 8"
  shows "here m d s N p r dst src m' \<Longrightarrow> off = unat src mod 16 \<Longrightarrow> 16 - off \<le> r \<Longrightarrow>
    \<exists>q r' m''. left47_loop k dst src (of_nat r) off m' = Some (dst + of_nat q, src + of_nat q, of_nat r', m'')
      \<and> here m d s N (p + q) r' (dst + of_nat q) (src + of_nat q) m'' \<and> unat (src + of_nat q) mod 16 = off \<and> 16 - off \<le> r' \<and> r' < 16 * k + 16 - off"
proof (induction r arbitrary: p dst src m' rule: less_induct)
  case (less r)
  note h = here_len [OF less.prems(1)]
  define b where "b = 16 * k"
  have b: "0 < b" "b \<le> 128" using k by (simp_all add: b_def)
  have off: "off < 16" using less.prems(2) by simp
  have "(of_nat b :: u64) + 16 - of_nat off = of_nat (b + 16 - off)" using off by (simp add: of_nat_diff)
  moreover have "unat (of_nat (b + 16 - off) :: u64) = b + 16 - off" using b(2) by (intro unat_of_nat_64) simp
  ultimately have g: "(0 < k \<and> off < 16 \<and> of_nat b + 16 - of_nat off \<le> (of_nat r :: u64) \<and> b \<le> unat (of_nat r :: u64)) = (b + 16 - off \<le> r)"
    using k off h(3) by (auto simp: word_le_nat_alt)
  note step = left47_loop.simps [of k dst src "of_nat r" off m', folded b_def, unfolded g]
  show ?case
  proof (cases "b + 16 - off \<le> r")
    case False
    then show ?thesis using less.prems step by (intro exI [of _ 0] exI [of _ r] exI [of _ m']) (simp add: b_def)
  next
    case True
    from less.prems(1) obtain j where j: "copy_ok m d s N" "p + r = N" "dst = d + of_nat p" "src = s + of_nat p" "p \<le> j" "j \<le> N" "m' = copied m d s j"
      by (rule hereE)
    define j' where "j' = max j (p + b)"
    have br: "b \<le> r" using True off by simp
    have j': "j' \<le> N" "p + b \<le> j'" using j(2,6) br by (auto simp: j'_def)
    have map: "m (s + of_nat (p + i)) \<noteq> None" if "i < r" for i using j(1,2) that unfolding copy_ok_def by (metis add_less_cancel_left)
    have "m' (src - of_nat off + of_nat i) \<noteq> None" if "i < 16 * (k + 1)" for i
    proof (cases "i < off")
      case True
      then show ?thesis using block_before [OF blocks, of src i] map [of 0] br b(1) copied_mapped [OF j(1,6)] less.prems(2) j(4,7) by simp
    next
      case False
      then have e: "src - of_nat off + of_nat i = s + of_nat (p + (i - off))" by (simp add: j(4) of_nat_diff)
      have "i - off < r" using that True False b_def by simp
      then show ?thesis using map copied_mapped [OF j(1,6)] unfolding e j(7) by blast
    qed
    from load_regs_mapped [of 16 "k + 1" m' "src - of_nat off", OF this] obtain xs where xs: "load_regs 16 (Suc k) (src - of_nat off) m' = Some xs" by auto
    have "load_regs 16 k src m' = Some (align_regs off xs)" using align_regs_load [OF xs, of off] off by simp
    moreover have "load_regs 16 k src m' = Some (map (\<lambda>i. src_bytes m s (p + 16 * i) 16) [0..<k])"
      unfolding j(4,7) by (rule load_regs_at) (use j(1,2,6) br b_def in auto)
    moreover have "store_regs 16 dst (map (\<lambda>i. src_bytes m s (p + 16 * i) 16) [0..<k]) m' = Some (copied m d s j')"
      unfolding j(3,7) j'_def b_def by (rule store_regs_at) (use j(1,2,5,6) br b_def in auto)
    ultimately have st: "store_regs 16 dst (align_regs off xs) m' = Some (copied m d s j')" by simp
    have h1: "here m d s N (p + b) (r - b) (dst + of_nat b) (src + of_nat b) (copied m d s j')"
      unfolding j(3,4) by (rule here_shift [OF j(1,2) br j'(2,1)])
    have "unat (src + of_nat b) mod 16 = off"
      unfolding less.prems(2) b_def by (simp add: unat_word_ariths mod_mod_cancel unat_of_nat mod_simps)
    from less.IH [OF _ h1 this [symmetric]] True b off obtain q r' m'' where i:
      "left47_loop k (dst + of_nat b) (src + of_nat b) (of_nat (r - b)) off (copied m d s j') = Some (dst + of_nat b + of_nat q, src + of_nat b + of_nat q, of_nat r', m'')"
      "here m d s N (p + b + q) r' (dst + of_nat b + of_nat q) (src + of_nat b + of_nat q) m''" "unat (src + of_nat b + of_nat q) mod 16 = off"
      "16 - off \<le> r'" "r' < 16 * k + 16 - off" by force
    have n: "(of_nat r :: u64) - of_nat b = of_nat (r - b)" using br by (simp add: of_nat_diff)
    have "left47_loop k dst src (of_nat r) off m' = left47_loop k (dst + of_nat b) (src + of_nat b) (of_nat (r - b)) off (copied m d s j')"
      unfolding step using True xs st br by simp
    then show ?thesis using i by (intro exI [of _ "b + q"] exI [of _ r'] exI [of _ m'']) (simp add: add.assoc)
  qed
qed

lemma left47_rest:
  assumes "16 - off \<le> r" "r < 2 ^ i + 16 - off" "off < 16" "r < 2 ^ 64"
  shows "(((of_nat r :: u64) - 16 + of_nat off) AND mask i) + 16 - of_nat off = of_nat r"
proof -
  have 1: "(of_nat r :: u64) - 16 + of_nat off = of_nat (r + off - 16)" using assms(1,3) by (simp add: of_nat_diff)
  have 2: "(of_nat (r + off - 16) :: u64) AND mask i = of_nat (r + off - 16)"
    using and_mask_nat [of "r + off - 16" i] assms by (simp add: less_diff_conv)
  have 3: "(of_nat (r + off - 16) :: u64) + 16 - of_nat off = of_nat r" using assms(1,3) by (simp add: of_nat_diff)
  show ?thesis unfolding 1 2 by (rule 3)
qed

lemma left47_copies:
  assumes blocks: "mem_blocks m" and h: "here m d s N p r dst src m'" and off: "off = unat src mod 16" and r: "16 \<le> r"
  shows "\<exists>d' s' r' p' m''. MOVEUNALIGNED_LEFT47 dst src (of_nat r) off m' = Some (d', s', of_nat r', m'')
    \<and> here m d s N p' r' d' s' m'' \<and> r' \<le> 64"
proof -
  have o: "off < 16" "16 - off \<le> r" using off r by simp_all
  obtain q1 r1 m1 where 1: "left47_loop 8 dst src (of_nat r) off m' = Some (dst + of_nat q1, src + of_nat q1, of_nat r1, m1)"
    "here m d s N (p + q1) r1 (dst + of_nat q1) (src + of_nat q1) m1" "unat (src + of_nat q1) mod 16 = off" "16 - off \<le> r1" "r1 < 128 + 16 - off"
    using here_left47 [OF blocks _ _ h off o(2), of 8] by auto
  have m7: "(127 :: u64) = mask 7" "(31 :: u64) = mask 5" by (simp_all add: mask_eq_exp_minus_1)
  have a1: "(((of_nat r1 :: u64) - 16 + of_nat off) AND 127) + 16 - of_nat off = of_nat r1"
    using left47_rest [of off r1 7] 1(4,5) o(1) here_len(2) [OF 1(2)] by (simp add: m7(1))
  show ?thesis
  proof (cases "(32 :: u64) + 16 - of_nat off \<le> of_nat r1")
    case False
    have e: "(32 :: u64) + 16 - of_nat off = of_nat (48 - off)" using o(1) by (simp add: of_nat_diff)
    have u: "unat (of_nat (48 - off) :: u64) = 48 - off" by (rule unat_of_nat_64) simp
    have "\<not> 48 - off \<le> r1" using False unfolding e word_guards(1) [OF here_len(2) [OF 1(2)]] u .
    then have "r1 \<le> 64" by simp
    have "MOVEUNALIGNED_LEFT47 dst src (of_nat r) off m' = Some (dst + of_nat q1, src + of_nat q1, of_nat r1, m1)"
      unfolding MOVEUNALIGNED_LEFT47_def 1(1) Option.bind.simps prod.case Let_def a1 diff_self add_0_right by (simp only: False if_False)
    then show ?thesis using 1(2) \<open>r1 \<le> 64\<close> by blast
  next
    case True
    obtain q2 r2 m2 where 2: "left47_loop 2 (dst + of_nat q1) (src + of_nat q1) (of_nat r1) off m1 = Some (dst + of_nat q1 + of_nat q2, src + of_nat q1 + of_nat q2, of_nat r2, m2)"
      "here m d s N (p + q1 + q2) r2 (dst + of_nat q1 + of_nat q2) (src + of_nat q1 + of_nat q2) m2" "16 - off \<le> r2" "r2 < 32 + 16 - off"
      using here_left47 [OF blocks _ _ 1(2) 1(3) [symmetric] 1(4), of 2] by auto
    have a2: "(((of_nat r2 :: u64) - 16 + of_nat off) AND 31) + 16 - of_nat off = of_nat r2"
      using left47_rest [of off r2 5] 2(3,4) o(1) here_len(2) [OF 2(2)] by (simp add: m7(2))
    have "MOVEUNALIGNED_LEFT47 dst src (of_nat r) off m' = Some (dst + of_nat q1 + of_nat q2, src + of_nat q1 + of_nat q2, of_nat r2, m2)"
      unfolding MOVEUNALIGNED_LEFT47_def 1(1) Option.bind.simps prod.case Let_def a1 diff_self add_0_right
      by (simp only: True if_True 2(1) Option.bind.simps prod.case a2 diff_self add_0_right)
    moreover have "r2 \<le> 64" using 2(4) by simp
    ultimately show ?thesis using 2(2) by blast
  qed
qed

text \<open>A last move from the start of the copy.\<close>

lemma here_back_start:
  assumes "here m d s N p r dst src m'" "r \<le> w" "w \<le> N"
  shows "done_copy m d s N (mov w (d - of_nat w + of_nat N) (s - of_nat w + of_nat N) m')"
proof -
  obtain k where k: "copy_ok m d s N" "p + r = N" "p \<le> k" "k \<le> N" "m' = copied m d s k" using assms(1) by (rule hereE)
  show ?thesis using back_movs [OF k(1), of 0 N w 1 k] k assms(2,3) by (simp add: movs_1 [unfolded One_nat_def])
qed

lemma movs_add: "movs w (i + j) x y a = do {a \<leftarrow> movs w i x y a; movs w j (x + of_nat (w * i)) (y + of_nat (w * i)) a}"
proof (induction i arbitrary: x y a)
  case (Suc i)
  show ?case by (cases "mov w x y a") (simp_all add: Suc.IH add.assoc)
qed simp

section \<open>The copy\<close>

lemma sse_tail:
  assumes blocks: "mem_blocks m" and h: "here m d s N p r dst src m'" and r: "16 \<le> r"
  shows "done_copy m d s N (sse_copy_blocks dst src (of_nat r) m')"
proof -
  have N: "16 \<le> N" using here_len(1) [OF h] r by simp
  have ofs: "unat (src AND 0x0F) = unat src mod 16"
    using unat_and_mask [of src 4] by (simp add: mask_eq_exp_minus_1)
  show ?thesis
  proof (cases "src AND 0x0F = 0")
    case True
    obtain m1 where 1: "mov_while sse_mov256 256 dst src (of_nat r) m' = Some (of_nat (r mod 256), dst + of_nat (r - r mod 256), src + of_nat (r - r mod 256), m1)"
      "here m d s N (p + (r - r mod 256)) (r mod 256) (dst + of_nat (r - r mod 256)) (src + of_nat (r - r mod 256)) m1"
      using here_while [of sse_mov256 16 16 256, OF _ _ _ _ h] unfolding of_nat_numeral sse_mov256_def by auto
    have "done_copy m d s N (copy_block_255_back15 (dst + of_nat (r - r mod 256)) (src + of_nat (r - r mod 256)) (of_nat (r mod 256)) m1)"
      by (rule back15_255_copies [OF 1(2) _ N]) (simp add: less_imp_le)
    then show ?thesis unfolding sse_copy_blocks_def Let_def if_P [OF True] 1(1) by simp
  next
    case False
    obtain d1 s1 r1 p1 m1 where 1: "MOVEUNALIGNED_LEFT47 dst src (of_nat r) (unat (src AND 0x0F)) m' = Some (d1, s1, of_nat r1, m1)"
      "here m d s N p1 r1 d1 s1 m1" "r1 \<le> 64"
      using left47_copies [OF blocks h ofs r] by blast
    show ?thesis using back15_copies [OF 1(2,3) N] unfolding sse_copy_blocks_def Let_def if_not_P [OF False] 1(1) by simp
  qed
qed

lemma sse_copies:
  assumes blocks: "mem_blocks m" and ok: "copy_ok m d s N"
  shows "done_copy m d s N (sse_memcpy_generic d s (of_nat N) m)"
proof -
  have N: "N < 2 ^ 64" using ok by (simp add: copy_ok_def)
  note h0 = here_start [OF ok] and g = word_guards [OF N]
  consider "N < 16" | "16 \<le> N" "N \<le> 32" | "32 < N" "N \<le> 48" | "48 < N" "N \<le> 64" | "64 < N" "N \<le> 128" | "128 < N" "N \<le> 512" | "512 < N" by linarith
  then show ?thesis
  proof cases
    case 1
    then show ?thesis using mov15_copies [OF ok] g by (simp add: sse_memcpy_generic_def)
  next
    case 2
    then show ?thesis using here_move_back [OF h0, of 16 1] g
      by (simp add: sse_memcpy_generic_def rte_mov16_def movs_64_1 del: movs.simps)
  next
    case 3
    obtain m1 where m1: "movs 16 2 d s m = Some m1" "here m d s N 32 (N - 32) (d + 32) (s + 32) m1"
      using here_movs [OF h0, of 16 2 32] 3 unfolding of_nat_numeral by auto
    have "done_copy m d s N (mov 16 (d - 16 + of_nat N) (s - 16 + of_nat N) m1)"
      using here_back_start [OF m1(2), of 16] 3 by simp
    then show ?thesis using 3 g m1(1) by (simp add: sse_memcpy_generic_def rte_mov16_def sse_mov32_def del: movs.simps)
  next
    case 4
    obtain m1 where m1: "movs 16 2 d s m = Some m1" "here m d s N 32 (N - 32) (d + 32) (s + 32) m1"
      using here_movs [OF h0, of 16 2 32] 4 unfolding of_nat_numeral by auto
    obtain m2 where m2: "mov 16 (d + 32) (s + 32) m1 = Some m2" "here m d s N 48 (N - 48) (d + 32 + 16) (s + 32 + 16) m2"
      using here_mov [OF m1(2), of 16 16] 4(1) unfolding of_nat_numeral by fastforce
    have "done_copy m d s N (mov 16 (d - 16 + of_nat N) (s - 16 + of_nat N) m2)"
      using here_back_start [OF m2(2), of 16] 4 by simp
    then show ?thesis using 4 g m1(1) m2(1) by (simp add: sse_memcpy_generic_def rte_mov16_def sse_mov32_def del: movs.simps)
  next
    case 5
    then show ?thesis using back15_128_copies [OF h0] g by (simp add: sse_memcpy_generic_def)
  next
    case 6
    have e: "do {m \<leftarrow> sse_mov128 x y a; m \<leftarrow> sse_mov128 (x + 128) (y + 128) m; F m} = do {m \<leftarrow> movs 16 16 x y a; F m}" for x y a and F :: "mem \<Rightarrow> 'z option"
      using movs_add [of 16 8 8 x y a] unfolding sse_mov128_def by simp
    define r1 where "r1 = (if 256 \<le> N then N - 256 else N)"
    obtain d1 s1 m1 p1 where 1: "(if 256 \<le> (of_nat N :: u64) then do {m \<leftarrow> movs 16 16 d s m; Some ((of_nat N :: u64) - 256, d + 256, s + 256, m)} else Some (of_nat N, d, s, m))
        = Some (of_nat r1, d1, s1, m1)" "here m d s N p1 r1 d1 s1 m1"
      using here_stage [OF h0, of 256 16 16 "256 \<le> (of_nat N :: u64)"] g unfolding of_nat_numeral r1_def by auto
    have "done_copy m d s N (copy_block_255_back15 d1 s1 (of_nat r1) m1)"
      by (rule back15_255_copies [OF 1(2)]) (use 6 in \<open>auto simp: r1_def\<close>)
    then show ?thesis unfolding sse_memcpy_generic_def e 1(1) using 6 g by simp
  next
    case 7
    define ofs where "ofs = d AND 0x0F"
    define q where "q = (if ofs = 0 then 0 else 32 - unat ofs)"
    have "(0x0F :: u64) = mask 4" by (simp add: mask_eq_exp_minus_1)
    then have "unat ofs < 16" using unat_and_mask [of d 4] by (simp add: ofs_def)
    then have o: "ofs = 0 \<or> 16 - ofs + 16 = of_nat q \<and> q \<le> 16 * 2" "ofs \<noteq> 0 \<or> q = 0" by (simp_all add: q_def of_nat_diff)
    obtain d1 s1 m1 where 1: "(if 0 < ofs then do {m \<leftarrow> movs 16 2 d s m; Some ((of_nat N :: u64) - (16 - ofs + 16), d + (16 - ofs + 16), s + (16 - ofs + 16), m)} else Some (of_nat N, d, s, m))
        = Some (of_nat (N - q), d1, s1, m1)" "here m d s N q (N - q) d1 s1 m1"
      using here_align [OF h0 _ refl o] 7 by auto
    have "q \<le> 32" by (simp add: q_def)
    then have "done_copy m d s N (sse_copy_blocks d1 s1 (of_nat (N - q)) m1)" using sse_tail [OF blocks 1(2)] 7 by simp
    then show ?thesis unfolding sse_memcpy_generic_def Let_def sse_mov32_def 1(1) [unfolded ofs_def] using 7 g by simp
  qed
qed

text \<open>C39. The copy, with any of the three sets of vector instructions and for every length and alignment: when
  the two ranges are mapped (memory in blocks of 16 bytes) and do not overlap, no access faults, the
  destination is returned, every byte of its range is the byte of the source, and no other byte changes.\<close>

theorem rte_memcpy_copies:
  assumes "mem_blocks m" "copy_ok m d s (unat n)"
  shows "rte_memcpy v d s n m = Some (d, \<lambda>a. if unat (a - d) < unat n then m (s + (a - d)) else m a)"
proof -
  have "done_copy m d s (unat n) (rte_memcpy_aligned v d s n m)" using aligned_copies [OF assms(2)] by simp
  moreover have "done_copy m d s (unat n) (rte_memcpy_generic v d s n m)"
    using avx512_copies [OF assms(2)] avx2_copies [OF assms(2)] sse_copies [OF assms] by (cases v) simp_all
  ultimately show ?thesis by (simp add: rte_memcpy_def done_copy_def copied_def)
qed

text \<open>Seventeen bytes of two misaligned ranges.\<close>

definition two_pages :: mem where
  "two_pages a = (if unat a < 128 then Some (ucast a) else None)"

lemma rte_memcpy_copies_witness:
  "\<forall>v. \<exists>m'. rte_memcpy v 65 3 17 two_pages = Some (65, m') \<and> map m' [64, 65, 81, 82, 128] = [Some 64, Some 3, Some 19, Some 82, None]"
proof -
  have "unat a < 128 \<longleftrightarrow> unat a div 16 < 8" for a :: u64 by linarith
  then have b: "mem_blocks two_pages" unfolding mem_blocks_def two_pages_def by simp
  have u: "unat (c + of_nat i :: u64) = unat c + i" if "i < 17" "unat c < 128" for c i
    using that by (subst unat_add_lt) (simp_all add: unat_of_nat)
  have ok: "copy_ok two_pages 65 3 (unat (17 :: u64))"
    unfolding copy_ok_def two_pages_def word_unat_eq_iff by (simp add: u)
  show ?thesis unfolding rte_memcpy_copies [OF b ok] by (simp add: two_pages_def unsigned_minus_1_eq_mask mask_eq_exp_minus_1)
qed

end
