(* ===== verification/Rte_Ipsec_Group.thy ===== *)
theory Rte_Ipsec_Group
  imports Rte_Mbuf_Correct
begin

text \<open>
  Grouping the mbufs of finished crypto operations by session (rte\_ipsec\_group.h). The arrays \<open>mb\<close> and
  \<open>grp\<close> of the caller are lists, a group holds the index of its first mbuf, and \<open>sess\<close> gives the opaque
  data of the session at an address, of either kind; an address without a session is a fault.
\<close>

unbundle bit_operations_syntax

section \<open>Model\<close>

abbreviation (input) RTE_CRYPTO_OP_STATUS_SUCCESS :: u8 where "RTE_CRYPTO_OP_STATUS_SUCCESS \<equiv> 0"
abbreviation (input) RTE_CRYPTO_OP_WITH_SESSION :: u8 where "RTE_CRYPTO_OP_WITH_SESSION \<equiv> 0"
abbreviation (input) RTE_CRYPTO_OP_SESSIONLESS :: u8 where "RTE_CRYPTO_OP_SESSIONLESS \<equiv> 1"
abbreviation (input) RTE_CRYPTO_OP_SECURITY_SESSION :: u8 where "RTE_CRYPTO_OP_SECURITY_SESSION \<equiv> 2"
abbreviation (input) RTE_MBUF_F_RX_SEC_OFFLOAD :: u64 where "RTE_MBUF_F_RX_SEC_OFFLOAD \<equiv> push_bit 18 1"
abbreviation (input) RTE_MBUF_F_RX_SEC_OFFLOAD_FAILED :: u64 where "RTE_MBUF_F_RX_SEC_OFFLOAD_FAILED \<equiv> push_bit 19 1"

text \<open>Of an operation the fields that matter here; \<open>op_session\<close> is the union of the three pointers.\<close>

record rte_crypto_op =
  op_status :: u8
  op_sess_type :: u8
  op_m_src :: u64
  op_session :: u64

record rte_ipsec_group =
  g_id :: u64
  g_m :: nat
  g_cnt :: u32
  g_rc :: u32

definition rte_ipsec_ses_from_crypto :: "(u64 \<Rightarrow> u64 option) \<Rightarrow> rte_crypto_op \<Rightarrow> u64 option" where
  "rte_ipsec_ses_from_crypto sess cop =
     (if op_sess_type cop = RTE_CRYPTO_OP_SECURITY_SESSION then sess (op_session cop)
      else if op_sess_type cop = RTE_CRYPTO_OP_WITH_SESSION then sess (op_session cop)
      else Some NULL)"

text \<open>The variables of the function; \<open>k\<close> is the length of \<open>gs_dr\<close>.\<close>

record 'd group_state =
  gs_j :: nat
  gs_n :: nat
  gs_ps :: u64
  gs_mb :: "u64 list"
  gs_dr :: "u64 list"
  gs_grp :: "rte_ipsec_group list"
  gs_heap :: "'d heap"

definition mark_result :: "rte_crypto_op \<Rightarrow> 'd heap \<Rightarrow> 'd heap option" where
  "mark_result op h = do {
     h \<leftarrow> mbuf_upd (\<lambda>m. m\<lparr>mb_ol_flags := mb_ol_flags m OR RTE_MBUF_F_RX_SEC_OFFLOAD\<rparr>) (op_m_src op) h;
     if op_status op \<noteq> RTE_CRYPTO_OP_STATUS_SUCCESS
     then mbuf_upd (\<lambda>m. m\<lparr>mb_ol_flags := mb_ol_flags m OR RTE_MBUF_F_RX_SEC_OFFLOAD_FAILED\<rparr>) (op_m_src op) h
     else Some h
   }"

text \<open>Finishing the group \<open>grp[n]\<close>; \<open>op\<close> is \<open>cop[i - 1]\<close>.\<close>

definition close_group :: "(u64 \<Rightarrow> u64 option) \<Rightarrow> rte_crypto_op \<Rightarrow> 'd group_state \<Rightarrow> 'd group_state option" where
  "close_group sess op s = do {
     ptr \<leftarrow> rte_ipsec_ses_from_crypto sess op;
     if gs_n s < length (gs_grp s)
     then let g = gs_grp s ! gs_n s in
       Some (s\<lparr>gs_grp := (gs_grp s)[gs_n s := g\<lparr>g_id := ptr, g_cnt := of_nat (gs_j s - g_m g)\<rparr>], gs_n := gs_n s + 1\<rparr>)
     else None
   }"

definition group_op :: "(u64 \<Rightarrow> u64 option) \<Rightarrow> rte_crypto_op list \<Rightarrow> nat \<Rightarrow> 'd group_state \<Rightarrow> 'd group_state option" where
  "group_op sess cop i s = do {
     let m = op_m_src (cop ! i);
     let ns = op_session (cop ! i);
     h \<leftarrow> mark_result (cop ! i) (gs_heap s);
     let s = s\<lparr>gs_heap := h\<rparr>;
     if ns = NULL then Some (s\<lparr>gs_dr := gs_dr s @ [m]\<rparr>)
     else do {
       s \<leftarrow> (if gs_ps s \<noteq> ns then do {
           s \<leftarrow> (if gs_ps s \<noteq> NULL then close_group sess (cop ! (i - 1)) s else Some s);
           if gs_n s < length (gs_grp s)
           then Some (s\<lparr>gs_grp := (gs_grp s)[gs_n s := (gs_grp s ! gs_n s)\<lparr>g_m := gs_j s\<rparr>], gs_ps := ns\<rparr>)
           else None
         } else Some s);
       if gs_j s < length (gs_mb s) then Some (s\<lparr>gs_mb := (gs_mb s)[gs_j s := m], gs_j := gs_j s + 1\<rparr>) else None
     }
   }"

fun group_loop :: "(u64 \<Rightarrow> u64 option) \<Rightarrow> rte_crypto_op list \<Rightarrow> nat \<Rightarrow> nat \<Rightarrow> 'd group_state \<Rightarrow> 'd group_state option" where
  "group_loop sess cop i 0 s = Some s"
| "group_loop sess cop i (Suc c) s =
     (if i < length cop then do {s \<leftarrow> group_op sess cop i s; group_loop sess cop (i + 1) c s} else None)"

fun put_rest :: "nat \<Rightarrow> u64 list \<Rightarrow> u64 list \<Rightarrow> u64 list option" where
  "put_rest j [] mb = Some mb"
| "put_rest j (m # dr) mb = (if j < length mb then put_rest (j + 1) dr (mb[j := m]) else None)"

definition rte_ipsec_pkt_crypto_group :: "(u64 \<Rightarrow> u64 option) \<Rightarrow> rte_crypto_op list \<Rightarrow> u64 list \<Rightarrow> rte_ipsec_group list
    \<Rightarrow> u16 \<Rightarrow> 'd heap \<Rightarrow> (u16 \<times> u64 list \<times> rte_ipsec_group list \<times> 'd heap) option" where
  "rte_ipsec_pkt_crypto_group sess cop mb grp num h = do {
     s \<leftarrow> group_loop sess cop 0 (unat num) \<lparr>gs_j = 0, gs_n = 0, gs_ps = NULL, gs_mb = mb, gs_dr = [], gs_grp = grp, gs_heap = h\<rparr>;
     s \<leftarrow> (if gs_ps s \<noteq> NULL then close_group sess (cop ! (unat num - 1)) s else Some s);
     mb \<leftarrow> (if length (gs_dr s) \<noteq> 0 \<and> length (gs_dr s) \<noteq> unat num then put_rest (gs_j s) (gs_dr s) (gs_mb s) else Some (gs_mb s));
     Some (of_nat (gs_n s), mb, gs_grp s, gs_heap s)
   }"

section \<open>Runs of one session\<close>

abbreviation with_session :: "rte_crypto_op list \<Rightarrow> rte_crypto_op list" where
  "with_session \<equiv> filter (\<lambda>op. op_session op \<noteq> NULL)"

abbreviation without_session :: "rte_crypto_op list \<Rightarrow> rte_crypto_op list" where
  "without_session \<equiv> filter (\<lambda>op. op_session op = NULL)"

fun session_runs :: "rte_crypto_op list \<Rightarrow> rte_crypto_op list list" where
  "session_runs [] = []"
| "session_runs (x # xs) = (case session_runs xs of [] \<Rightarrow> [[x]]
     | r # rs \<Rightarrow> if op_session x = op_session (hd r) then (x # r) # rs else [x] # r # rs)"

text \<open>They are what the name says: a division into pieces of one session, of which neighbours differ.\<close>

lemma session_runs_ne: "[] \<notin> set (session_runs xs)"
  by (induction xs) (auto split: list.splits if_splits)

lemma concat_session_runs [simp]: "concat (session_runs xs) = xs"
  by (induction xs) (auto split: list.splits)

lemma session_runs_Nil [simp]: "session_runs xs = [] \<longleftrightarrow> xs = []"
  by (cases xs) (auto split: list.splits)

lemma session_runs_one: "r \<in> set (session_runs xs) \<Longrightarrow> x \<in> set r \<Longrightarrow> op_session x = op_session (hd r)"
  by (induction xs arbitrary: r) (auto split: list.splits if_splits)

lemma session_runs_differ: "successively (\<lambda>r r'. op_session (last r) \<noteq> op_session (hd r')) (session_runs xs)"
proof (induction xs)
  case (Cons x xs)
  show ?case
  proof (cases "session_runs xs")
    case r: (Cons r rs)
    then have "r \<noteq> []" using session_runs_ne [of xs] by auto
    then show ?thesis using Cons r session_runs_one [of r xs "last r"] by (cases rs) auto
  qed simp
qed simp

lemma session_runs_snoc:
  "session_runs (xs @ [x]) = (if xs \<noteq> [] \<and> op_session (last xs) = op_session x
     then butlast (session_runs xs) @ [last (session_runs xs) @ [x]] else session_runs xs @ [[x]])"
proof (induction xs)
  case (Cons y ys)
  show ?case
  proof (cases "session_runs ys")
    case Nil
    then show ?thesis using Cons by auto
  next
    case r: (Cons r rs)
    then have "ys \<noteq> []" "r \<noteq> []" using session_runs_ne [of ys] by auto
    then show ?thesis using Cons r by (cases rs) auto
  qed
qed simp

text \<open>Where groups begin, and the operation the code takes the identity of a group from: the one before the
  next group begins, or the last.\<close>

definition run_session :: "rte_crypto_op list \<Rightarrow> u64" where
  "run_session xs = (if with_session xs = [] then NULL else op_session (last (with_session xs)))"

definition run_starts :: "rte_crypto_op list \<Rightarrow> nat list" where
  "run_starts cop = filter (\<lambda>i. op_session (cop ! i) \<noteq> NULL \<and> run_session (take i cop) \<noteq> op_session (cop ! i)) [0..<length cop]"

definition run_closers :: "rte_crypto_op list \<Rightarrow> rte_crypto_op list" where
  "run_closers cop = map (\<lambda>i. cop ! (i - 1)) (tl (run_starts cop)) @ (if run_starts cop = [] then [] else [last cop])"

lemma run_session_NULL: "run_session xs = NULL \<longleftrightarrow> with_session xs = []"
proof (cases "with_session xs = []")
  case False
  then have "last (with_session xs) \<in> set (with_session xs)" by (rule last_in_set)
  then show ?thesis using False by (simp add: run_session_def)
qed (simp add: run_session_def)

lemma run_session_snoc: "run_session (xs @ [x]) = (if op_session x = NULL then run_session xs else op_session x)"
  by (simp add: run_session_def)

lemma run_starts_snoc: "run_starts (xs @ [x]) =
    run_starts xs @ (if op_session x \<noteq> NULL \<and> run_session xs \<noteq> op_session x then [length xs] else [])"
proof -
  have "filter (\<lambda>i. op_session ((xs @ [x]) ! i) \<noteq> NULL \<and> run_session (take i (xs @ [x])) \<noteq> op_session ((xs @ [x]) ! i)) [0..<length xs]
      = run_starts xs"
    unfolding run_starts_def by (rule filter_cong) (auto simp: nth_append)
  then show ?thesis by (simp add: run_starts_def [of "xs @ [x]"])
qed

lemma run_starts_less: "i \<in> set (run_starts xs) \<Longrightarrow> i < length xs"
  by (simp add: run_starts_def)

lemma length_run_starts: "length (run_starts xs) = length (session_runs (with_session xs))"
proof (induction xs rule: rev_induct)
  case (snoc x xs)
  have "session_runs (with_session xs) \<noteq> []" if "with_session xs \<noteq> []" using that by simp
  then show ?case using snoc.IH
    by (auto simp: run_starts_snoc session_runs_snoc run_session_def simp del: session_runs.simps)
qed (simp add: run_starts_def)

definition mid_closers :: "rte_crypto_op list \<Rightarrow> rte_crypto_op list" where
  "mid_closers xs = map (\<lambda>i. xs ! (i - 1)) (tl (run_starts xs))"

lemma mid_closers_snoc:
  "mid_closers (xs @ [x]) = mid_closers xs @
     (if op_session x \<noteq> NULL \<and> run_session xs \<noteq> op_session x \<and> with_session xs \<noteq> [] then [last xs] else [])"
proof -
  have l: "(xs @ [x]) ! (i - 1) = xs ! (i - 1)" if "i \<in> set (tl (run_starts xs))" for i
  proof -
    have "i \<in> set (run_starts xs)" using that by (cases "run_starts xs") auto
    then show ?thesis using run_starts_less [of i xs] by (simp add: nth_append less_imp_diff_less)
  qed
  have e: "run_starts xs = [] \<longleftrightarrow> with_session xs = []" using length_run_starts [of xs] by (metis length_0_conv session_runs_Nil)
  have "xs = [] \<or> (xs @ [x]) ! (length xs - 1) = last xs" by (cases xs rule: rev_cases) (auto simp: nth_append)
  moreover have "with_session xs \<noteq> [] \<Longrightarrow> xs \<noteq> []" by auto
  ultimately show ?thesis unfolding mid_closers_def run_starts_snoc
    using e l by (auto simp: tl_append2)
qed

section \<open>The loop\<close>

definition mark_flags :: "rte_crypto_op list \<Rightarrow> u64 \<Rightarrow> u64" where
  "mark_flags ops a = (if \<exists>op \<in> set ops. op_m_src op = a then RTE_MBUF_F_RX_SEC_OFFLOAD else 0)
     OR (if \<exists>op \<in> set ops. op_m_src op = a \<and> op_status op \<noteq> RTE_CRYPTO_OP_STATUS_SUCCESS then RTE_MBUF_F_RX_SEC_OFFLOAD_FAILED else 0)"

definition marked :: "rte_crypto_op list \<Rightarrow> 'd heap \<Rightarrow> 'd heap" where
  "marked ops h = h\<lparr>h_mbuf := \<lambda>a. map_option (\<lambda>m. m\<lparr>mb_ol_flags := mb_ol_flags m OR mark_flags ops a\<rparr>) (h_mbuf h a)\<rparr>"

lemma mark_flags_snoc: "mark_flags (ops @ [op]) a = mark_flags ops a OR (if op_m_src op = a then RTE_MBUF_F_RX_SEC_OFFLOAD
    OR (if op_status op \<noteq> RTE_CRYPTO_OP_STATUS_SUCCESS then RTE_MBUF_F_RX_SEC_OFFLOAD_FAILED else 0) else 0)"
proof -
  have b: "(if p then c else 0) OR (if q then d else 0) OR (c OR (if s then d else 0)) = c OR (if q \<or> s then d else 0)" for c d :: u64 and p q s
    by (auto simp: bit_eq_iff bit_simps)
  show ?thesis
  proof (cases "op_m_src op = a")
    case True
    then show ?thesis unfolding mark_flags_def by (simp only: b if_True True) (simp add: True)
  qed (simp add: mark_flags_def)
qed

lemma mark_result_marked:
  assumes "h_mbuf h (op_m_src op) \<noteq> None"
  shows "mark_result op (marked ops h) = Some (marked (ops @ [op]) h)"
proof -
  obtain m where m: "h_mbuf h (op_m_src op) = Some m" using assms by auto
  have "(h_mbuf (marked ops h))(op_m_src op \<mapsto> m\<lparr>mb_ol_flags := mb_ol_flags m OR mark_flags (ops @ [op]) (op_m_src op)\<rparr>)
      = h_mbuf (marked (ops @ [op]) h)"
    by (rule ext) (use m in \<open>simp add: marked_def mark_flags_snoc\<close>)
  then have "marked (ops @ [op]) h = (marked ops h)\<lparr>h_mbuf := (h_mbuf (marked ops h))(op_m_src op \<mapsto>
      m\<lparr>mb_ol_flags := mb_ol_flags m OR mark_flags (ops @ [op]) (op_m_src op)\<rparr>)\<rparr>"
    by (simp only:) (simp add: marked_def)
  moreover have "h_mbuf (marked ops h) (op_m_src op) = Some (m\<lparr>mb_ol_flags := mb_ol_flags m OR mark_flags ops (op_m_src op)\<rparr>)"
    using m by (simp add: marked_def)
  ultimately show ?thesis
    by (cases "op_status op = 0") (simp_all add: mark_result_def mbuf_upd_def mark_flags_snoc or.assoc)
qed

text \<open>Element \<open>q\<close> of the array of groups: finished, begun or untouched.\<close>

definition group_entry :: "rte_crypto_op list list \<Rightarrow> u64 \<Rightarrow> nat \<Rightarrow> rte_ipsec_group \<Rightarrow> rte_ipsec_group" where
  "group_entry rs ptr q g = g\<lparr>g_m := length (concat (take q rs)), g_id := ptr, g_cnt := of_nat (length (rs ! q))\<rparr>"

definition entries :: "(u64 \<Rightarrow> u64 option) \<Rightarrow> rte_crypto_op list list \<Rightarrow> rte_crypto_op list \<Rightarrow> nat \<Rightarrow> nat \<Rightarrow> rte_ipsec_group \<Rightarrow> rte_ipsec_group" where
  "entries sess rs cs n q g = (if q < n then group_entry rs (the (rte_ipsec_ses_from_crypto sess (cs ! q))) q g
     else if q = n \<and> n < length rs then g\<lparr>g_m := length (concat (take n rs))\<rparr> else g)"

definition grouped :: "(u64 \<Rightarrow> u64 option) \<Rightarrow> u64 list \<Rightarrow> rte_ipsec_group list \<Rightarrow> 'd heap \<Rightarrow> nat \<Rightarrow> rte_crypto_op list \<Rightarrow> rte_crypto_op list \<Rightarrow> 'd group_state" where
  "grouped sess mb0 grp0 h n cs xs = \<lparr>gs_j = length (with_session xs), gs_n = n, gs_ps = run_session xs,
     gs_mb = map op_m_src (with_session xs) @ drop (length (with_session xs)) mb0,
     gs_dr = map op_m_src (without_session xs),
     gs_grp = map (\<lambda>q. entries sess (session_runs (with_session xs)) cs n q (grp0 ! q)) [0..<length grp0],
     gs_heap = marked xs h\<rparr>"

text \<open>Closing the last run.\<close>

lemma close_group_grouped:
  fixes xs :: "rte_crypto_op list"
  defines "rs \<equiv> session_runs (with_session xs)"
  assumes "rte_ipsec_ses_from_crypto sess op = Some p" "length rs = Suc n" "n < length grp0" "length cs = n"
  shows "close_group sess op (grouped sess mb0 grp0 h n cs xs) = Some (grouped sess mb0 grp0 h (Suc n) (cs @ [op]) xs)"
proof -
  have "length (concat rs) = length (concat (take n rs)) + length (rs ! n)"
    using assms(3) take_Suc_conv_app_nth [of n rs] by (metis concat.simps(1,2) concat_append lessI append_Nil2 length_append order_refl take_all)
  then have l: "length (with_session xs) - length (concat (take n rs)) = length (rs ! n)" by (simp add: rs_def)
  have "(map (\<lambda>q. entries sess rs cs n q (grp0 ! q)) [0..<length grp0])[n := group_entry rs p n (grp0 ! n)]
      = map (\<lambda>q. entries sess rs (cs @ [op]) (Suc n) q (grp0 ! q)) [0..<length grp0]"
    by (rule nth_equalityI) (use assms in \<open>auto simp: nth_list_update entries_def nth_append less_Suc_eq\<close>)
  then show ?thesis using assms(2-4) l unfolding close_group_def grouped_def rs_def [symmetric]
    by (simp add: Let_def entries_def group_entry_def)
qed

text \<open>Writing the next mbuf, and beginning a run.\<close>

lemma list_update_drop: "length A < length mb \<Longrightarrow> (A @ drop (length A) mb)[length A := m] = (A @ [m]) @ drop (length (A @ [m])) mb"
  by (simp add: list_update_append Cons_nth_drop_Suc [symmetric])

lemma entries_take: "take n rs = take n rs' \<Longrightarrow> (n < length rs \<longleftrightarrow> n < length rs') \<Longrightarrow> entries sess rs cs n q g = entries sess rs' cs n q g"
proof -
  assume a: "take n rs = take n rs'" "n < length rs \<longleftrightarrow> n < length rs'"
  have "q < n \<Longrightarrow> rs ! q = rs' ! q" using a(1) by (metis nth_take)
  moreover have "q < n \<Longrightarrow> take q rs = take q rs'" using a(1) by (metis less_imp_le min_def take_take)
  ultimately show ?thesis using a by (simp add: entries_def group_entry_def)
qed

abbreviation at_op :: "(u64 \<Rightarrow> u64 option) \<Rightarrow> u64 list \<Rightarrow> rte_ipsec_group list \<Rightarrow> 'd heap \<Rightarrow> rte_crypto_op list \<Rightarrow> 'd group_state" where
  "at_op sess mb0 grp0 h xs \<equiv> grouped sess mb0 grp0 h (length (session_runs (with_session xs)) - 1) (mid_closers xs) xs"

lemma begin_run:
  assumes "op_session x \<noteq> NULL" "run_session xs \<noteq> op_session x" "length (with_session xs) < length mb0" "n < length grp0"
    and n: "n = length (session_runs (with_session xs))" and m: "m = op_m_src x"
  shows "let s = (grouped sess mb0 grp0 h n cs xs)\<lparr>gs_heap := h'\<rparr>;
      s = s\<lparr>gs_grp := (gs_grp s)[gs_n s := (gs_grp s ! gs_n s)\<lparr>g_m := gs_j s\<rparr>], gs_ps := op_session x\<rparr> in
      s\<lparr>gs_mb := (gs_mb s)[gs_j s := m], gs_j := gs_j s + 1\<rparr> = (grouped sess mb0 grp0 h n cs (xs @ [x]))\<lparr>gs_heap := h'\<rparr>"
proof -
  define rs where "rs = session_runs (with_session xs)"
  have rs: "session_runs (with_session xs @ [x]) = rs @ [[x]]"
    unfolding session_runs_snoc using assms(1,2) by (auto simp: run_session_def rs_def)
  have l: "length (concat rs) = length (with_session xs)" by (simp add: rs_def)
  have "(map (\<lambda>q. entries sess rs cs n q (grp0 ! q)) [0..<length grp0])[n := (grp0 ! n)\<lparr>g_m := length (with_session xs)\<rparr>]
      = map (\<lambda>q. entries sess (rs @ [[x]]) cs n q (grp0 ! q)) [0..<length grp0]"
    by (rule nth_equalityI) (use assms(4,5) l in \<open>auto simp: nth_list_update entries_def rs_def [symmetric] group_entry_def nth_append\<close>)
  moreover have "entries sess rs cs n n (grp0 ! n) = grp0 ! n" using n by (simp add: entries_def rs_def)
  ultimately show ?thesis
    using list_update_drop [of "map op_m_src (with_session xs)" mb0 m] assms(1,3,4) m
    unfolding grouped_def rs_def [symmetric] Let_def by (simp add: rs run_session_snoc)
qed

lemma continue_run:
  assumes "op_session x \<noteq> NULL" "run_session xs = op_session x" "length (with_session xs) < length mb0" and m: "m = op_m_src x"
  shows "let s = (at_op sess mb0 grp0 h xs)\<lparr>gs_heap := h'\<rparr> in
      s\<lparr>gs_mb := (gs_mb s)[gs_j s := m], gs_j := gs_j s + 1\<rparr> = (at_op sess mb0 grp0 h (xs @ [x]))\<lparr>gs_heap := h'\<rparr>"
proof -
  define rs where "rs = session_runs (with_session xs)"
  define n where "n = length rs - 1"
  have ne: "with_session xs \<noteq> []" "op_session (last (with_session xs)) = op_session x"
    using assms(1,2) by (auto simp: run_session_def split: if_splits)
  then have rs: "session_runs (with_session xs @ [x]) = butlast rs @ [last rs @ [x]]" "rs \<noteq> []"
    unfolding session_runs_snoc by (auto simp: rs_def)
  have "entries sess rs cs n q g = entries sess (butlast rs @ [last rs @ [x]]) cs n q g" for cs q g
    by (rule entries_take) (use rs(2) in \<open>auto simp: n_def butlast_conv_take\<close>)
  moreover have "length (butlast rs @ [last rs @ [x]]) - 1 = n" by (simp add: n_def)
  moreover have "mid_closers (xs @ [x]) = mid_closers xs" using assms(2) by (simp add: mid_closers_snoc)
  ultimately show ?thesis
    using list_update_drop [of "map op_m_src (with_session xs)" mb0 m] assms(1,3) m
    unfolding grouped_def rs_def [symmetric] n_def [symmetric] Let_def by (simp add: rs run_session_snoc assms(2))
qed

lemma close_group_heap: "close_group sess op (s\<lparr>gs_heap := h\<rparr>) = map_option (\<lambda>s. s\<lparr>gs_heap := h\<rparr>) (close_group sess op s)"
  by (simp add: close_group_def Let_def split: Option.bind_splits)

lemma length_session_runs: "length (session_runs xs) \<le> length xs"
  by (induction xs) (auto split: list.splits)

lemma group_op_step:
  assumes x: "cop ! length xs = x" "xs \<noteq> [] \<Longrightarrow> cop ! (length xs - 1) = last xs"
    and l: "length xs < length mb0" "length mb0 = length grp0" and m: "h_mbuf h (op_m_src x) \<noteq> None"
    and c: "\<forall>op \<in> set (mid_closers (xs @ [x])). rte_ipsec_ses_from_crypto sess op \<noteq> None"
  shows "group_op sess cop (length xs) (at_op sess mb0 grp0 h xs) = Some (at_op sess mb0 grp0 h (xs @ [x]))"
proof -
  have heap: "gs_heap (at_op sess mb0 grp0 h xs) = marked xs h" by (simp add: grouped_def)
  note mk = mark_result_marked [of h x xs, OF m]
  have j: "length (with_session xs) < length mb0" using length_filter_le [of "\<lambda>op. op_session op \<noteq> NULL" xs] l(1) by linarith
  define s where "s = (at_op sess mb0 grp0 h xs)\<lparr>gs_heap := marked (xs @ [x]) h\<rparr>"
  have ps: "gs_ps s = run_session xs" "gs_j s < length (gs_mb s)" using j by (simp_all add: s_def grouped_def)
  have nn: "gs_heap (grouped sess mb0 grp0 h n cs (xs @ [x])) = marked (xs @ [x]) h" for n cs by (simp add: grouped_def)
  then have upd: "(grouped sess mb0 grp0 h n cs (xs @ [x]))\<lparr>gs_heap := marked (xs @ [x]) h\<rparr> = grouped sess mb0 grp0 h n cs (xs @ [x])" for n cs
    by (simp add: grouped_def)
  show ?thesis
  proof (cases "op_session x = NULL")
    case True
    then show ?thesis unfolding group_op_def Let_def x(1) heap mk
      by (simp add: grouped_def run_session_snoc mid_closers_snoc)
  next
    case False
    define rs where "rs = session_runs (with_session xs)"
    consider (same) "run_session xs = op_session x" | (first) "rs = []" "run_session xs \<noteq> op_session x"
      | (new) "rs \<noteq> []" "run_session xs \<noteq> op_session x" by blast
    then show ?thesis
    proof cases
      case same
      then show ?thesis using continue_run [where sess = sess and ?grp0.0 = grp0 and h = h and h' = "marked (xs @ [x]) h", OF False same j refl] False ps
        unfolding group_op_def Let_def x(1) heap mk s_def same by (simp add: upd)
    next
      case first
      then have z: "run_session xs = NULL" "with_session xs = []" by (simp_all add: rs_def run_session_def)
      then have mc: "mid_closers (xs @ [x]) = mid_closers xs" by (simp add: mid_closers_snoc)
      have n: "length (session_runs (with_session (xs @ [x]))) - 1 = 0" using z(2) by simp
      have "0 < length grp0" using l by linarith
      then show ?thesis using begin_run [where n = 0 and sess = sess and h = h and cs = "mid_closers xs" and h' = "marked (xs @ [x]) h", OF False first(2) j _ _ refl, of grp0] False ps z first
        unfolding group_op_def Let_def x(1) heap mk s_def mc n by (simp add: upd grouped_def)
    next
      case new
      define n where "n = length rs - 1"
      have ne: "with_session xs \<noteq> []" using new(1) by (simp add: rs_def)
      then have nz: "run_session xs \<noteq> NULL" "xs \<noteq> []" by (auto simp: run_session_NULL)
      have mc: "mid_closers (xs @ [x]) = mid_closers xs @ [last xs]" using False new(2) ne by (simp add: mid_closers_snoc)
      then obtain p where p: "rte_ipsec_ses_from_crypto sess (last xs) = Some p" using c by auto
      have len: "length rs = Suc n" using new(1) by (simp add: n_def)
      have k: "length (mid_closers xs) = n" using length_run_starts [of xs] by (simp add: mid_closers_def n_def rs_def)
      have n: "length (session_runs (with_session (xs @ [x]))) - 1 = Suc n"
        using False new(2) ne len by (simp add: session_runs_snoc run_session_def rs_def)
      have le: "Suc n < length grp0" using length_session_runs [of "with_session xs"] len j l unfolding rs_def by linarith
      have hp: "gs_heap (grouped sess mb0 grp0 h n cs xs) = marked xs h" for n cs by (simp add: grouped_def)
      have at: "at_op sess mb0 grp0 h xs = grouped sess mb0 grp0 h n (mid_closers xs) xs" by (simp add: n_def rs_def)
      have cl: "close_group sess (last xs) ((grouped sess mb0 grp0 h n (mid_closers xs) xs)\<lparr>gs_heap := h'\<rparr>)
          = Some ((grouped sess mb0 grp0 h (Suc n) (mid_closers xs @ [last xs]) xs)\<lparr>gs_heap := h'\<rparr>)" for h'
        using close_group_grouped [OF p len [unfolded rs_def] _ k, of grp0 mb0 h] le
        by (simp add: close_group_heap)
      show ?thesis using begin_run [where sess = sess and h = h and cs = "mid_closers xs @ [last xs]" and h' = "marked (xs @ [x]) h", OF False new(2) j le _ refl] False ps nz new len le
        unfolding group_op_def Let_def x(1) x(2) [OF nz(2)] heap mk s_def mc n at by (simp add: upd cl mk hp) (simp add: grouped_def rs_def)
    qed
  qed
qed

lemma mid_closers_append: "set (mid_closers xs) \<subseteq> set (mid_closers (xs @ ys))"
proof (induction ys rule: rev_induct)
  case (snoc y ys)
  then show ?case using mid_closers_snoc [of "xs @ ys" y] by auto
qed simp

lemma group_loop_all:
  assumes "length cop = length mb0" "length mb0 = length grp0" "\<forall>op \<in> set cop. h_mbuf h (op_m_src op) \<noteq> None"
    "\<forall>op \<in> set (mid_closers cop). rte_ipsec_ses_from_crypto sess op \<noteq> None"
  shows "i + c = length cop \<Longrightarrow> group_loop sess cop i c (at_op sess mb0 grp0 h (take i cop)) = Some (at_op sess mb0 grp0 h cop)"
proof (induction c arbitrary: i)
  case (Suc c)
  then have i: "i < length cop" by simp
  have xs: "take i cop @ [cop ! i] = take (Suc i) cop" using i by (simp add: take_Suc_conv_app_nth)
  have "set (mid_closers (take (Suc i) cop)) \<subseteq> set (mid_closers cop)"
    using mid_closers_append [of "take (Suc i) cop" "drop (Suc i) cop"] by simp
  then have "\<forall>op \<in> set (mid_closers (take i cop @ [cop ! i])). rte_ipsec_ses_from_crypto sess op \<noteq> None"
    unfolding xs using assms(4) by blast
  moreover have "cop ! (length (take i cop) - 1) = last (take i cop)" if "take i cop \<noteq> []"
    using that i by (auto simp: last_conv_nth min_def)
  ultimately have "group_op sess cop i (at_op sess mb0 grp0 h (take i cop)) = Some (at_op sess mb0 grp0 h (take (Suc i) cop))"
    using group_op_step [where cop = cop and xs = "take i cop" and x = "cop ! i" and ?mb0.0 = mb0 and ?grp0.0 = grp0 and h = h and sess = sess]
      i assms(1-3) xs by (simp add: min_def)
  then show ?case using Suc i by simp
qed simp

lemma put_rest_exact: "j + length dr \<le> length mb \<Longrightarrow> put_rest j dr mb = Some (take j mb @ dr @ drop (j + length dr) mb)"
proof (induction dr arbitrary: j mb)
  case (Cons m dr)
  then show ?case by (simp add: take_update_swap take_Suc_conv_app_nth list_update_append upd_conv_take_nth_drop add.commute)
qed simp

section \<open>Results\<close>

lemma run_closers_mid: "run_closers cop = mid_closers cop @ (if with_session cop = [] then [] else [last cop])"
proof -
  have "run_starts cop = [] \<longleftrightarrow> with_session cop = []" using length_run_starts [of cop] by (metis length_0_conv session_runs_Nil)
  then show ?thesis by (simp add: run_closers_def mid_closers_def)
qed

lemma length_run_closers: "length (run_closers cop) = length (session_runs (with_session cop))"
  using length_run_starts [of cop] by (cases "run_starts cop") (auto simp: run_closers_def)

lemma run_closers_tidy:
  "sorted_wrt (\<lambda>a b. op_session a \<noteq> NULL \<longrightarrow> op_session b \<noteq> NULL) cop \<Longrightarrow> run_closers cop = map last (session_runs (with_session cop))"
proof (induction cop rule: rev_induct)
  case (snoc x xs)
  show ?case
  proof (cases "op_session x = NULL")
    case True
    then have "with_session xs = []" using snoc.prems by (auto simp: sorted_wrt_append filter_empty_conv)
    then show ?thesis using True snoc by (simp add: run_closers_mid sorted_wrt_append mid_closers_snoc)
  next
    case False
    have ih: "mid_closers xs @ (if with_session xs = [] then [] else [last xs]) = map last (session_runs (with_session xs))"
      using snoc by (simp add: run_closers_mid sorted_wrt_append)
    have "with_session xs \<noteq> [] \<Longrightarrow> mid_closers xs = map last (butlast (session_runs (with_session xs)))"
      by (simp add: map_butlast flip: ih)
    then show ?thesis using False ih
      by (auto simp: run_closers_mid mid_closers_snoc session_runs_snoc run_session_def)
  qed
qed (simp add: run_closers_def run_starts_def)

text \<open>C40. Grouping finished crypto operations. The mbufs of operations with a session come first, in their
  order, then those without; each group is a run of neighbours of one session in that sequence, with its
  first index and length; every mbuf is marked with the outcome of its operation; and nothing else changes. The
  identity of a group is taken from the operation just before the next group: that is the last one of the
  group when operations without session do not follow others, but one without session otherwise. When no
  operation has a session the array of mbufs is left as it was.\<close>

theorem ipsec_group_exact:
  assumes "length cop = unat num" "length mb = unat num" "length grp = unat num" "\<forall>op \<in> set cop. h_mbuf h (op_m_src op) \<noteq> None"
    and "\<forall>op \<in> set (run_closers cop). rte_ipsec_ses_from_crypto sess op \<noteq> None"
  shows "rte_ipsec_pkt_crypto_group sess cop mb grp num h =
      (let rs = session_runs (with_session cop) in Some (of_nat (length rs),
        if with_session cop = [] then mb else map op_m_src (with_session cop @ without_session cop),
        map (\<lambda>q. if q < length rs then group_entry rs (the (rte_ipsec_ses_from_crypto sess (run_closers cop ! q))) q (grp ! q) else grp ! q)
          [0..<length grp],
        marked cop h))
    \<and> (sorted_wrt (\<lambda>a b. op_session a \<noteq> NULL \<longrightarrow> op_session b \<noteq> NULL) cop \<longrightarrow>
        run_closers cop = map last (session_runs (with_session cop)))"
proof
  define rs where "rs = session_runs (with_session cop)"
  have "set (mid_closers cop) \<subseteq> set (run_closers cop)" by (auto simp: run_closers_mid)
  then have mid: "\<forall>op \<in> set (mid_closers cop). rte_ipsec_ses_from_crypto sess op \<noteq> None" using assms(5) by blast
  have "at_op sess mb grp h [] = \<lparr>gs_j = 0, gs_n = 0, gs_ps = NULL, gs_mb = mb, gs_dr = [], gs_grp = grp, gs_heap = h\<rparr>"
    by (simp add: grouped_def run_session_def entries_def marked_def mark_flags_def map_nth option.map_id [unfolded id_def])
  then have loop: "group_loop sess cop 0 (unat num) \<lparr>gs_j = 0, gs_n = 0, gs_ps = NULL, gs_mb = mb, gs_dr = [], gs_grp = grp, gs_heap = h\<rparr>
      = Some (at_op sess mb grp h cop)"
    using group_loop_all [OF _ _ assms(4) mid, of mb grp 0 "unat num"] assms(1-3) by simp
  have parts: "length (with_session cop) + length (without_session cop) = unat num"
    using sum_length_filter_compl [of "\<lambda>op. op_session op \<noteq> NULL" cop] assms(1) by simp
  have entry: "entries sess rs (run_closers cop) (length rs) q g
      = (if q < length rs then group_entry rs (the (rte_ipsec_ses_from_crypto sess (run_closers cop ! q))) q g else g)" for q g
    by (simp add: entries_def)
  have ps: "gs_ps (at_op sess mb grp h cop) = run_session cop" by (simp add: grouped_def)
  have closed: "(if run_session cop \<noteq> NULL then close_group sess (cop ! (unat num - 1)) (at_op sess mb grp h cop) else Some (at_op sess mb grp h cop))
      = Some (grouped sess mb grp h (length rs) (run_closers cop) cop)"
  proof (cases "with_session cop = []")
    case True
    then show ?thesis by (simp add: run_session_NULL run_closers_mid rs_def)
  next
    case False
    then have ne: "cop \<noteq> []" "rs \<noteq> []" by (auto simp: rs_def)
    then have last: "cop ! (unat num - 1) = last cop" using assms(1) by (simp add: last_conv_nth)
    obtain p where p: "rte_ipsec_ses_from_crypto sess (last cop) = Some p" using assms(5) False by (auto simp: run_closers_mid)
    have n: "length rs = Suc (length rs - 1)" using ne(2) by simp
    have l: "length rs - 1 < length grp" using length_session_runs [of "with_session cop", folded rs_def] n parts assms(3) by linarith
    have m: "length (mid_closers cop) = length rs - 1" using length_run_starts [of cop] by (simp add: mid_closers_def rs_def)
    show ?thesis
      using close_group_grouped [OF p n [unfolded rs_def] l [unfolded rs_def] m [unfolded rs_def], of mb h] False n
      unfolding last by (simp add: run_session_NULL run_closers_mid rs_def)
  qed
  have "rte_ipsec_pkt_crypto_group sess cop mb grp num h = Some (of_nat (length rs),
      if with_session cop = [] then mb else map op_m_src (with_session cop @ without_session cop),
      map (\<lambda>q. entries sess rs (run_closers cop) (length rs) q (grp ! q)) [0..<length grp], marked cop h)"
    unfolding rte_ipsec_pkt_crypto_group_def loop Option.bind.simps ps closed
    using parts assms(2) put_rest_exact [of "length (with_session cop)" "map op_m_src (without_session cop)"
      "map op_m_src (with_session cop) @ drop (length (with_session cop)) mb"]
    by (cases "with_session cop = []"; cases "without_session cop = []") (auto simp: grouped_def rs_def simp del: filter_empty_conv)
  then show "rte_ipsec_pkt_crypto_group sess cop mb grp num h =
      (let rs = session_runs (with_session cop) in Some (of_nat (length rs),
        if with_session cop = [] then mb else map op_m_src (with_session cop @ without_session cop),
        map (\<lambda>q. if q < length rs then group_entry rs (the (rte_ipsec_ses_from_crypto sess (run_closers cop ! q))) q (grp ! q) else grp ! q)
          [0..<length grp],
        marked cop h))"
    unfolding Let_def entry [unfolded rs_def] rs_def .
  show "sorted_wrt (\<lambda>a b. op_session a \<noteq> NULL \<longrightarrow> op_session b \<noteq> NULL) cop \<longrightarrow>
      run_closers cop = map last (session_runs (with_session cop))"
    by (rule impI, rule run_closers_tidy)
qed

text \<open>Three packets, the second without a session: it ends up behind the others, and the group of the first
  gets the identity 0 from it instead of that of its session.\<close>

definition sample_ops :: "rte_crypto_op list" where
  "sample_ops = [\<lparr>op_status = 0, op_sess_type = RTE_CRYPTO_OP_WITH_SESSION, op_m_src = 10, op_session = 100\<rparr>,
     \<lparr>op_status = 0, op_sess_type = RTE_CRYPTO_OP_SESSIONLESS, op_m_src = 20, op_session = 0\<rparr>,
     \<lparr>op_status = 5, op_sess_type = RTE_CRYPTO_OP_WITH_SESSION, op_m_src = 1000, op_session = 200\<rparr>]"

definition sample_sess :: "u64 \<Rightarrow> u64 option" where
  "sample_sess a = (if a = NULL then None else Some (a + 7))"

lemma ipsec_group_exact_witness:
  "rte_ipsec_pkt_crypto_group sample_sess sample_ops [0, 0, 0] (replicate 3 \<lparr>g_id = 0, g_m = 0, g_cnt = 0, g_rc = 0\<rparr>) 3 ex_heap
     = Some (2, [10, 1000, 20], [\<lparr>g_id = 0, g_m = 0, g_cnt = 1, g_rc = 0\<rparr>, \<lparr>g_id = 207, g_m = 1, g_cnt = 1, g_rc = 0\<rparr>, \<lparr>g_id = 0, g_m = 0, g_cnt = 0, g_rc = 0\<rparr>],
         marked sample_ops ex_heap)"
proof -
  have "run_closers sample_ops = [sample_ops ! 1, sample_ops ! 2]"
    by (simp add: sample_ops_def run_closers_def run_starts_def run_session_def upt_rec)
  then have r: "run_closers sample_ops = tl sample_ops" by (simp add: sample_ops_def)
  have h: "\<forall>op \<in> set sample_ops. h_mbuf ex_heap (op_m_src op) \<noteq> None" by (simp add: sample_ops_def ex_heap_def)
  have c: "\<forall>op \<in> set (run_closers sample_ops). rte_ipsec_ses_from_crypto sample_sess op \<noteq> None"
    unfolding r by (simp add: sample_ops_def rte_ipsec_ses_from_crypto_def sample_sess_def)
  have l: "length sample_ops = unat (3 :: u16)" "length [0, 0, 0 :: u64] = unat (3 :: u16)"
    "length (replicate 3 \<lparr>g_id = 0, g_m = 0, g_cnt = 0, g_rc = 0\<rparr>) = unat (3 :: u16)" by (simp_all add: sample_ops_def)
  show ?thesis
    unfolding conjunct1 [OF ipsec_group_exact [OF l h c]] r
    by (simp add: sample_ops_def rte_ipsec_ses_from_crypto_def sample_sess_def group_entry_def upt_rec numeral_3_eq_3)
qed

end
