(* ===== verification/Spec2Isabelle.thy ===== *)
theory Spec2Isabelle
  imports Rte_Mbuf_Fields Vote_Correct Send_Correct Rte_Bitmap_Correct Rte_Ring_Concurrent Rte_Locks Rte_Ip_Mbuf
    Rte_Meter_Correct Rte_Rcu_Correct Rte_Thash_Correct Rte_Lpm_Correct Rte_Stack_Lf Rte_Stack_Std
    Rte_Red Rte_Ring_Peek Rte_Fbk_Hash_Correct Rte_Jhash_Correct Rte_Mcslock Rte_Pflock Rte_Lock_Recursive
    Rte_Ether Rte_Crc Rte_Memcpy_Correct Rte_Ipsec_Group
begin

text \<open>
  \<^bold>\<open>The program.\<close> The repository holds three small programs on top of DPDK: a packet sender
  (main\_pkt\_send.cpp), a plain receiver (main\_pkt\_recv.cpp) and a receiver that counts votes
  (main.cpp), with the shared packet\_utils.h and packet\_utils.cpp, and the DPDK headers they are
  compiled with (include/). Much of DPDK's fast path is code in these headers: the sender allocates
  packet buffers (rte\_mbuf.h) from a pool (rte\_mempool.h) whose objects sit in per-lcore caches and
  a lock-free ring (rte\_ring*.h), fills them and hands them to a driver through rte\_ethdev.h; the
  receivers poll the driver, read the packets and free the buffers.

  \<^bold>\<open>Theories and code.\<close>
  \<^item> \<open>Prelude\<close>: word types, error numbers and the lemmas on words and lists that all others share.
    \<open>Reservations\<close>: disjoint stretches of numbers handed out and returned in order, the common core of
    the concurrent ring and the ticket lock.
  \<^item> \<open>Rte_Ring_Elems\<close>, \<open>Rte_Ring\<close>, \<open>Rte_Ring_Api\<close>: the element copies, the head and tail moves in all
    synchronisation modes and the public calls (rte\_ring\_elem\_pvt.h, rte\_ring\_generic\_pvt.h,
    rte\_ring\_c11\_pvt.h, the HTS and RTS variants, rte\_ring.h, rte\_ring\_elem.h). A ring is a record of
    its 32-bit counters and its slots as 32-bit words. \<open>Rte_Ring_Correct\<close>: enqueue and dequeue refine a
    bounded FIFO queue, the C11 code equals the generic one, and the counters are exact.
    \<open>Rte_Ring_Concurrent\<close>: any number of producers and consumers as interleaved machines, one step per
    access to a shared word or slot; order, bound and disjointness as an invariant, and progress.
  \<^item> \<open>Rte_Mempool\<close>, \<open>Rte_Mempool_Correct\<close>: pools, caches and the calls of the driver table; objects are
    conserved over any history of gets, puts and flushes.
  \<^item> \<open>Rte_Mbuf\<close>, \<open>Rte_Mbuf_Correct\<close>, \<open>Rte_Mbuf_Fields\<close>: buffers in a heap of records and bytes, reference
    counts, chains, attaching, room at both ends, and the packed fields.
  \<^item> \<open>Rte_Ip\<close>, \<open>Rte_Ip_Correct\<close>, \<open>Rte_Ip_Mbuf\<close>: the checksums of rte\_ip.h over byte lists and over chains
    of segments; storing a computed checksum makes the packet verify, and nothing else does.
  \<^item> \<open>Rte_Ethdev\<close>, \<open>Rte_Ethdev_Correct\<close>: burst calls and the transmit buffer of rte\_ethdev.h; what is
    pushed through a buffer is sent or reported, once and in order.
  \<^item> \<open>App_Port\<close>, \<open>Packet_Send\<close>, \<open>Packet_Recv\<close>: port bring-up, start-up checks, the packet layout and the
    loops of the three programs; the control calls of port bring-up, with all their arguments, are compared
    with the list of calls expected. \<open>Packets_Correct\<close>, \<open>Send_Correct\<close> and \<open>Vote_Correct\<close>: what the packets of
    the sender do to either receiver, that the sender loses no buffer before an allocation fails for want
    of one, and what the votes add up to.
  \<^item> \<open>Rte_Common\<close>, \<open>Rte_Bitmap\<close>, \<open>Rte_Bitmap_Correct\<close>: powers of two and bit scans, and the two-level
    bitmap, which is a set of positions scanned in cyclic order.
  \<^item> \<open>Rte_Locks\<close>: the ticket lock and the reader/writer lock as machines of atomic accesses; exclusion
    and hand-over in order of arrival. \<open>Rte_Mcslock\<close>: the queue lock, whose nodes are linked in the order
    of arrival. \<open>Rte_Pflock\<close>: the phase-fair lock, whose 16-bit counters may wrap. \<open>Rte_Lock_Recursive\<close>: the
    spin lock, generic and x86, and the recursive locks on top of the spin and the ticket lock.
  \<^item> \<open>Rte_Meter\<close>, \<open>Rte_Meter_Correct\<close>: the three traffic meters of rte\_meter.h and their rate bounds.
  \<^item> \<open>Rte_Rcu\<close>, \<open>Rte_Rcu_Correct\<close>: the quiescent-state reclamation of rte\_rcu\_qsbr.h as interleaved
    readers and writers: when a check may be believed, that it ends, and a run in which it must not be.
  \<^item> \<open>Rte_Thash\<close>, \<open>Rte_Thash_Correct\<close>: the software RSS hash of rte\_thash.h is the Toeplitz hash of the bits
    in wire order. \<open>Rte_Lpm\<close>, \<open>Rte_Lpm_Correct\<close>: single, bulk and vector route lookup (rte\_lpm.h,
    rte\_lpm\_sse.h) agree and follow the bit fields of the tables.
  \<^item> \<open>Rte_Stack\<close>: the array stack and the machine of the lock-free stack (rte\_stack\_std.h, rte\_stack\_lf.h and
    its generic and C11 list operations). \<open>Rte_Stack_Std\<close>: a bounded stack. \<open>Rte_Stack_Lf\<close>: who holds which
    element as an invariant; linearizability and progress. The C11 code tests a variable that it has not
    initialised when its first walk runs off the list; that step is undefined, and a run gets there.
  \<^item> \<open>Rte_Ring_Peek\<close>: the two-stage and zero-copy calls of the ring (rte\_ring\_peek*.h) as transactions on
    the queue, objects written in place between the two stages included.
  \<^item> \<open>Rte_Red\<close>: random early detection (rte\_red.h): the average follows the load, idle times of the queue
    included, and a drop comes in time.
  \<^item> \<open>Rte_Fbk_Hash\<close>, \<open>Rte_Fbk_Hash_Correct\<close>: the four-byte key hash table (rte\_fbk\_hash.h) is a partial
    map, but for deleting an absent key 0.
  \<^item> \<open>Rte_Jhash\<close>, \<open>Rte_Jhash_Correct\<close>: the Jenkins hash (rte\_jhash.h), however the key lies in memory, is one
    function of its bytes, for one hash or two. \<open>Rte_Crc_Tables\<close>, \<open>Rte_Crc\<close>: the CRC hash (rte\_hash\_crc.h); every table is a sum
    of eight of its entries, which makes the words of the software equal to the check bit by bit.
  \<^item> \<open>Rte_Ether\<close>: tests of Ethernet addresses, and VLAN tags put into and taken out of an mbuf
    (rte\_ether.h).
  \<^item> \<open>Rte_Memcpy\<close>, \<open>Rte_Memcpy_Correct\<close>: the copy of rte\_memcpy.h with 64, 32 and 16-byte registers over a
    memory with unmapped addresses; a copy is a prefix already made, and each move makes it longer.
  \<^item> \<open>Rte_Ipsec_Group\<close>: finished crypto operations grouped by session (rte\_ipsec\_group.h), as the runs of the
    sequence of operations with a session.

  \<^bold>\<open>Interfaces.\<close> Where one part relies on another, the contract is a locale that the provider's model
  interprets: the driver of a pool by the ring (\<open>Rte_Mempool_Correct\<close>), the sink of a transmit buffer
  and the device of the sender by a driver that transmits into a ring (\<open>Rte_Ethdev_Correct\<close>,
  \<open>Send_Correct\<close>), the payload sum of a transport checksum by the IPv4 and the IPv6 code
  (\<open>Rte_Ip_Correct\<close>), a token bucket by the six buckets of the meters (\<open>Rte_Meter_Correct\<close>), the lock
  under a recursive lock by the spin lock and the ticket lock (\<open>Rte_Lock_Recursive\<close>), and the reader of
  words of a hashed key by the aligned and the three shifted ways (\<open>Rte_Jhash_Correct\<close>).

  \<^bold>\<open>Conventions.\<close> Machine integers are words of their width, so that sums wrap as in the code. A value
  \<open>None\<close> stands for undefined behaviour of C (an access outside an array or to an unmapped address, a
  division by zero) or for a step that is not enabled; error codes are ordinary results, as in the code.
  The machine is little endian, as the build's. Loops are structural recursion on their counter where
  the code has one; loops that may run forever (the lcore loop of the sender, walks along the links of
  a chain, which could be cyclic) are \<open>partial_function (option)\<close>, and what is claimed of them includes
  that they return. No fuel is used.

  \<^bold>\<open>Assumptions that stand in the theorems.\<close> A thread of the concurrent ring is not overtaken by 2^32
  objects between loading a head and swapping it (\<open>not_lapped\<close>), as the 32-bit counters demand; the
  ticket, reader/writer and phase-fair locks are shared by fewer than 2^16, 2^31 and 2^12 threads, and a
  recursive lock is nested fewer than 2^31 times; memory is sequentially consistent, the barriers
  and acquire/release orders of the code being what makes its accesses appear in program order; meters
  see time going forward and no overflow of 64 bits of tokens; the compiled decay tables of random early
  detection have no entry above one, and a queue was not idle for so short a time that the decay is undefined; the crc32 instructions do what the manual of
  the processor says; the ranges of a memory copy do not overlap and memory is mapped in blocks of 16 bytes.

  \<^bold>\<open>Not modelled.\<close> Compiled code of DPDK that is not in the repository (the environment layer, drivers,
  configuration of devices, the slow paths of mbuf reads) is an argument of the definitions that call
  it. Printing is left out, except for the values the plain receiver prints. Headers that only declare
  types and prototypes (flow, event, crypto, regex, traffic management and others), the debug
  configurations with their assertions, transactional-memory lock variants, the floating-point
  active queue management of rte\_pie.h, and the generated build directories are not modelled.
\<close>

end
